(* ===== verification/Gmdb_Prelude.thy ===== *)
theory Gmdb_Prelude
  imports Main "HOL-Library.Word"
begin

text \<open>
  Shared vocabulary of the development: the machine integers of the Go sources as words, byte
  buffers as byte lists, the little-endian accessors of \<^verbatim>\<open>encoding/binary\<close>, the bit-counting
  functions of \<^verbatim>\<open>math/bits\<close> that the sources call, and the generic list, word and buffer
  lemmas the component theories rest on.

  Go slices are lists. A Go slice expression out of range panics; the definitions of the
  components check the bound where the source relies on it and return an error value there.
\<close>

unbundle bit_operations_syntax

type_synonym byte = "8 word"
type_synonym u16 = "16 word"
type_synonym u32 = "32 word"
type_synonym u64 = "64 word"
type_synonym bytes = "byte list"

named_theorems codec_simps \<open>reading a field of a buffer after writes to it\<close>
named_theorems word_bits \<open>bits of the words and masks the sources compute\<close>

section \<open>Little-endian fields of a byte buffer\<close>

primrec le_bytes :: "nat \<Rightarrow> nat \<Rightarrow> bytes" where
  "le_bytes 0 x = []"
| "le_bytes (Suc n) x = (word_of_nat x :: byte) # le_bytes n (x div 256)"

primrec le_nat :: "bytes \<Rightarrow> nat" where
  "le_nat [] = 0"
| "le_nat (b # bs) = unat b + 256 * le_nat bs"

definition field :: "bytes \<Rightarrow> nat \<Rightarrow> nat \<Rightarrow> bytes" where
  "field buf off n = take n (drop off buf)"

definition overwrite :: "bytes \<Rightarrow> nat \<Rightarrow> bytes \<Rightarrow> bytes" where
  "overwrite buf off bs = take off buf @ bs @ drop (off + length bs) buf"

definition Uint16 :: "bytes \<Rightarrow> nat \<Rightarrow> u16" where
  "Uint16 buf off = word_of_nat (le_nat (field buf off 2))"

definition Uint32 :: "bytes \<Rightarrow> nat \<Rightarrow> u32" where
  "Uint32 buf off = word_of_nat (le_nat (field buf off 4))"

definition Uint64 :: "bytes \<Rightarrow> nat \<Rightarrow> u64" where
  "Uint64 buf off = word_of_nat (le_nat (field buf off 8))"

definition PutUint8 :: "bytes \<Rightarrow> nat \<Rightarrow> byte \<Rightarrow> bytes" where
  "PutUint8 buf off v = overwrite buf off [v]"

definition PutUint16 :: "bytes \<Rightarrow> nat \<Rightarrow> u16 \<Rightarrow> bytes" where
  "PutUint16 buf off v = overwrite buf off (le_bytes 2 (unat v))"

definition PutUint32 :: "bytes \<Rightarrow> nat \<Rightarrow> u32 \<Rightarrow> bytes" where
  "PutUint32 buf off v = overwrite buf off (le_bytes 4 (unat v))"

definition PutUint64 :: "bytes \<Rightarrow> nat \<Rightarrow> u64 \<Rightarrow> bytes" where
  "PutUint64 buf off v = overwrite buf off (le_bytes 8 (unat v))"

definition clear_range :: "bytes \<Rightarrow> nat \<Rightarrow> nat \<Rightarrow> bytes" where
  "clear_range buf lo hi = overwrite buf lo (replicate (hi - lo) 0)"

section \<open>Bit counting\<close>

text \<open>\<^verbatim>\<open>bits.TrailingZeros64\<close> (64 on zero) and \<^verbatim>\<open>bits.OnesCount64\<close>, \<^verbatim>\<open>bits.OnesCount8\<close>.\<close>

definition TrailingZeros64 :: "u64 \<Rightarrow> nat" where
  "TrailingZeros64 w = length (takeWhile (\<lambda>k. \<not> bit w k) [0..<64])"

definition OnesCount64 :: "u64 \<Rightarrow> nat" where
  "OnesCount64 w = length (filter (bit w) [0..<64])"

definition OnesCount8 :: "byte \<Rightarrow> nat" where
  "OnesCount8 w = length (filter (bit w) [0..<8])"

section \<open>Error results\<close>

text \<open>Sequencing of fallible steps: the first error is the result.\<close>

fun bind_res :: "'e + 'a \<Rightarrow> ('a \<Rightarrow> 'e + 'b) \<Rightarrow> 'e + 'b" where
  "bind_res (Inl e) f = Inl e"
| "bind_res (Inr x) f = f x"

lemma bind_res_Inr_iff: "bind_res r f = Inr y \<longleftrightarrow> (\<exists>x. r = Inr x \<and> f x = Inr y)"
  by (cases r) auto

lemma bind_res_Inl_iff:
  "bind_res r f = Inl e \<longleftrightarrow> r = Inl e \<or> (\<exists>x. r = Inr x \<and> f x = Inl e)"
  by (cases r) auto

section \<open>Lemmas on buffers\<close>

lemma length_le_bytes [simp]: "length (le_bytes n x) = n"
  by (induction n arbitrary: x) auto

lemma unat_byte_less: "unat (b :: byte) < 256"
proof -
  have "unat b < 2 ^ LENGTH(8)" by (rule unsigned_less)
  then show ?thesis by simp
qed

lemma le_nat_less: "le_nat bs < 256 ^ length bs"
proof (induction bs)
  case Nil
  then show ?case by simp
next
  case (Cons b bs)
  have "unat b < 256" by (rule unat_byte_less)
  with Cons show ?case by (simp add: algebra_simps)
qed

lemma le_nat_le_bytes: "le_nat (le_bytes n x) = x mod 256 ^ n"
proof (induction n arbitrary: x)
  case 0
  then show ?case by simp
next
  case (Suc n)
  have "unat (word_of_nat x :: byte) = x mod 256"
    by (simp add: unat_of_nat)
  moreover have "x mod 256 ^ Suc n = x mod 256 + 256 * (x div 256 mod 256 ^ n)"
    using mod_mult2_eq [of x 256 "256 ^ n"] by simp
  ultimately show ?case by (simp add: Suc)
qed

lemma le_bytes_le_nat: "le_bytes (length bs) (le_nat bs) = bs"
proof (induction bs)
  case Nil
  then show ?case by simp
next
  case (Cons b bs)
  have b: "unat b < 256" by (rule unat_byte_less)
  have "word_of_nat (256 * le_nat bs) = (0 :: byte)"
    by (simp only: word_of_nat_eq_0_iff) simp
  then have "word_of_nat (unat b + 256 * le_nat bs) = b"
    by (simp add: of_nat_add del: of_nat_mult)
  moreover have "(unat b + 256 * le_nat bs) div 256 = le_nat bs"
    using b by simp
  ultimately show ?case by (simp add: Cons)
qed

lemma length_field [simp]: "off + n \<le> length buf \<Longrightarrow> length (field buf off n) = n"
  by (simp add: field_def)

lemma length_overwrite [simp, codec_simps]:
  "off + length bs \<le> length buf \<Longrightarrow> length (overwrite buf off bs) = length buf"
  by (simp add: overwrite_def)

lemma field_overwrite_same:
  "off + length bs \<le> length buf \<Longrightarrow> n = length bs \<Longrightarrow> field (overwrite buf off bs) off n = bs"
  by (simp add: field_def overwrite_def)

lemma field_overwrite_before:
  "off' + n \<le> off \<Longrightarrow> off \<le> length buf \<Longrightarrow> field (overwrite buf off bs) off' n = field buf off' n"
  by (rule nth_equalityI) (auto simp: field_def overwrite_def nth_append)

lemma field_overwrite_after:
  "off + length bs \<le> off' \<Longrightarrow> off + length bs \<le> length buf \<Longrightarrow>
   field (overwrite buf off bs) off' n = field buf off' n"
  by (simp add: field_def overwrite_def)

lemma nth_overwrite:
  assumes "off + length bs \<le> length buf"
  shows "overwrite buf off bs ! i =
    (if off \<le> i \<and> i < off + length bs then bs ! (i - off) else buf ! i)"
  using assms by (auto simp: overwrite_def nth_append)

lemma field_nth: "off + n \<le> length buf \<Longrightarrow> i < n \<Longrightarrow> field buf off n ! i = buf ! (off + i)"
  by (simp add: field_def)

lemma overwrite_field_id: "off + n \<le> length buf \<Longrightarrow> overwrite buf off (field buf off n) = buf"
  by (simp add: overwrite_def field_def add.commute flip: drop_drop)

lemma word_le_bytes:
  fixes w :: "'a::len word"
  assumes "256 ^ n = (2::nat) ^ LENGTH('a)"
  shows "(word_of_nat (le_nat (le_bytes n (unat w))) :: 'a word) = w"
proof -
  have "unat w < 2 ^ LENGTH('a)" by (rule unsigned_less)
  then show ?thesis by (simp add: le_nat_le_bytes assms)
qed

lemma le_bytes_word:
  assumes "256 ^ length bs = (2::nat) ^ LENGTH('a::len)"
  shows "le_bytes (length bs) (unat (word_of_nat (le_nat bs) :: 'a word)) = bs"
proof -
  have "le_nat bs < 2 ^ LENGTH('a)" using le_nat_less [of bs] by (simp add: assms)
  then show ?thesis by (simp add: unat_of_nat le_bytes_le_nat)
qed

text \<open>Reading back what was written, and reading beside it.\<close>

lemma Uint16_overwrite [codec_simps]:
  "off + 2 \<le> length buf \<Longrightarrow> Uint16 (overwrite buf off (le_bytes 2 (unat v))) off = v"
  by (simp add: Uint16_def field_overwrite_same word_le_bytes del: le_bytes.simps)

lemma Uint32_overwrite [codec_simps]:
  "off + 4 \<le> length buf \<Longrightarrow> Uint32 (overwrite buf off (le_bytes 4 (unat v))) off = v"
  by (simp add: Uint32_def field_overwrite_same word_le_bytes del: le_bytes.simps)

lemma Uint64_overwrite [codec_simps]:
  "off + 8 \<le> length buf \<Longrightarrow> Uint64 (overwrite buf off (le_bytes 8 (unat v))) off = v"
  by (simp add: Uint64_def field_overwrite_same word_le_bytes del: le_bytes.simps)

lemma Uint16_overwrite_other [codec_simps]:
  "off' + 2 \<le> off \<or> off + length bs \<le> off' \<Longrightarrow> off + length bs \<le> length buf \<Longrightarrow>
   Uint16 (overwrite buf off bs) off' = Uint16 buf off'"
  by (auto simp: Uint16_def field_overwrite_before field_overwrite_after)

lemma Uint32_overwrite_other [codec_simps]:
  "off' + 4 \<le> off \<or> off + length bs \<le> off' \<Longrightarrow> off + length bs \<le> length buf \<Longrightarrow>
   Uint32 (overwrite buf off bs) off' = Uint32 buf off'"
  by (auto simp: Uint32_def field_overwrite_before field_overwrite_after)

lemma Uint64_overwrite_other [codec_simps]:
  "off' + 8 \<le> off \<or> off + length bs \<le> off' \<Longrightarrow> off + length bs \<le> length buf \<Longrightarrow>
   Uint64 (overwrite buf off bs) off' = Uint64 buf off'"
  by (auto simp: Uint64_def field_overwrite_before field_overwrite_after)

lemma nth_overwrite_single [codec_simps]:
  "off + 1 \<le> length buf \<Longrightarrow> overwrite buf off [v] ! off = v"
  by (simp add: nth_overwrite)

lemma nth_overwrite_other [codec_simps]:
  "i < off \<or> off + length bs \<le> i \<Longrightarrow> off + length bs \<le> length buf \<Longrightarrow>
   overwrite buf off bs ! i = buf ! i"
  by (auto simp: nth_overwrite)

lemma Uint64_overwrite_field [simp]:
  "off + 8 \<le> length buf \<Longrightarrow> overwrite buf off (le_bytes 8 (unat (Uint64 buf off))) = buf"
  using le_bytes_word [of "field buf off 8", where ?'a = 64]
  by (simp add: Uint64_def overwrite_field_id)

lemma field_take_prefix: "off + n \<le> m \<Longrightarrow> field (take m buf) off n = field buf off n"
  by (simp add: field_def drop_take min_def)

section \<open>Reading and writing at a running offset\<close>

lemma drop_past: "drop i key = xs @ rest \<Longrightarrow> drop (i + length xs) key = rest"
  by (metis add.commute append_eq_conv_conj drop_drop)

lemma length_of_drop: "drop i key = xs \<Longrightarrow> xs \<noteq> [] \<Longrightarrow> length key = i + length xs"
  by auto

lemma field_at:
  assumes "drop off data = xs @ rest" "n = length xs" "off \<le> length data"
  shows "field data off n = xs" "drop (off + n) data = rest" "off + n \<le> length data"
proof -
  show "field data off n = xs" using assms by (simp add: field_def)
  show "drop (off + n) data = rest" using drop_past [OF assms(1)] assms(2) by simp
  have "length data - off = length xs + length rest"
    using arg_cong [OF assms(1), of length] by simp
  then show "off + n \<le> length data" using assms(2,3) by linarith
qed

lemma Uint16_drop: "drop off data = le_bytes 2 (unat v) @ rest \<Longrightarrow> Uint16 data off = v"
  by (simp add: Uint16_def field_def word_le_bytes del: le_bytes.simps)

lemma Uint32_drop: "drop off data = le_bytes 4 (unat v) @ rest \<Longrightarrow> Uint32 data off = v"
  by (simp add: Uint32_def field_def word_le_bytes del: le_bytes.simps)

lemma Uint64_drop: "drop off data = le_bytes 8 (unat v) @ rest \<Longrightarrow> Uint64 data off = v"
  by (simp add: Uint64_def field_def word_le_bytes del: le_bytes.simps)

text \<open>
  A structure written field by field at consecutive offsets is one write of the concatenated
  fields.
\<close>

fun put_all :: "bytes \<Rightarrow> nat \<Rightarrow> bytes list \<Rightarrow> bytes" where
  "put_all buf off [] = buf"
| "put_all buf off (bs # bss) = put_all (overwrite buf off bs) (off + length bs) bss"

lemma overwrite_overwrite:
  assumes "off + length xs + length ys \<le> length buf"
  shows "overwrite (overwrite buf off xs) (off + length xs) ys = overwrite buf off (xs @ ys)"
proof -
  define pre rest where pr: "pre = take off buf" "rest = drop (off + length xs) buf"
  have len: "length pre = off" using assms by (simp add: pr)
  have "overwrite buf off xs = (pre @ xs) @ rest" by (simp add: overwrite_def pr)
  moreover have "overwrite ((pre @ xs) @ rest) (off + length xs) ys = (pre @ xs) @ ys @ drop (length ys) rest"
    using len by (simp add: overwrite_def)
  ultimately show ?thesis by (simp add: overwrite_def pr add.commute add.left_commute)
qed

lemma put_all_concat:
  "off + length (concat bss) \<le> length buf \<Longrightarrow> put_all buf off bss = overwrite buf off (concat bss)"
proof (induction bss arbitrary: buf off)
  case Nil
  then show ?case by (simp add: overwrite_def)
next
  case (Cons bs bss)
  have "put_all buf off (bs # bss) = overwrite (overwrite buf off bs) (off + length bs) (concat bss)"
    using Cons by simp
  also have "\<dots> = overwrite buf off (bs @ concat bss)"
    using Cons.prems by (intro overwrite_overwrite) simp
  finally show ?case by simp
qed

lemma overwrite_0: "length bs \<le> length buf \<Longrightarrow> overwrite buf 0 bs = bs @ drop (length bs) buf"
  by (simp add: overwrite_def)

section \<open>Bits of words\<close>

lemma int_le_nat: "int (le_nat bs) = horner_sum uint (2 ^ LENGTH(8)) bs"
  by (induction bs) (simp_all flip: uint_nat)

lemma bit_le_nat:
  "bit (le_nat bs) k \<longleftrightarrow> k div 8 < length bs \<and> bit (bs ! (k div 8)) (k mod 8)"
proof -
  have "bit (le_nat bs) k \<longleftrightarrow> bit (int (le_nat bs)) k"
    by (simp add: bit_of_nat_iff_bit)
  also have "\<dots> \<longleftrightarrow> k div 8 < length bs \<and> bit (bs ! (k div 8)) (k mod 8)"
    using bit_horner_sum_uint_exp_iff [of bs k] by (simp only: int_le_nat) simp
  finally show ?thesis .
qed

lemma bit_Uint64 [word_bits]:
  assumes "off + 8 \<le> length buf"
  shows "bit (Uint64 buf off) k \<longleftrightarrow> k < 64 \<and> bit (buf ! (off + k div 8)) (k mod 8)"
proof (cases "k < 64")
  case True
  then have "k div 8 < 8" by simp
  with True assms show ?thesis
    by (simp add: Uint64_def bit_of_nat_iff bit_le_nat field_nth)
next
  case False
  then show ?thesis by (auto dest: bit_imp_le_length)
qed

lemma bit_word_less64: "bit (w :: u64) k \<Longrightarrow> k < 64"
  using bit_imp_le_length [of w k] by simp

lemma bit_byte_less8: "bit (w :: byte) k \<Longrightarrow> k < 8"
  using bit_imp_le_length [of w k] by simp

lemma TrailingZeros64_less:
  assumes "bit w k"
  shows "TrailingZeros64 w \<le> k"
proof -
  have "k < 64" using assms by (rule bit_word_less64)
  show ?thesis
  proof (rule ccontr)
    assume "\<not> TrailingZeros64 w \<le> k"
    then have k: "k < length (takeWhile (\<lambda>k. \<not> bit w k) [0..<64])"
      by (simp add: TrailingZeros64_def)
    then have "\<not> bit w (takeWhile (\<lambda>k. \<not> bit w k) [0..<64] ! k)"
      using nth_mem set_takeWhileD by fastforce
    moreover have "takeWhile (\<lambda>k. \<not> bit w k) [0..<64] ! k = k"
      using takeWhile_nth [OF k] \<open>k < 64\<close> by simp
    ultimately show False using assms by simp
  qed
qed

lemma TrailingZeros64_bit:
  assumes "w \<noteq> 0"
  shows "bit w (TrailingZeros64 w)"
proof -
  let ?t = "takeWhile (\<lambda>k. \<not> bit w k) [0..<64]"
  obtain k where k: "bit w k"
    using assms bit_eq_iff [of w 0] by auto
  then have "length ?t \<le> k" "k < 64"
    using TrailingZeros64_less bit_word_less64 by (auto simp: TrailingZeros64_def)
  then have l: "length ?t < length [0..<64]" by simp
  from nth_length_takeWhile [OF l] l show ?thesis
    by (simp add: TrailingZeros64_def)
qed

lemma TrailingZeros64_least: "k < TrailingZeros64 w \<Longrightarrow> \<not> bit w k"
  using TrailingZeros64_less not_le by blast

lemma TrailingZeros64_less64: "w \<noteq> 0 \<Longrightarrow> TrailingZeros64 w < 64"
  by (rule bit_word_less64) (rule TrailingZeros64_bit)

lemma TrailingZeros64_le64: "TrailingZeros64 w \<le> 64"
  unfolding TrailingZeros64_def
  by (rule order_trans [OF length_takeWhile_le]) simp

lemma TrailingZeros64_zero [simp]: "TrailingZeros64 0 = 64"
proof -
  have "takeWhile (\<lambda>k. \<not> bit (0 :: u64) k) [0..<64] = [0..<64]"
    by (simp only: takeWhile_eq_all_conv) simp
  then show ?thesis by (simp only: TrailingZeros64_def) simp
qed

lemma TrailingZeros64_pos: "\<not> bit w 0 \<Longrightarrow> 0 < TrailingZeros64 w"
  using TrailingZeros64_bit [of w] by (cases "w = 0") (auto intro: ccontr)

lemma OnesCount64_card: "OnesCount64 w = card {k. k < 64 \<and> bit w k}"
proof -
  have "{k. k < 64 \<and> bit w k} = set (filter (bit w) [0..<64])" by auto
  then show ?thesis
    by (simp only: distinct_card [OF distinct_filter [OF distinct_upt]] OnesCount64_def)
qed

lemma OnesCount8_card: "OnesCount8 w = card {k. k < 8 \<and> bit w k}"
proof -
  have "{k. k < 8 \<and> bit w k} = set (filter (bit w) [0..<8])" by auto
  then show ?thesis
    by (simp only: distinct_card [OF distinct_filter [OF distinct_upt]] OnesCount8_def)
qed

lemma word_neq_0_iff_bit: "(w :: 'a::len word) \<noteq> 0 \<longleftrightarrow> (\<exists>k. bit w k)"
  using bit_eq_iff [of w 0] by auto

lemma and_push_bit_neq_0 [word_bits]:
  "k < LENGTH('a) \<Longrightarrow> ((w :: 'a::len word) AND push_bit k 1 \<noteq> 0) = bit w k"
  by (auto simp: word_neq_0_iff_bit bit_simps)

declare push_bit_of_1 [simp del]

lemma bit_push_one [word_bits]:
  "bit (push_bit k (1 :: 'a::len word)) i \<longleftrightarrow> i = k \<and> k < LENGTH('a)"
  by (auto simp: bit_simps)

lemma bit_or_single [word_bits]:
  "k < LENGTH('a) \<Longrightarrow> bit ((w :: 'a::len word) OR push_bit k 1) i \<longleftrightarrow> i = k \<or> bit w i"
  by (auto simp: bit_or_iff bit_push_one)

lemma bit_andnot_single [word_bits]:
  "bit ((w :: 'a::len word) AND NOT (push_bit k 1)) i \<longleftrightarrow> i \<noteq> k \<and> bit w i"
  by (auto simp: bit_and_iff bit_not_iff bit_push_one dest: bit_imp_le_length)

end
