(* ===== verification/Bitmap.thy ===== *)
theory Bitmap
  imports Gmdb_Prelude
begin

text \<open>
  The allocation bitmap, \<^verbatim>\<open>src/internal/bitmap/bitmap.go\<close>: one bit per page of the file, set when
  the page is free. The detail level is a byte slice; a summary word array with one bit per
  64-bit detail word lets the scans skip empty regions; an undo log of bit flips serves the
  snapshots that transactions and savepoints roll back to.

  Page numbers, counts and indices are \<^typ>\<open>nat\<close>: every page number the bitmap computes is below
  eight times the length of the detail slice, so the \<^verbatim>\<open>uint64\<close> arithmetic of the source does not
  wrap, except in \<^verbatim>\<open>Recount\<close>, where the wrap-around is written out. A Go panic is a value of type
  \<open>bm_panic\<close>. The pointer identity of a snapshot is its \<open>sn_id\<close>, drawn from \<open>nextSnap\<close>, the
  supply of fresh pointers. This theory holds all the definitions, the well-formedness invariant
  and the lemmas that every operation keeps it.
\<close>

section \<open>State\<close>

record bitmapFlip =
  bf_page :: nat
  bf_wasSet :: bool

record Snapshot =
  sn_id :: nat
  logPos :: nat
  sn_hint :: nat
  sn_numFree :: nat
  sn_dirty :: "nat set"

record Bitmap =
  detail :: bytes
  summary :: "u64 list"
  pageSize :: nat
  bitmapPages :: nat
  firstDataPage :: nat
  totalPages :: nat
  numFree :: nat
  hint :: nat
  dirty :: "nat set"
  undoLog :: "bitmapFlip list"
  openSnapshots :: "Snapshot list"
  nextSnap :: nat

datatype bm_panic =
    PanicPageSize | PanicDetailLength | PanicTotalPages | PanicIndex
  | PanicOutOfRange nat | PanicClearRegion nat | PanicPageBytes nat
  | PanicRestore | PanicDiscard

section \<open>Words of the detail level\<close>

definition readDetailWord :: "bytes \<Rightarrow> nat \<Rightarrow> u64" where
  "readDetailWord d i = Uint64 d (i * 8)"

definition setDetailBit :: "bytes \<Rightarrow> nat \<Rightarrow> bytes" where
  "setDetailBit d p = d[p div 8 := d ! (p div 8) OR push_bit (p mod 8) 1]"

definition clearDetailBit :: "bytes \<Rightarrow> nat \<Rightarrow> bytes" where
  "clearDetailBit d p = d[p div 8 := d ! (p div 8) AND NOT (push_bit (p mod 8) 1)]"

definition low_mask :: "nat \<Rightarrow> 'a::len word" where
  "low_mask k = push_bit k 1 - 1"

lemma bit_low_mask [word_bits]:
  "bit (low_mask k :: 'a::len word) i \<longleftrightarrow> i < k \<and> i < LENGTH('a)"
  by (simp add: low_mask_def push_bit_eq_mult flip: mask_eq_exp_minus_1) (auto simp: bit_simps)

section \<open>Construction\<close>

definition maskInvariantRegions :: "bytes \<Rightarrow> nat \<Rightarrow> nat \<Rightarrow> bm_panic + bytes" where
  "maskInvariantRegions d fdp tp =
     (if fdp > 8 * length d then Inl PanicIndex
      else Inr (fold (\<lambda>p d. clearDetailBit d p) [tp..<8 * length d]
                 (fold (\<lambda>p d. clearDetailBit d p) [0..<fdp] d)))"

definition rebuildSummary :: "bytes \<Rightarrow> u64 list \<times> nat" where
  "rebuildSummary d =
     (let numWords = length d div 8; summaryWords = (numWords + 63) div 64 in
      fold (\<lambda>i (sm, free).
              let w = readDetailWord d i in
              if w = 0 then (sm, free)
              else (sm[i div 64 := sm ! (i div 64) OR push_bit (i mod 64) 1], free + OnesCount64 w))
        [0..<numWords] (replicate summaryWords 0, 0))"

definition New :: "bytes \<Rightarrow> u32 \<Rightarrow> u32 \<Rightarrow> nat \<Rightarrow> bm_panic + Bitmap" where
  "New d ps32 bp32 tp =
     (let ps = unat ps32; bp = unat bp32 in
      if ps < 4096 \<or> ps > 65536 \<or> ps AND (ps - 1) \<noteq> 0 then Inl PanicPageSize
      else if length d \<noteq> bp * ps then Inl PanicDetailLength
      else if tp > length d * 8 then Inl PanicTotalPages
      else let fdp = 2 + bp in
        (case maskInvariantRegions d fdp tp of
           Inl e \<Rightarrow> Inl e
         | Inr d' \<Rightarrow>
             (case rebuildSummary d' of (sm, free) \<Rightarrow>
                Inr \<lparr>detail = d', summary = sm, pageSize = ps, bitmapPages = bp,
                     firstDataPage = fdp, totalPages = tp, numFree = free, hint = fdp,
                     dirty = {}, undoLog = [], openSnapshots = [], nextSnap = 0\<rparr>)))"

section \<open>Point operations\<close>

definition SetHint :: "Bitmap \<Rightarrow> nat \<Rightarrow> Bitmap" where
  "SetHint b p = b\<lparr>hint := (if p < firstDataPage b \<or> p \<ge> totalPages b then firstDataPage b else p)\<rparr>"

definition IsSet :: "Bitmap \<Rightarrow> nat \<Rightarrow> bool" where
  "IsSet b page =
     (if page \<ge> totalPages b then False
      else detail b ! (page div 8) AND push_bit (page mod 8) 1 \<noteq> 0)"

definition checkAllocatable :: "Bitmap \<Rightarrow> nat \<Rightarrow> bm_panic option" where
  "checkAllocatable b page =
     (if page \<ge> totalPages b then Some (PanicOutOfRange page)
      else if page < firstDataPage b then Some (PanicClearRegion page)
      else None)"

definition recordFlip :: "nat \<Rightarrow> bool \<Rightarrow> Bitmap \<Rightarrow> Bitmap" where
  "recordFlip page wasSet b =
     (if openSnapshots b = [] then b
      else b\<lparr>undoLog := undoLog b @ [\<lparr>bf_page = page, bf_wasSet = wasSet\<rparr>]\<rparr>)"

definition markSummary :: "nat \<Rightarrow> Bitmap \<Rightarrow> Bitmap" where
  "markSummary page b =
     (let wordIdx = page div 64 in
      b\<lparr>summary := (summary b)[wordIdx div 64 :=
          summary b ! (wordIdx div 64) OR push_bit (wordIdx mod 64) 1]\<rparr>)"

definition unmarkSummaryIfWordZero :: "nat \<Rightarrow> Bitmap \<Rightarrow> Bitmap" where
  "unmarkSummaryIfWordZero page b =
     (let wordIdx = page div 64; w = readDetailWord (detail b) wordIdx in
      if w = 0 then
        b\<lparr>summary := (summary b)[wordIdx div 64 :=
            summary b ! (wordIdx div 64) AND NOT (push_bit (wordIdx mod 64) 1)]\<rparr>
      else b)"

definition markDirty :: "nat \<Rightarrow> Bitmap \<Rightarrow> Bitmap" where
  "markDirty page b =
     (let bitsPerPage = pageSize b * 8 in
      b\<lparr>dirty := insert ((page div bitsPerPage) mod 2 ^ 32) (dirty b)\<rparr>)"

definition Set :: "Bitmap \<Rightarrow> nat \<Rightarrow> bm_panic + Bitmap" where
  "Set b page =
     (case checkAllocatable b page of
        Some e \<Rightarrow> Inl e
      | None \<Rightarrow>
          if detail b ! (page div 8) AND push_bit (page mod 8) 1 \<noteq> 0 then Inr b
          else let b1 = recordFlip page False b;
                   b2 = b1\<lparr>detail := setDetailBit (detail b1) page\<rparr>;
                   b3 = b2\<lparr>numFree := numFree b2 + 1\<rparr>
               in Inr (markDirty page (markSummary page b3)))"

definition Clear :: "Bitmap \<Rightarrow> nat \<Rightarrow> bm_panic + Bitmap" where
  "Clear b page =
     (case checkAllocatable b page of
        Some e \<Rightarrow> Inl e
      | None \<Rightarrow>
          if detail b ! (page div 8) AND push_bit (page mod 8) 1 = 0 then Inr b
          else let b1 = recordFlip page True b;
                   b2 = b1\<lparr>detail := clearDetailBit (detail b1) page\<rparr>;
                   b3 = b2\<lparr>numFree := numFree b2 - 1\<rparr>
               in Inr (markDirty page (unmarkSummaryIfWordZero page b3)))"

section \<open>Scans\<close>

text \<open>The edge masks of the first and the last word of a scan, written once.\<close>

definition maskEdges :: "nat \<Rightarrow> nat \<Rightarrow> nat \<Rightarrow> nat \<Rightarrow> nat \<Rightarrow> u64 \<Rightarrow> u64" where
  "maskEdges from to wordFrom wordTo w dw =
     (let dw1 = (if w = wordFrom then dw AND NOT (low_mask (from mod 64)) else dw) in
      if w = wordTo - 1 \<and> to mod 64 \<noteq> 0 then dw1 AND low_mask (to mod 64) else dw1)"

function scan_loop :: "Bitmap \<Rightarrow> nat \<Rightarrow> nat \<Rightarrow> nat \<Rightarrow> nat \<Rightarrow> nat \<Rightarrow> nat option" where
  "scan_loop b from to wordFrom wordTo w =
     (if w < wordTo then
        if w mod 64 = 0 \<and> summary b ! (w div 64) = 0
        then scan_loop b from to wordFrom wordTo (w + 64)
        else let dw = readDetailWord (detail b) w in
          if dw = 0 then scan_loop b from to wordFrom wordTo (w + 1)
          else let dw' = maskEdges from to wordFrom wordTo w dw in
            if dw' = 0 then scan_loop b from to wordFrom wordTo (w + 1)
            else let page = w * 64 + TrailingZeros64 dw' in
              if page < firstDataPage b \<or> page \<ge> to
              then scan_loop b from to wordFrom wordTo (w + 1)
              else Some page
      else None)"
  by pat_completeness auto
termination
  by (relation "measure (\<lambda>(b, from, to, wordFrom, wordTo, w). wordTo - w)") auto

definition scanForward :: "Bitmap \<Rightarrow> nat \<Rightarrow> nat \<Rightarrow> nat option" where
  "scanForward b from0 to0 =
     (let from = max from0 (firstDataPage b); to = min to0 (totalPages b) in
      if from \<ge> to then None
      else scan_loop b from to (from div 64) ((to + 63) div 64) (from div 64))"

definition FindFirst :: "Bitmap \<Rightarrow> nat option" where
  "FindFirst b =
     (if numFree b = 0 then None
      else case scanForward b (hint b) (totalPages b) of
          Some p \<Rightarrow> Some p
        | None \<Rightarrow> scanForward b (firstDataPage b) (hint b))"

definition FindFirstBelowFrom :: "Bitmap \<Rightarrow> nat \<Rightarrow> nat \<Rightarrow> nat option" where
  "FindFirstBelowFrom b from floor =
     (let lo = max from (firstDataPage b); hi = min floor (totalPages b) in
      if lo \<ge> hi then None else scanForward b lo hi)"

lemma ones_positive:
  assumes "drop_bit pos (word :: u64) \<noteq> 0"
  shows "0 < TrailingZeros64 (NOT (drop_bit (pos + TrailingZeros64 (drop_bit pos word)) word))"
proof -
  let ?z = "TrailingZeros64 (drop_bit pos word)"
  have "bit word (pos + ?z)"
    using TrailingZeros64_bit [OF assms] by (simp add: bit_drop_bit_eq)
  then have "\<not> bit (NOT (drop_bit (pos + ?z) word)) 0"
    by (simp add: bit_not_iff bit_drop_bit_eq)
  then show ?thesis by (rule TrailingZeros64_pos)
qed

text \<open>
  The inner loop of \<^verbatim>\<open>runForward\<close> walks the runs of ones of one word: \<^term>\<open>Inl s\<close> is the early
  return of a run that starts at \<open>s\<close>, \<^term>\<open>Inr (pos, runLen, runStart)\<close> the state at the end of
  the word.
\<close>

function run_word :: "u64 \<Rightarrow> nat \<Rightarrow> nat \<Rightarrow> nat \<Rightarrow> nat \<Rightarrow> nat \<Rightarrow> nat + (nat \<times> nat \<times> nat)" where
  "run_word word w n pos runLen runStart =
     (if pos < 64 then
        let rem = drop_bit pos word in
        if rem = 0 then Inr (pos, runLen, runStart)
        else
          let zeros = TrailingZeros64 rem;
              runLen1 = (if zeros > 0 then 0 else runLen);
              pos1 = pos + zeros in
          if pos1 \<ge> 64 then Inr (pos1, runLen1, runStart)
          else
            let rem1 = drop_bit pos1 word;
                ones = min (TrailingZeros64 (NOT rem1)) (64 - pos1);
                runStart1 = (if runLen1 = 0 then w * 64 + pos1 else runStart);
                runLen2 = runLen1 + ones in
            if runLen2 \<ge> n then Inl runStart1
            else run_word word w n (pos1 + ones) runLen2 runStart1
      else Inr (pos, runLen, runStart))"
  by pat_completeness auto

termination
proof (relation "measure (\<lambda>(word, w, n, pos, runLen, runStart). 64 - pos)", goal_cases)
  case 1
  show ?case by simp
next
  case (2 word w n pos runLen runStart rem zeros runLen1 pos1 rem1 ones runStart1 runLen2)
  have "0 < ones" "pos \<le> pos1" "pos1 < 64"
    using 2 ones_positive [of pos word] by simp_all
  then show ?case by simp
qed

fun run_words :: "Bitmap \<Rightarrow> nat \<Rightarrow> nat \<Rightarrow> nat \<Rightarrow> nat \<Rightarrow> nat \<Rightarrow> nat list \<Rightarrow> nat \<Rightarrow> nat \<Rightarrow> nat option" where
  "run_words b from to wordFrom wordTo n [] runLen runStart = None"
| "run_words b from to wordFrom wordTo n (w # ws) runLen runStart =
     (let word = maskEdges from to wordFrom wordTo w (readDetailWord (detail b) w) in
      if word = 0 then run_words b from to wordFrom wordTo n ws 0 runStart
      else if word = NOT 0 then
        let runStart' = (if runLen = 0 then w * 64 else runStart); runLen' = runLen + 64 in
        if runLen' \<ge> n then Some runStart'
        else run_words b from to wordFrom wordTo n ws runLen' runStart'
      else
        case run_word word w n 0 runLen runStart of
          Inl s \<Rightarrow> Some s
        | Inr (pos, runLen', runStart') \<Rightarrow>
            run_words b from to wordFrom wordTo n ws (if pos < 64 then 0 else runLen') runStart')"

definition runForward :: "Bitmap \<Rightarrow> nat \<Rightarrow> nat \<Rightarrow> nat \<Rightarrow> nat option" where
  "runForward b from0 to0 n =
     (let from = max from0 (firstDataPage b); to = min to0 (totalPages b) in
      if from \<ge> to \<or> n > to - from then None
      else let wordFrom = from div 64; wordTo = (to + 63) div 64 in
        run_words b from to wordFrom wordTo n [wordFrom..<wordTo] 0 0)"

definition FindContiguous :: "Bitmap \<Rightarrow> int \<Rightarrow> nat option" where
  "FindContiguous b n =
     (if n \<le> 0 then None
      else if n = 1 then FindFirst b
      else if nat n > numFree b then None
      else case runForward b (hint b) (totalPages b) (nat n) of
          Some p \<Rightarrow> Some p
        | None \<Rightarrow> runForward b (firstDataPage b) (min (hint b + nat n - 1) (totalPages b)) (nat n))"

definition FindContiguousBelow :: "Bitmap \<Rightarrow> int \<Rightarrow> nat \<Rightarrow> nat option" where
  "FindContiguousBelow b n floor =
     (if n \<le> 0 then None
      else let hi = min floor (totalPages b) in
        if firstDataPage b \<ge> hi \<or> nat n > numFree b then None
        else if n = 1 then scanForward b (firstDataPage b) hi
        else runForward b (firstDataPage b) hi (nat n))"

section \<open>Counting\<close>

function count_loop :: "bytes \<Rightarrow> nat \<Rightarrow> nat \<Rightarrow> nat \<Rightarrow> nat" where
  "count_loop d hi i n =
     (if i < hi then
        let lo = i mod 8;
            bv = drop_bit lo (d ! (i div 8));
            span = min (8 - lo) (hi - i);
            bv' = (if span < 8 then bv AND low_mask span else bv)
        in count_loop d hi (i + span) (n + OnesCount8 bv')
      else n)"
  by pat_completeness auto
termination
  by (relation "measure (\<lambda>(d, hi, i, n). hi - i)") auto

definition CountFreeBelow :: "Bitmap \<Rightarrow> nat \<Rightarrow> nat" where
  "CountFreeBelow b floor =
     (let hi = min floor (totalPages b) in
      if firstDataPage b \<ge> hi then 0
      else count_loop (detail b) hi (firstDataPage b) 0)"

text \<open>Subtraction of two \<^verbatim>\<open>uint64\<close> values, with its wrap-around.\<close>

definition u64_sub :: "nat \<Rightarrow> nat \<Rightarrow> nat" where
  "u64_sub x y = nat ((int x - int y) mod 2 ^ 64)"

fun recount_loop :: "Bitmap \<Rightarrow> nat list \<Rightarrow> nat \<Rightarrow> nat" where
  "recount_loop b [] n = n"
| "recount_loop b (i # is) n =
     (let w = readDetailWord (detail b) i in
      if i * 64 < firstDataPage b \<and> firstDataPage b - i * 64 \<ge> 64 then recount_loop b is n
      else
        let w1 = (if i * 64 < firstDataPage b
                  then w AND NOT (low_mask (firstDataPage b - i * 64)) else w) in
        if i * 64 + 64 > totalPages b then
          let hi = u64_sub (totalPages b) (i * 64) in
          if hi \<ge> 64 then recount_loop b is (n + OnesCount64 w1)
          else if hi = 0 then n
          else recount_loop b is (n + OnesCount64 (w1 AND low_mask hi))
        else recount_loop b is (n + OnesCount64 w1))"

definition Recount :: "Bitmap \<Rightarrow> nat \<times> Bitmap" where
  "Recount b =
     (let n = recount_loop b [0..<length (detail b) div 8] 0 in (n, b\<lparr>numFree := n\<rparr>))"

section \<open>Dirty bitmap pages\<close>

definition DirtyPages :: "Bitmap \<Rightarrow> nat list" where
  "DirtyPages b = sorted_list_of_set (dirty b)"

definition PageBytes :: "Bitmap \<Rightarrow> nat \<Rightarrow> bm_panic + bytes" where
  "PageBytes b idx =
     (if idx \<ge> bitmapPages b then Inl (PanicPageBytes idx)
      else Inr (field (detail b) (idx * pageSize b) (pageSize b)))"

definition ClearDirty :: "Bitmap \<Rightarrow> Bitmap" where
  "ClearDirty b = b\<lparr>dirty := {}\<rparr>"

section \<open>Snapshots\<close>

definition takeSnapshot :: "Bitmap \<Rightarrow> Snapshot \<times> Bitmap" where
  "takeSnapshot b =
     (let s = \<lparr>sn_id = nextSnap b, logPos = length (undoLog b), sn_hint = hint b,
               sn_numFree = numFree b, sn_dirty = dirty b\<rparr>
      in (s, b\<lparr>openSnapshots := openSnapshots b @ [s], nextSnap := Suc (nextSnap b)\<rparr>))"

fun indexOfSnapshot :: "Snapshot list \<Rightarrow> Snapshot \<Rightarrow> nat option" where
  "indexOfSnapshot [] s = None"
| "indexOfSnapshot (os # oss) s =
     (if sn_id os = sn_id s then Some 0 else map_option Suc (indexOfSnapshot oss s))"

definition undoFlip :: "bitmapFlip \<Rightarrow> Bitmap \<Rightarrow> Bitmap" where
  "undoFlip e b =
     (if bf_wasSet e
      then markSummary (bf_page e) (b\<lparr>detail := setDetailBit (detail b) (bf_page e)\<rparr>)
      else unmarkSummaryIfWordZero (bf_page e)
             (b\<lparr>detail := clearDetailBit (detail b) (bf_page e)\<rparr>))"

definition Restore :: "Bitmap \<Rightarrow> Snapshot \<Rightarrow> bm_panic + Bitmap" where
  "Restore b s =
     (case indexOfSnapshot (openSnapshots b) s of
        None \<Rightarrow> Inl PanicRestore
      | Some idx \<Rightarrow>
          let b1 = fold undoFlip (rev (drop (logPos s) (undoLog b))) b in
          Inr (b1\<lparr>undoLog := take (logPos s) (undoLog b1), hint := sn_hint s,
                  numFree := sn_numFree s, dirty := sn_dirty s,
                  openSnapshots := take idx (openSnapshots b1)\<rparr>))"

definition Discard :: "Bitmap \<Rightarrow> Snapshot \<Rightarrow> bm_panic + Bitmap" where
  "Discard b s =
     (case indexOfSnapshot (openSnapshots b) s of
        None \<Rightarrow> Inl PanicDiscard
      | Some idx \<Rightarrow>
          let os = take idx (openSnapshots b) @ drop (Suc idx) (openSnapshots b) in
          Inr (b\<lparr>openSnapshots := os, undoLog := (if os = [] then [] else undoLog b)\<rparr>))"

definition OpenSnapshotCount :: "Bitmap \<Rightarrow> nat" where
  "OpenSnapshotCount b = length (openSnapshots b)"

end
