(* ===== verification/Bitmap_Inv.thy ===== *)
theory Bitmap_Inv
  imports Bitmap
begin

text \<open>
  The abstraction of the allocation bitmap to the set of free pages, its well-formedness
  invariant, and the lemmas that construction and the point operations establish, keep and
  implement them.
\<close>

section \<open>Abstraction and invariant\<close>

definition dbit :: "bytes \<Rightarrow> nat \<Rightarrow> bool" where
  "dbit d p = bit (d ! (p div 8)) (p mod 8)"

definition free_pages :: "Bitmap \<Rightarrow> nat set" where
  "free_pages b = {p. p < totalPages b \<and> dbit (detail b) p}"

definition summary_ok :: "bytes \<Rightarrow> u64 list \<Rightarrow> bool" where
  "summary_ok d sm \<longleftrightarrow>
     length sm = (length d div 8 + 63) div 64 \<and>
     (\<forall>i < length sm * 64.
        bit (sm ! (i div 64)) (i mod 64) \<longleftrightarrow> i < length d div 8 \<and> readDetailWord d i \<noteq> 0)"

definition geometry_ok :: "Bitmap \<Rightarrow> bool" where
  "geometry_ok b \<longleftrightarrow>
     4096 \<le> pageSize b \<and> pageSize b \<le> 65536 \<and> 8 dvd pageSize b \<and>
     0 < bitmapPages b \<and> bitmapPages b < 2 ^ 32 \<and>
     length (detail b) = bitmapPages b * pageSize b \<and>
     firstDataPage b = 2 + bitmapPages b \<and>
     totalPages b \<le> 8 * length (detail b)"

definition content_ok :: "Bitmap \<Rightarrow> bool" where
  "content_ok b \<longleftrightarrow>
     (\<forall>p < 8 * length (detail b).
        dbit (detail b) p \<longrightarrow> firstDataPage b \<le> p \<and> p < totalPages b) \<and>
     summary_ok (detail b) (summary b)"

definition snaps_ok :: "Bitmap \<Rightarrow> bool" where
  "snaps_ok b \<longleftrightarrow>
     distinct (map sn_id (openSnapshots b)) \<and> sorted (map logPos (openSnapshots b)) \<and>
     (\<forall>s \<in> set (openSnapshots b). sn_id s < nextSnap b \<and> logPos s \<le> length (undoLog b)) \<and>
     (\<forall>e \<in> set (undoLog b). firstDataPage b \<le> bf_page e \<and> bf_page e < totalPages b)"

definition bm_wf :: "Bitmap \<Rightarrow> bool" where
  "bm_wf b \<longleftrightarrow> geometry_ok b \<and> content_ok b \<and> snaps_ok b \<and>
     numFree b = card (free_pages b) \<and> firstDataPage b \<le> hint b \<and>
     (hint b < totalPages b \<or> hint b = firstDataPage b)"

section \<open>Bits of the detail level\<close>

lemma div_mod_8_eq: "q div 8 = p div 8 \<Longrightarrow> q mod 8 = p mod 8 \<Longrightarrow> q = (p :: nat)"
  by (metis div_mult_mod_eq)

lemma length_setDetailBit [simp]: "length (setDetailBit d p) = length d"
  by (simp add: setDetailBit_def)

lemma length_clearDetailBit [simp]: "length (clearDetailBit d p) = length d"
  by (simp add: clearDetailBit_def)

lemma dbit_setDetailBit [word_bits]:
  assumes "p < 8 * length d"
  shows "dbit (setDetailBit d p) q \<longleftrightarrow> q = p \<or> dbit d q"
proof -
  have "p div 8 < length d" using assms by (simp add: less_mult_imp_div_less mult.commute)
  then show ?thesis
    by (cases "q div 8 = p div 8")
      (auto simp: dbit_def setDetailBit_def bit_or_single dest: div_mod_8_eq)
qed

lemma dbit_clearDetailBit [word_bits]:
  assumes "p < 8 * length d"
  shows "dbit (clearDetailBit d p) q \<longleftrightarrow> q \<noteq> p \<and> dbit d q"
proof -
  have "p div 8 < length d" using assms by (simp add: less_mult_imp_div_less mult.commute)
  then show ?thesis
    by (cases "q div 8 = p div 8")
      (auto simp: dbit_def clearDetailBit_def bit_andnot_single dest: div_mod_8_eq)
qed

lemma detail_test_bit [word_bits]:
  "((d ! (p div 8)) AND push_bit (p mod 8) 1 = (0 :: byte)) = (\<not> dbit d p)"
  using and_push_bit_neq_0 [of "p mod 8" "d ! (p div 8)"] by (auto simp: dbit_def)

lemma detail_eqI:
  assumes "length d = length d'" "\<And>p. p < 8 * length d \<Longrightarrow> dbit d p = dbit d' p"
  shows "d = d'"
proof (rule nth_equalityI)
  show "length d = length d'" by (rule assms(1))
  fix i assume i: "i < length d"
  show "d ! i = d' ! i"
  proof (rule bit_word_eqI)
    fix k assume "k < LENGTH(8)"
    then show "bit (d ! i) k = bit (d' ! i) k"
      using assms(2) [of "8 * i + k"] i by (simp add: dbit_def)
  qed
qed

lemma bit_readDetailWord [word_bits]:
  assumes "8 * i + 8 \<le> length d"
  shows "bit (readDetailWord d i) k \<longleftrightarrow> k < 64 \<and> dbit d (64 * i + k)"
proof -
  have "64 * i + k = k + 8 * (i * 8)" by simp
  then have "(64 * i + k) div 8 = i * 8 + k div 8" and "(64 * i + k) mod 8 = k mod 8"
    by (simp_all only: div_mult_self2 mod_mult_self2 zero_neq_numeral [symmetric] not_False_eq_True)
  then show ?thesis using assms
    by (simp add: readDetailWord_def bit_Uint64 dbit_def mult.commute)
qed

lemma readDetailWord_neq_0:
  assumes "8 * i + 8 \<le> length d"
  shows "readDetailWord d i \<noteq> 0 \<longleftrightarrow> (\<exists>k<64. dbit d (64 * i + k))"
  using assms by (auto simp: word_neq_0_iff_bit bit_readDetailWord)

lemma word_index_le:
  "8 * (p div 64) + 8 \<le> length d" if "8 dvd length d" "p < 8 * length d"
  using that
proof (elim dvdE)
  fix k assume p: "p < 8 * length d" and k: "length d = 8 * k"
  then have "p div 64 < k" by (simp add: less_mult_imp_div_less mult.commute)
  with k show ?thesis by simp
qed

lemma word_neq_0_page:
  assumes "8 * i + 8 \<le> length d"
  shows "readDetailWord d i \<noteq> 0 \<longleftrightarrow> (\<exists>p. p div 64 = i \<and> dbit d p)"
proof -
  have "(\<exists>k<64. dbit d (64 * i + k)) \<longleftrightarrow> (\<exists>p. p div 64 = i \<and> dbit d p)"
  proof
    assume "\<exists>k<64. dbit d (64 * i + k)"
    then obtain k where "k < 64" "dbit d (64 * i + k)" by blast
    then show "\<exists>p. p div 64 = i \<and> dbit d p" by (intro exI [of _ "64 * i + k"]) simp
  next
    assume "\<exists>p. p div 64 = i \<and> dbit d p"
    then obtain p where "p div 64 = i" "dbit d p" by blast
    then have "dbit d (64 * i + p mod 64)" by auto
    then show "\<exists>k<64. dbit d (64 * i + k)" by (intro exI [of _ "p mod 64"]) simp
  qed
  then show ?thesis by (simp add: readDetailWord_neq_0 [OF assms])
qed

section \<open>The summary\<close>

lemma summary_ok_unique:
  assumes "summary_ok d sm" "summary_ok d sm'"
  shows "sm = sm'"
proof (rule nth_equalityI)
  show l: "length sm = length sm'" using assms by (simp add: summary_ok_def)
  fix j assume j: "j < length sm"
  show "sm ! j = sm' ! j"
  proof (rule bit_word_eqI)
    fix k assume "k < LENGTH(64)"
    then have "64 * j + k < length sm * 64" "(64 * j + k) div 64 = j" "(64 * j + k) mod 64 = k"
      using j by simp_all
    moreover have "bit (sm ! (i div 64)) (i mod 64) = bit (sm' ! (i div 64)) (i mod 64)"
      if "i < length sm * 64" for i
      using assms l that by (simp add: summary_ok_def)
    ultimately show "bit (sm ! j) k = bit (sm' ! j) k" by metis
  qed
qed

lemma bit_summary_update:
  assumes "k div 64 < length (sm :: u64 list)" "i div 64 < length sm"
  shows "bit (sm[k div 64 := sm ! (k div 64) OR push_bit (k mod 64) 1] ! (i div 64)) (i mod 64)
           \<longleftrightarrow> i = k \<or> bit (sm ! (i div 64)) (i mod 64)"
    and "bit (sm[k div 64 := sm ! (k div 64) AND NOT (push_bit (k mod 64) 1)] ! (i div 64)) (i mod 64)
           \<longleftrightarrow> i \<noteq> k \<and> bit (sm ! (i div 64)) (i mod 64)"
proof -
  have e: "i = k \<longleftrightarrow> i div 64 = k div 64 \<and> i mod 64 = k mod 64"
    by (metis div_mult_mod_eq)
  show "bit (sm[k div 64 := sm ! (k div 64) OR push_bit (k mod 64) 1] ! (i div 64)) (i mod 64)
           \<longleftrightarrow> i = k \<or> bit (sm ! (i div 64)) (i mod 64)"
    using assms by (cases "i div 64 = k div 64") (auto simp: bit_or_single e)
  show "bit (sm[k div 64 := sm ! (k div 64) AND NOT (push_bit (k mod 64) 1)] ! (i div 64)) (i mod 64)
           \<longleftrightarrow> i \<noteq> k \<and> bit (sm ! (i div 64)) (i mod 64)"
    using assms by (cases "i div 64 = k div 64") (auto simp: bit_andnot_single e)
qed

lemma summary_index: "w < length d div 8 \<Longrightarrow> w div 64 < (length d div 8 + 63) div 64"
  for w :: nat and d :: bytes
proof -
  assume "w < length d div 8"
  then have "Suc (w div 64) * 64 \<le> length d div 8 + 63"
    using div_times_less_eq_dividend [of w 64] unfolding mult_Suc by linarith
  then show ?thesis by (simp only: less_eq_div_iff_mult_less_eq Suc_le_eq [symmetric])
qed

lemma summary_ok_set:
  assumes sm: "summary_ok d sm" and p: "p < 8 * length d" and d8: "8 dvd length d"
  shows "summary_ok (setDetailBit d p)
    (sm[p div 64 div 64 := sm ! (p div 64 div 64) OR push_bit (p div 64 mod 64) 1])"
proof -
  have pw: "p div 64 < length d div 8" using word_index_le [OF d8 p] d8 by auto
  have len: "length sm = (length d div 8 + 63) div 64" using sm by (simp add: summary_ok_def)
  have word: "readDetailWord (setDetailBit d p) i \<noteq> 0 \<longleftrightarrow> i = p div 64 \<or> readDetailWord d i \<noteq> 0"
    if "i < length d div 8" for i
    using that by (subst (1 2) word_neq_0_page) (auto simp: dbit_setDetailBit [OF p])
  have ix: "p div 64 div 64 < length sm" using summary_index [OF pw] len by simp
  have "bit (sm[p div 64 div 64 := sm ! (p div 64 div 64) OR push_bit (p div 64 mod 64) 1]
          ! (i div 64)) (i mod 64) \<longleftrightarrow>
        i < length d div 8 \<and> readDetailWord (setDetailBit d p) i \<noteq> 0" if "i < length sm * 64" for i
    using sm pw word [of i] that
    by (subst bit_summary_update(1) [OF ix])
      (auto simp only: less_mult_imp_div_less summary_ok_def)
  then show ?thesis by (simp add: summary_ok_def len)
qed

lemma summary_ok_clear:
  assumes sm: "summary_ok d sm" and p: "p < 8 * length d" and d8: "8 dvd length d"
  shows "summary_ok (clearDetailBit d p)
    (if readDetailWord (clearDetailBit d p) (p div 64) = 0
     then sm[p div 64 div 64 := sm ! (p div 64 div 64) AND NOT (push_bit (p div 64 mod 64) 1)]
     else sm)"
proof -
  have pw: "p div 64 < length d div 8" using word_index_le [OF d8 p] d8 by auto
  have len: "length sm = (length d div 8 + 63) div 64" using sm by (simp add: summary_ok_def)
  have word: "readDetailWord (clearDetailBit d p) i = 0 \<longleftrightarrow> readDetailWord d i = 0"
    if "i < length d div 8" "i \<noteq> p div 64" for i
  proof -
    have "readDetailWord (clearDetailBit d p) i \<noteq> 0 \<longleftrightarrow> readDetailWord d i \<noteq> 0"
      using that by (subst (1 2) word_neq_0_page) (auto simp: dbit_clearDetailBit [OF p])
    then show ?thesis by blast
  qed
  have word_p: "readDetailWord d (p div 64) \<noteq> 0"
    if "readDetailWord (clearDetailBit d p) (p div 64) \<noteq> 0"
    using that pw by (subst (asm) word_neq_0_page, simp, subst word_neq_0_page)
      (auto simp: dbit_clearDetailBit [OF p])
  have ix: "p div 64 div 64 < length sm" using summary_index [OF pw] len by simp
  let ?sm = "sm[p div 64 div 64 := sm ! (p div 64 div 64) AND NOT (push_bit (p div 64 mod 64) 1)]"
  show ?thesis
  proof (cases "readDetailWord (clearDetailBit d p) (p div 64) = 0")
    case True
    have "bit (?sm ! (i div 64)) (i mod 64) \<longleftrightarrow>
        i < length d div 8 \<and> readDetailWord (clearDetailBit d p) i \<noteq> 0" if "i < length sm * 64" for i
      using sm word [of i] that True
      by (subst bit_summary_update(2) [OF ix])
        (auto simp: less_mult_imp_div_less summary_ok_def)
    with True show ?thesis by (simp add: summary_ok_def len)
  next
    case False
    have "bit (sm ! (i div 64)) (i mod 64) \<longleftrightarrow>
        i < length d div 8 \<and> readDetailWord (clearDetailBit d p) i \<noteq> 0" if "i < length sm * 64" for i
      using sm word [of i] that False word_p
      by (cases "i = p div 64") (auto simp: summary_ok_def)
    with False show ?thesis by (simp add: summary_ok_def len)
  qed
qed

section \<open>Point operations\<close>

lemma bm_wf_detail8: "geometry_ok b \<Longrightarrow> 8 dvd length (detail b)"
  by (simp add: geometry_ok_def)

lemma finite_free_pages [simp]: "finite (free_pages b)"
  by (simp add: free_pages_def)

lemma free_pages_iff:
  "p \<in> free_pages b \<longleftrightarrow> p < totalPages b \<and> dbit (detail b) p"
  by (simp add: free_pages_def)

lemma free_pages_range:
  assumes "bm_wf b" "p \<in> free_pages b"
  shows "firstDataPage b \<le> p" "p < totalPages b"
  using assms by (auto simp: bm_wf_def content_ok_def geometry_ok_def free_pages_def)

lemma IsSet_iff: "IsSet b p \<longleftrightarrow> p \<in> free_pages b"
  by (auto simp: IsSet_def free_pages_def detail_test_bit)

definition allocatable :: "Bitmap \<Rightarrow> nat \<Rightarrow> bool" where
  "allocatable b p \<longleftrightarrow> firstDataPage b \<le> p \<and> p < totalPages b"

lemma checkAllocatable_ok [simp]: "allocatable b p \<Longrightarrow> checkAllocatable b p = None"
  by (simp add: checkAllocatable_def allocatable_def)

lemma checkAllocatable_None: "checkAllocatable b p = None \<longleftrightarrow> allocatable b p"
  by (auto simp: checkAllocatable_def allocatable_def)

lemma allocatable_in_detail: "geometry_ok b \<Longrightarrow> allocatable b p \<Longrightarrow> p < 8 * length (detail b)"
  by (simp add: geometry_ok_def allocatable_def)

lemma recordFlip_fields [simp]:
  "detail (recordFlip p v b) = detail b" "summary (recordFlip p v b) = summary b"
  "pageSize (recordFlip p v b) = pageSize b" "bitmapPages (recordFlip p v b) = bitmapPages b"
  "firstDataPage (recordFlip p v b) = firstDataPage b" "totalPages (recordFlip p v b) = totalPages b"
  "numFree (recordFlip p v b) = numFree b" "hint (recordFlip p v b) = hint b"
  "dirty (recordFlip p v b) = dirty b" "openSnapshots (recordFlip p v b) = openSnapshots b"
  "nextSnap (recordFlip p v b) = nextSnap b"
  by (simp_all add: recordFlip_def)

text \<open>The detail, summary, count and log of a flip, as one update.\<close>

definition flipped :: "Bitmap \<Rightarrow> nat \<Rightarrow> bool \<Rightarrow> Bitmap" where
  "flipped b p wasSet =
     b\<lparr>detail := (if wasSet then clearDetailBit (detail b) p else setDetailBit (detail b) p),
       summary :=
         (let w = p div 64; sm = summary b in
          if wasSet then
            if readDetailWord (clearDetailBit (detail b) p) w = 0
            then sm[w div 64 := sm ! (w div 64) AND NOT (push_bit (w mod 64) 1)] else sm
          else sm[w div 64 := sm ! (w div 64) OR push_bit (w mod 64) 1]),
       numFree := (if wasSet then numFree b - 1 else numFree b + 1),
       dirty := insert ((p div (pageSize b * 8)) mod 2 ^ 32) (dirty b),
       undoLog := (if openSnapshots b = [] then undoLog b
                   else undoLog b @ [\<lparr>bf_page = p, bf_wasSet = wasSet\<rparr>])\<rparr>"

lemma Set_eq:
  "Set b p = (case checkAllocatable b p of Some e \<Rightarrow> Inl e
     | None \<Rightarrow> Inr (if dbit (detail b) p then b else flipped b p False))"
  by (simp add: Set_def flipped_def detail_test_bit markSummary_def markDirty_def recordFlip_def
      Let_def split: option.splits)

lemma Clear_eq:
  "Clear b p = (case checkAllocatable b p of Some e \<Rightarrow> Inl e
     | None \<Rightarrow> Inr (if dbit (detail b) p then flipped b p True else b))"
  by (simp add: Clear_def flipped_def detail_test_bit unmarkSummaryIfWordZero_def markDirty_def
      recordFlip_def Let_def split: option.splits)

lemma flipped_fields [simp]:
  "pageSize (flipped b p v) = pageSize b" "bitmapPages (flipped b p v) = bitmapPages b"
  "firstDataPage (flipped b p v) = firstDataPage b" "totalPages (flipped b p v) = totalPages b"
  "hint (flipped b p v) = hint b" "openSnapshots (flipped b p v) = openSnapshots b"
  "nextSnap (flipped b p v) = nextSnap b" "length (detail (flipped b p v)) = length (detail b)"
  by (simp_all add: flipped_def)

lemma geometry_flipped [simp]: "geometry_ok (flipped b p v) = geometry_ok b"
  by (simp add: geometry_ok_def)

lemma dbit_flipped:
  "p < 8 * length (detail b) \<Longrightarrow>
   dbit (detail (flipped b p v)) q \<longleftrightarrow> (if q = p then \<not> v else dbit (detail b) q)"
  by (auto simp: flipped_def dbit_setDetailBit dbit_clearDetailBit)

lemma free_pages_flipped:
  assumes "geometry_ok b" "allocatable b p"
  shows "free_pages (flipped b p v) = (if v then free_pages b - {p} else insert p (free_pages b))"
  using dbit_flipped [OF allocatable_in_detail [OF assms]] assms(2)
  by (auto simp: free_pages_def allocatable_def)

lemma content_flipped:
  assumes "geometry_ok b" "content_ok b" "allocatable b p"
  shows "content_ok (flipped b p v)"
proof -
  have p: "p < 8 * length (detail b)" using assms by (simp add: allocatable_in_detail)
  have "summary_ok (detail (flipped b p v)) (summary (flipped b p v))"
    using summary_ok_set [OF _ p] summary_ok_clear [OF _ p] assms
    by (simp add: content_ok_def bm_wf_detail8 flipped_def Let_def)
  then show ?thesis
    using assms dbit_flipped [OF p] by (auto simp: content_ok_def allocatable_def split: if_splits)
qed

lemma snaps_flipped:
  "snaps_ok b \<Longrightarrow> allocatable b p \<Longrightarrow> snaps_ok (flipped b p v)"
  by (auto simp: snaps_ok_def allocatable_def) (auto simp: flipped_def allocatable_def split: if_splits)

lemma bm_wf_flipped:
  assumes "bm_wf b" "allocatable b p" "dbit (detail b) p = v"
  shows "bm_wf (flipped b p v)"
proof -
  have "p \<in> free_pages b \<longleftrightarrow> v" using assms by (simp add: free_pages_def allocatable_def)
  then have "numFree (flipped b p v) = card (free_pages (flipped b p v))"
    using assms by (simp add: free_pages_flipped bm_wf_def) (simp add: flipped_def)
  then show ?thesis
    using assms by (simp add: bm_wf_def content_flipped snaps_flipped)
qed

definition geom :: "Bitmap \<Rightarrow> nat \<times> nat \<times> nat \<times> nat" where
  "geom b = (pageSize b, bitmapPages b, firstDataPage b, totalPages b)"

lemma geom_flipped [simp]: "geom (flipped b p v) = geom b"
  by (simp add: geom_def)

lemma allocatable_geom: "geom b' = geom b \<Longrightarrow> allocatable b' p = allocatable b p"
  by (simp add: geom_def allocatable_def)

lemma Set_ok:
  assumes "bm_wf b" "allocatable b p"
  shows "\<exists>b'. Set b p = Inr b' \<and> bm_wf b' \<and> free_pages b' = insert p (free_pages b) \<and>
    geom b' = geom b \<and> hint b' = hint b"
proof (cases "dbit (detail b) p")
  case True
  then have "p \<in> free_pages b" using assms(2) by (simp add: free_pages_iff allocatable_def)
  then show ?thesis using True assms by (simp add: Set_eq insert_absorb)
next
  case False
  have g: "geometry_ok b" using assms(1) by (simp add: bm_wf_def)
  show ?thesis
    using False assms(2) bm_wf_flipped [OF assms, of False]
    by (simp add: Set_eq free_pages_flipped [OF g assms(2)])
qed

lemma Clear_ok:
  assumes "bm_wf b" "allocatable b p"
  shows "\<exists>b'. Clear b p = Inr b' \<and> bm_wf b' \<and> free_pages b' = free_pages b - {p} \<and>
    geom b' = geom b \<and> hint b' = hint b"
proof (cases "dbit (detail b) p")
  case False
  then have "p \<notin> free_pages b" by (simp add: free_pages_iff)
  then show ?thesis using False assms by (simp add: Clear_eq)
next
  case True
  have g: "geometry_ok b" using assms(1) by (simp add: bm_wf_def)
  show ?thesis
    using True assms(2) bm_wf_flipped [OF assms, of True]
    by (simp add: Clear_eq free_pages_flipped [OF g assms(2)])
qed

lemma SetHint_wf: "bm_wf b \<Longrightarrow> bm_wf (SetHint b p)"
  by (auto simp: SetHint_def bm_wf_def geometry_ok_def content_ok_def snaps_ok_def free_pages_def)

lemma SetHint_free [simp]: "free_pages (SetHint b p) = free_pages b"
  by (simp add: SetHint_def free_pages_def)

section \<open>Construction\<close>

lemma length_fold_clear [simp]: "length (fold (\<lambda>p d. clearDetailBit d p) ps d) = length d"
  by (induction ps arbitrary: d) auto

lemma dbit_fold_clear:
  "set ps \<subseteq> {..<8 * length d} \<Longrightarrow>
   dbit (fold (\<lambda>p d. clearDetailBit d p) ps d) q \<longleftrightarrow> q \<notin> set ps \<and> dbit d q"
  by (induction ps arbitrary: d) (auto simp: dbit_clearDetailBit)

lemma card_word_bits:
  assumes "8 * i + 8 \<le> length d"
  shows "OnesCount64 (readDetailWord d i) = card {p. 64 * i \<le> p \<and> p < 64 * i + 64 \<and> dbit d p}"
proof -
  have "{p. 64 * i \<le> p \<and> p < 64 * i + 64 \<and> dbit d p} =
      (\<lambda>k. 64 * i + k) ` {k. k < 64 \<and> bit (readDetailWord d i) k}" (is "?L = ?f ` ?R")
  proof (intro set_eqI iffI)
    fix p assume "p \<in> ?L"
    then show "p \<in> ?f ` ?R"
      using assms by (intro image_eqI [of _ _ "p - 64 * i"]) (auto simp: bit_readDetailWord)
  qed (use assms in \<open>auto simp: bit_readDetailWord\<close>)
  then show ?thesis by (simp add: OnesCount64_card card_image)
qed

lemma card_split_upto:
  "card {p. p < 64 * Suc n \<and> P p} =
   card {p. p < 64 * n \<and> P p} + card {p. 64 * n \<le> p \<and> p < 64 * n + 64 \<and> P p}"
proof -
  have "{p. p < 64 * Suc n \<and> P p} =
      {p. p < 64 * n \<and> P p} \<union> {p. 64 * n \<le> p \<and> p < 64 * n + 64 \<and> P p}" by auto
  moreover have "finite {p. p < 64 * n \<and> P p}" "finite {p. 64 * n \<le> p \<and> p < 64 * n + 64 \<and> P p}"
    by simp_all
  moreover have "{p. p < 64 * n \<and> P p} \<inter> {p. 64 * n \<le> p \<and> p < 64 * n + 64 \<and> P p} = {}" by auto
  ultimately show ?thesis by (simp add: card_Un_disjoint)
qed

definition rebuild_step :: "bytes \<Rightarrow> nat \<Rightarrow> u64 list \<times> nat \<Rightarrow> u64 list \<times> nat" where
  "rebuild_step d i =
     (\<lambda>(sm, free).
        let w = readDetailWord d i in
        if w = 0 then (sm, free)
        else (sm[i div 64 := sm ! (i div 64) OR push_bit (i mod 64) 1], free + OnesCount64 w))"

lemma rebuild_fold:
  assumes "n \<le> length d div 8" "m = (length d div 8 + 63) div 64"
    "fold (rebuild_step d) [0..<n] (replicate m 0, 0) = (sm, free)"
  shows "length sm = m \<and>
    (\<forall>i < m * 64. bit (sm ! (i div 64)) (i mod 64) \<longleftrightarrow> i < n \<and> readDetailWord d i \<noteq> 0) \<and>
    free = card {p. p < 64 * n \<and> dbit d p}"
  using assms(1,3)
proof (induction n arbitrary: sm free)
  case 0
  then show ?case by (auto simp: less_mult_imp_div_less)
next
  case (Suc n)
  obtain sm0 free0 where e: "fold (rebuild_step d) [0..<n] (replicate m 0, 0) = (sm0, free0)"
    by fastforce
  note IH = Suc.IH [OF _ e]
  have n: "n < length d div 8" using Suc.prems by simp
  then have len: "8 * n + 8 \<le> length d" by (simp add: less_eq_div_iff_mult_less_eq flip: Suc_le_eq)
  have ix: "n div 64 < length sm0" using summary_index [OF n] IH n assms(2) by simp
  have r: "(sm, free) = rebuild_step d n (sm0, free0)" using Suc.prems(2) e by simp
  have card: "card {p. p < 64 * Suc n \<and> dbit d p} = free0 + OnesCount64 (readDetailWord d n)"
    using IH n card_word_bits [OF len] by (simp only: card_split_upto)
  show ?case
  proof (cases "readDetailWord d n = 0")
    case True
    then have "OnesCount64 (readDetailWord d n) = 0" by (simp add: OnesCount64_def)
    then show ?thesis
      using True r IH n card by (auto simp: rebuild_step_def less_Suc_eq)
  next
    case False
    have "bit (sm0[n div 64 := sm0 ! (n div 64) OR push_bit (n mod 64) 1] ! (i div 64)) (i mod 64)
        \<longleftrightarrow> i = n \<or> bit (sm0 ! (i div 64)) (i mod 64)" if "i < m * 64" for i
      using that IH n by (intro bit_summary_update(1) [OF ix]) (simp add: less_mult_imp_div_less)
    then show ?thesis
      using False r IH n card by (auto simp: rebuild_step_def Let_def less_Suc_eq)
  qed
qed

lemma rebuildSummary_ok:
  assumes "8 dvd length d" "rebuildSummary d = (sm, free)"
  shows "summary_ok d sm" "free = card {p. p < 8 * length d \<and> dbit d p}"
proof -
  have "fold (rebuild_step d) [0..<length d div 8] (replicate ((length d div 8 + 63) div 64) 0, 0)
      = (sm, free)"
    using assms(2) by (simp add: rebuildSummary_def rebuild_step_def [abs_def] Let_def)
  from rebuild_fold [OF order_refl refl this] assms(1)
  show "summary_ok d sm" "free = card {p. p < 8 * length d \<and> dbit d p}"
    by (auto simp: summary_ok_def)
qed

lemma pow2_dvd8:
  assumes "4096 \<le> (n::nat)" "n AND (n - 1) = 0"
  shows "8 dvd n"
proof (rule ccontr)
  assume "\<not> 8 dvd n"
  then obtain r where r: "n mod 8 = Suc r" by (cases "n mod 8") (auto simp: dvd_eq_mod_eq_0)
  then have "n = 8 * (n div 8) + Suc r" by (metis mult_div_mod_eq)
  then have "n - 1 = 8 * (n div 8) + r" by simp
  moreover have "r < 8" using r mod_less_divisor [of 8 n] by simp
  ultimately have "(n - 1) div 8 = n div 8" by simp
  then have "drop_bit 3 (n - 1) = drop_bit 3 n"
    by (simp add: drop_bit_eq_div)
  then have "drop_bit 3 (n AND (n - 1)) = drop_bit 3 n"
    by (simp only: drop_bit_and and.idem)
  then show False using assms by (simp add: drop_bit_eq_div)
qed

lemma New_ok:
  fixes ps32 bp32 :: u32
  defines "ps \<equiv> unat ps32" and "bp \<equiv> unat bp32"
  assumes "New d ps32 bp32 tp = Inr b"
  shows "bm_wf b"
    and "free_pages b = {p. 2 + bp \<le> p \<and> p < tp \<and> dbit d p}"
    and "geom b = (ps, bp, 2 + bp, tp)" and "openSnapshots b = []" and "dirty b = {}"
proof -
  note New = assms(3) [unfolded New_def Let_def, folded ps_def bp_def]
  from New have ps: "4096 \<le> ps" "ps \<le> 65536" "ps AND (ps - 1) = 0" and len: "length d = bp * ps"
    and tp: "tp \<le> length d * 8"
    by (auto split: if_splits)
  have bp32: "bp < 2 ^ 32" using unsigned_less [of bp32] by (simp add: bp_def)
  obtain d' where d': "maskInvariantRegions d (2 + bp) tp = Inr d'"
    using New by (auto split: if_splits sum.splits)
  obtain sm free where r: "rebuildSummary d' = (sm, free)" by fastforce
  have b: "b = \<lparr>detail = d', summary = sm, pageSize = ps, bitmapPages = bp,
      firstDataPage = 2 + bp, totalPages = tp, numFree = free, hint = 2 + bp,
      dirty = {}, undoLog = [], openSnapshots = [], nextSnap = 0\<rparr>"
    using New d' r by (auto split: if_splits)
  have fdp: "2 + bp \<le> 8 * length d"
    and fold: "d' = fold (\<lambda>p d. clearDetailBit d p) [tp..<8 * length d]
                 (fold (\<lambda>p d. clearDetailBit d p) [0..<2 + bp] d)"
    using d' by (auto simp: maskInvariantRegions_def split: if_splits)
  have len': "length d' = length d" by (simp add: fold)
  have bits: "dbit d' q \<longleftrightarrow> 2 + bp \<le> q \<and> q < tp \<and> dbit d q" if "q < 8 * length d" for q
    unfolding fold using that fdp
    by (subst dbit_fold_clear, force, subst dbit_fold_clear, force) auto
  have d8: "8 dvd length d'" using pow2_dvd8 [OF ps(1,3)] len len' by simp
  note sum = rebuildSummary_ok [OF d8 r]
  show fp: "free_pages b = {p. 2 + bp \<le> p \<and> p < tp \<and> dbit d p}"
    using bits tp by (auto simp: b free_pages_def)
  have "{p. p < 8 * length d' \<and> dbit d' p} = free_pages b"
    using bits tp by (auto simp: b free_pages_def len')
  then have "free = card (free_pages b)" using sum(2) by simp
  moreover have "0 < bp" using fdp len by (cases bp) auto
  ultimately show "bm_wf b"
    using ps len len' tp bits sum(1) bp32 pow2_dvd8 [OF ps(1,3)]
    by (auto simp: bm_wf_def geometry_ok_def content_ok_def snaps_ok_def b)
  show "geom b = (ps, bp, 2 + bp, tp)" "openSnapshots b = []" "dirty b = {}"
    by (simp_all add: b geom_def)
qed

lemma New_total:
  assumes "4096 \<le> unat ps" "unat ps \<le> 65536" "unat ps AND (unat ps - 1) = 0" "0 < unat bp"
    "length d = unat bp * unat ps" "tp \<le> 8 * length d"
  shows "\<exists>b. New d ps bp tp = Inr b"
proof -
  have "unat bp * 4096 \<le> length d" using assms(1,5) by simp
  then have "2 + unat bp \<le> 8 * length d" using assms(4) by linarith
  then show ?thesis
    using assms by (simp add: New_def maskInvariantRegions_def Let_def split: prod.split)
qed

lemma geometry_bound: "geometry_ok b \<Longrightarrow> 8 * length (detail b) < 2 ^ 52"
proof -
  assume "geometry_ok b"
  then have "length (detail b) \<le> bitmapPages b * 65536" "bitmapPages b < 2 ^ 32"
    by (simp_all add: geometry_ok_def)
  then show ?thesis by simp
qed

end
