(* ===== verification/Bitmap_Scan.thy ===== *)
theory Bitmap_Scan
  imports Bitmap_Inv
begin

text \<open>
  The word-level scans of the bitmap compute the least free page, and the least run of free
  pages, of a page interval: the summary skip, the edge masks, the bit-counting primitives and
  the run carried across word boundaries are all equivalent to the set-level specification
  \<open>first_in\<close>.
\<close>

section \<open>Specification\<close>

definition first_in :: "nat set \<Rightarrow> nat option" where
  "first_in S = (if S = {} then None else Some (LEAST p. p \<in> S))"

definition runs :: "nat set \<Rightarrow> nat \<Rightarrow> nat set" where
  "runs S n = {s. {s..<s + n} \<subseteq> S}"

lemma first_in_None [simp]: "first_in S = None \<longleftrightarrow> S = {}"
  by (simp add: first_in_def)

lemma first_in_empty [simp]: "first_in {} = None"
  by simp

lemma first_in_SomeI: "p \<in> S \<Longrightarrow> (\<And>q. q \<in> S \<Longrightarrow> p \<le> q) \<Longrightarrow> first_in S = Some p"
  by (auto simp: first_in_def intro: Least_equality)

lemma first_in_SomeD: "first_in S = Some p \<Longrightarrow> p \<in> S \<and> (\<forall>q \<in> S. p \<le> q)"
  by (auto simp: first_in_def split: if_splits intro: LeastI Least_le)

lemma runs_mem: "s \<in> runs S n \<Longrightarrow> s \<le> q \<Longrightarrow> q < s + n \<Longrightarrow> q \<in> S"
  by (auto simp: runs_def)

lemma runs_1 [simp]: "runs S 1 = S" "runs S (Suc 0) = S"
  by (auto simp: runs_def)

lemma runs_Int: "runs (S \<inter> A) n = runs S n \<inter> runs A n"
  by (auto simp: runs_def)

lemma runs_interval: "0 < n \<Longrightarrow> runs {a..<b} n = {s. a \<le> s \<and> s + n \<le> b}"
  by (auto simp: runs_def)

lemma runs_card:
  assumes "finite S" "s \<in> runs S n"
  shows "n \<le> card S"
  using card_mono [OF assms(1), of "{s..<s + n}"] assms(2) by (simp add: runs_def)

section \<open>Edge masks\<close>

lemma maskEdges_bit:
  assumes "from < to" "from div 64 \<le> w" "w < (to + 63) div 64"
  shows "bit (maskEdges from to (from div 64) ((to + 63) div 64) w dw) k \<longleftrightarrow>
    bit dw k \<and> from \<le> 64 * w + k \<and> 64 * w + k < to"
proof (cases "k < 64")
  case False
  then have "\<not> bit x k" for x :: u64 using bit_word_less64 by blast
  then show ?thesis by simp
next
  case k: True
  define c e a m wT where d: "c = from div 64" "e = from mod 64" "a = to div 64" "m = to mod 64"
    "wT = (to + 63) div 64"
  have fr: "from = 64 * c + e" "e < 64" and to: "to = 64 * a + m" "m < 64"
    by (simp_all add: d)
  have wT: "wT = (if m = 0 then a else a + 1)"
    unfolding d(5) by (simp only: to(1)) (use to(2) in \<open>auto intro!: div_nat_eqI\<close>)
  have w: "c \<le> w" "w < wT" using assms by (simp_all add: d)
  have lo: "w = c \<Longrightarrow> e \<le> k \<longleftrightarrow> from \<le> 64 * w + k"
    and lo': "w \<noteq> c \<Longrightarrow> from \<le> 64 * w + k"
    using w(1) fr by linarith+
  have hi: "w = wT - 1 \<Longrightarrow> m \<noteq> 0 \<Longrightarrow> k < m \<longleftrightarrow> 64 * w + k < to"
    using wT to(1) by simp
  have hi': "64 * w + k < to" if "w \<noteq> wT - 1 \<or> m = 0"
  proof -
    have "w < a" using that w(2) wT by (cases "m = 0") simp_all
    then show ?thesis using to(1) k by linarith
  qed
  have m1: "bit (x AND NOT (low_mask j)) k \<longleftrightarrow> bit x k \<and> j \<le> k" for x :: u64 and j
    using k by (auto simp: bit_and_iff bit_not_iff bit_low_mask)
  have m2: "bit (x AND low_mask j) k \<longleftrightarrow> bit x k \<and> k < j" for x :: u64 and j
    using k by (auto simp: bit_and_iff bit_low_mask)
  show ?thesis
    unfolding maskEdges_def Let_def d(1,2,4,5) [symmetric]
    using lo lo' hi hi' by (auto simp: m1 m2)
qed

section \<open>Single pages\<close>

lemma summary_skip:
  assumes wf: "bm_wf b" and w: "w mod 64 = 0" and z: "summary b ! (w div 64) = 0"
    and wl: "w < length (detail b) div 8" and q: "q \<in> free_pages b" "64 * w \<le> q"
  shows "64 * (w + 64) \<le> q"
proof (rule ccontr)
  assume "\<not> 64 * (w + 64) \<le> q"
  then have ql: "q div 64 < w + 64" "w \<le> q div 64"
    using q(2) by (simp_all add: less_mult_imp_div_less less_eq_div_iff_mult_less_eq mult.commute)
  have i: "q div 64 div 64 = w div 64"
  proof (rule div_nat_eqI)
    have "w = 64 * (w div 64)" using w by auto
    then show "64 * (w div 64) \<le> q div 64" "q div 64 < 64 * Suc (w div 64)"
      using ql unfolding mult_Suc_right by linarith+
  qed
  have g: "geometry_ok b" and sm: "summary_ok (detail b) (summary b)"
    using wf by (simp_all add: bm_wf_def content_ok_def)
  have qd: "q < 8 * length (detail b)" "dbit (detail b) q"
    using q(1) g by (auto simp: free_pages_iff geometry_ok_def)
  have wi: "8 * (q div 64) + 8 \<le> length (detail b)"
    using word_index_le [OF bm_wf_detail8 [OF g] qd(1)] .
  then have ne: "readDetailWord (detail b) (q div 64) \<noteq> 0"
    using qd(2) word_neq_0_page by blast
  have qw: "q div 64 < length (detail b) div 8" using wi by simp
  have "q div 64 < length (summary b) * 64"
    using sm summary_index [OF qw] by (simp add: summary_ok_def div_less_iff_less_mult)
  then have "bit (summary b ! (q div 64 div 64)) (q div 64 mod 64)"
    using sm ne qw by (simp add: summary_ok_def)
  then show False using i z by simp
qed

declare scan_loop.simps [simp del]

lemma word_cover: "to \<le> 64 * ((to + 63) div 64)" for to :: nat
proof -
  have "to + 63 < 64 * ((to + 63) div 64) + 64"
    using mod_less_divisor [of 64 "to + 63"] mult_div_mod_eq [of 64 "to + 63"] by linarith
  then show ?thesis by simp
qed

lemma word_in_detail:
  assumes "geometry_ok b" "to \<le> totalPages b" "w < (to + 63) div 64"
  shows "w < length (detail b) div 8" "8 * w + 8 \<le> length (detail b)"
proof -
  obtain k where k: "length (detail b) = 8 * k" using bm_wf_detail8 [OF assms(1)] by (elim dvdE)
  have "to + 63 < 64 * Suc k" using assms k by (simp add: geometry_ok_def)
  then have "(to + 63) div 64 < Suc k" by (simp only: div_less_iff_less_mult mult.commute)
  with assms(3) k show "w < length (detail b) div 8" "8 * w + 8 \<le> length (detail b)" by simp_all
qed

lemma masked_word_bit:
  assumes "bm_wf b" "from < to" "to \<le> totalPages b" "from div 64 \<le> w" "w < (to + 63) div 64"
  shows "bit (maskEdges from to (from div 64) ((to + 63) div 64) w (readDetailWord (detail b) w)) k
    \<longleftrightarrow> k < 64 \<and> 64 * w + k \<in> free_pages b \<inter> {from..<to}"
proof -
  have g: "geometry_ok b" using assms(1) by (simp add: bm_wf_def)
  show ?thesis
    using maskEdges_bit [OF assms(2,4,5)] bit_readDetailWord [OF word_in_detail(2) [OF g assms(3,5)]]
      assms(3) by (auto simp: free_pages_iff)
qed

lemma next_word:
  assumes "\<And>q. q \<in> S \<Longrightarrow> 64 * w \<le> q" "\<And>k. k < 64 \<Longrightarrow> 64 * w + k \<notin> S" "q \<in> S"
  shows "64 * (w + 1) \<le> (q :: nat)"
proof (rule ccontr)
  assume "\<not> 64 * (w + 1) \<le> q"
  then have "q - 64 * w < 64" "64 * w + (q - 64 * w) = q" using assms(1) [OF assms(3)] by simp_all
  then show False using assms(2) [of "q - 64 * w"] assms(3) by simp
qed

lemma scan_loop_first:
  assumes wf: "bm_wf b" and ft: "firstDataPage b \<le> from" "from < to" "to \<le> totalPages b"
    and "from div 64 \<le> w" "\<And>q. q \<in> free_pages b \<inter> {from..<to} \<Longrightarrow> 64 * w \<le> q"
  shows "scan_loop b from to (from div 64) ((to + 63) div 64) w =
    first_in (free_pages b \<inter> {from..<to})"
  using assms(5,6)
proof (induction "(to + 63) div 64 - w" arbitrary: w rule: less_induct)
  case less
  let ?S = "free_pages b \<inter> {from..<to}" and ?wT = "(to + 63) div 64"
  let ?loop = "scan_loop b from to (from div 64) ?wT"
  let ?dw = "readDetailWord (detail b) w"
  let ?m = "maskEdges from to (from div 64) ?wT w ?dw"
  show ?case
  proof (cases "w < ?wT")
    case False
    have "?S = {}" using less.prems(2) word_cover [of to] False by fastforce
    then show ?thesis using False by (simp add: scan_loop.simps [of b] first_in_def)
  next
    case w: True
    have g: "geometry_ok b" using wf by (simp add: bm_wf_def)
    note wd = word_in_detail [OF g ft(3) w] and bits = masked_word_bit [OF wf ft(2,3) less.prems(1) w]
    have step: "?loop (w + 1) = first_in ?S" if "\<And>k. k < 64 \<Longrightarrow> 64 * w + k \<notin> ?S"
      using less.hyps [of "w + 1"] w less.prems next_word [OF less.prems(2) that] by simp
    show ?thesis
    proof (cases "w mod 64 = 0 \<and> summary b ! (w div 64) = 0")
      case True
      have "?loop (w + 64) = first_in ?S"
        using less.hyps [of "w + 64"] w less.prems True summary_skip [OF wf _ _ wd(1)] by simp
      then show ?thesis using w True by (simp add: scan_loop.simps [of b _ _ _ _ w])
    next
      case skip: False
      have none: "64 * w + k \<notin> ?S" if "?m = 0" "k < 64" for k
        using bits [of k] that by simp
      have dz: "?m = 0" if "?dw = 0" using that by (simp add: maskEdges_def)
      show ?thesis
      proof (cases "?m = 0")
        case True
        then have "?loop w = ?loop (w + 1)"
          using w skip by (auto simp: scan_loop.simps [of b _ _ _ _ w] Let_def)
        then show ?thesis using step none True by simp
      next
        case m: False
        let ?p = "64 * w + TrailingZeros64 ?m"
        have p: "?p \<in> ?S" using bits TrailingZeros64_bit [OF m] by blast
        have least: "?p \<le> q" if "q \<in> ?S" for q
        proof (cases "q < 64 * w + 64")
          case True
          then have "bit ?m (q - 64 * w)" using bits that less.prems(2) [OF that] by simp
          then show ?thesis using TrailingZeros64_less less.prems(2) [OF that] by fastforce
        next
          case False
          then show ?thesis using TrailingZeros64_less64 [OF m] by simp
        qed
        have "?loop w = Some ?p"
          using w skip m dz p ft(1) by (auto simp: scan_loop.simps [of b _ _ _ _ w] Let_def mult.commute)
        then show ?thesis using first_in_SomeI [OF p least] by simp
      qed
    qed
  qed
qed

lemma free_clamp:
  assumes "bm_wf b"
  shows "free_pages b \<inter> {max from (firstDataPage b)..<min to (totalPages b)} = free_pages b \<inter> {from..<to}"
  using free_pages_range [OF assms] by auto

lemma scanForward_first:
  assumes "bm_wf b"
  shows "scanForward b from to = first_in (free_pages b \<inter> {from..<to})"
proof -
  define f t where ft: "f = max from (firstDataPage b)" "t = min to (totalPages b)"
  have "64 * (f div 64) \<le> q" if "f \<le> q" for q
    using that mult_div_mod_eq [of 64 f] by linarith
  then have "scan_loop b f t (f div 64) ((t + 63) div 64) (f div 64) =
      first_in (free_pages b \<inter> {f..<t})" if "f < t"
    using that scan_loop_first [OF assms, of f t "f div 64"] by (auto simp: ft)
  then have "scanForward b from to = first_in (free_pages b \<inter> {f..<t})"
    unfolding scanForward_def Let_def ft [symmetric]
    by (cases "f < t") (simp_all add: first_in_def)
  then show ?thesis by (simp only: free_clamp [OF assms] ft)
qed

section \<open>Runs\<close>

text \<open>
  The state of the run scan at bit position \<open>x\<close>: \<open>L\<close> is the length of the maximal run of \<open>T\<close> that
  ends at \<open>x\<close>, \<open>st\<close> its start, and no run of \<open>n\<close> pages ends at or before \<open>x\<close>.
\<close>

definition run_inv :: "nat set \<Rightarrow> nat \<Rightarrow> nat \<Rightarrow> nat \<Rightarrow> nat \<Rightarrow> bool" where
  "run_inv T n x L st \<longleftrightarrow>
     L \<le> x \<and> {x - L..<x} \<subseteq> T \<and> (L = x \<or> x - L - 1 \<notin> T) \<and> (0 < L \<longrightarrow> st = x - L) \<and>
     (\<forall>s \<in> runs T n. x < s + n)"

lemma run_inv_start:
  assumes "run_inv T n x L st" "s \<in> runs T n"
  shows "x - L \<le> s"
proof (rule ccontr)
  assume "\<not> x - L \<le> s"
  then have "s \<le> x - L - 1" "x - L - 1 < s + n" "L \<noteq> x"
    using assms by (auto simp: run_inv_def)
  then show False using runs_mem [OF assms(2)] assms(1) by (auto simp: run_inv_def)
qed

lemma run_inv_zeros:
  assumes "run_inv T n x L st" "0 < z" "T \<inter> {x..<x + z} = {}" "0 < n"
  shows "run_inv T n (x + z) 0 st'"
proof -
  have "x + z < s + n" if "s \<in> runs T n" for s
  proof (rule ccontr)
    assume "\<not> x + z < s + n"
    moreover have "x < s + n" using assms(1) that by (simp add: run_inv_def)
    ultimately have "s + n - 1 \<in> {x..<x + z}" "s + n - 1 \<in> T"
      using assms(4) runs_mem [OF that, of "s + n - 1"] by auto
    then show False using assms(3) by blast
  qed
  moreover have "x + z - 1 \<notin> T"
  proof -
    have "x + z - 1 \<in> {x..<x + z}" using assms(2) by simp
    then show ?thesis using assms(3) by blast
  qed
  ultimately show ?thesis by (simp add: run_inv_def)
qed

lemma run_inv_ones:
  assumes "run_inv T n x L st" "{x..<x + k} \<subseteq> T" "L + k < n"
  shows "run_inv T n (x + k) (L + k) (if L = 0 then x else st)"
proof -
  have "x + k < s + n" if "s \<in> runs T n" for s
    using run_inv_start [OF assms(1) that] assms(1,3) by (auto simp: run_inv_def)
  moreover have "{x - L..<x + k} \<subseteq> T"
  proof
    fix q assume "q \<in> {x - L..<x + k}"
    then show "q \<in> T" using assms(1,2) by (cases "q < x") (auto simp: run_inv_def)
  qed
  ultimately show ?thesis using assms(1) by (auto simp: run_inv_def)
qed

lemma run_inv_found:
  assumes "run_inv T n x L st" "{x..<x + k} \<subseteq> T" "n \<le> L + k"
  shows "first_in (runs T n) = Some (if L = 0 then x else st)"
proof -
  have e: "(if L = 0 then x else st) = x - L" using assms(1) by (simp add: run_inv_def)
  have "x - L \<in> runs T n"
    unfolding runs_def mem_Collect_eq
  proof
    fix q assume "q \<in> {x - L..<x - L + n}"
    then show "q \<in> T" using assms by (cases "q < x") (auto simp: run_inv_def)
  qed
  then show ?thesis
    unfolding e by (rule first_in_SomeI) (rule run_inv_start [OF assms(1)])
qed

declare run_word.simps [simp del]

lemma run_word_ok:
  assumes bits: "\<And>k. k < 64 \<Longrightarrow> bit word k \<longleftrightarrow> 64 * w + k \<in> T" and n: "0 < n"
    and "pos \<le> 64" "run_inv T n (64 * w + pos) L st"
  shows "case run_word word w n pos L st of
      Inl s \<Rightarrow> first_in (runs T n) = Some s
    | Inr (pos', L', st') \<Rightarrow> run_inv T n (64 * w + 64) (if pos' < 64 then 0 else L') st'"
  using assms(3,4)
proof (induction "64 - pos" arbitrary: pos L st rule: less_induct)
  case less
  let ?rem = "drop_bit pos word" and ?x = "64 * w + pos"
  let ?z = "TrailingZeros64 ?rem" and ?L1 = "if 0 < TrailingZeros64 ?rem then 0 else L"
  let ?p1 = "pos + ?z"
  let ?o = "min (TrailingZeros64 (NOT (drop_bit ?p1 word))) (64 - ?p1)"
  let ?st1 = "if ?L1 = 0 then w * 64 + ?p1 else st"
  show ?case
  proof (cases "pos < 64")
    case False
    then have "pos = 64" using less.prems(1) by simp
    then show ?thesis using less.prems(2) by (simp add: run_word.simps [of word])
  next
    case pos: True
    show ?thesis
    proof (cases "?rem = 0")
      case True
      have "T \<inter> {?x..<?x + (64 - pos)} = {}"
      proof (rule ccontr)
        assume "T \<inter> {?x..<?x + (64 - pos)} \<noteq> {}"
        then obtain q where q: "q \<in> T" "?x \<le> q" "q < 64 * w + 64" using pos by auto
        then have "bit ?rem (q - ?x)" using bits [of "q - 64 * w"] by (simp add: bit_drop_bit_eq)
        then show False using True by simp
      qed
      then have "run_inv T n (64 * w + 64) 0 st"
        using run_inv_zeros [OF less.prems(2), of "64 - pos"] pos n by simp
      then show ?thesis using True pos by (simp add: run_word.simps [of word])
    next
      case rem: False
      have zb: "bit word ?p1" using TrailingZeros64_bit [OF rem] by (simp add: bit_drop_bit_eq add.commute)
      then have p1: "?p1 < 64" by (rule bit_word_less64)
      have zeros: "T \<inter> {?x..<?x + ?z} = {}"
      proof (rule ccontr)
        assume "T \<inter> {?x..<?x + ?z} \<noteq> {}"
        then obtain q where q: "q \<in> T" "?x \<le> q" "q < ?x + ?z" by auto
        then have "bit ?rem (q - ?x)" using bits [of "q - 64 * w"] p1 by (simp add: bit_drop_bit_eq)
        then have "?z \<le> q - ?x" by (rule TrailingZeros64_less)
        then show False using q by simp
      qed
      have inv1: "run_inv T n (64 * w + ?p1) ?L1 st"
        using run_inv_zeros [OF less.prems(2) _ zeros n, of st] less.prems(2)
        by (cases "0 < ?z") (simp_all add: add.assoc)
      have ones: "{64 * w + ?p1..<64 * w + ?p1 + ?o} \<subseteq> T"
      proof
        fix q assume "q \<in> {64 * w + ?p1..<64 * w + ?p1 + ?o}"
        then have k: "q = 64 * w + (?p1 + k)" "k < ?o" if "k = q - (64 * w + ?p1)" for k
          using that by auto
        define k where "k = q - (64 * w + ?p1)"
        note k = k [OF k_def]
        then have k64: "?p1 + k < 64" by linarith
        have "\<not> bit (NOT (drop_bit ?p1 word)) k"
          using k(2) TrailingZeros64_least by simp
        then have "bit word (?p1 + k)" using k64 by (simp add: bit_not_iff bit_drop_bit_eq)
        then show "q \<in> T" using bits [OF k64] k(1) by simp
      qed
      have opos: "0 < ?o" using ones_positive [OF rem] p1 by simp
      have unf: "run_word word w n pos L st =
          (if ?L1 + ?o \<ge> n then Inl ?st1 else run_word word w n (?p1 + ?o) (?L1 + ?o) ?st1)"
        using pos rem p1 by (simp add: run_word.simps [of word w n pos] Let_def)
      show ?thesis
      proof (cases "n \<le> ?L1 + ?o")
        case True
        then show ?thesis
          using run_inv_found [OF inv1 ones True] unf by (simp add: mult.commute)
      next
        case False
        have "run_inv T n (64 * w + ?p1 + ?o) (?L1 + ?o) ?st1"
          using run_inv_ones [OF inv1 ones] False by (simp only: not_le mult.commute [of w 64])
        then have "run_inv T n (64 * w + (?p1 + ?o)) (?L1 + ?o) ?st1" by (simp only: add.assoc)
        from less.hyps [OF _ _ this] show ?thesis
          using unf False opos p1 by simp
      qed
    qed
  qed
qed

lemma run_words_ok:
  assumes wf: "bm_wf b" and ft: "from < to" "to \<le> totalPages b" and n: "0 < n"
    and T: "T = free_pages b \<inter> {from..<to}"
    and "from div 64 \<le> w" "w \<le> (to + 63) div 64" "run_inv T n (64 * w) L st"
  shows "run_words b from to (from div 64) ((to + 63) div 64) n [w..<(to + 63) div 64] L st =
    first_in (runs T n)"
  using assms(6-8)
proof (induction "(to + 63) div 64 - w" arbitrary: w L st)
  case 0
  have "s \<notin> runs T n" for s
  proof
    assume s: "s \<in> runs T n"
    then have "s + n - 1 \<in> T" using runs_mem [OF s, of "s + n - 1"] n by simp
    moreover have "to \<le> 64 * w" using word_cover [of to] 0 by simp
    moreover have "64 * w < s + n" using 0(4) s by (simp add: run_inv_def)
    ultimately show False using n by (auto simp: T)
  qed
  then have "runs T n = {}" by blast
  moreover have "[w..<(to + 63) div 64] = []" using 0 by simp
  ultimately show ?case by (simp only: run_words.simps first_in_empty)
next
  case (Suc m)
  let ?wT = "(to + 63) div 64"
  have w: "w < ?wT" using Suc.hyps(2) by simp
  let ?word = "maskEdges from to (from div 64) ?wT w (readDetailWord (detail b) w)"
  have bits: "bit ?word k \<longleftrightarrow> 64 * w + k \<in> T" if "k < 64" for k
    using masked_word_bit [OF wf ft Suc.prems(1) w, of k] that by (simp add: T)
  have IH: "run_words b from to (from div 64) ?wT n [Suc w..<?wT] L' st' = first_in (runs T n)"
    if "run_inv T n (64 * w + 64) L' st'" for L' st'
    using Suc.hyps(1) [of "Suc w" L' st'] Suc.hyps(2) Suc.prems w that by (simp add: add.commute)
  have upt: "[w..<?wT] = w # [Suc w..<?wT]" using w by (simp add: upt_conv_Cons)
  consider "?word = 0" | "?word = NOT 0" "?word \<noteq> 0" | "?word \<noteq> 0" "?word \<noteq> NOT 0" by blast
  then show ?case
  proof cases
    case 1
    have "T \<inter> {64 * w..<64 * w + 64} = {}"
      using bits 1 by (auto simp: le_iff_add)
    then show ?thesis
      using IH [OF run_inv_zeros [OF Suc.prems(3)], of st] 1 n upt by simp
  next
    case 2
    have "{64 * w..<64 * w + 64} \<subseteq> T"
      using bits 2(1) by (auto simp: le_iff_add bit_not_iff)
    note found = run_inv_found [OF Suc.prems(3) this] and ones = run_inv_ones [OF Suc.prems(3) this]
    show ?thesis
      using found IH [OF ones] 2 upt by (auto simp: Let_def mult.commute)
  next
    case 3
    note ok = run_word_ok [OF bits n, of 0 L st]
    show ?thesis
      using ok IH Suc.prems(3) 3 upt
      by (auto simp: Let_def split: sum.splits prod.splits)
  qed
qed

lemma runForward_first:
  assumes "bm_wf b" "0 < n"
  shows "runForward b from to n = first_in (runs (free_pages b \<inter> {from..<to}) n)"
proof -
  define f t where ft: "f = max from (firstDataPage b)" "t = min to (totalPages b)"
  let ?T = "free_pages b \<inter> {f..<t}"
  have empty: "runs ?T n = {}" if "\<not> f < t \<or> t - f < n"
  proof (rule ccontr)
    assume "runs ?T n \<noteq> {}"
    then obtain s where s: "{s..<s + n} \<subseteq> ?T" by (auto simp: runs_def)
    then have "s \<in> ?T" "s + n - 1 \<in> ?T" using assms(2) by auto
    then have "f \<le> s" "s + n - 1 < t" by auto
    then show False using that assms(2) by linarith
  qed
  have f64: "64 * (f div 64) \<le> f" using mult_div_mod_eq [of 64 f] by linarith
  have inv: "run_inv ?T n (64 * (f div 64)) 0 0"
  proof -
    have "64 * (f div 64) < s + n" if "s \<in> runs ?T n" for s
      using runs_mem [OF that, of s] assms(2) f64 by auto
    then show ?thesis using f64 by (auto simp: run_inv_def)
  qed
  have "f div 64 \<le> (t + 63) div 64" if "f < t" using that by (intro div_le_mono) simp
  then have "run_words b f t (f div 64) ((t + 63) div 64) n [f div 64..<(t + 63) div 64] 0 0 =
      first_in (runs ?T n)" if "f < t"
    using that run_words_ok [OF assms(1) that _ assms(2) refl _ _ inv] by (simp add: ft)
  then have "runForward b from to n = first_in (runs ?T n)"
    using empty unfolding runForward_def Let_def ft [symmetric]
    by (cases "f < t"; cases "t - f < n") (simp_all add: first_in_def)
  then show ?thesis by (simp only: free_clamp [OF assms(1)] ft)
qed

section \<open>The search operations\<close>

text \<open>The next element at or after \<open>h\<close>, wrapping around once.\<close>

definition next_from :: "nat \<Rightarrow> nat set \<Rightarrow> nat option" where
  "next_from h S = (case first_in (S \<inter> {h..}) of Some p \<Rightarrow> Some p | None \<Rightarrow> first_in S)"

lemma next_from_None [simp]: "next_from h S = None \<longleftrightarrow> S = {}"
  by (auto simp: next_from_def split: option.splits)

lemma next_from_SomeD: "next_from h S = Some p \<Longrightarrow> p \<in> S"
  by (auto simp: next_from_def split: option.splits dest: first_in_SomeD)

lemma next_from_empty_above: "S \<inter> {h..} = {} \<Longrightarrow> next_from h S = first_in S"
  by (simp add: next_from_def first_in_def)

lemma FindFirst_next:
  assumes "bm_wf b"
  shows "FindFirst b = next_from (hint b) (free_pages b)"
proof (cases "numFree b = 0")
  case True
  then have "free_pages b = {}" using assms by (simp add: bm_wf_def)
  then show ?thesis using True by (simp add: FindFirst_def next_from_def first_in_def)
next
  case False
  have up: "free_pages b \<inter> {hint b..<totalPages b} = free_pages b \<inter> {hint b..}"
    using free_pages_range [OF assms] by auto
  have "free_pages b \<inter> {firstDataPage b..<hint b} = free_pages b" if "free_pages b \<inter> {hint b..} = {}"
    using that free_pages_range [OF assms] by (auto simp: not_le)
  then show ?thesis
    using False by (auto simp: FindFirst_def next_from_def scanForward_first [OF assms] up
        split: option.splits)
qed

lemma FindContiguous_next:
  assumes "bm_wf b" "0 < n"
  shows "FindContiguous b (int n) = next_from (hint b) (runs (free_pages b) n)"
proof (cases "n = 1")
  case True
  then show ?thesis using assms by (simp add: FindContiguous_def FindFirst_next)
next
  case n1: False
  let ?F = "free_pages b"
  have bound: "firstDataPage b \<le> s \<and> s + n \<le> totalPages b" if "s \<in> runs ?F n" for s
    using runs_mem [OF that, of s] runs_mem [OF that, of "s + n - 1"] assms(2)
      free_pages_range [OF assms(1), of s] free_pages_range [OF assms(1), of "s + n - 1"] by simp
  then have above: "runs (?F \<inter> {hint b..<totalPages b}) n = runs ?F n \<inter> {hint b..}"
    by (auto simp: runs_Int runs_interval [OF assms(2)])
  have below: "runs (?F \<inter> {firstDataPage b..<min (hint b + n - 1) (totalPages b)}) n = runs ?F n"
    if "runs ?F n \<inter> {hint b..} = {}"
  proof -
    have "s < hint b" if "s \<in> runs ?F n" for s
      using that \<open>runs ?F n \<inter> {hint b..} = {}\<close> by (auto simp: not_le)
    then show ?thesis using bound assms(2) by (fastforce simp: runs_Int runs_interval)
  qed
  show ?thesis
  proof (cases "n \<le> numFree b")
    case True
    then show ?thesis
      using n1 assms(2) below
      by (auto simp: FindContiguous_def runForward_first [OF assms] above next_from_def
          split: option.splits)
  next
    case False
    then have "runs ?F n = {}" using runs_card [of ?F _ n] assms(1) by (auto simp: bm_wf_def)
    then show ?thesis using False n1 assms(2) by (auto simp: FindContiguous_def next_from_def first_in_def)
  qed
qed

end
