(* ===== verification/Bitmap_Count.thy ===== *)
theory Bitmap_Count
  imports Bitmap_Scan
begin

text \<open>
  The bounded searches and the counting operations of the bitmap: each computes the cardinality,
  or the first element, of a set of free pages.
\<close>

section \<open>Bounded searches\<close>

lemma FindFirstBelowFrom_first:
  assumes "bm_wf b"
  shows "FindFirstBelowFrom b from floor = first_in (free_pages b \<inter> {from..<floor})"
proof (cases "max from (firstDataPage b) < min floor (totalPages b)")
  case True
  then show ?thesis
    by (simp add: FindFirstBelowFrom_def Let_def scanForward_first [OF assms] free_clamp [OF assms]
        del: max_less_iff_conj min_less_iff_conj flip: not_less)
next
  case False
  then have "free_pages b \<inter> {from..<floor} = {}"
    using free_clamp [OF assms, of "from" floor] by (simp del: max_less_iff_conj min_less_iff_conj)
  then show ?thesis
    using False by (simp add: FindFirstBelowFrom_def Let_def del: max_less_iff_conj min_less_iff_conj flip: not_less)
qed

lemma FindContiguousBelow_first:
  assumes "bm_wf b" "0 < n"
  shows "FindContiguousBelow b (int n) floor = first_in (runs (free_pages b \<inter> {..<floor}) n)"
proof -
  let ?F = "free_pages b \<inter> {..<floor}"
  have F: "free_pages b \<inter> {firstDataPage b..<min floor (totalPages b)} = ?F"
    using free_pages_range [OF assms(1)] by auto
  have few: "runs ?F n = {}" if "numFree b < n"
  proof -
    have "card ?F \<le> numFree b" using assms(1) by (simp add: bm_wf_def card_mono)
    then show ?thesis using that runs_card [of ?F _ n] by force
  qed
  have none: "runs ?F n = {}" if "min floor (totalPages b) \<le> firstDataPage b"
    using that assms(2) F by (auto simp: runs_def)
  show ?thesis
    using few none assms(2)
    by (auto simp: FindContiguousBelow_def Let_def scanForward_first [OF assms(1)]
        runForward_first [OF assms] F simp del: min_less_iff_conj split: if_splits)
qed

section \<open>Counting below a floor\<close>

lemma add_within_byte:
  assumes "i mod 8 + k < (8 :: nat)"
  shows "(i + k) div 8 = i div 8" "(i + k) mod 8 = i mod 8 + k"
proof -
  define q r where qr: "q = i div 8" "r = i mod 8"
  have "i = 8 * q + r" by (simp add: qr)
  then have e: "i + k = (r + k) + 8 * q" by simp
  have "r + k < 8" using assms by (simp add: qr)
  then have "(i + k) div 8 = q" "(i + k) mod 8 = r + k"
    unfolding e by (simp_all only: div_mult_self2 mod_mult_self2 div_less mod_less)
  then show "(i + k) div 8 = i div 8" "(i + k) mod 8 = i mod 8 + k" by (simp_all add: qr)
qed

lemma count_span:
  assumes "i < hi" "span = min (8 - i mod 8) (hi - i)"
    "bv = drop_bit (i mod 8) (d ! (i div 8))" "bv' = (if span < 8 then bv AND low_mask span else bv)"
  shows "OnesCount8 bv' = card {p. i \<le> p \<and> p < i + span \<and> dbit d p}"
proof -
  have bit: "bit bv' k \<longleftrightarrow> k < span \<and> dbit d (i + k)" for k
  proof -
    have "bit bv' k \<longleftrightarrow> k < span \<and> bit bv k"
    proof (cases "k < 8")
      case True
      then show ?thesis by (auto simp: assms(4) bit_and_iff bit_low_mask)
    next
      case False
      then have "\<not> bit x k" for x :: byte using bit_byte_less8 by blast
      then show ?thesis by simp
    qed
    moreover have "bit bv k \<longleftrightarrow> dbit d (i + k)" if "k < span"
    proof -
      have "i mod 8 < 8" by simp
      then have "i mod 8 + k < 8" using that assms(2) by linarith
      then have "(i + k) div 8 = i div 8" "(i + k) mod 8 = i mod 8 + k"
        by (rule add_within_byte)+
      then show ?thesis by (simp add: assms(3) dbit_def bit_drop_bit_eq add.commute)
    qed
    ultimately show ?thesis by blast
  qed
  have "{p. i \<le> p \<and> p < i + span \<and> dbit d p} = (\<lambda>k. i + k) ` {k. k < 8 \<and> bit bv' k}"
  proof (intro set_eqI iffI)
    fix p assume "p \<in> {p. i \<le> p \<and> p < i + span \<and> dbit d p}"
    then obtain k where k: "p = i + k" "k < span" "dbit d (i + k)"
      by (auto simp: le_iff_add)
    moreover have "span \<le> 8" using assms(2) by simp
    ultimately show "p \<in> (\<lambda>k. i + k) ` {k. k < 8 \<and> bit bv' k}"
      using bit [of k] by simp
  qed (auto simp: bit)
  then show ?thesis by (simp add: OnesCount8_card card_image)
qed

declare count_loop.simps [simp del]

lemma count_loop_card: "count_loop d hi i n = n + card {p. i \<le> p \<and> p < hi \<and> dbit d p}"
proof (induction "hi - i" arbitrary: i n rule: less_induct)
  case less
  show ?case
  proof (cases "i < hi")
    case False
    then show ?thesis by (simp add: count_loop.simps [of d])
  next
    case True
    define span where "span = min (8 - i mod 8) (hi - i)"
    define bv where "bv = drop_bit (i mod 8) (d ! (i div 8))"
    define bv' where "bv' = (if span < 8 then bv AND low_mask span else bv)"
    have span: "0 < span" "i + span \<le> hi" using True by (simp_all add: span_def)
    have "{p. i \<le> p \<and> p < hi \<and> dbit d p} =
        {p. i \<le> p \<and> p < i + span \<and> dbit d p} \<union> {p. i + span \<le> p \<and> p < hi \<and> dbit d p}"
      using span by auto
    moreover have "{p. i \<le> p \<and> p < i + span \<and> dbit d p} \<inter> {p. i + span \<le> p \<and> p < hi \<and> dbit d p} = {}"
      by auto
    ultimately have "card {p. i \<le> p \<and> p < hi \<and> dbit d p} =
        OnesCount8 bv' + card {p. i + span \<le> p \<and> p < hi \<and> dbit d p}"
      using count_span [OF True span_def bv_def bv'_def] by (simp add: card_Un_disjoint)
    moreover have "count_loop d hi i n = count_loop d hi (i + span) (n + OnesCount8 bv')"
      unfolding span_def bv_def bv'_def
      by (subst count_loop.simps) (simp only: Let_def True if_True)
    ultimately show ?thesis
      using less.hyps [of "i + span" "n + OnesCount8 bv'"] span True by simp
  qed
qed

lemma CountFreeBelow_card:
  assumes "bm_wf b"
  shows "CountFreeBelow b floor = card (free_pages b \<inter> {..<floor})"
proof -
  define hi where "hi = min floor (totalPages b)"
  have e: "free_pages b \<inter> {..<floor} = {p. firstDataPage b \<le> p \<and> p < hi \<and> dbit (detail b) p}"
    using free_pages_range [OF assms] by (auto simp: free_pages_iff hi_def)
  show ?thesis
  proof (cases "hi \<le> firstDataPage b")
    case True
    then have "free_pages b \<inter> {..<floor} = {}" by (auto simp: e)
    then show ?thesis using True by (simp add: CountFreeBelow_def Let_def flip: hi_def)
  next
    case False
    then show ?thesis
      unfolding e by (simp add: CountFreeBelow_def Let_def count_loop_card flip: hi_def)
  qed
qed

section \<open>The full recount\<close>

lemma u64_sub_ge: "y \<le> x \<Longrightarrow> x < 2 ^ 64 \<Longrightarrow> u64_sub x y = x - y"
proof -
  assume a: "y \<le> x" "x < 2 ^ 64"
  then have "(int x - int y) mod 2 ^ 64 = int x - int y" by (intro mod_pos_pos_trivial) auto
  then show ?thesis using a by (simp add: u64_sub_def)
qed

lemma u64_sub_wrap: "x < y \<Longrightarrow> y \<le> 2 ^ 63 \<Longrightarrow> 64 \<le> u64_sub x y"
proof -
  assume a: "x < y" "y \<le> 2 ^ 63"
  have "(int x - int y) mod 2 ^ 64 = (int x - int y + 2 ^ 64) mod 2 ^ 64" by simp
  also have "\<dots> = int x - int y + 2 ^ 64" using a by (intro mod_pos_pos_trivial) auto
  finally show ?thesis using a by (simp add: u64_sub_def)
qed

text \<open>
  On a well-formed bitmap no bit is set outside the allocatable range, so each word contributes
  all its set bits, whichever mask the loop applies.
\<close>

lemma free_bit:
  assumes "bm_wf b" "8 * i + 8 \<le> length (detail b)" "bit (readDetailWord (detail b) i) k"
  shows "k < 64" "firstDataPage b \<le> i * 64 + k" "i * 64 + k < totalPages b"
proof -
  show k: "k < 64" using assms(2,3) by (simp add: bit_readDetailWord)
  have "dbit (detail b) (i * 64 + k)" "i * 64 + k < 8 * length (detail b)"
    using assms(2,3) k by (simp_all add: bit_readDetailWord mult.commute)
  then show "firstDataPage b \<le> i * 64 + k" "i * 64 + k < totalPages b"
    using assms(1) by (simp_all add: bm_wf_def content_ok_def)
qed

lemma and_absorb_bits: "(\<And>k. bit w k \<Longrightarrow> bit m k) \<Longrightarrow> w AND m = (w :: u64)"
  by (rule bit_eqI) (auto simp: bit_and_iff)

lemma no_bits_0: "(\<And>k. \<not> bit w k) \<Longrightarrow> w = (0 :: u64)"
  by (rule bit_eqI) simp

lemma recount_masks:
  assumes wf: "bm_wf b" and i: "8 * i + 8 \<le> length (detail b)"
  defines "w \<equiv> readDetailWord (detail b) i"
  shows "w AND NOT (low_mask (firstDataPage b - i * 64)) = w"
    and "w AND low_mask (totalPages b - i * 64) = w"
    and "i * 64 < firstDataPage b \<Longrightarrow> 64 \<le> firstDataPage b - i * 64 \<Longrightarrow> w = 0"
proof -
  note fb = free_bit [OF wf i, folded w_def]
  show "w AND NOT (low_mask (firstDataPage b - i * 64)) = w"
  proof (rule and_absorb_bits)
    fix k assume "bit w k"
    from fb [OF this] show "bit (NOT (low_mask (firstDataPage b - i * 64)) :: u64) k"
      by (simp add: bit_not_iff bit_low_mask)
  qed
  show "w AND low_mask (totalPages b - i * 64) = w"
  proof (rule and_absorb_bits)
    fix k assume "bit w k"
    from fb [OF this] show "bit (low_mask (totalPages b - i * 64) :: u64) k"
      by (simp add: bit_low_mask)
  qed
  assume g: "i * 64 < firstDataPage b" "64 \<le> firstDataPage b - i * 64"
  show "w = 0"
  proof (rule no_bits_0)
    fix k show "\<not> bit w k" using fb [of k] g by linarith
  qed
qed

definition word_ones :: "Bitmap \<Rightarrow> nat \<Rightarrow> nat" where
  "word_ones b i = OnesCount64 (readDetailWord (detail b) i)"

lemma recount_step:
  assumes wf: "bm_wf b" and i: "8 * i + 8 \<le> length (detail b)"
    and later: "\<And>j. j \<in> set js \<Longrightarrow> i < j \<and> 8 * j + 8 \<le> length (detail b)"
  shows "recount_loop b (i # js) n = recount_loop b js (n + word_ones b i) \<or>
    recount_loop b (i # js) n = n + word_ones b i \<and> (\<forall>j \<in> set js. word_ones b j = 0)"
proof -
  define w where "w = readDetailWord (detail b) i"
  have g: "geometry_ok b" using wf by (simp add: bm_wf_def)
  have i64: "i * 64 < 2 ^ 63" "totalPages b < 2 ^ 63"
    using i geometry_bound [OF g] g by (auto simp: geometry_ok_def)
  note m = recount_masks [OF wf i, folded w_def]
  have ones: "word_ones b i = OnesCount64 w" by (simp add: word_ones_def w_def)
  have zero: "OnesCount64 0 = 0" by (simp add: OnesCount64_def)
  have hi: "64 \<le> u64_sub (totalPages b) (i * 64) \<or>
      i * 64 \<le> totalPages b \<and> u64_sub (totalPages b) (i * 64) = totalPages b - i * 64"
    using u64_sub_wrap [of "totalPages b" "i * 64"] u64_sub_ge [of "i * 64" "totalPages b"] i64
    by (cases "totalPages b < i * 64") auto
  have empty: "word_ones b j = 0" if "i * 64 = totalPages b" "j \<in> insert i (set js)" for j
  proof -
    have j: "i \<le> j" "8 * j + 8 \<le> length (detail b)" using that(2) i by (auto dest: later)
    have "readDetailWord (detail b) j = 0"
    proof (rule no_bits_0)
      fix k show "\<not> bit (readDetailWord (detail b) j) k"
        using free_bit [OF wf j(2), of k] j(1) that(1) by linarith
    qed
    then show ?thesis by (simp add: word_ones_def zero)
  qed
  show ?thesis
    using m hi empty empty [of i, unfolded ones] unfolding ones
    by (auto simp: Let_def zero simp flip: w_def)
qed

lemma recount_loop_sum:
  assumes "bm_wf b" "sorted_wrt (<) is" "\<And>i. i \<in> set is \<Longrightarrow> 8 * i + 8 \<le> length (detail b)"
  shows "recount_loop b is n = n + (\<Sum>i\<leftarrow>is. word_ones b i)"
  using assms(2,3)
proof (induction "is" arbitrary: n)
  case Nil
  then show ?case by simp
next
  case (Cons i js)
  have z: "(\<Sum>j\<leftarrow>js. word_ones b j) = 0" if "\<forall>j \<in> set js. word_ones b j = 0"
    using that by (simp add: sum_list_eq_0_iff)
  show ?case
    using recount_step [OF assms(1), of i js n] Cons z by fastforce
qed

lemma word_ones_sum:
  "n \<le> length (detail b) div 8 \<Longrightarrow>
   (\<Sum>i\<leftarrow>[0..<n]. word_ones b i) = card {p. p < 64 * n \<and> dbit (detail b) p}"
proof (induction n)
  case 0
  then show ?case by simp
next
  case (Suc n)
  then have "8 * n + 8 \<le> length (detail b)"
    by (simp add: less_eq_div_iff_mult_less_eq)
  then show ?case
    using Suc card_word_bits [of n "detail b"] card_split_upto [of n "dbit (detail b)"]
    by (simp add: word_ones_def)
qed

lemma Recount_numFree:
  assumes wf: "bm_wf b"
  shows "Recount b = (numFree b, b)"
proof -
  have g: "geometry_ok b" using wf by (simp add: bm_wf_def)
  obtain k where k: "length (detail b) = 8 * k" using bm_wf_detail8 [OF g] by (elim dvdE)
  have "recount_loop b [0..<length (detail b) div 8] 0 = (\<Sum>i\<leftarrow>[0..<k]. word_ones b i)"
    using recount_loop_sum [OF wf, of "[0..<k]"] k by simp
  also have "\<dots> = card {p. p < 64 * k \<and> dbit (detail b) p}"
    using word_ones_sum [of k b] k by simp
  also have "{p. p < 64 * k \<and> dbit (detail b) p} = free_pages b"
    using wf k by (auto simp: bm_wf_def content_ok_def geometry_ok_def free_pages_iff)
  finally show ?thesis using wf by (simp add: Recount_def Let_def bm_wf_def)
qed

text \<open>
  The masking of the tail in \<^verbatim>\<open>Recount\<close> relies on the construction having cleared it: a word wholly
  past the end is counted in full, because the subtraction wraps around.
\<close>

lemma Recount_counts_past_end:
  assumes "totalPages b < i * 64" "i * 64 \<le> 2 ^ 63" "firstDataPage b \<le> i * 64"
  shows "recount_loop b (i # is) n = recount_loop b is (n + OnesCount64 (readDetailWord (detail b) i))"
  using u64_sub_wrap [OF assms(1,2)] assms by (simp add: Let_def)

end
