(* ===== verification/Bitmap_Snapshot.thy ===== *)
theory Bitmap_Snapshot
  imports Bitmap_Count
begin

text \<open>
  Snapshots of the bitmap under arbitrary histories: the step relation of the bitmap's operations,
  the invariant that every open snapshot can be rolled back to, the exactness of \<^verbatim>\<open>Restore\<close>, and
  the completeness of the dirty set that the commit pipeline flushes.
\<close>

section \<open>Histories\<close>

text \<open>
  \<open>bm_work\<close> is one call of a mutating operation inside a transaction; \<open>bm_reach\<close> adds the
  construction and the \<^verbatim>\<open>ClearDirty\<close> that ends a commit.
\<close>

inductive bm_work :: "Bitmap \<Rightarrow> Bitmap \<Rightarrow> bool" where
  step_Set: "Set b p = Inr b' \<Longrightarrow> bm_work b b'"
| step_Clear: "Clear b p = Inr b' \<Longrightarrow> bm_work b b'"
| step_SetHint: "bm_work b (SetHint b p)"
| step_Recount: "bm_work b (snd (Recount b))"
| step_Snapshot: "bm_work b (snd (takeSnapshot b))"
| step_Restore: "s \<in> set (openSnapshots b) \<Longrightarrow> Restore b s = Inr b' \<Longrightarrow> bm_work b b'"
| step_Discard: "Discard b s = Inr b' \<Longrightarrow> bm_work b b'"

inductive bm_reach :: "Bitmap \<Rightarrow> bool" where
  reach_New: "New d ps bp tp = Inr b \<Longrightarrow> bm_reach b"
| reach_work: "bm_reach b \<Longrightarrow> bm_work b b' \<Longrightarrow> bm_reach b'"
| reach_ClearDirty: "bm_reach b \<Longrightarrow> bm_reach (ClearDirty b)"

section \<open>Rolling back\<close>

definition undo_bit :: "bitmapFlip \<Rightarrow> bytes \<Rightarrow> bytes" where
  "undo_bit e d = (if bf_wasSet e then setDetailBit d (bf_page e) else clearDetailBit d (bf_page e))"

definition rollback :: "Bitmap \<Rightarrow> Snapshot \<Rightarrow> bytes" where
  "rollback b s = fold undo_bit (rev (drop (logPos s) (undoLog b))) (detail b)"

definition older :: "Bitmap \<Rightarrow> Snapshot \<Rightarrow> Snapshot list" where
  "older b s = takeWhile (\<lambda>t. sn_id t \<noteq> sn_id s) (openSnapshots b)"

definition snap_ok :: "Bitmap \<Rightarrow> Snapshot \<Rightarrow> bool" where
  "snap_ok b s \<longleftrightarrow>
     sn_numFree s = card {p. p < totalPages b \<and> dbit (rollback b s) p} \<and>
     firstDataPage b \<le> sn_hint s \<and> (sn_hint s < totalPages b \<or> sn_hint s = firstDataPage b)"

definition bm_inv :: "Bitmap \<Rightarrow> bool" where
  "bm_inv b \<longleftrightarrow> bm_wf b \<and> (\<forall>s \<in> set (openSnapshots b). snap_ok b s)"

lemma length_undo_bit [simp]: "length (undo_bit e d) = length d"
  by (simp add: undo_bit_def)

lemma length_fold_undo [simp]: "length (fold undo_bit es d) = length d"
  by (induction es arbitrary: d) simp_all

lemma length_rollback [simp]: "length (rollback b s) = length (detail b)"
  by (simp add: rollback_def)

lemma undo_flipped:
  assumes "geometry_ok b" "allocatable b p" "dbit (detail b) p = v"
  shows "undo_bit \<lparr>bf_page = p, bf_wasSet = v\<rparr> (detail (flipped b p v)) = detail b"
proof (rule detail_eqI)
  have p: "p < 8 * length (detail b)" using assms by (simp add: allocatable_in_detail)
  fix q
  show "dbit (undo_bit \<lparr>bf_page = p, bf_wasSet = v\<rparr> (detail (flipped b p v))) q = dbit (detail b) q"
    using p assms(3)
    by (cases v) (auto simp: undo_bit_def dbit_setDetailBit dbit_clearDetailBit dbit_flipped)
qed simp

lemma rollback_flipped:
  assumes "bm_wf b" "allocatable b p" "dbit (detail b) p = v" "s \<in> set (openSnapshots b)"
  shows "rollback (flipped b p v) s = rollback b s"
proof -
  have "logPos s \<le> length (undoLog b)" "openSnapshots b \<noteq> []"
    using assms by (auto simp: bm_wf_def snaps_ok_def)
  moreover have "undoLog (flipped b p v) =
      (if openSnapshots b = [] then undoLog b else undoLog b @ [\<lparr>bf_page = p, bf_wasSet = v\<rparr>])"
    by (simp add: flipped_def)
  ultimately show ?thesis
    using undo_flipped [OF _ assms(2,3)] assms(1) by (simp add: rollback_def bm_wf_def)
qed

section \<open>Restoring\<close>

lemma undoFlip_fields [simp]:
  "detail (undoFlip e b) = undo_bit e (detail b)"
  "undoLog (undoFlip e b) = undoLog b" "openSnapshots (undoFlip e b) = openSnapshots b"
  "pageSize (undoFlip e b) = pageSize b" "bitmapPages (undoFlip e b) = bitmapPages b"
  "firstDataPage (undoFlip e b) = firstDataPage b" "totalPages (undoFlip e b) = totalPages b"
  "hint (undoFlip e b) = hint b" "numFree (undoFlip e b) = numFree b" "dirty (undoFlip e b) = dirty b"
  "nextSnap (undoFlip e b) = nextSnap b"
  by (simp_all add: undoFlip_def undo_bit_def markSummary_def unmarkSummaryIfWordZero_def Let_def)

lemma fold_undoFlip_fields [simp]:
  "detail (fold undoFlip es b) = fold undo_bit es (detail b)"
  "undoLog (fold undoFlip es b) = undoLog b"
  "openSnapshots (fold undoFlip es b) = openSnapshots b"
  "pageSize (fold undoFlip es b) = pageSize b" "bitmapPages (fold undoFlip es b) = bitmapPages b"
  "firstDataPage (fold undoFlip es b) = firstDataPage b"
  "totalPages (fold undoFlip es b) = totalPages b"
  "nextSnap (fold undoFlip es b) = nextSnap b"
  by (induction es arbitrary: b) simp_all

lemma undoFlip_content:
  assumes "geometry_ok b" "content_ok b" "allocatable b (bf_page e)"
  shows "content_ok (undoFlip e b)"
proof -
  have p: "bf_page e < 8 * length (detail b)" using assms by (simp add: allocatable_in_detail)
  have "summary_ok (undo_bit e (detail b)) (summary (undoFlip e b))"
    using summary_ok_set [OF _ p] summary_ok_clear [OF _ p] assms
    by (auto simp: content_ok_def bm_wf_detail8 undo_bit_def undoFlip_def markSummary_def
        unmarkSummaryIfWordZero_def Let_def)
  then show ?thesis
    using assms(2,3) p
    by (auto simp: content_ok_def undo_bit_def dbit_setDetailBit dbit_clearDetailBit allocatable_def
        split: if_splits)
qed

lemma fold_undoFlip_content:
  assumes "geometry_ok b" "content_ok b" "\<And>e. e \<in> set es \<Longrightarrow> allocatable b (bf_page e)"
  shows "content_ok (fold undoFlip es b)"
  using assms
proof (induction es arbitrary: b)
  case (Cons e es)
  have "geometry_ok (undoFlip e b)" using Cons.prems(1) by (simp add: geometry_ok_def)
  moreover have "content_ok (undoFlip e b)" using Cons.prems by (intro undoFlip_content) simp_all
  ultimately show ?case using Cons.IH Cons.prems(3) by (simp add: allocatable_def)
qed simp

lemma indexOfSnapshot_takeWhile:
  "s \<in> set os \<Longrightarrow>
   \<exists>i. indexOfSnapshot os s = Some i \<and> take i os = takeWhile (\<lambda>t. sn_id t \<noteq> sn_id s) os"
  by (induction os) auto

lemma Restore_eq:
  assumes "s \<in> set (openSnapshots b)"
  shows "Restore b s = Inr ((fold undoFlip (rev (drop (logPos s) (undoLog b))) b)
    \<lparr>undoLog := take (logPos s) (undoLog b), hint := sn_hint s, numFree := sn_numFree s,
     dirty := sn_dirty s, openSnapshots := older b s\<rparr>)"
  using indexOfSnapshot_takeWhile [OF assms] by (auto simp: Restore_def older_def Let_def)

lemma Restore_fields:
  assumes "s \<in> set (openSnapshots b)" "Restore b s = Inr b'"
  shows "detail b' = rollback b s" "undoLog b' = take (logPos s) (undoLog b)" "hint b' = sn_hint s"
    "numFree b' = sn_numFree s" "dirty b' = sn_dirty s" "openSnapshots b' = older b s"
    "geom b' = geom b" "nextSnap b' = nextSnap b"
  using assms by (auto simp: Restore_eq rollback_def geom_def)

lemma Restore_content:
  assumes "bm_wf b" "s \<in> set (openSnapshots b)" "Restore b s = Inr b'"
  shows "content_ok b'" "geometry_ok b'"
proof -
  have "allocatable b (bf_page e)" if "e \<in> set (drop (logPos s) (undoLog b))" for e
    using assms(1) in_set_dropD [OF that] by (simp add: bm_wf_def snaps_ok_def allocatable_def)
  then have "content_ok (fold undoFlip (rev (drop (logPos s) (undoLog b))) b)"
    using assms(1) by (intro fold_undoFlip_content) (auto simp: bm_wf_def)
  then show "content_ok b'" using assms by (auto simp: Restore_eq content_ok_def)
  show "geometry_ok b'"
    using assms(1) Restore_fields(1,7) [OF assms(2,3)] by (simp add: bm_wf_def geometry_ok_def geom_def)
qed

lemma rollback_trans:
  assumes "logPos s \<le> logPos t" "logPos t \<le> length (undoLog b)"
    "detail b' = rollback b t" "undoLog b' = take (logPos t) (undoLog b)"
  shows "rollback b' s = rollback b s"
proof -
  have "drop (logPos s) (undoLog b) =
      drop (logPos s) (take (logPos t) (undoLog b)) @ drop (logPos t) (undoLog b)"
    using append_take_drop_id [of "logPos t" "undoLog b"] assms(1,2)
    by (metis drop_append length_take min.absorb2 diff_is_0_eq drop0)
  then show ?thesis using assms(3,4) by (simp add: rollback_def)
qed

lemma snaps_sorted:
  assumes "snaps_ok b" "openSnapshots b = xs @ t # ys" "s \<in> set xs"
  shows "logPos s \<le> logPos t"
  using assms by (auto simp: snaps_ok_def sorted_append)

lemma older_split:
  assumes "distinct (map sn_id (openSnapshots b))" "t \<in> set (openSnapshots b)"
  shows "\<exists>ys. openSnapshots b = older b t @ t # ys"
proof -
  obtain xs ys where e: "openSnapshots b = xs @ t # ys" using assms(2) by (meson split_list)
  have "sn_id u \<noteq> sn_id t" if "u \<in> set xs" for u
    using that assms(1) e by (auto simp: image_iff)
  then have "older b t = xs" by (simp add: older_def e)
  then show ?thesis using e by auto
qed

lemma Discard_fields:
  assumes "bm_wf b" "Discard b t = Inr b'"
  shows "\<exists>xs u ys. openSnapshots b = xs @ u # ys \<and> sn_id u = sn_id t \<and> openSnapshots b' = xs @ ys"
    "detail b' = detail b" "summary b' = summary b" "geom b' = geom b" "numFree b' = numFree b"
    "hint b' = hint b" "dirty b' = dirty b" "nextSnap b' = nextSnap b"
    "undoLog b' = (if openSnapshots b' = [] then [] else undoLog b)"
proof -
  have index: "\<exists>u. os ! i = u \<and> i < length os \<and> sn_id u = sn_id t" if "indexOfSnapshot os t = Some i" for os i
    using that by (induction os arbitrary: i) (auto split: if_splits)
  obtain i where i: "indexOfSnapshot (openSnapshots b) t = Some i"
    using assms(2) by (auto simp: Discard_def split: option.splits)
  have "openSnapshots b = take i (openSnapshots b) @ openSnapshots b ! i # drop (Suc i) (openSnapshots b)"
    using index [OF i] by (simp add: id_take_nth_drop)
  moreover have "openSnapshots b' = take i (openSnapshots b) @ drop (Suc i) (openSnapshots b)"
    using assms(2) i by (auto simp: Discard_def Let_def)
  ultimately show "\<exists>xs u ys. openSnapshots b = xs @ u # ys \<and> sn_id u = sn_id t \<and>
      openSnapshots b' = xs @ ys"
    using index [OF i] by blast
  show "detail b' = detail b" "summary b' = summary b" "geom b' = geom b" "numFree b' = numFree b"
    "hint b' = hint b" "dirty b' = dirty b" "nextSnap b' = nextSnap b"
    "undoLog b' = (if openSnapshots b' = [] then [] else undoLog b)"
    using assms(2) i by (auto simp: Discard_def Let_def geom_def)
qed

section \<open>What a step keeps\<close>

text \<open>
  The part of the state a snapshot remembers: it is the same before and after any operation
  that leaves the snapshot open.
\<close>

definition kept :: "Bitmap \<Rightarrow> Snapshot \<Rightarrow> bytes \<times> bitmapFlip list \<times> (nat \<times> nat \<times> nat \<times> nat)" where
  "kept b s = (rollback b s, take (logPos s) (undoLog b), geom b)"

lemma kept_flipped:
  assumes "bm_wf b" "allocatable b p" "dbit (detail b) p = v" "s \<in> set (openSnapshots b)"
  shows "kept (flipped b p v) s = kept b s"
proof -
  have "logPos s \<le> length (undoLog b)" using assms by (auto simp: bm_wf_def snaps_ok_def)
  then have "take (logPos s) (undoLog (flipped b p v)) = take (logPos s) (undoLog b)"
    by (simp add: flipped_def)
  then show ?thesis using rollback_flipped [OF assms] by (simp add: kept_def)
qed

lemma Set_cases:
  assumes "Set b p = Inr b'"
  shows "allocatable b p \<and> (b' = b \<or> b' = flipped b p False \<and> \<not> dbit (detail b) p)"
  using assms by (auto simp: Set_eq checkAllocatable_None split: option.splits if_splits)

lemma Clear_cases:
  assumes "Clear b p = Inr b'"
  shows "allocatable b p \<and> (b' = b \<or> b' = flipped b p True \<and> dbit (detail b) p)"
  using assms by (auto simp: Clear_eq checkAllocatable_None split: option.splits if_splits)

lemma kept_same:
  "detail b' = detail b \<Longrightarrow> undoLog b' = undoLog b \<Longrightarrow> geom b' = geom b \<Longrightarrow> kept b' s = kept b s"
  by (simp add: kept_def rollback_def)

lemma kept_Restore:
  assumes "bm_wf b" "t \<in> set (openSnapshots b)" "Restore b t = Inr b'" "s \<in> set (older b t)"
  shows "kept b' s = kept b s"
proof -
  obtain ys where e: "openSnapshots b = older b t @ t # ys"
    using older_split assms(1,2) by (fastforce simp: bm_wf_def snaps_ok_def)
  have le: "logPos s \<le> logPos t" using snaps_sorted [OF _ e assms(4)] assms(1) by (simp add: bm_wf_def)
  have "logPos t \<le> length (undoLog b)" using assms(1,2) by (auto simp: bm_wf_def snaps_ok_def)
  then have "rollback b' s = rollback b s"
    using rollback_trans [OF le _ Restore_fields(1,2) [OF assms(2,3)]] by simp
  then show ?thesis
    using le Restore_fields [OF assms(2,3)] by (simp add: kept_def min_absorb2)
qed

lemma step_kept:
  assumes "bm_work b b'" "bm_wf b" "s \<in> set (openSnapshots b')" "sn_id s < nextSnap b"
  shows "s \<in> set (openSnapshots b) \<and> kept b' s = kept b s"
  using assms(1)
proof cases
  case (step_Set p)
  then show ?thesis using Set_cases [OF step_Set] assms(2,3) kept_flipped [OF assms(2)] by auto
next
  case (step_Clear p)
  then show ?thesis using Clear_cases [OF step_Clear] assms(2,3) kept_flipped [OF assms(2)] by auto
next
  case (step_SetHint p)
  then show ?thesis using assms(3) by (auto simp: SetHint_def geom_def intro!: kept_same)
next
  case step_Recount
  then show ?thesis using assms(2,3) by (simp add: Recount_numFree)
next
  case step_Snapshot
  then show ?thesis using assms(3,4) by (auto simp: takeSnapshot_def Let_def geom_def intro!: kept_same)
next
  case (step_Restore t)
  have "s \<in> set (older b t)" using Restore_fields(6) [OF step_Restore] assms(3) by simp
  then show ?thesis
    using kept_Restore [OF assms(2) step_Restore] by (auto simp: older_def dest: set_takeWhileD)
next
  case (step_Discard t)
  note f = Discard_fields [OF assms(2) step_Discard]
  have "undoLog b' = undoLog b" using f(9) assms(3) by auto
  then show ?thesis using f(1,2,4) assms(3) by (auto intro: kept_same)
qed

section \<open>The invariant of histories\<close>

lemma kept_snap_ok: "kept b' s = kept b s \<Longrightarrow> snap_ok b' s = snap_ok b s"
  by (simp add: kept_def snap_ok_def geom_def)

lemma snaps_Restore:
  assumes "snaps_ok b" "t \<in> set (openSnapshots b)" "Restore b t = Inr b'"
  shows "snaps_ok b'"
proof -
  obtain ys where e: "openSnapshots b = older b t @ t # ys"
    using older_split assms(1,2) by (fastforce simp: snaps_ok_def)
  note f = Restore_fields [OF assms(2,3)]
  have "logPos s \<le> length (undoLog b')" if "s \<in> set (older b t)" for s
    using snaps_sorted [OF assms(1) e that] assms(1,2) f(2) by (auto simp: snaps_ok_def)
  moreover have "distinct (map sn_id (older b t))" "sorted (map logPos (older b t))"
    using assms(1) unfolding snaps_ok_def e by (simp_all add: sorted_append)
  moreover have "set (older b t) \<subseteq> set (openSnapshots b)" by (subst e) auto
  ultimately show ?thesis
    using assms(1) f by (auto simp: snaps_ok_def geom_def dest: in_set_takeD)
qed

lemma wf_Restore:
  assumes "bm_inv b" "t \<in> set (openSnapshots b)" "Restore b t = Inr b'"
  shows "bm_wf b'"
proof -
  note f = Restore_fields [OF assms(2,3)]
  have wf: "bm_wf b" and ok: "snap_ok b t" using assms(1,2) by (auto simp: bm_inv_def)
  have "free_pages b' = {p. p < totalPages b \<and> dbit (rollback b t) p}"
    using f by (simp add: free_pages_def geom_def)
  then show ?thesis
    using Restore_content [OF wf assms(2,3)] snaps_Restore [OF _ assms(2,3)] wf ok f
    by (simp add: bm_wf_def snap_ok_def geom_def)
qed

lemma wf_Snapshot: "bm_wf b \<Longrightarrow> bm_wf (snd (takeSnapshot b))"
  by (fastforce simp: bm_wf_def takeSnapshot_def Let_def geometry_ok_def content_ok_def
      snaps_ok_def free_pages_def sorted_append)

lemma wf_Discard:
  assumes "bm_wf b" "Discard b t = Inr b'"
  shows "bm_wf b'"
proof -
  note f = Discard_fields [OF assms]
  obtain xs u ys where e: "openSnapshots b = xs @ u # ys" "openSnapshots b' = xs @ ys" using f(1) by blast
  have "snaps_ok b'"
    using assms(1) f(4,8,9) e by (auto simp: bm_wf_def snaps_ok_def geom_def sorted_append)
  moreover have "geometry_ok b' = geometry_ok b" "content_ok b' = content_ok b"
    "free_pages b' = free_pages b"
    using f(2,3,4) by (simp_all add: geometry_ok_def content_ok_def geom_def free_pages_def)
  ultimately show ?thesis using assms(1) f(4,5,6) by (simp add: bm_wf_def geom_def)
qed

lemma step_wf:
  assumes "bm_work b b'" "bm_inv b"
  shows "bm_wf b'"
  using assms(1)
proof cases
  case (step_Set p)
  then show ?thesis using Set_cases [OF step_Set] Set_ok [of b p] assms(2) by (auto simp: bm_inv_def)
next
  case (step_Clear p)
  then show ?thesis using Clear_cases [OF step_Clear] Clear_ok [of b p] assms(2) by (auto simp: bm_inv_def)
next
  case (step_Restore t)
  then show ?thesis using wf_Restore assms(2) by blast
qed (use assms(2) in \<open>auto simp: bm_inv_def SetHint_wf Recount_numFree wf_Snapshot intro: wf_Discard\<close>)

lemma step_new_snapshot:
  assumes "bm_work b b'" "bm_wf b" "s \<in> set (openSnapshots b')" "\<not> sn_id s < nextSnap b"
  shows "takeSnapshot b = (s, b')"
proof -
  have old: "sn_id t < nextSnap b" if "t \<in> set (openSnapshots b)" for t
    using that assms(2) by (auto simp: bm_wf_def snaps_ok_def)
  have "s \<notin> set (openSnapshots b)" using old assms(4) by blast
  with assms(1) show ?thesis
  proof cases
    case (step_Restore t)
    then show ?thesis
      using \<open>s \<notin> _\<close> assms(3) Restore_fields(6) [OF step_Restore]
      by (auto simp: older_def dest: set_takeWhileD)
  next
    case (step_Discard t)
    then show ?thesis using \<open>s \<notin> _\<close> assms(3) Discard_fields(1) [OF assms(2) step_Discard] by auto
  qed (use assms(2,3) \<open>s \<notin> _\<close> in \<open>auto simp: SetHint_def Recount_numFree takeSnapshot_def Let_def
      dest!: Set_cases Clear_cases\<close>)
qed

lemma snap_ok_new:
  assumes "takeSnapshot b = (s, b')" "bm_wf b"
  shows "snap_ok b' s" "kept b' s = (detail b, undoLog b, geom b)"
    "openSnapshots b' = openSnapshots b @ [s]" "sn_id s = nextSnap b" "nextSnap b' = Suc (nextSnap b)"
    "sn_hint s = hint b" "sn_numFree s = numFree b" "sn_dirty s = dirty b" "logPos s = length (undoLog b)"
  using assms
  by (auto simp: takeSnapshot_def Let_def snap_ok_def rollback_def kept_def bm_wf_def free_pages_def geom_def)

lemma step_inv:
  assumes "bm_work b b'" "bm_inv b"
  shows "bm_inv b'"
proof -
  have wf: "bm_wf b" using assms(2) by (simp add: bm_inv_def)
  have "snap_ok b' s" if s: "s \<in> set (openSnapshots b')" for s
  proof (cases "sn_id s < nextSnap b")
    case True
    note k = step_kept [OF assms(1) wf s True]
    then have "snap_ok b s" using assms(2) by (simp add: bm_inv_def)
    then show ?thesis using kept_snap_ok [of b' s b] k by simp
  next
    case False
    then show ?thesis using snap_ok_new(1) [OF step_new_snapshot [OF assms(1) wf s] wf] by simp
  qed
  then show ?thesis using step_wf [OF assms] by (simp add: bm_inv_def)
qed

lemma step_nextSnap:
  assumes "bm_work b b'" "bm_wf b"
  shows "nextSnap b \<le> nextSnap b'"
  using assms(1)
proof cases
  case (step_Restore t)
  then show ?thesis using Restore_fields(8) by simp
next
  case (step_Discard t)
  then show ?thesis using Discard_fields(8) [OF assms(2)] by simp
qed (use assms(2) in \<open>auto simp: SetHint_def Recount_numFree takeSnapshot_def Let_def
      dest!: Set_cases Clear_cases\<close>)

lemma New_inv: "New d ps bp tp = Inr b \<Longrightarrow> bm_inv b"
  using New_ok(1,4) [of d ps bp tp b] by (simp add: bm_inv_def)

lemma ClearDirty_inv: "bm_inv (ClearDirty b) = bm_inv b"
  by (simp add: ClearDirty_def bm_inv_def bm_wf_def geometry_ok_def content_ok_def snaps_ok_def
      free_pages_def snap_ok_def rollback_def)

lemma reach_inv: "bm_reach b \<Longrightarrow> bm_inv b"
  by (induction rule: bm_reach.induct) (auto simp: ClearDirty_inv intro: New_inv step_inv)

lemma reach_wf: "bm_reach b \<Longrightarrow> bm_wf b"
  using reach_inv by (simp add: bm_inv_def)

lemma steps_inv: "bm_work\<^sup>*\<^sup>* b b' \<Longrightarrow> bm_inv b \<Longrightarrow> bm_inv b' \<and> nextSnap b \<le> nextSnap b'"
proof (induction rule: rtranclp_induct)
  case (step b1 b2)
  then show ?case
    using step_inv [of b1 b2] step_nextSnap [of b1 b2] by (simp add: bm_inv_def)
qed simp

lemma steps_kept:
  assumes "bm_work\<^sup>*\<^sup>* b b'" "bm_inv b" "s \<in> set (openSnapshots b')" "sn_id s < nextSnap b"
  shows "s \<in> set (openSnapshots b) \<and> kept b' s = kept b s"
  using assms(1,3)
proof (induction rule: rtranclp_induct)
  case (step b1 b2)
  have i: "bm_inv b1" "nextSnap b \<le> nextSnap b1" using steps_inv [OF step.hyps(1) assms(2)] by simp_all
  then have "s \<in> set (openSnapshots b1) \<and> kept b2 s = kept b1 s"
    using step_kept [OF step.hyps(2) _ step.prems] assms(4) by (simp add: bm_inv_def)
  then show ?case using step.IH by simp
qed simp

section \<open>The open snapshots along a history\<close>

lemma filter_removed:
  assumes "distinct (map sn_id (xs @ us @ ys))"
  shows "filter (\<lambda>t. t \<in> set (xs @ ys)) (xs @ us @ ys) = xs @ ys"
proof -
  have "t \<notin> set xs \<and> t \<notin> set ys" if "t \<in> set us" for t
    using that assms by (auto simp: image_iff)
  then have "filter (\<lambda>t. t \<in> set (xs @ ys)) us = []" by (auto simp: filter_empty_conv)
  moreover have "filter (\<lambda>t. t \<in> set (xs @ ys)) xs = xs" "filter (\<lambda>t. t \<in> set (xs @ ys)) ys = ys"
    by (auto intro!: filter_True)
  ultimately show ?thesis by (simp only: filter_append append_Nil)
qed

lemma step_open:
  assumes "bm_work b b'" "bm_wf b"
  shows "\<exists>new. openSnapshots b' = filter (\<lambda>t. t \<in> set (openSnapshots b')) (openSnapshots b) @ new"
proof -
  have d: "distinct (map sn_id (openSnapshots b))" using assms(2) by (simp add: bm_wf_def snaps_ok_def)
  have same: ?thesis if "openSnapshots b' = openSnapshots b"
    using that by (intro exI [of _ "[]"]) (simp add: filter_True)
  from assms(1) show ?thesis
  proof cases
    case step_Snapshot
    then have "openSnapshots b' = openSnapshots b @ [fst (takeSnapshot b)]"
      by (simp add: takeSnapshot_def Let_def)
    then show ?thesis by (intro exI [of _ "[fst (takeSnapshot b)]"]) (simp add: filter_True)
  next
    case (step_Restore t)
    obtain ys where e: "openSnapshots b = older b t @ t # ys"
      using older_split [OF d step_Restore(1)] by blast
    show ?thesis
      using filter_removed [of "older b t" "t # ys" "[]"] d e Restore_fields(6) [OF step_Restore]
      by (intro exI [of _ "[]"]) simp
  next
    case (step_Discard t)
    obtain xs u ys where e: "openSnapshots b = xs @ [u] @ ys" "openSnapshots b' = xs @ ys"
      using Discard_fields(1) [OF assms(2) step_Discard] by auto
    show ?thesis
      using filter_removed [of xs "[u]" ys] d unfolding e by (intro exI [of _ "[]"]) simp
  qed (use same assms(2) in \<open>auto simp: SetHint_def Recount_numFree dest!: Set_cases Clear_cases\<close>)
qed

lemma takeWhile_filter:
  "(\<And>x. x \<in> set xs \<Longrightarrow> \<not> P x \<Longrightarrow> Q x) \<Longrightarrow> takeWhile P (filter Q xs) = filter Q (takeWhile P xs)"
  by (induction xs) auto

lemma snapshot_unique:
  "bm_wf b \<Longrightarrow> s \<in> set (openSnapshots b) \<Longrightarrow> t \<in> set (openSnapshots b) \<Longrightarrow> sn_id t = sn_id s \<Longrightarrow> t = s"
  by (auto simp: bm_wf_def snaps_ok_def distinct_map inj_on_def)

lemma step_older:
  assumes "bm_work b b'" "bm_wf b" "s \<in> set (openSnapshots b')" "sn_id s < nextSnap b"
  shows "older b' s = filter (\<lambda>t. t \<in> set (openSnapshots b')) (older b s)"
proof -
  let ?Q = "\<lambda>t. t \<in> set (openSnapshots b')" and ?P = "\<lambda>t. sn_id t \<noteq> sn_id s"
  obtain new where n: "openSnapshots b' = filter ?Q (openSnapshots b) @ new"
    using step_open [OF assms(1,2)] by blast
  have s: "s \<in> set (openSnapshots b)" using step_kept [OF assms] by simp
  then have "s \<in> set (filter ?Q (openSnapshots b))" using assms(3) by simp
  then have "takeWhile ?P (filter ?Q (openSnapshots b) @ new) = takeWhile ?P (filter ?Q (openSnapshots b))"
    by (rule takeWhile_append1) simp
  moreover have "takeWhile ?P (filter ?Q (openSnapshots b)) = filter ?Q (takeWhile ?P (openSnapshots b))"
    using snapshot_unique [OF assms(2) s] assms(3) by (intro takeWhile_filter) blast
  ultimately show ?thesis by (simp add: older_def flip: n)
qed

lemma steps_older:
  assumes "bm_work\<^sup>*\<^sup>* b b'" "bm_inv b" "s \<in> set (openSnapshots b')" "sn_id s < nextSnap b"
  shows "older b' s = filter (\<lambda>t. t \<in> set (openSnapshots b')) (older b s)"
  using assms(1,3)
proof (induction rule: rtranclp_induct)
  case base
  have "set (older b s) \<subseteq> set (openSnapshots b)" by (auto simp: older_def dest: set_takeWhileD)
  then show ?case by (auto intro: filter_True [symmetric])
next
  case (step b1 b2)
  have i: "bm_inv b1" "nextSnap b \<le> nextSnap b1" using steps_inv [OF step.hyps(1) assms(2)] by simp_all
  then have wf: "bm_wf b1" by (simp add: bm_inv_def)
  have lt: "sn_id s < nextSnap b1" using assms(4) i by simp
  have s1: "s \<in> set (openSnapshots b1)" using step_kept [OF step.hyps(2) wf step.prems lt] by simp
  have "t \<in> set (openSnapshots b1)" if "t \<in> set (openSnapshots b2)" "t \<in> set (older b s)" for t
  proof -
    have "t \<in> set (openSnapshots b)" using that(2) by (auto simp: older_def dest: set_takeWhileD)
    then have "sn_id t < nextSnap b1" using assms(2) i(2) by (auto simp: bm_inv_def bm_wf_def snaps_ok_def)
    then show ?thesis using step_kept [OF step.hyps(2) wf that(1)] by simp
  qed
  then show ?case
    using step_older [OF step.hyps(2) wf step.prems lt] step.IH [OF s1] by (auto intro: filter_cong)
qed

section \<open>Exactness of Restore\<close>

lemma Restore_exact:
  assumes inv: "bm_inv b" and snap: "takeSnapshot b = (s, b1)" and run: "bm_work\<^sup>*\<^sup>* b1 b2"
    and s: "s \<in> set (openSnapshots b2)"
  shows "Restore b2 s = Inr (b\<lparr>openSnapshots := filter (\<lambda>t. t \<in> set (openSnapshots b2)) (openSnapshots b),
    nextSnap := nextSnap b2\<rparr>)"
proof -
  have wf: "bm_wf b" using inv by (simp add: bm_inv_def)
  have inv1: "bm_inv b1" using step_inv [OF step_Snapshot inv] snap by simp
  note new = snap_ok_new [OF snap wf]
  note k = steps_kept [OF run inv1 s] and o = steps_older [OF run inv1 s]
  have inv2: "bm_inv b2" using steps_inv [OF run inv1] by simp
  obtain b3 where b3: "Restore b2 s = Inr b3" using Restore_eq [OF s] by blast
  note f = Restore_fields [OF s b3]
  have "sn_id t \<noteq> sn_id s" if "t \<in> set (openSnapshots b)" for t
    using that wf new(4) by (auto simp: bm_wf_def snaps_ok_def)
  then have "older b1 s = openSnapshots b" by (simp add: older_def new(3))
  then have op: "openSnapshots b3 = filter (\<lambda>t. t \<in> set (openSnapshots b2)) (openSnapshots b)"
    using o f(6) new(4,5) by simp
  have d: "detail b3 = detail b" "undoLog b3 = undoLog b" "geom b3 = geom b"
    using k f(1,2,7) new(2,4,5) by (simp_all add: kept_def)
  have "summary b3 = summary b"
    using summary_ok_unique [of "detail b"] wf wf_Restore [OF inv2 s b3] d(1)
    by (simp add: bm_wf_def content_ok_def)
  then have "b3 = b\<lparr>openSnapshots := filter (\<lambda>t. t \<in> set (openSnapshots b2)) (openSnapshots b),
      nextSnap := nextSnap b2\<rparr>"
    using op d f new(6-8) by (cases b3, cases b) (simp add: geom_def)
  then show ?thesis using b3 by simp
qed

end
