(* ===== verification/Bitmap_Dirty.thy ===== *)
theory Bitmap_Dirty
  imports Bitmap_Snapshot
begin

text \<open>
  Completeness of the dirty set: in every state a history reaches, the bitmap pages outside the
  dirty set hold the bytes of the image the history started from, also after rolling back to a
  snapshot, so writing the dirty pages brings the image up to date.
\<close>

definition covers :: "Bitmap \<Rightarrow> bytes \<Rightarrow> nat set \<Rightarrow> bytes \<Rightarrow> bool" where
  "covers b img D d \<longleftrightarrow> length img = length d \<and> D \<subseteq> {..<bitmapPages b} \<and>
     (\<forall>i < bitmapPages b. i \<notin> D \<longrightarrow>
        field d (i * pageSize b) (pageSize b) = field img (i * pageSize b) (pageSize b))"

definition dirty_cover :: "bytes \<Rightarrow> Bitmap \<Rightarrow> bool" where
  "dirty_cover img b \<longleftrightarrow> covers b img (dirty b) (detail b) \<and>
     (\<forall>s \<in> set (openSnapshots b). covers b img (sn_dirty s) (rollback b s))"

text \<open>Writing the dirty pages, in the order \<^verbatim>\<open>DirtyPages\<close> returns them, over an image.\<close>

definition write_dirty :: "Bitmap \<Rightarrow> bytes \<Rightarrow> bytes" where
  "write_dirty b img = fold (\<lambda>i img. case PageBytes b i of
       Inl e \<Rightarrow> img | Inr bs \<Rightarrow> overwrite img (i * pageSize b) bs) (DirtyPages b) img"

lemma covers_geom: "geom b' = geom b \<Longrightarrow> covers b' img D d = covers b img D d"
  by (simp add: covers_def geom_def)

lemma flip_page:
  assumes "geometry_ok b" "p < 8 * length (detail b)"
  shows "p div (pageSize b * 8) mod 2 ^ 32 = p div 8 div pageSize b"
    "p div 8 div pageSize b < bitmapPages b"
proof -
  have e: "p div (pageSize b * 8) = p div 8 div pageSize b" by (simp only: mult.commute [of _ 8] div_mult2_eq)
  have "p div 8 < bitmapPages b * pageSize b"
    using assms by (simp add: geometry_ok_def less_mult_imp_div_less mult.commute)
  then show l: "p div 8 div pageSize b < bitmapPages b" by (rule less_mult_imp_div_less)
  moreover have "bitmapPages b < 2 ^ 32" using assms(1) by (simp add: geometry_ok_def)
  ultimately show "p div (pageSize b * 8) mod 2 ^ 32 = p div 8 div pageSize b"
    unfolding e by (intro mod_less) (rule order.strict_trans)
qed

lemma field_list_update_other:
  assumes "k < i * n \<or> i * n + n \<le> k"
  shows "field (d[k := v]) (i * n) n = field d (i * n) n"
  using assms by (intro nth_equalityI) (auto simp: field_def nth_list_update)

lemma covers_flipped:
  assumes "geometry_ok b" "allocatable b p" "covers b img (dirty b) (detail b)"
  shows "covers b img (dirty (flipped b p v)) (detail (flipped b p v))"
proof -
  define k where "k = p div 8"
  have p: "p < 8 * length (detail b)" using assms(1,2) by (simp add: allocatable_in_detail)
  note fp = flip_page [OF assms(1) p, folded k_def]
  have d: "dirty (flipped b p v) = insert (k div pageSize b) (dirty b)"
    unfolding flipped_def by (simp add: fp(1) [simplified])
  have "\<exists>x. detail (flipped b p v) = (detail b)[k := x]"
    by (auto simp: flipped_def setDetailBit_def clearDetailBit_def k_def)
  then obtain x where x: "detail (flipped b p v) = (detail b)[k := x]" by blast
  have "field ((detail b)[k := x]) (i * pageSize b) (pageSize b) =
      field (detail b) (i * pageSize b) (pageSize b)" if "i \<noteq> k div pageSize b" for i
  proof (rule field_list_update_other)
    have "0 < pageSize b" using assms(1) by (simp add: geometry_ok_def)
    with that show "k < i * pageSize b \<or> i * pageSize b + pageSize b \<le> k"
      by (metis div_nat_eqI mult.commute mult_Suc not_le add.commute)
  qed
  then show ?thesis using assms(3) fp(2) d x by (auto simp: covers_def)
qed

lemma rollback_covers:
  assumes "bm_wf b" "bm_work b b'" "s \<in> set (openSnapshots b')" "sn_id s < nextSnap b" "dirty_cover img b"
  shows "covers b' img (sn_dirty s) (rollback b' s)"
  using step_kept [OF assms(2,1,3,4)] assms(5) covers_geom [of b' b img]
  by (auto simp: dirty_cover_def kept_def)

lemma step_cover_now:
  assumes "bm_work b b'" "bm_wf b" "dirty_cover img b"
  shows "covers b' img (dirty b') (detail b')"
proof -
  have g: "geometry_ok b" using assms(2) by (simp add: bm_wf_def)
  have now: "covers b img (dirty b) (detail b)" using assms(3) by (simp add: dirty_cover_def)
  note fl = covers_flipped [OF g _ now] covers_geom [OF geom_flipped]
  from assms(1) show ?thesis
  proof cases
    case (step_Set p)
    then show ?thesis using Set_cases [OF step_Set] now fl by auto
  next
    case (step_Clear p)
    then show ?thesis using Clear_cases [OF step_Clear] now fl by auto
  next
    case (step_Restore t)
    then show ?thesis
      using Restore_fields [OF step_Restore] assms(3) covers_geom [of b' b]
      by (simp add: dirty_cover_def)
  next
    case (step_Discard t)
    then show ?thesis
      using Discard_fields [OF assms(2) step_Discard] now covers_geom [of b' b] by simp
  qed (use now assms(2) in \<open>auto simp: SetHint_def Recount_numFree takeSnapshot_def Let_def covers_def\<close>)
qed

lemma step_cover:
  assumes "bm_work b b'" "bm_wf b" "dirty_cover img b"
  shows "dirty_cover img b'"
proof -
  have "covers b' img (sn_dirty s) (rollback b' s)" if s: "s \<in> set (openSnapshots b')" for s
  proof (cases "sn_id s < nextSnap b")
    case True
    then show ?thesis using rollback_covers [OF assms(2,1) s True assms(3)] by simp
  next
    case False
    note n = snap_ok_new [OF step_new_snapshot [OF assms(1,2) s False] assms(2)]
    show ?thesis
      using n(2,8) assms(3) covers_geom [of b' b img] by (simp add: kept_def dirty_cover_def)
  qed
  then show ?thesis using step_cover_now [OF assms] by (simp add: dirty_cover_def)
qed

lemma steps_cover:
  assumes "bm_work\<^sup>*\<^sup>* b b'" "bm_inv b" "dirty_cover img b"
  shows "dirty_cover img b'"
  using assms(1)
proof (induction rule: rtranclp_induct)
  case (step b1 b2)
  then show ?case using step_cover [of b1 b2 img] steps_inv [of b b1] assms(2) by (simp add: bm_inv_def)
qed (rule assms(3))

section \<open>Writing the dirty pages\<close>

lemma length_write_pages:
  assumes "geometry_ok b" "length img = length (detail b)" "set is \<subseteq> {..<bitmapPages b}"
  defines "W \<equiv> \<lambda>i img. case PageBytes b i of Inl e \<Rightarrow> img | Inr bs \<Rightarrow> overwrite img (i * pageSize b) bs"
  shows "length (fold W is img) = length (detail b) \<and>
    (\<forall>j < bitmapPages b. field (fold W is img) (j * pageSize b) (pageSize b) =
       (if j \<in> set is then field (detail b) (j * pageSize b) (pageSize b)
        else field img (j * pageSize b) (pageSize b)))"
  using assms(2,3)
proof (induction "is" arbitrary: img)
  case (Cons i js)
  let ?n = "pageSize b"
  let ?img = "overwrite img (i * ?n) (field (detail b) (i * ?n) ?n)"
  have fits: "j * ?n + ?n \<le> length (detail b)" if "j < bitmapPages b" for j
  proof -
    have "Suc j * ?n \<le> bitmapPages b * ?n" using that by (intro mult_le_mono1) simp
    then show ?thesis using assms(1) by (simp add: geometry_ok_def)
  qed
  have i: "i < bitmapPages b" using Cons.prems by simp
  have W: "W i img = ?img" using i by (simp add: W_def PageBytes_def)
  have len: "length ?img = length (detail b)" using fits [OF i] Cons.prems(1) by simp
  have "field ?img (j * ?n) ?n =
      (if j = i then field (detail b) (i * ?n) ?n else field img (j * ?n) ?n)" if "j < bitmapPages b" for j
  proof -
    have "j * ?n + ?n \<le> i * ?n \<or> i * ?n + ?n \<le> j * ?n" if "j \<noteq> i"
    proof (cases "j < i")
      case True
      then have "Suc j * ?n \<le> i * ?n" by (intro mult_le_mono1) simp
      then show ?thesis by simp
    next
      case False
      then have "Suc i * ?n \<le> j * ?n" using that by (intro mult_le_mono1) simp
      then show ?thesis by simp
    qed
    then show ?thesis
      using fits [OF i] Cons.prems(1)
      by (auto simp: field_overwrite_same field_overwrite_before field_overwrite_after)
  qed
  then show ?case using Cons.IH [OF len] Cons.prems(2) W by auto
qed simp

lemma fields_determine:
  assumes "length d = m * n" "length d' = m * n" "0 < n"
    "\<And>j. j < m \<Longrightarrow> field d (j * n) n = field d' (j * n) n"
  shows "d = d'"
proof (rule nth_equalityI)
  fix k assume k: "k < length d"
  define j where "j = k div n"
  have j: "j < m" using k assms(1) by (simp add: j_def less_mult_imp_div_less)
  then have "Suc j * n \<le> m * n" by (intro mult_le_mono1) simp
  then have fits: "j * n + n \<le> m * n" by simp
  have k': "k = j * n + k mod n" "k mod n < n" using assms(3) by (simp_all add: j_def)
  have "d ! k = field d (j * n) n ! (k mod n)" "d' ! k = field d' (j * n) n ! (k mod n)"
    using k' fits assms(1,2) by (simp_all add: field_nth)
  then show "d ! k = d' ! k" using assms(4) [OF j] by simp
qed (use assms in simp)

lemma write_dirty_detail:
  assumes "bm_wf b" "dirty_cover img b"
  shows "write_dirty b img = detail b"
proof -
  have g: "geometry_ok b" using assms(1) by (simp add: bm_wf_def)
  have c: "covers b img (dirty b) (detail b)" using assms(2) by (simp add: dirty_cover_def)
  then have "finite (dirty b)" by (auto simp: covers_def intro: finite_subset)
  then have set: "set (DirtyPages b) = dirty b" by (simp add: DirtyPages_def)
  have img: "length img = length (detail b)" using c by (simp add: covers_def)
  note w = length_write_pages [OF g img, of "DirtyPages b", unfolded set]
  have len: "length (detail b) = bitmapPages b * pageSize b" "0 < pageSize b"
    using g by (simp_all add: geometry_ok_def)
  have sub: "dirty b \<subseteq> {..<bitmapPages b}" using c by (simp add: covers_def)
  note w = w [OF sub, folded write_dirty_def]
  show ?thesis
  proof (rule fields_determine)
    show "length (write_dirty b img) = bitmapPages b * pageSize b" using w len by simp
    fix j assume "j < bitmapPages b"
    then show "field (write_dirty b img) (j * pageSize b) (pageSize b) =
        field (detail b) (j * pageSize b) (pageSize b)"
      using w c by (simp add: covers_def)
  qed (rule len)+
qed

lemma New_cover: "New d ps bp tp = Inr b \<Longrightarrow> dirty_cover (detail b) b"
  using New_ok(4,5) [of d ps bp tp b] by (simp add: dirty_cover_def covers_def)

lemma ClearDirty_cover:
  "openSnapshots b = [] \<Longrightarrow> dirty_cover (detail b) (ClearDirty b)"
  by (simp add: dirty_cover_def covers_def ClearDirty_def)

end
