(* ===== verification/Free_Set.thy ===== *)
theory Free_Set
  imports Main
begin

text \<open>
  The contract between the page allocator and the structure that holds the free pages: a state
  with an invariant and a set of free pages, operations that free and claim a page, and searches
  that return a free page, or the start of a run of them, exactly when there is one. The lemmas
  proved here from the contract are what the allocator's sequences of claims and frees rest on.
\<close>

locale free_set =
  fixes inv :: "'s \<Rightarrow> bool"
    and free :: "'s \<Rightarrow> nat set"
    and valid :: "'s \<Rightarrow> nat set"
    and put :: "'s \<Rightarrow> nat \<Rightarrow> 'e + 's"
    and del :: "'s \<Rightarrow> nat \<Rightarrow> 'e + 's"
  assumes free_valid: "inv s \<Longrightarrow> free s \<subseteq> valid s"
    and put_ok: "inv s \<Longrightarrow> p \<in> valid s \<Longrightarrow>
      \<exists>s'. put s p = Inr s' \<and> inv s' \<and> free s' = insert p (free s) \<and> valid s' = valid s"
    and del_ok: "inv s \<Longrightarrow> p \<in> valid s \<Longrightarrow>
      \<exists>s'. del s p = Inr s' \<and> inv s' \<and> free s' = free s - {p} \<and> valid s' = valid s"
begin

primrec each :: "('s \<Rightarrow> nat \<Rightarrow> 'e + 's) \<Rightarrow> nat list \<Rightarrow> 's \<Rightarrow> 'e + 's" where
  "each f [] s = Inr s"
| "each f (p # ps) s = (case f s p of Inl e \<Rightarrow> Inl e | Inr s' \<Rightarrow> each f ps s')"

lemma put_each:
  "inv s \<Longrightarrow> set ps \<subseteq> valid s \<Longrightarrow>
   \<exists>s'. each put ps s = Inr s' \<and> inv s' \<and> free s' = free s \<union> set ps \<and> valid s' = valid s"
proof (induction ps arbitrary: s)
  case (Cons p ps)
  obtain s' where s': "put s p = Inr s'" "inv s'" "free s' = insert p (free s)" "valid s' = valid s"
    using put_ok Cons.prems by (metis insert_subset list.simps(15))
  then show ?case using Cons.IH [of s'] Cons.prems by auto
qed simp

lemma del_each:
  "inv s \<Longrightarrow> set ps \<subseteq> valid s \<Longrightarrow>
   \<exists>s'. each del ps s = Inr s' \<and> inv s' \<and> free s' = free s - set ps \<and> valid s' = valid s"
proof (induction ps arbitrary: s)
  case (Cons p ps)
  obtain s' where s': "del s p = Inr s'" "inv s'" "free s' = free s - {p}" "valid s' = valid s"
    using del_ok Cons.prems by (metis insert_subset list.simps(15))
  then show ?case using Cons.IH [of s'] Cons.prems by auto
qed simp

end

text \<open>A search is lawful when it finds a free page exactly when there is one.\<close>

locale free_search = free_set inv free valid put del
  for inv :: "'s \<Rightarrow> bool" and free :: "'s \<Rightarrow> nat set" and valid :: "'s \<Rightarrow> nat set"
    and put :: "'s \<Rightarrow> nat \<Rightarrow> 'e + 's" and del :: "'s \<Rightarrow> nat \<Rightarrow> 'e + 's" +
  fixes find :: "'s \<Rightarrow> nat option"
    and find_run :: "'s \<Rightarrow> nat \<Rightarrow> nat option"
  assumes find_Some: "inv s \<Longrightarrow> find s = Some p \<Longrightarrow> p \<in> free s"
    and find_None: "inv s \<Longrightarrow> find s = None \<Longrightarrow> free s = {}"
    and find_run_Some: "inv s \<Longrightarrow> 0 < n \<Longrightarrow> find_run s n = Some p \<Longrightarrow> {p..<p + n} \<subseteq> free s"
    and find_run_None: "inv s \<Longrightarrow> 0 < n \<Longrightarrow> find_run s n = None \<Longrightarrow> \<not> {p..<p + n} \<subseteq> free s"
begin

text \<open>Claiming a found page removes exactly that page; freeing it again restores the set.\<close>

lemma claim_found:
  assumes "inv s" "find s = Some p"
  shows "\<exists>s'. del s p = Inr s' \<and> inv s' \<and> p \<in> free s \<and> free s' = free s - {p} \<and> valid s' = valid s"
  using del_ok [of s p] find_Some [OF assms] free_valid assms by blast

lemma claim_then_free:
  assumes "inv s" "find s = Some p" "del s p = Inr s'"
  shows "\<exists>s''. put s' p = Inr s'' \<and> inv s'' \<and> free s'' = free s"
proof -
  have p: "p \<in> free s" using find_Some [OF assms(1,2)] .
  have v: "p \<in> valid s" using p free_valid [OF assms(1)] by blast
  have s': "inv s'" "free s' = free s - {p}" "valid s' = valid s"
    using del_ok [OF assms(1) v] assms(3) by auto
  then obtain s'' where "put s' p = Inr s''" "inv s''" "free s'' = insert p (free s')"
    using put_ok [of s' p] v by auto
  then show ?thesis using s'(2) p by (auto simp: insert_absorb)
qed

lemma claim_run_found:
  assumes "inv s" "0 < n" "find_run s n = Some p"
  shows "\<exists>s'. each del [p..<p + n] s = Inr s' \<and> inv s' \<and> free s' = free s - {p..<p + n} \<and>
    valid s' = valid s"
  using del_each [of s "[p..<p + n]"] find_run_Some [OF assms] free_valid [OF assms(1)] assms(1) by auto

text \<open>Repeated claims never hand out a page twice, and exhaust the free set.\<close>

primrec claims :: "nat \<Rightarrow> 's \<Rightarrow> nat list" where
  "claims 0 s = []"
| "claims (Suc n) s = (case find s of None \<Rightarrow> []
     | Some p \<Rightarrow> (case del s p of Inl e \<Rightarrow> [] | Inr s' \<Rightarrow> p # claims n s'))"

lemma claims_distinct:
  "inv s \<Longrightarrow> distinct (claims n s) \<and> set (claims n s) \<subseteq> free s"
proof (induction n arbitrary: s)
  case (Suc n)
  show ?case
  proof (cases "find s")
    case (Some p)
    then obtain s' where s': "del s p = Inr s'" "inv s'" "p \<in> free s" "free s' = free s - {p}"
      using claim_found [OF Suc.prems] by blast
    then show ?thesis using Suc.IH [OF s'(2)] Some by auto
  qed simp
qed simp

lemma claims_exhaust:
  "inv s \<Longrightarrow> finite (free s) \<Longrightarrow> card (free s) \<le> n \<Longrightarrow> set (claims n s) = free s"
proof (induction n arbitrary: s)
  case (Suc n)
  show ?case
  proof (cases "find s")
    case None
    then show ?thesis using find_None Suc.prems by simp
  next
    case (Some p)
    then obtain s' where s': "del s p = Inr s'" "inv s'" "p \<in> free s" "free s' = free s - {p}"
      using claim_found [OF Suc.prems(1)] by blast
    then have "set (claims n s') = free s - {p}"
      using Suc.IH [OF s'(2)] Suc.prems by simp
    then show ?thesis using Some s' by auto
  qed
qed simp

end

end
