(* ===== verification/Bitmap_Free.thy ===== *)
theory Bitmap_Free
  imports Bitmap_Dirty Free_Set
begin

text \<open>
  The bitmap provides the free-page contract of \<open>Free_Set\<close>, and the properties of the bitmap:
  they hold of every bitmap a history of calls reaches from \<^verbatim>\<open>New\<close>.
\<close>

definition valid_pages :: "Bitmap \<Rightarrow> nat set" where
  "valid_pages b = {firstDataPage b..<totalPages b}"

lemma valid_pages_iff: "p \<in> valid_pages b \<longleftrightarrow> allocatable b p"
  by (simp add: valid_pages_def allocatable_def)

lemma valid_pages_geom: "geom b' = geom b \<Longrightarrow> valid_pages b' = valid_pages b"
  by (simp add: geom_def valid_pages_def)

interpretation bm_set: free_set bm_wf free_pages valid_pages Set Clear
proof
  show "free_pages b \<subseteq> valid_pages b" if "bm_wf b" for b
    using free_pages_range [OF that] by (auto simp: valid_pages_def)
  show "\<exists>b'. Set b p = Inr b' \<and> bm_wf b' \<and> free_pages b' = insert p (free_pages b) \<and>
      valid_pages b' = valid_pages b" if "bm_wf b" "p \<in> valid_pages b" for b p
  proof -
    note w = that
    obtain b' where "Set b p = Inr b'" "bm_wf b'" "free_pages b' = insert p (free_pages b)" "geom b' = geom b"
      using Set_ok [of b p] w valid_pages_iff by blast
    then show ?thesis using valid_pages_geom [of b' b] by blast
  qed
  show "\<exists>b'. Clear b p = Inr b' \<and> bm_wf b' \<and> free_pages b' = free_pages b - {p} \<and>
      valid_pages b' = valid_pages b" if "bm_wf b" "p \<in> valid_pages b" for b p
  proof -
    note w = that
    obtain b' where "Clear b p = Inr b'" "bm_wf b'" "free_pages b' = free_pages b - {p}" "geom b' = geom b"
      using Clear_ok [of b p] w valid_pages_iff by blast
    then show ?thesis using valid_pages_geom [of b' b] by blast
  qed
qed

interpretation bm_search: free_search bm_wf free_pages valid_pages Set Clear
  FindFirst "\<lambda>b n. FindContiguous b (int n)"
proof
  show "p \<in> free_pages b" if "bm_wf b" "FindFirst b = Some p" for b p
    using that next_from_SomeD by (simp add: FindFirst_next)
  show "free_pages b = {}" if "bm_wf b" "FindFirst b = None" for b
    using that by (simp add: FindFirst_next)
  show "{p..<p + n} \<subseteq> free_pages b" if "bm_wf b" "0 < n" "FindContiguous b (int n) = Some p" for b n p
    using that next_from_SomeD [of "hint b" "runs (free_pages b) n" p]
    by (simp add: FindContiguous_next runs_def)
  show "\<not> {p..<p + n} \<subseteq> free_pages b" if "bm_wf b" "0 < n" "FindContiguous b (int n) = None" for b n p
    using that by (auto simp: FindContiguous_next runs_def)
qed

text \<open>The downward-consolidating searches satisfy the same contract below a floor.\<close>

interpretation bm_below: free_search bm_wf free_pages valid_pages Set Clear
  "\<lambda>b. FindFirstBelowFrom b 0 (totalPages b)" "\<lambda>b n. FindContiguousBelow b (int n) (totalPages b)"
proof
  have all: "free_pages b \<inter> {..<totalPages b} = free_pages b" for b by (auto simp: free_pages_iff)
  show "p \<in> free_pages b" if "bm_wf b" "FindFirstBelowFrom b 0 (totalPages b) = Some p" for b p
    using that first_in_SomeD by (simp add: FindFirstBelowFrom_first)  fastforce
  show "free_pages b = {}" if "bm_wf b" "FindFirstBelowFrom b 0 (totalPages b) = None" for b
    using that all [of b] by (simp add: FindFirstBelowFrom_first lessThan_atLeast0)
  show "{p..<p + n} \<subseteq> free_pages b"
    if "bm_wf b" "0 < n" "FindContiguousBelow b (int n) (totalPages b) = Some p" for b n p
    using that first_in_SomeD [of "runs (free_pages b) n" p]
    by (simp add: FindContiguousBelow_first all runs_def)
  show "\<not> {p..<p + n} \<subseteq> free_pages b"
    if "bm_wf b" "0 < n" "FindContiguousBelow b (int n) (totalPages b) = None" for b n p
    using that by (auto simp: FindContiguousBelow_first all runs_def)
qed

section \<open>A concrete bitmap\<close>

text \<open>The smallest geometry: one bitmap page of 4096 bytes, all pages from 3 up to 100 free.\<close>

definition demo_detail :: bytes where
  "demo_detail = replicate 4096 (-1)"

definition demo :: Bitmap where
  "demo = (case New demo_detail 4096 1 100 of Inr b \<Rightarrow> b | Inl e \<Rightarrow> undefined)"

lemma demo_New: "New demo_detail 4096 1 100 = Inr demo"
proof -
  have "\<exists>b. New demo_detail 4096 1 100 = Inr b"
    by (rule New_total) (simp_all add: demo_detail_def)
  then show ?thesis by (auto simp: demo_def)
qed

lemma demo_bits: "p < 100 \<Longrightarrow> dbit demo_detail p"
proof -
  assume "p < 100"
  then have "p div 8 < 4096" by (simp add: div_less_iff_less_mult)
  then show ?thesis by (simp add: dbit_def demo_detail_def bit_simps)
qed

lemma demo_facts:
  "bm_reach demo" "bm_wf demo" "bm_inv demo" "free_pages demo = {3..<100}" "firstDataPage demo = 3"
  "totalPages demo = 100" "openSnapshots demo = []" "hint demo = 3" "numFree demo = 97"
proof -
  show r: "bm_reach demo" using demo_New by (rule reach_New)
  show wf: "bm_wf demo" using r by (rule reach_wf)
  show "bm_inv demo" using r by (rule reach_inv)
  note n = New_ok [OF demo_New]
  show f: "free_pages demo = {3..<100}" using n(2) demo_bits by auto
  show g: "firstDataPage demo = 3" "totalPages demo = 100" using n(3) by (simp_all add: geom_def)
  show "openSnapshots demo = []" by (rule n(4))
  have "New demo_detail 4096 1 100 = Inr b \<Longrightarrow> hint b = firstDataPage b" for b
    by (auto simp: New_def Let_def split: if_splits sum.splits prod.splits)
  then show "hint demo = 3" using demo_New g(1) by metis
  show "numFree demo = 97" using wf f by (simp add: bm_wf_def)
qed

section \<open>Properties\<close>

text \<open>
  C27. In every state a history of calls reaches, the free counter is the number of free bits, no
  page outside the data region below the file's page count is free, a page tests as set exactly
  when it is free, and a full recount returns the counter and changes nothing.
\<close>

theorem bitmap_invariant:
  assumes "bm_reach b"
  shows "numFree b = card (free_pages b) \<and> free_pages b \<subseteq> {firstDataPage b..<totalPages b} \<and>
    (\<forall>p. IsSet b p = (p \<in> free_pages b)) \<and> Recount b = (numFree b, b)"
proof -
  have wf: "bm_wf b" using assms by (rule reach_wf)
  have "free_pages b \<subseteq> {firstDataPage b..<totalPages b}"
    using bm_set.free_valid [OF wf] by (simp add: valid_pages_def)
  then show ?thesis using wf Recount_numFree [OF wf] by (simp add: IsSet_iff bm_wf_def)
qed

theorem bitmap_invariant_witness: "bm_reach demo \<and> Recount demo = (97, demo)"
  using bitmap_invariant [OF demo_facts(1)] demo_facts(1,9) by simp

text \<open>
  On a reachable bitmap, Set and Clear panic exactly on a page past the end or in the header
  region; otherwise they add the page to, or remove it from, the free set, change no other page
  and leave the hint alone.
\<close>

theorem bitmap_point_operations:
  assumes "bm_reach b"
  shows "(case Set b p of
       Inl e \<Rightarrow> e = (if p \<ge> totalPages b then PanicOutOfRange p else PanicClearRegion p) \<and>
         (p \<ge> totalPages b \<or> p < firstDataPage b)
     | Inr b' \<Rightarrow> firstDataPage b \<le> p \<and> p < totalPages b \<and> bm_reach b' \<and>
         free_pages b' = insert p (free_pages b) \<and> hint b' = hint b) \<and>
    (case Clear b p of
       Inl e \<Rightarrow> e = (if p \<ge> totalPages b then PanicOutOfRange p else PanicClearRegion p) \<and>
         (p \<ge> totalPages b \<or> p < firstDataPage b)
     | Inr b' \<Rightarrow> firstDataPage b \<le> p \<and> p < totalPages b \<and> bm_reach b' \<and>
         free_pages b' = free_pages b - {p} \<and> hint b' = hint b)"
proof (cases "allocatable b p")
  case True
  have wf: "bm_wf b" using assms by (rule reach_wf)
  obtain b1 where b1: "Set b p = Inr b1" "free_pages b1 = insert p (free_pages b)" "hint b1 = hint b"
    using Set_ok [OF wf True] by blast
  obtain b2 where b2: "Clear b p = Inr b2" "free_pages b2 = free_pages b - {p}" "hint b2 = hint b"
    using Clear_ok [OF wf True] by blast
  have "bm_reach b1" "bm_reach b2"
    using assms b1(1) b2(1) by (blast intro: reach_work step_Set step_Clear)+
  then show ?thesis using b1 b2 True by (simp add: allocatable_def)
next
  case False
  then have "checkAllocatable b p =
      Some (if p \<ge> totalPages b then PanicOutOfRange p else PanicClearRegion p)"
    "p \<ge> totalPages b \<or> p < firstDataPage b"
    by (auto simp: checkAllocatable_def allocatable_def)
  then show ?thesis by (simp add: Set_eq Clear_eq)
qed

theorem bitmap_point_operations_witness: "\<exists>b'. Clear demo 7 = Inr b' \<and> free_pages b' = {3..<100} - {7}"
  using bitmap_point_operations [OF demo_facts(1), of 7] demo_facts(4,5,6) by (auto split: sum.splits)

text \<open>
  FindFirst returns the least free page at or after the hint, else the least free page of the
  bitmap, else nothing: the summary skipping, word masks and trailing-zero counts of the scan
  compute exactly this.
\<close>

theorem FindFirst_correct:
  assumes "bm_reach b"
  shows "FindFirst b = next_from (hint b) (free_pages b)"
  using assms by (simp add: FindFirst_next reach_wf)

theorem FindFirst_correct_witness: "FindFirst demo = Some 3"
proof -
  have "first_in ({3..<100} \<inter> {3..}) = Some 3" by (rule first_in_SomeI) auto
  then show ?thesis using FindFirst_correct [OF demo_facts(1)] demo_facts(4,8) by (simp add: next_from_def)
qed

text \<open>
  C26. FindContiguous returns the least start at or after the hint of a run of n consecutive free
  pages, else the least start of any such run, including one that straddles the hint, else
  nothing; runs are found across word boundaries. For a non-positive n it finds nothing.
\<close>

theorem FindContiguous_correct:
  assumes "bm_reach b"
  shows "FindContiguous b n =
    (if n \<le> 0 then None else next_from (hint b) {s. {s..<s + nat n} \<subseteq> free_pages b})"
proof (cases "n \<le> 0")
  case True
  then show ?thesis by (simp add: FindContiguous_def)
next
  case False
  then show ?thesis
    using FindContiguous_next [OF reach_wf [OF assms], of "nat n"] by (simp add: runs_def)
qed

theorem FindContiguous_correct_witness: "FindContiguous demo 90 = Some 3"
proof -
  have "first_in ({s. {s..<s + 90} \<subseteq> {3..<100}} \<inter> {3..}) = Some 3" by (rule first_in_SomeI) auto
  then show ?thesis
    using FindContiguous_correct [OF demo_facts(1), of 90] demo_facts(4,8) by (simp add: next_from_def)
qed

text \<open>
  The bounded operations: FindFirstBelowFrom returns the least free page of the window,
  FindContiguousBelow the least run that lies entirely below the floor, and CountFreeBelow the
  number of free pages below it.
\<close>

theorem bounded_searches_correct:
  assumes "bm_reach b"
  shows "FindFirstBelowFrom b from floor = first_in (free_pages b \<inter> {from..<floor}) \<and>
    FindContiguousBelow b n floor =
      (if n \<le> 0 then None else first_in {s. {s..<s + nat n} \<subseteq> free_pages b \<inter> {..<floor}}) \<and>
    CountFreeBelow b floor = card (free_pages b \<inter> {..<floor})"
proof -
  have wf: "bm_wf b" using assms by (rule reach_wf)
  have "FindContiguousBelow b n floor =
      (if n \<le> 0 then None else first_in {s. {s..<s + nat n} \<subseteq> free_pages b \<inter> {..<floor}})"
    using FindContiguousBelow_first [OF wf, of "nat n" floor]
    by (cases "n \<le> 0") (simp_all add: FindContiguousBelow_def runs_def)
  then show ?thesis by (simp add: FindFirstBelowFrom_first [OF wf] CountFreeBelow_card [OF wf])
qed

theorem bounded_searches_correct_witness: "CountFreeBelow demo 10 = 7 \<and> FindFirstBelowFrom demo 5 10 = Some 5"
proof -
  have "{3..<100} \<inter> {..<10} = {3..<10::nat}" by auto
  moreover have "first_in ({3..<100} \<inter> {5..<10}) = Some 5" by (rule first_in_SomeI) auto
  ultimately show ?thesis
    using bounded_searches_correct [OF demo_facts(1)] demo_facts(4) by simp
qed

text \<open>
  C24. Rolling back is exact: take a snapshot, run any sequence of calls (sets, clears, hints,
  recounts, nested snapshots, their restores and discards) after which the snapshot is still
  open; Restore then returns the bitmap as it was when the snapshot was taken, in every field:
  detail, summary, counters, hint, dirty set and undo log. Of the snapshots that were open then,
  those still open remain.
\<close>

theorem snapshot_restore_exact:
  assumes "bm_reach b" "takeSnapshot b = (s, b1)" "bm_work\<^sup>*\<^sup>* b1 b2" "s \<in> set (openSnapshots b2)"
  shows "Restore b2 s =
    Inr (b\<lparr>openSnapshots := filter (\<lambda>t. t \<in> set (openSnapshots b2)) (openSnapshots b),
           nextSnap := nextSnap b2\<rparr>)"
  using Restore_exact [OF reach_inv [OF assms(1)] assms(2-4)] .

theorem snapshot_restore_exact_witness:
  "\<exists>s b1 b2 b3. takeSnapshot demo = (s, b1) \<and> Clear b1 7 = Inr b2 \<and> free_pages b2 = {3..<100} - {7} \<and>
     Restore b2 s = Inr b3 \<and> free_pages b3 = {3..<100}"
proof -
  obtain s b1 where t: "takeSnapshot demo = (s, b1)" by fastforce
  note n = snap_ok_new [OF t demo_facts(2)]
  have b1: "bm_reach b1" using reach_work [OF demo_facts(1) step_Snapshot] t by simp
  have a: "allocatable b1 7" "free_pages b1 = {3..<100}"
    using demo_facts(4-6) unfolding arg_cong [OF t, of snd, simplified, symmetric]
    by (simp_all add: takeSnapshot_def Let_def allocatable_def free_pages_def)
  obtain b2 where b2: "Clear b1 7 = Inr b2" "free_pages b2 = {3..<100} - {7}"
    using Clear_ok [OF reach_wf [OF b1] a(1)] a(2) by auto
  have "s \<in> set (openSnapshots b2)" using Clear_cases [OF b2(1)] n(3) by auto
  then have "Restore b2 s = Inr (demo\<lparr>openSnapshots := filter (\<lambda>t. t \<in> set (openSnapshots b2)) (openSnapshots demo),
      nextSnap := nextSnap b2\<rparr>)"
    using snapshot_restore_exact [OF demo_facts(1) t, of b2] step_Clear [OF b2(1)] by blast
  then show ?thesis using t b2 demo_facts(4) by (fastforce simp: free_pages_def)
qed

text \<open>
  C25. The dirty set is complete: start from a bitmap that agrees with its on-disk image (as built
  by New, or after ClearDirty with no open snapshot), run any sequence of calls, and write the
  bytes of the pages DirtyPages lists over the image: the image then equals the detail level.
\<close>

theorem dirty_pages_complete:
  assumes "bm_reach b" "openSnapshots b = []" "dirty b = {}" "bm_work\<^sup>*\<^sup>* b b'"
  shows "write_dirty b' (detail b) = detail b'"
proof -
  have inv: "bm_inv b" using assms(1) by (rule reach_inv)
  have "dirty_cover (detail b) b" using assms(2,3) by (simp add: dirty_cover_def covers_def)
  then have "dirty_cover (detail b) b'" using steps_cover [OF assms(4) inv] by simp
  then show ?thesis using steps_inv [OF assms(4) inv] write_dirty_detail by (simp add: bm_inv_def)
qed

theorem dirty_pages_complete_witness:
  "\<exists>b'. Clear demo 7 = Inr b' \<and> write_dirty b' (detail demo) = detail b'"
proof -
  obtain b' where b': "Clear demo 7 = Inr b'"
    using Clear_ok [OF demo_facts(2), of 7] demo_facts(5,6) by (auto simp: allocatable_def)
  have "dirty demo = {}" using New_ok(5) [OF demo_New] .
  then show ?thesis
    using dirty_pages_complete [OF demo_facts(1,7), of b'] step_Clear [OF b'] b' by blast
qed

text \<open>
  Repeatedly finding and clearing a page hands out distinct free pages, and as many rounds as
  there are free pages hand out all of them.
\<close>

theorem bitmap_claims_exhaust:
  assumes "bm_reach b" "numFree b \<le> n"
  shows "distinct (bm_search.claims n b) \<and> set (bm_search.claims n b) = free_pages b"
proof -
  have wf: "bm_wf b" using assms(1) by (rule reach_wf)
  then have "card (free_pages b) \<le> n" using assms(2) by (simp add: bm_wf_def)
  then show ?thesis using bm_search.claims_exhaust [OF wf] bm_search.claims_distinct [OF wf] by simp
qed

theorem bitmap_claims_exhaust_witness: "set (bm_search.claims 97 demo) = {3..<100}"
  using bitmap_claims_exhaust [OF demo_facts(1), of 97] demo_facts(4,9) by simp

end
