(* ===== verification/Index_Key.thy ===== *)
theory Index_Key
  imports Gmdb_Prelude "HOL-Library.List_Lexorder" "HOL-Library.Sublist"
begin

text \<open>
  The NUL-escape codec of composite index keys, \<^verbatim>\<open>src/internal/indexing/key.go\<close>: a column's zero
  bytes become the pair 0x00 0xFF and the column ends with the pair 0x00 0x00. The decoder is the
  index-based loop of the source. Shown: decoding inverts encoding, the decoder accepts exactly
  the encodings, and encoding preserves the lexicographic order of column tuples and their
  prefixes, which is what the B+tree's byte order and its prefix scans rely on.
\<close>

section \<open>Definitions\<close>

datatype key_err =
    LoneZeroColumn                 \<comment> \<open>lone 0x00 at the end of an escaped column\<close>
  | BadEscape byte nat             \<comment> \<open>0x00 followed by another byte than 0xFF\<close>
  | LoneZeroKey                    \<comment> \<open>lone 0x00 at the end of the key\<close>
  | BadKeyByte byte nat            \<comment> \<open>0x00 followed by neither 0x00 nor 0xFF\<close>
  | TrailingBytes nat              \<comment> \<open>bytes past the last terminator\<close>

primrec escape_loop :: "bytes \<Rightarrow> bytes" where
  "escape_loop [] = []"
| "escape_loop (b # bs) = (if b = 0 then [0, 0xFF] else [b]) @ escape_loop bs"

definition EscapeColumn :: "bytes \<Rightarrow> bytes" where
  "EscapeColumn col =
     (let zeros = length (filter (\<lambda>b. b = 0) col) in
      if zeros = 0 then col else escape_loop col)"

fun unescape_loop :: "nat \<Rightarrow> bytes \<Rightarrow> bytes \<Rightarrow> key_err + bytes" where
  "unescape_loop i [] out = Inr out"
| "unescape_loop i (b # bs) out =
     (if b \<noteq> 0 then unescape_loop (i + 1) bs (out @ [b])
      else case bs of
          [] \<Rightarrow> Inl LoneZeroColumn
        | next # rest \<Rightarrow>
            if next \<noteq> 0xFF then Inl (BadEscape next i)
            else unescape_loop (i + 2) rest (out @ [0]))"

definition UnescapeColumn :: "bytes \<Rightarrow> key_err + bytes" where
  "UnescapeColumn escaped =
     (if 0 \<notin> set escaped then Inr escaped else unescape_loop 0 escaped [])"

primrec EncodeKey :: "bytes list \<Rightarrow> bytes" where
  "EncodeKey [] = []"
| "EncodeKey (c # cs) = escape_loop c @ [0, 0] @ EncodeKey cs"

function decode_loop :: "bytes \<Rightarrow> nat \<Rightarrow> nat \<Rightarrow> bytes list \<Rightarrow> key_err + bytes list" where
  "decode_loop key colStart i cols =
     (if i < length key then
        if key ! i \<noteq> 0 then decode_loop key colStart (i + 1) cols
        else if i + 1 \<ge> length key then Inl LoneZeroKey
        else let next = key ! (i + 1) in
          if next = 0xFF then decode_loop key colStart (i + 2) cols
          else if next = 0 then
            (case UnescapeColumn (field key colStart (i - colStart)) of
               Inl e \<Rightarrow> Inl e
             | Inr col \<Rightarrow> decode_loop key (i + 2) (i + 2) (cols @ [col]))
          else Inl (BadKeyByte next i)
      else if colStart \<noteq> length key then Inl (TrailingBytes (length key - colStart))
      else Inr cols)"
  by pat_completeness auto
termination
  by (relation "measure (\<lambda>(key, colStart, i, cols). length key - i)") auto

definition DecodeKey :: "bytes \<Rightarrow> key_err + bytes list" where
  "DecodeKey key = (if key = [] then Inr [] else decode_loop key 0 0 [])"

declare decode_loop.simps [simp del]

section \<open>Escaping\<close>

lemma escape_loop_append [simp]: "escape_loop (a @ b) = escape_loop a @ escape_loop b"
  by (induction a) auto

lemma escape_loop_id: "0 \<notin> set c \<Longrightarrow> escape_loop c = c"
  by (induction c) auto

lemma EscapeColumn_eq: "EscapeColumn c = escape_loop c"
  by (auto simp: EscapeColumn_def filter_empty_conv Let_def intro!: escape_loop_id [symmetric])

lemma unescape_escape: "unescape_loop i (escape_loop c) out = Inr (out @ c)"
  by (induction c arbitrary: i out) auto

lemma zero_escape: "0 \<in> set (escape_loop c) \<longleftrightarrow> 0 \<in> set c"
  by (induction c) auto

lemma UnescapeColumn_escape: "UnescapeColumn (escape_loop c) = Inr c"
  by (auto simp: UnescapeColumn_def unescape_escape zero_escape escape_loop_id)

lemma unescape_loop_inv:
  "unescape_loop i e out = Inr r \<Longrightarrow> \<exists>c. r = out @ c \<and> e = escape_loop c"
proof (induction i e out rule: unescape_loop.induct)
  case (2 i b bs out)
  show ?case
  proof (cases "b = 0")
    case False
    then obtain c where "r = (out @ [b]) @ c" "bs = escape_loop c" using 2 by auto
    then show ?thesis using False by (intro exI [of _ "b # c"]) simp
  next
    case True
    then obtain rest where bs: "bs = 0xFF # rest" "unescape_loop (i + 2) rest (out @ [0]) = Inr r"
      using 2(3) by (auto split: list.splits if_splits)
    then obtain c where "r = (out @ [0]) @ c" "rest = escape_loop c"
      using 2(2) [of "0xFF" rest] True by auto
    then show ?thesis using True bs by (intro exI [of _ "0 # c"]) simp
  qed
qed simp

lemma UnescapeColumn_iff: "UnescapeColumn e = Inr c \<longleftrightarrow> e = escape_loop c"
proof
  assume "UnescapeColumn e = Inr c"
  then show "e = escape_loop c"
    using unescape_loop_inv [of 0 e "[]" c] escape_loop_id [of c]
    by (auto simp: UnescapeColumn_def split: if_splits)
qed (simp add: UnescapeColumn_escape)

section \<open>Decoding inverts encoding\<close>

lemma drop_Cons_nth: "drop i xs = y # ys \<Longrightarrow> i < length xs \<and> xs ! i = y \<and> drop (Suc i) xs = ys"
proof -
  assume d: "drop i xs = y # ys"
  then have i: "i < length xs" by (metis drop_all list.distinct(1) not_less)
  then show ?thesis using d Cons_nth_drop_Suc [OF i] by simp
qed

lemma decode_loop_skip:
  "drop i key = escape_loop c @ rest \<Longrightarrow>
   decode_loop key cs i cols = decode_loop key cs (i + length (escape_loop c)) cols"
proof (induction c arbitrary: i)
  case (Cons b c)
  show ?case
  proof (cases "b = 0")
    case False
    note d = drop_Cons_nth [of i key b "escape_loop c @ rest"]
    have "decode_loop key cs i cols = decode_loop key cs (i + 1) cols"
      using d Cons.prems False by (subst decode_loop.simps) simp
    then show ?thesis using Cons.IH [of "i + 1"] d Cons.prems False by simp
  next
    case True
    note d = drop_Cons_nth [of i key 0 "0xFF # escape_loop c @ rest"]
      drop_Cons_nth [of "Suc i" key "0xFF" "escape_loop c @ rest"]
    have "decode_loop key cs i cols = decode_loop key cs (i + 2) cols"
      using d Cons.prems True by (subst decode_loop.simps) (simp add: Let_def)
    then show ?thesis using Cons.IH [of "i + 2"] d Cons.prems True by simp
  qed
qed simp

lemma decode_loop_terminator:
  assumes "drop i key = 0 # 0 # rest" "field key cs (i - cs) = escape_loop c"
  shows "decode_loop key cs i cols = decode_loop key (i + 2) (i + 2) (cols @ [c])"
  using drop_Cons_nth [OF assms(1)] drop_Cons_nth [of "Suc i" key 0 rest] assms(2)
  by (subst decode_loop.simps) (simp add: Let_def UnescapeColumn_escape)

lemma decode_loop_end: "decode_loop key (length key) (length key) cols = Inr cols"
  by (subst decode_loop.simps) simp

lemma decode_loop_encode:
  "drop i key = EncodeKey cs \<Longrightarrow> i \<le> length key \<Longrightarrow> decode_loop key i i cols = Inr (cols @ cs)"
proof (induction cs arbitrary: i cols)
  case Nil
  then have "i = length key" by simp
  then show ?case using decode_loop_end [of key cols] by simp
next
  case (Cons c cs)
  let ?j = "i + length (escape_loop c)"
  have d: "drop i key = escape_loop c @ 0 # 0 # EncodeKey cs" using Cons.prems by simp
  have dj: "drop ?j key = 0 # 0 # EncodeKey cs"
    by (metis d add.commute append_eq_conv_conj drop_drop)
  have "field key i (?j - i) = escape_loop c" by (simp add: field_def d)
  then have "decode_loop key i i cols = decode_loop key (?j + 2) (?j + 2) (cols @ [c])"
    using decode_loop_skip [OF d] decode_loop_terminator [OF dj] by simp
  moreover have "drop (?j + 2) key = EncodeKey cs" "?j + 2 \<le> length key"
    using drop_Cons_nth [OF dj] drop_Cons_nth [of "Suc ?j" key 0 "EncodeKey cs"] by simp_all
  ultimately show ?case using Cons.IH [of "?j + 2" "cols @ [c]"] by simp
qed

lemma DecodeKey_EncodeKey: "DecodeKey (EncodeKey cols) = Inr cols"
  using decode_loop_encode [of 0 "EncodeKey cols" cols "[]"]
  by (cases cols) (simp_all add: DecodeKey_def)

section \<open>The decoder accepts only encodings\<close>

lemma field_extend:
  assumes "cs \<le> i" "i + n \<le> length key"
  shows "field key cs (i + n - cs) = field key cs (i - cs) @ field key i n"
proof -
  have "take (i - cs + n) (drop cs key) = take (i - cs) (drop cs key) @ take n (drop (i - cs) (drop cs key))"
    by (rule take_add)
  then show ?thesis using assms by (simp add: field_def)
qed

lemma field_1: "i < length key \<Longrightarrow> field key i (Suc 0) = [key ! i]"
  by (simp add: field_def take_Suc_conv_app_nth flip: Cons_nth_drop_Suc)

lemma field_2: "Suc i < length key \<Longrightarrow> field key i 2 = [key ! i, key ! Suc i]"
  by (simp add: field_def take_Suc_conv_app_nth numeral_2_eq_2 flip: Cons_nth_drop_Suc)

lemma drop_split: "cs \<le> i \<Longrightarrow> drop cs key = field key cs (i - cs) @ drop i key"
  using append_take_drop_id [of "i - cs" "drop cs key"] by (simp add: field_def)

lemma decode_loop_inv:
  "decode_loop key cs i cols = Inr r \<Longrightarrow> cs \<le> i \<Longrightarrow> i \<le> length key \<Longrightarrow>
   field key cs (i - cs) = escape_loop c \<Longrightarrow>
   \<exists>more. r = cols @ more \<and> drop cs key = EncodeKey more"
proof (induction key cs i cols arbitrary: c rule: decode_loop.induct)
  case (1 key cs i cols)
  note IH = 1(1-3) and prems = 1(4-7)
  show ?case
  proof (cases "i < length key")
    case False
    then have "decode_loop key cs i cols =
        (if cs \<noteq> length key then Inl (TrailingBytes (length key - cs)) else Inr cols)"
      by (subst decode_loop.simps) simp
    then show ?thesis using prems(1) by (auto split: if_splits)
  next
    case i: True
    consider "key ! i \<noteq> 0" | "key ! i = 0" "i + 1 < length key" "key ! (i + 1) = 0xFF"
      | "key ! i = 0" "i + 1 < length key" "key ! (i + 1) = 0"
      using prems(1) i by (auto simp: decode_loop.simps [of key cs i] Let_def split: if_splits)
    then show ?thesis
    proof cases
      case b: 1
      have "decode_loop key cs (i + 1) cols = Inr r"
        using prems(1) i b by (simp add: decode_loop.simps [of key cs i])
      moreover have "field key cs (i + 1 - cs) = escape_loop (c @ [key ! i])"
        using field_extend [of cs i 1 key] prems i b by (simp add: field_1)
      ultimately show ?thesis using IH(1) [OF i b, of "c @ [key ! i]"] prems(2) i by simp
    next
      case b: 2
      have "decode_loop key cs (i + 2) cols = Inr r"
        using prems(1) i b by (simp add: decode_loop.simps [of key cs i] Let_def)
      moreover have "field key cs (i + 2 - cs) = escape_loop (c @ [0])"
        using field_extend [of cs i 2 key] prems i b by (simp add: field_2)
      ultimately show ?thesis
        using IH(2) [OF i _ _ refl b(3), of "c @ [0]"] prems(2) b by simp
    next
      case b: 3
      have u: "UnescapeColumn (field key cs (i - cs)) = Inr c"
        using prems(4) by (simp add: UnescapeColumn_escape)
      have "decode_loop key (i + 2) (i + 2) (cols @ [c]) = Inr r"
        using prems(1) i b u by (simp add: decode_loop.simps [of key cs i] Let_def)
      then obtain more where m: "r = (cols @ [c]) @ more" "drop (i + 2) key = EncodeKey more"
        using IH(3) [OF i _ _ refl _ _ u, of "[]"] b by (auto simp: field_def)
      have "drop i key = 0 # 0 # drop (i + 2) key"
        using i b Cons_nth_drop_Suc [of i key] Cons_nth_drop_Suc [of "Suc i" key] by simp
      then have "drop cs key = EncodeKey (c # more)"
        using drop_split [OF prems(2), of key] prems(4) m(2) by simp
      then show ?thesis using m(1) by auto
    qed
  qed
qed

lemma DecodeKey_inv:
  assumes "DecodeKey key = Inr cols"
  shows "key = EncodeKey cols"
proof (cases "key = []")
  case False
  then show ?thesis
    using assms decode_loop_inv [of key 0 0 "[]" cols "[]"] by (auto simp: DecodeKey_def field_def)
qed (use assms in \<open>simp add: DecodeKey_def\<close>)

section \<open>Order and prefixes\<close>

lemma byte_zero_least: "(b :: byte) \<noteq> 0 \<longleftrightarrow> 0 < b"
  by (simp add: word_gt_0)

lemma column_less:
  "escape_loop a @ [0, 0] @ x < escape_loop b @ [0, 0] @ y \<longleftrightarrow> a < b \<or> a = b \<and> x < y"
proof (induction a arbitrary: b)
  case Nil
  show ?case
  proof (cases b)
    case (Cons b0 b1)
    then show ?thesis by (cases "b0 = 0") (auto simp: byte_zero_least)
  qed auto
next
  case (Cons a0 a1)
  show ?case
  proof (cases b)
    case Nil
    then show ?thesis by (cases "a0 = 0") (auto simp: byte_zero_least)
  next
    case (Cons b0 b1)
    then show ?thesis
      using Cons.IH [of b1] by (cases "a0 = 0"; cases "b0 = 0") (auto simp: byte_zero_least)
  qed
qed

lemma EncodeKey_less: "EncodeKey cs < EncodeKey ds \<longleftrightarrow> cs < ds"
proof (induction cs arbitrary: ds)
  case Nil
  then show ?case by (cases ds; cases "hd ds") auto
next
  case (Cons c cs)
  then show ?case using column_less [of c "EncodeKey cs"] by (cases ds) auto
qed

lemma EncodeKey_inj: "EncodeKey cs = EncodeKey ds \<longleftrightarrow> cs = ds"
  using DecodeKey_EncodeKey by (metis sum.inject(2))

lemma EncodeKey_append [simp]: "EncodeKey (cs @ ds) = EncodeKey cs @ EncodeKey ds"
  by (induction cs) auto

lemma column_prefix:
  "prefix (escape_loop a @ [0, 0] @ x) (escape_loop b @ [0, 0] @ y) \<longleftrightarrow> a = b \<and> prefix x y"
proof (induction a arbitrary: b)
  case Nil
  show ?case by (cases b) auto
next
  case (Cons a0 a1)
  show ?case
  proof (cases b)
    case (Cons b0 b1)
    then show ?thesis using Cons.IH [of b1] by auto
  qed auto
qed

lemma EncodeKey_prefix: "prefix (EncodeKey cs) (EncodeKey ds) \<longleftrightarrow> prefix cs ds"
proof (induction cs arbitrary: ds)
  case (Cons c cs)
  then show ?case using column_prefix [of c "EncodeKey cs"] by (cases ds) auto
qed simp

end
