(* ===== verification/Uvarint.thy ===== *)
theory Uvarint
  imports Gmdb_Prelude "HOL-Library.Sublist"
begin

text \<open>
  The variable-length integers of \<^verbatim>\<open>encoding/binary\<close> as the index codecs use them: \<^verbatim>\<open>PutUvarint\<close> and
  the overflow-checking \<^verbatim>\<open>Uvarint\<close>, and length-prefixed strings built on them. Encodings of 64-bit
  values decode to themselves and are prefix-free.
\<close>

fun PutUvarint :: "nat \<Rightarrow> bytes" where
  "PutUvarint x =
     (if x \<ge> 0x80 then (word_of_nat x OR 0x80) # PutUvarint (x div 128) else [word_of_nat x])"

declare PutUvarint.simps [simp del]

text \<open>The result is the value and the number of bytes read: 0 for a truncated input, negative on overflow.\<close>

fun uvarint_loop :: "nat \<Rightarrow> u64 \<Rightarrow> nat \<Rightarrow> bytes \<Rightarrow> u64 \<times> int" where
  "uvarint_loop i x s [] = (0, 0)"
| "uvarint_loop i x s (b # bs) =
     (if i = 10 then (0, - (int i + 1))
      else if b < 0x80 then
        if i = 9 \<and> b > 1 then (0, - (int i + 1))
        else (x OR push_bit s (ucast b), int i + 1)
      else uvarint_loop (i + 1) (x OR push_bit s (ucast (b AND 0x7f))) (s + 7) bs)"

definition Uvarint :: "bytes \<Rightarrow> u64 \<times> int" where
  "Uvarint buf = uvarint_loop 0 0 0 buf"

section \<open>Round trip\<close>

lemma byte_cont: "(word_of_nat x OR 0x80 :: byte) \<ge> 0x80"
  "(word_of_nat x OR 0x80 :: byte) AND 0x7f = word_of_nat (x mod 128)"
proof -
  have b7: "bit (word_of_nat x OR 0x80 :: byte) 7"
    by (simp add: bit_simps)
  show "(word_of_nat x OR 0x80 :: byte) \<ge> 0x80"
  proof (rule ccontr)
    assume "\<not> (word_of_nat x OR 0x80 :: byte) \<ge> 0x80"
    then have "unat (word_of_nat x OR 0x80 :: byte) < 2 ^ 7"
      by (simp add: not_le word_less_nat_alt)
    then have "take_bit 7 (unat (word_of_nat x OR 0x80 :: byte)) = unat (word_of_nat x OR 0x80 :: byte)"
      by (simp add: take_bit_eq_mod)
    then have "\<not> bit (unat (word_of_nat x OR 0x80 :: byte)) 7"
      by (metis bit_take_bit_iff less_irrefl)
    then show False using b7 by (simp add: bit_unsigned_iff)
  qed
  show "(word_of_nat x OR 0x80 :: byte) AND 0x7f = word_of_nat (x mod 128)"
  proof (rule bit_word_eqI)
    fix n assume "n < LENGTH(8)"
    then have n: "n < 8" by simp
    have m7: "(0x7f :: byte) = mask 7" by (simp add: mask_eq_exp_minus_1)
    have x7: "x mod 128 = take_bit 7 x" by (simp add: take_bit_eq_mod)
    have p7: "(0x80 :: byte) = push_bit 7 1" by (simp add: push_bit_of_1)
    have b: "bit (0x80 :: byte) n = (n = 7)" by (simp only: p7 bit_push_one) simp
    have "(0x80 :: nat) = 2 ^ 7" by simp
    then have b': "bit (0x80 :: nat) n = (n = 7)" by (simp only: bit_exp_iff) simp
    have "(0x80 :: int) = 2 ^ 7" by simp
    then have b'': "bit (0x80 :: int) n = (n = 7)" by (simp only: bit_exp_iff) simp
    show "bit ((word_of_nat x OR 0x80 :: byte) AND 0x7f) n = bit (word_of_nat (x mod 128) :: byte) n"
      unfolding m7 x7 using n
      by (auto simp: bit_and_iff bit_or_iff bit_mask_iff bit_of_nat_iff bit_take_bit_iff b b' b'')
  qed
qed

lemma or_shift_add:
  assumes "unat (x :: u64) < 2 ^ s" "Suc n * 2 ^ s \<le> 2 ^ 64" "n < 2 ^ 64"
  shows "unat (x OR push_bit s (word_of_nat n)) = unat x + n * 2 ^ s"
proof -
  have lt: "unat x + n * 2 ^ s < 2 ^ 64" using assms(1,2) by simp
  have "unat (push_bit s (word_of_nat n) :: u64) = n * 2 ^ s"
    unfolding unsigned_push_bit_eq using lt assms(3)
    by (simp add: unat_of_nat take_bit_eq_mod push_bit_eq_mult del: push_bit_of_nat)
  moreover have "x AND push_bit s (word_of_nat n) = 0"
  proof (rule bit_eqI)
    fix k
    have "\<not> bit x k" if "s \<le> k"
    proof -
      have "take_bit s (unat x) = unat x" using assms(1) by (simp add: take_bit_eq_mod)
      then have "\<not> bit (unat x) k" using that by (metis bit_take_bit_iff not_le)
      then show ?thesis using bit_imp_le_length by (auto simp: bit_unsigned_iff)
    qed
    then show "bit (x AND push_bit s (word_of_nat n)) k = bit (0 :: u64) k"
      by (auto simp: bit_and_iff bit_push_bit_iff)
  qed
  then have "x OR push_bit s (word_of_nat n) = x + push_bit s (word_of_nat n)"
    by (rule disjunctive_add_eq_or [symmetric])
  ultimately show ?thesis using lt by (simp add: unat_word_ariths)
qed

lemma ucast_byte: "n < 256 \<Longrightarrow> (ucast (word_of_nat n :: byte) :: u64) = word_of_nat n"
  by (simp add: word_unat_eq_iff unsigned_ucast_eq unat_of_nat take_bit_eq_mod)

lemma uvarint_loop_put:
  "unat x < 2 ^ (7 * i) \<Longrightarrow> i \<le> 9 \<Longrightarrow> v < 2 ^ (64 - 7 * i) \<Longrightarrow>
   uvarint_loop i x (7 * i) (PutUvarint v @ rest) =
     (word_of_nat (unat x + v * 2 ^ (7 * i)), int i + int (length (PutUvarint v)))"
proof (induction v arbitrary: i x rule: PutUvarint.induct)
  case (1 v)
  have p: "(2::nat) ^ (64 - 7 * i) * 2 ^ (7 * i) = 2 ^ 64"
    using 1(3) by (simp flip: power_add)
  have v64: "v < 2 ^ 64"
    using 1(4) power_increasing [of "64 - 7 * i" 64 "2::nat"] by linarith
  show ?case
  proof (cases "v \<ge> 0x80")
    case False
    have "Suc v * 2 ^ (7 * i) \<le> 2 ^ (64 - 7 * i) * 2 ^ (7 * i)" using 1(4) by (intro mult_le_mono1) simp
    then have u: "unat (x OR push_bit (7 * i) (word_of_nat v)) = unat x + v * 2 ^ (7 * i)"
      using or_shift_add [OF 1(2) _ v64] p by simp
    have b: "(word_of_nat v :: byte) < 0x80" using False by (simp add: word_less_nat_alt unat_of_nat)
    have top: "\<not> (i = 9 \<and> (word_of_nat v :: byte) > 1)"
      using 1(4) by (auto simp: word_less_nat_alt unat_of_nat)
    have "uvarint_loop i x (7 * i) (PutUvarint v @ rest) =
        (x OR push_bit (7 * i) (word_of_nat v), int i + 1)"
      using False b top 1(3) by (simp add: PutUvarint.simps [of v] ucast_byte)
    also have "x OR push_bit (7 * i) (word_of_nat v) = word_of_nat (unat x + v * 2 ^ (7 * i))"
      by (simp flip: u)
    finally show ?thesis using False by (simp add: PutUvarint.simps [of v])
  next
    case True
    have i: "i \<le> 8"
    proof (rule ccontr)
      assume "\<not> i \<le> 8"
      then have "i = 9" using 1(3) by simp
      then show False using 1(4) True by simp
    qed
    define c y where c: "c = v mod 128" and y: "y = x OR push_bit (7 * i) (word_of_nat c)"
    have c128: "c < 128" by (simp add: c)
    have "Suc c * 2 ^ (7 * i) \<le> v * 2 ^ (7 * i)" using True c128 by (intro mult_le_mono1) simp
    also have "\<dots> \<le> 2 ^ 64" using 1(4) p by (metis less_imp_le mult_le_mono1)
    finally have uy: "unat y = unat x + c * 2 ^ (7 * i)"
      unfolding y using c128 by (intro or_shift_add [OF 1(2)]) simp_all
    have "unat y < 2 ^ (7 * (i + 1))"
    proof -
      have "Suc c * 2 ^ (7 * i) \<le> 128 * 2 ^ (7 * i)" using c128 by (intro mult_le_mono1) simp
      then have "c * 2 ^ (7 * i) + 2 ^ (7 * i) \<le> 2 ^ 7 * 2 ^ (7 * i)" by simp
      moreover have "(2::nat) ^ (7 * (i + 1)) = 2 ^ 7 * 2 ^ (7 * i)" by (simp only: power_add [symmetric]) simp
      ultimately show ?thesis using uy 1(2) by linarith
    qed
    moreover have "v div 128 < 2 ^ (64 - 7 * (i + 1))"
    proof -
      have "64 - 7 * i = (64 - 7 * (i + 1)) + 7" using i by simp
      then have "v < 2 ^ (64 - 7 * (i + 1)) * 128" using 1(4) by (simp only: power_add) simp
      then show ?thesis by (rule less_mult_imp_div_less)
    qed
    ultimately have IH: "uvarint_loop (i + 1) y (7 * (i + 1)) (PutUvarint (v div 128) @ rest) =
        (word_of_nat (unat y + v div 128 * 2 ^ (7 * (i + 1))), int (i + 1) + int (length (PutUvarint (v div 128))))"
      using i by (intro 1(1) [OF True]) simp_all
    have "unat y + v div 128 * 2 ^ (7 * (i + 1)) = unat x + (c + 128 * (v div 128)) * 2 ^ (7 * i)"
      using uy by (simp add: power_add algebra_simps)
    moreover have "c + 128 * (v div 128) = v" by (simp add: c)
    ultimately have e: "unat y + v div 128 * 2 ^ (7 * (i + 1)) = unat x + v * 2 ^ (7 * i)" by simp
    have "uvarint_loop i x (7 * i) (PutUvarint v @ rest) =
        uvarint_loop (i + 1) y (7 * (i + 1)) (PutUvarint (v div 128) @ rest)"
      using True i byte_cont [of v] c128
      by (simp add: PutUvarint.simps [of v] y ucast_byte c add.commute flip: not_le)
    moreover have "length (PutUvarint v) = Suc (length (PutUvarint (v div 128)))"
      using True by (simp add: PutUvarint.simps [of v])
    ultimately show ?thesis unfolding IH e by simp
  qed
qed

lemma Uvarint_PutUvarint:
  "v < 2 ^ 64 \<Longrightarrow> Uvarint (PutUvarint v @ rest) = (word_of_nat v, int (length (PutUvarint v)))"
  using uvarint_loop_put [of 0 0 v rest] by (simp add: Uvarint_def)

lemma PutUvarint_nonempty [simp]: "PutUvarint v \<noteq> []"
  by (simp add: PutUvarint.simps [of v])

lemma PutUvarint_append_inj:
  assumes "a < 2 ^ 64" "b < 2 ^ 64" "PutUvarint a @ x = PutUvarint b @ y"
  shows "a = b \<and> x = y"
proof -
  have "(word_of_nat a :: u64) = word_of_nat b"
    using Uvarint_PutUvarint [OF assms(1), of x] Uvarint_PutUvarint [OF assms(2), of y] assms(3) by simp
  moreover have "unat (word_of_nat n :: u64) = n" if "n < 2 ^ 64" for n
    using that by (simp add: unat_of_nat)
  ultimately have "a = b" using assms(1,2) by metis
  then show ?thesis using assms(3) by simp
qed

section \<open>Length-prefixed strings\<close>

definition len_prefixed :: "bytes \<Rightarrow> bytes" where
  "len_prefixed s = PutUvarint (length s) @ s"

definition len_prefixed_list :: "bytes list \<Rightarrow> bytes" where
  "len_prefixed_list ss = PutUvarint (length ss) @ concat (map len_prefixed ss)"

lemma len_prefixed_inj:
  assumes "length s < 2 ^ 64" "length t < 2 ^ 64" "len_prefixed s @ x = len_prefixed t @ y"
  shows "s = t \<and> x = y"
proof -
  have "length s = length t \<and> s @ x = t @ y"
    using PutUvarint_append_inj [OF assms(1,2)] assms(3) by (simp add: len_prefixed_def)
  then show ?thesis using append_eq_append_conv [of s t x y] by blast
qed

lemma concat_len_prefixed_inj:
  "length ss = length ts \<Longrightarrow> \<forall>s \<in> set (ss @ ts). length s < 2 ^ 64 \<Longrightarrow>
   concat (map len_prefixed ss) @ x = concat (map len_prefixed ts) @ y \<Longrightarrow> ss = ts \<and> x = y"
proof (induction ss ts arbitrary: x y rule: list_induct2)
  case (Cons s ss t ts)
  have "s = t \<and> concat (map len_prefixed ss) @ x = concat (map len_prefixed ts) @ y"
    using Cons.prems by (intro len_prefixed_inj) simp_all
  then show ?case using Cons.IH [of x y] Cons.prems(1) by simp
qed simp

lemma len_prefixed_list_inj:
  assumes "length ss < 2 ^ 64" "length ts < 2 ^ 64" "\<forall>s \<in> set (ss @ ts). length s < 2 ^ 64"
    "len_prefixed_list ss @ x = len_prefixed_list ts @ y"
  shows "ss = ts \<and> x = y"
proof -
  have "length ss = length ts \<and>
      concat (map len_prefixed ss) @ x = concat (map len_prefixed ts) @ y"
    using PutUvarint_append_inj [OF assms(1,2)] assms(4) by (simp add: len_prefixed_list_def)
  then show ?thesis using concat_len_prefixed_inj assms(3) by blast
qed

end
