(* ===== verification/Index_Entry.thy ===== *)
theory Index_Entry
  imports Index_Key Uvarint
begin

text \<open>
  Index entries and the compound primary key of set keyspaces,
  \<^verbatim>\<open>src/internal/indexing/entry.go\<close> and \<^verbatim>\<open>setpk.go\<close>, and the byte string the drift guard hashes,
  \<^verbatim>\<open>schemahash.go\<close>, whose XXH3 function is a parameter.
\<close>

section \<open>Entries\<close>

record Entry =
  Cols :: "bytes list"
  Cover :: "bytes list"

datatype value_err = BadPrefix | PKTooLong u64 nat

definition EntryKey :: "Entry \<Rightarrow> bytes \<Rightarrow> bool \<Rightarrow> bytes" where
  "EntryKey entry pk unique =
     (if unique then EncodeKey (Cols entry) else EncodeKey (Cols entry @ [pk]))"

definition EntryValue :: "Entry \<Rightarrow> bytes \<Rightarrow> bool \<Rightarrow> bool \<Rightarrow> bytes" where
  "EntryValue entry pk unique hasCovering =
     (let covering = (if hasCovering \<and> length (Cover entry) > 0 then EncodeKey (Cover entry) else []) in
      if unique then PutUvarint (length pk) @ pk @ covering else covering)"

definition DecodeUniqueValue :: "bytes \<Rightarrow> value_err + bytes \<times> bytes" where
  "DecodeUniqueValue value =
     (let (pkLen, n) = Uvarint value in
      if n \<le> 0 then Inl BadPrefix
      else let rest = length value - nat n in
        if word_of_nat rest < pkLen then Inl (PKTooLong pkLen rest)
        else Inr (field value (nat n) (unat pkLen), drop (nat n + unat pkLen) value))"

text \<open>
  Go maps are association lists with distinct keys, in the order an iteration visits them. The
  row key is loaded lazily by the source; the argument \<open>pk\<close> is what \<^verbatim>\<open>pkFn\<close> returns.
\<close>

definition DiffEntrySets ::
  "(bytes \<times> Entry) list \<Rightarrow> (bytes \<times> Entry) list \<Rightarrow> bool \<Rightarrow> bool \<Rightarrow> bytes
     \<Rightarrow> bytes list \<times> bytes list \<times> bytes list" where
  "DiffEntrySets olds news unique coverRewrite pk =
     (let dels = [k. (k, oe) \<leftarrow> olds, map_of news k = None];
          ins = [k. (k, ne) \<leftarrow> news, map_of olds k = None];
          upds = [k. (k, ne) \<leftarrow> news, coverRewrite,
                     case map_of olds k of None \<Rightarrow> False
                     | Some oe \<Rightarrow> EntryValue oe pk unique True \<noteq> EntryValue ne pk unique True]
      in (sort dels, sort ins, sort upds))"

section \<open>Compound primary keys\<close>

datatype pk_err = NoSeparator nat | KeyHalf key_err | ValueHalf key_err
  | ExtraTerminator | BadTag byte nat | TooFewTerminators nat nat

definition EncodeSetCompoundPK :: "bytes \<Rightarrow> bytes \<Rightarrow> bytes" where
  "EncodeSetCompoundPK setKey setValue = EscapeColumn setKey @ [0, 1] @ EscapeColumn setValue"

definition split_at :: "bytes \<Rightarrow> nat \<Rightarrow> pk_err + bytes \<times> bytes" where
  "split_at encoded i =
     (case UnescapeColumn (take i encoded) of
        Inl e \<Rightarrow> Inl (KeyHalf e)
      | Inr setKey \<Rightarrow>
          (case UnescapeColumn (drop (i + 2) encoded) of
             Inl e \<Rightarrow> Inl (ValueHalf e)
           | Inr setValue \<Rightarrow> Inr (setKey, setValue)))"

function compound_loop :: "bytes \<Rightarrow> nat \<Rightarrow> pk_err + bytes \<times> bytes" where
  "compound_loop encoded i =
     (if i + 1 < length encoded then
        if encoded ! i = 0 \<and> encoded ! (i + 1) = 1 then split_at encoded i
        else if encoded ! i = 0 \<and> encoded ! (i + 1) = 0xFF then compound_loop encoded (i + 2)
        else compound_loop encoded (i + 1)
      else Inl (NoSeparator (length encoded)))"
  by pat_completeness auto
termination
  by (relation "measure (\<lambda>(encoded, i). length encoded - i)") auto

definition DecodeSetCompoundPK :: "bytes \<Rightarrow> pk_err + bytes \<times> bytes" where
  "DecodeSetCompoundPK encoded = compound_loop encoded 0"

definition EncodeSetEntryKey :: "bytes list \<Rightarrow> bytes \<Rightarrow> bytes \<Rightarrow> bool \<Rightarrow> bytes" where
  "EncodeSetEntryKey cols setKey setValue unique =
     (let colBytes = EncodeKey cols in
      if unique then colBytes
      else colBytes @ EncodeSetCompoundPK setKey setValue @ [0, 0])"

text \<open>\<open>pkStart\<close> is \<^term>\<open>None\<close> for the source's -1.\<close>

function extract_loop :: "bytes \<Rightarrow> nat \<Rightarrow> nat \<Rightarrow> nat \<Rightarrow> nat option \<Rightarrow> pk_err + bytes" where
  "extract_loop key numColumns i terminators pkStart =
     (if i + 1 < length key then
        if key ! i \<noteq> 0 then extract_loop key numColumns (i + 1) terminators pkStart
        else let next = key ! (i + 1) in
          if next = 0xFF \<or> next = 1 then extract_loop key numColumns (i + 2) terminators pkStart
          else if next = 0 then
            let t = terminators + 1 in
            if t = numColumns then extract_loop key numColumns (i + 2) t (Some (i + 2))
            else if t = numColumns + 1 then
              (case pkStart of
                 None \<Rightarrow> Inl ExtraTerminator
               | Some s \<Rightarrow> Inr (field key s (i - s)))
            else extract_loop key numColumns (i + 2) t pkStart
          else Inl (BadTag next i)
      else Inl (TooFewTerminators terminators numColumns))"
  by pat_completeness auto
termination
  by (relation "measure (\<lambda>(key, numColumns, i, terminators, pkStart). length key - i)") auto

definition ExtractSetCompoundPK :: "bytes \<Rightarrow> nat \<Rightarrow> pk_err + bytes" where
  "ExtractSetCompoundPK key numColumns = extract_loop key numColumns 0 0 None"

section \<open>The schema hash\<close>

definition writeLenPrefixedString :: "bytes \<Rightarrow> bytes \<Rightarrow> bytes" where
  "writeLenPrefixedString h s = h @ PutUvarint (length s) @ s"

definition schema_input :: "bytes \<Rightarrow> bytes list \<Rightarrow> bytes list \<Rightarrow> bool \<Rightarrow> byte \<Rightarrow> bytes \<Rightarrow> bytes" where
  "schema_input name columns covering unique kind kindParams =
     (let h1 = writeLenPrefixedString [] name;
          h2 = foldl writeLenPrefixedString (h1 @ PutUvarint (length columns)) columns;
          h3 = foldl writeLenPrefixedString (h2 @ PutUvarint (length covering)) covering;
          h4 = h3 @ [if unique then 1 else 0];
          h5 = h4 @ [kind]
      in h5 @ PutUvarint (length kindParams) @ kindParams)"

definition SchemaHash ::
  "(bytes \<Rightarrow> u64) \<Rightarrow> bytes \<Rightarrow> bytes list \<Rightarrow> bytes list \<Rightarrow> bool \<Rightarrow> byte \<Rightarrow> bytes \<Rightarrow> u64" where
  "SchemaHash xxh3 name columns covering unique kind kindParams =
     xxh3 (schema_input name columns covering unique kind kindParams)"

declare compound_loop.simps [simp del] extract_loop.simps [simp del]

section \<open>Unique values\<close>

lemma DecodeUniqueValue_EntryValue:
  assumes "length pk < 2 ^ 64" "length (EntryValue e pk True c) < 2 ^ 64"
  shows "DecodeUniqueValue (EntryValue e pk True c) =
    Inr (pk, if c \<and> Cover e \<noteq> [] then EncodeKey (Cover e) else [])"
proof -
  define cov where "cov = (if c \<and> Cover e \<noteq> [] then EncodeKey (Cover e) else [])"
  define n where "n = length (PutUvarint (length pk))"
  have v: "EntryValue e pk True c = PutUvarint (length pk) @ pk @ cov"
    by (simp add: EntryValue_def cov_def)
  have u: "Uvarint (PutUvarint (length pk) @ pk @ cov) = (word_of_nat (length pk), int n)"
    using Uvarint_PutUvarint [OF assms(1)] by (simp add: n_def)
  have pos: "0 < n" by (simp add: n_def)
  have unat: "unat (word_of_nat (length pk) :: u64) = length pk"
    using assms(1) by (simp add: unat_of_nat)
  have "length pk + length cov < 2 ^ 64" using assms(2) by (simp add: v)
  then have "unat (word_of_nat (length pk + length cov) :: u64) = length pk + length cov"
    unfolding unat_of_nat by (intro mod_less) simp
  then have "\<not> (word_of_nat (length pk + length cov) :: u64) < word_of_nat (length pk)"
    unfolding word_less_nat_alt unat by simp
  then show ?thesis
    unfolding v by (simp add: DecodeUniqueValue_def u pos Let_def unat field_def flip: cov_def n_def)
qed

section \<open>Compound keys\<close>

lemma compound_loop_skip:
  "drop i key = escape_loop c @ rest \<Longrightarrow> rest \<noteq> [] \<Longrightarrow>
   compound_loop key i = compound_loop key (i + length (escape_loop c))"
proof (induction c arbitrary: i)
  case (Cons b c)
  have len: "length key = i + length (escape_loop (b # c)) + length rest"
    using length_of_drop [OF Cons.prems(1)] Cons.prems(2) by simp
  have rest: "0 < length rest" using Cons.prems(2) by simp
  show ?case
  proof (cases "b = 0")
    case False
    note d = drop_Cons_nth [of i key b "escape_loop c @ rest"]
    have "compound_loop key i = compound_loop key (i + 1)"
      using d Cons.prems False len rest by (subst compound_loop.simps) simp
    then show ?thesis using Cons.IH [of "i + 1"] d Cons.prems False by simp
  next
    case True
    note d = drop_Cons_nth [of i key 0 "0xFF # escape_loop c @ rest"]
      drop_Cons_nth [of "Suc i" key "0xFF" "escape_loop c @ rest"]
    have "compound_loop key i = compound_loop key (i + 2)"
      using d Cons.prems True by (subst compound_loop.simps) simp
    then show ?thesis using Cons.IH [of "i + 2"] d Cons.prems True by simp
  qed
qed simp

lemma DecodeSetCompoundPK_Encode:
  "DecodeSetCompoundPK (EncodeSetCompoundPK k v) = Inr (k, v)"
proof -
  let ?e = "escape_loop k @ 0 # 1 # escape_loop v" and ?n = "length (escape_loop k)"
  have "compound_loop ?e 0 = compound_loop ?e ?n" using compound_loop_skip [of 0 ?e k] by simp
  also have "\<dots> = split_at ?e ?n" by (subst compound_loop.simps) (simp add: nth_append)
  also have "\<dots> = Inr (k, v)" by (simp add: split_at_def UnescapeColumn_escape)
  finally show ?thesis
    by (simp add: DecodeSetCompoundPK_def EncodeSetCompoundPK_def EscapeColumn_eq)
qed

lemma extract_loop_skip:
  "drop i key = escape_loop c @ rest \<Longrightarrow> rest \<noteq> [] \<Longrightarrow>
   extract_loop key m i t ps = extract_loop key m (i + length (escape_loop c)) t ps"
proof (induction c arbitrary: i)
  case (Cons b c)
  have len: "length key = i + length (escape_loop (b # c)) + length rest"
    using length_of_drop [OF Cons.prems(1)] Cons.prems(2) by simp
  have rest: "0 < length rest" using Cons.prems(2) by simp
  show ?case
  proof (cases "b = 0")
    case False
    note d = drop_Cons_nth [of i key b "escape_loop c @ rest"]
    have "extract_loop key m i t ps = extract_loop key m (i + 1) t ps"
      using d Cons.prems False len rest by (subst extract_loop.simps) simp
    then show ?thesis using Cons.IH [of "i + 1"] d Cons.prems False by simp
  next
    case True
    note d = drop_Cons_nth [of i key 0 "0xFF # escape_loop c @ rest"]
      drop_Cons_nth [of "Suc i" key "0xFF" "escape_loop c @ rest"]
    have "extract_loop key m i t ps = extract_loop key m (i + 2) t ps"
      using d Cons.prems True by (subst extract_loop.simps) (simp add: Let_def)
    then show ?thesis using Cons.IH [of "i + 2"] d Cons.prems True by simp
  qed
qed simp

text \<open>Past the columns, the walk stands at the start of the primary key.\<close>

lemma extract_loop_columns:
  "drop i key = EncodeKey cs @ rest \<Longrightarrow> rest \<noteq> [] \<Longrightarrow> cs \<noteq> [] \<Longrightarrow> t + length cs = m \<Longrightarrow>
   extract_loop key m i t ps =
     extract_loop key m (i + length (EncodeKey cs)) m (Some (i + length (EncodeKey cs)))"
proof (induction cs arbitrary: i t)
  case (Cons c cs)
  let ?j = "i + length (escape_loop c)"
  have d: "drop i key = escape_loop c @ 0 # 0 # EncodeKey cs @ rest" using Cons.prems by simp
  have dj: "drop ?j key = 0 # 0 # EncodeKey cs @ rest" using drop_past [OF d] .
  note n = drop_Cons_nth [OF dj] drop_Cons_nth [of "Suc ?j" key 0 "EncodeKey cs @ rest"]
  have skip: "extract_loop key m i t ps = extract_loop key m ?j t ps"
    using extract_loop_skip [OF d] by simp
  show ?case
  proof (cases "cs = []")
    case True
    then have "extract_loop key m ?j t ps = extract_loop key m (?j + 2) m (Some (?j + 2))"
      using n Cons.prems(4) by (subst extract_loop.simps) (simp add: Let_def)
    then show ?thesis using skip True by simp
  next
    case False
    then have "0 < length cs" by simp
    then have "Suc t \<noteq> m \<and> Suc t \<noteq> Suc m" using Cons.prems(4) by (auto simp: neq_Nil_conv)
    then have "extract_loop key m ?j t ps = extract_loop key m (?j + 2) (t + 1) ps"
      using n by (subst extract_loop.simps) (simp add: Let_def)
    moreover have "drop (?j + 2) key = EncodeKey cs @ rest" using n by simp
    ultimately show ?thesis
      using Cons.IH [of "?j + 2" "t + 1"] Cons.prems(2,4) False skip by (simp add: add.assoc)
  qed
qed simp

lemma ExtractSetCompoundPK_Encode:
  assumes "cols \<noteq> []"
  shows "ExtractSetCompoundPK (EncodeSetEntryKey cols k v False) (length cols) =
    Inr (EncodeSetCompoundPK k v)"
proof -
  define key where "key = EncodeKey cols @ escape_loop k @ 0 # 1 # escape_loop v @ [0, 0]"
  let ?m = "length cols" and ?s = "length (EncodeKey cols)"
  let ?i = "?s + length (escape_loop k)" let ?j = "?i + 2 + length (escape_loop v)"
  have ds: "drop ?s key = escape_loop k @ 0 # 1 # escape_loop v @ [0, 0]" by (simp add: key_def)
  have di: "drop ?i key = 0 # 1 # escape_loop v @ [0, 0]" using drop_past [OF ds] .
  note ni = drop_Cons_nth [OF di] drop_Cons_nth [of "Suc ?i" key 1 "escape_loop v @ [0, 0]"]
  have di2: "drop (?i + 2) key = escape_loop v @ [0, 0]" using ni by simp
  have dj: "drop ?j key = [0, 0]" using drop_past [OF di2] .
  note nj = drop_Cons_nth [OF dj] drop_Cons_nth [of "Suc ?j" key 0 "[]"]
  have "extract_loop key ?m 0 0 None = extract_loop key ?m ?s ?m (Some ?s)"
    using extract_loop_columns [of 0 key cols _ 0 ?m None] assms by (simp add: key_def)
  also have "\<dots> = extract_loop key ?m ?i ?m (Some ?s)" using extract_loop_skip [OF ds] by simp
  also have "\<dots> = extract_loop key ?m (?i + 2) ?m (Some ?s)"
    using ni by (subst extract_loop.simps) (simp add: Let_def)
  also have "\<dots> = extract_loop key ?m ?j ?m (Some ?s)" using extract_loop_skip [OF di2] by simp
  also have "\<dots> = Inr (field key ?s (?j - ?s))"
    using nj by (subst extract_loop.simps) (simp add: Let_def)
  also have "field key ?s (?j - ?s) = escape_loop k @ 0 # 1 # escape_loop v"
    by (simp add: field_def ds)
  finally show ?thesis
    by (simp add: ExtractSetCompoundPK_def EncodeSetEntryKey_def EncodeSetCompoundPK_def
        EscapeColumn_eq key_def)
qed

section \<open>The schema hash input is injective\<close>

lemma foldl_writeLen: "foldl writeLenPrefixedString h ss = h @ concat (map len_prefixed ss)"
  by (induction ss arbitrary: h) (simp_all add: writeLenPrefixedString_def len_prefixed_def)

lemma schema_input_eq:
  "schema_input name cols cov u k ps =
     len_prefixed name @ len_prefixed_list cols @ len_prefixed_list cov @
     [if u then 1 else 0] @ [k] @ len_prefixed ps"
  by (simp add: schema_input_def Let_def foldl_writeLen len_prefixed_list_def)
    (simp add: writeLenPrefixedString_def len_prefixed_def)

lemma schema_input_inj:
  assumes "schema_input n cols cov u k ps = schema_input n' cols' cov' u' k' ps'"
    and "\<forall>s \<in> {n, n', ps, ps'} \<union> set (cols @ cols' @ cov @ cov'). length s < 2 ^ 64"
    and "length cols < 2 ^ 64" "length cols' < 2 ^ 64" "length cov < 2 ^ 64" "length cov' < 2 ^ 64"
  shows "n = n' \<and> cols = cols' \<and> cov = cov' \<and> u = u' \<and> k = k' \<and> ps = ps'"
proof -
  note e = assms(1) [unfolded schema_input_eq]
  have 1: "n = n' \<and> len_prefixed_list cols @ len_prefixed_list cov @ [if u then 1 else 0] @ [k] @ len_prefixed ps
      = len_prefixed_list cols' @ len_prefixed_list cov' @ [if u' then 1 else 0] @ [k'] @ len_prefixed ps'"
    by (rule len_prefixed_inj [OF _ _ e]) (use assms(2) in auto)
  have 2: "cols = cols' \<and> len_prefixed_list cov @ [if u then 1 else 0] @ [k] @ len_prefixed ps
      = len_prefixed_list cov' @ [if u' then 1 else 0] @ [k'] @ len_prefixed ps'"
    by (rule len_prefixed_list_inj [OF assms(3,4) _ conjunct2 [OF 1]]) (use assms(2) in auto)
  have 3: "cov = cov' \<and> [if u then 1 else 0] @ [k] @ len_prefixed ps
      = [if u' then 1 else 0] @ [k'] @ len_prefixed ps'"
    by (rule len_prefixed_list_inj [OF assms(5,6) _ conjunct2 [OF 2]]) (use assms(2) in auto)
  then have 4: "u = u' \<and> k = k' \<and> len_prefixed ps = len_prefixed ps'"
    by (auto split: if_splits)
  then have "ps = ps'" using len_prefixed_inj [of ps ps' "[]" "[]"] assms(2) by simp
  with 1 2 3 4 show ?thesis by simp
qed

section \<open>Diffs of entry sets\<close>

lemma set_cond_list: "set [f x. x \<leftarrow> xs, P x] = f ` {x \<in> set xs. P x}"
  by auto

definition diff_spec ::
  "(bytes \<Rightarrow> Entry option) \<Rightarrow> (bytes \<Rightarrow> Entry option) \<Rightarrow> bool \<Rightarrow> bool \<Rightarrow> bytes
     \<Rightarrow> bytes set \<times> bytes set \<times> bytes set" where
  "diff_spec olds news unique coverRewrite pk =
     (dom olds - dom news, dom news - dom olds,
      {k. coverRewrite \<and> (\<exists>oe ne. olds k = Some oe \<and> news k = Some ne \<and>
            EntryValue oe pk unique True \<noteq> EntryValue ne pk unique True)})"

lemma filter_keys:
  assumes "distinct (map fst xs)"
  shows "set [k. (k, e) \<leftarrow> xs, P k e] = {k. \<exists>e. map_of xs k = Some e \<and> P k e}"
    and "distinct [k. (k, e) \<leftarrow> xs, P k e]"
proof -
  show "set [k. (k, e) \<leftarrow> xs, P k e] = {k. \<exists>e. map_of xs k = Some e \<and> P k e}"
    using assms by (auto simp: map_of_eq_Some_iff)
  have "[k. (k, e) \<leftarrow> xs, P k e] = map fst (filter (\<lambda>(k, e). P k e) xs)"
    by (induction xs) auto
  then show "distinct [k. (k, e) \<leftarrow> xs, P k e]"
    using assms by (simp add: distinct_map inj_on_def distinct_filter)
qed

lemma DiffEntrySets_spec:
  assumes "distinct (map fst olds)" "distinct (map fst news)"
    "DiffEntrySets olds news unique cr pk = (dels, ins, upds)"
  shows "(set dels, set ins, set upds) = diff_spec (map_of olds) (map_of news) unique cr pk"
    and "sorted_wrt (<) dels \<and> sorted_wrt (<) ins \<and> sorted_wrt (<) upds"
proof -
  let ?upd = "\<lambda>k ne. cr \<and> (case map_of olds k of None \<Rightarrow> False
      | Some oe \<Rightarrow> EntryValue oe pk unique True \<noteq> EntryValue ne pk unique True)"
  have e: "dels = sort [k. (k, oe) \<leftarrow> olds, map_of news k = None]"
    "ins = sort [k. (k, ne) \<leftarrow> news, map_of olds k = None]"
    "upds = sort [k. (k, ne) \<leftarrow> news, ?upd k ne]"
    using assms(3) by (cases cr; simp add: DiffEntrySets_def Let_def)+
  note d = filter_keys [OF assms(1), of "\<lambda>k _. map_of news k = None"]
    and i = filter_keys [OF assms(2), of "\<lambda>k _. map_of olds k = None"]
    and u = filter_keys [OF assms(2), of ?upd]
  show "(set dels, set ins, set upds) = diff_spec (map_of olds) (map_of news) unique cr pk"
    unfolding e using d(1) i(1) u(1)
    by (auto simp: diff_spec_def dom_def split: option.splits)
  show "sorted_wrt (<) dels \<and> sorted_wrt (<) ins \<and> sorted_wrt (<) upds"
    unfolding e using d(2) i(2) u(2) by (simp add: strict_sorted_iff)
qed

end
