(* ===== verification/Index_Registry.thy ===== *)
theory Index_Registry
  imports Index_Entry
begin

text \<open>
  The row codec of the per-keyspace index registry, \<^verbatim>\<open>src/internal/indexing/registry.go\<close>. The
  encoder fills a zeroed buffer of the exact size from left to right, which is the concatenation
  of the fields; the decoder walks the row with a running offset and checks every bound before
  it reads.
\<close>

section \<open>Definitions\<close>

record RegistryEntry =
  re_SchemaHash :: u64
  re_Unique :: bool
  re_Kind :: byte
  re_Root :: u64
  re_Count :: u64
  re_UserVersion :: bytes
  re_Columns :: "bytes list"
  re_Covering :: "bytes list"
  re_KindPayload :: bytes

definition KindComposite :: byte where "KindComposite = 0"

definition RegistryEntryFixedPrefixSize :: nat where "RegistryEntryFixedPrefixSize = 32"

definition MaxUint16 :: nat where "MaxUint16 = 65535"

definition MaxUint32 :: nat where "MaxUint32 = 4294967295"

text \<open>The errors carry the length or the offset the messages of the source name.\<close>

datatype reg_err = ErrRegistryEntryInvalid nat | ErrFieldTooLarge nat | ErrRegistryEntryShort nat

definition encode_name :: "bytes \<Rightarrow> bytes" where
  "encode_name c = le_bytes 2 (length c) @ c"

definition first_too_long :: "bytes list \<Rightarrow> bytes option" where
  "first_too_long cs = find (\<lambda>c. length c > MaxUint16) cs"

definition registry_bytes :: "RegistryEntry \<Rightarrow> bytes" where
  "registry_bytes e =
     le_bytes 8 (unat (re_SchemaHash e)) @ [if re_Unique e then 1 else 0] @ [re_Kind e] @
     replicate 6 0 @ le_bytes 8 (unat (re_Root e)) @ le_bytes 8 (unat (re_Count e)) @
     le_bytes 2 (length (re_UserVersion e)) @ re_UserVersion e @
     le_bytes 2 (length (re_Columns e)) @ concat (map encode_name (re_Columns e)) @
     le_bytes 2 (length (re_Covering e)) @ concat (map encode_name (re_Covering e)) @
     le_bytes 4 (length (re_KindPayload e)) @ re_KindPayload e"

definition EncodeRegistryEntry :: "RegistryEntry \<Rightarrow> reg_err + bytes" where
  "EncodeRegistryEntry e =
     (if re_Kind e = KindComposite \<and> length (re_KindPayload e) > 0
      then Inl (ErrRegistryEntryInvalid (length (re_KindPayload e)))
      else if length (re_KindPayload e) > MaxUint32 then Inl (ErrFieldTooLarge (length (re_KindPayload e)))
      else if length (re_UserVersion e) > MaxUint16 then Inl (ErrFieldTooLarge (length (re_UserVersion e)))
      else if length (re_Columns e) > MaxUint16 then Inl (ErrFieldTooLarge (length (re_Columns e)))
      else if length (re_Covering e) > MaxUint16 then Inl (ErrFieldTooLarge (length (re_Covering e)))
      else case first_too_long (re_Columns e) of
          Some c \<Rightarrow> Inl (ErrFieldTooLarge (length c))
        | None \<Rightarrow>
            (case first_too_long (re_Covering e) of
               Some c \<Rightarrow> Inl (ErrFieldTooLarge (length c))
             | None \<Rightarrow> Inr (registry_bytes e)))"

text \<open>The loop that reads \<open>n\<close> names from \<open>off\<close>.\<close>

fun decode_names :: "bytes \<Rightarrow> nat \<Rightarrow> nat \<Rightarrow> bytes list \<Rightarrow> reg_err + bytes list \<times> nat" where
  "decode_names data off 0 acc = Inr (acc, off)"
| "decode_names data off (Suc n) acc =
     (if off + 2 > length data then Inl (ErrRegistryEntryShort off)
      else let nLen = unat (Uint16 data off); off1 = off + 2 in
        if off1 + nLen > length data then Inl (ErrRegistryEntryShort off1)
        else decode_names data (off1 + nLen) n (acc @ [field data off1 nLen]))"

text \<open>A counted list of names: its \<^verbatim>\<open>u16\<close> count, the forged-count bound, then the names.\<close>

definition decode_name_list :: "bytes \<Rightarrow> nat \<Rightarrow> reg_err + bytes list \<times> nat" where
  "decode_name_list data off =
     (if off + 2 > length data then Inl (ErrRegistryEntryShort off)
      else let n = unat (Uint16 data off); off1 = off + 2 in
        if n * 2 > length data - off1 then Inl (ErrRegistryEntryShort off1)
        else decode_names data off1 n [])"

definition decode_string16 :: "bytes \<Rightarrow> nat \<Rightarrow> reg_err + bytes \<times> nat" where
  "decode_string16 data off =
     (if off + 2 > length data then Inl (ErrRegistryEntryShort off)
      else let n = unat (Uint16 data off); off1 = off + 2 in
        if off1 + n > length data then Inl (ErrRegistryEntryShort off1)
        else Inr (field data off1 n, off1 + n))"

definition decode_payload :: "byte \<Rightarrow> bytes \<Rightarrow> nat \<Rightarrow> reg_err + bytes" where
  "decode_payload kind data off =
     (if off + 4 > length data then Inl (ErrRegistryEntryShort off)
      else let n = unat (Uint32 data off); off1 = off + 4 in
        if n > length data - off1 then Inl (ErrRegistryEntryShort off1)
        else if kind = KindComposite \<and> n > 0 then Inl (ErrRegistryEntryInvalid n)
        else if off1 + n \<noteq> length data then Inl (ErrRegistryEntryShort (length data - (off1 + n)))
        else Inr (field data off1 n))"

definition DecodeRegistryEntry :: "bytes \<Rightarrow> reg_err + RegistryEntry" where
  "DecodeRegistryEntry data =
     (if length data < RegistryEntryFixedPrefixSize then Inl (ErrRegistryEntryShort (length data))
      else bind_res (decode_string16 data 32) (\<lambda>(version, off1).
           bind_res (decode_name_list data off1) (\<lambda>(columns, off2).
           bind_res (decode_name_list data off2) (\<lambda>(covering, off3).
           bind_res (decode_payload (data ! 9) data off3) (\<lambda>payload.
             Inr \<lparr>re_SchemaHash = Uint64 data 0, re_Unique = (data ! 8 \<noteq> 0), re_Kind = data ! 9,
                  re_Root = Uint64 data 16, re_Count = Uint64 data 24, re_UserVersion = version,
                  re_Columns = columns, re_Covering = covering, re_KindPayload = payload\<rparr>)))))"

section \<open>Reading at an offset\<close>

lemma Uint16_at:
  assumes "drop off data = le_bytes 2 n @ rest" "n \<le> MaxUint16" "off \<le> length data"
  shows "unat (Uint16 data off) = n" "drop (off + 2) data = rest" "off + 2 \<le> length data"
proof -
  have "n < 2 ^ 16" using assms(2) by (simp add: MaxUint16_def)
  then show "unat (Uint16 data off) = n"
    using field_at(1) [OF assms(1)] assms(3) by (simp add: Uint16_def le_nat_le_bytes unat_of_nat)
  show "drop (off + 2) data = rest" "off + 2 \<le> length data" using field_at(2,3) [OF assms(1)] assms(3) by simp_all
qed

lemma Uint32_at:
  assumes "drop off data = le_bytes 4 n @ rest" "n \<le> MaxUint32" "off \<le> length data"
  shows "unat (Uint32 data off) = n" "drop (off + 4) data = rest" "off + 4 \<le> length data"
proof -
  have "n < 2 ^ 32" using assms(2) by (simp add: MaxUint32_def)
  then show "unat (Uint32 data off) = n"
    using field_at(1) [OF assms(1)] assms(3) by (simp add: Uint32_def le_nat_le_bytes unat_of_nat)
  show "drop (off + 4) data = rest" "off + 4 \<le> length data" using field_at(2,3) [OF assms(1)] assms(3) by simp_all
qed

lemma decode_string16_at:
  assumes "drop off data = le_bytes 2 (length s) @ s @ rest" "length s \<le> MaxUint16" "off \<le> length data"
  shows "\<exists>off'. decode_string16 data off = Inr (s, off') \<and> drop off' data = rest \<and> off' \<le> length data"
proof -
  note u = Uint16_at [OF assms]
  note f = field_at [OF u(2) refl u(3)]
  show ?thesis using u f by (simp add: decode_string16_def Let_def)
qed

lemma decode_names_at:
  "drop off data = concat (map encode_name cs) @ rest \<Longrightarrow> \<forall>c \<in> set cs. length c \<le> MaxUint16 \<Longrightarrow>
   off \<le> length data \<Longrightarrow>
   \<exists>off'. decode_names data off (length cs) acc = Inr (acc @ cs, off') \<and> drop off' data = rest \<and>
     off' \<le> length data"
proof (induction cs arbitrary: off acc)
  case (Cons c cs)
  have d: "drop off data = le_bytes 2 (length c) @ c @ concat (map encode_name cs) @ rest"
    using Cons.prems(1) by (simp add: encode_name_def [of c])
  have "length c \<le> MaxUint16" using Cons.prems(2) by simp
  note u = Uint16_at [OF d this Cons.prems(3)]
  note f = field_at [OF u(2) refl u(3)]
  have "decode_names data off (length (c # cs)) acc =
      decode_names data (off + 2 + length c) (length cs) (acc @ [c])"
    using u(1,3) f(1,3) by (simp add: Let_def)
  then show ?case using Cons.IH [OF f(2), of "acc @ [c]"] Cons.prems(2) f(3) by simp
qed simp

lemma length_encode_names: "2 * length cs \<le> length (concat (map encode_name cs))"
  by (induction cs) (simp_all add: encode_name_def)

lemma decode_name_list_at:
  assumes "drop off data = le_bytes 2 (length cs) @ concat (map encode_name cs) @ rest"
    "length cs \<le> MaxUint16" "\<forall>c \<in> set cs. length c \<le> MaxUint16" "off \<le> length data"
  shows "\<exists>off'. decode_name_list data off = Inr (cs, off') \<and> drop off' data = rest \<and> off' \<le> length data"
proof -
  note u = Uint16_at [OF assms(1,2,4)]
  have "length data - (off + 2) = length (concat (map encode_name cs)) + length rest"
    using arg_cong [OF u(2), of length] by simp
  then have "\<not> length cs * 2 > length data - (off + 2)" using length_encode_names [of cs] by simp
  then show ?thesis
    using decode_names_at [OF u(2) assms(3) u(3), of "[]"] u(1,3) by (simp add: decode_name_list_def Let_def)
qed

lemma decode_payload_at:
  assumes "drop off data = le_bytes 4 (length p) @ p" "length p \<le> MaxUint32" "off \<le> length data"
    "kind = KindComposite \<longrightarrow> p = []"
  shows "decode_payload kind data off = Inr p"
proof -
  note u = Uint32_at [OF assms(1,2,3)]
  have l: "length data - (off + 4) = length p" using arg_cong [OF u(2), of length] by simp
  then have "length data = off + 4 + length p" using u(3) by linarith
  moreover have "field data (off + 4) (length p) = p" by (simp add: field_def u(2))
  ultimately show ?thesis using u(1) assms(4) by (auto simp: decode_payload_def Let_def)
qed

section \<open>Round trip\<close>

definition registry_encodable :: "RegistryEntry \<Rightarrow> bool" where
  "registry_encodable e \<longleftrightarrow>
     (re_Kind e = KindComposite \<longrightarrow> re_KindPayload e = []) \<and> length (re_KindPayload e) \<le> MaxUint32 \<and>
     length (re_UserVersion e) \<le> MaxUint16 \<and> length (re_Columns e) \<le> MaxUint16 \<and>
     length (re_Covering e) \<le> MaxUint16 \<and>
     (\<forall>c \<in> set (re_Columns e @ re_Covering e). length c \<le> MaxUint16)"

lemma first_too_long_None: "first_too_long cs = None \<longleftrightarrow> (\<forall>c \<in> set cs. length c \<le> MaxUint16)"
  by (auto simp: first_too_long_def find_None_iff not_less)

lemma EncodeRegistryEntry_iff:
  "EncodeRegistryEntry e = Inr data \<longleftrightarrow> registry_encodable e \<and> data = registry_bytes e"
proof -
  have "first_too_long (re_Columns e) = None \<and> first_too_long (re_Covering e) = None \<longleftrightarrow>
      (\<forall>c \<in> set (re_Columns e @ re_Covering e). length c \<le> MaxUint16)"
    by (auto simp: first_too_long_None)
  then show ?thesis
    by (auto simp: EncodeRegistryEntry_def registry_encodable_def split: option.splits if_splits)
qed

lemma registry_prefix:
  fixes e :: RegistryEntry
  defines "d \<equiv> registry_bytes e"
  shows "32 \<le> length d" "Uint64 d 0 = re_SchemaHash e" "(d ! 8 \<noteq> 0) = re_Unique e" "d ! 9 = re_Kind e"
    "Uint64 d 16 = re_Root e" "Uint64 d 24 = re_Count e"
    "drop 32 d = le_bytes 2 (length (re_UserVersion e)) @ re_UserVersion e @
       le_bytes 2 (length (re_Columns e)) @ concat (map encode_name (re_Columns e)) @
       le_bytes 2 (length (re_Covering e)) @ concat (map encode_name (re_Covering e)) @
       le_bytes 4 (length (re_KindPayload e)) @ re_KindPayload e"
proof -
  define tl where "tl = le_bytes 2 (length (re_UserVersion e)) @ re_UserVersion e @
       le_bytes 2 (length (re_Columns e)) @ concat (map encode_name (re_Columns e)) @
       le_bytes 2 (length (re_Covering e)) @ concat (map encode_name (re_Covering e)) @
       le_bytes 4 (length (re_KindPayload e)) @ re_KindPayload e"
  have d: "d = le_bytes 8 (unat (re_SchemaHash e)) @ [if re_Unique e then 1 else 0] @ [re_Kind e] @
     replicate 6 0 @ le_bytes 8 (unat (re_Root e)) @ le_bytes 8 (unat (re_Count e)) @ tl"
    by (simp add: d_def registry_bytes_def tl_def)
  show len: "32 \<le> length d" by (simp add: d)
  show "Uint64 d 0 = re_SchemaHash e" by (rule Uint64_drop) (simp add: d)
  show "Uint64 d 16 = re_Root e" by (rule Uint64_drop) (simp add: d)
  show "Uint64 d 24 = re_Count e" by (rule Uint64_drop) (simp add: d)
  show "(d ! 8 \<noteq> 0) = re_Unique e" "d ! 9 = re_Kind e" by (simp_all add: d nth_append)
  show "drop 32 d = le_bytes 2 (length (re_UserVersion e)) @ re_UserVersion e @
       le_bytes 2 (length (re_Columns e)) @ concat (map encode_name (re_Columns e)) @
       le_bytes 2 (length (re_Covering e)) @ concat (map encode_name (re_Covering e)) @
       le_bytes 4 (length (re_KindPayload e)) @ re_KindPayload e"
    by (simp add: d flip: tl_def)
qed

lemma DecodeRegistryEntry_bytes:
  assumes "registry_encodable e"
  shows "DecodeRegistryEntry (registry_bytes e) = Inr e"
proof -
  let ?d = "registry_bytes e"
  note p = registry_prefix [of e] and a = assms [unfolded registry_encodable_def]
  obtain o1 where o1: "decode_string16 ?d 32 = Inr (re_UserVersion e, o1)" "o1 \<le> length ?d"
    "drop o1 ?d = le_bytes 2 (length (re_Columns e)) @ concat (map encode_name (re_Columns e)) @
       le_bytes 2 (length (re_Covering e)) @ concat (map encode_name (re_Covering e)) @
       le_bytes 4 (length (re_KindPayload e)) @ re_KindPayload e"
    using decode_string16_at [OF p(7)] a p(1) by auto
  obtain o2 where o2: "decode_name_list ?d o1 = Inr (re_Columns e, o2)" "o2 \<le> length ?d"
    "drop o2 ?d = le_bytes 2 (length (re_Covering e)) @ concat (map encode_name (re_Covering e)) @
       le_bytes 4 (length (re_KindPayload e)) @ re_KindPayload e"
    using decode_name_list_at [OF o1(3)] a o1(2) by auto
  obtain o3 where o3: "decode_name_list ?d o2 = Inr (re_Covering e, o3)" "o3 \<le> length ?d"
    "drop o3 ?d = le_bytes 4 (length (re_KindPayload e)) @ re_KindPayload e"
    using decode_name_list_at [OF o2(3)] a o2(2) by auto
  have "decode_payload (re_Kind e) ?d o3 = Inr (re_KindPayload e)"
    using decode_payload_at [OF o3(3)] a o3(2) by auto
  then show ?thesis
    using p o1(1) o2(1) o3(1) by (simp add: DecodeRegistryEntry_def RegistryEntryFixedPrefixSize_def)
qed

text \<open>Whatever the decoder accepts can be encoded again: its fields respect every bound.\<close>

lemma Uint16_le: "unat (Uint16 data off) \<le> MaxUint16"
proof -
  have "unat (Uint16 data off) < 2 ^ LENGTH(16)" by (rule unsigned_less)
  then show ?thesis by (simp add: MaxUint16_def)
qed

lemma Uint32_le: "unat (Uint32 data off) \<le> MaxUint32"
proof -
  have "unat (Uint32 data off) < 2 ^ LENGTH(32)" by (rule unsigned_less)
  then show ?thesis by (simp add: MaxUint32_def)
qed

lemma decode_names_bound:
  "decode_names data off n acc = Inr (cs, off') \<Longrightarrow> \<forall>c \<in> set acc. length c \<le> MaxUint16 \<Longrightarrow>
   (\<forall>c \<in> set cs. length c \<le> MaxUint16) \<and> length cs = length acc + n"
proof (induction n arbitrary: off acc)
  case (Suc n)
  have "length (field data off' (unat (Uint16 data off))) \<le> MaxUint16" for off'
    using Uint16_le [of data off] by (simp add: field_def)
  then show ?case
    using Suc.prems Suc.IH [of "off + 2 + unat (Uint16 data off)" "acc @ [field data (off + 2) (unat (Uint16 data off))]"]
    by (auto simp: Let_def split: if_splits)
qed simp

lemma decode_name_list_bound:
  "decode_name_list data off = Inr (cs, off') \<Longrightarrow>
   length cs \<le> MaxUint16 \<and> (\<forall>c \<in> set cs. length c \<le> MaxUint16)"
  using decode_names_bound [of data "off + 2" "unat (Uint16 data off)" "[]" cs off'] Uint16_le [of data off]
  by (auto simp: decode_name_list_def Let_def split: if_splits)

lemma DecodeRegistryEntry_encodable:
  assumes "DecodeRegistryEntry data = Inr e"
  shows "registry_encodable e"
proof -
  obtain v o1 cs o2 cov o3 p where d: "decode_string16 data 32 = Inr (v, o1)"
    "decode_name_list data o1 = Inr (cs, o2)" "decode_name_list data o2 = Inr (cov, o3)"
    "decode_payload (data ! 9) data o3 = Inr p"
    and e: "re_UserVersion e = v" "re_Columns e = cs" "re_Covering e = cov" "re_KindPayload e = p"
      "re_Kind e = data ! 9"
    using assms by (auto simp: DecodeRegistryEntry_def bind_res_Inr_iff split: if_splits)
  have "length v \<le> MaxUint16"
    using d(1) Uint16_le [of data 32] by (auto simp: decode_string16_def Let_def field_def split: if_splits)
  moreover have "length p \<le> MaxUint32" "data ! 9 = KindComposite \<longrightarrow> p = []"
    using d(4) Uint32_le [of data o3] by (auto simp: decode_payload_def Let_def field_def split: if_splits)
  ultimately show ?thesis
    using decode_name_list_bound [OF d(2)] decode_name_list_bound [OF d(3)] e
    by (auto simp: registry_encodable_def)
qed

end
