(* ===== verification/Codec.thy ===== *)
theory Codec
  imports Main
begin

text \<open>
  The contracts the on-disk codecs promise their clients. A \<open>codec\<close> decodes what it encodes; a
  \<open>strict_codec\<close> moreover accepts nothing else; an \<open>order_codec\<close> maps the order of its values to
  the order of their encodings, which is what a byte-ordered tree stores.
\<close>

locale codec =
  fixes enc :: "'a \<Rightarrow> 'e + 'b" and dec :: "'b \<Rightarrow> 'f + 'a"
  assumes round_trip: "enc x = Inr b \<Longrightarrow> dec b = Inr x"
begin

lemma enc_inj: "enc x = Inr b \<Longrightarrow> enc y = Inr b \<Longrightarrow> x = y"
  using round_trip [of x b] round_trip [of y b] by simp

text \<open>Decoding after rewriting a decoded value gives the value again.\<close>

lemma rewrite_stable: "dec b = Inr x \<Longrightarrow> enc x = Inr b' \<Longrightarrow> dec b' = dec b"
  using round_trip by simp

end

locale strict_codec = codec +
  assumes canonical: "dec b = Inr x \<Longrightarrow> enc x = Inr b"
begin

lemma dec_iff: "dec b = Inr x \<longleftrightarrow> enc x = Inr b"
  using round_trip canonical by blast

lemma dec_inj: "dec b = Inr x \<Longrightarrow> dec b' = Inr x \<Longrightarrow> b = b'"
  using canonical [of b x] canonical [of b' x] by simp

end

locale order_codec =
  fixes emb :: "'a::linorder \<Rightarrow> 'b::linorder"
  assumes emb_less: "emb x < emb y \<longleftrightarrow> x < y"
begin

lemma emb_le: "emb x \<le> emb y \<longleftrightarrow> x \<le> y"
  using emb_less [of y x] by (simp add: not_less [symmetric])

lemma emb_inj: "emb x = emb y \<longleftrightarrow> x = y"
  using emb_le [of x y] emb_le [of y x] by (metis order_antisym order_refl)

text \<open>A tree sorted by encodings is sorted by values, and a scan of an encoded range returns the range.\<close>

lemma sorted_emb: "sorted (map emb xs) \<longleftrightarrow> sorted xs"
  by (induction xs) (auto simp: emb_le)

lemma range_emb: "{x. emb lo \<le> emb x \<and> emb x < emb hi} = {lo..<hi}"
  by (auto simp: emb_le emb_less)

end

end
