(* ===== verification/Index_Props.thy ===== *)
theory Index_Props
  imports Index_Registry Codec
begin

text \<open>
  The index codecs provide the contracts of \<open>Codec\<close>, and the properties of the index layer's
  byte formats.
\<close>

section \<open>Contracts\<close>

interpretation key_codec: strict_codec "\<lambda>cols. Inr (EncodeKey cols) :: unit + bytes" DecodeKey
  by unfold_locales (use DecodeKey_EncodeKey DecodeKey_inv in auto)

interpretation key_order: order_codec EncodeKey
  by unfold_locales (rule EncodeKey_less)

lemma compound_loop_inv:
  "compound_loop e i = Inr r \<Longrightarrow> \<exists>j. j + 1 < length e \<and> e ! j = 0 \<and> e ! (j + 1) = 1 \<and> split_at e j = Inr r"
proof (induction e i rule: compound_loop.induct)
  case (1 e i)
  then show ?case by (subst (asm) compound_loop.simps [of e i]) (auto split: if_splits)
qed

lemma DecodeSetCompoundPK_inv:
  assumes "DecodeSetCompoundPK e = Inr (k, v)"
  shows "e = EncodeSetCompoundPK k v"
proof -
  obtain j where j: "j + 1 < length e" "e ! j = 0" "e ! (j + 1) = 1" "split_at e j = Inr (k, v)"
    using compound_loop_inv [of e 0] assms by (auto simp: DecodeSetCompoundPK_def)
  then have "take j e = escape_loop k" "drop (j + 2) e = escape_loop v"
    by (auto simp: split_at_def UnescapeColumn_iff split: sum.splits)
  moreover have "e = take j e @ e ! j # e ! (j + 1) # drop (j + 2) e"
    using j(1) id_take_nth_drop [of j e] Cons_nth_drop_Suc [of "Suc j" e] by simp
  ultimately show ?thesis using j(2,3) by (simp add: EncodeSetCompoundPK_def EscapeColumn_eq)
qed

interpretation pk_codec: strict_codec
  "\<lambda>(k, v). Inr (EncodeSetCompoundPK k v) :: unit + bytes" DecodeSetCompoundPK
  by unfold_locales (use DecodeSetCompoundPK_Encode DecodeSetCompoundPK_inv in auto)

interpretation registry_codec: codec EncodeRegistryEntry DecodeRegistryEntry
  by unfold_locales (auto simp: EncodeRegistryEntry_iff DecodeRegistryEntry_bytes)

section \<open>Properties\<close>

text \<open>
  C39. The strict key decoder accepts exactly the encodings and returns the columns that were
  encoded: for every byte string and every column tuple, decoding succeeds with that tuple if
  and only if the byte string is the tuple's encoding.
\<close>

theorem index_key_codec: "DecodeKey key = Inr cols \<longleftrightarrow> key = EncodeKey cols"
  using key_codec.dec_iff [of key cols] by auto

text \<open>
  C38. Encoded keys sort as their column tuples do, column by column and bytewise inside a column,
  for any number of columns; one encoded key is a byte prefix of another exactly when its tuple
  is a prefix of the other's, so a prefix scan returns the rows that share the leading columns.
\<close>

theorem index_key_order:
  "(EncodeKey cs < EncodeKey ds \<longleftrightarrow> cs < ds) \<and> (prefix (EncodeKey cs) (EncodeKey ds) \<longleftrightarrow> prefix cs ds) \<and>
   (sorted (map EncodeKey rows) \<longleftrightarrow> sorted rows) \<and>
   {cols. EncodeKey lo \<le> EncodeKey cols \<and> EncodeKey cols < EncodeKey hi} = {lo..<hi}"
  using key_order.emb_less EncodeKey_prefix key_order.sorted_emb key_order.range_emb by blast

text \<open>
  A non-unique index of a set keyspace: from the index key of a row, extraction with the
  declared number of columns returns the compound primary key, which decodes to the row's set key
  and member, whatever zero bytes the columns, the key or the member contain.
\<close>

theorem set_entry_key_extract:
  assumes "cols \<noteq> []"
  shows "bind_res (ExtractSetCompoundPK (EncodeSetEntryKey cols k v False) (length cols))
    DecodeSetCompoundPK = Inr (k, v)"
  using ExtractSetCompoundPK_Encode [OF assms] DecodeSetCompoundPK_Encode by simp

theorem set_entry_key_extract_witness:
  "bind_res (ExtractSetCompoundPK (EncodeSetEntryKey [[0, 7], []] [0] [1, 0] False) 2)
     DecodeSetCompoundPK = Inr ([0], [1, 0])"
  using set_entry_key_extract [of "[[0, 7], []]" "[0]" "[1, 0]"] by (simp add: numeral_2_eq_2)

text \<open>
  A compound primary key decodes to a pair exactly when it is the encoding of that pair, so the
  separator is unambiguous.
\<close>

theorem set_compound_codec: "DecodeSetCompoundPK e = Inr (k, v) \<longleftrightarrow> e = EncodeSetCompoundPK k v"
  using pk_codec.dec_iff [of e "(k, v)"] by auto

text \<open>
  The value of a unique-index entry decodes to the row's primary key and the encoded covering
  columns, for every key length and covering payload a byte slice can have.
\<close>

theorem unique_value_round_trip:
  assumes "length pk < 2 ^ 64" "length (EntryValue e pk True c) < 2 ^ 64"
  shows "DecodeUniqueValue (EntryValue e pk True c) =
    Inr (pk, if c \<and> Cover e \<noteq> [] then EncodeKey (Cover e) else [])"
  by (rule DecodeUniqueValue_EntryValue [OF assms])

theorem unique_value_round_trip_witness:
  "DecodeUniqueValue (EntryValue \<lparr>Cols = [], Cover = [[5]]\<rparr> [1, 2] True True) = Inr ([1, 2], [5, 0, 0])"
  using unique_value_round_trip [of "[1, 2]" "\<lparr>Cols = [], Cover = [[5]]\<rparr>" True]
  by (simp add: EntryValue_def PutUvarint.simps [of "Suc (Suc 0)"])

text \<open>
  C40. The drift guard's hash input is injective: two declarations that feed the same bytes to the
  hash have the same name, columns, covering columns, uniqueness, kind and kind parameters.
\<close>

theorem schema_hash_input_injective:
  assumes "schema_input n cols cov u k ps = schema_input n' cols' cov' u' k' ps'"
    and "\<forall>s \<in> {n, n', ps, ps'} \<union> set (cols @ cols' @ cov @ cov'). length s < 2 ^ 64"
    and "length cols < 2 ^ 64" "length cols' < 2 ^ 64" "length cov < 2 ^ 64" "length cov' < 2 ^ 64"
  shows "n = n' \<and> cols = cols' \<and> cov = cov' \<and> u = u' \<and> k = k' \<and> ps = ps'"
  by (rule schema_input_inj [OF assms])

theorem schema_hash_input_injective_witness:
  "schema_input [97, 98] [[]] [[]] True 0 [] \<noteq> schema_input [97, 98, 1] [] [[]] True 0 []"
  using schema_hash_input_injective [of "[97, 98]" "[[]]" "[[]]" True 0 "[]" "[97, 98, 1]" "[]" "[[]]" True 0 "[]"]
  by fastforce

text \<open>
  Registry rows: a row the encoder accepts decodes to the entry it came from, an entry is
  accepted exactly when its fields fit their length prefixes and a composite entry carries no
  payload, and whatever the decoder accepts can be encoded again and then decodes to the same
  entry.
\<close>

theorem registry_round_trip:
  "(EncodeRegistryEntry e = Inr data \<longrightarrow> DecodeRegistryEntry data = Inr e) \<and>
   ((\<exists>data. EncodeRegistryEntry e = Inr data) \<longleftrightarrow> registry_encodable e) \<and>
   (DecodeRegistryEntry data' = Inr e \<longrightarrow>
      (\<exists>data. EncodeRegistryEntry e = Inr data \<and> DecodeRegistryEntry data = Inr e))"
  using registry_codec.round_trip [of e] DecodeRegistryEntry_encodable [of data' e]
  by (auto simp: EncodeRegistryEntry_iff)

definition demo_entry :: RegistryEntry where
  "demo_entry = \<lparr>re_SchemaHash = 7, re_Unique = True, re_Kind = 0, re_Root = 12, re_Count = 3,
     re_UserVersion = [118], re_Columns = [[97], [98, 99]], re_Covering = [[]], re_KindPayload = []\<rparr>"

theorem registry_round_trip_witness:
  "registry_encodable demo_entry \<and> DecodeRegistryEntry (registry_bytes demo_entry) = Inr demo_entry"
proof -
  have "registry_encodable demo_entry"
    by (simp add: demo_entry_def registry_encodable_def MaxUint16_def MaxUint32_def)
  then show ?thesis
    using registry_round_trip [of demo_entry "registry_bytes demo_entry" "[]"]
    by (simp add: EncodeRegistryEntry_iff)
qed

text \<open>
  Index maintenance on a replaced row: the diff of the old and the new entry sets lists, in
  strictly increasing order and independently of map iteration order, exactly the keys to delete,
  to insert, and (when covering values are rewritten) to update; applying it to the old key set
  gives the new one.
\<close>

theorem diff_entry_sets_correct:
  assumes "distinct (map fst olds)" "distinct (map fst news)"
    "DiffEntrySets olds news unique cr pk = (dels, ins, upds)"
  shows "(set dels, set ins, set upds) = diff_spec (map_of olds) (map_of news) unique cr pk \<and>
    sorted_wrt (<) dels \<and> sorted_wrt (<) ins \<and> sorted_wrt (<) upds \<and>
    (fst ` set olds - set dels) \<union> set ins = fst ` set news"
proof -
  note s = DiffEntrySets_spec [OF assms]
  have "(fst ` set olds - set dels) \<union> set ins = fst ` set news"
    using s(1) by (auto simp: diff_spec_def simp flip: dom_map_of_conv_image_fst)
  then show ?thesis using s by blast
qed

theorem diff_entry_sets_correct_witness:
  "\<exists>upds. DiffEntrySets [([2], \<lparr>Cols = [[2]], Cover = []\<rparr>), ([1], \<lparr>Cols = [[1]], Cover = []\<rparr>)]
     [([3], \<lparr>Cols = [[3]], Cover = []\<rparr>), ([1], \<lparr>Cols = [[1]], Cover = []\<rparr>)] False True [] = ([[2]], [[3]], upds) \<and>
     sorted_wrt (<) upds"
proof -
  let ?o = "[([2], \<lparr>Cols = [[2]], Cover = []\<rparr>), ([1], \<lparr>Cols = [[1]], Cover = []\<rparr>)] :: (bytes \<times> Entry) list"
  let ?n = "[([3], \<lparr>Cols = [[3]], Cover = []\<rparr>), ([1], \<lparr>Cols = [[1]], Cover = []\<rparr>)] :: (bytes \<times> Entry) list"
  obtain d i u where e: "DiffEntrySets ?o ?n False True [] = (d, i, u)" by (metis prod_cases3)
  have "d = [[2]]" "i = [[3]]" using e by (auto simp: DiffEntrySets_def Let_def)
  then show ?thesis using diff_entry_sets_correct [OF _ _ e] e by simp
qed

end
