(* ===== verification/Page_Base.thy ===== *)
theory Page_Base
  imports Gmdb_Prelude "HOL-Library.Signed_Division"
begin

text \<open>
  The page base, \<^verbatim>\<open>src/internal/page/page.go\<close>: page types, the configuration and its derived sizes,
  the common header and the checksum footer. The XXH3-64 function is a parameter \<open>xxh3\<close>; a Go
  panic is an error value.
\<close>

section \<open>Definitions\<close>

definition TypeBranch :: byte where "TypeBranch = 1"
definition TypeLeaf :: byte where "TypeLeaf = 2"
definition TypeOverflow :: byte where "TypeOverflow = 3"
definition TypeRPLSegment :: byte where "TypeRPLSegment = 4"
definition TypeLeafUncompressed :: byte where "TypeLeafUncompressed = 5"
definition TypeLeafSegregated :: byte where "TypeLeafSegregated = 6"
definition TypeBranchSegregated :: byte where "TypeBranchSegregated = 7"

lemmas page_types = TypeBranch_def TypeLeaf_def TypeOverflow_def TypeRPLSegment_def
  TypeLeafUncompressed_def TypeLeafSegregated_def TypeBranchSegregated_def

definition IsBranchType :: "byte \<Rightarrow> bool" where
  "IsBranchType typ \<longleftrightarrow> typ = TypeBranch \<or> typ = TypeBranchSegregated"

definition IsLeafType :: "byte \<Rightarrow> bool" where
  "IsLeafType typ \<longleftrightarrow> typ = TypeLeaf \<or> typ = TypeLeafUncompressed \<or> typ = TypeLeafSegregated"

definition Magic :: u32 where "Magic = 0x62646D67"
definition FormatVersion :: u32 where "FormatVersion = 4"
definition MinPageSize :: u32 where "MinPageSize = 4096"
definition MaxPageSize :: u32 where "MaxPageSize = 65536"
definition HeaderSize :: nat where "HeaderSize = 8"
definition FooterSize :: nat where "FooterSize = 8"

definition ValidPageSize :: "u32 \<Rightarrow> bool" where
  "ValidPageSize sz =
     (if sz < MinPageSize \<or> sz > MaxPageSize then False else sz AND (sz - 1) = 0)"

definition DefaultRestartGroupTarget :: u16 where "DefaultRestartGroupTarget = 6"
definition MaxRestartGroupTarget :: u16 where "MaxRestartGroupTarget = 255"
definition LeafLayoutInterleaved :: byte where "LeafLayoutInterleaved = 1"
definition LeafLayoutSegregated :: byte where "LeafLayoutSegregated = 2"
definition BranchLayoutPlain :: byte where "BranchLayoutPlain = 1"
definition BranchLayoutSegregated :: byte where "BranchLayoutSegregated = 2"

record Config =
  PageSize :: u32
  PageChecksum :: bool
  RestartGroupTarget :: u16
  LeafLayout :: byte
  BranchLayout :: byte

datatype page_err =
    InvalidPageSize u32 | TargetTooLarge u16 | UnknownLeafLayout byte | UnknownBranchLayout byte
  | PanicConfig page_err | PanicBounds | PanicChecksumLen nat u32 | PanicBufLen nat u32
  | PanicOverflow nat nat

definition EffectiveRestartGroupTarget :: "Config \<Rightarrow> u16" where
  "EffectiveRestartGroupTarget c =
     (if RestartGroupTarget c = 0 then DefaultRestartGroupTarget else RestartGroupTarget c)"

definition EffectiveLeafType :: "Config \<Rightarrow> byte" where
  "EffectiveLeafType c =
     (if EffectiveRestartGroupTarget c = 1 then TypeLeafUncompressed
      else if LeafLayout c = LeafLayoutInterleaved then TypeLeaf
      else TypeLeafSegregated)"

definition EffectiveBranchType :: "Config \<Rightarrow> byte" where
  "EffectiveBranchType c =
     (if BranchLayout c = BranchLayoutPlain then TypeBranch else TypeBranchSegregated)"

definition Validate :: "Config \<Rightarrow> page_err option" where
  "Validate c =
     (if \<not> ValidPageSize (PageSize c) then Some (InvalidPageSize (PageSize c))
      else if RestartGroupTarget c > MaxRestartGroupTarget then Some (TargetTooLarge (RestartGroupTarget c))
      else if LeafLayout c > LeafLayoutSegregated then Some (UnknownLeafLayout (LeafLayout c))
      else if BranchLayout c > BranchLayoutSegregated then Some (UnknownBranchLayout (BranchLayout c))
      else None)"

definition MustValidate :: "Config \<Rightarrow> page_err + unit" where
  "MustValidate c = (case Validate c of Some e \<Rightarrow> Inl (PanicConfig e) | None \<Rightarrow> Inr ())"

definition ContentEnd :: "Config \<Rightarrow> int" where
  "ContentEnd c = (if PageChecksum c then uint (PageSize c) - int FooterSize else uint (PageSize c))"

definition UsableSpace :: "Config \<Rightarrow> int" where
  "UsableSpace c = ContentEnd c - int HeaderSize"

definition InlineThreshold :: "Config \<Rightarrow> int" where
  "InlineThreshold c = (ContentEnd c - 68) sdiv 2"

definition ReadHeader :: "bytes \<Rightarrow> page_err + byte \<times> byte \<times> u16 \<times> u32" where
  "ReadHeader buf =
     (if length buf < HeaderSize then Inl PanicBounds
      else Inr (buf ! 0, buf ! 1, Uint16 buf 2, Uint32 buf 4))"

definition WriteHeader :: "bytes \<Rightarrow> byte \<Rightarrow> u16 \<Rightarrow> u32 \<Rightarrow> page_err + bytes" where
  "WriteHeader buf typ count additional =
     (if length buf < HeaderSize then Inl PanicBounds
      else Inr (PutUint32 (PutUint16 (PutUint8 (PutUint8 buf 0 typ) 1 0) 2 count) 4 additional))"

definition ComputePageChecksum :: "(bytes \<Rightarrow> u64) \<Rightarrow> bytes \<Rightarrow> u32 \<Rightarrow> page_err + u64" where
  "ComputePageChecksum xxh3 buf pageSize =
     (if length buf \<noteq> unat pageSize then Inl (PanicChecksumLen (length buf) pageSize)
      else if unat pageSize < FooterSize then Inl PanicBounds
      else Inr (xxh3 (take (unat pageSize - FooterSize) buf)))"

definition WritePageFooter :: "(bytes \<Rightarrow> u64) \<Rightarrow> bytes \<Rightarrow> u32 \<Rightarrow> page_err + bytes" where
  "WritePageFooter xxh3 buf pageSize =
     bind_res (ComputePageChecksum xxh3 buf pageSize) (\<lambda>c.
       Inr (PutUint64 buf (unat pageSize - FooterSize) c))"

definition VerifyPageFooter :: "(bytes \<Rightarrow> u64) \<Rightarrow> bytes \<Rightarrow> u32 \<Rightarrow> page_err + bool" where
  "VerifyPageFooter xxh3 buf pageSize =
     bind_res (ComputePageChecksum xxh3 buf pageSize) (\<lambda>want.
       Inr (want = Uint64 buf (unat pageSize - FooterSize)))"

section \<open>Lemmas\<close>

lemma ValidPageSize_bounds:
  assumes "ValidPageSize sz"
  shows "4096 \<le> unat sz" "unat sz \<le> 65536"
  using assms by (auto simp: ValidPageSize_def MinPageSize_def MaxPageSize_def not_less
      word_le_nat_alt split: if_splits)

lemma Validate_None:
  "Validate c = None \<Longrightarrow> ValidPageSize (PageSize c) \<and> RestartGroupTarget c \<le> 255 \<and>
     LeafLayout c \<le> 2 \<and> BranchLayout c \<le> 2"
  by (auto simp: Validate_def MaxRestartGroupTarget_def LeafLayoutSegregated_def
      BranchLayoutSegregated_def not_less split: if_splits)

lemma ContentEnd_bounds:
  assumes "ValidPageSize (PageSize c)"
  shows "4088 \<le> ContentEnd c" "ContentEnd c \<le> uint (PageSize c)"
proof -
  have "4096 \<le> int (unat (PageSize c))" using ValidPageSize_bounds(1) [OF assms] by linarith
  then have "4096 \<le> uint (PageSize c)" by simp
  then show "4088 \<le> ContentEnd c" "ContentEnd c \<le> uint (PageSize c)"
    by (simp_all add: ContentEnd_def FooterSize_def)
qed

lemma nat_ContentEnd:
  assumes "ValidPageSize (PageSize c)"
  shows "nat (ContentEnd c) = (if PageChecksum c then unat (PageSize c) - 8 else unat (PageSize c))"
proof -
  define n where "n = unat (PageSize c)"
  have u: "uint (PageSize c) = int n" by (simp add: n_def)
  have "8 \<le> n" using ValidPageSize_bounds(1) [OF assms] by (simp add: n_def)
  then have "nat (int n - int 8) = n - 8" by (simp only: of_nat_diff [symmetric] nat_int)
  then show ?thesis unfolding ContentEnd_def u FooterSize_def n_def [symmetric] by simp
qed

lemma header_round_trip:
  assumes "8 \<le> length buf"
  shows "\<exists>buf'. WriteHeader buf typ count additional = Inr buf' \<and> length buf' = length buf \<and>
    ReadHeader buf' = Inr (typ, 0, count, additional) \<and> drop 8 buf' = drop 8 buf"
proof -
  let ?b = "PutUint32 (PutUint16 (PutUint8 (PutUint8 buf 0 typ) 1 0) 2 count) 4 additional"
  have "drop 8 ?b = drop 8 buf"
    using assms by (simp add: PutUint8_def PutUint16_def PutUint32_def overwrite_def)
  moreover have "ReadHeader ?b = Inr (typ, 0, count, additional)" "length ?b = length buf"
    using assms by (simp_all add: ReadHeader_def HeaderSize_def PutUint8_def PutUint16_def
        PutUint32_def codec_simps del: le_bytes.simps)
  ultimately show ?thesis using assms by (simp add: WriteHeader_def HeaderSize_def)
qed

lemma footer_round_trip:
  assumes "length buf = unat ps" "8 \<le> unat ps"
  shows "\<exists>buf'. WritePageFooter xxh3 buf ps = Inr buf' \<and> length buf' = length buf \<and>
    take (unat ps - 8) buf' = take (unat ps - 8) buf \<and> VerifyPageFooter xxh3 buf' ps = Inr True"
proof -
  let ?b = "PutUint64 buf (unat ps - 8) (xxh3 (take (unat ps - 8) buf))"
  have l: "length ?b = length buf" using assms by (simp add: PutUint64_def)
  have t: "take (unat ps - 8) ?b = take (unat ps - 8) buf"
    using assms by (simp add: PutUint64_def overwrite_def)
  have "Uint64 ?b (unat ps - 8) = xxh3 (take (unat ps - 8) buf)"
    using assms by (simp add: PutUint64_def Uint64_overwrite del: le_bytes.simps)
  then show ?thesis
    using assms l t by (simp add: WritePageFooter_def VerifyPageFooter_def ComputePageChecksum_def FooterSize_def)
qed

lemma VerifyPageFooter_iff:
  assumes "length buf = unat ps" "8 \<le> unat ps"
  shows "VerifyPageFooter xxh3 buf ps = Inr True \<longleftrightarrow>
    buf = take (unat ps - 8) buf @ le_bytes 8 (unat (xxh3 (take (unat ps - 8) buf)))"
proof -
  define n where "n = unat ps - 8"
  have n: "unat ps = n + 8" using assms(2) by (simp add: n_def)
  have split: "buf = take n buf @ drop n buf" and len: "length (drop n buf) = 8"
    using assms n by simp_all
  have f: "field buf n 8 = drop n buf" using len by (simp add: field_def)
  have b: "le_bytes 8 (unat (Uint64 buf n)) = drop n buf"
    using le_bytes_word [of "drop n buf", where ?'a = 64] len by (simp add: Uint64_def f)
  have "xxh3 (take n buf) = Uint64 buf n \<longleftrightarrow> drop n buf = le_bytes 8 (unat (xxh3 (take n buf)))"
    using b word_le_bytes [of 8 "xxh3 (take n buf)"] by (auto simp: Uint64_def f)
  then show ?thesis
    using assms split n
    by (simp add: VerifyPageFooter_def ComputePageChecksum_def FooterSize_def) (metis append_eq_conv_conj append_take_drop_id)
qed

end
