(* ===== verification/Meta.thy ===== *)
theory Meta
  imports Page_Base
begin

text \<open>
  The dual meta pages, \<^verbatim>\<open>src/internal/pager/meta.go\<close>: the 232-byte payload, its checksum, validation
  of a decoded payload, and the selection of the active one of the two.
\<close>

section \<open>Definitions\<close>

definition MetaFlagPageChecksum :: u32 where "MetaFlagPageChecksum = 1"
definition MetaFlagKnownMask :: u32 where "MetaFlagKnownMask = MetaFlagPageChecksum"
definition MetaPayloadSize :: nat where "MetaPayloadSize = 232"
definition metaOffTxnID :: nat where "metaOffTxnID = 136"
definition metaOffChecksum :: nat where "metaOffChecksum = 224"

record DurableSubRecord =
  d_TxnID :: u64
  d_AnchoredTxnID :: u64
  d_HighWaterMark :: u64
  d_RPLHeadPage :: u64
  d_RPLHeadTxnID :: u64
  d_RPLTailPage :: u64
  d_RPLEntryCount :: u64
  d_NumFreePages :: u64
  d_KeyspaceRoot :: u64
  d_NumKeyspaces :: u64

record Meta =
  m_Magic :: u32
  m_Version :: u32
  m_PageSize :: u32
  m_Flags :: u32
  m_BitmapPages :: u32
  m_UUID :: bytes
  m_MinSize :: u64
  m_MaxSize :: u64
  m_GrowStep :: u64
  m_ShrinkThreshold :: u64
  m_HighWaterMark :: u64
  m_RPLHeadPage :: u64
  m_RPLHeadTxnID :: u64
  m_RPLTailPage :: u64
  m_RPLEntryCount :: u64
  m_NumFreePages :: u64
  m_KeyspaceRoot :: u64
  m_NumKeyspaces :: u64
  m_TxnID :: u64
  m_Durable :: DurableSubRecord
  m_Checksum :: u64

definition SelfDurable :: "Meta \<Rightarrow> bool" where
  "SelfDurable m = (d_TxnID (m_Durable m) = m_TxnID m)"

definition LiveSubRecord :: "Meta \<Rightarrow> DurableSubRecord" where
  "LiveSubRecord m =
     \<lparr>d_TxnID = m_TxnID m, d_AnchoredTxnID = 0, d_HighWaterMark = m_HighWaterMark m,
      d_RPLHeadPage = m_RPLHeadPage m, d_RPLHeadTxnID = m_RPLHeadTxnID m,
      d_RPLTailPage = m_RPLTailPage m, d_RPLEntryCount = m_RPLEntryCount m,
      d_NumFreePages = m_NumFreePages m, d_KeyspaceRoot = m_KeyspaceRoot m,
      d_NumKeyspaces = m_NumKeyspaces m\<rparr>"

definition HasFlag :: "Meta \<Rightarrow> u32 \<Rightarrow> bool" where
  "HasFlag m bits = (m_Flags m AND bits = bits)"

definition decode_durable :: "bytes \<Rightarrow> DurableSubRecord" where
  "decode_durable buf =
     \<lparr>d_TxnID = Uint64 buf 144, d_AnchoredTxnID = Uint64 buf 152, d_HighWaterMark = Uint64 buf 160,
      d_RPLHeadPage = Uint64 buf 168, d_RPLHeadTxnID = Uint64 buf 176, d_RPLTailPage = Uint64 buf 184,
      d_RPLEntryCount = Uint64 buf 192, d_NumFreePages = Uint64 buf 200,
      d_KeyspaceRoot = Uint64 buf 208, d_NumKeyspaces = Uint64 buf 216\<rparr>"

definition DecodeMeta :: "bytes \<Rightarrow> page_err + Meta" where
  "DecodeMeta buf =
     (if length buf < MetaPayloadSize then Inl PanicBounds
      else Inr \<lparr>m_Magic = Uint32 buf 0, m_Version = Uint32 buf 4, m_PageSize = Uint32 buf 8,
        m_Flags = Uint32 buf 12, m_BitmapPages = Uint32 buf 16, m_UUID = field buf 24 16,
        m_MinSize = Uint64 buf 40, m_MaxSize = Uint64 buf 48, m_GrowStep = Uint64 buf 56,
        m_ShrinkThreshold = Uint64 buf 64, m_HighWaterMark = Uint64 buf 72,
        m_RPLHeadPage = Uint64 buf 80, m_RPLHeadTxnID = Uint64 buf 88, m_RPLTailPage = Uint64 buf 96,
        m_RPLEntryCount = Uint64 buf 104, m_NumFreePages = Uint64 buf 112,
        m_KeyspaceRoot = Uint64 buf 120, m_NumKeyspaces = Uint64 buf 128, m_TxnID = Uint64 buf 136,
        m_Durable = decode_durable buf, m_Checksum = Uint64 buf 224\<rparr>)"

definition encode_durable :: "bytes \<Rightarrow> DurableSubRecord \<Rightarrow> bytes" where
  "encode_durable buf d =
     (let buf = PutUint64 buf 144 (d_TxnID d);
          buf = PutUint64 buf 152 (d_AnchoredTxnID d);
          buf = PutUint64 buf 160 (d_HighWaterMark d);
          buf = PutUint64 buf 168 (d_RPLHeadPage d);
          buf = PutUint64 buf 176 (d_RPLHeadTxnID d);
          buf = PutUint64 buf 184 (d_RPLTailPage d);
          buf = PutUint64 buf 192 (d_RPLEntryCount d);
          buf = PutUint64 buf 200 (d_NumFreePages d);
          buf = PutUint64 buf 208 (d_KeyspaceRoot d)
      in PutUint64 buf 216 (d_NumKeyspaces d))"

definition ComputeMetaChecksum :: "(bytes \<Rightarrow> u64) \<Rightarrow> bytes \<Rightarrow> u64" where
  "ComputeMetaChecksum xxh3 buf = xxh3 (take metaOffChecksum buf)"

text \<open>The result is the buffer and the meta with its checksum field updated.\<close>

definition EncodeMeta :: "(bytes \<Rightarrow> u64) \<Rightarrow> bytes \<Rightarrow> Meta \<Rightarrow> page_err + bytes \<times> Meta" where
  "EncodeMeta xxh3 buf m =
     (if length buf < MetaPayloadSize then Inl PanicBounds
      else
        let buf = PutUint32 buf 0 (m_Magic m);
            buf = PutUint32 buf 4 (m_Version m);
            buf = PutUint32 buf 8 (m_PageSize m);
            buf = PutUint32 buf 12 (m_Flags m);
            buf = PutUint32 buf 16 (m_BitmapPages m);
            buf = clear_range buf 20 24;
            buf = overwrite buf 24 (m_UUID m);
            buf = PutUint64 buf 40 (m_MinSize m);
            buf = PutUint64 buf 48 (m_MaxSize m);
            buf = PutUint64 buf 56 (m_GrowStep m);
            buf = PutUint64 buf 64 (m_ShrinkThreshold m);
            buf = PutUint64 buf 72 (m_HighWaterMark m);
            buf = PutUint64 buf 80 (m_RPLHeadPage m);
            buf = PutUint64 buf 88 (m_RPLHeadTxnID m);
            buf = PutUint64 buf 96 (m_RPLTailPage m);
            buf = PutUint64 buf 104 (m_RPLEntryCount m);
            buf = PutUint64 buf 112 (m_NumFreePages m);
            buf = PutUint64 buf 120 (m_KeyspaceRoot m);
            buf = PutUint64 buf 128 (m_NumKeyspaces m);
            buf = PutUint64 buf 136 (m_TxnID m);
            buf = encode_durable buf (m_Durable m);
            sum = ComputeMetaChecksum xxh3 buf
        in Inr (PutUint64 buf 224 sum, m\<lparr>m_Checksum := sum\<rparr>))"

datatype meta_err = MagicMismatch u32 | VersionMismatch u32 | MetaPageSizeInvalid u32 | UnknownFlags u32

definition ValidateMeta :: "Meta \<Rightarrow> meta_err option" where
  "ValidateMeta m =
     (if m_Magic m \<noteq> Magic then Some (MagicMismatch (m_Magic m))
      else if m_Version m \<noteq> FormatVersion then Some (VersionMismatch (m_Version m))
      else if \<not> ValidPageSize (m_PageSize m) then Some (MetaPageSizeInvalid (m_PageSize m))
      else let unknown = m_Flags m AND NOT MetaFlagKnownMask in
        if unknown \<noteq> 0 then Some (UnknownFlags unknown) else None)"

definition VerifyMeta :: "(bytes \<Rightarrow> u64) \<Rightarrow> bytes \<Rightarrow> page_err + bool" where
  "VerifyMeta xxh3 buf =
     (if length buf < MetaPayloadSize then Inl PanicBounds
      else Inr (ComputeMetaChecksum xxh3 buf = Uint64 buf metaOffChecksum))"

definition pickHighestTxnID :: "u64 \<Rightarrow> u64 \<Rightarrow> nat \<times> bool" where
  "pickHighestTxnID txn0 txn1 =
     (if txn1 > txn0 then (1, True)
      else if txn0 > txn1 then (0, True)
      else if txn0 = 0 then (0, True)
      else (0, False))"

definition ActiveMeta :: "(bytes \<Rightarrow> u64) \<Rightarrow> bytes \<Rightarrow> bytes \<Rightarrow> page_err + nat \<times> bool" where
  "ActiveMeta xxh3 meta0 meta1 =
     bind_res (VerifyMeta xxh3 meta0) (\<lambda>ok0.
     bind_res (VerifyMeta xxh3 meta1) (\<lambda>ok1. Inr (
       if ok0 \<and> ok1 then pickHighestTxnID (Uint64 meta0 metaOffTxnID) (Uint64 meta1 metaOffTxnID)
       else if ok0 then (0, True)
       else if ok1 then (1, True)
       else (0, False))))"

section \<open>The payload as one write\<close>

definition durable_fields :: "DurableSubRecord \<Rightarrow> bytes list" where
  "durable_fields d =
     [le_bytes 8 (unat (d_TxnID d)), le_bytes 8 (unat (d_AnchoredTxnID d)),
      le_bytes 8 (unat (d_HighWaterMark d)), le_bytes 8 (unat (d_RPLHeadPage d)),
      le_bytes 8 (unat (d_RPLHeadTxnID d)), le_bytes 8 (unat (d_RPLTailPage d)),
      le_bytes 8 (unat (d_RPLEntryCount d)), le_bytes 8 (unat (d_NumFreePages d)),
      le_bytes 8 (unat (d_KeyspaceRoot d)), le_bytes 8 (unat (d_NumKeyspaces d))]"

definition live_fields :: "Meta \<Rightarrow> bytes list" where
  "live_fields m =
     [le_bytes 4 (unat (m_Magic m)), le_bytes 4 (unat (m_Version m)), le_bytes 4 (unat (m_PageSize m)),
      le_bytes 4 (unat (m_Flags m)), le_bytes 4 (unat (m_BitmapPages m)), replicate 4 0, m_UUID m,
      le_bytes 8 (unat (m_MinSize m)), le_bytes 8 (unat (m_MaxSize m)),
      le_bytes 8 (unat (m_GrowStep m)), le_bytes 8 (unat (m_ShrinkThreshold m)),
      le_bytes 8 (unat (m_HighWaterMark m)), le_bytes 8 (unat (m_RPLHeadPage m)),
      le_bytes 8 (unat (m_RPLHeadTxnID m)), le_bytes 8 (unat (m_RPLTailPage m)),
      le_bytes 8 (unat (m_RPLEntryCount m)), le_bytes 8 (unat (m_NumFreePages m)),
      le_bytes 8 (unat (m_KeyspaceRoot m)), le_bytes 8 (unat (m_NumKeyspaces m)),
      le_bytes 8 (unat (m_TxnID m))]"

definition meta_prefix :: "Meta \<Rightarrow> bytes" where
  "meta_prefix m = concat (live_fields m) @ concat (durable_fields (m_Durable m))"

lemma put_all_append: "put_all buf off (xs @ ys) = put_all (put_all buf off xs) (off + length (concat xs)) ys"
  by (induction xs arbitrary: buf off) (simp_all add: add.assoc)

lemma encode_durable_put: "encode_durable buf d = put_all buf 144 (durable_fields d)"
  by (simp add: encode_durable_def durable_fields_def Let_def PutUint64_def del: le_bytes.simps)

lemma length_meta_prefix: "length (m_UUID m) = 16 \<Longrightarrow> length (meta_prefix m) = 224"
  by (simp add: meta_prefix_def live_fields_def durable_fields_def del: le_bytes.simps)

lemma EncodeMeta_eq:
  assumes "232 \<le> length buf" "length (m_UUID m) = 16"
  shows "EncodeMeta xxh3 buf m =
    Inr (meta_prefix m @ le_bytes 8 (unat (xxh3 (meta_prefix m))) @ drop 232 buf,
         m\<lparr>m_Checksum := xxh3 (meta_prefix m)\<rparr>)"
proof -
  have l144: "length (concat (live_fields m)) = 144"
    using assms(2) by (simp add: live_fields_def del: le_bytes.simps)
  have fields: "put_all buf 0 (live_fields m @ durable_fields (m_Durable m)) = overwrite buf 0 (meta_prefix m)"
    using assms length_meta_prefix [of m] unfolding meta_prefix_def
    by (subst put_all_concat) simp_all
  have w: "overwrite buf 0 (meta_prefix m) = meta_prefix m @ drop 224 buf"
    using assms length_meta_prefix [of m] by (simp add: overwrite_0)
  have e: "EncodeMeta xxh3 buf m =
      (let b = put_all buf 0 (live_fields m @ durable_fields (m_Durable m)); sum = ComputeMetaChecksum xxh3 b
       in Inr (PutUint64 b 224 sum, m\<lparr>m_Checksum := sum\<rparr>))"
    unfolding put_all_append l144 using assms
    by (simp add: EncodeMeta_def MetaPayloadSize_def encode_durable_put live_fields_def Let_def
        PutUint32_def PutUint64_def clear_range_def del: le_bytes.simps)
  show ?thesis
    unfolding e fields w using assms length_meta_prefix [OF assms(2)]
    by (simp add: Let_def ComputeMetaChecksum_def metaOffChecksum_def PutUint64_def overwrite_def
        del: le_bytes.simps)
qed

section \<open>Round trip\<close>

lemma decode_durable_prefix:
  assumes "length (m_UUID m) = 16"
  shows "decode_durable (meta_prefix m @ rest) = m_Durable m"
proof -
  have l: "length (concat (live_fields m)) = 144"
    using assms by (simp add: live_fields_def del: le_bytes.simps)
  have "drop 144 (meta_prefix m @ rest) = concat (durable_fields (m_Durable m)) @ rest"
    by (simp add: meta_prefix_def l)
  then have d: "drop (144 + n) (meta_prefix m @ rest) = drop n (concat (durable_fields (m_Durable m)) @ rest)" for n
    by (metis add.commute drop_drop)
  have u: "Uint64 (meta_prefix m @ rest) (144 + n) = Uint64 (concat (durable_fields (m_Durable m)) @ rest) n" for n
    by (simp only: Uint64_def field_def d)
  show ?thesis
    using u [of 0] u [of 8] u [of 16] u [of 24] u [of 32] u [of 40] u [of 48] u [of 56] u [of 64] u [of 72]
    by (simp add: decode_durable_def durable_fields_def Uint64_def field_def word_le_bytes del: le_bytes.simps)
qed

lemma DecodeMeta_prefix:
  assumes "length (m_UUID m) = 16"
  shows "DecodeMeta (meta_prefix m @ le_bytes 8 (unat s) @ rest) = Inr (m\<lparr>m_Checksum := s\<rparr>)"
proof -
  let ?d = "concat (durable_fields (m_Durable m)) @ le_bytes 8 (unat s) @ rest"
  let ?b = "meta_prefix m @ le_bytes 8 (unat s) @ rest"
  have b: "?b = concat (live_fields m) @ ?d" by (simp add: meta_prefix_def)
  note l = length_meta_prefix [OF assms]
  have c: "Uint64 ?b 224 = s" by (rule Uint64_drop [of _ _ _ rest]) (simp add: l)
  have live: "Uint32 ?b 0 = m_Magic m" "Uint32 ?b 4 = m_Version m" "Uint32 ?b 8 = m_PageSize m"
    "Uint32 ?b 12 = m_Flags m" "Uint32 ?b 16 = m_BitmapPages m" "field ?b 24 16 = m_UUID m"
    "Uint64 ?b 40 = m_MinSize m" "Uint64 ?b 48 = m_MaxSize m" "Uint64 ?b 56 = m_GrowStep m"
    "Uint64 ?b 64 = m_ShrinkThreshold m" "Uint64 ?b 72 = m_HighWaterMark m" "Uint64 ?b 80 = m_RPLHeadPage m"
    "Uint64 ?b 88 = m_RPLHeadTxnID m" "Uint64 ?b 96 = m_RPLTailPage m" "Uint64 ?b 104 = m_RPLEntryCount m"
    "Uint64 ?b 112 = m_NumFreePages m" "Uint64 ?b 120 = m_KeyspaceRoot m" "Uint64 ?b 128 = m_NumKeyspaces m"
    "Uint64 ?b 136 = m_TxnID m"
    unfolding b live_fields_def using assms
    by (simp_all add: Uint32_def Uint64_def field_def word_le_bytes del: le_bytes.simps)
  show ?thesis
    using c decode_durable_prefix [OF assms] l
    by (simp add: DecodeMeta_def MetaPayloadSize_def live)
qed

lemma VerifyMeta_prefix:
  assumes "length (m_UUID m) = 16"
  shows "VerifyMeta xxh3 (meta_prefix m @ le_bytes 8 (unat (xxh3 (meta_prefix m))) @ rest) = Inr True"
proof -
  note l = length_meta_prefix [OF assms]
  have "Uint64 (meta_prefix m @ le_bytes 8 (unat (xxh3 (meta_prefix m))) @ rest) 224 = xxh3 (meta_prefix m)"
    by (rule Uint64_drop [of _ _ _ rest]) (simp add: l)
  then show ?thesis
    using l by (simp add: VerifyMeta_def MetaPayloadSize_def metaOffChecksum_def ComputeMetaChecksum_def)
qed

lemma meta_TxnID_at:
  assumes "length (m_UUID m) = 16"
  shows "Uint64 (meta_prefix m @ rest) 136 = m_TxnID m"
  unfolding meta_prefix_def live_fields_def using assms
  by (simp add: Uint64_def field_def word_le_bytes del: le_bytes.simps)

text \<open>What a successful encode establishes, in one lemma.\<close>

definition written_meta :: "(bytes \<Rightarrow> u64) \<Rightarrow> Meta \<Rightarrow> bytes \<Rightarrow> bool" where
  "written_meta xxh3 m buf \<longleftrightarrow>
     DecodeMeta buf = Inr (m\<lparr>m_Checksum := xxh3 (meta_prefix m)\<rparr>) \<and> VerifyMeta xxh3 buf = Inr True \<and>
     Uint64 buf metaOffTxnID = m_TxnID m \<and> 232 \<le> length buf"

lemma encode_meta_ok:
  assumes "232 \<le> length buf" "length (m_UUID m) = 16"
  shows "\<exists>buf'. EncodeMeta xxh3 buf m = Inr (buf', m\<lparr>m_Checksum := xxh3 (meta_prefix m)\<rparr>) \<and>
    written_meta xxh3 m buf' \<and> length buf' = length buf \<and> drop 232 buf' = drop 232 buf"
proof -
  let ?b = "meta_prefix m @ le_bytes 8 (unat (xxh3 (meta_prefix m))) @ drop 232 buf"
  note l = length_meta_prefix [OF assms(2)]
  have "written_meta xxh3 m ?b"
    using DecodeMeta_prefix [OF assms(2)] VerifyMeta_prefix [OF assms(2)] meta_TxnID_at [OF assms(2)] l
    by (simp add: written_meta_def metaOffTxnID_def)
  moreover have "length ?b = length buf" "drop 232 ?b = drop 232 buf" using l assms(1) by simp_all
  ultimately show ?thesis using EncodeMeta_eq [OF assms] by blast
qed

end
