(* ===== verification/RPL_Format.thy ===== *)
theory RPL_Format
  imports Page_Base
begin

text \<open>
  Segments of the retired page log, \<^verbatim>\<open>src/internal/pager/rplformat.go\<close>, and the shared read
  convention \<^verbatim>\<open>readRPLSegment\<close> of \<^verbatim>\<open>rplwalk.go\<close>. A Go panic is an error value.
\<close>

section \<open>Definitions\<close>

definition rplOffTxnID :: nat where "rplOffTxnID = 8"
definition rplOffOlderSegment :: nat where "rplOffOlderSegment = 16"
definition RPLHeaderSize :: nat where "RPLHeaderSize = 24"

definition RPLEntriesPerSegment :: "Config \<Rightarrow> page_err + nat" where
  "RPLEntriesPerSegment cfg =
     bind_res (MustValidate cfg) (\<lambda>_.
       let usable = unat (PageSize cfg) - RPLHeaderSize;
           usable' = (if PageChecksum cfg then usable - FooterSize else usable)
       in Inr (usable' div 8))"

record RPLSegment =
  seg_TxnID :: u64
  seg_OlderSegment :: u64
  seg_PageIDs :: "u64 list"

definition EntryCount :: "RPLSegment \<Rightarrow> nat" where
  "EntryCount s = length (seg_PageIDs s)"

text \<open>\<^term>\<open>Inr None\<close> is the source's \<^verbatim>\<open>false\<close>: the buffer is malformed.\<close>

definition DecodeRPLSegment :: "bytes \<Rightarrow> Config \<Rightarrow> page_err + RPLSegment option" where
  "DecodeRPLSegment buf cfg =
     bind_res (RPLEntriesPerSegment cfg) (\<lambda>cap.
       if length buf < unat (PageSize cfg) then Inr None
       else bind_res (ReadHeader buf) (\<lambda>(typ, flags, count, additional).
         if typ \<noteq> TypeRPLSegment then Inr None
         else if unat count > cap then Inr None
         else Inr (Some \<lparr>seg_TxnID = Uint64 buf rplOffTxnID,
                         seg_OlderSegment = Uint64 buf rplOffOlderSegment,
                         seg_PageIDs = map (\<lambda>i. Uint64 buf (RPLHeaderSize + i * 8)) [0..<unat count]\<rparr>)))"

fun put_ids :: "bytes \<Rightarrow> nat \<Rightarrow> u64 list \<Rightarrow> bytes" where
  "put_ids buf i [] = buf"
| "put_ids buf i (pid # ids) = put_ids (PutUint64 buf (RPLHeaderSize + i * 8) pid) (i + 1) ids"

definition EncodeRPLSegment ::
  "bytes \<Rightarrow> Config \<Rightarrow> u64 \<Rightarrow> u64 \<Rightarrow> u64 list \<Rightarrow> page_err + bytes" where
  "EncodeRPLSegment buf cfg txnID olderSegment pageIDs =
     bind_res (RPLEntriesPerSegment cfg) (\<lambda>cap.
       if length buf < unat (PageSize cfg) then Inl (PanicBufLen (length buf) (PageSize cfg))
       else if length pageIDs > cap then Inl (PanicOverflow (length pageIDs) cap)
       else bind_res (WriteHeader buf TypeRPLSegment (word_of_nat (length pageIDs)) 0) (\<lambda>buf.
         let buf = PutUint64 buf rplOffTxnID txnID;
             buf = PutUint64 buf rplOffOlderSegment olderSegment;
             buf = put_ids buf 0 pageIDs
         in Inr (clear_range buf (RPLHeaderSize + length pageIDs * 8) (nat (ContentEnd cfg)))))"

text \<open>The pair \<^verbatim>\<open>footerOK\<close>, \<^verbatim>\<open>ok\<close> with the decoded segment: \<open>FooterBad\<close>, \<open>DecodeBad\<close> or \<open>SegmentOK\<close>.\<close>

datatype seg_read = FooterBad | DecodeBad | SegmentOK RPLSegment

definition readRPLSegment ::
  "(bytes \<Rightarrow> u64) \<Rightarrow> (u64 \<Rightarrow> bytes) \<Rightarrow> Config \<Rightarrow> u64 \<Rightarrow> page_err + seg_read" where
  "readRPLSegment xxh3 readPage cfg pid =
     (let buf = readPage pid in
      bind_res (if PageChecksum cfg then VerifyPageFooter xxh3 buf (PageSize cfg) else Inr True) (\<lambda>footerOK.
        if \<not> footerOK then Inr FooterBad
        else bind_res (DecodeRPLSegment buf cfg) (\<lambda>r.
          Inr (case r of None \<Rightarrow> DecodeBad | Some seg \<Rightarrow> SegmentOK seg))))"

section \<open>Round trip\<close>

lemma RPLEntriesPerSegment_ok:
  assumes "Validate cfg = None"
  shows "\<exists>cap. RPLEntriesPerSegment cfg = Inr cap \<and> 508 \<le> cap \<and> cap < 2 ^ 16 \<and>
    24 + cap * 8 \<le> nat (ContentEnd cfg) \<and> nat (ContentEnd cfg) \<le> unat (PageSize cfg)"
proof -
  define ps where "ps = unat (PageSize cfg)"
  have b: "4096 \<le> ps" "ps \<le> 65536"
    using ValidPageSize_bounds Validate_None [OF assms] by (auto simp: ps_def)
  define u where "u = (if PageChecksum cfg then ps - 24 - 8 else ps - 24)"
  have r: "RPLEntriesPerSegment cfg = Inr (u div 8)"
    using assms by (simp add: RPLEntriesPerSegment_def MustValidate_def RPLHeaderSize_def FooterSize_def
        Let_def u_def ps_def)
  have ce: "nat (ContentEnd cfg) = u + 24"
    using b nat_ContentEnd Validate_None [OF assms] by (auto simp: u_def simp flip: ps_def)
  have u: "4064 \<le> u" "u \<le> 65512" "u + 24 \<le> ps" using b by (auto simp: u_def)
  have "508 \<le> u div 8" using u(1) by (simp add: less_eq_div_iff_mult_less_eq)
  moreover have "u div 8 < 2 ^ 16" using u(2) by (simp add: div_less_iff_less_mult)
  moreover have "u div 8 * 8 \<le> u" by (rule div_times_less_eq_dividend)
  ultimately show ?thesis using r ce u(3) by (intro exI [of _ "u div 8"]) (simp add: ps_def)
qed

lemma put_ids_put_all: "put_ids buf i ids = put_all buf (24 + i * 8) (map (\<lambda>pid. le_bytes 8 (unat pid)) ids)"
  by (induction ids arbitrary: buf i) (simp_all add: PutUint64_def RPLHeaderSize_def add.assoc)

lemma length_concat_ids: "length (concat (map (\<lambda>pid. le_bytes 8 (unat (pid :: u64))) ids)) = 8 * length ids"
  by (induction ids) simp_all

lemma read_ids:
  "i < length ids \<Longrightarrow>
   Uint64 (pre @ concat (map (\<lambda>pid. le_bytes 8 (unat pid)) ids) @ rest) (length pre + i * 8) = ids ! i"
proof (induction ids arbitrary: i pre)
  case (Cons pid ids)
  show ?case
  proof (cases i)
    case 0
    then show ?thesis
      by (intro Uint64_drop [of _ _ _ "concat (map (\<lambda>pid. le_bytes 8 (unat pid)) ids) @ rest", simplified])
        (simp add: 0 del: le_bytes.simps)
  next
    case (Suc j)
    then show ?thesis using Cons.IH [of j "pre @ le_bytes 8 (unat pid)"] Cons.prems by (simp add: add.assoc del: le_bytes.simps)
  qed
qed simp

definition segment_bytes :: "u64 \<Rightarrow> u64 \<Rightarrow> u64 list \<Rightarrow> bytes" where
  "segment_bytes txn older ids =
     [TypeRPLSegment, 0] @ le_bytes 2 (unat (word_of_nat (length ids) :: u16)) @ le_bytes 4 0 @
     le_bytes 8 (unat txn) @ le_bytes 8 (unat older) @ concat (map (\<lambda>pid. le_bytes 8 (unat pid)) ids)"

lemma length_segment_bytes: "length (segment_bytes txn older ids) = 24 + 8 * length ids"
  by (simp add: segment_bytes_def length_concat_ids del: le_bytes.simps)

lemma overwrite_prefix:
  "overwrite (xs @ rest) (length xs) bs = xs @ bs @ drop (length bs) rest"
  by (simp add: overwrite_def)

lemma EncodeRPLSegment_eq:
  assumes "RPLEntriesPerSegment cfg = Inr cap" "Validate cfg = None" "length ids \<le> cap"
    "unat (PageSize cfg) \<le> length buf"
  defines "ce \<equiv> nat (ContentEnd cfg)"
  shows "EncodeRPLSegment buf cfg txn older ids =
    Inr (segment_bytes txn older ids @ replicate (ce - (24 + 8 * length ids)) 0 @ drop ce buf)"
proof -
  define W where "W = (\<lambda>pid :: u64. le_bytes 8 (unat pid))"
  have cap: "24 + cap * 8 \<le> ce" "ce \<le> unat (PageSize cfg)"
    using RPLEntriesPerSegment_ok [OF assms(2)] assms(1) by (auto simp: ce_def)
  have fits: "24 + 8 * length ids \<le> ce" using cap(1) assms(3) by linarith
  have len: "24 + 8 * length ids \<le> length buf" "ce \<le> length buf" using fits cap(2) assms(4) by linarith+
  let ?cnt = "word_of_nat (length ids) :: u16"
  let ?fields = "[[TypeRPLSegment], [0], le_bytes 2 (unat ?cnt), le_bytes 4 (unat (0::u32)), W txn, W older]"
  have seg: "concat (?fields @ map W ids) = segment_bytes txn older ids"
    by (simp add: segment_bytes_def W_def)
  have hdr: "WriteHeader buf TypeRPLSegment ?cnt 0 =
      Inr (put_all buf 0 [[TypeRPLSegment], [0], le_bytes 2 (unat ?cnt), le_bytes 4 (unat (0::u32))])"
    using len(1) by (simp add: WriteHeader_def HeaderSize_def PutUint8_def PutUint16_def PutUint32_def
        eval_nat_numeral del: le_bytes.simps)
  have all: "put_ids (PutUint64 (PutUint64 (put_all buf 0
        [[TypeRPLSegment], [0], le_bytes 2 (unat ?cnt), le_bytes 4 (unat (0::u32))]) 8 txn) 16 older) 0 ids =
      put_all buf 0 (?fields @ map W ids)"
    unfolding put_ids_put_all PutUint64_def W_def by (simp add: eval_nat_numeral del: le_bytes.simps)
  have put: "put_all buf 0 (?fields @ map W ids) =
      segment_bytes txn older ids @ drop (24 + 8 * length ids) buf"
  proof -
    have "length (concat (?fields @ map W ids)) \<le> length buf"
      unfolding seg using len(1) by (simp add: length_segment_bytes)
    then have "put_all buf 0 (?fields @ map W ids) = overwrite buf 0 (segment_bytes txn older ids)"
      using put_all_concat [of 0 "?fields @ map W ids" buf] unfolding seg by simp
    then show ?thesis using len(1) by (simp add: overwrite_0 length_segment_bytes)
  qed
  have "clear_range (segment_bytes txn older ids @ drop (24 + 8 * length ids) buf) (24 + length ids * 8) ce =
      segment_bytes txn older ids @ replicate (ce - (24 + 8 * length ids)) 0 @ drop ce buf"
    using overwrite_prefix [of "segment_bytes txn older ids"] fits
    by (simp add: clear_range_def length_segment_bytes mult.commute)
  then show ?thesis
    using assms(1,3,4) hdr all put
    by (simp add: EncodeRPLSegment_def rplOffTxnID_def rplOffOlderSegment_def RPLHeaderSize_def Let_def
        flip: ce_def)
qed

lemma DecodeRPLSegment_bytes:
  assumes "RPLEntriesPerSegment cfg = Inr cap" "length ids \<le> cap" "cap < 2 ^ 16"
    "unat (PageSize cfg) \<le> length (segment_bytes txn older ids @ rest)"
  shows "DecodeRPLSegment (segment_bytes txn older ids @ rest) cfg =
    Inr (Some \<lparr>seg_TxnID = txn, seg_OlderSegment = older, seg_PageIDs = ids\<rparr>)"
proof -
  let ?b = "segment_bytes txn older ids @ rest"
  let ?cnt = "word_of_nat (length ids) :: u16"
  have cnt: "unat ?cnt = length ids" using assms(2,3) by (simp add: unat_of_nat)
  have pre: "length (take 24 (segment_bytes txn older ids)) = 24" by (simp add: length_segment_bytes)
  have split: "?b = take 24 (segment_bytes txn older ids) @
      concat (map (\<lambda>pid. le_bytes 8 (unat pid)) ids) @ rest"
    by (simp add: segment_bytes_def del: le_bytes.simps)
  have ids: "Uint64 ?b (24 + i * 8) = ids ! i" if "i < length ids" for i
    using read_ids [OF that, of "take 24 (segment_bytes txn older ids)" rest] pre unfolding split by simp
  have z: "word_of_nat (le_nat (le_bytes 4 0)) = (0 :: u32)" by (simp add: le_nat_le_bytes del: le_bytes.simps)
  have hdr: "ReadHeader ?b = Inr (TypeRPLSegment, 0, ?cnt, 0)"
    using length_segment_bytes [of txn older ids]
    by (simp add: ReadHeader_def HeaderSize_def segment_bytes_def Uint16_def Uint32_def field_def
        word_le_bytes z del: le_bytes.simps)
  have t: "Uint64 ?b 8 = txn" "Uint64 ?b 16 = older"
    by (simp_all add: segment_bytes_def Uint64_def field_def word_le_bytes del: le_bytes.simps)
  have "map (\<lambda>i. Uint64 ?b (24 + i * 8)) [0..<length ids] = ids"
    by (rule nth_equalityI) (simp_all add: ids)
  then show ?thesis
    using assms(1,2,4) hdr cnt t
    by (simp add: DecodeRPLSegment_def rplOffTxnID_def rplOffOlderSegment_def RPLHeaderSize_def)
qed

lemma segment_round_trip:
  assumes "RPLEntriesPerSegment cfg = Inr cap" "Validate cfg = None" "length ids \<le> cap"
    "unat (PageSize cfg) \<le> length buf"
  shows "\<exists>buf'. EncodeRPLSegment buf cfg txn older ids = Inr buf' \<and> length buf' = length buf \<and>
    DecodeRPLSegment buf' cfg = Inr (Some \<lparr>seg_TxnID = txn, seg_OlderSegment = older, seg_PageIDs = ids\<rparr>)"
proof -
  have cap: "cap < 2 ^ 16" "24 + cap * 8 \<le> nat (ContentEnd cfg)" "nat (ContentEnd cfg) \<le> unat (PageSize cfg)"
    using RPLEntriesPerSegment_ok [OF assms(2)] assms(1) by auto
  then have "24 + 8 * length ids \<le> nat (ContentEnd cfg)" "nat (ContentEnd cfg) \<le> length buf"
    using assms(3,4) by linarith+
  then show ?thesis
    using EncodeRPLSegment_eq [OF assms] DecodeRPLSegment_bytes [OF assms(1,3) cap(1)] assms(4)
    by (simp add: length_segment_bytes)
qed

text \<open>
  Writing the footer after encoding keeps the content: a segment that went through the write path
  reads back through the verifying read.
\<close>

definition write_segment ::
  "(bytes \<Rightarrow> u64) \<Rightarrow> bytes \<Rightarrow> Config \<Rightarrow> RPLSegment \<Rightarrow> page_err + bytes" where
  "write_segment xxh3 buf cfg s =
     bind_res (EncodeRPLSegment buf cfg (seg_TxnID s) (seg_OlderSegment s) (seg_PageIDs s)) (\<lambda>b.
       if PageChecksum cfg then WritePageFooter xxh3 b (PageSize cfg) else Inr b)"

lemma write_read_segment:
  assumes "Validate cfg = None" "RPLEntriesPerSegment cfg = Inr cap" "length (seg_PageIDs s) \<le> cap"
    "length buf = unat (PageSize cfg)"
  shows "\<exists>b. write_segment xxh3 buf cfg s = Inr b \<and> length b = length buf \<and>
    readRPLSegment xxh3 (\<lambda>_. b) cfg pid = Inr (SegmentOK s)"
proof -
  define ce where "ce = nat (ContentEnd cfg)"
  have cap: "cap < 2 ^ 16" "24 + cap * 8 \<le> ce" "ce \<le> unat (PageSize cfg)"
    using RPLEntriesPerSegment_ok [OF assms(1)] assms(2) by (auto simp: ce_def)
  let ?seg = "segment_bytes (seg_TxnID s) (seg_OlderSegment s) (seg_PageIDs s)"
  define z where "z = replicate (ce - (24 + 8 * length (seg_PageIDs s))) (0 :: byte)"
  have fits: "24 + 8 * length (seg_PageIDs s) \<le> ce" using cap(2) assms(3) by linarith
  have b0: "EncodeRPLSegment buf cfg (seg_TxnID s) (seg_OlderSegment s) (seg_PageIDs s) =
      Inr (?seg @ z @ drop ce buf)"
    using EncodeRPLSegment_eq [OF assms(2,1,3)] assms(4) by (simp add: ce_def z_def)
  have dec: "DecodeRPLSegment (?seg @ rest) cfg = Inr (Some s)"
    if "unat (PageSize cfg) \<le> length (?seg @ rest)" for rest
    using DecodeRPLSegment_bytes [OF assms(2,3) cap(1) that] by simp
  have len: "length (?seg @ z @ drop ce buf) = length buf"
    using fits cap(3) assms(4) by (simp add: length_segment_bytes z_def)
  show ?thesis
  proof (cases "PageChecksum cfg")
    case False
    then show ?thesis
      using b0 dec [of "z @ drop ce buf"] len assms(4)
      by (simp add: write_segment_def readRPLSegment_def)
  next
    case True
    have ps: "8 \<le> unat (PageSize cfg)" "ce = unat (PageSize cfg) - 8"
      using True ValidPageSize_bounds(1) [of "PageSize cfg"] Validate_None [OF assms(1)]
      by (simp_all add: ce_def nat_ContentEnd)
    obtain b where b: "WritePageFooter xxh3 (?seg @ z @ drop ce buf) (PageSize cfg) = Inr b"
      "length b = length (?seg @ z @ drop ce buf)"
      "take ce b = take ce (?seg @ z @ drop ce buf)" "VerifyPageFooter xxh3 b (PageSize cfg) = Inr True"
      using footer_round_trip [of "?seg @ z @ drop ce buf" "PageSize cfg" xxh3] len assms(4) ps by auto
    have "take ce (?seg @ z @ drop ce buf) = ?seg @ z"
      using fits by (simp add: length_segment_bytes z_def)
    then have "b = ?seg @ z @ drop ce b" using b(3) by (metis append_assoc append_take_drop_id)
    then have "DecodeRPLSegment b cfg = Inr (Some s)"
      using dec [of "z @ drop ce b"] b(2) len assms(4) by (metis order_refl)
    then show ?thesis
      using True b0 b len by (simp add: write_segment_def readRPLSegment_def)
  qed
qed

end
