(* ===== verification/RPL_Walk.thy ===== *)
theory RPL_Walk
  imports RPL_Format
begin

text \<open>
  The walk of the persisted chain of retired-page segments, \<^verbatim>\<open>src/internal/pager/rplwalk.go\<close>. The
  source's loop has no bound of its own; it ends because every round adds a page to the visited
  set, which is the termination argument here. The \<^verbatim>\<open>visit\<close> callback is a predicate, and the
  segments it was called on are returned in order.
\<close>

section \<open>Definitions\<close>

datatype RPLWalkStopReason = RPLWalkTailReached | RPLWalkReclaimedBoundary | RPLWalkFooterBoundary
  | RPLWalkDecodeBoundary | RPLWalkCallerStopped

datatype RPLWalkErrKind = RPLWalkErrTailMissing | RPLWalkErrSegmentOutOfRange u64
  | RPLWalkErrSegmentInMetaRegion u64 | RPLWalkErrChainCycle | RPLWalkErrChainTooLong u64
  | RPLWalkErrHeadChecksum | RPLWalkErrHeadMalformed | RPLWalkErrEndedBeforeTail

text \<open>How a walk ends: a stop with its page, a hard error with its page, or a panic of the page layer.\<close>

datatype walk_end = Stopped RPLWalkStopReason u64 | Failed RPLWalkErrKind u64 | Panicked page_err

record RPLChainWalk =
  ReadPage :: "u64 \<Rightarrow> bytes"
  w_Cfg :: Config
  w_Head :: u64
  w_HeadTxnID :: u64
  w_Tail :: u64
  w_EntryCount :: u64
  w_ReclaimEpoch :: u64
  w_LowBound :: u64
  w_HighBound :: u64
  w_IsFree :: "(u64 \<Rightarrow> bool \<times> bool) option"

definition headExempt :: "RPLChainWalk \<Rightarrow> bool" where
  "headExempt w = (w_HeadTxnID w \<ge> w_ReclaimEpoch w)"

definition boundary_free :: "RPLChainWalk \<Rightarrow> u64 \<Rightarrow> bool" where
  "boundary_free w pid =
     ((pid \<noteq> w_Head w \<or> \<not> headExempt w) \<and>
      (case w_IsFree w of None \<Rightarrow> False | Some f \<Rightarrow> (case f pid of (free, ok) \<Rightarrow> ok \<and> free)))"

function walk_loop ::
  "(bytes \<Rightarrow> u64) \<Rightarrow> RPLChainWalk \<Rightarrow> (u64 \<Rightarrow> RPLSegment \<Rightarrow> bool) \<Rightarrow> u64 set \<Rightarrow> u64 \<Rightarrow> u64 \<Rightarrow> u64
     \<Rightarrow> (u64 \<times> RPLSegment) list \<Rightarrow> walk_end \<times> (u64 \<times> RPLSegment) list" where
  "walk_loop xxh3 w visit visited segs prevTxnID pid acc =
     (let maxSegs = w_EntryCount w + 1 in
      if pid \<ge> w_HighBound w then (Failed (RPLWalkErrSegmentOutOfRange (w_HighBound w)) pid, acc)
      else if pid < w_LowBound w then (Failed (RPLWalkErrSegmentInMetaRegion (w_LowBound w)) pid, acc)
      else if pid \<in> visited then (Failed RPLWalkErrChainCycle pid, acc)
      else if segs > maxSegs then (Failed (RPLWalkErrChainTooLong maxSegs) pid, acc)
      else if boundary_free w pid then (Stopped RPLWalkReclaimedBoundary pid, acc)
      else case readRPLSegment xxh3 (ReadPage w) (w_Cfg w) pid of
          Inl e \<Rightarrow> (Panicked e, acc)
        | Inr FooterBad \<Rightarrow>
            (if pid = w_Head w \<and> headExempt w then Failed RPLWalkErrHeadChecksum pid
             else Stopped RPLWalkFooterBoundary pid, acc)
        | Inr DecodeBad \<Rightarrow>
            (if pid = w_Head w \<and> headExempt w then Failed RPLWalkErrHeadMalformed pid
             else Stopped RPLWalkDecodeBoundary pid, acc)
        | Inr (SegmentOK seg) \<Rightarrow>
            if seg_TxnID seg > prevTxnID then (Stopped RPLWalkReclaimedBoundary pid, acc)
            else
              let acc' = acc @ [(pid, seg)] in
              if \<not> visit pid seg then (Stopped RPLWalkCallerStopped pid, acc')
              else if pid = w_Tail w then (Stopped RPLWalkTailReached pid, acc')
              else if seg_OlderSegment seg = 0 then (Failed RPLWalkErrEndedBeforeTail pid, acc')
              else walk_loop xxh3 w visit (insert pid visited) (segs + 1) (seg_TxnID seg)
                     (seg_OlderSegment seg) acc')"
  by pat_completeness auto
termination
proof (relation "measure (\<lambda>(xxh3, w, visit, visited, segs, prev, pid, acc). card (UNIV - visited :: u64 set))", goal_cases)
  case 1
  show ?case by simp
next
  case (2 xxh3 w visit visited segs prevTxnID pid acc)
  then have "pid \<in> UNIV - visited" by simp
  then have "card (UNIV - insert pid visited) < card (UNIV - visited)"
    by (intro psubset_card_mono) auto
  then show ?case by simp
qed

definition Walk ::
  "(bytes \<Rightarrow> u64) \<Rightarrow> RPLChainWalk \<Rightarrow> (u64 \<Rightarrow> RPLSegment \<Rightarrow> bool) \<Rightarrow> walk_end \<times> (u64 \<times> RPLSegment) list" where
  "Walk xxh3 w visit =
     (if w_Head w = 0 then (Stopped RPLWalkTailReached 0, [])
      else if w_Tail w = 0 then (Failed RPLWalkErrTailMissing (w_Head w), [])
      else walk_loop xxh3 w visit {} 0 (w_HeadTxnID w) (w_Head w) [])"

declare walk_loop.simps [simp del]

section \<open>What a walk returns\<close>

text \<open>
  The segments handed to the callback form a prefix of the chain: they start at \<open>pid\<close>, each links
  to the next, no page repeats, every page lies in the walkable range and reads back as that
  segment, and transaction ids never increase.
\<close>

fun linked :: "(bytes \<Rightarrow> u64) \<Rightarrow> RPLChainWalk \<Rightarrow> u64 \<Rightarrow> u64 \<Rightarrow> (u64 \<times> RPLSegment) list \<Rightarrow> bool" where
  "linked xxh3 w prev pid [] = True"
| "linked xxh3 w prev pid ((q, seg) # rest) =
     (q = pid \<and> w_LowBound w \<le> q \<and> q < w_HighBound w \<and>
      readRPLSegment xxh3 (ReadPage w) (w_Cfg w) q = Inr (SegmentOK seg) \<and>
      seg_TxnID seg \<le> prev \<and> linked xxh3 w (seg_TxnID seg) (seg_OlderSegment seg) rest)"

lemma walk_loop_linked:
  assumes "walk_loop xxh3 w visit visited segs prev pid acc = (r, out)"
  shows "\<exists>new. out = acc @ new \<and> linked xxh3 w prev pid new \<and> distinct (map fst new) \<and>
    set (map fst new) \<inter> visited = {} \<and>
    (\<forall>p. r = Stopped RPLWalkTailReached p \<longrightarrow> new \<noteq> [] \<and> fst (last new) = w_Tail w)"
  using assms
proof (induction xxh3 w visit visited segs prev pid acc rule: walk_loop.induct)
  case (1 xxh3 w visit visited segs prev pid acc)
  let ?L = "walk_loop xxh3 w visit visited segs prev pid acc"
  show ?case
  proof (cases "\<exists>seg. readRPLSegment xxh3 (ReadPage w) (w_Cfg w) pid = Inr (SegmentOK seg) \<and>
      seg_TxnID seg \<le> prev \<and> pid < w_HighBound w \<and> w_LowBound w \<le> pid \<and> pid \<notin> visited \<and>
      segs \<le> w_EntryCount w + 1 \<and> \<not> boundary_free w pid")
    case False
    then have "out = acc \<and> (\<forall>p. r \<noteq> Stopped RPLWalkTailReached p)"
      using 1(2) by (subst (asm) walk_loop.simps)
        (auto simp: Let_def not_le not_less split: if_splits sum.splits seg_read.splits)
    then show ?thesis by (intro exI [of _ "[]"]) simp
  next
    case True
    then obtain seg where seg: "readRPLSegment xxh3 (ReadPage w) (w_Cfg w) pid = Inr (SegmentOK seg)"
      "seg_TxnID seg \<le> prev" "pid < w_HighBound w" "w_LowBound w \<le> pid" "pid \<notin> visited"
      "segs \<le> w_EntryCount w + 1" "\<not> boundary_free w pid" by blast
    have ord: "\<not> w_HighBound w \<le> pid" "\<not> pid < w_LowBound w" "\<not> w_EntryCount w + 1 < segs"
      "\<not> prev < seg_TxnID seg"
      using seg by (simp_all only: not_le not_less)
    let ?acc = "acc @ [(pid, seg)]"
    have unf: "?L = (if \<not> visit pid seg then (Stopped RPLWalkCallerStopped pid, ?acc)
        else if pid = w_Tail w then (Stopped RPLWalkTailReached pid, ?acc)
        else if seg_OlderSegment seg = 0 then (Failed RPLWalkErrEndedBeforeTail pid, ?acc)
        else walk_loop xxh3 w visit (insert pid visited) (segs + 1) (seg_TxnID seg) (seg_OlderSegment seg) ?acc)"
      using seg(1,5,7) ord by (subst walk_loop.simps) (simp add: Let_def)
    show ?thesis
    proof (cases "visit pid seg \<and> pid \<noteq> w_Tail w \<and> seg_OlderSegment seg \<noteq> 0")
      case False
      then have "out = ?acc \<and> (\<forall>p. r = Stopped RPLWalkTailReached p \<longrightarrow> pid = w_Tail w)"
        using 1(2) unf by (auto split: if_splits)
      then show ?thesis using seg by (intro exI [of _ "[(pid, seg)]"]) auto
    next
      case True
      then have rec: "walk_loop xxh3 w visit (insert pid visited) (segs + 1) (seg_TxnID seg)
          (seg_OlderSegment seg) ?acc = (r, out)"
        using 1(2) unf by simp
      have "\<exists>new. out = ?acc @ new \<and> linked xxh3 w (seg_TxnID seg) (seg_OlderSegment seg) new \<and>
          distinct (map fst new) \<and> set (map fst new) \<inter> insert pid visited = {} \<and>
          (\<forall>p. r = Stopped RPLWalkTailReached p \<longrightarrow> new \<noteq> [] \<and> fst (last new) = w_Tail w)"
        by (rule 1(1) [OF refl _ _ _ _ _ seg(1) refl _ refl _ _ _ rec])
          (use seg ord True in simp_all)
      then obtain new where "out = ?acc @ new" "linked xxh3 w (seg_TxnID seg) (seg_OlderSegment seg) new"
          "distinct (map fst new)" "set (map fst new) \<inter> insert pid visited = {}"
          "\<forall>p. r = Stopped RPLWalkTailReached p \<longrightarrow> new \<noteq> [] \<and> fst (last new) = w_Tail w" by blast
      then show ?thesis using seg by (intro exI [of _ "(pid, seg) # new"]) auto
    qed
  qed
qed

section \<open>A well-formed chain is walked to its tail\<close>

text \<open>
  \<open>chain w prev pid segs\<close>: the segments from page \<open>pid\<close> on are stored, linked and ordered as the
  commit path writes them, and the last one is the tail.
\<close>

fun chain :: "(bytes \<Rightarrow> u64) \<Rightarrow> RPLChainWalk \<Rightarrow> u64 \<Rightarrow> u64 \<Rightarrow> (u64 \<times> RPLSegment) list \<Rightarrow> bool" where
  "chain xxh3 w prev pid [] = False"
| "chain xxh3 w prev pid ((q, seg) # rest) =
     (q = pid \<and> w_LowBound w \<le> q \<and> q < w_HighBound w \<and> \<not> boundary_free w q \<and>
      readRPLSegment xxh3 (ReadPage w) (w_Cfg w) q = Inr (SegmentOK seg) \<and> seg_TxnID seg \<le> prev \<and>
      (if rest = [] then q = w_Tail w
       else q \<noteq> w_Tail w \<and> seg_OlderSegment seg \<noteq> 0 \<and>
         chain xxh3 w (seg_TxnID seg) (seg_OlderSegment seg) rest))"

lemma walk_loop_chain:
  assumes "chain xxh3 w prev pid segs" "distinct (map fst segs)" "set (map fst segs) \<inter> visited = {}"
    "n + length segs \<le> unat (w_EntryCount w) + 1" "unat (w_EntryCount w) + 1 < 2 ^ 64"
  shows "walk_loop xxh3 w (\<lambda>_ _. True) visited (word_of_nat n) prev pid acc =
    (Stopped RPLWalkTailReached (w_Tail w), acc @ segs)"
  using assms(1-4)
proof (induction segs arbitrary: prev pid visited n acc)
  case (Cons e rest)
  obtain q seg where e: "e = (q, seg)" by (cases e)
  have q: "q = pid" "w_LowBound w \<le> pid" "pid < w_HighBound w" "\<not> boundary_free w pid"
    "readRPLSegment xxh3 (ReadPage w) (w_Cfg w) pid = Inr (SegmentOK seg)" "seg_TxnID seg \<le> prev" "pid \<notin> visited"
    using Cons.prems e by auto
  have ord: "\<not> w_HighBound w \<le> pid" "\<not> pid < w_LowBound w" "\<not> prev < seg_TxnID seg"
    using q by (simp_all only: not_le not_less)
  have "unat (w_EntryCount w + 1) = unat (w_EntryCount w) + 1"
    using assms(5) by (simp add: unat_word_ariths)
  then have count: "\<not> (word_of_nat n :: u64) > w_EntryCount w + 1"
    using Cons.prems(4) assms(5) by (simp add: word_less_nat_alt unat_of_nat)
  have unf: "walk_loop xxh3 w (\<lambda>_ _. True) visited (word_of_nat n) prev pid acc =
      (if pid = w_Tail w then (Stopped RPLWalkTailReached pid, acc @ [(pid, seg)])
       else if seg_OlderSegment seg = 0 then (Failed RPLWalkErrEndedBeforeTail pid, acc @ [(pid, seg)])
       else walk_loop xxh3 w (\<lambda>_ _. True) (insert pid visited) (word_of_nat (n + 1)) (seg_TxnID seg)
              (seg_OlderSegment seg) (acc @ [(pid, seg)]))"
    using q(4,5,7) ord count by (subst walk_loop.simps) (simp add: Let_def add.commute)
  show ?case
  proof (cases "rest = []")
    case True
    then show ?thesis using Cons.prems(1) e unf q(1) by simp
  next
    case False
    have "walk_loop xxh3 w (\<lambda>_ _. True) (insert pid visited) (word_of_nat (n + 1)) (seg_TxnID seg)
        (seg_OlderSegment seg) (acc @ [(pid, seg)]) =
        (Stopped RPLWalkTailReached (w_Tail w), (acc @ [(pid, seg)]) @ rest)"
      using Cons.prems False e q(1) by (intro Cons.IH) auto
    then show ?thesis using Cons.prems(1) False e unf q(1) by simp
  qed
qed simp

end
