(* ===== verification/Descriptor.thy ===== *)
theory Descriptor
  imports Page_Base
begin

text \<open>
  The 40-byte keyspace descriptor, \<^verbatim>\<open>src/internal/descriptor/descriptor.go\<close>.
\<close>

section \<open>Definitions\<close>

record Keyspace =
  ks_Root :: u64
  ks_Count :: u64
  ks_Kind :: byte
  ks_FixedValueSize :: u16
  ks_NextSeq :: u64
  ks_RestartGroupTarget :: u16
  ks_IndexRegistryRoot :: u64
  ks_NodeLayouts :: byte

definition KindKeyspace :: byte where "KindKeyspace = 0"
definition KindSetKeyspace :: byte where "KindSetKeyspace = 1"
definition KindIndexInternal :: byte where "KindIndexInternal = 2"
definition Size :: nat where "Size = 40"

definition LeafLayoutBits :: "Keyspace \<Rightarrow> byte" where
  "LeafLayoutBits d = ks_NodeLayouts d AND 3"

definition BranchLayoutBits :: "Keyspace \<Rightarrow> byte" where
  "BranchLayoutBits d = drop_bit 2 (ks_NodeLayouts d) AND 3"

definition ApplyToConfig :: "Keyspace \<Rightarrow> Config \<Rightarrow> Config" where
  "ApplyToConfig d cfg =
     (let cfg1 = (if ks_RestartGroupTarget d \<noteq> 0
                  then cfg\<lparr>RestartGroupTarget := ks_RestartGroupTarget d\<rparr> else cfg);
          cfg2 = (if LeafLayoutBits d \<noteq> 0 then cfg1\<lparr>LeafLayout := LeafLayoutBits d\<rparr> else cfg1)
      in if BranchLayoutBits d \<noteq> 0 then cfg2\<lparr>BranchLayout := BranchLayoutBits d\<rparr> else cfg2)"

definition DecodeKeyspace :: "bytes \<Rightarrow> page_err + Keyspace" where
  "DecodeKeyspace buf =
     (if length buf < Size then Inl PanicBounds
      else Inr \<lparr>ks_Root = Uint64 buf 0, ks_Count = Uint64 buf 8, ks_Kind = buf ! 16,
                ks_FixedValueSize = Uint16 buf 17, ks_NextSeq = Uint64 buf 19,
                ks_RestartGroupTarget = Uint16 buf 27, ks_IndexRegistryRoot = Uint64 buf 29,
                ks_NodeLayouts = buf ! 37\<rparr>)"

definition EncodeKeyspace :: "bytes \<Rightarrow> Keyspace \<Rightarrow> page_err + bytes" where
  "EncodeKeyspace buf d =
     (if length buf < Size then Inl PanicBounds
      else
        let buf = PutUint64 buf 0 (ks_Root d);
            buf = PutUint64 buf 8 (ks_Count d);
            buf = PutUint8 buf 16 (ks_Kind d);
            buf = PutUint16 buf 17 (ks_FixedValueSize d);
            buf = PutUint64 buf 19 (ks_NextSeq d);
            buf = PutUint16 buf 27 (ks_RestartGroupTarget d);
            buf = PutUint64 buf 29 (ks_IndexRegistryRoot d);
            buf = PutUint8 buf 37 (ks_NodeLayouts d)
        in Inr (clear_range buf 38 40))"

datatype desc_err = DescPanic | BadKind byte | FixedSizeOnKind u16 byte | TargetTooBig u16
  | BadNodeLayouts byte | ReservedByte nat byte

definition ValidateKeyspace :: "bytes \<Rightarrow> Keyspace \<Rightarrow> desc_err option" where
  "ValidateKeyspace buf d =
     (if length buf < Size then Some DescPanic
      else if ks_Kind d \<notin> {KindKeyspace, KindSetKeyspace, KindIndexInternal} then Some (BadKind (ks_Kind d))
      else if ks_FixedValueSize d \<noteq> 0 \<and> ks_Kind d \<noteq> KindSetKeyspace
        then Some (FixedSizeOnKind (ks_FixedValueSize d) (ks_Kind d))
      else if ks_RestartGroupTarget d > MaxRestartGroupTarget then Some (TargetTooBig (ks_RestartGroupTarget d))
      else if LeafLayoutBits d = 3 \<or> BranchLayoutBits d = 3 \<or> ks_NodeLayouts d AND 0xF0 \<noteq> 0
        then Some (BadNodeLayouts (ks_NodeLayouts d))
      else if buf ! 38 \<noteq> 0 then Some (ReservedByte 0 (buf ! 38))
      else if buf ! 39 \<noteq> 0 then Some (ReservedByte 1 (buf ! 39))
      else None)"

section \<open>The descriptor as one write\<close>

definition descriptor_bytes :: "Keyspace \<Rightarrow> bytes" where
  "descriptor_bytes d =
     le_bytes 8 (unat (ks_Root d)) @ le_bytes 8 (unat (ks_Count d)) @ [ks_Kind d] @
     le_bytes 2 (unat (ks_FixedValueSize d)) @ le_bytes 8 (unat (ks_NextSeq d)) @
     le_bytes 2 (unat (ks_RestartGroupTarget d)) @ le_bytes 8 (unat (ks_IndexRegistryRoot d)) @
     [ks_NodeLayouts d] @ [0, 0]"

lemma length_descriptor_bytes [simp]: "length (descriptor_bytes d) = 40"
  by (simp add: descriptor_bytes_def del: le_bytes.simps)

lemma EncodeKeyspace_eq:
  assumes "40 \<le> length buf"
  shows "EncodeKeyspace buf d = Inr (descriptor_bytes d @ drop 40 buf)"
proof -
  let ?fs = "[le_bytes 8 (unat (ks_Root d)), le_bytes 8 (unat (ks_Count d)), [ks_Kind d],
     le_bytes 2 (unat (ks_FixedValueSize d)), le_bytes 8 (unat (ks_NextSeq d)),
     le_bytes 2 (unat (ks_RestartGroupTarget d)), le_bytes 8 (unat (ks_IndexRegistryRoot d)),
     [ks_NodeLayouts d], replicate 2 0]"
  have c: "concat ?fs = descriptor_bytes d" by (simp add: descriptor_bytes_def numeral_2_eq_2)
  have "EncodeKeyspace buf d = Inr (put_all buf 0 ?fs)"
    using assms by (simp add: EncodeKeyspace_def Size_def Let_def PutUint8_def PutUint16_def PutUint64_def
        clear_range_def del: le_bytes.simps)
  moreover have "put_all buf 0 ?fs = overwrite buf 0 (descriptor_bytes d)"
    using put_all_concat [of 0 ?fs buf] assms unfolding c by simp
  ultimately show ?thesis using assms by (simp add: overwrite_0)
qed

lemma DecodeKeyspace_bytes: "DecodeKeyspace (descriptor_bytes d @ rest) = Inr d"
proof -
  let ?b = "descriptor_bytes d @ rest"
  have "Uint64 ?b 0 = ks_Root d" "Uint64 ?b 8 = ks_Count d" "?b ! 16 = ks_Kind d"
    "Uint16 ?b 17 = ks_FixedValueSize d" "Uint64 ?b 19 = ks_NextSeq d"
    "Uint16 ?b 27 = ks_RestartGroupTarget d" "Uint64 ?b 29 = ks_IndexRegistryRoot d"
    "?b ! 37 = ks_NodeLayouts d"
    by (simp_all add: descriptor_bytes_def Uint64_def Uint16_def field_def word_le_bytes nth_append
        del: le_bytes.simps)
  then show ?thesis by (simp add: DecodeKeyspace_def Size_def)
qed

text \<open>A descriptor that passes validation is canonical: encoding its decoded form gives its bytes back.\<close>

lemma le_bytes_Uint64: "off + 8 \<le> length buf \<Longrightarrow> le_bytes 8 (unat (Uint64 buf off)) = field buf off 8"
  using le_bytes_word [of "field buf off 8", where ?'a = 64] by (simp add: Uint64_def)

lemma le_bytes_Uint16: "off + 2 \<le> length buf \<Longrightarrow> le_bytes 2 (unat (Uint16 buf off)) = field buf off 2"
  using le_bytes_word [of "field buf off 2", where ?'a = 16] by (simp add: Uint16_def)

lemma take_field_step: "off + n \<le> length buf \<Longrightarrow> take off buf @ field buf off n = take (off + n) buf"
  by (simp add: field_def take_add)

lemma take_nth_step: "off < length buf \<Longrightarrow> take off buf @ [buf ! off] = take (off + 1) buf"
  by (simp add: take_Suc_conv_app_nth)

lemma descriptor_canonical:
  assumes "DecodeKeyspace buf = Inr d" "ValidateKeyspace buf d = None"
  shows "take 40 buf = descriptor_bytes d"
proof -
  have len: "40 \<le> length buf" and res: "buf ! 38 = 0" "buf ! 39 = 0"
    using assms by (auto simp: DecodeKeyspace_def ValidateKeyspace_def Size_def split: if_splits)
  note s8 = take_field_step [of _ 8 buf] and s2 = take_field_step [of _ 2 buf] and s1 = take_nth_step [of _ buf]
  have a: "take 39 buf = take 38 buf @ [buf ! 38]" and b: "take 40 buf = take 39 buf @ [buf ! 39]"
    using len s1 [of 38] s1 [of 39] by simp_all
  have "take 40 buf = take 38 buf @ [buf ! 38, buf ! 39]" unfolding b a by simp
  also have "take 38 buf = take 37 buf @ [buf ! 37]" using len s1 [of 37] by simp
  also have "take 37 buf = take 29 buf @ field buf 29 8" using len s8 [of 29] by simp
  also have "take 29 buf = take 27 buf @ field buf 27 2" using len s2 [of 27] by simp
  also have "take 27 buf = take 19 buf @ field buf 19 8" using len s8 [of 19] by simp
  also have "take 19 buf = take 17 buf @ field buf 17 2" using len s2 [of 17] by simp
  also have "take 17 buf = take 16 buf @ [buf ! 16]" using len s1 [of 16] by simp
  also have "take 16 buf = take 8 buf @ field buf 8 8" using len s8 [of 8] by simp
  also have "take 8 buf = field buf 0 8" by (simp add: field_def)
  finally have "take 40 buf = field buf 0 8 @ field buf 8 8 @ [buf ! 16] @ field buf 17 2 @ field buf 19 8 @
      field buf 27 2 @ field buf 29 8 @ [buf ! 37] @ [0, 0]"
    using res by simp
  moreover have "d = \<lparr>ks_Root = Uint64 buf 0, ks_Count = Uint64 buf 8, ks_Kind = buf ! 16,
      ks_FixedValueSize = Uint16 buf 17, ks_NextSeq = Uint64 buf 19,
      ks_RestartGroupTarget = Uint16 buf 27, ks_IndexRegistryRoot = Uint64 buf 29, ks_NodeLayouts = buf ! 37\<rparr>"
    using assms(1) len by (simp add: DecodeKeyspace_def Size_def)
  ultimately show ?thesis
    using len by (simp add: descriptor_bytes_def le_bytes_Uint64 le_bytes_Uint16 del: le_bytes.simps)
qed

section \<open>Applying a descriptor keeps a valid configuration valid\<close>

lemma and_3_le: "(w :: byte) AND 3 \<noteq> 3 \<Longrightarrow> w AND 3 \<le> 2"
proof -
  assume n: "w AND 3 \<noteq> 3"
  have "unat (w AND 3) = unat w mod 4"
  proof -
    have "(3 :: byte) = mask 2" by (simp add: mask_eq_exp_minus_1)
    then have "w AND 3 = take_bit 2 w" by (simp only: take_bit_eq_mask)
    then show ?thesis by (simp add: take_bit_eq_mod unat_mod)
  qed
  moreover have "unat (w AND 3) \<noteq> 3"
  proof
    assume "unat (w AND 3) = 3"
    then have "unat (w AND 3) = unat (3 :: byte)" by simp
    then show False using n by (simp only: word_unat_eq_iff)
  qed
  ultimately have "unat (w AND 3) \<le> 2" using mod_less_divisor [of 4 "unat w"] by linarith
  then show ?thesis by (simp add: word_le_nat_alt)
qed

lemma ApplyToConfig_valid:
  assumes "Validate cfg = None" "ValidateKeyspace buf d = None"
  shows "Validate (ApplyToConfig d cfg) = None"
proof -
  have n3: "LeafLayoutBits d \<noteq> 3" "BranchLayoutBits d \<noteq> 3"
    and t: "\<not> ks_RestartGroupTarget d > MaxRestartGroupTarget"
    using assms(2) by (simp_all add: ValidateKeyspace_def split: if_splits)
  have l: "\<not> LeafLayoutBits d > LeafLayoutSegregated" "\<not> BranchLayoutBits d > BranchLayoutSegregated"
    using n3 and_3_le [of "ks_NodeLayouts d"] and_3_le [of "drop_bit 2 (ks_NodeLayouts d)"]
    by (simp_all add: LeafLayoutBits_def BranchLayoutBits_def LeafLayoutSegregated_def
        BranchLayoutSegregated_def not_less)
  let ?c = "ApplyToConfig d cfg"
  have f: "PageSize ?c = PageSize cfg"
    "RestartGroupTarget ?c = (if ks_RestartGroupTarget d \<noteq> 0 then ks_RestartGroupTarget d else RestartGroupTarget cfg)"
    "LeafLayout ?c = (if LeafLayoutBits d \<noteq> 0 then LeafLayoutBits d else LeafLayout cfg)"
    "BranchLayout ?c = (if BranchLayoutBits d \<noteq> 0 then BranchLayoutBits d else BranchLayout cfg)"
    by (simp_all add: ApplyToConfig_def Let_def)
  show ?thesis using assms(1) t l by (simp add: Validate_def f split: if_splits)
qed

end
