(* ===== verification/Format_Props.thy ===== *)
theory Format_Props
  imports Meta RPL_Walk Descriptor Codec
begin

text \<open>
  The on-disk formats of the pager provide the contracts of \<open>Codec\<close>; their properties: checksum
  footers, the dual-meta commit point, retired-page segments and their chain, and keyspace
  descriptors.
\<close>

section \<open>Contracts\<close>

interpretation descriptor_codec: codec "EncodeKeyspace (replicate 40 0)" DecodeKeyspace
proof
  fix d b assume "EncodeKeyspace (replicate 40 0) d = Inr b"
  then show "DecodeKeyspace b = Inr d"
    using DecodeKeyspace_bytes [of d "[]"] by (simp add: EncodeKeyspace_eq)
qed

section \<open>A concrete configuration and meta\<close>

definition demo_cfg :: Config where
  "demo_cfg = \<lparr>PageSize = 4096, PageChecksum = True, RestartGroupTarget = 0, LeafLayout = 0, BranchLayout = 0\<rparr>"

lemma demo_cfg_valid: "Validate demo_cfg = None"
  by (simp add: demo_cfg_def Validate_def ValidPageSize_def MinPageSize_def MaxPageSize_def
      MaxRestartGroupTarget_def LeafLayoutSegregated_def BranchLayoutSegregated_def)

lemma demo_cfg_cap: "RPLEntriesPerSegment demo_cfg = Inr 508"
  using demo_cfg_valid
  by (simp add: RPLEntriesPerSegment_def MustValidate_def RPLHeaderSize_def FooterSize_def)
    (simp add: demo_cfg_def FooterSize_def)

definition demo_meta :: "u64 \<Rightarrow> Meta" where
  "demo_meta t = \<lparr>m_Magic = Magic, m_Version = FormatVersion, m_PageSize = 4096, m_Flags = 1,
     m_BitmapPages = 1, m_UUID = replicate 16 7, m_MinSize = 0, m_MaxSize = 1048576, m_GrowStep = 0,
     m_ShrinkThreshold = 0, m_HighWaterMark = 4, m_RPLHeadPage = 0, m_RPLHeadTxnID = 0,
     m_RPLTailPage = 0, m_RPLEntryCount = 0, m_NumFreePages = 0, m_KeyspaceRoot = 3,
     m_NumKeyspaces = 0, m_TxnID = t,
     m_Durable = \<lparr>d_TxnID = t, d_AnchoredTxnID = 0, d_HighWaterMark = 4, d_RPLHeadPage = 0,
       d_RPLHeadTxnID = 0, d_RPLTailPage = 0, d_RPLEntryCount = 0, d_NumFreePages = 0,
       d_KeyspaceRoot = 3, d_NumKeyspaces = 0\<rparr>, m_Checksum = 0\<rparr>"

section \<open>Properties\<close>

text \<open>
  C29. Meta payloads: encoding a meta into a page decodes to the same meta with the stored
  checksum, verifies, validates exactly as the encoded meta does, and leaves the bytes past the
  payload alone.
\<close>

theorem meta_round_trip:
  assumes "232 \<le> length buf" "length (m_UUID m) = 16"
  shows "\<exists>buf' c. EncodeMeta xxh3 buf m = Inr (buf', m\<lparr>m_Checksum := c\<rparr>) \<and>
    DecodeMeta buf' = Inr (m\<lparr>m_Checksum := c\<rparr>) \<and> VerifyMeta xxh3 buf' = Inr True \<and>
    ValidateMeta (m\<lparr>m_Checksum := c\<rparr>) = ValidateMeta m \<and> drop 232 buf' = drop 232 buf"
proof -
  have "ValidateMeta (m\<lparr>m_Checksum := c\<rparr>) = ValidateMeta m" for c by (simp add: ValidateMeta_def)
  then show ?thesis using encode_meta_ok [OF assms] unfolding written_meta_def by blast
qed

theorem meta_round_trip_witness:
  "\<exists>buf' c. EncodeMeta (\<lambda>_. 9) (replicate 4096 0) (demo_meta 5) = Inr (buf', (demo_meta 5)\<lparr>m_Checksum := c\<rparr>) \<and>
    VerifyMeta (\<lambda>_. 9) buf' = Inr True"
  using meta_round_trip [of "replicate 4096 0" "demo_meta 5" "\<lambda>_. 9"] by (auto simp: demo_meta_def)

text \<open>
  C28. The meta swap is the atomic commit point. One slot holds a valid meta; a commit writes a meta
  with a greater transaction id over the other slot. Whatever a crash leaves there, selection
  never fails over to garbage: if the image fails its checksum the old meta stays active, and once
  the whole payload is written the new meta is active and decodes to what was written. This holds
  for either slot.
\<close>

theorem meta_swap_atomic:
  assumes "VerifyMeta xxh3 old = Inr True" "232 \<le> length other" "length (m_UUID m) = 16"
    "Uint64 old metaOffTxnID < m_TxnID m"
  shows "(\<forall>torn. VerifyMeta xxh3 torn = Inr False \<longrightarrow>
       ActiveMeta xxh3 old torn = Inr (0, True) \<and> ActiveMeta xxh3 torn old = Inr (1, True)) \<and>
    (\<exists>new m'. EncodeMeta xxh3 other m = Inr (new, m') \<and> DecodeMeta new = Inr m' \<and> m_TxnID m' = m_TxnID m \<and>
       ActiveMeta xxh3 old new = Inr (1, True) \<and> ActiveMeta xxh3 new old = Inr (0, True))"
proof -
  obtain new where new: "EncodeMeta xxh3 other m = Inr (new, m\<lparr>m_Checksum := xxh3 (meta_prefix m)\<rparr>)"
    "written_meta xxh3 m new"
    using encode_meta_ok [OF assms(2,3)] by blast
  have "\<not> m_TxnID m < Uint64 old metaOffTxnID" using assms(4) by simp
  then have "ActiveMeta xxh3 old new = Inr (1, True) \<and> ActiveMeta xxh3 new old = Inr (0, True)"
    using new(2) assms(1,4) by (simp add: ActiveMeta_def written_meta_def pickHighestTxnID_def)
  then show ?thesis
    using new assms(1) by (auto simp: ActiveMeta_def written_meta_def)
qed

theorem meta_swap_atomic_witness:
  "\<exists>old new m'. ActiveMeta (\<lambda>_. 9) old (replicate 4096 0) = Inr (0, True) \<and>
     EncodeMeta (\<lambda>_. 9) (replicate 4096 0) (demo_meta 6) = Inr (new, m') \<and>
     ActiveMeta (\<lambda>_. 9) old new = Inr (1, True)"
proof -
  obtain old where "EncodeMeta (\<lambda>_. 9) (replicate 4096 0) (demo_meta 5) =
      Inr (old, (demo_meta 5)\<lparr>m_Checksum := 9\<rparr>)" "written_meta (\<lambda>_. 9) (demo_meta 5) old"
    using encode_meta_ok [of "replicate 4096 0" "demo_meta 5" "\<lambda>_. 9"] by (auto simp: demo_meta_def)
  then have o: "VerifyMeta (\<lambda>_. 9) old = Inr True" "Uint64 old metaOffTxnID < m_TxnID (demo_meta 6)"
    by (simp_all add: written_meta_def) (simp add: demo_meta_def)
  have "le_nat (replicate n 0) = 0" for n by (induction n) simp_all
  then have "Uint64 (replicate 4096 0) 224 = 0" by (simp add: Uint64_def field_def)
  then have "VerifyMeta (\<lambda>_. 9) (replicate 4096 0) = Inr False"
    by (simp add: VerifyMeta_def MetaPayloadSize_def ComputeMetaChecksum_def metaOffChecksum_def)
  then show ?thesis
    using meta_swap_atomic [OF o(1) _ _ o(2), of "replicate 4096 0"] by (auto simp: demo_meta_def)
qed

text \<open>
  Checksum footers: a page with a footer written verifies and keeps its content; and a page
  verifies exactly when its last eight bytes are the hash of the rest, so any change of content
  that changes the hash, and any change of the footer, is detected.
\<close>

theorem page_footer_detects:
  assumes "length buf = unat ps" "8 \<le> unat ps"
  shows "(\<exists>buf'. WritePageFooter xxh3 buf ps = Inr buf' \<and>
       take (unat ps - 8) buf' = take (unat ps - 8) buf \<and> VerifyPageFooter xxh3 buf' ps = Inr True) \<and>
    (VerifyPageFooter xxh3 buf ps = Inr True \<longleftrightarrow>
       buf = take (unat ps - 8) buf @ le_bytes 8 (unat (xxh3 (take (unat ps - 8) buf))))"
  using footer_round_trip [OF assms] VerifyPageFooter_iff [OF assms] by blast

theorem page_footer_detects_witness:
  "\<exists>buf'. WritePageFooter (\<lambda>_. 9) (replicate 4096 1) 4096 = Inr buf' \<and> VerifyPageFooter (\<lambda>_. 9) buf' 4096 = Inr True"
  using page_footer_detects [of "replicate 4096 1" 4096 "\<lambda>_. 9"] by auto

text \<open>
  Retired-page segments: for a valid configuration and at most the capacity of entries, writing
  a segment into a page (with its footer when checksums are on) and reading it back through the
  verifying read returns the same segment; the capacity is at least 508 entries.
\<close>

theorem rpl_segment_round_trip:
  assumes "Validate cfg = None" "length buf = unat (PageSize cfg)"
  shows "\<exists>cap. RPLEntriesPerSegment cfg = Inr cap \<and> 508 \<le> cap \<and>
    (\<forall>s. length (seg_PageIDs s) \<le> cap \<longrightarrow>
       (\<exists>b. write_segment xxh3 buf cfg s = Inr b \<and> readRPLSegment xxh3 (\<lambda>_. b) cfg pid = Inr (SegmentOK s)))"
proof -
  obtain cap where "RPLEntriesPerSegment cfg = Inr cap" "508 \<le> cap"
    using RPLEntriesPerSegment_ok [OF assms(1)] by blast
  then show ?thesis using write_read_segment [OF assms(1) _ _ assms(2)] by blast
qed

definition demo_segment :: RPLSegment where
  "demo_segment = \<lparr>seg_TxnID = 4, seg_OlderSegment = 0, seg_PageIDs = [10, 11, 12]\<rparr>"

theorem rpl_segment_round_trip_witness:
  "\<exists>b. write_segment (\<lambda>_. 9) (replicate 4096 0) demo_cfg demo_segment = Inr b \<and>
     readRPLSegment (\<lambda>_. 9) (\<lambda>_. b) demo_cfg 5 = Inr (SegmentOK demo_segment)"
proof -
  have "length (replicate 4096 0 :: bytes) = unat (PageSize demo_cfg)" by (simp add: demo_cfg_def)
  then show ?thesis
    using rpl_segment_round_trip [OF demo_cfg_valid, of "replicate 4096 0" "\<lambda>_. 9" 5] demo_cfg_cap
    by (auto simp: demo_segment_def)
qed

text \<open>
  C30. The chain walk ends on every input, however corrupt, and what it reports to the callback is
  sound: the segments start at the head, follow the stored links without repeating a page, lie in
  the walkable range, read back as reported and have non-increasing transaction ids; if it says
  the tail was reached, the last one reported is the tail.
\<close>

theorem rpl_walk_sound:
  assumes "Walk xxh3 w visit = (r, out)" "w_Head w \<noteq> 0"
  shows "linked xxh3 w (w_HeadTxnID w) (w_Head w) out \<and> distinct (map fst out) \<and>
    (\<forall>p. r = Stopped RPLWalkTailReached p \<longrightarrow> out \<noteq> [] \<and> fst (last out) = w_Tail w)"
proof (cases "w_Tail w = 0")
  case True
  then show ?thesis using assms by (auto simp: Walk_def)
next
  case False
  then have "walk_loop xxh3 w visit {} 0 (w_HeadTxnID w) (w_Head w) [] = (r, out)"
    using assms by (simp add: Walk_def)
  then show ?thesis using walk_loop_linked by fastforce
qed

text \<open>
  C31. A chain stored as the commit path stores it, with no segment reported free and no more
  segments than entries, is walked completely: every segment is reported in order and the walk
  stops at the tail.
\<close>

theorem rpl_walk_complete:
  assumes "chain xxh3 w (w_HeadTxnID w) (w_Head w) segs" "distinct (map fst segs)" "w_Head w \<noteq> 0"
    "w_Tail w \<noteq> 0" "length segs \<le> unat (w_EntryCount w) + 1" "unat (w_EntryCount w) + 1 < 2 ^ 64"
  shows "Walk xxh3 w (\<lambda>_ _. True) = (Stopped RPLWalkTailReached (w_Tail w), segs)"
  using walk_loop_chain [OF assms(1,2), of "{}" 0 "[]"] assms(3-6) by (simp add: Walk_def)

definition demo_walk :: "bytes \<Rightarrow> RPLChainWalk" where
  "demo_walk b = \<lparr>ReadPage = (\<lambda>_. b), w_Cfg = demo_cfg, w_Head = 5, w_HeadTxnID = 4, w_Tail = 5,
     w_EntryCount = 3, w_ReclaimEpoch = 3, w_LowBound = 3, w_HighBound = 100, w_IsFree = None\<rparr>"

lemma demo_page:
  "\<exists>b. readRPLSegment (\<lambda>_. 9) (\<lambda>_. b) demo_cfg 5 = Inr (SegmentOK demo_segment)"
  using write_read_segment [OF demo_cfg_valid demo_cfg_cap, of demo_segment "replicate 4096 0" "\<lambda>_. 9"]
  by (auto simp: demo_segment_def demo_cfg_def)

theorem rpl_walk_complete_witness:
  "\<exists>b. Walk (\<lambda>_. 9) (demo_walk b) (\<lambda>_ _. True) = (Stopped RPLWalkTailReached 5, [(5, demo_segment)])"
proof -
  obtain b where b: "readRPLSegment (\<lambda>_. 9) (\<lambda>_. b) demo_cfg 5 = Inr (SegmentOK demo_segment)"
    using demo_page by blast
  have "chain (\<lambda>_. 9) (demo_walk b) 4 5 [(5, demo_segment)]"
    using b by (simp add: demo_walk_def boundary_free_def) (simp add: demo_segment_def)
  then show ?thesis
    using rpl_walk_complete [of "\<lambda>_. 9" "demo_walk b" "[(5, demo_segment)]"] by (auto simp: demo_walk_def)
qed

theorem rpl_walk_sound_witness:
  "\<exists>b. linked (\<lambda>_. 9) (demo_walk b) 4 5 (snd (Walk (\<lambda>_. 9) (demo_walk b) (\<lambda>_ _. True)))"
proof -
  define b :: bytes where "b = []"
  obtain r out where e: "Walk (\<lambda>_. 9) (demo_walk b) (\<lambda>_ _. True) = (r, out)" by fastforce
  have "w_Head (demo_walk b) = 5" "w_HeadTxnID (demo_walk b) = 4" by (simp_all add: demo_walk_def)
  then have "linked (\<lambda>_. 9) (demo_walk b) 4 5 out" using rpl_walk_sound [OF e] by simp
  then show ?thesis using e by (intro exI [of _ b]) simp
qed

text \<open>
  Keyspace descriptors: encoding then decoding returns the descriptor; a buffer that decodes
  and validates holds exactly the canonical bytes of its descriptor; and applying a validated
  descriptor to a valid page configuration gives a valid one.
\<close>

theorem descriptor_round_trip:
  "(\<forall>buf. 40 \<le> length buf \<longrightarrow>
      bind_res (EncodeKeyspace buf d) DecodeKeyspace = Inr d) \<and>
   (\<forall>buf. DecodeKeyspace buf = Inr d \<and> ValidateKeyspace buf d = None \<longrightarrow>
      EncodeKeyspace (replicate 40 0) d = Inr (take 40 buf) \<and>
      (\<forall>cfg. Validate cfg = None \<longrightarrow> Validate (ApplyToConfig d cfg) = None))"
  using descriptor_canonical [of _ d] ApplyToConfig_valid [of _ _ d] DecodeKeyspace_bytes [of d]
  by (auto simp: EncodeKeyspace_eq)

definition demo_keyspace :: Keyspace where
  "demo_keyspace = \<lparr>ks_Root = 9, ks_Count = 2, ks_Kind = 1, ks_FixedValueSize = 8, ks_NextSeq = 1,
     ks_RestartGroupTarget = 16, ks_IndexRegistryRoot = 0, ks_NodeLayouts = 6\<rparr>"

theorem descriptor_round_trip_witness:
  "bind_res (EncodeKeyspace (replicate 40 0) demo_keyspace) DecodeKeyspace = Inr demo_keyspace"
  using descriptor_round_trip [of demo_keyspace] by simp

end
