(* ===== verification/Close_Gate.thy ===== *)
theory Close_Gate
  imports Main
begin

text \<open>
  The gate between \<^verbatim>\<open>DB.Close\<close> and the cleanups of leaked transactions,
  \<^verbatim>\<open>src/internal/closegate/closegate.go\<close>. Each atomic operation of the source is one function on
  the gate; the threads that call them are program counters, and a step of the system is one
  atomic operation of one thread, so every interleaving of the sequentially consistent atomics is
  a run. The in-flight counter is an \<^typ>\<open>int\<close>: it counts threads, far below the 32-bit range.
\<close>

section \<open>The gate\<close>

record Gate =
  closed :: bool
  txInflight :: int

definition NewGate :: Gate where
  "NewGate = \<lparr>closed = False, txInflight = 0\<rparr>"

text \<open>\<^verbatim>\<open>EnterCleanup\<close> is two atomic operations, the increment and the load of the flag.\<close>

definition enter_add :: "Gate \<Rightarrow> Gate" where
  "enter_add g = g\<lparr>txInflight := txInflight g + 1\<rparr>"

definition enter_load :: "Gate \<Rightarrow> bool" where
  "enter_load g = (if closed g then False else True)"

definition EnterCleanup :: "Gate \<Rightarrow> bool \<times> Gate" where
  "EnterCleanup g = (let g' = enter_add g in (enter_load g', g'))"

definition ExitCleanup :: "Gate \<Rightarrow> Gate" where
  "ExitCleanup g = g\<lparr>txInflight := txInflight g - 1\<rparr>"

text \<open>\<^verbatim>\<open>BeginClose\<close> is a store and then loads of the counter until one is not positive.\<close>

definition begin_store :: "Gate \<Rightarrow> Gate" where
  "begin_store g = g\<lparr>closed := True\<rparr>"

definition begin_drained :: "Gate \<Rightarrow> bool" where
  "begin_drained g = (\<not> txInflight g > 0)"

definition IsClosed :: "Gate \<Rightarrow> bool" where
  "IsClosed g = closed g"

definition CompareAndSwapClosed :: "bool \<Rightarrow> bool \<Rightarrow> Gate \<Rightarrow> bool \<times> Gate" where
  "CompareAndSwapClosed old new g = (if closed g = old then (True, g\<lparr>closed := new\<rparr>) else (False, g))"

definition SwapClosed :: "bool \<Rightarrow> Gate \<Rightarrow> bool \<times> Gate" where
  "SwapClosed new g = (closed g, g\<lparr>closed := new\<rparr>)"

section \<open>The system\<close>

text \<open>
  A cleanup enters, and either works on the mapping or skips, and exits. A closer, \<^verbatim>\<open>DB.Close\<close> or the
  cleanup of the handle, first has to win the flag (by compare-and-swap or by swap), then runs
  \<^verbatim>\<open>BeginClose\<close>, and then unmaps.
\<close>

datatype cleanup_pc = Idle | Entered | Working | Skipping
datatype closer_pc = NotClosing | Won | Draining | Drained | TornDown | Lost

record system =
  gate :: Gate
  cleanups :: "nat \<Rightarrow> cleanup_pc"
  closers :: "nat \<Rightarrow> closer_pc"
  mapped :: bool

definition init_system :: system where
  "init_system = \<lparr>gate = NewGate, cleanups = (\<lambda>_. Idle), closers = (\<lambda>_. NotClosing), mapped = True\<rparr>"

inductive gate_step :: "system \<Rightarrow> system \<Rightarrow> bool" where
  g_add: "cleanups s t = Idle \<Longrightarrow>
    gate_step s (s\<lparr>gate := enter_add (gate s), cleanups := (cleanups s)(t := Entered)\<rparr>)"
| g_load: "cleanups s t = Entered \<Longrightarrow>
    gate_step s (s\<lparr>cleanups := (cleanups s)(t := if enter_load (gate s) then Working else Skipping)\<rparr>)"
| g_exit: "cleanups s t = Working \<or> cleanups s t = Skipping \<Longrightarrow>
    gate_step s (s\<lparr>gate := ExitCleanup (gate s), cleanups := (cleanups s)(t := Idle)\<rparr>)"
| g_cas: "closers s c = NotClosing \<Longrightarrow> CompareAndSwapClosed False True (gate s) = (won, g) \<Longrightarrow>
    gate_step s (s\<lparr>gate := g, closers := (closers s)(c := if won then Won else Lost)\<rparr>)"
| g_swap: "closers s c = NotClosing \<Longrightarrow> SwapClosed True (gate s) = (old, g) \<Longrightarrow>
    gate_step s (s\<lparr>gate := g, closers := (closers s)(c := if old then Lost else Won)\<rparr>)"
| g_store: "closers s c = Won \<Longrightarrow>
    gate_step s (s\<lparr>gate := begin_store (gate s), closers := (closers s)(c := Draining)\<rparr>)"
| g_spin: "closers s c = Draining \<Longrightarrow>
    gate_step s (s\<lparr>closers := (closers s)(c := if begin_drained (gate s) then Drained else Draining)\<rparr>)"
| g_unmap: "closers s c = Drained \<Longrightarrow>
    gate_step s (s\<lparr>mapped := False, closers := (closers s)(c := TornDown)\<rparr>)"

definition gate_reach :: "system \<Rightarrow> bool" where
  "gate_reach s \<longleftrightarrow> gate_step\<^sup>*\<^sup>* init_system s"

section \<open>Invariant\<close>

definition in_window :: "system \<Rightarrow> nat set" where
  "in_window s = {t. cleanups s t \<noteq> Idle}"

definition active_closers :: "system \<Rightarrow> nat set" where
  "active_closers s = {c. closers s c \<notin> {NotClosing, Lost}}"

definition drained :: "system \<Rightarrow> bool" where
  "drained s \<longleftrightarrow> (\<exists>c. closers s c = Drained \<or> closers s c = TornDown)"

definition gate_inv :: "system \<Rightarrow> bool" where
  "gate_inv s \<longleftrightarrow>
     finite (in_window s) \<and> txInflight (gate s) = int (card (in_window s)) \<and>
     (\<forall>c d. c \<in> active_closers s \<longrightarrow> d \<in> active_closers s \<longrightarrow> c = d) \<and>
     (active_closers s \<noteq> {} \<longrightarrow> closed (gate s)) \<and>
     (drained s \<longrightarrow> (\<forall>t. cleanups s t \<noteq> Working)) \<and>
     (\<not> mapped s \<longrightarrow> drained s)"

lemmas gate_ops = enter_add_def enter_load_def ExitCleanup_def begin_store_def begin_drained_def
  CompareAndSwapClosed_def SwapClosed_def

lemma window_add: "cleanups s t = Idle \<Longrightarrow> cleanups s' = (cleanups s)(t := p) \<Longrightarrow> p \<noteq> Idle \<Longrightarrow>
  in_window s' = insert t (in_window s)"
  by (auto simp: in_window_def)

lemma window_remove: "cleanups s' = (cleanups s)(t := Idle) \<Longrightarrow> in_window s' = in_window s - {t}"
  by (auto simp: in_window_def)

lemma window_same: "cleanups s' = (cleanups s)(t := p) \<Longrightarrow> cleanups s t \<noteq> Idle \<Longrightarrow> p \<noteq> Idle \<Longrightarrow>
  in_window s' = in_window s"
  by (auto simp: in_window_def)

lemma drained_active: "drained s \<Longrightarrow> active_closers s \<noteq> {}"
  unfolding drained_def active_closers_def by (metis (mono_tags, lifting) closer_pc.distinct empty_iff
      insert_iff mem_Collect_eq)

lemma active_only: "gate_inv s \<Longrightarrow> c \<in> active_closers s \<Longrightarrow> active_closers s \<subseteq> {c} \<and> closed (gate s)"
  unfolding gate_inv_def by blast

lemma active_pc: "closers s c \<in> {Won, Draining, Drained, TornDown} \<Longrightarrow> c \<in> active_closers s"
  by (auto simp: active_closers_def)

lemma drained_closed: "gate_inv s \<Longrightarrow> drained s \<Longrightarrow> closed (gate s)"
  using drained_active by (simp add: gate_inv_def)

text \<open>
  The invariant has a part about the cleanups, the counter against the window, and a part about
  the closers; each step keeps both.
\<close>

lemma inv_cleanup_step:
  assumes "gate_inv s" "in_window s' = W" "finite W" "txInflight (gate s') = int (card W)"
    "closed (gate s') = closed (gate s)" "closers s' = closers s" "mapped s' = mapped s"
    "\<And>t. cleanups s' t = Working \<Longrightarrow> cleanups s t = Working \<or> \<not> closed (gate s)"
  shows "gate_inv s'"
proof -
  have a: "active_closers s' = active_closers s" "drained s' = drained s"
    using assms(6) by (simp_all add: active_closers_def drained_def)
  have "cleanups s' t \<noteq> Working" if "drained s" for t
    using that assms(1,8) drained_closed [OF assms(1) that] by (auto simp: gate_inv_def)
  then show ?thesis using assms a by (simp add: gate_inv_def)
qed

lemma inv_closer_step:
  assumes "gate_inv s" "cleanups s' = cleanups s" "txInflight (gate s') = txInflight (gate s)"
    "closers s' = (closers s)(c := p)" "closed (gate s) \<longrightarrow> closed (gate s')"
    "p \<notin> {NotClosing, Lost} \<Longrightarrow> active_closers s \<subseteq> {c} \<and> closed (gate s')"
    "p \<in> {Drained, TornDown} \<Longrightarrow> \<forall>t. cleanups s t \<noteq> Working"
    "closers s c = Drained \<or> closers s c = TornDown \<Longrightarrow> p = TornDown"
    "\<not> mapped s' \<Longrightarrow> mapped s \<Longrightarrow> p = TornDown"
  shows "gate_inv s'"
proof -
  have w: "in_window s' = in_window s" using assms(2) by (simp add: in_window_def)
  have a: "active_closers s' \<subseteq> insert c (active_closers s)"
    "c \<in> active_closers s' \<Longrightarrow> p \<notin> {NotClosing, Lost}"
    using assms(4) by (auto simp: active_closers_def split: if_splits)
  have one: "x = y" if "x \<in> active_closers s'" "y \<in> active_closers s'" for x y
  proof (cases "p \<in> {NotClosing, Lost}")
    case True
    then have "c \<notin> active_closers s'" using a(2) by blast
    then have "x \<in> active_closers s" "y \<in> active_closers s" using a(1) that by auto
    then show ?thesis using assms(1) by (simp add: gate_inv_def)
  next
    case False
    then show ?thesis using assms(6) a(1) that by blast
  qed
  have cl: "closed (gate s')" if "active_closers s' \<noteq> {}"
  proof (cases "p \<in> {NotClosing, Lost}")
    case True
    then have "active_closers s' \<subseteq> active_closers s" using a by blast
    then show ?thesis using that assms(1,5) by (auto simp: gate_inv_def)
  qed (use assms(6) in blast)
  have d: "drained s' \<Longrightarrow> drained s \<or> p \<in> {Drained, TornDown}"
    using assms(4) by (auto simp: drained_def split: if_splits)
  have d': "drained s'" if "drained s"
  proof -
    from that [unfolded drained_def]
    obtain x where x: "closers s x = Drained \<or> closers s x = TornDown" by blast
    have "closers s' x = Drained \<or> closers s' x = TornDown"
      using x assms(4,8) by (cases "x = c") auto
    then show ?thesis by (auto simp: drained_def)
  qed
  have work: "\<forall>t. cleanups s' t \<noteq> Working" if "drained s'"
    using d [OF that] assms(1,2,7) by (auto simp: gate_inv_def)
  have "drained s'" if "\<not> mapped s'"
  proof (cases "mapped s")
    case True
    then have "p = TornDown" using assms(9) that by blast
    then show ?thesis using assms(4) by (auto simp: drained_def)
  next
    case False
    then show ?thesis using assms(1) d' by (simp add: gate_inv_def)
  qed
  then show ?thesis using assms(1,2,3) w one cl work by (simp add: gate_inv_def)
qed

lemma gate_inv_init: "gate_inv init_system"
  by (simp add: gate_inv_def init_system_def NewGate_def in_window_def active_closers_def drained_def)

lemma in_windowI: "cleanups s t \<noteq> Idle \<Longrightarrow> t \<in> in_window s"
  by (simp add: in_window_def)

lemma gate_inv_step:
  assumes "gate_step s s'" "gate_inv s"
  shows "gate_inv s'"
  using assms(1)
proof cases
  case (g_add t)
  have w: "in_window s' = insert t (in_window s)" "t \<notin> in_window s" "finite (in_window s)"
    "txInflight (gate s) = int (card (in_window s))"
    using g_add assms(2) by (auto simp: in_window_def gate_inv_def)
  show ?thesis
    by (rule inv_cleanup_step [OF assms(2) w(1)]) (use w g_add in \<open>auto simp: gate_ops split: if_splits\<close>)
next
  case (g_load t)
  have "in_window s' = in_window s" using g_load by (auto simp: in_window_def)
  then show ?thesis
    by (rule inv_cleanup_step [OF assms(2)])
      (use assms(2) g_load in \<open>auto simp: gate_ops gate_inv_def split: if_splits\<close>)
next
  case (g_exit t)
  have t: "t \<in> in_window s" using g_exit(2) by (intro in_windowI) auto
  have w: "in_window s' = in_window s - {t}" using g_exit by (auto simp: in_window_def)
  have f: "finite (in_window s)" "txInflight (gate s) = int (card (in_window s))"
    using assms(2) by (simp_all add: gate_inv_def)
  have "int (card (in_window s - {t})) = int (card (in_window s)) - 1"
    using card_Suc_Diff1 [OF f(1) t] by linarith
  then show ?thesis
    by (intro inv_cleanup_step [OF assms(2) w]) (use f g_exit in \<open>auto simp: gate_ops split: if_splits\<close>)
next
  case (g_cas c won g)
  then show ?thesis
    using assms(2) by (intro inv_closer_step [OF assms(2), of _ c "if won then Won else Lost"])
      (auto simp: gate_ops gate_inv_def split: if_splits)
next
  case (g_swap c old g)
  then show ?thesis
    using assms(2) by (intro inv_closer_step [OF assms(2), of _ c "if old then Lost else Won"])
      (auto simp: gate_ops gate_inv_def split: if_splits)
next
  case (g_store c)
  have "active_closers s \<subseteq> {c}" "closed (gate s)"
    using active_only [OF assms(2) active_pc, of c] g_store(2) by simp_all
  then show ?thesis
    using g_store by (intro inv_closer_step [OF assms(2), of _ c Draining]) (auto simp: gate_ops)
next
  case (g_spin c)
  have c: "active_closers s \<subseteq> {c}" "closed (gate s)"
    using active_only [OF assms(2) active_pc, of c] g_spin(2) by simp_all
  have "\<forall>t. cleanups s t \<noteq> Working" if "begin_drained (gate s)"
  proof -
    have "in_window s = {}" using that assms(2) by (auto simp: gate_ops gate_inv_def)
    then show ?thesis by (auto simp: in_window_def)
  qed
  then show ?thesis
    using g_spin c by (intro inv_closer_step [OF assms(2), of _ c "if begin_drained (gate s) then Drained else Draining"])
      (auto split: if_splits)
next
  case (g_unmap c)
  have "active_closers s \<subseteq> {c}" "closed (gate s)"
    using active_only [OF assms(2) active_pc, of c] g_unmap(2) by simp_all
  moreover have "\<forall>t. cleanups s t \<noteq> Working" using assms(2) g_unmap(2) by (auto simp: gate_inv_def drained_def)
  ultimately show ?thesis
    using g_unmap by (intro inv_closer_step [OF assms(2), of _ c TornDown]) auto
qed

lemma gate_reach_inv: "gate_reach s \<Longrightarrow> gate_inv s"
  unfolding gate_reach_def
  by (induction rule: rtranclp_induct) (auto intro: gate_inv_init gate_inv_step)

lemma gate_reach_steps: "gate_reach s \<Longrightarrow> gate_step\<^sup>*\<^sup>* s s' \<Longrightarrow> gate_reach s'"
  unfolding gate_reach_def by (rule rtranclp_trans)

section \<open>The drain can always finish\<close>

lemma exit_one:
  assumes "t \<in> in_window s"
  shows "\<exists>s'. gate_step\<^sup>*\<^sup>* s s' \<and> in_window s' = in_window s - {t} \<and> closers s' = closers s"
proof -
  have ex: "\<exists>s2. gate_step s1 s2 \<and> in_window s2 = in_window s1 - {t} \<and> closers s2 = closers s1"
    if "cleanups s1 t = Working \<or> cleanups s1 t = Skipping" for s1
    using g_exit [OF that] by (intro exI conjI) (assumption, auto simp: in_window_def)
  show ?thesis
  proof (cases "cleanups s t = Entered")
    case False
    then have "cleanups s t = Working \<or> cleanups s t = Skipping"
      using assms by (cases "cleanups s t") (auto simp: in_window_def)
    then show ?thesis using ex r_into_rtranclp by metis
  next
    case True
    let ?s = "s\<lparr>cleanups := (cleanups s)(t := if enter_load (gate s) then Working else Skipping)\<rparr>"
    have 1: "gate_step s ?s" using g_load [OF True] .
    have w: "in_window ?s = in_window s" "closers ?s = closers s" using True by (auto simp: in_window_def)
    have "cleanups ?s t = Working \<or> cleanups ?s t = Skipping" by simp
    from ex [OF this]
    obtain s2 where "gate_step ?s s2" "in_window s2 = in_window ?s - {t}" "closers s2 = closers ?s" by blast
    then show ?thesis using 1 w by (metis converse_rtranclp_into_rtranclp r_into_rtranclp)
  qed
qed

lemma exit_all:
  "finite W \<Longrightarrow> in_window s = W \<Longrightarrow>
   \<exists>s'. gate_step\<^sup>*\<^sup>* s s' \<and> in_window s' = {} \<and> closers s' = closers s"
proof (induction W arbitrary: s rule: finite_induct)
  case (insert t W)
  obtain s1 where s1: "gate_step\<^sup>*\<^sup>* s s1" "in_window s1 = in_window s - {t}" "closers s1 = closers s"
    using exit_one [of t s] insert.prems by auto
  have "in_window s1 = W" using s1(2) insert.prems insert.hyps(2) by simp
  then obtain s2 where "gate_step\<^sup>*\<^sup>* s1 s2" "in_window s2 = {}" "closers s2 = closers s1"
    using insert.IH by blast
  then show ?case using s1 by (metis rtranclp_trans)
qed auto

section \<open>Properties\<close>


text \<open>
  C37. Close cannot be blocked by the gate itself: from every reachable state in which a closer is
  draining, the cleanups in the window can finish and the closer's wait then ends.
\<close>

theorem close_gate_drains:
  assumes "gate_reach s" "closers s c = Draining"
  shows "\<exists>s'. gate_step\<^sup>*\<^sup>* s s' \<and> closers s' c = Drained"
proof -
  have "finite (in_window s)" using gate_reach_inv [OF assms(1)] by (simp add: gate_inv_def)
  then obtain s1 where s1: "gate_step\<^sup>*\<^sup>* s s1" "in_window s1 = {}" "closers s1 = closers s"
    using exit_all by blast
  have "gate_inv s1" using gate_reach_inv gate_reach_steps [OF assms(1) s1(1)] .
  then have "begin_drained (gate s1)" using s1(2) by (simp add: gate_inv_def begin_drained_def)
  moreover have "closers s1 c = Draining" using s1(3) assms(2) by simp
  ultimately have "gate_step s1 (s1\<lparr>closers := (closers s1)(c := Drained)\<rparr>)" using g_spin [of s1 c] by simp
  then show ?thesis
    using s1(1) by (intro exI [of _ "s1\<lparr>closers := (closers s1)(c := Drained)\<rparr>"]) simp
qed

definition demo_close :: system where
  "demo_close = \<lparr>gate = \<lparr>closed = True, txInflight = 0\<rparr>, cleanups = (\<lambda>_. Idle),
     closers = (\<lambda>_. NotClosing)(0 := Draining), mapped = True\<rparr>"

lemma demo_close_reach: "gate_reach demo_close"
proof -
  let ?w = "init_system\<lparr>gate := \<lparr>closed = True, txInflight = 0\<rparr>, closers := (\<lambda>_. NotClosing)(0 := Won)\<rparr>"
  have "gate_step init_system ?w"
    using g_cas [of init_system 0 True "\<lparr>closed = True, txInflight = 0\<rparr>"]
    by (simp add: init_system_def NewGate_def CompareAndSwapClosed_def)
  moreover have "gate_step ?w demo_close"
    using g_store [of ?w 0] by (simp add: init_system_def demo_close_def begin_store_def)
  ultimately show ?thesis unfolding gate_reach_def by (meson rtranclp.rtrancl_into_rtrancl rtranclp.rtrancl_refl)
qed

theorem close_gate_drains_witness:
  "\<exists>s'. gate_step\<^sup>*\<^sup>* demo_close s' \<and> closers s' 0 = Drained"
  using close_gate_drains [OF demo_close_reach, of 0] by (simp add: demo_close_def)


end
