(* ===== verification/Pager_State.thy ===== *)
theory Pager_State
  imports Bitmap_Free Meta RPL_Format
begin

text \<open>
  The state of a pager, \<^verbatim>\<open>src/internal/pager/pager.go\<close>, with the parts it owns: the file behind
  the \<^verbatim>\<open>FileOps\<close> seam (\<^verbatim>\<open>fileops.go\<close>), the buffer pool (\<^verbatim>\<open>bufpool.go\<close>), the statistics counters
  (\<^verbatim>\<open>txstats.go\<close>), the in-memory retired-page chain, and the savepoint records (\<^verbatim>\<open>savepoint.go\<close>).

  Page ids, page counts and file sizes are \<^typ>\<open>nat\<close>: they are bounded by the file's maximal size, so
  the 64-bit arithmetic of the source on them does not wrap. Slab accounting, which the source
  keeps in \<^verbatim>\<open>int\<close>, is \<^typ>\<open>int\<close>. A slab buffer is an address in \<open>bufs\<close>, because the source shares and
  recycles buffers by pointer. Go maps used as sets are sets; the order in which \<^verbatim>\<open>range\<close> visits
  one is \<open>rangeOrder\<close>, a parameter. Each call on the file takes its outcome from \<open>fo_outcome\<close>, so a
  run under every outcome function covers every pattern of I/O failures. Callbacks of the layer
  above are fields, as in the source; since they may answer differently on each call they also
  get the number of the call. The model is that of the unix build, where extending or shrinking
  the mapping is a no-op.
\<close>

section \<open>Errors\<close>

datatype pg_err =
    ErrReadOnly | ErrFreespaceUnconfigured | ErrDBFull | ErrTxTooLarge | ErrCorrupted
  | ErrBadPageChecksum nat | ErrPageNotDirty | ErrMetaFsyncFailed
  | ErrTruncate | ErrWriteAt | ErrFdatasync | ErrReadAt
  | ErrZeroCount | ErrAlreadyFree nat | ErrBufLen | ErrNotAllocated nat | ErrInSlab nat
  | ErrTxnIDOrder | ErrSegmentCapacity | ErrTxnIDUnseeded | ErrSelfReference nat
  | PanicBitmap bm_panic | PanicPage page_err | PanicMmap nat | FaultSigbus nat
  | PanicNil | PanicUnattached | PanicShallowActive | PanicOutOfOrder

section \<open>The file\<close>

datatype io_outcome = IoOK | IoFail nat

datatype file_op = WriteOp nat bytes | TruncOp nat

record FileOps =
  fo_bytes :: bytes
  fo_synced :: bytes
  fo_unsynced :: "file_op list"
  fo_outcome :: "nat \<Rightarrow> io_outcome"
  fo_calls :: nat

definition file_write :: "bytes \<Rightarrow> nat \<Rightarrow> bytes \<Rightarrow> bytes" where
  "file_write f off d = overwrite (f @ replicate (off - length f) 0) off d"

definition file_truncate :: "bytes \<Rightarrow> nat \<Rightarrow> bytes" where
  "file_truncate f n = take n f @ replicate (n - length f) 0"

definition next_outcome :: "FileOps \<Rightarrow> io_outcome" where
  "next_outcome fo = fo_outcome fo (fo_calls fo)"

definition called :: "FileOps \<Rightarrow> FileOps" where
  "called fo = fo\<lparr>fo_calls := fo_calls fo + 1\<rparr>"

definition put_bytes :: "nat \<Rightarrow> bytes \<Rightarrow> FileOps \<Rightarrow> FileOps" where
  "put_bytes off d fo = fo\<lparr>fo_bytes := file_write (fo_bytes fo) off d,
     fo_unsynced := fo_unsynced fo @ [WriteOp off d]\<rparr>"

text \<open>A failed write may have stored any prefix of the buffer.\<close>

definition WriteAt :: "bytes \<Rightarrow> nat \<Rightarrow> FileOps \<Rightarrow> bool \<times> FileOps" where
  "WriteAt d off fo =
     (case next_outcome fo of
        IoOK \<Rightarrow> (True, put_bytes off d (called fo))
      | IoFail k \<Rightarrow> (False, put_bytes off (take k d) (called fo)))"

definition ReadAt :: "nat \<Rightarrow> nat \<Rightarrow> FileOps \<Rightarrow> bytes option \<times> FileOps" where
  "ReadAt n off fo =
     (case next_outcome fo of
        IoOK \<Rightarrow> (if off + n \<le> length (fo_bytes fo) then Some (field (fo_bytes fo) off n) else None, called fo)
      | IoFail k \<Rightarrow> (None, called fo))"

definition Truncate :: "nat \<Rightarrow> FileOps \<Rightarrow> bool \<times> FileOps" where
  "Truncate n fo =
     (case next_outcome fo of
        IoOK \<Rightarrow> (True, (called fo)\<lparr>fo_bytes := file_truncate (fo_bytes fo) n,
                       fo_unsynced := fo_unsynced fo @ [TruncOp n]\<rparr>)
      | IoFail k \<Rightarrow> (False, called fo))"

definition Fdatasync :: "FileOps \<Rightarrow> bool \<times> FileOps" where
  "Fdatasync fo =
     (case next_outcome fo of
        IoOK \<Rightarrow> (True, (called fo)\<lparr>fo_synced := fo_bytes fo, fo_unsynced := []\<rparr>)
      | IoFail k \<Rightarrow> (False, called fo))"

section \<open>Savepoints and segments\<close>

record RPLSegmentRef =
  ref_PageID :: nat
  ref_TxnID :: nat
  ref_Count :: nat

datatype SavepointKind = SavepointNested | SavepointShallow

datatype savepointUndoField = fieldPendingAllocs | fieldPendingFrees | fieldLoosePages | fieldDirty

record savepointUndoEntry =
  ue_field :: savepointUndoField
  ue_key :: nat
  ue_wasPresent :: bool

record loosePopEntry =
  lp_id :: nat
  lp_buf :: nat
  lp_wasPreWindow :: bool

record snapshotCore =
  sc_bitmap :: "Snapshot option"
  sc_highWaterMark :: nat
  sc_rplSegments :: "RPLSegmentRef list"

text \<open>The pointer of a savepoint is its \<open>sp_id\<close>.\<close>

record Savepoint =
  sp_id :: nat
  sp_kind :: SavepointKind
  sp_core :: snapshotCore
  undoLogPos :: nat
  retiredLen :: nat
  detachedLen :: nat
  deferredLen :: nat
  loosePopLog :: "loosePopEntry list"

record LaggingReaderInfo =
  lr_PID :: nat
  lr_TxnID :: nat
  lr_Lag :: nat
  lr_HeldPages :: nat

datatype LaggingReaderAction = LaggingReaderWait | LaggingReaderAbort

record TxStats =
  CowPages :: nat
  LoosePages :: nat
  ReclaimedPages :: nat
  WrittenPages :: nat
  SlabPeakBytes :: int
  SpilledPages :: nat

section \<open>The pager\<close>

record Pager =
  cfg :: Config
  fops :: FileOps
  mmapLen :: nat
  fileSize :: nat
  readOnly :: bool
  slab :: "nat \<rightharpoonup> nat"
  bufs :: "nat \<Rightarrow> bytes"
  nextBuf :: nat
  bufPool :: "nat list"
  dirtyBytes :: int
  maxBytes :: int
  inCommit :: bool
  externalReserve :: int
  tc :: TxStats
  bmap :: "Bitmap option"
  rplSegments :: "RPLSegmentRef list"
  highWaterMark :: nat
  maxSizePages :: nat
  growStepPages :: nat
  minSizePages :: nat
  reclamationBound :: nat
  rplCorruptCount :: nat
  rplRelocFloor :: nat
  rplRelocDeclined :: bool
  adoptedMeta :: Meta
  adoptedSlot :: int
  anchoredEpoch :: nat
  pendingAllocs :: "nat set"
  pendingFrees :: "nat set"
  retiredPages :: "nat list"
  loosePages :: "nat set"
  spillErr :: "pg_err option"
  deferredFrees :: "nat list"
  detachedBufs :: "nat list"
  currentTxnID :: nat
  savepointDepth :: nat
  activeSavepoints :: "Savepoint list"
  savepointUndoLog :: "savepointUndoEntry list"
  nextSavepoint :: nat
  verified :: "u64 list"
  txSnapshot :: "snapshotCore option"
  laggingReader :: "(nat \<Rightarrow> LaggingReaderInfo \<Rightarrow> LaggingReaderAction) option"
  refreshBound :: "(nat \<Rightarrow> nat) option"
  shrinkGate :: "(nat \<Rightarrow> bool) option"
  callbackCalls :: nat
  contigAttempts :: nat
  contigFragFails :: nat

text \<open>What the pager is built on: the hash of the page layer, and the visiting order of a map.\<close>

record Env =
  xxh3 :: "bytes \<Rightarrow> u64"
  rangeOrder :: "nat set \<Rightarrow> nat list"

definition env_ok :: "Env \<Rightarrow> bool" where
  "env_ok env \<longleftrightarrow> (\<forall>S. finite S \<longrightarrow> distinct (rangeOrder env S) \<and> set (rangeOrder env S) = S)"

section \<open>Sequencing\<close>

text \<open>
  An operation is a function from the pager to a result and the pager after it; the pager after an
  error holds whatever the operation had done before the error.
\<close>

type_synonym 'a pm = "Pager \<Rightarrow> (pg_err + 'a) \<times> Pager"

definition ret :: "'a \<Rightarrow> 'a pm" where
  "ret x p = (Inr x, p)"

definition throw :: "pg_err \<Rightarrow> 'a pm" where
  "throw e p = (Inl e, p)"

definition bnd :: "'a pm \<Rightarrow> ('a \<Rightarrow> 'b pm) \<Rightarrow> 'b pm" where
  "bnd m f p = (case m p of (Inl e, p') \<Rightarrow> (Inl e, p') | (Inr x, p') \<Rightarrow> f x p')"

definition get :: "(Pager \<Rightarrow> 'a) \<Rightarrow> 'a pm" where
  "get f p = (Inr (f p), p)"

definition upd :: "(Pager \<Rightarrow> Pager) \<Rightarrow> unit pm" where
  "upd f p = (Inr (), f p)"

primrec each_pm :: "('a \<Rightarrow> unit pm) \<Rightarrow> 'a list \<Rightarrow> unit pm" where
  "each_pm f [] = ret ()"
| "each_pm f (x # xs) = bnd (f x) (\<lambda>_. each_pm f xs)"

lemmas pm_defs = ret_def throw_def bnd_def get_def upd_def

end
