(* ===== verification/Pager_Slab.thy ===== *)
theory Pager_Slab
  imports Pager_State
begin

text \<open>
  The slab of dirty buffers and the page accessors of \<^verbatim>\<open>src/internal/pager/pager.go\<close>, with the two
  helpers every mutation shares: file coverage (\<^verbatim>\<open>alignUp\<close>, \<^verbatim>\<open>ensureFileCovers\<close> of \<^verbatim>\<open>freespace.go\<close>)
  and the savepoint undo log (\<^verbatim>\<open>recordSavepointUndo\<close> of \<^verbatim>\<open>savepoint.go\<close>).
\<close>

section \<open>Lifted calls\<close>

definition ps :: "Pager \<Rightarrow> nat" where
  "ps p = unat (PageSize (cfg p))"

definition writable :: "'a pm \<Rightarrow> 'a pm" where
  "writable m p =
     (if readOnly p then (Inl ErrReadOnly, p)
      else if bmap p = None then (Inl ErrFreespaceUnconfigured, p)
      else m p)"

definition with_bitmap :: "(Bitmap \<Rightarrow> bm_panic + Bitmap) \<Rightarrow> unit pm" where
  "with_bitmap f p =
     (case bmap p of
        None \<Rightarrow> (Inl PanicNil, p)
      | Some b \<Rightarrow> (case f b of
            Inl e \<Rightarrow> (Inl (PanicBitmap e), p)
          | Inr b' \<Rightarrow> (Inr (), p\<lparr>bmap := Some b'\<rparr>)))"

definition get_bitmap :: "(Bitmap \<Rightarrow> 'a) \<Rightarrow> 'a pm" where
  "get_bitmap f p = (case bmap p of None \<Rightarrow> (Inl PanicNil, p) | Some b \<Rightarrow> (Inr (f b), p))"

definition lift_page :: "page_err + 'a \<Rightarrow> 'a pm" where
  "lift_page r = (case r of Inl e \<Rightarrow> throw (PanicPage e) | Inr x \<Rightarrow> ret x)"

definition write_at :: "bytes \<Rightarrow> nat \<Rightarrow> unit pm" where
  "write_at d off p =
     (case WriteAt d off (fops p) of (ok, fo) \<Rightarrow> (if ok then Inr () else Inl ErrWriteAt, p\<lparr>fops := fo\<rparr>))"

definition fdatasync :: "unit pm" where
  "fdatasync p =
     (case Fdatasync (fops p) of (ok, fo) \<Rightarrow> (if ok then Inr () else Inl ErrFdatasync, p\<lparr>fops := fo\<rparr>))"

section \<open>File coverage\<close>

definition alignUp :: "nat \<Rightarrow> nat \<Rightarrow> nat" where
  "alignUp n step = (if step = 0 then n else ((n + step - 1) div step) * step)"

definition coverTarget :: "Pager \<Rightarrow> nat \<Rightarrow> nat" where
  "coverTarget p pages =
     (let t = alignUp pages (growStepPages p);
          t = (if maxSizePages p \<noteq> 0 then min t (maxSizePages p) else t)
      in max t pages)"

definition ensureFileCovers :: "nat \<Rightarrow> unit pm" where
  "ensureFileCovers pages p =
     (if pages * ps p \<le> fileSize p then (Inr (), p)
      else let target = coverTarget p pages * ps p in
        case Truncate target (fops p) of (ok, fo) \<Rightarrow>
          if ok then (Inr (), p\<lparr>fops := fo, fileSize := target\<rparr>)
          else (Inl ErrTruncate, p\<lparr>fops := fo\<rparr>))"

section \<open>The undo log of the savepoints\<close>

definition recordSavepointUndo :: "savepointUndoField \<Rightarrow> nat \<Rightarrow> bool \<Rightarrow> Pager \<Rightarrow> Pager" where
  "recordSavepointUndo fld key was p =
     (if activeSavepoints p = [] then p
      else p\<lparr>savepointUndoLog := savepointUndoLog p @ [\<lparr>ue_field = fld, ue_key = key, ue_wasPresent = was\<rparr>]\<rparr>)"

text \<open>
  The recurring pattern of the source: read whether the key is present, change the set, and record
  the change when it was one.
\<close>

definition addAlloc :: "nat \<Rightarrow> Pager \<Rightarrow> Pager" where
  "addAlloc pid p =
     (let p' = p\<lparr>pendingAllocs := insert pid (pendingAllocs p)\<rparr> in
      if pid \<in> pendingAllocs p then p' else recordSavepointUndo fieldPendingAllocs pid False p')"

definition delAlloc :: "nat \<Rightarrow> Pager \<Rightarrow> Pager" where
  "delAlloc pid p =
     (let p' = p\<lparr>pendingAllocs := pendingAllocs p - {pid}\<rparr> in
      if pid \<in> pendingAllocs p then recordSavepointUndo fieldPendingAllocs pid True p' else p')"

definition delFree :: "nat \<Rightarrow> Pager \<Rightarrow> Pager" where
  "delFree pid p =
     (let p' = p\<lparr>pendingFrees := pendingFrees p - {pid}\<rparr> in
      if pid \<in> pendingFrees p then recordSavepointUndo fieldPendingFrees pid True p' else p')"

definition delLoose :: "nat \<Rightarrow> Pager \<Rightarrow> Pager" where
  "delLoose pid p =
     recordSavepointUndo fieldLoosePages pid True (p\<lparr>loosePages := loosePages p - {pid}\<rparr>)"

section \<open>The buffer pool\<close>

text \<open>
  \<^verbatim>\<open>Put\<close> clears the buffer; \<^verbatim>\<open>Get\<close> returns a recycled buffer, or a new zero-filled one when the pool
  is empty. Which recycled buffer comes out is unobservable: all of them are cleared.
\<close>

definition poolPut :: "nat \<Rightarrow> Pager \<Rightarrow> Pager" where
  "poolPut b p =
     (if length (bufs p b) \<noteq> ps p then p
      else p\<lparr>bufs := (bufs p)(b := replicate (ps p) 0), bufPool := b # bufPool p\<rparr>)"

definition poolGet :: "Pager \<Rightarrow> nat \<times> Pager" where
  "poolGet p =
     (case bufPool p of
        b # bs \<Rightarrow> (b, p\<lparr>bufPool := bs\<rparr>)
      | [] \<Rightarrow> (nextBuf p, p\<lparr>bufs := (bufs p)(nextBuf p := replicate (ps p) 0), nextBuf := Suc (nextBuf p)\<rparr>))"

section \<open>Reading pages\<close>

text \<open>
  A read of the mapping past its reservation panics in \<^verbatim>\<open>pageRaw\<close>; a read of mapped but unbacked
  memory is a SIGBUS.
\<close>

definition mmapPage :: "Pager \<Rightarrow> nat \<Rightarrow> pg_err + bytes" where
  "mmapPage p pid =
     (if (pid + 1) * ps p > length (fo_bytes (fops p)) then Inl (FaultSigbus pid)
      else Inr (field (fo_bytes (fops p)) (pid * ps p) (ps p)))"

definition pageRaw :: "Pager \<Rightarrow> nat \<Rightarrow> pg_err + bytes" where
  "pageRaw p pid =
     (case (if readOnly p then None else slab p pid) of
        Some b \<Rightarrow> Inr (bufs p b)
      | None \<Rightarrow> if (pid + 1) * ps p > mmapLen p then Inl (PanicMmap pid) else mmapPage p pid)"

definition raw :: "nat \<Rightarrow> bytes pm" where
  "raw pid p = (pageRaw p pid, p)"

definition backedPages :: "Pager \<Rightarrow> nat" where
  "backedPages p =
     (let backed = fileSize p div ps p in
      if maxSizePages p \<noteq> 0 then min backed (maxSizePages p) else backed)"

definition isVerified :: "Pager \<Rightarrow> nat \<Rightarrow> bool" where
  "isVerified p pid =
     (let w = pid div 64 in
      if w \<ge> length (verified p) then False
      else verified p ! w AND push_bit (pid mod 64) 1 \<noteq> 0)"

definition markVerified :: "nat \<Rightarrow> nat \<Rightarrow> Pager \<Rightarrow> Pager" where
  "markVerified pid backed p =
     (let v = (if verified p = [] then replicate ((backed + 63) div 64) 0 else verified p);
          w = pid div 64;
          v = (if w \<ge> length v then v @ replicate (w + 1 - length v) 0 else v)
      in p\<lparr>verified := v[w := v ! w OR push_bit (pid mod 64) 1]\<rparr>)"

definition resetVerified :: "Pager \<Rightarrow> Pager" where
  "resetVerified p = p\<lparr>verified := []\<rparr>"

definition Page :: "Env \<Rightarrow> nat \<Rightarrow> bytes pm" where
  "Page env pid p =
     (case (if readOnly p then None else slab p pid) of
        Some b \<Rightarrow> (Inr (bufs p b), p)
      | None \<Rightarrow>
          let backed = backedPages p in
          if pid \<ge> backed then (Inl ErrCorrupted, p)
          else case mmapPage p pid of
              Inl e \<Rightarrow> (Inl e, p)
            | Inr buf \<Rightarrow>
                if PageChecksum (cfg p) \<and> \<not> isVerified p pid then
                  (case VerifyPageFooter (xxh3 env) buf (PageSize (cfg p)) of
                     Inl e \<Rightarrow> (Inl (PanicPage e), p)
                   | Inr ok \<Rightarrow> if \<not> ok then (Inl (ErrBadPageChecksum pid), p)
                               else (Inr buf, markVerified pid backed p))
                else (Inr buf, p))"

section \<open>Slab budget\<close>

text \<open>An invalid page configuration makes \<^verbatim>\<open>RPLEntriesPerSegment\<close> panic.\<close>

definition rplReserveBytes :: "Pager \<Rightarrow> page_err + int" where
  "rplReserveBytes p =
     (let n = length (retiredPages p) in
      if n = 0 then Inr 0
      else bind_res (RPLEntriesPerSegment (cfg p)) (\<lambda>capPerSeg.
        if capPerSeg \<le> 0 then Inr 0
        else Inr (int ((n + capPerSeg - 1) div capPerSeg) * int (ps p))))"

definition SetExternalReserve :: "int \<Rightarrow> Pager \<Rightarrow> Pager" where
  "SetExternalReserve n p = p\<lparr>externalReserve := (if n < 0 then 0 else n)\<rparr>"

definition admissionLimit :: "Pager \<Rightarrow> page_err + int" where
  "admissionLimit p =
     (if inCommit p then Inr (maxBytes p)
      else bind_res (rplReserveBytes p) (\<lambda>r. Inr (maxBytes p - r - externalReserve p)))"

definition admitInstall :: "unit pm" where
  "admitInstall p =
     (if inCommit p \<and> dirtyBytes p + int (ps p) > maxBytes p then (Inl ErrTxTooLarge, p)
      else if spillErr p \<noteq> None then
        (case admissionLimit p of
           Inl e \<Rightarrow> (Inl (PanicPage e), p)
         | Inr lim \<Rightarrow> if dirtyBytes p + int (ps p) > lim then (Inl ErrTxTooLarge, p) else (Inr (), p))
      else (Inr (), p))"

definition bumpSlabPeak :: "Pager \<Rightarrow> Pager" where
  "bumpSlabPeak p =
     (if dirtyBytes p > SlabPeakBytes (tc p) then p\<lparr>tc := (tc p)\<lparr>SlabPeakBytes := dirtyBytes p\<rparr>\<rparr> else p)"

section \<open>Installing and dropping buffers\<close>

text \<open>The result of an installer is the address of the buffer the caller may write to.\<close>

definition install :: "nat \<Rightarrow> nat \<Rightarrow> Pager \<Rightarrow> Pager" where
  "install pid b p = p\<lparr>slab := (slab p)(pid \<mapsto> b), dirtyBytes := dirtyBytes p + int (ps p)\<rparr>"

definition CoW :: "nat \<Rightarrow> nat \<Rightarrow> nat pm" where
  "CoW srcID dstID p =
     (if readOnly p then (Inl ErrReadOnly, p)
      else case slab p dstID of
          Some b \<Rightarrow> (Inr b, p)
        | None \<Rightarrow>
            bnd admitInstall (\<lambda>_. bnd (raw srcID) (\<lambda>src p.
              case poolGet p of (b, p1) \<Rightarrow>
                let p2 = p1\<lparr>bufs := (bufs p1)(b := overwrite (bufs p1 b) 0 (take (length (bufs p1 b)) src))\<rparr>;
                    p3 = install dstID b p2;
                    p4 = p3\<lparr>tc := (tc p3)\<lparr>CowPages := CowPages (tc p3) + 1\<rparr>\<rparr>;
                    p5 = bumpSlabPeak p4
                in (Inr b, recordSavepointUndo fieldDirty dstID False p5))) p)"

definition AllocSlab :: "nat \<Rightarrow> nat pm" where
  "AllocSlab pid p =
     (if readOnly p then (Inl ErrReadOnly, p)
      else case slab p pid of
          Some b \<Rightarrow> (Inr b, p)
        | None \<Rightarrow>
            bnd admitInstall (\<lambda>_ p.
              case poolGet p of (b, p1) \<Rightarrow>
                (Inr b, recordSavepointUndo fieldDirty pid False (bumpSlabPeak (install pid b p1)))) p)"

definition Mutate :: "nat \<Rightarrow> nat pm" where
  "Mutate pid p =
     (if readOnly p then (Inl ErrReadOnly, p)
      else case slab p pid of None \<Rightarrow> (Inl ErrPageNotDirty, p) | Some b \<Rightarrow> (Inr b, p))"

definition IsDirty :: "Pager \<Rightarrow> nat \<Rightarrow> bool" where
  "IsDirty p pid = (if readOnly p then False else slab p pid \<noteq> None)"

text \<open>A caller writes through the borrowed slice.\<close>

definition store_buf :: "nat \<Rightarrow> bytes \<Rightarrow> Pager \<Rightarrow> Pager" where
  "store_buf b d p = p\<lparr>bufs := (bufs p)(b := d)\<rparr>"

definition DiscardSlab :: "nat \<Rightarrow> Pager \<Rightarrow> Pager" where
  "DiscardSlab pid p =
     (if readOnly p then p
      else case slab p pid of
          None \<Rightarrow> p
        | Some b \<Rightarrow> poolPut b (p\<lparr>slab := (slab p)(pid := None), dirtyBytes := dirtyBytes p - int (ps p)\<rparr>))"

definition DirtyIDs :: "Env \<Rightarrow> Pager \<Rightarrow> nat list" where
  "DirtyIDs env p = (if readOnly p then [] else rangeOrder env (dom (slab p)))"

definition ReleaseAll :: "Env \<Rightarrow> Pager \<Rightarrow> Pager" where
  "ReleaseAll env p =
     (if readOnly p \<or> (dom (slab p) = {} \<and> detachedBufs p = []) then p
      else let p1 = fold (\<lambda>pid p. poolPut (the (slab p pid)) p) (rangeOrder env (dom (slab p))) p;
               p2 = p1\<lparr>slab := Map.empty\<rparr>;
               p3 = fold poolPut (detachedBufs p2) p2
           in p3\<lparr>detachedBufs := [], dirtyBytes := 0\<rparr>)"

section \<open>Direct writes\<close>

definition stamp :: "Env \<Rightarrow> bytes \<Rightarrow> bytes pm" where
  "stamp env buf p =
     (if PageChecksum (cfg p) then lift_page (WritePageFooter (xxh3 env) buf (PageSize (cfg p))) p
      else (Inr buf, p))"

definition writeDirect :: "Env \<Rightarrow> nat \<Rightarrow> bytes \<Rightarrow> bool \<Rightarrow> unit pm" where
  "writeDirect env pid buf stampFooter = writable (\<lambda>p.
     if length buf \<noteq> ps p then (Inl ErrBufLen, p)
     else if pid \<notin> pendingAllocs p then (Inl (ErrNotAllocated pid), p)
     else if slab p pid \<noteq> None then (Inl (ErrInSlab pid), p)
     else bnd (ensureFileCovers (pid + 1)) (\<lambda>_.
          bnd (if stampFooter then stamp env buf else ret buf) (\<lambda>buf.
          write_at buf (pid * ps p))) p)"

definition WriteDirect :: "Env \<Rightarrow> nat \<Rightarrow> bytes \<Rightarrow> unit pm" where
  "WriteDirect env pid buf = writeDirect env pid buf True"

definition WriteDirectRaw :: "Env \<Rightarrow> nat \<Rightarrow> bytes \<Rightarrow> unit pm" where
  "WriteDirectRaw env pid buf = writeDirect env pid buf False"

section \<open>Spilling\<close>

definition drop_loose :: "nat \<Rightarrow> Pager \<Rightarrow> Pager" where
  "drop_loose pid p =
     (if slab p pid = None then p
      else p\<lparr>slab := (slab p)(pid := None), dirtyBytes := dirtyBytes p - int (ps p)\<rparr>)"

definition drop_detached :: "Pager \<Rightarrow> Pager" where
  "drop_detached p =
     p\<lparr>detachedBufs := [], dirtyBytes := dirtyBytes p - int (length (detachedBufs p)) * int (ps p)\<rparr>"

text \<open>One page of the spill pass; an I/O error is recorded and ends the pass.\<close>

definition spill_write :: "Env \<Rightarrow> nat \<Rightarrow> nat \<Rightarrow> unit pm" where
  "spill_write env pid b =
     bnd (ensureFileCovers (pid + 1)) (\<lambda>_.
     bnd (get (\<lambda>p. bufs p b)) (\<lambda>buf.
     bnd (stamp env buf) (\<lambda>buf'.
     bnd (upd (store_buf b buf')) (\<lambda>_ p. write_at buf' (pid * ps p) p))))"

definition spill_page :: "Env \<Rightarrow> nat \<Rightarrow> unit pm" where
  "spill_page env pid p =
     (if spillErr p \<noteq> None then (Inr (), p)
      else case slab p pid of
          None \<Rightarrow> (Inr (), p)
        | Some b \<Rightarrow>
            if pid \<notin> pendingAllocs p \<and> pid \<notin> loosePages p then (Inr (), p)
            else case spill_write env pid b p of
                (Inl (PanicPage e), p') \<Rightarrow> (Inl (PanicPage e), p')
              | (Inl e, p') \<Rightarrow> (Inr (), p'\<lparr>spillErr := Some e\<rparr>)
              | (Inr _, p') \<Rightarrow>
                  (Inr (), p'\<lparr>slab := (slab p')(pid := None), dirtyBytes := dirtyBytes p' - int (ps p'),
                     tc := (tc p')\<lparr>SpilledPages := SpilledPages (tc p') + 1\<rparr>\<rparr>))"

definition under_limit :: "bool pm" where
  "under_limit p = lift_page (bind_res (admissionLimit p) (\<lambda>l. Inr (dirtyBytes p \<le> l))) p"

definition SpillExcess :: "Env \<Rightarrow> unit pm" where
  "SpillExcess env p =
     (if readOnly p \<or> inCommit p \<or> bmap p = None then (Inr (), p)
      else bnd under_limit (\<lambda>under p.
        if under \<or> list_ex (\<lambda>sp. sp_kind sp = SavepointShallow) (activeSavepoints p) then (Inr (), p)
        else
          let p1 = (if activeSavepoints p = []
                    then drop_detached (fold drop_loose (rangeOrder env (loosePages p)) p) else p)
          in bnd (if activeSavepoints p = [] then under_limit else ret False) (\<lambda>done p.
               if done then (Inr (), p)
               else each_pm (spill_page env) (rangeOrder env (dom (slab p))) p) p1) p)"

end
