(* ===== verification/Freespace.thy ===== *)
theory Freespace
  imports Pager_Slab
begin

text \<open>
  The page allocator, \<^verbatim>\<open>src/internal/pager/freespace.go\<close>: allocation from loose pages, from the
  bitmap, by reclaiming retired pages and by growing the file; freeing; the reclamation of the
  retired-page chain; the tail refund; and the allocators and the floor search of compaction.
\<close>

section \<open>Claiming pages of the bitmap\<close>

definition claimBitmapPage :: "nat \<Rightarrow> unit pm" where
  "claimBitmapPage pid =
     bnd (ensureFileCovers (pid + 1)) (\<lambda>_.
     bnd (upd (\<lambda>p. if pid \<ge> highWaterMark p then p\<lparr>highWaterMark := pid + 1\<rparr> else p)) (\<lambda>_.
     bnd (with_bitmap (\<lambda>b. Clear b pid)) (\<lambda>_.
     bnd (with_bitmap (\<lambda>b. Inr (SetHint b pid))) (\<lambda>_.
     upd (\<lambda>p. delFree pid (addAlloc pid p))))))"

definition claim_one :: "nat \<Rightarrow> unit pm" where
  "claim_one pid = bnd (with_bitmap (\<lambda>b. Clear b pid)) (\<lambda>_. upd (\<lambda>p. delFree pid (addAlloc pid p)))"

definition reserveBitmapRun :: "nat \<Rightarrow> nat \<Rightarrow> unit pm" where
  "reserveBitmapRun firstID n =
     (let end = firstID + n in
      bnd (ensureFileCovers end) (\<lambda>_.
      bnd (upd (\<lambda>p. if end > highWaterMark p then p\<lparr>highWaterMark := end\<rparr> else p)) (\<lambda>_.
      bnd (each_pm claim_one [firstID..<end]) (\<lambda>_.
      with_bitmap (\<lambda>b. Inr (SetHint b (end - 1)))))))"

section \<open>Reclaiming the retired-page chain\<close>

definition trimRPLChainTail :: "nat \<Rightarrow> Pager \<Rightarrow> Pager" where
  "trimRPLChainTail n p =
     (if n \<le> 0 \<or> n > length (rplSegments p) then p
      else p\<lparr>rplSegments := drop n (rplSegments p)\<rparr>)"

definition in_data :: "Bitmap \<Rightarrow> nat \<Rightarrow> bool" where
  "in_data b pid = (pid \<ge> firstDataPage b \<and> pid < totalPages b)"

text \<open>The shared read of a segment page; \<^term>\<open>None\<close> is the source's \<^verbatim>\<open>ok = false\<close>.\<close>

definition read_segment :: "Env \<Rightarrow> nat \<Rightarrow> RPLSegment option pm" where
  "read_segment env pid =
     bnd (raw pid) (\<lambda>buf.
     bnd (get cfg) (\<lambda>c.
     bnd (lift_page (readRPLSegment (xxh3 env) (\<lambda>_. buf) c (word_of_nat pid))) (\<lambda>r.
     ret (case r of SegmentOK seg \<Rightarrow> Some seg | _ \<Rightarrow> None))))"

definition seg_ids :: "RPLSegment \<Rightarrow> nat list" where
  "seg_ids seg = map unat (seg_PageIDs seg)"

text \<open>A segment is usable when its page is in the data region, decodes, and lists only data pages.\<close>

definition usable_segment :: "Env \<Rightarrow> RPLSegmentRef \<Rightarrow> nat list option pm" where
  "usable_segment env seg =
     bnd (get_bitmap (\<lambda>b. b)) (\<lambda>b.
       if in_data b (ref_PageID seg) then
         bnd (read_segment env (ref_PageID seg)) (\<lambda>r.
           ret (case r of
                  None \<Rightarrow> None
                | Some d \<Rightarrow> if list_all (in_data b) (seg_ids d) then Some (seg_ids d) else None))
       else ret None)"

text \<open>
  The loop pops the oldest segment in every round and nothing else changes the chain, so it runs
  over the chain as it was at the start. The accumulators are the count and the last page freed.
\<close>

primrec reclaim_loop :: "Env \<Rightarrow> RPLSegmentRef list \<Rightarrow> nat \<Rightarrow> nat \<Rightarrow> (nat \<times> nat) pm" where
  "reclaim_loop env [] count lastReclaimed = ret (count, lastReclaimed)"
| "reclaim_loop env (seg # segs) count lastReclaimed =
     bnd (get reclamationBound) (\<lambda>bound.
       if ref_TxnID seg < bound then
         bnd (usable_segment env seg) (\<lambda>r.
           case r of
             None \<Rightarrow>
               bnd (upd (\<lambda>p. trimRPLChainTail 1 (p\<lparr>rplCorruptCount := rplCorruptCount p + 1\<rparr>))) (\<lambda>_.
               reclaim_loop env segs count lastReclaimed)
           | Some ids \<Rightarrow>
               bnd (each_pm (\<lambda>pid. with_bitmap (\<lambda>b. Set b pid)) ids) (\<lambda>_.
               bnd (with_bitmap (\<lambda>b. Set b (ref_PageID seg))) (\<lambda>_.
               bnd (upd (trimRPLChainTail 1)) (\<lambda>_.
               reclaim_loop env segs (count + length ids + 1) (ref_PageID seg)))))
       else ret (count, lastReclaimed))"

definition reclaimRPL :: "Env \<Rightarrow> nat pm" where
  "reclaimRPL env p =
     bnd (reclaim_loop env (rplSegments p) 0 0) (\<lambda>(count, lastReclaimed).
     bnd (if count > 0 then with_bitmap (\<lambda>b. Inr (SetHint b lastReclaimed)) else ret ()) (\<lambda>_.
     bnd (upd (\<lambda>p. p\<lparr>tc := (tc p)\<lparr>ReclaimedPages := ReclaimedPages (tc p) + count\<rparr>\<rparr>)) (\<lambda>_.
     ret count))) p"

text \<open>
  Restoring, at Open, the invariant that a page listed in the chain is allocated. It runs on a
  bitmap and a chain not yet installed in a pager.
\<close>

fun rearm_ids :: "nat list \<Rightarrow> Bitmap \<Rightarrow> nat list \<Rightarrow> bm_panic + (Bitmap \<times> nat list)" where
  "rearm_ids [] bm rearmed = Inr (bm, rearmed)"
| "rearm_ids (pid # ids) bm rearmed =
     (if \<not> in_data bm pid then rearm_ids ids bm rearmed
      else if IsSet bm pid then
        (case Clear bm pid of Inl e \<Rightarrow> Inl e | Inr bm' \<Rightarrow> rearm_ids ids bm' (rearmed @ [pid]))
      else rearm_ids ids bm rearmed)"

fun rearmCrashedReclamation ::
  "Env \<Rightarrow> (nat \<Rightarrow> pg_err + bytes) \<Rightarrow> Config \<Rightarrow> RPLSegmentRef list \<Rightarrow> Bitmap \<Rightarrow> nat list
     \<Rightarrow> pg_err + (Bitmap \<times> nat list)" where
  "rearmCrashedReclamation env rawPage c [] bm rearmed = Inr (bm, rearmed)"
| "rearmCrashedReclamation env rawPage c (seg # chain) bm rearmed =
     (if \<not> in_data bm (ref_PageID seg) then rearmCrashedReclamation env rawPage c chain bm rearmed
      else case rawPage (ref_PageID seg) of
          Inl e \<Rightarrow> Inl e
        | Inr buf \<Rightarrow>
            (case readRPLSegment (xxh3 env) (\<lambda>_. buf) c (word_of_nat (ref_PageID seg)) of
               Inl e \<Rightarrow> Inl (PanicPage e)
             | Inr (SegmentOK d) \<Rightarrow>
                 (case rearm_ids (seg_ids d) bm rearmed of
                    Inl e \<Rightarrow> Inl (PanicBitmap e)
                  | Inr (bm', rearmed') \<Rightarrow> rearmCrashedReclamation env rawPage c chain bm' rearmed')
             | Inr _ \<Rightarrow> rearmCrashedReclamation env rawPage c chain bm rearmed))"

section \<open>The tiers of an allocation\<close>

text \<open>
  Tier 1: a loose page. Its buffer is detached, and every open shallow savepoint logs the event,
  with whether the buffer was in the slab before the savepoint's window.
\<close>

definition log_pop :: "nat \<Rightarrow> nat \<Rightarrow> savepointUndoEntry list \<Rightarrow> Savepoint \<Rightarrow> Savepoint" where
  "log_pop pid b log sp =
     (if sp_kind sp \<noteq> SavepointShallow then sp
      else sp\<lparr>loosePopLog := loosePopLog sp @
        [\<lparr>lp_id = pid, lp_buf = b,
          lp_wasPreWindow = \<not> list_ex (\<lambda>e. ue_field e = fieldDirty \<and> ue_key e = pid \<and> \<not> ue_wasPresent e)
             (drop (undoLogPos sp) log)\<rparr>]\<rparr>)"

definition detach :: "nat \<Rightarrow> Pager \<Rightarrow> Pager" where
  "detach pid p =
     (case slab p pid of
        None \<Rightarrow> p
      | Some b \<Rightarrow> p\<lparr>detachedBufs := detachedBufs p @ [b], slab := (slab p)(pid := None),
          activeSavepoints := map (log_pop pid b (savepointUndoLog p)) (activeSavepoints p)\<rparr>)"

definition popLoose :: "nat \<Rightarrow> Pager \<Rightarrow> Pager" where
  "popLoose pid p = delFree pid (addAlloc pid (detach pid (delLoose pid p)))"

text \<open>Tier 2, and the retry of tiers 3 and 4.\<close>

definition find_claim :: "nat option pm" where
  "find_claim =
     bnd (get_bitmap FindFirst) (\<lambda>r.
       case r of None \<Rightarrow> ret None | Some pid \<Rightarrow> bnd (claimBitmapPage pid) (\<lambda>_. ret (Some pid)))"

definition reclaim_then :: "Env \<Rightarrow> nat option pm \<Rightarrow> nat option pm" where
  "reclaim_then env retry = bnd (reclaimRPL env) (\<lambda>n. if n > 0 then retry else ret None)"

definition buildLaggingReaderInfo :: "Pager \<Rightarrow> LaggingReaderInfo" where
  "buildLaggingReaderInfo p =
     \<lparr>lr_PID = 0, lr_TxnID = reclamationBound p,
      lr_Lag = (if currentTxnID p > reclamationBound p then currentTxnID p - reclamationBound p else 0),
      lr_HeldPages = 0\<rparr>"

definition refresh :: "(nat \<Rightarrow> nat) \<Rightarrow> unit pm" where
  "refresh f = upd (\<lambda>p. p\<lparr>reclamationBound := f (callbackCalls p), callbackCalls := callbackCalls p + 1\<rparr>)"

definition lagging_tier :: "Env \<Rightarrow> nat option pm \<Rightarrow> nat option pm" where
  "lagging_tier env retry p =
     (case laggingReader p of
        None \<Rightarrow> (Inr None, p)
      | Some cb \<Rightarrow>
          if rplSegments p = [] then (Inr None, p)
          else
            let act = cb (callbackCalls p) (buildLaggingReaderInfo p);
                p1 = p\<lparr>callbackCalls := callbackCalls p + 1\<rparr>
            in case act of
                 LaggingReaderAbort \<Rightarrow> (Inl ErrDBFull, p1)
               | LaggingReaderWait \<Rightarrow>
                   (case refreshBound p1 of
                      None \<Rightarrow> (Inr None, p1)
                    | Some f \<Rightarrow> bnd (refresh f) (\<lambda>_. reclaim_then env retry) p1))"

text \<open>Tier 5: growing the file, with the roll-back of a failed truncate.\<close>

definition trim_undo :: "nat \<Rightarrow> Pager \<Rightarrow> Pager" where
  "trim_undo pid p =
     (let log = savepointUndoLog p in
      if log \<noteq> [] \<and> activeSavepoints p \<noteq> [] \<and> ue_field (last log) = fieldPendingAllocs \<and>
         ue_key (last log) = pid \<and> \<not> ue_wasPresent (last log)
      then p\<lparr>savepointUndoLog := butlast log\<rparr> else p)"

definition extend_one :: "nat pm" where
  "extend_one p =
     (if highWaterMark p \<ge> maxSizePages p then (Inl ErrDBFull, p)
      else
        let pid = highWaterMark p;
            p1 = p\<lparr>highWaterMark := pid + 1, pendingAllocs := insert pid (pendingAllocs p)\<rparr>;
            p2 = recordSavepointUndo fieldPendingAllocs pid False p1
        in case ensureFileCovers (highWaterMark p2) p2 of
             (Inr _, p3) \<Rightarrow> (Inr pid, p3)
           | (Inl e, p3) \<Rightarrow>
               (Inl e, trim_undo pid (p3\<lparr>highWaterMark := highWaterMark p3 - 1,
                  pendingAllocs := pendingAllocs p3 - {pid}\<rparr>)))"

definition or_else :: "nat option pm \<Rightarrow> nat pm \<Rightarrow> nat pm" where
  "or_else m m' = bnd m (\<lambda>r. case r of Some x \<Rightarrow> ret x | None \<Rightarrow> m')"

definition AllocPage :: "Env \<Rightarrow> nat pm" where
  "AllocPage env = writable (\<lambda>p.
     case (if savepointDepth p > 0 then [] else rangeOrder env (loosePages p)) of
       pid # _ \<Rightarrow> (Inr pid, popLoose pid p)
     | [] \<Rightarrow>
         or_else find_claim
           (or_else (reclaim_then env find_claim)
             (or_else (lagging_tier env find_claim) extend_one)) p)"

section \<open>Freeing\<close>

definition retire :: "nat \<Rightarrow> unit pm" where
  "retire pid =
     bnd (\<lambda>p. lift_page (RPLEntriesPerSegment (cfg p)) p) (\<lambda>capPerSeg.
     bnd (\<lambda>p. lift_page (rplReserveBytes p) p) (\<lambda>reserve p.
       if \<not> inCommit p \<and> capPerSeg > 0 \<and> length (retiredPages p) mod capPerSeg = 0 \<and>
          reserve + externalReserve p + int (ps p) > maxBytes p
       then (Inl ErrTxTooLarge, p)
       else (Inr (), p\<lparr>retiredPages := retiredPages p @ [pid]\<rparr>)))"

definition addLoose :: "nat \<Rightarrow> Pager \<Rightarrow> Pager" where
  "addLoose pid p =
     (let p' = p\<lparr>loosePages := insert pid (loosePages p)\<rparr> in
      if pid \<in> loosePages p then p'
      else recordSavepointUndo fieldLoosePages pid False
             (p'\<lparr>tc := (tc p')\<lparr>LoosePages := LoosePages (tc p') + 1\<rparr>\<rparr>))"

definition FreePage :: "nat \<Rightarrow> unit pm" where
  "FreePage pid = writable (\<lambda>p.
     if slab p pid \<noteq> None then (Inr (), delAlloc pid (addLoose pid p))
     else if pid \<in> pendingAllocs p then
       bnd (if activeSavepoints p \<noteq> []
            then upd (\<lambda>p. p\<lparr>deferredFrees := deferredFrees p @ [pid]\<rparr>)
            else with_bitmap (\<lambda>b. Set b pid)) (\<lambda>_.
       upd (delAlloc pid)) p
     else retire pid p)"

definition FreeLeakedPage :: "nat \<Rightarrow> unit pm" where
  "FreeLeakedPage pid = writable (
     bnd (get_bitmap (\<lambda>b. IsSet b pid)) (\<lambda>free.
       if free then throw (ErrAlreadyFree pid) else with_bitmap (\<lambda>b. Set b pid)))"

definition FreeRun :: "nat \<Rightarrow> nat \<Rightarrow> unit pm" where
  "FreeRun firstID n = writable (
     if n = 0 then throw ErrZeroCount else each_pm FreePage [firstID..<firstID + n])"

section \<open>Tail refund and reset\<close>

text \<open>The loop runs at most once per page between the first data page and the high-water mark.\<close>

primrec tail_loop :: "nat \<Rightarrow> unit pm" where
  "tail_loop 0 = ret ()"
| "tail_loop (Suc k) = (\<lambda>p.
     let tail = highWaterMark p - 1 in
     case bmap p of
       None \<Rightarrow> (Inl PanicNil, p)
     | Some b \<Rightarrow>
         if IsSet b tail then
           bnd (with_bitmap (\<lambda>b. Clear b tail)) (\<lambda>_.
           bnd (upd (\<lambda>p. (delFree tail p)\<lparr>highWaterMark := highWaterMark p - 1\<rparr>)) (\<lambda>_.
           tail_loop k)) p
         else if tail \<in> loosePages p then
           bnd (upd (\<lambda>p. (delLoose tail p)\<lparr>highWaterMark := highWaterMark p - 1\<rparr>)) (\<lambda>_.
           tail_loop k) p
         else (Inr (), p))"

definition TailRefund :: "unit pm" where
  "TailRefund = writable (\<lambda>p.
     bnd (get_bitmap firstDataPage) (\<lambda>first. tail_loop (highWaterMark p - first)) p)"

definition ResetFreespace :: "Pager \<Rightarrow> Pager" where
  "ResetFreespace p =
     (if readOnly p then p
      else p\<lparr>pendingAllocs := {}, pendingFrees := {}, loosePages := {}, retiredPages := [], deferredFrees := []\<rparr>)"

section \<open>Contiguous runs\<close>

fun is_panic :: "pg_err \<Rightarrow> bool" where
  "is_panic (PanicBitmap e) = True"
| "is_panic (PanicPage e) = True"
| "is_panic PanicNil = True"
| "is_panic (PanicMmap pid) = True"
| "is_panic (FaultSigbus pid) = True"
| "is_panic PanicUnattached = True"
| "is_panic PanicShallowActive = True"
| "is_panic PanicOutOfOrder = True"
| "is_panic e = False"

text \<open>The source discards the error of \<^verbatim>\<open>reserveBitmapRun\<close> in its two retries; a panic still unwinds.\<close>

definition ignoring :: "unit pm \<Rightarrow> unit pm" where
  "ignoring m p =
     (case m p of
        (Inl e, p') \<Rightarrow> if is_panic e then (Inl e, p') else (Inr (), p')
      | (Inr x, p') \<Rightarrow> (Inr x, p'))"

definition find_reserve_unchecked :: "nat \<Rightarrow> nat option pm" where
  "find_reserve_unchecked n =
     bnd (get_bitmap (\<lambda>b. FindContiguous b (int n))) (\<lambda>r.
       case r of None \<Rightarrow> ret None
       | Some firstID \<Rightarrow> bnd (ignoring (reserveBitmapRun firstID n)) (\<lambda>_. ret (Some firstID)))"

definition find_reserve :: "nat \<Rightarrow> nat option pm" where
  "find_reserve n =
     bnd (get_bitmap (\<lambda>b. FindContiguous b (int n))) (\<lambda>r.
       case r of None \<Rightarrow> ret None
       | Some firstID \<Rightarrow> bnd (reserveBitmapRun firstID n) (\<lambda>_. ret (Some firstID)))"

definition extend_run :: "nat \<Rightarrow> nat pm" where
  "extend_run n p =
     (if highWaterMark p + n > maxSizePages p then (Inl ErrDBFull, p)
      else
        let firstID = highWaterMark p;
            newHWM = highWaterMark p + n;
            undoBaseLen = length (savepointUndoLog p);
            p1 = fold (\<lambda>pid p. recordSavepointUndo fieldPendingAllocs pid False
                          (p\<lparr>pendingAllocs := insert pid (pendingAllocs p)\<rparr>)) [firstID..<newHWM] p;
            p2 = p1\<lparr>highWaterMark := newHWM\<rparr>
        in case ensureFileCovers newHWM p2 of
             (Inr _, p3) \<Rightarrow> (Inr firstID, p3)
           | (Inl e, p3) \<Rightarrow>
               (Inl e, p3\<lparr>pendingAllocs := pendingAllocs p3 - {firstID..<newHWM},
                  savepointUndoLog := take undoBaseLen (savepointUndoLog p3), highWaterMark := firstID\<rparr>))"

definition count_frag_fail :: "nat \<Rightarrow> unit pm" where
  "count_frag_fail n =
     bnd (get_bitmap numFree) (\<lambda>f.
       upd (\<lambda>p. if f \<ge> n then p\<lparr>contigFragFails := contigFragFails p + 1\<rparr> else p))"

definition AllocContiguous :: "Env \<Rightarrow> nat \<Rightarrow> nat pm" where
  "AllocContiguous env n = writable (
     if n = 0 then throw ErrZeroCount
     else if n = 1 then AllocPage env
     else bnd (upd (\<lambda>p. p\<lparr>contigAttempts := contigAttempts p + 1\<rparr>)) (\<lambda>_.
       or_else (find_reserve n)
         (bnd (count_frag_fail n) (\<lambda>_.
          or_else (reclaim_then env (find_reserve_unchecked n))
            (or_else (lagging_tier env (find_reserve_unchecked n)) (extend_run n))))))"

definition ConsumeContiguousAllocStats :: "Pager \<Rightarrow> (nat \<times> nat) \<times> Pager" where
  "ConsumeContiguousAllocStats p =
     ((contigAttempts p, contigFragFails p), p\<lparr>contigAttempts := 0, contigFragFails := 0\<rparr>)"

section \<open>Allocation below a floor\<close>

text \<open>\<^term>\<open>Inr None\<close> is the source's \<^verbatim>\<open>ok = false\<close>.\<close>

definition AllocPageBelow :: "nat \<Rightarrow> nat option pm" where
  "AllocPageBelow floor = writable (
     bnd (get_bitmap (\<lambda>b. FindFirstBelowFrom b 0 floor)) (\<lambda>r.
       case r of None \<Rightarrow> ret None
       | Some pid \<Rightarrow> bnd (claimBitmapPage pid) (\<lambda>_. ret (Some pid))))"

definition AllocContiguousBelow :: "nat \<Rightarrow> nat \<Rightarrow> nat option pm" where
  "AllocContiguousBelow n floor = writable (
     if n = 0 then throw ErrZeroCount
     else if n = 1 then AllocPageBelow floor
     else bnd (get_bitmap (\<lambda>b. FindContiguousBelow b (int n) floor)) (\<lambda>r.
       case r of None \<Rightarrow> ret None
       | Some firstID \<Rightarrow> bnd (reserveBitmapRun firstID n) (\<lambda>_. ret (Some firstID))))"

definition FreePagesBelow :: "Pager \<Rightarrow> nat \<Rightarrow> nat" where
  "FreePagesBelow p floor = (case bmap p of None \<Rightarrow> 0 | Some b \<Rightarrow> CountFreeBelow b floor)"

definition NumFreePages :: "Pager \<Rightarrow> nat" where
  "NumFreePages p = (case bmap p of None \<Rightarrow> 0 | Some b \<Rightarrow> numFree b)"

text \<open>The argument \<open>floor\<close> is the loop variable; the candidate page is the one below it.\<close>

fun evac_loop :: "Bitmap \<Rightarrow> nat \<Rightarrow> nat \<Rightarrow> nat \<Rightarrow> nat \<Rightarrow> nat \<Rightarrow> nat \<Rightarrow> nat \<Rightarrow> nat option \<Rightarrow> nat option" where
  "evac_loop b totalFree firstData budget reserve 0 freeAbove allocAbove best = best"
| "evac_loop b totalFree firstData budget reserve (Suc pid) freeAbove allocAbove best =
     (if Suc pid > firstData then
        let free = IsSet b pid;
            freeAbove' = (if free then freeAbove + 1 else freeAbove);
            allocAbove' = (if free then allocAbove else allocAbove + 1)
        in if \<not> free \<and> allocAbove' > budget then best
           else if allocAbove' = 0 then
             evac_loop b totalFree firstData budget reserve pid freeAbove' allocAbove' best
           else
             evac_loop b totalFree firstData budget reserve pid freeAbove' allocAbove'
               (if totalFree - freeAbove' \<ge> 2 * allocAbove' + reserve then Some pid else best)
      else best)"

definition EvacuationFloor :: "Pager \<Rightarrow> nat \<Rightarrow> nat \<Rightarrow> nat \<Rightarrow> nat option" where
  "EvacuationFloor p firstData budget reserve =
     (case bmap p of
        None \<Rightarrow> None
      | Some b \<Rightarrow>
          if budget = 0 then None
          else let hwm = highWaterMark p in
            if hwm \<le> firstData then None
            else evac_loop b (CountFreeBelow b hwm) firstData budget reserve hwm 0 0 None)"

end
