(* ===== verification/Savepoint.thy ===== *)
theory Savepoint
  imports Freespace
begin

text \<open>
  Savepoints, \<^verbatim>\<open>src/internal/pager/savepoint.go\<close>, and the transaction boundary of
  \<^verbatim>\<open>src/internal/pager/pager.go\<close>: seeding and snapshotting a write transaction, aborting it, and
  the reclamation entry point with its anchor gate. A savepoint handle is the record that \<^verbatim>\<open>Begin\<close>
  returned; the live record, whose loose-pop log grows, is the one on the stack.
\<close>

section \<open>Capturing\<close>

definition captureCore :: "Pager \<Rightarrow> snapshotCore \<times> Pager" where
  "captureCore p =
     (case bmap p of
        None \<Rightarrow> (\<lparr>sc_bitmap = None, sc_highWaterMark = highWaterMark p, sc_rplSegments = rplSegments p\<rparr>, p)
      | Some b \<Rightarrow> (case takeSnapshot b of (s, b') \<Rightarrow>
          (\<lparr>sc_bitmap = Some s, sc_highWaterMark = highWaterMark p, sc_rplSegments = rplSegments p\<rparr>,
           p\<lparr>bmap := Some b'\<rparr>)))"

definition captureSavepointState :: "SavepointKind \<Rightarrow> Pager \<Rightarrow> Savepoint \<times> Pager" where
  "captureSavepointState kind p =
     (case captureCore p of (core, p') \<Rightarrow>
       (\<lparr>sp_id = nextSavepoint p, sp_kind = kind, sp_core = core,
         undoLogPos = length (savepointUndoLog p), retiredLen = length (retiredPages p),
         detachedLen = length (detachedBufs p), deferredLen = length (deferredFrees p),
         loosePopLog = []\<rparr>,
        p'\<lparr>nextSavepoint := Suc (nextSavepoint p)\<rparr>))"

definition BeginSavepoint :: "Savepoint option pm" where
  "BeginSavepoint p =
     (if readOnly p then (Inr None, p)
      else case captureSavepointState SavepointNested p of (sp, p') \<Rightarrow>
        (Inr (Some sp), p'\<lparr>activeSavepoints := activeSavepoints p' @ [sp],
           savepointDepth := savepointDepth p' + 1\<rparr>))"

definition BeginShallowSavepoint :: "Savepoint option pm" where
  "BeginShallowSavepoint p =
     (if readOnly p then (Inr None, p)
      else if list_ex (\<lambda>sp. sp_kind sp = SavepointShallow) (activeSavepoints p)
      then (Inl PanicShallowActive, p)
      else case captureSavepointState SavepointShallow p of (sp, p') \<Rightarrow>
        (Inr (Some sp), p'\<lparr>activeSavepoints := activeSavepoints p' @ [sp]\<rparr>))"

section \<open>Resolving\<close>

definition undo_entry :: "savepointUndoEntry \<Rightarrow> Pager \<Rightarrow> Pager" where
  "undo_entry e p =
     (let key = ue_key e; put = (\<lambda>S. if ue_wasPresent e then insert key S else S - {key}) in
      case ue_field e of
        fieldPendingAllocs \<Rightarrow> p\<lparr>pendingAllocs := put (pendingAllocs p)\<rparr>
      | fieldPendingFrees \<Rightarrow> p\<lparr>pendingFrees := put (pendingFrees p)\<rparr>
      | fieldLoosePages \<Rightarrow> p\<lparr>loosePages := put (loosePages p)\<rparr>
      | fieldDirty \<Rightarrow>
          (case slab p key of
             None \<Rightarrow> p
           | Some b \<Rightarrow> (poolPut b p)\<lparr>slab := (slab p)(key := None)\<rparr>))"

definition undo_pop :: "loosePopEntry \<Rightarrow> Pager \<Rightarrow> Pager" where
  "undo_pop e p =
     (if lp_wasPreWindow e then
        (let p' = (case slab p (lp_id e) of None \<Rightarrow> p | Some cur \<Rightarrow> poolPut cur p)
         in p'\<lparr>slab := (slab p')(lp_id e \<mapsto> lp_buf e)\<rparr>)
      else poolPut (lp_buf e) p)"

definition with_snapshot ::
  "(Bitmap \<Rightarrow> Snapshot \<Rightarrow> bm_panic + Bitmap) \<Rightarrow> Snapshot option \<Rightarrow> unit pm" where
  "with_snapshot f so p =
     (case so of
        None \<Rightarrow> (Inr (), p)
      | Some s \<Rightarrow> if bmap p = None then (Inr (), p) else with_bitmap (\<lambda>b. f b s) p)"

text \<open>Steps 2 to 4 of the source: pop, replay the undo log, replay the loose-pop log.\<close>

definition replay :: "Savepoint \<Rightarrow> Pager \<Rightarrow> Pager" where
  "replay sp p =
     (let p1 = p\<lparr>activeSavepoints := butlast (activeSavepoints p)\<rparr>;
          p2 = fold undo_entry (rev (drop (undoLogPos sp) (savepointUndoLog p1))) p1;
          p3 = p2\<lparr>savepointUndoLog := take (undoLogPos sp) (savepointUndoLog p2)\<rparr>
      in if sp_kind sp = SavepointShallow then fold undo_pop (rev (loosePopLog sp)) p3 else p3)"

definition truncate_lists :: "Savepoint \<Rightarrow> Pager \<Rightarrow> Pager" where
  "truncate_lists sp p =
     (let p1 = p\<lparr>highWaterMark := sc_highWaterMark (sp_core sp), rplSegments := sc_rplSegments (sp_core sp),
                retiredPages := take (retiredLen sp) (retiredPages p)\<rparr>;
          p2 = (if sp_kind sp \<noteq> SavepointShallow
                then fold poolPut (drop (detachedLen sp) (detachedBufs p1)) p1 else p1);
          p3 = p2\<lparr>detachedBufs := take (detachedLen sp) (detachedBufs p2),
                deferredFrees := take (deferredLen sp) (deferredFrees p2)\<rparr>;
          p4 = p3\<lparr>dirtyBytes := int (card (dom (slab p3)) + length (detachedBufs p3)) * int (ps p3)\<rparr>
      in if sp_kind sp = SavepointNested \<and> savepointDepth p4 > 0
         then p4\<lparr>savepointDepth := savepointDepth p4 - 1\<rparr> else p4)"

definition top_is :: "Savepoint \<Rightarrow> Pager \<Rightarrow> bool" where
  "top_is sp p = (activeSavepoints p \<noteq> [] \<and> sp_id (last (activeSavepoints p)) = sp_id sp)"

definition out_of_order :: "Savepoint \<Rightarrow> unit pm" where
  "out_of_order sp = bnd (with_snapshot Discard (sc_bitmap (sp_core sp))) (\<lambda>_. throw PanicOutOfOrder)"

definition RestoreSavepoint :: "Savepoint option \<Rightarrow> unit pm" where
  "RestoreSavepoint spo p =
     (case spo of
        None \<Rightarrow> (Inr (), p)
      | Some h \<Rightarrow>
          if readOnly p then (Inr (), p)
          else if \<not> top_is h p then out_of_order h p
          else let sp = last (activeSavepoints p) in
            bnd (upd (replay sp)) (\<lambda>_.
            bnd (with_snapshot Restore (sc_bitmap (sp_core sp))) (\<lambda>_.
            upd (truncate_lists sp))) p)"

definition ReleaseSavepoint :: "Env \<Rightarrow> Savepoint option \<Rightarrow> unit pm" where
  "ReleaseSavepoint env spo p =
     (case spo of
        None \<Rightarrow> (Inr (), p)
      | Some h \<Rightarrow>
          if readOnly p then (Inr (), p)
          else if \<not> top_is h p then out_of_order h p
          else let sp = last (activeSavepoints p) in
            bnd (upd (\<lambda>p. p\<lparr>activeSavepoints := butlast (activeSavepoints p)\<rparr>)) (\<lambda>_.
            bnd (\<lambda>p.
              if activeSavepoints p = [] then
                bnd (upd (\<lambda>p. p\<lparr>savepointUndoLog := []\<rparr>)) (\<lambda>_ p.
                  if deferredFrees p \<noteq> [] \<and> bmap p \<noteq> None then
                    bnd (each_pm (\<lambda>pid. with_bitmap (\<lambda>b. Set b pid)) (deferredFrees p)) (\<lambda>_.
                    upd (\<lambda>p. p\<lparr>deferredFrees := []\<rparr>)) p
                  else (Inr (), p)) p
              else (Inr (), p)) (\<lambda>_.
            bnd (with_snapshot Discard (sc_bitmap (sp_core sp))) (\<lambda>_.
            bnd (upd (\<lambda>p. if sp_kind sp = SavepointNested \<and> savepointDepth p > 0
                          then p\<lparr>savepointDepth := savepointDepth p - 1\<rparr> else p)) (\<lambda>_.
            SpillExcess env)))) p)"

definition SavepointDepth :: "Pager \<Rightarrow> nat" where
  "SavepointDepth p = savepointDepth p"

definition ActiveSavepointCount :: "Pager \<Rightarrow> nat" where
  "ActiveSavepointCount p = length (activeSavepoints p)"

section \<open>The transaction boundary\<close>

definition AttachBitmap :: "Bitmap \<Rightarrow> Pager \<Rightarrow> Pager" where
  "AttachBitmap b p = p\<lparr>bmap := Some b\<rparr>"

definition SetCommitState :: "nat \<Rightarrow> nat \<Rightarrow> nat \<Rightarrow> Pager \<Rightarrow> Pager" where
  "SetCommitState hwm maxSize bound p =
     p\<lparr>highWaterMark := hwm, maxSizePages := maxSize, reclamationBound := bound\<rparr>"

definition setSizeParams :: "nat \<Rightarrow> nat \<Rightarrow> Pager \<Rightarrow> Pager" where
  "setSizeParams growStep minSize p = p\<lparr>growStepPages := growStep, minSizePages := minSize\<rparr>"

definition SetRPLChain :: "RPLSegmentRef list \<Rightarrow> Pager \<Rightarrow> Pager" where
  "SetRPLChain segs p = p\<lparr>rplSegments := segs\<rparr>"

definition RPLPageCount :: "Pager \<Rightarrow> nat" where
  "RPLPageCount p = sum_list (map ref_Count (rplSegments p))"

record TxParams =
  tp_HighWaterMark :: nat
  tp_MaxSize :: nat
  tp_GrowStep :: nat
  tp_MinSize :: nat
  tp_TxnID :: nat
  tp_ReclamationBound :: "(nat \<Rightarrow> nat) option"
  tp_LaggingReader :: "(nat \<Rightarrow> LaggingReaderInfo \<Rightarrow> LaggingReaderAction) option"
  tp_ShrinkGate :: "(nat \<Rightarrow> bool) option"

definition zeroStats :: TxStats where
  "zeroStats = \<lparr>CowPages = 0, LoosePages = 0, ReclaimedPages = 0, WrittenPages = 0, SlabPeakBytes = 0, SpilledPages = 0\<rparr>"

definition seedTx :: "TxParams \<Rightarrow> Pager \<Rightarrow> Pager" where
  "seedTx params p =
     (let p1 = p\<lparr>highWaterMark := tp_HighWaterMark params, maxSizePages := tp_MaxSize params,
                growStepPages := tp_GrowStep params, minSizePages := tp_MinSize params,
                currentTxnID := tp_TxnID params, rplRelocFloor := 0,
                refreshBound := tp_ReclamationBound params, laggingReader := tp_LaggingReader params,
                shrinkGate := tp_ShrinkGate params\<rparr>
      in case tp_ReclamationBound params of
           Some f \<Rightarrow> p1\<lparr>reclamationBound := f (callbackCalls p1), callbackCalls := callbackCalls p1 + 1\<rparr>
         | None \<Rightarrow> p1\<lparr>reclamationBound := 0\<rparr>)"

definition BeginTx :: "TxParams \<Rightarrow> unit pm" where
  "BeginTx params =
     bnd (upd (\<lambda>p. resetVerified (p\<lparr>tc := zeroStats, externalReserve := 0, inCommit := False, spillErr := None\<rparr>))) (\<lambda>_ p.
       if readOnly p then (Inr (), p)
       else if bmap p = None then (Inl PanicUnattached, p)
       else bnd (upd (seedTx params)) (\<lambda>_.
            bnd (\<lambda>p. case txSnapshot p of
                       None \<Rightarrow> (Inr (), p)
                     | Some c \<Rightarrow> (case sc_bitmap c of
                           None \<Rightarrow> (Inl (PanicBitmap PanicDiscard), p)
                         | Some s \<Rightarrow> with_bitmap (\<lambda>b. Discard b s) p)) (\<lambda>_.
            upd (\<lambda>p. case captureCore p of (c, p') \<Rightarrow> p'\<lparr>txSnapshot := Some c\<rparr>))) p)"

definition restoreCore :: "snapshotCore \<Rightarrow> unit pm" where
  "restoreCore c =
     bnd (case sc_bitmap c of
            None \<Rightarrow> throw (PanicBitmap PanicRestore)
          | Some s \<Rightarrow> with_bitmap (\<lambda>b. Restore b s)) (\<lambda>_.
     upd (\<lambda>p. p\<lparr>highWaterMark := sc_highWaterMark c, rplSegments := sc_rplSegments c\<rparr>))"

definition AbortTx :: "Env \<Rightarrow> unit pm" where
  "AbortTx env p =
     (if readOnly p then (Inr (), p)
      else bnd (\<lambda>p. case txSnapshot p of
                      Some c \<Rightarrow> if bmap p \<noteq> None then restoreCore c p else (Inr (), p)
                    | None \<Rightarrow> (Inr (), p)) (\<lambda>_.
        upd (\<lambda>p. let p1 = p\<lparr>txSnapshot := None, tc := (tc p)\<lparr>SlabPeakBytes := 0\<rparr>\<rparr>;
                     p2 = ResetFreespace (ReleaseAll env p1)
                 in p2\<lparr>rplRelocFloor := 0, currentTxnID := 0, savepointDepth := 0,
                       activeSavepoints := [], savepointUndoLog := []\<rparr>)) p)"

definition discardTxSnapshot :: "unit pm" where
  "discardTxSnapshot =
     bnd (\<lambda>p. case txSnapshot p of
                Some c \<Rightarrow>
                  if bmap p \<noteq> None then
                    (case sc_bitmap c of
                       None \<Rightarrow> (Inl (PanicBitmap PanicDiscard), p)
                     | Some s \<Rightarrow> with_bitmap (\<lambda>b. Discard b s) p)
                  else (Inr (), p)
              | None \<Rightarrow> (Inr (), p)) (\<lambda>_.
     upd (\<lambda>p. p\<lparr>txSnapshot := None, activeSavepoints := [], savepointUndoLog := []\<rparr>))"

section \<open>Anchoring and eager reclamation\<close>

definition advanceAnchoredEpoch :: "nat \<Rightarrow> Pager \<Rightarrow> Pager" where
  "advanceAnchoredEpoch e p = (if e > anchoredEpoch p then p\<lparr>anchoredEpoch := e\<rparr> else p)"

definition noteAdoptedMeta :: "Meta \<Rightarrow> int \<Rightarrow> Pager \<Rightarrow> Pager" where
  "noteAdoptedMeta m slot p = p\<lparr>adoptedMeta := m, adoptedSlot := slot\<rparr>"

definition gate_wanted :: "Pager \<Rightarrow> bool" where
  "gate_wanted p =
     (let m = adoptedMeta p; durable = unat (d_TxnID (m_Durable m)) in
      if readOnly p \<or> adoptedSlot p < 0 then False
      else if \<not> SelfDurable m \<or> anchoredEpoch p \<ge> durable then False
      else if reclamationBound p < anchoredEpoch p then False
      else case rplSegments p of
          [] \<Rightarrow> False
        | seg # _ \<Rightarrow> \<not> (ref_TxnID seg < anchoredEpoch p \<or> ref_TxnID seg \<ge> durable))"

text \<open>A failed read, write or sync only means that the anchor does not advance.\<close>

definition gateAnchorAdvance :: "Env \<Rightarrow> bool pm" where
  "gateAnchorAdvance env p =
     (if \<not> gate_wanted p then (Inr False, p)
      else
        let m = adoptedMeta p; off = nat (adoptedSlot p) * ps p in
        case EncodeMeta (xxh3 env) (replicate (ps p) 0) m of
          Inl e \<Rightarrow> (Inl (PanicPage e), p)
        | Inr (buf, m') \<Rightarrow>
            (case ReadAt (ps p) off (fops p) of (onDisk, fo1) \<Rightarrow>
              let p1 = p\<lparr>fops := fo1\<rparr> in
              if onDisk \<noteq> Some buf then (Inr False, p1)
              else case write_at buf off p1 of
                  (Inl _, p2) \<Rightarrow> (Inr False, p2)
                | (Inr _, p2) \<Rightarrow>
                    (case fdatasync p2 of
                       (Inl _, p3) \<Rightarrow> (Inr False, p3)
                     | (Inr _, p3) \<Rightarrow> (Inr True, advanceAnchoredEpoch (unat (d_TxnID (m_Durable m))) p3))))"

definition maybe_refresh :: "unit pm" where
  "maybe_refresh p = (case refreshBound p of None \<Rightarrow> (Inr (), p) | Some f \<Rightarrow> refresh f p)"

definition ReclaimFreeSpace :: "Env \<Rightarrow> nat pm" where
  "ReclaimFreeSpace env =
     bnd maybe_refresh (\<lambda>_.
     bnd (gateAnchorAdvance env) (\<lambda>advanced.
     bnd (if advanced then maybe_refresh else ret ()) (\<lambda>_.
     reclaimRPL env)))"

end
