(* ===== verification/Commit.thy ===== *)
theory Commit
  imports Savepoint
begin

text \<open>
  The commit pipeline, \<^verbatim>\<open>src/internal/pager/commit.go\<close>, with the relocation of the retired-page chain
  it may run, \<^verbatim>\<open>src/internal/pager/rplreloc.go\<close>: assembly (step 0), writing the pages (step 1), the data
  sync (step 2), publishing the meta page (step 3), the meta sync (step 4), and the shrink.
\<close>

section \<open>Relocating the chain prefix\<close>

definition RequestRPLRelocation :: "nat \<Rightarrow> Pager \<Rightarrow> Pager" where
  "RequestRPLRelocation floor p = p\<lparr>rplRelocFloor := floor, rplRelocDeclined := False\<rparr>"

definition RPLRelocationDeclined :: "Pager \<Rightarrow> bool" where
  "RPLRelocationDeclined p = rplRelocDeclined p"

definition RPLSegmentsAtOrAbove :: "nat \<Rightarrow> Pager \<Rightarrow> nat" where
  "RPLSegmentsAtOrAbove floor p = length (filter (\<lambda>seg. ref_PageID seg \<ge> floor) (rplSegments p))"

definition RPLRelocationPrefixLen :: "nat \<Rightarrow> Pager \<Rightarrow> nat" where
  "RPLRelocationPrefixLen floor p = length (dropWhile (\<lambda>seg. ref_PageID seg < floor) (rplSegments p))"

fun probe_homes :: "Bitmap \<Rightarrow> nat \<Rightarrow> nat \<Rightarrow> nat \<Rightarrow> nat list option" where
  "probe_homes b floor 0 from = Some []"
| "probe_homes b floor (Suc k) from =
     (case FindFirstBelowFrom b from floor of
        None \<Rightarrow> None
      | Some pid \<Rightarrow> map_option (Cons pid) (probe_homes b floor k (pid + 1)))"

primrec probe_segments :: "Env \<Rightarrow> RPLSegmentRef list \<Rightarrow> RPLSegment list option pm" where
  "probe_segments env [] = ret (Some [])"
| "probe_segments env (ref # refs) =
     bnd (read_segment env (ref_PageID ref)) (\<lambda>r.
       case r of
         None \<Rightarrow> ret None
       | Some seg \<Rightarrow> bnd (probe_segments env refs) (\<lambda>rest. ret (map_option (Cons seg) rest)))"

definition decline :: "unit pm" where
  "decline = upd (\<lambda>p. p\<lparr>rplRelocDeclined := True\<rparr>)"

definition encode_into :: "nat \<Rightarrow> nat \<Rightarrow> nat \<Rightarrow> nat list \<Rightarrow> unit pm" where
  "encode_into b txnID olderID ids p =
     bnd (lift_page (EncodeRPLSegment (bufs p b) (cfg p) (word_of_nat txnID) (word_of_nat olderID)
            (map word_of_nat ids))) (\<lambda>buf.
     upd (store_buf b buf)) p"

text \<open>Copying one segment to its home; the arguments are its index, the home, and the copy before it.\<close>

definition copy_segment :: "nat \<Rightarrow> nat \<Rightarrow> nat option \<Rightarrow> RPLSegment \<Rightarrow> unit pm" where
  "copy_segment idx newID prevNew seg =
     bnd (get (\<lambda>p. ref_PageID (rplSegments p ! idx))) (\<lambda>oldID.
     bnd (with_bitmap (\<lambda>b. Clear b newID)) (\<lambda>_.
     bnd (with_bitmap (\<lambda>b. Inr (SetHint b newID))) (\<lambda>_.
     bnd (upd (\<lambda>p. delFree newID (addAlloc newID p))) (\<lambda>_.
     bnd (AllocSlab newID) (\<lambda>b.
     bnd (encode_into b (unat (seg_TxnID seg))
            (case prevNew of None \<Rightarrow> unat (seg_OlderSegment seg) | Some q \<Rightarrow> q) (seg_ids seg)) (\<lambda>_.
     upd (\<lambda>p. p\<lparr>retiredPages := retiredPages p @ [oldID],
                rplSegments := (rplSegments p)[idx := (rplSegments p ! idx)\<lparr>ref_PageID := newID\<rparr>]\<rparr>)))))))"

fun copy_segments :: "nat \<Rightarrow> nat list \<Rightarrow> nat option \<Rightarrow> RPLSegment list \<Rightarrow> unit pm" where
  "copy_segments idx (newID # homes) prevNew (seg # segs) =
     bnd (copy_segment idx newID prevNew seg) (\<lambda>_. copy_segments (idx + 1) homes (Some newID) segs)"
| "copy_segments idx homes prevNew segs = ret ()"

definition relocateRPLPrefix :: "Env \<Rightarrow> unit pm" where
  "relocateRPLPrefix env p0 =
     (let floor = rplRelocFloor p0 in
      if floor = 0 then (Inr (), p0)
      else
        let p = p0\<lparr>rplRelocFloor := 0\<rparr>;
            pre = dropWhile (\<lambda>seg. ref_PageID seg < floor) (rplSegments p);
            j = length (rplSegments p) - length pre;
            k = length pre
        in if pre = [] then (Inr (), p)
           else bnd (\<lambda>p. lift_page (RPLEntriesPerSegment (cfg p)) p) (\<lambda>capPerSeg p.
             if capPerSeg \<le> 0 then decline p
             else
               let segPages = (length (retiredPages p) + k + capPerSeg - 1) div capPerSeg in
               if dirtyBytes p + int (k + segPages) * int (ps p) > maxBytes p then decline p
               else bnd (get_bitmap (\<lambda>b. (probe_homes b floor k 0, numFree b))) (\<lambda>(homes, nfree) p.
                 case homes of
                   None \<Rightarrow> decline p
                 | Some hs \<Rightarrow>
                     let extHeadroom = maxSizePages p - highWaterMark p in
                     if nfree - k + extHeadroom < segPages then decline p
                     else bnd (probe_segments env pre) (\<lambda>segs p.
                       case segs of
                         None \<Rightarrow> decline p
                       | Some ss \<Rightarrow> copy_segments j hs None ss p) p) p) p)"

section \<open>Step 0\<close>

definition headPageID :: "Pager \<Rightarrow> nat" where
  "headPageID p = (if rplSegments p = [] then 0 else ref_PageID (last (rplSegments p)))"

primrec alloc_many :: "Env \<Rightarrow> nat \<Rightarrow> nat list pm" where
  "alloc_many env 0 = ret []"
| "alloc_many env (Suc k) = bnd (AllocPage env) (\<lambda>pid. bnd (alloc_many env k) (\<lambda>rest. ret (pid # rest)))"

text \<open>The encoding phase: the ids not yet placed, the reserved pages, and the page linked to.\<close>

fun build_segments :: "nat \<Rightarrow> nat list \<Rightarrow> nat list \<Rightarrow> nat \<Rightarrow> RPLSegmentRef list pm" where
  "build_segments capPerSeg ids [] olderID = ret []"
| "build_segments capPerSeg ids (segPageID # rest) olderID =
     bnd (AllocSlab segPageID) (\<lambda>b.
       if olderID = segPageID then throw (ErrSelfReference segPageID)
       else bnd (get currentTxnID) (\<lambda>txn.
         bnd (encode_into b txn olderID (take capPerSeg ids)) (\<lambda>_.
         bnd (build_segments capPerSeg (drop capPerSeg ids) rest segPageID) (\<lambda>refs.
         ret (\<lparr>ref_PageID = segPageID, ref_TxnID = txn, ref_Count = length (take capPerSeg ids)\<rparr> # refs)))))"

definition appendRPL :: "Env \<Rightarrow> unit pm" where
  "appendRPL env =
     bnd (\<lambda>p. lift_page (RPLEntriesPerSegment (cfg p)) p) (\<lambda>capPerSeg p.
       if capPerSeg \<le> 0 then (Inl ErrSegmentCapacity, p)
       else if currentTxnID p = 0 then (Inl ErrTxnIDUnseeded, p)
       else
         let ids = sort (retiredPages p);
             numSegs = (length ids + capPerSeg - 1) div capPerSeg
         in bnd (alloc_many env numSegs) (\<lambda>segPageIDs.
            bnd (get headPageID) (\<lambda>prevHead.
            bnd (build_segments capPerSeg ids segPageIDs prevHead) (\<lambda>newSegs.
            upd (\<lambda>p. p\<lparr>rplSegments := rplSegments p @ newSegs, retiredPages := []\<rparr>)))) p)"

definition free_loose :: "nat \<Rightarrow> unit pm" where
  "free_loose pid =
     bnd (with_bitmap (\<lambda>b. Set b pid)) (\<lambda>_.
     upd (\<lambda>p. p\<lparr>pendingFrees := insert pid (pendingFrees p), loosePages := loosePages p - {pid}\<rparr>))"

definition sweep_one :: "nat \<Rightarrow> Pager \<Rightarrow> Pager" where
  "sweep_one pid p = (if pid \<in> pendingFrees p \<or> pid \<ge> highWaterMark p then DiscardSlab pid p else p)"

definition commitStep0 :: "Env \<Rightarrow> unit pm" where
  "commitStep0 env =
     bnd TailRefund (\<lambda>_.
     bnd (\<lambda>p. each_pm free_loose (rangeOrder env (loosePages p)) p) (\<lambda>_.
     bnd (upd (\<lambda>p. fold sweep_one (rangeOrder env (dom (slab p))) p)) (\<lambda>_.
     bnd (relocateRPLPrefix env) (\<lambda>_ p.
       if retiredPages p \<noteq> [] then appendRPL env p else (Inr (), p)))))"

section \<open>Step 1\<close>

definition write_slab :: "Env \<Rightarrow> nat \<Rightarrow> unit pm" where
  "write_slab env pid p =
     (case slab p pid of
        None \<Rightarrow> (Inr (), p)
      | Some b \<Rightarrow>
          bnd (stamp env (bufs p b)) (\<lambda>buf.
          bnd (upd (store_buf b buf)) (\<lambda>_.
          write_at buf (pid * ps p))) p)"

definition write_bitmap_page :: "nat \<Rightarrow> unit pm" where
  "write_bitmap_page idx p =
     bnd (get_bitmap (\<lambda>b. PageBytes b idx)) (\<lambda>r.
       case r of
         Inl e \<Rightarrow> throw (PanicBitmap e)
       | Inr d \<Rightarrow> write_at d ((2 + idx) * ps p)) p"

definition commitStep1 :: "Env \<Rightarrow> nat pm" where
  "commitStep1 env p =
     bnd (each_pm (write_slab env) (rangeOrder env (dom (slab p)))) (\<lambda>_.
     bnd (get_bitmap DirtyPages) (\<lambda>idxs.
     bnd (each_pm write_bitmap_page idxs) (\<lambda>_.
     ret (card (dom (slab p)) + length idxs)))) p"

section \<open>The new meta page\<close>

datatype SyncPolicy = SyncBoth | SyncDataOnly | SyncNone

record MetaFileFormat =
  ff_MinSize :: u64
  ff_GrowStep :: u64
  ff_ShrinkThreshold :: u64

record CommitParams =
  cp_NewTxnID :: u64
  cp_KeyspaceRoot :: u64
  cp_NumKeyspaces :: u64
  cp_Flags :: u32
  cp_Sync :: SyncPolicy
  cp_SetFileFormat :: "MetaFileFormat option"

definition buildNewMeta :: "CommitParams \<Rightarrow> Meta \<Rightarrow> Pager \<Rightarrow> Meta" where
  "buildNewMeta cp prev p =
     (let segs = rplSegments p;
          tailID = (if segs = [] then 0 else ref_PageID (hd segs));
          headTxnID = (if segs = [] then 0 else ref_TxnID (last segs));
          fmt = (case cp_SetFileFormat cp of
                   Some f \<Rightarrow> f
                 | None \<Rightarrow> \<lparr>ff_MinSize = m_MinSize prev, ff_GrowStep = m_GrowStep prev,
                            ff_ShrinkThreshold = m_ShrinkThreshold prev\<rparr>);
          m = \<lparr>m_Magic = Magic, m_Version = FormatVersion, m_PageSize = PageSize (cfg p),
               m_Flags = cp_Flags cp, m_BitmapPages = m_BitmapPages prev, m_UUID = m_UUID prev,
               m_MinSize = ff_MinSize fmt, m_MaxSize = m_MaxSize prev, m_GrowStep = ff_GrowStep fmt,
               m_ShrinkThreshold = ff_ShrinkThreshold fmt,
               m_HighWaterMark = word_of_nat (highWaterMark p),
               m_RPLHeadPage = word_of_nat (headPageID p), m_RPLHeadTxnID = word_of_nat headTxnID,
               m_RPLTailPage = word_of_nat tailID, m_RPLEntryCount = word_of_nat (RPLPageCount p),
               m_NumFreePages = word_of_nat (NumFreePages p),
               m_KeyspaceRoot = cp_KeyspaceRoot cp, m_NumKeyspaces = cp_NumKeyspaces cp,
               m_TxnID = cp_NewTxnID cp, m_Durable = m_Durable prev, m_Checksum = 0\<rparr>;
          d = (if cp_Sync cp \<noteq> SyncNone then LiveSubRecord m else m_Durable prev)
      in m\<lparr>m_Durable := d\<lparr>d_AnchoredTxnID := word_of_nat (anchoredEpoch p)\<rparr>\<rparr>)"

section \<open>Shrinking\<close>

text \<open>The gate either runs the truncation or defers it; its error is ignored by \<^verbatim>\<open>Commit\<close>.\<close>

definition shrinkTarget :: "Pager \<Rightarrow> nat" where
  "shrinkTarget p = max (alignUp (highWaterMark p) (growStepPages p)) (minSizePages p) * ps p"

definition shrinkWanted :: "nat \<Rightarrow> Pager \<Rightarrow> bool" where
  "shrinkWanted threshold p =
     (threshold \<noteq> 0 \<and> \<not> shrinkTarget p \<ge> fileSize p \<and>
      \<not> fileSize p - shrinkTarget p < threshold * ps p)"

definition maybeShrink :: "nat \<Rightarrow> Pager \<Rightarrow> Pager" where
  "maybeShrink threshold p =
     (if \<not> shrinkWanted threshold p then p
      else
        let run = (case shrinkGate p of None \<Rightarrow> True | Some g \<Rightarrow> g (callbackCalls p));
            p1 = (if shrinkGate p = None then p else p\<lparr>callbackCalls := callbackCalls p + 1\<rparr>)
        in if \<not> run then p1
           else case Truncate (shrinkTarget p) (fops p1) of (ok, fo) \<Rightarrow>
             if ok then p1\<lparr>fops := fo, fileSize := shrinkTarget p\<rparr> else p1\<lparr>fops := fo\<rparr>)"

section \<open>Commit\<close>

record CommitResult =
  cr_Meta :: Meta
  cr_ActiveMetaIdx :: nat

text \<open>An error aborts the transaction and is returned; a panic unwinds.\<close>

definition or_abort :: "Env \<Rightarrow> (pg_err \<Rightarrow> pg_err) \<Rightarrow> 'a pm \<Rightarrow> 'a pm" where
  "or_abort env wrap m p =
     (case m p of
        (Inr x, p') \<Rightarrow> (Inr x, p')
      | (Inl e, p') \<Rightarrow>
          if is_panic e then (Inl e, p')
          else (case AbortTx env p' of
                  (Inl e', p'') \<Rightarrow> (Inl e', p'')
                | (Inr _, p'') \<Rightarrow> (Inl (wrap e), p'')))"

definition finish :: "Env \<Rightarrow> Meta \<Rightarrow> nat \<Rightarrow> unit pm" where
  "finish env prev nWritten =
     bnd (upd (maybeShrink (unat (m_ShrinkThreshold prev)))) (\<lambda>_.
     bnd (upd (\<lambda>p. p\<lparr>tc := (tc p)\<lparr>WrittenPages := nWritten + 1\<rparr>\<rparr>)) (\<lambda>_.
     bnd discardTxSnapshot (\<lambda>_.
     bnd (upd (ReleaseAll env)) (\<lambda>_.
     bnd (with_bitmap (\<lambda>b. Inr (ClearDirty b))) (\<lambda>_.
     upd (\<lambda>p. (ResetFreespace p)\<lparr>currentTxnID := 0\<rparr>))))))"

definition data_sync :: "Env \<Rightarrow> CommitParams \<Rightarrow> Meta \<Rightarrow> unit pm" where
  "data_sync env cp prev =
     (if cp_Sync cp \<noteq> SyncNone then
        bnd (or_abort env (\<lambda>e. e) fdatasync) (\<lambda>_.
        upd (advanceAnchoredEpoch (unat (d_TxnID (m_Durable prev)))))
      else ret ())"

definition meta_sync :: "Env \<Rightarrow> CommitParams \<Rightarrow> Meta \<Rightarrow> unit pm" where
  "meta_sync env cp newMeta =
     (if cp_Sync cp = SyncBoth then
        bnd (or_abort env (\<lambda>_. ErrMetaFsyncFailed) fdatasync) (\<lambda>_.
        upd (advanceAnchoredEpoch (unat (d_TxnID (m_Durable newMeta)))))
      else ret ())"

definition publish :: "Env \<Rightarrow> CommitParams \<Rightarrow> Meta \<Rightarrow> nat \<Rightarrow> Meta pm" where
  "publish env cp prev newActive p =
     bnd (lift_page (EncodeMeta (xxh3 env) (replicate (ps p) 0) (buildNewMeta cp prev p))) (\<lambda>(metaBuf, newMeta).
     bnd (or_abort env (\<lambda>e. e) (write_at metaBuf (newActive * ps p))) (\<lambda>_.
     bnd (upd (noteAdoptedMeta newMeta (int newActive))) (\<lambda>_.
     ret newMeta))) p"

definition commit_body :: "Env \<Rightarrow> CommitParams \<Rightarrow> Meta \<Rightarrow> nat \<Rightarrow> CommitResult pm" where
  "commit_body env cp prev prevActive =
     (let newActive = 1 - prevActive in
      bnd (or_abort env (\<lambda>e. e) (commitStep0 env)) (\<lambda>_.
      bnd (or_abort env (\<lambda>e. e) (commitStep1 env)) (\<lambda>nWritten.
      bnd (data_sync env cp prev) (\<lambda>_.
      bnd (publish env cp prev newActive) (\<lambda>newMeta.
      bnd (meta_sync env cp newMeta) (\<lambda>_.
      bnd (finish env prev nWritten) (\<lambda>_.
      ret \<lparr>cr_Meta = newMeta, cr_ActiveMetaIdx = newActive\<rparr>)))))))"

definition Commit :: "Env \<Rightarrow> CommitParams \<Rightarrow> Meta \<Rightarrow> nat \<Rightarrow> CommitResult pm" where
  "Commit env cp prev prevActive = writable (\<lambda>p.
     if cp_NewTxnID cp \<le> m_TxnID prev then (Inl ErrTxnIDOrder, p)
     else case commit_body env cp prev prevActive (p\<lparr>inCommit := True\<rparr>) of
            (r, p') \<Rightarrow> (r, p'\<lparr>inCommit := False\<rparr>))"

end
