(* ===== verification/Pager_Rel.thy ===== *)
theory Pager_Rel
  imports Commit
begin

text \<open>
  Reasoning about pager operations by the relation between the pager before and after. An
  operation that is a sequence of calls satisfies a reflexive and transitive relation when each
  call does; assertions about intermediate states carry what one call establishes for the next.
  The relation holds on every exit, errors and panics included.
\<close>

definition tri :: "(Pager \<Rightarrow> Pager \<Rightarrow> bool) \<Rightarrow> (Pager \<Rightarrow> bool) \<Rightarrow> 'a pm \<Rightarrow> ('a \<Rightarrow> Pager \<Rightarrow> bool) \<Rightarrow> bool" where
  "tri R P m Q \<longleftrightarrow> (\<forall>p r p'. P p \<longrightarrow> m p = (r, p') \<longrightarrow> R p p' \<and> (\<forall>x. r = Inr x \<longrightarrow> Q x p'))"

lemma triI:
  "(\<And>p r p'. P p \<Longrightarrow> m p = (r, p') \<Longrightarrow> R p p' \<and> (\<forall>x. r = Inr x \<longrightarrow> Q x p')) \<Longrightarrow> tri R P m Q"
  unfolding tri_def by blast

lemma triD: "tri R P m Q \<Longrightarrow> P p \<Longrightarrow> m p = (r, p') \<Longrightarrow> R p p'"
  unfolding tri_def by blast

lemma triD_post: "tri R P m Q \<Longrightarrow> P p \<Longrightarrow> m p = (Inr x, p') \<Longrightarrow> Q x p'"
  unfolding tri_def by blast

lemma tri_weaken: "tri R P m Q \<Longrightarrow> (\<And>p. P' p \<Longrightarrow> P p) \<Longrightarrow> (\<And>x p. Q x p \<Longrightarrow> Q' x p) \<Longrightarrow> tri R P' m Q'"
  unfolding tri_def by blast

lemma tri_pre: "tri R P m Q \<Longrightarrow> (\<And>p. P' p \<Longrightarrow> P p) \<Longrightarrow> tri R P' m Q"
  unfolding tri_def by blast

lemma tri_state: "(\<And>p0. P p0 \<Longrightarrow> tri R (\<lambda>p. p = p0) m Q) \<Longrightarrow> tri R P m Q"
  unfolding tri_def by blast

lemma tri_fun: "(\<And>p0. P p0 \<Longrightarrow> tri R (\<lambda>p. p = p0) (m p0) Q) \<Longrightarrow> tri R P (\<lambda>p. m p p) Q"
  unfolding tri_def by blast

lemma tri_if: "(b \<Longrightarrow> tri R P m Q) \<Longrightarrow> (\<not> b \<Longrightarrow> tri R P m' Q) \<Longrightarrow> tri R P (if b then m else m') Q"
  by simp

lemma tri_option:
  "(x = None \<Longrightarrow> tri R P m Q) \<Longrightarrow> (\<And>y. x = Some y \<Longrightarrow> tri R P (f y) Q) \<Longrightarrow>
   tri R P (case x of None \<Rightarrow> m | Some y \<Rightarrow> f y) Q"
  by (cases x) simp_all

lemma tri_upd: "(\<And>p. P p \<Longrightarrow> R p (f p) \<and> Q () (f p)) \<Longrightarrow> tri R P (upd f) Q"
  by (auto simp: tri_def upd_def)

locale step_rel =
  fixes R :: "Pager \<Rightarrow> Pager \<Rightarrow> bool"
  assumes refl: "R p p"
    and trans: "R p q \<Longrightarrow> R q r \<Longrightarrow> R p r"
begin

lemma tri_ret: "(\<And>p. P p \<Longrightarrow> Q x p) \<Longrightarrow> tri R P (ret x) Q"
  by (auto simp: tri_def ret_def refl)

lemma tri_throw: "tri R P (throw e) Q"
  by (auto simp: tri_def throw_def refl)

lemma tri_get: "(\<And>p. P p \<Longrightarrow> Q (f p) p) \<Longrightarrow> tri R P (get f) Q"
  by (auto simp: tri_def get_def refl)

lemma tri_get_bitmap: "(\<And>p b. P p \<Longrightarrow> bmap p = Some b \<Longrightarrow> Q (f b) p) \<Longrightarrow> tri R P (get_bitmap f) Q"
  by (auto simp: tri_def get_bitmap_def refl split: option.splits)

lemma tri_raw: "(\<And>p buf. P p \<Longrightarrow> pageRaw p pid = Inr buf \<Longrightarrow> Q buf p) \<Longrightarrow> tri R P (raw pid) Q"
  by (auto simp: tri_def raw_def refl)

lemma tri_lift_page: "(\<And>p x. P p \<Longrightarrow> r = Inr x \<Longrightarrow> Q x p) \<Longrightarrow> tri R P (lift_page r) Q"
  by (cases r) (auto simp: lift_page_def tri_def ret_def throw_def refl)

lemma tri_bnd: "tri R P m Q \<Longrightarrow> (\<And>x. tri R (Q x) (f x) S) \<Longrightarrow> tri R P (bnd m f) S"
proof (rule triI)
  fix p r p'
  assume m: "tri R P m Q" and f: "\<And>x. tri R (Q x) (f x) S" and p: "P p" and e: "bnd m f p = (r, p')"
  show "R p p' \<and> (\<forall>x. r = Inr x \<longrightarrow> S x p')"
  proof (cases "m p")
    case (Pair a q)
    show ?thesis
    proof (cases a)
      case (Inl err)
      then show ?thesis using m p e Pair by (auto simp: bnd_def tri_def)
    next
      case (Inr x)
      then have "R p q" "Q x q" using m p Pair by (auto simp: tri_def)
      moreover have "f x q = (r, p')" using e Pair Inr by (simp add: bnd_def)
      ultimately show ?thesis using f [of x] trans by (auto simp: tri_def)
    qed
  qed
qed

lemma tri_each:
  "(\<And>x. x \<in> set xs \<Longrightarrow> tri R P (f x) (\<lambda>_. P)) \<Longrightarrow> tri R P (each_pm f xs) (\<lambda>_. P)"
proof (induction xs)
  case Nil
  then show ?case by (simp add: tri_ret)
next
  case (Cons x xs)
  then show ?case by (auto intro!: tri_bnd)
qed

lemma tri_writable:
  "(\<And>b. tri R (\<lambda>p. P p \<and> \<not> readOnly p \<and> bmap p \<noteq> None) m Q) \<Longrightarrow> tri R P (writable m) Q"
  by (auto simp: tri_def writable_def refl)

lemma tri_or_else: "tri R P m (\<lambda>r p. case r of Some x \<Rightarrow> S x p | None \<Rightarrow> Q p) \<Longrightarrow> tri R Q m' S \<Longrightarrow> tri R P (or_else m m') S"
  unfolding or_else_def
  by (erule tri_bnd) (auto intro: tri_ret split: option.splits)

lemma tri_ignoring: "tri R P m Q \<Longrightarrow> (\<And>p. Q' p) \<Longrightarrow> tri R P (ignoring m) (\<lambda>_. Q')"
  by (auto simp: tri_def ignoring_def split: prod.splits sum.splits if_splits)

lemmas tri_rules = tri_ret tri_throw tri_get tri_get_bitmap tri_raw tri_lift_page

end

end
