(* ===== verification/Window.thy ===== *)
theory Window
  imports Pager_Rel
begin

text \<open>
  What an open savepoint would restore, as a function of the current state, and the relation that
  every operation inside its window satisfies: nothing an open savepoint would restore changes.
  A slab buffer may only disappear, and only under nested savepoints, because it was spilled to
  its page of the file.
\<close>

section \<open>What a savepoint would restore\<close>

definition undo1 :: "savepointUndoField \<Rightarrow> savepointUndoEntry \<Rightarrow> nat set \<Rightarrow> nat set" where
  "undo1 f e S = (if ue_field e = f then (if ue_wasPresent e then insert (ue_key e) S else S - {ue_key e}) else S)"

definition undo_set :: "savepointUndoField \<Rightarrow> savepointUndoEntry list \<Rightarrow> nat set \<Rightarrow> nat set" where
  "undo_set f es S = fold (undo1 f) (rev es) S"

definition dirty_keys :: "savepointUndoEntry list \<Rightarrow> nat set" where
  "dirty_keys es = {ue_key e | e. e \<in> set es \<and> ue_field e = fieldDirty}"

definition pop1 :: "loosePopEntry \<Rightarrow> (nat \<rightharpoonup> nat) \<Rightarrow> (nat \<rightharpoonup> nat)" where
  "pop1 e m = (if lp_wasPreWindow e then m(lp_id e \<mapsto> lp_buf e) else m)"

definition shallow :: "Savepoint \<Rightarrow> bool" where
  "shallow sp \<longleftrightarrow> sp_kind sp = SavepointShallow"

definition win :: "Savepoint \<Rightarrow> Pager \<Rightarrow> savepointUndoEntry list" where
  "win sp p = drop (undoLogPos sp) (savepointUndoLog p)"

definition back_slab :: "Savepoint \<Rightarrow> Pager \<Rightarrow> (nat \<rightharpoonup> nat)" where
  "back_slab sp p =
     (let m = slab p |` (- dirty_keys (win sp p)) in
      if shallow sp then fold pop1 (rev (loosePopLog sp)) m else m)"

definition back_sets :: "Savepoint \<Rightarrow> Pager \<Rightarrow> nat set \<times> nat set \<times> nat set" where
  "back_sets sp p =
     (undo_set fieldPendingAllocs (win sp p) (pendingAllocs p),
      undo_set fieldPendingFrees (win sp p) (pendingFrees p),
      undo_set fieldLoosePages (win sp p) (loosePages p))"

definition back_lists :: "Savepoint \<Rightarrow> Pager \<Rightarrow> nat list \<times> nat list \<times> nat list \<times> savepointUndoEntry list" where
  "back_lists sp p =
     (take (retiredLen sp) (retiredPages p), take (deferredLen sp) (deferredFrees p),
      take (detachedLen sp) (detachedBufs p), take (undoLogPos sp) (savepointUndoLog p))"

section \<open>The invariant of the savepoint stack\<close>

definition marks_ok :: "Pager \<Rightarrow> bool" where
  "marks_ok p \<longleftrightarrow>
     sorted (map undoLogPos (activeSavepoints p) @ [length (savepointUndoLog p)]) \<and>
     sorted (map retiredLen (activeSavepoints p) @ [length (retiredPages p)]) \<and>
     sorted (map deferredLen (activeSavepoints p) @ [length (deferredFrees p)]) \<and>
     sorted (map detachedLen (activeSavepoints p) @ [length (detachedBufs p)])"

definition stack_ok :: "Pager \<Rightarrow> bool" where
  "stack_ok p \<longleftrightarrow>
     distinct (map sp_id (activeSavepoints p)) \<and> (\<forall>sp \<in> set (activeSavepoints p). sp_id sp < nextSavepoint p) \<and>
     length (filter shallow (activeSavepoints p)) \<le> 1 \<and>
     savepointDepth p = length (filter (\<lambda>sp. \<not> shallow sp) (activeSavepoints p)) \<and>
     (\<forall>sp \<in> set (tl (activeSavepoints p)). loosePopLog sp = [])"

definition log_ok :: "Pager \<Rightarrow> bool" where
  "log_ok p \<longleftrightarrow> (\<forall>e \<in> set (savepointUndoLog p). ue_field e = fieldDirty \<longrightarrow> \<not> ue_wasPresent e)"

definition snaps_at :: "Pager \<Rightarrow> Snapshot option list" where
  "snaps_at p = map (\<lambda>sp. sc_bitmap (sp_core sp)) (activeSavepoints p)"

definition bitmap_ok :: "Pager \<Rightarrow> bool" where
  "bitmap_ok p \<longleftrightarrow> (\<exists>b pre. bmap p = Some b \<and> bm_inv b \<and> map Some (openSnapshots b) = pre @ snaps_at p)"

definition ids_below :: "nat \<Rightarrow> nat set \<times> nat set \<times> nat set \<Rightarrow> (nat \<rightharpoonup> nat) \<Rightarrow> bool" where
  "ids_below n sets m \<longleftrightarrow> (case sets of (A, F, L) \<Rightarrow> A \<union> L \<union> dom m \<subseteq> {..<n})"

definition below_ok :: "Pager \<Rightarrow> bool" where
  "below_ok p \<longleftrightarrow>
     pendingAllocs p \<union> loosePages p \<union> dom (slab p) \<subseteq> {..<highWaterMark p} \<and>
     (\<forall>sp \<in> set (activeSavepoints p). ids_below (sc_highWaterMark (sp_core sp)) (back_sets sp p) (back_slab sp p))"

definition sp_inv :: "Pager \<Rightarrow> bool" where
  "sp_inv p \<longleftrightarrow> \<not> readOnly p \<and> marks_ok p \<and> stack_ok p \<and> log_ok p \<and> bitmap_ok p \<and> below_ok p \<and>
     finite (loosePages p) \<and> finite (dom (slab p))"

section \<open>The window relation\<close>

definition strip :: "Savepoint \<Rightarrow> Savepoint" where
  "strip sp = sp\<lparr>loosePopLog := []\<rparr>"

definition kept_sp :: "Pager \<Rightarrow> Pager \<Rightarrow> Savepoint \<Rightarrow> Savepoint \<Rightarrow> bool" where
  "kept_sp p p' sp sp' \<longleftrightarrow>
     strip sp' = strip sp \<and> back_sets sp' p' = back_sets sp p \<and> back_lists sp' p' = back_lists sp p \<and>
     back_slab sp' p' \<subseteq>\<^sub>m back_slab sp p \<and> (shallow sp \<longrightarrow> back_slab sp' p' = back_slab sp p)"

definition bm_moves :: "Pager \<Rightarrow> Pager \<Rightarrow> bool" where
  "bm_moves p p' \<longleftrightarrow> (\<forall>b. bmap p = Some b \<longrightarrow> (\<exists>b'. bmap p' = Some b' \<and> bm_work\<^sup>*\<^sup>* b b' \<and> openSnapshots b' = openSnapshots b))"

definition fixed_fields :: "Pager \<Rightarrow> Config \<times> nat \<times> snapshotCore option \<times> nat" where
  "fixed_fields p = (cfg p, savepointDepth p, txSnapshot p, nextSavepoint p)"

definition window :: "Pager \<Rightarrow> Pager \<Rightarrow> bool" where
  "window p p' \<longleftrightarrow> (sp_inv p \<longrightarrow>
     sp_inv p' \<and> list_all2 (kept_sp p p') (activeSavepoints p) (activeSavepoints p') \<and>
     bm_moves p p' \<and> fixed_fields p' = fixed_fields p \<and> highWaterMark p \<le> highWaterMark p' \<and>
     (savepointDepth p \<noteq> 0 \<longrightarrow> activeSavepoints p' = activeSavepoints p))"

lemma kept_sp_refl: "kept_sp p p sp sp"
  by (simp add: kept_sp_def)

lemma kept_sp_trans: "kept_sp p q a b \<Longrightarrow> kept_sp q r b c \<Longrightarrow> kept_sp p r a c"
proof -
  assume "kept_sp p q a b" "kept_sp q r b c"
  moreover have "strip b = strip a \<Longrightarrow> shallow b = shallow a"
    by (cases a; cases b) (simp add: strip_def shallow_def)
  ultimately show ?thesis unfolding kept_sp_def by (metis map_le_trans)
qed

lemma bm_moves_trans: "bm_moves p q \<Longrightarrow> bm_moves q r \<Longrightarrow> bm_moves p r"
  unfolding bm_moves_def by (metis rtranclp_trans)

interpretation wrel: step_rel window
proof
  show "window p p" for p
    by (auto simp: window_def bm_moves_def list_all2_same kept_sp_refl)
  show "window p r" if pq: "window p q" and qr: "window q r" for p q r
    unfolding window_def
  proof (intro impI conjI)
    assume "sp_inv p"
    then have p: "list_all2 (kept_sp p q) (activeSavepoints p) (activeSavepoints q)" "bm_moves p q"
      "fixed_fields q = fixed_fields p" "highWaterMark p \<le> highWaterMark q" "sp_inv q"
      "savepointDepth p \<noteq> 0 \<longrightarrow> activeSavepoints q = activeSavepoints p"
      using pq by (simp_all add: window_def)
    then have q: "list_all2 (kept_sp q r) (activeSavepoints q) (activeSavepoints r)" "bm_moves q r"
      "fixed_fields r = fixed_fields q" "highWaterMark q \<le> highWaterMark r" "sp_inv r"
      "savepointDepth q \<noteq> 0 \<longrightarrow> activeSavepoints r = activeSavepoints q"
      using qr by (simp_all add: window_def)
    show "list_all2 (kept_sp p r) (activeSavepoints p) (activeSavepoints r)"
      by (rule list_all2_trans [OF kept_sp_trans p(1) q(1)])
    show "bm_moves p r" using p(2) q(2) by (rule bm_moves_trans)
    show "fixed_fields r = fixed_fields p" "highWaterMark p \<le> highWaterMark r" "sp_inv r" using p q by simp_all
    have "savepointDepth q = savepointDepth p" using p(3) by (simp add: fixed_fields_def)
    then show "savepointDepth p \<noteq> 0 \<Longrightarrow> activeSavepoints r = activeSavepoints p" using p(6) q(6) by simp
  qed
qed


section \<open>Single changes\<close>

definition others :: "Pager \<Rightarrow> _" where
  "others p = (readOnly p, bmap p, retiredPages p, deferredFrees p, detachedBufs p, fixed_fields p)"

lemma marks_le:
  assumes "marks_ok p" "sp \<in> set (activeSavepoints p)"
  shows "undoLogPos sp \<le> length (savepointUndoLog p)" "retiredLen sp \<le> length (retiredPages p)"
    "deferredLen sp \<le> length (deferredFrees p)" "detachedLen sp \<le> length (detachedBufs p)"
  using assms by (auto simp: marks_ok_def sorted_append)

lemma sorted_grow: "sorted (xs @ [n]) \<Longrightarrow> n \<le> m \<Longrightarrow> sorted (xs @ [m :: nat])"
  by (auto simp: sorted_append intro: order_trans)

lemma undo_set_snoc [simp]: "undo_set f (es @ [e]) S = undo_set f es (undo1 f e S)"
  by (simp add: undo_set_def)

lemma dirty_keys_append [simp]: "dirty_keys (es @ fs) = dirty_keys es \<union> dirty_keys fs"
  by (auto simp: dirty_keys_def)

lemma dirty_keys_one [simp]:
  "dirty_keys [e] = (if ue_field e = fieldDirty then {ue_key e} else {})" "dirty_keys [] = {}"
  by (auto simp: dirty_keys_def)

lemma restrict_UNIV [simp]: "m |` UNIV = m"
  by (simp add: restrict_map_def)

lemma ids_below_mono: "ids_below n S m \<Longrightarrow> m' \<subseteq>\<^sub>m m \<Longrightarrow> ids_below n S m'"
  using map_le_implies_dom_le [of m' m] unfolding ids_below_def by (cases S) (simp, blast)

lemma kept_ids_below:
  assumes "kept_sp p p' sp sp'" "ids_below (sc_highWaterMark (sp_core sp)) (back_sets sp p) (back_slab sp p)"
  shows "ids_below (sc_highWaterMark (sp_core sp')) (back_sets sp' p') (back_slab sp' p')"
proof -
  have "sp_core sp' = sp_core sp"
    using assms(1) by (cases sp; cases sp') (simp add: kept_sp_def strip_def)
  then show ?thesis using assms ids_below_mono by (simp add: kept_sp_def)
qed

lemma others_eqD:
  assumes "others p' = others p"
  shows "readOnly p' = readOnly p" "bmap p' = bmap p" "retiredPages p' = retiredPages p"
    "deferredFrees p' = deferredFrees p" "detachedBufs p' = detachedBufs p"
    "fixed_fields p' = fixed_fields p" "savepointDepth p' = savepointDepth p" "nextSavepoint p' = nextSavepoint p"
  using assms by (auto simp: others_def fixed_fields_def)

text \<open>
  The general case: the stack, the bitmap and the lists stay, the log grows by entries that undo
  the change of the sets, and the slab loses nothing an open savepoint would restore.
\<close>

lemma window_log_general:
  assumes st: "activeSavepoints p' = activeSavepoints p" and ot: "others p' = others p"
    and lg: "savepointUndoLog p' = savepointUndoLog p @ es"
    and sets: "activeSavepoints p \<noteq> [] \<Longrightarrow> undo_set fieldPendingAllocs es (pendingAllocs p') = pendingAllocs p \<and>
        undo_set fieldPendingFrees es (pendingFrees p') = pendingFrees p \<and>
        undo_set fieldLoosePages es (loosePages p') = loosePages p"
    and sl: "activeSavepoints p \<noteq> [] \<Longrightarrow> slab p' |` (- dirty_keys es) \<subseteq>\<^sub>m slab p \<and>
        (slab p' |` (- dirty_keys es) = slab p |` (- dirty_keys es) \<and> slab p |` (- dirty_keys es) = slab p \<or>
         filter shallow (activeSavepoints p) = [])"
    and es: "\<forall>e \<in> set es. ue_field e = fieldDirty \<longrightarrow> \<not> ue_wasPresent e"
    and hw: "highWaterMark p \<le> highWaterMark p'"
    and bel: "pendingAllocs p' \<union> loosePages p' \<union> dom (slab p') \<subseteq>
        pendingAllocs p \<union> loosePages p \<union> dom (slab p) \<union> {..<highWaterMark p'}"
    and fin: "finite (loosePages p) \<Longrightarrow> finite (loosePages p')" "finite (dom (slab p)) \<Longrightarrow> finite (dom (slab p'))"
  shows "window p p'"
  unfolding window_def
proof (intro impI conjI)
  assume inv: "sp_inv p"
  note o = others_eqD [OF ot]
  have mk: "marks_ok p" using inv by (simp add: sp_inv_def)
  have undo_app: "undo_set f (xs @ ys) S = undo_set f xs (undo_set f ys S)" for f xs ys S
    by (simp add: undo_set_def)
  have kept: "kept_sp p p' sp sp" if sp: "sp \<in> set (activeSavepoints p)" for sp
  proof -
    have ne: "activeSavepoints p \<noteq> []" using sp by auto
    have le: "undoLogPos sp \<le> length (savepointUndoLog p)" using marks_le [OF mk sp] by simp
    have w: "win sp p' = win sp p @ es" using le lg by (simp add: win_def)
    have bs: "back_sets sp p' = back_sets sp p"
      using sets [OF ne] by (simp add: back_sets_def w undo_app)
    have bl: "back_lists sp p' = back_lists sp p" using le o lg by (simp add: back_lists_def)
    let ?m = "slab p |` (- dirty_keys (win sp p))" and ?m' = "slab p' |` (- dirty_keys (win sp p'))"
    have m': "?m' = (slab p' |` (- dirty_keys es)) |` (- dirty_keys (win sp p))"
      by (simp add: w Int_commute)
    have le': "?m' \<subseteq>\<^sub>m ?m" using sl [OF ne] unfolding m' by (auto simp: map_le_def restrict_map_def dom_def split: if_splits)
    have eq: "shallow sp \<Longrightarrow> ?m' = ?m"
    proof -
      assume "shallow sp"
      then have "filter shallow (activeSavepoints p) \<noteq> []" using sp by (auto simp: filter_empty_conv)
      then show ?thesis using sl [OF ne] unfolding m' by metis
    qed
    show ?thesis using bs bl le' eq by (auto simp: kept_sp_def back_slab_def Let_def)
  qed
  then show la: "list_all2 (kept_sp p p') (activeSavepoints p) (activeSavepoints p')"
    by (simp add: st list_all2_same)
  show "bm_moves p p'" using o by (auto simp: bm_moves_def)
  show "fixed_fields p' = fixed_fields p" using o by simp
  show "highWaterMark p \<le> highWaterMark p'" by (rule hw)
  show "activeSavepoints p' = activeSavepoints p" by (rule st)
  have "marks_ok p'"
    using mk lg st o sorted_grow [of "map undoLogPos (activeSavepoints p)" "length (savepointUndoLog p)"]
    by (simp add: marks_ok_def)
  moreover have "stack_ok p'" "log_ok p'" "bitmap_ok p'"
    using inv st o lg es by (auto simp: sp_inv_def stack_ok_def log_ok_def bitmap_ok_def snaps_at_def)
  moreover have "below_ok p'"
  proof -
    have "ids_below (sc_highWaterMark (sp_core sp)) (back_sets sp p') (back_slab sp p')"
      if sp: "sp \<in> set (activeSavepoints p)" for sp
      using kept_ids_below [OF kept [OF sp]] inv sp by (simp add: sp_inv_def below_ok_def)
    moreover have "pendingAllocs p \<union> loosePages p \<union> dom (slab p) \<subseteq> {..<highWaterMark p}"
      using inv by (simp add: sp_inv_def below_ok_def)
    moreover have "{..<highWaterMark p} \<subseteq> {..<highWaterMark p'}" using hw by auto
    ultimately show ?thesis using bel st unfolding below_ok_def by (metis (no_types, lifting) Un_subset_iff subset_trans sup.absorb_iff2)
  qed
  ultimately show "sp_inv p'" using inv fin o by (simp add: sp_inv_def)
qed

text \<open>No logged change at all.\<close>

lemma window_frame:
  assumes "activeSavepoints p' = activeSavepoints p" "others p' = others p"
    "savepointUndoLog p' = savepointUndoLog p" "pendingAllocs p' = pendingAllocs p"
    "pendingFrees p' = pendingFrees p" "loosePages p' = loosePages p" "slab p' = slab p"
    "highWaterMark p \<le> highWaterMark p'"
  shows "window p p'"
  by (rule window_log_general [where es = "[]"]) (use assms in \<open>auto simp: undo_set_def\<close>)


lemma window_addAlloc: "pid < highWaterMark p \<Longrightarrow> window p (addAlloc pid p)"
  by (rule window_log_general [where es = "if activeSavepoints p = [] \<or> pid \<in> pendingAllocs p then []
        else [\<lparr>ue_field = fieldPendingAllocs, ue_key = pid, ue_wasPresent = False\<rparr>]"])
    (auto simp: addAlloc_def recordSavepointUndo_def others_def fixed_fields_def undo_set_def undo1_def Let_def)

lemma window_delAlloc: "window p (delAlloc pid p)"
  by (rule window_log_general [where es = "if activeSavepoints p = [] \<or> pid \<notin> pendingAllocs p then []
        else [\<lparr>ue_field = fieldPendingAllocs, ue_key = pid, ue_wasPresent = True\<rparr>]"])
    (auto simp: delAlloc_def recordSavepointUndo_def others_def fixed_fields_def undo_set_def undo1_def Let_def)

lemma window_delFree: "window p (delFree pid p)"
  by (rule window_log_general [where es = "if activeSavepoints p = [] \<or> pid \<notin> pendingFrees p then []
        else [\<lparr>ue_field = fieldPendingFrees, ue_key = pid, ue_wasPresent = True\<rparr>]"])
    (auto simp: delFree_def recordSavepointUndo_def others_def fixed_fields_def undo_set_def undo1_def Let_def)

lemma window_delLoose: "pid \<in> loosePages p \<Longrightarrow> window p (delLoose pid p)"
  by (rule window_log_general [where es = "if activeSavepoints p = [] then []
        else [\<lparr>ue_field = fieldLoosePages, ue_key = pid, ue_wasPresent = True\<rparr>]"])
    (auto simp: delLoose_def recordSavepointUndo_def others_def fixed_fields_def undo_set_def undo1_def)

lemma window_addLoose: "pid < highWaterMark p \<Longrightarrow> window p (addLoose pid p)"
  by (rule window_log_general [where es = "if activeSavepoints p = [] \<or> pid \<in> loosePages p then []
        else [\<lparr>ue_field = fieldLoosePages, ue_key = pid, ue_wasPresent = False\<rparr>]"])
    (auto simp: addLoose_def recordSavepointUndo_def others_def fixed_fields_def undo_set_def undo1_def Let_def)

lemma window_install:
  assumes "slab p pid = None" "pid < highWaterMark p"
  shows "window p (recordSavepointUndo fieldDirty pid False (install pid b p))" (is "window p ?p")
proof -
  define es where "es = (if activeSavepoints p = [] then []
    else [\<lparr>ue_field = fieldDirty, ue_key = pid, ue_wasPresent = False\<rparr>])"
  have "(slab p)(pid \<mapsto> b) |` (- {pid}) = slab p |` (- {pid})" "slab p |` (- {pid}) = slab p"
    using assms(1) by (auto simp: restrict_map_def fun_eq_iff)
  then have "slab ?p |` (- dirty_keys es) \<subseteq>\<^sub>m slab p \<and>
      slab ?p |` (- dirty_keys es) = slab p |` (- dirty_keys es) \<and> slab p |` (- dirty_keys es) = slab p"
    if "activeSavepoints p \<noteq> []"
    using that by (simp add: install_def recordSavepointUndo_def es_def)
  then show ?thesis
    by (intro window_log_general [where es = es]; use assms in
        \<open>auto simp: install_def recordSavepointUndo_def others_def fixed_fields_def undo_set_def undo1_def es_def\<close>)
qed

lemma window_drop:
  assumes "filter shallow (activeSavepoints p) = []"
  shows "window p (p\<lparr>slab := (slab p)(pid := None)\<rparr>)" (is "window p ?p")
proof -
  have "slab ?p \<subseteq>\<^sub>m slab p" by (auto simp: map_le_def)
  moreover have "finite (dom (slab p)) \<Longrightarrow> finite (dom (slab ?p))"
    by (rule finite_subset [of _ "dom (slab p)"]) auto
  ultimately show ?thesis
    by (intro window_log_general [where es = "[]"]; use assms in
        \<open>auto simp: others_def fixed_fields_def undo_set_def split: if_splits\<close>)
qed

text \<open>Changes of the bitmap and growth of the append-only lists.\<close>

lemma window_unlogged:
  assumes st: "activeSavepoints p' = activeSavepoints p" and lg: "savepointUndoLog p' = savepointUndoLog p"
    and same: "pendingAllocs p' = pendingAllocs p" "pendingFrees p' = pendingFrees p" "loosePages p' = loosePages p"
      "slab p' = slab p" "highWaterMark p' = highWaterMark p" "detachedBufs p' = detachedBufs p"
      "readOnly p' = readOnly p" "fixed_fields p' = fixed_fields p"
    and ls: "retiredPages p' = retiredPages p @ xs" "deferredFrees p' = deferredFrees p @ ys"
    and bm: "bm_moves p p'"
  shows "window p p'"
  unfolding window_def
proof (intro impI conjI)
  assume inv: "sp_inv p"
  have mk: "marks_ok p" using inv by (simp add: sp_inv_def)
  have w: "win sp p' = win sp p" for sp by (simp add: win_def lg)
  have bk: "back_sets sp p' = back_sets sp p" "back_slab sp p' = back_slab sp p" for sp
    by (simp_all add: back_sets_def back_slab_def w same)
  have "back_lists sp p' = back_lists sp p" if "sp \<in> set (activeSavepoints p)" for sp
    using marks_le [OF mk that] by (simp add: back_lists_def ls same lg)
  then show "list_all2 (kept_sp p p') (activeSavepoints p) (activeSavepoints p')"
    using bk by (simp add: st list_all2_same kept_sp_def)
  show "bm_moves p p'" "fixed_fields p' = fixed_fields p" "highWaterMark p \<le> highWaterMark p'"
    using bm same by simp_all
  show "activeSavepoints p' = activeSavepoints p" by (rule st)
  have "marks_ok p'" using mk by (auto simp: marks_ok_def st lg ls same intro: sorted_grow)
  moreover have "stack_ok p'" "log_ok p'"
    using inv same by (auto simp: sp_inv_def stack_ok_def log_ok_def st lg fixed_fields_def)
  moreover have "bitmap_ok p'"
    using inv bm st steps_inv by (fastforce simp: sp_inv_def bitmap_ok_def bm_moves_def snaps_at_def)
  moreover have "below_ok p'" using inv by (simp add: sp_inv_def below_ok_def bk same st)
  ultimately show "sp_inv p'" using inv same by (simp add: sp_inv_def)
qed

lemma window_bitmap:
  assumes "bmap p = Some b" "bm_work\<^sup>*\<^sup>* b b'" "openSnapshots b' = openSnapshots b"
  shows "window p (p\<lparr>bmap := Some b'\<rparr>)"
  by (rule window_unlogged [where xs = "[]" and ys = "[]"])
    (use assms in \<open>auto simp: bm_moves_def fixed_fields_def\<close>)

lemma window_retire: "window p (p\<lparr>retiredPages := retiredPages p @ [pid]\<rparr>)"
  by (rule window_unlogged [where xs = "[pid]" and ys = "[]"]) (auto simp: bm_moves_def fixed_fields_def)

lemma window_defer: "window p (p\<lparr>deferredFrees := deferredFrees p @ [pid]\<rparr>)"
  by (rule window_unlogged [where xs = "[]" and ys = "[pid]"]) (auto simp: bm_moves_def fixed_fields_def)


section \<open>Popping a loose page\<close>

lemma log_pop_fields [simp]:
  "strip (log_pop pid b log sp) = strip sp" "sp_id (log_pop pid b log sp) = sp_id sp"
  "sp_kind (log_pop pid b log sp) = sp_kind sp" "sp_core (log_pop pid b log sp) = sp_core sp"
  "undoLogPos (log_pop pid b log sp) = undoLogPos sp" "retiredLen (log_pop pid b log sp) = retiredLen sp"
  "detachedLen (log_pop pid b log sp) = detachedLen sp" "deferredLen (log_pop pid b log sp) = deferredLen sp"
  "shallow (log_pop pid b log sp) = shallow sp"
  by (simp_all add: log_pop_def strip_def shallow_def)

lemma kept_detach:
  assumes b: "slab p pid = Some b" and sh: "shallow sp" and le: "detachedLen sp \<le> length (detachedBufs p)"
    and lg: "log_ok p" and sp': "sp' = log_pop pid b (savepointUndoLog p) sp"
  shows "kept_sp p (detach pid p) sp sp'"
proof -
  let ?p = "detach pid p" and ?K = "dirty_keys (win sp p)"
  have f: "savepointUndoLog ?p = savepointUndoLog p" "slab ?p = (slab p)(pid := None)"
    "detachedBufs ?p = detachedBufs p @ [b]" "pendingAllocs ?p = pendingAllocs p"
    "pendingFrees ?p = pendingFrees p" "loosePages ?p = loosePages p"
    "retiredPages ?p = retiredPages p" "deferredFrees ?p = deferredFrees p"
    using b by (simp_all add: detach_def)
  have w: "win sp' ?p = win sp p" by (simp add: win_def f sp')
  have pre: "list_ex (\<lambda>e. ue_field e = fieldDirty \<and> ue_key e = pid \<and> \<not> ue_wasPresent e) (win sp p) \<longleftrightarrow> pid \<in> ?K"
    using lg by (auto simp: list_ex_iff dirty_keys_def log_ok_def win_def dest: in_set_dropD)
  have "loosePopLog sp' = loosePopLog sp @ [\<lparr>lp_id = pid, lp_buf = b, lp_wasPreWindow = pid \<notin> ?K\<rparr>]"
    using sh pre by (simp add: sp' log_pop_def shallow_def win_def)
  moreover have "pop1 \<lparr>lp_id = pid, lp_buf = b, lp_wasPreWindow = pid \<notin> ?K\<rparr> (slab ?p |` (- ?K)) = slab p |` (- ?K)"
    using b by (auto simp: f pop1_def restrict_map_def fun_eq_iff)
  moreover have "shallow sp'" using sh by (simp add: sp')
  ultimately have "back_slab sp' ?p = back_slab sp p"
    using sh by (simp add: back_slab_def w Let_def del: restrict_fun_upd)
  moreover have "back_sets sp' ?p = back_sets sp p" "back_lists sp' ?p = back_lists sp p"
    using le by (simp_all add: back_sets_def back_lists_def w f) (simp_all add: sp')
  ultimately show ?thesis by (simp add: kept_sp_def) (simp add: sp')
qed

lemma window_detach:
  assumes "savepointDepth p = 0"
  shows "window p (detach pid p)"
proof (cases "slab p pid")
  case None
  then show ?thesis by (simp add: detach_def wrel.refl)
next
  case (Some b)
  let ?p = "detach pid p" and ?pop = "log_pop pid b (savepointUndoLog p)"
  have f: "savepointUndoLog ?p = savepointUndoLog p" "slab ?p = (slab p)(pid := None)"
    "detachedBufs ?p = detachedBufs p @ [b]" "activeSavepoints ?p = map ?pop (activeSavepoints p)"
    "fixed_fields ?p = fixed_fields p" "savepointDepth ?p = savepointDepth p" "nextSavepoint ?p = nextSavepoint p"
    "highWaterMark ?p = highWaterMark p" "bmap ?p = bmap p" "readOnly ?p = readOnly p" "pendingAllocs ?p = pendingAllocs p"
    "loosePages ?p = loosePages p" "retiredPages ?p = retiredPages p" "deferredFrees ?p = deferredFrees p"
    using Some by (simp_all add: detach_def fixed_fields_def)
  have comp: "sp_id \<circ> ?pop = sp_id" "undoLogPos \<circ> ?pop = undoLogPos" "retiredLen \<circ> ?pop = retiredLen"
    "deferredLen \<circ> ?pop = deferredLen" "detachedLen \<circ> ?pop = detachedLen" "shallow \<circ> ?pop = shallow"
    "(\<lambda>sp. \<not> shallow sp) \<circ> ?pop = (\<lambda>sp. \<not> shallow sp)"
    by (simp_all add: fun_eq_iff)
  show ?thesis
    unfolding window_def
  proof (intro impI conjI)
    assume inv: "sp_inv p"
    have mk: "marks_ok p" and lg: "log_ok p" using inv by (simp_all add: sp_inv_def)
    have kept: "kept_sp p ?p sp (?pop sp)" if sp: "sp \<in> set (activeSavepoints p)" for sp
    proof -
      have "shallow sp" using inv assms sp by (auto simp: sp_inv_def stack_ok_def filter_empty_conv)
      then show ?thesis using kept_detach [OF Some _ _ lg refl] marks_le [OF mk sp] by blast
    qed
    then show "list_all2 (kept_sp p ?p) (activeSavepoints p) (activeSavepoints ?p)"
      by (simp add: f list_all2_conv_all_nth)
    show "bm_moves p ?p" by (simp add: bm_moves_def f)
    show "fixed_fields ?p = fixed_fields p" "highWaterMark p \<le> highWaterMark ?p" by (simp_all add: f)
    show "savepointDepth p \<noteq> 0 \<Longrightarrow> activeSavepoints ?p = activeSavepoints p" using assms by simp
    have "length (activeSavepoints p) \<le> 1"
      using inv assms sum_length_filter_compl [of shallow "activeSavepoints p"] by (simp add: sp_inv_def stack_ok_def)
    then have tl: "tl (activeSavepoints p) = []" by (cases "activeSavepoints p") auto
    have "marks_ok ?p"
      using mk by (auto simp: marks_ok_def f comp intro: sorted_grow)
    moreover have "stack_ok ?p"
      using inv by (auto simp: sp_inv_def stack_ok_def f comp filter_map tl simp flip: map_tl)
    moreover have "log_ok ?p" "bitmap_ok ?p"
      using inv by (auto simp: sp_inv_def log_ok_def bitmap_ok_def snaps_at_def f comp_def)
    moreover have "below_ok ?p"
      using inv kept_ids_below [OF kept] by (auto simp: sp_inv_def below_ok_def f split: if_splits)
    moreover have "finite (dom (slab p)) \<Longrightarrow> finite (dom (slab ?p))" by (simp add: f)
    ultimately show "sp_inv ?p" using inv by (simp add: sp_inv_def f)
  qed
qed

lemma window_popLoose:
  assumes "sp_inv p" "savepointDepth p = 0" "pid \<in> loosePages p"
  shows "window p (popLoose pid p)"
proof -
  let ?p1 = "delLoose pid p" and ?p2 = "detach pid (delLoose pid p)"
  have "pid < highWaterMark p" using assms(1,3) by (auto simp: sp_inv_def below_ok_def)
  then have "pid < highWaterMark ?p2" "savepointDepth ?p1 = 0"
    using assms(2) by (simp_all add: delLoose_def detach_def recordSavepointUndo_def split: option.splits)
  then show ?thesis unfolding popLoose_def
    using window_delLoose [OF assms(3)] window_detach [of ?p1 pid] window_addAlloc [of pid ?p2]
      window_delFree [of "addAlloc pid ?p2" pid]
    by (meson wrel.trans)
qed

end
