(* ===== verification/Window_Ops.thy ===== *)
theory Window_Ops
  imports Window
begin

text \<open>
  Every operation of the allocator and of the slab satisfies the window relation: it keeps the
  stack invariant and everything an open savepoint would restore, on success and on every error.
\<close>

section \<open>Operations inside a window\<close>

definition at_least :: "nat \<Rightarrow> Pager \<Rightarrow> bool" where
  "at_least n p \<longleftrightarrow> sp_inv p \<and> n \<le> highWaterMark p"

definition wop :: "nat \<Rightarrow> 'a pm \<Rightarrow> bool" where
  "wop n m \<longleftrightarrow> tri window (at_least n) m (\<lambda>_. at_least n)"

lemma wopI:
  assumes "\<And>p r p'. sp_inv p \<Longrightarrow> n \<le> highWaterMark p \<Longrightarrow> m p = (r, p') \<Longrightarrow> window p p'"
  shows "wop n m"
  unfolding wop_def
proof (rule triI)
  fix p r p'
  assume a: "at_least n p" "m p = (r, p')"
  then have "window p p'" using assms by (auto simp: at_least_def)
  then show "window p p' \<and> (\<forall>x. r = Inr x \<longrightarrow> at_least n p')"
    using a by (auto simp: window_def at_least_def)
qed

lemma wopD: "wop n m \<Longrightarrow> sp_inv p \<Longrightarrow> n \<le> highWaterMark p \<Longrightarrow> m p = (r, p') \<Longrightarrow> window p p'"
  unfolding wop_def by (erule triD) (simp_all add: at_least_def)

lemma wop_mono: "wop n m \<Longrightarrow> n \<le> n' \<Longrightarrow> wop n' m"
  by (rule wopI) (erule wopD, simp_all)

lemma wop_bnd: "wop n m \<Longrightarrow> (\<And>x. wop n (f x)) \<Longrightarrow> wop n (bnd m f)"
  unfolding wop_def by (rule wrel.tri_bnd)

lemma wop_raise: "tri window (at_least n) m (\<lambda>_. at_least k) \<Longrightarrow> (\<And>x. wop k (f x)) \<Longrightarrow> wop n (bnd m f)"
proof (rule wopI)
  fix p r p'
  assume m: "tri window (at_least n) m (\<lambda>_. at_least k)" and f: "\<And>x. wop k (f x)"
    and p: "sp_inv p" "n \<le> highWaterMark p" and e: "bnd m f p = (r, p')"
  have "tri window (at_least n) (bnd m f) (\<lambda>_. at_least k)"
    using wrel.tri_bnd [OF m] f unfolding wop_def by blast
  moreover have "at_least n p" using p by (simp add: at_least_def)
  ultimately show "window p p'" using e by (rule triD)
qed

lemma wop_ret [simp]: "wop n (ret x)"
  unfolding wop_def by (rule wrel.tri_ret)

lemma wop_throw [simp]: "wop n (throw e)"
  unfolding wop_def by (rule wrel.tri_throw)

lemma wop_get [simp]: "wop n (get f)"
  unfolding wop_def by (rule wrel.tri_get)

lemma wop_get_bitmap [simp]: "wop n (get_bitmap f)"
  unfolding wop_def by (rule wrel.tri_get_bitmap)

lemma wop_raw [simp]: "wop n (raw pid)"
  unfolding wop_def by (rule wrel.tri_raw)

lemma wop_lift_page [simp]: "wop n (lift_page r)"
  unfolding wop_def by (rule wrel.tri_lift_page)

lemma wop_upd: "(\<And>p. sp_inv p \<Longrightarrow> n \<le> highWaterMark p \<Longrightarrow> window p (f p)) \<Longrightarrow> wop n (upd f)"
  by (rule wopI) (auto simp: upd_def)

lemma wop_if: "(b \<Longrightarrow> wop n m) \<Longrightarrow> (\<not> b \<Longrightarrow> wop n m') \<Longrightarrow> wop n (if b then m else m')"
  by simp

lemma wop_fun: "(\<And>p. sp_inv p \<Longrightarrow> n \<le> highWaterMark p \<Longrightarrow> wop n (m p)) \<Longrightarrow> wop n (\<lambda>p. m p p)"
  by (rule wopI) (metis wopD)

lemma wop_each: "(\<And>x. x \<in> set xs \<Longrightarrow> wop n (f x)) \<Longrightarrow> wop n (each_pm f xs)"
  unfolding wop_def by (rule wrel.tri_each)

lemma wop_writable: "(\<And>b. wop n m) \<Longrightarrow> wop n (writable m)"
  by (rule wopI) (auto simp: writable_def sp_inv_def wrel.refl dest: wopD split: if_splits)

lemma wop_or_else: "wop n m \<Longrightarrow> wop n m' \<Longrightarrow> wop n (or_else m m')"
  unfolding or_else_def by (auto intro!: wop_bnd split: option.splits)

lemma wop_ignoring: "wop n m \<Longrightarrow> wop n (ignoring m)"
  by (rule wopI) (auto simp: ignoring_def dest: wopD split: prod.splits sum.splits if_splits)

section \<open>The bitmap and the file\<close>

definition gentle :: "(Bitmap \<Rightarrow> bm_panic + Bitmap) \<Rightarrow> bool" where
  "gentle f \<longleftrightarrow> (\<forall>b b'. bm_inv b \<longrightarrow> f b = Inr b' \<longrightarrow> bm_work\<^sup>*\<^sup>* b b' \<and> openSnapshots b' = openSnapshots b)"

lemma gentle_ops [simp]:
  "gentle (\<lambda>b. Set b pid)" "gentle (\<lambda>b. Clear b pid)" "gentle (\<lambda>b. Inr (SetHint b pid))"
proof -
  have o: "openSnapshots (flipped b q v) = openSnapshots b" for b q v by (simp add: flipped_fields)
  show "gentle (\<lambda>b. Set b pid)"
    unfolding gentle_def using o by (metis Set_cases step_Set r_into_rtranclp)
  show "gentle (\<lambda>b. Clear b pid)"
    unfolding gentle_def using o by (metis Clear_cases step_Clear r_into_rtranclp)
  have "openSnapshots (SetHint b pid) = openSnapshots b" for b by (simp add: SetHint_def)
  then show "gentle (\<lambda>b. Inr (SetHint b pid))"
    using step_SetHint by (auto simp: gentle_def)
qed

lemma wop_with_bitmap [simp]: "gentle f \<Longrightarrow> wop n (with_bitmap f)"
proof (rule wopI)
  fix p r p'
  assume g: "gentle f" and inv: "sp_inv p" and e: "with_bitmap f p = (r, p')"
  obtain b where b: "bmap p = Some b" "bm_inv b" using inv by (auto simp: sp_inv_def bitmap_ok_def)
  show "window p p'"
  proof (cases "f b")
    case (Inl x)
    then show ?thesis using e b by (auto simp: with_bitmap_def wrel.refl)
  next
    case (Inr b')
    then have "bm_work\<^sup>*\<^sup>* b b'" "openSnapshots b' = openSnapshots b" using g b(2) by (auto simp: gentle_def)
    then show ?thesis using e b Inr window_bitmap by (auto simp: with_bitmap_def)
  qed
qed

lemma window_fops: "window p (p\<lparr>fops := fo\<rparr>)" "window p (p\<lparr>fops := fo, fileSize := k\<rparr>)"
  by (rule window_frame; simp add: others_def fixed_fields_def)+

lemma wop_ensureFileCovers [simp]: "wop n (ensureFileCovers pages)"
  by (rule wopI) (auto simp: ensureFileCovers_def Let_def wrel.refl intro: window_fops split: if_splits prod.splits)

lemma wop_write_at [simp]: "wop n (write_at d off)"
  by (rule wopI) (auto simp: write_at_def intro: window_fops split: prod.splits)

lemma wop_fdatasync [simp]: "wop n fdatasync"
  by (rule wopI) (auto simp: fdatasync_def intro: window_fops split: prod.splits)


section \<open>The allocator\<close>

lemma at_least_upd: "(\<And>p. sp_inv p \<Longrightarrow> n \<le> highWaterMark p \<Longrightarrow> window p (f p) \<and> k \<le> highWaterMark (f p)) \<Longrightarrow>
  tri window (at_least n) (upd f) (\<lambda>_. at_least k)"
  by (rule tri_upd) (auto simp: at_least_def window_def)

lemma window_hwm: "highWaterMark p \<le> k \<Longrightarrow> window p (p\<lparr>highWaterMark := k\<rparr>)"
  by (rule window_frame) (simp_all add: others_def fixed_fields_def)

lemma wop_book: "pid < n \<Longrightarrow> wop n (upd (\<lambda>p. delFree pid (addAlloc pid p)))"
  by (rule wop_upd) (meson window_addAlloc window_delFree wrel.trans order_less_le_trans)

lemma wop_claimBitmapPage [simp]: "wop n (claimBitmapPage pid)"
  unfolding claimBitmapPage_def
proof (rule wop_bnd [OF wop_ensureFileCovers], rule wop_raise)
  show "tri window (at_least n) (upd (\<lambda>p. if pid \<ge> highWaterMark p then p\<lparr>highWaterMark := pid + 1\<rparr> else p))
      (\<lambda>_. at_least (pid + 1))"
    by (rule at_least_upd) (simp add: window_hwm wrel.refl)
qed (auto intro!: wop_bnd wop_book)

lemma wop_claim_one: "pid < n \<Longrightarrow> wop n (claim_one pid)"
  unfolding claim_one_def by (intro wop_bnd wop_with_bitmap wop_book) simp_all

lemma wop_reserveBitmapRun [simp]: "wop n (reserveBitmapRun firstID k)"
  unfolding reserveBitmapRun_def Let_def
proof (rule wop_bnd [OF wop_ensureFileCovers], rule wop_raise)
  show "tri window (at_least n) (upd (\<lambda>p. if firstID + k > highWaterMark p then p\<lparr>highWaterMark := firstID + k\<rparr> else p))
      (\<lambda>_. at_least (firstID + k))"
    by (rule at_least_upd) (simp add: window_hwm wrel.refl)
qed (auto intro!: wop_bnd wop_each wop_claim_one)

lemma wop_read_segment [simp]: "wop n (read_segment env pid)"
  unfolding read_segment_def by (intro wop_bnd) simp_all

lemma wop_usable_segment [simp]: "wop n (usable_segment env seg)"
  unfolding usable_segment_def by (intro wop_bnd wop_if) simp_all

lemma window_trim: "window p (trimRPLChainTail k p)"
  by (rule window_frame) (simp_all add: trimRPLChainTail_def others_def fixed_fields_def)

lemma window_corrupt: "window p (trimRPLChainTail k (p\<lparr>rplCorruptCount := c\<rparr>))"
  by (rule window_frame) (simp_all add: trimRPLChainTail_def others_def fixed_fields_def)

lemma wop_reclaim_loop [simp]: "wop n (reclaim_loop env segs count lst)"
proof (induction segs arbitrary: count lst)
  case (Cons seg segs)
  then show ?case
    by (auto intro!: wop_bnd wop_each wop_upd window_trim window_corrupt split: option.splits)
qed simp

lemma window_tc: "window p (p\<lparr>tc := t\<rparr>)"
  by (rule window_frame) (simp_all add: others_def fixed_fields_def)

lemma wop_here: "(\<And>p r p'. m p = (r, p') \<Longrightarrow> \<exists>m'. wop n m' \<and> m' p = (r, p')) \<Longrightarrow> wop n m"
  by (rule wopI) (meson wopD)

lemma wop_reclaimRPL [simp]: "wop n (reclaimRPL env)"
proof (rule wop_here)
  fix p r p'
  assume e: "reclaimRPL env p = (r, p')"
  let ?k = "\<lambda>(count, lastReclaimed).
     bnd (if count > 0 then with_bitmap (\<lambda>b. Inr (SetHint b lastReclaimed)) else ret ()) (\<lambda>_.
     bnd (upd (\<lambda>p. p\<lparr>tc := (tc p)\<lparr>ReclaimedPages := ReclaimedPages (tc p) + count\<rparr>\<rparr>)) (\<lambda>_.
     ret count))"
  have "wop n (?k x)" for x
    by (cases x) (simp add: wop_bnd wop_upd window_tc)
  then have "wop n (bnd (reclaim_loop env (rplSegments p) 0 0) ?k)"
    by (intro wop_bnd wop_reclaim_loop)
  then show "\<exists>m'. wop n m' \<and> m' p = (r, p')" using e unfolding reclaimRPL_def by blast
qed

lemma wop_find_claim [simp]: "wop n find_claim"
  unfolding find_claim_def by (intro wop_bnd) (auto intro!: wop_bnd split: option.splits)

lemma wop_reclaim_then [simp]: "wop n m \<Longrightarrow> wop n (reclaim_then env m)"
  unfolding reclaim_then_def by (intro wop_bnd wop_if) simp_all

lemma window_calls:
  "window p (p\<lparr>callbackCalls := k\<rparr>)" "window p (p\<lparr>reclamationBound := x, callbackCalls := k\<rparr>)"
  by (rule window_frame; simp add: others_def fixed_fields_def)+

lemma wop_refresh [simp]: "wop n (refresh f)"
  unfolding refresh_def by (rule wop_upd) (rule window_calls)

lemma wop_lagging_tier [simp]:
  assumes "wop n m"
  shows "wop n (lagging_tier env m)"
proof (rule wopI)
  fix p r p'
  assume p: "sp_inv p" "n \<le> highWaterMark p" and e: "lagging_tier env m p = (r, p')"
  let ?p = "p\<lparr>callbackCalls := callbackCalls p + 1\<rparr>"
  have w: "window p ?p" by (rule window_calls)
  then have "sp_inv ?p" "n \<le> highWaterMark ?p" using p by (auto simp: window_def)
  then have "window ?p q" if "bnd (refresh f) (\<lambda>_. reclaim_then env m) ?p = (s, q)" for f s q
    using that assms by (intro wopD [OF wop_bnd]) auto
  then show "window p p'"
    using e w by (auto simp: lagging_tier_def Let_def wrel.refl split: option.splits if_splits
        LaggingReaderAction.splits intro: wrel.trans)
qed


section \<open>Growing the file\<close>

lemma ensureFileCovers_result:
  assumes "ensureFileCovers pages p = (r, p')"
  shows "\<exists>fo k. p' = p\<lparr>fops := fo, fileSize := k\<rparr> \<and> (\<forall>e. r = Inl e \<longrightarrow> e = ErrTruncate \<and> k = fileSize p)"
proof -
  have "p' = p \<or> (\<exists>fo. p' = p\<lparr>fops := fo\<rparr>) \<or> (\<exists>fo k. p' = p\<lparr>fops := fo, fileSize := k\<rparr> \<and> r = Inr ())"
    "\<And>e. r = Inl e \<Longrightarrow> e = ErrTruncate \<and> (\<exists>fo. p' = p\<lparr>fops := fo\<rparr>)"
    using assms by (auto simp: ensureFileCovers_def Let_def split: if_splits prod.splits)
  then show ?thesis
    by (cases p, simp) (metis Inl_Inr_False)
qed

text \<open>The undo entries of a run of fresh pages.\<close>

definition fresh_entries :: "Pager \<Rightarrow> nat list \<Rightarrow> savepointUndoEntry list" where
  "fresh_entries p ids = (if activeSavepoints p = [] then []
     else map (\<lambda>pid. \<lparr>ue_field = fieldPendingAllocs, ue_key = pid, ue_wasPresent = False\<rparr>) ids)"

definition reserve_fresh :: "nat list \<Rightarrow> Pager \<Rightarrow> Pager" where
  "reserve_fresh ids p =
     p\<lparr>pendingAllocs := pendingAllocs p \<union> set ids, savepointUndoLog := savepointUndoLog p @ fresh_entries p ids\<rparr>"

lemma reserve_fresh_fold:
  "fold (\<lambda>pid p. recordSavepointUndo fieldPendingAllocs pid False
      (p\<lparr>pendingAllocs := insert pid (pendingAllocs p)\<rparr>)) ids p = reserve_fresh ids p"
  by (induction ids arbitrary: p) (simp_all add: reserve_fresh_def fresh_entries_def recordSavepointUndo_def Un_commute)

lemma undo_fresh:
  "undo_set fieldPendingAllocs (map (\<lambda>pid. \<lparr>ue_field = fieldPendingAllocs, ue_key = pid, ue_wasPresent = False\<rparr>) ids) S = S - set ids"
proof (induction ids arbitrary: S rule: rev_induct)
  case (snoc x xs)
  have "S - {x} - set xs = S - set (xs @ [x])" by auto
  then show ?case using snoc by (simp add: undo1_def)
qed (simp add: undo_set_def)

lemma undo_fresh_other:
  "f \<noteq> fieldPendingAllocs \<Longrightarrow>
   undo_set f (map (\<lambda>pid. \<lparr>ue_field = fieldPendingAllocs, ue_key = pid, ue_wasPresent = False\<rparr>) ids) S = S"
  by (induction ids rule: rev_induct) (simp_all add: undo_set_def undo1_def)

lemma window_reserve_fresh:
  assumes "set ids \<inter> pendingAllocs p = {}" "set ids \<subseteq> {..<k}" "highWaterMark p \<le> k"
  shows "window p ((reserve_fresh ids p)\<lparr>highWaterMark := k\<rparr>)"
proof (rule window_log_general [where es = "fresh_entries p ids"])
  show "activeSavepoints p \<noteq> [] \<Longrightarrow>
    undo_set fieldPendingAllocs (fresh_entries p ids) (pendingAllocs ((reserve_fresh ids p)\<lparr>highWaterMark := k\<rparr>)) = pendingAllocs p \<and>
    undo_set fieldPendingFrees (fresh_entries p ids) (pendingFrees ((reserve_fresh ids p)\<lparr>highWaterMark := k\<rparr>)) = pendingFrees p \<and>
    undo_set fieldLoosePages (fresh_entries p ids) (loosePages ((reserve_fresh ids p)\<lparr>highWaterMark := k\<rparr>)) = loosePages p"
    using assms(1) by (auto simp: reserve_fresh_def fresh_entries_def undo_fresh undo_fresh_other)
  have "dirty_keys (fresh_entries p ids) = {}" by (auto simp: dirty_keys_def fresh_entries_def)
  then show "activeSavepoints p \<noteq> [] \<Longrightarrow>
    slab ((reserve_fresh ids p)\<lparr>highWaterMark := k\<rparr>) |` (- dirty_keys (fresh_entries p ids)) \<subseteq>\<^sub>m slab p \<and>
    (slab ((reserve_fresh ids p)\<lparr>highWaterMark := k\<rparr>) |` (- dirty_keys (fresh_entries p ids)) = slab p |` (- dirty_keys (fresh_entries p ids)) \<and>
     slab p |` (- dirty_keys (fresh_entries p ids)) = slab p \<or> filter shallow (activeSavepoints p) = [])"
    by (simp add: reserve_fresh_def)
qed (use assms in \<open>auto simp: reserve_fresh_def others_def fixed_fields_def fresh_entries_def\<close>)

lemma fresh_ids: "sp_inv p \<Longrightarrow> set [highWaterMark p..<k] \<inter> pendingAllocs p = {}"
  by (auto simp: sp_inv_def below_ok_def)

lemma wop_extend_run [simp]: "wop n (extend_run k)"
proof (rule wopI)
  fix p r p'
  assume p: "sp_inv p" and e: "extend_run k p = (r, p')"
  let ?ids = "[highWaterMark p..<highWaterMark p + k]"
  let ?q = "(reserve_fresh ?ids p)\<lparr>highWaterMark := highWaterMark p + k\<rparr>"
  obtain s q where s: "ensureFileCovers (highWaterMark p + k) ?q = (s, q)" by fastforce
  obtain fo z where q: "q = ?q\<lparr>fops := fo, fileSize := z\<rparr>" "\<And>e. s = Inl e \<Longrightarrow> z = fileSize p"
    using ensureFileCovers_result [OF s] by (auto simp: reserve_fresh_def)
  have f: "set ?ids \<inter> pendingAllocs p = {}" by (rule fresh_ids [OF p])
  have w: "window p q" unfolding q(1)
    by (rule wrel.trans [OF window_reserve_fresh [OF f] window_fops(2)]) auto
  have "pendingAllocs p \<union> set ?ids - {highWaterMark p..<highWaterMark p + k} = pendingAllocs p" using f by auto
  then have "q\<lparr>pendingAllocs := pendingAllocs q - {highWaterMark p..<highWaterMark p + k},
      savepointUndoLog := take (length (savepointUndoLog p)) (savepointUndoLog q), highWaterMark := highWaterMark p\<rparr>
    = p\<lparr>fops := fo, fileSize := z\<rparr>" (is "?back = _")
    by (simp add: q reserve_fresh_def)
  then have "window p ?back" using window_fops(2) by metis
  then show "window p p'"
    using e s w by (auto simp: extend_run_def reserve_fresh_fold Let_def wrel.refl split: if_splits sum.splits)
qed

lemma extend_one_run: "pid \<notin> pendingAllocs p \<Longrightarrow> highWaterMark p = pid \<Longrightarrow> extend_one p = extend_run 1 p"
proof -
  assume a: "pid \<notin> pendingAllocs p" "highWaterMark p = pid"
  let ?q = "(reserve_fresh [pid] p)\<lparr>highWaterMark := pid + 1\<rparr>"
  have q: "recordSavepointUndo fieldPendingAllocs pid False
     (p\<lparr>highWaterMark := pid + 1, pendingAllocs := insert pid (pendingAllocs p)\<rparr>) = ?q"
    by (simp add: reserve_fresh_def recordSavepointUndo_def fresh_entries_def)
  obtain s q where s: "ensureFileCovers (pid + 1) ?q = (s, q)" by fastforce
  obtain fo z where q': "q = ?q\<lparr>fops := fo, fileSize := z\<rparr>"
    using ensureFileCovers_result [OF s] by auto
  have "trim_undo pid (q\<lparr>highWaterMark := highWaterMark q - 1, pendingAllocs := pendingAllocs q - {pid}\<rparr>) =
      q\<lparr>pendingAllocs := pendingAllocs q - {pid..<pid + 1},
        savepointUndoLog := take (length (savepointUndoLog p)) (savepointUndoLog q), highWaterMark := pid\<rparr>"
    by (simp add: q' trim_undo_def reserve_fresh_def fresh_entries_def Let_def)
  then show ?thesis
    using a s q by (auto simp: extend_one_def extend_run_def Let_def reserve_fresh_fold split: sum.splits)
qed

lemma wop_extend_one [simp]: "wop n extend_one"
proof (rule wopI)
  fix p r p'
  assume p: "sp_inv p" and e: "extend_one p = (r, p')"
  have "highWaterMark p \<notin> pendingAllocs p" using fresh_ids [OF p, of "highWaterMark p + 1"] by auto
  then have "extend_run 1 p = (r, p')" using extend_one_run e by metis
  then show "window p p'" using wopD [OF wop_extend_run [of 0] p] by blast
qed


section \<open>Allocation and freeing\<close>

lemma wop_AllocPage [simp]:
  assumes "env_ok env"
  shows "wop n (AllocPage env)"
  unfolding AllocPage_def
proof (intro wop_writable, rule wopI)
  fix p r p'
  assume p: "sp_inv p" and e: "(case if 0 < savepointDepth p then [] else rangeOrder env (loosePages p) of
      [] \<Rightarrow> or_else find_claim (or_else (reclaim_then env find_claim) (or_else (lagging_tier env find_claim) extend_one)) p
    | pid # _ \<Rightarrow> (Inr pid, popLoose pid p)) = (r, p')"
  have tiers: "wop 0 (or_else find_claim (or_else (reclaim_then env find_claim) (or_else (lagging_tier env find_claim) extend_one)))"
    by (intro wop_or_else) simp_all
  have "set (rangeOrder env (loosePages p)) = loosePages p"
    using assms p by (simp add: env_ok_def sp_inv_def)
  then have "pid \<in> loosePages p" if "rangeOrder env (loosePages p) = pid # rest" for pid rest
    using that by auto
  then show "window p p'"
    using e p window_popLoose wopD [OF tiers p] by (auto split: list.splits if_splits)
qed

lemma wop_retire [simp]: "wop n (retire pid)"
  unfolding retire_def
  by (intro wop_bnd; rule wopI) (auto simp: lift_page_def ret_def throw_def wrel.refl window_retire split: sum.splits if_splits)

lemma window_free_slab:
  assumes "sp_inv p" "slab p pid \<noteq> None"
  shows "window p (delAlloc pid (addLoose pid p))"
proof -
  have "pid < highWaterMark p" using assms by (auto simp: sp_inv_def below_ok_def)
  then show ?thesis using window_addLoose window_delAlloc wrel.trans by blast
qed

lemma wop_FreePage [simp]: "wop n (FreePage pid)"
  unfolding FreePage_def
proof (intro wop_writable, rule wop_here)
  fix p r p'
  assume e: "(if slab p pid \<noteq> None then (Inr (), delAlloc pid (addLoose pid p))
     else if pid \<in> pendingAllocs p then
       bnd (if activeSavepoints p \<noteq> [] then upd (\<lambda>p. p\<lparr>deferredFrees := deferredFrees p @ [pid]\<rparr>)
            else with_bitmap (\<lambda>b. Set b pid)) (\<lambda>_. upd (delAlloc pid)) p
     else retire pid p) = (r, p')"
  have "wop n (\<lambda>p. if slab p pid \<noteq> None then (Inr (), delAlloc pid (addLoose pid p)) else (Inr (), p))"
    by (rule wopI) (auto simp: wrel.refl window_free_slab split: if_splits)
  moreover have "wop n (bnd (if b then upd (\<lambda>p. p\<lparr>deferredFrees := deferredFrees p @ [pid]\<rparr>)
            else with_bitmap (\<lambda>b. Set b pid)) (\<lambda>_. upd (delAlloc pid)))" for b
    by (intro wop_bnd wop_if wop_upd window_defer window_delAlloc) simp_all
  moreover have "wop n (retire pid)" by simp
  ultimately show "\<exists>m'. wop n m' \<and> m' p = (r, p')"
    using e by (smt (verit))
qed

lemma wop_FreeLeakedPage [simp]: "wop n (FreeLeakedPage pid)"
  unfolding FreeLeakedPage_def by (intro wop_writable wop_bnd wop_if) simp_all

lemma wop_FreeRun [simp]: "wop n (FreeRun firstID k)"
  unfolding FreeRun_def by (intro wop_writable wop_if wop_each) simp_all

lemma wop_find_reserve [simp]: "wop n (find_reserve k)" "wop n (find_reserve_unchecked k)"
  unfolding find_reserve_def find_reserve_unchecked_def
  by (intro wop_bnd; auto intro!: wop_bnd wop_ignoring split: option.splits)+

lemma window_contig:
  "window p (p\<lparr>contigAttempts := a\<rparr>)" "window p (p\<lparr>contigFragFails := a\<rparr>)"
  by (rule window_frame; simp add: others_def fixed_fields_def)+

lemma wop_AllocContiguous [simp]:
  assumes "env_ok env"
  shows "wop n (AllocContiguous env k)"
proof -
  have "wop n (count_frag_fail k)"
    unfolding count_frag_fail_def by (intro wop_bnd wop_upd) (simp_all add: window_contig wrel.refl)
  then show ?thesis
    unfolding AllocContiguous_def using assms
    by (intro wop_writable wop_if wop_bnd wop_or_else wop_upd) (simp_all add: window_contig)
qed

lemma wop_AllocPageBelow [simp]: "wop n (AllocPageBelow floor)"
  unfolding AllocPageBelow_def by (intro wop_writable wop_bnd) (auto intro!: wop_bnd split: option.splits)

lemma wop_AllocContiguousBelow [simp]: "wop n (AllocContiguousBelow k floor)"
  unfolding AllocContiguousBelow_def
  by (intro wop_writable wop_if wop_bnd) (auto intro!: wop_bnd split: option.splits)

section \<open>The slab\<close>

lemma poolGet_frame: "poolGet p = (b, p1) \<Longrightarrow> window p p1 \<and> slab p1 = slab p \<and> highWaterMark p1 = highWaterMark p"
  by (auto simp: poolGet_def others_def fixed_fields_def intro!: window_frame split: list.splits)

lemma install_tc:
  "recordSavepointUndo fieldDirty pid False (bumpSlabPeak (install pid b q)) =
   (recordSavepointUndo fieldDirty pid False (install pid b q))\<lparr>tc := tc (bumpSlabPeak (install pid b q))\<rparr>"
  by (simp add: bumpSlabPeak_def recordSavepointUndo_def install_def)

lemma window_install_tc:
  assumes "slab q pid = None" "pid < highWaterMark q"
  shows "window q (recordSavepointUndo fieldDirty pid False (bumpSlabPeak (install pid b q)))"
    "window q (recordSavepointUndo fieldDirty pid False (bumpSlabPeak ((install pid b q)\<lparr>tc := t\<rparr>)))"
proof -
  note w = window_install [OF assms, of b]
  show "window q (recordSavepointUndo fieldDirty pid False (bumpSlabPeak (install pid b q)))"
    unfolding install_tc by (rule wrel.trans [OF w window_tc])
  have "recordSavepointUndo fieldDirty pid False (bumpSlabPeak ((install pid b q)\<lparr>tc := t\<rparr>)) =
     (recordSavepointUndo fieldDirty pid False (install pid b q))\<lparr>tc := tc (bumpSlabPeak ((install pid b q)\<lparr>tc := t\<rparr>))\<rparr>"
    by (simp add: bumpSlabPeak_def recordSavepointUndo_def)
  then show "window q (recordSavepointUndo fieldDirty pid False (bumpSlabPeak ((install pid b q)\<lparr>tc := t\<rparr>)))"
    using wrel.trans [OF w window_tc] by simp
qed

lemma wop_admitInstall_state: "admitInstall p = (r, p') \<Longrightarrow> p' = p"
  by (auto simp: admitInstall_def split: if_splits sum.splits)

lemma window_bufs: "window p (p\<lparr>bufs := d\<rparr>)"
  by (rule window_frame) (simp_all add: others_def fixed_fields_def)

lemma wop_store_buf [simp]: "wop n (upd (store_buf b d))"
  by (rule wop_upd) (simp add: store_buf_def window_bufs)

lemma wop_AllocSlab: "pid < n \<Longrightarrow> wop n (AllocSlab pid)"
proof (rule wopI)
  fix p r p'
  assume n: "pid < n" "n \<le> highWaterMark p" and e: "AllocSlab pid p = (r, p')"
  have "window p (recordSavepointUndo fieldDirty pid False (bumpSlabPeak (install pid b p1)))"
    if "poolGet p = (b, p1)" "slab p pid = None" for b p1
    using poolGet_frame [OF that(1)] that(2) n window_install_tc(1) [of p1 pid b] wrel.trans by force
  then show "window p p'"
    using e by (auto simp: AllocSlab_def bnd_def wrel.refl dest: wop_admitInstall_state
        split: if_splits option.splits prod.splits sum.splits)
qed

lemma wop_CoW: "dst < n \<Longrightarrow> wop n (CoW src dst)"
proof (rule wopI)
  fix p r p'
  assume n: "dst < n" "n \<le> highWaterMark p" and e: "CoW src dst p = (r, p')"
  have "window p (recordSavepointUndo fieldDirty dst False (bumpSlabPeak ((install dst b (p1\<lparr>bufs := d\<rparr>))\<lparr>tc := t\<rparr>)))"
    if "poolGet p = (b, p1)" "slab p dst = None" for b p1 d t
  proof -
    let ?q = "p1\<lparr>bufs := d\<rparr>"
    have "window p ?q" using poolGet_frame [OF that(1)] window_bufs wrel.trans by blast
    moreover have "slab ?q dst = None" "dst < highWaterMark ?q" using poolGet_frame [OF that(1)] that(2) n by simp_all
    ultimately show ?thesis using window_install_tc(2) [of ?q dst] wrel.trans by blast
  qed
  then show "window p p'"
    using e by (auto simp: CoW_def bnd_def raw_def Let_def wrel.refl dest!: wop_admitInstall_state
        split: if_splits option.splits prod.splits sum.splits)
qed

lemma wop_stamp [simp]: "wop n (stamp env buf)"
  by (rule wopI) (auto simp: stamp_def lift_page_def ret_def throw_def wrel.refl split: if_splits sum.splits)

lemma wop_writeDirect [simp]: "wop n (writeDirect env pid buf s)"
  unfolding writeDirect_def
proof (intro wop_writable, rule wop_here)
  fix p r p'
  assume e: "(if length buf \<noteq> ps p then (Inl ErrBufLen, p)
     else if pid \<notin> pendingAllocs p then (Inl (ErrNotAllocated pid), p)
     else if slab p pid \<noteq> None then (Inl (ErrInSlab pid), p)
     else bnd (ensureFileCovers (pid + 1)) (\<lambda>_. bnd (if s then stamp env buf else ret buf) (\<lambda>buf.
          write_at buf (pid * ps p))) p) = (r, p')"
  let ?m = "if length buf \<noteq> ps p then throw ErrBufLen else if pid \<notin> pendingAllocs p then throw (ErrNotAllocated pid)
     else if slab p pid \<noteq> None then throw (ErrInSlab pid)
     else bnd (ensureFileCovers (pid + 1)) (\<lambda>_. bnd (if s then stamp env buf else ret buf) (\<lambda>buf. write_at buf (pid * ps p)))"
  have "wop n ?m" by (intro wop_bnd wop_if) simp_all
  moreover have "?m p = (r, p')" using e by (simp add: throw_def split: if_splits)
  ultimately show "\<exists>m'. wop n m' \<and> m' p = (r, p')" by blast
qed


section \<open>Spilling\<close>

definition no_shallow :: "Pager \<Rightarrow> bool" where
  "no_shallow p \<longleftrightarrow> sp_inv p \<and> filter shallow (activeSavepoints p) = []"

lemma strip_shallow: "strip a = strip b \<Longrightarrow> shallow a = shallow b"
  by (cases a; cases b) (simp add: strip_def shallow_def)

lemma window_stack:
  assumes "window p p'" "sp_inv p"
  shows "map strip (activeSavepoints p') = map strip (activeSavepoints p)"
  using assms by (auto simp: window_def list_all2_conv_all_nth kept_sp_def intro: nth_equalityI)

lemma window_no_shallow: "window p p' \<Longrightarrow> no_shallow p \<Longrightarrow> no_shallow p'"
proof -
  assume w: "window p p'" and n: "no_shallow p"
  have "shallow \<circ> strip = shallow" by (auto simp: fun_eq_iff strip_def shallow_def)
  then have "map shallow (activeSavepoints p') = map shallow (activeSavepoints p)"
    using arg_cong [OF window_stack [OF w], of "map shallow"] n by (simp add: no_shallow_def)
  then have "True \<notin> set (map shallow (activeSavepoints p'))"
    using n by (auto simp: no_shallow_def filter_empty_conv)
  then show ?thesis using w n by (auto simp: no_shallow_def window_def filter_empty_conv)
qed

lemma window_spilled:
  assumes "no_shallow p"
  shows "window p (p\<lparr>slab := (slab p)(pid := None), dirtyBytes := d, tc := t\<rparr>)"
    "window p (p\<lparr>slab := (slab p)(pid := None), dirtyBytes := d\<rparr>)"
proof -
  let ?q = "p\<lparr>slab := (slab p)(pid := None)\<rparr>"
  have w: "window p ?q" using window_drop assms by (simp add: no_shallow_def)
  have "window ?q (?q\<lparr>dirtyBytes := d, tc := t\<rparr>)" "window ?q (?q\<lparr>dirtyBytes := d\<rparr>)"
    by (rule window_frame; simp add: others_def fixed_fields_def)+
  then show "window p (p\<lparr>slab := (slab p)(pid := None), dirtyBytes := d, tc := t\<rparr>)"
    "window p (p\<lparr>slab := (slab p)(pid := None), dirtyBytes := d\<rparr>)"
    using w wrel.trans by auto
qed

lemma wop_spill_write [simp]: "wop n (spill_write env pid b)"
  unfolding spill_write_def
proof (intro wop_bnd wop_store_buf wop_ensureFileCovers wop_get wop_stamp)
  show "wop n (\<lambda>p. write_at d (pid * ps p) p)" for d
    by (rule wop_fun) simp
qed

lemma tri_spill_page: "tri window no_shallow (spill_page env pid) (\<lambda>_. no_shallow)"
proof (rule triI)
  fix p r p'
  assume n: "no_shallow p" and e: "spill_page env pid p = (r, p')"
  have w: "window p q" "no_shallow q" if "spill_write env pid b p = (s, q)" for b s q
    using wopD [OF wop_spill_write [of 0] _ _ that] n window_no_shallow by (auto simp: no_shallow_def)
  have err: "window p (q\<lparr>spillErr := x\<rparr>)" if "window p q" for q x
    by (rule wrel.trans [OF that]) (rule window_frame; simp add: others_def fixed_fields_def)
  have ok: "window p (q\<lparr>slab := (slab q)(pid := None), dirtyBytes := d, tc := t\<rparr>)"
    if "window p q" "no_shallow q" for q d t
    using wrel.trans [OF that(1) window_spilled(1) [OF that(2)]] .
  have "window p p'"
    using e w err ok
    by (auto simp: spill_page_def wrel.refl split: if_splits option.splits prod.splits sum.splits pg_err.splits)
  then show "window p p' \<and> (\<forall>x. r = Inr x \<longrightarrow> no_shallow p')" using n window_no_shallow by blast
qed

lemma under_limit_state: "under_limit p = (r, p') \<Longrightarrow> p' = p"
  by (auto simp: under_limit_def lift_page_def ret_def throw_def split: sum.splits)

lemma window_fold_drop: "no_shallow p \<Longrightarrow> window p (fold drop_loose ids p)"
proof (induction ids arbitrary: p)
  case (Cons i ids)
  have "window p (drop_loose i p)" using window_spilled(2) [OF Cons.prems] by (simp add: drop_loose_def wrel.refl)
  then show ?case using Cons.IH [of "drop_loose i p"] window_no_shallow Cons.prems wrel.trans by (metis fold_simps(2))
qed (simp add: wrel.refl)

lemma window_drop_detached:
  assumes "activeSavepoints p = []"
  shows "window p (drop_detached p)"
  unfolding window_def using assms
  by (auto simp: drop_detached_def sp_inv_def marks_ok_def stack_ok_def log_ok_def bitmap_ok_def below_ok_def
      snaps_at_def bm_moves_def fixed_fields_def)

lemma drop_loose_stack: "activeSavepoints (fold drop_loose ids p) = activeSavepoints p"
  by (induction ids arbitrary: p) (simp_all add: drop_loose_def)

lemma wop_SpillExcess [simp]: "wop n (SpillExcess env)"
proof (rule wopI)
  fix p r p'
  assume p: "sp_inv p" and e: "SpillExcess env p = (r, p')"
  define q where "q = (if activeSavepoints p = []
    then drop_detached (fold drop_loose (rangeOrder env (loosePages p)) p) else p)"
  have pass: "window q p'" "no_shallow q" "window p q"
    if ns: "no_shallow p" and run: "p' = q \<or> each_pm (spill_page env) (rangeOrder env (dom (slab q))) q = (r, p')"
  proof -
    have "window p (drop_detached (fold drop_loose ids p))" if "activeSavepoints p = []" for ids
      using wrel.trans [OF window_fold_drop [OF ns] window_drop_detached] that drop_loose_stack by metis
    then show w: "window p q" by (simp add: q_def wrel.refl)
    show n: "no_shallow q" using w ns window_no_shallow by blast
    show "window q p'"
      using run wrel.refl triD [OF wrel.tri_each [of _ no_shallow "spill_page env", OF tri_spill_page] n] by blast
  qed
  have "p' = p \<or> no_shallow p \<and> (p' = q \<or> each_pm (spill_page env) (rangeOrder env (dom (slab q))) q = (r, p'))"
    using e p
    by (auto simp: SpillExcess_def bnd_def Let_def no_shallow_def filter_empty_conv list_ex_iff shallow_def q_def ret_def
        dest!: under_limit_state split: if_splits prod.splits sum.splits)
  then show "window p p'" using pass wrel.refl wrel.trans by blast
qed

section \<open>Reading and reclaiming\<close>

lemma wop_Page [simp]: "wop n (Page env pid)"
proof (rule wopI)
  fix p r p'
  assume e: "Page env pid p = (r, p')"
  have "window p (markVerified pid k p)" for k
    by (rule window_frame) (simp_all add: markVerified_def others_def fixed_fields_def Let_def)
  then show "window p p'"
    using e by (auto simp: Page_def Let_def wrel.refl split: if_splits option.splits sum.splits)
qed

lemma wop_gateAnchorAdvance [simp]: "wop n (gateAnchorAdvance env)"
proof (rule wopI)
  fix p r p'
  assume e: "gateAnchorAdvance env p = (r, p')"
  have wa: "window p q" if "write_at d off (p\<lparr>fops := fo\<rparr>) = (s, q)" for d off fo s q
    using that window_fops(1) by (auto simp: write_at_def split: prod.splits)
  have fs: "window p q'" if "window p q" "fdatasync q = (s, q')" for q s q'
    using that wrel.trans [OF that(1) window_fops(1)] by (auto simp: fdatasync_def split: prod.splits)
  have ad: "window p (advanceAnchoredEpoch k q)" if "window p q" for k q
    by (rule wrel.trans [OF that], rule window_frame) (simp_all add: advanceAnchoredEpoch_def others_def fixed_fields_def)
  have wf: "window p q'" if "write_at d off (p\<lparr>fops := fo\<rparr>) = (s, q)" "fdatasync q = (t, q')" for d off fo s q t q'
    using fs [OF wa [OF that(1)] that(2)] .
  have "window p (advanceAnchoredEpoch k q')"
    if "write_at d off (p\<lparr>fops := fo\<rparr>) = (s, q)" "fdatasync q = (t, q')" for d off fo s q t q' k
    using ad [OF wf [OF that]] .
  then show "window p p'"
    using e window_fops(1) [of p] wa wf
    by (auto simp: gateAnchorAdvance_def Let_def wrel.refl split: if_splits sum.splits prod.splits)
qed

lemma wop_maybe_refresh [simp]: "wop n maybe_refresh"
  by (rule wop_here) (auto simp: maybe_refresh_def ret_def split: option.splits intro: exI [of _ "ret ()"] exI [of _ "refresh _"])

lemma wop_ReclaimFreeSpace [simp]: "wop n (ReclaimFreeSpace env)"
  unfolding ReclaimFreeSpace_def by (intro wop_bnd wop_if) simp_all

end
