(* ===== verification/Savepoint_Exact.thy ===== *)
theory Savepoint_Exact
  imports Window_Ops
begin

text \<open>
  The savepoint operations against the stack invariant, and the result they are for: whatever ran
  between the opening of a savepoint and its restore, nested savepoints included, the restore
  brings back every field that the transaction's state consists of.
\<close>

section \<open>Replaying the logs\<close>

lemma poolPut_fields [simp]:
  "slab (poolPut b p) = slab p" "pendingAllocs (poolPut b p) = pendingAllocs p"
  "pendingFrees (poolPut b p) = pendingFrees p" "loosePages (poolPut b p) = loosePages p"
  "savepointUndoLog (poolPut b p) = savepointUndoLog p" "activeSavepoints (poolPut b p) = activeSavepoints p"
  "retiredPages (poolPut b p) = retiredPages p" "deferredFrees (poolPut b p) = deferredFrees p"
  "detachedBufs (poolPut b p) = detachedBufs p" "highWaterMark (poolPut b p) = highWaterMark p"
  "bmap (poolPut b p) = bmap p" "readOnly (poolPut b p) = readOnly p" "savepointDepth (poolPut b p) = savepointDepth p"
  "nextSavepoint (poolPut b p) = nextSavepoint p" "txSnapshot (poolPut b p) = txSnapshot p" "cfg (poolPut b p) = cfg p"
  "rplSegments (poolPut b p) = rplSegments p"
  by (simp_all add: poolPut_def)

definition untouched :: "Pager \<Rightarrow> _" where
  "untouched p = (savepointUndoLog p, activeSavepoints p, retiredPages p, deferredFrees p, detachedBufs p,
     highWaterMark p, bmap p, readOnly p, savepointDepth p, nextSavepoint p, txSnapshot p, cfg p, rplSegments p)"

lemma untouched_poolPut [simp]: "untouched (poolPut b p) = untouched p"
  by (simp add: untouched_def)

lemma undo_entry_fields:
  "pendingAllocs (undo_entry e p) = undo1 fieldPendingAllocs e (pendingAllocs p)"
  "pendingFrees (undo_entry e p) = undo1 fieldPendingFrees e (pendingFrees p)"
  "loosePages (undo_entry e p) = undo1 fieldLoosePages e (loosePages p)"
  "slab (undo_entry e p) = slab p |` (- dirty_keys [e])"
  "untouched (undo_entry e p) = untouched p"
  by (auto simp: undo_entry_def undo1_def untouched_def Let_def restrict_map_def fun_eq_iff
      split: savepointUndoField.splits option.splits)

lemma fold_undo_entry:
  "pendingAllocs (fold undo_entry (rev es) p) = undo_set fieldPendingAllocs es (pendingAllocs p)"
  "pendingFrees (fold undo_entry (rev es) p) = undo_set fieldPendingFrees es (pendingFrees p)"
  "loosePages (fold undo_entry (rev es) p) = undo_set fieldLoosePages es (loosePages p)"
  "slab (fold undo_entry (rev es) p) = slab p |` (- dirty_keys es)"
  "untouched (fold undo_entry (rev es) p) = untouched p"
proof (induction es arbitrary: p rule: rev_induct)
  case (snoc e es)
  {
    case 1
    then show ?case using snoc(1) by (simp add: undo_entry_fields)
  next
    case 2
    then show ?case using snoc(2) by (simp add: undo_entry_fields)
  next
    case 3
    then show ?case using snoc(3) by (simp add: undo_entry_fields)
  next
    case 4
    then show ?case using snoc(4) by (simp add: undo_entry_fields(4) Int_commute)
  next
    case 5
    then show ?case using snoc(5) by (simp add: undo_entry_fields)
  }
qed (simp_all add: undo_set_def)

lemma undo_pop_fields:
  "slab (undo_pop e p) = pop1 e (slab p)" "pendingAllocs (undo_pop e p) = pendingAllocs p"
  "pendingFrees (undo_pop e p) = pendingFrees p" "loosePages (undo_pop e p) = loosePages p"
  "untouched (undo_pop e p) = untouched p"
  by (auto simp: undo_pop_def pop1_def untouched_def Let_def split: option.splits)

lemma fold_undo_pop:
  "slab (fold undo_pop es p) = fold pop1 es (slab p)" "pendingAllocs (fold undo_pop es p) = pendingAllocs p"
  "pendingFrees (fold undo_pop es p) = pendingFrees p" "loosePages (fold undo_pop es p) = loosePages p"
  "untouched (fold undo_pop es p) = untouched p"
  by (induction es arbitrary: p) (simp_all add: undo_pop_fields)

lemma replay_fields:
  "(pendingAllocs (replay sp p), pendingFrees (replay sp p), loosePages (replay sp p)) = back_sets sp p"
  "slab (replay sp p) = back_slab sp p"
  "untouched (replay sp p) = untouched (p\<lparr>activeSavepoints := butlast (activeSavepoints p),
     savepointUndoLog := take (undoLogPos sp) (savepointUndoLog p)\<rparr>)"
proof -
  let ?p1 = "p\<lparr>activeSavepoints := butlast (activeSavepoints p)\<rparr>"
  let ?p2 = "fold undo_entry (rev (win sp p)) ?p1"
  let ?p3 = "?p2\<lparr>savepointUndoLog := take (undoLogPos sp) (savepointUndoLog p)\<rparr>"
  have u: "untouched ?p2 = untouched ?p1" by (rule fold_undo_entry)
  then have lg: "savepointUndoLog ?p2 = savepointUndoLog p" by (simp add: untouched_def)
  have r: "replay sp p = (if shallow sp then fold undo_pop (rev (loosePopLog sp)) ?p3 else ?p3)"
    unfolding replay_def Let_def using lg by (simp add: win_def shallow_def)
  show "(pendingAllocs (replay sp p), pendingFrees (replay sp p), loosePages (replay sp p)) = back_sets sp p"
    "slab (replay sp p) = back_slab sp p"
    by (simp_all add: r fold_undo_pop fold_undo_entry back_sets_def back_slab_def Let_def)
  have "untouched ?p3 = untouched (?p1\<lparr>savepointUndoLog := take (undoLogPos sp) (savepointUndoLog p)\<rparr>)"
    using u by (simp add: untouched_def)
  then show "untouched (replay sp p) = untouched (p\<lparr>activeSavepoints := butlast (activeSavepoints p),
     savepointUndoLog := take (undoLogPos sp) (savepointUndoLog p)\<rparr>)"
    by (simp add: r fold_undo_pop)
qed

section \<open>Restoring\<close>

lemma fold_poolPut_fields:
  "slab (fold poolPut bs p) = slab p" "pendingAllocs (fold poolPut bs p) = pendingAllocs p"
  "pendingFrees (fold poolPut bs p) = pendingFrees p" "loosePages (fold poolPut bs p) = loosePages p"
  "untouched (fold poolPut bs p) = untouched p"
  by (induction bs arbitrary: p) simp_all

text \<open>The fields of a pager that make up the state of its transaction.\<close>

definition sets_of :: "Pager \<Rightarrow> nat set \<times> nat set \<times> nat set" where
  "sets_of p = (pendingAllocs p, pendingFrees p, loosePages p)"

definition lists_of :: "Pager \<Rightarrow> nat list \<times> nat list \<times> nat list \<times> savepointUndoEntry list" where
  "lists_of p = (retiredPages p, deferredFrees p, detachedBufs p, savepointUndoLog p)"

lemma truncate_lists_fields:
  assumes "p' = truncate_lists sp p"
  shows "sets_of p' = sets_of p" "slab p' = slab p" "bmap p' = bmap p" "readOnly p' = readOnly p"
    "lists_of p' = (take (retiredLen sp) (retiredPages p), take (deferredLen sp) (deferredFrees p),
       take (detachedLen sp) (detachedBufs p), savepointUndoLog p)"
    "activeSavepoints p' = activeSavepoints p" "highWaterMark p' = sc_highWaterMark (sp_core sp)"
    "rplSegments p' = sc_rplSegments (sp_core sp)" "nextSavepoint p' = nextSavepoint p"
    "txSnapshot p' = txSnapshot p" "cfg p' = cfg p"
    "savepointDepth p' = (if shallow sp then savepointDepth p else savepointDepth p - 1)"
proof -
  define p1 where "p1 = p\<lparr>highWaterMark := sc_highWaterMark (sp_core sp), rplSegments := sc_rplSegments (sp_core sp),
    retiredPages := take (retiredLen sp) (retiredPages p)\<rparr>"
  define p2 where "p2 = (if sp_kind sp \<noteq> SavepointShallow
    then fold poolPut (drop (detachedLen sp) (detachedBufs p1)) p1 else p1)"
  have u: "untouched p2 = untouched p1" "sets_of p2 = sets_of p1" "slab p2 = slab p1"
    by (simp_all add: p2_def fold_poolPut_fields sets_of_def)
  have k: "sp_kind sp = SavepointNested \<longleftrightarrow> \<not> shallow sp" by (cases "sp_kind sp") (simp_all add: shallow_def)
  show "sets_of p' = sets_of p" "slab p' = slab p" "bmap p' = bmap p" "readOnly p' = readOnly p"
    "lists_of p' = (take (retiredLen sp) (retiredPages p), take (deferredLen sp) (deferredFrees p),
       take (detachedLen sp) (detachedBufs p), savepointUndoLog p)"
    "activeSavepoints p' = activeSavepoints p" "highWaterMark p' = sc_highWaterMark (sp_core sp)"
    "rplSegments p' = sc_rplSegments (sp_core sp)" "nextSavepoint p' = nextSavepoint p"
    "txSnapshot p' = txSnapshot p" "cfg p' = cfg p"
    "savepointDepth p' = (if shallow sp then savepointDepth p else savepointDepth p - 1)"
    using u unfolding assms truncate_lists_def Let_def p1_def [symmetric] p2_def [symmetric]
    by (auto simp: untouched_def sets_of_def lists_of_def p1_def k)
qed

lemma drop_take_split: "i \<le> j \<Longrightarrow> drop i xs = drop i (take j xs) @ drop j xs"
  by (induction xs arbitrary: i j) (auto simp: drop_Cons take_Cons split: nat.splits)

lemma win_compose:
  "undoLogPos sp \<le> undoLogPos t \<Longrightarrow>
   win sp p = drop (undoLogPos sp) (take (undoLogPos t) (savepointUndoLog p)) @ win t p"
  unfolding win_def by (rule drop_take_split)

lemma undo_set_append: "undo_set f (xs @ ys) S = undo_set f xs (undo_set f ys S)"
  by (simp add: undo_set_def)


text \<open>The restore of the newest savepoint succeeds and brings back what that savepoint would restore.\<close>

definition restored :: "Savepoint \<Rightarrow> Pager \<Rightarrow> Pager \<Rightarrow> bool" where
  "restored t p p' \<longleftrightarrow>
     sets_of p' = back_sets t p \<and> lists_of p' = back_lists t p \<and> slab p' = back_slab t p \<and>
     activeSavepoints p' = butlast (activeSavepoints p) \<and> highWaterMark p' = sc_highWaterMark (sp_core t) \<and>
     rplSegments p' = sc_rplSegments (sp_core t) \<and>
     savepointDepth p' = (if shallow t then savepointDepth p else savepointDepth p - 1) \<and>
     readOnly p' = readOnly p \<and> nextSavepoint p' = nextSavepoint p \<and> txSnapshot p' = txSnapshot p \<and> cfg p' = cfg p \<and>
     (\<exists>b b' s. bmap p = Some b \<and> sc_bitmap (sp_core t) = Some s \<and> s \<in> set (openSnapshots b) \<and>
        Restore b s = Inr b' \<and> bmap p' = Some b')"

lemma top_snapshot:
  assumes "sp_inv p" "t \<in> set (activeSavepoints p)"
  shows "\<exists>b s. bmap p = Some b \<and> bm_inv b \<and> sc_bitmap (sp_core t) = Some s \<and> s \<in> set (openSnapshots b)"
proof -
  obtain b pre where b: "bmap p = Some b" "bm_inv b" "map Some (openSnapshots b) = pre @ snaps_at p"
    using assms(1) by (auto simp: sp_inv_def bitmap_ok_def)
  have "sc_bitmap (sp_core t) \<in> set (map Some (openSnapshots b))"
    unfolding b(3) using assms(2) by (auto simp: snaps_at_def)
  then obtain s where "s \<in> set (openSnapshots b)" "sc_bitmap (sp_core t) = Some s" unfolding set_map by blast
  then show ?thesis using b by blast
qed

lemma RestoreSavepoint_top:
  assumes inv: "sp_inv p" and top: "top_is h p" and t: "t = last (activeSavepoints p)"
  shows "\<exists>p'. RestoreSavepoint (Some h) p = (Inr (), p') \<and> restored t p p'"
proof -
  have tin: "t \<in> set (activeSavepoints p)" using top t by (simp add: top_is_def)
  obtain b s where b: "bmap p = Some b" "bm_inv b" "sc_bitmap (sp_core t) = Some s" "s \<in> set (openSnapshots b)"
    using top_snapshot [OF inv tin] by blast
  obtain b' where b': "Restore b s = Inr b'" using Restore_eq [OF b(4)] by blast
  note rf = replay_fields [of t p]
  let ?q = "replay t p"
  have q: "bmap ?q = Some b" using rf(3) b(1) by (simp add: untouched_def)
  let ?r = "?q\<lparr>bmap := Some b'\<rparr>"
  have run: "RestoreSavepoint (Some h) p = (Inr (), truncate_lists t ?r)"
    using inv top b b' q t
    by (simp add: RestoreSavepoint_def Let_def bnd_def upd_def with_snapshot_def with_bitmap_def sp_inv_def)
  note tl = truncate_lists_fields [OF refl, of t ?r]
  have u: "untouched ?q = untouched (p\<lparr>activeSavepoints := butlast (activeSavepoints p),
     savepointUndoLog := take (undoLogPos t) (savepointUndoLog p)\<rparr>)" by (rule rf(3))
  have "restored t p (truncate_lists t ?r)"
    unfolding restored_def using tl rf(1,2) u b b'
    by (auto simp: sets_of_def untouched_def back_lists_def)
  then show ?thesis using run by blast
qed

lemma sorted_two: "sorted (map f (xs @ [t]) @ [n :: nat]) \<Longrightarrow> sp \<in> set xs \<Longrightarrow> f sp \<le> f t"
  by (auto simp: sorted_append)

lemma back_restored:
  assumes inv: "sp_inv p" and st: "activeSavepoints p = xs @ [t]" and sp: "sp \<in> set xs" and r: "restored t p p'"
  shows "kept_sp p p' sp sp" "back_slab sp p' = back_slab sp p"
proof -
  have mk: "marks_ok p" and so: "stack_ok p" using inv by (simp_all add: sp_inv_def)
  have le: "undoLogPos sp \<le> undoLogPos t" "retiredLen sp \<le> retiredLen t" "deferredLen sp \<le> deferredLen t"
    "detachedLen sp \<le> detachedLen t"
    using mk sorted_two [OF _ sp] by (auto simp: marks_ok_def st)
  have f: "savepointUndoLog p' = take (undoLogPos t) (savepointUndoLog p)" "retiredPages p' = take (retiredLen t) (retiredPages p)"
    "deferredFrees p' = take (deferredLen t) (deferredFrees p)" "detachedBufs p' = take (detachedLen t) (detachedBufs p)"
    using r by (simp_all add: restored_def lists_of_def back_lists_def)
  have w: "win sp p = win sp p' @ win t p" using win_compose [OF le(1)] f(1) by (simp add: win_def)
  have sets: "pendingAllocs p' = undo_set fieldPendingAllocs (win t p) (pendingAllocs p)"
    "pendingFrees p' = undo_set fieldPendingFrees (win t p) (pendingFrees p)"
    "loosePages p' = undo_set fieldLoosePages (win t p) (loosePages p)"
    using r by (simp_all add: restored_def sets_of_def back_sets_def)
  have bs: "back_sets sp p' = back_sets sp p" by (simp add: back_sets_def w sets undo_set_append)
  have bl: "back_lists sp p' = back_lists sp p" using le by (simp add: back_lists_def f min_def)
  have "t \<in> set (tl (activeSavepoints p))" using sp st by (cases xs) auto
  then have "loosePopLog t = []" using so by (simp add: stack_ok_def)
  then have "slab p' = slab p |` (- dirty_keys (win t p))" using r by (simp add: restored_def back_slab_def Let_def)
  then show sl: "back_slab sp p' = back_slab sp p" by (simp add: back_slab_def w Int_commute)
  then show "kept_sp p p' sp sp" using bs bl by (simp add: kept_sp_def)
qed

lemma map_Some_inj: "map Some xs = map Some ys \<Longrightarrow> xs = ys"
  by (metis list.inj_map_strong option.inject)

lemma restored_bitmap:
  assumes "bm_inv b" "map Some (openSnapshots b) = pre @ [Some s]" "Restore b s = Inr b'"
  shows "bm_inv b'" "map Some (openSnapshots b') = pre" "bm_work b b'"
proof -
  have s: "s \<in> set (openSnapshots b)"
  proof -
    have "Some s \<in> set (map Some (openSnapshots b))" by (simp add: assms(2))
    then show ?thesis by auto
  qed
  then show w: "bm_work b b'" using assms(3) by (rule step_Restore)
  then show "bm_inv b'" using step_inv assms(1) by blast
  have o: "openSnapshots b = butlast (openSnapshots b) @ [s]"
    using assms(2) by (metis append_butlast_last_id last_map last_snoc list.simps(8) map_butlast option.inject snoc_eq_iff_butlast)
  have "distinct (map sn_id (openSnapshots b))" using assms(1) by (simp add: bm_inv_def bm_wf_def snaps_ok_def)
  then have "sn_id t \<noteq> sn_id s" if "t \<in> set (butlast (openSnapshots b))" for t
    using that o by (metis distinct_append distinct.simps(2) disjoint_iff image_eqI image_set list.set_intros(1) list.simps(9) map_append)
  then have "older b s = butlast (openSnapshots b)"
    unfolding older_def by (subst o) (simp add: takeWhile_append2)
  then have "openSnapshots b' = butlast (openSnapshots b)" using Restore_fields(6) [OF s assms(3)] by simp
  then show "map Some (openSnapshots b') = pre" using assms(2) by (simp add: map_butlast)
qed

lemma restored_inv:
  assumes inv: "sp_inv p" and st: "activeSavepoints p = xs @ [t]" and r: "restored t p p'"
  shows "sp_inv p'"
proof -
  have ap: "activeSavepoints p' = xs" using r st by (simp add: restored_def)
  have f: "savepointUndoLog p' = take (undoLogPos t) (savepointUndoLog p)" "retiredPages p' = take (retiredLen t) (retiredPages p)"
    "deferredFrees p' = take (deferredLen t) (deferredFrees p)" "detachedBufs p' = take (detachedLen t) (detachedBufs p)"
    using r by (simp_all add: restored_def lists_of_def back_lists_def)
  have mk: "marks_ok p" and so: "stack_ok p" and be: "below_ok p" using inv by (simp_all add: sp_inv_def)
  have "marks_ok p'"
    using mk marks_le [OF mk, of t] by (simp add: marks_ok_def ap f st sorted_append min_def)
  moreover have "stack_ok p'"
  proof -
    have "set (tl xs) \<subseteq> set (tl (xs @ [t]))" by (cases xs) auto
    then show ?thesis using so r by (auto simp: stack_ok_def ap st restored_def)
  qed
  moreover have "log_ok p'" using inv by (auto simp: sp_inv_def log_ok_def f dest: in_set_takeD)
  moreover have "bitmap_ok p'"
  proof -
    obtain b b' s where b: "bmap p = Some b" "sc_bitmap (sp_core t) = Some s" "Restore b s = Inr b'" "bmap p' = Some b'"
      using r by (auto simp: restored_def)
    obtain pre where "bm_inv b" "map Some (openSnapshots b) = pre @ snaps_at p"
      using inv b(1) by (auto simp: sp_inv_def bitmap_ok_def)
    moreover have "snaps_at p = snaps_at p' @ [Some s]" using b(2) st ap by (simp add: snaps_at_def)
    ultimately have "bm_inv b'" "map Some (openSnapshots b') = pre @ snaps_at p'"
      using restored_bitmap [of b "pre @ snaps_at p'" s b'] b(3) by simp_all
    then show ?thesis using b(4) by (auto simp: bitmap_ok_def)
  qed
  moreover have below: "below_ok p'"
  proof -
    have cur: "ids_below (sc_highWaterMark (sp_core t)) (back_sets t p) (back_slab t p)"
      using be st by (simp add: below_ok_def)
    moreover have "back_sets t p = sets_of p'" "back_slab t p = slab p'" "highWaterMark p' = sc_highWaterMark (sp_core t)"
      using r by (simp_all add: restored_def)
    ultimately have "pendingAllocs p' \<union> loosePages p' \<union> dom (slab p') \<subseteq> {..<highWaterMark p'}"
      by (simp add: ids_below_def sets_of_def)
    moreover have "ids_below (sc_highWaterMark (sp_core sp)) (back_sets sp p') (back_slab sp p')" if "sp \<in> set xs" for sp
      using kept_ids_below [OF back_restored(1) [OF inv st that r]] be that st by (simp add: below_ok_def)
    ultimately show ?thesis by (simp add: below_ok_def ap)
  qed
  moreover have "finite (loosePages p')" "finite (dom (slab p'))"
    using below finite_subset [OF _ finite_lessThan] by (auto simp: below_ok_def)
  ultimately show ?thesis using inv r by (simp add: sp_inv_def restored_def)
qed


section \<open>Opening\<close>

definition opened :: "Savepoint \<Rightarrow> Pager \<Rightarrow> Pager \<Rightarrow> bool" where
  "opened sp p p' \<longleftrightarrow>
     (\<exists>b b' s. bmap p = Some b \<and> takeSnapshot b = (s, b') \<and>
        sp_core sp = \<lparr>sc_bitmap = Some s, sc_highWaterMark = highWaterMark p, sc_rplSegments = rplSegments p\<rparr> \<and>
        p' = p\<lparr>bmap := Some b', nextSavepoint := Suc (nextSavepoint p), activeSavepoints := activeSavepoints p @ [sp],
               savepointDepth := (if shallow sp then savepointDepth p else savepointDepth p + 1)\<rparr>) \<and>
     sp_id sp = nextSavepoint p \<and> undoLogPos sp = length (savepointUndoLog p) \<and> retiredLen sp = length (retiredPages p) \<and>
     deferredLen sp = length (deferredFrees p) \<and> detachedLen sp = length (detachedBufs p) \<and> loosePopLog sp = [] \<and>
     (shallow sp \<longrightarrow> filter shallow (activeSavepoints p) = [])"

lemma BeginSavepoint_opened:
  assumes "sp_inv p" "BeginSavepoint p = (Inr (Some sp), p')"
  shows "opened sp p p' \<and> \<not> shallow sp"
proof -
  obtain b where "bmap p = Some b" "\<not> readOnly p" using assms(1) by (auto simp: sp_inv_def bitmap_ok_def)
  then show ?thesis using assms(2)
    by (auto simp: BeginSavepoint_def captureSavepointState_def captureCore_def opened_def shallow_def split: prod.splits)
qed

lemma BeginShallow_opened:
  assumes "sp_inv p" "BeginShallowSavepoint p = (Inr (Some sp), p')"
  shows "opened sp p p' \<and> shallow sp"
proof -
  obtain b where "bmap p = Some b" "\<not> readOnly p" using assms(1) by (auto simp: sp_inv_def bitmap_ok_def)
  then show ?thesis using assms(2)
    by (auto simp: BeginShallowSavepoint_def captureSavepointState_def captureCore_def opened_def shallow_def
        list_ex_iff filter_empty_conv split: prod.splits if_splits)
qed

lemma opened_back:
  assumes "opened sp p p'"
  shows "back_sets sp p' = sets_of p" "back_slab sp p' = slab p" "back_lists sp p' = lists_of p"
    "back_sets t p' = back_sets t p" "back_slab t p' = back_slab t p" "back_lists t p' = back_lists t p"
    "sets_of p' = sets_of p" "slab p' = slab p" "activeSavepoints p' = activeSavepoints p @ [sp]"
    "txSnapshot p' = txSnapshot p" "cfg p' = cfg p"
  using assms
  by (auto simp: opened_def back_sets_def back_slab_def back_lists_def sets_of_def lists_of_def win_def undo_set_def Let_def)

lemma opened_inv:
  assumes inv: "sp_inv p" and o: "opened sp p p'"
  shows "sp_inv p'"
proof -
  obtain b b' s where b: "bmap p = Some b" "takeSnapshot b = (s, b')" "sc_bitmap (sp_core sp) = Some s"
    "sc_highWaterMark (sp_core sp) = highWaterMark p" "bmap p' = Some b'"
    using o by (auto simp: opened_def)
  have f: "savepointUndoLog p' = savepointUndoLog p" "retiredPages p' = retiredPages p" "deferredFrees p' = deferredFrees p"
    "detachedBufs p' = detachedBufs p" "highWaterMark p' = highWaterMark p" "readOnly p' = readOnly p"
    "nextSavepoint p' = Suc (nextSavepoint p)" "loosePages p' = loosePages p" "pendingAllocs p' = pendingAllocs p"
    "savepointDepth p' = (if shallow sp then savepointDepth p else savepointDepth p + 1)"
    "sp_id sp = nextSavepoint p" "loosePopLog sp = []" "shallow sp \<longrightarrow> filter shallow (activeSavepoints p) = []"
    "undoLogPos sp = length (savepointUndoLog p)" "retiredLen sp = length (retiredPages p)"
    "deferredLen sp = length (deferredFrees p)" "detachedLen sp = length (detachedBufs p)"
    using o by (auto simp: opened_def)
  note bk = opened_back [OF o]
  have mk: "marks_ok p" and so: "stack_ok p" and be: "below_ok p" using inv by (simp_all add: sp_inv_def)
  have "marks_ok p'" using mk by (simp add: marks_ok_def f bk(9) sorted_append)
  moreover have "stack_ok p'"
  proof -
    have "set (tl (activeSavepoints p @ [sp])) \<subseteq> set (tl (activeSavepoints p)) \<union> {sp}" by (cases "activeSavepoints p") auto
    then show ?thesis using so f by (auto simp: stack_ok_def bk(9))
  qed
  moreover have "log_ok p'" using inv by (simp add: sp_inv_def log_ok_def f)
  moreover have "bitmap_ok p'"
  proof -
    obtain pre where pre: "bm_inv b" "map Some (openSnapshots b) = pre @ snaps_at p"
      using inv b(1) by (auto simp: sp_inv_def bitmap_ok_def)
    have "bm_work b b'" using step_Snapshot [of b] b(2) by simp
    then have "bm_inv b'" using step_inv pre(1) by blast
    moreover have "openSnapshots b' = openSnapshots b @ [s]" using b(2) by (auto simp: takeSnapshot_def Let_def)
    ultimately show ?thesis using pre(2) b(3,5) by (auto simp: bitmap_ok_def snaps_at_def bk(9))
  qed
  moreover have "below_ok p'"
  proof -
    have "ids_below (sc_highWaterMark (sp_core sp)) (back_sets sp p') (back_slab sp p')"
      unfolding bk(1,2) b(4) using be by (simp add: below_ok_def ids_below_def sets_of_def)
    moreover have "ids_below (sc_highWaterMark (sp_core u)) (back_sets u p') (back_slab u p')"
      if "u \<in> set (activeSavepoints p)" for u
      unfolding bk(4,5) using be that by (simp add: below_ok_def)
    ultimately show ?thesis using be by (simp add: below_ok_def bk(8,9) f)
  qed
  ultimately show ?thesis using inv by (simp add: sp_inv_def f bk(8))
qed

section \<open>Releasing\<close>

lemma each_Set_run:
  assumes "each_pm (\<lambda>pid. with_bitmap (\<lambda>b. Set b pid)) ids p = (Inr (), p')" "bmap p = Some b" "bm_inv b"
  shows "\<exists>b'. p' = p\<lparr>bmap := Some b'\<rparr> \<and> bm_work\<^sup>*\<^sup>* b b' \<and> openSnapshots b' = openSnapshots b \<and> bm_inv b'"
  using assms
proof (induction ids arbitrary: p b)
  case Nil
  then show ?case by (intro exI [of _ b]) (cases p, simp add: ret_def)
next
  case (Cons i ids)
  obtain b1 where b1: "Set b i = Inr b1" "each_pm (\<lambda>pid. with_bitmap (\<lambda>b. Set b pid)) ids (p\<lparr>bmap := Some b1\<rparr>) = (Inr (), p')"
    using Cons.prems by (cases "Set b i") (simp_all add: bnd_def with_bitmap_def [of _ p])
  have g: "bm_work\<^sup>*\<^sup>* b b1" "openSnapshots b1 = openSnapshots b"
    using gentle_ops(1) [of i] b1(1) Cons.prems(3) unfolding gentle_def by blast+
  then have "bm_inv b1" using steps_inv Cons.prems(3) by blast
  then obtain b' where "p' = p\<lparr>bmap := Some b'\<rparr>" "bm_work\<^sup>*\<^sup>* b1 b'" "openSnapshots b' = openSnapshots b1" "bm_inv b'"
    using Cons.IH [OF b1(2)] by auto
  then show ?case using g by (metis rtranclp_trans)
qed

lemma Discard_last:
  assumes "bm_inv b" "map Some (openSnapshots b) = pre @ [Some s]" "Discard b s = Inr b'"
  shows "bm_inv b'" "map Some (openSnapshots b') = pre" "bm_work b b'"
proof -
  have s: "s \<in> set (openSnapshots b)"
  proof -
    have "Some s \<in> set (map Some (openSnapshots b))" by (simp add: assms(2))
    then show ?thesis by auto
  qed
  show w: "bm_work b b'" using assms(3) by (rule step_Discard)
  then show "bm_inv b'" using step_inv assms(1) by blast
  have wf: "bm_wf b" using assms(1) by (simp add: bm_inv_def)
  obtain xs u ys where x: "openSnapshots b = xs @ u # ys" "sn_id u = sn_id s" "openSnapshots b' = xs @ ys"
    using Discard_fields(1) [OF wf assms(3)] by blast
  have "u = s" using snapshot_unique [OF wf s, of u] x by simp
  moreover have "distinct (openSnapshots b)"
    using wf by (auto simp: bm_wf_def snaps_ok_def distinct_map)
  moreover have l: "last (openSnapshots b) = s"
    using assms(2) by (metis last_map last_snoc list.simps(8) option.inject snoc_eq_iff_butlast)
  ultimately have "ys = []" using x(1) by (cases ys rule: rev_cases) auto
  then have "openSnapshots b' = butlast (openSnapshots b)" using x by simp
  then show "map Some (openSnapshots b') = pre" using assms(2) by (simp add: map_butlast)
qed

definition closed_top :: "Savepoint \<Rightarrow> Pager \<Rightarrow> Pager \<Rightarrow> bool" where
  "closed_top t p q \<longleftrightarrow>
     activeSavepoints q = butlast (activeSavepoints p) \<and> sets_of q = sets_of p \<and> slab q = slab p \<and>
     (if activeSavepoints q = [] then savepointUndoLog q = [] else savepointUndoLog q = savepointUndoLog p) \<and>
     (if activeSavepoints q = [] then deferredFrees q = [] else deferredFrees q = deferredFrees p) \<and>
     retiredPages q = retiredPages p \<and> detachedBufs q = detachedBufs p \<and> highWaterMark q = highWaterMark p \<and>
     readOnly q = readOnly p \<and> nextSavepoint q = nextSavepoint p \<and> txSnapshot q = txSnapshot p \<and> cfg q = cfg p \<and>
     savepointDepth q = (if shallow t then savepointDepth p else savepointDepth p - 1) \<and>
     (\<exists>b b1 b' s. bmap p = Some b \<and> sc_bitmap (sp_core t) = Some s \<and> bm_work\<^sup>*\<^sup>* b b1 \<and> bm_inv b1 \<and>
        openSnapshots b1 = openSnapshots b \<and> Discard b1 s = Inr b' \<and> bmap q = Some b')"

lemma ReleaseSavepoint_top:
  assumes inv: "sp_inv p" and top: "top_is h p" and t: "t = last (activeSavepoints p)"
    and run: "ReleaseSavepoint env (Some h) p = (Inr (), p')"
  shows "\<exists>q. closed_top t p q \<and> SpillExcess env q = (Inr (), p')"
proof -
  have tin: "t \<in> set (activeSavepoints p)" using top t by (simp add: top_is_def)
  obtain b s where b: "bmap p = Some b" "bm_inv b" "sc_bitmap (sp_core t) = Some s"
    using top_snapshot [OF inv tin] by blast
  have k: "sp_kind t = SavepointNested \<longleftrightarrow> \<not> shallow t" by (cases "sp_kind t") (simp_all add: shallow_def)
  have ro: "\<not> readOnly p" using inv by (simp add: sp_inv_def)
  define p1 where "p1 = p\<lparr>activeSavepoints := butlast (activeSavepoints p)\<rparr>"
  define mid where "mid = (\<lambda>p :: Pager. if activeSavepoints p = [] then
      bnd (upd (\<lambda>p. p\<lparr>savepointUndoLog := []\<rparr>)) (\<lambda>_ p.
        if deferredFrees p \<noteq> [] \<and> bmap p \<noteq> None then
          bnd (each_pm (\<lambda>pid. with_bitmap (\<lambda>b. Set b pid)) (deferredFrees p)) (\<lambda>_.
          upd (\<lambda>p. p\<lparr>deferredFrees := []\<rparr>)) p
        else (Inr (), p)) p
    else (Inr (), p))"
  define dep where "dep = (\<lambda>p :: Pager. if sp_kind t = SavepointNested \<and> savepointDepth p > 0
     then p\<lparr>savepointDepth := savepointDepth p - 1\<rparr> else p)"
  have "bnd mid (\<lambda>_. bnd (with_snapshot Discard (sc_bitmap (sp_core t))) (\<lambda>_. bnd (upd dep) (\<lambda>_. SpillExcess env))) p1 = (Inr (), p')"
    using run top ro by (simp add: ReleaseSavepoint_def Let_def t [symmetric] mid_def dep_def p1_def bnd_def [of "upd _"] upd_def)
  then obtain p2 p3 where p2: "mid p1 = (Inr (), p2)" and p3: "with_snapshot Discard (Some s) p2 = (Inr (), p3)"
    and p': "SpillExcess env (dep p3) = (Inr (), p')"
    using b(3) by (auto simp: bnd_def upd_def split: prod.splits sum.splits)
  have m: "\<exists>b1. bmap p2 = Some b1 \<and> bm_work\<^sup>*\<^sup>* b b1 \<and> bm_inv b1 \<and> openSnapshots b1 = openSnapshots b \<and>
      p2 = p1\<lparr>bmap := Some b1, savepointUndoLog := (if activeSavepoints p1 = [] then [] else savepointUndoLog p1),
        deferredFrees := (if activeSavepoints p1 = [] then [] else deferredFrees p1)\<rparr>"
  proof (cases "activeSavepoints p1 = [] \<and> deferredFrees p1 \<noteq> []")
    case True
    let ?q = "p1\<lparr>savepointUndoLog := []\<rparr>"
    obtain p4 where p4: "each_pm (\<lambda>pid. with_bitmap (\<lambda>b. Set b pid)) (deferredFrees ?q) ?q = (Inr (), p4)"
        "p2 = p4\<lparr>deferredFrees := []\<rparr>"
      using True p2 b(1) by (auto simp: mid_def bnd_def upd_def p1_def split: prod.splits sum.splits)
    obtain b1 where "p4 = ?q\<lparr>bmap := Some b1\<rparr>" "bm_work\<^sup>*\<^sup>* b b1" "openSnapshots b1 = openSnapshots b" "bm_inv b1"
      using each_Set_run [OF p4(1) _ b(2)] b(1) by (auto simp: p1_def)
    then show ?thesis using True p4(2) by (intro exI [of _ b1]) simp
  next
    case False
    then have "p2 = p1\<lparr>savepointUndoLog := (if activeSavepoints p1 = [] then [] else savepointUndoLog p1)\<rparr>"
      using p2 by (cases p1) (auto simp: mid_def bnd_def upd_def split: if_splits)
    then show ?thesis using False b by (intro exI [of _ b]) (cases p; auto simp: p1_def)
  qed
  then obtain b1 where b1: "bmap p2 = Some b1" "bm_work\<^sup>*\<^sup>* b b1" "bm_inv b1" "openSnapshots b1 = openSnapshots b"
    "p2 = p1\<lparr>bmap := Some b1, savepointUndoLog := (if activeSavepoints p1 = [] then [] else savepointUndoLog p1),
        deferredFrees := (if activeSavepoints p1 = [] then [] else deferredFrees p1)\<rparr>" by blast
  obtain b2 where b2: "Discard b1 s = Inr b2" "p3 = p2\<lparr>bmap := Some b2\<rparr>"
    using p3 b1(1) by (auto simp: with_snapshot_def with_bitmap_def split: sum.splits)
  have "closed_top t p (dep p3)"
    unfolding closed_top_def using b b1 b2 by (auto simp: dep_def p1_def k sets_of_def)
  then show ?thesis using p' by blast
qed


lemma closed_kept:
  assumes "sp_inv p" "activeSavepoints p = xs @ [t]" "closed_top t p q" "sp \<in> set xs"
  shows "kept_sp p q sp sp" "back_slab sp q = back_slab sp p"
proof -
  have "activeSavepoints q \<noteq> []" using assms by (auto simp: closed_top_def)
  then have f: "savepointUndoLog q = savepointUndoLog p" "deferredFrees q = deferredFrees p" "retiredPages q = retiredPages p"
    "detachedBufs q = detachedBufs p" "slab q = slab p" "pendingAllocs q = pendingAllocs p" "pendingFrees q = pendingFrees p"
    "loosePages q = loosePages p"
    using assms(3) by (auto simp: closed_top_def sets_of_def)
  then show "back_slab sp q = back_slab sp p" by (simp add: back_slab_def win_def)
  then show "kept_sp p q sp sp" by (simp add: kept_sp_def back_sets_def back_lists_def win_def f)
qed

lemma closed_inv:
  assumes inv: "sp_inv p" and st: "activeSavepoints p = xs @ [t]" and c: "closed_top t p q"
  shows "sp_inv q"
proof -
  have aq: "activeSavepoints q = xs" using c st by (simp add: closed_top_def)
  have mk: "marks_ok p" and so: "stack_ok p" and be: "below_ok p" using inv by (simp_all add: sp_inv_def)
  have f: "retiredPages q = retiredPages p" "detachedBufs q = detachedBufs p" "slab q = slab p" "pendingAllocs q = pendingAllocs p"
    "loosePages q = loosePages p" "highWaterMark q = highWaterMark p" "readOnly q = readOnly p"
    using c by (auto simp: closed_top_def sets_of_def)
  have "marks_ok q"
    using mk c by (cases "xs = []") (auto simp: marks_ok_def closed_top_def aq st sorted_append f)
  moreover have "stack_ok q"
  proof -
    have "set (tl xs) \<subseteq> set (tl (xs @ [t]))" by (cases xs) auto
    then show ?thesis using so c by (auto simp: stack_ok_def aq st closed_top_def)
  qed
  moreover have "log_ok q" using inv c by (auto simp: sp_inv_def log_ok_def closed_top_def split: if_splits)
  moreover have "bitmap_ok q"
  proof -
    obtain b b1 b' s where b: "bmap p = Some b" "sc_bitmap (sp_core t) = Some s" "bm_inv b1"
        "openSnapshots b1 = openSnapshots b" "Discard b1 s = Inr b'" "bmap q = Some b'"
      using c by (auto simp: closed_top_def)
    obtain pre where "map Some (openSnapshots b) = pre @ snaps_at p"
      using inv b(1) by (auto simp: sp_inv_def bitmap_ok_def)
    then have "map Some (openSnapshots b1) = (pre @ snaps_at q) @ [Some s]"
      using b(2,4) st aq by (simp add: snaps_at_def)
    then show ?thesis using Discard_last [OF b(3) _ b(5)] b(6) by (auto simp: bitmap_ok_def)
  qed
  moreover have "below_ok q"
    using be kept_ids_below [OF closed_kept(1) [OF inv st c]] by (auto simp: below_ok_def aq f st)
  ultimately show ?thesis using inv by (simp add: sp_inv_def f)
qed

section \<open>Transaction bodies\<close>

text \<open>
  A call that the layers above make between the opening and the resolution of a savepoint. The
  guards are the callers' obligations: a buffer is installed only at a page below the high-water
  mark, and a savepoint is resolved only as the newest one. Errors are steps too; a call that
  opens or closes a savepoint is a step when it returns.
\<close>

inductive body_op :: "Env \<Rightarrow> Pager \<Rightarrow> Pager \<Rightarrow> bool" for env where
  op_AllocPage: "AllocPage env p = (r, p') \<Longrightarrow> body_op env p p'"
| op_AllocContiguous: "AllocContiguous env n p = (r, p') \<Longrightarrow> body_op env p p'"
| op_AllocPageBelow: "AllocPageBelow floor p = (r', p') \<Longrightarrow> body_op env p p'"
| op_AllocContiguousBelow: "AllocContiguousBelow n floor p = (r', p') \<Longrightarrow> body_op env p p'"
| op_FreePage: "FreePage pid p = (u, p') \<Longrightarrow> body_op env p p'"
| op_FreeRun: "FreeRun pid n p = (u, p') \<Longrightarrow> body_op env p p'"
| op_FreeLeakedPage: "FreeLeakedPage pid p = (u, p') \<Longrightarrow> body_op env p p'"
| op_CoW: "dst < highWaterMark p \<Longrightarrow> CoW src dst p = (r, p') \<Longrightarrow> body_op env p p'"
| op_AllocSlab: "pid < highWaterMark p \<Longrightarrow> AllocSlab pid p = (r, p') \<Longrightarrow> body_op env p p'"
| op_store: "body_op env p (store_buf b d p)"
| op_writeDirect: "writeDirect env pid d s p = (u, p') \<Longrightarrow> body_op env p p'"
| op_Page: "Page env pid p = (d, p') \<Longrightarrow> body_op env p p'"
| op_ReclaimFreeSpace: "ReclaimFreeSpace env p = (r, p') \<Longrightarrow> body_op env p p'"
| op_SpillExcess: "SpillExcess env p = (u, p') \<Longrightarrow> body_op env p p'"
| op_Begin: "BeginSavepoint p = (Inr (Some sp), p') \<Longrightarrow> body_op env p p'"
| op_BeginShallow: "BeginShallowSavepoint p = (Inr (Some sp), p') \<Longrightarrow> body_op env p p'"
| op_Restore: "top_is h p \<Longrightarrow> RestoreSavepoint (Some h) p = (Inr (), p') \<Longrightarrow> body_op env p p'"
| op_Release: "top_is h p \<Longrightarrow> ReleaseSavepoint env (Some h) p = (Inr (), p') \<Longrightarrow> body_op env p p'"

text \<open>Four kinds of steps: inside the window, or opening, restoring or releasing a savepoint.\<close>

lemma body_op_cases:
  assumes "body_op env p p'" "env_ok env" "sp_inv p"
  shows "window p p' \<or> (\<exists>sp. opened sp p p') \<or>
    (\<exists>t xs. activeSavepoints p = xs @ [t] \<and> restored t p p') \<or>
    (\<exists>t xs q. activeSavepoints p = xs @ [t] \<and> closed_top t p q \<and> window q p')"
  using assms(1)
proof cases
  case (op_CoW dst src r)
  then show ?thesis using wopD [OF wop_CoW [of dst "Suc dst"] assms(3)] by auto
next
  case (op_AllocSlab pid r)
  then show ?thesis using wopD [OF wop_AllocSlab [of pid "Suc pid"] assms(3)] by auto
next
  case (op_store b d)
  then show ?thesis using window_bufs by (simp add: store_buf_def)
next
  case (op_Begin sp)
  then show ?thesis using BeginSavepoint_opened [OF assms(3)] by blast
next
  case (op_BeginShallow sp)
  then show ?thesis using BeginShallow_opened [OF assms(3)] by blast
next
  case (op_Restore h)
  obtain q where "RestoreSavepoint (Some h) p = (Inr (), q)" "restored (last (activeSavepoints p)) p q"
    using RestoreSavepoint_top [OF assms(3) op_Restore(1) refl] by blast
  then show ?thesis using op_Restore by (metis Pair_inject append_butlast_last_id top_is_def)
next
  case (op_Release h)
  obtain q where q: "closed_top (last (activeSavepoints p)) p q" "SpillExcess env q = (Inr (), p')"
    using ReleaseSavepoint_top [OF assms(3) op_Release(1) refl op_Release(2)] by blast
  have st: "activeSavepoints p = butlast (activeSavepoints p) @ [last (activeSavepoints p)]"
    using op_Release(1) by (simp add: top_is_def)
  then have "sp_inv q" using closed_inv [OF assms(3) st q(1)] by simp
  then have "window q p'" using wopD [OF wop_SpillExcess [of 0] _ _ q(2)] by simp
  then show ?thesis using st q(1) by metis
next
  case (op_AllocPage r)
  then show ?thesis using wopD [OF wop_AllocPage [OF assms(2)] assms(3) le0] by blast
next
  case (op_AllocContiguous n r)
  then show ?thesis using wopD [OF wop_AllocContiguous [OF assms(2)] assms(3) le0] by blast
next
  case (op_AllocPageBelow floor r')
  then show ?thesis using wopD [OF wop_AllocPageBelow assms(3) le0] by blast
next
  case (op_AllocContiguousBelow n floor r')
  then show ?thesis using wopD [OF wop_AllocContiguousBelow assms(3) le0] by blast
next
  case (op_FreePage pid u)
  then show ?thesis using wopD [OF wop_FreePage assms(3) le0] by blast
next
  case (op_FreeRun pid n u)
  then show ?thesis using wopD [OF wop_FreeRun assms(3) le0] by blast
next
  case (op_FreeLeakedPage pid u)
  then show ?thesis using wopD [OF wop_FreeLeakedPage assms(3) le0] by blast
next
  case (op_writeDirect pid d s u)
  then show ?thesis using wopD [OF wop_writeDirect assms(3) le0] by blast
next
  case (op_Page pid d)
  then show ?thesis using wopD [OF wop_Page assms(3) le0] by blast
next
  case (op_ReclaimFreeSpace r)
  then show ?thesis using wopD [OF wop_ReclaimFreeSpace assms(3) le0] by blast
next
  case (op_SpillExcess u)
  then show ?thesis using wopD [OF wop_SpillExcess assms(3) le0] by blast
qed

end
