(* ===== verification/Savepoint_Trace.thy ===== *)
theory Savepoint_Trace
  imports Savepoint_Exact
begin

text \<open>
  Exactness of the savepoints over whole transaction bodies: an invariant that relates every later
  state to the state in which a savepoint was opened, for as long as it stays open, and the
  theorems that a restore brings that state back.
\<close>

section \<open>The state since the opening\<close>

definition since :: "Savepoint \<Rightarrow> Pager \<Rightarrow> Bitmap \<Rightarrow> Pager \<Rightarrow> bool" where
  "since s p0 b1 p \<longleftrightarrow>
     (\<exists>sp rest b. activeSavepoints p = activeSavepoints p0 @ sp # rest \<and> strip sp = strip s \<and>
        back_sets sp p = sets_of p0 \<and> back_lists sp p = lists_of p0 \<and>
        back_slab sp p \<subseteq>\<^sub>m slab p0 \<and> (shallow s \<longrightarrow> back_slab sp p = slab p0) \<and>
        bmap p = Some b \<and> bm_work\<^sup>*\<^sup>* b1 b \<and>
        map Some (openSnapshots b) = map Some (openSnapshots b1) @ map (\<lambda>sp. sc_bitmap (sp_core sp)) rest)"

definition gone :: "Savepoint \<Rightarrow> Pager \<Rightarrow> bool" where
  "gone s p \<longleftrightarrow> sp_id s \<notin> sp_id ` set (activeSavepoints p) \<and> sp_id s < nextSavepoint p"

lemma strip_fields:
  assumes "strip a = strip b"
  shows "sp_id a = sp_id b" "sp_core a = sp_core b" "shallow a = shallow b"
  using assms by (cases a; cases b; simp add: strip_def shallow_def)+

lemma sinceI:
  assumes "activeSavepoints p' = activeSavepoints p0 @ sp' # rest'"
    and "strip sp = strip s" "back_sets sp p = sets_of p0" "back_lists sp p = lists_of p0"
    "back_slab sp p \<subseteq>\<^sub>m slab p0" "shallow s \<longrightarrow> back_slab sp p = slab p0" "bm_work\<^sup>*\<^sup>* b1 b"
    and "kept_sp p p' sp sp'" "bmap p' = Some b'" "bm_work\<^sup>*\<^sup>* b b'"
    and "map Some (openSnapshots b') = map Some (openSnapshots b1) @ map (\<lambda>sp. sc_bitmap (sp_core sp)) rest'"
  shows "since s p0 b1 p'"
proof -
  have "back_slab sp' p' \<subseteq>\<^sub>m slab p0" using assms(5,8) map_le_trans unfolding kept_sp_def by metis
  moreover have "shallow s \<longrightarrow> back_slab sp' p' = slab p0"
    using assms(2,6,8) strip_fields(3) [of sp s] by (simp add: kept_sp_def)
  moreover have "bm_work\<^sup>*\<^sup>* b1 b'" using assms(7,10) by simp
  ultimately show ?thesis using assms unfolding since_def kept_sp_def by metis
qed

section \<open>The four kinds of steps\<close>

text \<open>With no nested savepoint open, the stack holds one savepoint at most.\<close>

lemma depth_0_one:
  assumes "sp_inv p" "savepointDepth p = 0"
  shows "length (activeSavepoints p) \<le> 1"
proof -
  have "filter (\<lambda>sp. \<not> shallow sp) (activeSavepoints p) = []" "length (filter shallow (activeSavepoints p)) \<le> 1"
    using assms by (simp_all add: sp_inv_def stack_ok_def)
  moreover have "length (filter shallow xs) + length (filter (\<lambda>sp. \<not> shallow sp) xs) = length xs" for xs
    by (rule sum_length_filter_compl)
  ultimately show ?thesis by (metis add.right_neutral list.size(3))
qed

lemma since_window:
  assumes inv: "sp_inv p" and s: "since s p0 b1 p" and w: "window p p'"
  shows "since s p0 b1 p'"
proof -
  obtain sp rest b where a: "activeSavepoints p = activeSavepoints p0 @ sp # rest" "strip sp = strip s"
    "back_sets sp p = sets_of p0" "back_lists sp p = lists_of p0" "back_slab sp p \<subseteq>\<^sub>m slab p0"
    "shallow s \<longrightarrow> back_slab sp p = slab p0" "bm_work\<^sup>*\<^sup>* b1 b" and b: "bmap p = Some b"
    and op: "map Some (openSnapshots b) = map Some (openSnapshots b1) @ map (\<lambda>sp. sc_bitmap (sp_core sp)) rest"
    using s by (auto simp: since_def)
  have la: "list_all2 (kept_sp p p') (activeSavepoints p) (activeSavepoints p')"
    and eq: "savepointDepth p \<noteq> 0 \<longrightarrow> activeSavepoints p' = activeSavepoints p"
    and bm: "bm_moves p p'"
    using w inv by (simp_all add: window_def)
  obtain b' where b': "bmap p' = Some b'" "bm_work\<^sup>*\<^sup>* b b'" "openSnapshots b' = openSnapshots b"
    using bm b by (auto simp: bm_moves_def)
  obtain sp' where sp': "activeSavepoints p' = activeSavepoints p0 @ sp' # rest" "kept_sp p p' sp sp'"
  proof (cases "savepointDepth p = 0")
    case True
    then have "activeSavepoints p0 = []" "rest = []" using depth_0_one [OF inv] a(1) by simp_all
    then show ?thesis using la a(1) that by (auto simp: list_all2_Cons1)
  next
    case False
    then have e: "activeSavepoints p' = activeSavepoints p" using eq by simp
    then have "kept_sp p p' sp sp" using la a(1) by (auto simp: list_all2_same)
    then show ?thesis using that e a(1) by simp
  qed
  show ?thesis by (rule sinceI [OF sp'(1) a(2-7) sp'(2) b'(1,2)]) (simp add: b'(3) op)
qed

lemma since_opened:
  assumes s: "since s p0 b1 p" and o: "opened t p p'"
  shows "since s p0 b1 p'"
proof -
  obtain sp rest b where a: "activeSavepoints p = activeSavepoints p0 @ sp # rest" "strip sp = strip s"
    "back_sets sp p = sets_of p0" "back_lists sp p = lists_of p0" "back_slab sp p \<subseteq>\<^sub>m slab p0"
    "shallow s \<longrightarrow> back_slab sp p = slab p0" "bm_work\<^sup>*\<^sup>* b1 b" and b: "bmap p = Some b"
    and op: "map Some (openSnapshots b) = map Some (openSnapshots b1) @ map (\<lambda>sp. sc_bitmap (sp_core sp)) rest"
    using s by (auto simp: since_def)
  obtain u b' where u: "takeSnapshot b = (u, b')" "sc_bitmap (sp_core t) = Some u" "bmap p' = Some b'"
    using o b by (auto simp: opened_def)
  note bk = opened_back [OF o]
  have k: "kept_sp p p' sp sp" by (simp add: kept_sp_def bk)
  have w: "bm_work\<^sup>*\<^sup>* b b'" using step_Snapshot [of b] u(1) by auto
  have "openSnapshots b' = openSnapshots b @ [u]" using u(1) by (auto simp: takeSnapshot_def Let_def)
  then have "map Some (openSnapshots b') = map Some (openSnapshots b1) @ map (\<lambda>sp. sc_bitmap (sp_core sp)) (rest @ [t])"
    using op u(2) by simp
  moreover have "activeSavepoints p' = activeSavepoints p0 @ sp # (rest @ [t])" by (simp add: bk(9) a(1))
  ultimately show ?thesis using sinceI [OF _ a(2-7) k u(3) w] by blast
qed

lemma stack_ids:
  "sp_inv p \<Longrightarrow> distinct (map sp_id (activeSavepoints p)) \<and> (\<forall>sp \<in> set (activeSavepoints p). sp_id sp < nextSavepoint p)"
  by (simp add: sp_inv_def stack_ok_def)

text \<open>Popping the newest savepoint: either it is the one that is followed, or that one stays.\<close>

lemma since_popped:
  assumes inv: "sp_inv p" and s: "since s p0 b1 p" and st: "activeSavepoints p = xs @ [t]"
    and kept: "\<And>sp. sp \<in> set xs \<Longrightarrow> kept_sp p p' sp sp"
    and st': "activeSavepoints p' = xs" "nextSavepoint p' = nextSavepoint p"
    and bm: "\<And>b u pre. bmap p = Some b \<Longrightarrow> bm_inv b \<Longrightarrow> sc_bitmap (sp_core t) = Some u \<Longrightarrow>
        map Some (openSnapshots b) = pre @ [Some u] \<Longrightarrow>
        \<exists>b'. bmap p' = Some b' \<and> bm_work\<^sup>*\<^sup>* b b' \<and> map Some (openSnapshots b') = pre"
  shows "since s p0 b1 p' \<or> gone s p'"
proof -
  obtain sp rest b where a: "activeSavepoints p = activeSavepoints p0 @ sp # rest" "strip sp = strip s"
    "back_sets sp p = sets_of p0" "back_lists sp p = lists_of p0" "back_slab sp p \<subseteq>\<^sub>m slab p0"
    "shallow s \<longrightarrow> back_slab sp p = slab p0" "bm_work\<^sup>*\<^sup>* b1 b" and b: "bmap p = Some b"
    and op: "map Some (openSnapshots b) = map Some (openSnapshots b1) @ map (\<lambda>sp. sc_bitmap (sp_core sp)) rest"
    using s by (auto simp: since_def)
  show ?thesis
  proof (cases rest rule: rev_cases)
    case Nil
    then have "sp = t" "xs = activeSavepoints p0" using a(1) st by simp_all
    then have "gone s p'"
      using stack_ids [OF inv] a(2) st strip_fields(1) [OF a(2)] by (auto simp: gone_def st')
    then show ?thesis ..
  next
    case (snoc r u)
    then have r: "u = t" "xs = activeSavepoints p0 @ sp # r" using a(1) st by simp_all
    have iv: "bm_inv b" using inv b by (auto simp: sp_inv_def bitmap_ok_def)
    have "t \<in> set (activeSavepoints p)" using st by simp
    then obtain v where v: "sc_bitmap (sp_core t) = Some v" using top_snapshot [OF inv] by blast
    obtain b' where b': "bmap p' = Some b'" "bm_work\<^sup>*\<^sup>* b b'"
      "map Some (openSnapshots b') = map Some (openSnapshots b1) @ map (\<lambda>sp. sc_bitmap (sp_core sp)) r"
      using bm [OF b iv v, of "map Some (openSnapshots b1) @ map (\<lambda>sp. sc_bitmap (sp_core sp)) r"] op v
      by (auto simp: snoc r(1))
    have k: "kept_sp p p' sp sp" by (rule kept) (simp add: r(2))
    have "activeSavepoints p' = activeSavepoints p0 @ sp # r" by (simp add: st' r(2))
    then have "since s p0 b1 p'" by (rule sinceI [OF _ a(2-7) k b'])
    then show ?thesis ..
  qed
qed

lemma restored_bits:
  assumes "restored t p q" "bmap p = Some b" "bm_inv b" "sc_bitmap (sp_core t) = Some u" "map Some (openSnapshots b) = pre @ [Some u]"
  shows "\<exists>b'. bmap q = Some b' \<and> bm_work\<^sup>*\<^sup>* b b' \<and> map Some (openSnapshots b') = pre"
  using assms(1,2,4) restored_bitmap [OF assms(3,5)] unfolding restored_def by (metis option.inject r_into_rtranclp)

lemma since_restored:
  assumes "sp_inv p" "since s p0 b1 p" "activeSavepoints p = xs @ [t]" "restored t p p'"
  shows "since s p0 b1 p' \<or> gone s p'"
proof (rule since_popped [OF assms(1-3)])
  show "kept_sp p p' sp sp" if "sp \<in> set xs" for sp using back_restored(1) [OF assms(1,3) that assms(4)] .
  show "activeSavepoints p' = xs" "nextSavepoint p' = nextSavepoint p" using assms(3,4) by (simp_all add: restored_def)
  show "\<exists>b'. bmap p' = Some b' \<and> bm_work\<^sup>*\<^sup>* b b' \<and> map Some (openSnapshots b') = pre"
    if "bmap p = Some b" "bm_inv b" "sc_bitmap (sp_core t) = Some u" "map Some (openSnapshots b) = pre @ [Some u]" for b u pre
    by (rule restored_bits [OF assms(4) that])
qed

lemma closed_bitmap:
  assumes "closed_top t p q" "bmap p = Some b" "sc_bitmap (sp_core t) = Some u" "map Some (openSnapshots b) = pre @ [Some u]"
  shows "\<exists>b'. bmap q = Some b' \<and> bm_work\<^sup>*\<^sup>* b b' \<and> map Some (openSnapshots b') = pre"
proof -
  obtain b2 b' where "bm_work\<^sup>*\<^sup>* b b2" "bm_inv b2" "openSnapshots b2 = openSnapshots b" "Discard b2 u = Inr b'" "bmap q = Some b'"
    using assms(1-3) by (auto simp: closed_top_def)
  moreover from this have "map Some (openSnapshots b') = pre" "bm_work b2 b'"
    using Discard_last [of b2 pre u b'] assms(4) by simp_all
  ultimately show ?thesis by (metis rtranclp.rtrancl_into_rtrancl)
qed

lemma since_closed:
  assumes "sp_inv p" "since s p0 b1 p" "activeSavepoints p = xs @ [t]" "closed_top t p p'"
  shows "since s p0 b1 p' \<or> gone s p'"
proof (rule since_popped [OF assms(1-3)])
  show "kept_sp p p' sp sp" if "sp \<in> set xs" for sp using closed_kept(1) [OF assms(1,3,4) that] .
  show "activeSavepoints p' = xs" "nextSavepoint p' = nextSavepoint p" using assms(3,4) by (simp_all add: closed_top_def)
  show "\<exists>b'. bmap p' = Some b' \<and> bm_work\<^sup>*\<^sup>* b b' \<and> map Some (openSnapshots b') = pre"
    if bu: "bmap p = Some b" "bm_inv b" "sc_bitmap (sp_core t) = Some u" "map Some (openSnapshots b) = pre @ [Some u]" for b u pre
    by (rule closed_bitmap [OF assms(4) bu(1,3,4)])
qed

lemma gone_window:
  assumes i: "sp_inv p" and w: "window p p'" and g: "gone s p"
  shows "gone s p'"
proof -
  have la: "list_all2 (kept_sp p p') (activeSavepoints p) (activeSavepoints p')" and "nextSavepoint p' = nextSavepoint p"
    using w i by (simp_all add: window_def fixed_fields_def)
  moreover have "map sp_id (activeSavepoints p') = map sp_id (activeSavepoints p)"
    using la by (induction rule: list_all2_induct) (auto simp: kept_sp_def dest: strip_fields(1))
  then have "sp_id ` set (activeSavepoints p') = sp_id ` set (activeSavepoints p)" by (metis image_set)
  ultimately show ?thesis using g by (simp add: gone_def)
qed

lemma gone_step:
  assumes inv: "sp_inv p" and op: "body_op env p p'" and ok: "env_ok env" and g: "gone s p"
  shows "gone s p'"
proof -
  consider "window p p'" | t where "opened t p p'"
    | t xs where "activeSavepoints p = xs @ [t]" "restored t p p'"
    | t xs q where "activeSavepoints p = xs @ [t]" "closed_top t p q" "window q p'"
    using body_op_cases [OF op ok inv] by blast
  then show ?thesis
  proof cases
    case 1
    then show ?thesis using gone_window [OF inv _ g] by blast
  next
    case 2
    then show ?thesis using g by (auto simp: opened_def gone_def)
  next
    case 3
    then show ?thesis using g by (auto simp: restored_def gone_def)
  next
    case 4
    then have "gone s q" using g by (auto simp: closed_top_def gone_def)
    then show ?thesis using gone_window closed_inv [OF inv] 4 by blast
  qed
qed

lemma body_op_inv:
  assumes inv: "sp_inv p" and op: "body_op env p p'" and ok: "env_ok env"
  shows "sp_inv p'"
  using body_op_cases [OF op ok inv] inv opened_inv restored_inv closed_inv
  unfolding window_def by metis

lemma since_step:
  assumes inv: "sp_inv p" and op: "body_op env p p'" and ok: "env_ok env" and s: "since s p0 b1 p"
  shows "since s p0 b1 p' \<or> gone s p'"
proof -
  consider "window p p'" | t where "opened t p p'"
    | t xs where "activeSavepoints p = xs @ [t]" "restored t p p'"
    | t xs q where "activeSavepoints p = xs @ [t]" "closed_top t p q" "window q p'"
    using body_op_cases [OF op ok inv] by blast
  then show ?thesis
  proof cases
    case 1
    then show ?thesis using since_window [OF inv s] by blast
  next
    case 2
    then show ?thesis using since_opened [OF s] by blast
  next
    case 3
    then show ?thesis using since_restored [OF inv s] by blast
  next
    case 4
    have q: "sp_inv q" using closed_inv [OF inv 4(1,2)] .
    show ?thesis using since_closed [OF inv s 4(1,2)] since_window [OF q _ 4(3)] gone_window [OF q 4(3)] by blast
  qed
qed

section \<open>Exactness\<close>

text \<open>
  The transaction state of \<open>p'\<close> is that of \<open>p\<close>: the tracking sets, the append-only lists with the
  undo log, the high-water mark, the retired-page chain, the savepoint stack and the allocation
  bitmap up to the counter that numbers its snapshots. Buffers may be missing from the slab.
\<close>

definition rolled_back :: "Pager \<Rightarrow> Pager \<Rightarrow> bool" where
  "rolled_back p p' \<longleftrightarrow>
     pendingAllocs p' = pendingAllocs p \<and> pendingFrees p' = pendingFrees p \<and> loosePages p' = loosePages p \<and>
     retiredPages p' = retiredPages p \<and> deferredFrees p' = deferredFrees p \<and> detachedBufs p' = detachedBufs p \<and>
     savepointUndoLog p' = savepointUndoLog p \<and> highWaterMark p' = highWaterMark p \<and> rplSegments p' = rplSegments p \<and>
     activeSavepoints p' = activeSavepoints p \<and> savepointDepth p' = savepointDepth p \<and> slab p' \<subseteq>\<^sub>m slab p \<and>
     (\<exists>b n. bmap p = Some b \<and> bmap p' = Some (b\<lparr>nextSnap := n\<rparr>))"

lemma opened_since:
  assumes inv: "sp_inv p0" and o: "opened s p0 p1"
  shows "\<exists>b0 u b1. bmap p0 = Some b0 \<and> bm_inv b0 \<and> takeSnapshot b0 = (u, b1) \<and> sc_bitmap (sp_core s) = Some u \<and> since s p0 b1 p1"
proof -
  obtain b0 u b1 where b: "bmap p0 = Some b0" "takeSnapshot b0 = (u, b1)" "sc_bitmap (sp_core s) = Some u" "bmap p1 = Some b1"
    using o by (auto simp: opened_def)
  note bk = opened_back [OF o]
  have "since s p0 b1 p1"
    unfolding since_def by (intro exI [of _ s] exI [of _ "[]"] exI [of _ b1]) (simp add: bk(1-3,9) b(4))
  moreover have "bm_inv b0" using inv b(1) by (auto simp: sp_inv_def bitmap_ok_def)
  ultimately show ?thesis using b by blast
qed

lemma body_ops_since:
  assumes "(body_op env)\<^sup>*\<^sup>* p1 p2" "env_ok env" "sp_inv p1" "since s p0 b1 p1"
  shows "sp_inv p2 \<and> (since s p0 b1 p2 \<or> gone s p2)"
  using assms(1)
proof (induction rule: rtranclp_induct)
  case (step q r)
  then have q: "sp_inv q" by blast
  then show ?case using step since_step [OF q step(2) assms(2)] gone_step [OF q step(2) assms(2)]
      body_op_inv [OF q step(2) assms(2)] by blast
qed (use assms in simp)

lemma depth_of_stack: "sp_inv p \<Longrightarrow> savepointDepth p = length (filter (\<lambda>sp. \<not> shallow sp) (activeSavepoints p))"
  by (simp add: sp_inv_def stack_ok_def)

text \<open>The savepoint is still the newest one: it is the top of the stack, with nothing above it.\<close>

lemma since_top:
  assumes inv: "sp_inv p" and s: "since s p0 b1 p" and top: "top_is s p"
  shows "activeSavepoints p = activeSavepoints p0 @ [last (activeSavepoints p)] \<and>
     strip (last (activeSavepoints p)) = strip s \<and>
     back_sets (last (activeSavepoints p)) p = sets_of p0 \<and> back_lists (last (activeSavepoints p)) p = lists_of p0 \<and>
     back_slab (last (activeSavepoints p)) p \<subseteq>\<^sub>m slab p0 \<and>
     (shallow s \<longrightarrow> back_slab (last (activeSavepoints p)) p = slab p0) \<and>
     (\<exists>b. bmap p = Some b \<and> bm_work\<^sup>*\<^sup>* b1 b \<and> openSnapshots b = openSnapshots b1)"
proof -
  obtain sp rest b where a: "activeSavepoints p = activeSavepoints p0 @ sp # rest" "strip sp = strip s"
    "back_sets sp p = sets_of p0" "back_lists sp p = lists_of p0" "back_slab sp p \<subseteq>\<^sub>m slab p0"
    "shallow s \<longrightarrow> back_slab sp p = slab p0" "bmap p = Some b" "bm_work\<^sup>*\<^sup>* b1 b"
    "map Some (openSnapshots b) = map Some (openSnapshots b1) @ map (\<lambda>sp. sc_bitmap (sp_core sp)) rest"
    using s by (auto simp: since_def)
  have "sp_id (last (sp # rest)) = sp_id sp"
    using top a(1,2) strip_fields(1) [OF a(2)] by (simp add: top_is_def)
  moreover have "distinct (map sp_id (sp # rest))" using stack_ids [OF inv] a(1) by simp
  ultimately have "rest = []" by (cases rest rule: rev_cases) auto
  then show ?thesis using a map_Some_inj by auto
qed

lemma restore_exact:
  assumes inv: "sp_inv p0" and ok: "env_ok env" and o: "opened s p0 p1"
    and run: "(body_op env)\<^sup>*\<^sup>* p1 p2" and top: "top_is s p2"
  shows "\<exists>p3. RestoreSavepoint (Some s) p2 = (Inr (), p3) \<and> rolled_back p0 p3 \<and> sp_inv p3 \<and> (shallow s \<longrightarrow> slab p3 = slab p0)"
proof -
  obtain b0 u b1 where b0: "bmap p0 = Some b0" "bm_inv b0" "takeSnapshot b0 = (u, b1)"
    "sc_bitmap (sp_core s) = Some u" "since s p0 b1 p1"
    using opened_since [OF inv o] by blast
  have st: "sp_inv p2 \<and> (since s p0 b1 p2 \<or> gone s p2)"
    using body_ops_since [OF run ok opened_inv [OF inv o] b0(5)] .
  moreover have "\<not> gone s p2" using top unfolding gone_def top_is_def by (metis imageI last_in_set)
  ultimately have inv2: "sp_inv p2" and "since s p0 b1 p2" by simp_all
  define t where "t = last (activeSavepoints p2)"
  note tt = since_top [OF inv2 \<open>since s p0 b1 p2\<close> top, folded t_def]
  then obtain b where b: "bmap p2 = Some b" "bm_work\<^sup>*\<^sup>* b1 b" "openSnapshots b = openSnapshots b1" by blast
  obtain p3 where p3: "RestoreSavepoint (Some s) p2 = (Inr (), p3)" "restored t p2 p3"
    using RestoreSavepoint_top [OF inv2 top t_def] by blast
  have core: "sp_core t = sp_core s" "shallow t = shallow s" using tt strip_fields [of t s] by simp_all
  have c: "sc_highWaterMark (sp_core s) = highWaterMark p0" "sc_rplSegments (sp_core s) = rplSegments p0"
    using o by (auto simp: opened_def)
  have ob: "openSnapshots b1 = openSnapshots b0 @ [u]" using b0(3) by (auto simp: takeSnapshot_def Let_def)
  have "Restore b u = Inr (b0\<lparr>openSnapshots := filter (\<lambda>t. t \<in> set (openSnapshots b)) (openSnapshots b0), nextSnap := nextSnap b\<rparr>)"
    by (rule Restore_exact [OF b0(2,3) b(2)]) (simp add: b(3) ob)
  moreover have "filter (\<lambda>t. t \<in> set (openSnapshots b)) (openSnapshots b0) = openSnapshots b0"
    by (rule filter_True) (simp add: b(3) ob)
  ultimately have "Restore b u = Inr (b0\<lparr>nextSnap := nextSnap b\<rparr>)" by simp
  then have "bmap p3 = Some (b0\<lparr>nextSnap := nextSnap b\<rparr>)"
    using p3(2) b(1) b0(4) core(1) by (auto simp: restored_def)
  moreover have ap: "activeSavepoints p3 = activeSavepoints p0"
    using p3(2) tt by (metis butlast_snoc restored_def)
  moreover have inv3: "sp_inv p3" using restored_inv [OF inv2 _ p3(2)] tt by blast
  moreover have "savepointDepth p3 = savepointDepth p0"
    using depth_of_stack [OF inv3] depth_of_stack [OF inv] ap by simp
  ultimately have "rolled_back p0 p3"
    using p3(2) tt core c b0(1) by (auto simp: rolled_back_def restored_def sets_of_def lists_of_def)
  moreover have "shallow s \<longrightarrow> slab p3 = slab p0" using p3(2) tt by (simp add: restored_def)
  ultimately show ?thesis using p3(1) inv3 by blast
qed

end
