(* ===== verification/Pager_Demo.thy ===== *)
theory Pager_Demo
  imports Savepoint_Trace Format_Props
begin

text \<open>
  A concrete pager on which the theorems about pagers are applied: a file of one hundred 4096-byte
  pages, all data pages free, with page 10 dirty in the slab.
\<close>

definition demo_env :: Env where
  "demo_env = \<lparr>xxh3 = (\<lambda>_. 0), rangeOrder = (\<lambda>S. if finite S then sorted_list_of_set S else [])\<rparr>"

definition demo_fops :: FileOps where
  "demo_fops = \<lparr>fo_bytes = replicate (100 * 4096) 0, fo_synced = replicate (100 * 4096) 0, fo_unsynced = [],
     fo_outcome = (\<lambda>_. IoOK), fo_calls = 0\<rparr>"

definition demo_pager :: Pager where
  "demo_pager = \<lparr>cfg = demo_cfg, fops = demo_fops, mmapLen = 100 * 4096, fileSize = 100 * 4096, readOnly = False,
     slab = [10 \<mapsto> 0], bufs = (\<lambda>_. replicate 4096 0), nextBuf = 1, bufPool = [], dirtyBytes = 4096,
     maxBytes = 100 * 4096, inCommit = False, externalReserve = 0, tc = zeroStats, bmap = Some demo, rplSegments = [],
     highWaterMark = 50, maxSizePages = 100, growStepPages = 8, minSizePages = 8, reclamationBound = 0,
     rplCorruptCount = 0, rplRelocFloor = 0, rplRelocDeclined = False, adoptedMeta = demo_meta 1, adoptedSlot = 0,
     anchoredEpoch = 0, pendingAllocs = {10}, pendingFrees = {}, retiredPages = [], loosePages = {}, spillErr = None,
     deferredFrees = [], detachedBufs = [], currentTxnID = 1, savepointDepth = 0, activeSavepoints = [],
     savepointUndoLog = [], nextSavepoint = 0, verified = [], txSnapshot = None, laggingReader = None,
     refreshBound = None, shrinkGate = None, callbackCalls = 0, contigAttempts = 0, contigFragFails = 0\<rparr>"

definition demo_loose :: Pager where
  "demo_loose = demo_pager\<lparr>pendingAllocs := {}, loosePages := {10}\<rparr>"

lemma Begin_runs:
  "\<not> readOnly p \<Longrightarrow> \<exists>s p1. BeginSavepoint p = (Inr (Some s), p1)"
  "\<not> readOnly p \<Longrightarrow> activeSavepoints p = [] \<Longrightarrow> \<exists>s p1. BeginShallowSavepoint p = (Inr (Some s), p1)"
  by (simp_all add: BeginSavepoint_def BeginShallowSavepoint_def split: prod.splits)

lemma demo_env_ok: "env_ok demo_env"
  by (simp add: env_ok_def demo_env_def)

lemma demo_pager_inv: "sp_inv demo_pager" "sp_inv demo_loose"
proof -
  have "bitmap_ok demo_pager" "bitmap_ok demo_loose"
    using demo_facts(3,7) by (simp_all add: bitmap_ok_def snaps_at_def demo_pager_def demo_loose_def)
  then show "sp_inv demo_pager" "sp_inv demo_loose"
    by (simp_all add: sp_inv_def demo_pager_def demo_loose_def marks_ok_def stack_ok_def log_ok_def below_ok_def)
qed

end
