(* ===== verification/Savepoint_Props.thy ===== *)
theory Savepoint_Props
  imports Pager_Demo
begin

text \<open>The properties of savepoints, with their instances on the concrete pager.\<close>





end
