(* ===== verification/Pager_Guard.thy ===== *)
theory Pager_Guard
  imports Pager_Rel
begin

text \<open>
  Sequences of pager calls under an invariant: a reflexive and transitive relation together with
  an invariant that every related state keeps. A call then only has to be checked from states
  that satisfy the invariant, and may promise something about its result.
\<close>

definition iop :: "(Pager \<Rightarrow> Pager \<Rightarrow> bool) \<Rightarrow> (Pager \<Rightarrow> bool) \<Rightarrow> 'a pm \<Rightarrow> ('a \<Rightarrow> bool) \<Rightarrow> bool" where
  "iop R I m Q \<longleftrightarrow> tri R I m (\<lambda>x _. Q x)"

lemma iopI:
  "(\<And>p r p'. I p \<Longrightarrow> m p = (r, p') \<Longrightarrow> R p p' \<and> (\<forall>x. r = Inr x \<longrightarrow> Q x)) \<Longrightarrow> iop R I m Q"
  unfolding iop_def by (rule triI)

lemma iopD: "iop R I m Q \<Longrightarrow> I p \<Longrightarrow> m p = (r, p') \<Longrightarrow> R p p'"
  unfolding iop_def by (rule triD)

lemma iopD_result: "iop R I m Q \<Longrightarrow> I p \<Longrightarrow> m p = (Inr x, p') \<Longrightarrow> Q x"
  unfolding iop_def by (rule triD_post)

lemma iop_weaken: "iop R I m Q \<Longrightarrow> (\<And>x. Q x \<Longrightarrow> Q' x) \<Longrightarrow> iop R I m Q'"
  unfolding iop_def tri_def by blast

lemma iop_any: "iop R I m Q \<Longrightarrow> iop R I m (\<lambda>_. True)"
  by (erule iop_weaken) simp

lemma iop_fun: "(\<And>p. I p \<Longrightarrow> iop R I (m p) Q) \<Longrightarrow> iop R I (\<lambda>p. m p p) Q"
  unfolding iop_def tri_def by blast

lemma iop_if: "(b \<Longrightarrow> iop R I m Q) \<Longrightarrow> (\<not> b \<Longrightarrow> iop R I m' Q) \<Longrightarrow> iop R I (if b then m else m') Q"
  by simp

lemma iop_option:
  "(x = None \<Longrightarrow> iop R I m Q) \<Longrightarrow> (\<And>y. x = Some y \<Longrightarrow> iop R I (f y) Q) \<Longrightarrow>
   iop R I (case x of None \<Rightarrow> m | Some y \<Rightarrow> f y) Q"
  by (cases x) simp_all

lemma iop_upd: "(\<And>p. I p \<Longrightarrow> R p (f p)) \<Longrightarrow> iop R I (upd f) (\<lambda>_. True)"
  unfolding iop_def by (rule tri_upd) simp

lemma iop_here: "(\<And>p r p'. I p \<Longrightarrow> m p = (r, p') \<Longrightarrow> \<exists>m'. iop R I m' Q \<and> m' p = (r, p')) \<Longrightarrow> iop R I m Q"
  unfolding iop_def tri_def by blast

locale guarded_rel = step_rel R for R +
  fixes I :: "Pager \<Rightarrow> bool"
  assumes keep: "I p \<Longrightarrow> R p q \<Longrightarrow> I q"
begin

lemma iop_ret: "Q x \<Longrightarrow> iop R I (ret x) Q"
  unfolding iop_def by (rule tri_ret)

lemma iop_throw: "iop R I (throw e) Q"
  unfolding iop_def by (rule tri_throw)

lemma iop_get: "(\<And>p. I p \<Longrightarrow> Q (f p)) \<Longrightarrow> iop R I (get f) Q"
  unfolding iop_def by (rule tri_get)

lemma iop_get_bitmap: "(\<And>p b. I p \<Longrightarrow> bmap p = Some b \<Longrightarrow> Q (f b)) \<Longrightarrow> iop R I (get_bitmap f) Q"
  unfolding iop_def by (rule tri_get_bitmap)

lemma iop_raw: "iop R I (raw pid) (\<lambda>_. True)"
  unfolding iop_def by (rule tri_raw) simp

lemma iop_lift_page: "iop R I (lift_page r) (\<lambda>_. True)"
  unfolding iop_def by (rule tri_lift_page) simp

lemma iop_bnd: "iop R I m Q \<Longrightarrow> (\<And>x. Q x \<Longrightarrow> iop R I (f x) S) \<Longrightarrow> iop R I (bnd m f) S"
proof -
  assume m: "iop R I m Q" and f: "\<And>x. Q x \<Longrightarrow> iop R I (f x) S"
  have "tri R I m (\<lambda>x p. Q x \<and> I p)"
    using m keep unfolding iop_def tri_def by blast
  moreover have "tri R (\<lambda>p. Q x \<and> I p) (f x) (\<lambda>y _. S y)" for x
    using f unfolding iop_def tri_def by blast
  ultimately show ?thesis unfolding iop_def by (rule tri_bnd)
qed

lemma iop_each: "(\<And>x. x \<in> set xs \<Longrightarrow> iop R I (f x) (\<lambda>_. True)) \<Longrightarrow> iop R I (each_pm f xs) (\<lambda>_. True)"
  by (induction xs) (auto intro: iop_ret iop_bnd)

lemma iop_or_else: "iop R I m (\<lambda>r. \<forall>x. r = Some x \<longrightarrow> S x) \<Longrightarrow> iop R I m' S \<Longrightarrow> iop R I (or_else m m') S"
  unfolding or_else_def by (erule iop_bnd) (auto intro: iop_ret iop_option)

lemma iop_writable: "iop R I m Q \<Longrightarrow> iop R I (writable m) Q"
  unfolding writable_def by (rule iopI) (auto simp: refl iop_def tri_def split: if_splits)

end

end
