(* ===== verification/Commit_Quiet.thy ===== *)
theory Commit_Quiet
  imports Pager_Guard Window_Ops
begin

text \<open>
  Steps 0 and 1 of a commit against the file: they write only pages from page 2 on, so the two
  meta slots keep their bytes, and they never sync, so nothing they wrote is durable yet. The
  invariant says that no page the pager may write is a meta page. They change the bitmap by calls
  that its snapshots can undo, and leave the transaction's snapshot alone.
\<close>

definition above :: "nat \<Rightarrow> file_op \<Rightarrow> bool" where
  "above n op = (case op of WriteOp off d \<Rightarrow> n \<le> off | TruncOp k \<Rightarrow> n \<le> k)"

definition data_inv :: "Pager \<Rightarrow> bool" where
  "data_inv p \<longleftrightarrow>
     (\<exists>b. bmap p = Some b \<and> bm_inv b) \<and> 2 \<le> highWaterMark p \<and>
     dom (slab p) \<union> loosePages p \<subseteq> {2..} \<and> finite (dom (slab p)) \<and> finite (loosePages p) \<and>
     2 * ps p \<le> fileSize p \<and> 2 * ps p \<le> length (fo_bytes (fops p))"

definition quiet :: "Pager \<Rightarrow> Pager \<Rightarrow> bool" where
  "quiet p p' \<longleftrightarrow> (data_inv p \<longrightarrow>
     data_inv p' \<and> cfg p' = cfg p \<and> bm_moves p p' \<and> txSnapshot p' = txSnapshot p \<and> readOnly p' = readOnly p \<and>
     fo_synced (fops p') = fo_synced (fops p) \<and>
     take (2 * ps p) (fo_bytes (fops p')) = take (2 * ps p) (fo_bytes (fops p)) \<and>
     (\<exists>ops. fo_unsynced (fops p') = fo_unsynced (fops p) @ ops \<and> list_all (above (2 * ps p)) ops))"

lemma ps_cfg: "cfg p' = cfg p \<Longrightarrow> ps p' = ps p"
  by (simp add: ps_def)

interpretation qrel: guarded_rel quiet data_inv
proof
  show "quiet p p" for p
    by (auto simp: quiet_def bm_moves_def intro: exI [of _ "[]"])
  show "quiet p r" if pq: "quiet p q" and qr: "quiet q r" for p q r
    unfolding quiet_def
  proof (intro impI)
    assume p: "data_inv p"
    have b: "bm_moves p r \<and> txSnapshot r = txSnapshot p \<and> readOnly r = readOnly p"
      using pq qr p bm_moves_trans by (auto simp: quiet_def)
    obtain ops where a: "data_inv q" "cfg q = cfg p" "fo_synced (fops q) = fo_synced (fops p)"
      "take (2 * ps p) (fo_bytes (fops q)) = take (2 * ps p) (fo_bytes (fops p))"
      "fo_unsynced (fops q) = fo_unsynced (fops p) @ ops" "list_all (above (2 * ps p)) ops"
      using pq p by (auto simp: quiet_def)
    obtain ops' where "data_inv r" "cfg r = cfg q" "fo_synced (fops r) = fo_synced (fops q)"
      "take (2 * ps p) (fo_bytes (fops r)) = take (2 * ps p) (fo_bytes (fops q))"
      "fo_unsynced (fops r) = fo_unsynced (fops q) @ ops'" "list_all (above (2 * ps p)) ops'"
      using qr a(1) ps_cfg [OF a(2)] by (auto simp: quiet_def)
    then show "data_inv r \<and> cfg r = cfg p \<and> bm_moves p r \<and> txSnapshot r = txSnapshot p \<and> readOnly r = readOnly p \<and>
       fo_synced (fops r) = fo_synced (fops p) \<and>
       take (2 * ps p) (fo_bytes (fops r)) = take (2 * ps p) (fo_bytes (fops p)) \<and>
       (\<exists>ops. fo_unsynced (fops r) = fo_unsynced (fops p) @ ops \<and> list_all (above (2 * ps p)) ops)"
      using a b by (auto intro!: exI [of _ "ops @ ops'"])
  qed
  show "data_inv p \<Longrightarrow> quiet p q \<Longrightarrow> data_inv q" for p q
    by (simp add: quiet_def)
qed

abbreviation qop :: "'a pm \<Rightarrow> ('a \<Rightarrow> bool) \<Rightarrow> bool" where
  "qop \<equiv> iop quiet data_inv"

abbreviation any :: "'a \<Rightarrow> bool" where
  "any \<equiv> \<lambda>_. True"

lemmas qop_rules = qrel.iop_ret qrel.iop_throw qrel.iop_raw qrel.iop_lift_page

section \<open>State changes\<close>

lemma quiet_state:
  assumes "fops p' = fops p" "fileSize p' = fileSize p" "cfg p' = cfg p" "txSnapshot p' = txSnapshot p" "readOnly p' = readOnly p"
    and "bmap p' = bmap p"
    and "data_inv p \<Longrightarrow> 2 \<le> highWaterMark p' \<and>
      dom (slab p') \<union> loosePages p' \<subseteq> {2..} \<and> finite (dom (slab p')) \<and> finite (loosePages p')"
  shows "quiet p p'"
  using assms ps_cfg [OF assms(3)] by (auto simp: quiet_def data_inv_def bm_moves_def intro: exI [of _ "[]"])

lemma quiet_frame:
  assumes "fops p' = fops p" "fileSize p' = fileSize p" "cfg p' = cfg p" "txSnapshot p' = txSnapshot p" "readOnly p' = readOnly p"
    "bmap p' = bmap p" "highWaterMark p \<le> highWaterMark p'" "dom (slab p') \<subseteq> dom (slab p)" "loosePages p' \<subseteq> loosePages p"
  shows "quiet p p'"
proof (rule quiet_state [OF assms(1-6)])
  assume i: "data_inv p"
  then have "finite (dom (slab p'))" "finite (loosePages p')" using assms(8,9) finite_subset by (auto simp: data_inv_def)
  moreover have "2 \<le> highWaterMark p'" using i assms(7) by (simp add: data_inv_def)
  moreover have "dom (slab p') \<union> loosePages p' \<subseteq> {2..}" using i assms(8,9) unfolding data_inv_def by blast
  ultimately show "2 \<le> highWaterMark p' \<and>
      dom (slab p') \<union> loosePages p' \<subseteq> {2..} \<and> finite (dom (slab p')) \<and> finite (loosePages p')"
    by simp
qed

lemma rec_fields [simp]:
  "fops (recordSavepointUndo f k w p) = fops p" "fileSize (recordSavepointUndo f k w p) = fileSize p"
  "cfg (recordSavepointUndo f k w p) = cfg p" "bmap (recordSavepointUndo f k w p) = bmap p"
  "highWaterMark (recordSavepointUndo f k w p) = highWaterMark p" "slab (recordSavepointUndo f k w p) = slab p"
  "loosePages (recordSavepointUndo f k w p) = loosePages p" "txSnapshot (recordSavepointUndo f k w p) = txSnapshot p"
  "readOnly (recordSavepointUndo f k w p) = readOnly p" "pendingAllocs (recordSavepointUndo f k w p) = pendingAllocs p"
  by (simp_all add: recordSavepointUndo_def)

lemma quiet_book [simp]:
  "quiet p (addAlloc pid p)" "quiet p (delAlloc pid p)" "quiet p (delFree pid p)" "quiet p (delLoose pid p)"
  by (rule quiet_frame; auto simp: addAlloc_def delAlloc_def delFree_def delLoose_def Let_def)+

lemma quiet_poolPut [simp]: "quiet p (poolPut b p)"
  by (rule quiet_frame) (simp_all add: poolPut_def)

section \<open>The bitmap and the file\<close>

lemma qop_with_bitmap [simp]: "gentle f \<Longrightarrow> qop (with_bitmap f) any"
proof (rule iopI)
  fix p r p'
  assume f: "gentle f" and i: "data_inv p" and e: "with_bitmap f p = (r, p')"
  obtain b where b: "bmap p = Some b" "bm_inv b" using i by (auto simp: data_inv_def)
  have "quiet p p'"
  proof (cases "f b")
    case (Inl x)
    then show ?thesis using e b by (auto simp: with_bitmap_def qrel.refl)
  next
    case (Inr b')
    then have w: "bm_work\<^sup>*\<^sup>* b b'" "openSnapshots b' = openSnapshots b" "p' = p\<lparr>bmap := Some b'\<rparr>"
      using f b e by (auto simp: gentle_def with_bitmap_def)
    then have "bm_inv b'" using steps_inv b(2) by blast
    then show ?thesis using w b(1) by (auto simp: quiet_def data_inv_def bm_moves_def ps_def)
  qed
  then show "quiet p p' \<and> (\<forall>x. r = Inr x \<longrightarrow> True)" by simp
qed

text \<open>What a call leaves of the first pages of the file.\<close>

lemma take_file_write: "n \<le> off \<Longrightarrow> n \<le> length f \<Longrightarrow> take n (file_write f off d) = take n f"
  by (simp add: file_write_def overwrite_def)

lemma length_file_write: "length f \<le> length (file_write f off d)"
  by (simp add: file_write_def overwrite_def)

lemma quiet_put:
  assumes "p' = p\<lparr>fops := put_bytes off d (called (fops p))\<rparr>" "2 * ps p \<le> off"
  shows "quiet p p'"
proof -
  have "data_inv p \<Longrightarrow> 2 * ps p \<le> length (file_write (fo_bytes (fops p)) off d)"
    using length_file_write [of "fo_bytes (fops p)" off d] by (simp add: data_inv_def)
  then show ?thesis
    using assms take_file_write [of "2 * ps p" off "fo_bytes (fops p)" d]
    by (auto simp: quiet_def bm_moves_def put_bytes_def called_def data_inv_def above_def ps_def)
qed

lemma quiet_called: "quiet p (p\<lparr>fops := called (fops p)\<rparr>)"
  by (auto simp: quiet_def bm_moves_def called_def data_inv_def ps_def)

lemma qop_write_at: "(\<And>p. data_inv p \<Longrightarrow> 2 * ps p \<le> off p) \<Longrightarrow> qop (\<lambda>p. write_at (d p) (off p) p) any"
  by (rule iopI) (auto simp: write_at_def WriteAt_def split: io_outcome.splits intro!: quiet_put)

lemma quiet_truncate:
  assumes "p' = p\<lparr>fops := (called (fops p))\<lparr>fo_bytes := file_truncate (fo_bytes (fops p)) n,
      fo_unsynced := fo_unsynced (fops p) @ [TruncOp n]\<rparr>, fileSize := n\<rparr>" "2 * ps p \<le> n"
  shows "quiet p p'"
  using assms by (auto simp: quiet_def bm_moves_def file_truncate_def called_def data_inv_def above_def ps_def min_def)

lemma cover_target_le: "pages \<le> coverTarget p pages"
  by (simp add: coverTarget_def Let_def)

lemma qop_ensureFileCovers [simp]: "qop (ensureFileCovers pages) any"
proof (rule iopI)
  fix p r p'
  assume i: "data_inv p" and e: "ensureFileCovers pages p = (r, p')"
  let ?t = "coverTarget p pages * ps p"
  have "pages * ps p \<le> ?t" using cover_target_le by (rule mult_le_mono1)
  moreover have "2 * ps p \<le> fileSize p" using i by (simp add: data_inv_def)
  ultimately have "\<not> pages * ps p \<le> fileSize p \<Longrightarrow> 2 * ps p \<le> ?t" by linarith
  then have "\<not> pages * ps p \<le> fileSize p \<Longrightarrow> quiet p (p\<lparr>fops := (called (fops p))\<lparr>fo_bytes := file_truncate (fo_bytes (fops p)) ?t,
      fo_unsynced := fo_unsynced (fops p) @ [TruncOp ?t]\<rparr>, fileSize := ?t\<rparr>)"
    by (rule quiet_truncate [OF refl])
  then show "quiet p p' \<and> (\<forall>x. r = Inr x \<longrightarrow> True)"
    using e quiet_called [of p] qrel.refl [of p]
    by (auto simp: ensureFileCovers_def Truncate_def Let_def split: if_splits io_outcome.splits)
qed

section \<open>The allocator\<close>

lemma data_free:
  assumes "data_inv p" "bmap p = Some b" "pid \<in> free_pages b"
  shows "2 \<le> pid"
proof -
  have wf: "bm_wf b" using assms(1,2) by (auto simp: data_inv_def bm_inv_def)
  then have "firstDataPage b \<le> pid" using free_pages_range(1) assms(3) by blast
  moreover have "firstDataPage b = 2 + bitmapPages b" using wf by (simp add: bm_wf_def geometry_ok_def)
  ultimately show ?thesis by simp
qed

lemma qop_book [simp]: "qop (upd (\<lambda>p. delFree pid (addAlloc pid p))) any"
  by (rule iop_upd) (blast intro: qrel.trans quiet_book)

lemma qop_raise_hwm: "(\<And>p. highWaterMark p \<le> f p) \<Longrightarrow> qop (upd (\<lambda>p. p\<lparr>highWaterMark := f p\<rparr>)) any"
  by (rule iop_upd) (rule quiet_frame; simp)

lemma qop_claimBitmapPage [simp]: "qop (claimBitmapPage pid) any"
  unfolding claimBitmapPage_def
  by (intro qrel.iop_bnd [OF qop_ensureFileCovers] qrel.iop_bnd [OF qop_with_bitmap] qrel.iop_bnd [OF iop_upd])
    (auto intro!: quiet_frame)

lemma qop_find_claim [simp]: "qop find_claim (\<lambda>r. \<forall>pid. r = Some pid \<longrightarrow> 2 \<le> pid)"
  unfolding find_claim_def
proof (rule qrel.iop_bnd)
  show "qop (get_bitmap FindFirst) (\<lambda>r. \<forall>pid. r = Some pid \<longrightarrow> 2 \<le> pid)"
  proof (rule qrel.iop_get_bitmap, intro allI impI)
    fix p b pid
    assume a: "data_inv p" "bmap p = Some b" "FindFirst b = Some pid"
    then have "pid \<in> free_pages b" using next_from_SomeD by (auto simp: data_inv_def bm_inv_def FindFirst_next)
    then show "2 \<le> pid" using data_free a by blast
  qed
  show "qop (case r of None \<Rightarrow> ret None | Some pid \<Rightarrow> bnd (claimBitmapPage pid) (\<lambda>_. ret (Some pid)))
      (\<lambda>r. \<forall>pid. r = Some pid \<longrightarrow> 2 \<le> pid)" if "\<forall>pid. r = Some pid \<longrightarrow> 2 \<le> pid" for r
    using that by (intro iop_option qrel.iop_ret qrel.iop_bnd [OF qop_claimBitmapPage]) auto
qed

lemma qop_read_segment [simp]: "qop (read_segment env pid) any"
  unfolding read_segment_def by (intro qrel.iop_bnd [where Q = any] qrel.iop_get qop_rules) simp_all

lemma qop_usable_segment [simp]: "qop (usable_segment env seg) any"
  unfolding usable_segment_def
  by (intro qrel.iop_bnd [where Q = any] qrel.iop_get_bitmap iop_if qop_rules qop_read_segment) simp_all

lemma quiet_trim [simp]: "quiet p (trimRPLChainTail k p)"
  by (rule quiet_frame) (simp_all add: trimRPLChainTail_def)

lemma quiet_corrupt [simp]: "quiet p (trimRPLChainTail k (p\<lparr>rplCorruptCount := c\<rparr>))"
  by (rule quiet_frame) (simp_all add: trimRPLChainTail_def)

lemma qop_reclaim_loop [simp]: "qop (reclaim_loop env segs count lst) any"
proof (induction segs arbitrary: count lst)
  case (Cons seg segs)
  then show ?case
    by (auto intro!: qrel.iop_bnd [where Q = any] qrel.iop_get qop_rules iop_upd qrel.iop_each split: option.splits)
qed (simp add: qop_rules)

lemma qop_reclaimRPL [simp]: "qop (reclaimRPL env) any"
  unfolding reclaimRPL_def
  by (rule iop_fun) (auto intro!: qrel.iop_bnd [where Q = any] qop_rules iop_upd iop_if quiet_frame)

lemma qop_reclaim_then:
  "qop m (\<lambda>r. \<forall>pid. r = Some pid \<longrightarrow> 2 \<le> pid) \<Longrightarrow> qop (reclaim_then env m) (\<lambda>r. \<forall>pid. r = Some pid \<longrightarrow> 2 \<le> pid)"
  unfolding reclaim_then_def
  by (intro qrel.iop_bnd [OF qop_reclaimRPL] iop_if qrel.iop_ret) simp_all

lemma quiet_calls [simp]: "quiet p (p\<lparr>callbackCalls := c\<rparr>)" "quiet p (p\<lparr>reclamationBound := b, callbackCalls := c\<rparr>)"
  by (rule quiet_frame; simp)+

lemma qop_lagging_tier:
  assumes "qop m (\<lambda>r. \<forall>pid. r = Some pid \<longrightarrow> 2 \<le> pid)"
  shows "qop (lagging_tier env m) (\<lambda>r. \<forall>pid. r = Some pid \<longrightarrow> 2 \<le> pid)"
proof (rule iopI)
  fix p r p'
  assume i: "data_inv p" and e: "lagging_tier env m p = (r, p')"
  let ?Q = "\<lambda>r. \<forall>pid. r = Some pid \<longrightarrow> 2 \<le> (pid :: nat)"
  let ?p1 = "p\<lparr>callbackCalls := callbackCalls p + 1\<rparr>"
  have i1: "data_inv ?p1" using qrel.keep [OF i quiet_calls(1)] by simp
  have q: "qop (bnd (refresh f) (\<lambda>_. reclaim_then env m)) ?Q" for f
    unfolding refresh_def by (intro qrel.iop_bnd [OF iop_upd] qop_reclaim_then assms) simp
  have "bnd (refresh f) (\<lambda>_. reclaim_then env m) ?p1 = (r, p') \<Longrightarrow> quiet p p' \<and> (\<forall>x. r = Inr x \<longrightarrow> ?Q x)" for f
    using iopD [OF q i1] iopD_result [OF q i1] qrel.trans [OF quiet_calls(1)] by blast
  then show "quiet p p' \<and> (\<forall>x. r = Inr x \<longrightarrow> ?Q x)"
    using e qrel.refl [of p] quiet_calls(1)
    by (auto simp: lagging_tier_def Let_def split: option.splits if_splits LaggingReaderAction.splits)
qed

lemma qop_extend_one [simp]: "qop extend_one (\<lambda>pid. 2 \<le> pid)"
proof (rule iopI)
  fix p r p'
  assume i: "data_inv p" and e: "extend_one p = (r, p')"
  let ?p2 = "recordSavepointUndo fieldPendingAllocs (highWaterMark p) False
    (p\<lparr>highWaterMark := highWaterMark p + 1, pendingAllocs := insert (highWaterMark p) (pendingAllocs p)\<rparr>)"
  have q2: "quiet p ?p2" by (rule quiet_frame) simp_all
  have q3: "quiet p q" if "ensureFileCovers n ?p2 = (x, q)" for n x q
    using iopD [OF qop_ensureFileCovers qrel.keep [OF i q2] that] q2 qrel.trans by blast
  have hw: "highWaterMark q = highWaterMark p + 1" if "ensureFileCovers n ?p2 = (x, q)" for n x q
    using that by (auto simp: ensureFileCovers_def Let_def split: if_splits prod.splits)
  have undo_ok: "quiet p (trim_undo pid (q\<lparr>highWaterMark := highWaterMark q - 1, pendingAllocs := A\<rparr>))"
    if "quiet p q" "highWaterMark q = highWaterMark p + 1" for pid A q
  proof (rule qrel.trans [OF that(1)], rule quiet_state)
    show "data_inv q \<Longrightarrow>
        2 \<le> highWaterMark (trim_undo pid (q\<lparr>highWaterMark := highWaterMark q - 1, pendingAllocs := A\<rparr>)) \<and>
        dom (slab (trim_undo pid (q\<lparr>highWaterMark := highWaterMark q - 1, pendingAllocs := A\<rparr>))) \<union>
        loosePages (trim_undo pid (q\<lparr>highWaterMark := highWaterMark q - 1, pendingAllocs := A\<rparr>)) \<subseteq> {2..} \<and>
        finite (dom (slab (trim_undo pid (q\<lparr>highWaterMark := highWaterMark q - 1, pendingAllocs := A\<rparr>)))) \<and>
        finite (loosePages (trim_undo pid (q\<lparr>highWaterMark := highWaterMark q - 1, pendingAllocs := A\<rparr>)))"
      using i that(2) by (auto simp: data_inv_def trim_undo_def Let_def)
  qed (simp_all add: trim_undo_def Let_def)
  have h2: "2 \<le> highWaterMark p" using i by (simp add: data_inv_def)
  show "quiet p p' \<and> (\<forall>x. r = Inr x \<longrightarrow> 2 \<le> x)"
  proof (cases "highWaterMark p \<ge> maxSizePages p")
    case True
    then show ?thesis using e qrel.refl [of p] by (auto simp: extend_one_def)
  next
    case False
    obtain x q where q: "ensureFileCovers (highWaterMark ?p2) ?p2 = (x, q)" by (cases "ensureFileCovers (highWaterMark ?p2) ?p2")
    note qq = q3 [OF q] and hq = hw [OF q]
    show ?thesis
    proof (cases x)
      case (Inl err)
      then have "p' = trim_undo (highWaterMark p) (q\<lparr>highWaterMark := highWaterMark q - 1,
          pendingAllocs := pendingAllocs q - {highWaterMark p}\<rparr>)" "r = Inl err"
        using e False q by (simp_all add: extend_one_def Let_def)
      then show ?thesis using undo_ok [OF qq hq] by simp
    next
      case (Inr u)
      then have "p' = q" "r = Inr (highWaterMark p)" using e False q by (simp_all add: extend_one_def Let_def)
      then show ?thesis using qq h2 by simp
    qed
  qed
qed

lemma dom_detach: "dom (slab (detach pid p)) \<subseteq> dom (slab p)"
  by (auto simp: detach_def split: option.splits)

lemma quiet_popLoose: "quiet p (popLoose pid p)"
proof -
  have "quiet q (detach pid q)" for q
    by (rule quiet_frame; (rule dom_detach)?; simp add: detach_def split: option.splits)
  then show ?thesis unfolding popLoose_def using quiet_book qrel.trans by metis
qed

lemma qop_AllocPage [simp]:
  assumes "env_ok env"
  shows "qop (AllocPage env) (\<lambda>pid. 2 \<le> pid)"
  unfolding AllocPage_def
proof (rule qrel.iop_writable, rule iopI)
  fix p r p'
  assume i: "data_inv p" and e: "(case if 0 < savepointDepth p then [] else rangeOrder env (loosePages p) of
      [] \<Rightarrow> or_else find_claim (or_else (reclaim_then env find_claim) (or_else (lagging_tier env find_claim) extend_one)) p
    | pid # _ \<Rightarrow> (Inr pid, popLoose pid p)) = (r, p')"
  have "set (rangeOrder env (loosePages p)) \<subseteq> {2..}"
    using assms i by (auto simp: env_ok_def data_inv_def)
  moreover have t: "qop (or_else find_claim (or_else (reclaim_then env find_claim) (or_else (lagging_tier env find_claim) extend_one))) (\<lambda>pid. 2 \<le> pid)"
    by (intro qrel.iop_or_else qop_find_claim qop_reclaim_then qop_lagging_tier qop_extend_one)
  ultimately show "quiet p p' \<and> (\<forall>x. r = Inr x \<longrightarrow> 2 \<le> x)"
    using e quiet_popLoose iopD [OF t i] iopD_result [OF t i] by (auto split: list.splits if_splits)
qed

section \<open>The slab and the chain\<close>

lemma quiet_poolGet: "poolGet p = (b, p1) \<Longrightarrow> quiet p p1"
  by (rule quiet_frame) (auto simp: poolGet_def split: list.splits)

lemma quiet_install: "2 \<le> pid \<Longrightarrow> quiet p (install pid b p)"
  by (rule quiet_state) (auto simp: install_def data_inv_def)

lemma qop_AllocSlab: "2 \<le> pid \<Longrightarrow> qop (AllocSlab pid) any"
proof (rule iopI)
  fix p r p'
  assume 2: "2 \<le> pid" and e: "AllocSlab pid p = (r, p')"
  have "quiet p (recordSavepointUndo fieldDirty pid False (bumpSlabPeak (install pid b p1)))" if "poolGet p = (b, p1)" for b p1
  proof -
    have "quiet (install pid b p1) (recordSavepointUndo fieldDirty pid False (bumpSlabPeak (install pid b p1)))"
      by (rule quiet_frame) (simp_all add: bumpSlabPeak_def)
    then show ?thesis using quiet_poolGet [OF that] quiet_install [OF 2] qrel.trans by blast
  qed
  moreover have "q = p" if "admitInstall p = (x, q)" for x q
    using that by (auto simp: admitInstall_def split: if_splits sum.splits)
  ultimately show "quiet p p' \<and> (\<forall>x. r = Inr x \<longrightarrow> True)"
    using e qrel.refl [of p] by (auto simp: AllocSlab_def bnd_def split: if_splits option.splits prod.splits sum.splits)
qed

lemma quiet_store [simp]: "quiet p (store_buf b d p)"
  by (rule quiet_frame) (simp_all add: store_buf_def)

lemma qop_encode_into [simp]: "qop (encode_into b txn old ids) any"
  unfolding encode_into_def
  by (rule iop_fun) (intro qrel.iop_bnd [where Q = any] qop_rules iop_upd, simp)

lemma qop_alloc_many:
  assumes "env_ok env"
  shows "qop (alloc_many env k) (\<lambda>ids. \<forall>pid \<in> set ids. 2 \<le> pid)"
  by (induction k) (auto intro!: qrel.iop_ret qrel.iop_bnd [OF qop_AllocPage [OF assms]] elim!: qrel.iop_bnd)

lemma qop_build_segments: "\<forall>pid \<in> set segs. 2 \<le> pid \<Longrightarrow> qop (build_segments cap ids segs old) any"
  by (induction cap ids segs old rule: build_segments.induct)
    (auto intro!: qrel.iop_ret qrel.iop_throw qrel.iop_get qrel.iop_bnd [where Q = any] qop_AllocSlab)

lemma qop_appendRPL [simp]:
  assumes "env_ok env"
  shows "qop (appendRPL env) any"
proof -
  have s: "qop (bnd (alloc_many env k) (\<lambda>segPageIDs. bnd (get headPageID) (\<lambda>prevHead.
      bnd (build_segments c ids segPageIDs prevHead) (\<lambda>newSegs.
      upd (\<lambda>p. p\<lparr>rplSegments := rplSegments p @ newSegs, retiredPages := []\<rparr>))))) any" for k c ids
    by (rule qrel.iop_bnd [OF qop_alloc_many [OF assms]])
      (intro qrel.iop_bnd [where Q = any] qrel.iop_get qop_build_segments iop_upd; simp add: quiet_frame)
  have t: "qop (\<lambda>p. if c \<le> 0 then (Inl ErrSegmentCapacity, p) else if currentTxnID p = 0 then (Inl ErrTxnIDUnseeded, p)
       else let ids = sort (retiredPages p); numSegs = (length ids + c - 1) div c in
         bnd (alloc_many env numSegs) (\<lambda>segPageIDs. bnd (get headPageID) (\<lambda>prevHead.
            bnd (build_segments c ids segPageIDs prevHead) (\<lambda>newSegs.
            upd (\<lambda>p. p\<lparr>rplSegments := rplSegments p @ newSegs, retiredPages := []\<rparr>)))) p) any" for c
    by (rule iopI) (auto simp: Let_def qrel.refl split: if_splits intro: iopD [OF s])
  have "qop (\<lambda>p. lift_page (RPLEntriesPerSegment (cfg p)) p) any"
    by (rule iop_fun) (rule qrel.iop_lift_page)
  then show ?thesis unfolding appendRPL_def by (rule qrel.iop_bnd) (rule t)
qed

section \<open>Step 0\<close>

text \<open>The tail refund stops at the first data page.\<close>

lemma quiet_lower:
  assumes "fops p' = fops p" "fileSize p' = fileSize p" "cfg p' = cfg p" "txSnapshot p' = txSnapshot p" "readOnly p' = readOnly p"
    "bmap p' = bmap p" "slab p' = slab p" "loosePages p' \<subseteq> loosePages p" "2 \<le> highWaterMark p'"
  shows "quiet p p'"
proof (rule quiet_state [OF assms(1-6)])
  assume i: "data_inv p"
  then have "finite (loosePages p')" "loosePages p' \<subseteq> {2..}" using assms(8) finite_subset by (auto simp: data_inv_def)
  then show "2 \<le> highWaterMark p' \<and>
      dom (slab p') \<union> loosePages p' \<subseteq> {2..} \<and> finite (dom (slab p')) \<and> finite (loosePages p')"
    using i assms(7,9) by (simp add: data_inv_def)
qed

lemma tail_loop_quiet:
  "data_inv p \<Longrightarrow> 2 + k \<le> highWaterMark p \<Longrightarrow> tail_loop k p = (r, p') \<Longrightarrow> quiet p p'"
proof (induction k arbitrary: p)
  case 0
  then show ?case by (simp add: ret_def qrel.refl)
next
  case (Suc k)
  obtain b where b: "bmap p = Some b" using Suc.prems(1) by (auto simp: data_inv_def)
  let ?t = "highWaterMark p - 1"
  have go: "quiet p p'" if q: "quiet p q" "highWaterMark q = highWaterMark p" and q': "quiet q q'" "highWaterMark q' = highWaterMark q - 1"
    "tail_loop k q' = (r, p')" for q q'
  proof -
    have "quiet p q'" using q q' qrel.trans by blast
    moreover have "data_inv q'" using qrel.keep [OF Suc.prems(1) calculation] .
    ultimately show ?thesis using Suc.IH [of q'] q q' Suc.prems(2) qrel.trans by simp
  qed
  have d: "quiet q ((delFree t q)\<lparr>highWaterMark := highWaterMark q - 1\<rparr>)" "quiet q ((delLoose t q)\<lparr>highWaterMark := highWaterMark q - 1\<rparr>)"
    if "highWaterMark q = highWaterMark p" for q t
    using that Suc.prems(2) by (auto intro!: quiet_lower simp: delFree_def delLoose_def recordSavepointUndo_def Let_def)
  consider "IsSet b ?t" | "\<not> IsSet b ?t" "?t \<in> loosePages p" | "\<not> IsSet b ?t" "?t \<notin> loosePages p" by blast
  then show ?case
  proof cases
    case 1
    obtain x q where q: "with_bitmap (\<lambda>b. Clear b ?t) p = (x, q)" by (cases "with_bitmap (\<lambda>b. Clear b ?t) p")
    have pq: "quiet p q" using iopD [OF qop_with_bitmap [OF gentle_ops(2)] Suc.prems(1) q] .
    have hq: "highWaterMark q = highWaterMark p" using q b by (auto simp: with_bitmap_def split: sum.splits)
    show ?thesis
    proof (cases x)
      case (Inl e)
      then show ?thesis using Suc.prems(3) b 1 q pq by (simp add: bnd_def Let_def)
    next
      case (Inr u)
      then have "tail_loop k ((delFree ?t q)\<lparr>highWaterMark := highWaterMark q - 1\<rparr>) = (r, p')"
        using Suc.prems(3) b 1 q by (simp add: bnd_def upd_def Let_def)
      then show ?thesis using go [OF pq hq d(1) [OF hq]] by simp
    qed
  next
    case 2
    then have "tail_loop k ((delLoose ?t p)\<lparr>highWaterMark := highWaterMark p - 1\<rparr>) = (r, p')"
      using Suc.prems(3) b by (simp add: bnd_def upd_def Let_def)
    then show ?thesis using go [OF qrel.refl refl d(2) [OF refl]] by simp
  next
    case 3
    then show ?thesis using Suc.prems(3) b by (simp add: Let_def qrel.refl)
  qed
qed

lemma qop_TailRefund [simp]: "qop TailRefund any"
  unfolding TailRefund_def
proof (rule qrel.iop_writable, rule iopI)
  fix p r p'
  assume i: "data_inv p" and e: "bnd (get_bitmap firstDataPage) (\<lambda>first. tail_loop (highWaterMark p - first)) p = (r, p')"
  obtain b where b: "bmap p = Some b" "bm_wf b" using i by (auto simp: data_inv_def bm_inv_def)
  have "2 \<le> firstDataPage b" using b(2) by (simp add: bm_wf_def geometry_ok_def)
  moreover have "2 \<le> highWaterMark p" using i by (simp add: data_inv_def)
  ultimately have "2 + (highWaterMark p - firstDataPage b) \<le> highWaterMark p" by arith
  moreover have "tail_loop (highWaterMark p - firstDataPage b) p = (r, p')"
    using e b(1) by (simp add: bnd_def get_bitmap_def)
  ultimately show "quiet p p' \<and> (\<forall>x. r = Inr x \<longrightarrow> True)" using tail_loop_quiet [OF i] by simp
qed

lemma qop_free_loose [simp]: "qop (free_loose pid) any"
  unfolding free_loose_def
  by (rule qrel.iop_bnd [OF qop_with_bitmap]; (rule iop_upd, rule quiet_frame)?; auto)

lemma quiet_DiscardSlab [simp]: "quiet p (DiscardSlab pid p)"
proof -
  have "quiet p (p\<lparr>slab := (slab p)(pid := None), dirtyBytes := d\<rparr>)" for d
    by (rule quiet_frame) auto
  then have "quiet p (poolPut b (p\<lparr>slab := (slab p)(pid := None), dirtyBytes := d\<rparr>))" for b d
    using quiet_poolPut qrel.trans by blast
  then show ?thesis unfolding DiscardSlab_def by (simp add: qrel.refl split: option.splits)
qed

lemma quiet_sweep: "quiet p (fold sweep_one ids p)"
proof (induction ids arbitrary: p)
  case (Cons i ids)
  have "quiet p (sweep_one i p)" by (simp add: sweep_one_def qrel.refl)
  then show ?case using Cons.IH [of "sweep_one i p"] qrel.trans by simp
qed (simp add: qrel.refl)

lemma probe_homes_ids:
  "bm_wf b \<Longrightarrow> probe_homes b floor k from = Some hs \<Longrightarrow> set hs \<subseteq> free_pages b"
proof (induction b floor k "from" arbitrary: hs rule: probe_homes.induct)
  case (2 b floor k "from")
  then obtain pid rest where "FindFirstBelowFrom b from floor = Some pid" "probe_homes b floor k (pid + 1) = Some rest" "hs = pid # rest"
    by (auto split: option.splits)
  then show ?case using 2 first_in_SomeD by (fastforce simp: FindFirstBelowFrom_first)
qed simp

lemma qop_copy_segment: "2 \<le> newID \<Longrightarrow> qop (copy_segment idx newID prev seg) any"
  unfolding copy_segment_def
  by (intro qrel.iop_bnd [where Q = any] qrel.iop_get qop_with_bitmap qop_AllocSlab iop_upd; simp add: quiet_frame)
    (blast intro: qrel.trans quiet_book)

lemma qop_copy_segments: "\<forall>pid \<in> set hs. 2 \<le> pid \<Longrightarrow> qop (copy_segments idx hs prev segs) any"
  by (induction idx hs prev segs rule: copy_segments.induct)
    (auto intro!: qrel.iop_ret qrel.iop_bnd [where Q = any] qop_copy_segment)

lemma qop_probe_segments [simp]: "qop (probe_segments env refs) any"
  by (induction refs) (auto intro!: qrel.iop_ret qrel.iop_bnd [where Q = any] split: option.splits)

lemma qop_decline [simp]: "qop decline any"
  unfolding decline_def by (rule iop_upd) (simp add: quiet_frame)

lemma qop_relocateRPLPrefix [simp]: "qop (relocateRPLPrefix env) any"
proof -
  have homes: "qop (get_bitmap (\<lambda>b. (probe_homes b floor k 0, numFree b))) (\<lambda>(homes, n). \<forall>hs. homes = Some hs \<longrightarrow> (\<forall>pid \<in> set hs. 2 \<le> pid))" for floor k
  proof (rule qrel.iop_get_bitmap, clarsimp)
    fix p b hs pid
    assume a: "data_inv p" "bmap p = Some b" "probe_homes b floor k 0 = Some hs" "pid \<in> set hs"
    moreover have "bm_wf b" using a(1,2) by (auto simp: data_inv_def bm_inv_def)
    ultimately have "pid \<in> free_pages b" using probe_homes_ids by blast
    then show "2 \<le> pid" using data_free a by blast
  qed
  have copy: "qop (bnd (probe_segments env pre) (\<lambda>segs. case segs of None \<Rightarrow> decline | Some ss \<Rightarrow> copy_segments j hs None ss)) any"
    if "\<forall>pid \<in> set hs. 2 \<le> pid" for pre j hs
    using that by (intro qrel.iop_bnd [OF qop_probe_segments] iop_option qop_decline qop_copy_segments)
  have place: "qop (\<lambda>p. case homes of None \<Rightarrow> decline p | Some hs \<Rightarrow>
       let extHeadroom = maxSizePages p - highWaterMark p in if n - k + extHeadroom < segPages then decline p
       else bnd (probe_segments env pre) (\<lambda>segs. case segs of None \<Rightarrow> decline | Some ss \<Rightarrow> copy_segments j hs None ss) p) any"
    if "\<forall>hs. homes = Some hs \<longrightarrow> (\<forall>pid \<in> set hs. 2 \<le> pid)" for homes n k segPages pre j
    using that by (intro iopI) (auto simp: Let_def split: option.splits if_splits intro: iopD [OF qop_decline] iopD [OF copy])
  have eta: "(\<lambda>segs p. case segs of None \<Rightarrow> decline p | Some ss \<Rightarrow> copy_segments j hs None ss p) =
      (\<lambda>segs. case segs of None \<Rightarrow> decline | Some ss \<Rightarrow> copy_segments j hs None ss)" for j hs
    by (auto simp: fun_eq_iff split: option.splits)
  have cap: "qop (\<lambda>p. if c \<le> 0 then decline p else
      let segPages = (length (retiredPages p) + k + c - 1) div c in
      if dirtyBytes p + int (k + segPages) * int (ps p) > maxBytes p then decline p
      else bnd (get_bitmap (\<lambda>b. (probe_homes b floor k 0, numFree b))) (\<lambda>(homes, n) p.
        case homes of None \<Rightarrow> decline p | Some hs \<Rightarrow>
          let extHeadroom = maxSizePages p - highWaterMark p in if n - k + extHeadroom < segPages then decline p
          else bnd (probe_segments env pre) (\<lambda>segs p. case segs of None \<Rightarrow> decline p | Some ss \<Rightarrow> copy_segments j hs None ss p) p) p) any"
    for c k floor pre j
  proof (rule iopI)
    fix p r p'
    assume i: "data_inv p"
    have b: "qop (bnd (get_bitmap (\<lambda>b. (probe_homes b floor k 0, numFree b))) (\<lambda>(homes, n) p.
        case homes of None \<Rightarrow> decline p | Some hs \<Rightarrow>
          let extHeadroom = maxSizePages p - highWaterMark p in if n - k + extHeadroom < sp then decline p
          else bnd (probe_segments env pre) (\<lambda>segs. case segs of None \<Rightarrow> decline | Some ss \<Rightarrow> copy_segments j hs None ss) p)) any" for sp
      by (rule qrel.iop_bnd [OF homes]) (auto intro!: place split: prod.splits)
    show "(if c \<le> 0 then decline p else
      let segPages = (length (retiredPages p) + k + c - 1) div c in
      if dirtyBytes p + int (k + segPages) * int (ps p) > maxBytes p then decline p
      else bnd (get_bitmap (\<lambda>b. (probe_homes b floor k 0, numFree b))) (\<lambda>(homes, n) p.
        case homes of None \<Rightarrow> decline p | Some hs \<Rightarrow>
          let extHeadroom = maxSizePages p - highWaterMark p in if n - k + extHeadroom < segPages then decline p
          else bnd (probe_segments env pre) (\<lambda>segs p. case segs of None \<Rightarrow> decline p | Some ss \<Rightarrow> copy_segments j hs None ss p) p) p) = (r, p')
      \<Longrightarrow> quiet p p' \<and> (\<forall>x. r = Inr x \<longrightarrow> True)"
      unfolding eta using iopD [OF qop_decline i] iopD [OF b i] by (simp add: Let_def split: if_splits)
  qed
  have lift: "qop (\<lambda>p. lift_page (RPLEntriesPerSegment (cfg p)) p) any"
    by (rule iop_fun) (rule qrel.iop_lift_page)
  show ?thesis
  proof (rule iopI)
    fix p r p'
    assume i: "data_inv p" and e: "relocateRPLPrefix env p = (r, p')"
    have q: "quiet p (p\<lparr>rplRelocFloor := 0\<rparr>)" by (simp add: quiet_frame)
    note i' = qrel.keep [OF i q]
    show "quiet p p' \<and> (\<forall>x. r = Inr x \<longrightarrow> True)"
      using e q qrel.refl [of p] qrel.trans [OF q iopD [OF qrel.iop_bnd [OF lift cap] i']]
      unfolding relocateRPLPrefix_def by (simp add: Let_def split: if_splits)
  qed
qed

lemma range_ids:
  assumes "env_ok env" "data_inv p"
  shows "pid \<in> set (rangeOrder env (dom (slab p))) \<Longrightarrow> 2 \<le> pid"
  using assms by (auto simp: env_ok_def data_inv_def)

lemma qop_commitStep0:
  assumes "env_ok env"
  shows "qop (commitStep0 env) any"
proof -
  have "qop (\<lambda>p. each_pm free_loose (rangeOrder env (loosePages p)) p) any"
    by (rule iop_fun) (rule qrel.iop_each, simp)
  moreover have "qop (upd (\<lambda>p. fold sweep_one (rangeOrder env (dom (slab p))) p)) any"
    by (rule iop_upd) (rule quiet_sweep)
  moreover have "qop (\<lambda>p. if retiredPages p \<noteq> [] then appendRPL env p else (Inr (), p)) any"
    by (rule iopI) (auto simp: qrel.refl split: if_splits intro: iopD [OF qop_appendRPL [OF assms]])
  ultimately show ?thesis unfolding commitStep0_def
    by (intro qrel.iop_bnd [where Q = any] qop_TailRefund qop_relocateRPLPrefix)
qed

section \<open>Step 1\<close>

lemma qop_stamp [simp]: "qop (stamp env buf) any"
  by (rule iopI) (auto simp: stamp_def qrel.refl split: if_splits intro: iopD [OF qrel.iop_lift_page])

lemma qop_write_slab: "2 \<le> pid \<Longrightarrow> qop (write_slab env pid) any"
proof (rule iopI)
  fix p r p'
  assume 2: "2 \<le> pid" and i: "data_inv p" and e: "write_slab env pid p = (r, p')"
  have w: "qop (\<lambda>q. write_at d (pid * ps q) q) any" for d
    using 2 by (intro qop_write_at) simp
  have "quiet p p'" if b: "bnd (stamp env (bufs p b)) (\<lambda>buf. bnd (upd (store_buf b buf)) (\<lambda>_. write_at buf (pid * ps p))) p = (r, p')" for b
  proof -
    obtain x q where q: "stamp env (bufs p b) p = (x, q)" by (cases "stamp env (bufs p b) p")
    have pq: "quiet p q" using iopD [OF qop_stamp i q] .
    have c: "cfg q = cfg p" using pq i by (simp add: quiet_def)
    show ?thesis
    proof (cases x)
      case (Inl err)
      then show ?thesis using b q pq by (simp add: bnd_def)
    next
      case (Inr d)
      then have wr: "write_at d (pid * ps (store_buf b d q)) (store_buf b d q) = (r, p')"
        using b q c by (simp add: bnd_def upd_def store_buf_def ps_def)
      have ps: "quiet p (store_buf b d q)" using qrel.trans [OF pq quiet_store] .
      then show ?thesis using qrel.trans [OF ps iopD [OF w qrel.keep [OF i ps] wr]] by simp
    qed
  qed
  then show "quiet p p' \<and> (\<forall>x. r = Inr x \<longrightarrow> True)"
    using e qrel.refl [of p] by (auto simp: write_slab_def split: option.splits)
qed

lemma qop_write_bitmap_page [simp]: "qop (write_bitmap_page idx) any"
proof (rule iopI)
  fix p r p'
  assume i: "data_inv p" and e: "write_bitmap_page idx p = (r, p')"
  have w: "qop (\<lambda>q. write_at d ((2 + idx) * ps q) q) any" for d
    by (intro qop_write_at) simp
  obtain b where "bmap p = Some b" using i by (auto simp: data_inv_def)
  then show "quiet p p' \<and> (\<forall>x. r = Inr x \<longrightarrow> True)"
    using e iopD [OF w i] qrel.refl [of p]
    by (auto simp: write_bitmap_page_def bnd_def get_bitmap_def throw_def split: sum.splits)
qed

lemma qop_commitStep1:
  assumes "env_ok env"
  shows "qop (commitStep1 env) any"
proof (rule iopI)
  fix p r p' assume i: "data_inv p" and e: "commitStep1 env p = (r, p')"
  have "qop (each_pm (write_slab env) (rangeOrder env (dom (slab p)))) any"
    by (rule qrel.iop_each) (rule qop_write_slab [OF range_ids [OF assms i]])
  then have "qop (bnd (each_pm (write_slab env) (rangeOrder env (dom (slab p)))) (\<lambda>_. bnd (get_bitmap DirtyPages)
       (\<lambda>idxs. bnd (each_pm write_bitmap_page idxs) (\<lambda>_. ret (card (dom (slab p)) + length idxs))))) any"
    by (rule qrel.iop_bnd) (intro qrel.iop_bnd [where Q = any] qrel.iop_get_bitmap qrel.iop_each qrel.iop_ret; simp)
  then show "quiet p p' \<and> (\<forall>x. r = Inr x \<longrightarrow> True)" using iopD i e by (simp add: commitStep1_def)
qed

end
