(* ===== verification/Tx_Abort.thy ===== *)
theory Tx_Abort
  imports Savepoint_Trace Commit_Quiet
begin

text \<open>
  Aborting a transaction: the snapshot that \<^verbatim>\<open>BeginTx\<close> took stays open through every call of the
  transaction body and through the failing steps of a commit, and \<^verbatim>\<open>AbortTx\<close> restores it.
\<close>

section \<open>The transaction snapshot\<close>

text \<open>A pager between transactions.\<close>

definition between :: "Bitmap \<Rightarrow> Pager \<Rightarrow> bool" where
  "between b p \<longleftrightarrow>
     \<not> readOnly p \<and> bmap p = Some b \<and> bm_inv b \<and> slab p = Map.empty \<and> detachedBufs p = [] \<and>
     pendingAllocs p = {} \<and> pendingFrees p = {} \<and> loosePages p = {} \<and> retiredPages p = [] \<and> deferredFrees p = [] \<and>
     activeSavepoints p = [] \<and> savepointDepth p = 0 \<and> savepointUndoLog p = [] \<and> txSnapshot p = None"

definition tx_snap :: "Bitmap \<Rightarrow> snapshotCore \<Rightarrow> Snapshot option list \<Rightarrow> Pager \<Rightarrow> bool" where
  "tx_snap b1 c pre p \<longleftrightarrow> \<not> readOnly p \<and> txSnapshot p = Some c \<and>
     (\<exists>b. bmap p = Some b \<and> bm_work\<^sup>*\<^sup>* b1 b \<and> map Some (openSnapshots b) = pre @ snaps_at p)"

lemma resetVerified_fields [simp]:
  "resetVerified p = p\<lparr>verified := []\<rparr>"
  by (simp add: resetVerified_def)

lemma BeginTx_snap:
  assumes "between b p" "BeginTx params p = (r, p1)"
  shows "\<exists>s b1. r = Inr () \<and> takeSnapshot b = (s, b1) \<and> sp_inv p1 \<and>
     tx_snap b1 \<lparr>sc_bitmap = Some s, sc_highWaterMark = tp_HighWaterMark params, sc_rplSegments = rplSegments p\<rparr>
       (map Some (openSnapshots b) @ [Some s]) p1"
proof -
  obtain s b1 where s: "takeSnapshot b = (s, b1)" by (cases "takeSnapshot b")
  define q where "q = seedTx params (resetVerified (p\<lparr>tc := zeroStats, externalReserve := 0, inCommit := False, spillErr := None\<rparr>))"
  have q: "bmap q = Some b" "txSnapshot q = None" "highWaterMark q = tp_HighWaterMark params" "rplSegments q = rplSegments p"
    "between b q"
    using assms(1) by (simp_all add: q_def seedTx_def between_def Let_def split: option.splits)
  have run: "r = Inr ()" "p1 = q\<lparr>bmap := Some b1, txSnapshot := Some \<lparr>sc_bitmap = Some s,
      sc_highWaterMark = tp_HighWaterMark params, sc_rplSegments = rplSegments p\<rparr>\<rparr>"
    using assms q s unfolding BeginTx_def
    by (simp_all add: bnd_def upd_def between_def captureCore_def q_def [symmetric, unfolded resetVerified_fields])
  have "bm_inv b1" "openSnapshots b1 = openSnapshots b @ [s]"
    using step_Snapshot [of b] step_inv [of b b1] s assms(1) by (auto simp: between_def takeSnapshot_def Let_def)
  then show ?thesis using run q s
    by (auto simp: tx_snap_def snaps_at_def between_def sp_inv_def marks_ok_def stack_ok_def log_ok_def below_ok_def bitmap_ok_def)
qed

lemma tx_snap_window:
  assumes "sp_inv p" "tx_snap b1 c pre p" "window p p'"
  shows "tx_snap b1 c pre p'"
proof -
  have w: "sp_inv p'" "list_all2 (kept_sp p p') (activeSavepoints p) (activeSavepoints p')" "bm_moves p p'" "fixed_fields p' = fixed_fields p"
    using assms(1,3) by (simp_all add: window_def)
  have "snaps_at p' = snaps_at p"
    using w(2) unfolding snaps_at_def
    by (induction rule: list_all2_induct) (auto simp: kept_sp_def dest: strip_fields(2))
  moreover obtain b where b: "bmap p = Some b" "bm_work\<^sup>*\<^sup>* b1 b" "map Some (openSnapshots b) = pre @ snaps_at p"
    using assms(2) by (auto simp: tx_snap_def)
  moreover obtain b' where "bmap p' = Some b'" "bm_work\<^sup>*\<^sup>* b b'" "openSnapshots b' = openSnapshots b"
    using w(3) b(1) by (auto simp: bm_moves_def)
  moreover have "\<not> readOnly p'" "txSnapshot p' = Some c"
    using w(1,4) assms(2) by (simp_all add: sp_inv_def fixed_fields_def tx_snap_def)
  ultimately show ?thesis by (auto simp: tx_snap_def)
qed

lemma tx_snap_opened:
  assumes "tx_snap b1 c pre p" "opened t p p'"
  shows "tx_snap b1 c pre p'"
proof -
  obtain b where b: "bmap p = Some b" "bm_work\<^sup>*\<^sup>* b1 b" "map Some (openSnapshots b) = pre @ snaps_at p"
    using assms(1) by (auto simp: tx_snap_def)
  obtain u b' where u: "takeSnapshot b = (u, b')" "sc_bitmap (sp_core t) = Some u" "bmap p' = Some b'" "readOnly p' = readOnly p"
    using assms(2) b(1) by (auto simp: opened_def)
  have "openSnapshots b' = openSnapshots b @ [u]" using u(1) by (auto simp: takeSnapshot_def Let_def)
  moreover have "bm_work b b'" using step_Snapshot [of b] u(1) by simp
  moreover note opened_back(9,10) [OF assms(2)]
  ultimately show ?thesis using assms(1) b u by (auto simp: tx_snap_def snaps_at_def)
qed

lemma tx_snap_popped:
  assumes inv: "sp_inv p" and t: "tx_snap b1 c pre p" and st: "activeSavepoints p = xs @ [t]" "activeSavepoints p' = xs"
    and eq: "readOnly p' = readOnly p" "txSnapshot p' = txSnapshot p"
    and bm: "\<And>b u pre. bmap p = Some b \<Longrightarrow> bm_inv b \<Longrightarrow> sc_bitmap (sp_core t) = Some u \<Longrightarrow>
        map Some (openSnapshots b) = pre @ [Some u] \<Longrightarrow>
        \<exists>b'. bmap p' = Some b' \<and> bm_work\<^sup>*\<^sup>* b b' \<and> map Some (openSnapshots b') = pre"
  shows "tx_snap b1 c pre p'"
proof -
  obtain b where b: "bmap p = Some b" "bm_work\<^sup>*\<^sup>* b1 b" "map Some (openSnapshots b) = pre @ snaps_at p"
    using t by (auto simp: tx_snap_def)
  have "t \<in> set (activeSavepoints p)" using st(1) by simp
  then obtain v where v: "sc_bitmap (sp_core t) = Some v" "bm_inv b" using top_snapshot [OF inv] b(1) by auto
  have "map Some (openSnapshots b) = (pre @ snaps_at p') @ [Some v]" using b(3) st v(1) by (simp add: snaps_at_def)
  then obtain b' where "bmap p' = Some b'" "bm_work\<^sup>*\<^sup>* b b'" "map Some (openSnapshots b') = pre @ snaps_at p'"
    using bm [OF b(1) v(2,1)] by blast
  then show ?thesis using b(2) t eq by (auto simp: tx_snap_def)
qed

lemma tx_snap_step:
  assumes inv: "sp_inv p" and op: "body_op env p p'" and ok: "env_ok env" and t: "tx_snap b1 c pre p"
  shows "tx_snap b1 c pre p'"
proof -
  consider "window p p'" | t where "opened t p p'"
    | t xs where "activeSavepoints p = xs @ [t]" "restored t p p'"
    | t xs q where "activeSavepoints p = xs @ [t]" "closed_top t p q" "window q p'"
    using body_op_cases [OF op ok inv] by blast
  then show ?thesis
  proof cases
    case 1
    then show ?thesis by (rule tx_snap_window [OF inv t])
  next
    case 2
    then show ?thesis by (rule tx_snap_opened [OF t])
  next
    case (3 u xs)
    show ?thesis
    proof (rule tx_snap_popped [OF inv t 3(1)])
      show "activeSavepoints p' = xs" "readOnly p' = readOnly p" "txSnapshot p' = txSnapshot p" using 3 by (simp_all add: restored_def)
    qed (rule restored_bits [OF 3(2)])
  next
    case (4 u xs q)
    have "tx_snap b1 c pre q"
    proof (rule tx_snap_popped [OF inv t 4(1)])
      show "activeSavepoints q = xs" "readOnly q = readOnly p" "txSnapshot q = txSnapshot p" using 4(1,2) by (simp_all add: closed_top_def)
    qed (rule closed_bitmap [OF 4(2)])
    then show ?thesis using tx_snap_window [OF closed_inv [OF inv 4(1,2)] _ 4(3)] by blast
  qed
qed

lemma tx_snap_run:
  assumes "(body_op env)\<^sup>*\<^sup>* p1 p2" "env_ok env" "sp_inv p1" "tx_snap b1 c pre p1"
  shows "sp_inv p2 \<and> tx_snap b1 c pre p2"
  using assms(1)
proof (induction rule: rtranclp_induct)
  case (step q r)
  then show ?case using tx_snap_step [OF _ step(2) assms(2)] body_op_inv [OF _ step(2) assms(2)] by blast
qed (use assms in simp)

section \<open>Aborting\<close>

definition tx_undone :: "Bitmap \<Rightarrow> snapshotCore \<Rightarrow> Pager \<Rightarrow> bool" where
  "tx_undone b c p \<longleftrightarrow>
     (\<exists>n. between (b\<lparr>nextSnap := n\<rparr>) p) \<and> highWaterMark p = sc_highWaterMark c \<and> rplSegments p = sc_rplSegments c \<and>
     currentTxnID p = 0"

lemma fold_put_keeps: "untouched (fold (\<lambda>x p. poolPut (f x p) p) xs p) = untouched p"
  by (induction xs arbitrary: p) simp_all

lemma ReleaseAll_keeps:
  assumes "\<not> readOnly p"
  shows "slab (ReleaseAll env p) = Map.empty" "detachedBufs (ReleaseAll env p) = []"
    "bmap (ReleaseAll env p) = bmap p" "readOnly (ReleaseAll env p) = readOnly p"
    "highWaterMark (ReleaseAll env p) = highWaterMark p" "rplSegments (ReleaseAll env p) = rplSegments p"
    "txSnapshot (ReleaseAll env p) = txSnapshot p"
proof -
  let ?p1 = "fold (\<lambda>pid p. poolPut (the (slab p pid)) p) (rangeOrder env (dom (slab p))) p"
  have "untouched ?p1 = untouched p" by (rule fold_put_keeps)
  moreover have "untouched (fold poolPut (detachedBufs ?p1) (?p1\<lparr>slab := Map.empty\<rparr>)) = untouched ?p1"
    using fold_put_keeps [of "\<lambda>x _. x"] by (simp add: untouched_def)
  moreover have "slab (fold poolPut bs q) = slab q" for bs q by (rule fold_poolPut_fields)
  ultimately show "slab (ReleaseAll env p) = Map.empty" "detachedBufs (ReleaseAll env p) = []"
    "bmap (ReleaseAll env p) = bmap p" "readOnly (ReleaseAll env p) = readOnly p"
    "highWaterMark (ReleaseAll env p) = highWaterMark p" "rplSegments (ReleaseAll env p) = rplSegments p"
    "txSnapshot (ReleaseAll env p) = txSnapshot p"
    using assms by (auto simp: ReleaseAll_def Let_def untouched_def)
qed

lemma AbortTx_undoes:
  assumes inv: "bm_inv b" and snap: "takeSnapshot b = (s, b1)" and c: "sc_bitmap c = Some s"
    and t: "\<not> readOnly p" "txSnapshot p = Some c" "bmap p = Some b2" "bm_work\<^sup>*\<^sup>* b1 b2" "set (openSnapshots b1) \<subseteq> set (openSnapshots b2)"
  shows "\<exists>p'. AbortTx env p = (Inr (), p') \<and> tx_undone b c p'"
proof -
  have o: "openSnapshots b1 = openSnapshots b @ [s]" using snap by (auto simp: takeSnapshot_def Let_def)
  have "Restore b2 s = Inr (b\<lparr>openSnapshots := filter (\<lambda>t. t \<in> set (openSnapshots b2)) (openSnapshots b), nextSnap := nextSnap b2\<rparr>)"
    by (rule Restore_exact [OF inv snap t(4)]) (use t(5) o in auto)
  moreover have "filter (\<lambda>t. t \<in> set (openSnapshots b2)) (openSnapshots b) = openSnapshots b"
    by (rule filter_True) (use t(5) o in auto)
  ultimately have r: "Restore b2 s = Inr (b\<lparr>nextSnap := nextSnap b2\<rparr>)" by simp
  let ?q = "p\<lparr>bmap := Some (b\<lparr>nextSnap := nextSnap b2\<rparr>), highWaterMark := sc_highWaterMark c, rplSegments := sc_rplSegments c,
      txSnapshot := None, tc := (tc p)\<lparr>SlabPeakBytes := 0\<rparr>\<rparr>"
  note k = ReleaseAll_keeps [of ?q env]
  define p' where "p' = (ResetFreespace (ReleaseAll env ?q))\<lparr>rplRelocFloor := 0, currentTxnID := 0, savepointDepth := 0,
     activeSavepoints := [], savepointUndoLog := []\<rparr>"
  have "AbortTx env p = (Inr (), p')"
    using t(1,2,3) c r by (simp add: AbortTx_def restoreCore_def with_bitmap_def bnd_def upd_def Let_def p'_def)
  moreover have "bm_work\<^sup>*\<^sup>* b (b\<lparr>nextSnap := nextSnap b2\<rparr>)"
  proof -
    have "bm_work b b1" using step_Snapshot [of b] snap by simp
    moreover have "s \<in> set (openSnapshots b2)" using t(5) o by auto
    then have "bm_work b2 (b\<lparr>nextSnap := nextSnap b2\<rparr>)" using r by (rule step_Restore)
    ultimately show ?thesis using t(4) by (meson converse_rtranclp_into_rtranclp rtranclp.rtrancl_into_rtrancl)
  qed
  then have "bm_inv (b\<lparr>nextSnap := nextSnap b2\<rparr>)" using steps_inv inv by blast
  then have "tx_undone b c p'"
    using k t(1) by (auto simp: tx_undone_def between_def p'_def ResetFreespace_def)
  ultimately show ?thesis by blast
qed

lemma snap_subset:
  assumes "takeSnapshot b = (s, b1)" "map Some (openSnapshots b2) = (map Some (openSnapshots b) @ [Some s]) @ xs"
  shows "set (openSnapshots b1) \<subseteq> set (openSnapshots b2)"
proof -
  have "openSnapshots b1 = openSnapshots b @ [s]" using assms(1) by (auto simp: takeSnapshot_def Let_def)
  then have "Some ` set (openSnapshots b1) \<subseteq> Some ` set (openSnapshots b2)"
    using arg_cong [OF assms(2), of set] by (auto simp: image_Un)
  then show ?thesis by (simp add: inj_image_subset_iff)
qed

lemma tx_snap_abort:
  assumes "bm_inv b" "takeSnapshot b = (s, b1)" "sc_bitmap c = Some s"
    and "tx_snap b1 c (map Some (openSnapshots b) @ [Some s]) p"
  shows "\<exists>p'. AbortTx env p = (Inr (), p') \<and> tx_undone b c p'"
proof -
  obtain b2 where b2: "bmap p = Some b2" "bm_work\<^sup>*\<^sup>* b1 b2"
      "map Some (openSnapshots b2) = (map Some (openSnapshots b) @ [Some s]) @ snaps_at p"
    using assms(4) by (auto simp: tx_snap_def)
  then have "set (openSnapshots b1) \<subseteq> set (openSnapshots b2)" using snap_subset [OF assms(2)] by blast
  then show ?thesis using AbortTx_undoes [OF assms(1-3)] b2 assms(4) by (simp add: tx_snap_def)
qed

section \<open>A failing commit\<close>

definition held :: "Pager \<Rightarrow> Pager \<Rightarrow> bool" where
  "held p0 p \<longleftrightarrow> data_inv p \<and> bm_moves p0 p \<and> txSnapshot p = txSnapshot p0 \<and> readOnly p = readOnly p0"

lemma held_quiet: "held p0 p \<Longrightarrow> quiet p p' \<Longrightarrow> held p0 p'"
  unfolding held_def quiet_def using bm_moves_trans by auto

lemma held_same:
  assumes "held p0 p" "bmap p' = bmap p" "highWaterMark p' = highWaterMark p" "slab p' = slab p" "loosePages p' = loosePages p"
    "fileSize p' = fileSize p" "cfg p' = cfg p" "txSnapshot p' = txSnapshot p" "readOnly p' = readOnly p"
    "length (fo_bytes (fops p)) \<le> length (fo_bytes (fops p'))"
  shows "held p0 p'"
  using assms by (auto simp: held_def data_inv_def bm_moves_def ps_def)

text \<open>Every exit with an error is a panic, or the transaction was aborted from a state that holds its snapshot.\<close>

definition undoing :: "Env \<Rightarrow> Pager \<Rightarrow> 'a pm \<Rightarrow> bool" where
  "undoing env p0 m \<longleftrightarrow> (\<forall>p r p'. held p0 p \<longrightarrow> m p = (r, p') \<longrightarrow>
     (case r of Inr _ \<Rightarrow> held p0 p' | Inl e \<Rightarrow> is_panic e \<or> (\<exists>q. held p0 q \<and> AbortTx env q = (Inr (), p'))))"

lemma undoingI:
  "(\<And>p r p'. held p0 p \<Longrightarrow> m p = (r, p') \<Longrightarrow>
     case r of Inr _ \<Rightarrow> held p0 p' | Inl e \<Rightarrow> is_panic e \<or> (\<exists>q. held p0 q \<and> AbortTx env q = (Inr (), p'))) \<Longrightarrow> undoing env p0 m"
  unfolding undoing_def by blast

lemma undoingD:
  "undoing env p0 m \<Longrightarrow> held p0 p \<Longrightarrow> m p = (r, p') \<Longrightarrow>
   case r of Inr _ \<Rightarrow> held p0 p' | Inl e \<Rightarrow> is_panic e \<or> (\<exists>q. held p0 q \<and> AbortTx env q = (Inr (), p'))"
  unfolding undoing_def by blast

lemma undoing_bnd: "undoing env p0 m \<Longrightarrow> (\<And>x. undoing env p0 (f x)) \<Longrightarrow> undoing env p0 (bnd m f)"
proof (rule undoingI)
  fix p r p'
  assume m: "undoing env p0 m" and f: "\<And>x. undoing env p0 (f x)" and p: "held p0 p" and e: "bnd m f p = (r, p')"
  obtain a q where a: "m p = (a, q)" by (cases "m p")
  show "case r of Inr _ \<Rightarrow> held p0 p' | Inl e \<Rightarrow> is_panic e \<or> (\<exists>q. held p0 q \<and> AbortTx env q = (Inr (), p'))"
  proof (cases a)
    case (Inl err)
    then show ?thesis using undoingD [OF m p a] e a by (auto simp: bnd_def)
  next
    case (Inr x)
    then have "f x q = (r, p')" "held p0 q" using e a undoingD [OF m p a] by (simp_all add: bnd_def)
    then show ?thesis using undoingD [OF f] by blast
  qed
qed

lemma undoing_upd: "(\<And>p. held p0 p \<Longrightarrow> held p0 (f p)) \<Longrightarrow> undoing env p0 (upd f)"
  by (rule undoingI) (auto simp: upd_def)

lemma undoing_ret: "undoing env p0 (ret x)"
  by (rule undoingI) (auto simp: ret_def)

lemma with_bitmap_panics: "with_bitmap f p = (Inl e, p') \<Longrightarrow> is_panic e"
  by (auto simp: with_bitmap_def split: option.splits sum.splits)

lemma AbortTx_panics: "AbortTx env p = (Inl e, p') \<Longrightarrow> is_panic e"
  by (auto simp: AbortTx_def restoreCore_def bnd_def upd_def throw_def split: prod.splits sum.splits option.splits if_splits
      dest: with_bitmap_panics)

lemma undoing_or_abort:
  assumes "\<And>p r p'. held p0 p \<Longrightarrow> m p = (r, p') \<Longrightarrow> held p0 p'"
  shows "undoing env p0 (or_abort env w m)"
proof (rule undoingI)
  fix p r p' assume p: "held p0 p" and e: "or_abort env w m p = (r, p')"
  obtain a q where a: "m p = (a, q)" by (cases "m p")
  show "case r of Inr _ \<Rightarrow> held p0 p' | Inl e \<Rightarrow> is_panic e \<or> (\<exists>q. held p0 q \<and> AbortTx env q = (Inr (), p'))"
    using e a assms [OF p a] by (auto simp: or_abort_def split: sum.splits if_splits prod.splits dest: AbortTx_panics)
qed

lemma held_fdatasync: "held p0 p \<Longrightarrow> fdatasync p = (r, p') \<Longrightarrow> held p0 p'"
  by (erule held_same) (auto simp: fdatasync_def Fdatasync_def called_def split: io_outcome.splits)

lemma held_write_at: "held p0 p \<Longrightarrow> write_at d off p = (r, p') \<Longrightarrow> held p0 p'"
  by (erule held_same)
    (auto simp: write_at_def WriteAt_def called_def put_bytes_def length_file_write split: io_outcome.splits)

lemma held_epoch: "held p0 p \<Longrightarrow> held p0 (advanceAnchoredEpoch e p)"
  by (erule held_same) (simp_all add: advanceAnchoredEpoch_def)

lemma undoing_qop: "qop m any \<Longrightarrow> undoing env p0 (or_abort env w m)"
  by (rule undoing_or_abort) (metis held_def held_quiet iopD)

lemma undoing_publish: "undoing env p0 (publish env cp prev k)"
proof (rule undoingI)
  fix p r p' assume p: "held p0 p" and e: "publish env cp prev k p = (r, p')"
  let ?U = "\<lambda>r p'. case r of Inr _ \<Rightarrow> held p0 p' | Inl e \<Rightarrow> is_panic e \<or> (\<exists>q. held p0 q \<and> AbortTx env q = (Inr (), p'))"
  have u: "undoing env p0 (bnd (or_abort env (\<lambda>e. e) (write_at d off)) (\<lambda>_. bnd (upd (noteAdoptedMeta m j)) (\<lambda>_. ret m)))" for d off m j
    by (intro undoing_bnd [OF undoing_or_abort [OF held_write_at]] undoing_bnd [OF undoing_upd] undoingI)
      (auto simp: noteAdoptedMeta_def ret_def elim: held_same)
  show "?U r p'"
  proof (cases "EncodeMeta (xxh3 env) (replicate (ps p) 0) (buildNewMeta cp prev p)")
    case (Inl x)
    then show ?thesis using e by (auto simp: publish_def lift_page_def bnd_def throw_def)
  next
    case (Inr bm)
    obtain d m where "bm = (d, m)" by (cases bm)
    then have "bnd (or_abort env (\<lambda>e. e) (write_at d (k * ps p))) (\<lambda>_. bnd (upd (noteAdoptedMeta m (int k))) (\<lambda>_. ret m)) p = (r, p')"
      using e Inr by (simp add: publish_def lift_page_def bnd_def [of "ret _"] ret_def [of "(d, m)"])
    then show ?thesis using undoingD [OF u p] by blast
  qed
qed

lemma finish_panics: "finish env prev n p = (Inl e, p') \<Longrightarrow> is_panic e"
proof -
  have "discardTxSnapshot q = (Inl e, q') \<Longrightarrow> is_panic e" for q q'
    by (auto simp: discardTxSnapshot_def bnd_def upd_def split: prod.splits sum.splits option.splits if_splits dest: with_bitmap_panics)
  then show "finish env prev n p = (Inl e, p') \<Longrightarrow> is_panic e"
    by (auto simp: finish_def bnd_def upd_def split: prod.splits sum.splits dest: with_bitmap_panics)
qed

lemma undoing_syncs: "undoing env p0 (data_sync env cp prev)" "undoing env p0 (meta_sync env cp m)"
  by (auto simp: data_sync_def meta_sync_def
      intro!: undoing_bnd [OF undoing_or_abort [OF held_fdatasync]] undoing_upd held_epoch undoing_ret)

lemma bnd_error:
  assumes "bnd m f p = (Inl e, p')"
  obtains "m p = (Inl e, p')" | x q where "m p = (Inr x, q)" "f x q = (Inl e, p')"
  using assms by (auto simp: bnd_def split: prod.splits sum.splits)

lemma commit_body_error:
  assumes ok: "env_ok env" and p: "held p0 p" and e: "commit_body env cp prev k p = (Inl e, p')" and np: "\<not> is_panic e"
  shows "\<exists>q. held p0 q \<and> AbortTx env q = (Inr (), p')"
proof -
  let ?pre = "bnd (or_abort env (\<lambda>e. e) (commitStep0 env)) (\<lambda>_. bnd (or_abort env (\<lambda>e. e) (commitStep1 env)) (\<lambda>n.
      bnd (data_sync env cp prev) (\<lambda>_. bnd (publish env cp prev (1 - k)) (\<lambda>m. bnd (meta_sync env cp m) (\<lambda>_. ret (n, m))))))"
  have u: "undoing env p0 ?pre"
    by (intro undoing_bnd [OF undoing_qop [OF qop_commitStep0 [OF ok]]] undoing_bnd [OF undoing_qop [OF qop_commitStep1 [OF ok]]]
        undoing_bnd [OF undoing_syncs(1)] undoing_bnd [OF undoing_publish] undoing_bnd [OF undoing_syncs(2)] undoing_ret)
  have assoc: "bnd (bnd m f) g = bnd m (\<lambda>x. bnd (f x) g)" for m :: "'x pm" and f :: "'x \<Rightarrow> 'y pm" and g :: "'y \<Rightarrow> 'z pm"
    by (auto simp: bnd_def fun_eq_iff split: prod.splits sum.splits)
  have rb: "bnd (ret x) f = f x" for x :: 'x and f :: "'x \<Rightarrow> 'y pm" by (simp add: bnd_def ret_def fun_eq_iff)
  have split: "commit_body env cp prev k = bnd ?pre (\<lambda>(n, m). bnd (finish env prev n) (\<lambda>_. ret \<lparr>cr_Meta = m, cr_ActiveMetaIdx = 1 - k\<rparr>))"
    unfolding commit_body_def Let_def by (simp only: assoc rb split_conv)
  from e [unfolded split] show ?thesis
  proof (rule bnd_error)
    assume "?pre p = (Inl e, p')"
    from undoingD [OF u p this] show ?thesis using np by simp
  next
    fix x q assume "(case x of (n, m) \<Rightarrow> bnd (finish env prev n) (\<lambda>_. ret \<lparr>cr_Meta = m, cr_ActiveMetaIdx = 1 - k\<rparr>)) q = (Inl e, p')"
    then have False using np by (auto simp: bnd_def ret_def split: prod.splits sum.splits dest: finish_panics)
    then show ?thesis ..
  qed
qed

lemma held_abort:
  assumes "bm_inv b" "takeSnapshot b = (s, b1)" "sc_bitmap c = Some s"
    and "tx_snap b1 c (map Some (openSnapshots b) @ [Some s]) p0" "held p0 q" "AbortTx env q = (Inr (), p')"
  shows "tx_undone b c p'"
proof -
  obtain b2 where b2: "bmap p0 = Some b2" "bm_work\<^sup>*\<^sup>* b1 b2" "\<not> readOnly p0" "txSnapshot p0 = Some c"
      "map Some (openSnapshots b2) = (map Some (openSnapshots b) @ [Some s]) @ snaps_at p0"
    using assms(4) by (auto simp: tx_snap_def)
  obtain b3 where b3: "bmap q = Some b3" "bm_work\<^sup>*\<^sup>* b2 b3" "openSnapshots b3 = openSnapshots b2" "\<not> readOnly q" "txSnapshot q = Some c"
    using assms(5) b2 by (auto simp: held_def bm_moves_def)
  have "set (openSnapshots b1) \<subseteq> set (openSnapshots b3)" using snap_subset [OF assms(2) b2(5)] b3(3) by simp
  moreover have "bm_work\<^sup>*\<^sup>* b1 b3" using b2(2) b3(2) by simp
  ultimately obtain p'' where "AbortTx env q = (Inr (), p'')" "tx_undone b c p''"
    using AbortTx_undoes [OF assms(1-3) b3(4,5,1)] by blast
  then show ?thesis using assms(6) by simp
qed

end
