(* ===== verification/Commit_Crash.thy ===== *)
theory Commit_Crash
  imports Commit_Quiet
begin

text \<open>
  What a crash during or after a commit leaves on disk. The crash may come at any point: a run in
  which every call from some point on fails leaves the same writes behind as a run that stops
  there, so quantifying over all outcomes of all file calls covers every crash point. After the
  crash each byte of the file is the last synced one or one of those written since.
\<close>

section \<open>Crash images\<close>

definition crash_image :: "FileOps \<Rightarrow> bytes \<Rightarrow> bool" where
  "crash_image fo img \<longleftrightarrow>
     (length (fo_synced fo) \<le> length img \<or> (\<exists>n \<le> length img. TruncOp n \<in> set (fo_unsynced fo))) \<and>
     (\<forall>i < length img.
        (i < length (fo_synced fo) \<and> img ! i = fo_synced fo ! i) \<or>
        (\<exists>off d. WriteOp off d \<in> set (fo_unsynced fo) \<and> off \<le> i \<and> i < off + length d \<and> img ! i = d ! (i - off)) \<or>
        (img ! i = 0 \<and> (length (fo_synced fo) \<le> i \<or> (\<exists>n \<le> i. TruncOp n \<in> set (fo_unsynced fo)))))"

definition slot :: "nat \<Rightarrow> nat \<Rightarrow> bytes \<Rightarrow> bytes" where
  "slot s k b = field b (k * s) s"

text \<open>The metas of earlier commits are durable: nothing unsynced touches the two slots.\<close>

definition metas_settled :: "Pager \<Rightarrow> bool" where
  "metas_settled p \<longleftrightarrow>
     2 * ps p \<le> length (fo_synced (fops p)) \<and>
     take (2 * ps p) (fo_bytes (fops p)) = take (2 * ps p) (fo_synced (fops p)) \<and>
     list_all (above (2 * ps p)) (fo_unsynced (fops p))"

text \<open>The states of the file before publication, and after it.\<close>

definition untouched_metas :: "nat \<Rightarrow> bytes \<Rightarrow> FileOps \<Rightarrow> bool" where
  "untouched_metas n old f \<longleftrightarrow>
     n \<le> length (fo_synced f) \<and> n \<le> length (fo_bytes f) \<and>
     take n (fo_synced f) = take n old \<and> take n (fo_bytes f) = take n old \<and> list_all (above n) (fo_unsynced f)"

definition meta_op :: "nat \<Rightarrow> nat \<Rightarrow> file_op \<Rightarrow> bool" where
  "meta_op s off op \<longleftrightarrow> above (2 * s) op \<or> (\<exists>d. op = WriteOp off d \<and> length d \<le> s)"

definition only_at :: "nat \<Rightarrow> file_op \<Rightarrow> bool" where
  "only_at off op = (case op of WriteOp o' d \<Rightarrow> o' = off | TruncOp n \<Rightarrow> True)"

definition published :: "nat \<Rightarrow> nat \<Rightarrow> bool \<Rightarrow> bytes \<Rightarrow> FileOps \<Rightarrow> bool" where
  "published s k sync old f \<longleftrightarrow>
     2 * s \<le> length (fo_synced f) \<and> 2 * s \<le> length (fo_bytes f) \<and>
     slot s (1 - k) (fo_synced f) = slot s (1 - k) old \<and> slot s (1 - k) (fo_bytes f) = slot s (1 - k) old \<and>
     list_all (meta_op s (k * s)) (fo_unsynced f) \<and>
     (sync \<longrightarrow> list_all (only_at (k * s)) (fo_unsynced f))"

definition safe_file :: "nat \<Rightarrow> nat \<Rightarrow> bool \<Rightarrow> bytes \<Rightarrow> FileOps \<Rightarrow> bool" where
  "safe_file s k sync old f \<longleftrightarrow> untouched_metas (2 * s) old f \<or> published s k sync old f"

definition durable_meta :: "nat \<Rightarrow> nat \<Rightarrow> bytes \<Rightarrow> FileOps \<Rightarrow> bool" where
  "durable_meta s k buf f \<longleftrightarrow>
     2 * s \<le> length (fo_synced f) \<and> slot s k (fo_synced f) = buf \<and>
     (\<forall>op \<in> set (fo_unsynced f). \<exists>n \<ge> 2 * s. op = TruncOp n)"

section \<open>Slots\<close>

lemma nth_slot: "i < s \<Longrightarrow> (k + 1) * s \<le> length b \<Longrightarrow> slot s k b ! i = b ! (k * s + i)"
  by (simp add: slot_def field_def)

lemma length_slot: "(k + 1) * s \<le> length b \<Longrightarrow> length (slot s k b) = s"
  by (simp add: slot_def field_def)

lemma two_slots: "k < 2 \<Longrightarrow> (k + 1) * s \<le> 2 * (s :: nat)"
  by (rule mult_le_mono1) simp

lemma slot_take:
  assumes "k < 2"
  shows "slot s k b = slot s k (take (2 * s) b)"
proof -
  have "k = 0 \<or> k = 1" using assms by auto
  then show ?thesis by (auto simp: slot_def field_def drop_take min_def)
qed

lemma slot_image:
  assumes img: "crash_image f img" and k: "k < 2" and len: "2 * s \<le> length (fo_synced f)"
    and ops: "\<And>off d. WriteOp off d \<in> set (fo_unsynced f) \<Longrightarrow> 2 * s \<le> off \<or> off + length d \<le> k * s \<or> (k + 1) * s \<le> off"
    and tr: "\<And>n. TruncOp n \<in> set (fo_unsynced f) \<Longrightarrow> 2 * s \<le> n"
  shows "slot s k img = slot s k (fo_synced f)"
proof -
  have two: "(k + 1) * s \<le> 2 * s" by (rule two_slots [OF k])
  have li: "2 * s \<le> length img" using img len tr unfolding crash_image_def by (meson order_trans)
  have fit: "(k + 1) * s \<le> length img" "(k + 1) * s \<le> length (fo_synced f)" using order_trans [OF two li] order_trans [OF two len] by simp_all
  show ?thesis
  proof (rule nth_equalityI)
    show "length (slot s k img) = length (slot s k (fo_synced f))"
      using length_slot [OF fit(1)] length_slot [OF fit(2)] by simp
    fix i assume "i < length (slot s k img)"
    then have i: "i < s" using length_slot [OF fit(1)] by simp
    have b: "k * s + i < (k + 1) * s" using i by simp
    have "img ! (k * s + i) = fo_synced f ! (k * s + i)"
    proof -
      have "k * s + i < length img" using b two li by linarith
      then consider "img ! (k * s + i) = fo_synced f ! (k * s + i)"
        | off d where "WriteOp off d \<in> set (fo_unsynced f)" "off \<le> k * s + i" "k * s + i < off + length d"
        | "length (fo_synced f) \<le> k * s + i" | n where "n \<le> k * s + i" "TruncOp n \<in> set (fo_unsynced f)"
        using img unfolding crash_image_def by blast
      then show ?thesis
      proof cases
        case 2
        then show ?thesis using ops [OF 2(1)] b two by linarith
      next
        case 3
        then show ?thesis using b two len by linarith
      next
        case 4
        then show ?thesis using tr [OF 4(2)] b two by linarith
      qed simp
    qed
    then show "slot s k img ! i = slot s k (fo_synced f) ! i"
      using nth_slot [OF i fit(1)] nth_slot [OF i fit(2)] by simp
  qed
qed

lemma above_ops:
  assumes "list_all (above n) ops"
  shows "WriteOp off d \<in> set ops \<Longrightarrow> n \<le> off" "TruncOp m \<in> set ops \<Longrightarrow> n \<le> m"
  using assms by (auto simp: list_all_iff above_def)

lemma untouched_image:
  assumes "untouched_metas (2 * s) old f" "crash_image f img" "k < 2"
  shows "slot s k img = slot s k old"
proof -
  have a: "list_all (above (2 * s)) (fo_unsynced f)" "2 * s \<le> length (fo_synced f)" "take (2 * s) (fo_synced f) = take (2 * s) old"
    using assms(1) by (auto simp: untouched_metas_def)
  have "slot s k img = slot s k (fo_synced f)"
    by (rule slot_image [OF assms(2,3) a(2)]) (use above_ops [OF a(1)] in blast)+
  then show ?thesis using slot_take [OF assms(3)] a(3) by metis
qed

lemma published_image:
  assumes "published s k sync old f" "crash_image f img" "k < 2"
  shows "slot s (1 - k) img = slot s (1 - k) old"
proof -
  have a: "2 * s \<le> length (fo_synced f)" "slot s (1 - k) (fo_synced f) = slot s (1 - k) old"
    "list_all (meta_op s (k * s)) (fo_unsynced f)"
    using assms(1) by (auto simp: published_def)
  have w: "2 * s \<le> off \<or> off + length d \<le> (1 - k) * s \<or> (1 - k + 1) * s \<le> off" if "WriteOp off d \<in> set (fo_unsynced f)" for off d
  proof -
    have "meta_op s (k * s) (WriteOp off d)" using a(3) that by (simp add: list_all_iff)
    then have "2 * s \<le> off \<or> (off = k * s \<and> length d \<le> s)" by (auto simp: meta_op_def above_def)
    moreover have "k = 0 \<or> k = 1" using assms(3) by auto
    ultimately show ?thesis by auto
  qed
  have "meta_op s (k * s) (TruncOp n) \<Longrightarrow> 2 * s \<le> n" for n by (simp add: meta_op_def above_def)
  then have t: "TruncOp n \<in> set (fo_unsynced f) \<Longrightarrow> 2 * s \<le> n" for n using a(3) by (simp add: list_all_iff)
  show ?thesis using slot_image [OF assms(2) _ a(1) w t] assms(3) a(2) by simp
qed

lemma durable_image:
  assumes "durable_meta s k buf f" "crash_image f img" "k < 2"
  shows "slot s k img = buf"
  using slot_image [OF assms(2,3), of s] assms(1) unfolding durable_meta_def by blast

section \<open>File calls\<close>

lemma untouched_Fdatasync:
  assumes "untouched_metas n old f" "Fdatasync f = (ok, f')"
  shows "untouched_metas n old f' \<and> (ok \<longrightarrow> fo_unsynced f' = [])"
  using assms by (auto simp: Fdatasync_def untouched_metas_def called_def split: io_outcome.splits)

lemma slot_write:
  assumes "k < 2" "length d \<le> s" "2 * s \<le> length b"
  shows "slot s (1 - k) (file_write b (k * s) d) = slot s (1 - k) b"
    "length d = s \<Longrightarrow> slot s k (file_write b (k * s) d) = d"
proof -
  have "k = 0 \<or> k = 1" using assms(1) by auto
  then have "k * s + length d \<le> length b" "file_write b (k * s) d = overwrite b (k * s) d"
    using assms(2,3) by (auto simp: file_write_def)
  then show "length d = s \<Longrightarrow> slot s k (file_write b (k * s) d) = d" by (simp add: slot_def field_overwrite_same)
  show "slot s (1 - k) (file_write b (k * s) d) = slot s (1 - k) b"
    using \<open>k = 0 \<or> k = 1\<close> assms(2,3) \<open>file_write b (k * s) d = overwrite b (k * s) d\<close>
    by (auto simp: slot_def field_overwrite_after field_overwrite_before)
qed

lemma length_file_write_ge: "n \<le> length b \<Longrightarrow> n \<le> length (file_write b off d)"
  using length_file_write [of b off d] by simp

lemma published_write:
  assumes u: "untouched_metas (2 * s) old f" and k: "k < 2" and d: "length d \<le> s"
    and sync: "sync \<Longrightarrow> fo_unsynced f = []"
  shows "published s k sync old (put_bytes (k * s) d (called f))"
proof -
  have a: "2 * s \<le> length (fo_synced f)" "2 * s \<le> length (fo_bytes f)" "take (2 * s) (fo_synced f) = take (2 * s) old"
    "take (2 * s) (fo_bytes f) = take (2 * s) old" "list_all (above (2 * s)) (fo_unsynced f)"
    using u by (auto simp: untouched_metas_def)
  have k': "1 - k < 2" by simp
  have "slot s (1 - k) (fo_bytes f) = slot s (1 - k) old" "slot s (1 - k) (fo_synced f) = slot s (1 - k) old"
    using slot_take [OF k'] a(3,4) by metis+
  moreover have "list_all (meta_op s (k * s)) (fo_unsynced f)" using a(5) by (auto simp: list_all_iff meta_op_def)
  ultimately show ?thesis
    using a sync d slot_write(1) [OF k d a(2)] length_file_write_ge [OF a(2)]
    by (auto simp: published_def put_bytes_def called_def meta_op_def only_at_def)
qed

lemma published_Fdatasync:
  assumes "published s k sync old f" "Fdatasync f = (ok, f')"
  shows "published s k sync old f' \<and> fo_bytes f' = fo_bytes f \<and>
    (ok \<longrightarrow> fo_unsynced f' = [] \<and> fo_synced f' = fo_bytes f)"
  using assms by (auto simp: Fdatasync_def published_def called_def split: io_outcome.splits)

lemma Truncate_view:
  "Truncate n f = (ok, f') \<Longrightarrow> fo_synced f' = fo_synced f \<and>
     (fo_bytes f' = fo_bytes f \<and> fo_unsynced f' = fo_unsynced f \<or>
      fo_bytes f' = file_truncate (fo_bytes f) n \<and> fo_unsynced f' = fo_unsynced f @ [TruncOp n])"
  by (auto simp: Truncate_def called_def split: io_outcome.splits)

lemma published_Truncate:
  assumes p: "published s k sync old f" and t: "Truncate n f = (ok, f')" and n: "2 * s \<le> n"
  shows "published s k sync old f'"
proof -
  have l: "2 * s \<le> length (fo_bytes f)" using p by (simp add: published_def)
  have "take (2 * s) (file_truncate (fo_bytes f) n) = take (2 * s) (fo_bytes f)"
    using n l by (simp add: file_truncate_def min_def)
  then have "slot s (1 - k) (file_truncate (fo_bytes f) n) = slot s (1 - k) (fo_bytes f)"
    using slot_take [of "1 - k" s] by (metis diff_le_self le_imp_less_Suc numeral_2_eq_2 One_nat_def)
  moreover have "2 * s \<le> length (file_truncate (fo_bytes f) n)" using n l by (simp add: file_truncate_def)
  ultimately show ?thesis
    using p n Truncate_view [OF t] by (auto simp: published_def meta_op_def above_def only_at_def)
qed

lemma durable_Truncate:
  "durable_meta s k buf f \<Longrightarrow> Truncate n f = (ok, f') \<Longrightarrow> 2 * s \<le> n \<Longrightarrow> durable_meta s k buf f'"
  using Truncate_view [of n f ok f'] by (auto simp: durable_meta_def)

section \<open>Triples with an error postcondition on the file\<close>

definition hx :: "(FileOps \<Rightarrow> bool) \<Rightarrow> (Pager \<Rightarrow> bool) \<Rightarrow> 'a pm \<Rightarrow> ('a \<Rightarrow> Pager \<Rightarrow> bool) \<Rightarrow> bool" where
  "hx E P m Q \<longleftrightarrow> (\<forall>p r p'. P p \<longrightarrow> m p = (r, p') \<longrightarrow> (case r of Inl _ \<Rightarrow> E (fops p') | Inr x \<Rightarrow> Q x p'))"

lemma hxI: "(\<And>p r p'. P p \<Longrightarrow> m p = (r, p') \<Longrightarrow> case r of Inl _ \<Rightarrow> E (fops p') | Inr x \<Rightarrow> Q x p') \<Longrightarrow> hx E P m Q"
  unfolding hx_def by blast

lemma hxD: "hx E P m Q \<Longrightarrow> P p \<Longrightarrow> m p = (r, p') \<Longrightarrow> case r of Inl _ \<Rightarrow> E (fops p') | Inr x \<Rightarrow> Q x p'"
  unfolding hx_def by blast

lemma hx_bnd: "hx E P m Q \<Longrightarrow> (\<And>x. hx E (Q x) (f x) S) \<Longrightarrow> hx E P (bnd m f) S"
proof (rule hxI)
  fix p r p'
  assume m: "hx E P m Q" and f: "\<And>x. hx E (Q x) (f x) S" and p: "P p" and e: "bnd m f p = (r, p')"
  obtain a q where a: "m p = (a, q)" by (cases "m p")
  show "case r of Inl _ \<Rightarrow> E (fops p') | Inr x \<Rightarrow> S x p'"
  proof (cases a)
    case (Inl err)
    then show ?thesis using hxD [OF m p a] e a by (auto simp: bnd_def)
  next
    case (Inr x)
    then have "f x q = (r, p')" using e a by (simp add: bnd_def)
    then show ?thesis using hxD [OF f, of x q r p'] hxD [OF m p a] Inr by simp
  qed
qed

lemma hx_upd: "(\<And>p. P p \<Longrightarrow> Q () (f p)) \<Longrightarrow> hx E P (upd f) Q"
  by (auto simp: hx_def upd_def)

lemma hx_ret: "(\<And>p. P p \<Longrightarrow> Q x p) \<Longrightarrow> hx E P (ret x) Q"
  by (auto simp: hx_def ret_def)

lemma with_bitmap_fops: "with_bitmap f p = (r, p') \<Longrightarrow> fops p' = fops p"
  by (auto simp: with_bitmap_def split: option.splits sum.splits)

lemma poolPut_fops [simp]: "fops (poolPut b p) = fops p"
  by (simp add: poolPut_def)

lemma fold_poolPut_fops: "fops (fold (\<lambda>x p. poolPut (f x p) p) xs p) = fops p"
  by (induction xs arbitrary: p) simp_all

lemma ReleaseAll_fops [simp]: "fops (ReleaseAll env p) = fops p"
proof -
  have "fops (fold poolPut bs q) = fops q" for bs q using fold_poolPut_fops [of "\<lambda>x _. x" bs q] by simp
  then show ?thesis by (simp add: ReleaseAll_def Let_def fold_poolPut_fops)
qed

lemma AbortTx_fops: "AbortTx env p = (r, p') \<Longrightarrow> fops p' = fops p"
proof -
  have r: "restoreCore c q = (x, q') \<Longrightarrow> fops q' = fops q" for c q x q'
    by (auto simp: restoreCore_def bnd_def upd_def throw_def split: prod.splits sum.splits option.splits dest: with_bitmap_fops)
  show "AbortTx env p = (r, p') \<Longrightarrow> fops p' = fops p"
    by (auto simp: AbortTx_def bnd_def upd_def Let_def ResetFreespace_def split: prod.splits sum.splits option.splits if_splits dest: r)
qed

lemma hx_or_abort: "hx E P m Q \<Longrightarrow> hx E P (or_abort env w m) Q"
proof (rule hxI)
  fix p r p'
  assume m: "hx E P m Q" and p: "P p" and e: "or_abort env w m p = (r, p')"
  obtain a q where a: "m p = (a, q)" by (cases "m p")
  show "case r of Inl _ \<Rightarrow> E (fops p') | Inr x \<Rightarrow> Q x p'"
    using hxD [OF m p a] e a
    by (auto simp: or_abort_def split: sum.splits if_splits prod.splits dest: AbortTx_fops)
qed

section \<open>The stages of a commit\<close>

definition ready :: "nat \<Rightarrow> bytes \<Rightarrow> Pager \<Rightarrow> bool" where
  "ready s old p \<longleftrightarrow> data_inv p \<and> ps p = s \<and> untouched_metas (2 * s) old (fops p)"

definition good_meta :: "Env \<Rightarrow> CommitParams \<Rightarrow> Meta \<Rightarrow> bytes \<Rightarrow> bool" where
  "good_meta env cp m buf \<longleftrightarrow>
     DecodeMeta buf = Inr m \<and> VerifyMeta (xxh3 env) buf = Inr True \<and> Uint64 buf metaOffTxnID = cp_NewTxnID cp \<and> m_TxnID m = cp_NewTxnID cp"

definition pub :: "Env \<Rightarrow> CommitParams \<Rightarrow> nat \<Rightarrow> nat \<Rightarrow> bool \<Rightarrow> bytes \<Rightarrow> Meta \<Rightarrow> Pager \<Rightarrow> bool" where
  "pub env cp s k sync old m p \<longleftrightarrow>
     published s k sync old (fops p) \<and> 2 \<le> highWaterMark p \<and> ps p = s \<and> good_meta env cp m (slot s k (fo_bytes (fops p)))"

definition settled_meta :: "Env \<Rightarrow> CommitParams \<Rightarrow> nat \<Rightarrow> nat \<Rightarrow> Meta \<Rightarrow> FileOps \<Rightarrow> bool" where
  "settled_meta env cp s k m f \<longleftrightarrow> (cp_Sync cp = SyncBoth \<longrightarrow> (\<exists>buf. good_meta env cp m buf \<and> durable_meta s k buf f))"

lemma quiet_ready: "ready s old p \<Longrightarrow> quiet p p' \<Longrightarrow> ready s old p'"
proof -
  assume r: "ready s old p" and q: "quiet p p'"
  have i: "data_inv p" "ps p = s" "untouched_metas (2 * s) old (fops p)" using r by (simp_all add: ready_def)
  then have q': "data_inv p'" "cfg p' = cfg p" "fo_synced (fops p') = fo_synced (fops p)"
      "take (2 * s) (fo_bytes (fops p')) = take (2 * s) (fo_bytes (fops p))"
      "\<exists>ops. fo_unsynced (fops p') = fo_unsynced (fops p) @ ops \<and> list_all (above (2 * s)) ops"
    using q by (auto simp: quiet_def)
  moreover have "ps p' = s" using q'(2) i(2) by (simp add: ps_def)
  moreover have "2 * s \<le> length (fo_bytes (fops p'))" using q'(1) calculation(6) by (simp add: data_inv_def)
  ultimately show ?thesis using i(3) by (auto simp: ready_def untouched_metas_def)
qed

lemma hx_quiet:
  assumes "qop m any"
  shows "hx (safe_file s k sync old) (ready s old) m (\<lambda>_. ready s old)"
proof (rule hxI)
  fix p r p' assume p: "ready s old p" and e: "m p = (r, p')"
  have "data_inv p" using p by (simp add: ready_def)
  then have "ready s old p'" using quiet_ready [OF p] iopD [OF assms] e by blast
  then show "case r of Inl _ \<Rightarrow> safe_file s k sync old (fops p') | Inr x \<Rightarrow> ready s old p'"
    by (simp add: ready_def safe_file_def split: sum.splits)
qed

lemma data_inv_fops:
  "data_inv p \<Longrightarrow> length (fo_bytes f) = length (fo_bytes (fops p)) \<Longrightarrow> data_inv (p\<lparr>fops := f\<rparr>)"
  by (simp add: data_inv_def ps_def)

lemma data_inv_epoch [simp]: "data_inv (advanceAnchoredEpoch e p) = data_inv p"
  by (simp add: advanceAnchoredEpoch_def data_inv_def ps_def)

lemma epoch_fields [simp]:
  "fops (advanceAnchoredEpoch e p) = fops p" "ps (advanceAnchoredEpoch e p) = ps p"
  "highWaterMark (advanceAnchoredEpoch e p) = highWaterMark p"
  by (simp_all add: advanceAnchoredEpoch_def ps_def)

lemma length_Fdatasync: "Fdatasync f = (ok, f') \<Longrightarrow> length (fo_bytes f') = length (fo_bytes f)"
  by (auto simp: Fdatasync_def called_def split: io_outcome.splits)

lemma hx_data_sync:
  assumes "sync \<longleftrightarrow> cp_Sync cp \<noteq> SyncNone"
  shows "hx (safe_file s k sync old) (ready s old) (data_sync env cp prev)
    (\<lambda>_ p. ready s old p \<and> (sync \<longrightarrow> fo_unsynced (fops p) = []))"
proof (cases sync)
  case True
  have "hx (safe_file s k sync old) (ready s old) fdatasync (\<lambda>_ p. ready s old p \<and> fo_unsynced (fops p) = [])"
  proof (rule hxI)
    fix p r p' assume p: "ready s old p" and e: "fdatasync p = (r, p')"
    obtain ok f where f: "Fdatasync (fops p) = (ok, f)" by (cases "Fdatasync (fops p)")
    have "p' = p\<lparr>fops := f\<rparr>" "r = (if ok then Inr () else Inl ErrFdatasync)" using e f by (simp_all add: fdatasync_def)
    moreover have "ready s old (p\<lparr>fops := f\<rparr>) \<and> (ok \<longrightarrow> fo_unsynced f = [])"
      using p untouched_Fdatasync [OF _ f, of "2 * s" old] length_Fdatasync [OF f] data_inv_fops by (simp add: ready_def ps_def)
    ultimately show "case r of Inl _ \<Rightarrow> safe_file s k sync old (fops p') | Inr x \<Rightarrow> ready s old p' \<and> fo_unsynced (fops p') = []"
      by (simp add: ready_def safe_file_def)
  qed
  then show ?thesis
    using True assms unfolding data_sync_def
    by (auto intro!: hx_bnd [OF hx_or_abort] hx_upd simp: ready_def)
next
  case False
  then show ?thesis using assms by (auto simp: data_sync_def intro: hx_ret)
qed

lemma ready_safe: "ready s old p \<Longrightarrow> safe_file s k sync old (fops p)"
  by (simp add: ready_def safe_file_def)

lemma hx_publish:
  assumes "k < 2" "232 \<le> s" "length (m_UUID prev) = 16"
  shows "hx (safe_file s k sync old) (\<lambda>p. ready s old p \<and> (sync \<longrightarrow> fo_unsynced (fops p) = []))
    (publish env cp prev k) (pub env cp s k sync old)"
proof (rule hxI)
  fix p r p'
  assume p: "ready s old p \<and> (sync \<longrightarrow> fo_unsynced (fops p) = [])" and e: "publish env cp prev k p = (r, p')"
  let ?m = "buildNewMeta cp prev p"
  have s: "ps p = s" and i: "data_inv p" and u: "untouched_metas (2 * s) old (fops p)" using p by (simp_all add: ready_def)
  have uu: "length (m_UUID ?m) = 16" "m_TxnID ?m = cp_NewTxnID cp" using assms(3) by (simp_all add: buildNewMeta_def Let_def)
  obtain buf where buf: "EncodeMeta (xxh3 env) (replicate s 0) ?m = Inr (buf, ?m\<lparr>m_Checksum := xxh3 env (meta_prefix ?m)\<rparr>)"
    "written_meta (xxh3 env) ?m buf" "length buf = s"
    using encode_meta_ok [of "replicate s 0" ?m] assms(2) uu(1) by auto
  define nm where "nm = ?m\<lparr>m_Checksum := xxh3 env (meta_prefix ?m)\<rparr>"
  have g: "good_meta env cp nm buf" using buf(2) uu(2) by (simp add: good_meta_def written_meta_def nm_def)
  obtain x q where x: "or_abort env (\<lambda>e. e) (write_at buf (k * s)) p = (x, q)" by (cases "or_abort env (\<lambda>e. e) (write_at buf (k * s)) p")
  have hw: "hx (safe_file s k sync old) (\<lambda>q. q = p) (write_at buf (k * s))
      (\<lambda>_ q. q = p\<lparr>fops := put_bytes (k * s) buf (called (fops p))\<rparr>)"
  proof (rule hxI)
    fix p1 r q assume "p1 = p" "write_at buf (k * s) p1 = (r, q)"
    moreover have "published s k sync old (put_bytes (k * s) (take n buf) (called (fops p)))" for n
      using published_write [OF u assms(1), of "take n buf" sync] buf(3) p by simp
    ultimately show "case r of Inl _ \<Rightarrow> safe_file s k sync old (fops q) | Inr x \<Rightarrow> q = p\<lparr>fops := put_bytes (k * s) buf (called (fops p))\<rparr>"
      by (auto simp: write_at_def WriteAt_def safe_file_def split: io_outcome.splits)
  qed
  note w = hxD [OF hx_or_abort [OF hw] refl x]
  have pb: "published s k sync old (put_bytes (k * s) buf (called (fops p)))"
    using published_write [OF u assms(1), of buf sync] buf(3) p by simp
  have sl: "slot s k (fo_bytes (put_bytes (k * s) buf (called (fops p)))) = buf"
    using slot_write(2) [OF assms(1), of buf s] buf(3) u by (simp add: put_bytes_def called_def untouched_metas_def)
  show "case r of Inl _ \<Rightarrow> safe_file s k sync old (fops p') | Inr x \<Rightarrow> pub env cp s k sync old x p'"
  proof (cases x)
    case (Inl err)
    then have "r = Inl err" "p' = q" using e x buf(1) s by (simp_all add: publish_def lift_page_def bnd_def ret_def)
    then show ?thesis using w Inl by simp
  next
    case (Inr y)
    then have "r = Inr nm" "p' = noteAdoptedMeta nm (int k) q" using e x buf(1) s
      by (simp_all add: publish_def lift_page_def bnd_def ret_def upd_def nm_def)
    then show ?thesis using w Inr pb sl g s i by (simp add: pub_def noteAdoptedMeta_def ps_def data_inv_def)
  qed
qed

lemma hx_meta_sync:
  "hx (safe_file s k sync old) (pub env cp s k sync old m) (meta_sync env cp m)
    (\<lambda>_ p. pub env cp s k sync old m p \<and> settled_meta env cp s k m (fops p))"
proof (cases "cp_Sync cp = SyncBoth")
  case True
  have "hx (safe_file s k sync old) (pub env cp s k sync old m) fdatasync
     (\<lambda>_ p. pub env cp s k sync old m p \<and> settled_meta env cp s k m (fops p))"
  proof (rule hxI)
    fix p r p' assume p: "pub env cp s k sync old m p" and e: "fdatasync p = (r, p')"
    obtain ok f where f: "Fdatasync (fops p) = (ok, f)" by (cases "Fdatasync (fops p)")
    have r: "p' = p\<lparr>fops := f\<rparr>" "r = (if ok then Inr () else Inl ErrFdatasync)" using e f by (simp_all add: fdatasync_def)
    have q: "published s k sync old f" "fo_bytes f = fo_bytes (fops p)" "ok \<longrightarrow> fo_unsynced f = [] \<and> fo_synced f = fo_bytes f"
      using p published_Fdatasync [OF _ f] by (auto simp: pub_def)
    then have "pub env cp s k sync old m p'" using p r(1) by (simp add: pub_def ps_def)
    moreover have "ok \<longrightarrow> settled_meta env cp s k m f"
      using p q by (auto simp: settled_meta_def pub_def durable_meta_def published_def)
    ultimately show "case r of Inl _ \<Rightarrow> safe_file s k sync old (fops p')
        | Inr x \<Rightarrow> pub env cp s k sync old m p' \<and> settled_meta env cp s k m (fops p')"
      using r q(1) by (simp add: safe_file_def)
  qed
  then show ?thesis
    using True unfolding meta_sync_def
    by (auto intro!: hx_bnd [OF hx_or_abort] hx_upd simp: pub_def)
next
  case False
  then show ?thesis by (auto simp: meta_sync_def settled_meta_def intro: hx_ret)
qed

section \<open>Finishing\<close>

lemma alignUp_ge: "n \<le> alignUp n step"
proof (cases "step = 0")
  case False
  have "n + step - 1 < ((n + step - 1) div step + 1) * step"
    using False dividend_less_div_times [of step "n + step - 1"] by (simp add: algebra_simps)
  then show ?thesis using False by (simp add: alignUp_def algebra_simps)
qed (simp add: alignUp_def)

lemma shrinkTarget_ge: "2 \<le> highWaterMark p \<Longrightarrow> 2 * ps p \<le> shrinkTarget p"
proof -
  assume "2 \<le> highWaterMark p"
  then have "2 \<le> max (alignUp (highWaterMark p) (growStepPages p)) (minSizePages p)"
    using alignUp_ge [of "highWaterMark p" "growStepPages p"] by simp
  then show ?thesis unfolding shrinkTarget_def by (rule mult_le_mono1)
qed

definition committed :: "Env \<Rightarrow> CommitParams \<Rightarrow> nat \<Rightarrow> nat \<Rightarrow> bool \<Rightarrow> bytes \<Rightarrow> Meta \<Rightarrow> Pager \<Rightarrow> bool" where
  "committed env cp s k sync old m p \<longleftrightarrow> published s k sync old (fops p) \<and> settled_meta env cp s k m (fops p)"

lemma hx_shrink:
  "hx E (\<lambda>p. pub env cp s k sync old m p \<and> settled_meta env cp s k m (fops p)) (upd (maybeShrink t)) (\<lambda>_. committed env cp s k sync old m)"
proof (rule hx_upd)
  fix p assume p: "pub env cp s k sync old m p \<and> settled_meta env cp s k m (fops p)"
  then have t: "2 * s \<le> shrinkTarget p" using shrinkTarget_ge [of p] by (auto simp: pub_def)
  have tr: "published s k sync old f' \<and> settled_meta env cp s k m f'" if "Truncate (shrinkTarget p) (fops p) = (ok, f')" for ok f'
    using p published_Truncate [OF _ that t] durable_Truncate [OF _ that t] unfolding pub_def settled_meta_def by blast
  show "committed env cp s k sync old m (maybeShrink t p)" for t
    using p tr by (auto simp: committed_def maybeShrink_def pub_def Let_def split: prod.splits option.splits)
qed

lemma hx_fops:
  assumes "\<And>p r p'. m p = (r, p') \<Longrightarrow> fops p' = fops p"
    and "\<And>p. committed env cp s k sync old n p \<Longrightarrow> E (fops p)"
  shows "hx E (committed env cp s k sync old n) m (\<lambda>_. committed env cp s k sync old n)"
proof (rule hxI)
  fix p r p' assume a: "committed env cp s k sync old n p" "m p = (r, p')"
  have f: "fops p' = fops p" using assms(1) a(2) .
  then have "committed env cp s k sync old n p'" using a(1) by (simp add: committed_def)
  then show "case r of Inl _ \<Rightarrow> E (fops p') | Inr x \<Rightarrow> committed env cp s k sync old n p'"
    using assms(2) by (auto split: sum.splits)
qed

lemma hx_finish:
  "hx (safe_file s k sync old) (\<lambda>p. pub env cp s k sync old m p \<and> settled_meta env cp s k m (fops p))
    (finish env prev n) (\<lambda>_. committed env cp s k sync old m)"
proof -
  have E: "committed env cp s k sync old m p \<Longrightarrow> safe_file s k sync old (fops p)" for p by (simp add: committed_def safe_file_def)
  have d: "discardTxSnapshot p = (r, p') \<Longrightarrow> fops p' = fops p" for p r p'
    by (auto simp: discardTxSnapshot_def bnd_def upd_def split: prod.splits sum.splits option.splits if_splits dest: with_bitmap_fops)
  show ?thesis unfolding finish_def
    by (intro hx_bnd [OF hx_shrink] hx_bnd [OF hx_fops] hx_fops E)
      (auto simp: upd_def ResetFreespace_def dest: d with_bitmap_fops)
qed

section \<open>The whole commit\<close>

lemma hx_commit_body:
  assumes "env_ok env" "prevActive < 2" "232 \<le> s" "length (m_UUID prev) = 16"
    and "sync \<longleftrightarrow> cp_Sync cp \<noteq> SyncNone"
  shows "hx (safe_file s (1 - prevActive) sync old) (ready s old) (commit_body env cp prev prevActive)
    (\<lambda>res p. cr_ActiveMetaIdx res = 1 - prevActive \<and> committed env cp s (1 - prevActive) sync old (cr_Meta res) p)"
proof -
  have k: "1 - prevActive < 2" by simp
  show ?thesis unfolding commit_body_def Let_def
    by (intro hx_bnd [OF hx_or_abort [OF hx_quiet [OF qop_commitStep0 [OF assms(1)]]]]
        hx_bnd [OF hx_or_abort [OF hx_quiet [OF qop_commitStep1 [OF assms(1)]]]] hx_bnd [OF hx_data_sync [OF assms(5)]]
        hx_bnd [OF hx_publish [OF k assms(3,4)]] hx_bnd [OF hx_meta_sync] hx_bnd [OF hx_finish] hx_ret) simp
qed

lemma commit_file:
  assumes "env_ok env" "data_inv p" "metas_settled p" "prevActive < 2" "232 \<le> ps p" "length (m_UUID prev) = 16"
    and run: "Commit env cp prev prevActive p = (r, p')"
  shows "safe_file (ps p) (1 - prevActive) (cp_Sync cp \<noteq> SyncNone) (fo_synced (fops p)) (fops p')"
    "r = Inr res \<Longrightarrow> cr_ActiveMetaIdx res = 1 - prevActive \<and>
       settled_meta env cp (ps p) (1 - prevActive) (cr_Meta res) (fops p')"
proof -
  let ?E = "safe_file (ps p) (1 - prevActive) (cp_Sync cp \<noteq> SyncNone) (fo_synced (fops p))"
  have u: "untouched_metas (2 * ps p) (fo_synced (fops p)) (fops p)"
    using assms(2,3) by (simp add: untouched_metas_def metas_settled_def data_inv_def)
  have "ready (ps p) (fo_synced (fops p)) (p\<lparr>inCommit := True\<rparr>)"
    using assms(2) u by (simp add: ready_def data_inv_def ps_def)
  note body = hxD [OF hx_commit_body [OF assms(1,4,5,6) refl] this]
  consider "r = Inl ErrReadOnly \<or> r = Inl ErrFreespaceUnconfigured \<or> r = Inl ErrTxnIDOrder" "p' = p"
    | q where "commit_body env cp prev prevActive (p\<lparr>inCommit := True\<rparr>) = (r, q)" "p' = q\<lparr>inCommit := False\<rparr>"
    using run by (auto simp: Commit_def writable_def split: if_splits prod.splits)
  then have "(case r of Inl _ \<Rightarrow> ?E (fops p') | Inr res \<Rightarrow> cr_ActiveMetaIdx res = 1 - prevActive \<and>
      committed env cp (ps p) (1 - prevActive) (cp_Sync cp \<noteq> SyncNone) (fo_synced (fops p)) (cr_Meta res) p')"
  proof cases
    case 1
    then show ?thesis using u by (auto simp: safe_file_def)
  next
    case 2
    then show ?thesis using body [OF 2(1)] by (simp add: committed_def split: sum.splits)
  qed
  then show "?E (fops p')" "r = Inr res \<Longrightarrow> cr_ActiveMetaIdx res = 1 - prevActive \<and>
       settled_meta env cp (ps p) (1 - prevActive) (cr_Meta res) (fops p')"
    by (auto simp: committed_def safe_file_def split: sum.splits)
qed

end
