(* ===== verification/Commit_Props.thy ===== *)
theory Commit_Props
  imports Commit_Crash Pager_Demo
begin

text \<open>Crash safety and durability of a commit, with their instances on a concrete pager.\<close>

section \<open>A commit on the concrete pager\<close>

definition demo_page :: bytes where
  "demo_page = (case EncodeMeta (xxh3 demo_env) (replicate 4096 0) (demo_meta 1) of Inr (b, _) \<Rightarrow> b | Inl _ \<Rightarrow> [])"

definition demo_disk :: bytes where
  "demo_disk = demo_page @ replicate (99 * 4096) 0"

definition demo_clean :: Pager where
  "demo_clean = demo_pager\<lparr>slab := Map.empty, pendingAllocs := {}, highWaterMark := 3, dirtyBytes := 0,
     fops := demo_fops\<lparr>fo_bytes := demo_disk, fo_synced := demo_disk\<rparr>\<rparr>"

definition demo_commit :: CommitParams where
  "demo_commit = \<lparr>cp_NewTxnID = 2, cp_KeyspaceRoot = 3, cp_NumKeyspaces = 0, cp_Flags = 1, cp_Sync = SyncBoth, cp_SetFileFormat = None\<rparr>"

lemma demo_uuid: "length (m_UUID (demo_meta t)) = 16"
  by (simp add: demo_meta_def)

lemma demo_page_facts: "length demo_page = 4096" "VerifyMeta (xxh3 demo_env) demo_page = Inr True" "Uint64 demo_page metaOffTxnID = 1"
proof -
  obtain b where b: "EncodeMeta (xxh3 demo_env) (replicate 4096 0) (demo_meta 1) = Inr (b, (demo_meta 1)\<lparr>m_Checksum := xxh3 demo_env (meta_prefix (demo_meta 1))\<rparr>)"
    "written_meta (xxh3 demo_env) (demo_meta 1) b" "length b = 4096"
    using encode_meta_ok [of "replicate 4096 0" "demo_meta 1" "xxh3 demo_env"] demo_uuid by auto
  then have "demo_page = b" by (simp add: demo_page_def)
  moreover have "m_TxnID (demo_meta 1) = 1" by (simp add: demo_meta_def)
  ultimately show "length demo_page = 4096" "VerifyMeta (xxh3 demo_env) demo_page = Inr True" "Uint64 demo_page metaOffTxnID = 1"
    using b(2,3) by (simp_all add: written_meta_def)
qed

lemma demo_slot: "slot 4096 0 demo_disk = demo_page"
  by (simp add: slot_def field_def demo_disk_def demo_page_facts)

lemma demo_ps: "ps demo_pager = 4096" "ps demo_clean = 4096"
  by (simp_all add: ps_def demo_pager_def demo_clean_def demo_cfg_def)

lemma demo_data_inv: "data_inv demo_pager" "data_inv demo_clean"
proof -
  have f: "length (fo_bytes (fops demo_pager)) = 409600" "length (fo_bytes (fops demo_clean)) = 409600"
    by (simp_all add: demo_pager_def demo_clean_def demo_fops_def demo_disk_def demo_page_facts)
  show "data_inv demo_pager" "data_inv demo_clean"
    using f demo_facts(3) unfolding data_inv_def demo_ps by (simp_all add: demo_pager_def demo_clean_def)
qed

lemma demo_settled: "metas_settled demo_pager" "metas_settled demo_clean"
proof -
  show "metas_settled demo_pager"
    unfolding metas_settled_def demo_ps by (simp add: demo_pager_def demo_fops_def)
  show "metas_settled demo_clean"
    unfolding metas_settled_def demo_ps by (simp add: demo_clean_def demo_fops_def demo_disk_def demo_page_facts)
qed

section \<open>Properties\<close>


lemma synced_image: "crash_image f (fo_synced f)"
  by (simp add: crash_image_def)


text \<open>
  C2. Durability. When a commit with both syncs returns, then after a crash with any mixture of
  unsynced bytes the selected meta is the one it returned: it verifies, decodes to the returned
  meta and carries the new transaction id; and no write is left unsynced, only a truncation can be.
\<close>

theorem commit_durable:
  assumes "env_ok env" "data_inv p" "metas_settled p" "prevActive < 2" "232 \<le> ps p" "length (m_UUID prev) = 16"
    and "Commit env cp prev prevActive p = (Inr res, p')" "cp_Sync cp = SyncBoth" "crash_image (fops p') img"
    and "VerifyMeta (xxh3 env) (slot (ps p) prevActive (fo_synced (fops p))) = Inr True"
    and "Uint64 (slot (ps p) prevActive (fo_synced (fops p))) metaOffTxnID = m_TxnID prev"
  shows "ActiveMeta (xxh3 env) (slot (ps p) 0 img) (slot (ps p) 1 img) = Inr (cr_ActiveMetaIdx res, True) \<and>
    DecodeMeta (slot (ps p) (cr_ActiveMetaIdx res) img) = Inr (cr_Meta res) \<and> m_TxnID (cr_Meta res) = cp_NewTxnID cp \<and>
    (\<forall>op \<in> set (fo_unsynced (fops p')). \<exists>n. op = TruncOp n)"
proof -
  let ?old = "fo_synced (fops p)" and ?s = "ps p" and ?k = "1 - prevActive"
  have k: "prevActive = 1 - ?k" "?k < 2" using assms(4) by auto
  have "safe_file ?s ?k (cp_Sync cp \<noteq> SyncNone) ?old (fops p')" by (rule commit_file(1) [OF assms(1-7)])
  then have s: "slot ?s prevActive img = slot ?s prevActive ?old"
    using untouched_image [OF _ assms(9,4)] published_image [OF _ assms(9) k(2)] k(1) unfolding safe_file_def by metis
  obtain buf where b: "good_meta env cp (cr_Meta res) buf" "durable_meta ?s ?k buf (fops p')" "cr_ActiveMetaIdx res = ?k"
    using commit_file(2) [OF assms(1-7) refl] assms(8) by (auto simp: settled_meta_def)
  have new: "slot ?s ?k img = buf" by (rule durable_image [OF b(2) assms(9) k(2)])
  have "m_TxnID prev < cp_NewTxnID cp"
    using assms(7) by (auto simp: Commit_def writable_def not_le split: if_splits prod.splits)
  moreover have "prevActive = 0 \<or> prevActive = 1" using assms(4) by auto
  ultimately have "ActiveMeta (xxh3 env) (slot ?s 0 img) (slot ?s 1 img) = Inr (?k, True)"
    using s new b(1) assms(10,11) by (auto simp: ActiveMeta_def good_meta_def pickHighestTxnID_def)
  moreover have "\<forall>op \<in> set (fo_unsynced (fops p')). \<exists>n. op = TruncOp n" using b(2) unfolding durable_meta_def by blast
  ultimately show ?thesis using new b(1,3) by (simp add: good_meta_def)
qed

text \<open>A commit with nothing to write, on a file that accepts every call, returns.\<close>

definition empty_tx :: "Bitmap \<Rightarrow> Pager \<Rightarrow> bool" where
  "empty_tx b p \<longleftrightarrow>
     \<not> readOnly p \<and> bmap p = Some b \<and> highWaterMark p \<le> firstDataPage b \<and> dirty b = {} \<and> loosePages p = {} \<and>
     slab p = Map.empty \<and> rplRelocFloor p = 0 \<and> retiredPages p = []"

definition idle :: "Bitmap \<Rightarrow> Pager \<Rightarrow> bool" where
  "idle b p \<longleftrightarrow> empty_tx b p \<and> txSnapshot p = None \<and> detachedBufs p = [] \<and> fo_outcome (fops p) = (\<lambda>_. IoOK)"

lemma empty_steps:
  assumes "env_ok env" "empty_tx b p"
  shows "commitStep0 env p = (Inr (), p)" "commitStep1 env p = (Inr 0, p)"
proof -
  have r: "rangeOrder env {} = []" using assms(1) unfolding env_ok_def by (metis finite.emptyI set_empty)
  show "commitStep0 env p = (Inr (), p)" "commitStep1 env p = (Inr 0, p)"
    using assms(2) r
    by (simp_all add: empty_tx_def commitStep0_def commitStep1_def TailRefund_def writable_def relocateRPLPrefix_def
        bnd_def get_bitmap_def ret_def upd_def DirtyPages_def)
qed

lemma idle_sync: "idle b p \<Longrightarrow> \<exists>p'. fdatasync p = (Inr (), p') \<and> idle b p' \<and> cfg p' = cfg p"
  by (auto simp: idle_def empty_tx_def fdatasync_def Fdatasync_def next_outcome_def called_def)

lemma idle_write: "idle b p \<Longrightarrow> \<exists>p'. write_at d off p = (Inr (), p') \<and> idle b p' \<and> cfg p' = cfg p"
  by (auto simp: idle_def empty_tx_def write_at_def WriteAt_def next_outcome_def called_def put_bytes_def)

lemma idle_epoch: "idle b (advanceAnchoredEpoch e p) = idle b p" "cfg (advanceAnchoredEpoch e p) = cfg p"
  by (simp_all add: idle_def empty_tx_def advanceAnchoredEpoch_def)

lemma idle_commit:
  assumes "env_ok env" "idle b p" "cp_Sync cp = SyncBoth" "m_TxnID prev < cp_NewTxnID cp" "232 \<le> ps p"
    and "length (m_UUID prev) = 16" "m_ShrinkThreshold prev = 0"
  shows "\<exists>res p'. Commit env cp prev k p = (Inr res, p')"
proof -
  let ?p = "p\<lparr>inCommit := True\<rparr>"
  have i: "idle b ?p" using assms(2) by (simp add: idle_def empty_tx_def)
  obtain p1 where p1: "fdatasync ?p = (Inr (), p1)" "idle b p1" "cfg p1 = cfg p" using idle_sync [OF i] by auto
  define p2 where "p2 = advanceAnchoredEpoch (unat (d_TxnID (m_Durable prev))) p1"
  have p2: "idle b p2" "ps p2 = ps p" using p1 by (simp_all add: p2_def idle_epoch ps_def)
  obtain buf m where m: "EncodeMeta (xxh3 env) (replicate (ps p) 0) (buildNewMeta cp prev p2) = Inr (buf, m)"
    using encode_meta_ok [of "replicate (ps p) 0" "buildNewMeta cp prev p2" "xxh3 env"] assms(5,6)
    by (auto simp: buildNewMeta_def Let_def)
  obtain p3 where p3: "write_at buf ((1 - k) * ps p) p2 = (Inr (), p3)" "idle b p3" using idle_write [OF p2(1)] by blast
  define p4 where "p4 = noteAdoptedMeta m (int (1 - k)) p3"
  have p4: "idle b p4" using p3(2) by (simp add: p4_def noteAdoptedMeta_def idle_def empty_tx_def)
  obtain p5 where p5: "fdatasync p4 = (Inr (), p5)" "idle b p5" using idle_sync [OF p4] by auto
  define p6 where "p6 = advanceAnchoredEpoch (unat (d_TxnID (m_Durable m))) p5"
  have p6: "idle b p6" using p5(2) by (simp add: p6_def idle_epoch)
  have "publish env cp prev (1 - k) p2 = (Inr m, p4)"
    using m p3(1) p2(2) by (simp add: publish_def lift_page_def or_abort_def pm_defs p4_def)
  moreover have "data_sync env cp prev ?p = (Inr (), p2)" "meta_sync env cp m p4 = (Inr (), p6)"
    using assms(3) p1(1) p5(1) by (simp_all add: data_sync_def meta_sync_def or_abort_def pm_defs p2_def p6_def)
  moreover have "\<exists>q. finish env prev 0 p6 = (Inr (), q)"
    using p6 assms(7) by (simp add: finish_def pm_defs maybeShrink_def shrinkWanted_def discardTxSnapshot_def idle_def empty_tx_def
        with_bitmap_def ReleaseAll_def ResetFreespace_def Let_def split: option.splits)
  then obtain q where "finish env prev 0 p6 = (Inr (), q)" by blast
  ultimately have "commit_body env cp prev k ?p = (Inr \<lparr>cr_Meta = m, cr_ActiveMetaIdx = 1 - k\<rparr>, q)"
    using empty_steps [OF assms(1), of b ?p] i [unfolded idle_def] by (simp add: commit_body_def Let_def or_abort_def pm_defs)
  then show ?thesis using assms(2,4) by (simp add: Commit_def writable_def idle_def empty_tx_def)
qed

theorem commit_durable_witness:
  "\<exists>res p'. Commit demo_env demo_commit (demo_meta 1) 0 demo_clean = (Inr res, p') \<and>
     DecodeMeta (slot 4096 (cr_ActiveMetaIdx res) (fo_synced (fops p'))) = Inr (cr_Meta res) \<and> m_TxnID (cr_Meta res) = 2"
proof -
  have o: "fo_synced (fops demo_clean) = demo_disk" by (simp add: demo_clean_def)
  have t: "m_TxnID (demo_meta 1) = 1" "cp_Sync demo_commit = SyncBoth" "cp_NewTxnID demo_commit = 2" "m_ShrinkThreshold (demo_meta 1) = 0"
    by (simp_all add: demo_meta_def demo_commit_def)
  have "idle demo demo_clean"
    using demo_facts(5) New_ok(5) [OF demo_New] by (simp add: idle_def empty_tx_def demo_clean_def demo_pager_def demo_fops_def)
  then obtain res p' where c: "Commit demo_env demo_commit (demo_meta 1) 0 demo_clean = (Inr res, p')"
    using idle_commit [OF demo_env_ok, of demo demo_clean demo_commit "demo_meta 1" 0] t demo_uuid by (auto simp: demo_ps)
  show ?thesis
    using c commit_durable [OF demo_env_ok demo_data_inv(2) demo_settled(2) _ _ demo_uuid c t(2) synced_image]
      demo_slot demo_page_facts t by (simp add: demo_ps o)
qed

end
