(* ===== verification/Tx_Props.thy ===== *)
theory Tx_Props
  imports Tx_Abort Commit_Props
begin

text \<open>The properties of aborted and failed transactions.\<close>

definition demo_params :: TxParams where
  "demo_params = \<lparr>tp_HighWaterMark = 3, tp_MaxSize = 100, tp_GrowStep = 8, tp_MinSize = 8, tp_TxnID = 2,
     tp_ReclamationBound = None, tp_LaggingReader = None, tp_ShrinkGate = None\<rparr>"

lemma demo_between: "between demo demo_clean"
  using demo_facts(3) by (simp add: between_def demo_clean_def demo_pager_def)

text \<open>
  C7. Begin a transaction on a pager between transactions, run any sequence of calls of the
  transaction body under any I/O outcomes, with savepoints open or not, and abort: the abort
  succeeds and the pager is again between transactions, with the bitmap (up to the counter that
  numbers snapshots), the high-water mark and the retired-page chain of the beginning.
\<close>

theorem abort_restores:
  assumes "between b p" "env_ok env" "BeginTx params p = (r, p1)" "(body_op env)\<^sup>*\<^sup>* p1 p2"
  shows "\<exists>p3 n. AbortTx env p2 = (Inr (), p3) \<and> between (b\<lparr>nextSnap := n\<rparr>) p3 \<and>
    highWaterMark p3 = tp_HighWaterMark params \<and> rplSegments p3 = rplSegments p \<and> currentTxnID p3 = 0"
proof -
  obtain s b1 where s: "takeSnapshot b = (s, b1)" "sp_inv p1"
     "tx_snap b1 \<lparr>sc_bitmap = Some s, sc_highWaterMark = tp_HighWaterMark params, sc_rplSegments = rplSegments p\<rparr>
       (map Some (openSnapshots b) @ [Some s]) p1"
    using BeginTx_snap [OF assms(1,3)] by blast
  have "bm_inv b" using assms(1) by (simp add: between_def)
  then show ?thesis
    using tx_snap_abort [OF _ s(1) _ conjunct2 [OF tx_snap_run [OF assms(4,2) s(2,3)]], of env] by (auto simp: tx_undone_def)
qed

theorem abort_restores_witness:
  "\<exists>p1 p2 x p3. BeginTx demo_params demo_clean = (Inr (), p1) \<and> AllocPage demo_env p1 = (x, p2) \<and>
     AbortTx demo_env p2 = (Inr (), p3) \<and> highWaterMark p3 = 3 \<and> pendingAllocs p3 = {}"
proof -
  obtain p1 where p1: "BeginTx demo_params demo_clean = (Inr (), p1)"
    using BeginTx_snap [OF demo_between] by (cases "BeginTx demo_params demo_clean") auto
  obtain x p2 where p2: "AllocPage demo_env p1 = (x, p2)" by (cases "AllocPage demo_env p1")
  then have "(body_op demo_env)\<^sup>*\<^sup>* p1 p2" by (blast intro: op_AllocPage)
  then show ?thesis
    using abort_restores [OF demo_between demo_env_ok p1] p1 p2 by (fastforce simp: between_def demo_params_def)
qed

text \<open>
  C6. A commit that fails, in any of its steps, rolls the transaction back: for every error other
  than the rejected transaction id, which is returned before any work, the pager is again between
  transactions with the state of the beginning, as after an abort. (A panic unwinds instead.)
\<close>

theorem failed_commit_restores:
  assumes "between b p" "env_ok env" "BeginTx params p = (r, p1)" "(body_op env)\<^sup>*\<^sup>* p1 p2" "data_inv p2"
    and "Commit env cp prev k p2 = (Inl e, p3)" "\<not> is_panic e" "e \<noteq> ErrTxnIDOrder"
  shows "\<exists>n. between (b\<lparr>nextSnap := n\<rparr>) p3 \<and> highWaterMark p3 = tp_HighWaterMark params \<and>
    rplSegments p3 = rplSegments p \<and> currentTxnID p3 = 0"
proof -
  let ?c = "\<lambda>s. \<lparr>sc_bitmap = Some s, sc_highWaterMark = tp_HighWaterMark params, sc_rplSegments = rplSegments p\<rparr>"
  obtain s b1 where s: "takeSnapshot b = (s, b1)" "sp_inv p1" "tx_snap b1 (?c s) (map Some (openSnapshots b) @ [Some s]) p1"
    using BeginTx_snap [OF assms(1,3)] by blast
  have inv: "bm_inv b" using assms(1) by (simp add: between_def)
  have t: "tx_snap b1 (?c s) (map Some (openSnapshots b) @ [Some s]) p2" using tx_snap_run [OF assms(4,2) s(2,3)] by blast
  then have "\<not> readOnly p2" "bmap p2 \<noteq> None" by (auto simp: tx_snap_def)
  then obtain q where q: "commit_body env cp prev k (p2\<lparr>inCommit := True\<rparr>) = (Inl e, q)" "p3 = q\<lparr>inCommit := False\<rparr>"
    using assms(6,8) by (auto simp: Commit_def writable_def split: if_splits prod.splits)
  have "held p2 p2" using assms(5) by (auto simp: held_def bm_moves_def)
  then have "held p2 (p2\<lparr>inCommit := True\<rparr>)" by (rule held_same) simp_all
  then obtain a where "held p2 a" "AbortTx env a = (Inr (), q)" using commit_body_error [OF assms(2) _ q(1) assms(7)] by blast
  then have "tx_undone b (?c s) q" using held_abort [OF inv s(1) _ t] by simp
  then show ?thesis using q(2) by (auto simp: tx_undone_def between_def)
qed

definition demo_failing :: Pager where
  "demo_failing = demo_clean\<lparr>fops := (fops demo_clean)\<lparr>fo_outcome := (\<lambda>_. IoFail 0)\<rparr>\<rparr>"

lemma sync_failure_commit:
  assumes "env_ok env" "empty_tx b p" "cp_Sync cp = SyncBoth" "m_TxnID prev < cp_NewTxnID cp"
    and "next_outcome (fops p) = IoFail j" "AbortTx env (p\<lparr>inCommit := True, fops := called (fops p)\<rparr>) = (Inr (), q)"
  shows "Commit env cp prev k p = (Inl ErrFdatasync, q\<lparr>inCommit := False\<rparr>)"
proof -
  let ?p = "p\<lparr>inCommit := True\<rparr>"
  have i: "empty_tx b ?p" using assms(2) by (simp add: empty_tx_def)
  have "data_sync env cp prev ?p = (Inl ErrFdatasync, q)"
    using assms(3,5,6) by (simp add: data_sync_def or_abort_def fdatasync_def Fdatasync_def bnd_def)
  then have "commit_body env cp prev k ?p = (Inl ErrFdatasync, q)"
    using empty_steps [OF assms(1) i] by (simp add: commit_body_def Let_def or_abort_def bnd_def)
  then show ?thesis using assms(2,4) by (simp add: Commit_def writable_def empty_tx_def)
qed

theorem failed_commit_restores_witness:
  "\<exists>p1 p3. BeginTx demo_params demo_failing = (Inr (), p1) \<and>
     Commit demo_env demo_commit (demo_meta 1) 0 p1 = (Inl ErrFdatasync, p3) \<and> highWaterMark p3 = 3 \<and> txSnapshot p3 = None"
proof -
  have bt: "between demo demo_failing" using demo_between by (simp add: between_def demo_failing_def)
  obtain s b1 where s: "takeSnapshot demo = (s, b1)" by (cases "takeSnapshot demo")
  define p1 where "p1 = snd (BeginTx demo_params demo_failing)"
  let ?c = "\<lparr>sc_bitmap = Some s, sc_highWaterMark = 3, sc_rplSegments = rplSegments demo_failing\<rparr>"
  obtain r where p1: "BeginTx demo_params demo_failing = (r, p1)" by (cases "BeginTx demo_params demo_failing") (simp add: p1_def)
  have sn: "r = Inr ()" "tx_snap b1 ?c (map Some (openSnapshots demo) @ [Some s]) p1"
    using BeginTx_snap [OF bt p1] s by (auto simp: demo_params_def)
  have f: "p1 = (seedTx demo_params (demo_failing\<lparr>tc := zeroStats, externalReserve := 0, inCommit := False, spillErr := None, verified := []\<rparr>))\<lparr>
      bmap := Some b1, txSnapshot := Some ?c\<rparr>"
    using p1 s by (simp add: BeginTx_def bnd_def upd_def captureCore_def demo_failing_def demo_clean_def demo_pager_def seedTx_def demo_params_def)
  have b1: "dirty b1 = {}" "firstDataPage b1 = 3" "bm_inv b1"
    using s demo_facts(5) New_ok(5) [OF demo_New] step_inv [OF _ demo_facts(3)] step_Snapshot [of demo]
    by (auto simp: takeSnapshot_def Let_def)
  have e: "empty_tx b1 p1"
    unfolding f using b1 by (simp add: empty_tx_def seedTx_def demo_params_def demo_failing_def demo_clean_def demo_pager_def)
  let ?q = "p1\<lparr>inCommit := True, fops := called (fops p1)\<rparr>"
  have "tx_snap b1 ?c (map Some (openSnapshots demo) @ [Some s]) ?q" using sn(2) by (simp add: tx_snap_def snaps_at_def)
  then obtain p3 where p3: "AbortTx demo_env ?q = (Inr (), p3)" using tx_snap_abort [OF demo_facts(3) s, of ?c ?q demo_env] by auto
  have "next_outcome (fops p1) = IoFail 0"
    unfolding f by (simp add: next_outcome_def seedTx_def demo_params_def demo_failing_def)
  then have c: "Commit demo_env demo_commit (demo_meta 1) 0 p1 = (Inl ErrFdatasync, p3\<lparr>inCommit := False\<rparr>)"
    using sync_failure_commit [OF demo_env_ok e _ _ _ p3] by (simp add: demo_commit_def demo_meta_def)
  have l: "length (fo_bytes (fops p1)) = 409600"
    unfolding f by (simp add: seedTx_def demo_params_def demo_failing_def demo_clean_def demo_disk_def demo_page_facts)
  have "ps p1 = 4096" "fileSize p1 = 409600" "2 \<le> highWaterMark p1"
    unfolding f by (simp_all add: ps_def seedTx_def demo_params_def demo_failing_def demo_clean_def demo_pager_def demo_cfg_def)
  then have "data_inv p1" using e b1(3) l by (simp add: data_inv_def empty_tx_def)
  then show ?thesis
    using failed_commit_restores [OF bt demo_env_ok p1 _ _ c] p1 c sn(1) by (auto simp: between_def demo_params_def)
qed

end
