(* ===== verification/Space_Lemmas.thy ===== *)
theory Space_Lemmas
  imports Savepoint
begin

text \<open>
  The space-management helpers of the pager against set-level specifications: file coverage, the
  tail refund, the evacuation floor, the verified-page set and the open-time re-arm.
\<close>

section \<open>File coverage\<close>

lemma alignUp_bounds:
  assumes "0 < step"
  shows "n \<le> alignUp n step" "alignUp n step < n + step" "step dvd alignUp n step"
proof -
  define q r where "q = (n + step - 1) div step * step" and "r = (n + step - 1) mod step"
  have "q + r = n + step - 1" unfolding q_def r_def by (rule div_mult_mod_eq)
  moreover have "r < step" using assms by (simp add: r_def)
  moreover have a: "alignUp n step = q" using assms by (simp add: alignUp_def q_def)
  ultimately show "n \<le> alignUp n step" "alignUp n step < n + step" using assms by arith+
  show "step dvd alignUp n step" unfolding a q_def by simp
qed

definition cover_ok :: "Pager \<Rightarrow> nat \<Rightarrow> nat \<Rightarrow> bool" where
  "cover_ok p pages n \<longleftrightarrow> pages \<le> n \<and> n \<le> pages + growStepPages p \<and>
     (maxSizePages p \<noteq> 0 \<and> pages \<le> maxSizePages p \<longrightarrow> n \<le> maxSizePages p) \<and>
     (growStepPages p dvd n \<or> n = maxSizePages p \<or> n = pages)"

lemma coverTarget_ok: "cover_ok p pages (coverTarget p pages)"
proof (cases "growStepPages p = 0")
  case True
  then show ?thesis by (auto simp: cover_ok_def coverTarget_def alignUp_def Let_def max_def min_def)
next
  case False
  then show ?thesis
    using alignUp_bounds [of "growStepPages p" pages] by (auto simp: cover_ok_def coverTarget_def Let_def max_def min_def)
qed

section \<open>The tail refund\<close>

definition refunded :: "Bitmap \<Rightarrow> Pager \<Rightarrow> Bitmap \<Rightarrow> Pager \<Rightarrow> bool" where
  "refunded b p b' p' \<longleftrightarrow> bmap p' = Some b' \<and> bm_wf b' \<and> geom b' = geom b \<and> highWaterMark p' \<le> highWaterMark p \<and>
     {highWaterMark p'..<highWaterMark p} \<subseteq> free_pages b \<union> loosePages p \<and>
     free_pages b' = free_pages b - {highWaterMark p'..<highWaterMark p} \<and>
     loosePages p' = loosePages p - ({highWaterMark p'..<highWaterMark p} - free_pages b)"

lemma interval_insert_low: "0 < h \<Longrightarrow> k \<le> h - 1 \<Longrightarrow> {k..<h} = insert (h - 1) {k..<h - 1 :: nat}"
  by (cases h) auto

lemma refunded_step:
  assumes "refunded b1 p1 b' p'" "0 < highWaterMark p" "highWaterMark p1 = highWaterMark p - 1" "geom b1 = geom b"
    and "free_pages b1 = free_pages b - {highWaterMark p - 1}"
    and "if highWaterMark p - 1 \<in> free_pages b then loosePages p1 = loosePages p
         else highWaterMark p - 1 \<in> loosePages p \<and> loosePages p1 = loosePages p - {highWaterMark p - 1}"
  shows "refunded b p b' p'"
proof -
  let ?t = "highWaterMark p - 1" and ?k = "highWaterMark p'"
  have r: "bmap p' = Some b'" "bm_wf b'" "geom b' = geom b" "?k \<le> ?t" "{?k..<?t} \<subseteq> free_pages b1 \<union> loosePages p1"
    "free_pages b' = free_pages b1 - {?k..<?t}" "loosePages p' = loosePages p1 - ({?k..<?t} - free_pages b1)"
    using assms(1,3,4) by (auto simp: refunded_def)
  note i = interval_insert_low [OF assms(2) r(4)]
  have t: "?t \<notin> {?k..<?t}" by simp
  have "?t \<in> free_pages b \<union> loosePages p" using assms(6) by (auto split: if_splits)
  moreover have "{?k..<?t} \<subseteq> free_pages b \<union> loosePages p"
    using r(5) assms(5,6) by (auto split: if_splits)
  moreover have "free_pages b' = free_pages b - {?k..<highWaterMark p}" using r(6) assms(5) i by auto
  moreover have "loosePages p' = loosePages p - ({?k..<highWaterMark p} - free_pages b)"
    using r(7) assms(5,6) i t by (auto split: if_splits)
  ultimately show ?thesis using r i assms(3) by (auto simp: refunded_def)
qed

lemma tail_loop_refunds:
  "bmap p = Some b \<Longrightarrow> bm_wf b \<Longrightarrow> k \<le> highWaterMark p \<Longrightarrow>
   \<exists>p' b'. tail_loop k p = (Inr (), p') \<and> refunded b p b' p' \<and> highWaterMark p - k \<le> highWaterMark p' \<and>
     (highWaterMark p' = highWaterMark p - k \<or> highWaterMark p' - 1 \<notin> free_pages b' \<union> loosePages p')"
proof (induction k arbitrary: p b)
  case 0
  then show ?case by (auto simp: ret_def refunded_def)
next
  case (Suc k)
  let ?t = "highWaterMark p - 1"
  have h: "0 < highWaterMark p" "k \<le> highWaterMark p - 1" using Suc.prems(3) by auto
  have go: ?case if run: "tail_loop (Suc k) p = tail_loop k p1" and p1: "bmap p1 = Some b1" "bm_wf b1" "highWaterMark p1 = ?t"
      "geom b1 = geom b" "free_pages b1 = free_pages b - {?t}"
      "if ?t \<in> free_pages b then loosePages p1 = loosePages p else ?t \<in> loosePages p \<and> loosePages p1 = loosePages p - {?t}" for p1 b1
  proof -
    obtain p' b' where "tail_loop k p1 = (Inr (), p')" "refunded b1 p1 b' p'" "?t - k \<le> highWaterMark p'"
      "highWaterMark p' = ?t - k \<or> highWaterMark p' - 1 \<notin> free_pages b' \<union> loosePages p'"
      using Suc.IH [OF p1(1,2)] h(2) p1(3) by auto
    then show ?thesis using run refunded_step [OF _ h(1) p1(3-6)] by (intro exI [of _ p'] exI [of _ b']) simp
  qed
  have set: "IsSet b ?t \<longleftrightarrow> ?t \<in> free_pages b" using Suc.prems(2) by (simp add: IsSet_iff)
  consider "?t \<in> free_pages b" | "?t \<notin> free_pages b" "?t \<in> loosePages p" | "?t \<notin> free_pages b" "?t \<notin> loosePages p" by blast
  then show ?case
  proof cases
    case 1
    then have "allocatable b ?t" using free_pages_range [OF Suc.prems(2)] by (simp add: allocatable_def)
    then obtain b1 where b1: "Clear b ?t = Inr b1" "bm_wf b1" "free_pages b1 = free_pages b - {?t}" "geom b1 = geom b"
      using Clear_ok [OF Suc.prems(2)] by blast
    let ?p1 = "(delFree ?t (p\<lparr>bmap := Some b1\<rparr>))\<lparr>highWaterMark := highWaterMark p - 1\<rparr>"
    have "tail_loop (Suc k) p = tail_loop k ?p1"
      using 1 set Suc.prems(1) b1(1) by (simp add: bnd_def with_bitmap_def upd_def Let_def)
    then show ?thesis by (rule go) (use b1 1 in \<open>simp_all add: delFree_def recordSavepointUndo_def Let_def\<close>)
  next
    case 2
    let ?p1 = "(delLoose ?t p)\<lparr>highWaterMark := highWaterMark p - 1\<rparr>"
    have "tail_loop (Suc k) p = tail_loop k ?p1"
      using 2 set Suc.prems(1) by (simp add: bnd_def upd_def Let_def)
    then show ?thesis
      by (rule go [of ?p1 b]) (use 2 Suc.prems in \<open>auto simp: delLoose_def recordSavepointUndo_def\<close>)
  next
    case 3
    then show ?thesis
      using set Suc.prems by (intro exI [of _ p] exI [of _ b]) (simp add: refunded_def Let_def)
  qed
qed

section \<open>The evacuation floor\<close>

text \<open>The pages from a floor to the high-water mark that evacuation would have to move.\<close>

definition live_above :: "Bitmap \<Rightarrow> nat \<Rightarrow> nat \<Rightarrow> nat" where
  "live_above b hwm f = card ({f..<hwm} - free_pages b)"

definition good_floors :: "Bitmap \<Rightarrow> nat \<Rightarrow> nat \<Rightarrow> nat \<Rightarrow> nat set" where
  "good_floors b hwm budget reserve =
     {f. 1 \<le> live_above b hwm f \<and> live_above b hwm f \<le> budget \<and>
         2 * live_above b hwm f + reserve \<le> card (free_pages b \<inter> {..<f})}"

lemma count_down:
  assumes "Suc f \<le> hwm"
  shows "card (free_pages b \<inter> {f..<hwm}) = card (free_pages b \<inter> {Suc f..<hwm}) + (if f \<in> free_pages b then 1 else 0)"
    "live_above b hwm f = live_above b hwm (Suc f) + (if f \<in> free_pages b then 0 else 1)"
proof -
  have one: "card (A \<inter> insert f X) = card (A \<inter> X) + (if f \<in> A then 1 else 0)"
    "card (insert f X - A) = card (X - A) + (if f \<in> A then 0 else 1)" if "f \<notin> X" "finite X" for A X :: "nat set"
    using that by (simp_all add: Int_insert_right insert_Diff_if)
  have i: "{f..<hwm} = insert f {Suc f..<hwm}" using assms by auto
  have f: "f \<notin> {Suc f..<hwm}" "finite {Suc f..<hwm}" by simp_all
  show "card (free_pages b \<inter> {f..<hwm}) = card (free_pages b \<inter> {Suc f..<hwm}) + (if f \<in> free_pages b then 1 else 0)"
    unfolding i by (rule one(1) [OF f])
  show "live_above b hwm f = live_above b hwm (Suc f) + (if f \<in> free_pages b then 0 else 1)"
    unfolding live_above_def i by (rule one(2) [OF f])
qed

lemma free_below:
  assumes "f \<le> hwm"
  shows "card (free_pages b \<inter> {..<hwm}) - card (free_pages b \<inter> {f..<hwm}) = card (free_pages b \<inter> {..<f})"
proof -
  have u: "free_pages b \<inter> {..<hwm} = (free_pages b \<inter> {..<f}) \<union> (free_pages b \<inter> {f..<hwm})" using assms by auto
  have "card (free_pages b \<inter> {..<hwm}) = card (free_pages b \<inter> {..<f}) + card (free_pages b \<inter> {f..<hwm})"
    unfolding u by (rule card_Un_disjoint) auto
  then show ?thesis by simp
qed

lemma live_above_mono: "f \<le> g \<Longrightarrow> live_above b hwm g \<le> live_above b hwm f"
  unfolding live_above_def by (rule card_mono) auto

lemma first_in_extend:
  assumes "\<And>q. q \<in> S \<Longrightarrow> f < q"
  shows "first_in (insert f S) = Some f"
  by (rule first_in_SomeI) (use assms in \<open>auto dest: less_imp_le\<close>)

lemma evac_loop_first:
  assumes "n \<le> hwm" "firstData \<le> n" "live_above b hwm n \<le> budget"
  shows "evac_loop b (card (free_pages b \<inter> {..<hwm})) firstData budget reserve n (card (free_pages b \<inter> {n..<hwm}))
      (live_above b hwm n) (first_in (good_floors b hwm budget reserve \<inter> {n..<hwm})) =
    first_in (good_floors b hwm budget reserve \<inter> {firstData..<hwm})"
  using assms
proof (induction n)
  case 0
  then show ?case by simp
next
  case (Suc f)
  let ?G = "good_floors b hwm budget reserve"
  show ?case
  proof (cases "firstData < Suc f")
    case False
    then have "firstData = Suc f" using Suc.prems(2) by simp
    then show ?thesis by simp
  next
    case True
    have set: "IsSet b f \<longleftrightarrow> f \<in> free_pages b" by (simp add: IsSet_iff)
    note c = count_down [OF Suc.prems(1), of b] and fb = free_below [of f hwm b]
    let ?free = "card (free_pages b \<inter> {f..<hwm})" and ?live = "live_above b hwm f"
    have upd: "?G \<inter> {f..<hwm} = (if f \<in> ?G then insert f (?G \<inter> {Suc f..<hwm}) else ?G \<inter> {Suc f..<hwm})"
      using Suc.prems(1) by (auto simp: Suc_le_eq le_less)
    have best: "first_in (?G \<inter> {f..<hwm}) = (if f \<in> ?G then Some f else first_in (?G \<inter> {Suc f..<hwm}))"
      unfolding upd by (auto intro: first_in_extend)
    have step: "evac_loop b (card (free_pages b \<inter> {..<hwm})) firstData budget reserve f ?free ?live (first_in (?G \<inter> {f..<hwm})) =
        first_in (?G \<inter> {firstData..<hwm})" if "?live \<le> budget"
      using Suc.IH Suc.prems(1) True that by simp
    let ?next = "\<lambda>best. evac_loop b (card (free_pages b \<inter> {..<hwm})) firstData budget reserve f ?free ?live best"
    have unf: "evac_loop b (card (free_pages b \<inter> {..<hwm})) firstData budget reserve (Suc f) (card (free_pages b \<inter> {Suc f..<hwm}))
        (live_above b hwm (Suc f)) best = (if f \<notin> free_pages b \<and> ?live > budget then best else if ?live = 0 then ?next best
        else ?next (if card (free_pages b \<inter> {..<hwm}) - ?free \<ge> 2 * ?live + reserve then Some f else best))" for best
      using True set c by (auto simp: Let_def)
    show ?thesis
    proof (cases "f \<notin> free_pages b \<and> ?live > budget")
      case stop: True
      have "?live \<le> live_above b hwm q" if "q \<le> f" for q using live_above_mono [OF that] .
      then have "q \<notin> ?G" if "q \<le> f" for q using that stop by (force simp: good_floors_def)
      then have "?G \<inter> {firstData..<hwm} = ?G \<inter> {Suc f..<hwm}"
        using True by (force simp: not_less_eq_eq)
      then show ?thesis unfolding unf using stop by simp
    next
      case False
      then have le: "?live \<le> budget" using Suc.prems(3) c(2) by (auto split: if_splits)
      have g: "f \<in> ?G \<longleftrightarrow> ?live \<noteq> 0 \<and> card (free_pages b \<inter> {..<hwm}) - ?free \<ge> 2 * ?live + reserve"
        using fb Suc.prems(1) le by (auto simp: good_floors_def)
      show ?thesis unfolding unf using step [OF le] best g False by (auto split: if_splits)
    qed
  qed
qed

section \<open>The verified-page set\<close>

lemma test_bit_or:
  fixes x :: u64
  assumes "i < 64" "j < 64"
  shows "(x OR push_bit j 1) AND push_bit i 1 \<noteq> 0 \<longleftrightarrow> i = j \<or> x AND push_bit i 1 \<noteq> 0"
proof -
  have t: "y AND push_bit i 1 \<noteq> 0 \<longleftrightarrow> bit y i" for y :: u64
    by (simp add: bit_iff_and_push_bit_not_eq_0)
  show ?thesis unfolding t using assms by (auto simp: bit_simps)
qed

lemma isVerified_mark: "isVerified (markVerified pid backed p) q \<longleftrightarrow> q = pid \<or> isVerified p q"
proof -
  define v where "v = (if verified p = [] then replicate ((backed + 63) div 64) 0 else verified p)"
  define v' where "v' = (if pid div 64 \<ge> length v then v @ replicate (pid div 64 + 1 - length v) 0 else v)"
  have w: "pid div 64 < length v'" "length v \<le> length v'" by (auto simp: v'_def)
  have mk: "verified (markVerified pid backed p) = v'[pid div 64 := v' ! (pid div 64) OR push_bit (pid mod 64) 1]"
    by (simp add: markVerified_def Let_def v_def v'_def)
  have v0: "(j < length v \<and> v ! j AND m \<noteq> 0) \<longleftrightarrow> j < length (verified p) \<and> verified p ! j AND m \<noteq> 0" for j and m :: u64
    by (simp add: v_def)
  have v1: "v' ! j = (if j < length v then v ! j else 0)" if "j < length v'" for j
    using that by (auto simp: v'_def nth_append)
  have "(j < length v' \<and> v' ! j AND m \<noteq> 0) \<longleftrightarrow> j < length (verified p) \<and> verified p ! j AND m \<noteq> 0" for j and m :: u64
    using v0 [of j m] v1 [of j] w(2) by (auto split: if_splits)
  then have old: "(q div 64 < length v' \<and> v' ! (q div 64) AND push_bit (q mod 64) 1 \<noteq> 0) \<longleftrightarrow> isVerified p q"
    by (simp add: isVerified_def Let_def not_le)
  have qp: "q = pid \<longleftrightarrow> q div 64 = pid div 64 \<and> q mod 64 = pid mod 64" by (metis div_mult_mod_eq)
  show ?thesis
  proof (cases "q div 64 = pid div 64")
    case True
    then show ?thesis
      using old w test_bit_or [of "q mod 64" "pid mod 64" "v' ! (pid div 64)"] qp by (simp add: isVerified_def Let_def mk)
  next
    case False
    then show ?thesis using old qp by (auto simp: isVerified_def [of "markVerified _ _ _"] Let_def mk)
  qed
qed

section \<open>The open-time re-arm\<close>

text \<open>The data pages listed in the segments of a chain that the re-arm can read.\<close>

definition seg_pages :: "Env \<Rightarrow> (nat \<Rightarrow> pg_err + bytes) \<Rightarrow> Config \<Rightarrow> Bitmap \<Rightarrow> RPLSegmentRef \<Rightarrow> nat set" where
  "seg_pages env rawPage c b seg =
     (case (if in_data b (ref_PageID seg) then rawPage (ref_PageID seg) else Inl PanicNil) of
        Inl _ \<Rightarrow> {}
      | Inr buf \<Rightarrow> (case readRPLSegment (xxh3 env) (\<lambda>_. buf) c (word_of_nat (ref_PageID seg)) of
            Inr (SegmentOK d) \<Rightarrow> {pid. in_data b pid} \<inter> set (seg_ids d)
          | _ \<Rightarrow> {}))"

definition chain_pages :: "Env \<Rightarrow> (nat \<Rightarrow> pg_err + bytes) \<Rightarrow> Config \<Rightarrow> RPLSegmentRef list \<Rightarrow> Bitmap \<Rightarrow> nat set" where
  "chain_pages env rawPage c chain b = (\<Union>seg \<in> set chain. seg_pages env rawPage c b seg)"

lemma in_data_alloc: "in_data b pid \<longleftrightarrow> allocatable b pid"
  by (simp add: in_data_def allocatable_def)

lemma in_data_geom: "geom b' = geom b \<Longrightarrow> in_data b' = in_data b"
  by (auto simp: in_data_def geom_def)

definition rearmed_to :: "nat set \<Rightarrow> Bitmap \<Rightarrow> nat list \<Rightarrow> Bitmap \<Rightarrow> nat list \<Rightarrow> bool" where
  "rearmed_to S b rs b' rs' \<longleftrightarrow> bm_wf b' \<and> geom b' = geom b \<and> free_pages b' = free_pages b - S \<and>
     (\<exists>new. rs' = rs @ new \<and> distinct new \<and> set new = free_pages b \<inter> S)"

lemma rearmed_to_trans:
  "rearmed_to S b rs b1 rs1 \<Longrightarrow> rearmed_to T b1 rs1 b2 rs2 \<Longrightarrow> rearmed_to (S \<union> T) b rs b2 rs2"
proof -
  assume a: "rearmed_to S b rs b1 rs1" "rearmed_to T b1 rs1 b2 rs2"
  obtain n1 n2 where n: "rs1 = rs @ n1" "distinct n1" "set n1 = free_pages b \<inter> S" "rs2 = rs1 @ n2" "distinct n2" "set n2 = free_pages b1 \<inter> T"
    "free_pages b1 = free_pages b - S"
    using a by (auto simp: rearmed_to_def)
  then have "rs2 = rs @ (n1 @ n2) \<and> distinct (n1 @ n2) \<and> set (n1 @ n2) = free_pages b \<inter> (S \<union> T)" by auto
  moreover have "free_pages b2 = free_pages b - (S \<union> T)" using a by (auto simp: rearmed_to_def)
  ultimately show ?thesis using a unfolding rearmed_to_def by metis
qed

lemma rearm_ids_spec:
  "bm_wf b \<Longrightarrow> \<exists>b' rs'. rearm_ids ids b rs = Inr (b', rs') \<and> rearmed_to ({pid. in_data b pid} \<inter> set ids) b rs b' rs'"
proof (induction ids b rs rule: rearm_ids.induct)
  case (1 bm rearmed)
  then show ?case by (simp add: rearmed_to_def)
next
  case (2 pid ids bm rearmed)
  have set: "IsSet bm pid \<longleftrightarrow> pid \<in> free_pages bm" by (simp add: IsSet_iff)
  show ?case
  proof (cases "in_data bm pid \<and> pid \<in> free_pages bm")
    case True
    then obtain b1 where b1: "Clear bm pid = Inr b1" "bm_wf b1" "free_pages b1 = free_pages bm - {pid}" "geom b1 = geom bm"
      using Clear_ok [OF 2(4)] by (auto simp: in_data_alloc)
    have "rearmed_to {pid} bm rearmed b1 (rearmed @ [pid])" using b1 True by (auto simp: rearmed_to_def)
    moreover obtain b' rs' where r: "rearm_ids ids b1 (rearmed @ [pid]) = Inr (b', rs')"
        "rearmed_to ({pid. in_data b1 pid} \<inter> set ids) b1 (rearmed @ [pid]) b' rs'"
      using 2(2) True set b1 by auto
    ultimately have "rearmed_to ({pid} \<union> {pid. in_data b1 pid} \<inter> set ids) bm rearmed b' rs'" using rearmed_to_trans by blast
    moreover have "{pid} \<union> {pid. in_data b1 pid} \<inter> set ids = {pid. in_data bm pid} \<inter> set (pid # ids)"
      using True in_data_geom [OF b1(4)] by auto
    ultimately show ?thesis using True set b1(1) r(1) by simp
  next
    case False
    then have run: "rearm_ids (pid # ids) bm rearmed = rearm_ids ids bm rearmed" using set by auto
    obtain b' rs' where r: "rearm_ids ids bm rearmed = Inr (b', rs')" "rearmed_to ({pid. in_data bm pid} \<inter> set ids) bm rearmed b' rs'"
      using 2(1,3) 2(4) False set by blast
    have "rearmed_to ({pid. in_data bm pid} \<inter> set (pid # ids)) bm rearmed b' rs'"
      using r(2) False by (auto simp: rearmed_to_def)
    then show ?thesis using run r(1) by simp
  qed
qed

lemma chain_pages_geom: "geom b' = geom b \<Longrightarrow> chain_pages env rawPage c chain b' = chain_pages env rawPage c chain b"
  unfolding chain_pages_def seg_pages_def by (drule in_data_geom) (simp only:)

lemma rearm_spec:
  "bm_wf b \<Longrightarrow> rearmCrashedReclamation env rawPage c chain b rs = Inr (b', rs') \<Longrightarrow>
   rearmed_to (chain_pages env rawPage c chain b) b rs b' rs'"
proof (induction chain arbitrary: b rs)
  case Nil
  then show ?case by (simp add: rearmed_to_def chain_pages_def)
next
  case (Cons seg chain)
  have c: "chain_pages env rawPage c (seg # chain) b = seg_pages env rawPage c b seg \<union> chain_pages env rawPage c chain b"
    by (simp add: chain_pages_def)
  have skip: ?case if "rearmCrashedReclamation env rawPage c chain b rs = Inr (b', rs')" "seg_pages env rawPage c b seg = {}"
    using Cons.IH [OF Cons.prems(1) that(1)] that(2) by (simp add: c)
  show ?case
  proof (cases "in_data b (ref_PageID seg)")
    case False
    then show ?thesis using skip Cons.prems(2) by (simp add: seg_pages_def)
  next
    case True
    then obtain buf where buf: "rawPage (ref_PageID seg) = Inr buf" using Cons.prems(2) by (auto split: sum.splits)
    show ?thesis
    proof (cases "readRPLSegment (xxh3 env) (\<lambda>_. buf) c (word_of_nat (ref_PageID seg))")
      case (Inl e)
      then show ?thesis using Cons.prems(2) True buf by simp
    next
      case (Inr x)
      show ?thesis
      proof (cases x)
        case (SegmentOK d)
        obtain b1 rs1 where r: "rearm_ids (seg_ids d) b rs = Inr (b1, rs1)" "rearmed_to ({pid. in_data b pid} \<inter> set (seg_ids d)) b rs b1 rs1"
          using rearm_ids_spec [OF Cons.prems(1)] by blast
        have g: "bm_wf b1" "geom b1 = geom b" using r(2) by (simp_all add: rearmed_to_def)
        have "rearmCrashedReclamation env rawPage c chain b1 rs1 = Inr (b', rs')"
          using Cons.prems(2) True buf Inr SegmentOK r(1) by simp
        then have "rearmed_to (chain_pages env rawPage c chain b1) b1 rs1 b' rs'" by (rule Cons.IH [OF g(1)])
        moreover have "seg_pages env rawPage c b seg = {pid. in_data b pid} \<inter> set (seg_ids d)"
          using True buf Inr SegmentOK by (simp add: seg_pages_def)
        ultimately show ?thesis using rearmed_to_trans [OF r(2)] chain_pages_geom [OF g(2)] unfolding c by metis
      qed (use skip Cons.prems(2) True buf Inr in \<open>simp_all add: seg_pages_def\<close>)
    qed
  qed
qed

end
