(* ===== verification/Space_Props.thy ===== *)
theory Space_Props
  imports Space_Lemmas Pager_Demo
begin

text \<open>The properties of the space-management helpers, with their instances on the concrete pager.\<close>

text \<open>
  File coverage. Extending the file succeeds with the file covering the asked pages, its new
  size a whole number of pages: at most one growth step more than asked, within the maximal size
  when the request is, and a multiple of the growth step unless the maximal size or the request
  itself is the bound. It fails only when the truncate fails, and then changes no state of the
  pager.
\<close>

theorem ensure_file_covers:
  "case ensureFileCovers pages p of
     (Inr _, p') \<Rightarrow> pages * ps p \<le> fileSize p' \<and>
       (p' = p \<or> (\<exists>n fo. cover_ok p pages n \<and> p' = p\<lparr>fops := fo, fileSize := n * ps p\<rparr>))
   | (Inl e, p') \<Rightarrow> e = ErrTruncate \<and> fileSize p < pages * ps p \<and> p' = p\<lparr>fops := called (fops p)\<rparr>"
proof (cases "pages * ps p \<le> fileSize p")
  case False
  have "pages \<le> coverTarget p pages" using coverTarget_ok [of p pages] by (simp add: cover_ok_def)
  then have "pages * ps p \<le> coverTarget p pages * ps p" by (rule mult_le_mono1)
  then show ?thesis
    using False coverTarget_ok [of p pages]
    by (cases "next_outcome (fops p)") (auto simp: ensureFileCovers_def Truncate_def Let_def)
qed (simp add: ensureFileCovers_def)

text \<open>
  C33. The tail refund ends because its condition fails, not because of its bound: afterwards the
  last page below the high-water mark is neither free nor loose, or the mark has come down to the
  first data page (or already was below it). It never panics; it drops exactly the free and loose
  pages of the tail, clears their bits and forgets the loose ones.
\<close>

theorem tail_refund_stops:
  assumes "\<not> readOnly p" "bmap p = Some b" "bm_wf b"
  shows "\<exists>p' b'. TailRefund p = (Inr (), p') \<and> refunded b p b' p' \<and>
    min (highWaterMark p) (firstDataPage b) \<le> highWaterMark p' \<and>
    (highWaterMark p' = min (highWaterMark p) (firstDataPage b) \<or>
     highWaterMark p' - 1 \<notin> free_pages b' \<union> loosePages p')"
proof -
  let ?k = "highWaterMark p - firstDataPage b"
  have k: "highWaterMark p - ?k = min (highWaterMark p) (firstDataPage b)" by simp
  have "TailRefund p = tail_loop ?k p"
    using assms by (simp add: TailRefund_def writable_def bnd_def get_bitmap_def)
  then show ?thesis using tail_loop_refunds [OF assms(2,3), of ?k] unfolding k by auto
qed

theorem tail_refund_stops_witness:
  "\<exists>p'. TailRefund demo_pager = (Inr (), p') \<and> highWaterMark p' = 3"
proof -
  have d: "\<not> readOnly demo_pager" "bmap demo_pager = Some demo" "highWaterMark demo_pager = 50" by (simp_all add: demo_pager_def)
  obtain p' b' where t: "TailRefund demo_pager = (Inr (), p')" "refunded demo demo_pager b' p'" "3 \<le> highWaterMark p'"
    "highWaterMark p' = 3 \<or> highWaterMark p' - 1 \<notin> free_pages b' \<union> loosePages p'"
    using tail_refund_stops [OF d(1,2) demo_facts(2)] d(3) demo_facts(5) by auto
  have "highWaterMark p' - 1 \<in> free_pages b'" if "3 < highWaterMark p'"
    using t(2) that demo_facts(4) d(3) by (auto simp: refunded_def)
  then have "highWaterMark p' = 3" using t(3,4) by fastforce
  then show ?thesis using t(1) by blast
qed

text \<open>
  The evacuation floor, found by one descending scan with early exit, is the lowest floor at
  or above the first data page for which there is something to move, no more than the budget, and
  twice as many free pages below the floor as pages to move, plus the reserve; and none is
  reported exactly when there is no such floor.
\<close>

theorem evacuation_floor_least:
  assumes "bmap p = Some b" "bm_wf b"
  shows "EvacuationFloor p firstData budget reserve =
    first_in (good_floors b (highWaterMark p) budget reserve \<inter> {firstData..<highWaterMark p})"
proof (cases "budget = 0 \<or> highWaterMark p \<le> firstData")
  case True
  have "good_floors b (highWaterMark p) 0 reserve = {}" by (auto simp: good_floors_def)
  then show ?thesis using True assms(1) by (auto simp: EvacuationFloor_def)
next
  case False
  have "live_above b (highWaterMark p) (highWaterMark p) = 0" by (simp add: live_above_def)
  then show ?thesis
    using False assms evac_loop_first [of "highWaterMark p" "highWaterMark p" firstData b budget reserve]
    by (simp add: EvacuationFloor_def CountFreeBelow_card [OF assms(2)] Let_def)
qed

definition demo_used :: Bitmap where
  "demo_used = (case Clear demo 40 of Inr b \<Rightarrow> b | Inl _ \<Rightarrow> demo)"

lemma demo_used_facts: "bm_wf demo_used" "free_pages demo_used = {3..<100} - {40}"
proof -
  have "allocatable demo 40" using demo_facts(5,6) by (simp add: allocatable_def)
  then obtain b where "Clear demo 40 = Inr b" "bm_wf b" "free_pages b = free_pages demo - {40}"
    using Clear_ok [OF demo_facts(2)] by blast
  then show "bm_wf demo_used" "free_pages demo_used = {3..<100} - {40}" using demo_facts(4) by (simp_all add: demo_used_def)
qed

theorem evacuation_floor_least_witness:
  "EvacuationFloor (demo_pager\<lparr>bmap := Some demo_used\<rparr>) 3 4 2 = Some 7"
proof -
  have h: "highWaterMark (demo_pager\<lparr>bmap := Some demo_used\<rparr>) = 50" by (simp add: demo_pager_def)
  have live: "live_above demo_used 50 f = 1" if "3 \<le> f" "f \<le> 40" for f
  proof -
    have "{f..<50} - free_pages demo_used = {40}" using that by (auto simp: demo_used_facts)
    then show ?thesis by (simp add: live_above_def)
  qed
  have free: "card (free_pages demo_used \<inter> {..<f}) = f - 3" if "3 \<le> f" "f \<le> 40" for f
  proof -
    have "free_pages demo_used \<inter> {..<f} = {3..<f}" using that by (auto simp: demo_used_facts)
    then show ?thesis by simp
  qed
  have "7 \<in> good_floors demo_used 50 4 2" using live [of 7] free [of 7] by (simp add: good_floors_def)
  moreover have "q \<notin> good_floors demo_used 50 4 2" if "3 \<le> q" "q < 7" for q
    using live [of q] free [of q] that by (auto simp: good_floors_def)
  ultimately have "first_in (good_floors demo_used 50 4 2 \<inter> {3..<50}) = Some 7"
    by (intro first_in_SomeI) (auto simp: not_less [symmetric])
  then show ?thesis
    using evacuation_floor_least [of "demo_pager\<lparr>bmap := Some demo_used\<rparr>" demo_used 3 4 2] demo_used_facts(1) h by simp
qed

text \<open>
  C34. The bitset of verified pages is a set: it grows on demand, marking a page adds that page and
  no other whatever the bitset's length was, and the reset at the start of a transaction empties it.
\<close>

theorem verified_pages_set:
  "{q. isVerified (markVerified pid backed p) q} = insert pid {q. isVerified p q} \<and>
   {q. isVerified (resetVerified p) q} = {}"
  by (auto simp: isVerified_mark) (simp add: isVerified_def resetVerified_def Let_def)

text \<open>
  C32. The re-arm at open time: when it returns, no data page listed in a segment of the chain that
  can be read is free, every other page keeps its state, and the pages it reports are those it
  took back, each once.
\<close>

theorem rearm_takes_back:
  assumes "bm_wf b" "rearmCrashedReclamation env rawPage c segs b [] = Inr (b', rearmed)"
  shows "bm_wf b' \<and> free_pages b' = free_pages b - chain_pages env rawPage c segs b \<and>
    distinct rearmed \<and> set rearmed = free_pages b \<inter> chain_pages env rawPage c segs b"
  using rearm_spec [OF assms] by (auto simp: rearmed_to_def)

text \<open>A segment page of the concrete file.\<close>

definition demo_seg :: RPLSegment where
  "demo_seg = \<lparr>seg_TxnID = 1, seg_OlderSegment = 0, seg_PageIDs = [95]\<rparr>"

definition demo_seg_page :: bytes where
  "demo_seg_page = (case write_segment (xxh3 demo_env) (replicate 4096 0) demo_cfg demo_seg of Inr b \<Rightarrow> b | Inl _ \<Rightarrow> [])"

lemma demo_seg_read:
  "length demo_seg_page = 4096"
  "readRPLSegment (xxh3 demo_env) (\<lambda>_. demo_seg_page) demo_cfg pid = Inr (SegmentOK demo_seg)"
proof -
  have "length (replicate 4096 0 :: bytes) = unat (PageSize demo_cfg)" by (simp add: demo_cfg_def)
  then obtain b where b: "write_segment (xxh3 demo_env) (replicate 4096 0) demo_cfg demo_seg = Inr b" "length b = 4096"
      "readRPLSegment (xxh3 demo_env) (\<lambda>_. b) demo_cfg pid = Inr (SegmentOK demo_seg)"
    using write_read_segment [OF demo_cfg_valid demo_cfg_cap, of demo_seg "replicate 4096 0" "xxh3 demo_env" pid]
    by (auto simp: demo_seg_def)
  then show "length demo_seg_page = 4096" "readRPLSegment (xxh3 demo_env) (\<lambda>_. demo_seg_page) demo_cfg pid = Inr (SegmentOK demo_seg)"
    by (simp_all add: demo_seg_page_def)
qed

theorem rearm_takes_back_witness:
  "\<exists>b'. rearmCrashedReclamation demo_env (\<lambda>_. Inr demo_seg_page) demo_cfg
      [\<lparr>ref_PageID = 90, ref_TxnID = 1, ref_Count = 1\<rparr>] demo [] = Inr (b', [95]) \<and> 95 \<notin> free_pages b'"
proof -
  let ?segs = "[\<lparr>ref_PageID = 90, ref_TxnID = 1, ref_Count = 1\<rparr>]" and ?raw = "\<lambda>_. Inr demo_seg_page :: pg_err + bytes"
  have i: "in_data demo 90" "in_data demo 95" using demo_facts(5,6) by (simp_all add: in_data_def)
  have ids: "seg_ids demo_seg = [95]" by (simp add: seg_ids_def demo_seg_def)
  obtain b' rs where r: "rearm_ids [95] demo [] = Inr (b', rs)" using rearm_ids_spec [OF demo_facts(2)] by blast
  then have run: "rearmCrashedReclamation demo_env ?raw demo_cfg ?segs demo [] = Inr (b', rs)"
    using i demo_seg_read(2) ids by simp
  have c: "chain_pages demo_env ?raw demo_cfg ?segs demo = {95}"
    using i demo_seg_read(2) ids by (auto simp: chain_pages_def seg_pages_def)
  have "set rs = {95}" "distinct rs" "95 \<notin> free_pages b'"
    using rearm_takes_back [OF demo_facts(2) run] c demo_facts(4) by auto
  moreover have "rs = [95]" using calculation(1,2) by (cases rs; cases "tl rs") auto
  ultimately show ?thesis using run by blast
qed

section \<open>A failed reservation that is reported as a success\<close>

text \<open>
  C35. The contiguous allocation says that on error no run is reserved, but the retry after reclamation
  ignores the error of the reservation. When the first search fails, reclamation frees pages, the
  second search finds a run past the end of the file and the truncate that should extend the file
  fails, then the call returns that run as allocated although none of its pages is: they stay free
  in the bitmap, and the transaction does not own them.
\<close>

theorem contiguous_retry_ignores_error:
  assumes "\<not> readOnly p" "bmap p = Some b" "1 < n" "FindContiguous b (int n) = None"
    and "reclaimRPL env (p\<lparr>contigAttempts := contigAttempts p + 1,
           contigFragFails := contigFragFails p + (if numFree b \<ge> n then 1 else 0)\<rparr>) = (Inr k, p1)" "0 < k"
    and "bmap p1 = Some b1" "bm_wf b1" "FindContiguous b1 (int n) = Some f"
    and "fileSize p1 < (f + n) * ps p1" "next_outcome (fops p1) = IoFail j"
  shows "AllocContiguous env n p = (Inr f, p1\<lparr>fops := called (fops p1)\<rparr>) \<and>
    bmap (p1\<lparr>fops := called (fops p1)\<rparr>) = Some b1 \<and> {f..<f + n} \<subseteq> free_pages b1"
proof -
  let ?q = "p\<lparr>contigAttempts := contigAttempts p + 1, contigFragFails := contigFragFails p + (if numFree b \<ge> n then 1 else 0)\<rparr>"
  have "reserveBitmapRun f n p1 = (Inl ErrTruncate, p1\<lparr>fops := called (fops p1)\<rparr>)"
    using assms(10,11) by (simp add: reserveBitmapRun_def bnd_def ensureFileCovers_def Truncate_def Let_def)
  then have u: "find_reserve_unchecked n p1 = (Inr (Some f), p1\<lparr>fops := called (fops p1)\<rparr>)"
    using assms(7,9) by (simp add: find_reserve_unchecked_def ignoring_def bnd_def get_bitmap_def ret_def)
  have "count_frag_fail n (p\<lparr>contigAttempts := contigAttempts p + 1\<rparr>) = (Inr (), ?q)"
    using assms(2) by (cases p) (simp add: count_frag_fail_def bnd_def get_bitmap_def upd_def)
  moreover have "reclaim_then env (find_reserve_unchecked n) ?q = (Inr (Some f), p1\<lparr>fops := called (fops p1)\<rparr>)"
    using assms(5,6) u by (simp add: reclaim_then_def bnd_def)
  moreover have "find_reserve n (p\<lparr>contigAttempts := contigAttempts p + 1\<rparr>) = (Inr None, p\<lparr>contigAttempts := contigAttempts p + 1\<rparr>)"
    using assms(2,4) by (simp add: find_reserve_def bnd_def get_bitmap_def ret_def)
  ultimately have "AllocContiguous env n p = (Inr f, p1\<lparr>fops := called (fops p1)\<rparr>)"
    using assms(1-3) by (simp add: AllocContiguous_def writable_def bnd_def upd_def or_else_def ret_def)
  moreover have "f \<in> runs (free_pages b1) n"
    using FindContiguous_next [OF assms(8), of n] assms(3,9) next_from_SomeD by fastforce
  ultimately show ?thesis using assms(7) by (auto simp: runs_def)
qed

definition demo94_detail :: bytes where
  "demo94_detail = (replicate 4096 0)[11 := 64]"

definition demo94 :: Bitmap where
  "demo94 = (case New demo94_detail 4096 1 100 of Inr b \<Rightarrow> b | Inl e \<Rightarrow> demo)"

lemma demo94_facts: "bm_wf demo94" "free_pages demo94 = {94}" "firstDataPage demo94 = 3" "totalPages demo94 = 100"
proof -
  have "\<exists>b. New demo94_detail 4096 1 100 = Inr b"
    by (rule New_total) (simp_all add: demo94_detail_def)
  then have n: "New demo94_detail 4096 1 100 = Inr demo94" by (auto simp: demo94_def)
  note o = New_ok [OF n]
  show "bm_wf demo94" by (rule o(1))
  show "firstDataPage demo94 = 3" "totalPages demo94 = 100" using o(3) by (simp_all add: geom_def)
  have "bit (64 :: byte) i \<longleftrightarrow> i = 6" for i using bit_exp_iff [of 6 i, where 'a = byte] by auto
  then have b: "bit (if j = 11 then 64 else 0 :: byte) i \<longleftrightarrow> j = 11 \<and> i = 6" for i and j :: nat by simp
  have "dbit demo94_detail p \<longleftrightarrow> p = 94" if "p < 100" for p
  proof -
    have "p div 8 < 4096" using that by simp
    then have "demo94_detail ! (p div 8) = (if p div 8 = 11 then 64 else 0)"
      unfolding demo94_detail_def by (cases "p div 8 = 11") simp_all
    then have "dbit demo94_detail p \<longleftrightarrow> p div 8 = 11 \<and> p mod 8 = 6" using b \<open>p div 8 < 4096\<close> by (simp add: dbit_def demo94_detail_def)
    also have "\<dots> \<longleftrightarrow> p = 94" by presburger
    finally show ?thesis .
  qed
  then show "free_pages demo94 = {94}" using o(2) by auto
qed

definition demo_frag :: Pager where
  "demo_frag = demo_pager\<lparr>bmap := Some demo94, rplSegments := [\<lparr>ref_PageID = 90, ref_TxnID = 1, ref_Count = 1\<rparr>],
     reclamationBound := 5, fileSize := 91 * 4096,
     fops := demo_fops\<lparr>fo_bytes := replicate (90 * 4096) 0 @ demo_seg_page, fo_outcome := (\<lambda>_. IoFail 0)\<rparr>\<rparr>"

text \<open>The reclamation of the concrete chain frees the listed page and the segment page.\<close>

lemma demo_reclaim:
  assumes "p = demo_frag\<lparr>contigAttempts := a, contigFragFails := g\<rparr>"
  shows "\<exists>p1 b1. reclaimRPL demo_env p = (Inr 2, p1) \<and> bmap p1 = Some b1 \<and> bm_wf b1 \<and> free_pages b1 = {90, 94, 95} \<and>
    hint b1 = 90 \<and> fileSize p1 = 91 * 4096 \<and> ps p1 = 4096 \<and> next_outcome (fops p1) = IoFail 0"
proof -
  have al: "allocatable demo94 q \<longleftrightarrow> 3 \<le> q \<and> q < 100" for q using demo94_facts(3,4) by (auto simp: allocatable_def)
  obtain b2 where b2: "Set demo94 95 = Inr b2" "bm_wf b2" "free_pages b2 = {94, 95}" "geom b2 = geom demo94"
    using Set_ok [OF demo94_facts(1), of 95] demo94_facts(2) by (auto simp: al insert_commute)
  obtain b3 where b3: "Set b2 90 = Inr b3" "bm_wf b3" "free_pages b3 = {90, 94, 95}"
    using Set_ok [OF b2(2), of 90] b2(3) al [of 90] allocatable_geom [OF b2(4), of 90] by auto
  define b1 where "b1 = SetHint b3 90"
  have fd: "firstDataPage b3 = 3 \<and> totalPages b3 = 100"
  proof -
    have "geom b3 = geom b2" using Set_ok [OF b2(2), of 90] b3(1) al [of 90] allocatable_geom [OF b2(4), of 90] by auto
    then show ?thesis using b2(4) demo94_facts(3,4) by (simp add: geom_def)
  qed
  have f: "bmap p = Some demo94" "rplSegments p = [\<lparr>ref_PageID = 90, ref_TxnID = 1, ref_Count = 1\<rparr>]" "reclamationBound p = 5"
    "cfg p = demo_cfg" "ps p = 4096" "slab p 90 = None" "mmapLen p = 100 * 4096" "readOnly p = False"
    by (simp_all add: assms demo_frag_def demo_pager_def ps_def demo_cfg_def)
  have "field (replicate (90 * 4096) 0 @ demo_seg_page) (90 * 4096) 4096 = demo_seg_page"
    using demo_seg_read(1) by (simp add: field_def)
  then have "pageRaw p 90 = Inr demo_seg_page"
    using f demo_seg_read(1) by (simp add: pageRaw_def mmapPage_def) (simp add: assms demo_frag_def demo_pager_def)
  then have "usable_segment demo_env \<lparr>ref_PageID = 90, ref_TxnID = 1, ref_Count = 1\<rparr> p = (Inr (Some [95]), p)"
    using f demo94_facts(3,4) demo_seg_read(2)
    by (simp add: usable_segment_def read_segment_def pm_defs get_bitmap_def raw_def lift_page_def in_data_def)
      (simp add: seg_ids_def demo_seg_def in_data_def)
  then have run: "reclaimRPL demo_env p = (Inr 2, (trimRPLChainTail 1 (p\<lparr>bmap := Some b3\<rparr>))\<lparr>bmap := Some b1,
      tc := (tc p)\<lparr>ReclaimedPages := ReclaimedPages (tc p) + 2\<rparr>\<rparr>)"
    using f b2(1) b3(1) by (simp add: reclaimRPL_def pm_defs with_bitmap_def b1_def trimRPLChainTail_def)
  have "bm_wf b1" "free_pages b1 = {90, 94, 95}" using b3 SetHint_wf by (simp_all add: b1_def)
  moreover have "hint b1 = 90" using fd by (simp add: b1_def SetHint_def)
  ultimately show ?thesis
    unfolding run by (intro exI conjI) (auto simp: trimRPLChainTail_def f(2) ps_def assms demo_frag_def demo_pager_def demo_cfg_def demo_fops_def next_outcome_def)
qed

theorem contiguous_retry_ignores_error_witness:
  "\<exists>p2 b2. AllocContiguous demo_env 2 demo_frag = (Inr 94, p2) \<and> bmap p2 = Some b2 \<and> {94, 95} \<subseteq> free_pages b2"
proof -
  have f: "\<not> readOnly demo_frag" "bmap demo_frag = Some demo94" by (simp_all add: demo_frag_def demo_pager_def)
  have "x \<notin> runs {94} 2" for x :: nat
  proof
    assume "x \<in> runs {94} 2"
    then have "x \<in> {94}" "Suc x \<in> {94}" using runs_mem [of x "{94}" 2 x] runs_mem [of x "{94}" 2 "Suc x"] by auto
    then show False by simp
  qed
  then have none: "FindContiguous demo94 (int 2) = None"
    using FindContiguous_next [OF demo94_facts(1), of 2] demo94_facts(2) by auto
  let ?q = "demo_frag\<lparr>contigAttempts := contigAttempts demo_frag + 1,
    contigFragFails := contigFragFails demo_frag + (if numFree demo94 \<ge> 2 then 1 else 0)\<rparr>"
  obtain p1 b1 where r: "reclaimRPL demo_env ?q = (Inr 2, p1)" "bmap p1 = Some b1" "bm_wf b1" "free_pages b1 = {90, 94, 95}"
    "hint b1 = 90" "fileSize p1 = 91 * 4096" "ps p1 = 4096" "next_outcome (fops p1) = IoFail 0"
    using demo_reclaim [OF refl] by blast
  have "x = 94" if "x \<in> runs {90, 94, 95} 2" for x :: nat
  proof -
    have "x \<in> {90, 94, 95}" "Suc x \<in> {90, 94, 95}" using runs_mem [OF that, of x] runs_mem [OF that, of "Suc x"] by auto
    then show ?thesis by auto
  qed
  moreover have "94 \<in> runs {90, 94, 95} 2" by (auto simp: runs_def)
  ultimately have "runs {90, 94, 95} 2 = {94 :: nat}" by blast
  then have "FindContiguous b1 (int 2) = Some 94"
    using FindContiguous_next [OF r(3), of 2] r(4,5) first_in_SomeI [of 94 "{94}"] by (simp add: next_from_def)
  then have "AllocContiguous demo_env 2 demo_frag = (Inr 94, p1\<lparr>fops := called (fops p1)\<rparr>) \<and> {94..<94 + 2} \<subseteq> free_pages b1"
    using contiguous_retry_ignores_error [OF f _ none r(1) _ r(2,3) _ _ r(8), of 94] r(6,7) by simp
  then show ?thesis using r(2,4) by auto
qed

end
