(* ===== verification/Alloc_Safe.thy ===== *)
theory Alloc_Safe
  imports Pager_Rel
begin

text \<open>
  What the page allocator hands out. Reclamation only adds free bits, and only for pages that a
  readable segment of the retired-page chain lists, or for the segment's own page; so a page that
  the transaction owns is never handed out again.
\<close>

section \<open>Reclaimable pages\<close>

definition reads :: "Pager \<Rightarrow> _" where
  "reads p = (cfg p, slab p, bufs p, fo_bytes (fops p), mmapLen p, readOnly p)"

definition reclaimable :: "Env \<Rightarrow> Pager \<Rightarrow> nat set" where
  "reclaimable env p =
     (\<Union>seg \<in> set (rplSegments p). case fst (usable_segment env seg p) of
        Inr (Some ids) \<Rightarrow> insert (ref_PageID seg) (set ids)
      | _ \<Rightarrow> {})"

lemma pageRaw_reads: "reads p' = reads p \<Longrightarrow> pageRaw p' pid = pageRaw p pid"
  by (simp add: reads_def pageRaw_def mmapPage_def ps_def split: option.splits)

lemma usable_segment_state: "usable_segment env seg p = (r, p') \<Longrightarrow> p' = p"
  by (auto simp: usable_segment_def read_segment_def pm_defs get_bitmap_def raw_def lift_page_def
      split: option.splits if_splits sum.splits)

lemma usable_segment_reads:
  assumes "reads p' = reads p" "bmap p = Some b" "bmap p' = Some b'" "geom b' = geom b"
  shows "fst (usable_segment env seg p') = fst (usable_segment env seg p)"
proof -
  have "in_data b' = in_data b" using assms(4) by (auto simp: in_data_def geom_def)
  then have d: "in_data b' x = in_data b x" "list_all (in_data b') xs = list_all (in_data b) xs" for x xs by simp_all
  have c: "cfg p' = cfg p" using assms(1) by (simp add: reads_def)
  have "pageRaw p' (ref_PageID seg) = pageRaw p (ref_PageID seg)" by (rule pageRaw_reads [OF assms(1)])
  then show ?thesis using assms(2,3) d c
    by (simp add: usable_segment_def read_segment_def pm_defs get_bitmap_def raw_def lift_page_def
        split: sum.splits option.splits seg_read.splits)
qed

lemma usable_segment_ids:
  assumes "usable_segment env seg p = (Inr (Some ids), p')" "bmap p = Some b"
  shows "allocatable b (ref_PageID seg)" "\<forall>pid \<in> set ids. allocatable b pid"
  using assms
  by (auto simp: usable_segment_def read_segment_def pm_defs get_bitmap_def raw_def lift_page_def list_all_iff in_data_def allocatable_def
      split: option.splits if_splits sum.splits)

section \<open>What reclamation changes\<close>

definition grow :: "Env \<Rightarrow> Pager \<Rightarrow> Pager \<Rightarrow> bool" where
  "grow env p p' \<longleftrightarrow> reads p' = reads p \<and> pendingAllocs p' = pendingAllocs p \<and> loosePages p' = loosePages p \<and>
     highWaterMark p' = highWaterMark p \<and> set (rplSegments p') \<subseteq> set (rplSegments p) \<and>
     (\<forall>b. bmap p = Some b \<and> bm_wf b \<longrightarrow> (\<exists>b'. bmap p' = Some b' \<and> bm_wf b' \<and> geom b' = geom b \<and>
        free_pages b \<subseteq> free_pages b' \<and> free_pages b' \<subseteq> free_pages b \<union> reclaimable env p))"

lemma reclaimable_mono:
  assumes "reads p' = reads p" "bmap p = Some b" "bmap p' = Some b'" "geom b' = geom b" "set (rplSegments p') \<subseteq> set (rplSegments p)"
  shows "reclaimable env p' \<subseteq> reclaimable env p"
  using assms(5) usable_segment_reads [OF assms(1-4), of env] unfolding reclaimable_def by auto

interpretation grel: step_rel "grow env" for env
proof
  show "grow env p p" for p by (auto simp: grow_def)
  show "grow env p r" if pq: "grow env p q" and qr: "grow env q r" for p q r
  proof -
    have "\<exists>b''. bmap r = Some b'' \<and> bm_wf b'' \<and> geom b'' = geom b \<and>
        free_pages b \<subseteq> free_pages b'' \<and> free_pages b'' \<subseteq> free_pages b \<union> reclaimable env p"
      if b: "bmap p = Some b" "bm_wf b" for b
    proof -
      obtain b' where b': "bmap q = Some b'" "bm_wf b'" "geom b' = geom b" "free_pages b \<subseteq> free_pages b'"
          "free_pages b' \<subseteq> free_pages b \<union> reclaimable env p"
        using pq b by (auto simp: grow_def)
      obtain b'' where "bmap r = Some b''" "bm_wf b''" "geom b'' = geom b'" "free_pages b' \<subseteq> free_pages b''"
          "free_pages b'' \<subseteq> free_pages b' \<union> reclaimable env q"
        using qr b'(1,2) by (auto simp: grow_def)
      moreover have "reclaimable env q \<subseteq> reclaimable env p"
        by (rule reclaimable_mono [OF _ b(1) b'(1,3)]) (use pq in \<open>simp_all add: grow_def\<close>)
      ultimately show ?thesis using b' by auto
    qed
    then show ?thesis using pq qr by (auto simp: grow_def)
  qed
qed

lemma grow_frame:
  assumes "reads p' = reads p" "pendingAllocs p' = pendingAllocs p" "loosePages p' = loosePages p"
    "highWaterMark p' = highWaterMark p" "set (rplSegments p') \<subseteq> set (rplSegments p)" "bmap p' = bmap p"
  shows "grow env p p'"
  using assms by (auto simp: grow_def)

text \<open>Setting bits of pages that the chain lists.\<close>

lemma sets_run:
  assumes "bm_wf b" "\<forall>pid \<in> set ids. allocatable b pid" "bmap p = Some b"
  shows "\<exists>b'. each_pm (\<lambda>pid. with_bitmap (\<lambda>b. Set b pid)) ids p = (Inr (), p\<lparr>bmap := Some b'\<rparr>) \<and>
    bm_wf b' \<and> geom b' = geom b \<and> free_pages b' = free_pages b \<union> set ids"
  using assms
proof (induction ids arbitrary: p b)
  case Nil
  then show ?case by (intro exI [of _ b]) (cases p, simp add: ret_def)
next
  case (Cons i ids)
  obtain b1 where b1: "Set b i = Inr b1" "bm_wf b1" "free_pages b1 = insert i (free_pages b)" "geom b1 = geom b"
    using Set_ok [OF Cons.prems(1), of i] Cons.prems(2) by auto
  have "\<forall>pid \<in> set ids. allocatable b1 pid" using Cons.prems(2) allocatable_geom [OF b1(4)] by simp
  then obtain b' where "each_pm (\<lambda>pid. with_bitmap (\<lambda>b. Set b pid)) ids (p\<lparr>bmap := Some b1\<rparr>) = (Inr (), p\<lparr>bmap := Some b'\<rparr>)"
      "bm_wf b'" "geom b' = geom b1" "free_pages b' = free_pages b1 \<union> set ids"
    using Cons.IH [OF b1(2), of "p\<lparr>bmap := Some b1\<rparr>"] by auto
  then show ?case using b1 Cons.prems(3) by (intro exI [of _ b']) (auto simp: bnd_def with_bitmap_def [of _ p])
qed

lemma reclaim_loop_grows:
  assumes "reclaim_loop env segs count lst p = (r, p')" "rplSegments p = segs" "bmap p = Some b" "bm_wf b"
  shows "grow env p p' \<and> (\<forall>c l. r = Inr (c, l) \<longrightarrow> count \<le> c \<and> (c = count \<longrightarrow> bmap p' = bmap p))"
  using assms
proof (induction segs arbitrary: count lst p b)
  case Nil
  then show ?case by (auto simp: ret_def grel.refl)
next
  case (Cons seg segs)
  have trim: "rplSegments (trimRPLChainTail 1 q) = segs" if "rplSegments q = seg # segs" for q
    using that by (simp add: trimRPLChainTail_def)
  show ?case
  proof (cases "ref_TxnID seg < reclamationBound p")
    case False
    then show ?thesis using Cons.prems(1) by (auto simp: bnd_def get_def ret_def grel.refl)
  next
    case True
    obtain x where x: "usable_segment env seg p = (x, p)"
      using usable_segment_state by (cases "usable_segment env seg p") blast
    show ?thesis
    proof (cases x)
      case (Inl e)
      then show ?thesis using Cons.prems(1) True x by (auto simp: bnd_def get_def grel.refl)
    next
      case (Inr y)
      show ?thesis
      proof (cases y)
        case None
        let ?q = "trimRPLChainTail 1 (p\<lparr>rplCorruptCount := rplCorruptCount p + 1\<rparr>)"
        have run: "reclaim_loop env segs count lst ?q = (r, p')"
          using Cons.prems(1) True x Inr None by (simp add: bnd_def get_def upd_def)
        have q: "grow env p ?q" "bmap ?q = Some b"
          using Cons.prems(2,3) by (auto simp: trimRPLChainTail_def reads_def intro!: grow_frame)
        have "rplSegments ?q = segs" using Cons.prems(2) by (intro trim) simp
        from Cons.IH [OF run this q(2) Cons.prems(4)] show ?thesis
          using grel.trans [OF q(1)] q(2) Cons.prems(3) by auto
      next
        case (Some ids)
        have al: "allocatable b (ref_PageID seg)" "\<forall>pid \<in> set ids. allocatable b pid"
          using usable_segment_ids [of env seg p ids p b] x Inr Some Cons.prems(3) by simp_all
        obtain b1 where b1: "each_pm (\<lambda>pid. with_bitmap (\<lambda>b. Set b pid)) ids p = (Inr (), p\<lparr>bmap := Some b1\<rparr>)"
            "bm_wf b1" "geom b1 = geom b" "free_pages b1 = free_pages b \<union> set ids"
          using sets_run [OF Cons.prems(4) al(2) Cons.prems(3)] by blast
        obtain b2 where b2: "Set b1 (ref_PageID seg) = Inr b2" "bm_wf b2" "free_pages b2 = insert (ref_PageID seg) (free_pages b1)" "geom b2 = geom b1"
          using Set_ok [OF b1(2), of "ref_PageID seg"] al(1) allocatable_geom [OF b1(3)] by auto
        let ?q = "trimRPLChainTail 1 (p\<lparr>bmap := Some b2\<rparr>)"
        have run: "reclaim_loop env segs (count + length ids + 1) (ref_PageID seg) ?q = (r, p')"
          using Cons.prems(1) True x Inr Some b1(1) b2(1) by (simp add: bnd_def get_def upd_def with_bitmap_def)
        have "insert (ref_PageID seg) (set ids) \<subseteq> reclaimable env p"
          unfolding reclaimable_def using Cons.prems(2) x Inr Some by auto
        then have q: "grow env p ?q" "bmap ?q = Some b2"
          using Cons.prems(2,3) b1 b2 by (auto simp: trimRPLChainTail_def reads_def grow_def)
        have "rplSegments ?q = segs" using Cons.prems(2) by (intro trim) simp
        from Cons.IH [OF run this q(2) b2(2)] show ?thesis using grel.trans [OF q(1)] by fastforce
      qed
    qed
  qed
qed

lemma reclaimRPL_grows:
  assumes "reclaimRPL env p = (r, p')" "bmap p = Some b" "bm_wf b"
  shows "grow env p p' \<and> (r = Inr 0 \<longrightarrow> bmap p' = bmap p)"
proof -
  obtain a q where a: "reclaim_loop env (rplSegments p) 0 0 p = (a, q)" by (cases "reclaim_loop env (rplSegments p) 0 0 p")
  note g = reclaim_loop_grows [OF a refl assms(2,3)]
  obtain b' where b': "bmap q = Some b'" "bm_wf b'" using g assms(2,3) by (auto simp: grow_def)
  show ?thesis
  proof (cases a)
    case (Inl e)
    then show ?thesis using assms(1) a g by (auto simp: reclaimRPL_def bnd_def)
  next
    case (Inr cl)
    obtain c l where cl: "cl = (c, l)" by (cases cl)
    let ?tc = "\<lambda>q. q\<lparr>tc := (tc q)\<lparr>ReclaimedPages := ReclaimedPages (tc q) + c\<rparr>\<rparr>"
    let ?h = "q\<lparr>bmap := Some (SetHint b' l)\<rparr>"
    have t: "grow env u (?tc u)" for u by (rule grow_frame) (simp_all add: reads_def)
    have "geom (SetHint b' l) = geom b'" by (simp add: SetHint_def geom_def)
    then have "grow env q ?h" using b' SetHint_wf by (auto simp: grow_def reads_def)
    then have "grow env p (?tc ?h)" "grow env p (?tc q)" using g t grel.trans by blast+
    moreover have "(r, p') = (Inr c, ?tc (if c > 0 then ?h else q))"
      using assms(1) a Inr cl b'(1) by (auto simp: reclaimRPL_def pm_defs with_bitmap_def split: if_splits)
    ultimately show ?thesis using g Inr cl by (cases "c > 0") auto
  qed
qed

section \<open>The tiers\<close>

text \<open>
  A claimed page was free or reclaimable, and is no longer free; nothing else joins the pending
  allocations. Without a page, nothing is free; on an error other than a panic nothing is booked.
\<close>

definition booked :: "Env \<Rightarrow> Pager \<Rightarrow> nat \<Rightarrow> Pager \<Rightarrow> bool" where
  "booked env p pid p' \<longleftrightarrow> pendingAllocs p' = insert pid (pendingAllocs p) \<and> pid < highWaterMark p' \<and>
     (\<exists>b'. bmap p' = Some b' \<and> bm_wf b' \<and> pid \<notin> free_pages b')"

definition same_books :: "Pager \<Rightarrow> Pager \<Rightarrow> bool" where
  "same_books p p' \<longleftrightarrow> pendingAllocs p' = pendingAllocs p \<and> loosePages p' = loosePages p \<and> highWaterMark p' = highWaterMark p"

definition dry :: "Pager \<Rightarrow> bool" where
  "dry p \<longleftrightarrow> (\<exists>b. bmap p = Some b \<and> free_pages b = {})"

definition tier :: "Env \<Rightarrow> Pager \<Rightarrow> pg_err + nat option \<Rightarrow> Pager \<Rightarrow> bool" where
  "tier env p r p' \<longleftrightarrow> (\<forall>b. bmap p = Some b \<and> bm_wf b \<longrightarrow>
     (case r of
        Inr (Some pid) \<Rightarrow> pid \<in> free_pages b \<union> reclaimable env p \<and> booked env p pid p'
      | Inr None \<Rightarrow> grow env p p'
      | Inl e \<Rightarrow> is_panic e \<or> same_books p p'))"

lemma grow_books: "grow env p p' \<Longrightarrow> same_books p p'"
  by (simp add: grow_def same_books_def)

lemma claimBitmapPage_books:
  assumes b: "bmap p = Some b" "bm_wf b" "pid \<in> free_pages b" and run: "claimBitmapPage pid p = (r, p')"
  shows "case r of Inr _ \<Rightarrow> booked env p pid p' | Inl e \<Rightarrow> same_books p p'"
proof -
  obtain x q where q: "ensureFileCovers (pid + 1) p = (x, q)" by (cases "ensureFileCovers (pid + 1) p")
  have qf: "same_books p q" "bmap q = Some b" "pendingAllocs q = pendingAllocs p"
    using q b(1) by (auto simp: ensureFileCovers_def same_books_def Let_def split: if_splits prod.splits)
  have "allocatable b pid" using free_pages_range [OF b(2,3)] by (simp add: allocatable_def)
  then obtain b1 where b1: "Clear b pid = Inr b1" "bm_wf b1" "free_pages b1 = free_pages b - {pid}"
    using Clear_ok [OF b(2)] by blast
  let ?q = "if pid \<ge> highWaterMark q then q\<lparr>highWaterMark := pid + 1\<rparr> else q"
  let ?e = "delFree pid (addAlloc pid (?q\<lparr>bmap := Some (SetHint b1 pid)\<rparr>))"
  show ?thesis
  proof (cases x)
    case (Inl e)
    then show ?thesis using run q qf by (auto simp: claimBitmapPage_def bnd_def)
  next
    case (Inr u)
    have "bmap ?q = Some b" "pendingAllocs ?q = pendingAllocs p" "pid < highWaterMark ?q" using qf by simp_all
    moreover from this have "r = Inr ()" "p' = ?e" using run q Inr b1(1) by (simp_all add: claimBitmapPage_def bnd_def upd_def with_bitmap_def)
    moreover have "bm_wf (SetHint b1 pid)" "pid \<notin> free_pages (SetHint b1 pid)" using b1 SetHint_wf by simp_all
    ultimately show ?thesis
      by (simp add: booked_def delFree_def addAlloc_def recordSavepointUndo_def Let_def)
  qed
qed

lemma find_claim_tier:
  assumes "bmap p = Some b" "bm_wf b" "find_claim p = (r, p')"
  shows "tier env p r p' \<and> (r = Inr None \<longrightarrow> dry p')"
proof (cases "FindFirst b")
  case None
  then have "r = Inr None" "p' = p" using assms(1,3) by (simp_all add: find_claim_def bnd_def get_bitmap_def ret_def)
  moreover have "free_pages b = {}" using None FindFirst_next [OF assms(2)] by simp
  ultimately show ?thesis using assms(1) by (simp add: tier_def dry_def grel.refl)
next
  case (Some pid)
  then have f: "pid \<in> free_pages b" using FindFirst_next [OF assms(2)] next_from_SomeD by metis
  obtain x q where q: "claimBitmapPage pid p = (x, q)" by (cases "claimBitmapPage pid p")
  have "(r, p') = (case x of Inl e \<Rightarrow> Inl e | Inr _ \<Rightarrow> Inr (Some pid), q)"
    using assms(1,3) Some q by (auto simp: find_claim_def bnd_def get_bitmap_def ret_def split: sum.splits)
  then show ?thesis
    using claimBitmapPage_books [OF assms(1,2) f q, of env] f assms(1)
    by (cases x) (auto simp: tier_def)
qed

end
