(* ===== verification/Buffer.thy ===== *)
theory Buffer
  imports Page_Base "HOL-Library.List_Lexorder" "HOL-Library.Sublist"
begin

text \<open>
  Checked access to page buffers, shared by the node formats of \<^verbatim>\<open>src/internal/page\<close>: a read or a
  slice out of range is the Go panic, a value of the error type. The predicate \<open>holds\<close> says which
  bytes a buffer has at an offset; the encoders are described by it. Also here: \<^verbatim>\<open>bytes.Compare\<close>,
  the two binary searches the formats share, and the common prefix of two keys.
\<close>

declare push_bit_of_1 [simp del]

named_theorems access_simps \<open>checked reads of a buffer whose content is known\<close>

text \<open>
  The errors of the node formats and of the tree built on them. \<open>PanicCall\<close> is an explicit panic of
  the source, \<open>Corrupt\<close> its \<^verbatim>\<open>ErrCorrupted\<close>, \<open>TooDeep\<close> and \<open>KeyTooLarge\<close> the other sentinels of the tree; \<open>Failed\<close> carries the code of an error that the
  page reader or writer of the caller returned, which the formats and the tree only pass on.
\<close>

datatype node_err =
    Panic page_err | PanicCall | Corrupt | EncBufLen | EncUnsorted | EncResidentLen | EncInlineLen | EncNoFit
  | TooDeep | KeyTooLarge | Failed nat

section \<open>Checked reads and writes\<close>

definition slice :: "bytes \<Rightarrow> nat \<Rightarrow> nat \<Rightarrow> node_err + bytes" where
  "slice buf lo hi = (if lo \<le> hi \<and> hi \<le> length buf then Inr (field buf lo (hi - lo)) else Inl (Panic PanicBounds))"

definition u8_at :: "bytes \<Rightarrow> nat \<Rightarrow> node_err + byte" where
  "u8_at buf off = (if off < length buf then Inr (buf ! off) else Inl (Panic PanicBounds))"

definition u16_at :: "bytes \<Rightarrow> nat \<Rightarrow> node_err + u16" where
  "u16_at buf off = (if off + 2 \<le> length buf then Inr (Uint16 buf off) else Inl (Panic PanicBounds))"

definition u32_at :: "bytes \<Rightarrow> nat \<Rightarrow> node_err + u32" where
  "u32_at buf off = (if off + 4 \<le> length buf then Inr (Uint32 buf off) else Inl (Panic PanicBounds))"

definition u64_at :: "bytes \<Rightarrow> nat \<Rightarrow> node_err + u64" where
  "u64_at buf off = (if off + 8 \<le> length buf then Inr (Uint64 buf off) else Inl (Panic PanicBounds))"

text \<open>A write of known length at an offset; \<^verbatim>\<open>copy(buf[off:], bs)\<close>, which stops at the buffer's end.\<close>

definition put_at :: "bytes \<Rightarrow> nat \<Rightarrow> bytes \<Rightarrow> node_err + bytes" where
  "put_at buf off bs = (if off + length bs \<le> length buf then Inr (overwrite buf off bs) else Inl (Panic PanicBounds))"

definition copy_at :: "bytes \<Rightarrow> nat \<Rightarrow> bytes \<Rightarrow> node_err + bytes" where
  "copy_at buf off bs = (if off \<le> length buf then Inr (overwrite buf off (take (length buf - off) bs)) else Inl (Panic PanicBounds))"

definition lift_panic :: "page_err + 'a \<Rightarrow> node_err + 'a" where
  "lift_panic r = (case r of Inl e \<Rightarrow> Inl (Panic e) | Inr x \<Rightarrow> Inr x)"

fun panics :: "node_err + 'a \<Rightarrow> bool" where
  "panics (Inl (Panic e)) = True"
| "panics (Inl PanicCall) = True"
| "panics _ = False"

lemma panics_bind: "panics (bind_res r f) \<longleftrightarrow> panics r \<or> (\<exists>x. r = Inr x \<and> panics (f x))"
  by (cases r rule: panics.cases) auto

text \<open>A loop over the elements of a list that stops at the first error.\<close>

fun each_res :: "('a \<Rightarrow> 'e + 'b) \<Rightarrow> 'a list \<Rightarrow> 'e + 'b list" where
  "each_res f [] = Inr []"
| "each_res f (x # xs) = bind_res (f x) (\<lambda>y. bind_res (each_res f xs) (\<lambda>ys. Inr (y # ys)))"

lemma each_res_map: "(\<And>x. x \<in> set xs \<Longrightarrow> f x = Inr (g x)) \<Longrightarrow> each_res f xs = Inr (map g xs)"
  by (induction xs) auto

abbreviation w16 :: "u16 \<Rightarrow> bytes" where "w16 v \<equiv> le_bytes 2 (unat v)"
abbreviation w32 :: "u32 \<Rightarrow> bytes" where "w32 v \<equiv> le_bytes 4 (unat v)"
abbreviation w64 :: "u64 \<Rightarrow> bytes" where "w64 v \<equiv> le_bytes 8 (unat v)"

section \<open>What a buffer holds\<close>

definition holds :: "bytes \<Rightarrow> nat \<Rightarrow> bytes \<Rightarrow> bool" where
  "holds buf off bs \<longleftrightarrow> off + length bs \<le> length buf \<and> field buf off (length bs) = bs"

lemma holds_len: "holds buf off bs \<Longrightarrow> off + length bs \<le> length buf"
  by (simp add: holds_def)

lemma holds_nth: "holds buf off bs \<longleftrightarrow> off + length bs \<le> length buf \<and> (\<forall>i < length bs. buf ! (off + i) = bs ! i)"
  unfolding holds_def by (auto simp: field_nth [symmetric] intro!: nth_equalityI)

lemma holds_append: "holds buf off (xs @ ys) \<longleftrightarrow> holds buf off xs \<and> holds buf (off + length xs) ys"
proof -
  have "(\<forall>i < length (xs @ ys). buf ! (off + i) = (xs @ ys) ! i) \<longleftrightarrow>
      (\<forall>i < length xs. buf ! (off + i) = xs ! i) \<and> (\<forall>i < length ys. buf ! (off + length xs + i) = ys ! i)"
    (is "?L \<longleftrightarrow> ?A \<and> ?B")
  proof
    assume L: ?L
    have "buf ! (off + length xs + i) = ys ! i" if "i < length ys" for i
      using L [rule_format, of "length xs + i"] that by (simp add: nth_append add.assoc)
    moreover have "buf ! (off + i) = xs ! i" if "i < length xs" for i
      using L [rule_format, of i] that by (simp add: nth_append)
    ultimately show "?A \<and> ?B" by blast
  next
    assume "?A \<and> ?B"
    then have A: ?A and B: ?B by blast+
    show ?L
    proof (intro allI impI)
      fix i assume "i < length (xs @ ys)"
      then show "buf ! (off + i) = (xs @ ys) ! i"
        using A B [rule_format, of "i - length xs"] by (cases "i < length xs") (auto simp: nth_append)
    qed
  qed
  then show ?thesis unfolding holds_nth by (auto simp: add.assoc)
qed

lemma holds_same: "off + length bs \<le> length buf \<Longrightarrow> holds (overwrite buf off bs) off bs"
  by (simp add: holds_def field_overwrite_same)

lemma holds_other:
  assumes "holds buf off bs" "off + length bs \<le> off' \<or> off' + length bs' \<le> off" "off' + length bs' \<le> length buf"
  shows "holds (overwrite buf off' bs') off bs"
  using assms by (auto simp: holds_nth nth_overwrite)

text \<open>A buffer that differs from another only in the given places.\<close>

definition differs_in :: "nat set \<Rightarrow> bytes \<Rightarrow> bytes \<Rightarrow> bool" where
  "differs_in S buf buf' \<longleftrightarrow> length buf' = length buf \<and> (\<forall>i. i \<notin> S \<longrightarrow> buf' ! i = buf ! i)"

lemma differs_refl [simp]: "differs_in S buf buf" by (simp add: differs_in_def)

lemma differs_trans:
  assumes "differs_in S a b" "differs_in T b c" "S \<subseteq> U" "T \<subseteq> U"
  shows "differs_in U a c"
  unfolding differs_in_def
proof (intro conjI allI impI)
  show "length c = length a" using assms(1,2) by (simp add: differs_in_def)
  fix i assume "i \<notin> U"
  then have "i \<notin> S" "i \<notin> T" using assms(3,4) by auto
  then show "c ! i = a ! i" using assms(1,2) by (simp add: differs_in_def)
qed

lemma differs_len: "differs_in S a b \<Longrightarrow> length b = length a" by (simp add: differs_in_def)

lemma overwrite_differs: "off + length bs \<le> length buf \<Longrightarrow> differs_in {off..<off + length bs} buf (overwrite buf off bs)"
  by (auto simp: differs_in_def nth_overwrite)

lemma differs_holds:
  assumes "differs_in S a b" "holds a off bs" "{off..<off + length bs} \<inter> S = {}"
  shows "holds b off bs"
  unfolding holds_nth
proof (intro conjI allI impI)
  show "off + length bs \<le> length b" using assms(1,2) by (simp add: differs_in_def holds_def)
  fix i assume i: "i < length bs"
  then have "off + i \<in> {off..<off + length bs}" by simp
  then have "off + i \<notin> S" using assms(3) by blast
  then show "b ! (off + i) = bs ! i" using assms(1,2) i by (simp add: differs_in_def holds_nth)
qed

lemma differs_field:
  assumes "differs_in S a b" "{off..<off + n} \<inter> S = {}"
  shows "field b off n = field a off n"
proof (rule nth_equalityI)
  show "length (field b off n) = length (field a off n)" using assms(1) by (simp add: field_def differs_in_def)
next
  fix i assume i: "i < length (field b off n)"
  then have "off + i \<in> {off..<off + n}" "off + i < length b" by (auto simp: field_def)
  moreover from this have "off + i \<notin> S" using assms(2) by blast
  ultimately show "field b off n ! i = field a off n ! i"
    using assms(1) i by (auto simp: field_def differs_in_def)
qed

text \<open>Reading what a buffer holds.\<close>

lemma holds_u8 [access_simps]: "holds buf off [v] \<Longrightarrow> u8_at buf off = Inr v"
  by (simp add: u8_at_def holds_nth)

lemma holds_u16 [access_simps]: "holds buf off (le_bytes 2 (unat v)) \<Longrightarrow> u16_at buf off = Inr v"
  by (simp add: u16_at_def holds_def Uint16_def word_le_bytes del: le_bytes.simps)

lemma holds_u32 [access_simps]: "holds buf off (le_bytes 4 (unat v)) \<Longrightarrow> u32_at buf off = Inr v"
  by (simp add: u32_at_def holds_def Uint32_def word_le_bytes del: le_bytes.simps)

lemma holds_u64 [access_simps]: "holds buf off (le_bytes 8 (unat v)) \<Longrightarrow> u64_at buf off = Inr v"
  by (simp add: u64_at_def holds_def Uint64_def word_le_bytes del: le_bytes.simps)

lemma holds_slice: "holds buf off bs \<Longrightarrow> hi = off + length bs \<Longrightarrow> slice buf off hi = Inr bs"
  by (simp add: slice_def holds_def)

lemma read_ok:
  "off < length buf \<Longrightarrow> u8_at buf off = Inr (buf ! off)"
  "off + 2 \<le> length buf \<Longrightarrow> u16_at buf off = Inr (Uint16 buf off)"
  "off + 4 \<le> length buf \<Longrightarrow> u32_at buf off = Inr (Uint32 buf off)"
  "off + 8 \<le> length buf \<Longrightarrow> u64_at buf off = Inr (Uint64 buf off)"
  "lo \<le> hi \<Longrightarrow> hi \<le> length buf \<Longrightarrow> slice buf lo hi = Inr (field buf lo (hi - lo))"
  by (simp_all add: u8_at_def u16_at_def u32_at_def u64_at_def slice_def)

lemma put_at_ok: "off + length bs \<le> length buf \<Longrightarrow> put_at buf off bs = Inr (overwrite buf off bs)"
  by (simp add: put_at_def)

lemma copy_at_ok: "off + length bs \<le> length buf \<Longrightarrow> copy_at buf off bs = Inr (overwrite buf off bs)"
  by (simp add: copy_at_def)

section \<open>Comparison of byte strings\<close>

definition Compare :: "bytes \<Rightarrow> bytes \<Rightarrow> int" where
  "Compare a b = (if a < b then -1 else if a = b then 0 else 1)"

lemma Compare_less [simp]: "Compare a b < 0 \<longleftrightarrow> a < b" "0 < Compare a b \<longleftrightarrow> b < a" "Compare a b = 0 \<longleftrightarrow> a = b"
  by (auto simp: Compare_def)

lemma Compare_anti: "- Compare a b = Compare b a"
  by (auto simp: Compare_def dest: less_trans)

text \<open>Comparison ignores a common prefix, and is decided at the first difference.\<close>

lemma less_same_prefix [simp]: "(p @ a < p @ b) = (a < (b :: 'a::linorder list))"
  by (induction p) auto

lemma le_same_prefix [simp]: "(p @ a \<le> p @ b) = (a \<le> (b :: 'a::linorder list))"
  by (auto simp: le_less)

lemma less_diff_take:
  fixes a b :: "'a::linorder list"
  assumes "take k a \<noteq> take k b" "k \<le> length a" "k \<le> length b"
  shows "a < b \<longleftrightarrow> take k a < take k b"
  using assms
proof (induction k arbitrary: a b)
  case (Suc k)
  obtain x a' y b' where ab: "a = x # a'" "b = y # b'" using Suc.prems(2,3) by (cases a; cases b) auto
  then show ?case using Suc.IH [of a' b'] Suc.prems by (cases "x = y") auto
qed simp

lemma append_less: "zs \<noteq> [] \<Longrightarrow> a < a @ (zs :: 'a::linorder list)"
  by (induction a) (auto simp: neq_Nil_conv)

lemma append_le [simp]: "a \<le> a @ (zs :: 'a::linorder list)"
  by (induction a) auto

section \<open>The common prefix of two keys\<close>

fun sharedPrefixLen :: "bytes \<Rightarrow> bytes \<Rightarrow> nat" where
  "sharedPrefixLen (x # xs) (y # ys) = (if x \<noteq> y then 0 else Suc (sharedPrefixLen xs ys))"
| "sharedPrefixLen _ _ = 0"

lemma sharedPrefixLen_le: "sharedPrefixLen a b \<le> length a" "sharedPrefixLen a b \<le> length b"
  by (induction a b rule: sharedPrefixLen.induct) auto

lemma sharedPrefixLen_take: "take (sharedPrefixLen a b) a = take (sharedPrefixLen a b) b"
  by (induction a b rule: sharedPrefixLen.induct) auto

lemma sharedPrefixLen_max: "take k a = take k b \<Longrightarrow> k \<le> length a \<Longrightarrow> k \<le> length b \<Longrightarrow> k \<le> sharedPrefixLen a b"
proof (induction a b arbitrary: k rule: sharedPrefixLen.induct)
  case (1 x xs y ys)
  show ?case
  proof (cases k)
    case (Suc j)
    then show ?thesis using 1 by simp
  qed simp
qed simp_all

lemma sharedPrefixLen_diff:
  "sharedPrefixLen a b < length a \<Longrightarrow> sharedPrefixLen a b < length b \<Longrightarrow> a ! sharedPrefixLen a b \<noteq> b ! sharedPrefixLen a b"
  by (induction a b rule: sharedPrefixLen.induct) auto

lemma between_prefix:
  fixes a x b :: "'a::linorder list"
  assumes "take m a = take m b" "m \<le> length a" "m \<le> length b" "a \<le> x" "x \<le> b"
  shows "m \<le> length x \<and> take m x = take m a"
  using assms
proof (induction m arbitrary: a x b)
  case (Suc m)
  obtain h a' where a: "a = h # a'" using Suc.prems(2) by (cases a) auto
  obtain b' where b: "b = h # b'" using Suc.prems(1,3) a by (cases b) auto
  obtain h' x' where x: "x = h' # x'" using Suc.prems(4) a by (cases x) auto
  have "h \<le> h'" "h' \<le> h" using Suc.prems(4,5) a b x by (auto simp: le_less)
  then have h: "h' = h" by simp
  then have "a' \<le> x'" "x' \<le> b'" using Suc.prems(4,5) a b x by simp_all
  moreover have "take m a' = take m b'" "m \<le> length a'" "m \<le> length b'" using Suc.prems a b by simp_all
  ultimately show ?case using Suc.IH [of a' b' x'] a x h by simp
qed simp

section \<open>Binary search\<close>

text \<open>
  \<^verbatim>\<open>for lo < hi { mid := (lo+hi)/2; ... }\<close> with a probe that may fail: the first index whose probe
  says that the target is less, and the search with a three-way comparison that stops on equality.
\<close>

function bsearch :: "(nat \<Rightarrow> 'e + bool) \<Rightarrow> nat \<Rightarrow> nat \<Rightarrow> 'e + nat" where
  "bsearch probe lo hi =
     (if lo < hi then
        (let mid = (lo + hi) div 2 in
         case probe mid of
           Inl e \<Rightarrow> Inl e
         | Inr True \<Rightarrow> bsearch probe lo mid
         | Inr False \<Rightarrow> bsearch probe (mid + 1) hi)
      else Inr lo)"
  by auto
termination by (relation "measure (\<lambda>(probe, lo, hi). hi - lo)") auto

function bsearch3 :: "(nat \<Rightarrow> 'e + int) \<Rightarrow> nat \<Rightarrow> nat \<Rightarrow> 'e + (nat \<times> bool)" where
  "bsearch3 cmp lo hi =
     (if lo < hi then
        (let mid = lo + (hi - lo) div 2 in
         case cmp mid of
           Inl e \<Rightarrow> Inl e
         | Inr c \<Rightarrow> if c < 0 then bsearch3 cmp (mid + 1) hi
                    else if c = 0 then Inr (mid, True)
                    else bsearch3 cmp lo mid)
      else Inr (lo, False))"
  by auto
termination by (relation "measure (\<lambda>(cmp, lo, hi). hi - lo)") auto

declare bsearch.simps [simp del] bsearch3.simps [simp del]

lemma bsearch_partition:
  assumes "\<And>i. i < n \<Longrightarrow> probe i = Inr (P i)" "\<And>i j. i < j \<Longrightarrow> j < n \<Longrightarrow> P i \<Longrightarrow> P j"
    and "lo \<le> hi" "hi \<le> n" "\<forall>i < lo. \<not> P i" "\<forall>i. hi \<le> i \<and> i < n \<longrightarrow> P i"
  shows "\<exists>r. bsearch probe lo hi = Inr r \<and> r \<le> n \<and> (\<forall>i < r. \<not> P i) \<and> (\<forall>i. r \<le> i \<and> i < n \<longrightarrow> P i)"
  using assms(3-)
proof (induction "hi - lo" arbitrary: lo hi rule: less_induct)
  case less
  show ?case
  proof (cases "lo < hi")
    case False
    then show ?thesis using less.prems by (subst bsearch.simps) auto
  next
    case True
    let ?m = "(lo + hi) div 2"
    have m: "lo \<le> ?m" "?m < hi" using True by auto
    have l: "probe ?m = Inr (P ?m)" using assms(1) m less.prems(2) by simp
    show ?thesis
    proof (cases "P ?m")
      case True
      have "P i" if "?m \<le> i" "i < n" for i using assms(2) [of ?m i] that True by (cases "?m = i") auto
      then have "\<exists>r. bsearch probe lo ?m = Inr r \<and> r \<le> n \<and> (\<forall>i < r. \<not> P i) \<and> (\<forall>i. r \<le> i \<and> i < n \<longrightarrow> P i)"
        using less.hyps [of ?m lo] less.prems m by auto
      then show ?thesis using True \<open>lo < hi\<close> l by (subst bsearch.simps) (simp add: Let_def)
    next
      case False
      have "\<not> P i" if "i < ?m + 1" for i using assms(2) [of i ?m] that False less.prems(2) m by (cases "i = ?m") auto
      then have "\<exists>r. bsearch probe (?m + 1) hi = Inr r \<and> r \<le> n \<and> (\<forall>i < r. \<not> P i) \<and> (\<forall>i. r \<le> i \<and> i < n \<longrightarrow> P i)"
        using less.hyps [of hi "?m + 1"] less.prems m by auto
      then show ?thesis using False \<open>lo < hi\<close> l by (subst bsearch.simps) (simp add: Let_def)
    qed
  qed
qed

lemma bsearch3_split:
  assumes "\<And>i. i < n \<Longrightarrow> cmp i = Inr (c i)" "\<And>i j. i < j \<Longrightarrow> j < n \<Longrightarrow> c j \<le> 0 \<Longrightarrow> c i < 0"
    and "lo \<le> hi" "hi \<le> n" "\<forall>i < lo. c i < 0" "\<forall>i. hi \<le> i \<and> i < n \<longrightarrow> 0 < (c i :: int)"
  shows "\<exists>r f. bsearch3 cmp lo hi = Inr (r, f) \<and> r \<le> n \<and> (\<forall>i < r. c i < 0) \<and>
    (if f then r < n \<and> c r = 0 else \<forall>i. r \<le> i \<and> i < n \<longrightarrow> 0 < c i)"
  using assms(3-)
proof (induction "hi - lo" arbitrary: lo hi rule: less_induct)
  case less
  show ?case
  proof (cases "lo < hi")
    case False
    then show ?thesis using less.prems by (subst bsearch3.simps) auto
  next
    case True
    let ?m = "lo + (hi - lo) div 2"
    have m: "lo \<le> ?m" "?m < hi" using True by auto
    have l: "cmp ?m = Inr (c ?m)" using assms(1) m less.prems(2) by simp
    have below: "c i < 0" if "i < ?m" "c ?m \<le> 0" for i using assms(2) [of i ?m] that less.prems(2) m by auto
    consider "c ?m < 0" | "c ?m = 0" | "0 < c ?m" by linarith
    then show ?thesis
    proof cases
      case 1
      then have "\<forall>i < ?m + 1. c i < 0" using below by (metis less_Suc_eq Suc_eq_plus1 less_imp_le)
      moreover have "bsearch3 cmp lo hi = bsearch3 cmp (?m + 1) hi" using 1 True l by (subst bsearch3.simps) (simp add: Let_def)
      ultimately show ?thesis using less.hyps [of hi "?m + 1"] less.prems m by simp
    next
      case 2
      then show ?thesis using True l below m less.prems(2) by (subst bsearch3.simps) (auto simp: Let_def)
    next
      case 3
      have "0 < c i" if "?m \<le> i" "i < n" for i
        using assms(2) [of ?m i] that 3 by (cases "?m = i") fastforce+
      moreover have "bsearch3 cmp lo hi = bsearch3 cmp lo ?m" using 3 True l by (subst bsearch3.simps) (simp add: Let_def)
      ultimately show ?thesis using less.hyps [of ?m lo] less.prems m by (simp only:) auto
    qed
  qed
qed

text \<open>
  The contracts of the two searches, and what a search over sorted keys returns: the number of keys
  up to the target, and the number of keys below it with whether the target is there.
\<close>

lemma count_prefix:
  assumes "r \<le> length keys" "\<forall>i < r. P (keys ! i)" "\<forall>i. r \<le> i \<and> i < length keys \<longrightarrow> \<not> P (keys ! i)"
  shows "length (filter P keys) = r"
proof -
  have "filter P (take r keys) = take r keys" using assms by (simp add: filter_id_conv set_conv_nth) force
  moreover have "filter P (drop r keys) = []"
  proof -
    have "\<not> P x" if x: "x \<in> set (drop r keys)" for x
    proof -
      obtain j where "j < length (drop r keys)" "x = drop r keys ! j" using x unfolding in_set_conv_nth by blast
      then have "j < length keys - r" "x = keys ! (r + j)" using assms(1) by simp_all
      then show ?thesis using assms(3) by auto
    qed
    then show ?thesis by (simp add: filter_empty_conv)
  qed
  ultimately have "filter P (take r keys @ drop r keys) = take r keys" by (simp only: filter_append append_Nil2)
  then show ?thesis using assms(1) by simp
qed

definition rank :: "bytes list \<Rightarrow> bytes \<Rightarrow> nat" where
  "rank keys target = length (filter (\<lambda>k. k < target) keys)"

locale partition_search =
  fixes search :: "(nat \<Rightarrow> 'e + bool) \<Rightarrow> nat \<Rightarrow> 'e + nat"
  assumes finds: "(\<And>i. i < n \<Longrightarrow> probe i = Inr (P i)) \<Longrightarrow> (\<And>i j. i < j \<Longrightarrow> j < n \<Longrightarrow> P i \<Longrightarrow> P j) \<Longrightarrow>
    \<exists>r. search probe n = Inr r \<and> r \<le> n \<and> (\<forall>i < r. \<not> P i) \<and> (\<forall>i. r \<le> i \<and> i < n \<longrightarrow> P i)"
begin

lemma counts:
  fixes keys :: "bytes list"
  assumes "sorted_wrt (<) keys" "\<And>i. i < length keys \<Longrightarrow> probe i = Inr (target < keys ! i)"
  shows "search probe (length keys) = Inr (length (filter (\<lambda>k. k \<le> target) keys))"
proof -
  have "target < keys ! j" if "i < j" "j < length keys" "target < keys ! i" for i j
    using that(3) sorted_wrt_nth_less [OF assms(1) that(1,2)] by (rule less_trans)
  then obtain r where r: "search probe (length keys) = Inr r" "r \<le> length keys" "\<forall>i < r. \<not> target < keys ! i"
      "\<forall>i. r \<le> i \<and> i < length keys \<longrightarrow> target < keys ! i"
    using finds [of "length keys" probe "\<lambda>i. target < keys ! i"] assms(2) by blast
  have "length (filter (\<lambda>k. k \<le> target) keys) = r" by (rule count_prefix) (use r in \<open>auto simp: not_le not_less\<close>)
  then show ?thesis using r(1) by simp
qed

end

interpretation bs: partition_search "\<lambda>probe n. bsearch probe 0 n"
proof
  fix n :: nat and probe :: "nat \<Rightarrow> 'a + bool" and P
  assume "\<And>i. i < n \<Longrightarrow> probe i = Inr (P i)" "\<And>i j. i < j \<Longrightarrow> j < n \<Longrightarrow> P i \<Longrightarrow> P j"
  then show "\<exists>r. bsearch probe 0 n = Inr r \<and> r \<le> n \<and> (\<forall>i < r. \<not> P i) \<and> (\<forall>i. r \<le> i \<and> i < n \<longrightarrow> P i)"
    using bsearch_partition [of n probe P 0 n] by force
qed

locale ordered_lookup =
  fixes search :: "(nat \<Rightarrow> 'e + int) \<Rightarrow> nat \<Rightarrow> 'e + (nat \<times> bool)"
  assumes splits: "(\<And>i. i < n \<Longrightarrow> cmp i = Inr (c i)) \<Longrightarrow> (\<And>i j. i < j \<Longrightarrow> j < n \<Longrightarrow> c j \<le> 0 \<Longrightarrow> c i < 0) \<Longrightarrow>
    \<exists>r f. search cmp n = Inr (r, f) \<and> r \<le> n \<and> (\<forall>i < r. c i < 0) \<and>
      (if f then r < n \<and> c r = 0 else \<forall>i. r \<le> i \<and> i < n \<longrightarrow> 0 < c i)"
begin

lemma ranks:
  assumes "sorted_wrt (<) keys" "\<And>i. i < length keys \<Longrightarrow> cmp i = Inr (Compare (keys ! i) target)"
  shows "search cmp (length keys) = Inr (rank keys target, target \<in> set keys)"
    "target \<in> set keys \<Longrightarrow> rank keys target < length keys \<and> keys ! rank keys target = target"
proof -
  have m: "keys ! i < target" if "i < j" "j < length keys" "keys ! j \<le> target" for i j
    using sorted_wrt_nth_less [OF assms(1) that(1,2)] that(3) by (rule less_le_trans)
  have "Compare (keys ! i) target < 0" if "i < j" "j < length keys" "Compare (keys ! j) target \<le> 0" for i j
    using m [OF that(1,2)] that(3) by (auto simp: le_less)
  then obtain r f where r: "search cmp (length keys) = Inr (r, f)" "r \<le> length keys" "\<forall>i < r. keys ! i < target"
      "if f then r < length keys \<and> keys ! r = target else \<forall>i. r \<le> i \<and> i < length keys \<longrightarrow> target < keys ! i"
    using splits [of "length keys" cmp "\<lambda>i. Compare (keys ! i) target"] assms(2) by (simp only: Compare_less) metis
  have rest: "target \<le> keys ! i" if "r \<le> i" "i < length keys" for i
  proof (cases f)
    case True
    then show ?thesis using r(4) that sorted_wrt_nth_less [OF assms(1), of r i] by (cases "i = r") auto
  next
    case False
    then show ?thesis using r(4) that by auto
  qed
  have rk: "rank keys target = r"
    unfolding rank_def by (rule count_prefix [OF r(2,3)]) (use rest in \<open>auto simp: not_less\<close>)
  have f: "f = (target \<in> set keys)"
  proof
    show "f \<Longrightarrow> target \<in> set keys" using r(4) nth_mem by fastforce
    assume "target \<in> set keys"
    then obtain i where i: "i < length keys" "keys ! i = target" by (auto simp: in_set_conv_nth)
    show f
    proof (rule ccontr)
      assume "\<not> f"
      then have "keys ! i < target \<or> target < keys ! i" using r(3,4) i(1) by (cases "i < r") auto
      then show False using i(2) by simp
    qed
  qed
  show "search cmp (length keys) = Inr (rank keys target, target \<in> set keys)" using r(1) rk f by simp
  show "rank keys target < length keys \<and> keys ! rank keys target = target" if "target \<in> set keys"
    using r(4) rk f that by simp
qed

end

interpretation bs3: ordered_lookup "\<lambda>cmp n. bsearch3 cmp 0 n"
proof
  fix n :: nat and cmp :: "nat \<Rightarrow> 'a + int" and c
  assume "\<And>i. i < n \<Longrightarrow> cmp i = Inr (c i)" "\<And>i j. i < j \<Longrightarrow> j < n \<Longrightarrow> c j \<le> 0 \<Longrightarrow> c i < 0"
  then show "\<exists>r f. bsearch3 cmp 0 n = Inr (r, f) \<and> r \<le> n \<and> (\<forall>i < r. c i < 0) \<and>
      (if f then r < n \<and> c r = 0 else \<forall>i. r \<le> i \<and> i < n \<longrightarrow> 0 < c i)"
    using bsearch3_split [of n cmp c 0 n] by (simp only:) force
qed

end
