(* ===== verification/Branch.thy ===== *)
theory Branch
  imports Buffer
begin

text \<open>
  Branch pages, \<^verbatim>\<open>src/internal/page/branch.go\<close> and \<^verbatim>\<open>branch_segregated.go\<close>: the plain layout with full
  separators behind an offset directory, and the segregated layout with the shared prefix stored
  once, a suffix heap and a child array. Page offsets are natural numbers; where the source's
  arithmetic can go below zero the definitions say so. Indices into the cell directory are the
  values of the source's \<^verbatim>\<open>uint16\<close>. The comparison that reads a key extent is the parameter
  \<open>tailCmp\<close>, as in the source.
\<close>

section \<open>Layout constants and cells\<close>

definition branchChildPtrSize :: nat where "branchChildPtrSize = 8"
definition branchDirEntrySize :: nat where "branchDirEntrySize = 4"
definition branchLeftmostOff :: nat where "branchLeftmostOff = HeaderSize"
definition branchHeaderEnd :: nat where "branchHeaderEnd = branchLeftmostOff + branchChildPtrSize"
definition branchKeyExtRefSize :: nat where "branchKeyExtRefSize = 12"
definition branchDirKeyOverflowBit :: u16 where "branchDirKeyOverflowBit = push_bit 15 1"
definition segBranchPrefixLenOff :: nat where "segBranchPrefixLenOff = branchHeaderEnd"
definition segBranchDirOff :: nat where "segBranchDirOff = segBranchPrefixLenOff + 4"
definition segBranchDirSlotSize :: nat where "segBranchDirSlotSize = 2"
definition segBranchChildOverflowBit :: u64 where "segBranchChildOverflowBit = push_bit 63 1"

lemmas branch_sizes = branchChildPtrSize_def branchDirEntrySize_def branchLeftmostOff_def branchHeaderEnd_def
  branchKeyExtRefSize_def segBranchPrefixLenOff_def segBranchDirOff_def segBranchDirSlotSize_def HeaderSize_def

record BranchCell =
  bc_Key :: bytes
  bc_Child :: u64
  bc_KeyExtPage :: u64
  bc_KeyTotalLen :: u32

type_synonym TailCompare = "bytes \<Rightarrow> u64 \<Rightarrow> u32 \<Rightarrow> node_err + int"

definition cell_IsOverflowKey :: "BranchCell \<Rightarrow> bool" where
  "cell_IsOverflowKey c \<longleftrightarrow> bc_KeyExtPage c \<noteq> 0"

abbreviation content_end :: "Config \<Rightarrow> nat" where
  "content_end cfg \<equiv> nat (ContentEnd cfg)"

abbreviation inline_max :: "Config \<Rightarrow> nat" where
  "inline_max cfg \<equiv> nat (InlineThreshold cfg)"

definition must_validate :: "Config \<Rightarrow> node_err + unit" where
  "must_validate cfg = lift_panic (MustValidate cfg)"

definition read_header :: "bytes \<Rightarrow> node_err + byte \<times> byte \<times> u16 \<times> u32" where
  "read_header buf = lift_panic (ReadHeader buf)"

section \<open>Header fields\<close>

definition BranchLeftmostChild :: "bytes \<Rightarrow> node_err + u64" where
  "BranchLeftmostChild buf = u64_at buf branchLeftmostOff"

definition SetBranchLeftmostChild :: "bytes \<Rightarrow> u64 \<Rightarrow> node_err + bytes" where
  "SetBranchLeftmostChild buf child = put_at buf branchLeftmostOff (w64 child)"

definition BranchCellCount :: "bytes \<Rightarrow> node_err + nat" where
  "BranchCellCount buf =
     bind_res (read_header buf) (\<lambda>(typ, _, count, _).
       if \<not> IsBranchType typ then Inl PanicCall else Inr (unat count))"

definition is_segregated :: "bytes \<Rightarrow> node_err + bool" where
  "is_segregated buf = bind_res (read_header buf) (\<lambda>(typ, _, _, _). Inr (typ = TypeBranchSegregated))"

section \<open>Segregated accessors\<close>

definition segBranchPrefixLen :: "bytes \<Rightarrow> node_err + nat" where
  "segBranchPrefixLen buf = bind_res (u16_at buf segBranchPrefixLenOff) (\<lambda>m. Inr (unat m))"

definition segBranchHeapBase :: "nat \<Rightarrow> nat" where
  "segBranchHeapBase n = segBranchDirOff + (n + 1) * segBranchDirSlotSize"

definition segBranchDirSlot :: "bytes \<Rightarrow> nat \<Rightarrow> node_err + nat" where
  "segBranchDirSlot buf i = bind_res (u16_at buf (segBranchDirOff + i * segBranchDirSlotSize)) (\<lambda>o'. Inr (unat o'))"

definition segBranchChildOff :: "nat \<Rightarrow> nat \<Rightarrow> nat \<Rightarrow> nat \<Rightarrow> int" where
  "segBranchChildOff contentEnd m n i = int contentEnd - int m - 8 * (int n - int i)"

definition segBranchChildRaw :: "bytes \<Rightarrow> nat \<Rightarrow> nat \<Rightarrow> nat \<Rightarrow> nat \<Rightarrow> node_err + u64" where
  "segBranchChildRaw buf contentEnd m n i =
     (let off = segBranchChildOff contentEnd m n i in
      if off < 0 then Inl (Panic PanicBounds) else u64_at buf (nat off))"

definition segBranchCellAt :: "bytes \<Rightarrow> Config \<Rightarrow> nat \<Rightarrow> nat \<Rightarrow> node_err + BranchCell" where
  "segBranchCellAt buf cfg i n =
     (let ce = content_end cfg; hb = segBranchHeapBase n in
      bind_res (segBranchPrefixLen buf) (\<lambda>m.
      bind_res (segBranchDirSlot buf i) (\<lambda>o1.
      bind_res (segBranchDirSlot buf (i + 1)) (\<lambda>o2.
      bind_res (segBranchChildRaw buf ce m n i) (\<lambda>raw.
      let off = hb + o1; end' = hb + o2; child = raw AND NOT segBranchChildOverflowBit in
      if end' < off \<or> ce < m then Inl (Panic PanicBounds)
      else if raw AND segBranchChildOverflowBit \<noteq> 0 then
        (if end' - off < branchKeyExtRefSize then Inl (Panic PanicBounds)
         else
           (let inline = end' - off - branchKeyExtRefSize in
            bind_res (slice buf (ce - m) ce) (\<lambda>p.
            bind_res (slice buf off (off + inline)) (\<lambda>s.
            bind_res (u64_at buf (off + inline)) (\<lambda>ext.
            bind_res (u32_at buf (off + inline + 8)) (\<lambda>tot.
            Inr \<lparr>bc_Key = p @ s, bc_Child = child, bc_KeyExtPage = ext, bc_KeyTotalLen = tot\<rparr>))))))
      else
        bind_res (slice buf (ce - m) ce) (\<lambda>p.
        bind_res (slice buf off end') (\<lambda>s.
        Inr \<lparr>bc_Key = p @ s, bc_Child = child, bc_KeyExtPage = 0, bc_KeyTotalLen = 0\<rparr>)))))))"

section \<open>Cells\<close>

definition raw_len :: "u16 \<Rightarrow> nat" where
  "raw_len raw = unat (raw AND NOT branchDirKeyOverflowBit)"

definition branchCellChildSkip :: "u16 \<Rightarrow> nat" where
  "branchCellChildSkip raw =
     (if raw AND branchDirKeyOverflowBit \<noteq> 0 then raw_len raw + branchKeyExtRefSize else raw_len raw)"

definition dir_entry :: "bytes \<Rightarrow> nat \<Rightarrow> node_err + nat \<times> u16" where
  "dir_entry buf i =
     (let dirOff = branchHeaderEnd + i * branchDirEntrySize in
      bind_res (u16_at buf dirOff) (\<lambda>off.
      bind_res (u16_at buf (dirOff + 2)) (\<lambda>raw. Inr (unat off, raw))))"

definition plain_cell_at :: "bytes \<Rightarrow> Config \<Rightarrow> nat \<Rightarrow> nat \<Rightarrow> node_err + BranchCell" where
  "plain_cell_at buf cfg i n =
     bind_res (dir_entry buf i) (\<lambda>(off, raw).
     let klen = raw_len raw; end' = off + branchCellChildSkip raw + branchChildPtrSize; p = off + klen in
     if off < branchHeaderEnd + n * branchDirEntrySize \<or> end' > content_end cfg then Inl PanicCall
     else
       bind_res (slice buf off p) (\<lambda>key.
       if raw AND branchDirKeyOverflowBit \<noteq> 0 then
         bind_res (u64_at buf p) (\<lambda>ext.
         bind_res (u32_at buf (p + 8)) (\<lambda>tot.
         bind_res (u64_at buf (p + branchKeyExtRefSize)) (\<lambda>child.
         Inr \<lparr>bc_Key = key, bc_Child = child, bc_KeyExtPage = ext, bc_KeyTotalLen = tot\<rparr>)))
       else
         bind_res (u64_at buf p) (\<lambda>child.
         Inr \<lparr>bc_Key = key, bc_Child = child, bc_KeyExtPage = 0, bc_KeyTotalLen = 0\<rparr>)))"

definition BranchCellAt :: "bytes \<Rightarrow> Config \<Rightarrow> nat \<Rightarrow> node_err + BranchCell" where
  "BranchCellAt buf cfg i =
     bind_res (must_validate cfg) (\<lambda>_.
     bind_res (BranchCellCount buf) (\<lambda>n.
     if i \<ge> n then Inl PanicCall
     else bind_res (is_segregated buf) (\<lambda>seg.
       if seg then segBranchCellAt buf cfg i n else plain_cell_at buf cfg i n)))"

definition DecodeBranch :: "bytes \<Rightarrow> Config \<Rightarrow> node_err + u64 \<times> BranchCell list" where
  "DecodeBranch buf cfg =
     bind_res (must_validate cfg) (\<lambda>_.
     bind_res (BranchCellCount buf) (\<lambda>n.
     bind_res (BranchLeftmostChild buf) (\<lambda>leftmost.
     bind_res (each_res (BranchCellAt buf cfg) [0..<n]) (\<lambda>cells. Inr (leftmost, cells)))))"

definition branchCellChild :: "bytes \<Rightarrow> nat \<Rightarrow> node_err + u64" where
  "branchCellChild buf i =
     bind_res (dir_entry buf i) (\<lambda>(off, raw). u64_at buf (off + branchCellChildSkip raw))"

definition BranchChildAt :: "bytes \<Rightarrow> Config \<Rightarrow> nat \<Rightarrow> node_err + u64" where
  "BranchChildAt buf cfg i =
     bind_res (must_validate cfg) (\<lambda>_.
     if i = 0 then BranchLeftmostChild buf
     else bind_res (read_header buf) (\<lambda>(typ, _, count, _).
       if typ = TypeBranchSegregated then
         bind_res (segBranchPrefixLen buf) (\<lambda>m.
         bind_res (segBranchChildRaw buf (content_end cfg) m (unat count) (i - 1)) (\<lambda>raw.
         Inr (raw AND NOT segBranchChildOverflowBit)))
       else branchCellChild buf (i - 1)))"

section \<open>In-place updates\<close>

definition SetBranchCellChild :: "bytes \<Rightarrow> Config \<Rightarrow> nat \<Rightarrow> u64 \<Rightarrow> node_err + bytes" where
  "SetBranchCellChild buf cfg i child =
     bind_res (must_validate cfg) (\<lambda>_.
     bind_res (BranchCellCount buf) (\<lambda>n.
     if i \<ge> n then Inl PanicCall
     else bind_res (is_segregated buf) (\<lambda>seg.
       if seg then
         bind_res (segBranchPrefixLen buf) (\<lambda>m.
         bind_res (segBranchChildRaw buf (content_end cfg) m n i) (\<lambda>raw.
         put_at buf (nat (segBranchChildOff (content_end cfg) m n i))
           (w64 (child OR (raw AND segBranchChildOverflowBit)))))
       else
         bind_res (dir_entry buf i) (\<lambda>(off, raw).
         put_at buf (off + branchCellChildSkip raw) (w64 child)))))"

definition SetBranchCellKeyExtPage :: "bytes \<Rightarrow> Config \<Rightarrow> nat \<Rightarrow> u64 \<Rightarrow> node_err + bytes" where
  "SetBranchCellKeyExtPage buf cfg i extPage =
     bind_res (must_validate cfg) (\<lambda>_.
     bind_res (BranchCellCount buf) (\<lambda>n.
     if i \<ge> n then Inl PanicCall
     else bind_res (is_segregated buf) (\<lambda>seg.
       if seg then
         bind_res (segBranchPrefixLen buf) (\<lambda>m.
         bind_res (segBranchChildRaw buf (content_end cfg) m n i) (\<lambda>raw.
         if raw AND segBranchChildOverflowBit = 0 then Inl PanicCall
         else bind_res (segBranchDirSlot buf (i + 1)) (\<lambda>o2.
           let end' = segBranchHeapBase n + o2 in
           put_at buf (end' - branchKeyExtRefSize) (w64 extPage))))
       else
         bind_res (dir_entry buf i) (\<lambda>(off, raw).
         if raw AND branchDirKeyOverflowBit = 0 then Inl PanicCall
         else put_at buf (off + raw_len raw) (w64 extPage)))))"

section \<open>Sizes\<close>

definition key_len_sum :: "BranchCell list \<Rightarrow> nat" where
  "key_len_sum cells = sum_list (map (\<lambda>c. length (bc_Key c)) cells)"

definition ext_refs :: "BranchCell list \<Rightarrow> nat" where
  "ext_refs cells = length (filter cell_IsOverflowKey cells)"

definition BranchEncodedSizeOf :: "nat \<Rightarrow> nat \<Rightarrow> nat \<Rightarrow> nat" where
  "BranchEncodedSizeOf n keyLenSum extRefs =
     branchHeaderEnd + n * (branchDirEntrySize + branchChildPtrSize) + keyLenSum + extRefs * branchKeyExtRefSize"

text \<open>The source subtracts \<^verbatim>\<open>n*m\<close> from the key bytes, which all share the prefix.\<close>

definition segBranchEncodedSizeOf :: "nat \<Rightarrow> nat \<Rightarrow> nat \<Rightarrow> nat \<Rightarrow> int" where
  "segBranchEncodedSizeOf n keyLenSum m extRefs =
     int (segBranchHeapBase n) + (int keyLenSum - int (n * m)) + int (extRefs * branchKeyExtRefSize) + 8 * int n + int m"

definition shared_prefix :: "BranchCell list \<Rightarrow> nat" where
  "shared_prefix cells = (if cells = [] then 0 else sharedPrefixLen (bc_Key (hd cells)) (bc_Key (last cells)))"

definition segBranchEncodedSize :: "BranchCell list \<Rightarrow> int" where
  "segBranchEncodedSize cells =
     (if cells = [] then int (segBranchHeapBase 0)
      else segBranchEncodedSizeOf (length cells) (key_len_sum cells) (shared_prefix cells) (ext_refs cells))"

definition BranchEncodedSize :: "Config \<Rightarrow> BranchCell list \<Rightarrow> int" where
  "BranchEncodedSize cfg cells =
     (if EffectiveBranchType cfg = TypeBranchSegregated then segBranchEncodedSize cells
      else int (BranchEncodedSizeOf (length cells) (key_len_sum cells) (ext_refs cells)))"

definition BranchSizeOf :: "Config \<Rightarrow> nat \<Rightarrow> nat \<Rightarrow> nat \<Rightarrow> nat \<Rightarrow> int" where
  "BranchSizeOf cfg n keyLenSum prefixLen extRefs =
     (if EffectiveBranchType cfg = TypeBranchSegregated then segBranchEncodedSizeOf n keyLenSum prefixLen extRefs
      else int (BranchEncodedSizeOf n keyLenSum extRefs))"

definition BranchLogicalSize :: "BranchCell list \<Rightarrow> nat" where
  "BranchLogicalSize cells = BranchEncodedSizeOf (length cells) (key_len_sum cells) (ext_refs cells)"

fun min_offset :: "bytes \<Rightarrow> nat list \<Rightarrow> nat \<Rightarrow> node_err + nat" where
  "min_offset buf [] low = Inr low"
| "min_offset buf (i # is) low =
     bind_res (u16_at buf (branchHeaderEnd + i * branchDirEntrySize)) (\<lambda>off.
       min_offset buf is (if unat off < low then unat off else low))"

definition BranchFreeSpace :: "bytes \<Rightarrow> Config \<Rightarrow> node_err + int" where
  "BranchFreeSpace buf cfg =
     bind_res (must_validate cfg) (\<lambda>_.
     bind_res (BranchCellCount buf) (\<lambda>n.
     bind_res (is_segregated buf) (\<lambda>seg.
       if seg then
         bind_res (segBranchDirSlot buf n) (\<lambda>o'.
         bind_res (segBranchPrefixLen buf) (\<lambda>m.
         Inr (int (content_end cfg) - int m - 8 * int n - int (segBranchHeapBase n + o'))))
       else
         bind_res (min_offset buf [0..<n] (content_end cfg)) (\<lambda>low.
         Inr (int low - int (branchHeaderEnd + n * branchDirEntrySize))))))"

section \<open>Encoding\<close>

definition zeroed :: "bytes \<Rightarrow> bytes" where
  "zeroed buf = replicate (length buf) 0"

definition write_header :: "bytes \<Rightarrow> byte \<Rightarrow> u16 \<Rightarrow> u32 \<Rightarrow> node_err + bytes" where
  "write_header buf typ count additional = lift_panic (WriteHeader buf typ count additional)"

definition EncodeBranchEmpty :: "bytes \<Rightarrow> Config \<Rightarrow> u64 \<Rightarrow> node_err + bytes" where
  "EncodeBranchEmpty buf cfg leftmost =
     bind_res (must_validate cfg) (\<lambda>_.
     if length buf \<noteq> unat (PageSize cfg) then Inl PanicCall
     else bind_res (write_header (zeroed buf) (EffectiveBranchType cfg) 0 0) (\<lambda>b. SetBranchLeftmostChild b leftmost))"

fun cells_sorted :: "BranchCell list \<Rightarrow> bool" where
  "cells_sorted (a # b # cs) =
     (let c = Compare (bc_Key a) (bc_Key b) in
      \<not> (c > 0 \<or> (c = 0 \<and> \<not> (cell_IsOverflowKey a \<and> cell_IsOverflowKey b))) \<and> cells_sorted (b # cs))"
| "cells_sorted _ = True"

fun check_lengths :: "nat \<Rightarrow> BranchCell list \<Rightarrow> node_err + unit" where
  "check_lengths t [] = Inr ()"
| "check_lengths t (c # cs) =
     (if cell_IsOverflowKey c \<and> length (bc_Key c) \<noteq> t then Inl EncResidentLen
      else if \<not> cell_IsOverflowKey c \<and> length (bc_Key c) > t then Inl EncInlineLen
      else check_lengths t cs)"

definition cell_size :: "BranchCell \<Rightarrow> nat" where
  "cell_size c = length (bc_Key c) + branchChildPtrSize + (if cell_IsOverflowKey c then branchKeyExtRefSize else 0)"

definition raw_key_len :: "BranchCell \<Rightarrow> u16" where
  "raw_key_len c =
     (if cell_IsOverflowKey c then word_of_nat (length (bc_Key c)) OR branchDirKeyOverflowBit
      else word_of_nat (length (bc_Key c)))"

definition put_ext :: "bytes \<Rightarrow> nat \<Rightarrow> BranchCell \<Rightarrow> node_err + bytes" where
  "put_ext buf p c =
     (if cell_IsOverflowKey c then
        bind_res (put_at buf p (w64 (bc_KeyExtPage c))) (\<lambda>b. put_at b (p + 8) (w32 (bc_KeyTotalLen c)))
      else Inr buf)"

fun put_cells :: "bytes \<Rightarrow> nat \<Rightarrow> nat \<Rightarrow> BranchCell list \<Rightarrow> node_err + bytes" where
  "put_cells buf i off [] = Inr buf"
| "put_cells buf i off (c # cs) =
     (if off < cell_size c then Inl (Panic PanicBounds)
      else
        (let off' = off - cell_size c; p = off' + length (bc_Key c);
             q = (if cell_IsOverflowKey c then p + branchKeyExtRefSize else p);
             dirOff = branchHeaderEnd + i * branchDirEntrySize in
         bind_res (copy_at buf off' (bc_Key c)) (\<lambda>b.
         bind_res (put_ext b p c) (\<lambda>b.
         bind_res (put_at b q (w64 (bc_Child c))) (\<lambda>b.
         bind_res (put_at b dirOff (w16 (word_of_nat off'))) (\<lambda>b.
         bind_res (put_at b (dirOff + 2) (w16 (raw_key_len c))) (\<lambda>b.
         put_cells b (i + 1) off' cs)))))))"

text \<open>The loop of the segregated encoder: directory slot, suffix, extent reference and child word.\<close>

fun seg_put_cells ::
  "bytes \<Rightarrow> nat \<Rightarrow> nat \<Rightarrow> nat \<Rightarrow> nat \<Rightarrow> nat \<Rightarrow> BranchCell list \<Rightarrow> node_err + bytes \<times> nat" where
  "seg_put_cells buf ce m n i ho [] = Inr (buf, ho)"
| "seg_put_cells buf ce m n i ho (c # cs) =
     (if length (bc_Key c) < m then Inl (Panic PanicBounds)
      else
        (let hb = segBranchHeapBase n; suffix = drop m (bc_Key c); q = hb + ho + length suffix;
             ho' = ho + length suffix + (if cell_IsOverflowKey c then branchKeyExtRefSize else 0);
             child = (if cell_IsOverflowKey c then bc_Child c OR segBranchChildOverflowBit else bc_Child c);
             childOff = segBranchChildOff ce m n i in
         bind_res (put_at buf (segBranchDirOff + i * segBranchDirSlotSize) (w16 (word_of_nat ho))) (\<lambda>b.
         bind_res (copy_at b (hb + ho) suffix) (\<lambda>b.
         bind_res (put_ext b q c) (\<lambda>b.
         if childOff < 0 then Inl (Panic PanicBounds)
         else bind_res (put_at b (nat childOff) (w64 child)) (\<lambda>b.
           seg_put_cells b ce m n (i + 1) ho' cs))))))"

definition segEncodeBranch :: "bytes \<Rightarrow> Config \<Rightarrow> u64 \<Rightarrow> BranchCell list \<Rightarrow> node_err + bytes" where
  "segEncodeBranch buf cfg leftmost cells =
     (let ce = content_end cfg; n = length cells; m = shared_prefix cells in
      if segBranchEncodedSize cells > int ce then Inl EncNoFit
      else
        bind_res (write_header (zeroed buf) TypeBranchSegregated (word_of_nat n) 0) (\<lambda>b.
        bind_res (SetBranchLeftmostChild b leftmost) (\<lambda>b.
        if ce < m then Inl (Panic PanicBounds)
        else
          bind_res (if cells = [] then Inr b else put_at b (ce - m) (take m (bc_Key (hd cells)))) (\<lambda>b.
          bind_res (put_at b segBranchPrefixLenOff (w16 (word_of_nat m))) (\<lambda>b.
          bind_res (seg_put_cells b ce m n 0 0 cells) (\<lambda>(b, ho).
          put_at b (segBranchDirOff + n * segBranchDirSlotSize) (w16 (word_of_nat ho))))))))"

definition EncodeBranch :: "bytes \<Rightarrow> Config \<Rightarrow> u64 \<Rightarrow> BranchCell list \<Rightarrow> node_err + bytes" where
  "EncodeBranch buf cfg leftmost cells =
     bind_res (must_validate cfg) (\<lambda>_.
     if length buf \<noteq> unat (PageSize cfg) then Inl EncBufLen
     else if \<not> cells_sorted cells then Inl EncUnsorted
     else bind_res (check_lengths (inline_max cfg) cells) (\<lambda>_.
       if EffectiveBranchType cfg = TypeBranchSegregated then segEncodeBranch buf cfg leftmost cells
       else if BranchEncodedSize cfg cells > int (content_end cfg) then Inl EncNoFit
       else
         bind_res (write_header (zeroed buf) TypeBranch (word_of_nat (length cells)) 0) (\<lambda>b.
         bind_res (SetBranchLeftmostChild b leftmost) (\<lambda>b.
         put_cells b 0 (content_end cfg) cells))))"

section \<open>Search\<close>

text \<open>
  The probe of an overflow cell: its resident bytes first, and the key extent exactly when the
  target ties with all of them and is longer.
\<close>

definition overflow_probe ::
  "bytes \<Rightarrow> bytes \<Rightarrow> (node_err + int) \<Rightarrow> node_err + bool" where
  "overflow_probe target key tail =
     (let k = min (length target) (length key); c = Compare (take k target) (take k key) in
      if c \<noteq> 0 then Inr (c < 0)
      else if length target \<le> length key then Inr True
      else bind_res tail (\<lambda>c. Inr (c < 0)))"

definition plain_probe :: "bytes \<Rightarrow> bytes \<Rightarrow> TailCompare \<Rightarrow> nat \<Rightarrow> node_err + bool" where
  "plain_probe buf target tailCmp mid =
     bind_res (dir_entry buf mid) (\<lambda>(off, raw).
     let klen = raw_len raw in
     bind_res (slice buf off (off + klen)) (\<lambda>key.
     if raw AND branchDirKeyOverflowBit = 0 then Inr (Compare target key < 0)
     else overflow_probe target key
       (bind_res (u64_at buf (off + klen)) (\<lambda>ext.
        bind_res (u32_at buf (off + klen + 8)) (\<lambda>tot. tailCmp target ext tot)))))"

definition seg_probe ::
  "bytes \<Rightarrow> Config \<Rightarrow> nat \<Rightarrow> nat \<Rightarrow> bytes \<Rightarrow> TailCompare \<Rightarrow> nat \<Rightarrow> node_err + bool" where
  "seg_probe buf cfg m n target tailCmp mid =
     (let ce = content_end cfg; hb = segBranchHeapBase n in
      bind_res (segBranchDirSlot buf mid) (\<lambda>o1.
      bind_res (segBranchDirSlot buf (mid + 1)) (\<lambda>o2.
      bind_res (segBranchChildRaw buf ce m n mid) (\<lambda>raw.
      let off = hb + o1; end' = hb + o2; tail = drop m target in
      if raw AND segBranchChildOverflowBit = 0 then
        bind_res (slice buf off end') (\<lambda>s. Inr (Compare tail s < 0))
      else if end' < off + branchKeyExtRefSize then Inl (Panic PanicBounds)
      else
        (let inline = end' - off - branchKeyExtRefSize in
         bind_res (slice buf off (off + inline)) (\<lambda>s.
         overflow_probe tail s
           (bind_res (u64_at buf (off + inline)) (\<lambda>ext.
            bind_res (u32_at buf (off + inline + 8)) (\<lambda>tot. tailCmp target ext tot)))))))))"

definition segBranchSearch :: "bytes \<Rightarrow> Config \<Rightarrow> bytes \<Rightarrow> TailCompare \<Rightarrow> node_err + nat" where
  "segBranchSearch buf cfg target tailCmp =
     bind_res (read_header buf) (\<lambda>(_, _, count, _).
     let n = unat count; ce = content_end cfg in
     if n = 0 then Inr 0
     else bind_res (segBranchPrefixLen buf) (\<lambda>m.
       if ce < m then Inl (Panic PanicBounds)
       else bind_res (slice buf (ce - m) ce) (\<lambda>prefix.
         if length target < m \<or> take m target \<noteq> prefix then
           (if Compare target prefix < 0 then Inr 0 else Inr n)
         else bsearch (seg_probe buf cfg m n target tailCmp) 0 n)))"

definition BranchSearch :: "bytes \<Rightarrow> Config \<Rightarrow> bytes \<Rightarrow> TailCompare \<Rightarrow> node_err + nat" where
  "BranchSearch buf cfg target tailCmp =
     bind_res (must_validate cfg) (\<lambda>_.
     bind_res (is_segregated buf) (\<lambda>seg.
       if seg then segBranchSearch buf cfg target tailCmp
       else bind_res (BranchCellCount buf) (\<lambda>n.
         if n = 0 then Inr 0 else bsearch (plain_probe buf target tailCmp) 0 n)))"

definition ShortestSeparator :: "bytes \<Rightarrow> bytes \<Rightarrow> node_err + bytes" where
  "ShortestSeparator left right =
     (if Compare left right \<ge> 0 then Inl PanicCall
      else Inr (take (sharedPrefixLen left right + 1) right))"

section \<open>Validation\<close>

definition plain_cell_ok :: "bytes \<Rightarrow> Config \<Rightarrow> nat \<Rightarrow> nat \<Rightarrow> node_err + bool" where
  "plain_cell_ok buf cfg dirEnd i =
     (let t = inline_max cfg in
      bind_res (dir_entry buf i) (\<lambda>(off, raw).
      let klen = raw_len raw; end' = off + branchCellChildSkip raw + branchChildPtrSize in
      if off < dirEnd \<or> end' > content_end cfg then Inr False
      else if raw AND branchDirKeyOverflowBit \<noteq> 0 then
        (if klen \<noteq> t then Inr False
         else
           bind_res (u64_at buf (off + klen)) (\<lambda>ext.
           bind_res (u32_at buf (off + klen + 8)) (\<lambda>tot.
           Inr (ext \<noteq> 0 \<and> unat tot > t))))
      else Inr (klen \<le> t)))"

text \<open>The first bad item of a loop is the error of the page.\<close>

fun all_ok :: "('a \<Rightarrow> node_err + bool) \<Rightarrow> 'a list \<Rightarrow> node_err + unit" where
  "all_ok f [] = Inr ()"
| "all_ok f (x # xs) = bind_res (f x) (\<lambda>ok. if ok then all_ok f xs else Inl Corrupt)"

fun slots_monotone :: "bytes \<Rightarrow> nat list \<Rightarrow> nat \<Rightarrow> node_err + unit" where
  "slots_monotone buf [] prev = Inr ()"
| "slots_monotone buf (i # is) prev =
     bind_res (segBranchDirSlot buf i) (\<lambda>off. if off < prev then Inl Corrupt else slots_monotone buf is off)"

definition seg_cell_ok :: "bytes \<Rightarrow> Config \<Rightarrow> nat \<Rightarrow> nat \<Rightarrow> nat \<Rightarrow> node_err + bool" where
  "seg_cell_ok buf cfg m n i =
     (let t = inline_max cfg; hb = segBranchHeapBase n in
      bind_res (segBranchDirSlot buf (i + 1)) (\<lambda>o2.
      bind_res (segBranchDirSlot buf i) (\<lambda>o1.
      bind_res (segBranchChildRaw buf (content_end cfg) m n i) (\<lambda>raw.
      let span = int o2 - int o1 in
      if raw AND segBranchChildOverflowBit \<noteq> 0 then
        (if span \<noteq> int t - int m + int branchKeyExtRefSize then Inr False
         else
           (let off = hb + o1; inline = nat span - branchKeyExtRefSize in
            bind_res (u64_at buf (off + inline)) (\<lambda>ext.
            bind_res (u32_at buf (off + inline + 8)) (\<lambda>tot.
            Inr (ext \<noteq> 0 \<and> unat tot > t)))))
      else Inr (int m + span \<le> int t)))))"

definition segValidateBranch :: "bytes \<Rightarrow> Config \<Rightarrow> node_err + unit" where
  "segValidateBranch buf cfg =
     (if length buf < content_end cfg then Inl Corrupt
      else bind_res (read_header buf) (\<lambda>(_, _, count, _).
        let n = unat count; hb = segBranchHeapBase n in
        bind_res (segBranchPrefixLen buf) (\<lambda>m.
        let childBase = int (content_end cfg) - int m - 8 * int n in
        if m > inline_max cfg then Inl Corrupt
        else if int hb > childBase then Inl Corrupt
        else bind_res (slots_monotone buf [0..<n + 1] 0) (\<lambda>_.
          bind_res (segBranchDirSlot buf n) (\<lambda>on.
          if int (hb + on) > childBase then Inl Corrupt
          else all_ok (seg_cell_ok buf cfg m n) [0..<n])))))"

definition ValidateBranch :: "bytes \<Rightarrow> Config \<Rightarrow> node_err + unit" where
  "ValidateBranch buf cfg =
     (if length buf < content_end cfg then Inl Corrupt
      else bind_res (read_header buf) (\<lambda>(typ, _, count, _).
        let dirEnd = branchHeaderEnd + unat count * branchDirEntrySize in
        if typ = TypeBranchSegregated then segValidateBranch buf cfg
        else if typ \<noteq> TypeBranch then Inl Corrupt
        else if dirEnd > content_end cfg then Inl Corrupt
        else all_ok (plain_cell_ok buf cfg dirEnd) [0..<unat count]))"

end
