(* ===== verification/Branch_Plain.thy ===== *)
theory Branch_Plain
  imports Branch
begin

text \<open>
  What the encoder of plain branch pages writes, and what the readers see there. \<open>plain_layout\<close> says
  where the cells are; every reader is evaluated from it.
\<close>

section \<open>Configuration and words\<close>

lemma must_validate_ok [simp]: "Validate cfg = None \<Longrightarrow> must_validate cfg = Inr ()"
  by (simp add: must_validate_def MustValidate_def lift_panic_def)

lemma page_bounds:
  assumes "Validate cfg = None"
  shows "4088 \<le> content_end cfg" "content_end cfg \<le> unat (PageSize cfg)" "unat (PageSize cfg) \<le> 65536"
    "inline_max cfg = (content_end cfg - 68) div 2" "2010 \<le> inline_max cfg" "inline_max cfg < 2 ^ 15"
    "2 * inline_max cfg + 68 \<le> content_end cfg"
proof -
  have v: "ValidPageSize (PageSize cfg)" using Validate_None [OF assms] by simp
  show a: "4088 \<le> content_end cfg" using ContentEnd_bounds(1) [OF v] by simp
  show b: "content_end cfg \<le> unat (PageSize cfg)" using nat_mono [OF ContentEnd_bounds(2) [OF v]] by simp
  show c: "unat (PageSize cfg) \<le> 65536" by (rule ValidPageSize_bounds(2) [OF v])
  have "0 \<le> ContentEnd cfg - 68" using ContentEnd_bounds(1) [OF v] by linarith
  then have "InlineThreshold cfg = (ContentEnd cfg - 68) div 2"
    by (simp add: InlineThreshold_def signed_divide_int_def sgn_if)
  also have "\<dots> = (int (content_end cfg) - 68) div 2" using ContentEnd_bounds(1) [OF v] by simp
  also have "\<dots> = int ((content_end cfg - 68) div 2)" using a by (simp add: zdiv_int of_nat_diff)
  finally show d: "inline_max cfg = (content_end cfg - 68) div 2" by simp
  show "2010 \<le> inline_max cfg" "inline_max cfg < 2 ^ 15" "2 * inline_max cfg + 68 \<le> content_end cfg"
    using a b c unfolding d by simp_all
qed

lemma not_bit_of_nat: "k < 2 ^ j \<Longrightarrow> \<not> bit (word_of_nat k :: 'a::len word) j"
  by (simp add: bit_of_nat_iff) (simp add: bit_iff_odd)

lemma or_andnot_single:
  fixes w :: "'a::len word"
  assumes "\<not> bit w k"
  shows "(w OR push_bit k 1) AND NOT (push_bit k 1) = w" "w AND NOT (push_bit k 1) = w"
proof -
  show "(w OR push_bit k 1) AND NOT (push_bit k 1) = w"
    by (rule bit_eqI) (use assms in \<open>auto simp: bit_andnot_single bit_or_iff bit_push_one\<close>)
  show "w AND NOT (push_bit k 1) = w"
    by (rule bit_eqI) (use assms in \<open>auto simp: bit_andnot_single\<close>)
qed

lemma and_single_or:
  fixes w :: "'a::len word"
  assumes "k < LENGTH('a)"
  shows "(w OR push_bit k 1) AND push_bit k 1 \<noteq> 0" "\<not> bit w k \<Longrightarrow> w AND push_bit k 1 = 0"
  using and_push_bit_neq_0 [OF assms, of "w OR push_bit k 1"] and_push_bit_neq_0 [OF assms, of w] assms
  by (auto simp: bit_or_iff bit_push_one)

lemma raw_key_len_reads:
  assumes "length (bc_Key c) < 2 ^ 15"
  shows "raw_len (raw_key_len c) = length (bc_Key c)"
    "(raw_key_len c AND branchDirKeyOverflowBit \<noteq> 0) = cell_IsOverflowKey c"
proof -
  have nb: "\<not> bit (word_of_nat (length (bc_Key c)) :: u16) 15" using assms by (rule not_bit_of_nat)
  have u: "unat (word_of_nat (length (bc_Key c)) :: u16) = length (bc_Key c)" using assms by (simp add: unat_of_nat)
  show "raw_len (raw_key_len c) = length (bc_Key c)"
    using or_andnot_single [OF nb] u by (simp add: raw_len_def raw_key_len_def branchDirKeyOverflowBit_def)
  show "(raw_key_len c AND branchDirKeyOverflowBit \<noteq> 0) = cell_IsOverflowKey c"
    using and_single_or [of 15 "word_of_nat (length (bc_Key c)) :: u16"] nb
    by (auto simp: raw_key_len_def branchDirKeyOverflowBit_def)
qed

section \<open>Headers\<close>

definition header_bytes :: "byte \<Rightarrow> u16 \<Rightarrow> u32 \<Rightarrow> bytes" where
  "header_bytes typ count additional = [typ, 0] @ w16 count @ w32 additional"

lemma length_header_bytes [simp]: "length (header_bytes typ count additional) = 8"
  by (simp add: header_bytes_def del: le_bytes.simps)

lemma read_header_holds:
  assumes "holds buf 0 (header_bytes typ count additional)"
  shows "read_header buf = Inr (typ, 0, count, additional)"
proof -
  have h: "holds buf 0 [typ]" "holds buf 1 [0]" "holds buf 2 (w16 count)" "holds buf 4 (w32 additional)" "8 \<le> length buf"
    using assms holds_len [OF assms] holds_append [of buf 0 "[typ]" "[0]"] holds_append [of buf 0 "[typ, 0]" "w16 count @ w32 additional"]
      holds_append [of buf 2 "w16 count" "w32 additional"]
    by (simp_all add: header_bytes_def eval_nat_numeral del: le_bytes.simps)
  have "Uint16 buf 2 = count" "Uint32 buf 4 = additional"
    using holds_u16 [OF h(3)] holds_u32 [OF h(4)] h(5) by (simp_all add: u16_at_def u32_at_def)
  moreover have "buf ! 0 = typ" "buf ! 1 = 0" using h(1,2) by (simp_all add: holds_nth)
  ultimately show ?thesis using h(5) by (simp add: read_header_def lift_panic_def ReadHeader_def HeaderSize_def)
qed

lemma write_header_holds:
  assumes "8 \<le> length buf"
  shows "\<exists>b. write_header buf typ count additional = Inr b \<and> differs_in {0..<8} buf b \<and> holds b 0 (header_bytes typ count additional)"
proof -
  define W where "W = overwrite buf 0 (header_bytes typ count additional)"
  let ?l = "[[typ], [0], w16 count, w32 additional]"
  have c: "concat ?l = header_bytes typ count additional" by (simp add: header_bytes_def del: le_bytes.simps)
  have "write_header buf typ count additional = Inr (put_all buf 0 ?l)"
    using assms by (simp add: write_header_def lift_panic_def WriteHeader_def HeaderSize_def PutUint8_def PutUint16_def
        PutUint32_def eval_nat_numeral del: le_bytes.simps)
  moreover have "put_all buf 0 ?l = W"
    unfolding W_def c [symmetric] by (rule put_all_concat) (use assms c in simp)
  ultimately have "write_header buf typ count additional = Inr W" by (simp only:)
  moreover have "differs_in {0..<8} buf W" "holds W 0 (header_bytes typ count additional)"
    using overwrite_differs [of 0 "header_bytes typ count additional" buf]
      holds_same [of 0 "header_bytes typ count additional" buf] assms by (simp_all add: W_def)
  ultimately show ?thesis by blast
qed

section \<open>The encoder's loop\<close>

definition cell_bytes :: "BranchCell \<Rightarrow> bytes" where
  "cell_bytes c = bc_Key c @ (if cell_IsOverflowKey c then w64 (bc_KeyExtPage c) @ w32 (bc_KeyTotalLen c) else []) @ w64 (bc_Child c)"

definition ext_bytes :: "BranchCell \<Rightarrow> bytes" where
  "ext_bytes c = (if cell_IsOverflowKey c then w64 (bc_KeyExtPage c) @ w32 (bc_KeyTotalLen c) else [])"

lemma cell_bytes_ext: "cell_bytes c = bc_Key c @ ext_bytes c @ w64 (bc_Child c)"
  by (simp only: cell_bytes_def ext_bytes_def)

lemma cell_size_eq: "cell_size c = length (bc_Key c) + (if cell_IsOverflowKey c then 20 else 8)"
  unfolding cell_size_def branch_sizes by simp

lemma length_cell_bytes [simp]: "length (cell_bytes c) = cell_size c"
  by (simp add: cell_bytes_def cell_size_eq del: le_bytes.simps)

lemma put_ext_ok:
  assumes "p + (if cell_IsOverflowKey c then 12 else 0) \<le> length buf"
  shows "put_ext buf p c = Inr (overwrite buf p (if cell_IsOverflowKey c then w64 (bc_KeyExtPage c) @ w32 (bc_KeyTotalLen c) else []))"
proof (cases "cell_IsOverflowKey c")
  case True
  have "overwrite (overwrite buf p (w64 (bc_KeyExtPage c))) (p + length (w64 (bc_KeyExtPage c))) (w32 (bc_KeyTotalLen c)) =
      overwrite buf p (w64 (bc_KeyExtPage c) @ w32 (bc_KeyTotalLen c))"
    by (rule overwrite_overwrite) (use assms True in \<open>simp del: le_bytes.simps\<close>)
  then show ?thesis using True assms by (simp add: put_ext_def put_at_def del: le_bytes.simps)
next
  case False
  then show ?thesis by (simp add: put_ext_def overwrite_def)
qed

text \<open>The three writes of a cell are one write of its bytes.\<close>

lemma cell_writes:
  assumes "off + cell_size c \<le> length buf"
  shows "bind_res (copy_at buf off (bc_Key c)) (\<lambda>b.
      bind_res (put_ext b (off + length (bc_Key c)) c) (\<lambda>b.
      bind_res (put_at b (if cell_IsOverflowKey c then off + length (bc_Key c) + branchKeyExtRefSize else off + length (bc_Key c)) (w64 (bc_Child c))) f)) =
    f (overwrite buf off (cell_bytes c))"
proof -
  define e where "e = (if cell_IsOverflowKey c then w64 (bc_KeyExtPage c) @ w32 (bc_KeyTotalLen c) else [])"
  have le: "length e = (if cell_IsOverflowKey c then 12 else 0)" by (simp add: e_def del: le_bytes.simps)
  have l: "off + length (bc_Key c) + length e + 8 \<le> length buf"
    using assms le cell_size_eq [of c] by (simp split: if_splits)
  have k: "copy_at buf off (bc_Key c) = Inr (overwrite buf off (bc_Key c))" using l by (intro copy_at_ok) simp
  have "put_ext (overwrite buf off (bc_Key c)) (off + length (bc_Key c)) c =
      Inr (overwrite (overwrite buf off (bc_Key c)) (off + length (bc_Key c)) e)"
    unfolding e_def using l le by (intro put_ext_ok) simp
  also have "overwrite (overwrite buf off (bc_Key c)) (off + length (bc_Key c)) e = overwrite buf off (bc_Key c @ e)"
    using l by (intro overwrite_overwrite) simp
  finally have x: "put_ext (overwrite buf off (bc_Key c)) (off + length (bc_Key c)) c = Inr (overwrite buf off (bc_Key c @ e))" .
  have q: "(if cell_IsOverflowKey c then off + length (bc_Key c) + branchKeyExtRefSize else off + length (bc_Key c)) = off + length (bc_Key c @ e)"
    using le by (simp add: branchKeyExtRefSize_def)
  have "put_at (overwrite buf off (bc_Key c @ e)) (off + length (bc_Key c @ e)) (w64 (bc_Child c)) =
      Inr (overwrite (overwrite buf off (bc_Key c @ e)) (off + length (bc_Key c @ e)) (w64 (bc_Child c)))"
    using l by (intro put_at_ok) (simp del: le_bytes.simps)
  also have "overwrite (overwrite buf off (bc_Key c @ e)) (off + length (bc_Key c @ e)) (w64 (bc_Child c)) =
      overwrite buf off ((bc_Key c @ e) @ w64 (bc_Child c))"
    using l by (intro overwrite_overwrite) (simp del: le_bytes.simps)
  also have "(bc_Key c @ e) @ w64 (bc_Child c) = cell_bytes c" by (simp only: cell_bytes_def e_def append_assoc)
  finally have z: "put_at (overwrite buf off (bc_Key c @ e)) (off + length (bc_Key c @ e)) (w64 (bc_Child c)) = Inr (overwrite buf off (cell_bytes c))" .
  show ?thesis unfolding q by (simp only: k x z bind_res.simps)
qed

abbreviation cells_size :: "BranchCell list \<Rightarrow> nat" where
  "cells_size cells \<equiv> sum_list (map cell_size cells)"

text \<open>Cell \<open>j\<close> ends where cell \<open>j - 1\<close> begins, the first at the end of the content.\<close>

definition cell_off :: "nat \<Rightarrow> BranchCell list \<Rightarrow> nat \<Rightarrow> nat" where
  "cell_off off cells j = off - cells_size (take (Suc j) cells)"

lemma take_sum_le: "sum_list (take k xs) \<le> sum_list (xs :: nat list)"
  using sum_list.append [of "take k xs" "drop k xs"] by simp

lemma cells_size_take: "cells_size (take k cells) \<le> cells_size cells"
  using take_sum_le [of k "map cell_size cells"] by (simp add: take_map)

lemma cells_size_Suc: "j < length cells \<Longrightarrow> cells_size (take (Suc j) cells) = cells_size (take j cells) + cell_size (cells ! j)"
  by (simp add: take_Suc_conv_app_nth)

lemma cells_size_mono: "j \<le> k \<Longrightarrow> cells_size (take j cells) \<le> cells_size (take k cells)"
  using cells_size_take [of j "take k cells"] by (simp add: min_def)

lemma cell_off_Cons: "cell_off off (c # cs) 0 = off - cell_size c" "cell_off off (c # cs) (Suc k) = cell_off (off - cell_size c) cs k"
  by (simp_all add: cell_off_def)

lemma cell_off_bounds:
  assumes "cells_size cells \<le> off" "j < length cells"
  shows "off - cells_size cells \<le> cell_off off cells j" "cell_off off cells j + cell_size (cells ! j) \<le> off"
    "k < j \<Longrightarrow> cell_off off cells j + cell_size (cells ! j) \<le> cell_off off cells k"
proof -
  show "off - cells_size cells \<le> cell_off off cells j" using cells_size_take [of "Suc j" cells] by (simp add: cell_off_def)
  have s: "cells_size (take (Suc j) cells) = cells_size (take j cells) + cell_size (cells ! j)" by (rule cells_size_Suc [OF assms(2)])
  have t: "cells_size (take (Suc j) cells) \<le> off" using cells_size_take [of "Suc j" cells] assms(1) by linarith
  show "cell_off off cells j + cell_size (cells ! j) \<le> off" unfolding cell_off_def using s t by linarith
  assume "k < j"
  then have "cells_size (take (Suc k) cells) \<le> cells_size (take j cells)" by (intro cells_size_mono) simp
  then show "cell_off off cells j + cell_size (cells ! j) \<le> cell_off off cells k" unfolding cell_off_def using s t by linarith
qed

definition cell_in :: "bytes \<Rightarrow> nat \<Rightarrow> nat \<Rightarrow> BranchCell \<Rightarrow> bool" where
  "cell_in b i u c \<longleftrightarrow> holds b (16 + 4 * i) (w16 (word_of_nat u) @ w16 (raw_key_len c)) \<and> holds b u (cell_bytes c)"

lemma cell_in_differs:
  assumes "differs_in S a b" "cell_in a i u c" "{16 + 4 * i..<20 + 4 * i} \<inter> S = {}" "{u..<u + cell_size c} \<inter> S = {}"
  shows "cell_in b i u c"
  using assms differs_holds [OF assms(1), of "16 + 4 * i" "w16 (word_of_nat u) @ w16 (raw_key_len c)"]
    differs_holds [OF assms(1), of u "cell_bytes c"]
  by (simp add: cell_in_def add.commute del: le_bytes.simps)

lemma put_cells_layout:
  assumes "off \<le> length buf" "off \<le> 65536" "16 + 4 * (i + length cells) + cells_size cells \<le> off"
  shows "\<exists>b. put_cells buf i off cells = Inr b \<and>
    differs_in ({16 + 4 * i..<16 + 4 * (i + length cells)} \<union> {off - cells_size cells..<off}) buf b \<and>
    (\<forall>j < length cells. cell_in b (i + j) (cell_off off cells j) (cells ! j))"
  using assms
proof (induction cells arbitrary: buf i off)
  case (Cons c cs)
  define u d where ud: "u = off - cell_size c" "d = 16 + 4 * i"
  have l: "16 + 4 * (i + 1 + length cs) + cells_size cs \<le> u" "cell_size c \<le> off" "u + cell_size c = off" "u < 65536" "d + 4 \<le> u"
    using Cons.prems cell_size_eq [of c] by (auto simp: ud split: if_splits)
  define D where "D = w16 (word_of_nat u) @ w16 (raw_key_len c)"
  have lD: "length D = 4" by (simp add: D_def del: le_bytes.simps)
  define b1 where "b1 = overwrite buf u (cell_bytes c)"
  define b2 where "b2 = overwrite b1 d D"
  have s1: "length b1 = length buf" using l Cons.prems(1) by (simp add: b1_def)
  have s2: "length b2 = length buf" using l Cons.prems(1) s1 lD by (simp add: b2_def)
  have run: "put_cells buf i off (c # cs) = put_cells b2 (i + 1) u cs"
  proof -
    have p1: "put_at b1 d (w16 (word_of_nat u)) = Inr (overwrite b1 d (w16 (word_of_nat u)))"
      using l Cons.prems(1) s1 by (intro put_at_ok) (simp del: le_bytes.simps)
    have p2: "put_at (overwrite b1 d (w16 (word_of_nat u))) (d + 2) (w16 (raw_key_len c)) = Inr b2"
      using overwrite_overwrite [of d "w16 (word_of_nat u)" "w16 (raw_key_len c)" b1] l Cons.prems(1) s1
      by (simp add: put_at_def b2_def D_def del: le_bytes.simps)
    have p3: "\<not> off < cell_size c" "branchHeaderEnd + i * branchDirEntrySize = d" "u + cell_size c \<le> length buf"
      using l Cons.prems(1) by (simp_all add: branch_sizes ud)
    show ?thesis
      by (simp only: put_cells.simps Let_def p3 if_False simp_thms ud(1) [symmetric] cell_writes bind_res.simps b1_def [symmetric] p1 p2)
  qed
  have d2: "differs_in ({d..<d + 4} \<union> {u..<off}) buf b2"
  proof (rule differs_trans)
    show "differs_in {u..<off} buf b1"
      using overwrite_differs [of u "cell_bytes c" buf] l Cons.prems(1) by (simp add: b1_def)
    show "differs_in {d..<d + 4} b1 b2"
      using overwrite_differs [of d D b1] l Cons.prems(1) s1 lD by (simp add: b2_def)
  qed simp_all
  have h2: "cell_in b2 i u c"
  proof -
    have "holds b2 d D" unfolding b2_def using l Cons.prems(1) s1 lD by (intro holds_same) simp
    moreover have "holds b1 u (cell_bytes c)" unfolding b1_def using l Cons.prems(1) by (intro holds_same) simp
    then have "holds b2 u (cell_bytes c)"
      unfolding b2_def using holds_other [of b1 u "cell_bytes c" d D] l Cons.prems(1) s1 lD by simp
    ultimately show ?thesis by (simp add: cell_in_def D_def ud)
  qed
  obtain b where b: "put_cells b2 (i + 1) u cs = Inr b"
      "differs_in ({16 + 4 * (i + 1)..<16 + 4 * (i + 1 + length cs)} \<union> {u - cells_size cs..<u}) b2 b"
      "\<forall>j < length cs. cell_in b (i + 1 + j) (cell_off u cs j) (cs ! j)"
    using Cons.IH [of u b2 "i + 1"] l s2 Cons.prems(1) by auto
  have df: "differs_in ({16 + 4 * i..<16 + 4 * (i + length (c # cs))} \<union> {off - cells_size (c # cs)..<off}) buf b"
    by (rule differs_trans [OF d2 b(2)]) (use l ud in \<open>auto\<close>)
  have first: "cell_in b i u c"
    by (rule cell_in_differs [OF b(2) h2]) (use l ud in \<open>auto\<close>)
  have "cell_in b (i + j) (cell_off off (c # cs) j) ((c # cs) ! j)" if "j < length (c # cs)" for j
    using first b(3) that by (cases j) (auto simp: cell_off_Cons ud(1) [symmetric])
  then show ?case using run b(1) df by auto
qed simp

section \<open>Pages in the plain layout\<close>

definition plain_layout :: "Config \<Rightarrow> u64 \<Rightarrow> BranchCell list \<Rightarrow> bytes \<Rightarrow> bool" where
  "plain_layout cfg leftmost cells buf \<longleftrightarrow>
     length buf = unat (PageSize cfg) \<and> 16 + 4 * length cells + cells_size cells \<le> content_end cfg \<and>
     holds buf 0 (header_bytes TypeBranch (word_of_nat (length cells)) 0) \<and> holds buf 8 (w64 leftmost) \<and>
     (\<forall>j < length cells. cell_in buf j (cell_off (content_end cfg) cells j) (cells ! j))"

text \<open>The cells a page can store: overflow cells keep exactly the inline part of a longer separator.\<close>

definition cell_wf :: "nat \<Rightarrow> BranchCell \<Rightarrow> bool" where
  "cell_wf t c \<longleftrightarrow>
     (if cell_IsOverflowKey c then length (bc_Key c) = t \<and> t < unat (bc_KeyTotalLen c)
      else length (bc_Key c) \<le> t \<and> bc_KeyTotalLen c = 0)"

lemma check_lengths_wf: "\<forall>c \<in> set cells. cell_wf t c \<Longrightarrow> check_lengths t cells = Inr ()"
  by (induction cells) (auto simp: cell_wf_def split: if_splits)

lemma encoded_size: "BranchEncodedSizeOf (length cells) (key_len_sum cells) (ext_refs cells) = 16 + 4 * length cells + cells_size cells"
proof (induction cells)
  case Nil
  then show ?case by (simp add: BranchEncodedSizeOf_def branch_sizes key_len_sum_def ext_refs_def)
next
  case (Cons c cs)
  then show ?case
    using cell_size_eq [of c] by (auto simp: BranchEncodedSizeOf_def branch_sizes key_len_sum_def ext_refs_def)
qed

lemma zeroed_length [simp]: "length (zeroed buf) = length buf" by (simp add: zeroed_def)

lemma SetBranchLeftmostChild_ok:
  assumes "16 \<le> length buf"
  shows "SetBranchLeftmostChild buf child = Inr (overwrite buf 8 (w64 child))"
    "differs_in {8..<16} buf (overwrite buf 8 (w64 child))" "holds (overwrite buf 8 (w64 child)) 8 (w64 child)"
  using assms overwrite_differs [of 8 "w64 child" buf] holds_same [of 8 "w64 child" buf]
  by (simp_all add: SetBranchLeftmostChild_def put_at_def branch_sizes del: le_bytes.simps)

lemma encode_plain:
  assumes "Validate cfg = None" "length buf = unat (PageSize cfg)" "EffectiveBranchType cfg \<noteq> TypeBranchSegregated"
    and "cells_sorted cells" "\<forall>c \<in> set cells. cell_wf (inline_max cfg) c" "BranchEncodedSize cfg cells \<le> int (content_end cfg)"
  shows "\<exists>b. EncodeBranch buf cfg leftmost cells = Inr b \<and> plain_layout cfg leftmost cells b"
proof -
  note pb = page_bounds [OF assms(1)]
  let ?n = "word_of_nat (length cells) :: u16"
  have fits: "16 + 4 * length cells + cells_size cells \<le> content_end cfg"
    using assms(3,6) encoded_size [of cells] unfolding BranchEncodedSize_def by (simp only: if_False)
  obtain b1 where b1: "write_header (zeroed buf) TypeBranch ?n 0 = Inr b1" "differs_in {0..<8} (zeroed buf) b1"
      "holds b1 0 (header_bytes TypeBranch ?n 0)"
    using write_header_holds [of "zeroed buf" TypeBranch ?n 0] assms(2) pb by auto
  have l1: "length b1 = length buf" using differs_len [OF b1(2)] by simp
  let ?b2 = "overwrite b1 8 (w64 leftmost)"
  have "16 \<le> length b1" using l1 assms(2) pb by simp
  note b2 = SetBranchLeftmostChild_ok [OF this, of leftmost]
  have h2: "holds ?b2 0 (header_bytes TypeBranch ?n 0)" by (rule differs_holds [OF b2(2) b1(3)]) simp
  have "content_end cfg \<le> length ?b2" using differs_len [OF b2(2)] l1 assms(2) pb by simp
  then obtain b where b: "put_cells ?b2 0 (content_end cfg) cells = Inr b"
      "differs_in ({16..<16 + 4 * length cells} \<union> {content_end cfg - cells_size cells..<content_end cfg}) ?b2 b"
      "\<forall>j < length cells. cell_in b j (cell_off (content_end cfg) cells j) (cells ! j)"
    using put_cells_layout [of "content_end cfg" ?b2 0 cells] pb fits by auto
  have "holds b 0 (header_bytes TypeBranch ?n 0)" by (rule differs_holds [OF b(2) h2]) (use fits in auto)
  moreover have "holds b 8 (w64 leftmost)"
    by (rule differs_holds [OF b(2) b2(3)]) (use fits in \<open>auto simp del: le_bytes.simps\<close>)
  moreover have "length b = unat (PageSize cfg)" using differs_len [OF b(2)] differs_len [OF b2(2)] l1 assms(2) by simp
  ultimately have "plain_layout cfg leftmost cells b" using b(3) fits by (simp add: plain_layout_def)
  moreover have c: "check_lengths (inline_max cfg) cells = Inr ()" by (rule check_lengths_wf [OF assms(5)])
  have "EncodeBranch buf cfg leftmost cells = Inr b"
    using assms(1-4,6) c b1(1) b2(1) b(1) by (simp add: EncodeBranch_def)
  ultimately show ?thesis by blast
qed

section \<open>Reading a plain page\<close>

lemma count_word: "16 + 4 * n \<le> 65536 \<Longrightarrow> unat (word_of_nat n :: u16) = n"
  by (simp add: unat_of_nat)

lemma cell_in_reads:
  assumes "cell_in buf i u c" "length (bc_Key c) < 2 ^ 15" "u < 65536"
  shows "dir_entry buf i = Inr (u, raw_key_len c)"
    "slice buf u (u + length (bc_Key c)) = Inr (bc_Key c)"
    "cell_IsOverflowKey c \<Longrightarrow> u64_at buf (u + length (bc_Key c)) = Inr (bc_KeyExtPage c)"
    "cell_IsOverflowKey c \<Longrightarrow> u32_at buf (u + length (bc_Key c) + 8) = Inr (bc_KeyTotalLen c)"
    "u64_at buf (u + branchCellChildSkip (raw_key_len c)) = Inr (bc_Child c)"
    "holds buf (u + branchCellChildSkip (raw_key_len c)) (w64 (bc_Child c))"
proof -
  let ?k = "length (bc_Key c)"
  have h: "holds buf (16 + 4 * i) (w16 (word_of_nat u))" "holds buf (16 + 4 * i + 2) (w16 (raw_key_len c))" "holds buf u (cell_bytes c)"
    using assms(1) by (simp_all add: cell_in_def holds_append del: le_bytes.simps)
  have "unat (word_of_nat u :: u16) = u" using assms(3) by (simp add: unat_of_nat)
  then show "dir_entry buf i = Inr (u, raw_key_len c)"
    using holds_u16 [OF h(1)] holds_u16 [OF h(2)] by (simp add: dir_entry_def branch_sizes mult.commute)
  have k: "holds buf u (bc_Key c)" using h(3) by (simp add: cell_bytes_def holds_append)
  show "slice buf u (u + ?k) = Inr (bc_Key c)" by (rule holds_slice [OF k refl])
  have sk: "branchCellChildSkip (raw_key_len c) = (if cell_IsOverflowKey c then ?k + 12 else ?k)"
    using raw_key_len_reads [OF assms(2)] by (simp add: branchCellChildSkip_def branchKeyExtRefSize_def)
  show ch: "holds buf (u + branchCellChildSkip (raw_key_len c)) (w64 (bc_Child c))"
    unfolding sk using h(3) by (auto simp: cell_bytes_def holds_append add.assoc simp del: le_bytes.simps)
  show "u64_at buf (u + branchCellChildSkip (raw_key_len c)) = Inr (bc_Child c)" by (rule holds_u64 [OF ch])
  assume "cell_IsOverflowKey c"
  then have "holds buf (u + ?k) (w64 (bc_KeyExtPage c))" "holds buf (u + ?k + 8) (w32 (bc_KeyTotalLen c))"
    using h(3) by (simp_all add: cell_bytes_def holds_append add.assoc del: le_bytes.simps)
  then show "u64_at buf (u + ?k) = Inr (bc_KeyExtPage c)" "u32_at buf (u + ?k + 8) = Inr (bc_KeyTotalLen c)"
    by (simp_all add: holds_u64 holds_u32)
qed

lemma plain_layoutD:
  assumes "plain_layout cfg leftmost cells buf" "Validate cfg = None"
  shows "length buf = unat (PageSize cfg)" "16 + 4 * length cells + cells_size cells \<le> content_end cfg"
    "unat (word_of_nat (length cells) :: u16) = length cells"
    "read_header buf = Inr (TypeBranch, 0, word_of_nat (length cells), 0)"
    "BranchCellCount buf = Inr (length cells)" "is_segregated buf = Inr False" "BranchLeftmostChild buf = Inr leftmost"
proof -
  note pb = page_bounds [OF assms(2)]
  show "length buf = unat (PageSize cfg)" and f: "16 + 4 * length cells + cells_size cells \<le> content_end cfg"
    using assms(1) by (simp_all add: plain_layout_def)
  show n: "unat (word_of_nat (length cells) :: u16) = length cells" using f pb by (intro count_word) linarith
  show h: "read_header buf = Inr (TypeBranch, 0, word_of_nat (length cells), 0)"
    using assms(1) by (intro read_header_holds) (simp add: plain_layout_def)
  show "BranchCellCount buf = Inr (length cells)" using h n by (simp add: BranchCellCount_def IsBranchType_def)
  show "is_segregated buf = Inr False" using h by (simp add: is_segregated_def page_types)
  show "BranchLeftmostChild buf = Inr leftmost"
    using assms(1) by (simp add: BranchLeftmostChild_def branch_sizes plain_layout_def holds_u64)
qed

lemma cell_wf_len: "cell_wf t c \<Longrightarrow> length (bc_Key c) \<le> t"
  by (simp add: cell_wf_def split: if_splits)

lemma plain_cell:
  assumes "plain_layout cfg leftmost cells buf" "Validate cfg = None" "\<forall>c \<in> set cells. cell_wf (inline_max cfg) c" "j < length cells"
  defines "u \<equiv> cell_off (content_end cfg) cells j"
  shows "cell_in buf j u (cells ! j)" "length (bc_Key (cells ! j)) < 2 ^ 15" "u < 65536"
    "16 + 4 * length cells \<le> u" "u + cell_size (cells ! j) \<le> content_end cfg" "cell_wf (inline_max cfg) (cells ! j)"
    "u + branchCellChildSkip (raw_key_len (cells ! j)) + 8 = u + cell_size (cells ! j)"
proof -
  note pb = page_bounds [OF assms(2)] and d = plain_layoutD [OF assms(1,2)]
  show "cell_in buf j u (cells ! j)" using assms(1,4) by (simp add: plain_layout_def u_def)
  show w: "cell_wf (inline_max cfg) (cells ! j)" using assms(3,4) by simp
  then show k: "length (bc_Key (cells ! j)) < 2 ^ 15" using cell_wf_len [OF w] pb(6) by linarith
  have s: "cells_size cells \<le> content_end cfg" using d(2) by linarith
  show e: "u + cell_size (cells ! j) \<le> content_end cfg" using cell_off_bounds(2) [OF s assms(4)] by (simp add: u_def)
  show "16 + 4 * length cells \<le> u" using cell_off_bounds(1) [OF s assms(4)] d(2) by (simp add: u_def)
  show "u < 65536" using e pb cell_size_eq [of "cells ! j"] by (simp split: if_splits)
  show "u + branchCellChildSkip (raw_key_len (cells ! j)) + 8 = u + cell_size (cells ! j)"
    using raw_key_len_reads [OF k] cell_size_eq [of "cells ! j"] by (simp add: branchCellChildSkip_def branchKeyExtRefSize_def)
qed

lemma plain_BranchCellAt:
  assumes "plain_layout cfg leftmost cells buf" "Validate cfg = None" "\<forall>c \<in> set cells. cell_wf (inline_max cfg) c" "j < length cells"
  shows "BranchCellAt buf cfg j = Inr (cells ! j)"
proof -
  note c = plain_cell [OF assms] and d = plain_layoutD [OF assms(1,2)]
  note r = cell_in_reads [OF c(1-3)] and k = raw_key_len_reads [OF c(2)]
  let ?c = "cells ! j" and ?u = "cell_off (content_end cfg) cells j"
  have "plain_cell_at buf cfg j (length cells) = Inr ?c"
  proof (cases "cell_IsOverflowKey ?c")
    case True
    then have "u64_at buf (?u + length (bc_Key ?c) + 12) = Inr (bc_Child ?c)"
      using r(5) k by (simp add: branchCellChildSkip_def branchKeyExtRefSize_def add.assoc)
    then show ?thesis using True r c(4,5,7) k
      by (simp add: plain_cell_at_def branch_sizes add.assoc)
  next
    case False
    then have "u64_at buf (?u + length (bc_Key ?c)) = Inr (bc_Child ?c)"
      using r(5) k by (simp add: branchCellChildSkip_def)
    moreover have "bc_KeyExtPage ?c = 0" "bc_KeyTotalLen ?c = 0" using False c(6) by (simp_all add: cell_IsOverflowKey_def cell_wf_def)
    ultimately show ?thesis using False r c(4,5,7) k by (simp add: plain_cell_at_def branch_sizes)
  qed
  then show ?thesis using assms(2,4) d by (simp add: BranchCellAt_def)
qed

lemma plain_DecodeBranch:
  assumes "plain_layout cfg leftmost cells buf" "Validate cfg = None" "\<forall>c \<in> set cells. cell_wf (inline_max cfg) c"
  shows "DecodeBranch buf cfg = Inr (leftmost, cells)"
proof -
  have "each_res (BranchCellAt buf cfg) [0..<length cells] = Inr (map ((!) cells) [0..<length cells])"
    by (rule each_res_map) (use plain_BranchCellAt [OF assms] in simp)
  then show ?thesis using plain_layoutD [OF assms(1,2)] assms(2) by (simp add: DecodeBranch_def map_nth)
qed

definition child_of :: "u64 \<Rightarrow> BranchCell list \<Rightarrow> nat \<Rightarrow> u64" where
  "child_of leftmost cells i = (if i = 0 then leftmost else bc_Child (cells ! (i - 1)))"

lemma plain_BranchChildAt:
  assumes "plain_layout cfg leftmost cells buf" "Validate cfg = None" "\<forall>c \<in> set cells. cell_wf (inline_max cfg) c" "i \<le> length cells"
  shows "BranchChildAt buf cfg i = Inr (child_of leftmost cells i)"
proof (cases i)
  case 0
  then show ?thesis using plain_layoutD [OF assms(1,2)] assms(2) by (simp add: BranchChildAt_def child_of_def)
next
  case (Suc j)
  then have j: "j < length cells" using assms(4) by simp
  note c = plain_cell [OF assms(1-3) j]
  show ?thesis
    using cell_in_reads [OF c(1-3)] plain_layoutD [OF assms(1,2)] assms(2) Suc
    by (simp add: BranchChildAt_def branchCellChild_def child_of_def page_types)
qed

lemma all_ok_iff: "all_ok f xs = Inr () \<longleftrightarrow> (\<forall>x \<in> set xs. f x = Inr True)"
  by (induction xs) (auto simp: bind_res_Inr_iff split: if_splits)

lemma plain_ValidateBranch:
  assumes "plain_layout cfg leftmost cells buf" "Validate cfg = None" "\<forall>c \<in> set cells. cell_wf (inline_max cfg) c"
  shows "ValidateBranch buf cfg = Inr ()"
proof -
  note d = plain_layoutD [OF assms(1,2)] and pb = page_bounds [OF assms(2)]
  have "plain_cell_ok buf cfg (16 + 4 * length cells) j = Inr True" if "j < length cells" for j
  proof -
    note c = plain_cell [OF assms that]
    note r = cell_in_reads [OF c(1-3)] and k = raw_key_len_reads [OF c(2)]
    have "cell_IsOverflowKey (cells ! j) \<Longrightarrow> bc_KeyExtPage (cells ! j) \<noteq> 0" by (simp add: cell_IsOverflowKey_def)
    then show ?thesis
      using r c(4-7) k by (cases "cell_IsOverflowKey (cells ! j)") (simp_all add: plain_cell_ok_def branchChildPtrSize_def cell_wf_def add.assoc)
  qed
  then show ?thesis
    using d pb by (simp add: ValidateBranch_def page_types branch_sizes mult.commute all_ok_iff)
qed

section \<open>Separators\<close>

text \<open>
  The full separator a cell stands for, and the page's descent index: the number of separators up
  to the target. The comparison through the key extent is asked only when the target ties with the
  resident bytes and is longer; there it has to compare with the full separator.
\<close>

definition sep_of :: "nat \<Rightarrow> BranchCell \<Rightarrow> bytes \<Rightarrow> bool" where
  "sep_of t c s \<longleftrightarrow>
     (if cell_IsOverflowKey c then length s = unat (bc_KeyTotalLen c) \<and> take t s = bc_Key c else s = bc_Key c)"

definition descent :: "bytes list \<Rightarrow> bytes \<Rightarrow> nat" where
  "descent seps target = length (filter (\<lambda>s. s \<le> target) seps)"

definition tail_ok :: "TailCompare \<Rightarrow> nat \<Rightarrow> bytes \<Rightarrow> BranchCell \<Rightarrow> bytes \<Rightarrow> bool" where
  "tail_ok tailCmp t target c s \<longleftrightarrow>
     (cell_IsOverflowKey c \<and> t < length target \<and> take t target = bc_Key c \<longrightarrow>
      tailCmp target (bc_KeyExtPage c) (bc_KeyTotalLen c) = Inr (Compare target s))"

lemma descent_le: "descent seps target \<le> length seps"
  by (simp add: descent_def)

lemma overflow_probe_eq:
  assumes "take (length key) s = key" "length key < length s"
    and "length key < length target \<Longrightarrow> take (length key) target = key \<Longrightarrow> tail = Inr (Compare target s)"
  shows "overflow_probe target key tail = Inr (target < s)"
proof -
  let ?t = "length key"
  define k where "k = min (length target) ?t"
  have k: "k \<le> length target" "k \<le> length s" "take k key = take k s"
    using assms(1,2) take_take [of k ?t s] by (auto simp: k_def)
  show ?thesis
  proof (cases "take k target = take k s")
    case False
    then have "(target < s) = (take k target < take k s)" using k by (intro less_diff_take) simp_all
    then show ?thesis using False k by (simp add: overflow_probe_def Let_def k_def [symmetric])
  next
    case True
    show ?thesis
    proof (cases "length target \<le> ?t")
      case True
      then have "target = take k s" using \<open>take k target = take k s\<close> by (simp add: k_def)
      moreover have "take k s < take k s @ drop k s" using k True assms(2) by (intro append_less) (simp add: k_def)
      ultimately have "target < s" by simp
      then show ?thesis using True \<open>take k target = take k s\<close> k by (simp add: overflow_probe_def Let_def k_def [symmetric])
    next
      case False
      then have "k = ?t" by (simp add: k_def)
      then have "take ?t target = key" using True assms(1) by simp
      then have "tail = Inr (Compare target s)" using assms(3) False by simp
      then show ?thesis using True False k by (simp add: overflow_probe_def Let_def k_def [symmetric])
    qed
  qed
qed

text \<open>The pages of a search: cells that stand for sorted separators.\<close>

definition seps_wf :: "Config \<Rightarrow> BranchCell list \<Rightarrow> bytes list \<Rightarrow> bool" where
  "seps_wf cfg cells seps \<longleftrightarrow> length seps = length cells \<and> sorted_wrt (<) seps \<and>
     (\<forall>j < length cells. cell_wf (inline_max cfg) (cells ! j) \<and> sep_of (inline_max cfg) (cells ! j) (seps ! j))"

lemma seps_wf_cells: "seps_wf cfg cells seps \<Longrightarrow> \<forall>c \<in> set cells. cell_wf (inline_max cfg) c"
  by (auto simp: seps_wf_def in_set_conv_nth)

lemma plain_BranchSearch:
  assumes "plain_layout cfg leftmost cells buf" "Validate cfg = None" "seps_wf cfg cells seps"
    and "\<forall>j < length cells. tail_ok tailCmp (inline_max cfg) target (cells ! j) (seps ! j)"
  shows "BranchSearch buf cfg target tailCmp = Inr (descent seps target)"
proof -
  have len: "length seps = length cells" and srt: "sorted_wrt (<) seps" using assms(3) by (simp_all add: seps_wf_def)
  note d = plain_layoutD [OF assms(1,2)]
  have "plain_probe buf target tailCmp j = Inr (target < seps ! j)" if j: "j < length cells" for j
  proof -
    note c = plain_cell [OF assms(1,2) seps_wf_cells [OF assms(3)] j]
    note r = cell_in_reads [OF c(1-3)] and k = raw_key_len_reads [OF c(2)]
    have s: "sep_of (inline_max cfg) (cells ! j) (seps ! j)" using assms(3) j by (simp add: seps_wf_def)
    show ?thesis
    proof (cases "cell_IsOverflowKey (cells ! j)")
      case False
      then show ?thesis using r k s by (simp add: plain_probe_def sep_of_def)
    next
      case True
      have "overflow_probe target (bc_Key (cells ! j)) (tailCmp target (bc_KeyExtPage (cells ! j)) (bc_KeyTotalLen (cells ! j))) =
          Inr (target < seps ! j)"
        by (rule overflow_probe_eq) (use True s c(6) assms(4) j in \<open>auto simp: sep_of_def cell_wf_def tail_ok_def\<close>)
      then show ?thesis using True r k by (simp add: plain_probe_def)
    qed
  qed
  then have "bsearch (plain_probe buf target tailCmp) 0 (length seps) = Inr (descent seps target)"
    unfolding descent_def using len by (intro bs.counts [OF srt]) simp
  moreover have "cells = [] \<Longrightarrow> descent seps target = 0" using len by (simp add: descent_def)
  ultimately show ?thesis using d assms(2) len by (simp add: BranchSearch_def)
qed

section \<open>In-place updates of a plain page\<close>

lemma cells_size_update:
  "cell_size c = cell_size (cells ! i) \<Longrightarrow> i < length cells \<Longrightarrow> map cell_size (cells[i := c]) = map cell_size cells"
  by (metis list_update_id map_update nth_map length_map)

lemma plain_update:
  assumes "plain_layout cfg leftmost cells buf" "Validate cfg = None" "\<forall>c \<in> set cells. cell_wf (inline_max cfg) c" "i < length cells"
    and "cell_size c = cell_size (cells ! i)" "raw_key_len c = raw_key_len (cells ! i)"
  defines "u \<equiv> cell_off (content_end cfg) cells i"
  assumes "u \<le> p" "p + length bs \<le> u + cell_size c" "holds (overwrite buf p bs) u (cell_bytes c)"
  shows "plain_layout cfg leftmost (cells[i := c]) (overwrite buf p bs)"
proof -
  note d = plain_layoutD [OF assms(1,2)] and pb = page_bounds [OF assms(2)]
  have sz: "map cell_size (cells[i := c]) = map cell_size cells" by (rule cells_size_update [OF assms(5,4)])
  have off: "cell_off (content_end cfg) (cells[i := c]) j = cell_off (content_end cfg) cells j" for j
    unfolding cell_off_def take_map [symmetric] sz ..
  have s: "cells_size cells \<le> content_end cfg" using d(2) by linarith
  have ub: "u + cell_size c \<le> content_end cfg" "16 + 4 * length cells \<le> u"
    using cell_off_bounds(1,2) [OF s assms(4)] d(2) assms(5) by (simp_all add: u_def)
  have pl: "p + length bs \<le> length buf" using ub assms(9) d(1) pb by linarith
  note df = overwrite_differs [OF pl]
  have other: "cell_in (overwrite buf p bs) j (cell_off (content_end cfg) cells j) (cells ! j)" if j: "j < length cells" "j \<noteq> i" for j
  proof (rule cell_in_differs [OF df])
    show "cell_in buf j (cell_off (content_end cfg) cells j) (cells ! j)" using assms(1) j by (simp add: plain_layout_def)
    show "{16 + 4 * j..<20 + 4 * j} \<inter> {p..<p + length bs} = {}" using ub(2) j(1) assms(8) by auto
    have "cell_off (content_end cfg) cells j + cell_size (cells ! j) \<le> u \<or> u + cell_size (cells ! i) \<le> cell_off (content_end cfg) cells j"
      using cell_off_bounds(3) [OF s j(1), of i] cell_off_bounds(3) [OF s assms(4), of j] j(2) by (cases "i < j") (auto simp: u_def)
    then show "{cell_off (content_end cfg) cells j..<cell_off (content_end cfg) cells j + cell_size (cells ! j)} \<inter> {p..<p + length bs} = {}"
      using assms(5,8,9) by auto
  qed
  have hd: "holds (overwrite buf p bs) x y" if "holds buf x y" "x + length y \<le> 16 + 4 * length cells" for x y
    by (rule differs_holds [OF df that(1)]) (use that(2) ub(2) assms(8) in auto)
  have dir: "holds (overwrite buf p bs) (16 + 4 * i) (w16 (word_of_nat u) @ w16 (raw_key_len (cells ! i)))"
    by (rule hd) (use assms(1,4) in \<open>simp_all add: plain_layout_def cell_in_def u_def del: le_bytes.simps\<close>)
  have "cell_in (overwrite buf p bs) i u c" using dir assms(6,10) by (simp add: cell_in_def)
  then have "cell_in (overwrite buf p bs) j (cell_off (content_end cfg) (cells[i := c]) j) (cells[i := c] ! j)" if "j < length cells" for j
    using other [of j] that by (cases "j = i") (simp_all add: off u_def)
  moreover have "holds (overwrite buf p bs) 0 (header_bytes TypeBranch (word_of_nat (length cells)) 0)" "holds (overwrite buf p bs) 8 (w64 leftmost)"
    by (rule hd, use assms(1) in \<open>simp_all add: plain_layout_def del: le_bytes.simps\<close>)+
  moreover have "length (overwrite buf p bs) = unat (PageSize cfg)" using pl d(1) by simp
  ultimately show ?thesis using d(2) sz by (simp add: plain_layout_def)
qed

lemma plain_SetBranchCellChild:
  assumes "plain_layout cfg leftmost cells buf" "Validate cfg = None" "\<forall>c \<in> set cells. cell_wf (inline_max cfg) c" "i < length cells"
  shows "\<exists>b. SetBranchCellChild buf cfg i child = Inr b \<and> plain_layout cfg leftmost (cells[i := (cells ! i)\<lparr>bc_Child := child\<rparr>]) b"
proof -
  let ?c = "cells ! i" and ?u = "cell_off (content_end cfg) cells i"
  let ?c' = "?c\<lparr>bc_Child := child\<rparr>"
  note c = plain_cell [OF assms] and d = plain_layoutD [OF assms(1,2)] and pb = page_bounds [OF assms(2)]
  note r = cell_in_reads [OF c(1-3)]
  let ?p = "?u + branchCellChildSkip (raw_key_len ?c)"
  have pl: "?p + 8 \<le> length buf" using c(5,7) d(1) pb by linarith
  have o: "cell_IsOverflowKey ?c' = cell_IsOverflowKey ?c" by (simp add: cell_IsOverflowKey_def)
  have sk: "?p = ?u + length (bc_Key ?c @ ext_bytes ?c)"
    using raw_key_len_reads [OF c(2)] by (simp add: branchCellChildSkip_def branchKeyExtRefSize_def ext_bytes_def del: le_bytes.simps)
  have "holds (overwrite buf ?p (w64 child)) ?u (cell_bytes ?c')"
  proof -
    have "holds buf ?u (bc_Key ?c @ ext_bytes ?c)"
      using c(1) unfolding cell_in_def cell_bytes_ext by (simp only: holds_append append_assoc simp_thms)
    then have "holds (overwrite buf ?p (w64 child)) ?u (bc_Key ?c @ ext_bytes ?c)"
      by (rule holds_other) (use sk pl in \<open>simp_all del: le_bytes.simps\<close>)
    moreover have "holds (overwrite buf ?p (w64 child)) ?p (w64 child)" using pl by (intro holds_same) (simp del: le_bytes.simps)
    ultimately have "holds (overwrite buf ?p (w64 child)) ?u
        ((bc_Key ?c @ ext_bytes ?c) @ w64 child)"
      unfolding sk by (simp only: holds_append simp_thms)
    moreover have "ext_bytes ?c' = ext_bytes ?c" using o by (simp add: ext_bytes_def)
    ultimately show ?thesis by (simp add: cell_bytes_ext del: le_bytes.simps)
  qed
  moreover have "cell_size ?c' = cell_size ?c" "raw_key_len ?c' = raw_key_len ?c" using o by (simp_all add: cell_size_def raw_key_len_def)
  moreover have "?p + length (w64 child) \<le> ?u + cell_size ?c'" "?u \<le> ?p"
    using c(7) \<open>cell_size ?c' = cell_size ?c\<close> by (simp_all del: le_bytes.simps)
  ultimately have "plain_layout cfg leftmost (cells[i := ?c']) (overwrite buf ?p (w64 child))"
    using plain_update [OF assms] by blast
  moreover have "SetBranchCellChild buf cfg i child = Inr (overwrite buf ?p (w64 child))"
    using assms(2,4) d r(1) pl by (simp add: SetBranchCellChild_def put_at_def del: le_bytes.simps)
  ultimately show ?thesis by blast
qed

end
