(* ===== verification/Branch_Seg.thy ===== *)
theory Branch_Seg
  imports Branch_Plain
begin

text \<open>
  The segregated branch layout: what the encoder writes and what the readers see. The separators
  are sorted, so the prefix shared by the first and the last is shared by all of them.
\<close>

section \<open>The shared prefix\<close>

lemma cells_sorted_keys: "cells_sorted cells \<Longrightarrow> sorted (map bc_Key cells)"
proof (induction cells rule: cells_sorted.induct)
  case (1 a b cs)
  then have "\<not> bc_Key b < bc_Key a" "sorted (map bc_Key (b # cs))" by (simp_all add: Let_def)
  then have "bc_Key a \<le> bc_Key b" "sorted (map bc_Key (b # cs))" by (simp_all only: not_less)
  then show ?case by (auto intro: order_trans)
qed simp_all

lemma shared_prefix_all:
  assumes "cells_sorted cells" "c \<in> set cells"
  shows "shared_prefix cells \<le> length (bc_Key c)" "take (shared_prefix cells) (bc_Key c) = take (shared_prefix cells) (bc_Key (hd cells))"
proof -
  let ?f = "bc_Key (hd cells)" and ?l = "bc_Key (last cells)"
  have ne: "cells \<noteq> []" using assms(2) by auto
  note srt = cells_sorted_keys [OF assms(1)]
  have "?f \<le> bc_Key c" using srt assms(2) by (cases cells) auto
  moreover have "bc_Key c \<le> ?l"
  proof -
    obtain j where j: "j < length cells" "c = cells ! j" using assms(2) by (auto simp: in_set_conv_nth)
    have "map bc_Key cells ! j \<le> map bc_Key cells ! (length cells - 1)"
      by (rule sorted_nth_mono [OF srt]) (use j in simp_all)
    moreover have "length cells - 1 < length cells" using ne by simp
    ultimately show ?thesis using j ne by (simp add: last_conv_nth)
  qed
  moreover have "shared_prefix cells = sharedPrefixLen ?f ?l" using ne by (simp add: shared_prefix_def)
  ultimately show "shared_prefix cells \<le> length (bc_Key c)" "take (shared_prefix cells) (bc_Key c) = take (shared_prefix cells) ?f"
    using between_prefix [of "sharedPrefixLen ?f ?l" ?f ?l "bc_Key c"] sharedPrefixLen_take [of ?f ?l] sharedPrefixLen_le [of ?f ?l]
    by simp_all
qed

section \<open>Spans of the heap\<close>

definition span_of :: "nat \<Rightarrow> BranchCell \<Rightarrow> bytes" where
  "span_of m c = drop m (bc_Key c) @ ext_bytes c"

definition heap_off :: "nat \<Rightarrow> BranchCell list \<Rightarrow> nat \<Rightarrow> nat" where
  "heap_off m cells i = sum_list (map (\<lambda>c. length (span_of m c)) (take i cells))"

definition mark :: "BranchCell \<Rightarrow> u64" where
  "mark c = (if cell_IsOverflowKey c then bc_Child c OR segBranchChildOverflowBit else bc_Child c)"

lemma length_ext_bytes: "length (ext_bytes c) = (if cell_IsOverflowKey c then 12 else 0)"
  by (simp add: ext_bytes_def del: le_bytes.simps)

lemma heap_off_0 [simp]: "heap_off m cells 0 = 0" by (simp add: heap_off_def)

lemma heap_off_Cons: "heap_off m (c # cs) (Suc i) = length (span_of m c) + heap_off m cs i"
  by (simp add: heap_off_def)

lemma heap_off_Suc: "i < length cells \<Longrightarrow> heap_off m cells (Suc i) = heap_off m cells i + length (span_of m (cells ! i))"
  by (simp add: heap_off_def take_Suc_conv_app_nth)

lemma heap_off_mono: "i \<le> j \<Longrightarrow> heap_off m cells i \<le> heap_off m cells j"
  using take_sum_le [of i "map (\<lambda>c. length (span_of m c)) (take j cells)"] by (simp add: heap_off_def take_map min_def)

lemma heap_off_le: "heap_off m cells i \<le> heap_off m cells (length cells)"
  using take_sum_le [of i "map (\<lambda>c. length (span_of m c)) cells"] by (simp add: heap_off_def take_map)

lemma hb_eq: "segBranchHeapBase n = 22 + 2 * n"
  by (simp add: segBranchHeapBase_def branch_sizes)

lemma seg_size:
  assumes "cells_sorted cells"
  shows "segBranchEncodedSize cells =
    int (22 + 2 * length cells + heap_off (shared_prefix cells) cells (length cells) + 8 * length cells + shared_prefix cells)"
proof -
  let ?m = "shared_prefix cells"
  have "key_len_sum cs + 12 * ext_refs cs = heap_off ?m cs (length cs) + length cs * ?m" if "\<forall>c \<in> set cs. ?m \<le> length (bc_Key c)" for cs
    using that
  proof (induction cs)
    case (Cons c cs)
    then show ?case
      by (simp add: key_len_sum_def ext_refs_def heap_off_Cons span_of_def length_ext_bytes)
  qed (simp add: key_len_sum_def ext_refs_def)
  then have "key_len_sum cells + 12 * ext_refs cells = heap_off ?m cells (length cells) + length cells * ?m"
    using shared_prefix_all(1) [OF assms] by blast
  then have "int (key_len_sum cells) - int (length cells * ?m) + int (ext_refs cells * 12) = int (heap_off ?m cells (length cells))"
    by linarith
  then show ?thesis
    by (cases "cells = []") (simp_all add: segBranchEncodedSize_def segBranchEncodedSizeOf_def hb_eq branchKeyExtRefSize_def shared_prefix_def)
qed

section \<open>The encoder's loop\<close>

text \<open>Cell \<open>i\<close> of \<open>n\<close>, whose heap span begins at \<open>h\<close>.\<close>

definition seg_in :: "bytes \<Rightarrow> nat \<Rightarrow> nat \<Rightarrow> nat \<Rightarrow> nat \<Rightarrow> nat \<Rightarrow> BranchCell \<Rightarrow> bool" where
  "seg_in b ce m n i h c \<longleftrightarrow> holds b (20 + 2 * i) (w16 (word_of_nat h)) \<and> holds b (22 + 2 * n + h) (span_of m c) \<and>
     holds b (ce - m - 8 * (n - i)) (w64 (mark c))"

lemma seg_in_differs:
  assumes "differs_in S a b" "seg_in a ce m n i h c" "{20 + 2 * i..<22 + 2 * i} \<inter> S = {}"
    "{22 + 2 * n + h..<22 + 2 * n + h + length (span_of m c)} \<inter> S = {}"
    "{ce - m - 8 * (n - i)..<ce - m - 8 * (n - i) + 8} \<inter> S = {}"
  shows "seg_in b ce m n i h c"
  unfolding seg_in_def
proof (intro conjI)
  show "holds b (20 + 2 * i) (w16 (word_of_nat h))"
    by (rule differs_holds [OF assms(1)]) (use assms(2,3) in \<open>simp_all add: seg_in_def add.commute del: le_bytes.simps\<close>)
  show "holds b (22 + 2 * n + h) (span_of m c)"
    by (rule differs_holds [OF assms(1)]) (use assms(2,4) in \<open>simp_all add: seg_in_def\<close>)
  show "holds b (ce - m - 8 * (n - i)) (w64 (mark c))"
    by (rule differs_holds [OF assms(1)]) (use assms(2,5) in \<open>simp_all add: seg_in_def del: le_bytes.simps\<close>)
qed

lemma seg_cell_writes:
  assumes "q + length (span_of m c) \<le> length buf"
  shows "bind_res (copy_at buf q (drop m (bc_Key c))) (\<lambda>b. bind_res (put_ext b (q + length (drop m (bc_Key c))) c) f) =
    f (overwrite buf q (span_of m c))"
proof -
  let ?s = "drop m (bc_Key c)"
  have l: "q + length ?s + length (ext_bytes c) \<le> length buf" using assms by (simp add: span_of_def)
  have k: "copy_at buf q ?s = Inr (overwrite buf q ?s)" using l by (intro copy_at_ok) simp
  have "put_ext (overwrite buf q ?s) (q + length ?s) c = Inr (overwrite (overwrite buf q ?s) (q + length ?s) (ext_bytes c))"
    unfolding ext_bytes_def using l length_ext_bytes [of c] by (intro put_ext_ok) simp
  also have "overwrite (overwrite buf q ?s) (q + length ?s) (ext_bytes c) = overwrite buf q (span_of m c)"
    unfolding span_of_def using l by (intro overwrite_overwrite) simp
  finally show ?thesis by (simp only: k bind_res.simps)
qed

lemma seg_put_cells_layout:
  assumes "i + length cells = n" "22 + 2 * n + h + heap_off m cells (length cells) + 8 * n + m \<le> ce" "ce \<le> length buf" "ce \<le> 65536"
    and "\<forall>c \<in> set cells. m \<le> length (bc_Key c)"
  shows "\<exists>b. seg_put_cells buf ce m n i h cells = Inr (b, h + heap_off m cells (length cells)) \<and>
    differs_in ({20 + 2 * i..<20 + 2 * n} \<union> {22 + 2 * n + h..<22 + 2 * n + h + heap_off m cells (length cells)} \<union>
      {ce - m - 8 * (n - i)..<ce - m}) buf b \<and>
    (\<forall>j < length cells. seg_in b ce m n (i + j) (h + heap_off m cells j) (cells ! j))"
  using assms
proof (induction cells arbitrary: buf i h)
  case (Cons c cs)
  define L where "L = length (span_of m c)"
  define R where "R = heap_off m cs (length cs)"
  have R: "heap_off m (c # cs) (length (c # cs)) = L + R" by (simp add: heap_off_Cons L_def R_def)
  have n: "i < n" "Suc i + length cs = n" using Cons.prems(1) by simp_all
  have sz: "22 + 2 * n + h + L + R + 8 * n + m \<le> ce" using Cons.prems(2) unfolding R by linarith
  define d q k where dqk: "d = 20 + 2 * i" "q = 22 + 2 * n + h" "k = ce - m - 8 * (n - i)"
  have ord: "d + 2 \<le> q" "q + L + R \<le> k" "k + 8 \<le> ce - m" "k + 8 = ce - m - 8 * (n - Suc i)" "ce - m \<le> length buf"
    using sz n Cons.prems(3) by (simp_all add: dqk)
  define b1 where "b1 = overwrite buf d (w16 (word_of_nat h))"
  define b2 where "b2 = overwrite b1 q (span_of m c)"
  define b3 where "b3 = overwrite b2 k (w64 (mark c))"
  have l1: "length b1 = length buf" using ord by (simp add: b1_def del: le_bytes.simps)
  have l2: "length b2 = length buf" using ord l1 by (simp add: b2_def L_def)
  have l3: "length b3 = length buf" using ord l2 by (simp add: b3_def del: le_bytes.simps)
  have run: "seg_put_cells buf ce m n i h (c # cs) = seg_put_cells b3 ce m n (i + 1) (h + L) cs"
  proof -
    have m: "\<not> length (bc_Key c) < m" using Cons.prems(5) by simp
    have p1: "put_at buf (segBranchDirOff + i * segBranchDirSlotSize) (w16 (word_of_nat h)) = Inr b1"
    proof -
      have "d + 2 \<le> length buf" using ord by linarith
      moreover have "segBranchDirOff + i * segBranchDirSlotSize = d" by (simp add: dqk branch_sizes)
      ultimately have "d + 2 \<le> length buf" "segBranchDirOff + i * segBranchDirSlotSize = d" by simp_all
      then show ?thesis by (simp add: put_at_def b1_def del: le_bytes.simps)
    qed
    have p2: "q + length (span_of m c) \<le> length b1" using ord l1 by (simp add: L_def)
    have co: "segBranchChildOff ce m n i = int k" using sz n by (simp add: segBranchChildOff_def dqk of_nat_diff)
    have p3: "put_at b2 (nat (segBranchChildOff ce m n i)) (w64 (mark c)) = Inr b3"
      using ord l2 by (simp add: put_at_def b3_def co del: le_bytes.simps)
    have hq: "segBranchHeapBase n + h = q" by (simp add: hb_eq dqk)
    have L: "h + length (drop m (bc_Key c)) + (if cell_IsOverflowKey c then branchKeyExtRefSize else 0) = h + L"
      by (simp add: L_def span_of_def length_ext_bytes branchKeyExtRefSize_def)
    show ?thesis
      by (simp only: seg_put_cells.simps Let_def m if_False p1 bind_res.simps hq seg_cell_writes [OF p2] b2_def [symmetric]
          mark_def [symmetric] p3 L) (simp add: co)
  qed
  have df: "differs_in ({d..<d + 2} \<union> {q..<q + L} \<union> {k..<k + 8}) buf b3"
  proof -
    have "differs_in {d..<d + 2} buf b1" using overwrite_differs [of d "w16 (word_of_nat h)" buf] ord by (simp add: b1_def del: le_bytes.simps)
    moreover have "differs_in {q..<q + L} b1 b2" using overwrite_differs [of q "span_of m c" b1] ord l1 by (simp add: b2_def L_def)
    ultimately have "differs_in ({d..<d + 2} \<union> {q..<q + L}) buf b2" by (rule differs_trans) auto
    moreover have "differs_in {k..<k + 8} b2 b3" using overwrite_differs [of k "w64 (mark c)" b2] ord l2 by (simp add: b3_def del: le_bytes.simps)
    ultimately show ?thesis by (rule differs_trans) auto
  qed
  have here: "seg_in b3 ce m n i h c"
  proof -
    have "holds b1 d (w16 (word_of_nat h))" unfolding b1_def using ord by (intro holds_same) (simp del: le_bytes.simps)
    then have "holds b2 d (w16 (word_of_nat h))" unfolding b2_def
      using holds_other [of b1 d "w16 (word_of_nat h)" q "span_of m c"] ord l1 by (simp add: L_def del: le_bytes.simps)
    then have "holds b3 d (w16 (word_of_nat h))" unfolding b3_def
      using holds_other [of b2 d "w16 (word_of_nat h)" k "w64 (mark c)"] ord l2 by (simp del: le_bytes.simps)
    moreover have "holds b2 q (span_of m c)" unfolding b2_def using ord l1 by (intro holds_same) (simp add: L_def)
    then have "holds b3 q (span_of m c)" unfolding b3_def
      using holds_other [of b2 q "span_of m c" k "w64 (mark c)"] ord l2 by (simp add: L_def del: le_bytes.simps)
    moreover have "holds b3 k (w64 (mark c))" unfolding b3_def using ord l2 by (intro holds_same) (simp del: le_bytes.simps)
    ultimately show ?thesis by (simp add: seg_in_def dqk)
  qed
  obtain b where b: "seg_put_cells b3 ce m n (i + 1) (h + L) cs = Inr (b, h + L + R)"
      "differs_in ({20 + 2 * (i + 1)..<20 + 2 * n} \<union> {22 + 2 * n + (h + L)..<22 + 2 * n + (h + L) + R} \<union> {ce - m - 8 * (n - (i + 1))..<ce - m}) b3 b"
      "\<forall>j < length cs. seg_in b ce m n (i + 1 + j) (h + L + heap_off m cs j) (cs ! j)"
    using Cons.IH [of "i + 1" "h + L" b3] n sz l3 Cons.prems(3,4,5) unfolding R_def by auto
  have "differs_in ({20 + 2 * i..<20 + 2 * n} \<union> {22 + 2 * n + h..<22 + 2 * n + h + (L + R)} \<union> {ce - m - 8 * (n - i)..<ce - m}) buf b"
    by (rule differs_trans [OF df b(2)]) (use ord n in \<open>auto simp: dqk\<close>)
  moreover have "seg_in b ce m n i h c"
    by (rule seg_in_differs [OF b(2) here]) (use ord n in \<open>auto simp: dqk L_def [symmetric]\<close>)
  then have "seg_in b ce m n (i + j) (h + heap_off m (c # cs) j) ((c # cs) ! j)" if "j < length (c # cs)" for j
    using b(3) that by (cases j) (auto simp: heap_off_Cons L_def add.assoc)
  ultimately show ?case using run b(1) unfolding R by (simp add: add.assoc)
qed simp

section \<open>Pages in the segregated layout\<close>

definition seg_layout :: "Config \<Rightarrow> u64 \<Rightarrow> BranchCell list \<Rightarrow> bytes \<Rightarrow> bool" where
  "seg_layout cfg leftmost cells buf \<longleftrightarrow>
     (let n = length cells; m = shared_prefix cells; ce = content_end cfg in
      length buf = unat (PageSize cfg) \<and> cells_sorted cells \<and> 22 + 2 * n + heap_off m cells n + 8 * n + m \<le> ce \<and>
      holds buf 0 (header_bytes TypeBranchSegregated (word_of_nat n) 0) \<and> holds buf 8 (w64 leftmost) \<and>
      holds buf 16 (w16 (word_of_nat m)) \<and> (cells \<noteq> [] \<longrightarrow> holds buf (ce - m) (take m (bc_Key (hd cells)))) \<and>
      (\<forall>j < n. seg_in buf ce m n j (heap_off m cells j) (cells ! j)) \<and>
      holds buf (20 + 2 * n) (w16 (word_of_nat (heap_off m cells n))))"

text \<open>Bit 63 of a stored page id is reserved by the format.\<close>

definition seg_cell_wf :: "nat \<Rightarrow> BranchCell \<Rightarrow> bool" where
  "seg_cell_wf t c \<longleftrightarrow> cell_wf t c \<and> \<not> bit (bc_Child c) 63"

lemma encode_seg:
  assumes "Validate cfg = None" "length buf = unat (PageSize cfg)" "EffectiveBranchType cfg = TypeBranchSegregated"
    and "cells_sorted cells" "\<forall>c \<in> set cells. cell_wf (inline_max cfg) c" "BranchEncodedSize cfg cells \<le> int (content_end cfg)"
  shows "\<exists>b. EncodeBranch buf cfg leftmost cells = Inr b \<and> seg_layout cfg leftmost cells b"
proof -
  define n m ce where nmc: "n = length cells" "m = shared_prefix cells" "ce = content_end cfg"
  define H where "H = heap_off m cells n"
  note pb = page_bounds [OF assms(1)]
  have fits: "22 + 2 * n + H + 8 * n + m \<le> ce"
    using assms(3,6) unfolding BranchEncodedSize_def nmc H_def by (simp only: refl if_True simp_thms seg_size [OF assms(4)] of_nat_le_iff)
  have ce: "ce \<le> length buf" "ce \<le> 65536" using pb assms(2) by (simp_all add: nmc)
  let ?n = "word_of_nat n :: u16"
  obtain b1 where b1: "write_header (zeroed buf) TypeBranchSegregated ?n 0 = Inr b1" "differs_in {0..<8} (zeroed buf) b1"
      "holds b1 0 (header_bytes TypeBranchSegregated ?n 0)"
    using write_header_holds [of "zeroed buf" TypeBranchSegregated ?n 0] assms(2) pb by auto
  have l1: "length b1 = length buf" using differs_len [OF b1(2)] by simp
  define b2 where "b2 = overwrite b1 8 (w64 leftmost)"
  have "16 \<le> length b1" using l1 ce fits by simp
  note s2 = SetBranchLeftmostChild_ok [OF this, of leftmost, folded b2_def]
  have l2: "length b2 = length buf" using differs_len [OF s2(2)] l1 by simp
  define P where "P = (if cells = [] then [] else take m (bc_Key (hd cells)))"
  have lP: "length P = m"
  proof (cases "cells = []")
    case True
    then show ?thesis by (simp add: P_def nmc shared_prefix_def)
  next
    case False
    then show ?thesis using shared_prefix_all(1) [OF assms(4), of "hd cells"] by (simp add: P_def nmc)
  qed
  define b3 where "b3 = overwrite b2 (ce - m) P"
  have d3: "differs_in {ce - m..<ce} b2 b3" using overwrite_differs [of "ce - m" P b2] fits ce l2 lP by (simp add: b3_def)
  have l3: "length b3 = length buf" using differs_len [OF d3] l2 by simp
  have p3: "(if cells = [] then Inr b2 else put_at b2 (ce - m) (take m (bc_Key (hd cells)))) = Inr b3"
  proof (cases "cells = []")
    case True
    then have "m = 0" "P = []" by (simp_all add: nmc shared_prefix_def P_def)
    then show ?thesis using True by (simp add: b3_def overwrite_def)
  next
    case False
    then have "put_at b2 (ce - m) P = Inr b3" using lP fits ce l2 by (simp add: b3_def put_at_def)
    then show ?thesis using False by (simp add: P_def)
  qed
  have h3: "holds b3 (ce - m) P" unfolding b3_def using fits ce l2 lP by (intro holds_same) simp
  define b4 where "b4 = overwrite b3 16 (w16 (word_of_nat m))"
  have d4: "differs_in {16..<18} b3 b4"
    using overwrite_differs [of 16 "w16 (word_of_nat m)" b3] fits ce l3 by (simp add: b4_def del: le_bytes.simps)
  have l4: "length b4 = length buf" using differs_len [OF d4] l3 by simp
  have p4: "put_at b3 segBranchPrefixLenOff (w16 (word_of_nat m)) = Inr b4"
    using fits ce l3 by (simp add: put_at_def b4_def branch_sizes del: le_bytes.simps)
  have h4: "holds b4 16 (w16 (word_of_nat m))" unfolding b4_def using fits ce l3 by (intro holds_same) (simp del: le_bytes.simps)
  obtain b5 where b5: "seg_put_cells b4 ce m n 0 0 cells = Inr (b5, H)"
      "differs_in ({20..<20 + 2 * n} \<union> {22 + 2 * n..<22 + 2 * n + H} \<union> {ce - m - 8 * n..<ce - m}) b4 b5"
      "\<forall>j < n. seg_in b5 ce m n j (heap_off m cells j) (cells ! j)"
    using seg_put_cells_layout [of 0 cells n 0 m ce b4] fits ce l4 shared_prefix_all(1) [OF assms(4)]
    by (auto simp: nmc H_def)
  have l5: "length b5 = length buf" using differs_len [OF b5(2)] l4 by simp
  define b6 where "b6 = overwrite b5 (20 + 2 * n) (w16 (word_of_nat H))"
  have d6: "differs_in {20 + 2 * n..<22 + 2 * n} b5 b6"
    using overwrite_differs [of "20 + 2 * n" "w16 (word_of_nat H)" b5] fits ce l5 by (simp add: b6_def add.commute del: le_bytes.simps)
  have p6: "put_at b5 (segBranchDirOff + n * segBranchDirSlotSize) (w16 (word_of_nat H)) = Inr b6"
    using fits ce l5 by (simp add: put_at_def b6_def branch_sizes mult.commute del: le_bytes.simps)
  have h6: "holds b6 (20 + 2 * n) (w16 (word_of_nat H))"
    unfolding b6_def using fits ce l5 by (intro holds_same) (simp del: le_bytes.simps)
  have low: "holds b6 x bs" if "holds b4 x bs" "x + length bs \<le> 20" for x bs
    by (rule differs_holds [OF d6], rule differs_holds [OF b5(2) that(1)]) (use that(2) fits in auto)
  have low2: "holds b4 x bs" if "holds b2 x bs" "x + length bs \<le> 16" for x bs
    by (rule differs_holds [OF d4], rule differs_holds [OF d3 that(1)]) (use that(2) fits in auto)
  have "holds b2 0 (header_bytes TypeBranchSegregated ?n 0)" by (rule differs_holds [OF s2(2) b1(3)]) simp
  then have "holds b6 0 (header_bytes TypeBranchSegregated ?n 0)" using low low2 by simp
  moreover have "holds b6 8 (w64 leftmost)" using low [OF low2 [OF s2(3)]] by (simp del: le_bytes.simps)
  moreover have "holds b6 16 (w16 (word_of_nat m))" using low [OF h4] by (simp del: le_bytes.simps)
  moreover have "holds b6 (ce - m) P"
    by (rule differs_holds [OF d6], rule differs_holds [OF b5(2)], rule differs_holds [OF d4 h3]) (use fits lP in auto)
  moreover have "seg_in b6 ce m n j (heap_off m cells j) (cells ! j)" if j: "j < n" for j
    by (rule seg_in_differs [OF d6]) (use b5(3) j fits in auto)
  moreover have "length b6 = unat (PageSize cfg)" using differs_len [OF d6] l5 assms(2) by simp
  ultimately have "seg_layout cfg leftmost cells b6"
    using h6 fits assms(4) by (simp add: seg_layout_def Let_def nmc [symmetric] H_def [symmetric] P_def split: if_splits)
  moreover have c: "check_lengths (inline_max cfg) cells = Inr ()" by (rule check_lengths_wf [OF assms(5)])
  have "segEncodeBranch buf cfg leftmost cells = Inr b6"
  proof -
    have g: "\<not> segBranchEncodedSize cells > int ce" "\<not> ce < m" using assms(3,6) fits by (simp_all add: BranchEncodedSize_def nmc)
    show ?thesis
      unfolding segEncodeBranch_def Let_def nmc [symmetric]
      by (simp only: g if_False b1(1) s2(1) p3 p4 b5(1) p6 bind_res.simps prod.case)
  qed
  then have "EncodeBranch buf cfg leftmost cells = Inr b6" using assms(1-4) c by (simp add: EncodeBranch_def)
  ultimately show ?thesis by blast
qed

section \<open>Reading a segregated page\<close>

lemma mark_reads:
  assumes "\<not> bit (bc_Child c) 63"
  shows "mark c AND NOT segBranchChildOverflowBit = bc_Child c" "(mark c AND segBranchChildOverflowBit \<noteq> 0) = cell_IsOverflowKey c"
  using or_andnot_single [OF assms] and_single_or [of 63 "bc_Child c"] assms
  by (auto simp: mark_def segBranchChildOverflowBit_def)

lemma seg_layoutD:
  assumes "seg_layout cfg leftmost cells buf" "Validate cfg = None"
  defines "n \<equiv> length cells" and "m \<equiv> shared_prefix cells" and "ce \<equiv> content_end cfg"
  shows "length buf = unat (PageSize cfg)" "22 + 2 * n + heap_off m cells n + 8 * n + m \<le> ce" "ce \<le> length buf" "cells_sorted cells"
    "unat (word_of_nat n :: u16) = n"
    "read_header buf = Inr (TypeBranchSegregated, 0, word_of_nat n, 0)"
    "BranchCellCount buf = Inr n" "is_segregated buf = Inr True" "BranchLeftmostChild buf = Inr leftmost"
    "segBranchPrefixLen buf = Inr m" "cells \<noteq> [] \<Longrightarrow> slice buf (ce - m) ce = Inr (take m (bc_Key (hd cells)))"
    "i \<le> n \<Longrightarrow> segBranchDirSlot buf i = Inr (heap_off m cells i)"
    "i < n \<Longrightarrow> segBranchChildRaw buf ce m n i = Inr (mark (cells ! i))"
    "i < n \<Longrightarrow> holds buf (22 + 2 * n + heap_off m cells i) (span_of m (cells ! i))"
    "i < n \<Longrightarrow> segBranchChildOff ce m n i = int (ce - m - 8 * (n - i))"
proof -
  note pb = page_bounds [OF assms(2)] and L = assms(1) [unfolded seg_layout_def Let_def, folded n_def m_def ce_def]
  show len: "length buf = unat (PageSize cfg)" and f: "22 + 2 * n + heap_off m cells n + 8 * n + m \<le> ce" and srt: "cells_sorted cells"
    using L by blast+
  show ce: "ce \<le> length buf" using pb len by (simp add: ce_def)
  have ce2: "ce \<le> 65536" using pb by (simp add: ce_def)
  show nn: "unat (word_of_nat n :: u16) = n" using f ce2 by (simp add: unat_of_nat)
  show h: "read_header buf = Inr (TypeBranchSegregated, 0, word_of_nat n, 0)" using L by (intro read_header_holds) blast
  show "BranchCellCount buf = Inr n" using h nn by (simp add: BranchCellCount_def IsBranchType_def)
  show "is_segregated buf = Inr True" using h by (simp add: is_segregated_def)
  show "BranchLeftmostChild buf = Inr leftmost" using L by (simp add: BranchLeftmostChild_def branch_sizes holds_u64)
  have "unat (word_of_nat m :: u16) = m" using f ce2 by (simp add: unat_of_nat)
  moreover have "u16_at buf 16 = Inr (word_of_nat m)" using L by (intro holds_u16) blast
  ultimately show "segBranchPrefixLen buf = Inr m" by (simp add: segBranchPrefixLen_def branch_sizes)
  show "slice buf (ce - m) ce = Inr (take m (bc_Key (hd cells)))" if "cells \<noteq> []"
    using L that f shared_prefix_all(1) [OF srt, of "hd cells"] by (intro holds_slice) (auto simp: m_def)
  show "segBranchDirSlot buf i = Inr (heap_off m cells i)" if "i \<le> n"
  proof -
    have "heap_off m cells i < 65536" using heap_off_le [of m cells i] f ce2 by (simp add: n_def)
    then have "unat (word_of_nat (heap_off m cells i) :: u16) = heap_off m cells i" by (simp add: unat_of_nat)
    moreover have "holds buf (20 + 2 * i) (w16 (word_of_nat (heap_off m cells i)))"
      using L that by (cases "i = n") (auto simp: seg_in_def simp del: le_bytes.simps)
    then have "u16_at buf (20 + 2 * i) = Inr (word_of_nat (heap_off m cells i))" by (rule holds_u16)
    ultimately show ?thesis by (simp add: segBranchDirSlot_def branch_sizes mult.commute)
  qed
  assume i: "i < n"
  then have s: "seg_in buf ce m n i (heap_off m cells i) (cells ! i)" using L by blast
  show "holds buf (22 + 2 * n + heap_off m cells i) (span_of m (cells ! i))" using s by (simp add: seg_in_def)
  show co: "segBranchChildOff ce m n i = int (ce - m - 8 * (n - i))" using i f by (simp add: segBranchChildOff_def of_nat_diff)
  have "u64_at buf (ce - m - 8 * (n - i)) = Inr (mark (cells ! i))" using s unfolding seg_in_def by (intro holds_u64) blast
  then show "segBranchChildRaw buf ce m n i = Inr (mark (cells ! i))" by (simp add: segBranchChildRaw_def co)
qed

text \<open>The heap span of a cell, split into suffix and extent reference.\<close>

lemma seg_span:
  assumes "seg_layout cfg leftmost cells buf" "Validate cfg = None" "\<forall>c \<in> set cells. seg_cell_wf (inline_max cfg) c" "i < length cells"
  defines "m \<equiv> shared_prefix cells"
  defines "c \<equiv> cells ! i" and "off \<equiv> 22 + 2 * length cells + heap_off m cells i"
  shows "heap_off m cells (Suc i) = heap_off m cells i + length (bc_Key c) - m + (if cell_IsOverflowKey c then 12 else 0)"
    "m \<le> length (bc_Key c)" "take m (bc_Key c) = take m (bc_Key (hd cells))" "\<not> bit (bc_Child c) 63" "cell_wf (inline_max cfg) c"
    "slice buf off (off + (length (bc_Key c) - m)) = Inr (drop m (bc_Key c))"
    "cell_IsOverflowKey c \<Longrightarrow> u64_at buf (off + (length (bc_Key c) - m)) = Inr (bc_KeyExtPage c)"
    "cell_IsOverflowKey c \<Longrightarrow> u32_at buf (off + (length (bc_Key c) - m) + 8) = Inr (bc_KeyTotalLen c)"
proof -
  note d = seg_layoutD [OF assms(1,2), folded m_def]
  have c: "c \<in> set cells" using assms(4) by (simp add: c_def)
  show m: "m \<le> length (bc_Key c)" "take m (bc_Key c) = take m (bc_Key (hd cells))"
    using shared_prefix_all [OF d(4) c] by (simp_all add: m_def)
  show "\<not> bit (bc_Child c) 63" "cell_wf (inline_max cfg) c" using assms(3) c by (simp_all add: seg_cell_wf_def)
  show "heap_off m cells (Suc i) = heap_off m cells i + length (bc_Key c) - m + (if cell_IsOverflowKey c then 12 else 0)"
    using heap_off_Suc [OF assms(4), of m] m(1) by (simp add: c_def span_of_def length_ext_bytes)
  have "holds buf off (drop m (bc_Key c) @ ext_bytes c)" using d(14) [OF assms(4)] by (simp add: off_def c_def span_of_def)
  then have h: "holds buf off (drop m (bc_Key c))" "holds buf (off + (length (bc_Key c) - m)) (ext_bytes c)"
    by (simp_all add: holds_append)
  show "slice buf off (off + (length (bc_Key c) - m)) = Inr (drop m (bc_Key c))" by (rule holds_slice [OF h(1)]) simp
  assume "cell_IsOverflowKey c"
  then have "holds buf (off + (length (bc_Key c) - m)) (w64 (bc_KeyExtPage c))" "holds buf (off + (length (bc_Key c) - m) + 8) (w32 (bc_KeyTotalLen c))"
    using h(2) by (simp_all add: ext_bytes_def holds_append del: le_bytes.simps)
  then show "u64_at buf (off + (length (bc_Key c) - m)) = Inr (bc_KeyExtPage c)"
    "u32_at buf (off + (length (bc_Key c) - m) + 8) = Inr (bc_KeyTotalLen c)"
    by (simp_all add: holds_u64 holds_u32)
qed

lemma seg_BranchCellAt:
  assumes "seg_layout cfg leftmost cells buf" "Validate cfg = None" "\<forall>c \<in> set cells. seg_cell_wf (inline_max cfg) c" "i < length cells"
  shows "BranchCellAt buf cfg i = Inr (cells ! i)"
proof -
  note d = seg_layoutD [OF assms(1,2)] and s = seg_span [OF assms] and mk = mark_reads [OF seg_span(4) [OF assms]]
  let ?c = "cells ! i" and ?m = "shared_prefix cells"
  have ne: "cells \<noteq> []" using assms(4) by auto
  have key: "take ?m (bc_Key (hd cells)) @ drop ?m (bc_Key ?c) = bc_Key ?c" using s(3) by (metis append_take_drop_id)
  have ok: "\<not> content_end cfg < ?m" using d(2) by linarith
  have e: "segBranchHeapBase (length cells) + heap_off ?m cells (Suc i) =
      segBranchHeapBase (length cells) + heap_off ?m cells i + (length (bc_Key ?c) - ?m) + (if cell_IsOverflowKey ?c then 12 else 0)"
    using s(1,2) by simp
  have "segBranchCellAt buf cfg i (length cells) = Inr ?c"
  proof (cases "cell_IsOverflowKey ?c")
    case True
    then show ?thesis
      using d(10) d(11) [OF ne] d(12) [of i] d(12) [of "Suc i"] d(13) [of i] s(6-8) mk ok key e assms(4)
      by (simp add: segBranchCellAt_def Let_def branchKeyExtRefSize_def hb_eq add.assoc)
  next
    case False
    moreover have "bc_KeyExtPage ?c = 0" "bc_KeyTotalLen ?c = 0" using False s(5) by (simp_all add: cell_IsOverflowKey_def cell_wf_def)
    ultimately show ?thesis
      using d(10) d(11) [OF ne] d(12) [of i] d(12) [of "Suc i"] d(13) [of i] s(6) mk ok key e assms(4)
      by (simp add: segBranchCellAt_def Let_def hb_eq add.assoc)
  qed
  then show ?thesis using assms(2,4) d(7,8) by (simp add: BranchCellAt_def)
qed

lemma seg_DecodeBranch:
  assumes "seg_layout cfg leftmost cells buf" "Validate cfg = None" "\<forall>c \<in> set cells. seg_cell_wf (inline_max cfg) c"
  shows "DecodeBranch buf cfg = Inr (leftmost, cells)"
proof -
  have "each_res (BranchCellAt buf cfg) [0..<length cells] = Inr (map ((!) cells) [0..<length cells])"
    by (rule each_res_map) (use seg_BranchCellAt [OF assms] in simp)
  then show ?thesis using seg_layoutD(7,9) [OF assms(1,2)] assms(2) by (simp add: DecodeBranch_def map_nth)
qed

lemma seg_BranchChildAt:
  assumes "seg_layout cfg leftmost cells buf" "Validate cfg = None" "\<forall>c \<in> set cells. seg_cell_wf (inline_max cfg) c" "i \<le> length cells"
  shows "BranchChildAt buf cfg i = Inr (child_of leftmost cells i)"
proof (cases i)
  case 0
  then show ?thesis using seg_layoutD(9) [OF assms(1,2)] assms(2) by (simp add: BranchChildAt_def child_of_def)
next
  case (Suc j)
  then have j: "j < length cells" using assms(4) by simp
  show ?thesis
    using seg_layoutD(5,6,10) [OF assms(1,2)] seg_layoutD(13) [OF assms(1,2) j] mark_reads(1) [OF seg_span(4) [OF assms(1-3) j]] assms(2) Suc
    by (simp add: BranchChildAt_def child_of_def)
qed

section \<open>Search in a segregated page\<close>

lemma above_prefix:
  fixes P x target :: "'a::linorder list"
  assumes "\<not> prefix P target" "P \<le> target"
  shows "P @ x < target"
  using assms
proof (induction P arbitrary: target)
  case (Cons a P)
  then obtain b t where t: "target = b # t" by (cases target) auto
  show ?case
  proof (cases "a = b")
    case True
    then show ?thesis using Cons t by auto
  next
    case False
    then show ?thesis using Cons.prems(2) t by auto
  qed
qed simp

lemma sep_prefix:
  assumes "sep_of t c s" "cell_wf t c" "m \<le> length (bc_Key c)"
  shows "take m s = take m (bc_Key c)" "m \<le> length s" "cell_IsOverflowKey c \<Longrightarrow> take (t - m) (drop m s) = drop m (bc_Key c) \<and> t - m < length (drop m s)"
proof -
  have "take m s = take m (bc_Key c) \<and> m \<le> length s"
  proof (cases "cell_IsOverflowKey c")
    case True
    then have "take t s = bc_Key c" "length (bc_Key c) = t" "t < length s" using assms(1,2) by (simp_all add: sep_of_def cell_wf_def)
    then show ?thesis using assms(3) take_take [of m t s] by (simp add: min_def)
  qed (use assms in \<open>simp add: sep_of_def\<close>)
  then show "take m s = take m (bc_Key c)" "m \<le> length s" by simp_all
  assume "cell_IsOverflowKey c"
  then have "take t s = bc_Key c" "length (bc_Key c) = t" "t < length s" using assms(1,2) by (simp_all add: sep_of_def cell_wf_def)
  moreover from this have "drop m (bc_Key c) = take (t - m) (drop m s)" using drop_take [of m t s] by simp
  ultimately show "take (t - m) (drop m s) = drop m (bc_Key c) \<and> t - m < length (drop m s)"
    using assms(3) by simp
qed

lemma seg_BranchSearch:
  assumes "seg_layout cfg leftmost cells buf" "Validate cfg = None" "seps_wf cfg cells seps" "\<forall>c \<in> set cells. \<not> bit (bc_Child c) 63"
    and "\<forall>j < length cells. tail_ok tailCmp (inline_max cfg) target (cells ! j) (seps ! j)"
  shows "BranchSearch buf cfg target tailCmp = Inr (descent seps target)"
proof (cases "cells = []")
  case True
  then have "seps = []" using assms(3) by (simp add: seps_wf_def)
  then show ?thesis
    using True seg_layoutD(5,6,8) [OF assms(1,2)] assms(2) by (simp add: BranchSearch_def segBranchSearch_def descent_def)
next
  case False
  define m n t where mnt: "m = shared_prefix cells" "n = length cells" "t = inline_max cfg"
  define P where "P = take m (bc_Key (hd cells))"
  have w: "\<forall>c \<in> set cells. seg_cell_wf t c" using assms(4) seps_wf_cells [OF assms(3)] by (simp add: seg_cell_wf_def mnt)
  note d = seg_layoutD [OF assms(1,2), folded mnt]
  have len: "length seps = n" and srt: "sorted_wrt (<) seps" using assms(3) by (simp_all add: seps_wf_def mnt)
  have sp: "take m (seps ! j) = P" "m \<le> length (seps ! j)"
      "cell_IsOverflowKey (cells ! j) \<Longrightarrow> take (t - m) (drop m (seps ! j)) = drop m (bc_Key (cells ! j)) \<and> t - m < length (drop m (seps ! j))"
    if j: "j < n" for j
  proof -
    note s = seg_span [OF assms(1,2) w [unfolded mnt] j [unfolded mnt], folded mnt]
    have "sep_of t (cells ! j) (seps ! j)" using assms(3) j by (simp add: seps_wf_def mnt)
    note x = sep_prefix [OF this s(5,2)]
    show "take m (seps ! j) = P" "m \<le> length (seps ! j)"
      "cell_IsOverflowKey (cells ! j) \<Longrightarrow> take (t - m) (drop m (seps ! j)) = drop m (bc_Key (cells ! j)) \<and> t - m < length (drop m (seps ! j))"
      using x s(3) by (simp_all add: P_def)
  qed
  have split: "seps ! j = P @ drop m (seps ! j)" if "j < n" for j using sp(1) [OF that] by (metis append_take_drop_id)
  have lP: "length P = m" using sp [of 0] False by (simp add: mnt) (metis length_take min.absorb2)
  have gate: "(length target < m \<or> take m target \<noteq> P) = (\<not> prefix P target)"
    using lP by (auto simp: prefix_def) (metis append_take_drop_id linorder_not_less)
  have srch: "BranchSearch buf cfg target tailCmp =
      (if \<not> prefix P target then (if target < P then Inr 0 else Inr n) else bsearch (seg_probe buf cfg m n target tailCmp) 0 n)"
  proof -
    have u: "unat (word_of_nat n :: u16) = n" "n \<noteq> 0" "\<not> content_end cfg < m" using d(2,5) False by (simp_all add: mnt)
    have sl: "slice buf (content_end cfg - m) (content_end cfg) = Inr P" using d(11) [OF False] by (simp add: P_def)
    show ?thesis
      unfolding BranchSearch_def segBranchSearch_def Let_def
      by (simp only: must_validate_ok [OF assms(2)] d(6,8,10) bind_res.simps prod.case if_True u if_False sl gate Compare_less)
  qed
  show ?thesis
  proof (cases "prefix P target")
    case False
    show ?thesis
    proof (cases "target < P")
      case True
      have "target < s" if "s \<in> set seps" for s
      proof -
        obtain j where "j < n" "s = seps ! j" using \<open>s \<in> set seps\<close> len by (auto simp: in_set_conv_nth)
        then show ?thesis using split [of j] less_le_trans [OF True append_le, of "drop m s"] by simp
      qed
      then have "filter (\<lambda>s. s \<le> target) seps = []" by (auto simp: filter_empty_conv not_le)
      then show ?thesis using srch False True by (simp add: descent_def)
    next
      case notless: False
      have "s \<le> target" if "s \<in> set seps" for s
      proof -
        obtain j where "j < n" "s = seps ! j" using \<open>s \<in> set seps\<close> len by (auto simp: in_set_conv_nth)
        then show ?thesis using split [of j] above_prefix [OF False, of "drop m s"] notless by (simp add: not_less le_less)
      qed
      then have "filter (\<lambda>s. s \<le> target) seps = seps" by (simp add: filter_id_conv)
      then show ?thesis using srch False notless len by (simp add: descent_def)
    qed
  next
    case True
    define tl where "tl = drop m target"
    have tgt: "target = P @ tl" using True lP by (auto simp: prefix_def tl_def)
    have "seg_probe buf cfg m n target tailCmp j = Inr (target < seps ! j)" if j: "j < n" for j
    proof -
      note s = seg_span [OF assms(1,2) w [unfolded mnt] j [unfolded mnt], folded mnt]
      have cmp: "(target < seps ! j) = (tl < drop m (seps ! j))" using split [OF j] tgt by (metis less_same_prefix)
      have e: "22 + 2 * n + heap_off m cells (Suc j) =
          22 + 2 * n + heap_off m cells j + (length (bc_Key (cells ! j)) - m) + (if cell_IsOverflowKey (cells ! j) then 12 else 0)"
        using s(1,2) by simp
      show ?thesis
      proof (cases "cell_IsOverflowKey (cells ! j)")
        case False
        have "drop m (seps ! j) = drop m (bc_Key (cells ! j))" using False assms(3) j by (simp add: seps_wf_def sep_of_def mnt)
        then show ?thesis
          using False d(12) [of j] d(12) [of "Suc j"] d(13) [OF j] s(6) mark_reads(2) [OF s(4)] j cmp e
          by (simp add: seg_probe_def Let_def hb_eq tl_def mnt add.assoc)
      next
        case True
        have lk: "length (drop m (bc_Key (cells ! j))) = t - m" "t = length (bc_Key (cells ! j))" using True s(5) by (simp_all add: cell_wf_def)
        have tk: "take t target = bc_Key (cells ! j) \<and> t < length target"
          if "take (t - m) tl = drop m (bc_Key (cells ! j))" "t - m < length tl"
        proof -
          have "take t target = P @ take (t - m) tl" using s(2) lk(2) lP by (simp add: tgt)
          also have "\<dots> = bc_Key (cells ! j)" using that(1) s(3) by (simp add: P_def) (metis append_take_drop_id)
          finally show ?thesis using that(2) s(2) lk(2) lP by (simp add: tgt)
        qed
        have "overflow_probe tl (drop m (bc_Key (cells ! j))) (tailCmp target (bc_KeyExtPage (cells ! j)) (bc_KeyTotalLen (cells ! j))) =
            Inr (tl < drop m (seps ! j))"
        proof (rule overflow_probe_eq)
          show "take (length (drop m (bc_Key (cells ! j)))) (drop m (seps ! j)) = drop m (bc_Key (cells ! j))"
            "length (drop m (bc_Key (cells ! j))) < length (drop m (seps ! j))"
            using sp(3) [OF j True] lk by simp_all
          assume a: "length (drop m (bc_Key (cells ! j))) < length tl" "take (length (drop m (bc_Key (cells ! j)))) tl = drop m (bc_Key (cells ! j))"
          have "tailCmp target (bc_KeyExtPage (cells ! j)) (bc_KeyTotalLen (cells ! j)) = Inr (Compare target (seps ! j))"
            using assms(5) j True tk a lk(1) by (simp add: tail_ok_def mnt)
          moreover have "Compare target (seps ! j) = Compare tl (drop m (seps ! j))"
            using cmp split [OF j] tgt by (simp add: Compare_def) (metis append.assoc same_append_eq)
          ultimately show "tailCmp target (bc_KeyExtPage (cells ! j)) (bc_KeyTotalLen (cells ! j)) = Inr (Compare tl (drop m (seps ! j)))" by simp
        qed
        then show ?thesis
          using True d(12) [of j] d(12) [of "Suc j"] d(13) [OF j] s(6-8) mark_reads(2) [OF s(4)] j cmp e
          by (simp add: seg_probe_def Let_def hb_eq tl_def mnt branchKeyExtRefSize_def add.assoc)
      qed
    qed
    then have "bsearch (seg_probe buf cfg m n target tailCmp) 0 (length seps) = Inr (descent seps target)"
      unfolding descent_def using len by (intro bs.counts [OF srt]) simp
    then show ?thesis using srch True len by simp
  qed
qed

section \<open>Validation and in-place updates\<close>

lemma slots_monotone_ok:
  assumes "\<forall>i \<in> set is. segBranchDirSlot buf i = Inr (f i)" "sorted (prev # map f is)"
  shows "slots_monotone buf is prev = Inr ()"
  using assms by (induction "is" arbitrary: prev) (auto simp: not_less)

lemma seg_ValidateBranch:
  assumes "seg_layout cfg leftmost cells buf" "Validate cfg = None" "\<forall>c \<in> set cells. seg_cell_wf (inline_max cfg) c"
  shows "ValidateBranch buf cfg = Inr ()"
proof -
  define m n where mn: "m = shared_prefix cells" "n = length cells"
  note d = seg_layoutD [OF assms(1,2), folded mn] and pb = page_bounds [OF assms(2)]
  have cell: "seg_cell_ok buf cfg m n j = Inr True" if j: "j < n" for j
  proof -
    note s = seg_span [OF assms j [unfolded mn], folded mn]
    define t K o1 where tK: "t = inline_max cfg" "K = length (bc_Key (cells ! j))" "o1 = heap_off m cells j"
    have o2: "segBranchDirSlot buf (j + 1) = Inr (o1 + (K - m) + (if cell_IsOverflowKey (cells ! j) then 12 else 0))"
      and o1: "segBranchDirSlot buf j = Inr o1"
      using d(12) [of j] d(12) [of "Suc j"] j s(1,2) by (simp_all add: tK)
    have K: "m \<le> K" using s(2) by (simp add: tK)
    show ?thesis
    proof (cases "cell_IsOverflowKey (cells ! j)")
      case True
      have "K = t" "t < unat (bc_KeyTotalLen (cells ! j))" using True s(5) by (simp_all add: cell_wf_def tK)
      moreover have "int (o1 + (K - m) + 12) - int o1 = int t - int m + 12" "nat (int (o1 + (K - m) + 12) - int o1) - 12 = K - m"
        using K \<open>K = t\<close> by simp_all
      moreover have "bc_KeyExtPage (cells ! j) \<noteq> 0" using True by (simp add: cell_IsOverflowKey_def)
      ultimately show ?thesis
        using True o1 o2 d(13) [OF j] s(7,8) mark_reads(2) [OF s(4)]
        unfolding seg_cell_ok_def Let_def hb_eq branchKeyExtRefSize_def tK(1) [symmetric] by (simp add: tK(2,3))
    next
      case False
      have "K \<le> t" using False s(5) by (simp add: cell_wf_def tK)
      then have "int m + (int (o1 + (K - m) + 0) - int o1) \<le> int t" using K by simp
      then show ?thesis
        using False o1 o2 d(13) [OF j] mark_reads(2) [OF s(4)]
        unfolding seg_cell_ok_def Let_def tK(1) [symmetric] by simp
    qed
  qed
  have mono: "slots_monotone buf [0..<n + 1] 0 = Inr ()"
  proof (rule slots_monotone_ok [where f = "heap_off m cells"])
    show "\<forall>i \<in> set [0..<n + 1]. segBranchDirSlot buf i = Inr (heap_off m cells i)" using d(12) by auto
    have "sorted (map (heap_off m cells) [0..<n + 1])"
      unfolding sorted_iff_nth_mono by (auto simp: heap_off_mono simp del: upt_Suc)
    then show "sorted (0 # map (heap_off m cells) [0..<n + 1])" by simp
  qed
  have mt: "m \<le> inline_max cfg"
  proof (cases "cells = []")
    case True
    then show ?thesis by (simp add: mn shared_prefix_def)
  next
    case False
    then have "m \<le> length (bc_Key (hd cells))" "cell_wf (inline_max cfg) (hd cells)"
      using shared_prefix_all(1) [OF d(4), of "hd cells"] assms(3) by (simp_all add: mn seg_cell_wf_def)
    then show ?thesis using cell_wf_len by fastforce
  qed
  have "segValidateBranch buf cfg = Inr ()"
  proof -
    have g: "\<not> length buf < content_end cfg" "\<not> m > inline_max cfg" using d(3) mt by simp_all
    have g2: "\<not> int (segBranchHeapBase n) > int (content_end cfg) - int m - 8 * int n"
      "\<not> int (segBranchHeapBase n + heap_off m cells n) > int (content_end cfg) - int m - 8 * int n"
      using d(2) unfolding hb_eq by linarith+
    have a: "all_ok (seg_cell_ok buf cfg m n) [0..<n] = Inr ()" using cell by (simp add: all_ok_iff)
    show ?thesis
      unfolding segValidateBranch_def Let_def
      by (simp only: g g2 if_False d(5,6,10) bind_res.simps prod.case mono d(12) [OF order_refl] a)
  qed
  then show ?thesis using d(3,6) by (simp add: ValidateBranch_def)
qed

lemma mark_child:
  "\<not> bit child 63 \<Longrightarrow> \<not> bit (bc_Child c) 63 \<Longrightarrow>
   child OR (mark c AND segBranchChildOverflowBit) = mark (c\<lparr>bc_Child := child\<rparr>)"
  by (rule bit_eqI) (auto simp: mark_def cell_IsOverflowKey_def segBranchChildOverflowBit_def bit_or_iff bit_and_iff bit_push_one)

lemma seg_SetBranchCellChild:
  assumes "seg_layout cfg leftmost cells buf" "Validate cfg = None" "\<forall>c \<in> set cells. seg_cell_wf (inline_max cfg) c" "i < length cells"
    and "\<not> bit child 63"
  shows "\<exists>b. SetBranchCellChild buf cfg i child = Inr b \<and> seg_layout cfg leftmost (cells[i := (cells ! i)\<lparr>bc_Child := child\<rparr>]) b"
proof -
  define m n ce where mn: "m = shared_prefix cells" "n = length cells" "ce = content_end cfg"
  define c' where "c' = (cells ! i)\<lparr>bc_Child := child\<rparr>"
  define cells' where "cells' = cells[i := c']"
  define k where "k = ce - m - 8 * (n - i)"
  note d = seg_layoutD [OF assms(1,2), folded mn] and s = seg_span [OF assms(1-4), folded mn]
  note L = assms(1) [unfolded seg_layout_def Let_def, folded mn]
  have i: "i < n" using assms(4) by (simp add: mn)
  have o: "cell_IsOverflowKey c' = cell_IsOverflowKey (cells ! i)" "bc_Key c' = bc_Key (cells ! i)"
    by (simp_all add: c'_def cell_IsOverflowKey_def)
  have keys: "map bc_Key cells' = map bc_Key cells" "map cell_IsOverflowKey cells' = map cell_IsOverflowKey cells"
    using o i by (simp_all add: cells'_def mn map_update list_update_same_conv)
  have spans: "span_of m c' = span_of m (cells ! i)" by (simp add: span_of_def ext_bytes_def o(1)) (simp add: c'_def)
  have nth: "span_of m (cells' ! j) = span_of m (cells ! j)" "j \<noteq> i \<Longrightarrow> cells' ! j = cells ! j" if "j < n" for j
    using spans that by (cases "j = i"; simp add: cells'_def mn)+
  have l': "length cells' = n" by (simp add: cells'_def mn)
  have "map (\<lambda>c. length (span_of m c)) cells' = map (\<lambda>c. length (span_of m c)) cells"
    by (rule nth_equalityI) (use nth l' in \<open>simp_all add: mn\<close>)
  then have h': "heap_off m cells' j = heap_off m cells j" for j by (simp add: heap_off_def take_map [symmetric])
  have hl: "cells' \<noteq> [] \<Longrightarrow> bc_Key (hd cells') = bc_Key (hd cells) \<and> bc_Key (last cells') = bc_Key (last cells)"
    using keys(1) l' i by (metis hd_map last_map length_greater_0_conv mn(2) less_nat_zero_code list.size(3))
  have m': "shared_prefix cells' = m" using hl l' i by (auto simp: shared_prefix_def mn)
  have srt: "cells_sorted cells'"
  proof -
    have "cells_sorted xs = cells_sorted ys" if "map bc_Key xs = map bc_Key ys" "map cell_IsOverflowKey xs = map cell_IsOverflowKey ys" for xs ys
      using that
    proof (induction xs arbitrary: ys rule: cells_sorted.induct, goal_cases)
      case (1 a b cs ys)
      then obtain a' b' cs' where "ys = a' # b' # cs'" by (metis list.map_disc_iff list.exhaust map_eq_Cons_conv neq_Nil_conv)
      moreover from this have "cells_sorted (b # cs) = cells_sorted (b' # cs')" using 1(1) [OF refl, of "b' # cs'"] 1(2,3) by simp
      ultimately show ?case using 1(2,3) by (simp add: Let_def)
    next
      case (2 ys)
      then show ?case by simp
    next
      case (3 v ys)
      then show ?case by (cases ys rule: cells_sorted.cases) auto
    qed
    then show ?thesis using d(4) keys by blast
  qed
  have k: "k + 8 \<le> ce - m" "22 + 2 * n + heap_off m cells n \<le> k" "k + 8 \<le> length buf" using d(2,3) i by (simp_all add: k_def)
  define b where "b = overwrite buf k (w64 (mark c'))"
  have df: "differs_in {k..<k + 8} buf b" using overwrite_differs [of k "w64 (mark c')" buf] k(3) by (simp add: b_def del: le_bytes.simps)
  have keep: "holds b x bs" if "holds buf x bs" "x + length bs \<le> k \<or> ce - m \<le> x" for x bs
    by (rule differs_holds [OF df that(1)]) (use that(2) k in auto)
  have cell: "seg_in b ce m n j (heap_off m cells' j) (cells' ! j)" if j: "j < n" for j
  proof -
    have sj: "seg_in buf ce m n j (heap_off m cells j) (cells ! j)" using L j by blast
    have "holds b (20 + 2 * j) (w16 (word_of_nat (heap_off m cells j)))"
      using sj j k by (intro keep) (simp_all add: seg_in_def del: le_bytes.simps)
    moreover have "heap_off m cells j + length (span_of m (cells ! j)) \<le> heap_off m cells n"
      using heap_off_Suc [of j cells m] heap_off_le [of m cells "Suc j"] j by (simp add: mn)
    then have "holds b (22 + 2 * n + heap_off m cells j) (span_of m (cells ! j))"
      using sj k by (intro keep) (auto simp: seg_in_def)
    moreover have "holds b (ce - m - 8 * (n - j)) (w64 (mark (cells' ! j)))"
    proof (cases "j = i")
      case True
      then show ?thesis using k(3) i holds_same [of k "w64 (mark c')" buf] by (simp add: b_def k_def cells'_def mn del: le_bytes.simps)
    next
      case False
      have "holds buf (ce - m - 8 * (n - j)) (w64 (mark (cells ! j)))" using sj by (simp add: seg_in_def)
      moreover have "ce - m - 8 * (n - j) + 8 \<le> k \<or> k + 8 \<le> ce - m - 8 * (n - j)"
        using False i j d(2) by (cases "j < i") (auto simp: k_def)
      ultimately show ?thesis using nth(2) [OF j False] differs_holds [OF df] by (auto simp del: le_bytes.simps)
    qed
    ultimately show ?thesis using nth(1) [OF j] h' by (simp add: seg_in_def)
  qed
  have "seg_layout cfg leftmost cells' b"
    unfolding seg_layout_def Let_def l' m' mn(3) [symmetric]
  proof (intro conjI impI)
    show "length b = unat (PageSize cfg)" using differs_len [OF df] d(1) by simp
    show "cells_sorted cells'" by (rule srt)
    show "22 + 2 * n + heap_off m cells' n + 8 * n + m \<le> ce" using d(2) h' by simp
    show "holds b 0 (header_bytes TypeBranchSegregated (word_of_nat n) 0)" using L k by (intro keep) simp_all
    show "holds b 8 (w64 leftmost)" using L k by (intro keep) (simp_all del: le_bytes.simps)
    show "holds b 16 (w16 (word_of_nat m))" using L k by (intro keep) (simp_all del: le_bytes.simps)
    show "holds b (ce - m) (take m (bc_Key (hd cells')))" if "cells' \<noteq> []"
      using L k hl that i by (intro keep) (auto simp: mn)
    show "\<forall>j < n. seg_in b ce m n j (heap_off m cells' j) (cells' ! j)" using cell by blast
    show "holds b (20 + 2 * n) (w16 (word_of_nat (heap_off m cells' n)))"
      using L k by (intro keep) (simp_all add: h' del: le_bytes.simps)
  qed
  moreover have "SetBranchCellChild buf cfg i child = Inr b"
  proof -
    have "put_at buf k (w64 (mark c')) = Inr b" using k(3) by (simp add: put_at_def b_def del: le_bytes.simps)
    then show ?thesis
      using assms(2) d(7,8,10) d(13) [OF i] d(15) [OF i] i mark_child [OF assms(5) s(4)]
      by (simp add: SetBranchCellChild_def c'_def k_def mn(3) del: le_bytes.simps)
  qed
  ultimately show ?thesis by (auto simp: cells'_def c'_def)
qed

end
