(* ===== verification/Branch_Safe.thy ===== *)
theory Branch_Safe
  imports Branch_Seg
begin

text \<open>
  Robustness of the branch readers: a page that passes \<open>ValidateBranch\<close>, whatever bytes it has, is
  read without a panic.
\<close>

lemma bsearch_no_panic:
  "(\<And>i. i < n \<Longrightarrow> \<not> panics (probe i)) \<Longrightarrow> hi \<le> n \<Longrightarrow> \<not> panics (bsearch probe lo hi)"
proof (induction "hi - lo" arbitrary: lo hi rule: less_induct)
  case less
  show ?case
  proof (cases "lo < hi")
    case True
    let ?m = "(lo + hi) div 2"
    have m: "lo \<le> ?m" "?m < hi" using True by auto
    have p: "\<not> panics (probe ?m)" using less.prems m by simp
    have l: "\<not> panics (bsearch probe lo ?m)" using less.hyps [of ?m lo] less.prems m by simp
    have r: "\<not> panics (bsearch probe (?m + 1) hi)" using less.hyps [of hi "?m + 1"] less.prems m by simp
    have "bsearch probe lo hi = bind_res (probe ?m) (\<lambda>b. if b then bsearch probe lo ?m else bsearch probe (?m + 1) hi)"
      using True by (subst bsearch.simps) (simp add: Let_def split: sum.split bool.split)
    then show ?thesis using p l r by (simp add: panics_bind)
  qed (subst bsearch.simps, simp)
qed

lemma each_res_no_panic: "(\<And>x. x \<in> set xs \<Longrightarrow> \<not> panics (f x)) \<Longrightarrow> \<not> panics (each_res f xs)"
  by (induction xs) (auto simp: panics_bind)

lemma overflow_probe_no_panic:
  "(length key < length target \<Longrightarrow> \<not> panics tail) \<Longrightarrow> \<not> panics (overflow_probe target key tail)"
  by (auto simp: overflow_probe_def Let_def panics_bind)

section \<open>What validation establishes\<close>

definition plain_valid :: "bytes \<Rightarrow> Config \<Rightarrow> nat \<Rightarrow> bool" where
  "plain_valid buf cfg n \<longleftrightarrow> content_end cfg \<le> length buf \<and> 16 + n * 4 \<le> content_end cfg \<and>
     (\<forall>i < n. \<exists>off raw. dir_entry buf i = Inr (off, raw) \<and> 16 + n * 4 \<le> off \<and> off + branchCellChildSkip raw + 8 \<le> content_end cfg \<and>
        (raw AND branchDirKeyOverflowBit \<noteq> 0 \<longrightarrow> raw_len raw = inline_max cfg))"

definition seg_valid :: "bytes \<Rightarrow> Config \<Rightarrow> nat \<Rightarrow> nat \<Rightarrow> bool" where
  "seg_valid buf cfg m n \<longleftrightarrow> content_end cfg \<le> length buf \<and> segBranchPrefixLen buf = Inr m \<and> m \<le> inline_max cfg \<and>
     (\<exists>slot. (\<forall>i \<le> n. segBranchDirSlot buf i = Inr (slot i)) \<and> (\<forall>i < n. slot i \<le> slot (i + 1)) \<and>
        22 + 2 * n + slot n + m + 8 * n \<le> content_end cfg \<and>
        (\<forall>i < n. \<forall>raw. segBranchChildRaw buf (content_end cfg) m n i = Inr raw \<and> raw AND segBranchChildOverflowBit \<noteq> 0 \<longrightarrow>
           slot (i + 1) = slot i + (inline_max cfg - m) + 12))"

lemma slots_monotone_reads:
  assumes "slots_monotone buf [k..<n] prev = Inr ()"
  shows "\<exists>slot. (\<forall>i. k \<le> i \<and> i < n \<longrightarrow> segBranchDirSlot buf i = Inr (slot i) \<and> prev \<le> slot i) \<and> (\<forall>i. k \<le> i \<and> i + 1 < n \<longrightarrow> slot i \<le> slot (i + 1))"
  using assms
proof (induction "n - k" arbitrary: k prev)
  case 0
  then show ?case by auto
next
  case (Suc d)
  then have k: "k < n" "[k..<n] = k # [Suc k..<n]" using upt_conv_Cons [of k n] by simp_all
  obtain o1 where o1: "segBranchDirSlot buf k = Inr o1" "prev \<le> o1" "slots_monotone buf [Suc k..<n] o1 = Inr ()"
    using Suc.prems k(2) by (auto simp: bind_res_Inr_iff split: if_splits)
  obtain slot where s: "\<forall>i. Suc k \<le> i \<and> i < n \<longrightarrow> segBranchDirSlot buf i = Inr (slot i) \<and> o1 \<le> slot i"
      "\<forall>i. Suc k \<le> i \<and> i + 1 < n \<longrightarrow> slot i \<le> slot (i + 1)"
    using Suc.hyps(1) [of "Suc k" o1] Suc.hyps(2) o1(3) by (metis diff_Suc_eq_diff_pred diff_Suc_Suc diff_commute diff_Suc_1 diff_diff_left plus_1_eq_Suc add.commute)
  define f where "f = slot(k := o1)"
  have "segBranchDirSlot buf i = Inr (f i) \<and> prev \<le> f i" if "k \<le> i" "i < n" for i
    using s(1) [rule_format, of i] o1(1,2) that by (cases "i = k") (auto simp: f_def)
  moreover have "f i \<le> f (i + 1)" if "k \<le> i" "i + 1 < n" for i
    using s that by (cases "i = k") (auto simp: f_def)
  ultimately show ?case by (intro exI [of _ f]) blast
qed

lemma segValidateBranch_reads:
  assumes "segValidateBranch buf cfg = Inr ()" "read_header buf = Inr (ty, fl, count, ad)"
  obtains m last where "segBranchPrefixLen buf = Inr m" "m \<le> inline_max cfg" "slots_monotone buf [0..<unat count + 1] 0 = Inr ()"
    "segBranchDirSlot buf (unat count) = Inr last"
    "int (22 + 2 * unat count + last) \<le> int (content_end cfg) - int m - 8 * int (unat count)"
    "all_ok (seg_cell_ok buf cfg m (unat count)) [0..<unat count] = Inr ()"
proof -
  obtain m where m: "segBranchPrefixLen buf = Inr m" "m \<le> inline_max cfg"
      and r: "bind_res (slots_monotone buf [0..<unat count + 1] 0) (\<lambda>_.
          bind_res (segBranchDirSlot buf (unat count)) (\<lambda>on.
          if int (segBranchHeapBase (unat count) + on) > int (content_end cfg) - int m - 8 * int (unat count) then Inl Corrupt
          else all_ok (seg_cell_ok buf cfg m (unat count)) [0..<unat count])) = Inr ()"
    using assms unfolding segValidateBranch_def Let_def by (cases "segBranchPrefixLen buf") (simp_all split: if_splits)
  obtain u last where s: "slots_monotone buf [0..<unat count + 1] 0 = Inr u" "segBranchDirSlot buf (unat count) = Inr last"
      and t: "(if int (segBranchHeapBase (unat count) + last) > int (content_end cfg) - int m - 8 * int (unat count) then Inl Corrupt
        else all_ok (seg_cell_ok buf cfg m (unat count)) [0..<unat count]) = Inr ()"
    using r unfolding bind_res_Inr_iff by blast
  have "int (22 + 2 * unat count + last) \<le> int (content_end cfg) - int m - 8 * int (unat count)"
      "all_ok (seg_cell_ok buf cfg m (unat count)) [0..<unat count] = Inr ()"
    using t unfolding hb_eq by (simp_all only: split: if_splits) simp_all
  then show thesis using m that s by simp
qed

lemma ValidateBranch_cases:
  assumes "ValidateBranch buf cfg = Inr ()" "Validate cfg = None"
  shows "\<exists>ty fl count ad. read_header buf = Inr (ty, fl, count, ad) \<and> content_end cfg \<le> length buf \<and>
    (ty = TypeBranch \<and> plain_valid buf cfg (unat count) \<or> ty = TypeBranchSegregated \<and> (\<exists>m. seg_valid buf cfg m (unat count)))"
proof -
  obtain ty fl count ad where h: "read_header buf = Inr (ty, fl, count, ad)" and l: "content_end cfg \<le> length buf"
    using assms(1) by (auto simp: ValidateBranch_def bind_res_Inr_iff split: if_splits)
  let ?n = "unat count"
  have "plain_valid buf cfg ?n" if "ty \<noteq> TypeBranchSegregated"
  proof -
    have "16 + ?n * 4 \<le> content_end cfg" and ok: "all_ok (plain_cell_ok buf cfg (16 + ?n * 4)) [0..<?n] = Inr ()"
      using assms(1) that h by (auto simp: ValidateBranch_def Let_def branch_sizes split: if_splits)
    moreover have "\<exists>off raw. dir_entry buf i = Inr (off, raw) \<and> 16 + ?n * 4 \<le> off \<and> off + branchCellChildSkip raw + 8 \<le> content_end cfg \<and>
        (raw AND branchDirKeyOverflowBit \<noteq> 0 \<longrightarrow> raw_len raw = inline_max cfg)" if "i < ?n" for i
    proof -
      have "plain_cell_ok buf cfg (16 + ?n * 4) i = Inr True" using ok that by (simp add: all_ok_iff)
      then show ?thesis
        by (fastforce simp: plain_cell_ok_def bind_res_Inr_iff Let_def branchChildPtrSize_def split: if_splits)
    qed
    ultimately show ?thesis using l by (simp add: plain_valid_def)
  qed
  moreover have "\<exists>m. seg_valid buf cfg m ?n" if "ty = TypeBranchSegregated"
  proof -
    have "segValidateBranch buf cfg = Inr ()" using assms(1) that h l by (simp add: ValidateBranch_def)
    then obtain m last where v: "segBranchPrefixLen buf = Inr m" "m \<le> inline_max cfg" "slots_monotone buf [0..<?n + 1] 0 = Inr ()"
        "segBranchDirSlot buf ?n = Inr last" "int (22 + 2 * ?n + last) \<le> int (content_end cfg) - int m - 8 * int ?n"
        "all_ok (seg_cell_ok buf cfg m ?n) [0..<?n] = Inr ()"
      by (rule segValidateBranch_reads [OF _ h])
    obtain slot where s: "\<forall>i. 0 \<le> i \<and> i < ?n + 1 \<longrightarrow> segBranchDirSlot buf i = Inr (slot i) \<and> 0 \<le> slot i"
        "\<forall>i. 0 \<le> i \<and> i + 1 < ?n + 1 \<longrightarrow> slot i \<le> slot (i + 1)"
      using slots_monotone_reads [OF v(3)] by (elim exE conjE)
    have slots: "\<forall>i \<le> ?n. segBranchDirSlot buf i = Inr (slot i)" "\<forall>i < ?n. slot i \<le> slot (i + 1)" using s by auto
    have "slot ?n = last" using v(4) slots(1) by simp
    then have "22 + 2 * ?n + slot ?n + m + 8 * ?n \<le> content_end cfg" using v(5) by linarith
    moreover have "slot (i + 1) = slot i + (inline_max cfg - m) + 12"
      if i: "i < ?n" "segBranchChildRaw buf (content_end cfg) m ?n i = Inr raw" "raw AND segBranchChildOverflowBit \<noteq> 0" for i raw
    proof -
      have "seg_cell_ok buf cfg m ?n i = Inr True" using v(6) i(1) by (simp add: all_ok_iff)
      then have "int (slot (i + 1)) - int (slot i) = int (inline_max cfg) - int m + 12"
        using i slots(1) unfolding seg_cell_ok_def Let_def branchKeyExtRefSize_def bind_res_Inr_iff by (auto split: if_splits)
      then show ?thesis using v(2) by linarith
    qed
    ultimately have "seg_valid buf cfg m ?n" using slots v(1,2) l unfolding seg_valid_def by blast
    then show ?thesis ..
  qed
  moreover have "ty = TypeBranch \<or> ty = TypeBranchSegregated"
    using assms(1) h by (auto simp: ValidateBranch_def Let_def split: if_splits)
  ultimately show ?thesis using h l by (auto simp: page_types)
qed

section \<open>Plain pages\<close>

lemma plain_valid_reads:
  assumes "plain_valid buf cfg n" "Validate cfg = None" "i < n"
  shows "\<not> panics (plain_cell_at buf cfg i n)" "\<not> panics (branchCellChild buf i)"
    "(\<And>ext tot. inline_max cfg < length target \<Longrightarrow> \<not> panics (tailCmp target ext tot)) \<Longrightarrow> \<not> panics (plain_probe buf target tailCmp i)"
proof -
  obtain off raw where d: "dir_entry buf i = Inr (off, raw)" "16 + n * 4 \<le> off" "off + branchCellChildSkip raw + 8 \<le> content_end cfg"
      "raw AND branchDirKeyOverflowBit \<noteq> 0 \<longrightarrow> raw_len raw = inline_max cfg"
    using assms(1,3) by (auto simp: plain_valid_def)
  have l: "off + branchCellChildSkip raw + 8 \<le> length buf" using d(3) assms(1) by (simp add: plain_valid_def)
  have sk: "branchCellChildSkip raw = raw_len raw + (if raw AND branchDirKeyOverflowBit \<noteq> 0 then 12 else 0)"
    by (simp add: branchCellChildSkip_def branchKeyExtRefSize_def)
  have r: "slice buf off (off + raw_len raw) = Inr (field buf off (raw_len raw))" using l sk by (simp add: read_ok(5))
  have e: "u64_at buf (off + raw_len raw) = Inr (Uint64 buf (off + raw_len raw))" using l sk by (intro read_ok) simp
  have x: "u32_at buf (off + raw_len raw + 8) = Inr (Uint32 buf (off + raw_len raw + 8))"
    "u64_at buf (off + raw_len raw + 12) = Inr (Uint64 buf (off + raw_len raw + 12))" if "raw AND branchDirKeyOverflowBit \<noteq> 0"
    using l sk that by (intro read_ok; simp)+
  show "\<not> panics (plain_cell_at buf cfg i n)"
    using d(1-3) r e x by (simp add: plain_cell_at_def Let_def branch_sizes add.assoc)
  show "\<not> panics (branchCellChild buf i)" using d(1) l by (simp add: branchCellChild_def read_ok)
  have "length (field buf off (raw_len raw)) = raw_len raw" using l sk by (simp add: field_def)
  then show "\<not> panics (plain_probe buf target tailCmp i)" if "\<And>ext tot. inline_max cfg < length target \<Longrightarrow> \<not> panics (tailCmp target ext tot)"
    using d(1,4) r e x that by (auto simp: plain_probe_def Let_def intro!: overflow_probe_no_panic)
qed

section \<open>Segregated pages\<close>

lemma seg_valid_reads:
  assumes "seg_valid buf cfg m n" "i < n"
  shows "\<not> panics (segBranchCellAt buf cfg i n)" "\<not> panics (segBranchChildRaw buf (content_end cfg) m n i)"
    "(\<And>ext tot. inline_max cfg < length target \<Longrightarrow> \<not> panics (tailCmp target ext tot)) \<Longrightarrow> \<not> panics (seg_probe buf cfg m n target tailCmp i)"
proof -
  obtain slot where s: "\<forall>i \<le> n. segBranchDirSlot buf i = Inr (slot i)" "\<forall>i < n. slot i \<le> slot (i + 1)"
      "22 + 2 * n + slot n + m + 8 * n \<le> content_end cfg"
      "\<forall>i < n. \<forall>raw. segBranchChildRaw buf (content_end cfg) m n i = Inr raw \<and> raw AND segBranchChildOverflowBit \<noteq> 0 \<longrightarrow> slot (i + 1) = slot i + (inline_max cfg - m) + 12"
    and mt: "m \<le> inline_max cfg" and l: "content_end cfg \<le> length buf" and p: "segBranchPrefixLen buf = Inr m"
    using assms(1) unfolding seg_valid_def by blast
  have le: "slot j \<le> slot n" if "j \<le> n" for j
    using that s(2) by (induction rule: inc_induct) (auto intro: order_trans)
  define a b where ab: "a = 22 + 2 * n + slot i" "b = 22 + 2 * n + slot (i + 1)"
  have "slot i \<le> slot (i + 1)" "slot (i + 1) \<le> slot n" using s(2) le assms(2) by auto
  then have b: "a \<le> b" "b \<le> length buf" "m \<le> content_end cfg" using s(3) l by (simp_all add: ab)
  have sl: "segBranchDirSlot buf i = Inr (slot i)" "segBranchDirSlot buf (i + 1) = Inr (slot (i + 1))" using s(1) assms(2) by auto
  have co: "segBranchChildOff (content_end cfg) m n i = int (content_end cfg - m - 8 * (n - i))"
    using s(3) assms(2) by (simp add: segBranchChildOff_def of_nat_diff)
  have cl: "content_end cfg - m - 8 * (n - i) + 8 \<le> length buf" using s(3) l assms(2) by linarith
  then obtain raw where raw: "segBranchChildRaw buf (content_end cfg) m n i = Inr raw"
    by (simp add: segBranchChildRaw_def co read_ok)
  then show "\<not> panics (segBranchChildRaw buf (content_end cfg) m n i)" by simp
  have w: "b - a - 12 = inline_max cfg - m" if "raw AND segBranchChildOverflowBit \<noteq> 0"
    using s(4) [rule_format, of i raw] raw assms(2) that by (simp add: ab)
  have ov: "a + 12 \<le> b" if "raw AND segBranchChildOverflowBit \<noteq> 0" using s(4) [rule_format, of i raw] raw assms(2) that by (simp add: ab)
  have P: "slice buf (content_end cfg - m) (content_end cfg) = Inr (field buf (content_end cfg - m) m)" using b(3) l by (simp add: read_ok(5))
  have W: "slice buf a b = Inr (field buf a (b - a))" using b by (simp add: read_ok(5))
  have X: "slice buf a (a + (b - a - 12)) = Inr (field buf a (b - a - 12))"
      "u64_at buf (a + (b - a - 12)) = Inr (Uint64 buf (a + (b - a - 12)))"
      "u32_at buf (a + (b - a - 12) + 8) = Inr (Uint32 buf (a + (b - a - 12) + 8))"
    if "raw AND segBranchChildOverflowBit \<noteq> 0"
    using ov [OF that] b by (simp_all add: read_ok add.commute)
  have c: "segBranchCellAt buf cfg i n =
      (if raw AND segBranchChildOverflowBit \<noteq> 0 then
         bind_res (slice buf a (a + (b - a - 12))) (\<lambda>s. bind_res (u64_at buf (a + (b - a - 12))) (\<lambda>ext.
         bind_res (u32_at buf (a + (b - a - 12) + 8)) (\<lambda>tot.
         Inr \<lparr>bc_Key = field buf (content_end cfg - m) m @ s, bc_Child = raw AND NOT segBranchChildOverflowBit, bc_KeyExtPage = ext, bc_KeyTotalLen = tot\<rparr>)))
       else bind_res (slice buf a b) (\<lambda>s.
         Inr \<lparr>bc_Key = field buf (content_end cfg - m) m @ s, bc_Child = raw AND NOT segBranchChildOverflowBit, bc_KeyExtPage = 0, bc_KeyTotalLen = 0\<rparr>))"
  proof -
    have g: "(b < a \<or> content_end cfg < m) = False" "raw AND segBranchChildOverflowBit \<noteq> 0 \<Longrightarrow> (b - a < 12) = False"
      using b ov by auto
    have *: "(if o' then if b - a < 12 then x else y else z) = (if o' then y else z)"
      if "o' \<longleftrightarrow> raw AND segBranchChildOverflowBit \<noteq> 0" for o' and x y z :: "node_err + BranchCell"
      using g(2) that by simp
    show ?thesis
      unfolding segBranchCellAt_def Let_def hb_eq branchKeyExtRefSize_def
      by (simp only: p sl raw bind_res.simps ab [symmetric] g(1) if_False P * [OF refl])
  qed
  show "\<not> panics (segBranchCellAt buf cfg i n)" unfolding c using X W by simp
  show "\<not> panics (seg_probe buf cfg m n target tailCmp i)" if t: "\<And>ext tot. inline_max cfg < length target \<Longrightarrow> \<not> panics (tailCmp target ext tot)"
  proof (cases "raw AND segBranchChildOverflowBit = 0")
    case True
    then show ?thesis
      unfolding seg_probe_def Let_def hb_eq by (simp only: sl raw bind_res.simps ab [symmetric] W if_True) simp
  next
    case False
    then have "\<not> b < a + 12" using ov by simp
    moreover have "\<not> panics (overflow_probe (drop m target) (field buf a (b - a - 12)) (tailCmp target ext tot))" for ext tot
    proof (rule overflow_probe_no_panic)
      assume "length (field buf a (b - a - 12)) < length (drop m target)"
      moreover have "length (field buf a (b - a - 12)) = inline_max cfg - m" using b(2) w False by (simp add: field_def)
      ultimately show "\<not> panics (tailCmp target ext tot)" using t mt by simp
    qed
    ultimately show ?thesis
      unfolding seg_probe_def Let_def hb_eq branchKeyExtRefSize_def using False X
      by (simp only: sl raw bind_res.simps ab [symmetric] if_False not_False_eq_True simp_thms)
  qed
qed

section \<open>The readers\<close>

lemma validated_reads:
  assumes "ValidateBranch buf cfg = Inr ()" "Validate cfg = None"
  shows "\<exists>n. BranchCellCount buf = Inr n \<and>
    (\<forall>i < n. \<not> panics (BranchCellAt buf cfg i)) \<and> (\<forall>i \<le> n. \<not> panics (BranchChildAt buf cfg i)) \<and>
    ((\<forall>ext tot. inline_max cfg < length target \<longrightarrow> \<not> panics (tailCmp target ext tot)) \<longrightarrow> \<not> panics (BranchSearch buf cfg target tailCmp))"
proof -
  obtain ty fl count ad where h: "read_header buf = Inr (ty, fl, count, ad)" "content_end cfg \<le> length buf"
      "ty = TypeBranch \<and> plain_valid buf cfg (unat count) \<or> ty = TypeBranchSegregated \<and> (\<exists>m. seg_valid buf cfg m (unat count))"
    using ValidateBranch_cases [OF assms] by blast
  define n where "n = unat count"
  have n: "BranchCellCount buf = Inr n" using h by (auto simp: BranchCellCount_def IsBranchType_def n_def)
  have left: "\<not> panics (BranchLeftmostChild buf)"
    using h(2) page_bounds(1) [OF assms(2)] by (simp add: BranchLeftmostChild_def branch_sizes read_ok)
  have c1: "\<not> panics (BranchCellAt buf cfg i)" if "i < n" for i
    using h(3) n that assms(2) plain_valid_reads(1) [of buf cfg n i] seg_valid_reads(1) [of buf cfg _ n i]
    by (auto simp: BranchCellAt_def is_segregated_def h(1) page_types n_def)
  have c2: "\<not> panics (BranchChildAt buf cfg i)" if "i \<le> n" for i
  proof (cases i)
    case 0
    then show ?thesis using left assms(2) by (simp add: BranchChildAt_def)
  next
    case (Suc j)
    then have "j < n" using that by simp
    then have "plain_valid buf cfg n \<Longrightarrow> \<not> panics (branchCellChild buf j)"
        "seg_valid buf cfg m n \<Longrightarrow> \<not> panics (segBranchChildRaw buf (content_end cfg) m n j)" for m
      using plain_valid_reads(2) [of buf cfg n j] seg_valid_reads(2) [of buf cfg m n j] assms(2) by blast+
    moreover have "seg_valid buf cfg m n \<Longrightarrow> segBranchPrefixLen buf = Inr m" for m by (simp add: seg_valid_def)
    ultimately show ?thesis using h assms(2) Suc by (auto simp: BranchChildAt_def panics_bind page_types n_def)
  qed
  have c3: "\<not> panics (BranchSearch buf cfg target tailCmp)" if t: "\<forall>ext tot. inline_max cfg < length target \<longrightarrow> \<not> panics (tailCmp target ext tot)"
  proof (cases "ty = TypeBranchSegregated")
    case True
    then obtain m where m: "seg_valid buf cfg m n" using h(3) by (auto simp: page_types n_def)
    then have "m \<le> content_end cfg" "segBranchPrefixLen buf = Inr m" by (auto simp: seg_valid_def)
    moreover have "\<not> panics (bsearch (seg_probe buf cfg m n target tailCmp) 0 n)"
      by (rule bsearch_no_panic [of n]) (use seg_valid_reads(3) [OF m] t in auto)
    ultimately show ?thesis
      using True h(1,2) assms(2) by (auto simp: BranchSearch_def is_segregated_def segBranchSearch_def Let_def n_def panics_bind read_ok)
  next
    case False
    then have p: "plain_valid buf cfg n" using h(3) by (auto simp: n_def)
    have "\<not> panics (bsearch (plain_probe buf target tailCmp) 0 n)"
      by (rule bsearch_no_panic [of n]) (use plain_valid_reads(3) [OF p assms(2)] t in auto)
    then show ?thesis using False h(1) n assms(2) by (auto simp: BranchSearch_def is_segregated_def)
  qed
  show ?thesis using n c1 c2 c3 by blast
qed

end
