(* ===== verification/Branch_Props.thy ===== *)
theory Branch_Props
  imports Branch_Safe
begin

text \<open>
  The contract a branch page keeps with the tree above it, stated once as a locale and provided by
  both layouts: what is encoded decodes, validates, routes every target to the right child and
  takes a new child in place.
\<close>

section \<open>The contract\<close>

locale branch_format =
  fixes layout :: "Config \<Rightarrow> u64 \<Rightarrow> BranchCell list \<Rightarrow> bytes \<Rightarrow> bool"
    and admits :: "Config \<Rightarrow> BranchCell \<Rightarrow> bool"
    and chosen :: "Config \<Rightarrow> bool"
  assumes encodes: "\<lbrakk>Validate cfg = None; chosen cfg; length buf = unat (PageSize cfg); cells_sorted cells;
      \<forall>c \<in> set cells. admits cfg c; BranchEncodedSize cfg cells \<le> int (content_end cfg)\<rbrakk>
      \<Longrightarrow> \<exists>b. EncodeBranch buf cfg leftmost cells = Inr b \<and> layout cfg leftmost cells b"
    and decodes: "\<lbrakk>layout cfg leftmost cells buf; Validate cfg = None; \<forall>c \<in> set cells. admits cfg c\<rbrakk>
      \<Longrightarrow> DecodeBranch buf cfg = Inr (leftmost, cells)"
    and validates: "\<lbrakk>layout cfg leftmost cells buf; Validate cfg = None; \<forall>c \<in> set cells. admits cfg c\<rbrakk>
      \<Longrightarrow> ValidateBranch buf cfg = Inr ()"
    and children: "\<lbrakk>layout cfg leftmost cells buf; Validate cfg = None; \<forall>c \<in> set cells. admits cfg c; i \<le> length cells\<rbrakk>
      \<Longrightarrow> BranchChildAt buf cfg i = Inr (child_of leftmost cells i)"
    and searches: "\<lbrakk>layout cfg leftmost cells buf; Validate cfg = None; \<forall>c \<in> set cells. admits cfg c; seps_wf cfg cells seps;
      \<forall>j < length cells. tail_ok tailCmp (inline_max cfg) target (cells ! j) (seps ! j)\<rbrakk>
      \<Longrightarrow> BranchSearch buf cfg target tailCmp = Inr (descent seps target)"
    and sets_child: "\<lbrakk>layout cfg leftmost cells buf; Validate cfg = None; \<forall>c \<in> set cells. admits cfg c; i < length cells;
      admits cfg ((cells ! i)\<lparr>bc_Child := child\<rparr>)\<rbrakk>
      \<Longrightarrow> \<exists>b. SetBranchCellChild buf cfg i child = Inr b \<and> layout cfg leftmost (cells[i := (cells ! i)\<lparr>bc_Child := child\<rparr>]) b"
begin

lemma round_trip:
  assumes "Validate cfg = None" "chosen cfg" "length buf = unat (PageSize cfg)" "cells_sorted cells"
    and "\<forall>c \<in> set cells. admits cfg c" "BranchEncodedSize cfg cells \<le> int (content_end cfg)"
  shows "\<exists>b. EncodeBranch buf cfg leftmost cells = Inr b \<and> DecodeBranch b cfg = Inr (leftmost, cells) \<and> ValidateBranch b cfg = Inr ()"
  using encodes [OF assms] decodes validates assms(1,5) by blast

lemma routes:
  assumes "Validate cfg = None" "chosen cfg" "length buf = unat (PageSize cfg)" "cells_sorted cells"
    and "\<forall>c \<in> set cells. admits cfg c" "BranchEncodedSize cfg cells \<le> int (content_end cfg)" "seps_wf cfg cells seps"
    and "\<forall>j < length cells. tail_ok tailCmp (inline_max cfg) target (cells ! j) (seps ! j)"
  shows "\<exists>b. EncodeBranch buf cfg leftmost cells = Inr b \<and> BranchSearch b cfg target tailCmp = Inr (descent seps target) \<and>
    BranchChildAt b cfg (descent seps target) = Inr (child_of leftmost cells (descent seps target))"
proof -
  have "descent seps target \<le> length cells" using descent_le [of seps target] assms(7) by (simp add: seps_wf_def)
  then show ?thesis using encodes [OF assms(1-6), of leftmost] children searches [OF _ assms(1,5,7,8)] assms(1,5) by blast
qed

lemma child_replaced:
  assumes "Validate cfg = None" "chosen cfg" "length buf = unat (PageSize cfg)" "cells_sorted cells"
    and "\<forall>c \<in> set cells. admits cfg c" "BranchEncodedSize cfg cells \<le> int (content_end cfg)" "i < length cells"
    and "admits cfg ((cells ! i)\<lparr>bc_Child := child\<rparr>)"
  shows "\<exists>b b'. EncodeBranch buf cfg leftmost cells = Inr b \<and> SetBranchCellChild b cfg i child = Inr b' \<and>
    DecodeBranch b' cfg = Inr (leftmost, cells[i := (cells ! i)\<lparr>bc_Child := child\<rparr>]) \<and> ValidateBranch b' cfg = Inr ()"
proof -
  let ?cs = "cells[i := (cells ! i)\<lparr>bc_Child := child\<rparr>]"
  obtain b where b: "EncodeBranch buf cfg leftmost cells = Inr b" "layout cfg leftmost cells b"
    using encodes [OF assms(1-6)] by blast
  obtain b' where b': "SetBranchCellChild b cfg i child = Inr b'" "layout cfg leftmost ?cs b'"
    using sets_child [OF b(2) assms(1,5,7,8)] by blast
  have "\<forall>c \<in> set ?cs. admits cfg c" using assms(5,8) set_update_subset_insert [of cells i] by blast
  then show ?thesis using b b' decodes validates assms(1) by blast
qed

end

section \<open>The two layouts\<close>

interpretation plain: branch_format plain_layout "\<lambda>cfg. cell_wf (inline_max cfg)" "\<lambda>cfg. EffectiveBranchType cfg \<noteq> TypeBranchSegregated"
  by unfold_locales (rule encode_plain plain_DecodeBranch plain_ValidateBranch plain_BranchChildAt
    plain_BranchSearch plain_SetBranchCellChild; assumption)+

interpretation segregated: branch_format seg_layout "\<lambda>cfg. seg_cell_wf (inline_max cfg)" "\<lambda>cfg. EffectiveBranchType cfg = TypeBranchSegregated"
  by unfold_locales
    (erule encode_seg seg_DecodeBranch seg_ValidateBranch seg_BranchChildAt seg_BranchSearch seg_SetBranchCellChild;
      simp add: seg_cell_wf_def)+

text \<open>
  The cells a configuration stores: the resident part of the separator obeys the inline threshold,
  and the segregated layout keeps the top bit of the child word for its overflow mark.
\<close>

definition storable :: "Config \<Rightarrow> BranchCell \<Rightarrow> bool" where
  "storable cfg c \<longleftrightarrow> cell_wf (inline_max cfg) c \<and>
     (EffectiveBranchType cfg = TypeBranchSegregated \<longrightarrow> \<not> bit (bc_Child c) 63)"

lemma storable_cells:
  assumes "\<forall>c \<in> set cells. storable cfg c"
  shows "\<forall>c \<in> set cells. cell_wf (inline_max cfg) c"
    "EffectiveBranchType cfg = TypeBranchSegregated \<Longrightarrow> \<forall>c \<in> set cells. seg_cell_wf (inline_max cfg) c"
  using assms by (auto simp: storable_def seg_cell_wf_def)

section \<open>Separators\<close>

lemma separator_least:
  assumes "left < right"
  shows "left < take (sharedPrefixLen left right + 1) right" "take (sharedPrefixLen left right + 1) right \<le> right"
    "left < s' \<Longrightarrow> s' \<le> right \<Longrightarrow> length (take (sharedPrefixLen left right + 1) right) \<le> length s'"
proof -
  show "left < take (sharedPrefixLen left right + 1) right"
    using assms
  proof (induction left right rule: sharedPrefixLen.induct, goal_cases)
    case (2 right)
    then show ?case by (cases right) auto
  qed auto
  show "take (sharedPrefixLen left right + 1) right \<le> right"
    using append_le [of "take (sharedPrefixLen left right + 1) right" "drop (sharedPrefixLen left right + 1) right"] by simp
  show "length (take (sharedPrefixLen left right + 1) right) \<le> length s'" if "left < s'" "s' \<le> right"
    using assms that
  proof (induction left right arbitrary: s' rule: sharedPrefixLen.induct, goal_cases)
    case (1 x xs y ys s')
    obtain z zs where s': "s' = z # zs" using 1(3) by (cases s') auto
    show ?case
    proof (cases "x = y")
      case True
      then have "z = x" using 1(3,4) s' by auto
      then show ?thesis using 1(1) [of zs] 1(2-4) True s' by simp
    qed (simp add: s')
  next
    case (2 right s')
    then show ?case by (cases s') auto
  qed auto
qed

section \<open>Concrete pages\<close>

definition demo_branch_cfg :: "byte \<Rightarrow> Config" where
  "demo_branch_cfg l = \<lparr>PageSize = 4096, PageChecksum = True, RestartGroupTarget = 0, LeafLayout = 0, BranchLayout = l\<rparr>"

definition demo_cells :: "BranchCell list" where
  "demo_cells = [\<lparr>bc_Key = [1, 2], bc_Child = 5, bc_KeyExtPage = 0, bc_KeyTotalLen = 0\<rparr>,
     \<lparr>bc_Key = [1, 7], bc_Child = 9, bc_KeyExtPage = 0, bc_KeyTotalLen = 0\<rparr>]"

lemma demo_branch_cfg_valid: "Validate (demo_branch_cfg 0) = None" "Validate (demo_branch_cfg 1) = None"
  by (simp_all add: demo_branch_cfg_def Validate_def ValidPageSize_def MinPageSize_def MaxPageSize_def
      MaxRestartGroupTarget_def LeafLayoutSegregated_def BranchLayoutSegregated_def)

lemma demo_cells_ok:
  "cells_sorted demo_cells" "\<forall>c \<in> set demo_cells. storable (demo_branch_cfg 0) c" "\<forall>c \<in> set demo_cells. storable (demo_branch_cfg 1) c"
  "seps_wf (demo_branch_cfg 1) demo_cells [[1, 2], [1, 7]]"
proof -
  have i: "2010 \<le> inline_max (demo_branch_cfg 0)" "2010 \<le> inline_max (demo_branch_cfg 1)"
    by (rule page_bounds(5) [OF demo_branch_cfg_valid(1)], rule page_bounds(5) [OF demo_branch_cfg_valid(2)])
  have c: "\<not> bit (5 :: u64) 63" "\<not> bit (9 :: u64) 63" by simp_all
  have w: "cell_wf t c" if "c \<in> set demo_cells" "2010 \<le> t" for c t
    using that by (auto simp: demo_cells_def cell_wf_def cell_IsOverflowKey_def)
  show "cells_sorted demo_cells" by (simp add: demo_cells_def Compare_def)
  show "\<forall>c \<in> set demo_cells. storable (demo_branch_cfg 0) c" "\<forall>c \<in> set demo_cells. storable (demo_branch_cfg 1) c"
    using w i c by (auto simp: storable_def demo_cells_def)
  show "seps_wf (demo_branch_cfg 1) demo_cells [[1, 2], [1, 7]]"
    using w i by (auto simp: seps_wf_def demo_cells_def sep_of_def cell_IsOverflowKey_def less_Suc_eq)
qed

lemma demo_fits:
  "BranchEncodedSize (demo_branch_cfg 0) demo_cells \<le> int (content_end (demo_branch_cfg 0))"
  "BranchEncodedSize (demo_branch_cfg 1) demo_cells \<le> int (content_end (demo_branch_cfg 1))"
proof -
  have "BranchEncodedSize cfg demo_cells \<le> 4088" for cfg
    by (simp add: BranchEncodedSize_def segBranchEncodedSize_def segBranchEncodedSizeOf_def BranchEncodedSizeOf_def branch_sizes hb_eq
        demo_cells_def key_len_sum_def ext_refs_def cell_IsOverflowKey_def shared_prefix_def)
  then show "BranchEncodedSize (demo_branch_cfg 0) demo_cells \<le> int (content_end (demo_branch_cfg 0))"
    "BranchEncodedSize (demo_branch_cfg 1) demo_cells \<le> int (content_end (demo_branch_cfg 1))"
    using page_bounds(1) [OF demo_branch_cfg_valid(1)] page_bounds(1) [OF demo_branch_cfg_valid(2)] by (fastforce elim!: order_trans)+
qed

section \<open>Properties\<close>

text \<open>
  C17. Round trip of branch pages, in whichever layout the configuration selects: sorted cells that
  fit the page encode, and the encoded page decodes to the same leftmost child and cells and passes
  validation.
\<close>

theorem branch_round_trip:
  assumes "Validate cfg = None" "length buf = unat (PageSize cfg)" "cells_sorted cells"
    and "\<forall>c \<in> set cells. storable cfg c" "BranchEncodedSize cfg cells \<le> int (content_end cfg)"
  shows "\<exists>b. EncodeBranch buf cfg leftmost cells = Inr b \<and> DecodeBranch b cfg = Inr (leftmost, cells) \<and> ValidateBranch b cfg = Inr ()"
  using plain.round_trip [OF assms(1) _ assms(2,3) storable_cells(1) [OF assms(4)] assms(5)]
    segregated.round_trip [OF assms(1) _ assms(2,3) storable_cells(2) [OF assms(4)] assms(5)] by blast

theorem branch_round_trip_witness:
  "\<exists>b. EncodeBranch (replicate 4096 0) (demo_branch_cfg 1) 3 demo_cells = Inr b \<and>
    DecodeBranch b (demo_branch_cfg 1) = Inr (3, demo_cells) \<and> ValidateBranch b (demo_branch_cfg 1) = Inr ()"
  by (rule branch_round_trip [OF demo_branch_cfg_valid(2) _ demo_cells_ok(1,3) demo_fits(2)]) (simp add: demo_branch_cfg_def)

text \<open>
  C16. Routing: on an encoded page, in either layout, the binary search over the resident separator
  bytes and, on a tie, the key extent, returns the number of full separators that are at most the
  target, and the child read at that index is the child the target belongs to.
\<close>

theorem branch_search_routes:
  assumes "Validate cfg = None" "length buf = unat (PageSize cfg)" "cells_sorted cells"
    and "\<forall>c \<in> set cells. storable cfg c" "BranchEncodedSize cfg cells \<le> int (content_end cfg)" "seps_wf cfg cells seps"
    and "\<forall>j < length cells. tail_ok tailCmp (inline_max cfg) target (cells ! j) (seps ! j)"
  shows "\<exists>b. EncodeBranch buf cfg leftmost cells = Inr b \<and> BranchSearch b cfg target tailCmp = Inr (descent seps target) \<and>
    BranchChildAt b cfg (descent seps target) = Inr (child_of leftmost cells (descent seps target))"
  using plain.routes [OF assms(1) _ assms(2,3) storable_cells(1) [OF assms(4)] assms(5-7)]
    segregated.routes [OF assms(1) _ assms(2,3) storable_cells(2) [OF assms(4)] assms(5-7)] by blast

theorem branch_search_routes_witness:
  "\<exists>b. EncodeBranch (replicate 4096 0) (demo_branch_cfg 1) 3 demo_cells = Inr b \<and>
    BranchSearch b (demo_branch_cfg 1) [1, 5, 5] (\<lambda>_ _ _. Inl Corrupt) = Inr 1 \<and> BranchChildAt b (demo_branch_cfg 1) 1 = Inr 5"
proof -
  have t: "\<forall>j < length demo_cells. tail_ok (\<lambda>_ _ _. Inl Corrupt) (inline_max (demo_branch_cfg 1)) [1, 5, 5] (demo_cells ! j) ([[1, 2], [1, 7]] ! j)"
    by (simp add: tail_ok_def demo_cells_def cell_IsOverflowKey_def less_Suc_eq)
  have d: "descent [[1, 2], [1, 7]] [1, 5, 5] = 1" by (simp add: descent_def)
  have l: "length (replicate 4096 0) = unat (PageSize (demo_branch_cfg 1))" by (simp add: demo_branch_cfg_def)
  show ?thesis
    using branch_search_routes [OF demo_branch_cfg_valid(2) l demo_cells_ok(1,3) demo_fits(2) demo_cells_ok(4) t, of 3]
    by (simp add: d child_of_def demo_cells_def)
qed

text \<open>
  C18. Robustness: whatever bytes a page has, once it passes validation no branch reader panics: its
  cells, its children and the search, provided the comparison of a target past the inline
  threshold with a key extent does not.
\<close>

theorem validated_branch_safe:
  assumes "ValidateBranch buf cfg = Inr ()" "Validate cfg = None"
  shows "\<exists>n. BranchCellCount buf = Inr n \<and>
    (\<forall>i < n. \<not> panics (BranchCellAt buf cfg i)) \<and> (\<forall>i \<le> n. \<not> panics (BranchChildAt buf cfg i)) \<and>
    ((\<forall>ext tot. inline_max cfg < length target \<longrightarrow> \<not> panics (tailCmp target ext tot)) \<longrightarrow> \<not> panics (BranchSearch buf cfg target tailCmp))"
  by (rule validated_reads [OF assms])

theorem validated_branch_safe_witness:
  "\<exists>b. EncodeBranch (replicate 4096 0) (demo_branch_cfg 0) 3 demo_cells = Inr b \<and>
    \<not> panics (BranchSearch b (demo_branch_cfg 0) [1, 5] (\<lambda>_ _ _. Inl Corrupt))"
proof -
  have l: "length (replicate 4096 0) = unat (PageSize (demo_branch_cfg 0))" by (simp add: demo_branch_cfg_def)
  have p: "EffectiveBranchType (demo_branch_cfg 0) = TypeBranchSegregated"
    by (simp add: demo_branch_cfg_def EffectiveBranchType_def BranchLayoutPlain_def page_types)
  obtain b where b: "EncodeBranch (replicate 4096 0) (demo_branch_cfg 0) 3 demo_cells = Inr b" "ValidateBranch b (demo_branch_cfg 0) = Inr ()"
    using segregated.round_trip [OF demo_branch_cfg_valid(1) p l demo_cells_ok(1) storable_cells(2) [OF demo_cells_ok(2) p] demo_fits(1)] by blast
  then show ?thesis
    using validated_branch_safe [OF b(2) demo_branch_cfg_valid(1), of "[1, 5]" "\<lambda>_ _ _. Inl Corrupt"] by auto
qed

text \<open>
  Copy-on-write of a child: storing a new child page in one cell of an encoded page changes that
  child and nothing else the decoder sees, and the page still validates.
\<close>

theorem branch_child_replaced:
  assumes "Validate cfg = None" "length buf = unat (PageSize cfg)" "cells_sorted cells"
    and "\<forall>c \<in> set cells. storable cfg c" "BranchEncodedSize cfg cells \<le> int (content_end cfg)" "i < length cells" "\<not> bit child 63"
  shows "\<exists>b b'. EncodeBranch buf cfg leftmost cells = Inr b \<and> SetBranchCellChild b cfg i child = Inr b' \<and>
    DecodeBranch b' cfg = Inr (leftmost, cells[i := (cells ! i)\<lparr>bc_Child := child\<rparr>]) \<and> ValidateBranch b' cfg = Inr ()"
proof -
  have w: "cell_wf (inline_max cfg) ((cells ! i)\<lparr>bc_Child := child\<rparr>)"
    using storable_cells(1) [OF assms(4)] assms(6) by (auto simp: cell_wf_def cell_IsOverflowKey_def)
  then have "seg_cell_wf (inline_max cfg) ((cells ! i)\<lparr>bc_Child := child\<rparr>)" using assms(7) by (simp add: seg_cell_wf_def)
  then show ?thesis
    using w plain.child_replaced [OF assms(1) _ assms(2,3) storable_cells(1) [OF assms(4)] assms(5,6)]
      segregated.child_replaced [OF assms(1) _ assms(2,3) storable_cells(2) [OF assms(4)] assms(5,6)] by blast
qed

theorem branch_child_replaced_witness:
  "\<exists>b b'. EncodeBranch (replicate 4096 0) (demo_branch_cfg 1) 3 demo_cells = Inr b \<and>
    SetBranchCellChild b (demo_branch_cfg 1) 1 77 = Inr b' \<and>
    DecodeBranch b' (demo_branch_cfg 1) = Inr (3, demo_cells[1 := (demo_cells ! 1)\<lparr>bc_Child := 77\<rparr>]) \<and>
    ValidateBranch b' (demo_branch_cfg 1) = Inr ()"
  by (rule branch_child_replaced [OF demo_branch_cfg_valid(2) _ demo_cells_ok(1,3) demo_fits(2)])
    (simp_all add: demo_branch_cfg_def demo_cells_def)

text \<open>
  C19. Separators: for two adjacent keys the computed separator is above the left key, at most the
  right key, and no shorter byte string has both properties.
\<close>

theorem shortest_separator:
  assumes "left < right"
  shows "\<exists>s. ShortestSeparator left right = Inr s \<and> left < s \<and> s \<le> right \<and> (\<forall>s'. left < s' \<and> s' \<le> right \<longrightarrow> length s \<le> length s')"
  using separator_least [OF assms] assms by (auto simp: ShortestSeparator_def not_le)

theorem shortest_separator_witness:
  "ShortestSeparator [1, 2, 3] [1, 2, 7, 7] = Inr [1, 2, 7] \<and> [1, 2, 3] < [1, 2, 7 :: byte]"
  using shortest_separator [of "[1, 2, 3]" "[1, 2, 7, 7]"] by (simp add: ShortestSeparator_def Compare_def)

text \<open>
  C20. An error path: a separator of exactly the inline threshold followed by one that extends it is
  a strictly increasing pair, yet the encoder refuses the page as unsorted, because the two cells
  have equal resident bytes and only one of them is an overflow cell.
\<close>

theorem threshold_separator_refused:
  assumes "Validate cfg = None" "length buf = unat (PageSize cfg)" "length p = inline_max cfg" "x \<noteq> []"
    and "length p + length x < 2 ^ 32" "ext \<noteq> 0"
  shows "let cells = [\<lparr>bc_Key = p, bc_Child = c1, bc_KeyExtPage = 0, bc_KeyTotalLen = 0\<rparr>,
        \<lparr>bc_Key = p, bc_Child = c2, bc_KeyExtPage = ext, bc_KeyTotalLen = word_of_nat (length (p @ x))\<rparr>] in
      seps_wf cfg cells [p, p @ x] \<and> EncodeBranch buf cfg leftmost cells = Inl EncUnsorted"
proof -
  have t: "unat (word_of_nat (length (p @ x)) :: u32) = length (p @ x)" using assms(5) by (simp add: unat_of_nat del: of_nat_add)
  have "p < p @ x" using assms(4) by (rule append_less)
  then show ?thesis
    using assms t by (simp add: seps_wf_def less_Suc_eq cell_wf_def sep_of_def cell_IsOverflowKey_def EncodeBranch_def Compare_def)
qed

theorem threshold_separator_refused_witness:
  "\<exists>p. EncodeBranch (replicate 4096 0) (demo_branch_cfg 0) 3
     [\<lparr>bc_Key = p, bc_Child = 5, bc_KeyExtPage = 0, bc_KeyTotalLen = 0\<rparr>,
      \<lparr>bc_Key = p, bc_Child = 9, bc_KeyExtPage = 12, bc_KeyTotalLen = word_of_nat (length (p @ [4]))\<rparr>] = Inl EncUnsorted"
proof -
  let ?p = "replicate (inline_max (demo_branch_cfg 0)) (0 :: byte)"
  show ?thesis
    using threshold_separator_refused [OF demo_branch_cfg_valid(1), of "replicate 4096 0" ?p "[4]" 12 5 9 3]
      page_bounds(6) [OF demo_branch_cfg_valid(1)]
    by (intro exI [of _ ?p]) (simp add: Let_def demo_branch_cfg_def)
qed

end
