(* ===== verification/Leaf.thy ===== *)
theory Leaf
  imports Branch
begin

text \<open>
  Leaf pages, the read side: \<^verbatim>\<open>src/internal/page/leaf.go\<close>, \<^verbatim>\<open>restart.go\<close>, \<^verbatim>\<open>leaf_uncompressed.go\<close>,
  \<^verbatim>\<open>leaf_compressed.go\<close> and \<^verbatim>\<open>leaf_segregated.go\<close>. The three variants share the entry record, the key
  comparison that may read a key extent (the parameter \<open>tail\<close>) and, for the two compressed ones, the
  restart table. The scratch buffers that the source threads through the decoders (\<^verbatim>\<open>keyBuf\<close>) hold
  no information and are not modelled: a decoded key is a value. Table positions are integers
  because a corrupt count can push them below zero.
\<close>

section \<open>Cell flags and entries\<close>

definition CellFlagOverflow :: byte where "CellFlagOverflow = push_bit 0 1"
definition CellFlagMultiValue :: byte where "CellFlagMultiValue = push_bit 1 1"
definition CellFlagNestedTree :: byte where "CellFlagNestedTree = push_bit 2 1"
definition CellFlagEmptyValue :: byte where "CellFlagEmptyValue = push_bit 3 1"
definition CellFlagOverflowKey :: byte where "CellFlagOverflowKey = push_bit 4 1"

definition cellFlagKnownMask :: byte where
  "cellFlagKnownMask =
     CellFlagOverflow OR CellFlagMultiValue OR CellFlagNestedTree OR CellFlagEmptyValue OR CellFlagOverflowKey"

lemmas cell_flags = CellFlagOverflow_def CellFlagMultiValue_def CellFlagNestedTree_def CellFlagEmptyValue_def
  CellFlagOverflowKey_def

definition flag_set :: "byte \<Rightarrow> byte \<Rightarrow> bool" where
  "flag_set flags b \<longleftrightarrow> flags AND b \<noteq> 0"

definition leafEntryStart :: nat where "leafEntryStart = HeaderSize + 4"
definition leafOffRestartCount :: nat where "leafOffRestartCount = HeaderSize"
definition leafOffDataEnd :: nat where "leafOffDataEnd = HeaderSize + 2"
definition ucLeafOffDataEnd :: nat where "ucLeafOffDataEnd = HeaderSize"
definition ucOffsetEntrySize :: nat where "ucOffsetEntrySize = 2"
definition restartTableEntrySize :: nat where "restartTableEntrySize = 4"
definition segLeafOffValueEnd :: nat where "segLeafOffValueEnd = HeaderSize + 4"
definition segLeafEntryStart :: nat where "segLeafEntryStart = HeaderSize + 6"
definition segRestartVOffAt :: nat where "segRestartVOffAt = 3"
definition segDeltaVOffAt :: nat where "segDeltaVOffAt = 5"

lemmas leaf_sizes = leafEntryStart_def leafOffRestartCount_def leafOffDataEnd_def ucLeafOffDataEnd_def
  ucOffsetEntrySize_def restartTableEntrySize_def segLeafOffValueEnd_def segLeafEntryStart_def
  segRestartVOffAt_def segDeltaVOffAt_def HeaderSize_def

record LeafEntry =
  Flags :: byte
  Key :: bytes
  Value :: bytes
  OverflowPage :: u64
  TotalLen :: u64
  NestedRoot :: u64
  NestedCount :: u64
  KeyExtPage :: u64
  KeyTotalLen :: u32

definition no_entry :: LeafEntry where
  "no_entry = \<lparr>Flags = 0, Key = [], Value = [], OverflowPage = 0, TotalLen = 0, NestedRoot = 0, NestedCount = 0,
     KeyExtPage = 0, KeyTotalLen = 0\<rparr>"

definition IsOverflow :: "LeafEntry \<Rightarrow> bool" where
  "IsOverflow e \<longleftrightarrow> flag_set (Flags e) CellFlagOverflow"

definition IsSubpage :: "LeafEntry \<Rightarrow> bool" where
  "IsSubpage e \<longleftrightarrow> flag_set (Flags e) CellFlagMultiValue \<and> \<not> flag_set (Flags e) CellFlagNestedTree"

definition IsNestedTree :: "LeafEntry \<Rightarrow> bool" where
  "IsNestedTree e \<longleftrightarrow> flag_set (Flags e) CellFlagMultiValue \<and> flag_set (Flags e) CellFlagNestedTree"

definition IsOverflowKey :: "LeafEntry \<Rightarrow> bool" where
  "IsOverflowKey e \<longleftrightarrow> flag_set (Flags e) CellFlagOverflowKey"

definition cellHasTrailerOnly :: "byte \<Rightarrow> bool" where
  "cellHasTrailerOnly flags \<longleftrightarrow> flag_set flags CellFlagOverflow \<or> flag_set flags CellFlagNestedTree"

definition cellPreKeySkip :: "byte \<Rightarrow> nat" where
  "cellPreKeySkip flags = (if cellHasTrailerOnly flags \<or> flag_set flags CellFlagEmptyValue then 0 else 4)"

definition compareEntryKey :: "LeafEntry \<Rightarrow> bytes \<Rightarrow> TailCompare \<Rightarrow> node_err + int" where
  "compareEntryKey e target tail =
     (if \<not> IsOverflowKey e then Inr (Compare (Key e) target)
      else
        (let t = length (Key e); k = min (length target) t; c = Compare (take k (Key e)) (take k target) in
         if c \<noteq> 0 then Inr c
         else if length target \<le> t then Inr 1
         else bind_res (tail target (KeyExtPage e) (KeyTotalLen e)) (\<lambda>c. Inr (- c))))"

section \<open>The restart table\<close>

definition at_off :: "int \<Rightarrow> (nat \<Rightarrow> node_err + 'a) \<Rightarrow> node_err + 'a" where
  "at_off off f = (if off < 0 then Inl (Panic PanicBounds) else f (nat off))"

record restartTable =
  rt_buf :: bytes
  restartCount :: nat
  tableOff :: int

definition newRestartTable :: "bytes \<Rightarrow> nat \<Rightarrow> nat \<Rightarrow> restartTable" where
  "newRestartTable buf rc contentEnd =
     \<lparr>rt_buf = buf, restartCount = rc, tableOff = int contentEnd - int (rc * restartTableEntrySize)\<rparr>"

definition rt_Offset :: "restartTable \<Rightarrow> int \<Rightarrow> node_err + nat" where
  "rt_Offset rt i =
     bind_res (at_off (tableOff rt + i * int restartTableEntrySize) (u16_at (rt_buf rt))) (\<lambda>o'. Inr (unat o'))"

definition rt_GroupEntryCount :: "restartTable \<Rightarrow> int \<Rightarrow> node_err + nat" where
  "rt_GroupEntryCount rt i =
     bind_res (at_off (tableOff rt + i * int restartTableEntrySize + 2) (u8_at (rt_buf rt))) (\<lambda>c. Inr (unat c))"

fun sum_counts :: "restartTable \<Rightarrow> nat list \<Rightarrow> node_err + nat" where
  "sum_counts rt [] = Inr 0"
| "sum_counts rt (g # gs) = bind_res (rt_GroupEntryCount rt (int g)) (\<lambda>c. bind_res (sum_counts rt gs) (\<lambda>n. Inr (c + n)))"

definition rt_GroupStartIndex :: "restartTable \<Rightarrow> nat \<Rightarrow> node_err + nat" where
  "rt_GroupStartIndex rt groupIdx = sum_counts rt [0..<groupIdx]"

section \<open>The reader\<close>

record LeafReader =
  r_buf :: bytes
  r_cfg :: Config
  r_count :: nat
  r_dataEnd :: nat
  r_variant :: byte
  r_rt :: restartTable
  r_valueEnd :: nat
  r_ucTableOff :: int

definition NewLeafReader :: "bytes \<Rightarrow> Config \<Rightarrow> node_err + LeafReader" where
  "NewLeafReader buf cfg =
     bind_res (must_validate cfg) (\<lambda>_.
     if length buf \<noteq> unat (PageSize cfg) then Inl PanicCall
     else bind_res (read_header buf) (\<lambda>(typ, _, count, _).
       let ce = content_end cfg; no_rt = \<lparr>rt_buf = [], restartCount = 0, tableOff = 0\<rparr> in
       if \<not> IsLeafType typ then Inl PanicCall
       else if typ = TypeLeafUncompressed then
         bind_res (u16_at buf ucLeafOffDataEnd) (\<lambda>d.
         Inr \<lparr>r_buf = buf, r_cfg = cfg, r_count = unat count, r_dataEnd = unat d, r_variant = typ, r_rt = no_rt,
           r_valueEnd = 0, r_ucTableOff = int ce - int (unat count * ucOffsetEntrySize)\<rparr>)
       else if typ = TypeLeafSegregated then
         bind_res (u16_at buf leafOffRestartCount) (\<lambda>rc.
         bind_res (u16_at buf leafOffDataEnd) (\<lambda>d.
         bind_res (u16_at buf segLeafOffValueEnd) (\<lambda>v.
         Inr \<lparr>r_buf = buf, r_cfg = cfg, r_count = unat count, r_dataEnd = unat d, r_variant = typ,
           r_rt = newRestartTable buf (unat rc) ce, r_valueEnd = unat v, r_ucTableOff = 0\<rparr>)))
       else
         bind_res (u16_at buf leafOffRestartCount) (\<lambda>rc.
         bind_res (u16_at buf leafOffDataEnd) (\<lambda>d.
         Inr \<lparr>r_buf = buf, r_cfg = cfg, r_count = unat count, r_dataEnd = unat d, r_variant = typ,
           r_rt = newRestartTable buf (unat rc) ce, r_valueEnd = 0, r_ucTableOff = 0\<rparr>))))"

definition is_seg :: "LeafReader \<Rightarrow> bool" where "is_seg r \<longleftrightarrow> r_variant r = TypeLeafSegregated"
definition is_uc :: "LeafReader \<Rightarrow> bool" where "is_uc r \<longleftrightarrow> r_variant r = TypeLeafUncompressed"

definition RestartCount :: "LeafReader \<Rightarrow> nat" where
  "RestartCount r = (if is_uc r then r_count r else restartCount (r_rt r))"

definition GroupEntryCount :: "LeafReader \<Rightarrow> nat \<Rightarrow> node_err + nat" where
  "GroupEntryCount r i = (if is_uc r then Inr 1 else rt_GroupEntryCount (r_rt r) (int i))"

section \<open>Entry decoders\<close>

text \<open>
  The value half of an entry with the flags of \<open>e\<close>: a reference pair, nothing, or \<open>valLen\<close> bytes. A
  value length that was not read is the source's \<^verbatim>\<open>-1\<close>, a slice bound out of range.
\<close>

definition value_half :: "bytes \<Rightarrow> LeafEntry \<Rightarrow> nat \<Rightarrow> nat option \<Rightarrow> node_err + LeafEntry \<times> nat" where
  "value_half buf e off valLen =
     (if flag_set (Flags e) CellFlagOverflow then
        bind_res (u64_at buf off) (\<lambda>p. bind_res (u64_at buf (off + 8)) (\<lambda>n.
        Inr (e\<lparr>OverflowPage := p, TotalLen := n\<rparr>, off + 16)))
      else if IsNestedTree e then
        bind_res (u64_at buf off) (\<lambda>p. bind_res (u64_at buf (off + 8)) (\<lambda>n.
        Inr (e\<lparr>NestedRoot := p, NestedCount := n\<rparr>, off + 16)))
      else if flag_set (Flags e) CellFlagEmptyValue then
        bind_res (slice buf off off) (\<lambda>v. Inr (e\<lparr>Value := v\<rparr>, off))
      else (case valLen of
          None \<Rightarrow> Inl (Panic PanicBounds)
        | Some n \<Rightarrow> bind_res (slice buf off (off + n)) (\<lambda>v. Inr (e\<lparr>Value := v\<rparr>, off + n))))"

definition decodeFullKeyEntry :: "bytes \<Rightarrow> nat \<Rightarrow> node_err + LeafEntry \<times> nat" where
  "decodeFullKeyEntry buf off =
     bind_res (u8_at buf off) (\<lambda>flags.
     bind_res (u16_at buf (off + 1)) (\<lambda>keyLen.
     let withLen = \<not> cellHasTrailerOnly flags \<and> \<not> flag_set flags CellFlagEmptyValue; k = unat keyLen in
     bind_res (if withLen then bind_res (u32_at buf (off + 3)) (\<lambda>v. Inr (Some (unat v), off + 7)) else Inr (None, off + 3)) (\<lambda>(valLen, p).
     bind_res (slice buf p (p + k)) (\<lambda>key.
     let e = no_entry\<lparr>Flags := flags, Key := key\<rparr>; q = p + k in
     if flag_set flags CellFlagOverflowKey then
       bind_res (u64_at buf q) (\<lambda>ext. bind_res (u32_at buf (q + 8)) (\<lambda>tot.
       value_half buf (e\<lparr>KeyExtPage := ext, KeyTotalLen := tot\<rparr>) (q + 12) valLen))
     else value_half buf e q valLen))))"

text \<open>
  A delta entry. The source slices \<^verbatim>\<open>prevKey[:sharedLen]\<close>; a shared length above the previous key's is
  refused here as out of range, where the source panics or, when \<^verbatim>\<open>prevKey\<close> borrows from the page,
  reads on into it: the validation keeps such entries out.
\<close>

definition decodeDeltaEntry :: "bytes \<Rightarrow> nat \<Rightarrow> bytes \<Rightarrow> node_err + LeafEntry \<times> nat" where
  "decodeDeltaEntry buf off prevKey =
     bind_res (u8_at buf off) (\<lambda>flags.
     bind_res (u16_at buf (off + 1)) (\<lambda>shared.
     bind_res (u16_at buf (off + 3)) (\<lambda>unshared.
     let e0 = no_entry\<lparr>Flags := flags\<rparr>;
         withLen = \<not> flag_set flags CellFlagOverflow \<and> \<not> IsNestedTree e0 \<and> \<not> flag_set flags CellFlagEmptyValue;
         u = unat unshared in
     bind_res (if withLen then bind_res (u32_at buf (off + 5)) (\<lambda>v. Inr (Some (unat v), off + 9)) else Inr (None, off + 5)) (\<lambda>(valLen, p).
     bind_res (slice prevKey 0 (unat shared)) (\<lambda>pre.
     bind_res (slice buf p (p + u)) (\<lambda>suf.
     value_half buf (e0\<lparr>Key := pre @ suf\<rparr>) (p + u) valLen))))))"

definition deltaHeader :: "bytes \<Rightarrow> nat \<Rightarrow> node_err + byte \<times> nat \<times> nat \<times> nat \<times> nat" where
  "deltaHeader buf off =
     bind_res (u8_at buf off) (\<lambda>flags.
     bind_res (u16_at buf (off + 1)) (\<lambda>shared.
     bind_res (u16_at buf (off + 3)) (\<lambda>unshared.
     let u = unat unshared in
     if cellHasTrailerOnly flags then Inr (flags, unat shared, off + 5, u, off + 5 + u + 16)
     else if flag_set flags CellFlagEmptyValue then Inr (flags, unat shared, off + 5, u, off + 5 + u)
     else bind_res (u32_at buf (off + 5)) (\<lambda>v. Inr (flags, unat shared, off + 9, u, off + 9 + u + unat v)))))"

definition decodeDeltaValueHalf :: "bytes \<Rightarrow> byte \<Rightarrow> nat \<Rightarrow> nat \<Rightarrow> node_err + LeafEntry" where
  "decodeDeltaValueHalf buf flags valueOff next =
     (let e = no_entry\<lparr>Flags := flags\<rparr> in
      if flag_set flags CellFlagOverflow then
        bind_res (u64_at buf valueOff) (\<lambda>p. bind_res (u64_at buf (valueOff + 8)) (\<lambda>n.
        Inr (e\<lparr>OverflowPage := p, TotalLen := n\<rparr>)))
      else if IsNestedTree e then
        bind_res (u64_at buf valueOff) (\<lambda>p. bind_res (u64_at buf (valueOff + 8)) (\<lambda>n.
        Inr (e\<lparr>NestedRoot := p, NestedCount := n\<rparr>)))
      else if flag_set flags CellFlagEmptyValue then
        bind_res (slice buf valueOff valueOff) (\<lambda>v. Inr (e\<lparr>Value := v\<rparr>))
      else bind_res (slice buf valueOff next) (\<lambda>v. Inr (e\<lparr>Value := v\<rparr>)))"

section \<open>Uncompressed leaves\<close>

definition ucOffset :: "LeafReader \<Rightarrow> nat \<Rightarrow> node_err + nat" where
  "ucOffset r idx =
     bind_res (at_off (r_ucTableOff r + int (idx * ucOffsetEntrySize)) (u16_at (r_buf r))) (\<lambda>o'. Inr (unat o'))"

definition uc_entry :: "LeafReader \<Rightarrow> nat \<Rightarrow> node_err + LeafEntry" where
  "uc_entry r idx = bind_res (ucOffset r idx) (\<lambda>off. bind_res (decodeFullKeyEntry (r_buf r) off) (\<lambda>(e, _). Inr e))"

definition ucSearchLeaf :: "LeafReader \<Rightarrow> bytes \<Rightarrow> TailCompare \<Rightarrow> node_err + nat \<times> LeafEntry \<times> bool" where
  "ucSearchLeaf r target tail =
     bind_res (bsearch3 (\<lambda>mid. bind_res (uc_entry r mid) (\<lambda>e. compareEntryKey e target tail)) 0 (r_count r)) (\<lambda>(i, found).
     if found then bind_res (uc_entry r i) (\<lambda>e. Inr (i, e\<lparr>Key := []\<rparr>, True))
     else Inr (i, no_entry, False))"

section \<open>Interleaved compressed leaves\<close>

definition restart_entry :: "LeafReader \<Rightarrow> int \<Rightarrow> node_err + LeafEntry \<times> nat" where
  "restart_entry r g = bind_res (rt_Offset (r_rt r) g) (\<lambda>off. decodeFullKeyEntry (r_buf r) off)"

text \<open>The skip-scan over the deltas \<open>idx, \<dots>, endIdx - 1\<close> of a group; \<open>n\<close> of them are left.\<close>

fun skip_scan :: "bytes \<Rightarrow> bytes \<Rightarrow> nat \<Rightarrow> nat \<Rightarrow> nat \<Rightarrow> nat \<Rightarrow> node_err + nat \<times> LeafEntry \<times> bool" where
  "skip_scan buf target 0 idx off kcpl = Inr (idx, no_entry, False)"
| "skip_scan buf target (Suc n) idx off kcpl =
     bind_res (deltaHeader buf off) (\<lambda>(flags, shared, uoff, ulen, next).
     if shared > kcpl then skip_scan buf target n (idx + 1) next kcpl
     else if shared < kcpl then Inr (idx, no_entry, False)
     else
       bind_res (slice buf uoff (uoff + ulen)) (\<lambda>unshared.
       let rest = drop kcpl target; c = Compare unshared rest in
       if c = 0 then bind_res (decodeDeltaValueHalf buf flags (uoff + ulen) next) (\<lambda>e. Inr (idx, e, True))
       else if c > 0 then Inr (idx, no_entry, False)
       else skip_scan buf target n (idx + 1) next (kcpl + sharedPrefixLen unshared rest)))"

definition compressedSearchLeaf :: "LeafReader \<Rightarrow> bytes \<Rightarrow> TailCompare \<Rightarrow> node_err + nat \<times> LeafEntry \<times> bool" where
  "compressedSearchLeaf r target tail =
     bind_res (bsearch3 (\<lambda>mid. bind_res (restart_entry r (int mid)) (\<lambda>(e, _). compareEntryKey e target tail)) 0 (restartCount (r_rt r))) (\<lambda>(lo, found).
     if found then
       bind_res (restart_entry r (int lo)) (\<lambda>(e, _).
       bind_res (rt_GroupStartIndex (r_rt r) lo) (\<lambda>idx. Inr (idx, e\<lparr>Key := []\<rparr>, True)))
     else if lo = 0 then Inr (0, no_entry, False)
     else
       bind_res (rt_GroupStartIndex (r_rt r) (lo - 1)) (\<lambda>startIdx.
       bind_res (rt_GroupEntryCount (r_rt r) (int lo - 1)) (\<lambda>gc.
       bind_res (restart_entry r (int lo - 1)) (\<lambda>(re, off).
       if gc = 0 then Inr (startIdx, no_entry, False)
       else skip_scan (r_buf r) target (gc - 1) (startIdx + 1) off (sharedPrefixLen (Key re) target)))))"

text \<open>Decoding the next \<open>n\<close> deltas after entry \<open>e\<close>.\<close>

fun delta_walk :: "bytes \<Rightarrow> nat \<Rightarrow> LeafEntry \<Rightarrow> nat \<Rightarrow> node_err + LeafEntry" where
  "delta_walk buf 0 e off = Inr e"
| "delta_walk buf (Suc n) e off = bind_res (decodeDeltaEntry buf off (Key e)) (\<lambda>(e', off'). delta_walk buf n e' off')"

fun comp_entry_loop :: "LeafReader \<Rightarrow> nat \<Rightarrow> nat list \<Rightarrow> nat \<Rightarrow> node_err + LeafEntry" where
  "comp_entry_loop r idx [] accum = Inl PanicCall"
| "comp_entry_loop r idx (g # gs) accum =
     bind_res (rt_GroupEntryCount (r_rt r) (int g)) (\<lambda>gc.
     if accum + gc > idx then bind_res (restart_entry r (int g)) (\<lambda>(e, off). delta_walk (r_buf r) (idx - accum) e off)
     else comp_entry_loop r idx gs (accum + gc))"

definition compressedEntryAt :: "LeafReader \<Rightarrow> nat \<Rightarrow> node_err + LeafEntry" where
  "compressedEntryAt r idx = comp_entry_loop r idx [0..<restartCount (r_rt r)] 0"

text \<open>The last key; a last group of count 0, which validation refuses, is left out.\<close>

definition compressedLastKey :: "LeafReader \<Rightarrow> node_err + bytes" where
  "compressedLastKey r =
     (let lastGroup = int (restartCount (r_rt r)) - 1 in
      bind_res (rt_GroupEntryCount (r_rt r) lastGroup) (\<lambda>gc.
      bind_res (restart_entry r lastGroup) (\<lambda>(e, off).
      bind_res (delta_walk (r_buf r) (gc - 1) e off) (\<lambda>e. Inr (Key e)))))"

section \<open>Segregated leaves\<close>

definition segReadVOff :: "bytes \<Rightarrow> nat \<Rightarrow> bool \<Rightarrow> node_err + nat" where
  "segReadVOff buf off isRestart =
     bind_res (u16_at buf (if isRestart then off + segRestartVOffAt else off + segDeltaVOffAt)) (\<lambda>v. Inr (unat v))"

definition segValueContentLen :: "byte \<Rightarrow> int" where
  "segValueContentLen flags =
     (let n = (if flag_set flags CellFlagOverflowKey then 12 else 0) in
      if cellHasTrailerOnly flags then n + 16 else -1)"

definition decodeSegRestart :: "bytes \<Rightarrow> nat \<Rightarrow> node_err + byte \<times> bytes \<times> nat \<times> nat" where
  "decodeSegRestart buf off =
     bind_res (u8_at buf off) (\<lambda>flags.
     bind_res (u16_at buf (off + 1)) (\<lambda>keyLen.
     bind_res (u16_at buf (off + 3)) (\<lambda>voff.
     bind_res (slice buf (off + 5) (off + 5 + unat keyLen)) (\<lambda>key.
     Inr (flags, key, unat voff, off + 5 + unat keyLen)))))"

definition decodeSegDelta :: "bytes \<Rightarrow> nat \<Rightarrow> bytes \<Rightarrow> node_err + byte \<times> bytes \<times> nat \<times> nat" where
  "decodeSegDelta buf off prevKey =
     bind_res (u8_at buf off) (\<lambda>flags.
     bind_res (u16_at buf (off + 1)) (\<lambda>shared.
     bind_res (u16_at buf (off + 3)) (\<lambda>unshared.
     bind_res (u16_at buf (off + 5)) (\<lambda>voff.
     bind_res (slice prevKey 0 (unat shared)) (\<lambda>pre.
     bind_res (slice buf (off + 7) (off + 7 + unat unshared)) (\<lambda>suf.
     Inr (flags, pre @ suf, unat voff, off + 7 + unat unshared)))))))"

definition segDeltaHeader :: "bytes \<Rightarrow> nat \<Rightarrow> node_err + byte \<times> nat \<times> nat \<times> nat \<times> nat \<times> nat" where
  "segDeltaHeader buf off =
     bind_res (u8_at buf off) (\<lambda>flags.
     bind_res (u16_at buf (off + 1)) (\<lambda>shared.
     bind_res (u16_at buf (off + 3)) (\<lambda>unshared.
     bind_res (u16_at buf (off + 5)) (\<lambda>voff.
     Inr (flags, unat shared, unat voff, off + 7, unat unshared, off + 7 + unat unshared)))))"

definition segKeyExtOnly :: "bytes \<Rightarrow> LeafEntry \<Rightarrow> nat \<Rightarrow> node_err + LeafEntry" where
  "segKeyExtOnly buf e voff =
     (if flag_set (Flags e) CellFlagOverflowKey then
        bind_res (u64_at buf voff) (\<lambda>ext. bind_res (u32_at buf (voff + 8)) (\<lambda>tot.
        Inr (e\<lparr>KeyExtPage := ext, KeyTotalLen := tot\<rparr>)))
      else Inr e)"

definition segValueHalf :: "bytes \<Rightarrow> LeafEntry \<Rightarrow> nat \<Rightarrow> nat \<Rightarrow> node_err + LeafEntry" where
  "segValueHalf buf e voff vend =
     bind_res (segKeyExtOnly buf e voff) (\<lambda>e.
     let v = (if flag_set (Flags e) CellFlagOverflowKey then voff + 12 else voff) in
     if flag_set (Flags e) CellFlagOverflow then
       bind_res (u64_at buf v) (\<lambda>p. bind_res (u64_at buf (v + 8)) (\<lambda>n. Inr (e\<lparr>OverflowPage := p, TotalLen := n\<rparr>)))
     else if IsNestedTree e then
       bind_res (u64_at buf v) (\<lambda>p. bind_res (u64_at buf (v + 8)) (\<lambda>n. Inr (e\<lparr>NestedRoot := p, NestedCount := n\<rparr>)))
     else bind_res (slice buf v vend) (\<lambda>x. Inr (e\<lparr>Value := x\<rparr>)))"

definition segNextVOff :: "LeafReader \<Rightarrow> nat \<Rightarrow> nat \<Rightarrow> bool \<Rightarrow> node_err + nat" where
  "segNextVOff r idx nextStreamOff nextIsRestart =
     (if idx + 1 \<ge> r_count r then Inr (r_valueEnd r) else segReadVOff (r_buf r) nextStreamOff nextIsRestart)"

definition seg_restart :: "LeafReader \<Rightarrow> int \<Rightarrow> node_err + byte \<times> bytes \<times> nat \<times> nat" where
  "seg_restart r g = bind_res (rt_Offset (r_rt r) g) (\<lambda>off. decodeSegRestart (r_buf r) off)"

fun seg_walk :: "bytes \<Rightarrow> nat \<Rightarrow> byte \<times> bytes \<times> nat \<times> nat \<Rightarrow> node_err + byte \<times> bytes \<times> nat \<times> nat" where
  "seg_walk buf 0 s = Inr s"
| "seg_walk buf (Suc n) (flags, key, voff, next) = bind_res (decodeSegDelta buf next key) (\<lambda>s. seg_walk buf n s)"

fun seg_entry_loop :: "LeafReader \<Rightarrow> nat \<Rightarrow> nat list \<Rightarrow> nat \<Rightarrow> node_err + LeafEntry" where
  "seg_entry_loop r idx [] accum = Inl PanicCall"
| "seg_entry_loop r idx (g # gs) accum =
     bind_res (rt_GroupEntryCount (r_rt r) (int g)) (\<lambda>gc.
     if accum + gc \<le> idx then seg_entry_loop r idx gs (accum + gc)
     else
       bind_res (seg_restart r (int g)) (\<lambda>s.
       bind_res (seg_walk (r_buf r) (idx - accum) s) (\<lambda>(flags, key, voff, next).
       bind_res (segNextVOff r idx next (idx + 1 = accum + gc)) (\<lambda>vend.
       segValueHalf (r_buf r) (no_entry\<lparr>Flags := flags, Key := key\<rparr>) voff vend))))"

definition segEntryAt :: "LeafReader \<Rightarrow> nat \<Rightarrow> node_err + LeafEntry" where
  "segEntryAt r idx = seg_entry_loop r idx [0..<restartCount (r_rt r)] 0"

definition segLastKey :: "LeafReader \<Rightarrow> node_err + bytes" where
  "segLastKey r =
     (let lastGroup = int (restartCount (r_rt r)) - 1 in
      bind_res (rt_GroupEntryCount (r_rt r) lastGroup) (\<lambda>gc.
      bind_res (seg_restart r lastGroup) (\<lambda>s.
      bind_res (seg_walk (r_buf r) (gc - 1) s) (\<lambda>(_, key, _, _). Inr key))))"

fun seg_skip_scan :: "LeafReader \<Rightarrow> bytes \<Rightarrow> nat \<Rightarrow> nat \<Rightarrow> nat \<Rightarrow> nat \<Rightarrow> node_err + nat \<times> LeafEntry \<times> bool" where
  "seg_skip_scan r target 0 idx off kcpl = Inr (idx, no_entry, False)"
| "seg_skip_scan r target (Suc n) idx off kcpl =
     bind_res (segDeltaHeader (r_buf r) off) (\<lambda>(flags, shared, voff, uoff, ulen, next).
     if shared > kcpl then seg_skip_scan r target n (idx + 1) next kcpl
     else if shared < kcpl then Inr (idx, no_entry, False)
     else
       bind_res (slice (r_buf r) uoff (uoff + ulen)) (\<lambda>unshared.
       let rest = drop kcpl target; c = Compare unshared rest in
       if c = 0 then
         bind_res (segNextVOff r idx next (n = 0)) (\<lambda>vend.
         bind_res (segValueHalf (r_buf r) (no_entry\<lparr>Flags := flags\<rparr>) voff vend) (\<lambda>e. Inr (idx, e, True)))
       else if c > 0 then Inr (idx, no_entry, False)
       else seg_skip_scan r target n (idx + 1) next (kcpl + sharedPrefixLen unshared rest)))"

definition seg_probe_entry :: "LeafReader \<Rightarrow> nat \<Rightarrow> node_err + LeafEntry" where
  "seg_probe_entry r g =
     bind_res (seg_restart r (int g)) (\<lambda>(flags, key, voff, _). segKeyExtOnly (r_buf r) (no_entry\<lparr>Flags := flags, Key := key\<rparr>) voff)"

definition segSearchLeaf :: "LeafReader \<Rightarrow> bytes \<Rightarrow> TailCompare \<Rightarrow> node_err + nat \<times> LeafEntry \<times> bool" where
  "segSearchLeaf r target tail =
     bind_res (bsearch3 (\<lambda>mid. bind_res (seg_probe_entry r mid) (\<lambda>e. compareEntryKey e target tail)) 0 (restartCount (r_rt r))) (\<lambda>(lo, found).
     if found then
       bind_res (seg_restart r (int lo)) (\<lambda>(flags, key, voff, next).
       bind_res (rt_GroupStartIndex (r_rt r) lo) (\<lambda>idx.
       bind_res (rt_GroupEntryCount (r_rt r) (int lo)) (\<lambda>gc.
       bind_res (segNextVOff r idx next (gc = 1)) (\<lambda>vend.
       bind_res (segValueHalf (r_buf r) (no_entry\<lparr>Flags := flags\<rparr>) voff vend) (\<lambda>e. Inr (idx, e, True))))))
     else if lo = 0 then Inr (0, no_entry, False)
     else
       bind_res (rt_GroupStartIndex (r_rt r) (lo - 1)) (\<lambda>startIdx.
       bind_res (rt_GroupEntryCount (r_rt r) (int lo - 1)) (\<lambda>gc.
       bind_res (seg_restart r (int lo - 1)) (\<lambda>(_, rkey, _, next).
       if gc = 0 then Inr (startIdx, no_entry, False)
       else seg_skip_scan r target (gc - 1) (startIdx + 1) next (sharedPrefixLen rkey target)))))"

section \<open>The dispatching readers\<close>

definition SearchLeaf :: "LeafReader \<Rightarrow> bytes \<Rightarrow> TailCompare \<Rightarrow> node_err + nat \<times> LeafEntry \<times> bool" where
  "SearchLeaf r target tail =
     (if r_count r = 0 then Inr (0, no_entry, False)
      else if r_variant r = TypeLeafUncompressed then ucSearchLeaf r target tail
      else if r_variant r = TypeLeafSegregated then segSearchLeaf r target tail
      else compressedSearchLeaf r target tail)"

definition EntryAt :: "LeafReader \<Rightarrow> nat \<Rightarrow> node_err + LeafEntry" where
  "EntryAt r idx =
     (if idx \<ge> r_count r then Inl PanicCall
      else if r_variant r = TypeLeafUncompressed then uc_entry r idx
      else if r_variant r = TypeLeafSegregated then segEntryAt r idx
      else compressedEntryAt r idx)"

text \<open>The manual key reader shared by the first and last key: the key follows its length and the value length.\<close>

definition full_key_at :: "bytes \<Rightarrow> nat \<Rightarrow> node_err + bytes" where
  "full_key_at buf off =
     bind_res (u8_at buf off) (\<lambda>flags.
     bind_res (u16_at buf (off + 1)) (\<lambda>keyLen.
     let p = off + 3 + cellPreKeySkip flags in slice buf p (p + unat keyLen)))"

definition LastKey :: "LeafReader \<Rightarrow> node_err + bytes" where
  "LastKey r =
     (if r_count r = 0 then Inr []
      else if r_variant r = TypeLeafUncompressed then
        bind_res (ucOffset r (r_count r - 1)) (\<lambda>off. full_key_at (r_buf r) off)
      else if r_variant r = TypeLeafSegregated then segLastKey r
      else compressedLastKey r)"

definition FirstKey :: "LeafReader \<Rightarrow> node_err + bytes" where
  "FirstKey r =
     (if r_count r = 0 then Inr []
      else if is_seg r then bind_res (decodeSegRestart (r_buf r) segLeafEntryStart) (\<lambda>(_, key, _, _). Inr key)
      else full_key_at (r_buf r) leafEntryStart)"

definition FreeSpace :: "LeafReader \<Rightarrow> node_err + int" where
  "FreeSpace r =
     (let ce = int (content_end (r_cfg r)) in
      if r_variant r = TypeLeafUncompressed then Inr (ce - int (r_dataEnd r) - int (r_count r * ucOffsetEntrySize))
      else if r_variant r = TypeLeafSegregated then
        bind_res (if r_count r > 0 then segReadVOff (r_buf r) segLeafEntryStart True else Inr (r_valueEnd r)) (\<lambda>voff0.
        Inr ((int voff0 - int (r_dataEnd r)) +
          (ce - int (restartCount (r_rt r) * restartTableEntrySize) - int (r_valueEnd r))))
      else Inr (ce - int (r_dataEnd r) - int (restartCount (r_rt r) * restartTableEntrySize)))"

end
