(* ===== verification/Leaf_Valid.thy ===== *)
theory Leaf_Valid
  imports Leaf
begin

text \<open>
  Structural validation of leaf pages: \<^verbatim>\<open>LeafReader.Validate\<close> with its checked decoders in
  \<^verbatim>\<open>src/internal/page/leaf.go\<close> and \<^verbatim>\<open>segValidate\<close> in \<^verbatim>\<open>leaf_segregated.go\<close>. Every refusal is
  \<open>Corrupt\<close>; the loops over entries and groups are recursion over the list of indices.
\<close>

section \<open>Entries\<close>

definition ensureBytes :: "LeafReader \<Rightarrow> nat \<Rightarrow> nat \<Rightarrow> node_err + unit" where
  "ensureBytes r off n =
     (if off < leafEntryStart then Inl Corrupt else if off + n > r_dataEnd r then Inl Corrupt else Inr ())"

definition validateCellFlagsCombo :: "byte \<Rightarrow> node_err + unit" where
  "validateCellFlagsCombo flags =
     (if flag_set flags CellFlagOverflow \<and> flag_set flags CellFlagMultiValue then Inl Corrupt
      else if flag_set flags CellFlagNestedTree \<and> \<not> flag_set flags CellFlagMultiValue then Inl Corrupt
      else if flag_set flags CellFlagEmptyValue \<and> flags AND NOT (CellFlagEmptyValue OR CellFlagOverflowKey) \<noteq> 0 then Inl Corrupt
      else Inr ())"

definition validateKeyExt :: "LeafReader \<Rightarrow> byte \<Rightarrow> nat \<Rightarrow> nat \<Rightarrow> node_err + unit" where
  "validateKeyExt r flags extOff residentLen =
     (if \<not> flag_set flags CellFlagOverflowKey then Inr ()
      else
        bind_res (u64_at (r_buf r) extOff) (\<lambda>extPage.
        bind_res (u32_at (r_buf r) (extOff + 8)) (\<lambda>totalLen.
        if extPage = 0 then Inl Corrupt else if unat totalLen \<le> residentLen then Inl Corrupt else Inr ())))"

definition validateFullKeyEntry :: "LeafReader \<Rightarrow> nat \<Rightarrow> node_err + nat \<times> nat \<times> byte" where
  "validateFullKeyEntry r off =
     bind_res (ensureBytes r off 1) (\<lambda>_.
     bind_res (u8_at (r_buf r) off) (\<lambda>flags.
     if flags AND NOT cellFlagKnownMask \<noteq> 0 then Inl Corrupt
     else
       bind_res (validateCellFlagsCombo flags) (\<lambda>_.
       bind_res (ensureBytes r (off + 1) 2) (\<lambda>_.
       bind_res (u16_at (r_buf r) (off + 1)) (\<lambda>kl.
       let keyLen = unat kl; t = inline_max (r_cfg r); ovk = flag_set flags CellFlagOverflowKey;
           keyTail = (if ovk then 12 else 0); p = off + 3 in
       if (if ovk then keyLen \<noteq> t else keyLen > t) then Inl Corrupt
       else if cellHasTrailerOnly flags then
         bind_res (ensureBytes r p (keyLen + keyTail + 16)) (\<lambda>_.
         bind_res (validateKeyExt r flags (p + keyLen) keyLen) (\<lambda>_. Inr (p + keyLen + keyTail + 16, keyLen, flags)))
       else if flag_set flags CellFlagEmptyValue then
         bind_res (ensureBytes r p (keyLen + keyTail)) (\<lambda>_.
         bind_res (validateKeyExt r flags (p + keyLen) keyLen) (\<lambda>_. Inr (p + keyLen + keyTail, keyLen, flags)))
       else
         bind_res (ensureBytes r p 4) (\<lambda>_.
         bind_res (u32_at (r_buf r) p) (\<lambda>vl.
         bind_res (ensureBytes r (p + 4) (keyLen + keyTail + unat vl)) (\<lambda>_.
         bind_res (validateKeyExt r flags (p + 4 + keyLen) keyLen) (\<lambda>_.
         Inr (p + 4 + keyLen + keyTail + unat vl, keyLen, flags))))))))))"

definition validateDeltaEntry :: "LeafReader \<Rightarrow> nat \<Rightarrow> nat \<Rightarrow> node_err + nat \<times> nat" where
  "validateDeltaEntry r off prevKeyLen =
     bind_res (ensureBytes r off 1) (\<lambda>_.
     bind_res (u8_at (r_buf r) off) (\<lambda>flags.
     if flags AND NOT cellFlagKnownMask \<noteq> 0 then Inl Corrupt
     else if flag_set flags CellFlagOverflowKey then Inl Corrupt
     else
       bind_res (validateCellFlagsCombo flags) (\<lambda>_.
       bind_res (ensureBytes r (off + 1) 4) (\<lambda>_.
       bind_res (u16_at (r_buf r) (off + 1)) (\<lambda>sl.
       bind_res (u16_at (r_buf r) (off + 3)) (\<lambda>ul.
       let sharedLen = unat sl; unsharedLen = unat ul; keyLen = sharedLen + unsharedLen; p = off + 5 in
       if sharedLen > prevKeyLen then Inl Corrupt
       else if keyLen > inline_max (r_cfg r) then Inl Corrupt
       else if cellHasTrailerOnly flags then
         bind_res (ensureBytes r p (unsharedLen + 16)) (\<lambda>_. Inr (p + unsharedLen + 16, keyLen))
       else if flag_set flags CellFlagEmptyValue then
         bind_res (ensureBytes r p unsharedLen) (\<lambda>_. Inr (p + unsharedLen, keyLen))
       else
         bind_res (ensureBytes r p 4) (\<lambda>_.
         bind_res (u32_at (r_buf r) p) (\<lambda>vl.
         bind_res (ensureBytes r (p + 4) (unsharedLen + unat vl)) (\<lambda>_.
         Inr (p + 4 + unsharedLen + unat vl, keyLen))))))))))"

section \<open>Uncompressed and interleaved pages\<close>

text \<open>The sum of the group counts, none of which may be zero.\<close>

fun sum_groups :: "LeafReader \<Rightarrow> nat list \<Rightarrow> nat \<Rightarrow> node_err + nat" where
  "sum_groups r [] acc = Inr acc"
| "sum_groups r (g # gs) acc =
     bind_res (rt_GroupEntryCount (r_rt r) (int g)) (\<lambda>c. if c = 0 then Inl Corrupt else sum_groups r gs (acc + c))"

fun uc_walk :: "LeafReader \<Rightarrow> nat list \<Rightarrow> nat \<Rightarrow> node_err + nat" where
  "uc_walk r [] expected = Inr expected"
| "uc_walk r (i # is) expected =
     bind_res (ucOffset r i) (\<lambda>off.
     if off \<noteq> expected then Inl Corrupt
     else bind_res (validateFullKeyEntry r off) (\<lambda>(next, _, _). uc_walk r is next))"

fun deltas_walk :: "LeafReader \<Rightarrow> nat \<Rightarrow> nat \<Rightarrow> nat \<Rightarrow> node_err + nat" where
  "deltas_walk r 0 off prevKeyLen = Inr off"
| "deltas_walk r (Suc n) off prevKeyLen =
     bind_res (validateDeltaEntry r off prevKeyLen) (\<lambda>(next, keyLen). deltas_walk r n next keyLen)"

definition group_walk :: "LeafReader \<Rightarrow> nat \<Rightarrow> nat \<Rightarrow> node_err + nat" where
  "group_walk r gc off =
     (if gc = 0 then Inr off
      else
        bind_res (validateFullKeyEntry r off) (\<lambda>(next, keyLen, flags).
        if flag_set flags CellFlagOverflowKey \<and> gc \<noteq> 1 then Inl Corrupt else deltas_walk r (gc - 1) next keyLen))"

fun comp_walk :: "LeafReader \<Rightarrow> nat list \<Rightarrow> nat \<Rightarrow> node_err + nat" where
  "comp_walk r [] expected = Inr expected"
| "comp_walk r (g # gs) expected =
     bind_res (rt_GroupEntryCount (r_rt r) (int g)) (\<lambda>gc.
     bind_res (rt_Offset (r_rt r) (int g)) (\<lambda>off.
     if off \<noteq> expected then Inl Corrupt else bind_res (group_walk r gc off) (\<lambda>next. comp_walk r gs next)))"

section \<open>Segregated pages\<close>

definition segEnsureStream :: "LeafReader \<Rightarrow> nat \<Rightarrow> nat \<Rightarrow> node_err + unit" where
  "segEnsureStream r off n =
     (if off < segLeafEntryStart then Inl Corrupt else if off + n > r_dataEnd r then Inl Corrupt else Inr ())"

definition checkSpan :: "LeafReader \<Rightarrow> byte \<Rightarrow> nat \<Rightarrow> nat \<Rightarrow> node_err + unit" where
  "checkSpan r flags voff vend =
     (let fixed = segValueContentLen flags; ovk = flag_set flags CellFlagOverflowKey in
      if voff < r_dataEnd r \<or> vend > r_valueEnd r \<or> voff > vend then Inl Corrupt
      else if fixed \<ge> 0 \<and> int vend - int voff \<noteq> fixed then Inl Corrupt
      else if fixed < 0 \<and> ovk \<and> vend - voff < 12 then Inl Corrupt
      else if ovk then
        bind_res (u64_at (r_buf r) voff) (\<lambda>extPage.
        bind_res (u32_at (r_buf r) (voff + 8)) (\<lambda>totalLen.
        if extPage = 0 then Inl Corrupt else if unat totalLen \<le> inline_max (r_cfg r) then Inl Corrupt else Inr ()))
      else Inr ())"

text \<open>One entry of the stream: its flags, value offset, the next position and its key length.\<close>

definition seg_entry_ok :: "LeafReader \<Rightarrow> bool \<Rightarrow> nat \<Rightarrow> nat \<Rightarrow> nat \<Rightarrow> node_err + byte \<times> nat \<times> nat \<times> nat" where
  "seg_entry_ok r first gc off prevKeyLen =
     bind_res (segEnsureStream r off 1) (\<lambda>_.
     bind_res (u8_at (r_buf r) off) (\<lambda>flags.
     let t = inline_max (r_cfg r); ovk = flag_set flags CellFlagOverflowKey in
     if flags AND NOT cellFlagKnownMask \<noteq> 0 then Inl Corrupt
     else if flag_set flags CellFlagEmptyValue then Inl Corrupt
     else
       bind_res (validateCellFlagsCombo flags) (\<lambda>_.
       if first then
         bind_res (segEnsureStream r off 5) (\<lambda>_.
         bind_res (u16_at (r_buf r) (off + 1)) (\<lambda>kl.
         bind_res (u16_at (r_buf r) (off + 3)) (\<lambda>voff.
         let keyLen = unat kl in
         bind_res (segEnsureStream r (off + 5) keyLen) (\<lambda>_.
         if ovk \<and> keyLen \<noteq> t then Inl Corrupt
         else if ovk \<and> gc \<noteq> 1 then Inl Corrupt
         else if \<not> ovk \<and> keyLen > t then Inl Corrupt
         else Inr (flags, unat voff, off + 5 + keyLen, keyLen)))))
       else if ovk then Inl Corrupt
       else
         bind_res (segEnsureStream r off 7) (\<lambda>_.
         bind_res (u16_at (r_buf r) (off + 1)) (\<lambda>sl.
         bind_res (u16_at (r_buf r) (off + 3)) (\<lambda>ul.
         bind_res (u16_at (r_buf r) (off + 5)) (\<lambda>voff.
         let sharedLen = unat sl; unsharedLen = unat ul; keyLen = sharedLen + unsharedLen in
         if sharedLen > prevKeyLen then Inl Corrupt
         else
           bind_res (segEnsureStream r (off + 7) unsharedLen) (\<lambda>_.
           if keyLen > t then Inl Corrupt
           else Inr (flags, unat voff, off + 7 + unsharedLen, keyLen)))))))))"

text \<open>
  The state of the walk: the previous value offset and the first one, \<open>-1\<close> before any entry, and the
  entry whose span is still open.
\<close>

type_synonym span_state = "int \<times> int \<times> (byte \<times> nat) option"

definition flushPend :: "LeafReader \<Rightarrow> (byte \<times> nat) option \<Rightarrow> nat \<Rightarrow> node_err + unit" where
  "flushPend r pend vend = (case pend of None \<Rightarrow> Inr () | Some (flags, voff) \<Rightarrow> checkSpan r flags voff vend)"

fun seg_group_walk :: "LeafReader \<Rightarrow> nat \<Rightarrow> nat list \<Rightarrow> nat \<Rightarrow> nat \<Rightarrow> span_state \<Rightarrow> node_err + nat \<times> span_state" where
  "seg_group_walk r gc [] off prevKeyLen st = Inr (off, st)"
| "seg_group_walk r gc (i # is) off prevKeyLen (prevVOff, firstVOff, pend) =
     bind_res (seg_entry_ok r (i = 0) gc off prevKeyLen) (\<lambda>(flags, voff, next, keyLen).
     if int voff < prevVOff then Inl Corrupt
     else
       bind_res (flushPend r pend voff) (\<lambda>_.
       seg_group_walk r gc is next keyLen (int voff, if firstVOff < 0 then int voff else firstVOff, Some (flags, voff))))"

fun segs_walk :: "LeafReader \<Rightarrow> nat list \<Rightarrow> nat \<Rightarrow> span_state \<Rightarrow> node_err + nat \<times> span_state" where
  "segs_walk r [] expected st = Inr (expected, st)"
| "segs_walk r (g # gs) expected st =
     bind_res (rt_GroupEntryCount (r_rt r) (int g)) (\<lambda>gc.
     bind_res (rt_Offset (r_rt r) (int g)) (\<lambda>off.
     if off \<noteq> expected then Inl Corrupt
     else bind_res (seg_group_walk r gc [0..<gc] off 0 st) (\<lambda>(next, st). segs_walk r gs next st)))"

definition segValidate :: "LeafReader \<Rightarrow> node_err + unit" where
  "segValidate r =
     (let rc = restartCount (r_rt r); tableBase = int (content_end (r_cfg r)) - int (rc * restartTableEntrySize) in
      if r_valueEnd r < segLeafEntryStart \<or> int (r_valueEnd r) > tableBase then Inl Corrupt
      else if r_dataEnd r < segLeafEntryStart \<or> int (r_dataEnd r) > tableBase then Inl Corrupt
      else if rc = 0 \<and> r_count r > 0 then Inl Corrupt
      else
        bind_res (sum_groups r [0..<rc] 0) (\<lambda>acc.
        if acc \<noteq> r_count r then Inl Corrupt
        else if r_count r = 0 then
          (if r_dataEnd r \<noteq> segLeafEntryStart then Inl Corrupt
           else if r_valueEnd r \<noteq> segLeafEntryStart then Inl Corrupt else Inr ())
        else
          bind_res (segs_walk r [0..<rc] segLeafEntryStart (-1, -1, None)) (\<lambda>(expected, _, firstVOff, pend).
          if expected \<noteq> r_dataEnd r then Inl Corrupt
          else
            bind_res (flushPend r pend (r_valueEnd r)) (\<lambda>_.
            if firstVOff \<ge> 0 \<and> firstVOff < int (r_dataEnd r) then Inl Corrupt else Inr ()))))"

section \<open>All pages\<close>

definition ValidateLeaf :: "LeafReader \<Rightarrow> node_err + unit" where
  "ValidateLeaf r =
     (let ce = content_end (r_cfg r); rc = restartCount (r_rt r) in
      if is_seg r then segValidate r
      else if r_dataEnd r < leafEntryStart \<or> r_dataEnd r > ce then Inl Corrupt
      else
        bind_res
          (if r_variant r = TypeLeaf then
             (if r_dataEnd r + rc * restartTableEntrySize > ce then Inl Corrupt
              else if rc = 0 \<and> r_count r > 0 then Inl Corrupt
              else bind_res (sum_groups r [0..<rc] 0) (\<lambda>acc. if acc \<noteq> r_count r then Inl Corrupt else Inr ()))
           else if r_dataEnd r + r_count r * ucOffsetEntrySize > ce then Inl Corrupt else Inr ()) (\<lambda>_.
        if r_count r = 0 then (if r_dataEnd r \<noteq> leafEntryStart then Inl Corrupt else Inr ())
        else
          bind_res (if is_uc r then uc_walk r [0..<r_count r] leafEntryStart else comp_walk r [0..<rc] leafEntryStart) (\<lambda>expected.
          if expected \<noteq> r_dataEnd r then Inl Corrupt else Inr ())))"

end
