(* ===== verification/Leaf_Build.thy ===== *)
theory Leaf_Build
  imports Leaf
begin

text \<open>
  Leaf pages, the write side: \<^verbatim>\<open>src/internal/page/leaf_builder.go\<close> and the group tracker of
  \<^verbatim>\<open>restart.go\<close>. The inline backing arrays of the source only save allocations; its slices are lists.
  The recorded stream positions of a segregated page are offsets into one page and kept as natural
  numbers.
\<close>

section \<open>Sequential writes\<close>

text \<open>A run of writes at an advancing offset: a fixed-width store, or a \<^verbatim>\<open>copy\<close>, which stops at the end of the buffer.\<close>

datatype chunk = Store bytes | Copy bytes

fun chunk_bytes :: "chunk \<Rightarrow> bytes" where
  "chunk_bytes (Store bs) = bs"
| "chunk_bytes (Copy bs) = bs"

fun put_chunk :: "bytes \<Rightarrow> nat \<Rightarrow> chunk \<Rightarrow> node_err + bytes" where
  "put_chunk buf off (Store bs) = put_at buf off bs"
| "put_chunk buf off (Copy bs) = copy_at buf off bs"

fun put_seq :: "bytes \<Rightarrow> nat \<Rightarrow> chunk list \<Rightarrow> node_err + bytes \<times> nat" where
  "put_seq buf off [] = Inr (buf, off)"
| "put_seq buf off (c # cs) = bind_res (put_chunk buf off c) (\<lambda>b. put_seq b (off + length (chunk_bytes c)) cs)"

section \<open>Sizes\<close>

definition effectiveCellFlags :: "byte \<Rightarrow> bytes \<Rightarrow> node_err + byte" where
  "effectiveCellFlags flags value =
     (if flags AND NOT CellFlagOverflowKey = 0 \<and> length value = 0 then Inr (flags OR CellFlagEmptyValue)
      else if flag_set flags CellFlagEmptyValue \<and> length value \<noteq> 0 then Inl PanicCall
      else Inr flags)"

definition valuePartSize :: "byte \<Rightarrow> bytes \<Rightarrow> node_err + nat" where
  "valuePartSize flags value =
     bind_res (effectiveCellFlags flags value) (\<lambda>f.
     Inr (if cellHasTrailerOnly f then 16 else if flag_set f CellFlagEmptyValue then 0 else 4 + length value))"

definition keyPartSize :: "byte \<Rightarrow> bytes \<Rightarrow> nat" where
  "keyPartSize flags key = 2 + length key + (if flag_set flags CellFlagOverflowKey then 12 else 0)"

definition segValueContentSize :: "byte \<Rightarrow> bytes \<Rightarrow> nat" where
  "segValueContentSize flags value =
     (let n = (if flag_set flags CellFlagOverflowKey then 12 else 0) in
      if cellHasTrailerOnly flags then n + 16 else n + length value)"

section \<open>Entry writers\<close>

definition value_chunks :: "byte \<Rightarrow> bytes \<Rightarrow> u64 \<Rightarrow> u64 \<Rightarrow> chunk list" where
  "value_chunks f value ovflPage totalLen =
     (if cellHasTrailerOnly f then [Store (w64 ovflPage), Store (w64 totalLen)]
      else if flag_set f CellFlagEmptyValue then []
      else [Copy value])"

definition ext_chunks :: "byte \<Rightarrow> u64 \<Rightarrow> u32 \<Rightarrow> chunk list" where
  "ext_chunks f keyExtPage keyTotalLen =
     (if flag_set f CellFlagOverflowKey then [Store (w64 keyExtPage), Store (w32 keyTotalLen)] else [])"

definition vlen_chunks :: "byte \<Rightarrow> bytes \<Rightarrow> chunk list" where
  "vlen_chunks f value =
     (if \<not> cellHasTrailerOnly f \<and> \<not> flag_set f CellFlagEmptyValue then [Store (w32 (word_of_nat (length value)))] else [])"

definition writeFullKeyEntry ::
  "bytes \<Rightarrow> nat \<Rightarrow> byte \<Rightarrow> bytes \<Rightarrow> bytes \<Rightarrow> u64 \<Rightarrow> u64 \<Rightarrow> u64 \<Rightarrow> u32 \<Rightarrow> node_err + bytes \<times> nat" where
  "writeFullKeyEntry buf off flags key value ovflPage totalLen keyExtPage keyTotalLen =
     bind_res (effectiveCellFlags flags value) (\<lambda>f.
     put_seq buf off
       ([Store [f], Store (w16 (word_of_nat (length key)))] @ vlen_chunks f value @ [Copy key] @
        ext_chunks f keyExtPage keyTotalLen @ value_chunks f value ovflPage totalLen))"

definition writeCompressedDeltaEntry ::
  "bytes \<Rightarrow> nat \<Rightarrow> byte \<Rightarrow> nat \<Rightarrow> bytes \<Rightarrow> bytes \<Rightarrow> u64 \<Rightarrow> u64 \<Rightarrow> node_err + bytes \<times> nat" where
  "writeCompressedDeltaEntry buf off flags sharedLen unsharedKey value ovflPage totalLen =
     bind_res (effectiveCellFlags flags value) (\<lambda>f.
     put_seq buf off
       ([Store [f], Store (w16 (word_of_nat sharedLen)), Store (w16 (word_of_nat (length unsharedKey)))] @
        vlen_chunks f value @ [Copy unsharedKey] @ value_chunks f value ovflPage totalLen))"

section \<open>The group tracker\<close>

record restartGroupTracker =
  restarts :: "u32 list"
  curGroupCount :: nat

definition IsRestart :: "restartGroupTracker \<Rightarrow> nat \<Rightarrow> nat \<Rightarrow> bool" where
  "IsRestart t totalCount target \<longleftrightarrow> totalCount = 0 \<or> curGroupCount t \<ge> target"

definition StartGroup :: "restartGroupTracker \<Rightarrow> nat \<Rightarrow> restartGroupTracker" where
  "StartGroup t offset = \<lparr>restarts = restarts t @ [word_of_nat offset], curGroupCount = 0\<rparr>"

definition FinalizeCurrentGroup :: "restartGroupTracker \<Rightarrow> restartGroupTracker" where
  "FinalizeCurrentGroup t =
     (if curGroupCount t > 0 \<and> restarts t \<noteq> [] then
        t\<lparr>restarts := butlast (restarts t) @ [last (restarts t) OR push_bit 16 (word_of_nat (curGroupCount t))]\<rparr>
      else t)"

definition IncrCount :: "restartGroupTracker \<Rightarrow> restartGroupTracker" where
  "IncrCount t = t\<lparr>curGroupCount := curGroupCount t + 1\<rparr>"

definition TableSize :: "restartGroupTracker \<Rightarrow> nat \<Rightarrow> nat" where
  "TableSize t extra = (length (restarts t) + extra) * restartTableEntrySize"

fun put_restarts :: "bytes \<Rightarrow> nat \<Rightarrow> u32 list \<Rightarrow> node_err + bytes" where
  "put_restarts buf off [] = Inr buf"
| "put_restarts buf off (packed # ps) =
     bind_res (put_at buf off (w16 (ucast (packed AND 0xFFFF)))) (\<lambda>b.
     bind_res (put_at b (off + 2) [ucast (drop_bit 16 packed)]) (\<lambda>b.
     bind_res (put_at b (off + 3) [0]) (\<lambda>b.
     put_restarts b (off + restartTableEntrySize) ps)))"

definition WriteTable :: "restartGroupTracker \<Rightarrow> bytes \<Rightarrow> nat \<Rightarrow> node_err + bytes \<times> nat" where
  "WriteTable t buf contentEnd =
     (let rs = restarts (FinalizeCurrentGroup t); rc = length rs in
      if contentEnd < rc * restartTableEntrySize then Inl (Panic PanicBounds)
      else bind_res (put_restarts buf (contentEnd - rc * restartTableEntrySize) rs) (\<lambda>b. Inr (b, rc)))"

section \<open>The builder\<close>

record LeafBuilder =
  b_rgt :: restartGroupTracker
  b_buf :: bytes
  b_cfg :: Config
  b_count :: nat
  b_dataPos :: nat
  b_variant :: byte
  b_prevKey :: bytes
  b_ucOffsets :: "u16 list"
  b_segVals :: bytes
  b_segVOffSlots :: "nat list"
  b_segRel :: "u32 list"
  b_lastAddedKey :: "bytes option"
  b_forceRestart :: bool

definition NewLeafBuilder :: "bytes \<Rightarrow> Config \<Rightarrow> node_err + LeafBuilder" where
  "NewLeafBuilder buf cfg =
     bind_res (must_validate cfg) (\<lambda>_.
     if length buf \<noteq> unat (PageSize cfg) then Inl PanicCall
     else
       (let v = EffectiveLeafType cfg in
        Inr \<lparr>b_rgt = \<lparr>restarts = [], curGroupCount = 0\<rparr>, b_buf = buf, b_cfg = cfg, b_count = 0,
          b_dataPos = (if v = TypeLeafSegregated then segLeafEntryStart else leafEntryStart), b_variant = v,
          b_prevKey = [], b_ucOffsets = [], b_segVals = [], b_segVOffSlots = [], b_segRel = [],
          b_lastAddedKey = None, b_forceRestart = False\<rparr>))"

definition addUCEntry ::
  "LeafBuilder \<Rightarrow> bytes \<Rightarrow> byte \<Rightarrow> bytes \<Rightarrow> u64 \<Rightarrow> u64 \<Rightarrow> u64 \<Rightarrow> u32 \<Rightarrow> node_err + bool \<times> LeafBuilder" where
  "addUCEntry b key flags value ovflPage totalLen keyExtPage keyTotalLen =
     bind_res (valuePartSize flags value) (\<lambda>vs.
     let entrySize = 1 + keyPartSize flags key + vs; newTableSize = (b_count b + 1) * ucOffsetEntrySize in
     if b_dataPos b + entrySize + newTableSize > content_end (b_cfg b) then Inr (False, b)
     else
       bind_res (writeFullKeyEntry (b_buf b) (b_dataPos b) flags key value ovflPage totalLen keyExtPage keyTotalLen) (\<lambda>(buf, newPos).
       Inr (True, b\<lparr>b_buf := buf, b_ucOffsets := b_ucOffsets b @ [word_of_nat (b_dataPos b)], b_dataPos := newPos,
         b_count := b_count b + 1\<rparr>)))"

text \<open>Whether the next entry opens a group: at the target size, at a natural break, and around overflow keys.\<close>

definition opens_group :: "LeafBuilder \<Rightarrow> bytes \<Rightarrow> byte \<Rightarrow> bool" where
  "opens_group b key flags =
     (let target = unat (EffectiveRestartGroupTarget (b_cfg b)); ovk = flag_set flags CellFlagOverflowKey;
          atTarget = IsRestart (b_rgt b) (b_count b) target;
          naturalBreak = (\<not> atTarget \<and> \<not> ovk \<and> \<not> b_forceRestart b \<and> b_count b > 0 \<and> curGroupCount (b_rgt b) > 0 \<and>
            sharedPrefixLen (b_prevKey b) key = 0)
      in atTarget \<or> naturalBreak \<or> ovk \<or> b_forceRestart b)"

definition addCompressedEntry ::
  "LeafBuilder \<Rightarrow> bytes \<Rightarrow> byte \<Rightarrow> bytes \<Rightarrow> u64 \<Rightarrow> u64 \<Rightarrow> u64 \<Rightarrow> u32 \<Rightarrow> node_err + bool \<times> LeafBuilder" where
  "addCompressedEntry b key flags value ovflPage totalLen keyExtPage keyTotalLen =
     (let isRestart = opens_group b key flags;
          b1 = (if isRestart \<and> curGroupCount (b_rgt b) > 0 then b\<lparr>b_rgt := FinalizeCurrentGroup (b_rgt b)\<rparr> else b);
          sharedLen = (if isRestart then 0 else sharedPrefixLen (b_prevKey b1) key);
          unsharedKey = drop sharedLen key;
          headerSize = 1 + (if isRestart then keyPartSize flags key else 2 + 2 + length unsharedKey) in
      bind_res (valuePartSize flags value) (\<lambda>vs.
      let entrySize = headerSize + vs; tableSize = TableSize (b_rgt b1) (if isRestart then 1 else 0) in
      if b_dataPos b1 + entrySize + tableSize > content_end (b_cfg b1) then Inr (False, b1)
      else
        (let b2 = (if isRestart then b1\<lparr>b_rgt := StartGroup (b_rgt b1) (b_dataPos b1)\<rparr> else b1) in
         bind_res (if isRestart
           then writeFullKeyEntry (b_buf b2) (b_dataPos b2) flags key value ovflPage totalLen keyExtPage keyTotalLen
           else writeCompressedDeltaEntry (b_buf b2) (b_dataPos b2) flags sharedLen unsharedKey value ovflPage totalLen) (\<lambda>(buf, off).
         Inr (True, b2\<lparr>b_buf := buf, b_dataPos := off, b_prevKey := key, b_count := b_count b2 + 1,
           b_rgt := IncrCount (b_rgt b2), b_forceRestart := flag_set flags CellFlagOverflowKey\<rparr>)))))"

definition seg_value_bytes :: "byte \<Rightarrow> bytes \<Rightarrow> u64 \<Rightarrow> u64 \<Rightarrow> u64 \<Rightarrow> u32 \<Rightarrow> bytes" where
  "seg_value_bytes flags value ovflPage totalLen keyExtPage keyTotalLen =
     (if flag_set flags CellFlagOverflowKey then w64 keyExtPage @ w32 keyTotalLen else []) @
     (if cellHasTrailerOnly flags then w64 ovflPage @ w64 totalLen else value)"

definition addSegEntry ::
  "LeafBuilder \<Rightarrow> bytes \<Rightarrow> byte \<Rightarrow> bytes \<Rightarrow> u64 \<Rightarrow> u64 \<Rightarrow> u64 \<Rightarrow> u32 \<Rightarrow> node_err + bool \<times> LeafBuilder" where
  "addSegEntry b key flags0 value ovflPage totalLen keyExtPage keyTotalLen =
     (let flags = flags0 AND NOT CellFlagEmptyValue;
          isRestart = opens_group b key flags;
          b1 = (if isRestart \<and> curGroupCount (b_rgt b) > 0 then b\<lparr>b_rgt := FinalizeCurrentGroup (b_rgt b)\<rparr> else b);
          sharedLen = (if isRestart then 0 else sharedPrefixLen (b_prevKey b1) key);
          unsharedKey = drop sharedLen key;
          entrySize = (if isRestart then 5 + length key else 7 + length unsharedKey);
          valSize = segValueContentSize flags value;
          tableSize = TableSize (b_rgt b1) (if isRestart then 1 else 0) in
      if b_dataPos b1 + entrySize + length (b_segVals b1) + valSize + tableSize > content_end (b_cfg b1) then Inr (False, b1)
      else
        (let b2 = (if isRestart then b1\<lparr>b_rgt := StartGroup (b_rgt b1) (b_dataPos b1)\<rparr> else b1) in
         bind_res (put_seq (b_buf b2) (b_dataPos b2)
           (if isRestart
            then [Store [flags], Store (w16 (word_of_nat (length key))), Store (w16 0), Copy key]
            else [Store [flags], Store (w16 (word_of_nat sharedLen)), Store (w16 (word_of_nat (length unsharedKey))),
              Store (w16 0), Copy unsharedKey])) (\<lambda>(buf, off).
         Inr (True, b2\<lparr>b_buf := buf, b_dataPos := off, b_prevKey := key, b_count := b_count b2 + 1,
           b_rgt := IncrCount (b_rgt b2), b_forceRestart := flag_set flags CellFlagOverflowKey,
           b_segVOffSlots := b_segVOffSlots b2 @ [b_dataPos b2 + (if isRestart then 3 else 5)],
           b_segRel := b_segRel b2 @ [word_of_nat (length (b_segVals b2))],
           b_segVals := b_segVals b2 @ seg_value_bytes flags value ovflPage totalLen keyExtPage keyTotalLen\<rparr>))))"

definition addEntry ::
  "LeafBuilder \<Rightarrow> bytes \<Rightarrow> byte \<Rightarrow> bytes \<Rightarrow> u64 \<Rightarrow> u64 \<Rightarrow> u64 \<Rightarrow> u32 \<Rightarrow> node_err + bool \<times> LeafBuilder" where
  "addEntry b key flags value ovflPage totalLen keyExtPage keyTotalLen =
     (if flags AND NOT cellFlagKnownMask \<noteq> 0 then Inl PanicCall
      else if (case b_lastAddedKey b of
                 None \<Rightarrow> False
               | Some lk \<Rightarrow> let c = Compare lk key in c > 0 \<or> (c = 0 \<and> \<not> flag_set flags CellFlagOverflowKey)) then Inl PanicCall
      else
        bind_res
          (if b_variant b = TypeLeafUncompressed then addUCEntry b key flags value ovflPage totalLen keyExtPage keyTotalLen
           else if b_variant b = TypeLeafSegregated then addSegEntry b key flags value ovflPage totalLen keyExtPage keyTotalLen
           else addCompressedEntry b key flags value ovflPage totalLen keyExtPage keyTotalLen) (\<lambda>(ok, b').
        Inr (ok, if ok then b'\<lparr>b_lastAddedKey := Some key\<rparr> else b')))"

definition AddInline :: "LeafBuilder \<Rightarrow> bytes \<Rightarrow> bytes \<Rightarrow> node_err + bool \<times> LeafBuilder" where
  "AddInline b key value = addEntry b key 0 value 0 0 0 0"

definition AddOverflow :: "LeafBuilder \<Rightarrow> bytes \<Rightarrow> u64 \<Rightarrow> u64 \<Rightarrow> node_err + bool \<times> LeafBuilder" where
  "AddOverflow b key ovflPage totalLen = addEntry b key CellFlagOverflow [] ovflPage totalLen 0 0"

definition AddSubpage :: "LeafBuilder \<Rightarrow> bytes \<Rightarrow> bytes \<Rightarrow> node_err + bool \<times> LeafBuilder" where
  "AddSubpage b key subpage = addEntry b key CellFlagMultiValue subpage 0 0 0 0"

definition AddNestedTreeRef :: "LeafBuilder \<Rightarrow> bytes \<Rightarrow> u64 \<Rightarrow> u64 \<Rightarrow> node_err + bool \<times> LeafBuilder" where
  "AddNestedTreeRef b key root count = addEntry b key (CellFlagMultiValue OR CellFlagNestedTree) [] root count 0 0"

definition AddEntry :: "LeafBuilder \<Rightarrow> LeafEntry \<Rightarrow> node_err + bool \<times> LeafBuilder" where
  "AddEntry b e =
     (if flag_set (Flags e) CellFlagOverflow \<and> flag_set (Flags e) CellFlagMultiValue then Inl PanicCall
      else if flag_set (Flags e) CellFlagOverflow then
        addEntry b (Key e) (Flags e) [] (OverflowPage e) (TotalLen e) (KeyExtPage e) (KeyTotalLen e)
      else if IsNestedTree e then
        addEntry b (Key e) (Flags e) [] (NestedRoot e) (NestedCount e) (KeyExtPage e) (KeyTotalLen e)
      else addEntry b (Key e) (Flags e) (Value e) 0 0 (KeyExtPage e) (KeyTotalLen e))"

definition zeroFreeSpace :: "bytes \<Rightarrow> nat \<Rightarrow> int \<Rightarrow> node_err + bytes" where
  "zeroFreeSpace buf lo hi =
     (if int lo < hi then
        (if hi \<le> int (length buf) then Inr (overwrite buf lo (replicate (nat hi - lo) 0)) else Inl (Panic PanicBounds))
      else Inr buf)"

fun put_u16s :: "bytes \<Rightarrow> nat \<Rightarrow> u16 list \<Rightarrow> node_err + bytes" where
  "put_u16s buf off [] = Inr buf"
| "put_u16s buf off (v # vs) = bind_res (put_at buf off (w16 v)) (\<lambda>b. put_u16s b (off + 2) vs)"

fun patch_voffs :: "bytes \<Rightarrow> nat \<Rightarrow> (nat \<times> u32) list \<Rightarrow> node_err + bytes" where
  "patch_voffs buf valueStart [] = Inr buf"
| "patch_voffs buf valueStart ((slot, rel) # ps) =
     bind_res (put_at buf slot (w16 (word_of_nat (valueStart + unat rel)))) (\<lambda>b. patch_voffs b valueStart ps)"

definition Finish :: "LeafBuilder \<Rightarrow> node_err + bytes" where
  "Finish b =
     (let count = word_of_nat (b_count b) :: u16; ce = content_end (b_cfg b) in
      if b_variant b = TypeLeafUncompressed then
        bind_res (zeroFreeSpace (b_buf b) (b_dataPos b) (int ce - int (unat count * ucOffsetEntrySize))) (\<lambda>buf.
        bind_res (write_header buf TypeLeafUncompressed count 0) (\<lambda>buf.
        bind_res (put_at buf ucLeafOffDataEnd (w16 (word_of_nat (b_dataPos b)))) (\<lambda>buf.
        bind_res (put_at buf (ucLeafOffDataEnd + 2) (w16 0)) (\<lambda>buf.
        if ce < b_count b * ucOffsetEntrySize then Inl (Panic PanicBounds)
        else put_u16s buf (ce - b_count b * ucOffsetEntrySize) (b_ucOffsets b)))))
      else if b_variant b = TypeLeafSegregated then
        bind_res (WriteTable (b_rgt b) (b_buf b) ce) (\<lambda>(buf, rc).
        let valueEnd = (if b_count b = 0 then segLeafEntryStart else ce - rc * restartTableEntrySize) in
        if valueEnd < length (b_segVals b) then Inl (Panic PanicBounds)
        else
          (let valueStart = valueEnd - length (b_segVals b) in
           bind_res (put_at buf valueStart (b_segVals b)) (\<lambda>buf.
           bind_res (patch_voffs buf valueStart (zip (b_segVOffSlots b) (b_segRel b))) (\<lambda>buf.
           bind_res (zeroFreeSpace buf (b_dataPos b) (int valueStart)) (\<lambda>buf.
           bind_res (write_header buf TypeLeafSegregated count 0) (\<lambda>buf.
           bind_res (put_at buf leafOffRestartCount (w16 (word_of_nat rc))) (\<lambda>buf.
           bind_res (put_at buf leafOffDataEnd (w16 (word_of_nat (b_dataPos b)))) (\<lambda>buf.
           put_at buf segLeafOffValueEnd (w16 (word_of_nat valueEnd))))))))))
      else
        bind_res (WriteTable (b_rgt b) (b_buf b) ce) (\<lambda>(buf, rc).
        bind_res (zeroFreeSpace buf (b_dataPos b) (int ce - int (rc * restartTableEntrySize))) (\<lambda>buf.
        bind_res (write_header buf TypeLeaf count 0) (\<lambda>buf.
        bind_res (put_at buf leafOffRestartCount (w16 (word_of_nat rc))) (\<lambda>buf.
        put_at buf leafOffDataEnd (w16 (word_of_nat (b_dataPos b))))))))"

definition builder_FreeSpace :: "LeafBuilder \<Rightarrow> int" where
  "builder_FreeSpace b =
     (let ce = int (content_end (b_cfg b)) in
      if b_variant b = TypeLeafUncompressed then ce - int (b_dataPos b) - int (b_count b * ucOffsetEntrySize)
      else if b_variant b = TypeLeafSegregated then
        ce - int (b_dataPos b) - int (length (b_segVals b)) - int (TableSize (b_rgt b) 0)
      else ce - int (b_dataPos b) - int (TableSize (b_rgt b) 0))"

text \<open>Building a page from entries: the loop of the callers. \<open>None\<close> is the page-full answer.\<close>

fun add_all :: "LeafBuilder \<Rightarrow> LeafEntry list \<Rightarrow> node_err + LeafBuilder option" where
  "add_all b [] = Inr (Some b)"
| "add_all b (e # es) = bind_res (AddEntry b e) (\<lambda>(ok, b'). if ok then add_all b' es else Inr None)"

definition build_leaf :: "bytes \<Rightarrow> Config \<Rightarrow> LeafEntry list \<Rightarrow> node_err + bytes option" where
  "build_leaf buf cfg es =
     bind_res (NewLeafBuilder buf cfg) (\<lambda>b.
     bind_res (add_all b es) (\<lambda>r.
     case r of None \<Rightarrow> Inr None | Some b' \<Rightarrow> bind_res (Finish b') (\<lambda>page. Inr (Some page))))"

end
