(* ===== verification/Leaf_Codec.thy ===== *)
theory Leaf_Codec
  imports Leaf_Build Branch_Plain
begin

text \<open>
  The bytes of one leaf entry in its two interleaved forms, and that the decoders read back what the
  writers wrote. \<open>stored\<close> is the form an entry takes on the page: a plain entry with an empty value
  gets the compact flag.
\<close>

declare push_bit_of_1 [simp del]

section \<open>Flags\<close>

lemma flag_bits [simp]:
  "flag_set f CellFlagOverflow \<longleftrightarrow> bit f 0" "flag_set f CellFlagMultiValue \<longleftrightarrow> bit f 1"
  "flag_set f CellFlagNestedTree \<longleftrightarrow> bit f 2" "flag_set f CellFlagEmptyValue \<longleftrightarrow> bit f 3"
  "flag_set f CellFlagOverflowKey \<longleftrightarrow> bit f 4"
  unfolding flag_set_def cell_flags by (rule and_push_bit_neq_0, simp)+

lemma bit_flag_consts:
  "bit CellFlagOverflow n \<longleftrightarrow> n = 0" "bit CellFlagMultiValue n \<longleftrightarrow> n = 1" "bit CellFlagNestedTree n \<longleftrightarrow> n = 2"
  "bit CellFlagEmptyValue n \<longleftrightarrow> n = 3" "bit CellFlagOverflowKey n \<longleftrightarrow> n = 4"
  unfolding cell_flags bit_push_one by auto

lemma bit_known_mask: "bit cellFlagKnownMask n \<longleftrightarrow> n \<le> 4"
  by (auto simp: cellFlagKnownMask_def bit_or_iff bit_flag_consts)

lemma only_overflow_key: "f AND NOT CellFlagOverflowKey = 0 \<longleftrightarrow> (\<forall>n. bit f n \<longrightarrow> n = 4)"
proof -
  have "f AND NOT CellFlagOverflowKey = 0 \<longleftrightarrow> (\<forall>n. \<not> bit (f AND NOT CellFlagOverflowKey) n)"
    by (metis bit_0_eq bit_eqI bot_apply bot_bool_def)
  also have "\<dots> \<longleftrightarrow> (\<forall>n. bit f n \<longrightarrow> n = 4)"
    using bit_imp_le_length [of f] by (fastforce simp: bit_and_iff bit_not_iff bit_flag_consts)
  finally show ?thesis .
qed

lemma known_flags: "f AND NOT cellFlagKnownMask = 0 \<longleftrightarrow> (\<forall>n. bit f n \<longrightarrow> n \<le> 4)"
proof -
  have "f AND NOT cellFlagKnownMask = 0 \<longleftrightarrow> (\<forall>n. \<not> bit (f AND NOT cellFlagKnownMask) n)"
    by (metis bit_0_eq bit_eqI bot_apply bot_bool_def)
  also have "\<dots> \<longleftrightarrow> (\<forall>n. bit f n \<longrightarrow> n \<le> 4)"
    using bit_imp_le_length [of f] by (fastforce simp: bit_and_iff bit_not_iff bit_known_mask)
  finally show ?thesis .
qed

section \<open>Entries\<close>

text \<open>The flag combinations with an encoding, and no field set that the flags do not call for.\<close>

definition shape_ok :: "LeafEntry \<Rightarrow> bool" where
  "shape_ok e \<longleftrightarrow> (let f = Flags e in
     f AND NOT cellFlagKnownMask = 0 \<and> \<not> (bit f 0 \<and> bit f 1) \<and> (bit f 2 \<longrightarrow> bit f 1) \<and>
     (bit f 3 \<longrightarrow> \<not> bit f 0 \<and> \<not> bit f 1 \<and> \<not> bit f 2) \<and> (bit f 0 \<or> bit f 2 \<or> bit f 3 \<longrightarrow> Value e = []) \<and>
     (\<not> bit f 0 \<longrightarrow> OverflowPage e = 0 \<and> TotalLen e = 0) \<and> (\<not> bit f 2 \<longrightarrow> NestedRoot e = 0 \<and> NestedCount e = 0) \<and>
     (\<not> bit f 4 \<longrightarrow> KeyExtPage e = 0 \<and> KeyTotalLen e = 0))"

definition key_ok :: "nat \<Rightarrow> LeafEntry \<Rightarrow> bool" where
  "key_ok t e \<longleftrightarrow>
     (if IsOverflowKey e then length (Key e) = t \<and> t < unat (KeyTotalLen e) \<and> KeyExtPage e \<noteq> 0 else length (Key e) \<le> t)"

definition stored :: "LeafEntry \<Rightarrow> LeafEntry" where
  "stored e = (if Flags e AND NOT CellFlagOverflowKey = 0 \<and> Value e = [] then e\<lparr>Flags := Flags e OR CellFlagEmptyValue\<rparr> else e)"

lemma stored_fields [simp]:
  "Key (stored e) = Key e" "Value (stored e) = Value e" "OverflowPage (stored e) = OverflowPage e" "TotalLen (stored e) = TotalLen e"
  "NestedRoot (stored e) = NestedRoot e" "NestedCount (stored e) = NestedCount e" "KeyExtPage (stored e) = KeyExtPage e"
  "KeyTotalLen (stored e) = KeyTotalLen e"
  by (simp_all add: stored_def)

lemma stored_bits [simp]:
  "bit (Flags (stored e)) 0 = bit (Flags e) 0" "bit (Flags (stored e)) 1 = bit (Flags e) 1" "bit (Flags (stored e)) 2 = bit (Flags e) 2"
  "bit (Flags (stored e)) 4 = bit (Flags e) 4" "IsOverflowKey (stored e) = IsOverflowKey e"
  by (auto simp: stored_def bit_or_iff bit_flag_consts IsOverflowKey_def)

lemma bit_stored: "bit (Flags (stored e)) n \<longleftrightarrow> bit (Flags e) n \<or> n = 3 \<and> (\<forall>n. bit (Flags e) n \<longrightarrow> n = 4) \<and> Value e = []"
  by (auto simp: stored_def bit_or_iff bit_flag_consts only_overflow_key)

lemma stored_shape: "shape_ok e \<Longrightarrow> shape_ok (stored e)"
  unfolding shape_ok_def Let_def known_flags by (auto simp: bit_stored)

lemma stored_key_ok [simp]: "key_ok t (stored e) = key_ok t e"
  by (simp add: key_ok_def)

text \<open>A stored entry marks the empty value exactly when it has no other value half.\<close>

lemma effective_flags:
  assumes "shape_ok e"
  shows "effectiveCellFlags (Flags e) (Value e) = Inr (Flags (stored e))"
  using assms by (auto simp: effectiveCellFlags_def stored_def shape_ok_def Let_def)

section \<open>Bytes\<close>

definition vlen_bytes :: "LeafEntry \<Rightarrow> bytes" where
  "vlen_bytes e = (if cellHasTrailerOnly (Flags e) \<or> bit (Flags e) 3 then [] else w32 (word_of_nat (length (Value e))))"

definition ref_bytes :: "LeafEntry \<Rightarrow> bytes" where
  "ref_bytes e = (if bit (Flags e) 4 then w64 (KeyExtPage e) @ w32 (KeyTotalLen e) else [])"

definition val_bytes :: "LeafEntry \<Rightarrow> bytes" where
  "val_bytes e =
     (if bit (Flags e) 0 then w64 (OverflowPage e) @ w64 (TotalLen e)
      else if bit (Flags e) 2 then w64 (NestedRoot e) @ w64 (NestedCount e)
      else if bit (Flags e) 3 then [] else Value e)"

definition full_bytes :: "LeafEntry \<Rightarrow> bytes" where
  "full_bytes e = [Flags e] @ w16 (word_of_nat (length (Key e))) @ vlen_bytes e @ Key e @ ref_bytes e @ val_bytes e"

definition delta_bytes :: "nat \<Rightarrow> LeafEntry \<Rightarrow> bytes" where
  "delta_bytes s e = [Flags e] @ w16 (word_of_nat s) @ w16 (word_of_nat (length (Key e) - s)) @ vlen_bytes e @ drop s (Key e) @ val_bytes e"

lemma entry_lengths:
  "length (vlen_bytes e) = (if cellHasTrailerOnly (Flags e) \<or> bit (Flags e) 3 then 0 else 4)"
  "length (ref_bytes e) = (if bit (Flags e) 4 then 12 else 0)"
  "length (val_bytes e) = (if cellHasTrailerOnly (Flags e) then 16 else if bit (Flags e) 3 then 0 else length (Value e))"
  by (simp_all add: vlen_bytes_def ref_bytes_def val_bytes_def cellHasTrailerOnly_def del: le_bytes.simps)

lemma full_length: "length (full_bytes e) = 3 + length (vlen_bytes e) + length (Key e) + length (ref_bytes e) + length (val_bytes e)"
  by (simp add: full_bytes_def del: le_bytes.simps)

lemma delta_length: "length (delta_bytes s e) = 5 + length (vlen_bytes e) + (length (Key e) - s) + length (val_bytes e)"
  by (simp add: delta_bytes_def del: le_bytes.simps)

section \<open>Decoding\<close>

lemma unat_len16: "n < 65536 \<Longrightarrow> unat (word_of_nat n :: u16) = n" by (simp add: unat_of_nat)
lemma unat_len32: "n < 4294967296 \<Longrightarrow> unat (word_of_nat n :: u32) = n" by (simp add: unat_of_nat)

lemma value_half_reads:
  assumes "shape_ok e" "holds buf off (val_bytes e)" "\<not> cellHasTrailerOnly (Flags e) \<Longrightarrow> \<not> bit (Flags e) 3 \<Longrightarrow> vl = Some (length (Value e))"
  shows "value_half buf (e\<lparr>Value := [], OverflowPage := 0, TotalLen := 0, NestedRoot := 0, NestedCount := 0\<rparr>) off vl =
    Inr (e, off + length (val_bytes e))"
proof -
  have s: "bit (Flags e) 2 \<Longrightarrow> bit (Flags e) 1" "bit (Flags e) 0 \<Longrightarrow> \<not> bit (Flags e) 1"
    "bit (Flags e) 0 \<or> bit (Flags e) 2 \<or> bit (Flags e) 3 \<Longrightarrow> Value e = []"
    "\<not> bit (Flags e) 0 \<Longrightarrow> OverflowPage e = 0 \<and> TotalLen e = 0" "\<not> bit (Flags e) 2 \<Longrightarrow> NestedRoot e = 0 \<and> NestedCount e = 0"
    "bit (Flags e) 0 \<Longrightarrow> NestedRoot e = 0 \<and> NestedCount e = 0"
    using assms(1) by (auto simp: shape_ok_def Let_def)
  show ?thesis
  proof (cases "bit (Flags e) 0 \<or> bit (Flags e) 2")
    case True
    define p n where pn: "p = (if bit (Flags e) 0 then OverflowPage e else NestedRoot e)" "n = (if bit (Flags e) 0 then TotalLen e else NestedCount e)"
    have v: "val_bytes e = w64 p @ w64 n" using True by (auto simp: val_bytes_def pn simp del: le_bytes.simps)
    have "u64_at buf off = Inr p" "u64_at buf (off + 8) = Inr n"
      using assms(2) unfolding v holds_append by (simp_all add: access_simps del: le_bytes.simps)
    then show ?thesis
      using True s by (cases "bit (Flags e) 0") (auto simp: value_half_def v IsNestedTree_def pn intro!: LeafEntry.equality simp del: le_bytes.simps)
  next
    case False
    then have t: "\<not> cellHasTrailerOnly (Flags e)" by (simp add: cellHasTrailerOnly_def)
    show ?thesis
    proof (cases "bit (Flags e) 3")
      case True
      then have "slice buf off off = Inr []" using assms(2) by (simp add: slice_def holds_def val_bytes_def field_def)
      then show ?thesis using True False s by (auto simp: value_half_def IsNestedTree_def val_bytes_def intro!: LeafEntry.equality)
    next
      case e3: False
      then have "slice buf off (off + length (Value e)) = Inr (Value e)"
        using assms(2) False by (intro holds_slice) (simp_all add: val_bytes_def)
      then show ?thesis using assms(3) [OF t e3] e3 False s by (auto simp: value_half_def IsNestedTree_def val_bytes_def intro!: LeafEntry.equality)
    qed
  qed
qed

lemma decode_full:
  assumes "shape_ok e" "length (Key e) < 65536" "length (Value e) < 4294967296" "holds buf off (full_bytes e)"
  shows "decodeFullKeyEntry buf off = Inr (e, off + length (full_bytes e))"
proof -
  let ?k = "length (Key e)" and ?v = "length (vlen_bytes e)" and ?x = "length (ref_bytes e)"
  have h: "holds buf off [Flags e]" "holds buf (off + 1) (w16 (word_of_nat ?k))" "holds buf (off + 3) (vlen_bytes e)"
      "holds buf (off + 3 + ?v) (Key e)" "holds buf (off + 3 + ?v + ?k) (ref_bytes e)" "holds buf (off + 3 + ?v + ?k + ?x) (val_bytes e)"
    using assms(4) unfolding full_bytes_def holds_append by (simp_all add: add.assoc numeral_3_eq_3 del: le_bytes.simps)
  define wl where "wl = (\<not> cellHasTrailerOnly (Flags e) \<and> \<not> bit (Flags e) 3)"
  define vl where "vl = (if wl then Some (length (Value e)) else None)"
  have v: "(if wl then bind_res (u32_at buf (off + 3)) (\<lambda>v. Inr (Some (unat v), off + 7)) else Inr (None, off + 3)) = Inr (vl, off + 3 + ?v)"
  proof (cases wl)
    case True
    then have "vlen_bytes e = w32 (word_of_nat (length (Value e)))" by (auto simp: vlen_bytes_def wl_def)
    then have "u32_at buf (off + 3) = Inr (word_of_nat (length (Value e)))" "?v = 4" using h(3) by (simp_all add: access_simps del: le_bytes.simps)
    then show ?thesis using True assms(3) by (simp add: vl_def unat_len32)
  next
    case False
    then show ?thesis by (auto simp: vl_def entry_lengths wl_def)
  qed
  have k: "slice buf (off + 3 + ?v) (off + 3 + ?v + ?k) = Inr (Key e)" using h(4) by (rule holds_slice) simp
  define z where "z = e\<lparr>Value := [], OverflowPage := 0, TotalLen := 0, NestedRoot := 0, NestedCount := 0\<rparr>"
  have vh: "value_half buf z (off + 3 + ?v + ?k + ?x) vl = Inr (e, off + length (full_bytes e))"
    using value_half_reads [OF assms(1) h(6), of vl] by (simp add: z_def vl_def wl_def full_length add.assoc)
  note run = holds_u8 [OF h(1)] holds_u16 [OF h(2)] unat_len16 [OF assms(2)] flag_bits v [unfolded wl_def] k bind_res.simps prod.case
  show ?thesis
  proof (cases "bit (Flags e) 4")
    case True
    then have rb: "ref_bytes e = w64 (KeyExtPage e) @ w32 (KeyTotalLen e)" by (simp add: ref_bytes_def)
    have x: "u64_at buf (off + 3 + ?v + ?k) = Inr (KeyExtPage e)" "u32_at buf (off + 3 + ?v + ?k + 8) = Inr (KeyTotalLen e)"
      using h(5) unfolding rb holds_append by (simp_all add: access_simps del: le_bytes.simps)
    have "?x = 12" using True by (simp add: entry_lengths)
    moreover have "no_entry\<lparr>Flags := Flags e, Key := Key e, KeyExtPage := KeyExtPage e, KeyTotalLen := KeyTotalLen e\<rparr> = z"
      by (simp add: z_def no_entry_def)
    ultimately show ?thesis
      unfolding decodeFullKeyEntry_def Let_def
      by (simp only: run True if_True x bind_res.simps prod.case) (use vh in simp)
  next
    case False
    then have "?x = 0" "no_entry\<lparr>Flags := Flags e, Key := Key e\<rparr> = z" using assms(1) by (simp_all add: entry_lengths z_def no_entry_def shape_ok_def Let_def)
    then show ?thesis
      unfolding decodeFullKeyEntry_def Let_def
      by (simp only: run False if_False bind_res.simps prod.case) (use vh in simp)
  qed
qed

text \<open>A delta after a key that shares its first \<open>s\<close> bytes.\<close>

definition delta_after :: "bytes \<Rightarrow> nat \<Rightarrow> LeafEntry \<Rightarrow> bool" where
  "delta_after prev s e \<longleftrightarrow> \<not> bit (Flags e) 4 \<and> s \<le> length prev \<and> s \<le> length (Key e) \<and> take s prev = take s (Key e)"

lemma delta_parts:
  assumes "holds buf off (delta_bytes s e)"
  shows "holds buf off [Flags e]" "holds buf (off + 1) (w16 (word_of_nat s))" "holds buf (off + 3) (w16 (word_of_nat (length (Key e) - s)))"
    "holds buf (off + 5) (vlen_bytes e)" "holds buf (off + 5 + length (vlen_bytes e)) (drop s (Key e))"
    "holds buf (off + 5 + length (vlen_bytes e) + (length (Key e) - s)) (val_bytes e)"
  using assms unfolding delta_bytes_def holds_append by (simp_all add: add.assoc eval_nat_numeral del: le_bytes.simps)

lemma vlen_reads:
  assumes "holds buf p (vlen_bytes e)" "length (Value e) < 4294967296" "wl = (\<not> cellHasTrailerOnly (Flags e) \<and> \<not> bit (Flags e) 3)"
  shows "(if wl then bind_res (u32_at buf p) (\<lambda>v. Inr (Some (unat v), p + 4)) else Inr (None, p)) =
    Inr (if wl then Some (length (Value e)) else None, p + length (vlen_bytes e))"
proof (cases wl)
  case True
  then have "vlen_bytes e = w32 (word_of_nat (length (Value e)))" using assms(3) by (auto simp: vlen_bytes_def)
  then have "u32_at buf p = Inr (word_of_nat (length (Value e)))" "length (vlen_bytes e) = 4"
    using assms(1) by (simp_all add: access_simps del: le_bytes.simps)
  then show ?thesis using True assms(2) by (simp add: unat_len32)
qed (use assms(3) in \<open>auto simp: entry_lengths\<close>)

lemma decode_delta:
  assumes "shape_ok e" "length (Key e) < 65536" "length (Value e) < 4294967296" "delta_after prev s e" "holds buf off (delta_bytes s e)"
  shows "decodeDeltaEntry buf off prev = Inr (e, off + length (delta_bytes s e))"
proof -
  let ?u = "length (Key e) - s" and ?v = "length (vlen_bytes e)"
  note h = delta_parts [OF assms(5)]
  have s: "s < 65536" "?u < 65536" "s \<le> length prev" "s \<le> length (Key e)" using assms(2,4) by (auto simp: delta_after_def)
  have nt: "IsNestedTree (no_entry\<lparr>Flags := Flags e\<rparr>) = bit (Flags e) 2" using assms(1) by (auto simp: IsNestedTree_def shape_ok_def Let_def)
  define wl where "wl = (\<not> bit (Flags e) 0 \<and> \<not> bit (Flags e) 2 \<and> \<not> bit (Flags e) 3)"
  have v: "(if wl then bind_res (u32_at buf (off + 5)) (\<lambda>v. Inr (Some (unat v), off + 9)) else Inr (None, off + 5)) =
      Inr (if wl then Some (length (Value e)) else None, off + 5 + ?v)"
  proof -
    have n: "off + 9 = off + 5 + 4" by simp
    have "wl = (\<not> cellHasTrailerOnly (Flags e) \<and> \<not> bit (Flags e) 3)" by (auto simp: wl_def cellHasTrailerOnly_def)
    from vlen_reads [OF h(4) assms(3) this] show ?thesis unfolding n .
  qed
  have pre: "slice prev 0 s = Inr (take s (Key e))" using assms(4) s by (simp add: slice_def field_def delta_after_def)
  have suf: "slice buf (off + 5 + ?v) (off + 5 + ?v + ?u) = Inr (drop s (Key e))" using h(5) by (rule holds_slice) simp
  have z: "no_entry\<lparr>Flags := Flags e, Key := take s (Key e) @ drop s (Key e)\<rparr> = e\<lparr>Value := [], OverflowPage := 0, TotalLen := 0, NestedRoot := 0, NestedCount := 0\<rparr>"
    using assms(1,4) by (simp add: no_entry_def shape_ok_def Let_def delta_after_def)
  have "value_half buf (no_entry\<lparr>Flags := Flags e, Key := take s (Key e) @ drop s (Key e)\<rparr>) (off + 5 + ?v + ?u) (if wl then Some (length (Value e)) else None) =
      Inr (e, off + length (delta_bytes s e))"
    unfolding z using value_half_reads [OF assms(1) h(6)] by (simp add: wl_def cellHasTrailerOnly_def delta_length add.assoc)
  then show ?thesis
    unfolding decodeDeltaEntry_def Let_def
    by (simp only: holds_u8 [OF h(1)] holds_u16 [OF h(2)] holds_u16 [OF h(3)] bind_res.simps nt flag_bits unat_len16 [OF s(1)] unat_len16 [OF s(2)]
        v [unfolded wl_def] prod.case pre suf wl_def)
qed

lemma delta_header:
  assumes "length (Key e) < 65536" "length (Value e) < 4294967296" "s \<le> length (Key e)" "holds buf off (delta_bytes s e)"
  shows "deltaHeader buf off = Inr (Flags e, s, off + 5 + length (vlen_bytes e), length (Key e) - s, off + length (delta_bytes s e))"
    "slice buf (off + 5 + length (vlen_bytes e)) (off + 5 + length (vlen_bytes e) + (length (Key e) - s)) = Inr (drop s (Key e))"
proof -
  note h = delta_parts [OF assms(4)]
  have s: "s < 65536" "length (Key e) - s < 65536" using assms(1,3) by simp_all
  note run = holds_u8 [OF h(1)] holds_u16 [OF h(2)] holds_u16 [OF h(3)] bind_res.simps unat_len16 [OF s(1)] unat_len16 [OF s(2)] Let_def flag_bits
  show "deltaHeader buf off = Inr (Flags e, s, off + 5 + length (vlen_bytes e), length (Key e) - s, off + length (delta_bytes s e))"
  proof (cases "cellHasTrailerOnly (Flags e) \<or> bit (Flags e) 3")
    case True
    then show ?thesis unfolding deltaHeader_def by (simp only: run) (auto simp: delta_length entry_lengths)
  next
    case False
    then have "vlen_bytes e = w32 (word_of_nat (length (Value e)))" by (simp add: vlen_bytes_def)
    then have "u32_at buf (off + 5) = Inr (word_of_nat (length (Value e)))" using h(4) by (simp add: access_simps del: le_bytes.simps)
    then show ?thesis using False assms(2) unfolding deltaHeader_def by (simp only: run) (simp add: delta_length entry_lengths unat_len32)
  qed
  show "slice buf (off + 5 + length (vlen_bytes e)) (off + 5 + length (vlen_bytes e) + (length (Key e) - s)) = Inr (drop s (Key e))"
    using h(5) by (rule holds_slice) simp
qed

lemma value_half_agrees:
  "decodeDeltaValueHalf buf f p (p + n) = bind_res (value_half buf (no_entry\<lparr>Flags := f\<rparr>) p (Some n)) (\<lambda>(e, _). Inr e)"
  by (cases "u64_at buf p"; cases "u64_at buf (p + 8)"; cases "slice buf p p"; cases "slice buf p (p + n)")
    (simp_all add: decodeDeltaValueHalf_def value_half_def)

lemma delta_value_half:
  assumes "shape_ok e" "\<not> bit (Flags e) 4" "s \<le> length (Key e)" "holds buf off (delta_bytes s e)"
  shows "decodeDeltaValueHalf buf (Flags e) (off + 5 + length (vlen_bytes e) + (length (Key e) - s)) (off + length (delta_bytes s e)) = Inr (e\<lparr>Key := []\<rparr>)"
proof -
  define p where "p = off + 5 + length (vlen_bytes e) + (length (Key e) - s)"
  define e' where "e' = e\<lparr>Key := []\<rparr>"
  have vb: "val_bytes e' = val_bytes e" by (simp add: e'_def val_bytes_def)
  have h: "holds buf p (val_bytes e')" using delta_parts(6) [OF assms(4)] by (simp only: p_def vb)
  have n: "off + length (delta_bytes s e) = p + length (val_bytes e')" by (simp add: delta_length p_def vb)
  have "shape_ok e'" using assms(1) by (simp add: shape_ok_def e'_def)
  then have "value_half buf (e'\<lparr>Value := [], OverflowPage := 0, TotalLen := 0, NestedRoot := 0, NestedCount := 0\<rparr>) p (Some (length (val_bytes e'))) =
      Inr (e', p + length (val_bytes e'))"
    by (rule value_half_reads [OF _ h]) (simp add: entry_lengths)
  moreover have "e'\<lparr>Value := [], OverflowPage := 0, TotalLen := 0, NestedRoot := 0, NestedCount := 0\<rparr> = no_entry\<lparr>Flags := Flags e\<rparr>"
    using assms(1,2) by (simp add: e'_def no_entry_def shape_ok_def Let_def)
  ultimately show ?thesis unfolding n p_def [symmetric] value_half_agrees e'_def [symmetric] by simp
qed

section \<open>Writing\<close>

lemma put_seq_ok:
  assumes "off + length (concat (map chunk_bytes cs)) \<le> length buf"
  shows "put_seq buf off cs = Inr (overwrite buf off (concat (map chunk_bytes cs)), off + length (concat (map chunk_bytes cs)))"
  using assms
proof (induction cs arbitrary: buf off)
  case Nil
  then show ?case by (simp add: overwrite_def)
next
  case (Cons c cs)
  let ?b = "chunk_bytes c" and ?r = "concat (map chunk_bytes cs)"
  have l: "off + length ?b + length ?r \<le> length buf" using Cons.prems by simp
  have p: "put_chunk buf off c = Inr (overwrite buf off ?b)" using l by (cases c) (simp_all add: put_at_ok copy_at_ok)
  have "put_seq (overwrite buf off ?b) (off + length ?b) cs =
      Inr (overwrite (overwrite buf off ?b) (off + length ?b) ?r, off + length ?b + length ?r)"
    using l by (intro Cons.IH) simp
  moreover have "overwrite (overwrite buf off ?b) (off + length ?b) ?r = overwrite buf off (?b @ ?r)"
    using l by (intro overwrite_overwrite) simp
  ultimately show ?case by (simp add: p add.assoc)
qed

text \<open>The reference pair that \<open>AddEntry\<close> passes on.\<close>

definition ref_pair :: "LeafEntry \<Rightarrow> u64 \<times> u64" where
  "ref_pair e = (if bit (Flags e) 0 then (OverflowPage e, TotalLen e) else if bit (Flags e) 2 then (NestedRoot e, NestedCount e) else (0, 0))"

lemma chunks_bytes:
  assumes "shape_ok e"
  shows "concat (map chunk_bytes (value_chunks (Flags (stored e)) (Value e) (fst (ref_pair e)) (snd (ref_pair e)))) = val_bytes (stored e)"
    "concat (map chunk_bytes (ext_chunks (Flags (stored e)) (KeyExtPage e) (KeyTotalLen e))) = ref_bytes (stored e)"
    "concat (map chunk_bytes (vlen_chunks (Flags (stored e)) (Value e))) = vlen_bytes (stored e)"
  by (auto simp: value_chunks_def ext_chunks_def vlen_chunks_def val_bytes_def ref_bytes_def vlen_bytes_def cellHasTrailerOnly_def ref_pair_def
      simp del: le_bytes.simps)

lemma write_full:
  assumes "shape_ok e" "off + length (full_bytes (stored e)) \<le> length buf"
  shows "writeFullKeyEntry buf off (Flags e) (Key e) (Value e) (fst (ref_pair e)) (snd (ref_pair e)) (KeyExtPage e) (KeyTotalLen e) =
    Inr (overwrite buf off (full_bytes (stored e)), off + length (full_bytes (stored e)))"
proof -
  let ?f = "Flags (stored e)"
  let ?cs = "[Store [?f], Store (w16 (word_of_nat (length (Key e))))] @ vlen_chunks ?f (Value e) @ [Copy (Key e)] @
        ext_chunks ?f (KeyExtPage e) (KeyTotalLen e) @ value_chunks ?f (Value e) (fst (ref_pair e)) (snd (ref_pair e))"
  have "concat (map chunk_bytes ?cs) = full_bytes (stored e)"
    unfolding full_bytes_def map_append concat_append chunks_bytes [OF assms(1)] by (simp del: le_bytes.simps)
  then show ?thesis using put_seq_ok [of off ?cs buf] assms(2) by (simp only: writeFullKeyEntry_def effective_flags [OF assms(1)] bind_res.simps)
qed

lemma write_delta:
  assumes "shape_ok e" "s \<le> length (Key e)" "off + length (delta_bytes s (stored e)) \<le> length buf"
  shows "writeCompressedDeltaEntry buf off (Flags e) s (drop s (Key e)) (Value e) (fst (ref_pair e)) (snd (ref_pair e)) =
    Inr (overwrite buf off (delta_bytes s (stored e)), off + length (delta_bytes s (stored e)))"
proof -
  let ?f = "Flags (stored e)"
  let ?cs = "[Store [?f], Store (w16 (word_of_nat s)), Store (w16 (word_of_nat (length (drop s (Key e)))))] @ vlen_chunks ?f (Value e) @
        [Copy (drop s (Key e))] @ value_chunks ?f (Value e) (fst (ref_pair e)) (snd (ref_pair e))"
  have "concat (map chunk_bytes ?cs) = delta_bytes s (stored e)"
    unfolding delta_bytes_def map_append concat_append chunks_bytes [OF assms(1)] by (simp del: le_bytes.simps)
  then show ?thesis using put_seq_ok [of off ?cs buf] assms(3) by (simp only: writeCompressedDeltaEntry_def effective_flags [OF assms(1)] bind_res.simps)
qed

text \<open>The sizes the builder computes are those of the bytes written.\<close>

lemma entry_sizes:
  assumes "shape_ok e"
  shows "valuePartSize (Flags e) (Value e) = Inr (length (vlen_bytes (stored e)) + length (val_bytes (stored e)))"
    "1 + keyPartSize (Flags e) (Key e) + (length (vlen_bytes (stored e)) + length (val_bytes (stored e))) = length (full_bytes (stored e))"
    "s \<le> length (Key e) \<Longrightarrow> \<not> bit (Flags e) 4 \<Longrightarrow>
      1 + (2 + 2 + length (drop s (Key e))) + (length (vlen_bytes (stored e)) + length (val_bytes (stored e))) = length (delta_bytes s (stored e))"
  by (simp_all add: valuePartSize_def effective_flags [OF assms] keyPartSize_def full_length delta_length entry_lengths)

lemma AddEntry_addEntry:
  assumes "shape_ok e"
  shows "AddEntry b e = addEntry b (Key e) (Flags e) (Value e) (fst (ref_pair e)) (snd (ref_pair e)) (KeyExtPage e) (KeyTotalLen e)"
  using assms by (auto simp: AddEntry_def IsNestedTree_def ref_pair_def shape_ok_def Let_def)

end
