(* ===== verification/Leaf_Safe.thy ===== *)
theory Leaf_Safe
  imports Leaf_Valid Leaf_Codec Branch_Safe
begin

text \<open>
  Robustness of the leaf readers: validation itself never panics, and a page it accepts, whatever
  bytes it has, is searched without a panic. This theory covers the uncompressed and the interleaved
  layout; the segregated one follows in its own theory.
\<close>

declare push_bit_of_1 [simp del]

section \<open>Readers\<close>

text \<open>What \<open>NewLeafReader\<close> establishes of any page of the right size.\<close>

definition opened :: "Config \<Rightarrow> LeafReader \<Rightarrow> bool" where
  "opened cfg r \<longleftrightarrow> Validate cfg = None \<and> r_cfg r = cfg \<and> content_end cfg \<le> length (r_buf r) \<and> IsLeafType (r_variant r) \<and>
     (r_variant r = TypeLeafUncompressed \<longrightarrow> r_ucTableOff r = int (content_end cfg) - int (r_count r * 2)) \<and>
     (r_variant r \<noteq> TypeLeafUncompressed \<longrightarrow> r_rt r = newRestartTable (r_buf r) (restartCount (r_rt r)) (content_end cfg))"

lemma NewLeafReader_opened:
  assumes "NewLeafReader buf cfg = Inr r" "Validate cfg = None"
  shows "opened cfg r" "r_buf r = buf" "length buf = unat (PageSize cfg)"
proof -
  have l: "length buf = unat (PageSize cfg)" using assms by (simp add: NewLeafReader_def split: if_splits)
  obtain ty fl n ad where h: "read_header buf = Inr (ty, fl, n, ad)" using assms l by (cases "read_header buf") (auto simp: NewLeafReader_def)
  have run: "NewLeafReader buf cfg = Inr r" "must_validate cfg = Inr ()" using assms by simp_all
  have ce: "content_end cfg \<le> length buf" using page_bounds(2) [OF assms(2)] l by simp
  have t: "IsLeafType ty" using run l h by (simp add: NewLeafReader_def Let_def split: if_splits)
  have "r_cfg r = cfg \<and> r_buf r = buf \<and> r_variant r = ty \<and>
      (ty = TypeLeafUncompressed \<longrightarrow> r_ucTableOff r = int (content_end cfg) - int (r_count r * 2)) \<and>
      (ty \<noteq> TypeLeafUncompressed \<longrightarrow> r_rt r = newRestartTable buf (restartCount (r_rt r)) (content_end cfg))"
  proof (cases "ty = TypeLeafUncompressed")
    case True
    then show ?thesis using run l h t by (auto simp: NewLeafReader_def Let_def bind_res_Inr_iff ucOffsetEntrySize_def)
  next
    case False
    then show ?thesis using run l h t
      by (cases "ty = TypeLeafSegregated") (auto simp: NewLeafReader_def Let_def bind_res_Inr_iff newRestartTable_def)
  qed
  then show "opened cfg r" "r_buf r = buf" using assms(2) t ce by (simp_all add: opened_def)
  show "length buf = unat (PageSize cfg)" by (rule l)
qed

lemma NewLeafReader_no_panic:
  assumes "Validate cfg = None" "length buf = unat (PageSize cfg)" "read_header buf = Inr (ty, fl, n, ad)" "IsLeafType ty"
  shows "\<exists>r. NewLeafReader buf cfg = Inr r"
proof -
  have "4088 \<le> length buf" using page_bounds(1,2) [OF assms(1)] assms(2) by linarith
  then show ?thesis using assms by (simp add: NewLeafReader_def Let_def u16_at_def leaf_sizes)
qed

lemma reads_exist:
  "off + 1 \<le> length buf \<Longrightarrow> \<exists>x. u8_at buf off = Inr x" "off + 2 \<le> length buf \<Longrightarrow> \<exists>x. u16_at buf off = Inr x"
  "off + 4 \<le> length buf \<Longrightarrow> \<exists>x. u32_at buf off = Inr x" "off + 8 \<le> length buf \<Longrightarrow> \<exists>x. u64_at buf off = Inr x"
  "lo \<le> hi \<Longrightarrow> hi \<le> length buf \<Longrightarrow> \<exists>bs. slice buf lo hi = Inr bs \<and> length bs = hi - lo"
  by (auto simp: u8_at_def u16_at_def u32_at_def u64_at_def slice_def field_def)

lemma ensure_ok: "ensureBytes r off n = Inr u \<longleftrightarrow> 12 \<le> off \<and> off + n \<le> r_dataEnd r"
  by (simp add: ensureBytes_def leaf_sizes)

lemma ensure_no_panic [simp]: "\<not> panics (ensureBytes r off n)" "\<not> panics (segEnsureStream r off n)" "\<not> panics (validateCellFlagsCombo f)"
  by (simp_all add: ensureBytes_def segEnsureStream_def validateCellFlagsCombo_def)

lemma combo_ok:
  assumes "validateCellFlagsCombo f = Inr u"
  shows "\<not> (bit f 0 \<and> bit f 1)" "bit f 2 \<longrightarrow> bit f 1" "bit f 3 \<longrightarrow> \<not> bit f 0 \<and> \<not> bit f 1 \<and> \<not> bit f 2"
proof -
  show "\<not> (bit f 0 \<and> bit f 1)" "bit f 2 \<longrightarrow> bit f 1" using assms by (auto simp: validateCellFlagsCombo_def split: if_splits)
  show "bit f 3 \<longrightarrow> \<not> bit f 0 \<and> \<not> bit f 1 \<and> \<not> bit f 2"
  proof
    assume "bit f 3"
    then have z: "f AND NOT (CellFlagEmptyValue OR CellFlagOverflowKey) = 0" using assms by (auto simp: validateCellFlagsCombo_def split: if_splits)
    have "\<not> bit f n" if "n < 3" for n
    proof
      assume "bit f n"
      moreover have "\<not> bit CellFlagEmptyValue n" "\<not> bit CellFlagOverflowKey n" using that by (auto simp: bit_flag_consts)
      moreover have "n < 8" using that by simp
      ultimately have "bit (f AND NOT (CellFlagEmptyValue OR CellFlagOverflowKey)) n" by (simp add: bit_and_iff bit_or_iff bit_not_iff)
      then show False using z by simp
    qed
    then show "\<not> bit f 0 \<and> \<not> bit f 1 \<and> \<not> bit f 2" by simp
  qed
qed

section \<open>Entries\<close>

lemma validateKeyExt_no_panic: "extOff + 12 \<le> length (r_buf r) \<or> \<not> bit flags 4 \<Longrightarrow> \<not> panics (validateKeyExt r flags extOff n)"
  by (auto simp: validateKeyExt_def panics_bind u64_at_def u32_at_def)

lemma validateFull_no_panic:
  assumes "r_dataEnd r \<le> length (r_buf r)"
  shows "\<not> panics (validateFullKeyEntry r off)"
  unfolding validateFullKeyEntry_def Let_def
  using assms by (auto simp: panics_bind ensure_ok u8_at_def u16_at_def u32_at_def intro!: validateKeyExt_no_panic split: if_splits)

lemma validateDelta_no_panic:
  assumes "r_dataEnd r \<le> length (r_buf r)"
  shows "\<not> panics (validateDeltaEntry r off n)"
  unfolding validateDeltaEntry_def Let_def
  using assms by (auto simp: panics_bind ensure_ok u8_at_def u16_at_def u32_at_def split: if_splits)

lemma full_resident: "validateFullKeyEntry r off = Inr (next, keyLen, flags) \<Longrightarrow> bit flags 4 \<Longrightarrow> keyLen = inline_max (r_cfg r)"
  unfolding validateFullKeyEntry_def Let_def by (auto simp: bind_res_Inr_iff split: if_splits)

text \<open>The checked decoders accept only what the unchecked ones decode, and they agree on where the entry ends.\<close>

lemma full_decodes:
  assumes "validateFullKeyEntry r off = Inr (next, keyLen, flags)" "r_dataEnd r \<le> length (r_buf r)"
  shows "\<exists>e. decodeFullKeyEntry (r_buf r) off = Inr (e, next)" "next \<le> r_dataEnd r" "12 \<le> off"
    "\<And>e x. decodeFullKeyEntry (r_buf r) off = Inr (e, x) \<Longrightarrow> length (Key e) = keyLen \<and> Flags e = flags \<and> x = next"
proof -
  let ?b = "r_buf r"
  obtain kl where f: "u8_at ?b off = Inr flags" "validateCellFlagsCombo flags = Inr ()" "12 \<le> off" "off + 3 \<le> r_dataEnd r"
      "u16_at ?b (off + 1) = Inr kl" "keyLen = unat kl"
    using assms(1) unfolding validateFullKeyEntry_def Let_def by (auto simp: bind_res_Inr_iff ensure_ok split: if_splits)
  define tail where "tail = (if bit flags 4 then 12 else 0 :: nat)"
  note c = combo_ok [OF f(2)]
  show off: "12 \<le> off" by (rule f(3))
  define p v where pv: "p = (if cellHasTrailerOnly flags \<or> bit flags 3 then off + 3 else off + 7)"
    "v = (if cellHasTrailerOnly flags then 16 else if bit flags 3 then 0 else unat (Uint32 ?b (off + 3)))"
  have e: "next = p + keyLen + tail + v" "next \<le> r_dataEnd r" and wl: "cellHasTrailerOnly flags \<or> bit flags 3 \<or> off + 7 \<le> length ?b"
    using assms f unfolding validateFullKeyEntry_def Let_def
    by (auto simp: bind_res_Inr_iff ensure_ok pv tail_def u32_at_def split: if_splits)
  show "next \<le> r_dataEnd r" by (rule e(2))
  have len: "p + keyLen + tail + v \<le> length ?b" using e assms(2) by linarith
  let ?vl = "if cellHasTrailerOnly flags \<or> bit flags 3 then None else Some v"
  have w: "(if \<not> cellHasTrailerOnly flags \<and> \<not> bit flags 3 then bind_res (u32_at ?b (off + 3)) (\<lambda>v. Inr (Some (unat v), off + 7))
      else Inr (None, off + 3)) = Inr (?vl, p)"
    using wl by (auto simp: pv u32_at_def)
  obtain key where k: "slice ?b p (p + keyLen) = Inr key" "length key = keyLen" using reads_exist(5) [of p "p + keyLen" ?b] len by auto
  have run: "decodeFullKeyEntry ?b off =
      (let e = no_entry\<lparr>Flags := flags, Key := key\<rparr> in
       if bit flags 4 then bind_res (u64_at ?b (p + keyLen)) (\<lambda>ext. bind_res (u32_at ?b (p + keyLen + 8)) (\<lambda>tot.
         value_half ?b (e\<lparr>KeyExtPage := ext, KeyTotalLen := tot\<rparr>) (p + keyLen + 12) ?vl))
       else value_half ?b e (p + keyLen) ?vl)"
    unfolding decodeFullKeyEntry_def Let_def by (simp only: f(1,5) bind_res.simps flag_bits w prod.case f(6) [symmetric] k(1))
  have vh: "\<exists>e'. value_half ?b e q ?vl = Inr (e', q + v) \<and> Key e' = Key e \<and> Flags e' = Flags e" if "Flags e = flags" "q + v \<le> length ?b" for e q
  proof -
    have t: "bit flags 0 \<or> IsNestedTree e \<longleftrightarrow> cellHasTrailerOnly flags" using c that(1) by (auto simp: IsNestedTree_def cellHasTrailerOnly_def)
    show ?thesis
    proof (cases "cellHasTrailerOnly flags")
      case True
      then have "v = 16" by (simp add: pv)
      then show ?thesis using t True that reads_exist(4) [of q ?b] reads_exist(4) [of "q + 8" ?b] by (auto simp: value_half_def)
    next
      case False
      then show ?thesis using t that reads_exist(5) [of q "q + v" ?b] by (auto simp: value_half_def pv(2))
    qed
  qed
  have "\<exists>e. decodeFullKeyEntry ?b off = Inr (e, next) \<and> length (Key e) = keyLen \<and> Flags e = flags"
  proof (cases "bit flags 4")
    case True
    then have "tail = 12" by (simp add: tail_def)
    then obtain ext tot where x: "u64_at ?b (p + keyLen) = Inr ext" "u32_at ?b (p + keyLen + 8) = Inr tot"
      using reads_exist(4) [of "p + keyLen" ?b] reads_exist(3) [of "p + keyLen + 8" ?b] len by auto
    show ?thesis
      unfolding run Let_def using True x \<open>tail = 12\<close> len e(1) k(2)
        vh [of "no_entry\<lparr>Flags := flags, Key := key, KeyExtPage := ext, KeyTotalLen := tot\<rparr>" "p + keyLen + 12"] by auto
  next
    case False
    then have "tail = 0" by (simp add: tail_def)
    then show ?thesis unfolding run Let_def using False len e(1) k(2) vh [of "no_entry\<lparr>Flags := flags, Key := key\<rparr>" "p + keyLen"] by auto
  qed
  then show "\<exists>e. decodeFullKeyEntry ?b off = Inr (e, next)"
    "\<And>e x. decodeFullKeyEntry ?b off = Inr (e, x) \<Longrightarrow> length (Key e) = keyLen \<and> Flags e = flags \<and> x = next" by auto
qed

lemma delta_decodes:
  assumes "validateDeltaEntry r off prevLen = Inr (next, keyLen)" "r_dataEnd r \<le> length (r_buf r)"
  shows "\<exists>flags s uo ul bs e. deltaHeader (r_buf r) off = Inr (flags, s, uo, ul, next) \<and> slice (r_buf r) uo (uo + ul) = Inr bs \<and>
    decodeDeltaValueHalf (r_buf r) flags (uo + ul) next = Inr e"
    "length prev = prevLen \<Longrightarrow> \<exists>e. decodeDeltaEntry (r_buf r) off prev = Inr (e, next) \<and> length (Key e) = keyLen"
proof -
  let ?b = "r_buf r"
  obtain flags sl ul where f: "u8_at ?b off = Inr flags" "validateCellFlagsCombo flags = Inr ()" "\<not> bit flags 4"
      "u16_at ?b (off + 1) = Inr sl" "u16_at ?b (off + 3) = Inr ul" "unat sl \<le> prevLen" "keyLen = unat sl + unat ul"
    using assms(1) unfolding validateDeltaEntry_def Let_def by (auto simp: bind_res_Inr_iff ensure_ok split: if_splits)
  note c = combo_ok [OF f(2)]
  define p v where pv: "p = (if cellHasTrailerOnly flags \<or> bit flags 3 then off + 5 else off + 9)"
    "v = (if cellHasTrailerOnly flags then 16 else if bit flags 3 then 0 else unat (Uint32 ?b (off + 5)))"
  have e: "next = p + unat ul + v" "next \<le> r_dataEnd r" and wl: "cellHasTrailerOnly flags \<or> bit flags 3 \<or> off + 9 \<le> length ?b"
    using assms f unfolding validateDeltaEntry_def Let_def
    by (auto simp: bind_res_Inr_iff ensure_ok pv u32_at_def split: if_splits)
  have len: "p + unat ul + v \<le> length ?b" using e assms(2) by linarith
  have h: "deltaHeader ?b off = Inr (flags, unat sl, p, unat ul, next)"
    unfolding deltaHeader_def Let_def using f(1,4,5) wl e(1) by (auto simp: pv u32_at_def)
  obtain bs where bs: "slice ?b p (p + unat ul) = Inr bs" "length bs = unat ul" using reads_exist(5) [of p "p + unat ul" ?b] len by auto
  have t: "bit flags 0 \<or> IsNestedTree e \<longleftrightarrow> cellHasTrailerOnly flags" if "Flags e = flags" for e
    using c that by (auto simp: IsNestedTree_def cellHasTrailerOnly_def)
  have "\<exists>e. decodeDeltaValueHalf ?b flags (p + unat ul) next = Inr e"
  proof (cases "cellHasTrailerOnly flags")
    case True
    then have "v = 16" by (simp add: pv)
    then show ?thesis using t [of "no_entry\<lparr>Flags := flags\<rparr>"] True len reads_exist(4) [of "p + unat ul" ?b] reads_exist(4) [of "p + unat ul + 8" ?b]
      by (auto simp: decodeDeltaValueHalf_def Let_def)
  next
    case False
    then show ?thesis using t [of "no_entry\<lparr>Flags := flags\<rparr>"] len e(1) reads_exist(5) [of "p + unat ul" "next" ?b] reads_exist(5) [of "p + unat ul" "p + unat ul" ?b]
      by (auto simp: decodeDeltaValueHalf_def Let_def)
  qed
  then show "\<exists>flags s uo ul bs e. deltaHeader ?b off = Inr (flags, s, uo, ul, next) \<and> slice ?b uo (uo + ul) = Inr bs \<and>
    decodeDeltaValueHalf ?b flags (uo + ul) next = Inr e" using h bs(1) by blast
  assume pl: "length prev = prevLen"
  obtain pre where pre: "slice prev 0 (unat sl) = Inr pre" "length pre = unat sl" using reads_exist(5) [of 0 "unat sl" prev] f(6) pl by auto
  let ?vl = "if cellHasTrailerOnly flags \<or> bit flags 3 then None else Some v" and ?e = "no_entry\<lparr>Flags := flags, Key := pre @ bs\<rparr>"
  have w: "(\<not> bit flags 0 \<and> \<not> IsNestedTree (no_entry\<lparr>Flags := flags\<rparr>) \<and> \<not> bit flags 3) = (\<not> (cellHasTrailerOnly flags \<or> bit flags 3))"
    using t [of "no_entry\<lparr>Flags := flags\<rparr>"] by auto
  have "(if \<not> (cellHasTrailerOnly flags \<or> bit flags 3) then bind_res (u32_at ?b (off + 5)) (\<lambda>v. Inr (Some (unat v), off + 9)) else Inr (None, off + 5)) = Inr (?vl, p)"
    using wl by (auto simp: pv u32_at_def)
  then have run: "decodeDeltaEntry ?b off prev = value_half ?b ?e (p + unat ul) ?vl"
    unfolding decodeDeltaEntry_def Let_def flag_bits by (simp only: f(1,4,5) bind_res.simps flag_bits w prod.case pre(1) bs(1))
  show "\<exists>e. decodeDeltaEntry ?b off prev = Inr (e, next) \<and> length (Key e) = keyLen"
  proof (cases "cellHasTrailerOnly flags")
    case True
    then have "v = 16" by (simp add: pv)
    then show ?thesis unfolding run e(1)
      using t [of ?e] True len reads_exist(4) [of "p + unat ul" ?b] reads_exist(4) [of "p + unat ul + 8" ?b] pre(2) bs(2) f(7) by (auto simp: value_half_def)
  next
    case False
    then show ?thesis unfolding run e(1)
      using t [of ?e] len reads_exist(5) [of "p + unat ul" "p + unat ul + v" ?b] pre(2) bs(2) f(7) by (auto simp: value_half_def pv(2))
  qed
qed

section \<open>Tables and walks\<close>

lemma table_entry_ok:
  assumes "opened cfg r" "r_variant r \<noteq> TypeLeafUncompressed" "restartCount (r_rt r) * 4 \<le> content_end cfg" "g < restartCount (r_rt r)"
  shows "\<exists>c. rt_GroupEntryCount (r_rt r) (int g) = Inr c" "\<exists>x. rt_Offset (r_rt r) (int g) = Inr x"
proof -
  define rc where "rc = restartCount (r_rt r)"
  define k where "k = content_end cfg - rc * 4 + g * 4"
  have t: "r_rt r = newRestartTable (r_buf r) rc (content_end cfg)" "content_end cfg \<le> length (r_buf r)"
    using assms(1,2) unfolding rc_def opened_def by blast+
  have off: "tableOff (r_rt r) + int g * int restartTableEntrySize = int k" "rt_buf (r_rt r) = r_buf r"
    using assms(3) unfolding t(1) by (simp_all add: newRestartTable_def restartTableEntrySize_def k_def rc_def)
  have in_buf: "k + 4 \<le> length (r_buf r)" using assms(3,4) t(2) by (simp add: k_def rc_def)
  have n: "nat (int k + 2) = k + 2" by linarith
  show "\<exists>c. rt_GroupEntryCount (r_rt r) (int g) = Inr c"
    unfolding rt_GroupEntryCount_def off using in_buf by (simp add: at_off_def n u8_at_def)
  show "\<exists>x. rt_Offset (r_rt r) (int g) = Inr x"
    unfolding rt_Offset_def off using in_buf by (simp add: at_off_def u16_at_def)
qed

lemma uc_offset_ok:
  assumes "opened cfg r" "r_variant r = TypeLeafUncompressed" "r_count r * 2 \<le> content_end cfg" "i < r_count r"
  shows "\<exists>x. ucOffset r i = Inr x"
proof -
  define k where "k = content_end cfg - r_count r * 2 + i * 2"
  have "r_ucTableOff r + int (i * ucOffsetEntrySize) = int k" using assms by (simp add: opened_def ucOffsetEntrySize_def k_def)
  moreover have "k + 2 \<le> length (r_buf r)"
  proof -
    have "content_end cfg \<le> length (r_buf r)" using assms(1) by (simp add: opened_def)
    then show ?thesis using assms(3,4) unfolding k_def by linarith
  qed
  ultimately show ?thesis by (simp add: ucOffset_def at_off_def u16_at_def)
qed

lemma sum_groups_no_panic:
  "(\<forall>g \<in> set gs. \<exists>c. rt_GroupEntryCount (r_rt r) (int g) = Inr c) \<Longrightarrow> \<not> panics (sum_groups r gs acc)"
  by (induction gs arbitrary: acc) (auto simp: panics_bind)

lemma sum_counts_ok: "(\<forall>g \<in> set gs. \<exists>c. rt_GroupEntryCount rt (int g) = Inr c) \<Longrightarrow> \<exists>n. sum_counts rt gs = Inr n"
proof (induction gs)
  case (Cons g gs)
  then obtain c n where "rt_GroupEntryCount rt (int g) = Inr c" "sum_counts rt gs = Inr n" by auto
  then show ?case by simp
qed simp

lemma uc_walk_no_panic:
  assumes "r_dataEnd r \<le> length (r_buf r)" "\<forall>i \<in> set is. \<exists>x. ucOffset r i = Inr x"
  shows "\<not> panics (uc_walk r is e)"
  using assms(2)
proof (induction "is" arbitrary: e)
  case (Cons i "is")
  then show ?case using validateFull_no_panic [OF assms(1)] by (auto simp: panics_bind)
qed simp

lemma deltas_walk_no_panic: "r_dataEnd r \<le> length (r_buf r) \<Longrightarrow> \<not> panics (deltas_walk r n off k)"
  by (induction n arbitrary: off k) (auto simp: panics_bind validateDelta_no_panic)

lemma comp_walk_no_panic:
  assumes "r_dataEnd r \<le> length (r_buf r)"
    and "\<forall>g \<in> set gs. (\<exists>c. rt_GroupEntryCount (r_rt r) (int g) = Inr c) \<and> (\<exists>x. rt_Offset (r_rt r) (int g) = Inr x)"
  shows "\<not> panics (comp_walk r gs e)"
  using assms(2)
proof (induction gs arbitrary: e)
  case (Cons g gs)
  have "\<not> panics (group_walk r gc off)" for gc off
    using validateFull_no_panic [OF assms(1)] deltas_walk_no_panic [OF assms(1)] by (auto simp: group_walk_def panics_bind)
  then show ?case using Cons by (auto simp: panics_bind)
qed simp

text \<open>What a completed walk says of every entry and every group.\<close>

lemma uc_walk_entries:
  "uc_walk r is e = Inr e' \<Longrightarrow> i \<in> set is \<Longrightarrow> \<exists>off x. ucOffset r i = Inr off \<and> validateFullKeyEntry r off = Inr x"
  by (induction "is" arbitrary: e) (auto simp: bind_res_Inr_iff split: if_splits)

lemma comp_walk_groups:
  "comp_walk r gs e = Inr e' \<Longrightarrow> g \<in> set gs \<Longrightarrow>
    \<exists>gc off x. rt_GroupEntryCount (r_rt r) (int g) = Inr gc \<and> rt_Offset (r_rt r) (int g) = Inr off \<and> group_walk r gc off = Inr x"
  by (induction gs arbitrary: e) (auto simp: bind_res_Inr_iff split: if_splits)

lemma sum_groups_pos: "sum_groups r gs acc = Inr n \<Longrightarrow> g \<in> set gs \<Longrightarrow> \<exists>c. rt_GroupEntryCount (r_rt r) (int g) = Inr c \<and> 0 < c"
  by (induction gs arbitrary: acc) (auto simp: bind_res_Inr_iff split: if_splits)

section \<open>Lookup\<close>

lemma bsearch3_no_panic:
  "(\<And>i. i < n \<Longrightarrow> \<not> panics (cmp i)) \<Longrightarrow> hi \<le> n \<Longrightarrow> \<not> panics (bsearch3 cmp lo hi)"
proof (induction "hi - lo" arbitrary: lo hi rule: less_induct)
  case less
  show ?case
  proof (cases "lo < hi")
    case True
    let ?m = "lo + (hi - lo) div 2"
    have m: "lo \<le> ?m" "?m < hi" using True by auto
    have p: "\<not> panics (cmp ?m)" using less.prems m by simp
    have l: "\<not> panics (bsearch3 cmp lo ?m)" using less.hyps [of ?m lo] less.prems m by simp
    have r: "\<not> panics (bsearch3 cmp (?m + 1) hi)" using less.hyps [of hi "?m + 1"] less.prems m by simp
    have "bsearch3 cmp lo hi = bind_res (cmp ?m) (\<lambda>c. if c < 0 then bsearch3 cmp (?m + 1) hi else if c = 0 then Inr (?m, True) else bsearch3 cmp lo ?m)"
      using True by (subst bsearch3.simps) (simp add: Let_def split: sum.split)
    then show ?thesis using p l r by (simp add: panics_bind)
  qed (subst bsearch3.simps, simp)
qed

lemma bsearch3_range: "bsearch3 cmp lo hi = Inr (x, f) \<Longrightarrow> lo \<le> hi \<Longrightarrow> x \<le> hi \<and> (f \<longrightarrow> x < hi)"
proof (induction "hi - lo" arbitrary: lo hi rule: less_induct)
  case less
  show ?case
  proof (cases "lo < hi")
    case True
    let ?m = "lo + (hi - lo) div 2"
    have m: "lo \<le> ?m" "?m < hi" using True by auto
    obtain c where c: "cmp ?m = Inr c" using less.prems(1) True by (subst (asm) bsearch3.simps) (auto simp: Let_def split: sum.splits)
    have "(if c < 0 then bsearch3 cmp (?m + 1) hi else if c = 0 then Inr (?m, True) else bsearch3 cmp lo ?m) = Inr (x, f)"
      using less.prems(1) True c by (subst (asm) bsearch3.simps) (simp add: Let_def)
    then show ?thesis using less.hyps [of hi "?m + 1"] less.hyps [of ?m lo] m by (auto split: if_splits)
  next
    case False
    then show ?thesis using less.prems by (subst (asm) bsearch3.simps) auto
  qed
qed

lemma compare_no_panic:
  "(\<And>x y. t < length target \<Longrightarrow> \<not> panics (tail target x y)) \<Longrightarrow> (IsOverflowKey e \<longrightarrow> length (Key e) = t) \<Longrightarrow> \<not> panics (compareEntryKey e target tail)"
  by (auto simp: compareEntryKey_def Let_def panics_bind)

lemma skip_scan_no_panic:
  assumes "r_dataEnd r \<le> length (r_buf r)"
  shows "deltas_walk r n off k = Inr x \<Longrightarrow> \<not> panics (skip_scan (r_buf r) target n idx off kcpl)"
proof (induction n arbitrary: off k idx kcpl)
  case (Suc n)
  obtain nx kl where v: "validateDeltaEntry r off k = Inr (nx, kl)" "deltas_walk r n nx kl = Inr x"
    using Suc.prems by (auto simp: bind_res_Inr_iff)
  obtain flags s uo ul bs e where d: "deltaHeader (r_buf r) off = Inr (flags, s, uo, ul, nx)" "slice (r_buf r) uo (uo + ul) = Inr bs"
      "decodeDeltaValueHalf (r_buf r) flags (uo + ul) nx = Inr e"
    using delta_decodes(1) [OF v(1) assms] by blast
  show ?case using Suc.IH [OF v(2)] d by (simp add: Let_def panics_bind)
qed simp

text \<open>Validation of the two layouts with interleaved values, taken apart.\<close>

lemma opened_not_seg:
  assumes "opened cfg r" "\<not> is_seg r" "ValidateLeaf r = Inr ()"
  shows "r_dataEnd r \<le> length (r_buf r)"
    "is_uc r \<Longrightarrow> r_count r \<noteq> 0 \<Longrightarrow> \<exists>e. uc_walk r [0..<r_count r] 12 = Inr e"
    "\<not> is_uc r \<Longrightarrow> r_count r \<noteq> 0 \<Longrightarrow> restartCount (r_rt r) * 4 \<le> content_end cfg \<and>
       (\<exists>n e. sum_groups r [0..<restartCount (r_rt r)] 0 = Inr n \<and> comp_walk r [0..<restartCount (r_rt r)] 12 = Inr e)"
proof -
  have c: "r_cfg r = cfg" "content_end cfg \<le> length (r_buf r)" "\<not> is_uc r \<Longrightarrow> r_variant r = TypeLeaf"
    using assms(1,2) by (auto simp: opened_def IsLeafType_def is_seg_def is_uc_def)
  have d: "r_dataEnd r \<le> content_end cfg" using assms(2,3) c(1) by (simp add: ValidateLeaf_def Let_def split: if_splits)
  then show "r_dataEnd r \<le> length (r_buf r)" using c(2) by linarith
  show "\<exists>e. uc_walk r [0..<r_count r] 12 = Inr e" if "is_uc r" "r_count r \<noteq> 0"
    using assms(2,3) that unfolding ValidateLeaf_def Let_def leaf_sizes
    by (cases "uc_walk r [0..<r_count r] 12") (auto simp: bind_res_Inr_iff split: if_splits)
  show "restartCount (r_rt r) * 4 \<le> content_end cfg \<and>
      (\<exists>n e. sum_groups r [0..<restartCount (r_rt r)] 0 = Inr n \<and> comp_walk r [0..<restartCount (r_rt r)] 12 = Inr e)"
    if "\<not> is_uc r" "r_count r \<noteq> 0"
    using assms(2,3) that c(1) c(3) [OF that(1)] unfolding ValidateLeaf_def Let_def leaf_sizes
    by (cases "comp_walk r [0..<restartCount (r_rt r)] 12"; cases "sum_groups r [0..<restartCount (r_rt r)] 0")
      (auto simp: bind_res_Inr_iff split: if_splits)
qed

lemma uc_search_no_panic:
  assumes "opened cfg r" "is_uc r" "ValidateLeaf r = Inr ()" "r_count r \<noteq> 0"
    and "\<And>x y. inline_max cfg < length target \<Longrightarrow> \<not> panics (tail target x y)"
  shows "\<not> panics (ucSearchLeaf r target tail)"
proof -
  have s: "\<not> is_seg r" using assms(2) by (simp add: is_seg_def is_uc_def page_types)
  note v = opened_not_seg [OF assms(1) s assms(3)]
  obtain e where w: "uc_walk r [0..<r_count r] 12 = Inr e" using v(2) assms(2,4) by blast
  have cf: "r_cfg r = cfg" using assms(1) by (simp add: opened_def)
  have entry: "\<not> panics (uc_entry r i) \<and> (\<forall>e. uc_entry r i = Inr e \<longrightarrow> \<not> panics (compareEntryKey e target tail))" if i: "i < r_count r" for i
  proof -
    obtain off nx kl fl where o: "ucOffset r i = Inr off" "validateFullKeyEntry r off = Inr (nx, kl, fl)"
      using uc_walk_entries [OF w, of i] i by (auto simp: prod_eq_iff)
    obtain x where x: "decodeFullKeyEntry (r_buf r) off = Inr (x, nx)" using full_decodes(1) [OF o(2) v(1)] by blast
    have "IsOverflowKey x \<longrightarrow> length (Key x) = inline_max cfg"
      using full_decodes(4) [OF o(2) v(1) x] full_resident [OF o(2)] cf by (auto simp: IsOverflowKey_def)
    then have "\<not> panics (compareEntryKey x target tail)" using compare_no_panic [of "inline_max cfg" target tail x] assms(5) by blast
    then show ?thesis using x o(1) by (simp add: uc_entry_def)
  qed
  have "\<not> panics (bsearch3 (\<lambda>mid. bind_res (uc_entry r mid) (\<lambda>e. compareEntryKey e target tail)) 0 (r_count r))"
    using entry by (intro bsearch3_no_panic [of "r_count r"]) (auto simp: panics_bind)
  moreover have "\<not> panics (uc_entry r i)" if "bsearch3 (\<lambda>mid. bind_res (uc_entry r mid) (\<lambda>e. compareEntryKey e target tail)) 0 (r_count r) = Inr (i, True)" for i
    using bsearch3_range [OF that] entry by simp
  ultimately show ?thesis by (auto simp: ucSearchLeaf_def panics_bind)
qed

lemma comp_search_no_panic:
  assumes "opened cfg r" "\<not> is_uc r" "\<not> is_seg r" "ValidateLeaf r = Inr ()" "r_count r \<noteq> 0"
    and "\<And>x y. inline_max cfg < length target \<Longrightarrow> \<not> panics (tail target x y)"
  shows "\<not> panics (compressedSearchLeaf r target tail)"
proof -
  let ?rc = "restartCount (r_rt r)"
  note v = opened_not_seg [OF assms(1,3,4)]
  obtain n e where w: "sum_groups r [0..<?rc] 0 = Inr n" "comp_walk r [0..<?rc] 12 = Inr e" using v(3) assms(2,5) by blast
  have grp: "\<exists>gc re off nx. rt_GroupEntryCount (r_rt r) (int g) = Inr gc \<and> 0 < gc \<and> restart_entry r (int g) = Inr (re, off) \<and>
      deltas_walk r (gc - 1) off (length (Key re)) = Inr nx \<and> \<not> panics (compareEntryKey re target tail)" if g: "g < ?rc" for g
  proof -
    obtain gc o' x where c: "rt_GroupEntryCount (r_rt r) (int g) = Inr gc" "rt_Offset (r_rt r) (int g) = Inr o'" "group_walk r gc o' = Inr x"
      using comp_walk_groups [OF w(2), of g] g by auto
    have "0 < gc" using sum_groups_pos [OF w(1), of g] g c(1) by simp
    then obtain nx kl fl where f: "validateFullKeyEntry r o' = Inr (nx, kl, fl)" "deltas_walk r (gc - 1) nx kl = Inr x"
      using c(3) by (auto simp: group_walk_def bind_res_Inr_iff split: if_splits)
    obtain re where d: "decodeFullKeyEntry (r_buf r) o' = Inr (re, nx)" using full_decodes(1) [OF f(1) v(1)] by blast
    have "IsOverflowKey re \<longrightarrow> length (Key re) = inline_max cfg"
      using full_decodes(4) [OF f(1) v(1) d] full_resident [OF f(1)] assms(1) by (auto simp: IsOverflowKey_def opened_def)
    then have "\<not> panics (compareEntryKey re target tail)" using compare_no_panic [of "inline_max cfg" target tail re] assms(6) by blast
    then show ?thesis using c(1,2) \<open>0 < gc\<close> d f(2) full_decodes(4) [OF f(1) v(1) d] by (simp add: restart_entry_def)
  qed
  have counts: "\<exists>m. rt_GroupStartIndex (r_rt r) i = Inr m" if "i \<le> ?rc" for i
    unfolding rt_GroupStartIndex_def using that by (intro sum_counts_ok) (metis atLeastLessThan_iff atLeastLessThan_upt grp less_le_trans)
  have probe: "\<not> panics (bind_res (restart_entry r (int i)) (\<lambda>(e, _). compareEntryKey e target tail))" if "i < ?rc" for i
    using grp [OF that] by (auto simp: panics_bind)
  let ?bs = "bsearch3 (\<lambda>mid. bind_res (restart_entry r (int mid)) (\<lambda>(e, _). compareEntryKey e target tail)) 0 ?rc"
  have b: "\<not> panics ?bs" using probe by (intro bsearch3_no_panic [of ?rc]) auto
  have after: "\<not> panics (if found then
       bind_res (restart_entry r (int lo)) (\<lambda>(e, _).
       bind_res (rt_GroupStartIndex (r_rt r) lo) (\<lambda>idx. Inr (idx, e\<lparr>Key := []\<rparr>, True)))
     else if lo = 0 then Inr (0, no_entry, False)
     else
       bind_res (rt_GroupStartIndex (r_rt r) (lo - 1)) (\<lambda>startIdx.
       bind_res (rt_GroupEntryCount (r_rt r) (int lo - 1)) (\<lambda>gc.
       bind_res (restart_entry r (int lo - 1)) (\<lambda>(re, off).
       if gc = 0 then Inr (startIdx, no_entry, False)
       else skip_scan (r_buf r) target (gc - 1) (startIdx + 1) off (sharedPrefixLen (Key re) target)))))"
    if bs: "?bs = Inr (lo, found)" for lo found
  proof -
    have lo: "lo \<le> ?rc" "found \<Longrightarrow> lo < ?rc" using bsearch3_range [OF bs] by auto
    consider "found" | "\<not> found" "lo = 0" | g where "\<not> found" "lo = Suc g" by (cases lo) auto
    then show ?thesis
    proof cases
      case 1
      then show ?thesis using grp [OF lo(2)] counts [of lo] lo by (auto simp: panics_bind)
    next
      case 3
      have g: "g < ?rc" "int lo - 1 = int g" "lo - 1 = g" using lo(1) 3 by auto
      obtain gc re off nx where q: "rt_GroupEntryCount (r_rt r) (int g) = Inr gc" "restart_entry r (int g) = Inr (re, off)"
          "deltas_walk r (gc - 1) off (length (Key re)) = Inr nx" using grp [OF g(1)] by blast
      obtain m where m: "rt_GroupStartIndex (r_rt r) g = Inr m" using counts [of g] g(1) by auto
      show ?thesis unfolding g(2,3) q(1,2) m bind_res.simps prod.case
        using 3 skip_scan_no_panic [OF v(1) q(3)] by simp
    qed simp
  qed
  show ?thesis unfolding compressedSearchLeaf_def panics_bind using b after by (auto simp del: bind_res.simps)
qed

lemma leaf_validate_no_panic:
  assumes "opened cfg r" "\<not> is_seg r"
  shows "\<not> panics (ValidateLeaf r)"
proof -
  have c: "r_cfg r = cfg" "content_end cfg \<le> length (r_buf r)" "r_variant r = TypeLeaf \<or> r_variant r = TypeLeafUncompressed"
    using assms by (auto simp: opened_def IsLeafType_def is_seg_def)
  show ?thesis
  proof (cases "r_dataEnd r < 12 \<or> r_dataEnd r > content_end cfg")
    case True
    then show ?thesis using assms(2) c(1) unfolding ValidateLeaf_def Let_def leaf_sizes by (simp split: if_splits)
  next
    case False
    then have d: "r_dataEnd r \<le> length (r_buf r)" using c(2) by linarith
    show ?thesis
    proof (cases "r_variant r = TypeLeaf")
      case True
      have t: "r_variant r \<noteq> TypeLeafUncompressed" "\<not> is_uc r" using True by (simp_all add: page_types is_uc_def)
      have g: "(\<exists>c. rt_GroupEntryCount (r_rt r) (int g) = Inr c) \<and> (\<exists>x. rt_Offset (r_rt r) (int g) = Inr x)"
        if "r_dataEnd r + restartCount (r_rt r) * 4 \<le> content_end cfg" "g < restartCount (r_rt r)" for g
        using table_entry_ok [OF assms(1) t(1), of g] that by simp
      show ?thesis unfolding ValidateLeaf_def Let_def leaf_sizes
        using assms(2) True t c(1) sum_groups_no_panic [of _ r] comp_walk_no_panic [OF d] g
        by (auto simp: panics_bind not_less simp del: panics.simps(4) split: if_splits)
    next
      case False
      then have u: "r_variant r = TypeLeafUncompressed" "is_uc r" using c(3) by (simp_all add: is_uc_def)
      have o: "\<exists>x. ucOffset r i = Inr x" if "r_dataEnd r + r_count r * 2 \<le> content_end cfg" "i < r_count r" for i
        using uc_offset_ok [OF assms(1) u(1), of i] that by simp
      show ?thesis unfolding ValidateLeaf_def Let_def leaf_sizes
        using assms(2) False u c(1) uc_walk_no_panic [OF d] o by (auto simp: panics_bind not_less split: if_splits)
    qed
  qed
qed

end
