(* ===== verification/Leaf_Uc.thy ===== *)
theory Leaf_Uc
  imports Leaf_Codec
begin

text \<open>
  Uncompressed leaves: what the builder writes, and that the readers find every entry there. Also
  the vocabulary of all three variants: the full keys behind the entries and what a lookup returns.
\<close>

section \<open>Entries and full keys\<close>

definition entry_ok :: "Config \<Rightarrow> LeafEntry \<Rightarrow> bool" where
  "entry_ok cfg e \<longleftrightarrow> shape_ok e \<and> key_ok (inline_max cfg) e"

text \<open>The full key of an entry: an overflow key extends the resident bytes.\<close>

definition full_key :: "LeafEntry \<Rightarrow> bytes \<Rightarrow> bool" where
  "full_key e k \<longleftrightarrow>
     (if IsOverflowKey e then length k = unat (KeyTotalLen e) \<and> take (length (Key e)) k = Key e \<and> length (Key e) < length k else k = Key e)"

definition tail_reads :: "TailCompare \<Rightarrow> bytes \<Rightarrow> LeafEntry \<Rightarrow> bytes \<Rightarrow> bool" where
  "tail_reads tail target e k \<longleftrightarrow>
     (IsOverflowKey e \<and> length (Key e) < length target \<and> take (length (Key e)) target = Key e \<longrightarrow>
      tail target (KeyExtPage e) (KeyTotalLen e) = Inr (Compare target k))"

lemma full_key_stored [simp]: "full_key (stored e) k = full_key e k" by (simp add: full_key_def)
lemma tail_reads_stored [simp]: "tail_reads tail target (stored e) k = tail_reads tail target e k" by (simp add: tail_reads_def)

lemma compareEntryKey_full:
  assumes "full_key e k" "tail_reads tail target e k"
  shows "compareEntryKey e target tail = Inr (Compare k target)"
proof (cases "IsOverflowKey e")
  case False
  then show ?thesis using assms(1) by (simp add: compareEntryKey_def full_key_def)
next
  case True
  let ?t = "length (Key e)"
  define m where "m = min (length target) ?t"
  have k: "take ?t k = Key e" "?t < length k" using assms(1) True by (simp_all add: full_key_def)
  have km: "take m (Key e) = take m k" using k(1) by (metis m_def min.cobounded2 min_absorb1 take_take)
  have ml: "m \<le> length k" "m \<le> length target" using k(2) by (simp_all add: m_def)
  show ?thesis
  proof (cases "take m k = take m target")
    case False
    then have "Compare (take m k) (take m target) = Compare k target"
      using less_diff_take [OF False ml] less_diff_take [OF False [symmetric] ml(2,1)] False by (auto simp: Compare_def)
    moreover have "Compare (take m k) (take m target) \<noteq> 0" using False by simp
    ultimately show ?thesis using True False by (simp add: compareEntryKey_def Let_def m_def [symmetric] km)
  next
    case tie: True
    show ?thesis
    proof (cases "length target \<le> ?t")
      case le: True
      then have m: "m = length target" by (simp add: m_def)
      then have "k = target @ drop m k" using tie by (metis append_take_drop_id order_refl take_all)
      moreover have "drop m k \<noteq> []" using m le k(2) by simp
      ultimately have "target < k" using append_less [of "drop m k" target] by simp
      then show ?thesis using True tie le by (simp add: compareEntryKey_def Let_def m_def [symmetric] km) (auto simp: Compare_def)
    next
      case False
      then have "m = ?t" by (simp add: m_def)
      then have "take ?t target = Key e" using tie k(1) by simp
      then have "tail target (KeyExtPage e) (KeyTotalLen e) = Inr (Compare target k)" using assms(2) True False by (simp add: tail_reads_def)
      then show ?thesis using True tie False by (simp add: compareEntryKey_def Let_def m_def [symmetric] km Compare_anti)
    qed
  qed
qed

text \<open>What a lookup returns: the position of the key, or where it would go.\<close>

definition found_at :: "LeafEntry list \<Rightarrow> bytes list \<Rightarrow> bytes \<Rightarrow> nat \<times> LeafEntry \<times> bool" where
  "found_at es keys target =
     (let i = rank keys target in if target \<in> set keys then (i, (es ! i)\<lparr>Key := []\<rparr>, True) else (i, no_entry, False))"

definition keys_of :: "LeafEntry list \<Rightarrow> bytes list \<Rightarrow> bool" where
  "keys_of es keys \<longleftrightarrow> length keys = length es \<and> sorted_wrt (<) keys \<and> (\<forall>i < length es. full_key (es ! i) (keys ! i))"

section \<open>Streams of chunks\<close>

definition stream_off :: "nat \<Rightarrow> bytes list \<Rightarrow> nat \<Rightarrow> nat" where
  "stream_off base bss i = base + sum_list (map length (take i bss))"

lemma holds_stream:
  assumes "holds buf base (concat bss)" "i < length bss"
  shows "holds buf (stream_off base bss i) (bss ! i)"
proof -
  have "concat bss = concat (take i bss) @ bss ! i @ concat (drop (Suc i) bss)"
    using assms(2) by (metis concat.simps(2) concat_append id_take_nth_drop)
  then show ?thesis using assms(1) by (simp add: holds_append stream_off_def length_concat)
qed

lemma stream_off_0 [simp]: "stream_off base bss 0 = base" by (simp add: stream_off_def)

lemma stream_off_Suc: "i < length bss \<Longrightarrow> stream_off base bss (Suc i) = stream_off base bss i + length (bss ! i)"
  by (simp add: stream_off_def take_Suc_conv_app_nth)

lemma stream_off_le: "stream_off base bss i \<le> base + length (concat bss)"
  using take_sum_le [of i "map length bss"] by (simp add: stream_off_def length_concat take_map)

lemma stream_off_end: "stream_off base bss (length bss) = base + length (concat bss)"
  by (simp add: stream_off_def length_concat)

lemma stream_off_append [simp]: "i \<le> length bss \<Longrightarrow> stream_off base (bss @ x) i = stream_off base bss i"
  by (simp add: stream_off_def)

section \<open>Layout\<close>

abbreviation full_list :: "LeafEntry list \<Rightarrow> bytes list" where
  "full_list es \<equiv> map full_bytes es"

definition uc_layout :: "Config \<Rightarrow> LeafEntry list \<Rightarrow> bytes \<Rightarrow> bool" where
  "uc_layout cfg es buf \<longleftrightarrow> (let n = length es; ce = content_end cfg; e = 12 + length (concat (full_list es)) in
     length buf = unat (PageSize cfg) \<and> e + 2 * n \<le> ce \<and>
     holds buf 0 (header_bytes TypeLeafUncompressed (word_of_nat n) 0) \<and> holds buf 8 (w16 (word_of_nat e)) \<and>
     holds buf 12 (concat (full_list es)) \<and>
     (\<forall>i < n. holds buf (ce - 2 * n + 2 * i) (w16 (word_of_nat (stream_off 12 (full_list es) i)))))"

text \<open>The reader that \<open>NewLeafReader\<close> makes of such a page.\<close>

definition uc_reader :: "Config \<Rightarrow> LeafEntry list \<Rightarrow> bytes \<Rightarrow> LeafReader" where
  "uc_reader cfg es buf =
     \<lparr>r_buf = buf, r_cfg = cfg, r_count = length es, r_dataEnd = 12 + length (concat (full_list es)), r_variant = TypeLeafUncompressed,
       r_rt = \<lparr>rt_buf = [], restartCount = 0, tableOff = 0\<rparr>, r_valueEnd = 0,
       r_ucTableOff = int (content_end cfg) - int (length es * 2)\<rparr>"

lemma uc_NewLeafReader:
  assumes "uc_layout cfg es buf" "Validate cfg = None"
  shows "NewLeafReader buf cfg = Inr (uc_reader cfg es buf)"
proof -
  note L = assms(1) [unfolded uc_layout_def Let_def] and pb = page_bounds [OF assms(2)]
  have n: "length es < 65536" "12 + length (concat (full_list es)) < 65536" if "es \<noteq> []" using L pb that by (cases es; simp)+
  have n: "length es < 65536" "12 + length (concat (full_list es)) < 65536" using n by (cases "es = []"; simp)+
  have h: "read_header buf = Inr (TypeLeafUncompressed, 0, word_of_nat (length es), 0)" using L by (intro read_header_holds) blast
  have d: "u16_at buf 8 = Inr (word_of_nat (12 + length (concat (full_list es))))" using L by (intro holds_u16) blast
  have "length buf = unat (PageSize cfg)" using L by blast
  then show ?thesis
    unfolding NewLeafReader_def uc_reader_def leaf_sizes
    by (simp only: must_validate_ok [OF assms(2)] bind_res.simps h d prod.case Let_def IsLeafType_def not_True_eq_False simp_thms if_False if_True
        unat_len16 [OF n(1)] unat_len16 [OF n(2)])
qed

lemma entry_bounds:
  assumes "entry_ok cfg e" "Validate cfg = None"
  shows "length (Key e) < 65536"
  using assms page_bounds(6) [OF assms(2)] by (auto simp: entry_ok_def key_ok_def split: if_splits)

lemma val_bound: "shape_ok e \<Longrightarrow> length (Value e) \<le> length (val_bytes e)"
  by (auto simp: entry_lengths shape_ok_def Let_def cellHasTrailerOnly_def)

lemma uc_entry_reads:
  assumes "uc_layout cfg es buf" "Validate cfg = None" "\<forall>e \<in> set es. entry_ok cfg e" "i < length es"
  shows "uc_entry (uc_reader cfg es buf) i = Inr (es ! i)"
    "ucOffset (uc_reader cfg es buf) i = Inr (stream_off 12 (full_list es) i)"
proof -
  let ?o = "stream_off 12 (full_list es) i" and ?n = "length es" and ?ce = "content_end cfg"
  note L = assms(1) [unfolded uc_layout_def Let_def] and pb = page_bounds [OF assms(2)]
  have w: "entry_ok cfg (es ! i)" using assms(3,4) by simp
  have h: "holds buf ?o (full_bytes (es ! i))" using holds_stream [of buf 12 "full_list es" i] L assms(4) by simp
  have len: "?o + length (full_bytes (es ! i)) + 2 * ?n \<le> ?ce"
    using stream_off_le [of 12 "full_list es" "Suc i"] stream_off_Suc [of i "full_list es" 12] L assms(4) by simp
  have o: "?o < 65536" using len pb assms(4) by simp
  have "length (Value (es ! i)) < 4294967296"
    using val_bound [of "es ! i"] w len pb full_length [of "es ! i"] by (simp add: entry_ok_def)
  then have dec: "decodeFullKeyEntry buf ?o = Inr (es ! i, ?o + length (full_bytes (es ! i)))"
    using w entry_bounds [OF w assms(2)] h by (intro decode_full) (simp_all add: entry_ok_def)
  define k where "k = ?ce - 2 * ?n + 2 * i"
  have u: "u16_at buf k = Inr (word_of_nat ?o)" unfolding k_def using L assms(4) by (intro holds_u16) blast
  have t: "r_ucTableOff (uc_reader cfg es buf) + int (i * 2) = int k" using len by (simp add: k_def uc_reader_def of_nat_diff)
  show off: "ucOffset (uc_reader cfg es buf) i = Inr ?o"
    unfolding ucOffset_def ucOffsetEntrySize_def t using u by (simp add: at_off_def uc_reader_def unat_len16 [OF o])
  show "uc_entry (uc_reader cfg es buf) i = Inr (es ! i)" using off dec by (simp add: uc_entry_def uc_reader_def)
qed

section \<open>Lookup\<close>

lemma uc_search:
  assumes "uc_layout cfg es buf" "Validate cfg = None" "\<forall>e \<in> set es. entry_ok cfg e" "keys_of es keys"
    and "\<forall>i < length es. tail_reads tail target (es ! i) (keys ! i)"
  shows "SearchLeaf (uc_reader cfg es buf) target tail = Inr (found_at es keys target)"
proof (cases "es = []")
  case True
  then show ?thesis using assms(4) by (simp add: SearchLeaf_def uc_reader_def found_at_def keys_of_def rank_def)
next
  case False
  let ?r = "uc_reader cfg es buf"
  have k: "length keys = length es" "sorted_wrt (<) keys" using assms(4) by (simp_all add: keys_of_def)
  have "bind_res (uc_entry ?r i) (\<lambda>e. compareEntryKey e target tail) = Inr (Compare (keys ! i) target)" if "i < length keys" for i
    using that uc_entry_reads(1) [OF assms(1-3)] assms(4,5) k(1) by (simp add: compareEntryKey_full keys_of_def)
  from bs3.ranks [OF k(2) this]
  have b: "bsearch3 (\<lambda>mid. bind_res (uc_entry ?r mid) (\<lambda>e. compareEntryKey e target tail)) 0 (length keys) =
      Inr (rank keys target, target \<in> set keys)" and i: "target \<in> set keys \<Longrightarrow> rank keys target < length keys" by auto
  have "ucSearchLeaf ?r target tail = Inr (found_at es keys target)"
    using b i uc_entry_reads(1) [OF assms(1-3)] k(1) by (simp add: ucSearchLeaf_def found_at_def Let_def uc_reader_def)
  moreover have "r_count ?r \<noteq> 0" "r_variant ?r = TypeLeafUncompressed" using False by (simp_all add: uc_reader_def)
  ultimately show ?thesis by (simp add: SearchLeaf_def)
qed

lemma uc_EntryAt:
  assumes "uc_layout cfg es buf" "Validate cfg = None" "\<forall>e \<in> set es. entry_ok cfg e" "i < length es"
  shows "EntryAt (uc_reader cfg es buf) i = Inr (es ! i)"
  using uc_entry_reads(1) [OF assms] assms(4) by (simp add: EntryAt_def uc_reader_def)

section \<open>The builder\<close>

definition uc_built :: "Config \<Rightarrow> LeafEntry list \<Rightarrow> LeafBuilder \<Rightarrow> bool" where
  "uc_built cfg es b \<longleftrightarrow> (let e = 12 + length (concat (full_list es)) in
     b_variant b = TypeLeafUncompressed \<and> b_cfg b = cfg \<and> length (b_buf b) = unat (PageSize cfg) \<and> b_count b = length es \<and>
     b_dataPos b = e \<and> e + 2 * length es \<le> content_end cfg \<and> holds (b_buf b) 12 (concat (full_list es)) \<and>
     b_ucOffsets b = map (\<lambda>i. word_of_nat (stream_off 12 (full_list es) i)) [0..<length es])"

definition uc_need :: "LeafEntry list \<Rightarrow> nat" where
  "uc_need es = 12 + length (concat (full_list es)) + 2 * length es"

lemma uc_add:
  assumes "uc_built cfg es b" "shape_ok e" "Validate cfg = None"
  shows "\<exists>ok b'. addUCEntry b (Key e) (Flags e) (Value e) (fst (ref_pair e)) (snd (ref_pair e)) (KeyExtPage e) (KeyTotalLen e) = Inr (ok, b') \<and>
    (ok \<longrightarrow> uc_built cfg (es @ [stored e]) (b'\<lparr>b_lastAddedKey := x\<rparr>)) \<and> (\<not> ok \<longrightarrow> content_end cfg < uc_need (es @ [stored e]))"
proof -
  note B = assms(1) [unfolded uc_built_def Let_def] and sz = entry_sizes [OF assms(2)] and pb = page_bounds [OF assms(3)]
  let ?f = "full_bytes (stored e)" and ?p = "12 + length (concat (full_list es))"
  have size: "b_dataPos b + (1 + keyPartSize (Flags e) (Key e) + (length (vlen_bytes (stored e)) + length (val_bytes (stored e)))) +
      (b_count b + 1) * ucOffsetEntrySize = ?p + length ?f + 2 * length (es @ [stored e])"
    using B sz(2) by (simp add: ucOffsetEntrySize_def)
  show ?thesis
  proof (cases "?p + length ?f + 2 * length (es @ [stored e]) \<le> content_end cfg")
    case False
    then have "addUCEntry b (Key e) (Flags e) (Value e) (fst (ref_pair e)) (snd (ref_pair e)) (KeyExtPage e) (KeyTotalLen e) = Inr (False, b)"
      using B size sz(1) by (simp add: addUCEntry_def Let_def not_le)
    moreover have "content_end cfg < uc_need (es @ [stored e])" using False by (simp add: uc_need_def)
    ultimately show ?thesis by blast
  next
    case True
    have l: "?p + length ?f \<le> length (b_buf b)" using True B pb(2) by simp
    define buf where "buf = overwrite (b_buf b) ?p ?f"
    have "holds buf 12 (concat (full_list es))" unfolding buf_def using B l by (intro holds_other) auto
    moreover have "holds buf ?p ?f" unfolding buf_def using l by (rule holds_same)
    ultimately have h: "holds buf 12 (concat (full_list (es @ [stored e])))" by (simp add: holds_append)
    let ?b = "b\<lparr>b_buf := buf, b_ucOffsets := b_ucOffsets b @ [word_of_nat ?p], b_dataPos := ?p + length ?f, b_count := b_count b + 1\<rparr>"
    have "addUCEntry b (Key e) (Flags e) (Value e) (fst (ref_pair e)) (snd (ref_pair e)) (KeyExtPage e) (KeyTotalLen e) = Inr (True, ?b)"
      using B size sz(1) True write_full [OF assms(2) l] by (simp add: addUCEntry_def Let_def buf_def not_less)
    moreover have "uc_built cfg (es @ [stored e]) (?b\<lparr>b_lastAddedKey := x\<rparr>)"
      unfolding uc_built_def Let_def using B True h l
      by (simp add: buf_def stream_off_end [of 12 "full_list es", simplified] del: of_nat_add)
    ultimately show ?thesis by blast
  qed
qed

lemma put_u16s_ok:
  assumes "off + 2 * length vs \<le> length buf"
  shows "\<exists>b. put_u16s buf off vs = Inr b \<and> differs_in {off..<off + 2 * length vs} buf b \<and> (\<forall>i < length vs. holds b (off + 2 * i) (w16 (vs ! i)))"
  using assms
proof (induction vs arbitrary: off buf)
  case Nil
  then show ?case by simp
next
  case (Cons v vs)
  let ?b1 = "overwrite buf off (w16 v)"
  have p: "put_at buf off (w16 v) = Inr ?b1" using Cons.prems by (intro put_at_ok) (simp del: le_bytes.simps)
  have d1: "differs_in {off..<off + 2} buf ?b1" using overwrite_differs [of off "w16 v" buf] Cons.prems by (simp del: le_bytes.simps)
  have h1: "holds ?b1 off (w16 v)" using Cons.prems by (intro holds_same) (simp del: le_bytes.simps)
  obtain b where b: "put_u16s ?b1 (off + 2) vs = Inr b" "differs_in {off + 2..<off + 2 + 2 * length vs} ?b1 b"
      "\<forall>i < length vs. holds b (off + 2 + 2 * i) (w16 (vs ! i))"
    using Cons.IH [of "off + 2" ?b1] Cons.prems by (auto simp del: le_bytes.simps)
  have "differs_in {off..<off + 2 * length (v # vs)} buf b"
    by (rule differs_trans [OF d1 b(2)]) auto
  moreover have "holds b off (w16 v)" by (rule differs_holds [OF b(2) h1]) (auto simp del: le_bytes.simps)
  moreover have "holds b (off + 2 * i) (w16 ((v # vs) ! i))" if "i < length (v # vs)" for i
    using that b(3) calculation(2) by (cases i) (auto simp: add.assoc simp del: le_bytes.simps)
  ultimately show ?case using p b(1) by (auto simp del: le_bytes.simps)
qed

lemma zeroFreeSpace_ok:
  assumes "hi \<le> int (length buf)"
  shows "\<exists>b. zeroFreeSpace buf lo hi = Inr b \<and> differs_in {lo..<nat hi} buf b"
proof (cases "int lo < hi")
  case True
  then have l: "lo + (nat hi - lo) \<le> length buf" using assms by linarith
  have "{lo..<lo + (nat hi - lo)} = {lo..<nat hi}" using True by auto
  then show ?thesis using True assms overwrite_differs [of lo "replicate (nat hi - lo) 0" buf] l by (auto simp: zeroFreeSpace_def)
qed (simp add: zeroFreeSpace_def)

lemma uc_finish:
  assumes "uc_built cfg es b" "Validate cfg = None"
  shows "\<exists>page. Finish b = Inr page \<and> uc_layout cfg es page"
proof -
  note B = assms(1) [unfolded uc_built_def Let_def] and pb = page_bounds [OF assms(2)]
  define n e ce where nec: "n = length es" "e = 12 + length (concat (full_list es))" "ce = content_end cfg"
  have fits: "e + 2 * n \<le> ce" "ce \<le> length (b_buf b)" "12 \<le> e" using B pb by (simp_all add: nec)
  have n16: "unat (word_of_nat n :: u16) = n" using fits pb by (intro unat_len16) (simp add: nec)
  obtain b1 where b1: "zeroFreeSpace (b_buf b) e (int ce - int (n * 2)) = Inr b1" "differs_in {e..<nat (int ce - int (n * 2))} (b_buf b) b1"
    using zeroFreeSpace_ok [of "int ce - int (n * 2)" "b_buf b" e] fits by auto
  have l1: "length b1 = length (b_buf b)" using differs_len [OF b1(2)] .
  obtain b2 where b2: "write_header b1 TypeLeafUncompressed (word_of_nat n) 0 = Inr b2" "differs_in {0..<8} b1 b2"
      "holds b2 0 (header_bytes TypeLeafUncompressed (word_of_nat n) 0)"
    using write_header_holds [of b1 TypeLeafUncompressed "word_of_nat n" 0] fits l1 by auto
  have l2: "length b2 = length (b_buf b)" using differs_len [OF b2(2)] l1 by simp
  let ?b3 = "overwrite b2 8 (w16 (word_of_nat e))" and ?b4 = "overwrite (overwrite b2 8 (w16 (word_of_nat e))) 10 (w16 0)"
  have p3: "put_at b2 8 (w16 (word_of_nat e)) = Inr ?b3" using fits l2 by (intro put_at_ok) (simp del: le_bytes.simps)
  have p4: "put_at ?b3 10 (w16 0) = Inr ?b4" using fits l2 by (intro put_at_ok) (simp del: le_bytes.simps)
  have d3: "differs_in {8..<10} b2 ?b3" using overwrite_differs [of 8 "w16 (word_of_nat e)" b2] fits l2 by (simp del: le_bytes.simps)
  have d4: "differs_in {10..<12} ?b3 ?b4" using overwrite_differs [of 10 "w16 0" ?b3] fits l2 by (simp del: le_bytes.simps)
  have h3: "holds ?b3 8 (w16 (word_of_nat e))" using fits l2 by (intro holds_same) (simp del: le_bytes.simps)
  have l4: "length ?b4 = length (b_buf b)" using differs_len [OF d4] differs_len [OF d3] l2 by simp
  obtain b5 where b5: "put_u16s ?b4 (ce - n * 2) (b_ucOffsets b) = Inr b5" "differs_in {ce - n * 2..<ce - n * 2 + 2 * n} ?b4 b5"
      "\<forall>i < n. holds b5 (ce - n * 2 + 2 * i) (w16 (b_ucOffsets b ! i))"
    using put_u16s_ok [of "ce - n * 2" "b_ucOffsets b" ?b4] fits l4 B by (auto simp: nec simp del: le_bytes.simps)
  have d25: "differs_in ({8..<12} \<union> {ce - n * 2..<ce - n * 2 + 2 * n}) b2 b5"
    by (rule differs_trans [OF differs_trans [OF d3 d4, of "{8..<12}"] b5(2)]) auto
  have "differs_in ({0..<12} \<union> {e..<ce}) (b_buf b) b5"
    by (rule differs_trans [OF differs_trans [OF b1(2) b2(2), of "{0..<8} \<union> {e..<ce}"] d25]) (use fits in auto)
  then have s: "holds b5 12 (concat (full_list es))" by (rule differs_holds) (use B in \<open>auto simp: nec\<close>)
  have "holds b5 0 (header_bytes TypeLeafUncompressed (word_of_nat n) 0)" by (rule differs_holds [OF d25 b2(3)]) (use fits in auto)
  moreover have "holds b5 8 (w16 (word_of_nat e))"
    by (rule differs_holds [OF differs_trans [OF d4 b5(2), of "{10..<12} \<union> {ce - n * 2..<ce - n * 2 + 2 * n}"] h3])
      (use fits in \<open>auto simp del: le_bytes.simps\<close>)
  moreover have "length b5 = unat (PageSize cfg)" using differs_len [OF b5(2)] l4 B by simp
  moreover have "holds b5 (ce - 2 * n + 2 * i) (w16 (word_of_nat (stream_off 12 (full_list es) i)))" if "i < n" for i
    using b5(3) that B by (simp add: nec mult.commute del: le_bytes.simps)
  ultimately have lay: "uc_layout cfg es b5" using fits s by (simp add: uc_layout_def Let_def nec del: le_bytes.simps)
  have f: "b_variant b = TypeLeafUncompressed" "content_end (b_cfg b) = ce" "b_count b = n" "b_dataPos b = e" using B by (simp_all add: nec)
  have num: "8 + 2 = (10 :: nat)" "(ce < n * 2) = False" using fits by simp_all
  have "Finish b = Inr b5"
    unfolding Finish_def Let_def leaf_sizes by (simp only: f num n16 simp_thms if_True if_False b1(1) b2(1) p3 p4 b5(1) bind_res.simps)
  then show ?thesis using lay by blast
qed

end
