(* ===== verification/Leaf_Groups.thy ===== *)
theory Leaf_Groups
  imports Leaf_Uc
begin

text \<open>
  What the two compressed leaf variants share: the restart table, the order argument behind the
  skip-scan of a group, and the two-phase lookup over the groups.
\<close>

section \<open>Skipping by shared prefixes\<close>

lemma skip_below:
  assumes "p < e" "p < target" "sharedPrefixLen p target < sharedPrefixLen p e"
  shows "e < target \<and> sharedPrefixLen e target = sharedPrefixLen p target"
  using assms
proof (induction p target arbitrary: e rule: sharedPrefixLen.induct)
  case (1 x xs y ys)
  obtain z zs where e: "e = z # zs" using 1(2) by (cases e) auto
  have z: "z = x" using 1(4) e by (auto split: if_splits)
  show ?case
  proof (cases "x = y")
    case True
    then show ?thesis using 1(1) [of zs] 1(2-4) e z by simp
  next
    case False
    then show ?thesis using 1(3) e z by auto
  qed
qed auto

lemma stop_above:
  assumes "p < e" "sharedPrefixLen p e < sharedPrefixLen p target"
  shows "target < e"
  using assms
proof (induction p target arbitrary: e rule: sharedPrefixLen.induct)
  case (1 x xs y ys)
  obtain z zs where e: "e = z # zs" using 1(2) by (cases e) auto
  have y: "x = y" using 1(3) by (auto split: if_splits)
  show ?case
  proof (cases "z = x")
    case True
    then show ?thesis using 1(1) [of zs] 1(2,3) e y by simp
  next
    case False
    then show ?thesis using 1(2) e y by auto
  qed
qed auto

lemma sharedPrefixLen_drop:
  "take k a = take k b \<Longrightarrow> k \<le> length a \<Longrightarrow> k \<le> length b \<Longrightarrow> sharedPrefixLen a b = k + sharedPrefixLen (drop k a) (drop k b)"
proof (induction k arbitrary: a b)
  case (Suc k)
  then obtain x a' y b' where "a = x # a'" "b = y # b'" by (cases a; cases b) auto
  then show ?case using Suc.IH [of a' b'] Suc.prems by simp
qed simp

lemma compare_past_prefix:
  assumes "take k a = take k b" "k \<le> length a" "k \<le> length b"
  shows "Compare (drop k a) (drop k b) = Compare a b"
proof -
  have a: "a = take k a @ drop k a" and b: "b = take k a @ drop k b" using assms(1) by (metis append_take_drop_id)+
  have "(p @ x < p @ y) = (x < y)" for p x y :: bytes by (induction p) auto
  then have "a < b \<longleftrightarrow> drop k a < drop k b" "b < a \<longleftrightarrow> drop k b < drop k a" by (metis a b)+
  moreover have "a = b \<longleftrightarrow> drop k a = drop k b" by (metis a b)
  ultimately show ?thesis by (simp add: Compare_def)
qed

section \<open>Results of lookups\<close>

fun shift :: "nat \<Rightarrow> nat \<times> LeafEntry \<times> bool \<Rightarrow> nat \<times> LeafEntry \<times> bool" where
  "shift n (i, e, f) = (n + i, e, f)"

lemma found_at_Nil: "found_at es [] target = (0, no_entry, False)"
  by (simp add: found_at_def rank_def)

lemma found_at_below: "k < target \<Longrightarrow> found_at (e # es) (k # ks) target = shift 1 (found_at es ks target)"
  by (auto simp: found_at_def rank_def Let_def)

lemma rank_above: "(\<forall>k \<in> set ks. target \<le> k) \<Longrightarrow> rank ks target = 0"
  by (auto simp: rank_def filter_empty_conv)

lemma found_at_above: "(\<forall>k \<in> set ks. target < k) \<Longrightarrow> found_at es ks target = (0, no_entry, False)"
  using rank_above [of ks target] by (auto simp: found_at_def less_imp_le)

lemma found_at_here: "sorted_wrt (<) (k # ks) \<Longrightarrow> found_at (e # es) (k # ks) k = (0, e\<lparr>Key := []\<rparr>, True)"
  using rank_above [of "k # ks" k] by (auto simp: found_at_def less_imp_le)

lemma rank_append: "rank (a @ b) target = rank a target + rank b target"
  by (simp add: rank_def)

lemma found_at_middle:
  assumes "\<forall>k \<in> set a. k < target" "\<forall>k \<in> set c. target < k" "length ea = length a" "length eb = length b" "sorted_wrt (<) (a @ b @ c)"
  shows "found_at (ea @ eb @ ec) (a @ b @ c) target = shift (length a) (found_at eb b target)"
proof -
  have r: "rank (a @ b @ c) target = length a + rank b target"
    using assms(1) rank_above [of c target] assms(2) by (auto simp: rank_append rank_def less_imp_le)
  have m: "target \<in> set (a @ b @ c) \<longleftrightarrow> target \<in> set b" using assms(1,2) by auto
  have "rank b target < length b" if "target \<in> set b"
    using that by (auto simp: rank_def intro!: length_filter_less)
  then show ?thesis using r m assms(3,4) by (auto simp: found_at_def Let_def nth_append)
qed

section \<open>Two phases\<close>

definition starts :: "'a list list \<Rightarrow> nat \<Rightarrow> nat" where
  "starts gs i = sum_list (map length (take i gs))"

lemma starts_concat: "starts gs i = length (concat (take i gs))"
  by (simp add: starts_def length_concat)

lemma concat_split: "i < length gs \<Longrightarrow> concat gs = concat (take i gs) @ gs ! i @ concat (drop (Suc i) gs)"
  by (metis concat.simps(2) concat_append id_take_nth_drop)

lemma two_phase:
  fixes gs :: "LeafEntry list list" and kss :: "bytes list list"
  assumes "map length kss = map length gs" "\<forall>g \<in> set gs. g \<noteq> []" "sorted_wrt (<) (concat kss)" "rc = length gs"
    and probe: "\<And>i. i < rc \<Longrightarrow> probe i = Inr (Compare (hd (kss ! i)) target)"
    and hit: "\<And>i. i < rc \<Longrightarrow> target = hd (kss ! i) \<Longrightarrow> hit i = Inr (starts gs i, (hd (gs ! i))\<lparr>Key := []\<rparr>, True)"
    and scan: "\<And>i. i < rc \<Longrightarrow> hd (kss ! i) < target \<Longrightarrow> scan i = Inr (shift (starts gs i) (found_at (gs ! i) (kss ! i) target))"
  shows "bind_res (bsearch3 probe 0 rc) (\<lambda>(lo, found). if found then hit lo else if lo = 0 then Inr (0, no_entry, False) else scan (lo - 1)) =
    Inr (found_at (concat gs) (concat kss) target)"
proof -
  have len: "length kss = length gs" using assms(1) by (metis length_map)
  have gl: "length (kss ! i) = length (gs ! i)" if "i < rc" for i using assms(1,4) that len by (metis nth_map)
  have ne: "kss ! i \<noteq> []" if "i < rc" for i using gl [OF that] assms(2,4) that by auto
  have split: "concat kss = concat (take i kss) @ kss ! i @ concat (drop (Suc i) kss)"
    "concat gs = concat (take i gs) @ gs ! i @ concat (drop (Suc i) gs)" if "i < rc" for i
    using concat_split [of i kss] concat_split [of i gs] that assms(4) len by auto
  have tl: "length (concat (take i gs)) = length (concat (take i kss))" for i
    using assms(1) by (metis length_concat take_map)
  have srt: "sorted_wrt (<) (concat (take i kss) @ kss ! i @ concat (drop (Suc i) kss))" if "i < rc" for i
    using assms(3) split(1) [OF that] by simp
  have before: "k < x" if "i < rc" "k \<in> set (concat (take i kss))" "x \<in> set (kss ! i)" for i k x
    using srt [OF that(1)] that(2,3) by (auto simp: sorted_wrt_append)
  have inside: "sorted_wrt (<) (kss ! i)" if "i < rc" for i using srt [OF that] by (auto simp: sorted_wrt_append)
  have hdl: "hd (kss ! i) \<le> x" if "i < rc" "x \<in> set (kss ! i)" for i x
    using inside [OF that(1)] ne [OF that(1)] that(2) by (cases "kss ! i") (auto simp: less_imp_le)
  have later: "hd (kss ! i) < hd (kss ! j)" if "i < j" "j < rc" for i j
  proof -
    have "kss ! i \<in> set (take j kss)" using that assms(4) len by (auto simp: in_set_conv_nth)
    moreover have "hd (kss ! i) \<in> set (kss ! i)" using ne that by simp
    ultimately show ?thesis using before [OF that(2)] ne [OF that(2)] by (metis UN_I hd_in_set set_concat)
  qed
  have "Compare (hd (kss ! i)) target < 0" if "i < j" "j < rc" "Compare (hd (kss ! j)) target \<le> 0" for i j
    using later [OF that(1,2)] that(3) by (auto simp: le_less)
  then obtain lo fnd where b: "bsearch3 probe 0 rc = Inr (lo, fnd)" and lo: "lo \<le> rc" and below: "\<forall>i < lo. hd (kss ! i) < target"
      and f: "if fnd then lo < rc \<and> hd (kss ! lo) = target else \<forall>i. lo \<le> i \<and> i < rc \<longrightarrow> target < hd (kss ! i)"
    using bs3.splits [of rc probe "\<lambda>i. Compare (hd (kss ! i)) target"] probe by (simp only: Compare_less) metis
  show ?thesis
  proof (cases fnd)
    case True
    then have l: "lo < rc" and t: "hd (kss ! lo) = target" using f by auto
    obtain k ks where k: "kss ! lo = k # ks" "k = target" using ne [OF l] t by (cases "kss ! lo") auto
    obtain e es where e: "gs ! lo = e # es" using gl [OF l] k by (cases "gs ! lo") auto
    have "\<forall>x \<in> set (concat (take lo kss)). x < target" using before [OF l] k by auto
    have sk: "sorted_wrt (<) (k # ks)" using inside [OF l] k by simp
    let ?c = "concat (drop (Suc lo) kss)"
    have "\<forall>x \<in> set ?c. target < x" using srt [OF l] k by (auto simp: sorted_wrt_append)
    then have "found_at (concat gs) (concat kss) target = shift (length (concat (take lo kss))) (found_at (gs ! lo) (kss ! lo) target)"
      unfolding split(1) [OF l] split(2) [OF l] using \<open>\<forall>x \<in> set (concat (take lo kss)). x < target\<close> tl gl [OF l] srt [OF l]
      by (intro found_at_middle) auto
    also have "\<dots> = (starts gs lo, e\<lparr>Key := []\<rparr>, True)"
      using found_at_here [OF sk, of e es] k e tl by (simp add: starts_concat)
    finally show ?thesis using b True hit [OF l t [symmetric]] e by simp
  next
    case False
    then have above: "target < hd (kss ! i)" if "lo \<le> i" "i < rc" for i using f that by auto
    show ?thesis
    proof (cases "lo = 0")
      case z: True
      have "\<forall>x \<in> set (concat kss). target < x"
      proof
        fix x assume "x \<in> set (concat kss)"
        then obtain ys where "ys \<in> set kss" "x \<in> set ys" by auto
        then obtain i where "i < rc" "x \<in> set (kss ! i)" using assms(4) len by (metis in_set_conv_nth)
        then show "target < x" using above [of i] z hdl [of i x] by auto
      qed
      then show ?thesis using b False z by (simp add: found_at_above)
    next
      case nz: False
      define i where "i = lo - 1"
      have i: "i < rc" "Suc i = lo" using nz lo by (auto simp: i_def)
      have h: "hd (kss ! i) < target" using below i by auto
      have a: "\<forall>x \<in> set (concat (take i kss)). x < target"
        using before [OF i(1)] ne [OF i(1)] h by (metis hd_in_set less_trans)
      have c: "\<forall>x \<in> set (concat (drop (Suc i) kss)). target < x"
      proof
        fix x assume "x \<in> set (concat (drop (Suc i) kss))"
        then obtain ys where ys: "ys \<in> set (drop (Suc i) kss)" "x \<in> set ys" by auto
        obtain j where "j < length (drop (Suc i) kss)" "drop (Suc i) kss ! j = ys" using ys(1) by (metis in_set_conv_nth)
        then have j: "Suc i + j < rc" "ys = kss ! (Suc i + j)" using assms(4) len by simp_all
        then show "target < x" using above [of "Suc i + j"] i hdl [of "Suc i + j" x] ys(2) by auto
      qed
      have "found_at (concat gs) (concat kss) target = shift (length (concat (take i kss))) (found_at (gs ! i) (kss ! i) target)"
        unfolding split(1) [OF i(1)] split(2) [OF i(1)] using a c tl gl [OF i(1)] srt [OF i(1)] by (intro found_at_middle) auto
      then show ?thesis using b False nz scan [OF i(1) h] tl by (simp add: i_def starts_concat)
    qed
  qed
qed

section \<open>The restart table\<close>

abbreviation table_bytes :: "nat \<Rightarrow> nat \<Rightarrow> bytes" where
  "table_bytes off cnt \<equiv> w16 (word_of_nat off) @ [word_of_nat cnt, 0]"

definition table_at :: "nat \<Rightarrow> nat list \<Rightarrow> nat list \<Rightarrow> bytes \<Rightarrow> bool" where
  "table_at ce offs cnts buf \<longleftrightarrow> length cnts = length offs \<and> 4 * length offs \<le> ce \<and>
     (\<forall>i < length offs. offs ! i < 65536 \<and> cnts ! i < 256 \<and> holds buf (ce - 4 * length offs + 4 * i) (table_bytes (offs ! i) (cnts ! i)))"

lemma table_reads:
  assumes "table_at ce offs cnts buf" "i < length offs"
  shows "rt_Offset (newRestartTable buf (length offs) ce) (int i) = Inr (offs ! i)"
    "rt_GroupEntryCount (newRestartTable buf (length offs) ce) (int i) = Inr (cnts ! i)"
proof -
  define k where "k = ce - 4 * length offs + 4 * i"
  have t: "offs ! i < 65536" "cnts ! i < 256" "holds buf k (table_bytes (offs ! i) (cnts ! i))" "4 * length offs \<le> ce"
    using assms by (auto simp: table_at_def k_def)
  have h: "u16_at buf k = Inr (word_of_nat (offs ! i))" "u8_at buf (k + 2) = Inr (word_of_nat (cnts ! i))"
  proof -
    have "holds buf k (w16 (word_of_nat (offs ! i)) @ [word_of_nat (cnts ! i)] @ [0])" using t(3) by (simp del: le_bytes.simps)
    then have "holds buf k (w16 (word_of_nat (offs ! i)))" "holds buf (k + length (w16 (word_of_nat (offs ! i)))) [word_of_nat (cnts ! i)]"
      unfolding holds_append by blast+
    then have "holds buf k (w16 (word_of_nat (offs ! i)))" "holds buf (k + 2) [word_of_nat (cnts ! i)]" by (simp_all del: le_bytes.simps)
    then show "u16_at buf k = Inr (word_of_nat (offs ! i))" "u8_at buf (k + 2) = Inr (word_of_nat (cnts ! i))"
      by (simp_all only: access_simps)
  qed
  have o: "tableOff (newRestartTable buf (length offs) ce) + int i * int restartTableEntrySize = int k"
    using t(4) by (simp add: newRestartTable_def restartTableEntrySize_def k_def of_nat_diff)
  have b: "rt_buf (newRestartTable buf (length offs) ce) = buf" by (simp add: newRestartTable_def)
  have c: "unat (word_of_nat (cnts ! i) :: byte) = cnts ! i" using t(2) by (simp add: unat_of_nat)
  show "rt_Offset (newRestartTable buf (length offs) ce) (int i) = Inr (offs ! i)"
    unfolding rt_Offset_def o b using h(1) by (simp add: at_off_def unat_len16 [OF t(1)])
  have "int k + 2 = int (k + 2)" by simp
  then show "rt_GroupEntryCount (newRestartTable buf (length offs) ce) (int i) = Inr (cnts ! i)"
    unfolding rt_GroupEntryCount_def o b using h(2) c by (simp add: at_off_def nat_add_distrib del: of_nat_add)
qed

lemma table_start:
  assumes "table_at ce offs cnts buf" "k \<le> length offs"
  shows "rt_GroupStartIndex (newRestartTable buf (length offs) ce) k = Inr (sum_list (take k cnts))"
proof -
  have len: "length cnts = length offs" using assms(1) by (simp add: table_at_def)
  have "sum_counts (newRestartTable buf (length offs) ce) is = Inr (sum_list (map ((!) cnts) is))" if "\<forall>i \<in> set is. i < length offs" for "is"
    using that by (induction "is") (simp_all add: table_reads(2) [OF assms(1)])
  from this [of "[0..<k]"] have "rt_GroupStartIndex (newRestartTable buf (length offs) ce) k = Inr (sum_list (map ((!) cnts) [0..<k]))"
    using assms(2) by (simp add: rt_GroupStartIndex_def)
  also have "map ((!) cnts) [0..<k] = take k cnts" using assms(2) len by (intro nth_equalityI) simp_all
  finally show ?thesis .
qed

section \<open>The group tracker\<close>

definition pack :: "nat \<Rightarrow> nat \<Rightarrow> u32" where
  "pack off cnt = word_of_nat off OR push_bit 16 (word_of_nat cnt)"

lemma pack_reads:
  assumes "off < 65536" "cnt < 256"
  shows "(ucast (pack off cnt AND 0xFFFF) :: u16) = word_of_nat off" "(ucast (drop_bit 16 (pack off cnt)) :: byte) = word_of_nat cnt"
proof -
  have hi: "\<not> bit off n" if "16 \<le> n" for n
  proof -
    have "(65536 :: nat) = 2 ^ 16" by simp
    also have "\<dots> \<le> 2 ^ n" using that by (rule power_increasing) simp
    finally have "off < 2 ^ n" using assms(1) by simp
    then show ?thesis by (simp add: bit_iff_odd)
  qed
  have m: "(0xFFFF :: u32) = mask 16" by (simp add: mask_eq_exp_minus_1)
  show "(ucast (pack off cnt AND 0xFFFF) :: u16) = word_of_nat off"
    unfolding pack_def m by (rule bit_eqI) (simp add: bit_ucast_iff bit_and_iff bit_or_iff bit_push_bit_iff bit_of_nat_iff bit_mask_iff)
  show "(ucast (drop_bit 16 (pack off cnt)) :: byte) = word_of_nat cnt"
    unfolding pack_def by (rule bit_eqI) (simp add: bit_ucast_iff bit_drop_bit_eq bit_or_iff bit_push_bit_iff bit_of_nat_iff hi)
qed

definition tracks :: "restartGroupTracker \<Rightarrow> nat list \<Rightarrow> nat list \<Rightarrow> bool" where
  "tracks t offs cnts \<longleftrightarrow> length cnts = length offs \<and>
     (if offs = [] then restarts t = [] \<and> curGroupCount t = 0
      else restarts t = map2 pack (butlast offs) (butlast cnts) @ [word_of_nat (last offs)] \<and> curGroupCount t = last cnts \<and> 0 < last cnts)"

lemma tracks_len: "tracks t offs cnts \<Longrightarrow> length (restarts t) = length offs \<and> length cnts = length offs"
  by (auto simp: tracks_def split: if_splits)

lemma tracks_finalize:
  assumes "tracks t offs cnts"
  shows "restarts (FinalizeCurrentGroup t) = map2 pack offs cnts"
proof (cases "offs = []")
  case False
  then obtain o' os c cs where oc: "offs = os @ [o']" "cnts = cs @ [c]" "length cs = length os"
    using assms by (cases offs rule: rev_cases; cases cnts rule: rev_cases) (auto simp: tracks_def)
  then show ?thesis using assms by (simp add: tracks_def FinalizeCurrentGroup_def pack_def [of o' c])
qed (use assms in \<open>simp add: tracks_def FinalizeCurrentGroup_def\<close>)

lemma tracks_restart:
  assumes "tracks t offs cnts"
  shows "tracks (IncrCount (StartGroup (if 0 < curGroupCount t then FinalizeCurrentGroup t else t) off)) (offs @ [off]) (cnts @ [1])"
proof -
  have "restarts (if 0 < curGroupCount t then FinalizeCurrentGroup t else t) = map2 pack offs cnts"
  proof (cases "0 < curGroupCount t")
    case False
    then have "offs = []" using assms by (auto simp: tracks_def split: if_splits)
    then show ?thesis using False assms by (simp add: tracks_def)
  qed (simp add: tracks_finalize [OF assms])
  then show ?thesis using tracks_len [OF assms] by (simp add: tracks_def IncrCount_def StartGroup_def)
qed

lemma tracks_incr:
  assumes "tracks t offs (cnts @ [c])"
  shows "tracks (IncrCount t) offs (cnts @ [c + 1])"
  using assms by (auto simp: tracks_def IncrCount_def split: if_splits)

lemma put_restarts_ok:
  assumes "off + 4 * length ps \<le> length buf"
  shows "\<exists>b. put_restarts buf off ps = Inr b \<and> differs_in {off..<off + 4 * length ps} buf b \<and>
    (\<forall>i < length ps. holds b (off + 4 * i) (w16 (ucast (ps ! i AND 0xFFFF)) @ [ucast (drop_bit 16 (ps ! i)), 0]))"
  using assms
proof (induction ps arbitrary: off buf)
  case Nil
  then show ?case by simp
next
  case (Cons p ps)
  define x y where xy: "x = w16 (ucast (p AND 0xFFFF))" "y = (ucast (drop_bit 16 p) :: byte)"
  define b1 b2 b3 where b: "b1 = overwrite buf off x" "b2 = overwrite b1 (off + 2) [y]" "b3 = overwrite b2 (off + 3) [0]"
  have lx: "length x = 2" by (simp add: xy del: le_bytes.simps)
  have l: "length b1 = length buf" "length b2 = length buf" "length b3 = length buf" using Cons.prems lx by (simp_all add: b)
  have p: "put_at buf off x = Inr b1" "put_at b1 (off + 2) [y] = Inr b2" "put_at b2 (off + 3) [0] = Inr b3"
    unfolding b using Cons.prems lx by (intro put_at_ok; simp)+
  have e3: "b3 = overwrite buf off (x @ [y, 0])"
  proof -
    have "b2 = overwrite buf off (x @ [y])" unfolding b using overwrite_overwrite [of off x "[y]" buf] Cons.prems lx by simp
    then show ?thesis unfolding b(3) using overwrite_overwrite [of off "x @ [y]" "[0]" buf] Cons.prems lx by simp
  qed
  have d1: "differs_in {off..<off + 4} buf b3" unfolding e3 using overwrite_differs [of off "x @ [y, 0]" buf] Cons.prems lx by simp
  have h1: "holds b3 off (x @ [y, 0])" unfolding e3 using Cons.prems lx by (intro holds_same) simp
  obtain c where c: "put_restarts b3 (off + 4) ps = Inr c" "differs_in {off + 4..<off + 4 + 4 * length ps} b3 c"
      "\<forall>i < length ps. holds c (off + 4 + 4 * i) (w16 (ucast (ps ! i AND 0xFFFF)) @ [ucast (drop_bit 16 (ps ! i)), 0])"
    using Cons.IH [of "off + 4" b3] Cons.prems l by auto
  have d: "differs_in {off..<off + 4 * length (p # ps)} buf c" by (rule differs_trans [OF d1 c(2)]) auto
  have "holds c off (x @ [y, 0])" by (rule differs_holds [OF c(2) h1]) (auto simp: lx)
  then have "holds c (off + 4 * i) (w16 (ucast ((p # ps) ! i AND 0xFFFF)) @ [ucast (drop_bit 16 ((p # ps) ! i)), 0])" if "i < length (p # ps)" for i
    using that c(3) by (cases i) (auto simp: xy add.assoc simp del: le_bytes.simps)
  then show ?case using p c(1) d by (auto simp: xy restartTableEntrySize_def simp del: le_bytes.simps)
qed

lemma WriteTable_ok:
  assumes "tracks t offs cnts" "4 * length offs \<le> ce" "ce \<le> length buf" "\<forall>i < length offs. offs ! i < 65536 \<and> cnts ! i < 256"
  shows "\<exists>b. WriteTable t buf ce = Inr (b, length offs) \<and> differs_in {ce - 4 * length offs..<ce} buf b \<and> table_at ce offs cnts b"
proof -
  let ?ps = "map2 pack offs cnts" and ?k = "ce - 4 * length offs"
  have len: "length ?ps = length offs" "length cnts = length offs" using tracks_len [OF assms(1)] by simp_all
  obtain b where b: "put_restarts buf ?k ?ps = Inr b" "differs_in {?k..<?k + 4 * length offs} buf b"
      "\<forall>i < length offs. holds b (?k + 4 * i) (w16 (ucast (?ps ! i AND 0xFFFF)) @ [ucast (drop_bit 16 (?ps ! i)), 0])"
    using put_restarts_ok [of ?k ?ps buf] assms(2,3) len by auto
  have "WriteTable t buf ce = Inr (b, length offs)"
    using b(1) assms(2) len by (simp add: WriteTable_def Let_def tracks_finalize [OF assms(1)] restartTableEntrySize_def mult.commute)
  moreover have "table_at ce offs cnts b"
    unfolding table_at_def using assms(2,4) len b(3) by (auto simp: pack_reads simp del: le_bytes.simps)
  moreover have "differs_in {?k..<ce} buf b" using b(2) assms(2) by simp
  ultimately show ?thesis by blast
qed

lemma table_kept:
  assumes "table_at ce offs cnts b" "differs_in S b b'" "S \<inter> {ce - 4 * length offs..<ce} = {}"
  shows "table_at ce offs cnts b'"
  unfolding table_at_def
proof (intro conjI allI impI)
  show "length cnts = length offs" "4 * length offs \<le> ce" using assms(1) by (simp_all add: table_at_def)
  fix i assume i: "i < length offs"
  then show "offs ! i < 65536" "cnts ! i < 256" using assms(1) by (simp_all add: table_at_def)
  have h: "holds b (ce - 4 * length offs + 4 * i) (table_bytes (offs ! i) (cnts ! i))" using assms(1) i unfolding table_at_def by blast
  have "4 * length offs \<le> ce" using assms(1) by (simp add: table_at_def)
  then have "{ce - 4 * length offs + 4 * i..<ce - 4 * length offs + 4 * i + 4} \<subseteq> {ce - 4 * length offs..<ce}" using i by auto
  then show "holds b' (ce - 4 * length offs + 4 * i) (table_bytes (offs ! i) (cnts ! i))"
    using assms(3) by (intro differs_holds [OF assms(2) h]) (auto simp del: le_bytes.simps)
qed

lemma put_w16:
  assumes "k + 2 \<le> length b"
  obtains b' where "put_at b k (w16 v) = Inr b'" "differs_in {k..<k + 2} b b'" "holds b' k (w16 v)" "length b' = length b"
proof
  show "put_at b k (w16 v) = Inr (overwrite b k (w16 v))" using assms by (intro put_at_ok) (simp del: le_bytes.simps)
  show d: "differs_in {k..<k + 2} b (overwrite b k (w16 v))" using overwrite_differs [of k "w16 v" b] assms by (simp del: le_bytes.simps)
  show "holds (overwrite b k (w16 v)) k (w16 v)" using assms by (intro holds_same) (simp del: le_bytes.simps)
  show "length (overwrite b k (w16 v)) = length b" by (rule differs_len [OF d])
qed

end
