(* ===== verification/Leaf_Comp.thy ===== *)
theory Leaf_Comp
  imports Leaf_Groups
begin

text \<open>
  Interleaved compressed leaves: the stream of restart groups, the skip-scan against a plain linear
  lookup, and the page the builder writes.
\<close>

section \<open>Groups\<close>

fun deltas :: "bytes \<Rightarrow> LeafEntry list \<Rightarrow> bytes list" where
  "deltas prev [] = []"
| "deltas prev (e # es) = delta_bytes (sharedPrefixLen prev (Key e)) e # deltas (Key e) es"

definition group_chunks :: "LeafEntry list \<Rightarrow> bytes list" where
  "group_chunks g = full_bytes (hd g) # deltas (Key (hd g)) (tl g)"

definition group_ok :: "Config \<Rightarrow> LeafEntry list \<Rightarrow> bool" where
  "group_ok cfg g \<longleftrightarrow> g \<noteq> [] \<and> length g < 256 \<and> (IsOverflowKey (hd g) \<longrightarrow> tl g = []) \<and>
     (\<forall>e \<in> set g. entry_ok cfg e) \<and> (\<forall>e \<in> set (tl g). \<not> IsOverflowKey e)"

abbreviation comp_stream :: "LeafEntry list list \<Rightarrow> bytes list" where
  "comp_stream gs \<equiv> map (\<lambda>g. concat (group_chunks g)) gs"

abbreviation group_offs :: "nat \<Rightarrow> bytes list \<Rightarrow> nat list" where
  "group_offs base bss \<equiv> map (stream_off base bss) [0..<length bss]"

definition small_values :: "LeafEntry list \<Rightarrow> bool" where
  "small_values es \<longleftrightarrow> (\<forall>e \<in> set es. length (Value e) < 4294967296)"

lemma deltas_append: "deltas p (xs @ [e]) = deltas p xs @ [delta_bytes (sharedPrefixLen (if xs = [] then p else Key (last xs)) (Key e)) e]"
  by (induction xs arbitrary: p) auto

lemma spl_after:
  assumes "\<not> IsOverflowKey e"
  shows "delta_after prev (sharedPrefixLen prev (Key e)) e"
  using assms sharedPrefixLen_le [of prev "Key e"] sharedPrefixLen_take [of prev "Key e"] by (simp add: delta_after_def IsOverflowKey_def)

section \<open>Walking a group\<close>

lemma delta_walk_reads:
  assumes "holds buf off (concat (deltas (Key e) es))" "\<forall>x \<in> set es. shape_ok x \<and> \<not> IsOverflowKey x \<and> length (Key x) < 65536"
    and "small_values es" "n \<le> length es"
  shows "delta_walk buf n e off = Inr ((e # es) ! n)"
  using assms
proof (induction es arbitrary: e off n)
  case Nil
  then show ?case by simp
next
  case (Cons x es)
  let ?s = "sharedPrefixLen (Key e) (Key x)"
  have h: "holds buf off (delta_bytes ?s x)" "holds buf (off + length (delta_bytes ?s x)) (concat (deltas (Key x) es))"
    using Cons.prems(1) by (simp_all add: holds_append)
  have d: "decodeDeltaEntry buf off (Key e) = Inr (x, off + length (delta_bytes ?s x))"
    using Cons.prems(2,3) h(1) by (intro decode_delta spl_after) (auto simp: small_values_def)
  show ?case
  proof (cases n)
    case (Suc m)
    then show ?thesis using Cons.IH [OF h(2), of m] Cons.prems(2-4) d by (simp add: small_values_def)
  qed simp
qed

section \<open>The skip-scan\<close>

lemma skip_scan_finds:
  assumes "holds buf off (concat (deltas p es))" "\<forall>x \<in> set es. shape_ok x \<and> \<not> IsOverflowKey x \<and> length (Key x) < 65536"
    and "small_values es" "sorted_wrt (<) (p # map Key es)" "p < target"
  shows "skip_scan buf target (length es) idx off (sharedPrefixLen p target) = Inr (shift idx (found_at es (map Key es) target))"
  using assms
proof (induction es arbitrary: p off idx)
  case Nil
  then show ?case by (simp add: found_at_Nil)
next
  case (Cons e es)
  let ?k = "Key e" and ?c = "sharedPrefixLen p target"
  let ?s = "sharedPrefixLen p ?k"
  let ?next = "off + length (delta_bytes ?s e)"
  have h: "holds buf off (delta_bytes ?s e)" "holds buf ?next (concat (deltas ?k es))" using Cons.prems(1) by (simp_all add: holds_append)
  have e: "shape_ok e" "\<not> bit (Flags e) 4" "length ?k < 65536" "length (Value e) < 4294967296" and pk: "p < ?k"
    using Cons.prems(2-4) by (auto simp: small_values_def IsOverflowKey_def)
  have sl: "?s \<le> length ?k" "?s \<le> length p" using sharedPrefixLen_le by auto
  note dh = delta_header [OF e(3,4) sl(1) h(1)]
  have above: "\<forall>k \<in> set (map Key (e # es)). target < k" if "target < ?k" using that Cons.prems(4) by auto
  have rec: "skip_scan buf target (length es) (idx + 1) ?next (sharedPrefixLen ?k target) =
      Inr (shift idx (found_at (e # es) (map Key (e # es)) target))" if "?k < target"
  proof -
    have "skip_scan buf target (length es) (idx + 1) ?next (sharedPrefixLen ?k target) = Inr (shift (idx + 1) (found_at es (map Key es) target))"
      by (rule Cons.IH [OF h(2)]) (use Cons.prems(2-4) that in \<open>auto simp: small_values_def\<close>)
    also have "shift (idx + 1) (found_at es (map Key es) target) = shift idx (found_at (e # es) (map Key (e # es)) target)"
      using found_at_below [OF that, of e es "map Key es"] by (cases "found_at es (map Key es) target") simp
    finally show ?thesis .
  qed
  consider "?c < ?s" | "?s < ?c" | "?s = ?c" by linarith
  then show ?case
  proof cases
    case 1
    then have b: "?k < target" "sharedPrefixLen ?k target = ?c" using skip_below [OF pk Cons.prems(5)] by auto
    then show ?thesis using rec [OF b(1)] 1 dh(1) by simp
  next
    case 2
    then have "target < ?k" by (rule stop_above [OF pk])
    then show ?thesis using 2 dh(1) found_at_above [OF above, of "e # es"] by simp
  next
    case 3
    have ct: "?c \<le> length target" "take ?c ?k = take ?c target"
      using sharedPrefixLen_le(2) [of p target] sharedPrefixLen_take [of p target] sharedPrefixLen_take [of p ?k] 3 by simp_all
    have kl: "?c \<le> length ?k" using sl 3 by simp
    have cmp: "Compare (drop ?c ?k) (drop ?c target) = Compare ?k target" by (rule compare_past_prefix [OF ct(2) kl ct(1)])
    have spl: "sharedPrefixLen ?k target = ?c + sharedPrefixLen (drop ?c ?k) (drop ?c target)" by (rule sharedPrefixLen_drop [OF ct(2) kl ct(1)])
    have step: "skip_scan buf target (length (e # es)) idx off ?c =
        (if Compare ?k target = 0 then
           bind_res (decodeDeltaValueHalf buf (Flags e) (off + 5 + length (vlen_bytes e) + (length ?k - ?s)) ?next) (\<lambda>x. Inr (idx, x, True))
         else if Compare ?k target > 0 then Inr (idx, no_entry, False)
         else skip_scan buf target (length es) (idx + 1) ?next (sharedPrefixLen ?k target))"
    proof -
      have n: "length (e # es) = Suc (length es)" by simp
      show ?thesis
        unfolding n 3 [symmetric] skip_scan.simps(2) dh(1) bind_res.simps prod.case Let_def dh(2) cmp [folded 3] spl [folded 3]
        by (simp only: less_irrefl if_False)
    qed
    consider "?k = target" | "target < ?k" | "?k < target" by (rule linorder_cases [of ?k target]) auto
    then show ?thesis
    proof cases
      case eq: 1
      have "sorted_wrt (<) (?k # map Key es)" using Cons.prems(4) by simp
      from found_at_here [OF this, of e es] show ?thesis
        unfolding step delta_value_half [OF e(1,2) sl(1) h(1)] using eq by simp
    next
      case gt: 2
      then have "0 < Compare ?k target" "Compare ?k target \<noteq> 0" by auto
      then show ?thesis unfolding step using found_at_above [OF above [OF gt], of "e # es"] by (simp only: if_True if_False) simp
    next
      case lt: 3
      then have "\<not> 0 < Compare ?k target" "Compare ?k target \<noteq> 0" by auto
      then show ?thesis unfolding step using rec [OF lt] by (simp only: if_False)
    qed
  qed
qed

section \<open>Layout\<close>

definition comp_layout :: "Config \<Rightarrow> LeafEntry list list \<Rightarrow> bytes \<Rightarrow> bool" where
  "comp_layout cfg gs buf \<longleftrightarrow> (let rc = length gs; ce = content_end cfg; e = 12 + length (concat (comp_stream gs)) in
     length buf = unat (PageSize cfg) \<and> e + 4 * rc \<le> ce \<and>
     holds buf 0 (header_bytes TypeLeaf (word_of_nat (length (concat gs))) 0) \<and>
     holds buf 8 (w16 (word_of_nat rc)) \<and> holds buf 10 (w16 (word_of_nat e)) \<and> holds buf 12 (concat (comp_stream gs)) \<and>
     table_at ce (group_offs 12 (comp_stream gs)) (map length gs) buf)"

definition comp_reader :: "Config \<Rightarrow> LeafEntry list list \<Rightarrow> bytes \<Rightarrow> LeafReader" where
  "comp_reader cfg gs buf =
     \<lparr>r_buf = buf, r_cfg = cfg, r_count = length (concat gs), r_dataEnd = 12 + length (concat (comp_stream gs)), r_variant = TypeLeaf,
       r_rt = newRestartTable buf (length gs) (content_end cfg), r_valueEnd = 0, r_ucTableOff = 0\<rparr>"

lemma chunks_count: "length g \<le> length (concat (group_chunks g))" if "g \<noteq> []"
proof -
  have "length es \<le> length (concat (deltas p es))" for p es
  proof (induction es arbitrary: p)
    case (Cons e es)
    show ?case using Cons.IH [of "Key e"] by (simp add: delta_length)
  qed simp
  from this [of "tl g" "Key (hd g)"] show ?thesis using that by (simp add: group_chunks_def full_length)
qed

lemma count_le_stream: "\<forall>g \<in> set gs. g \<noteq> [] \<Longrightarrow> length (concat gs) \<le> length (concat (comp_stream gs))"
  by (induction gs) (auto intro!: add_mono chunks_count)

lemma comp_NewLeafReader:
  assumes "comp_layout cfg gs buf" "Validate cfg = None" "\<forall>g \<in> set gs. group_ok cfg g"
  shows "NewLeafReader buf cfg = Inr (comp_reader cfg gs buf)"
proof -
  note L = assms(1) [unfolded comp_layout_def Let_def] and pb = page_bounds [OF assms(2)]
  have ne: "\<forall>g \<in> set gs. g \<noteq> []" using assms(3) by (simp add: group_ok_def)
  have s: "length (concat (comp_stream gs)) + 4 * length gs \<le> 65524" using L pb by linarith
  have n: "length (concat gs) < 65536" "length gs < 65536" using s count_le_stream [OF ne] by linarith+
  have e: "12 + length (concat (comp_stream gs)) < 65536"
    using s by (cases gs) (simp_all add: length_concat)
  have h: "read_header buf = Inr (TypeLeaf, 0, word_of_nat (length (concat gs)), 0)" using L by (intro read_header_holds) blast
  have u: "u16_at buf 8 = Inr (word_of_nat (length gs))" "u16_at buf (8 + 2) = Inr (word_of_nat (12 + length (concat (comp_stream gs))))"
    using L by (simp_all only: access_simps) (simp_all add: access_simps del: le_bytes.simps)
  have ty: "TypeLeaf \<noteq> TypeLeafUncompressed" "TypeLeaf \<noteq> TypeLeafSegregated" by (simp_all add: page_types)
  have "length buf = unat (PageSize cfg)" using L by blast
  then show ?thesis
    unfolding NewLeafReader_def comp_reader_def leaf_sizes
    by (simp only: must_validate_ok [OF assms(2)] bind_res.simps h u prod.case Let_def IsLeafType_def not_True_eq_False simp_thms if_False if_True ty
        unat_len16 [OF n(1)] unat_len16 [OF n(2)] unat_len16 [OF e])
qed

lemma comp_table:
  assumes "comp_layout cfg gs buf" "i < length gs"
  shows "rt_Offset (r_rt (comp_reader cfg gs buf)) (int i) = Inr (stream_off 12 (comp_stream gs) i)"
    "rt_GroupEntryCount (r_rt (comp_reader cfg gs buf)) (int i) = Inr (length (gs ! i))"
    "rt_GroupStartIndex (r_rt (comp_reader cfg gs buf)) i = Inr (starts gs i)"
proof -
  have t: "table_at (content_end cfg) (group_offs 12 (comp_stream gs)) (map length gs) buf" using assms(1) by (simp add: comp_layout_def Let_def)
  show "rt_Offset (r_rt (comp_reader cfg gs buf)) (int i) = Inr (stream_off 12 (comp_stream gs) i)"
    "rt_GroupEntryCount (r_rt (comp_reader cfg gs buf)) (int i) = Inr (length (gs ! i))"
    "rt_GroupStartIndex (r_rt (comp_reader cfg gs buf)) i = Inr (starts gs i)"
    using table_reads [OF t, of i] table_start [OF t, of i] assms(2) by (simp_all add: comp_reader_def starts_def take_map)
qed

lemma comp_group:
  assumes "comp_layout cfg gs buf" "Validate cfg = None" "\<forall>g \<in> set gs. group_ok cfg g" "i < length gs"
  shows "restart_entry (comp_reader cfg gs buf) (int i) = Inr (hd (gs ! i), stream_off 12 (comp_stream gs) i + length (full_bytes (hd (gs ! i))))"
    "holds buf (stream_off 12 (comp_stream gs) i + length (full_bytes (hd (gs ! i)))) (concat (deltas (Key (hd (gs ! i))) (tl (gs ! i))))"
    "small_values (tl (gs ! i))" "\<forall>x \<in> set (tl (gs ! i)). shape_ok x \<and> \<not> IsOverflowKey x \<and> length (Key x) < 65536"
proof -
  let ?o = "stream_off 12 (comp_stream gs) i" and ?g = "gs ! i"
  note L = assms(1) [unfolded comp_layout_def Let_def] and pb = page_bounds [OF assms(2)]
  have g: "group_ok cfg ?g" using assms(3,4) by simp
  have "holds buf ?o (concat (group_chunks ?g))" using holds_stream [of buf 12 "comp_stream gs" i] L assms(4) by simp
  then have h: "holds buf ?o (full_bytes (hd ?g))" and d: "holds buf (?o + length (full_bytes (hd ?g))) (concat (deltas (Key (hd ?g)) (tl ?g)))"
    by (simp_all add: group_chunks_def holds_append)
  show "holds buf (?o + length (full_bytes (hd ?g))) (concat (deltas (Key (hd ?g)) (tl ?g)))" by (rule d)
  have len: "?o + length (full_bytes (hd ?g)) + length (concat (deltas (Key (hd ?g)) (tl ?g))) \<le> 65536"
    using holds_len [OF d] L pb by linarith
  have vd: "length (Value x) \<le> length (concat (deltas p es))" if "x \<in> set es" "\<forall>x \<in> set es. shape_ok x" for x p es
    using that
  proof (induction es arbitrary: p)
    case (Cons y es)
    show ?case
    proof (cases "x = y")
      case True
      then show ?thesis using val_bound [of y] Cons.prems(2) by (simp add: delta_length)
    next
      case False
      then show ?thesis using Cons.IH [of "Key y"] Cons.prems by auto
    qed
  qed simp
  have ok: "\<forall>x \<in> set ?g. entry_ok cfg x" "\<forall>x \<in> set (tl ?g). \<not> IsOverflowKey x" "?g \<noteq> []" using g by (simp_all add: group_ok_def)
  then have tl: "\<forall>x \<in> set (tl ?g). entry_ok cfg x" by (meson list.set_sel(2))
  then show "small_values (tl ?g)" using vd [of _ "tl ?g" "Key (hd ?g)"] len by (fastforce simp: small_values_def entry_ok_def)
  show "\<forall>x \<in> set (tl ?g). shape_ok x \<and> \<not> IsOverflowKey x \<and> length (Key x) < 65536"
    using tl ok(2) entry_bounds [OF _ assms(2)] by (simp add: entry_ok_def)
  have w: "entry_ok cfg (hd ?g)" using ok(1,3) by simp
  have "length (Value (hd ?g)) < 4294967296" using val_bound [of "hd ?g"] w len by (simp add: entry_ok_def full_length)
  then have "decodeFullKeyEntry buf ?o = Inr (hd ?g, ?o + length (full_bytes (hd ?g)))"
    using w entry_bounds [OF w assms(2)] h by (intro decode_full) (simp_all add: entry_ok_def)
  then show "restart_entry (comp_reader cfg gs buf) (int i) = Inr (hd ?g, ?o + length (full_bytes (hd ?g)))"
    using comp_table(1) [OF assms(1,4)] by (simp add: restart_entry_def) (simp add: comp_reader_def)
qed

section \<open>Lookup\<close>

text \<open>The full keys, group by group.\<close>

definition group_keys :: "LeafEntry list list \<Rightarrow> bytes list list \<Rightarrow> bool" where
  "group_keys gs kss \<longleftrightarrow> list_all2 (list_all2 full_key) gs kss"

lemma group_keys_nth:
  assumes "group_keys gs kss" "i < length gs"
  shows "length (kss ! i) = length (gs ! i)" "\<And>j. j < length (gs ! i) \<Longrightarrow> full_key (gs ! i ! j) (kss ! i ! j)"
  using assms by (auto simp: group_keys_def list_all2_conv_all_nth)

lemma group_tail_keys:
  assumes "list_all2 full_key es ks" "\<forall>x \<in> set es. \<not> IsOverflowKey x"
  shows "ks = map Key es"
  using assms by (induction rule: list_all2_induct) (auto simp: full_key_def)

lemma comp_search:
  assumes "comp_layout cfg gs buf" "Validate cfg = None" "\<forall>g \<in> set gs. group_ok cfg g" "group_keys gs kss" "sorted_wrt (<) (concat kss)"
    and "\<forall>i < length gs. tail_reads tail target (hd (gs ! i)) (hd (kss ! i))"
  shows "SearchLeaf (comp_reader cfg gs buf) target tail = Inr (found_at (concat gs) (concat kss) target)"
proof (cases "concat gs = []")
  case True
  moreover have "length (concat kss) = length (concat gs)"
    using assms(4) by (simp add: group_keys_def length_concat) (induction rule: list_all2_induct, auto dest: list_all2_lengthD)
  ultimately have "concat kss = []" by (metis length_0_conv)
  then show ?thesis using True by (simp add: SearchLeaf_def comp_reader_def found_at_Nil del: concat_eq_Nil_conv)
next
  case False
  let ?r = "comp_reader cfg gs buf"
  have rc: "restartCount (r_rt ?r) = length gs" by (simp add: comp_reader_def newRestartTable_def)
  have ml: "map length kss = map length gs"
    using assms(4) unfolding group_keys_def by (induction rule: list_all2_induct) (auto dest: list_all2_lengthD)
  have ne: "\<forall>g \<in> set gs. g \<noteq> []" using assms(3) by (simp add: group_ok_def)
  have gi: "gs ! i \<noteq> []" "kss ! i \<noteq> []" "full_key (hd (gs ! i)) (hd (kss ! i))" "list_all2 full_key (tl (gs ! i)) (tl (kss ! i))"
      "sorted_wrt (<) (kss ! i)" if i: "i < length gs" for i
  proof -
    have l: "list_all2 full_key (gs ! i) (kss ! i)" using assms(4) i by (simp add: group_keys_def list_all2_conv_all_nth)
    show "gs ! i \<noteq> []" using ne i by simp
    then show "kss ! i \<noteq> []" "full_key (hd (gs ! i)) (hd (kss ! i))" "list_all2 full_key (tl (gs ! i)) (tl (kss ! i))"
      using l by (cases "gs ! i"; cases "kss ! i"; simp)+
    have "length kss = length gs" using ml by (metis length_map)
    then show "sorted_wrt (<) (kss ! i)" using assms(5) concat_split [of i kss] i by (simp add: sorted_wrt_append)
  qed
  have "compressedSearchLeaf ?r target tail = Inr (found_at (concat gs) (concat kss) target)"
  proof -
    define hit where "hit lo = bind_res (restart_entry ?r (int lo)) (\<lambda>(e, _).
       bind_res (rt_GroupStartIndex (r_rt ?r) lo) (\<lambda>idx. Inr (idx, e\<lparr>Key := []\<rparr>, True)))" for lo
    define scan where "scan g = bind_res (rt_GroupStartIndex (r_rt ?r) g) (\<lambda>startIdx.
       bind_res (rt_GroupEntryCount (r_rt ?r) (int g)) (\<lambda>gc.
       bind_res (restart_entry ?r (int g)) (\<lambda>(re, off).
       if gc = 0 then Inr (startIdx, no_entry, False)
       else skip_scan (r_buf ?r) target (gc - 1) (startIdx + 1) off (sharedPrefixLen (Key re) target))))" for g
    let ?probe = "\<lambda>mid. bind_res (restart_entry ?r (int mid)) (\<lambda>(e, _). compareEntryKey e target tail)"
    have "compressedSearchLeaf ?r target tail = bind_res (bsearch3 ?probe 0 (length gs)) (\<lambda>(lo, found). if found then hit lo
        else if lo = 0 then Inr (0, no_entry, False) else scan (lo - 1))"
      unfolding compressedSearchLeaf_def rc hit_def scan_def
      by (intro arg_cong2 [where f = bind_res] refl ext) (auto simp: of_nat_diff)
    also have "\<dots> = Inr (found_at (concat gs) (concat kss) target)"
    proof (rule two_phase [OF ml ne assms(5) refl])
      fix i assume i: "i < length gs"
      show "?probe i = Inr (Compare (hd (kss ! i)) target)"
        using comp_group(1) [OF assms(1-3) i] compareEntryKey_full [OF gi(3) [OF i]] assms(6) i by simp
      show "hit i = Inr (starts gs i, (hd (gs ! i))\<lparr>Key := []\<rparr>, True)"
        unfolding hit_def using comp_group(1) [OF assms(1-3) i] comp_table(3) [OF assms(1) i] by simp
      assume lt: "hd (kss ! i) < target"
      obtain e es where e: "gs ! i = e # es" using gi(1) [OF i] by (cases "gs ! i") auto
      obtain k ks where k: "kss ! i = k # ks" using gi(2) [OF i] by (cases "kss ! i") auto
      have "skip_scan buf target (length es) (starts gs i + 1) (stream_off 12 (comp_stream gs) i + length (full_bytes e)) (sharedPrefixLen (Key e) target) =
          Inr (shift (starts gs i + 1) (found_at es ks target))"
      proof (cases es)
        case Nil
        then show ?thesis using gi(4) [OF i] e k by (simp add: found_at_Nil)
      next
        case (Cons y ys)
        have "group_ok cfg (gs ! i)" using assms(3) i by simp
        then have no: "\<not> IsOverflowKey e" "\<forall>x \<in> set es. \<not> IsOverflowKey x" using e Cons by (auto simp: group_ok_def)
        then have "Key e = k" "ks = map Key es" using gi(3,4) [OF i] e k group_tail_keys [of es ks] by (auto simp: full_key_def)
        then show ?thesis
          using skip_scan_finds [OF comp_group(2) [OF assms(1-3) i] comp_group(4) [OF assms(1-3) i] comp_group(3) [OF assms(1-3) i], of target "starts gs i + 1"]
            gi(5) [OF i] e k lt by simp
      qed
      then have "scan i = Inr (shift (starts gs i + 1) (found_at es ks target))"
        unfolding scan_def using comp_group(1) [OF assms(1-3) i] comp_table(2,3) [OF assms(1) i] e by (simp add: comp_reader_def)
      then show "scan i = Inr (shift (starts gs i) (found_at (gs ! i) (kss ! i) target))"
        using found_at_below [of k target e es ks] lt e k by (cases "found_at es ks target") simp
    qed
    finally show ?thesis .
  qed
  moreover have "r_count ?r \<noteq> 0" "r_variant ?r \<noteq> TypeLeafUncompressed" "r_variant ?r \<noteq> TypeLeafSegregated"
    using False by (simp_all add: comp_reader_def page_types del: concat_eq_Nil_conv)
  ultimately show ?thesis by (simp only: SearchLeaf_def if_False)
qed

section \<open>Entries by index\<close>

lemma comp_EntryAt:
  assumes "comp_layout cfg gs buf" "Validate cfg = None" "\<forall>g \<in> set gs. group_ok cfg g" "idx < length (concat gs)"
  shows "EntryAt (comp_reader cfg gs buf) idx = Inr (concat gs ! idx)"
proof -
  let ?r = "comp_reader cfg gs buf"
  have "comp_entry_loop ?r idx [k..<length gs] (starts gs k) = Inr (concat gs ! idx)" if "k \<le> length gs" "starts gs k \<le> idx" for k
    using that
  proof (induction "length gs - k" arbitrary: k)
    case 0
    then show ?case using assms(4) by (simp add: starts_concat)
  next
    case (Suc d)
    then have k: "k < length gs" "[k..<length gs] = k # [Suc k..<length gs]" using upt_conv_Cons by auto
    have s: "starts gs (Suc k) = starts gs k + length (gs ! k)" using k(1) by (simp add: starts_def take_Suc_conv_app_nth)
    show ?case
    proof (cases "idx < starts gs (Suc k)")
      case False
      then show ?thesis using Suc.hyps(1) [of "Suc k"] Suc.hyps(2) k comp_table(2) [OF assms(1) k(1)] s by simp
    next
      case True
      obtain e es where e: "gs ! k = e # es" using assms(3) k(1) by (cases "gs ! k") (auto simp: group_ok_def dest: nth_mem)
      have "delta_walk buf (idx - starts gs k) e (stream_off 12 (comp_stream gs) k + length (full_bytes e)) = Inr ((e # es) ! (idx - starts gs k))"
        using comp_group(2-4) [OF assms(1-3) k(1)] e True s Suc.prems(2) by (intro delta_walk_reads) auto
      moreover have "concat gs ! idx = (e # es) ! (idx - starts gs k)"
      proof -
        have i: "idx - starts gs k < length (gs ! k)" using True s Suc.prems(2) by linarith
        show ?thesis unfolding concat_split [OF k(1)] using i Suc.prems(2) e by (simp only: nth_append starts_concat if_True if_False not_less [symmetric])
      qed
      ultimately show ?thesis
        using k comp_table(2) [OF assms(1) k(1)] comp_group(1) [OF assms(1-3) k(1)] s True e by (simp add: comp_reader_def)
    qed
  qed
  from this [of 0] show ?thesis
    using assms(4) by (simp add: EntryAt_def compressedEntryAt_def starts_def) (simp add: comp_reader_def newRestartTable_def page_types)
qed

section \<open>The builder\<close>

definition comp_built :: "Config \<Rightarrow> LeafEntry list list \<Rightarrow> LeafBuilder \<Rightarrow> bool" where
  "comp_built cfg gs b \<longleftrightarrow> (let e = 12 + length (concat (comp_stream gs)) in
     b_variant b = TypeLeaf \<and> b_cfg b = cfg \<and> length (b_buf b) = unat (PageSize cfg) \<and> b_count b = length (concat gs) \<and>
     b_dataPos b = e \<and> e + 4 * length gs \<le> content_end cfg \<and> holds (b_buf b) 12 (concat (comp_stream gs)) \<and>
     tracks (b_rgt b) (group_offs 12 (comp_stream gs)) (map length gs) \<and> (\<forall>g \<in> set gs. group_ok cfg g) \<and>
     (gs \<noteq> [] \<longrightarrow> b_prevKey b = Key (last (last gs)) \<and> b_forceRestart b = IsOverflowKey (last (last gs))))"

lemma target_bound:
  assumes "Validate cfg = None"
  shows "unat (EffectiveRestartGroupTarget cfg) < 256" "0 < unat (EffectiveRestartGroupTarget cfg)"
proof -
  have "RestartGroupTarget cfg \<le> 255" using Validate_None [OF assms] by simp
  then show "unat (EffectiveRestartGroupTarget cfg) < 256"
    by (auto simp: EffectiveRestartGroupTarget_def DefaultRestartGroupTarget_def word_le_nat_alt)
  show "0 < unat (EffectiveRestartGroupTarget cfg)"
    by (auto simp: EffectiveRestartGroupTarget_def DefaultRestartGroupTarget_def unat_gt_0)
qed

lemma group_offs_snoc: "group_offs base (bss @ [x]) = group_offs base bss @ [stream_off base bss (length bss)]"
  by simp

text \<open>The last group grows by one delta; the offsets of the groups stay.\<close>

lemma group_chunks_snoc:
  assumes "g \<noteq> []"
  shows "concat (group_chunks (g @ [e])) = concat (group_chunks g) @ delta_bytes (sharedPrefixLen (Key (last g)) (Key e)) e"
  using assms by (cases g) (auto simp: group_chunks_def deltas_append)

lemma offs_last: "group_offs base (bss @ [x]) = group_offs base (bss @ [y])"
  by simp

lemma opens_group_cases:
  assumes "comp_built cfg gs b" "Validate cfg = None" "\<not> opens_group b key flags"
  shows "gs \<noteq> []" "length (last gs) < unat (EffectiveRestartGroupTarget cfg)" "\<not> bit flags 4" "\<not> IsOverflowKey (last (last gs))"
proof -
  note B = assms(1) [unfolded comp_built_def Let_def]
  have o: "\<not> IsRestart (b_rgt b) (b_count b) (unat (EffectiveRestartGroupTarget cfg))" "\<not> bit flags 4" "\<not> b_forceRestart b"
    using assms(3) B by (auto simp: opens_group_def Let_def)
  then have c: "0 < length (concat gs)" "curGroupCount (b_rgt b) < unat (EffectiveRestartGroupTarget cfg)" using B by (auto simp: IsRestart_def)
  then show gs: "gs \<noteq> []" by auto
  show "length (last gs) < unat (EffectiveRestartGroupTarget cfg)" using c(2) B gs by (simp add: tracks_def last_map split: if_splits)
  show "\<not> bit flags 4" by (rule o(2))
  show "\<not> IsOverflowKey (last (last gs))" using o(3) B gs by simp
qed

definition comp_need :: "LeafEntry list list \<Rightarrow> nat" where
  "comp_need gs = 12 + length (concat (comp_stream gs)) + 4 * length gs"

lemma comp_add_restart:
  assumes "comp_built cfg gs b" "shape_ok e" "Validate cfg = None" "entry_ok cfg e" "opens_group b (Key e) (Flags e)"
  shows "\<exists>ok b'. addCompressedEntry b (Key e) (Flags e) (Value e) (fst (ref_pair e)) (snd (ref_pair e)) (KeyExtPage e) (KeyTotalLen e) = Inr (ok, b') \<and>
    (ok \<longrightarrow> comp_built cfg (gs @ [[stored e]]) (b'\<lparr>b_lastAddedKey := x\<rparr>)) \<and> (\<not> ok \<longrightarrow> content_end cfg < comp_need (gs @ [[stored e]]))"
proof -
  note B = assms(1) [unfolded comp_built_def Let_def] and sz = entry_sizes [OF assms(2)] and pb = page_bounds [OF assms(3)]
  let ?f = "full_bytes (stored e)" and ?p = "12 + length (concat (comp_stream gs))"
  let ?t = "if 0 < curGroupCount (b_rgt b) then FinalizeCurrentGroup (b_rgt b) else b_rgt b"
  have tl: "length (restarts ?t) = length gs"
    using tracks_len [of "b_rgt b" "group_offs 12 (comp_stream gs)" "map length gs"] tracks_finalize [of "b_rgt b" "group_offs 12 (comp_stream gs)" "map length gs"] B
    by simp
  define b1 where "b1 = (if True \<and> curGroupCount (b_rgt b) > 0 then b\<lparr>b_rgt := FinalizeCurrentGroup (b_rgt b)\<rparr> else b)"
  have b1: "b1 = b\<lparr>b_rgt := ?t\<rparr>" by (simp add: b1_def)
  have size: "b_dataPos b1 + (1 + keyPartSize (Flags e) (Key e) + (length (vlen_bytes (stored e)) + length (val_bytes (stored e)))) + TableSize (b_rgt b1) 1 =
      ?p + length ?f + 4 * length (gs @ [[stored e]])"
    using B sz(2) tl by (simp add: b1 TableSize_def restartTableEntrySize_def)
  show ?thesis
  proof (cases "?p + length ?f + 4 * length (gs @ [[stored e]]) \<le> content_end cfg")
    case False
    then have "addCompressedEntry b (Key e) (Flags e) (Value e) (fst (ref_pair e)) (snd (ref_pair e)) (KeyExtPage e) (KeyTotalLen e) = Inr (False, b1)"
      unfolding addCompressedEntry_def Let_def
      by (simp only: assms(5) if_True b1_def [symmetric] sz(1) bind_res.simps size) (use B in \<open>simp add: b1 not_le\<close>)
    moreover have "content_end cfg < comp_need (gs @ [[stored e]])" using False by (simp add: comp_need_def group_chunks_def)
    ultimately show ?thesis by blast
  next
    case True
    have l: "?p + length ?f \<le> length (b_buf b)" using True B pb(2) by simp
    define buf where "buf = overwrite (b_buf b) ?p ?f"
    have w: "writeFullKeyEntry (b_buf b) (b_dataPos b) (Flags e) (Key e) (Value e) (fst (ref_pair e)) (snd (ref_pair e)) (KeyExtPage e) (KeyTotalLen e) =
        Inr (buf, ?p + length ?f)" using write_full [OF assms(2) l] B by (simp add: buf_def)
    have "holds buf 12 (concat (comp_stream gs))" unfolding buf_def using B l by (intro holds_other) auto
    moreover have "holds buf ?p ?f" unfolding buf_def using l by (rule holds_same)
    ultimately have h: "holds buf 12 (concat (comp_stream (gs @ [[stored e]])))" by (simp add: holds_append group_chunks_def)
    let ?b = "b\<lparr>b_buf := buf, b_dataPos := ?p + length ?f, b_prevKey := Key e, b_count := b_count b + 1,
      b_rgt := IncrCount (StartGroup ?t ?p), b_forceRestart := bit (Flags e) 4\<rparr>"
    have "addCompressedEntry b (Key e) (Flags e) (Value e) (fst (ref_pair e)) (snd (ref_pair e)) (KeyExtPage e) (KeyTotalLen e) = Inr (True, ?b)"
    proof -
      have fit: "(?p + length ?f + 4 * length (gs @ [[stored e]]) > content_end (b_cfg b1)) = False" using True B by (simp add: b1)
      show ?thesis
        unfolding addCompressedEntry_def Let_def
        by (simp only: assms(5) if_True b1_def [symmetric] sz(1) bind_res.simps size fit if_False)
          (use w B in \<open>simp add: b1\<close>)
    qed
    moreover have "comp_built cfg (gs @ [[stored e]]) (?b\<lparr>b_lastAddedKey := x\<rparr>)"
    proof -
      have "tracks (IncrCount (StartGroup ?t ?p)) (group_offs 12 (comp_stream (gs @ [[stored e]]))) (map length (gs @ [[stored e]]))"
      proof -
        have o: "group_offs 12 (comp_stream (gs @ [[stored e]])) = group_offs 12 (comp_stream gs) @ [?p]"
          using group_offs_snoc [of 12 "comp_stream gs"] stream_off_end [of 12 "comp_stream gs"] by simp
        have m: "map length (gs @ [[stored e]]) = map length gs @ [1]" by simp
        show ?thesis unfolding o m using B by (intro tracks_restart) blast
      qed
      moreover have "group_ok cfg [stored e]" using assms(2,4) stored_shape by (simp add: group_ok_def entry_ok_def)
      ultimately show ?thesis
        unfolding comp_built_def Let_def using B True h l by (simp add: buf_def group_chunks_def IsOverflowKey_def)
    qed
    ultimately show ?thesis by blast
  qed
qed

lemma comp_add_delta:
  assumes "comp_built cfg gs b" "shape_ok e" "Validate cfg = None" "entry_ok cfg e" "\<not> opens_group b (Key e) (Flags e)"
  shows "\<exists>ok b'. addCompressedEntry b (Key e) (Flags e) (Value e) (fst (ref_pair e)) (snd (ref_pair e)) (KeyExtPage e) (KeyTotalLen e) = Inr (ok, b') \<and>
    (ok \<longrightarrow> comp_built cfg (butlast gs @ [last gs @ [stored e]]) (b'\<lparr>b_lastAddedKey := x\<rparr>)) \<and>
    (\<not> ok \<longrightarrow> content_end cfg < comp_need (butlast gs @ [last gs @ [stored e]]))"
proof -
  note B = assms(1) [unfolded comp_built_def Let_def] and sz = entry_sizes [OF assms(2)] and pb = page_bounds [OF assms(3)]
  note o = opens_group_cases [OF assms(1,3,5)]
  define hs g where hg: "hs = butlast gs" "g = last gs"
  have gs: "gs = hs @ [g]" using o(1) by (simp add: hg)
  have gok: "group_ok cfg g" "g \<noteq> []" using B gs by (auto simp: group_ok_def)
  let ?s = "sharedPrefixLen (Key (last g)) (Key e)" and ?p = "12 + length (concat (comp_stream gs))"
  let ?f = "delta_bytes ?s (stored e)"
  have pk: "b_prevKey b = Key (last g)" using B o(1) gs by simp
  have sl: "?s \<le> length (Key e)" by (rule sharedPrefixLen_le)
  have cat: "concat (comp_stream (hs @ [g @ [stored e]])) = concat (comp_stream gs) @ ?f" using group_chunks_snoc [OF gok(2), of "stored e"] gs by simp
  have tl: "length (restarts (b_rgt b)) = length gs"
    using tracks_len [of "b_rgt b" "group_offs 12 (comp_stream gs)" "map length gs"] B by simp
  have size: "b_dataPos b + (1 + (2 + 2 + length (drop ?s (Key e))) + (length (vlen_bytes (stored e)) + length (val_bytes (stored e)))) + TableSize (b_rgt b) 0 =
      ?p + length ?f + 4 * length gs"
    using B sz(3) [OF sl o(3)] tl by (simp add: TableSize_def restartTableEntrySize_def)
  show ?thesis
  proof (cases "?p + length ?f + 4 * length gs \<le> content_end cfg")
    case False
    then have "addCompressedEntry b (Key e) (Flags e) (Value e) (fst (ref_pair e)) (snd (ref_pair e)) (KeyExtPage e) (KeyTotalLen e) = Inr (False, b)"
      unfolding addCompressedEntry_def Let_def
      by (simp only: assms(5) if_False simp_thms pk sz(1) bind_res.simps size) (use B in \<open>simp add: not_le\<close>)
    moreover have "content_end cfg < comp_need (hs @ [g @ [stored e]])" unfolding comp_need_def cat using False gs by simp
    ultimately show ?thesis unfolding hg by blast
  next
    case True
    have l: "?p + length ?f \<le> length (b_buf b)" using True B pb(2) by simp
    define buf where "buf = overwrite (b_buf b) ?p ?f"
    have w: "writeCompressedDeltaEntry (b_buf b) (b_dataPos b) (Flags e) ?s (drop ?s (Key e)) (Value e) (fst (ref_pair e)) (snd (ref_pair e)) =
        Inr (buf, ?p + length ?f)" using write_delta [OF assms(2) sl l] B by (simp add: buf_def)
    have "holds buf 12 (concat (comp_stream gs))" unfolding buf_def using B l by (intro holds_other) auto
    moreover have "holds buf ?p ?f" unfolding buf_def using l by (rule holds_same)
    ultimately have h: "holds buf 12 (concat (comp_stream (hs @ [g @ [stored e]])))" unfolding cat by (simp add: holds_append)
    let ?b = "b\<lparr>b_buf := buf, b_dataPos := ?p + length ?f, b_prevKey := Key e, b_count := b_count b + 1,
      b_rgt := IncrCount (b_rgt b), b_forceRestart := bit (Flags e) 4\<rparr>"
    have "addCompressedEntry b (Key e) (Flags e) (Value e) (fst (ref_pair e)) (snd (ref_pair e)) (KeyExtPage e) (KeyTotalLen e) = Inr (True, ?b)"
    proof -
      have fit: "(?p + length ?f + 4 * length gs > content_end (b_cfg b)) = False" using True B by simp
      show ?thesis
        unfolding addCompressedEntry_def Let_def
        by (simp only: assms(5) if_False simp_thms pk sz(1) bind_res.simps size fit w prod.case flag_bits)
    qed
    moreover have "comp_built cfg (hs @ [g @ [stored e]]) (?b\<lparr>b_lastAddedKey := x\<rparr>)"
    proof -
      have "tracks (IncrCount (b_rgt b)) (group_offs 12 (comp_stream (hs @ [g @ [stored e]]))) (map length (hs @ [g @ [stored e]]))"
      proof -
        have o: "group_offs 12 (comp_stream (hs @ [g @ [stored e]])) = group_offs 12 (comp_stream gs)" unfolding gs map_append list.map by (rule offs_last)
        have m: "map length (hs @ [g @ [stored e]]) = map length hs @ [length g + 1]" "map length gs = map length hs @ [length g]" using gs by simp_all
        show ?thesis unfolding o m(1) using B m(2) by (intro tracks_incr) (simp only:)
      qed
      moreover have "group_ok cfg (g @ [stored e])"
        using gok assms(2,4) o(2-4) stored_shape target_bound(1) [OF assms(3)] gs
        by (cases g) (auto simp: group_ok_def entry_ok_def IsOverflowKey_def split: if_splits)
      ultimately show ?thesis
        unfolding comp_built_def Let_def cat using B True h [unfolded cat] l gs by (simp add: buf_def IsOverflowKey_def)
    qed
    ultimately show ?thesis unfolding hg by blast
  qed
qed

lemma concat_grow: "gs \<noteq> [] \<Longrightarrow> concat (butlast gs @ [last gs @ [e]]) = concat gs @ [e]"
  by (induction gs) auto

lemma comp_add:
  assumes "comp_built cfg gs b" "Validate cfg = None" "entry_ok cfg e"
  shows "\<exists>ok b' gs'. addCompressedEntry b (Key e) (Flags e) (Value e) (fst (ref_pair e)) (snd (ref_pair e)) (KeyExtPage e) (KeyTotalLen e) = Inr (ok, b') \<and>
    concat gs' = concat gs @ [stored e] \<and> (\<forall>g \<in> set gs'. g \<noteq> []) \<and>
    (ok \<longrightarrow> comp_built cfg gs' (b'\<lparr>b_lastAddedKey := x\<rparr>)) \<and> (\<not> ok \<longrightarrow> content_end cfg < comp_need gs')"
proof -
  have s: "shape_ok e" using assms(3) by (simp add: entry_ok_def)
  have ne: "\<forall>g \<in> set gs. g \<noteq> []" using assms(1) by (auto simp: comp_built_def Let_def group_ok_def)
  show ?thesis
  proof (cases "opens_group b (Key e) (Flags e)")
    case True
    have c: "concat (gs @ [[stored e]]) = concat gs @ [stored e]" "\<forall>g \<in> set (gs @ [[stored e]]). g \<noteq> []" using ne by auto
    from comp_add_restart [OF assms(1) s assms(2,3) True, of x] obtain ok b'
      where a: "addCompressedEntry b (Key e) (Flags e) (Value e) (fst (ref_pair e)) (snd (ref_pair e)) (KeyExtPage e) (KeyTotalLen e) = Inr (ok, b')"
        "ok \<longrightarrow> comp_built cfg (gs @ [[stored e]]) (b'\<lparr>b_lastAddedKey := x\<rparr>)" "\<not> ok \<longrightarrow> content_end cfg < comp_need (gs @ [[stored e]])" by blast
    show ?thesis by (rule exI [of _ ok], rule exI [of _ b'], rule exI [of _ "gs @ [[stored e]]"]) (intro conjI a c)
  next
    case False
    have c: "concat (butlast gs @ [last gs @ [stored e]]) = concat gs @ [stored e]" "\<forall>g \<in> set (butlast gs @ [last gs @ [stored e]]). g \<noteq> []"
      using ne concat_grow [OF opens_group_cases(1) [OF assms(1,2) False]] by (auto dest: in_set_butlastD)
    from comp_add_delta [OF assms(1) s assms(2,3) False, of x] obtain ok b'
      where a: "addCompressedEntry b (Key e) (Flags e) (Value e) (fst (ref_pair e)) (snd (ref_pair e)) (KeyExtPage e) (KeyTotalLen e) = Inr (ok, b')"
        "ok \<longrightarrow> comp_built cfg (butlast gs @ [last gs @ [stored e]]) (b'\<lparr>b_lastAddedKey := x\<rparr>)" "\<not> ok \<longrightarrow> content_end cfg < comp_need (butlast gs @ [last gs @ [stored e]])" by blast
    show ?thesis by (rule exI [of _ ok], rule exI [of _ b'], rule exI [of _ "butlast gs @ [last gs @ [stored e]]"]) (intro conjI a c)
  qed
qed

lemma comp_finish:
  assumes "comp_built cfg gs b" "Validate cfg = None"
  shows "\<exists>page. Finish b = Inr page \<and> comp_layout cfg gs page"
proof -
  note B = assms(1) [unfolded comp_built_def Let_def] and pb = page_bounds [OF assms(2)]
  define rc e ce n where nec: "rc = length gs" "e = 12 + length (concat (comp_stream gs))" "ce = content_end cfg" "n = length (concat gs)"
  have fits: "e + 4 * rc \<le> ce" "ce \<le> length (b_buf b)" "12 \<le> e" "ce \<le> 65536" using B pb by (simp_all add: nec)
  have offs: "\<forall>i < length (group_offs 12 (comp_stream gs)). group_offs 12 (comp_stream gs) ! i < 65536 \<and> map length gs ! i < 256"
  proof (intro allI impI)
    fix i assume "i < length (group_offs 12 (comp_stream gs))"
    then have i: "i < length gs" by simp
    then have "0 < rc" by (auto simp: nec)
    then have "stream_off 12 (comp_stream gs) i < 65536" using stream_off_le [of 12 "comp_stream gs" i] fits unfolding nec by linarith
    moreover have "group_ok cfg (gs ! i)" using B i by simp
    ultimately show "group_offs 12 (comp_stream gs) ! i < 65536 \<and> map length gs ! i < 256" using i by (simp add: group_ok_def)
  qed
  obtain b1 where b1: "WriteTable (b_rgt b) (b_buf b) ce = Inr (b1, rc)" "differs_in {ce - 4 * rc..<ce} (b_buf b) b1"
      "table_at ce (group_offs 12 (comp_stream gs)) (map length gs) b1"
    using WriteTable_ok [OF _ _ _ offs, of "b_rgt b" ce "b_buf b"] B fits by (auto simp: nec)
  have l1: "length b1 = length (b_buf b)" using differs_len [OF b1(2)] .
  obtain b2 where b2: "zeroFreeSpace b1 e (int ce - int (rc * 4)) = Inr b2" "differs_in {e..<nat (int ce - int (rc * 4))} b1 b2"
    using zeroFreeSpace_ok [of "int ce - int (rc * 4)" b1 e] fits l1 by auto
  have l2: "length b2 = length (b_buf b)" using differs_len [OF b2(2)] l1 by simp
  obtain b3 where b3: "write_header b2 TypeLeaf (word_of_nat n) 0 = Inr b3" "differs_in {0..<8} b2 b3" "holds b3 0 (header_bytes TypeLeaf (word_of_nat n) 0)"
    using write_header_holds [of b2 TypeLeaf "word_of_nat n" 0] fits l2 by auto
  have l3: "length b3 = length (b_buf b)" using differs_len [OF b3(2)] l2 by simp
  obtain b4 where p4: "put_at b3 8 (w16 (word_of_nat rc)) = Inr b4" and d4: "differs_in {8..<8 + 2} b3 b4"
      and h4: "holds b4 8 (w16 (word_of_nat rc))" and l4: "length b4 = length b3" using put_w16 [of 8 b3 "word_of_nat rc"] fits l3 by auto
  obtain b5 where p5: "put_at b4 10 (w16 (word_of_nat e)) = Inr b5" and d5: "differs_in {10..<10 + 2} b4 b5"
      and h5: "holds b5 10 (w16 (word_of_nat e))" using put_w16 [of 10 b4 "word_of_nat e"] fits l3 l4 by auto
  have d35: "differs_in {8..<12} b3 b5" by (rule differs_trans [OF d4 d5]) auto
  have d15: "differs_in ({0..<12} \<union> {e..<ce - 4 * rc}) b1 b5"
    by (rule differs_trans [OF differs_trans [OF b2(2) b3(2), of "{0..<8} \<union> {e..<ce - 4 * rc}"] d35]) (use fits in auto)
  have "differs_in ({0..<12} \<union> {e..<ce}) (b_buf b) b5" by (rule differs_trans [OF b1(2) d15]) (use fits in auto)
  then have s: "holds b5 12 (concat (comp_stream gs))" by (rule differs_holds) (use B in \<open>auto simp: nec\<close>)
  have hdr: "holds b5 0 (header_bytes TypeLeaf (word_of_nat n) 0)" by (rule differs_holds [OF d35 b3(3)]) auto
  have h8: "holds b5 8 (w16 (word_of_nat rc))" by (rule differs_holds [OF d5 h4]) (auto simp del: le_bytes.simps)
  have tab: "table_at ce (group_offs 12 (comp_stream gs)) (map length gs) b5"
    by (rule table_kept [OF b1(3) d15]) (use fits in \<open>auto simp: nec\<close>)
  have "length b5 = unat (PageSize cfg)" using differs_len [OF d5] l3 l4 B by simp
  then have lay: "comp_layout cfg gs b5" using fits s hdr h8 h5 tab by (simp add: comp_layout_def Let_def nec del: le_bytes.simps)
  have f: "b_variant b = TypeLeaf" "content_end (b_cfg b) = ce" "b_count b = n" "b_dataPos b = e" using B by (simp_all add: nec)
  have ty: "(TypeLeaf = TypeLeafUncompressed) = False" "(TypeLeaf = TypeLeafSegregated) = False" by (simp_all add: page_types)
  have num: "8 + 2 = (10 :: nat)" by simp
  have "Finish b = Inr b5"
    unfolding Finish_def Let_def leaf_sizes by (simp only: f ty num simp_thms if_True if_False b1(1) b2(1) b3(1) p4 p5 bind_res.simps prod.case)
  then show ?thesis using lay by blast
qed

end
