(* ===== verification/Leaf_Accept.thy ===== *)
theory Leaf_Accept
  imports Leaf_Safe Leaf_Comp
begin

text \<open>
  Validation accepts what the builders lay out: the checked decoders of \<^verbatim>\<open>LeafReader.Validate\<close> walk a
  page of well-formed entries to its end, for the uncompressed and the interleaved layout. The
  segregated layout follows in its own theory.
\<close>

section \<open>Entries\<close>

lemma shape_flags:
  assumes "shape_ok e"
  shows "(Flags e AND NOT cellFlagKnownMask \<noteq> 0) = False" "validateCellFlagsCombo (Flags e) = Inr ()"
proof -
  show "(Flags e AND NOT cellFlagKnownMask \<noteq> 0) = False" using assms by (simp add: shape_ok_def Let_def)
  have "Flags e AND NOT (CellFlagEmptyValue OR CellFlagOverflowKey) = 0" if "bit (Flags e) 3"
  proof (rule bit_eqI)
    fix n
    have "bit (Flags e) n \<Longrightarrow> n = 3 \<or> n = 4"
    proof -
      assume b: "bit (Flags e) n"
      have "n \<le> 4" "n \<noteq> 0" "n \<noteq> 1" "n \<noteq> 2" using assms b that unfolding shape_ok_def Let_def known_flags by (auto intro: ccontr)
      then show ?thesis by linarith
    qed
    then show "bit (Flags e AND NOT (CellFlagEmptyValue OR CellFlagOverflowKey)) n \<longleftrightarrow> bit (0 :: byte) n"
      by (auto simp: bit_and_iff bit_or_iff bit_not_iff bit_flag_consts)
  qed
  then show "validateCellFlagsCombo (Flags e) = Inr ()" using assms by (auto simp: validateCellFlagsCombo_def shape_ok_def Let_def)
qed

lemma ext_accepts:
  assumes "holds (r_buf r) p (ref_bytes e)" "key_ok t e" "n \<le> t"
  shows "validateKeyExt r (Flags e) p n = Inr ()"
proof (cases "bit (Flags e) 4")
  case True
  then have "u64_at (r_buf r) p = Inr (KeyExtPage e)" "u32_at (r_buf r) (p + 8) = Inr (KeyTotalLen e)"
    using assms(1) unfolding ref_bytes_def by (simp_all add: holds_append access_simps del: le_bytes.simps)
  then show ?thesis using True assms(2,3) by (simp add: validateKeyExt_def key_ok_def IsOverflowKey_def)
qed (simp add: validateKeyExt_def)

lemma full_accepts:
  assumes "entry_ok (r_cfg r) e" "length (Key e) < 65536" "length (Value e) < 4294967296" "holds (r_buf r) off (full_bytes e)"
    and "12 \<le> off" "off + length (full_bytes e) \<le> r_dataEnd r"
  shows "validateFullKeyEntry r off = Inr (off + length (full_bytes e), length (Key e), Flags e)"
proof -
  let ?k = "length (Key e)" and ?v = "length (vlen_bytes e)" and ?x = "length (ref_bytes e)" and ?b = "r_buf r" and ?t = "inline_max (r_cfg r)"
  have sh: "shape_ok e" "key_ok ?t e" using assms(1) by (simp_all add: entry_ok_def)
  have h: "holds ?b off [Flags e]" "holds ?b (off + 1) (w16 (word_of_nat ?k))" "holds ?b (off + 3) (vlen_bytes e)"
      "holds ?b (off + 3 + ?v + ?k) (ref_bytes e)"
    using assms(4) unfolding full_bytes_def holds_append by (simp_all add: add.assoc numeral_3_eq_3 del: le_bytes.simps)
  have x: "?x = (if bit (Flags e) 4 then 12 else 0)" by (simp add: entry_lengths)
  have key: "(if bit (Flags e) 4 then ?k \<noteq> ?t else ?t < ?k) = False" using sh(2) by (auto simp: key_ok_def IsOverflowKey_def)
  have kt: "?k \<le> ?t" using sh(2) by (auto simp: key_ok_def split: if_splits)
  note ext = ext_accepts [OF h(4) sh(2) kt]
  have en: "ensureBytes r o' n = Inr ()" if "12 \<le> o'" "o' + n \<le> r_dataEnd r" for o' n using that by (simp add: ensure_ok)
  have e0: "ensureBytes r off 1 = Inr ()" "ensureBytes r (off + 1) 2 = Inr ()" using assms(5,6) by (auto intro!: en simp: full_length)
  note run = e0 holds_u8 [OF h(1)] shape_flags [OF sh(1)] holds_u16 [OF h(2)] unat_len16 [OF assms(2)] flag_bits key bind_res.simps if_False Let_def
  show ?thesis
  proof (cases "cellHasTrailerOnly (Flags e) \<or> bit (Flags e) 3")
    case True
    then have v: "?v = 0" by (simp add: entry_lengths)
    have len: "length (full_bytes e) = 3 + ?k + ?x + (if cellHasTrailerOnly (Flags e) then 16 else 0)" using True by (auto simp: full_length v entry_lengths(3))
    have "ensureBytes r (off + 3) (?k + ?x + (if cellHasTrailerOnly (Flags e) then 16 else 0)) = Inr ()" using assms(5,6) len by (intro en) auto
    moreover have "validateKeyExt r (Flags e) (off + 3 + ?k) ?k = Inr ()" using ext v by simp
    ultimately show ?thesis
      unfolding validateFullKeyEntry_def run x [symmetric] len using True
      by (cases "cellHasTrailerOnly (Flags e)") (simp_all add: add.assoc)
  next
    case False
    then have v: "?v = 4" and vb: "vlen_bytes e = w32 (word_of_nat (length (Value e)))" by (simp add: entry_lengths, simp add: vlen_bytes_def)
    have len: "length (full_bytes e) = 3 + 4 + ?k + ?x + length (Value e)" using False by (simp add: full_length v entry_lengths(3))
    have "u32_at ?b (off + 3) = Inr (word_of_nat (length (Value e)))" using h(3) unfolding vb by (rule holds_u32)
    moreover have "ensureBytes r (off + 3) 4 = Inr ()" "ensureBytes r (off + 3 + 4) (?k + ?x + length (Value e)) = Inr ()"
      using assms(5,6) len by (auto intro!: en)
    ultimately show ?thesis
      unfolding validateFullKeyEntry_def run x [symmetric] len
      using False ext [unfolded v] by (simp add: unat_len32 [OF assms(3)] add.assoc)
  qed
qed

lemma delta_accepts:
  assumes "entry_ok (r_cfg r) e" "\<not> IsOverflowKey e" "length (Key e) < 65536" "length (Value e) < 4294967296"
    and "holds (r_buf r) off (delta_bytes s e)" "s \<le> length (Key e)" "s \<le> n" "12 \<le> off" "off + length (delta_bytes s e) \<le> r_dataEnd r"
  shows "validateDeltaEntry r off n = Inr (off + length (delta_bytes s e), length (Key e))"
proof -
  let ?u = "length (Key e) - s" and ?v = "length (vlen_bytes e)" and ?b = "r_buf r" and ?t = "inline_max (r_cfg r)"
  have sh: "shape_ok e" "key_ok ?t e" using assms(1) by (simp_all add: entry_ok_def)
  note h = delta_parts [OF assms(5)]
  have s: "s < 65536" "?u < 65536" "s + ?u = length (Key e)" using assms(3,6) by auto
  have f4: "bit (Flags e) 4 = False" using assms(2) by (simp add: IsOverflowKey_def)
  have key: "(n < s) = False" "(?t < length (Key e)) = False" using sh(2) assms(2,7) by (auto simp: key_ok_def)
  have en: "ensureBytes r o' n = Inr ()" if "12 \<le> o'" "o' + n \<le> r_dataEnd r" for o' n using that by (simp add: ensure_ok)
  have e0: "ensureBytes r off 1 = Inr ()" "ensureBytes r (off + 1) 4 = Inr ()" using assms(8,9) by (auto intro!: en simp: delta_length)
  note run = e0 holds_u8 [OF h(1)] shape_flags [OF sh(1)] holds_u16 [OF h(2)] holds_u16 [OF h(3)] unat_len16 [OF s(1)] unat_len16 [OF s(2)] s(3)
    flag_bits f4 key bind_res.simps if_False Let_def
  show ?thesis
  proof (cases "cellHasTrailerOnly (Flags e) \<or> bit (Flags e) 3")
    case True
    then have v: "?v = 0" by (simp add: entry_lengths)
    have len: "length (delta_bytes s e) = 5 + ?u + (if cellHasTrailerOnly (Flags e) then 16 else 0)" using True by (auto simp: delta_length v entry_lengths(3))
    have "ensureBytes r (off + 5) (?u + (if cellHasTrailerOnly (Flags e) then 16 else 0)) = Inr ()" using assms(8,9) len by (intro en) auto
    then show ?thesis unfolding validateDeltaEntry_def run len using True by (cases "cellHasTrailerOnly (Flags e)") (simp_all add: add.assoc)
  next
    case False
    then have v: "?v = 4" and vb: "vlen_bytes e = w32 (word_of_nat (length (Value e)))" by (simp add: entry_lengths, simp add: vlen_bytes_def)
    have len: "length (delta_bytes s e) = 5 + 4 + ?u + length (Value e)" using False by (simp add: delta_length v entry_lengths(3))
    have "u32_at ?b (off + 5) = Inr (word_of_nat (length (Value e)))" using h(4) unfolding vb by (rule holds_u32)
    moreover have "ensureBytes r (off + 5) 4 = Inr ()" "ensureBytes r (off + 5 + 4) (?u + length (Value e)) = Inr ()"
      using assms(8,9) len by (auto intro!: en)
    ultimately show ?thesis unfolding validateDeltaEntry_def run len using False by (simp add: unat_len32 [OF assms(4)] add.assoc)
  qed
qed

lemma value_fits:
  assumes "shape_ok e" "holds buf off (full_bytes e) \<or> holds buf off (delta_bytes s e)" "length buf \<le> 65536"
  shows "length (Value e) < 4294967296"
proof -
  have "length (val_bytes e) \<le> length buf" using assms(2) by (auto simp: full_length delta_length dest!: holds_len)
  then show ?thesis using val_bound [OF assms(1)] assms(3) by linarith
qed

section \<open>Uncompressed pages\<close>

lemma uc_accepts:
  assumes "uc_layout cfg es buf" "Validate cfg = None" "\<forall>e \<in> set es. entry_ok cfg e"
  shows "ValidateLeaf (uc_reader cfg es buf) = Inr ()"
proof -
  let ?r = "uc_reader cfg es buf" and ?n = "length es" and ?fl = "full_list es"
  note L = assms(1) [unfolded uc_layout_def Let_def]
  have step: "validateFullKeyEntry ?r (stream_off 12 ?fl i) = Inr (stream_off 12 ?fl (Suc i), length (Key (es ! i)), Flags (es ! i))" if i: "i < ?n" for i
  proof -
    have h: "holds buf (stream_off 12 ?fl i) (full_bytes (es ! i))" using holds_stream [of buf 12 ?fl i] L i by simp
    have ok: "entry_ok cfg (es ! i)" using assms(3) i by simp
    have "length (Value (es ! i)) < 4294967296"
      using value_fits [of "es ! i" buf "stream_off 12 ?fl i"] h ok L page_bounds(3) [OF assms(2)] by (auto simp: entry_ok_def)
    moreover have "stream_off 12 ?fl (Suc i) = stream_off 12 ?fl i + length (full_bytes (es ! i))" using stream_off_Suc [of i ?fl 12] i by simp
    moreover have "stream_off 12 ?fl (Suc i) \<le> 12 + length (concat ?fl)" by (rule stream_off_le)
    moreover have "12 \<le> stream_off 12 ?fl i" by (simp add: stream_off_def)
    ultimately show ?thesis
      using full_accepts [of ?r "es ! i" "stream_off 12 ?fl i"] h ok entry_bounds [OF ok assms(2)] by (simp add: uc_reader_def)
  qed
  have "uc_walk ?r [k..<?n] (stream_off 12 ?fl k) = Inr (stream_off 12 ?fl ?n)" if "k \<le> ?n" for k
    using that
  proof (induction k rule: inc_induct)
    case (step i)
    then show ?case
      using uc_entry_reads(2) [OF assms, of i] \<open>i < ?n \<Longrightarrow> validateFullKeyEntry ?r (stream_off 12 ?fl i) = _\<close>
      by (simp add: upt_conv_Cons)
  qed simp
  from this [of 0] have "uc_walk ?r [0..<?n] 12 = Inr (12 + length (concat ?fl))" using stream_off_end [of 12 ?fl] by simp
  then show ?thesis
    using L by (auto simp: ValidateLeaf_def Let_def is_seg_def is_uc_def uc_reader_def page_types leaf_sizes)
qed

section \<open>Interleaved pages\<close>

lemma deltas_accept:
  assumes "holds (r_buf r) off (concat (deltas prev es))" "\<forall>x \<in> set es. entry_ok (r_cfg r) x \<and> \<not> IsOverflowKey x \<and> length (Key x) < 65536"
    and "small_values es" "12 \<le> off" "off + length (concat (deltas prev es)) \<le> r_dataEnd r"
  shows "deltas_walk r (length es) off (length prev) = Inr (off + length (concat (deltas prev es)))"
  using assms
proof (induction es arbitrary: prev off)
  case (Cons e es)
  let ?s = "sharedPrefixLen prev (Key e)"
  have h: "holds (r_buf r) off (delta_bytes ?s e)" "holds (r_buf r) (off + length (delta_bytes ?s e)) (concat (deltas (Key e) es))"
    using Cons.prems(1) by (simp_all add: holds_append)
  have "delta_after prev ?s e" using spl_after Cons.prems(2) by simp
  then have s: "?s \<le> length (Key e)" "?s \<le> length prev" by (simp_all add: delta_after_def)
  have "validateDeltaEntry r off (length prev) = Inr (off + length (delta_bytes ?s e), length (Key e))"
    using Cons.prems by (intro delta_accepts h s) (auto simp: small_values_def)
  then show ?case using Cons.IH [OF h(2)] Cons.prems by (simp add: small_values_def add.assoc)
qed simp

lemma groups_accept:
  assumes "\<And>i. i < n \<Longrightarrow> rt_GroupEntryCount (r_rt r) (int i) = Inr (f i) \<and> 0 < f i" "k \<le> n"
  shows "sum_groups r [k..<n] acc = Inr (acc + sum_list (map f [k..<n]))"
  using assms(2)
proof (induction k arbitrary: acc rule: inc_induct)
  case (step k)
  then show ?case using assms(1) [of k] by (simp add: upt_conv_Cons)
qed simp

lemma map_lengths: "map (\<lambda>i. length (gs ! i)) [0..<length gs] = map length gs"
  by (rule nth_equalityI) simp_all

lemma comp_accepts:
  assumes "comp_layout cfg gs buf" "Validate cfg = None" "\<forall>g \<in> set gs. group_ok cfg g"
  shows "ValidateLeaf (comp_reader cfg gs buf) = Inr ()"
proof -
  let ?r = "comp_reader cfg gs buf" and ?n = "length gs" and ?cs = "comp_stream gs"
  note L = assms(1) [unfolded comp_layout_def Let_def]
  have r: "r_buf ?r = buf" "r_cfg ?r = cfg" "r_dataEnd ?r = 12 + length (concat ?cs)" by (simp_all add: comp_reader_def)
  have grp: "group_walk ?r (length (gs ! i)) (stream_off 12 ?cs i) = Inr (stream_off 12 ?cs (Suc i))" if i: "i < ?n" for i
  proof -
    let ?g = "gs ! i" and ?o = "stream_off 12 ?cs i"
    have ok: "group_ok cfg ?g" using assms(3) i by simp
    then have g: "?g = hd ?g # tl ?g" "entry_ok cfg (hd ?g)" "\<forall>e \<in> set (tl ?g). entry_ok cfg e \<and> \<not> IsOverflowKey e" "IsOverflowKey (hd ?g) \<Longrightarrow> tl ?g = []"
      by (cases ?g; simp add: group_ok_def)+
    note c = comp_group [OF assms i]
    have n: "stream_off 12 ?cs (Suc i) = ?o + (length (full_bytes (hd ?g)) + length (concat (deltas (Key (hd ?g)) (tl ?g))))"
      using stream_off_Suc [of i ?cs 12] i by (simp add: group_chunks_def)
    have end_le: "stream_off 12 ?cs (Suc i) \<le> 12 + length (concat ?cs)" by (rule stream_off_le)
    have o: "12 \<le> ?o" by (simp add: stream_off_def)
    have h: "holds buf ?o (full_bytes (hd ?g))"
      using holds_stream [of buf 12 ?cs i] L i by (simp add: group_chunks_def holds_append)
    have "length (Value (hd ?g)) < 4294967296"
      using value_fits [of "hd ?g" buf ?o] h g(2) L page_bounds(3) [OF assms(2)] by (auto simp: entry_ok_def)
    then have f: "validateFullKeyEntry ?r ?o = Inr (?o + length (full_bytes (hd ?g)), length (Key (hd ?g)), Flags (hd ?g))"
      using h g(2) entry_bounds [OF g(2) assms(2)] n end_le o by (intro full_accepts) (simp_all only: r)
    have d: "deltas_walk ?r (length (tl ?g)) (?o + length (full_bytes (hd ?g))) (length (Key (hd ?g))) = Inr (stream_off 12 ?cs (Suc i))"
      using deltas_accept [of ?r "?o + length (full_bytes (hd ?g))" "Key (hd ?g)" "tl ?g"] c(2-4) g(3) n end_le o by (simp add: r add.assoc)
    have l: "length ?g \<noteq> 0" "length ?g - 1 = length (tl ?g)" "IsOverflowKey (hd ?g) \<Longrightarrow> length ?g = 1" using g(1,4) by (cases ?g; simp)+
    have "(bit (Flags (hd ?g)) 4 \<and> length ?g \<noteq> 1) = False" using l(3) by (auto simp: IsOverflowKey_def)
    then show ?thesis unfolding group_walk_def using l f d by (simp only: if_False bind_res.simps prod.case flag_bits)
  qed
  have tab: "rt_GroupEntryCount (r_rt ?r) (int i) = Inr (length (gs ! i)) \<and> 0 < length (gs ! i)" "rt_Offset (r_rt ?r) (int i) = Inr (stream_off 12 ?cs i)" if "i < ?n" for i
  proof -
    have "gs ! i \<noteq> []" using assms(3) that by (auto simp: group_ok_def)
    then show "rt_GroupEntryCount (r_rt ?r) (int i) = Inr (length (gs ! i)) \<and> 0 < length (gs ! i)" "rt_Offset (r_rt ?r) (int i) = Inr (stream_off 12 ?cs i)"
      using comp_table [OF assms(1) that] by simp_all
  qed
  have "comp_walk ?r [k..<?n] (stream_off 12 ?cs k) = Inr (stream_off 12 ?cs ?n)" if "k \<le> ?n" for k
    using that
  proof (induction k rule: inc_induct)
    case (step i)
    then show ?case using tab [of i] grp [of i] by (simp add: upt_conv_Cons)
  qed simp
  from this [of 0] have w: "comp_walk ?r [0..<?n] 12 = Inr (12 + length (concat ?cs))" using stream_off_end [of 12 ?cs] by simp
  have s: "sum_groups ?r [0..<?n] 0 = Inr (length (concat gs))"
    using groups_accept [of ?n ?r "\<lambda>i. length (gs ! i)" 0 0] tab(1) by (simp add: map_lengths length_concat)
  have ne: "gs \<noteq> [] \<Longrightarrow> concat gs \<noteq> []" using assms(3) by (cases gs) (auto simp: group_ok_def)
  have rc: "restartCount (r_rt ?r) = ?n" "r_count ?r = length (concat gs)" "r_variant ?r = TypeLeaf" by (simp_all add: comp_reader_def newRestartTable_def)
  show ?thesis
  proof (cases "gs = []")
    case True
    then show ?thesis using L s rc r unfolding ValidateLeaf_def Let_def is_seg_def is_uc_def by (simp add: page_types leaf_sizes)
  next
    case False
    then show ?thesis using L s w ne rc r unfolding ValidateLeaf_def Let_def is_seg_def is_uc_def by (simp add: page_types leaf_sizes)
  qed
qed

end
