(* ===== verification/Leaf_Seg.thy ===== *)
theory Leaf_Seg
  imports Leaf_Comp
begin

text \<open>
  Segregated leaves: a stream of headers and keys, each with the offset of its value, and the values
  packed in entry order against the restart table. A value's length is the distance to the next
  value, so the readers take it from the following entry.
\<close>

section \<open>Pieces of the stream\<close>

text \<open>An entry of the stream is a header, the value offset and the key bytes; the offset is patched in last.\<close>

definition rpiece :: "LeafEntry \<Rightarrow> bytes \<times> bytes" where
  "rpiece e = ([Flags e] @ w16 (word_of_nat (length (Key e))), Key e)"

definition dpiece :: "bytes \<Rightarrow> LeafEntry \<Rightarrow> bytes \<times> bytes" where
  "dpiece prev e = (let s = sharedPrefixLen prev (Key e) in
     ([Flags e] @ w16 (word_of_nat s) @ w16 (word_of_nat (length (Key e) - s)), drop s (Key e)))"

fun dpieces :: "bytes \<Rightarrow> LeafEntry list \<Rightarrow> (bytes \<times> bytes) list" where
  "dpieces prev [] = []"
| "dpieces prev (e # es) = dpiece prev e # dpieces (Key e) es"

definition group_pieces :: "LeafEntry list \<Rightarrow> (bytes \<times> bytes) list" where
  "group_pieces g = rpiece (hd g) # dpieces (Key (hd g)) (tl g)"

definition pieces :: "LeafEntry list list \<Rightarrow> (bytes \<times> bytes) list" where
  "pieces gs = concat (map group_pieces gs)"

definition piece_len :: "bytes \<times> bytes \<Rightarrow> nat" where
  "piece_len p = length (fst p) + 2 + length (snd p)"

definition piece_off :: "(bytes \<times> bytes) list \<Rightarrow> nat \<Rightarrow> nat" where
  "piece_off ps j = 14 + sum_list (map piece_len (take j ps))"

definition chunk_of :: "bytes \<times> bytes \<Rightarrow> u16 \<Rightarrow> bytes" where
  "chunk_of p v = fst p @ w16 v @ snd p"

abbreviation chunks :: "(bytes \<times> bytes) list \<Rightarrow> u16 list \<Rightarrow> bytes list" where
  "chunks ps vs \<equiv> map2 chunk_of ps vs"

lemma chunk_len [simp]: "length (chunk_of p v) = piece_len p"
  by (simp add: chunk_of_def piece_len_def del: le_bytes.simps)

lemma chunks_lens: "length vs = length ps \<Longrightarrow> map length (chunks ps vs) = map piece_len ps"
  by (induction ps vs rule: list_induct2') auto

lemma piece_off_stream: "length vs = length ps \<Longrightarrow> stream_off 14 (chunks ps vs) j = piece_off ps j"
  by (simp add: stream_off_def piece_off_def take_map [symmetric] chunks_lens [symmetric])

lemma piece_off_Suc: "j < length ps \<Longrightarrow> piece_off ps (Suc j) = piece_off ps j + piece_len (ps ! j)"
  by (simp add: piece_off_def take_Suc_conv_app_nth)

lemma piece_off_mono: "i \<le> j \<Longrightarrow> piece_off ps i \<le> piece_off ps j"
  unfolding piece_off_def by (metis add_le_cancel_left le_add1 le_add_diff_inverse map_append sum_list_append take_add)

lemma piece_off_all: "length ps \<le> j \<Longrightarrow> piece_off ps j = piece_off ps (length ps)" by (simp add: piece_off_def)

lemma length_dpieces [simp]: "length (dpieces p es) = length es" by (induction es arbitrary: p) auto

lemma dpieces_nth: "m < length es \<Longrightarrow> dpieces p es ! m = dpiece (if m = 0 then p else Key (es ! (m - 1))) (es ! m)"
  by (induction es arbitrary: p m) (auto simp: nth_Cons split: nat.splits)

lemma group_pieces_nth:
  assumes "m < length g"
  shows "group_pieces g ! m = (if m = 0 then rpiece (g ! 0) else dpiece (Key (g ! (m - 1))) (g ! m))"
proof -
  obtain e es where g: "g = e # es" using assms by (cases g) auto
  show ?thesis using assms by (cases m) (auto simp: g group_pieces_def dpieces_nth nth_Cons split: nat.splits)
qed

lemma length_group_pieces: "g \<noteq> [] \<Longrightarrow> length (group_pieces g) = length g"
  by (cases g) (simp_all add: group_pieces_def)

lemma length_pieces: "\<forall>g \<in> set gs. g \<noteq> [] \<Longrightarrow> length (pieces gs) = length (concat gs)"
  by (induction gs) (auto simp: pieces_def length_group_pieces)

lemma pieces_nth:
  assumes "\<forall>g \<in> set gs. g \<noteq> []" "i < length gs" "m < length (gs ! i)"
  shows "pieces gs ! (starts gs i + m) = (if m = 0 then rpiece (gs ! i ! 0) else dpiece (Key (gs ! i ! (m - 1))) (gs ! i ! m))"
    "concat gs ! (starts gs i + m) = gs ! i ! m" "starts gs i + m < length (concat gs)"
proof -
  have "pieces gs = pieces (take i gs) @ group_pieces (gs ! i) @ pieces (drop (Suc i) gs)"
    using concat_split [of i "map group_pieces gs"] assms(2) by (simp add: pieces_def take_map drop_map)
  moreover have "length (pieces (take i gs)) = starts gs i"
    using assms(1) by (subst length_pieces) (auto simp: starts_concat dest: in_set_takeD)
  moreover have "gs ! i \<noteq> []" using assms(3) by auto
  ultimately show "pieces gs ! (starts gs i + m) = (if m = 0 then rpiece (gs ! i ! 0) else dpiece (Key (gs ! i ! (m - 1))) (gs ! i ! m))"
    using assms(3) group_pieces_nth [OF assms(3)] by (simp add: nth_append length_group_pieces)
  show "concat gs ! (starts gs i + m) = gs ! i ! m" "starts gs i + m < length (concat gs)"
    unfolding concat_split [OF assms(2)] starts_concat using assms(3) by (simp_all add: nth_append)
qed

section \<open>Values\<close>

definition seg_val :: "LeafEntry \<Rightarrow> bytes" where
  "seg_val e = ref_bytes e @ val_bytes e"

definition val_off :: "LeafEntry list \<Rightarrow> nat \<Rightarrow> nat" where
  "val_off es j = sum_list (map (\<lambda>e. length (seg_val e)) (take j es))"

lemma val_off_stream: "stream_off base (map seg_val es) j = base + val_off es j"
  by (simp add: stream_off_def val_off_def take_map [symmetric] comp_def)

lemma val_off_Suc: "j < length es \<Longrightarrow> val_off es (Suc j) = val_off es j + length (seg_val (es ! j))"
  by (simp add: val_off_def take_Suc_conv_app_nth)

lemma val_off_le: "val_off es j \<le> length (concat (map seg_val es))"
  using stream_off_le [of 0 "map seg_val es" j] val_off_stream [of 0 es j] by simp

lemma val_off_end: "val_off es (length es) = length (concat (map seg_val es))"
  using stream_off_end [of 0 "map seg_val es"] val_off_stream [of 0 es "length es"] by simp

text \<open>The form an entry takes on a segregated page: no empty-value flag.\<close>

definition sstored :: "LeafEntry \<Rightarrow> LeafEntry" where
  "sstored e = e\<lparr>Flags := Flags e AND NOT CellFlagEmptyValue\<rparr>"

lemma sstored_fields [simp]:
  "Key (sstored e) = Key e" "Value (sstored e) = Value e" "OverflowPage (sstored e) = OverflowPage e" "TotalLen (sstored e) = TotalLen e"
  "NestedRoot (sstored e) = NestedRoot e" "NestedCount (sstored e) = NestedCount e" "KeyExtPage (sstored e) = KeyExtPage e"
  "KeyTotalLen (sstored e) = KeyTotalLen e"
  by (simp_all add: sstored_def)

lemma bit_sstored: "bit (Flags (sstored e)) n \<longleftrightarrow> n \<noteq> 3 \<and> bit (Flags e) n"
  unfolding sstored_def CellFlagEmptyValue_def by (simp add: bit_andnot_single)

definition sentry_ok :: "Config \<Rightarrow> LeafEntry \<Rightarrow> bool" where
  "sentry_ok cfg e \<longleftrightarrow> entry_ok cfg e \<and> \<not> bit (Flags e) 3"

lemma sstored_ok: "entry_ok cfg e \<Longrightarrow> sentry_ok cfg (sstored e)"
  unfolding sentry_ok_def entry_ok_def shape_ok_def key_ok_def Let_def known_flags by (auto simp: bit_sstored IsOverflowKey_def)

lemma sstored_keys [simp]: "full_key (sstored e) k = full_key e k" "tail_reads tail target (sstored e) k = tail_reads tail target e k"
    "IsOverflowKey (sstored e) = IsOverflowKey e"
  by (simp_all add: full_key_def tail_reads_def IsOverflowKey_def bit_sstored)

lemma seg_val_reads:
  assumes "sentry_ok cfg e" "holds buf v (seg_val e)"
  shows "segValueHalf buf (no_entry\<lparr>Flags := Flags e, Key := k\<rparr>) v (v + length (seg_val e)) = Inr (e\<lparr>Key := k\<rparr>)"
    "segKeyExtOnly buf (no_entry\<lparr>Flags := Flags e, Key := k\<rparr>) v = Inr (no_entry\<lparr>Flags := Flags e, Key := k, KeyExtPage := KeyExtPage e, KeyTotalLen := KeyTotalLen e\<rparr>)"
proof -
  let ?z = "no_entry\<lparr>Flags := Flags e, Key := k, KeyExtPage := KeyExtPage e, KeyTotalLen := KeyTotalLen e\<rparr>"
  have sh: "shape_ok e" and e3: "\<not> bit (Flags e) 3" using assms(1) by (simp_all add: sentry_ok_def entry_ok_def)
  have h: "holds buf v (ref_bytes e)" "holds buf (v + length (ref_bytes e)) (val_bytes e)" using assms(2) by (simp_all add: seg_val_def holds_append)
  show ext: "segKeyExtOnly buf (no_entry\<lparr>Flags := Flags e, Key := k\<rparr>) v = Inr ?z"
  proof (cases "bit (Flags e) 4")
    case True
    then have rb: "ref_bytes e = w64 (KeyExtPage e) @ w32 (KeyTotalLen e)" by (simp add: ref_bytes_def)
    have "u64_at buf v = Inr (KeyExtPage e)" "u32_at buf (v + 8) = Inr (KeyTotalLen e)"
      using h(1) unfolding rb holds_append by (simp_all add: access_simps del: le_bytes.simps)
    then show ?thesis using True by (simp add: segKeyExtOnly_def)
  next
    case False
    then show ?thesis using sh by (simp add: segKeyExtOnly_def no_entry_def shape_ok_def Let_def)
  qed
  define p where "p = v + length (ref_bytes e)"
  have p: "(if bit (Flags e) 4 then v + 12 else v) = p" "v + length (seg_val e) = p + length (val_bytes e)"
    by (simp_all add: p_def entry_lengths seg_val_def)
  define x where "x = e\<lparr>Key := k\<rparr>"
  have xb: "val_bytes x = val_bytes e" "shape_ok x" using sh by (simp_all add: x_def val_bytes_def shape_ok_def)
  have "value_half buf (x\<lparr>Value := [], OverflowPage := 0, TotalLen := 0, NestedRoot := 0, NestedCount := 0\<rparr>) p (Some (length (val_bytes e))) =
      Inr (x, p + length (val_bytes e))"
    using value_half_reads [OF xb(2), of buf p "Some (length (val_bytes e))"] h(2) e3 unfolding xb(1) p_def by (simp add: entry_lengths x_def)
  moreover have "x\<lparr>Value := [], OverflowPage := 0, TotalLen := 0, NestedRoot := 0, NestedCount := 0\<rparr> = ?z"
    using sh by (simp add: x_def no_entry_def shape_ok_def Let_def)
  ultimately have vh: "value_half buf ?z p (Some (length (val_bytes e))) = Inr (x, p + length (val_bytes e))" by simp
  have agree: "(if flag_set (Flags y) CellFlagOverflow then
       bind_res (u64_at buf p) (\<lambda>q. bind_res (u64_at buf (p + 8)) (\<lambda>n. Inr (y\<lparr>OverflowPage := q, TotalLen := n\<rparr>)))
     else if IsNestedTree y then
       bind_res (u64_at buf p) (\<lambda>q. bind_res (u64_at buf (p + 8)) (\<lambda>n. Inr (y\<lparr>NestedRoot := q, NestedCount := n\<rparr>)))
     else bind_res (slice buf p (p + n)) (\<lambda>w. Inr (y\<lparr>Value := w\<rparr>))) = bind_res (value_half buf y p (Some n)) (\<lambda>(y, _). Inr y)"
    if "\<not> bit (Flags y) 3" for y n
    using that
    by (cases "u64_at buf p"; cases "u64_at buf (p + 8)"; cases "slice buf p (p + n)") (simp_all add: value_half_def)
  show "segValueHalf buf (no_entry\<lparr>Flags := Flags e, Key := k\<rparr>) v (v + length (seg_val e)) = Inr (e\<lparr>Key := k\<rparr>)"
  proof -
    have pz: "(if flag_set (Flags ?z) CellFlagOverflowKey then v + 12 else v) = p" using p(1) by simp
    have zf: "\<not> bit (Flags ?z) 3" using e3 by simp
    show ?thesis unfolding segValueHalf_def ext bind_res.simps Let_def p(2) pz agree [OF zf] vh by (simp add: x_def)
  qed
qed

section \<open>Reading the stream\<close>

lemma piece_parts:
  assumes "holds buf off (chunk_of p v)"
  shows "holds buf off (fst p)" "holds buf (off + length (fst p)) (w16 v)" "holds buf (off + length (fst p) + 2) (snd p)"
  using assms unfolding chunk_of_def holds_append by (simp_all add: add.assoc del: le_bytes.simps)

lemma seg_restart_reads:
  assumes "holds buf off (chunk_of (rpiece e) (word_of_nat v))" "length (Key e) < 65536" "v < 65536"
  shows "decodeSegRestart buf off = Inr (Flags e, Key e, v, off + piece_len (rpiece e))" "segReadVOff buf off True = Inr v"
proof -
  note h = piece_parts [OF assms(1)]
  have l: "length (fst (rpiece e)) = 3" by (simp add: rpiece_def del: le_bytes.simps)
  have a: "holds buf off [Flags e]" "holds buf (off + 1) (w16 (word_of_nat (length (Key e))))"
    using h(1) unfolding rpiece_def fst_conv holds_append by (simp_all del: le_bytes.simps)
  have b: "u16_at buf (off + 3) = Inr (word_of_nat v)" using holds_u16 [OF h(2)] l by simp
  have o: "off + length (fst (rpiece e)) + 2 = off + 5" "snd (rpiece e) = Key e" using l by (simp_all add: rpiece_def)
  have c: "slice buf (off + 5) (off + 5 + length (Key e)) = Inr (Key e)" using h(3) [unfolded o] by (rule holds_slice) simp
  show "decodeSegRestart buf off = Inr (Flags e, Key e, v, off + piece_len (rpiece e))"
    unfolding decodeSegRestart_def
    by (simp only: holds_u8 [OF a(1)] holds_u16 [OF a(2)] b bind_res.simps unat_len16 [OF assms(2)] unat_len16 [OF assms(3)] c)
      (simp add: piece_len_def rpiece_def del: le_bytes.simps)
  show "segReadVOff buf off True = Inr v" using b by (simp add: segReadVOff_def segRestartVOffAt_def unat_len16 [OF assms(3)])
qed

lemma seg_delta_reads:
  assumes "holds buf off (chunk_of (dpiece prev e) (word_of_nat v))" "length (Key e) < 65536" "v < 65536"
  shows "decodeSegDelta buf off prev = Inr (Flags e, Key e, v, off + piece_len (dpiece prev e))" "segReadVOff buf off False = Inr v"
    "segDeltaHeader buf off = Inr (Flags e, sharedPrefixLen prev (Key e), v, off + 7, length (Key e) - sharedPrefixLen prev (Key e), off + piece_len (dpiece prev e))"
    "slice buf (off + 7) (off + 7 + (length (Key e) - sharedPrefixLen prev (Key e))) = Inr (drop (sharedPrefixLen prev (Key e)) (Key e))"
proof -
  let ?s = "sharedPrefixLen prev (Key e)"
  note h = piece_parts [OF assms(1)]
  have sl: "?s \<le> length prev" "?s \<le> length (Key e)" by (rule sharedPrefixLen_le)+
  have s: "?s < 65536" "length (Key e) - ?s < 65536" using sl assms(2) by simp_all
  have l: "length (fst (dpiece prev e)) = 5" by (simp add: dpiece_def Let_def del: le_bytes.simps)
  have a: "holds buf off [Flags e]" "holds buf (off + 1) (w16 (word_of_nat ?s))" "holds buf (off + 3) (w16 (word_of_nat (length (Key e) - ?s)))"
    using h(1) unfolding dpiece_def Let_def fst_conv holds_append by (simp_all add: eval_nat_numeral del: le_bytes.simps)
  have b: "u16_at buf (off + 5) = Inr (word_of_nat v)" using holds_u16 [OF h(2)] l by simp
  show c: "slice buf (off + 7) (off + 7 + (length (Key e) - ?s)) = Inr (drop ?s (Key e))"
  proof -
    have o: "off + length (fst (dpiece prev e)) + 2 = off + 7" "snd (dpiece prev e) = drop ?s (Key e)" using l by (simp_all add: dpiece_def Let_def)
    show ?thesis using h(3) [unfolded o] by (rule holds_slice) simp
  qed
  have pre: "slice prev 0 ?s = Inr (take ?s (Key e))" using sl sharedPrefixLen_take [of prev "Key e"] by (simp add: slice_def field_def)
  have n: "off + 7 + (length (Key e) - ?s) = off + piece_len (dpiece prev e)" by (simp add: piece_len_def dpiece_def Let_def del: le_bytes.simps)
  note run = holds_u8 [OF a(1)] holds_u16 [OF a(2)] holds_u16 [OF a(3)] b bind_res.simps unat_len16 [OF s(1)] unat_len16 [OF s(2)] unat_len16 [OF assms(3)]
  show "decodeSegDelta buf off prev = Inr (Flags e, Key e, v, off + piece_len (dpiece prev e))"
    unfolding decodeSegDelta_def by (simp only: run pre c n [symmetric] append_take_drop_id)
  show "segDeltaHeader buf off = Inr (Flags e, ?s, v, off + 7, length (Key e) - ?s, off + piece_len (dpiece prev e))"
    unfolding segDeltaHeader_def by (simp only: run n [symmetric])
  show "segReadVOff buf off False = Inr v" using b by (simp add: segReadVOff_def segDeltaVOffAt_def unat_len16 [OF assms(3)])
qed

section \<open>Layout\<close>

definition value_end :: "Config \<Rightarrow> LeafEntry list list \<Rightarrow> nat" where
  "value_end cfg gs = (if concat gs = [] then 14 else content_end cfg - 4 * length gs)"

definition value_start :: "Config \<Rightarrow> LeafEntry list list \<Rightarrow> nat" where
  "value_start cfg gs = value_end cfg gs - length (concat (map seg_val (concat gs)))"

definition voff :: "Config \<Rightarrow> LeafEntry list list \<Rightarrow> nat \<Rightarrow> nat" where
  "voff cfg gs j = value_start cfg gs + val_off (concat gs) j"

abbreviation voffs :: "Config \<Rightarrow> LeafEntry list list \<Rightarrow> u16 list" where
  "voffs cfg gs \<equiv> map (\<lambda>j. word_of_nat (voff cfg gs j)) [0..<length (concat gs)]"

abbreviation seg_offs :: "LeafEntry list list \<Rightarrow> nat list" where
  "seg_offs gs \<equiv> map (\<lambda>i. piece_off (pieces gs) (starts gs i)) [0..<length gs]"

abbreviation data_end :: "LeafEntry list list \<Rightarrow> nat" where
  "data_end gs \<equiv> piece_off (pieces gs) (length (pieces gs))"

definition sleaf_layout :: "Config \<Rightarrow> LeafEntry list list \<Rightarrow> bytes \<Rightarrow> bool" where
  "sleaf_layout cfg gs buf \<longleftrightarrow> (let ce = content_end cfg in
     length buf = unat (PageSize cfg) \<and> data_end gs + length (concat (map seg_val (concat gs))) + 4 * length gs \<le> ce \<and>
     holds buf 0 (header_bytes TypeLeafSegregated (word_of_nat (length (concat gs))) 0) \<and>
     holds buf 8 (w16 (word_of_nat (length gs))) \<and> holds buf 10 (w16 (word_of_nat (data_end gs))) \<and>
     holds buf 12 (w16 (word_of_nat (value_end cfg gs))) \<and>
     holds buf 14 (concat (chunks (pieces gs) (voffs cfg gs))) \<and> holds buf (value_start cfg gs) (concat (map seg_val (concat gs))) \<and>
     table_at ce (seg_offs gs) (map length gs) buf)"

definition sleaf_reader :: "Config \<Rightarrow> LeafEntry list list \<Rightarrow> bytes \<Rightarrow> LeafReader" where
  "sleaf_reader cfg gs buf =
     \<lparr>r_buf = buf, r_cfg = cfg, r_count = length (concat gs), r_dataEnd = data_end gs, r_variant = TypeLeafSegregated,
       r_rt = newRestartTable buf (length gs) (content_end cfg), r_valueEnd = value_end cfg gs, r_ucTableOff = 0\<rparr>"

definition sgroup_ok :: "Config \<Rightarrow> LeafEntry list \<Rightarrow> bool" where
  "sgroup_ok cfg g \<longleftrightarrow> group_ok cfg g \<and> (\<forall>e \<in> set g. \<not> bit (Flags e) 3)"

lemma piece_off_ge: "14 + 5 * j \<le> piece_off (pieces gs) j" if "\<forall>g \<in> set gs. g \<noteq> []" "j \<le> length (concat gs)"
proof -
  have ge: "5 \<le> piece_len p" if "p \<in> set (pieces gs)" for p
  proof -
    have d: "5 \<le> piece_len q" if "q \<in> set (dpieces x es)" for q x es
      using that by (induction es arbitrary: x) (auto simp: dpiece_def piece_len_def Let_def simp del: le_bytes.simps)
    show ?thesis using that d by (auto simp: pieces_def group_pieces_def rpiece_def piece_len_def simp del: le_bytes.simps)
  qed
  have "5 * length ps \<le> sum_list (map piece_len ps)" if "\<forall>p \<in> set ps. 5 \<le> piece_len p" for ps
    using that by (induction ps) auto
  from this [of "take j (pieces gs)"] have "5 * length (take j (pieces gs)) \<le> sum_list (map piece_len (take j (pieces gs)))"
    using ge by (meson in_set_takeD)
  then show ?thesis using that(2) length_pieces [OF that(1)] by (simp add: piece_off_def)
qed

lemma seg_fit_bounds:
  assumes "data_end gs + length (concat (map seg_val (concat gs))) + 4 * length gs \<le> content_end cfg" "Validate cfg = None" "\<forall>g \<in> set gs. g \<noteq> []"
  shows "length (concat gs) < 65536" "length gs < 65536" "data_end gs < 65536" "value_end cfg gs < 65536" "\<And>j. voff cfg gs j \<le> value_end cfg gs"
    "voff cfg gs (length (concat gs)) = value_end cfg gs" "length (concat (map seg_val (concat gs))) \<le> value_end cfg gs" "data_end gs \<le> value_start cfg gs"
proof -
  note pb = page_bounds [OF assms(2)]
  let ?T = "length (concat (map seg_val (concat gs)))"
  have d: "14 + 5 * length (concat gs) \<le> data_end gs" using piece_off_ge [OF assms(3), of "length (concat gs)"] length_pieces [OF assms(3)] by simp
  have fit: "data_end gs + ?T + 4 * length gs \<le> content_end cfg" "content_end cfg \<le> 65536" using assms(1) pb by linarith+
  have g0: "concat gs = [] \<longleftrightarrow> gs = []" using assms(3) by (cases gs) auto
  have z: "data_end gs = 14" if "gs = []" using that by (simp add: piece_off_def pieces_def)
  show "length (concat gs) < 65536" "length gs < 65536" using d fit by linarith+
  have l: "0 < length gs" if "gs \<noteq> []" using that by simp
  show "data_end gs < 65536" using fit z l by (cases "gs = []") (simp, linarith)
  show "value_end cfg gs < 65536"
  proof (cases "gs = []")
    case False
    then have "content_end cfg - 4 * length gs < 65536" using fit d l by linarith
    then show ?thesis unfolding value_end_def using g0 False by (simp only: if_False)
  qed (simp add: value_end_def)
  show T: "?T \<le> value_end cfg gs" unfolding value_end_def using fit g0 by (cases "gs = []") auto
  show "voff cfg gs j \<le> value_end cfg gs" for j using val_off_le [of "concat gs" j] T by (simp add: voff_def value_start_def)
  show "voff cfg gs (length (concat gs)) = value_end cfg gs" using T by (simp add: voff_def value_start_def val_off_end)
  show "data_end gs \<le> value_start cfg gs" unfolding value_start_def value_end_def using fit g0 z by (cases "gs = []") auto
qed

lemma sleaf_fits:
  "sleaf_layout cfg gs buf \<Longrightarrow> data_end gs + length (concat (map seg_val (concat gs))) + 4 * length gs \<le> content_end cfg"
  by (simp add: sleaf_layout_def Let_def)

lemmas sleaf_bounds = seg_fit_bounds [OF sleaf_fits]

lemma sleaf_NewLeafReader:
  assumes "sleaf_layout cfg gs buf" "Validate cfg = None" "\<forall>g \<in> set gs. g \<noteq> []"
  shows "NewLeafReader buf cfg = Inr (sleaf_reader cfg gs buf)"
proof -
  note L = assms(1) [unfolded sleaf_layout_def Let_def] and bd = sleaf_bounds [OF assms]
  have h: "read_header buf = Inr (TypeLeafSegregated, 0, word_of_nat (length (concat gs)), 0)" using L by (intro read_header_holds) blast
  have u: "u16_at buf 8 = Inr (word_of_nat (length gs))" "u16_at buf (8 + 2) = Inr (word_of_nat (data_end gs))"
      "u16_at buf (8 + 4) = Inr (word_of_nat (value_end cfg gs))"
    using L by (auto intro!: holds_u16 simp del: le_bytes.simps)
  have ty: "TypeLeafSegregated \<noteq> TypeLeafUncompressed" by (simp add: page_types)
  have "length buf = unat (PageSize cfg)" using L by blast
  then show ?thesis
    unfolding NewLeafReader_def sleaf_reader_def leaf_sizes
    by (simp only: must_validate_ok [OF assms(2)] bind_res.simps h u prod.case Let_def IsLeafType_def not_True_eq_False simp_thms if_False if_True ty
        unat_len16 [OF bd(1)] unat_len16 [OF bd(2)] unat_len16 [OF bd(3)] unat_len16 [OF bd(4)])
qed

section \<open>Reading entries\<close>

lemma starts_Suc: "i < length gs \<Longrightarrow> starts gs (Suc i) = starts gs i + length (gs ! i)"
  by (simp add: starts_def take_Suc_conv_app_nth)

lemma sleaf_entry:
  assumes "sleaf_layout cfg gs buf" "Validate cfg = None" "\<forall>g \<in> set gs. sgroup_ok cfg g" "i < length gs" "m < length (gs ! i)"
  shows "holds buf (piece_off (pieces gs) (starts gs i + m)) (chunk_of (pieces gs ! (starts gs i + m)) (word_of_nat (voff cfg gs (starts gs i + m))))"
    "holds buf (voff cfg gs (starts gs i + m)) (seg_val (gs ! i ! m))"
    "voff cfg gs (Suc (starts gs i + m)) = voff cfg gs (starts gs i + m) + length (seg_val (gs ! i ! m))"
    "voff cfg gs (starts gs i + m) < 65536" "length (Key (gs ! i ! m)) < 65536" "sentry_ok cfg (gs ! i ! m)"
    "piece_off (pieces gs) (Suc (starts gs i + m)) = piece_off (pieces gs) (starts gs i + m) + piece_len (pieces gs ! (starts gs i + m))"
proof -
  note L = assms(1) [unfolded sleaf_layout_def Let_def]
  define j where "j = starts gs i + m"
  have ne: "\<forall>g \<in> set gs. g \<noteq> []" using assms(3) by (auto simp: sgroup_ok_def group_ok_def)
  note p = pieces_nth [OF ne assms(4,5), folded j_def] and bd = sleaf_bounds [OF assms(1,2) ne]
  have lp: "length (pieces gs) = length (concat gs)" by (rule length_pieces [OF ne])
  have jl: "j < length (pieces gs)" "j < length (voffs cfg gs)" using p(3) lp by simp_all
  have "holds buf (stream_off 14 (chunks (pieces gs) (voffs cfg gs)) j) (chunks (pieces gs) (voffs cfg gs) ! j)"
    by (rule holds_stream) (use L jl lp in auto)
  then show "holds buf (piece_off (pieces gs) (starts gs i + m)) (chunk_of (pieces gs ! (starts gs i + m)) (word_of_nat (voff cfg gs (starts gs i + m))))"
    using jl lp by (simp add: piece_off_stream j_def [symmetric])
  have "holds buf (stream_off (value_start cfg gs) (map seg_val (concat gs)) j) (map seg_val (concat gs) ! j)"
    by (rule holds_stream) (use L p(3) in auto)
  then show "holds buf (voff cfg gs (starts gs i + m)) (seg_val (gs ! i ! m))"
    using p(2,3) by (simp add: val_off_stream voff_def j_def [symmetric])
  show "voff cfg gs (Suc (starts gs i + m)) = voff cfg gs (starts gs i + m) + length (seg_val (gs ! i ! m))"
    using p(2,3) by (simp add: voff_def val_off_Suc j_def [symmetric])
  show "voff cfg gs (starts gs i + m) < 65536" using bd(4) bd(5) [of "starts gs i + m"] by linarith
  have "sgroup_ok cfg (gs ! i)" using assms(3,4) by simp
  then show ok: "sentry_ok cfg (gs ! i ! m)" using assms(5) by (simp add: sgroup_ok_def group_ok_def sentry_ok_def)
  then show "length (Key (gs ! i ! m)) < 65536" using entry_bounds [OF _ assms(2)] by (simp add: sentry_ok_def)
  show "piece_off (pieces gs) (Suc (starts gs i + m)) = piece_off (pieces gs) (starts gs i + m) + piece_len (pieces gs ! (starts gs i + m))"
    using piece_off_Suc [OF jl(1)] by (simp add: j_def)
qed

lemma sleaf_restart:
  assumes "sleaf_layout cfg gs buf" "Validate cfg = None" "\<forall>g \<in> set gs. sgroup_ok cfg g" "i < length gs"
  shows "decodeSegRestart buf (piece_off (pieces gs) (starts gs i)) =
      Inr (Flags (hd (gs ! i)), Key (hd (gs ! i)), voff cfg gs (starts gs i), piece_off (pieces gs) (Suc (starts gs i)))"
    "segReadVOff buf (piece_off (pieces gs) (starts gs i)) True = Inr (voff cfg gs (starts gs i))"
proof -
  have g: "gs ! i \<noteq> []" using assms(3,4) by (auto simp: sgroup_ok_def group_ok_def)
  have ne: "\<forall>g \<in> set gs. g \<noteq> []" using assms(3) by (auto simp: sgroup_ok_def group_ok_def)
  have m: "0 < length (gs ! i)" using g by simp
  note e = sleaf_entry [OF assms m, simplified] and p = pieces_nth(1) [OF ne assms(4) m, simplified]
  have h: "gs ! i ! 0 = hd (gs ! i)" using g by (simp add: hd_conv_nth)
  show "decodeSegRestart buf (piece_off (pieces gs) (starts gs i)) =
      Inr (Flags (hd (gs ! i)), Key (hd (gs ! i)), voff cfg gs (starts gs i), piece_off (pieces gs) (Suc (starts gs i)))"
    "segReadVOff buf (piece_off (pieces gs) (starts gs i)) True = Inr (voff cfg gs (starts gs i))"
    using seg_restart_reads [OF e(1) [unfolded p] e(5,4)] e(7) p h by simp_all
qed

lemma sleaf_delta:
  assumes "sleaf_layout cfg gs buf" "Validate cfg = None" "\<forall>g \<in> set gs. sgroup_ok cfg g" "i < length gs" "Suc m < length (gs ! i)"
    and "j = starts gs i + Suc m" "s = sharedPrefixLen (Key (gs ! i ! m)) (Key (gs ! i ! Suc m))" "u = length (Key (gs ! i ! Suc m)) - s"
  shows "decodeSegDelta buf (piece_off (pieces gs) j) (Key (gs ! i ! m)) =
      Inr (Flags (gs ! i ! Suc m), Key (gs ! i ! Suc m), voff cfg gs j, piece_off (pieces gs) (Suc j))"
    "segReadVOff buf (piece_off (pieces gs) j) False = Inr (voff cfg gs j)"
    "segDeltaHeader buf (piece_off (pieces gs) j) = Inr (Flags (gs ! i ! Suc m), s, voff cfg gs j, piece_off (pieces gs) j + 7, u, piece_off (pieces gs) (Suc j))"
    "slice buf (piece_off (pieces gs) j + 7) (piece_off (pieces gs) j + 7 + u) = Inr (drop s (Key (gs ! i ! Suc m)))"
proof -
  have ne: "\<forall>g \<in> set gs. g \<noteq> []" using assms(3) by (auto simp: sgroup_ok_def group_ok_def)
  note e = sleaf_entry [OF assms(1-5), folded assms(6)] and p = pieces_nth(1) [OF ne assms(4,5), folded assms(6), simplified]
  note r = seg_delta_reads [OF e(1) [unfolded p] e(5,4)]
  show "decodeSegDelta buf (piece_off (pieces gs) j) (Key (gs ! i ! m)) =
      Inr (Flags (gs ! i ! Suc m), Key (gs ! i ! Suc m), voff cfg gs j, piece_off (pieces gs) (Suc j))"
    "segReadVOff buf (piece_off (pieces gs) j) False = Inr (voff cfg gs j)"
    "segDeltaHeader buf (piece_off (pieces gs) j) = Inr (Flags (gs ! i ! Suc m), s, voff cfg gs j, piece_off (pieces gs) j + 7, u, piece_off (pieces gs) (Suc j))"
    "slice buf (piece_off (pieces gs) j + 7) (piece_off (pieces gs) j + 7 + u) = Inr (drop s (Key (gs ! i ! Suc m)))"
    using r e(7) p by (simp_all add: assms(7,8))
qed

lemma sleaf_next_voff:
  assumes "sleaf_layout cfg gs buf" "Validate cfg = None" "\<forall>g \<in> set gs. sgroup_ok cfg g" "i < length gs" "m < length (gs ! i)"
  shows "segNextVOff (sleaf_reader cfg gs buf) (starts gs i + m) (piece_off (pieces gs) (Suc (starts gs i + m))) (Suc m = length (gs ! i)) =
    Inr (voff cfg gs (Suc (starts gs i + m)))"
proof -
  have ne: "\<forall>g \<in> set gs. g \<noteq> []" using assms(3) by (auto simp: sgroup_ok_def group_ok_def)
  note p = pieces_nth(3) [OF ne assms(4,5)]
  let ?j = "starts gs i + m"
  show ?thesis
  proof (cases "Suc ?j = length (concat gs)")
    case True
    then show ?thesis using sleaf_bounds(6) [OF assms(1,2) ne] by (simp add: segNextVOff_def sleaf_reader_def)
  next
    case False
    then have lt: "Suc ?j < length (concat gs)" using p by simp
    show ?thesis
    proof (cases "Suc m = length (gs ! i)")
      case last: True
      have i: "Suc i < length gs"
      proof (rule ccontr)
        assume "\<not> Suc i < length gs"
        then have "Suc i = length gs" using assms(4) by simp
        then have "starts gs (Suc i) = length (concat gs)" by (simp add: starts_concat)
        then show False using starts_Suc [OF assms(4)] last lt by simp
      qed
      have "starts gs (Suc i) = Suc ?j" using starts_Suc [OF assms(4)] last by simp
      then show ?thesis
        using sleaf_restart(2) [OF assms(1-3) i] last lt by (simp add: segNextVOff_def sleaf_reader_def)
    next
      case False
      then have "Suc m < length (gs ! i)" using assms(5) by simp
      from sleaf_delta(2) [OF assms(1-4) this refl refl refl] show ?thesis using False lt by (simp add: segNextVOff_def sleaf_reader_def)
    qed
  qed
qed

lemma sleaf_value:
  assumes "sleaf_layout cfg gs buf" "Validate cfg = None" "\<forall>g \<in> set gs. sgroup_ok cfg g" "i < length gs" "m < length (gs ! i)"
  shows "segValueHalf buf (no_entry\<lparr>Flags := Flags (gs ! i ! m), Key := k\<rparr>) (voff cfg gs (starts gs i + m)) (voff cfg gs (Suc (starts gs i + m))) =
    Inr ((gs ! i ! m)\<lparr>Key := k\<rparr>)"
  using sleaf_entry(3) [OF assms] seg_val_reads(1) [OF sleaf_entry(6) [OF assms] sleaf_entry(2) [OF assms], of k] by simp

lemma sleaf_table:
  assumes "sleaf_layout cfg gs buf" "i < length gs"
  shows "rt_Offset (r_rt (sleaf_reader cfg gs buf)) (int i) = Inr (piece_off (pieces gs) (starts gs i))"
    "rt_GroupEntryCount (r_rt (sleaf_reader cfg gs buf)) (int i) = Inr (length (gs ! i))"
    "rt_GroupStartIndex (r_rt (sleaf_reader cfg gs buf)) i = Inr (starts gs i)"
proof -
  have t: "table_at (content_end cfg) (seg_offs gs) (map length gs) buf" using assms(1) by (simp add: sleaf_layout_def Let_def)
  show "rt_Offset (r_rt (sleaf_reader cfg gs buf)) (int i) = Inr (piece_off (pieces gs) (starts gs i))"
    "rt_GroupEntryCount (r_rt (sleaf_reader cfg gs buf)) (int i) = Inr (length (gs ! i))"
    "rt_GroupStartIndex (r_rt (sleaf_reader cfg gs buf)) i = Inr (starts gs i)"
    using table_reads [OF t, of i] table_start [OF t, of i] assms(2) by (simp_all add: sleaf_reader_def starts_def take_map)
qed

lemma sleaf_group_head:
  assumes "sleaf_layout cfg gs buf" "Validate cfg = None" "\<forall>g \<in> set gs. sgroup_ok cfg g" "i < length gs"
  shows "seg_restart (sleaf_reader cfg gs buf) (int i) =
    Inr (Flags (hd (gs ! i)), Key (hd (gs ! i)), voff cfg gs (starts gs i), piece_off (pieces gs) (Suc (starts gs i)))"
  using sleaf_table(1) [OF assms(1,4)] sleaf_restart(1) [OF assms] by (simp add: seg_restart_def) (simp add: sleaf_reader_def)

section \<open>Entries by index\<close>

lemma sleaf_walk:
  assumes "sleaf_layout cfg gs buf" "Validate cfg = None" "\<forall>g \<in> set gs. sgroup_ok cfg g" "i < length gs" "m + n < length (gs ! i)"
  shows "seg_walk buf n (Flags (gs ! i ! m), Key (gs ! i ! m), voff cfg gs (starts gs i + m), piece_off (pieces gs) (Suc (starts gs i + m))) =
    Inr (Flags (gs ! i ! (m + n)), Key (gs ! i ! (m + n)), voff cfg gs (starts gs i + (m + n)), piece_off (pieces gs) (Suc (starts gs i + (m + n))))"
  using assms(5)
proof (induction n arbitrary: m)
  case (Suc n)
  have m: "Suc m < length (gs ! i)" using Suc.prems by simp
  from sleaf_delta(1) [OF assms(1-4) m refl refl refl]
  have "decodeSegDelta buf (piece_off (pieces gs) (Suc (starts gs i + m))) (Key (gs ! i ! m)) =
      Inr (Flags (gs ! i ! Suc m), Key (gs ! i ! Suc m), voff cfg gs (starts gs i + Suc m), piece_off (pieces gs) (Suc (starts gs i + Suc m)))" by simp
  then show ?case using Suc.IH [of "Suc m"] Suc.prems by simp
qed simp

lemma sleaf_EntryAt:
  assumes "sleaf_layout cfg gs buf" "Validate cfg = None" "\<forall>g \<in> set gs. sgroup_ok cfg g" "idx < length (concat gs)"
  shows "EntryAt (sleaf_reader cfg gs buf) idx = Inr (concat gs ! idx)"
proof -
  let ?r = "sleaf_reader cfg gs buf"
  have ne: "\<forall>g \<in> set gs. g \<noteq> []" using assms(3) by (auto simp: sgroup_ok_def group_ok_def)
  have "seg_entry_loop ?r idx [k..<length gs] (starts gs k) = Inr (concat gs ! idx)" if "k \<le> length gs" "starts gs k \<le> idx" for k
    using that
  proof (induction "length gs - k" arbitrary: k)
    case 0
    then show ?case using assms(4) by (simp add: starts_concat)
  next
    case (Suc d)
    then have k: "k < length gs" "[k..<length gs] = k # [Suc k..<length gs]" using upt_conv_Cons by auto
    have s: "starts gs (Suc k) = starts gs k + length (gs ! k)" by (rule starts_Suc [OF k(1)])
    show ?case
    proof (cases "idx < starts gs (Suc k)")
      case False
      then show ?thesis using Suc.hyps(1) [of "Suc k"] Suc.hyps(2) k sleaf_table(2) [OF assms(1) k(1)] s by simp
    next
      case True
      define n where "n = idx - starts gs k"
      have n: "n < length (gs ! k)" "idx = starts gs k + n" using True s Suc.prems(2) by (auto simp: n_def)
      have h: "gs ! k ! 0 = hd (gs ! k)" using ne k(1) by (simp add: hd_conv_nth)
      have w: "seg_walk buf n (Flags (hd (gs ! k)), Key (hd (gs ! k)), voff cfg gs (starts gs k), piece_off (pieces gs) (Suc (starts gs k))) =
          Inr (Flags (gs ! k ! n), Key (gs ! k ! n), voff cfg gs idx, piece_off (pieces gs) (Suc idx))"
        using sleaf_walk [OF assms(1-3) k(1), of 0 n] n h by simp
      have v: "segNextVOff ?r idx (piece_off (pieces gs) (Suc idx)) (idx + 1 = starts gs k + length (gs ! k)) = Inr (voff cfg gs (Suc idx))"
        using sleaf_next_voff [OF assms(1-3) k(1) n(1)] n(2) by simp
      have x: "segValueHalf buf (no_entry\<lparr>Flags := Flags (gs ! k ! n), Key := Key (gs ! k ! n)\<rparr>) (voff cfg gs idx) (voff cfg gs (Suc idx)) = Inr (gs ! k ! n)"
        using sleaf_value [OF assms(1-3) k(1) n(1), of "Key (gs ! k ! n)"] n(2) by simp
      have rb: "r_buf ?r = buf" by (simp add: sleaf_reader_def)
      have c: "(starts gs k + length (gs ! k) \<le> idx) = False" using True s by simp
      have d: "idx - starts gs k = n" by (simp add: n_def)
      have "concat gs ! idx = gs ! k ! n" using pieces_nth(2) [OF ne k(1) n(1)] n(2) by simp
      then show ?thesis
        unfolding k(2) seg_entry_loop.simps
        by (simp only: sleaf_table(2) [OF assms(1) k(1)] sleaf_group_head [OF assms(1-3) k(1)] bind_res.simps prod.case c if_False d rb w v x)
    qed
  qed
  from this [of 0] show ?thesis
    using assms(4) by (simp add: EntryAt_def segEntryAt_def starts_def) (simp add: sleaf_reader_def newRestartTable_def page_types)
qed

section \<open>Lookup\<close>

lemma seg_skip_scan_finds:
  assumes "sleaf_layout cfg gs buf" "Validate cfg = None" "\<forall>g \<in> set gs. sgroup_ok cfg g" "i < length gs"
    and "sorted_wrt (<) (map Key (gs ! i))" "n + Suc m = length (gs ! i)" "Key (gs ! i ! m) < target"
  shows "seg_skip_scan (sleaf_reader cfg gs buf) target n (Suc (starts gs i + m)) (piece_off (pieces gs) (Suc (starts gs i + m)))
      (sharedPrefixLen (Key (gs ! i ! m)) target) =
    Inr (shift (Suc (starts gs i + m)) (found_at (drop (Suc m) (gs ! i)) (map Key (drop (Suc m) (gs ! i))) target))"
  using assms(6,7)
proof (induction n arbitrary: m)
  case 0
  then show ?case by (simp add: found_at_Nil)
next
  case (Suc n)
  let ?r = "sleaf_reader cfg gs buf" and ?g = "gs ! i" and ?j = "starts gs i + Suc m"
  let ?p = "Key (?g ! m)" and ?e = "?g ! Suc m" and ?k = "Key (?g ! Suc m)"
  let ?c = "sharedPrefixLen ?p target" and ?s = "sharedPrefixLen ?p ?k"
  have m: "Suc m < length ?g" using Suc.prems(1) by simp
  have d: "drop (Suc m) ?g = ?e # drop (Suc (Suc m)) ?g" using m by (simp add: Cons_nth_drop_Suc)
  have srt: "sorted_wrt (<) (map Key (drop (Suc m) ?g))" using assms(5) by (simp add: drop_map [symmetric] sorted_wrt_drop)
  have pk: "?p < ?k" using sorted_wrt_nth_less [OF assms(5), of m "Suc m"] m by simp
  note dh = sleaf_delta(3,4) [OF assms(1-4) m refl refl refl]
  have rb: "r_buf ?r = buf" by (simp add: sleaf_reader_def)
  have above: "\<forall>k \<in> set (map Key (drop (Suc m) ?g)). target < k" if "target < ?k" using that srt d by auto
  have rec: "seg_skip_scan ?r target n (Suc ?j) (piece_off (pieces gs) (Suc ?j)) (sharedPrefixLen ?k target) =
      Inr (shift ?j (found_at (drop (Suc m) ?g) (map Key (drop (Suc m) ?g)) target))" if "?k < target"
  proof -
    let ?f = "found_at (drop (Suc (Suc m)) ?g) (map Key (drop (Suc (Suc m)) ?g)) target"
    have "seg_skip_scan ?r target n (Suc ?j) (piece_off (pieces gs) (Suc ?j)) (sharedPrefixLen ?k target) = Inr (shift (Suc ?j) ?f)"
      using Suc.IH [of "Suc m"] Suc.prems(1) that by simp
    then show ?thesis unfolding d list.map found_at_below [OF that] by (cases ?f) simp
  qed
  have step0: "seg_skip_scan ?r target (Suc n) ?j (piece_off (pieces gs) ?j) ?c =
      (if ?s > ?c then seg_skip_scan ?r target n (Suc ?j) (piece_off (pieces gs) (Suc ?j)) ?c
       else if ?s < ?c then Inr (?j, no_entry, False)
       else (let c = Compare (drop ?s ?k) (drop ?c target) in
         if c = 0 then bind_res (segNextVOff ?r ?j (piece_off (pieces gs) (Suc ?j)) (n = 0)) (\<lambda>vend.
           bind_res (segValueHalf buf (no_entry\<lparr>Flags := Flags ?e\<rparr>) (voff cfg gs ?j) vend) (\<lambda>e. Inr (?j, e, True)))
         else if c > 0 then Inr (?j, no_entry, False)
         else seg_skip_scan ?r target n (Suc ?j) (piece_off (pieces gs) (Suc ?j)) (?c + sharedPrefixLen (drop ?s ?k) (drop ?c target))))"
  proof -
    have j1: "?j + 1 = Suc ?j" by simp
    show ?thesis unfolding seg_skip_scan.simps(2) rb dh(1) bind_res.simps prod.case dh(2) Let_def j1 ..
  qed
  have j: "Suc (starts gs i + m) = ?j" by simp
  consider "?c < ?s" | "?s < ?c" | "?s = ?c" by linarith
  then show ?case
  proof cases
    case 1
    then have b: "?k < target" "sharedPrefixLen ?k target = ?c" using skip_below [OF pk Suc.prems(2)] by auto
    then show ?thesis unfolding j step0 using rec [OF b(1)] 1 by simp
  next
    case 2
    then have "target < ?k" by (rule stop_above [OF pk])
    then show ?thesis unfolding j step0 found_at_above [OF above [OF \<open>target < ?k\<close>]] using 2 by simp
  next
    case 3
    have ct: "?c \<le> length target" "take ?c ?k = take ?c target"
      using sharedPrefixLen_le(2) [of ?p target] sharedPrefixLen_take [of ?p target] sharedPrefixLen_take [of ?p ?k] 3 by simp_all
    have kl: "?c \<le> length ?k" using sharedPrefixLen_le(2) [of ?p ?k] 3 by simp
    have cmp: "Compare (drop ?s ?k) (drop ?c target) = Compare ?k target" unfolding 3 by (rule compare_past_prefix [OF ct(2) kl ct(1)])
    have spl: "?c + sharedPrefixLen (drop ?s ?k) (drop ?c target) = sharedPrefixLen ?k target"
      unfolding 3 by (rule sharedPrefixLen_drop [OF ct(2) kl ct(1), symmetric])
    have v: "segNextVOff ?r ?j (piece_off (pieces gs) (Suc ?j)) (n = 0) = Inr (voff cfg gs (Suc ?j))"
    proof -
      have "(Suc (Suc m) = length ?g) = (n = 0)" using Suc.prems(1) by auto
      then show ?thesis using sleaf_next_voff [OF assms(1-4) m] by simp
    qed
    have x: "segValueHalf buf (no_entry\<lparr>Flags := Flags ?e\<rparr>) (voff cfg gs ?j) (voff cfg gs (Suc ?j)) = Inr (?e\<lparr>Key := []\<rparr>)"
      using sleaf_value [OF assms(1-4) m, of "[]"] by (simp add: no_entry_def)
    have ns: "(?s > ?c) = False" "(?s < ?c) = False" using 3 by simp_all
    have step: "seg_skip_scan ?r target (Suc n) ?j (piece_off (pieces gs) ?j) ?c =
        (if Compare ?k target = 0 then Inr (?j, ?e\<lparr>Key := []\<rparr>, True)
         else if Compare ?k target > 0 then Inr (?j, no_entry, False)
         else seg_skip_scan ?r target n (Suc ?j) (piece_off (pieces gs) (Suc ?j)) (sharedPrefixLen ?k target))"
      unfolding step0 ns if_False Let_def cmp spl v bind_res.simps x ..
    consider "?k = target" | "target < ?k" | "?k < target" by (rule linorder_cases [of ?k target]) auto
    then show ?thesis
    proof cases
      case eq: 1
      have "sorted_wrt (<) (?k # map Key (drop (Suc (Suc m)) ?g))" using srt d by simp
      from found_at_here [OF this, of ?e "drop (Suc (Suc m)) ?g"] show ?thesis unfolding j step d list.map using eq by simp
    next
      case gt: 2
      then have "0 < Compare ?k target" "Compare ?k target \<noteq> 0" by auto
      then show ?thesis unfolding j step found_at_above [OF above [OF gt]] by (simp only: if_True if_False) simp
    next
      case lt: 3
      then have "\<not> 0 < Compare ?k target" "Compare ?k target \<noteq> 0" by auto
      then show ?thesis unfolding j step using rec [OF lt] by (simp only: if_False)
    qed
  qed
qed

end
