(* ===== verification/Leaf_Seg_Build.thy ===== *)
theory Leaf_Seg_Build
  imports Leaf_Seg
begin

text \<open>Segregated leaves, continued: the two-phase lookup and the page the builder writes.\<close>

declare push_bit_of_1 [simp del]

section \<open>Lookup\<close>

lemma sleaf_search:
  assumes "sleaf_layout cfg gs buf" "Validate cfg = None" "\<forall>g \<in> set gs. sgroup_ok cfg g" "group_keys gs kss" "sorted_wrt (<) (concat kss)"
    and "\<forall>i < length gs. tail_reads tail target (hd (gs ! i)) (hd (kss ! i))"
  shows "SearchLeaf (sleaf_reader cfg gs buf) target tail = Inr (found_at (concat gs) (concat kss) target)"
proof (cases "concat gs = []")
  case True
  moreover have "length (concat kss) = length (concat gs)"
    using assms(4) by (simp add: group_keys_def length_concat) (induction rule: list_all2_induct, auto dest: list_all2_lengthD)
  ultimately have "concat kss = []" by (metis length_0_conv)
  then show ?thesis using True by (simp add: SearchLeaf_def sleaf_reader_def found_at_Nil del: concat_eq_Nil_conv)
next
  case False
  let ?r = "sleaf_reader cfg gs buf"
  have rc: "restartCount (r_rt ?r) = length gs" by (simp add: sleaf_reader_def newRestartTable_def)
  have ml: "map length kss = map length gs"
    using assms(4) unfolding group_keys_def by (induction rule: list_all2_induct) (auto dest: list_all2_lengthD)
  have ne: "\<forall>g \<in> set gs. g \<noteq> []" using assms(3) by (auto simp: sgroup_ok_def group_ok_def)
  have gi: "gs ! i \<noteq> []" "kss ! i \<noteq> []" "full_key (hd (gs ! i)) (hd (kss ! i))" "list_all2 full_key (gs ! i) (kss ! i)"
      "sorted_wrt (<) (kss ! i)" if i: "i < length gs" for i
  proof -
    show l: "list_all2 full_key (gs ! i) (kss ! i)" using assms(4) i by (simp add: group_keys_def list_all2_conv_all_nth)
    show "gs ! i \<noteq> []" using ne i by simp
    then show "kss ! i \<noteq> []" "full_key (hd (gs ! i)) (hd (kss ! i))" using l by (cases "gs ! i"; cases "kss ! i"; simp)+
    have "length kss = length gs" using ml by (metis length_map)
    then show "sorted_wrt (<) (kss ! i)" using assms(5) concat_split [of i kss] i by (simp add: sorted_wrt_append)
  qed
  have rb: "r_buf ?r = buf" by (simp add: sleaf_reader_def)
  have "segSearchLeaf ?r target tail = Inr (found_at (concat gs) (concat kss) target)"
  proof -
    define hit where "hit lo = bind_res (seg_restart ?r (int lo)) (\<lambda>(flags, key, voff, next).
       bind_res (rt_GroupStartIndex (r_rt ?r) lo) (\<lambda>idx.
       bind_res (rt_GroupEntryCount (r_rt ?r) (int lo)) (\<lambda>gc.
       bind_res (segNextVOff ?r idx next (gc = 1)) (\<lambda>vend.
       bind_res (segValueHalf (r_buf ?r) (no_entry\<lparr>Flags := flags\<rparr>) voff vend) (\<lambda>e. Inr (idx, e, True))))))" for lo
    define scan where "scan g = bind_res (rt_GroupStartIndex (r_rt ?r) g) (\<lambda>startIdx.
       bind_res (rt_GroupEntryCount (r_rt ?r) (int g)) (\<lambda>gc.
       bind_res (seg_restart ?r (int g)) (\<lambda>(_, rkey, _, next).
       if gc = 0 then Inr (startIdx, no_entry, False)
       else seg_skip_scan ?r target (gc - 1) (startIdx + 1) next (sharedPrefixLen rkey target))))" for g
    let ?probe = "\<lambda>mid. bind_res (seg_probe_entry ?r mid) (\<lambda>e. compareEntryKey e target tail)"
    have "segSearchLeaf ?r target tail = bind_res (bsearch3 ?probe 0 (length gs)) (\<lambda>(lo, found). if found then hit lo
        else if lo = 0 then Inr (0, no_entry, False) else scan (lo - 1))"
      unfolding segSearchLeaf_def rc hit_def scan_def
      by (intro arg_cong2 [where f = bind_res] refl ext) (auto simp: of_nat_diff)
    also have "\<dots> = Inr (found_at (concat gs) (concat kss) target)"
    proof (rule two_phase [OF ml ne assms(5) refl])
      fix i assume i: "i < length gs"
      have m0: "0 < length (gs ! i)" using gi(1) [OF i] by simp
      have hd0: "gs ! i ! 0 = hd (gs ! i)" using gi(1) [OF i] by (simp add: hd_conv_nth)
      note e0 = sleaf_entry [OF assms(1-3) i m0, simplified, unfolded hd0] and head = sleaf_group_head [OF assms(1-3) i]
      let ?e = "hd (gs ! i)"
      let ?z = "no_entry\<lparr>Flags := Flags ?e, Key := Key ?e, KeyExtPage := KeyExtPage ?e, KeyTotalLen := KeyTotalLen ?e\<rparr>"
      have "seg_probe_entry ?r i = Inr ?z" unfolding seg_probe_entry_def using head rb seg_val_reads(2) [OF e0(6,2)] by simp
      moreover have "full_key ?z (hd (kss ! i))" "tail_reads tail target ?z (hd (kss ! i))"
        using gi(3) [OF i] assms(6) i by (auto simp: full_key_def tail_reads_def IsOverflowKey_def)
      ultimately show "?probe i = Inr (Compare (hd (kss ! i)) target)" by (simp add: compareEntryKey_full)
      have nv: "segNextVOff ?r (starts gs i) (piece_off (pieces gs) (Suc (starts gs i))) (length (gs ! i) = 1) = Inr (voff cfg gs (Suc (starts gs i)))"
        using sleaf_next_voff [OF assms(1-3) i m0] by (simp add: eq_commute)
      have "segValueHalf buf (no_entry\<lparr>Flags := Flags ?e\<rparr>) (voff cfg gs (starts gs i)) (voff cfg gs (Suc (starts gs i))) = Inr (?e\<lparr>Key := []\<rparr>)"
        using sleaf_value [OF assms(1-3) i m0, of "[]"] by (simp add: no_entry_def hd0)
      then show "hit i = Inr (starts gs i, ?e\<lparr>Key := []\<rparr>, True)"
        unfolding hit_def by (simp only: head sleaf_table(2,3) [OF assms(1) i] bind_res.simps prod.case nv rb)
      assume lt: "hd (kss ! i) < target"
      obtain e es where e: "gs ! i = e # es" using gi(1) [OF i] by (cases "gs ! i") auto
      obtain k ks where k: "kss ! i = k # ks" using gi(2) [OF i] by (cases "kss ! i") auto
      have "seg_skip_scan ?r target (length es) (Suc (starts gs i)) (piece_off (pieces gs) (Suc (starts gs i))) (sharedPrefixLen (Key e) target) =
          Inr (shift (Suc (starts gs i)) (found_at es ks target))"
      proof (cases es)
        case Nil
        then show ?thesis using gi(4) [OF i] e k by (simp add: found_at_Nil)
      next
        case (Cons y ys)
        have "group_ok cfg (gs ! i)" using assms(3) i by (simp add: sgroup_ok_def)
        then have no: "\<forall>x \<in> set (gs ! i). \<not> IsOverflowKey x" using e Cons by (auto simp: group_ok_def)
        then have "kss ! i = map Key (gs ! i)" using group_tail_keys [OF gi(4) [OF i]] by simp
        then have "Key e = k" "ks = map Key es" "sorted_wrt (<) (map Key (gs ! i))" using e k gi(5) [OF i] by auto
        then show ?thesis using seg_skip_scan_finds [OF assms(1-3) i, of "length es" 0 target] e k lt by simp
      qed
      then have "scan i = Inr (shift (Suc (starts gs i)) (found_at es ks target))"
        unfolding scan_def using head sleaf_table(2,3) [OF assms(1) i] e by simp
      then show "scan i = Inr (shift (starts gs i) (found_at (gs ! i) (kss ! i) target))"
        using found_at_below [of k target e es ks] lt e k by (cases "found_at es ks target") simp
    qed
    finally show ?thesis .
  qed
  moreover have "r_count ?r \<noteq> 0" "r_variant ?r \<noteq> TypeLeafUncompressed" "r_variant ?r = TypeLeafSegregated"
    using False by (simp_all add: sleaf_reader_def page_types del: concat_eq_Nil_conv)
  ultimately show ?thesis by (simp only: SearchLeaf_def if_False if_True simp_thms refl)
qed

section \<open>The builder\<close>

abbreviation slots :: "LeafEntry list list \<Rightarrow> nat list" where
  "slots gs \<equiv> map (\<lambda>j. piece_off (pieces gs) j + length (fst (pieces gs ! j))) [0..<length (pieces gs)]"

definition seg_built :: "Config \<Rightarrow> LeafEntry list list \<Rightarrow> LeafBuilder \<Rightarrow> bool" where
  "seg_built cfg gs b \<longleftrightarrow> (let es = concat gs; ps = pieces gs in
     b_variant b = TypeLeafSegregated \<and> b_cfg b = cfg \<and> length (b_buf b) = unat (PageSize cfg) \<and> b_count b = length es \<and>
     b_dataPos b = data_end gs \<and> data_end gs + length (concat (map seg_val es)) + 4 * length gs \<le> content_end cfg \<and>
     holds (b_buf b) 14 (concat (chunks ps (replicate (length ps) 0))) \<and>
     b_segVals b = concat (map seg_val es) \<and> b_segVOffSlots b = slots gs \<and>
     b_segRel b = map (\<lambda>j. word_of_nat (val_off es j)) [0..<length es] \<and>
     tracks (b_rgt b) (seg_offs gs) (map length gs) \<and> (\<forall>g \<in> set gs. sgroup_ok cfg g) \<and>
     (gs \<noteq> [] \<longrightarrow> b_prevKey b = Key (last (last gs)) \<and> b_forceRestart b = IsOverflowKey (last (last gs))))"

lemma seg_opens_group:
  assumes "seg_built cfg gs b" "Validate cfg = None" "\<not> opens_group b key flags"
  shows "gs \<noteq> []" "length (last gs) < unat (EffectiveRestartGroupTarget cfg)" "\<not> bit flags 4" "\<not> IsOverflowKey (last (last gs))"
proof -
  note B = assms(1) [unfolded seg_built_def Let_def]
  have o: "\<not> IsRestart (b_rgt b) (b_count b) (unat (EffectiveRestartGroupTarget cfg))" "\<not> bit flags 4" "\<not> b_forceRestart b"
    using assms(3) B by (auto simp: opens_group_def Let_def)
  then have c: "0 < length (concat gs)" "curGroupCount (b_rgt b) < unat (EffectiveRestartGroupTarget cfg)" using B by (auto simp: IsRestart_def)
  then show gs: "gs \<noteq> []" by auto
  show "length (last gs) < unat (EffectiveRestartGroupTarget cfg)" using c(2) B gs by (simp add: tracks_def last_map split: if_splits)
  show "\<not> bit flags 4" by (rule o(2))
  show "\<not> IsOverflowKey (last (last gs))" using o(3) B gs by simp
qed

text \<open>How an added entry extends the pieces, in a new group or in the last one.\<close>

lemma pieces_restart: "pieces (gs @ [[e]]) = pieces gs @ [rpiece e]"
  by (simp add: pieces_def group_pieces_def)

lemma dpieces_snoc: "dpieces p (xs @ [e]) = dpieces p xs @ [dpiece (if xs = [] then p else Key (last xs)) e]"
  by (induction xs arbitrary: p) auto

lemma pieces_delta: "g \<noteq> [] \<Longrightarrow> pieces (hs @ [g @ [e]]) = pieces (hs @ [g]) @ [dpiece (Key (last g)) e]"
  by (cases g) (auto simp: pieces_def group_pieces_def dpieces_snoc)

lemma piece_off_snoc: "j \<le> length ps \<Longrightarrow> piece_off (ps @ [p]) j = piece_off ps j"
  by (simp add: piece_off_def)

lemma data_end_snoc: "piece_off (ps @ [p]) (length (ps @ [p])) = piece_off ps (length ps) + piece_len p"
  by (simp add: piece_off_def)

lemma chunks_snoc: "concat (chunks (ps @ [p]) (replicate (length (ps @ [p])) 0)) = concat (chunks ps (replicate (length ps) 0)) @ chunk_of p 0"
  by (simp add: replicate_append_same [symmetric])

lemma chunks_zero_len: "14 + length (concat (chunks ps (replicate (length ps) 0))) = piece_off ps (length ps)"
  using stream_off_end [of 14 "chunks ps (replicate (length ps) 0)"] piece_off_stream [of "replicate (length ps) 0" ps "length ps"] by simp

lemma slots_snoc:
  "map (\<lambda>j. piece_off (ps @ [p]) j + length (fst ((ps @ [p]) ! j))) [0..<length (ps @ [p])] =
   map (\<lambda>j. piece_off ps j + length (fst (ps ! j))) [0..<length ps] @ [piece_off ps (length ps) + length (fst p)]"
  by (simp add: piece_off_snoc nth_append)

lemma rel_snoc:
  "map (\<lambda>j. word_of_nat (val_off (es @ [e]) j) :: u32) [0..<length (es @ [e])] =
   map (\<lambda>j. word_of_nat (val_off es j)) [0..<length es] @ [word_of_nat (length (concat (map seg_val es)))]"
  by (simp add: val_off_def val_off_end [unfolded val_off_def, symmetric])

lemma starts_snoc: "i \<le> length gs \<Longrightarrow> starts (gs @ [g]) i = starts gs i"
  by (simp add: starts_def)

lemma starts_le: "starts gs i \<le> length (concat gs)"
  using concat_append [of "take i gs" "drop i gs"] by (metis append_take_drop_id le_add1 length_append starts_concat)

lemma seg_sizes:
  assumes "shape_ok e" "f = Flags e AND NOT CellFlagEmptyValue"
  shows "segValueContentSize f (Value e) = length (seg_val (sstored e))" "Flags (sstored e) = f"
    "seg_value_bytes f (Value e) (fst (ref_pair e)) (snd (ref_pair e)) (KeyExtPage e) (KeyTotalLen e) = seg_val (sstored e)"
proof -
  show f: "Flags (sstored e) = f" by (simp add: sstored_def assms(2))
  have b: "bit f n \<longleftrightarrow> n \<noteq> 3 \<and> bit (Flags e) n" for n using bit_sstored [of e n] f by simp
  have v: "bit (Flags e) 0 \<or> bit (Flags e) 2 \<Longrightarrow> Value e = []" using assms(1) by (auto simp: shape_ok_def Let_def)
  show sv: "seg_value_bytes f (Value e) (fst (ref_pair e)) (snd (ref_pair e)) (KeyExtPage e) (KeyTotalLen e) = seg_val (sstored e)"
    using v by (auto simp: seg_value_bytes_def seg_val_def ref_bytes_def val_bytes_def f b ref_pair_def cellHasTrailerOnly_def simp del: le_bytes.simps)
  show "segValueContentSize f (Value e) = length (seg_val (sstored e))"
    unfolding sv [symmetric] by (auto simp: segValueContentSize_def seg_value_bytes_def Let_def simp del: le_bytes.simps)
qed

definition seg_need :: "LeafEntry list list \<Rightarrow> nat" where
  "seg_need gs = data_end gs + length (concat (map seg_val (concat gs))) + 4 * length gs"

lemma seg_add_restart:
  assumes "seg_built cfg gs b" "Validate cfg = None" "entry_ok cfg e" "opens_group b (Key e) (Flags e AND NOT CellFlagEmptyValue)"
  shows "\<exists>ok b'. addSegEntry b (Key e) (Flags e) (Value e) (fst (ref_pair e)) (snd (ref_pair e)) (KeyExtPage e) (KeyTotalLen e) = Inr (ok, b') \<and>
    (ok \<longrightarrow> seg_built cfg (gs @ [[sstored e]]) (b'\<lparr>b_lastAddedKey := x\<rparr>)) \<and> (\<not> ok \<longrightarrow> content_end cfg < seg_need (gs @ [[sstored e]]))"
proof -
  note B = assms(1) [unfolded seg_built_def Let_def] and pb = page_bounds [OF assms(2)]
  define f where "f = Flags e AND NOT CellFlagEmptyValue"
  have sh: "shape_ok e" using assms(3) by (simp add: entry_ok_def)
  note sz = seg_sizes [OF sh f_def]
  let ?ps = "pieces gs" and ?e = "sstored e" and ?gs = "gs @ [[sstored e]]"
  let ?p = "rpiece ?e"
  define t where "t = (if 0 < curGroupCount (b_rgt b) then FinalizeCurrentGroup (b_rgt b) else b_rgt b)"
  have tl: "length (restarts t) = length gs"
    using tracks_len [of "b_rgt b" "seg_offs gs" "map length gs"] tracks_finalize [of "b_rgt b" "seg_offs gs" "map length gs"] B by (simp add: t_def)
  define b1 where "b1 = (if True \<and> curGroupCount (b_rgt b) > 0 then b\<lparr>b_rgt := FinalizeCurrentGroup (b_rgt b)\<rparr> else b)"
  have b1: "b1 = b\<lparr>b_rgt := t\<rparr>" by (simp add: b1_def t_def)
  have pl: "piece_len ?p = 5 + length (Key e)" by (simp add: piece_len_def rpiece_def del: le_bytes.simps)
  have de: "data_end ?gs = data_end gs + piece_len ?p" unfolding pieces_restart by (rule data_end_snoc)
  let ?need = "data_end ?gs + length (concat (map seg_val (concat ?gs))) + 4 * length ?gs"
  have size: "b_dataPos b1 + (5 + length (Key e)) + length (b_segVals b1) + length (seg_val ?e) + TableSize (b_rgt b1) 1 = ?need"
    using B tl pl de by (simp add: b1 TableSize_def restartTableEntrySize_def)
  show ?thesis
  proof (cases "?need \<le> content_end cfg")
    case False
    then have c: "(?need > content_end (b_cfg b1)) = True" using B by (simp add: b1 not_le)
    have "addSegEntry b (Key e) (Flags e) (Value e) (fst (ref_pair e)) (snd (ref_pair e)) (KeyExtPage e) (KeyTotalLen e) = Inr (False, b1)"
      unfolding addSegEntry_def Let_def f_def [symmetric] by (simp only: assms(4) [folded f_def] if_True b1_def [symmetric] sz(1) size c)
    moreover have "content_end cfg < seg_need ?gs" using False unfolding seg_need_def by linarith
    ultimately show ?thesis by blast
  next
    case True
    have c: "(?need > content_end (b_cfg b1)) = False" using B True by (simp add: b1 not_less)
    have l: "data_end gs + length (chunk_of ?p 0) \<le> length (b_buf b)" using True B pb(2) de by simp
    define buf where "buf = overwrite (b_buf b) (data_end gs) (chunk_of ?p 0)"
    let ?cs = "[Store [f], Store (w16 (word_of_nat (length (Key e)))), Store (w16 0), Copy (Key e)]"
    have cs: "concat (map chunk_bytes ?cs) = chunk_of ?p 0" by (simp add: chunk_of_def rpiece_def sz(2) del: le_bytes.simps)
    have w: "put_seq (b_buf b) (data_end gs) ?cs = Inr (buf, data_end gs + piece_len ?p)"
      using put_seq_ok [of "data_end gs" ?cs "b_buf b"] l unfolding cs buf_def by simp
    have "holds buf 14 (concat (chunks ?ps (replicate (length ?ps) 0)))"
      unfolding buf_def using B l chunks_zero_len [of ?ps] by (intro holds_other) auto
    moreover have "holds buf (data_end gs) (chunk_of ?p 0)" unfolding buf_def using l by (rule holds_same)
    ultimately have h: "holds buf 14 (concat (chunks (pieces ?gs) (replicate (length (pieces ?gs)) 0)))"
      unfolding pieces_restart chunks_snoc by (simp add: holds_append chunks_zero_len)
    let ?b = "b\<lparr>b_buf := buf, b_dataPos := data_end ?gs, b_prevKey := Key e, b_count := b_count b + 1,
      b_rgt := IncrCount (StartGroup t (data_end gs)), b_forceRestart := bit f 4, b_segVOffSlots := b_segVOffSlots b @ [data_end gs + 3],
      b_segRel := b_segRel b @ [word_of_nat (length (b_segVals b))], b_segVals := b_segVals b @ seg_val ?e\<rparr>"
    have "addSegEntry b (Key e) (Flags e) (Value e) (fst (ref_pair e)) (snd (ref_pair e)) (KeyExtPage e) (KeyTotalLen e) = Inr (True, ?b)"
    proof -
      have bb: "b_buf (b1\<lparr>b_rgt := StartGroup (b_rgt b1) (b_dataPos b1)\<rparr>) = b_buf b" "b_dataPos (b1\<lparr>b_rgt := StartGroup (b_rgt b1) (b_dataPos b1)\<rparr>) = data_end gs"
        using B by (simp_all add: b1)
      show ?thesis
        unfolding addSegEntry_def Let_def f_def [symmetric]
        by (simp only: assms(4) [folded f_def] if_True b1_def [symmetric] sz(1,3) size c if_False bb w bind_res.simps prod.case flag_bits)
          (use B de in \<open>simp add: b1\<close>)
    qed
    moreover have "seg_built cfg ?gs (?b\<lparr>b_lastAddedKey := x\<rparr>)"
    proof -
      have ne: "\<forall>g \<in> set gs. g \<noteq> []" using B by (auto simp: sgroup_ok_def group_ok_def)
      have "seg_offs ?gs = seg_offs gs @ [data_end gs]"
      proof -
        have "piece_off (pieces ?gs) (starts ?gs i) = piece_off ?ps (starts gs i)" if "i \<le> length gs" for i
          using that starts_le [of gs i] length_pieces [OF ne] unfolding pieces_restart by (simp add: starts_snoc piece_off_snoc)
        moreover have "starts gs (length gs) = length ?ps" using length_pieces [OF ne] by (simp add: starts_concat)
        ultimately show ?thesis by simp
      qed
      then have "tracks (IncrCount (StartGroup t (data_end gs))) (seg_offs ?gs) (map length ?gs)"
        using tracks_restart [of "b_rgt b" "seg_offs gs" "map length gs" "data_end gs"] B unfolding t_def by (simp only: map_append list.map length_Cons list.size) simp
      moreover have "sgroup_ok cfg [?e]" using sstored_ok [OF assms(3)] by (simp add: sgroup_ok_def group_ok_def sentry_ok_def)
      moreover have "slots ?gs = slots gs @ [data_end gs + 3]" unfolding pieces_restart slots_snoc by (simp add: rpiece_def del: le_bytes.simps)
      moreover have "map (\<lambda>j. word_of_nat (val_off (concat ?gs) j) :: u32) [0..<length (concat ?gs)] = b_segRel b @ [word_of_nat (length (b_segVals b))]"
        using rel_snoc [of "concat gs" ?e] B by simp
      moreover have "concat (map seg_val (concat ?gs)) = b_segVals b @ seg_val ?e" using B by simp
      ultimately show ?thesis
        unfolding seg_built_def Let_def using B True h l bit_sstored [of e 4] sz(2)
        by (simp add: buf_def IsOverflowKey_def del: map_append upt_Suc)
    qed
    ultimately show ?thesis by blast
  qed
qed

lemma seg_add_delta:
  assumes "seg_built cfg gs b" "Validate cfg = None" "entry_ok cfg e" "\<not> opens_group b (Key e) (Flags e AND NOT CellFlagEmptyValue)"
  shows "\<exists>ok b'. addSegEntry b (Key e) (Flags e) (Value e) (fst (ref_pair e)) (snd (ref_pair e)) (KeyExtPage e) (KeyTotalLen e) = Inr (ok, b') \<and>
    (ok \<longrightarrow> seg_built cfg (butlast gs @ [last gs @ [sstored e]]) (b'\<lparr>b_lastAddedKey := x\<rparr>)) \<and>
    (\<not> ok \<longrightarrow> content_end cfg < seg_need (butlast gs @ [last gs @ [sstored e]]))"
proof -
  note B = assms(1) [unfolded seg_built_def Let_def] and pb = page_bounds [OF assms(2)] and o = seg_opens_group [OF assms(1,2,4)]
  define f where "f = Flags e AND NOT CellFlagEmptyValue"
  have sh: "shape_ok e" using assms(3) by (simp add: entry_ok_def)
  note sz = seg_sizes [OF sh f_def]
  define hs g where hg: "hs = butlast gs" "g = last gs"
  have gs: "gs = hs @ [g]" using o(1) by (simp add: hg)
  have gok: "sgroup_ok cfg g" "g \<noteq> []" using B gs by (auto simp: sgroup_ok_def group_ok_def)
  let ?ps = "pieces gs" and ?e = "sstored e" and ?gs = "hs @ [g @ [sstored e]]"
  let ?s = "sharedPrefixLen (Key (last g)) (Key e)" and ?p = "dpiece (Key (last g)) ?e"
  have pk: "b_prevKey b = Key (last g)" using B o(1) gs by simp
  have ps: "pieces ?gs = ?ps @ [?p]" using pieces_delta [OF gok(2), of hs ?e] gs by simp
  have cat: "concat ?gs = concat gs @ [?e]" using gs by simp
  have tl: "length (restarts (b_rgt b)) = length gs"
    using tracks_len [of "b_rgt b" "seg_offs gs" "map length gs"] B by simp
  have pl: "piece_len ?p = 7 + length (drop ?s (Key e))" by (simp add: piece_len_def dpiece_def Let_def del: le_bytes.simps)
  have de: "data_end ?gs = data_end gs + piece_len ?p" unfolding ps by (rule data_end_snoc)
  let ?need = "data_end ?gs + length (concat (map seg_val (concat ?gs))) + 4 * length gs"
  have size: "b_dataPos b + (7 + length (drop ?s (Key e))) + length (b_segVals b) + length (seg_val ?e) + TableSize (b_rgt b) 0 = ?need"
    using B tl pl de unfolding cat by (simp add: TableSize_def restartTableEntrySize_def)
  show ?thesis
  proof (cases "?need \<le> content_end cfg")
    case False
    then have c: "(?need > content_end (b_cfg b)) = True" using B by (simp add: not_le)
    have "addSegEntry b (Key e) (Flags e) (Value e) (fst (ref_pair e)) (snd (ref_pair e)) (KeyExtPage e) (KeyTotalLen e) = Inr (False, b)"
      unfolding addSegEntry_def Let_def f_def [symmetric]
      by (simp only: assms(4) [folded f_def] if_True if_False simp_thms pk sz(1) size c)
    moreover have "content_end cfg < seg_need ?gs" using False gs unfolding seg_need_def by (simp only: length_append list.size not_le)
    ultimately show ?thesis unfolding hg by blast
  next
    case True
    have c: "(?need > content_end (b_cfg b)) = False" using B True by (simp add: not_less)
    have l: "data_end gs + length (chunk_of ?p 0) \<le> length (b_buf b)" using True B pb(2) de by simp
    define buf where "buf = overwrite (b_buf b) (data_end gs) (chunk_of ?p 0)"
    let ?cs = "[Store [f], Store (w16 (word_of_nat ?s)), Store (w16 (word_of_nat (length (drop ?s (Key e))))), Store (w16 0), Copy (drop ?s (Key e))]"
    have cs: "concat (map chunk_bytes ?cs) = chunk_of ?p 0" by (simp add: chunk_of_def dpiece_def Let_def sz(2) del: le_bytes.simps)
    have w: "put_seq (b_buf b) (b_dataPos b) ?cs = Inr (buf, data_end gs + piece_len ?p)"
      using put_seq_ok [of "data_end gs" ?cs "b_buf b"] l B unfolding cs buf_def by simp
    have "holds buf 14 (concat (chunks ?ps (replicate (length ?ps) 0)))"
      unfolding buf_def using B l chunks_zero_len [of ?ps] by (intro holds_other) auto
    moreover have "holds buf (data_end gs) (chunk_of ?p 0)" unfolding buf_def using l by (rule holds_same)
    ultimately have h: "holds buf 14 (concat (chunks (pieces ?gs) (replicate (length (pieces ?gs)) 0)))"
      unfolding ps chunks_snoc by (simp add: holds_append chunks_zero_len)
    let ?b = "b\<lparr>b_buf := buf, b_dataPos := data_end ?gs, b_prevKey := Key e, b_count := b_count b + 1,
      b_rgt := IncrCount (b_rgt b), b_forceRestart := bit f 4, b_segVOffSlots := b_segVOffSlots b @ [data_end gs + 5],
      b_segRel := b_segRel b @ [word_of_nat (length (b_segVals b))], b_segVals := b_segVals b @ seg_val ?e\<rparr>"
    have "addSegEntry b (Key e) (Flags e) (Value e) (fst (ref_pair e)) (snd (ref_pair e)) (KeyExtPage e) (KeyTotalLen e) = Inr (True, ?b)"
    proof -
      have bb: "b_dataPos b = data_end gs" using B by blast
      show ?thesis
        unfolding addSegEntry_def Let_def f_def [symmetric]
        by (simp only: assms(4) [folded f_def] if_True if_False simp_thms pk sz(1,3) size [unfolded bb de] c [unfolded de] w [unfolded bb] bind_res.simps prod.case flag_bits de bb)
    qed
    moreover have "seg_built cfg ?gs (?b\<lparr>b_lastAddedKey := x\<rparr>)"
    proof -
      have ne: "\<forall>g \<in> set gs. g \<noteq> []" using B by (auto simp: sgroup_ok_def group_ok_def)
      have "seg_offs ?gs = seg_offs gs"
      proof -
        have "piece_off (pieces ?gs) (starts ?gs i) = piece_off ?ps (starts gs i)" if "i < length gs" for i
        proof -
          have "starts ?gs i = starts gs i" using that gs by (simp add: starts_snoc)
          then show ?thesis using starts_le [of gs i] length_pieces [OF ne] unfolding ps by (simp add: piece_off_snoc)
        qed
        moreover have "length ?gs = length gs" using gs by simp
        ultimately show ?thesis by (simp del: length_append)
      qed
      moreover have "map length ?gs = map length hs @ [length g + 1]" "map length gs = map length hs @ [length g]" using gs by simp_all
      ultimately have "tracks (IncrCount (b_rgt b)) (seg_offs ?gs) (map length ?gs)"
        using tracks_incr [of "b_rgt b" "seg_offs gs" "map length hs" "length g"] B by (simp only:)
      moreover have "sgroup_ok cfg (g @ [?e])"
        using gok o(2-4) gs sstored_ok [OF assms(3)] target_bound(1) [OF assms(2)] bit_sstored [of e 4] sz(2)
        by (cases g) (auto simp: sgroup_ok_def group_ok_def sentry_ok_def IsOverflowKey_def f_def split: if_splits)
      moreover have "slots ?gs = slots gs @ [data_end gs + 5]" unfolding ps slots_snoc by (simp add: dpiece_def Let_def del: le_bytes.simps)
      moreover have "map (\<lambda>j. word_of_nat (val_off (concat ?gs) j) :: u32) [0..<length (concat ?gs)] = b_segRel b @ [word_of_nat (length (b_segVals b))]"
        using rel_snoc [of "concat gs" ?e] B unfolding cat by simp
      moreover have "concat (map seg_val (concat ?gs)) = b_segVals b @ seg_val ?e" using B unfolding cat by simp
      moreover have "length (concat ?gs) = length (concat gs) + 1" "length ?gs = length gs" "set ?gs = insert (g @ [?e]) (set hs)" "last ?gs = g @ [?e]"
        using gs unfolding cat by auto
      moreover have "\<forall>g \<in> set hs. sgroup_ok cfg g" using B gs by auto
      ultimately show ?thesis
        unfolding seg_built_def Let_def using B True h l bit_sstored [of e 4] sz(2)
        by (simp add: buf_def IsOverflowKey_def del: map_append concat_append upt_Suc length_append set_append)
    qed
    ultimately show ?thesis unfolding hg by blast
  qed
qed

lemma seg_add:
  assumes "seg_built cfg gs b" "Validate cfg = None" "entry_ok cfg e"
  shows "\<exists>ok b' gs'. addSegEntry b (Key e) (Flags e) (Value e) (fst (ref_pair e)) (snd (ref_pair e)) (KeyExtPage e) (KeyTotalLen e) = Inr (ok, b') \<and>
    concat gs' = concat gs @ [sstored e] \<and> (\<forall>g \<in> set gs'. g \<noteq> []) \<and>
    (ok \<longrightarrow> seg_built cfg gs' (b'\<lparr>b_lastAddedKey := x\<rparr>)) \<and> (\<not> ok \<longrightarrow> content_end cfg < seg_need gs')"
proof -
  have ne: "\<forall>g \<in> set gs. g \<noteq> []" using assms(1) by (auto simp: seg_built_def Let_def sgroup_ok_def group_ok_def)
  show ?thesis
  proof (cases "opens_group b (Key e) (Flags e AND NOT CellFlagEmptyValue)")
    case True
    have c: "concat (gs @ [[sstored e]]) = concat gs @ [sstored e]" "\<forall>g \<in> set (gs @ [[sstored e]]). g \<noteq> []" using ne by auto
    from seg_add_restart [OF assms True, of x] obtain ok b'
      where a: "addSegEntry b (Key e) (Flags e) (Value e) (fst (ref_pair e)) (snd (ref_pair e)) (KeyExtPage e) (KeyTotalLen e) = Inr (ok, b')"
        "ok \<longrightarrow> seg_built cfg (gs @ [[sstored e]]) (b'\<lparr>b_lastAddedKey := x\<rparr>)" "\<not> ok \<longrightarrow> content_end cfg < seg_need (gs @ [[sstored e]])" by blast
    show ?thesis by (rule exI [of _ ok], rule exI [of _ b'], rule exI [of _ "gs @ [[sstored e]]"]) (intro conjI a c)
  next
    case False
    have c: "concat (butlast gs @ [last gs @ [sstored e]]) = concat gs @ [sstored e]" "\<forall>g \<in> set (butlast gs @ [last gs @ [sstored e]]). g \<noteq> []"
      using ne concat_grow [OF seg_opens_group(1) [OF assms(1,2) False]] by (auto dest: in_set_butlastD)
    from seg_add_delta [OF assms False, of x] obtain ok b'
      where a: "addSegEntry b (Key e) (Flags e) (Value e) (fst (ref_pair e)) (snd (ref_pair e)) (KeyExtPage e) (KeyTotalLen e) = Inr (ok, b')"
        "ok \<longrightarrow> seg_built cfg (butlast gs @ [last gs @ [sstored e]]) (b'\<lparr>b_lastAddedKey := x\<rparr>)" "\<not> ok \<longrightarrow> content_end cfg < seg_need (butlast gs @ [last gs @ [sstored e]])" by blast
    show ?thesis by (rule exI [of _ ok], rule exI [of _ b'], rule exI [of _ "butlast gs @ [last gs @ [sstored e]]"]) (intro conjI a c)
  qed
qed

section \<open>The value offsets\<close>

fun slots_from :: "nat \<Rightarrow> (bytes \<times> bytes) list \<Rightarrow> nat list" where
  "slots_from base [] = []"
| "slots_from base (p # ps) = (base + length (fst p)) # slots_from (base + piece_len p) ps"

lemma slots_from_eq:
  "map (\<lambda>j. base + sum_list (map piece_len (take j ps)) + length (fst (ps ! j))) [0..<length ps] = slots_from base ps"
proof (induction ps arbitrary: base)
  case (Cons p ps)
  have "[0..<length (p # ps)] = 0 # map Suc [0..<length ps]" by (simp add: map_Suc_upt upt_conv_Cons del: upt_Suc)
  then show ?case using Cons.IH [of "base + piece_len p"] by (simp add: comp_def add.assoc del: upt_Suc)
qed simp

lemma patch_voffs_ok:
  assumes "holds buf base (concat (chunks ps us))" "length us = length ps" "length rels = length ps"
  shows "\<exists>b. patch_voffs buf start (zip (slots_from base ps) rels) = Inr b \<and>
    differs_in {base..<base + sum_list (map piece_len ps)} buf b \<and>
    holds b base (concat (chunks ps (map (\<lambda>r. word_of_nat (start + unat r)) rels)))"
  using assms
proof (induction ps arbitrary: buf base us rels)
  case Nil
  then show ?case by simp
next
  case (Cons p ps)
  obtain u us' r rs where us: "us = u # us'" "rels = r # rs" using Cons.prems(2,3) by (cases us; cases rels) auto
  define v where "v = w16 (word_of_nat (start + unat r))"
  define k where "k = base + length (fst p)"
  have lv: "length v = 2" by (simp add: v_def del: le_bytes.simps)
  have h: "holds buf base (chunk_of p u)" "holds buf (base + piece_len p) (concat (chunks ps us'))"
    using Cons.prems(1) us by (simp_all add: holds_append)
  note parts = piece_parts [OF h(1)]
  have in_buf: "k + length v \<le> length buf" using holds_len [OF parts(2)] lv by (simp add: k_def del: le_bytes.simps)
  define b1 where "b1 = overwrite buf k v"
  have d1: "differs_in {k..<k + 2} buf b1" unfolding b1_def using overwrite_differs [OF in_buf] lv by simp
  have "holds b1 base (fst p)" by (rule differs_holds [OF d1 parts(1)]) (auto simp: k_def)
  moreover have "holds b1 k v" unfolding b1_def by (rule holds_same [OF in_buf])
  moreover have "holds b1 (k + 2) (snd p)" unfolding k_def by (rule differs_holds [OF d1 parts(3)]) (auto simp: k_def)
  ultimately have c1: "holds b1 base (chunk_of p (word_of_nat (start + unat r)))"
    unfolding chunk_of_def holds_append v_def [symmetric] using lv by (simp add: k_def)
  have "holds b1 (base + piece_len p) (concat (chunks ps us'))"
    by (rule differs_holds [OF d1 h(2)]) (auto simp: k_def piece_len_def)
  from Cons.IH [OF this, of rs] obtain b where b: "patch_voffs b1 start (zip (slots_from (base + piece_len p) ps) rs) = Inr b"
      "differs_in {base + piece_len p..<base + piece_len p + sum_list (map piece_len ps)} b1 b"
      "holds b (base + piece_len p) (concat (chunks ps (map (\<lambda>r. word_of_nat (start + unat r)) rs)))"
    using Cons.prems(2,3) us by auto
  have "put_at buf k v = Inr b1" unfolding b1_def by (rule put_at_ok [OF in_buf])
  then have "patch_voffs buf start (zip (slots_from base (p # ps)) rels) = Inr b" using b(1) us by (simp add: k_def v_def del: le_bytes.simps)
  moreover have "differs_in {base..<base + sum_list (map piece_len (p # ps))} buf b"
    by (rule differs_trans [OF d1 b(2)]) (auto simp: k_def piece_len_def)
  moreover have "holds b base (chunk_of p (word_of_nat (start + unat r)))" by (rule differs_holds [OF b(2) c1]) auto
  ultimately show ?case using b(3) us by (simp add: holds_append)
qed

lemma seg_finish:
  assumes "seg_built cfg gs b" "Validate cfg = None"
  shows "\<exists>page. Finish b = Inr page \<and> sleaf_layout cfg gs page"
proof -
  note B = assms(1) [unfolded seg_built_def Let_def] and pb = page_bounds [OF assms(2)]
  have ne: "\<forall>g \<in> set gs. g \<noteq> []" using B by (auto simp: sgroup_ok_def group_ok_def)
  have fit: "data_end gs + length (concat (map seg_val (concat gs))) + 4 * length gs \<le> content_end cfg" using B by blast
  note bd = seg_fit_bounds [OF fit assms(2) ne]
  define rc ce n d t ve vs where df: "rc = length gs" "ce = content_end cfg" "n = length (concat gs)" "d = data_end gs"
    "t = concat (map seg_val (concat gs))" "ve = value_end cfg gs" "vs = value_start cfg gs"
  have ps: "length (pieces gs) = n" using length_pieces [OF ne] by (simp add: df)
  have g0: "concat gs = [] \<longleftrightarrow> rc = 0" using ne by (cases gs) (auto simp: df)
  have fits: "d \<le> vs" "vs + length t = ve" "4 * rc \<le> ce" "ce \<le> length (b_buf b)" "14 \<le> d"
  proof -
    show "d \<le> vs" using bd(8) by (simp only: df)
    show "vs + length t = ve" using bd(7) unfolding df value_start_def by linarith
    show "4 * rc \<le> ce" using fit unfolding df by linarith
    show "ce \<le> length (b_buf b)" using pb(2) B by (simp add: df)
    show "14 \<le> d" by (simp add: df piece_off_def)
  qed
  have ve: "ve \<le> ce - 4 * rc"
  proof (cases "rc = 0")
    case True
    then have "ve = 14" using g0 by (simp add: df value_end_def)
    then show ?thesis using True fit fits(5) unfolding df by linarith
  next
    case False
    then have "concat gs \<noteq> []" using g0 by blast
    then show ?thesis unfolding df value_end_def by (simp only: if_False)
  qed
  have page: "14 \<le> length (b_buf b)" using fits ve by linarith
  have offs: "\<forall>i < length (seg_offs gs). seg_offs gs ! i < 65536 \<and> map length gs ! i < 256"
  proof (intro allI impI)
    fix i assume "i < length (seg_offs gs)"
    then have i: "i < length gs" by simp
    then have "group_ok cfg (gs ! i)" using B by (simp add: sgroup_ok_def)
    moreover have "piece_off (pieces gs) (starts gs i) \<le> d"
      using starts_le [of gs i] ps unfolding df by (intro piece_off_mono) simp
    ultimately show "seg_offs gs ! i < 65536 \<and> map length gs ! i < 256" using i bd(3) by (simp add: group_ok_def df)
  qed
  obtain b1 where b1: "WriteTable (b_rgt b) (b_buf b) ce = Inr (b1, rc)" "differs_in {ce - 4 * rc..<ce} (b_buf b) b1"
      "table_at ce (seg_offs gs) (map length gs) b1"
    using WriteTable_ok [OF _ _ _ offs, of "b_rgt b" ce "b_buf b"] B fits by (auto simp: df)
  have l1: "length b1 = length (b_buf b)" using differs_len [OF b1(2)] .
  define b2 where "b2 = overwrite b1 vs t"
  have in1: "vs + length t \<le> length b1" using fits ve l1 by linarith
  have p2: "put_at b1 vs t = Inr b2" unfolding b2_def by (rule put_at_ok [OF in1])
  have d2: "differs_in {vs..<ve} b1 b2" unfolding b2_def using overwrite_differs [OF in1] fits(2) by simp
  have h2: "holds b2 vs t" unfolding b2_def by (rule holds_same [OF in1])
  have d02: "differs_in {vs..<ce} (b_buf b) b2" by (rule differs_trans [OF b1(2) d2]) (use fits ve in auto)
  have "holds (b_buf b) 14 (concat (chunks (pieces gs) (replicate n 0)))" using B ps by simp
  then have hz: "holds b2 14 (concat (chunks (pieces gs) (replicate n 0)))"
    by (rule differs_holds [OF d02]) (use fits chunks_zero_len [of "pieces gs"] ps in \<open>auto simp: df\<close>)
  have sl: "b_segVOffSlots b = slots_from 14 (pieces gs)" using B slots_from_eq [of 14 "pieces gs"] by (simp add: piece_off_def)
  have dp: "14 + sum_list (map piece_len (pieces gs)) = d" by (simp add: df piece_off_def)
  have rel: "map (\<lambda>r. word_of_nat (vs + unat r)) (b_segRel b) = voffs cfg gs"
  proof -
    have u: "unat (word_of_nat (val_off (concat gs) j) :: u32) = val_off (concat gs) j" for j
    proof -
      have "val_off (concat gs) j < 4294967296" using val_off_le [of "concat gs" j] bd(4,7) by linarith
      then show ?thesis by (simp add: unat_of_nat)
    qed
    have r: "b_segRel b = map (\<lambda>j. word_of_nat (val_off (concat gs) j)) [0..<length (concat gs)]" using B by blast
    show ?thesis unfolding r map_map comp_def u df(7) voff_def ..
  qed
  obtain b3 where b3: "patch_voffs b2 vs (zip (b_segVOffSlots b) (b_segRel b)) = Inr b3" "differs_in {14..<d} b2 b3"
      "holds b3 14 (concat (chunks (pieces gs) (voffs cfg gs)))"
    using patch_voffs_ok [OF hz, of "b_segRel b" vs] ps B unfolding sl dp rel by (auto simp: df)
  have l3: "length b3 = length (b_buf b)" using differs_len [OF b3(2)] differs_len [OF d02] by simp
  obtain b4 where b4: "zeroFreeSpace b3 d (int vs) = Inr b4" "differs_in {d..<nat (int vs)} b3 b4"
  proof -
    have "vs \<le> length b3" using fits ve l3 by linarith
    then show ?thesis using zeroFreeSpace_ok [of "int vs" b3 d] that by auto
  qed
  have l4: "length b4 = length (b_buf b)" using differs_len [OF b4(2)] l3 by simp
  obtain b5 where b5: "write_header b4 TypeLeafSegregated (word_of_nat n) 0 = Inr b5" "differs_in {0..<8} b4 b5"
      "holds b5 0 (header_bytes TypeLeafSegregated (word_of_nat n) 0)"
    using write_header_holds [of b4 TypeLeafSegregated "word_of_nat n" 0] page l4 by auto
  have l5: "length b5 = length (b_buf b)" using differs_len [OF b5(2)] l4 by simp
  obtain b6 where b6: "put_at b5 8 (w16 (word_of_nat rc)) = Inr b6" "differs_in {8..<8 + 2} b5 b6" "holds b6 8 (w16 (word_of_nat rc))" "length b6 = length b5"
    using put_w16 [of 8 b5 "word_of_nat rc"] page l5 by auto
  obtain b7 where b7: "put_at b6 10 (w16 (word_of_nat d)) = Inr b7" "differs_in {10..<10 + 2} b6 b7" "holds b7 10 (w16 (word_of_nat d))" "length b7 = length b6"
    using put_w16 [of 10 b6 "word_of_nat d"] page l5 b6(4) by auto
  obtain b8 where b8: "put_at b7 12 (w16 (word_of_nat ve)) = Inr b8" "differs_in {12..<12 + 2} b7 b8" "holds b8 12 (w16 (word_of_nat ve))" "length b8 = length b7"
    using put_w16 [of 12 b7 "word_of_nat ve"] page l5 b6(4) b7(4) by auto
  have d68: "differs_in {10..<14} b6 b8" by (rule differs_trans [OF b7(2) b8(2)]) auto
  have d58: "differs_in {8..<14} b5 b8" by (rule differs_trans [OF b6(2) d68]) auto
  have d48: "differs_in {0..<14} b4 b8" by (rule differs_trans [OF b5(2) d58]) auto
  have d38: "differs_in ({0..<14} \<union> {d..<vs}) b3 b8" by (rule differs_trans [OF b4(2) d48]) auto
  have d28: "differs_in {0..<vs} b2 b8" by (rule differs_trans [OF b3(2) d38]) (use fits ve in auto)
  have d18: "differs_in {0..<ve} b1 b8" by (rule differs_trans [OF d2 d28]) (use fits ve in auto)
  have "holds b8 0 (header_bytes TypeLeafSegregated (word_of_nat n) 0)" by (rule differs_holds [OF d58 b5(3)]) auto
  moreover have "holds b8 8 (w16 (word_of_nat rc))" by (rule differs_holds [OF d68 b6(3)]) (auto simp del: le_bytes.simps)
  moreover have "holds b8 10 (w16 (word_of_nat d))" by (rule differs_holds [OF b8(2) b7(3)]) (auto simp del: le_bytes.simps)
  moreover have "holds b8 14 (concat (chunks (pieces gs) (voffs cfg gs)))"
  proof (rule differs_holds [OF d38 b3(3)])
    have "length (concat (chunks (pieces gs) (voffs cfg gs))) = d - 14"
      using stream_off_end [of 14 "chunks (pieces gs) (voffs cfg gs)"] piece_off_stream [of "voffs cfg gs" "pieces gs" "length (pieces gs)"] ps by (simp add: df)
    then show "{14..<14 + length (concat (chunks (pieces gs) (voffs cfg gs)))} \<inter> ({0..<14} \<union> {d..<vs}) = {}" using fits by auto
  qed
  moreover have "holds b8 vs t" by (rule differs_holds [OF d28 h2]) auto
  moreover have "table_at ce (seg_offs gs) (map length gs) b8" by (rule table_kept [OF b1(3) d18]) (use fits ve in \<open>auto simp: df\<close>)
  moreover have "length b8 = unat (PageSize cfg)" using l5 b6(4) b7(4) b8(4) B by simp
  ultimately have lay: "sleaf_layout cfg gs b8" using b8(3) fit by (simp add: sleaf_layout_def Let_def df del: le_bytes.simps)
  have f: "b_variant b = TypeLeafSegregated" "content_end (b_cfg b) = ce" "b_count b = n" "b_dataPos b = d" "b_segVals b = t" using B by (simp_all add: df)
  have v: "(if n = 0 then 8 + 6 else ce - rc * 4) = ve" using g0 by (simp add: df value_end_def mult.commute)
  have v': "(ve < length t) = False" "ve - length t = vs" using fits by simp_all
  have ty: "(TypeLeafSegregated = TypeLeafUncompressed) = False" by (simp add: page_types)
  have num: "8 + 2 = (10 :: nat)" "8 + 4 = (12 :: nat)" by simp_all
  have "Finish b = Inr b8"
    unfolding Finish_def Let_def leaf_sizes
    by (simp only: f ty num simp_thms refl if_True if_False b1(1) bind_res.simps prod.case v v' p2 b3(1) b4(1) b5(1) b6(1) b7(1) b8(1))
  then show ?thesis using lay by blast
qed

end
