(* ===== verification/Leaf_Accept_Seg.thy ===== *)
theory Leaf_Accept_Seg
  imports Leaf_Accept Leaf_Seg_Build
begin

text \<open>
  Validation accepts what the builder lays out in the segregated form: the walk over the stream
  checks each value span against the next value offset, so its state names the entry before.
\<close>

section \<open>Entries\<close>

lemma span_accepts:
  assumes "sentry_ok (r_cfg r) e" "holds (r_buf r) v (seg_val e)" "r_dataEnd r \<le> v" "v + length (seg_val e) \<le> r_valueEnd r"
  shows "checkSpan r (Flags e) v (v + length (seg_val e)) = Inr ()"
proof -
  have e: "key_ok (inline_max (r_cfg r)) e" "\<not> bit (Flags e) 3" using assms(1) by (simp_all add: sentry_ok_def entry_ok_def)
  have len: "length (seg_val e) = (if bit (Flags e) 4 then 12 else 0) + (if cellHasTrailerOnly (Flags e) then 16 else length (Value e))"
    using e(2) by (simp add: seg_val_def entry_lengths)
  show ?thesis
  proof (cases "bit (Flags e) 4")
    case True
    then have "u64_at (r_buf r) v = Inr (KeyExtPage e)" "u32_at (r_buf r) (v + 8) = Inr (KeyTotalLen e)"
      using assms(2) unfolding seg_val_def ref_bytes_def by (simp_all add: holds_append access_simps del: le_bytes.simps)
    then show ?thesis using True assms(3,4) e(1) len
      by (cases "cellHasTrailerOnly (Flags e)") (simp_all add: checkSpan_def segValueContentLen_def key_ok_def IsOverflowKey_def)
  next
    case False
    then show ?thesis using assms(3,4) len by (cases "cellHasTrailerOnly (Flags e)") (simp_all add: checkSpan_def segValueContentLen_def)
  qed
qed

lemma stream_ok: "segEnsureStream r off n = Inr u \<longleftrightarrow> 14 \<le> off \<and> off + n \<le> r_dataEnd r"
  by (simp add: segEnsureStream_def leaf_sizes)

lemma seg_entry_accepts:
  assumes "sentry_ok (r_cfg r) e" "length (Key e) < 65536" "v < 65536"
    and "holds (r_buf r) off (chunk_of p (word_of_nat v))" "14 \<le> off" "off + piece_len p \<le> r_dataEnd r"
    and "if first then p = rpiece e \<and> (IsOverflowKey e \<longrightarrow> gc = 1) else p = dpiece prev e \<and> n = length prev \<and> \<not> IsOverflowKey e"
  shows "seg_entry_ok r first gc off n = Inr (Flags e, v, off + piece_len p, length (Key e))"
proof -
  have sh: "shape_ok e" "key_ok (inline_max (r_cfg r)) e" "bit (Flags e) 3 = False" using assms(1) by (simp_all add: sentry_ok_def entry_ok_def)
  note h = piece_parts [OF assms(4)]
  note f = shape_flags [OF sh(1)]
  have key: "(bit (Flags e) 4 \<and> length (Key e) \<noteq> inline_max (r_cfg r)) = False"
      "(\<not> bit (Flags e) 4 \<and> inline_max (r_cfg r) < length (Key e)) = False"
    using sh(2) by (auto simp: key_ok_def IsOverflowKey_def)
  have en: "segEnsureStream r o' k = Inr ()" if "14 \<le> o'" "o' + k \<le> off + piece_len p" for o' k using that assms(6) by (simp add: stream_ok)
  show ?thesis
  proof (cases first)
    case True
    then have p: "p = rpiece e" "(bit (Flags e) 4 \<and> gc \<noteq> 1) = False" using assms(7) by (auto simp: IsOverflowKey_def)
    have l: "piece_len p = 5 + length (Key e)" by (simp add: p(1) piece_len_def rpiece_def del: le_bytes.simps)
    have g: "u8_at (r_buf r) off = Inr (Flags e)" "u16_at (r_buf r) (off + 1) = Inr (word_of_nat (length (Key e)))" "u16_at (r_buf r) (off + 3) = Inr (word_of_nat v)"
      using h(1,2) unfolding p(1) rpiece_def fst_conv holds_append by (simp_all add: access_simps del: le_bytes.simps)
    have e: "segEnsureStream r off 1 = Inr ()" "segEnsureStream r off 5 = Inr ()" "segEnsureStream r (off + 5) (length (Key e)) = Inr ()"
      using assms(5) l by (auto intro!: en)
    show ?thesis unfolding seg_entry_ok_def
      by (simp only: True e g f sh(3) p(2) key flag_bits unat_len16 [OF assms(2)] unat_len16 [OF assms(3)] bind_res.simps if_True if_False Let_def l add.assoc)
  next
    case False
    let ?s = "sharedPrefixLen prev (Key e)" and ?u = "length (Key e) - sharedPrefixLen prev (Key e)"
    have p: "p = dpiece prev e" "n = length prev" "bit (Flags e) 4 = False" using False assms(7) by (auto simp: IsOverflowKey_def)
    have "delta_after prev ?s e" using p(3) by (intro spl_after) (simp add: IsOverflowKey_def)
    then have s: "?s \<le> length (Key e)" "(length prev < ?s) = False" by (auto simp: delta_after_def)
    have s': "?s < 65536" "?u < 65536" "?s + ?u = length (Key e)" using s(1) assms(2) by auto
    have l: "piece_len p = 7 + ?u" by (simp add: p(1) piece_len_def dpiece_def Let_def del: le_bytes.simps)
    have g: "u8_at (r_buf r) off = Inr (Flags e)" "u16_at (r_buf r) (off + 1) = Inr (word_of_nat ?s)" "u16_at (r_buf r) (off + 3) = Inr (word_of_nat ?u)"
        "u16_at (r_buf r) (off + 5) = Inr (word_of_nat v)"
      using h(1,2) unfolding p(1) dpiece_def Let_def fst_conv holds_append by (simp_all add: access_simps eval_nat_numeral del: le_bytes.simps)
    have e: "segEnsureStream r off 1 = Inr ()" "segEnsureStream r off 7 = Inr ()" "segEnsureStream r (off + 7) ?u = Inr ()"
      using assms(5) l by (auto intro!: en)
    have k: "(inline_max (r_cfg r) < length (Key e)) = False" using key(2) p(3) by simp
    show ?thesis unfolding seg_entry_ok_def
      by (simp only: False e g f sh(3) p(2,3) k s(2) flag_bits unat_len16 [OF s'(1)] unat_len16 [OF s'(2)] s'(3) unat_len16 [OF assms(3)] bind_res.simps if_True if_False Let_def l add.assoc)
  qed
qed

section \<open>Pages\<close>

text \<open>The state of the walk before entry \<open>j\<close>.\<close>

definition walk_state :: "Config \<Rightarrow> LeafEntry list list \<Rightarrow> nat \<Rightarrow> span_state" where
  "walk_state cfg gs j =
     (if j = 0 then (-1, -1, None)
      else (int (voff cfg gs (j - 1)), int (voff cfg gs 0), Some (Flags (concat gs ! (j - 1)), voff cfg gs (j - 1))))"

lemma voff_le: "i \<le> j \<Longrightarrow> voff cfg gs i \<le> voff cfg gs j"
proof -
  assume "i \<le> j"
  then obtain k where "take j (concat gs) = take i (concat gs) @ k" by (metis le_Suc_ex take_add)
  then show ?thesis by (simp add: voff_def val_off_def)
qed

lemma pend_accepts:
  assumes "sleaf_layout cfg gs buf" "Validate cfg = None" "\<forall>g \<in> set gs. sgroup_ok cfg g" "j \<le> length (concat gs)"
  shows "flushPend (sleaf_reader cfg gs buf) (snd (snd (walk_state cfg gs j))) (voff cfg gs j) = Inr ()"
proof (cases j)
  case (Suc k)
  have ne: "\<forall>g \<in> set gs. g \<noteq> []" using assms(3) by (auto simp: sgroup_ok_def group_ok_def)
  have k: "k < length (concat gs)" using Suc assms(4) by simp
  note L = assms(1) [unfolded sleaf_layout_def Let_def] and bd = sleaf_bounds [OF assms(1,2) ne]
  have "holds buf (stream_off (value_start cfg gs) (map seg_val (concat gs)) k) (map seg_val (concat gs) ! k)" by (rule holds_stream) (use L k in auto)
  then have h: "holds buf (voff cfg gs k) (seg_val (concat gs ! k))" using k by (simp add: val_off_stream voff_def)
  have n: "voff cfg gs j = voff cfg gs k + length (seg_val (concat gs ! k))" using k Suc by (simp add: voff_def val_off_Suc)
  have "concat gs ! k \<in> set (concat gs)" using k by (rule nth_mem)
  then have ok: "sentry_ok cfg (concat gs ! k)" using assms(3) by (auto simp: sgroup_ok_def group_ok_def sentry_ok_def)
  have "checkSpan (sleaf_reader cfg gs buf) (Flags (concat gs ! k)) (voff cfg gs k) (voff cfg gs k + length (seg_val (concat gs ! k))) = Inr ()"
    using ok h bd(5) [of j] n bd(8) by (intro span_accepts) (simp_all add: sleaf_reader_def voff_def)
  then show ?thesis using Suc n by (simp add: walk_state_def flushPend_def)
qed (simp add: walk_state_def flushPend_def)

lemma seg_group_accepts:
  assumes "sleaf_layout cfg gs buf" "Validate cfg = None" "\<forall>g \<in> set gs. sgroup_ok cfg g" "i < length gs" "m \<le> length (gs ! i)"
    and "0 < m \<longrightarrow> n = length (Key (gs ! i ! (m - 1)))"
  shows "seg_group_walk (sleaf_reader cfg gs buf) (length (gs ! i)) [m..<length (gs ! i)] (piece_off (pieces gs) (starts gs i + m)) n (walk_state cfg gs (starts gs i + m)) =
    Inr (piece_off (pieces gs) (starts gs i + length (gs ! i)), walk_state cfg gs (starts gs i + length (gs ! i)))"
  using assms(5,6)
proof (induction m arbitrary: n rule: inc_induct)
  case (step m)
  let ?r = "sleaf_reader cfg gs buf" and ?g = "gs ! i" and ?j = "starts gs i + m" and ?e = "gs ! i ! m"
  have ne: "\<forall>g \<in> set gs. g \<noteq> []" using assms(3) by (auto simp: sgroup_ok_def group_ok_def)
  have ok: "sgroup_ok cfg ?g" using assms(3,4) by simp
  note E = sleaf_entry [OF assms(1-4) step(2)] and P = pieces_nth [OF ne assms(4) step(2)]
  have j: "?j \<le> length (concat gs)" using P(3) by simp
  have "?e \<in> set (tl ?g)" if "0 < m" using step(2) that by (cases ?g) (auto simp: nth_Cons')
  then have ov: "0 < m \<Longrightarrow> \<not> IsOverflowKey ?e" using ok by (auto simp: sgroup_ok_def group_ok_def)
  have hd: "m = 0 \<Longrightarrow> IsOverflowKey ?e \<Longrightarrow> length ?g = 1" using ok step(2) by (cases ?g) (auto simp: sgroup_ok_def group_ok_def)
  have fit: "piece_off (pieces gs) (Suc ?j) \<le> data_end gs" using piece_off_mono [of "Suc ?j" "length (pieces gs)" "pieces gs"] P(3) length_pieces [OF ne] by simp
  have ent: "seg_entry_ok ?r (m = 0) (length ?g) (piece_off (pieces gs) ?j) n =
      Inr (Flags ?e, voff cfg gs ?j, piece_off (pieces gs) ?j + piece_len (pieces gs ! ?j), length (Key ?e))"
  proof (rule seg_entry_accepts)
    show "if m = 0 then pieces gs ! ?j = rpiece ?e \<and> (IsOverflowKey ?e \<longrightarrow> length ?g = 1)
        else pieces gs ! ?j = dpiece (Key (?g ! (m - 1))) ?e \<and> n = length (Key (?g ! (m - 1))) \<and> \<not> IsOverflowKey ?e"
      using P(1) ov hd step(4) by auto
    show "14 \<le> piece_off (pieces gs) ?j" by (simp add: piece_off_def)
  qed (use E fit in \<open>simp_all add: sleaf_reader_def\<close>)
  have pend: "flushPend ?r (snd (snd (walk_state cfg gs ?j))) (voff cfg gs ?j) = Inr ()" by (rule pend_accepts [OF assms(1-3) j])
  have st: "walk_state cfg gs (Suc ?j) =
      (int (voff cfg gs ?j), if fst (snd (walk_state cfg gs ?j)) < 0 then int (voff cfg gs ?j) else fst (snd (walk_state cfg gs ?j)), Some (Flags ?e, voff cfg gs ?j))"
    using P(2) by (auto simp: walk_state_def)
  have mono: "(int (voff cfg gs ?j) < fst (walk_state cfg gs ?j)) = False" using voff_le [of "?j - 1" ?j cfg gs] by (auto simp: walk_state_def)
  obtain pv fv pe where w: "walk_state cfg gs ?j = (pv, fv, pe)" by (cases "walk_state cfg gs ?j")
  have up: "[m..<length ?g] = m # [Suc m..<length ?g]" using step(2) by (rule upt_conv_Cons)
  have nx: "starts gs i + Suc m = Suc ?j" by simp
  show ?case
    unfolding up w using ent pend st mono step.IH [of "length (Key ?e)"] E(7)
    by (simp only: w seg_group_walk.simps bind_res.simps prod.case fst_conv snd_conv if_False nx) simp
qed simp

lemma sleaf_accepts:
  assumes "sleaf_layout cfg gs buf" "Validate cfg = None" "\<forall>g \<in> set gs. sgroup_ok cfg g"
  shows "ValidateLeaf (sleaf_reader cfg gs buf) = Inr ()"
proof -
  let ?r = "sleaf_reader cfg gs buf" and ?n = "length gs" and ?N = "length (concat gs)"
  note L = assms(1) [unfolded sleaf_layout_def Let_def]
  have ne: "\<forall>g \<in> set gs. g \<noteq> []" using assms(3) by (auto simp: sgroup_ok_def group_ok_def)
  note bd = sleaf_bounds [OF assms(1,2) ne]
  have tab: "rt_GroupEntryCount (r_rt ?r) (int i) = Inr (length (gs ! i)) \<and> 0 < length (gs ! i)" if "i < ?n" for i
    using sleaf_table(2) [OF assms(1) that] ne that by simp
  have "segs_walk ?r [k..<?n] (piece_off (pieces gs) (starts gs k)) (walk_state cfg gs (starts gs k)) = Inr (data_end gs, walk_state cfg gs ?N)" if "k \<le> ?n" for k
    using that
  proof (induction k rule: inc_induct)
    case base
    have "starts gs ?n = ?N" by (simp add: starts_concat)
    then show ?case by (simp add: length_pieces [OF ne])
  next
    case (step k)
    then show ?case
      using tab [of k] sleaf_table(1) [OF assms(1), of k] seg_group_accepts [OF assms, of k 0 0] starts_Suc [of k gs] by (simp add: upt_conv_Cons)
  qed
  from this [of 0] have w: "segs_walk ?r [0..<?n] 14 (-1, -1, None) = Inr (data_end gs, walk_state cfg gs ?N)"
    by (simp add: walk_state_def starts_def piece_off_def)
  have s: "sum_groups ?r [0..<?n] 0 = Inr ?N" using groups_accept [of ?n ?r "\<lambda>i. length (gs ! i)" 0 0] tab by (simp add: map_lengths length_concat)
  have rc: "restartCount (r_rt ?r) = ?n" "r_count ?r = ?N" "r_dataEnd ?r = data_end gs" "r_valueEnd ?r = value_end cfg gs" "is_seg ?r" "r_cfg ?r = cfg"
    by (simp_all add: sleaf_reader_def newRestartTable_def is_seg_def)
  have d: "14 \<le> data_end gs" by (simp add: piece_off_def)
  show ?thesis
  proof (cases "concat gs = []")
    case True
    then have "gs = []" using ne by (cases gs) auto
    moreover have "14 \<le> int (content_end cfg)" using page_bounds(1) [OF assms(2)] by linarith
    ultimately show ?thesis using rc s
      unfolding ValidateLeaf_def segValidate_def Let_def by (simp add: value_end_def leaf_sizes pieces_def piece_off_def del: int_nat_eq)
  next
    case False
    then have n: "gs \<noteq> []" "?N \<noteq> 0" and ve: "int (value_end cfg gs) = int (content_end cfg) - int (?n * 4)" "value_start cfg gs \<le> value_end cfg gs"
      using L by (auto simp: value_end_def value_start_def)
    have p: "flushPend ?r (snd (snd (walk_state cfg gs ?N))) (value_end cfg gs) = Inr ()" using pend_accepts [OF assms, of ?N] bd(6) by simp
    have f: "(0 \<le> fst (snd (walk_state cfg gs ?N)) \<and> fst (snd (walk_state cfg gs ?N)) < int (data_end gs)) = False"
      using bd(8) n by (auto simp: walk_state_def voff_def)
    obtain pv fv pe where st: "walk_state cfg gs ?N = (pv, fv, pe)" by (cases "walk_state cfg gs ?N")
    have t: "data_end gs \<le> value_end cfg gs" using bd(8) ve(2) by linarith
    have c: "(value_end cfg gs < 14 \<or> int (value_end cfg gs) > int (content_end cfg) - int (?n * 4)) = False"
        "(data_end gs < 14 \<or> int (data_end gs) > int (content_end cfg) - int (?n * 4)) = False" "(?n = 0 \<and> 0 < ?N) = False"
      using d t ve(1) n by auto
    have sz: "segLeafEntryStart = 14" "restartTableEntrySize = 4" by (simp_all add: leaf_sizes)
    show ?thesis
      unfolding ValidateLeaf_def segValidate_def Let_def rc sz c
      using s w p f n(2) rc(5) unfolding st by (simp only: bind_res.simps prod.case fst_conv snd_conv if_True if_False simp_thms)
  qed
qed

end
