(* ===== verification/Leaf_Safe_Seg.thy ===== *)
theory Leaf_Safe_Seg
  imports Leaf_Safe
begin

text \<open>
  Robustness of the segregated leaf. The validator resolves the span of an entry one entry in
  arrears; the lemmas below turn its walk into a run of the stream in which every entry has its
  value offset and the offset its value ends at, which is what the readers look up.
\<close>

declare push_bit_of_1 [simp del]

section \<open>Runs\<close>

text \<open>
  A run of stream entries. Each item says whether the entry opens a group, and the group's count; the
  run starts at stream position \<open>off\<close> and value offset \<open>v\<close>, and ends at \<open>fin\<close>.
\<close>

fun seg_run :: "LeafReader \<Rightarrow> (bool \<times> nat) list \<Rightarrow> nat \<Rightarrow> nat \<Rightarrow> nat \<Rightarrow> nat \<times> nat \<Rightarrow> bool" where
  "seg_run r [] off k v fin \<longleftrightarrow> fin = (off, v)"
| "seg_run r ((b, gc) # xs) off k v fin \<longleftrightarrow>
     (\<exists>flags nx kl v'. seg_entry_ok r b gc off (if b then 0 else k) = Inr (flags, v, nx, kl) \<and> checkSpan r flags v v' = Inr () \<and>
        seg_run r xs nx kl v' fin)"

abbreviation items :: "nat \<Rightarrow> (bool \<times> nat) list" where
  "items gc \<equiv> map (\<lambda>i. (i = 0, gc)) [0..<gc]"

lemma seg_run_append:
  assumes "ys = [] \<or> fst (hd ys)"
  shows "seg_run r (xs @ ys) off k v fin \<longleftrightarrow> (\<exists>off' v'. seg_run r xs off k v (off', v') \<and> seg_run r ys off' 0 v' fin)"
proof -
  have anyk: "seg_run r ys off k v fin = seg_run r ys off 0 v fin" for off k v using assms by (cases ys) (auto split: if_splits)
  show ?thesis
  proof (induction xs arbitrary: off k v)
    case Nil
    then show ?case using anyk by auto
  next
    case (Cons x xs)
    obtain b gc where x: "x = (b, gc)" by fastforce
    show ?case unfolding x append_Cons seg_run.simps Cons.IH by simp blast
  qed
qed

lemma group_walk_runs:
  assumes "seg_group_walk r gc is off k (pv, fv, pend) = Inr (off', pv', fv', pend')" "flushPend r pend' w = Inr ()" "\<forall>i \<in> set (tl is). i \<noteq> 0" "is \<noteq> [] \<and> hd is = 0 \<longrightarrow> k = 0"
  shows "\<exists>v. flushPend r pend v = Inr () \<and> seg_run r (map (\<lambda>i. (i = 0, gc)) is) off k v (off', w)"
  using assms
proof (induction "is" arbitrary: off k pv fv pend)
  case Nil
  then show ?case by auto
next
  case (Cons i "is")
  obtain flags voff nx kl where e: "seg_entry_ok r (i = 0) gc off k = Inr (flags, voff, nx, kl)" "flushPend r pend voff = Inr ()"
      and rest: "seg_group_walk r gc is nx kl (int voff, if fv < 0 then int voff else fv, Some (flags, voff)) = Inr (off', pv', fv', pend')"
    using Cons.prems(1) by (auto simp: bind_res_Inr_iff split: if_splits)
  have "is \<noteq> [] \<and> hd is = 0 \<longrightarrow> kl = 0" "\<forall>i \<in> set (tl is). i \<noteq> 0" using Cons.prems(3) by (cases "is"; auto)+
  from Cons.IH [OF rest Cons.prems(2) this(2,1)] obtain v where v: "checkSpan r flags voff v = Inr ()" "seg_run r (map (\<lambda>i. (i = 0, gc)) is) nx kl v (off', w)"
    by (auto simp: flushPend_def)
  have "seg_entry_ok r (i = 0) gc off (if i = 0 then 0 else k) = Inr (flags, voff, nx, kl)" using e(1) Cons.prems(4) by (auto split: if_splits)
  then show ?case using e(2) v by auto
qed

lemma items_start: "\<forall>c \<in> set cs. 0 < c \<Longrightarrow> concat (map items cs) = [] \<or> fst (hd (concat (map items cs)))"
proof (induction cs)
  case (Cons c cs)
  then obtain n where "c = Suc n" by (metis gr0_implies_Suc list.set_intros(1))
  then show ?case by (simp add: upt_conv_Cons del: upt_Suc)
qed simp

lemma walk_runs:
  assumes "segs_walk r gs e (pv, fv, pend) = Inr (e', pv', fv', pend')" "flushPend r pend' w = Inr ()"
    and "list_all2 (\<lambda>g c. rt_GroupEntryCount (r_rt r) (int g) = Inr c \<and> 0 < c) gs cs"
  shows "\<exists>v. flushPend r pend v = Inr () \<and> seg_run r (concat (map items cs)) e 0 v (e', w)"
    "j < length gs \<Longrightarrow> \<exists>off v. rt_Offset (r_rt r) (int (gs ! j)) = Inr off \<and> seg_run r (concat (map items (drop j cs))) off 0 v (e', w)"
proof -
  have "(\<exists>v. flushPend r pend v = Inr () \<and> seg_run r (concat (map items cs)) e 0 v (e', w)) \<and>
      (\<forall>j < length gs. \<exists>off v. rt_Offset (r_rt r) (int (gs ! j)) = Inr off \<and> seg_run r (concat (map items (drop j cs))) off 0 v (e', w))"
    using assms(3,1)
  proof (induction arbitrary: e pv fv pend rule: list_all2_induct)
    case Nil
    then show ?case using assms(2) by auto
  next
    case (Cons g gs c cs)
    obtain nx pv1 fv1 pend1 where o: "rt_Offset (r_rt r) (int g) = Inr e" and
        w1: "seg_group_walk r c [0..<c] e 0 (pv, fv, pend) = Inr (nx, pv1, fv1, pend1)" "segs_walk r gs nx (pv1, fv1, pend1) = Inr (e', pv', fv', pend')"
      using Cons.prems Cons.hyps(1) by (auto simp: bind_res_Inr_iff split: if_splits)
    note ih = Cons.IH [OF w1(2)]
    obtain v1 where v1: "flushPend r pend1 v1 = Inr ()" "seg_run r (concat (map items cs)) nx 0 v1 (e', w)" using ih by blast
    have "\<forall>i \<in> set (tl [0..<c]). i \<noteq> 0" by (cases c) (auto simp: upt_conv_Cons simp del: upt_Suc)
    from group_walk_runs [OF w1(1) v1(1) this] obtain v where v: "flushPend r pend v = Inr ()" "seg_run r (items c) e 0 v (nx, v1)" by auto
    have "\<forall>c \<in> set cs. 0 < c" using Cons.hyps(2) by (auto simp: list_all2_conv_all_nth in_set_conv_nth)
    then have run: "seg_run r (concat (map items (c # cs))) e 0 v (e', w)"
      using seg_run_append [OF items_start, of cs r "items c" e 0 v "(e', w)"] v(2) v1(2) by auto
    have "\<exists>off v. rt_Offset (r_rt r) (int ((g # gs) ! j)) = Inr off \<and> seg_run r (concat (map items (drop j (c # cs)))) off 0 v (e', w)"
      if "j < length (g # gs)" for j
      using that ih o run by (cases j) auto
    then show ?case using v(1) run by blast
  qed
  then show "\<exists>v. flushPend r pend v = Inr () \<and> seg_run r (concat (map items cs)) e 0 v (e', w)"
    "j < length gs \<Longrightarrow> \<exists>off v. rt_Offset (r_rt r) (int (gs ! j)) = Inr off \<and> seg_run r (concat (map items (drop j cs))) off 0 v (e', w)" by blast+
qed

section \<open>Entries\<close>

lemma seg_ensure_ok: "segEnsureStream r off n = Inr u \<longleftrightarrow> 14 \<le> off \<and> off + n \<le> r_dataEnd r"
  by (simp add: segEnsureStream_def leaf_sizes)

lemma seg_entry_no_panic:
  assumes "r_dataEnd r \<le> length (r_buf r)"
  shows "\<not> panics (seg_entry_ok r b gc off k)"
  unfolding seg_entry_ok_def Let_def
  using assms by (auto simp: panics_bind seg_ensure_ok u8_at_def u16_at_def split: if_splits)

lemma seg_entry_reads:
  assumes "seg_entry_ok r b gc off k = Inr (flags, v, nx, kl)" "r_dataEnd r \<le> length (r_buf r)"
  shows "segReadVOff (r_buf r) off b = Inr v" "validateCellFlagsCombo flags = Inr ()"
    "b \<Longrightarrow> \<exists>key. decodeSegRestart (r_buf r) off = Inr (flags, key, v, nx) \<and> (bit flags 4 \<longrightarrow> length key = inline_max (r_cfg r))"
    "\<not> b \<Longrightarrow> \<exists>s uo ul bs. segDeltaHeader (r_buf r) off = Inr (flags, s, v, uo, ul, nx) \<and> slice (r_buf r) uo (uo + ul) = Inr bs"
proof -
  have c: "validateCellFlagsCombo flags = Inr () \<and> segReadVOff (r_buf r) off b = Inr v \<and>
      (if b then \<exists>key. decodeSegRestart (r_buf r) off = Inr (flags, key, v, nx) \<and> (bit flags 4 \<longrightarrow> length key = inline_max (r_cfg r))
       else \<exists>s uo ul bs. segDeltaHeader (r_buf r) off = Inr (flags, s, v, uo, ul, nx) \<and> slice (r_buf r) uo (uo + ul) = Inr bs)"
  proof (cases b)
    case True
    obtain kw vw where e: "u8_at (r_buf r) off = Inr flags" "validateCellFlagsCombo flags = Inr ()" "u16_at (r_buf r) (off + 1) = Inr kw"
        "u16_at (r_buf r) (off + 3) = Inr vw" "off + 5 + unat kw \<le> r_dataEnd r" "v = unat vw" "nx = off + 5 + unat kw"
        "bit flags 4 \<longrightarrow> unat kw = inline_max (r_cfg r)"
      using assms(1) True unfolding seg_entry_ok_def Let_def by (auto simp: bind_res_Inr_iff seg_ensure_ok split: if_splits)
    obtain key where "slice (r_buf r) (off + 5) (off + 5 + unat kw) = Inr key" "length key = unat kw" using reads_exist(5) [of "off + 5" "off + 5 + unat kw" "r_buf r"] e(5) assms(2) by auto
    then show ?thesis using True e by (simp add: decodeSegRestart_def segReadVOff_def segRestartVOffAt_def)
  next
    case False
    obtain sw uw vw where e: "u8_at (r_buf r) off = Inr flags" "validateCellFlagsCombo flags = Inr ()" "u16_at (r_buf r) (off + 1) = Inr sw"
        "u16_at (r_buf r) (off + 3) = Inr uw" "u16_at (r_buf r) (off + 5) = Inr vw" "off + 7 + unat uw \<le> r_dataEnd r" "v = unat vw" "nx = off + 7 + unat uw"
      using assms(1) False unfolding seg_entry_ok_def Let_def by (auto simp: bind_res_Inr_iff seg_ensure_ok split: if_splits)
    obtain bs where "slice (r_buf r) (off + 7) (off + 7 + unat uw) = Inr bs" using reads_exist(5) [of "off + 7" "off + 7 + unat uw" "r_buf r"] e(6) assms(2) by auto
    then show ?thesis using False e by (simp add: segDeltaHeader_def segReadVOff_def segDeltaVOffAt_def)
  qed
  then show "segReadVOff (r_buf r) off b = Inr v" "validateCellFlagsCombo flags = Inr ()"
    "b \<Longrightarrow> \<exists>key. decodeSegRestart (r_buf r) off = Inr (flags, key, v, nx) \<and> (bit flags 4 \<longrightarrow> length key = inline_max (r_cfg r))"
    "\<not> b \<Longrightarrow> \<exists>s uo ul bs. segDeltaHeader (r_buf r) off = Inr (flags, s, v, uo, ul, nx) \<and> slice (r_buf r) uo (uo + ul) = Inr bs" by (auto split: if_splits)
qed

lemma span_fits:
  assumes "checkSpan r flags v v' = Inr ()" "r_valueEnd r \<le> length (r_buf r)"
  shows "v \<le> v'" "v' \<le> length (r_buf r)" "cellHasTrailerOnly flags \<Longrightarrow> v' = v + (if bit flags 4 then 28 else 16)"
    "bit flags 4 \<Longrightarrow> v + 12 \<le> v'"
  using assms unfolding checkSpan_def Let_def segValueContentLen_def by (auto split: if_splits)

lemma span_reads:
  assumes "checkSpan r flags v v' = Inr ()" "r_valueEnd r \<le> length (r_buf r)" "validateCellFlagsCombo flags = Inr ()" "Flags e = flags"
  shows "\<not> panics (segKeyExtOnly (r_buf r) e v)" "\<not> panics (segValueHalf (r_buf r) e v v')"
proof -
  note f = span_fits [OF assms(1,2)] and c = combo_ok [OF assms(3)]
  show "\<not> panics (segKeyExtOnly (r_buf r) e v)"
    using f assms(4) by (auto simp: segKeyExtOnly_def panics_bind u64_at_def u32_at_def)
  moreover have "Flags x = flags" if "segKeyExtOnly (r_buf r) e v = Inr x" for x
    using that assms(4) by (auto simp: segKeyExtOnly_def bind_res_Inr_iff split: if_splits)
  ultimately show "\<not> panics (segValueHalf (r_buf r) e v v')"
    using f c by (cases "bit flags 4") (auto simp: segValueHalf_def panics_bind Let_def IsNestedTree_def cellHasTrailerOnly_def u64_at_def slice_def)
qed

section \<open>Validation\<close>

lemma checkSpan_no_panic: "r_valueEnd r \<le> length (r_buf r) \<Longrightarrow> \<not> panics (checkSpan r flags v v')"
  unfolding checkSpan_def Let_def segValueContentLen_def by (auto simp: panics_bind u64_at_def u32_at_def)

lemma seg_group_walk_no_panic:
  assumes "r_valueEnd r \<le> length (r_buf r)" "r_dataEnd r \<le> length (r_buf r)"
  shows "\<not> panics (seg_group_walk r gc is off k st)"
proof (induction "is" arbitrary: off k st)
  case (Cons i "is")
  obtain pv fv pend where st: "st = (pv, fv, pend)" by (cases st) auto
  show ?case unfolding st using Cons.IH seg_entry_no_panic [OF assms(2)] checkSpan_no_panic [OF assms(1)]
    by (auto simp: panics_bind flushPend_def split: option.splits)
qed (cases st, simp)

lemma segs_walk_no_panic:
  assumes "r_valueEnd r \<le> length (r_buf r)" "r_dataEnd r \<le> length (r_buf r)"
    and "\<forall>g \<in> set gs. (\<exists>c. rt_GroupEntryCount (r_rt r) (int g) = Inr c) \<and> (\<exists>x. rt_Offset (r_rt r) (int g) = Inr x)"
  shows "\<not> panics (segs_walk r gs e st)"
  using assms(3)
proof (induction gs arbitrary: e st)
  case (Cons g gs)
  then show ?case using seg_group_walk_no_panic [OF assms(1,2)] by (auto simp: panics_bind)
qed (cases st, simp)

lemma seg_validate_no_panic:
  assumes "opened cfg r" "is_seg r"
  shows "\<not> panics (ValidateLeaf r)"
proof -
  let ?rc = "restartCount (r_rt r)"
  have c: "r_cfg r = cfg" "content_end cfg \<le> length (r_buf r)" using assms(1) by (simp_all add: opened_def)
  have t: "r_variant r \<noteq> TypeLeafUncompressed" using assms(2) by (simp add: is_seg_def page_types)
  show ?thesis
  proof (cases "int (r_valueEnd r) \<le> int (content_end cfg) - int (?rc * 4) \<and> int (r_dataEnd r) \<le> int (content_end cfg) - int (?rc * 4)")
    case False
    then show ?thesis using assms(2) c(1) unfolding ValidateLeaf_def segValidate_def Let_def leaf_sizes by auto
  next
    case True
    then have v: "r_valueEnd r \<le> length (r_buf r)" "r_dataEnd r \<le> length (r_buf r)" "?rc * 4 \<le> content_end cfg" using c(2) by linarith+
    have g: "\<forall>g \<in> set [0..<?rc]. (\<exists>c. rt_GroupEntryCount (r_rt r) (int g) = Inr c) \<and> (\<exists>x. rt_Offset (r_rt r) (int g) = Inr x)"
      using table_entry_ok [OF assms(1) t v(3)] by auto
    have "\<not> panics (sum_groups r [0..<?rc] 0)" using g by (intro sum_groups_no_panic) blast
    moreover have "\<not> panics (segs_walk r [0..<?rc] 14 (-1, -1, None))" by (rule segs_walk_no_panic [OF v(1,2) g])
    moreover have "\<not> panics (flushPend r pend w)" for pend w using checkSpan_no_panic [OF v(1)] by (auto simp: flushPend_def split: option.splits)
    ultimately show ?thesis
      using assms(2) unfolding ValidateLeaf_def segValidate_def Let_def leaf_sizes by (auto simp: panics_bind)
  qed
qed

section \<open>Lookup\<close>

lemma sum_groups_counts:
  "sum_groups r gs acc = Inr n \<Longrightarrow> \<exists>cs. list_all2 (\<lambda>g c. rt_GroupEntryCount (r_rt r) (int g) = Inr c \<and> 0 < c) gs cs \<and> n = acc + sum_list cs"
proof (induction gs arbitrary: acc)
  case (Cons g gs)
  obtain c where c: "rt_GroupEntryCount (r_rt r) (int g) = Inr c" "0 < c" "sum_groups r gs (acc + c) = Inr n"
    using Cons.prems by (auto simp: bind_res_Inr_iff split: if_splits)
  from Cons.IH [OF c(3)] obtain cs where "list_all2 (\<lambda>g c. rt_GroupEntryCount (r_rt r) (int g) = Inr c \<and> 0 < c) gs cs" "n = acc + c + sum_list cs" by blast
  then show ?case using c(1,2) by (intro exI [of _ "c # cs"]) simp
qed simp

lemma group_start:
  assumes "list_all2 (\<lambda>g c. rt_GroupEntryCount rt (int g) = Inr c \<and> 0 < c) [0..<n] cs" "i \<le> n"
  shows "rt_GroupStartIndex rt i = Inr (sum_list (take i cs))"
proof -
  have "sum_counts rt gs = Inr (sum_list cs)" if "list_all2 (\<lambda>g c. rt_GroupEntryCount rt (int g) = Inr c) gs cs" for gs cs
    using that by (induction rule: list_all2_induct) auto
  moreover have "list_all2 (\<lambda>g c. rt_GroupEntryCount rt (int g) = Inr c) [0..<i] (take i cs)"
  proof -
    have "list_all2 (\<lambda>g c. rt_GroupEntryCount rt (int g) = Inr c) [0..<n] cs" using assms(1) by (rule list_all2_mono) simp
    then show ?thesis using list_all2_takeI [of _ "[0..<n]" cs i] assms(2) by (simp add: take_upt)
  qed
  ultimately show ?thesis by (simp add: rt_GroupStartIndex_def)
qed

text \<open>The offset a value ends at, as the readers look it up: from the entry that follows, or the end of the values.\<close>

lemma next_voff_reads:
  assumes "seg_run r xs nx k v' (e, r_valueEnd r)" "r_dataEnd r \<le> length (r_buf r)" "xs \<noteq> [] \<Longrightarrow> fst (hd xs) = b" "Suc (idx + length xs) = r_count r"
  shows "segNextVOff r idx nx b = Inr v'"
proof (cases xs)
  case Nil
  then show ?thesis using assms(1,4) by (simp add: segNextVOff_def)
next
  case (Cons x ys)
  obtain b' gc where x: "x = (b', gc)" by fastforce
  obtain flags n2 kl where "seg_entry_ok r b' gc nx (if b' then 0 else k) = Inr (flags, v', n2, kl)" using assms(1) Cons x by auto
  from seg_entry_reads(1) [OF this assms(2)] show ?thesis using assms(3,4) Cons x by (auto simp: segNextVOff_def)
qed

lemma seg_skip_scan_no_panic:
  assumes "r_dataEnd r \<le> length (r_buf r)" "r_valueEnd r \<le> length (r_buf r)" "rest = [] \<or> fst (hd rest)"
  shows "seg_run r (replicate n (False, gc) @ rest) off k v (e, r_valueEnd r) \<Longrightarrow> idx + n + length rest = r_count r \<Longrightarrow>
    \<not> panics (seg_skip_scan r target n idx off kcpl)"
proof (induction n arbitrary: off k v idx kcpl)
  case (Suc n)
  obtain flags nx kl v' where s: "seg_entry_ok r False gc off k = Inr (flags, v, nx, kl)" "checkSpan r flags v v' = Inr ()"
      "seg_run r (replicate n (False, gc) @ rest) nx kl v' (e, r_valueEnd r)"
    using Suc.prems(1) by auto
  note reads = seg_entry_reads [OF s(1) assms(1)]
  obtain sl uo ul bs where d: "segDeltaHeader (r_buf r) off = Inr (flags, sl, v, uo, ul, nx)" "slice (r_buf r) uo (uo + ul) = Inr bs"
    using reads(4) by auto
  have rec: "\<not> panics (seg_skip_scan r target n (idx + 1) nx kc)" for kc
    using Suc.IH [OF s(3), of "idx + 1" kc] Suc.prems(2) by simp
  have "segNextVOff r idx nx (n = 0) = Inr v'"
    by (rule next_voff_reads [OF s(3) assms(1)]) (use assms(3) Suc.prems(2) in \<open>cases n; auto\<close>)+
  then show ?case
    using d rec span_reads(2) [OF s(2) assms(2) reads(2), of "no_entry\<lparr>Flags := flags\<rparr>"] by (simp add: Let_def panics_bind)
qed simp

lemma seg_validated:
  assumes "opened cfg r" "is_seg r" "ValidateLeaf r = Inr ()" "r_count r \<noteq> 0"
  shows "r_dataEnd r \<le> length (r_buf r)" "r_valueEnd r \<le> length (r_buf r)"
    "\<exists>cs e. length cs = restartCount (r_rt r) \<and> sum_list cs = r_count r \<and>
       list_all2 (\<lambda>g c. rt_GroupEntryCount (r_rt r) (int g) = Inr c \<and> 0 < c) [0..<restartCount (r_rt r)] cs \<and>
       (\<forall>j < length cs. \<exists>off v. rt_Offset (r_rt r) (int j) = Inr off \<and> seg_run r (concat (map items (drop j cs))) off 0 v (e, r_valueEnd r))"
proof -
  let ?rc = "restartCount (r_rt r)"
  have c: "r_cfg r = cfg" "content_end cfg \<le> length (r_buf r)" using assms(1) by (simp_all add: opened_def)
  obtain n e st pv fv pend where w: "int (r_valueEnd r) \<le> int (content_end cfg) - int (?rc * 4)" "int (r_dataEnd r) \<le> int (content_end cfg) - int (?rc * 4)"
      "sum_groups r [0..<?rc] 0 = Inr n" "n = r_count r" "segs_walk r [0..<?rc] 14 (-1, -1, None) = Inr (e, pv, fv, pend)"
      "flushPend r pend (r_valueEnd r) = Inr ()"
    using assms(2-4) c(1) unfolding ValidateLeaf_def segValidate_def Let_def leaf_sizes
    by (auto simp: bind_res_Inr_iff not_less split: if_splits)
  show "r_dataEnd r \<le> length (r_buf r)" "r_valueEnd r \<le> length (r_buf r)" using w(1,2) c(2) by linarith+
  obtain cs where cs: "list_all2 (\<lambda>g c. rt_GroupEntryCount (r_rt r) (int g) = Inr c \<and> 0 < c) [0..<?rc] cs" "n = sum_list cs"
    using sum_groups_counts [OF w(3)] by auto
  have l: "length cs = ?rc" using list_all2_lengthD [OF cs(1)] by simp
  have "\<exists>off v. rt_Offset (r_rt r) (int j) = Inr off \<and> seg_run r (concat (map items (drop j cs))) off 0 v (e, r_valueEnd r)" if "j < length cs" for j
    using walk_runs(2) [OF w(5,6) cs(1), of j] that l by simp
  then show "\<exists>cs e. length cs = ?rc \<and> sum_list cs = r_count r \<and>
       list_all2 (\<lambda>g c. rt_GroupEntryCount (r_rt r) (int g) = Inr c \<and> 0 < c) [0..<?rc] cs \<and>
       (\<forall>j < length cs. \<exists>off v. rt_Offset (r_rt r) (int j) = Inr off \<and> seg_run r (concat (map items (drop j cs))) off 0 v (e, r_valueEnd r))"
    using l cs w(4) by blast
qed

lemma items_Suc: "items (Suc n) = (True, Suc n) # replicate n (False, Suc n)"
  by (rule nth_equalityI) (auto simp: nth_Cons simp del: upt_Suc split: nat.splits)

lemma seg_search_no_panic:
  assumes "opened cfg r" "is_seg r" "ValidateLeaf r = Inr ()" "r_count r \<noteq> 0"
    and "\<And>x y. inline_max cfg < length target \<Longrightarrow> \<not> panics (tail target x y)"
  shows "\<not> panics (segSearchLeaf r target tail)"
proof -
  let ?rc = "restartCount (r_rt r)"
  note v = seg_validated(1,2) [OF assms(1-4)]
  obtain cs e where l: "length cs = ?rc"
      and cs: "list_all2 (\<lambda>g c. rt_GroupEntryCount (r_rt r) (int g) = Inr c \<and> 0 < c) [0..<?rc] cs" "sum_list cs = r_count r"
      and run: "\<forall>j < length cs. \<exists>off v. rt_Offset (r_rt r) (int j) = Inr off \<and> seg_run r (concat (map items (drop j cs))) off 0 v (e, r_valueEnd r)"
    using seg_validated(3) [OF assms(1-4)] by blast
  have pos: "\<forall>c \<in> set cs. 0 < c" using cs(1) by (auto simp: list_all2_conv_all_nth in_set_conv_nth)
  have cnt: "rt_GroupEntryCount (r_rt r) (int g) = Inr (cs ! g)" if "g < ?rc" for g using cs(1) that by (auto simp: list_all2_conv_all_nth)
  have start: "rt_GroupStartIndex (r_rt r) i = Inr (sum_list (take i cs))" if "i \<le> ?rc" for i using group_start [OF cs(1) that] .
  have cf: "r_cfg r = cfg" using assms(1) by (simp add: opened_def)
  have grp: "\<exists>flags key v v' nx kl. seg_restart r (int g) = Inr (flags, key, v, nx) \<and> validateCellFlagsCombo flags = Inr () \<and>
      checkSpan r flags v v' = Inr () \<and> (bit flags 4 \<longrightarrow> length key = inline_max cfg) \<and>
      seg_run r (replicate (cs ! g - 1) (False, cs ! g) @ concat (map items (drop (Suc g) cs))) nx kl v' (e, r_valueEnd r)" if g: "g < ?rc" for g
  proof -
    obtain off v where o: "rt_Offset (r_rt r) (int g) = Inr off" "seg_run r (concat (map items (drop g cs))) off 0 v (e, r_valueEnd r)" using run [rule_format, of g] g l by auto
    obtain n where n: "cs ! g = Suc n" using pos g l by (metis gr0_implies_Suc nth_mem)
    have "concat (map items (drop g cs)) = (True, Suc n) # replicate n (False, Suc n) @ concat (map items (drop (Suc g) cs))"
      using g l n items_Suc [of n] Cons_nth_drop_Suc [of g cs, symmetric] by simp
    then obtain flags nx kl v' where s: "seg_entry_ok r True (Suc n) off 0 = Inr (flags, v, nx, kl)" "checkSpan r flags v v' = Inr ()"
        "seg_run r (replicate n (False, Suc n) @ concat (map items (drop (Suc g) cs))) nx kl v' (e, r_valueEnd r)"
      using o(2) by auto
    obtain key where "decodeSegRestart (r_buf r) off = Inr (flags, key, v, nx)" "bit flags 4 \<longrightarrow> length key = inline_max cfg" using cf seg_entry_reads(3) [OF s(1) v(1)] by auto
    then show ?thesis using o(1) s seg_entry_reads(2) [OF s(1) v(1)] n unfolding seg_restart_def by auto
  qed
  have lens: "sum_list (take g cs) + cs ! g + length (concat (map items (drop (Suc g) cs))) = r_count r" if "g < ?rc" for g
  proof -
    have "length (concat (map items xs)) = sum_list xs" for xs by (induction xs) auto
    moreover have "sum_list cs = sum_list (take g cs) + (cs ! g + sum_list (drop (Suc g) cs))"
      using that l by (metis append_take_drop_id Cons_nth_drop_Suc sum_list.Cons sum_list_append)
    ultimately show ?thesis using cs(2) by simp
  qed
  have rest: "concat (map items (drop j cs)) = [] \<or> fst (hd (concat (map items (drop j cs))))" for j
    using pos by (intro items_start) (meson in_set_dropD)
  have probe: "\<not> panics (bind_res (seg_probe_entry r i) (\<lambda>e. compareEntryKey e target tail))" if i: "i < ?rc" for i
  proof -
    obtain flags key v v' nx where "seg_restart r (int i) = Inr (flags, key, v, nx)" "validateCellFlagsCombo flags = Inr ()" "checkSpan r flags v v' = Inr ()"
        "bit flags 4 \<longrightarrow> length key = inline_max cfg"
      using grp [OF i] by blast
    moreover have "Key x = key" "IsOverflowKey x \<longleftrightarrow> bit flags 4" if "segKeyExtOnly (r_buf r) (no_entry\<lparr>Flags := flags, Key := key\<rparr>) v = Inr x" for x
      using that by (auto simp: segKeyExtOnly_def bind_res_Inr_iff IsOverflowKey_def split: if_splits)
    ultimately show ?thesis
      using span_reads(1) [of r flags v v' "no_entry\<lparr>Flags := flags, Key := key\<rparr>"] \<open>r_valueEnd r \<le> length (r_buf r)\<close>
        compare_no_panic [of "inline_max cfg" target tail] assms(5)
      by (auto simp: seg_probe_entry_def panics_bind)
  qed
  let ?bs = "bsearch3 (\<lambda>mid. bind_res (seg_probe_entry r mid) (\<lambda>e. compareEntryKey e target tail)) 0 ?rc"
  have b: "\<not> panics ?bs" using probe by (intro bsearch3_no_panic [of ?rc]) auto
  have hit: "\<not> panics (bind_res (seg_restart r (int g)) (\<lambda>(flags, key, voff, next).
       bind_res (rt_GroupStartIndex (r_rt r) g) (\<lambda>idx.
       bind_res (rt_GroupEntryCount (r_rt r) (int g)) (\<lambda>gc.
       bind_res (segNextVOff r idx next (gc = 1)) (\<lambda>vend.
       bind_res (segValueHalf (r_buf r) (no_entry\<lparr>Flags := flags\<rparr>) voff vend) (\<lambda>e. Inr (idx, e, True)))))))" if g: "g < ?rc" for g
  proof -
    obtain flags key w w' nx kl where q: "seg_restart r (int g) = Inr (flags, key, w, nx)" "validateCellFlagsCombo flags = Inr ()" "checkSpan r flags w w' = Inr ()"
        "seg_run r (replicate (cs ! g - 1) (False, cs ! g) @ concat (map items (drop (Suc g) cs))) nx kl w' (e, r_valueEnd r)" using grp [OF g] by blast
    have p: "0 < cs ! g" using pos g l by simp
    have "segNextVOff r (sum_list (take g cs)) nx (cs ! g = 1) = Inr w'"
    proof (rule next_voff_reads [OF q(4) v(1)])
      show "fst (hd (replicate (cs ! g - 1) (False, cs ! g) @ concat (map items (drop (Suc g) cs)))) = (cs ! g = 1)"
        if "replicate (cs ! g - 1) (False, cs ! g) @ concat (map items (drop (Suc g) cs)) \<noteq> []"
        using that rest [of "Suc g"] p by (cases "cs ! g - 1") auto
      show "Suc (sum_list (take g cs) + length (replicate (cs ! g - 1) (False, cs ! g) @ concat (map items (drop (Suc g) cs)))) = r_count r"
        using lens [OF g] p unfolding length_append length_replicate by linarith
    qed
    then show ?thesis using q(1) start [of g] cnt [OF g] g span_reads(2) [OF q(3) v(2) q(2), of "no_entry\<lparr>Flags := flags\<rparr>"] by (simp add: panics_bind)
  qed
  have scan: "\<not> panics (bind_res (rt_GroupStartIndex (r_rt r) g) (\<lambda>startIdx.
       bind_res (rt_GroupEntryCount (r_rt r) (int g)) (\<lambda>gc.
       bind_res (seg_restart r (int g)) (\<lambda>(_, rkey, _, next).
       if gc = 0 then Inr (startIdx, no_entry, False)
       else seg_skip_scan r target (gc - 1) (startIdx + 1) next (sharedPrefixLen rkey target)))))" if g: "g < ?rc" for g
  proof -
    obtain flags key w w' nx kl where q: "seg_restart r (int g) = Inr (flags, key, w, nx)"
        "seg_run r (replicate (cs ! g - 1) (False, cs ! g) @ concat (map items (drop (Suc g) cs))) nx kl w' (e, r_valueEnd r)" using grp [OF g] by blast
    have p: "0 < cs ! g" using pos g l by simp
    have "sum_list (take g cs) + 1 + (cs ! g - 1) + length (concat (map items (drop (Suc g) cs))) = r_count r" using lens [OF g] p by linarith
    from seg_skip_scan_no_panic [OF v rest q(2) this] show ?thesis using q(1) start [of g] cnt [OF g] g by simp
  qed
  have "\<not> panics (if found then
       bind_res (seg_restart r (int lo)) (\<lambda>(flags, key, voff, next).
       bind_res (rt_GroupStartIndex (r_rt r) lo) (\<lambda>idx.
       bind_res (rt_GroupEntryCount (r_rt r) (int lo)) (\<lambda>gc.
       bind_res (segNextVOff r idx next (gc = 1)) (\<lambda>vend.
       bind_res (segValueHalf (r_buf r) (no_entry\<lparr>Flags := flags\<rparr>) voff vend) (\<lambda>e. Inr (idx, e, True))))))
     else if lo = 0 then Inr (0, no_entry, False)
     else
       bind_res (rt_GroupStartIndex (r_rt r) (lo - 1)) (\<lambda>startIdx.
       bind_res (rt_GroupEntryCount (r_rt r) (int lo - 1)) (\<lambda>gc.
       bind_res (seg_restart r (int lo - 1)) (\<lambda>(_, rkey, _, next).
       if gc = 0 then Inr (startIdx, no_entry, False)
       else seg_skip_scan r target (gc - 1) (startIdx + 1) next (sharedPrefixLen rkey target)))))" if bs: "?bs = Inr (lo, found)" for lo found
  proof -
    have lo: "lo \<le> ?rc" "found \<Longrightarrow> lo < ?rc" using bsearch3_range [OF bs] by auto
    consider "found" | "\<not> found" "lo = 0" | g where "\<not> found" "lo = Suc g" by (cases lo) auto
    then show ?thesis
    proof cases
      case 1
      then show ?thesis using hit [OF lo(2)] by (simp only: if_True simp_thms)
    next
      case 3
      then have g: "g < ?rc" "int lo - 1 = int g" "lo - 1 = g" "lo \<noteq> 0" using lo(1) by auto
      show ?thesis unfolding g(2,3) using scan [OF g(1)] 3 g(4) by (simp only: if_False simp_thms)
    qed simp
  qed
  then show ?thesis unfolding segSearchLeaf_def panics_bind using b by (auto simp del: bind_res.simps)
qed

section \<open>All layouts\<close>

lemma leaf_validation_total: "opened cfg r \<Longrightarrow> \<not> panics (ValidateLeaf r)"
  using leaf_validate_no_panic seg_validate_no_panic by (cases "is_seg r") blast+

lemma validated_leaf_searches:
  assumes "opened cfg r" "ValidateLeaf r = Inr ()" "\<And>x y. inline_max cfg < length target \<Longrightarrow> \<not> panics (tail target x y)"
  shows "\<not> panics (SearchLeaf r target tail)"
proof -
  have "r_count r \<noteq> 0 \<Longrightarrow> is_uc r \<Longrightarrow> \<not> panics (ucSearchLeaf r target tail)" using uc_search_no_panic [of cfg r target tail] assms by blast
  moreover have "r_count r \<noteq> 0 \<Longrightarrow> is_seg r \<Longrightarrow> \<not> panics (segSearchLeaf r target tail)" using seg_search_no_panic [of cfg r target tail] assms by blast
  moreover have "r_count r \<noteq> 0 \<Longrightarrow> \<not> is_uc r \<Longrightarrow> \<not> is_seg r \<Longrightarrow> \<not> panics (compressedSearchLeaf r target tail)"
    using comp_search_no_panic [of cfg r target tail] assms by blast
  ultimately show ?thesis by (simp add: SearchLeaf_def is_uc_def is_seg_def)
qed

end
