(* ===== verification/Leaf_Props.thy ===== *)
theory Leaf_Props
  imports Leaf_Accept_Seg Leaf_Safe_Seg
begin

text \<open>
  The contract a leaf page keeps with the tree above it, stated once as a locale and provided by the
  three layouts: sorted entries build a page, or fill it; a built page passes validation, reads back by
  index and answers every lookup as a linear search over the full keys would.
\<close>

declare push_bit_of_1 [simp del]

section \<open>Sizes\<close>

text \<open>An upper bound of what one entry takes on a page of any layout, its share of the tables included.\<close>

definition entry_cost :: "LeafEntry \<Rightarrow> nat" where
  "entry_cost e = 39 + length (Key e) + length (Value e)"

lemma entry_cost_norm [simp]: "entry_cost (stored e) = entry_cost e" "entry_cost (sstored e) = entry_cost e"
  by (simp_all add: entry_cost_def)

lemma full_cost: "length (full_bytes e) + 4 \<le> entry_cost e"
  by (simp add: full_length entry_lengths entry_cost_def)

lemma delta_cost: "length (delta_bytes s e) + 4 \<le> entry_cost e"
  by (auto simp: delta_length entry_lengths entry_cost_def)

lemma uc_need_le: "uc_need es \<le> 12 + sum_list (map entry_cost es)"
proof (induction es)
  case (Cons e es)
  then show ?case using full_cost [of e] by (simp add: uc_need_def)
qed (simp add: uc_need_def)

lemma comp_need_le:
  assumes "\<forall>g \<in> set gs. g \<noteq> []"
  shows "comp_need gs \<le> 12 + sum_list (map entry_cost (concat gs))"
  using assms
proof (induction gs)
  case (Cons g gs)
  have d: "length (concat (deltas p es)) \<le> sum_list (map entry_cost es)" for p es
  proof (induction es arbitrary: p)
    case (Cons e es)
    show ?case using Cons.IH [of "Key e"] delta_cost [of "sharedPrefixLen p (Key e)" e] by simp
  qed simp
  obtain e es where g: "g = e # es" using Cons.prems by (cases g) auto
  have "length (concat (group_chunks g)) + 4 \<le> sum_list (map entry_cost g)"
    using full_cost [of e] d [of "Key e" es] by (simp add: g group_chunks_def)
  then show ?case using Cons by (simp add: comp_need_def)
qed (simp add: comp_need_def)

lemma seg_need_le:
  assumes "\<forall>g \<in> set gs. g \<noteq> []"
  shows "seg_need gs \<le> 14 + sum_list (map entry_cost (concat gs))"
  using assms
proof (induction gs)
  case (Cons g gs)
  have c: "length (seg_val e) + 7 + length (Key e) + 4 \<le> entry_cost e" for e
    by (simp add: seg_val_def entry_lengths entry_cost_def)
  have d: "sum_list (map piece_len (dpieces p es)) + length (concat (map seg_val es)) \<le> sum_list (map entry_cost es)" for p es
  proof (induction es arbitrary: p)
    case (Cons e es)
    have "piece_len (dpiece p e) \<le> 7 + length (Key e)" by (simp add: piece_len_def dpiece_def Let_def del: le_bytes.simps)
    then show ?case using Cons.IH [of "Key e"] c [of e] by simp
  qed simp
  obtain e es where g: "g = e # es" using Cons.prems by (cases g) auto
  have "piece_len (rpiece e) \<le> 7 + length (Key e)" by (simp add: piece_len_def rpiece_def del: le_bytes.simps)
  then have "sum_list (map piece_len (group_pieces g)) + length (concat (map seg_val g)) + 4 \<le> sum_list (map entry_cost g)"
    using c [of e] d [of "Key e" es] by (simp add: g group_pieces_def)
  then show ?case using Cons by (simp add: seg_need_def piece_off_def pieces_def)
qed (simp add: seg_need_def piece_off_def pieces_def)

section \<open>Order\<close>

text \<open>The order the builder insists on, over the resident keys.\<close>

definition next_ok :: "bytes option \<Rightarrow> LeafEntry \<Rightarrow> bool" where
  "next_ok lk e \<longleftrightarrow> (case lk of None \<Rightarrow> True | Some k \<Rightarrow> k < Key e \<or> (k = Key e \<and> IsOverflowKey e))"

fun chain_ok :: "bytes option \<Rightarrow> LeafEntry list \<Rightarrow> bool" where
  "chain_ok lk [] = True"
| "chain_ok lk (e # es) \<longleftrightarrow> next_ok lk e \<and> chain_ok (Some (Key e)) es"

text \<open>Ascending full keys give it: an equal resident part belongs to a longer key.\<close>

lemma take_le: "take n a \<le> (a :: bytes)"
  using append_le [of "take n a" "drop n a"] by simp

lemma take_mono: "(a :: bytes) \<le> b \<Longrightarrow> take n a \<le> take n b"
proof (induction n arbitrary: a b)
  case (Suc n)
  show ?case
  proof (cases a)
    case (Cons x xs)
    then obtain y ys where b: "b = y # ys" using Suc.prems by (cases b) auto
    show ?thesis using Suc.IH [of xs ys] Suc.prems Cons b by auto
  qed simp
qed simp

lemma resident:
  assumes "entry_ok cfg e" "full_key e k"
  shows "Key e = take (inline_max cfg) k" "\<not> IsOverflowKey e \<Longrightarrow> k = Key e"
  using assms by (auto simp: entry_ok_def key_ok_def full_key_def split: if_splits)

lemma resident_next:
  assumes "entry_ok cfg a" "entry_ok cfg b" "full_key a k" "full_key b l" "k < l"
  shows "next_ok (Some (Key a)) b"
proof -
  have "Key a \<le> Key b" unfolding resident(1) [OF assms(1,3)] resident(1) [OF assms(2,4)] using assms(5) by (intro take_mono) simp
  moreover have "IsOverflowKey b" if "Key a = Key b"
  proof (rule ccontr)
    assume "\<not> IsOverflowKey b"
    then have "l = take (inline_max cfg) k" using resident [OF assms(2,4)] resident(1) [OF assms(1,3)] that by simp
    then show False using take_le [of "inline_max cfg" k] assms(5) by simp
  qed
  ultimately show ?thesis by (auto simp: next_ok_def)
qed

lemma keys_chain:
  assumes "list_all2 full_key es keys" "sorted_wrt (<) keys" "\<forall>e \<in> set es. entry_ok cfg e"
    and "\<forall>k. lk = Some k \<longrightarrow> es \<noteq> [] \<longrightarrow> next_ok (Some k) (hd es)"
  shows "chain_ok lk es"
  using assms
proof (induction arbitrary: lk rule: list_all2_induct)
  case (Cons e es k ks)
  have "next_ok lk e" using Cons.prems(3) by (cases lk) (auto simp: next_ok_def)
  moreover have "next_ok (Some (Key e)) (hd es)" if ne: "es \<noteq> []"
  proof -
    obtain f fs l ls where "es = f # fs" "ks = l # ls" using ne Cons.hyps(2) by (cases es; cases ks) auto
    then show ?thesis using resident_next [of cfg e f k l] Cons.hyps Cons.prems(1,2) by simp
  qed
  ultimately show ?case using Cons.IH [of "Some (Key e)"] Cons.prems by simp
qed simp

section \<open>The contract\<close>

text \<open>What the reader of a page of sorted entries offers.\<close>

definition serves :: "LeafEntry list \<Rightarrow> LeafReader \<Rightarrow> bool" where
  "serves es r \<longleftrightarrow> r_count r = length es \<and> ValidateLeaf r = Inr () \<and> (\<forall>i < length es. EntryAt r i = Inr (es ! i)) \<and>
     (\<forall>keys target tail. sorted_wrt (<) keys \<longrightarrow> list_all2 (\<lambda>e k. full_key e k \<and> tail_reads tail target e k) es keys \<longrightarrow>
        SearchLeaf r target tail = Inr (found_at es keys target))"

locale leaf_format =
  fixes variant :: byte and norm :: "LeafEntry \<Rightarrow> LeafEntry"
    and built :: "Config \<Rightarrow> LeafEntry list \<Rightarrow> LeafBuilder \<Rightarrow> bool"
    and layout :: "Config \<Rightarrow> LeafEntry list \<Rightarrow> bytes \<Rightarrow> bool"
    and reads :: "Config \<Rightarrow> LeafEntry list \<Rightarrow> LeafReader \<Rightarrow> bool"
  assumes starts_empty: "\<lbrakk>Validate cfg = None; EffectiveLeafType cfg = variant; length buf = unat (PageSize cfg)\<rbrakk>
      \<Longrightarrow> \<exists>b. NewLeafBuilder buf cfg = Inr b \<and> built cfg [] b \<and> b_lastAddedKey b = None"
    and adds: "\<lbrakk>built cfg es b; Validate cfg = None; entry_ok cfg e; next_ok (b_lastAddedKey b) e\<rbrakk>
      \<Longrightarrow> \<exists>ok b'. AddEntry b e = Inr (ok, b') \<and> (ok \<longrightarrow> built cfg (es @ [norm e]) b' \<and> b_lastAddedKey b' = Some (Key e)) \<and>
        (\<not> ok \<longrightarrow> content_end cfg < 14 + sum_list (map entry_cost (es @ [e])))"
    and finishes: "\<lbrakk>built cfg es b; Validate cfg = None\<rbrakk> \<Longrightarrow> \<exists>page. Finish b = Inr page \<and> layout cfg es page"
    and opens: "\<lbrakk>layout cfg es page; Validate cfg = None\<rbrakk> \<Longrightarrow> \<exists>r. NewLeafReader page cfg = Inr r \<and> r_count r = length es \<and> reads cfg es r"
    and validates: "\<lbrakk>reads cfg es r; Validate cfg = None\<rbrakk> \<Longrightarrow> ValidateLeaf r = Inr ()"
    and indexes: "\<lbrakk>reads cfg es r; Validate cfg = None; i < length es\<rbrakk> \<Longrightarrow> EntryAt r i = Inr (es ! i)"
    and searches: "\<lbrakk>reads cfg es r; Validate cfg = None; sorted_wrt (<) keys; list_all2 (\<lambda>e k. full_key e k \<and> tail_reads tail target e k) es keys\<rbrakk>
      \<Longrightarrow> SearchLeaf r target tail = Inr (found_at es keys target)"
    and norm_cost: "entry_cost (norm e) = entry_cost e"
begin

lemma adds_all:
  assumes "built cfg es b" "Validate cfg = None" "\<forall>e \<in> set new. entry_ok cfg e" "chain_ok (b_lastAddedKey b) new"
  shows "(\<exists>b'. add_all b new = Inr (Some b') \<and> built cfg (es @ map norm new) b') \<or>
    (add_all b new = Inr None \<and> content_end cfg < 14 + sum_list (map entry_cost (es @ new)))"
  using assms
proof (induction new arbitrary: es b)
  case (Cons e new)
  obtain ok b' where a: "AddEntry b e = Inr (ok, b')" "ok \<longrightarrow> built cfg (es @ [norm e]) b' \<and> b_lastAddedKey b' = Some (Key e)"
      "\<not> ok \<longrightarrow> content_end cfg < 14 + sum_list (map entry_cost (es @ [e]))"
    using adds [OF Cons.prems(1,2), of e] Cons.prems(3,4) by auto
  show ?case
  proof (cases ok)
    case True
    then show ?thesis using Cons.IH [of "es @ [norm e]" b'] Cons.prems(2-4) a by (auto simp: norm_cost)
  next
    case False
    then show ?thesis using a by auto
  qed
qed simp

lemma builds:
  assumes "Validate cfg = None" "EffectiveLeafType cfg = variant" "length buf = unat (PageSize cfg)"
    and "\<forall>e \<in> set es. entry_ok cfg e" "chain_ok None es"
  shows "(\<exists>page r. build_leaf buf cfg es = Inr (Some page) \<and> NewLeafReader page cfg = Inr r \<and> serves (map norm es) r) \<or>
    (build_leaf buf cfg es = Inr None \<and> content_end cfg < 14 + sum_list (map entry_cost es))"
proof -
  obtain b where b: "NewLeafBuilder buf cfg = Inr b" "built cfg [] b" "b_lastAddedKey b = None" using starts_empty [OF assms(1-3)] by blast
  from adds_all [OF b(2) assms(1,4)] consider
      (full) "add_all b es = Inr None" "content_end cfg < 14 + sum_list (map entry_cost es)"
    | (page) b' where "add_all b es = Inr (Some b')" "built cfg (map norm es) b'"
    using b(3) assms(5) by auto
  then show ?thesis
  proof cases
    case full
    then show ?thesis using b(1) by (simp add: build_leaf_def)
  next
    case page
    obtain pg where p: "Finish b' = Inr pg" "layout cfg (map norm es) pg" using finishes [OF page(2) assms(1)] by blast
    obtain r where r: "NewLeafReader pg cfg = Inr r" "r_count r = length (map norm es)" "reads cfg (map norm es) r"
      using opens [OF p(2) assms(1)] by blast
    have "serves (map norm es) r"
      unfolding serves_def using r(2) validates [OF r(3) assms(1)] indexes [OF r(3) assms(1)] searches [OF r(3) assms(1)] by blast
    then show ?thesis using r(1) p(1) b(1) page(1) by (auto simp: build_leaf_def)
  qed
qed

end

section \<open>The three layouts\<close>

lemma new_builder:
  assumes "Validate cfg = None" "length buf = unat (PageSize cfg)"
  shows "NewLeafBuilder buf cfg = Inr \<lparr>b_rgt = \<lparr>restarts = [], curGroupCount = 0\<rparr>, b_buf = buf, b_cfg = cfg, b_count = 0,
    b_dataPos = (if EffectiveLeafType cfg = TypeLeafSegregated then 14 else 12), b_variant = EffectiveLeafType cfg,
    b_prevKey = [], b_ucOffsets = [], b_segVals = [], b_segVOffSlots = [], b_segRel = [], b_lastAddedKey = None, b_forceRestart = False\<rparr>"
  using assms by (simp add: NewLeafBuilder_def must_validate_ok Let_def leaf_sizes)

lemma add_dispatch:
  assumes "shape_ok e" "next_ok (b_lastAddedKey b) e"
    and "(if b_variant b = TypeLeafUncompressed then addUCEntry else if b_variant b = TypeLeafSegregated then addSegEntry else addCompressedEntry)
      b (Key e) (Flags e) (Value e) (fst (ref_pair e)) (snd (ref_pair e)) (KeyExtPage e) (KeyTotalLen e) = Inr (ok, b')"
  shows "AddEntry b e = Inr (ok, if ok then b'\<lparr>b_lastAddedKey := Some (Key e)\<rparr> else b')"
proof -
  have k: "(Flags e AND NOT cellFlagKnownMask \<noteq> 0) = False" using assms(1) by (simp add: shape_ok_def Let_def)
  have o: "(case b_lastAddedKey b of None \<Rightarrow> False
      | Some lk \<Rightarrow> let c = Compare lk (Key e) in c > 0 \<or> (c = 0 \<and> \<not> flag_set (Flags e) CellFlagOverflowKey)) = False"
    using assms(2) by (cases "b_lastAddedKey b") (auto simp: next_ok_def Let_def IsOverflowKey_def)
  show ?thesis unfolding AddEntry_addEntry [OF assms(1)] addEntry_def k o if_False
    using assms(3) by (cases "b_variant b = TypeLeafUncompressed"; cases "b_variant b = TypeLeafSegregated") simp_all
qed

lemma split_keys:
  assumes "list_all2 P (concat gs) keys"
  obtains kss where "list_all2 (list_all2 P) gs kss" "concat kss = keys"
  using assms
proof (induction gs arbitrary: keys thesis)
  case Nil
  then show ?case by simp
next
  case (Cons g gs)
  obtain k1 k2 where k: "keys = k1 @ k2" "list_all2 P g k1" "list_all2 P (concat gs) k2"
    using Cons.prems(2) by (auto simp: list_all2_append1)
  obtain kss where "list_all2 (list_all2 P) gs kss" "concat kss = k2" using Cons.IH [OF _ k(3)] by blast
  then show ?case using Cons.prems(1) [of "k1 # kss"] k by simp
qed

lemma split_search:
  assumes "\<forall>g \<in> set gs. g \<noteq> []" "list_all2 (\<lambda>e k. full_key e k \<and> tail_reads tail target e k) (concat gs) keys"
  obtains kss where "group_keys gs kss" "concat kss = keys" "\<forall>i < length gs. tail_reads tail target (hd (gs ! i)) (hd (kss ! i))"
proof -
  obtain kss where k: "list_all2 (list_all2 (\<lambda>e k. full_key e k \<and> tail_reads tail target e k)) gs kss" "concat kss = keys"
    using split_keys [OF assms(2)] .
  have "group_keys gs kss" using k(1) unfolding group_keys_def by (rule list_all2_mono) (auto elim: list_all2_mono)
  moreover have "tail_reads tail target (hd (gs ! i)) (hd (kss ! i))" if i: "i < length gs" for i
  proof -
    have "list_all2 (\<lambda>e k. full_key e k \<and> tail_reads tail target e k) (gs ! i) (kss ! i)" using k(1) i by (rule list_all2_nthD)
    moreover have "gs ! i \<noteq> []" using assms(1) i by simp
    ultimately show ?thesis by (cases "gs ! i"; cases "kss ! i") auto
  qed
  ultimately show ?thesis using that k(2) by blast
qed

abbreviation uc_state :: "Config \<Rightarrow> LeafEntry list \<Rightarrow> LeafBuilder \<Rightarrow> bool" where
  "uc_state cfg es b \<equiv> uc_built cfg es b \<and> (\<forall>e \<in> set es. entry_ok cfg e)"

abbreviation uc_page :: "Config \<Rightarrow> LeafEntry list \<Rightarrow> bytes \<Rightarrow> bool" where
  "uc_page cfg es page \<equiv> uc_layout cfg es page \<and> (\<forall>e \<in> set es. entry_ok cfg e)"

abbreviation comp_state :: "Config \<Rightarrow> LeafEntry list \<Rightarrow> LeafBuilder \<Rightarrow> bool" where
  "comp_state cfg es b \<equiv> \<exists>gs. comp_built cfg gs b \<and> concat gs = es"

abbreviation comp_page :: "Config \<Rightarrow> LeafEntry list \<Rightarrow> bytes \<Rightarrow> bool" where
  "comp_page cfg es page \<equiv> \<exists>gs. comp_layout cfg gs page \<and> (\<forall>g \<in> set gs. group_ok cfg g) \<and> concat gs = es"

abbreviation seg_state :: "Config \<Rightarrow> LeafEntry list \<Rightarrow> LeafBuilder \<Rightarrow> bool" where
  "seg_state cfg es b \<equiv> \<exists>gs. seg_built cfg gs b \<and> concat gs = es"

abbreviation seg_page :: "Config \<Rightarrow> LeafEntry list \<Rightarrow> bytes \<Rightarrow> bool" where
  "seg_page cfg es page \<equiv> \<exists>gs. sleaf_layout cfg gs page \<and> (\<forall>g \<in> set gs. sgroup_ok cfg g) \<and> concat gs = es"

lemma empty_stream: "Validate cfg = None \<Longrightarrow> length buf = unat (PageSize cfg) \<Longrightarrow> holds buf 12 [] \<and> holds buf 14 []"
  using page_bounds [of cfg] by (simp add: holds_def field_def)

lemma uc_starts:
  assumes "Validate cfg = None" "EffectiveLeafType cfg = TypeLeafUncompressed" "length buf = unat (PageSize cfg)"
  shows "\<exists>b. NewLeafBuilder buf cfg = Inr b \<and> uc_state cfg [] b \<and> b_lastAddedKey b = None"
  using new_builder [OF assms(1,3)] assms(2,3) page_bounds [OF assms(1)] empty_stream [OF assms(1,3)] by (simp add: uc_built_def page_types)

lemma comp_starts:
  assumes "Validate cfg = None" "EffectiveLeafType cfg = TypeLeaf" "length buf = unat (PageSize cfg)"
  shows "\<exists>b. NewLeafBuilder buf cfg = Inr b \<and> comp_state cfg [] b \<and> b_lastAddedKey b = None"
proof -
  obtain b where b: "NewLeafBuilder buf cfg = Inr b" "comp_built cfg [] b" "b_lastAddedKey b = None"
    using new_builder [OF assms(1,3)] assms(2,3) page_bounds [OF assms(1)] empty_stream [OF assms(1,3)] by (simp add: comp_built_def tracks_def page_types)
  then show ?thesis by (metis concat.simps(1))
qed

lemma seg_starts:
  assumes "Validate cfg = None" "EffectiveLeafType cfg = TypeLeafSegregated" "length buf = unat (PageSize cfg)"
  shows "\<exists>b. NewLeafBuilder buf cfg = Inr b \<and> seg_state cfg [] b \<and> b_lastAddedKey b = None"
proof -
  obtain b where b: "NewLeafBuilder buf cfg = Inr b" "seg_built cfg [] b" "b_lastAddedKey b = None"
    using new_builder [OF assms(1,3)] assms(2,3) page_bounds [OF assms(1)] empty_stream [OF assms(1,3)]
    by (simp add: seg_built_def tracks_def pieces_def piece_off_def page_types)
  then show ?thesis by (metis concat.simps(1))
qed

lemma uc_adds:
  assumes "uc_state cfg es b" "Validate cfg = None" "entry_ok cfg e" "next_ok (b_lastAddedKey b) e"
  shows "\<exists>ok b'. AddEntry b e = Inr (ok, b') \<and> (ok \<longrightarrow> uc_state cfg (es @ [stored e]) b' \<and> b_lastAddedKey b' = Some (Key e)) \<and>
    (\<not> ok \<longrightarrow> content_end cfg < 14 + sum_list (map entry_cost (es @ [e])))"
proof -
  have s: "shape_ok e" using assms(3) by (simp add: entry_ok_def)
  have v: "b_variant b = TypeLeafUncompressed" using assms(1) by (simp add: uc_built_def Let_def)
  obtain ok b' where a: "addUCEntry b (Key e) (Flags e) (Value e) (fst (ref_pair e)) (snd (ref_pair e)) (KeyExtPage e) (KeyTotalLen e) = Inr (ok, b')"
      "ok \<longrightarrow> uc_built cfg (es @ [stored e]) (b'\<lparr>b_lastAddedKey := Some (Key e)\<rparr>)" "\<not> ok \<longrightarrow> content_end cfg < uc_need (es @ [stored e])"
    using uc_add [OF _ s assms(2), of es b "Some (Key e)"] assms(1) by blast
  have e: "entry_ok cfg (stored e)" using assms(3) stored_shape [OF s] by (simp add: entry_ok_def)
  show ?thesis using add_dispatch [OF s assms(4), of ok b'] v a e assms(1) uc_need_le [of "es @ [stored e]"] by auto
qed

lemma comp_adds:
  assumes "comp_state cfg es b" "Validate cfg = None" "entry_ok cfg e" "next_ok (b_lastAddedKey b) e"
  shows "\<exists>ok b'. AddEntry b e = Inr (ok, b') \<and> (ok \<longrightarrow> comp_state cfg (es @ [stored e]) b' \<and> b_lastAddedKey b' = Some (Key e)) \<and>
    (\<not> ok \<longrightarrow> content_end cfg < 14 + sum_list (map entry_cost (es @ [e])))"
proof -
  have s: "shape_ok e" using assms(3) by (simp add: entry_ok_def)
  obtain gs where gs: "comp_built cfg gs b" "concat gs = es" using assms(1) by blast
  have v: "b_variant b = TypeLeaf" using gs(1) by (simp add: comp_built_def Let_def)
  obtain ok b' gs' where a: "addCompressedEntry b (Key e) (Flags e) (Value e) (fst (ref_pair e)) (snd (ref_pair e)) (KeyExtPage e) (KeyTotalLen e) = Inr (ok, b')"
      "concat gs' = concat gs @ [stored e]" "\<forall>g \<in> set gs'. g \<noteq> []"
      "ok \<longrightarrow> comp_built cfg gs' (b'\<lparr>b_lastAddedKey := Some (Key e)\<rparr>)" "\<not> ok \<longrightarrow> content_end cfg < comp_need gs'"
    using comp_add [OF gs(1) assms(2,3), of "Some (Key e)"] by blast
  have n: "content_end cfg < 14 + sum_list (map entry_cost (es @ [e]))" if "\<not> ok"
    using a(5) comp_need_le [OF a(3)] that unfolding a(2) gs(2) by simp
  have "AddEntry b e = Inr (ok, if ok then b'\<lparr>b_lastAddedKey := Some (Key e)\<rparr> else b')"
    using add_dispatch [OF s assms(4), of ok b'] v a(1) by (simp add: page_types)
  moreover have "comp_state cfg (es @ [stored e]) (b'\<lparr>b_lastAddedKey := Some (Key e)\<rparr>)" if ok using a(2,4) gs(2) that by blast
  ultimately show ?thesis using n by (cases ok) auto
qed

lemma seg_adds:
  assumes "seg_state cfg es b" "Validate cfg = None" "entry_ok cfg e" "next_ok (b_lastAddedKey b) e"
  shows "\<exists>ok b'. AddEntry b e = Inr (ok, b') \<and> (ok \<longrightarrow> seg_state cfg (es @ [sstored e]) b' \<and> b_lastAddedKey b' = Some (Key e)) \<and>
    (\<not> ok \<longrightarrow> content_end cfg < 14 + sum_list (map entry_cost (es @ [e])))"
proof -
  have s: "shape_ok e" using assms(3) by (simp add: entry_ok_def)
  obtain gs where gs: "seg_built cfg gs b" "concat gs = es" using assms(1) by blast
  have v: "b_variant b = TypeLeafSegregated" using gs(1) by (simp add: seg_built_def Let_def)
  obtain ok b' gs' where a: "addSegEntry b (Key e) (Flags e) (Value e) (fst (ref_pair e)) (snd (ref_pair e)) (KeyExtPage e) (KeyTotalLen e) = Inr (ok, b')"
      "concat gs' = concat gs @ [sstored e]" "\<forall>g \<in> set gs'. g \<noteq> []"
      "ok \<longrightarrow> seg_built cfg gs' (b'\<lparr>b_lastAddedKey := Some (Key e)\<rparr>)" "\<not> ok \<longrightarrow> content_end cfg < seg_need gs'"
    using seg_add [OF gs(1) assms(2,3), of "Some (Key e)"] by blast
  have n: "content_end cfg < 14 + sum_list (map entry_cost (es @ [e]))" if "\<not> ok"
    using a(5) seg_need_le [OF a(3)] that unfolding a(2) gs(2) by simp
  have "AddEntry b e = Inr (ok, if ok then b'\<lparr>b_lastAddedKey := Some (Key e)\<rparr> else b')"
    using add_dispatch [OF s assms(4), of ok b'] v a(1) by (simp add: page_types)
  moreover have "seg_state cfg (es @ [sstored e]) (b'\<lparr>b_lastAddedKey := Some (Key e)\<rparr>)" if ok using a(2,4) gs(2) that by blast
  ultimately show ?thesis using n by (cases ok) auto
qed

interpretation uc: leaf_format TypeLeafUncompressed stored uc_state uc_page
  "\<lambda>cfg es r. \<exists>buf. r = uc_reader cfg es buf \<and> uc_page cfg es buf"
proof
  show "\<exists>page. Finish b = Inr page \<and> uc_page cfg es page" if "uc_state cfg es b" "Validate cfg = None" for cfg es b
    using uc_finish [of cfg es b] that by blast
  show "\<exists>r. NewLeafReader page cfg = Inr r \<and> r_count r = length es \<and> (\<exists>buf. r = uc_reader cfg es buf \<and> uc_page cfg es buf)"
    if "uc_page cfg es page" "Validate cfg = None" for cfg es page
    using uc_NewLeafReader [of cfg es page] that by (auto simp: uc_reader_def)
  show "ValidateLeaf r = Inr ()" if "\<exists>buf. r = uc_reader cfg es buf \<and> uc_page cfg es buf" "Validate cfg = None" for cfg es r
    using uc_accepts that by blast
  show "EntryAt r i = Inr (es ! i)" if "\<exists>buf. r = uc_reader cfg es buf \<and> uc_page cfg es buf" "Validate cfg = None" "i < length es" for cfg es r i
    using uc_EntryAt that by blast
  show "SearchLeaf r target tail = Inr (found_at es keys target)"
    if "\<exists>buf. r = uc_reader cfg es buf \<and> uc_page cfg es buf" "Validate cfg = None" "sorted_wrt (<) keys"
      "list_all2 (\<lambda>e k. full_key e k \<and> tail_reads tail target e k) es keys" for cfg es r keys tail target
  proof -
    have "keys_of es keys" "\<forall>i < length es. tail_reads tail target (es ! i) (keys ! i)"
      using that(3,4) by (auto simp: keys_of_def list_all2_conv_all_nth)
    then show ?thesis using uc_search that(1,2) by blast
  qed
qed (use uc_starts uc_adds in \<open>simp_all\<close>)

interpretation comp: leaf_format TypeLeaf stored comp_state comp_page
  "\<lambda>cfg es r. \<exists>gs buf. r = comp_reader cfg gs buf \<and> comp_layout cfg gs buf \<and> (\<forall>g \<in> set gs. group_ok cfg g) \<and> concat gs = es"
proof
  show "\<exists>page. Finish b = Inr page \<and> comp_page cfg es page" if b: "comp_state cfg es b" "Validate cfg = None" for cfg es b
  proof -
    obtain gs where gs: "comp_built cfg gs b" "concat gs = es" using b(1) by blast
    then have "\<forall>g \<in> set gs. group_ok cfg g" by (simp add: comp_built_def Let_def)
    then show ?thesis using comp_finish [OF gs(1) b(2)] gs(2) by blast
  qed
  show "\<exists>r. NewLeafReader page cfg = Inr r \<and> r_count r = length es \<and>
      (\<exists>gs buf. r = comp_reader cfg gs buf \<and> comp_layout cfg gs buf \<and> (\<forall>g \<in> set gs. group_ok cfg g) \<and> concat gs = es)"
    if p: "comp_page cfg es page" "Validate cfg = None" for cfg es page
  proof -
    obtain gs where gs: "comp_layout cfg gs page" "\<forall>g \<in> set gs. group_ok cfg g" "concat gs = es" using p(1) by blast
    moreover have "r_count (comp_reader cfg gs page) = length es" using gs(3) by (simp add: comp_reader_def)
    ultimately show ?thesis using comp_NewLeafReader [OF gs(1) p(2) gs(2)] by blast
  qed
  show "ValidateLeaf r = Inr ()" if "\<exists>gs buf. r = comp_reader cfg gs buf \<and> comp_layout cfg gs buf \<and> (\<forall>g \<in> set gs. group_ok cfg g) \<and> concat gs = es" "Validate cfg = None" for cfg es r
    using comp_accepts that by blast
  show "EntryAt r i = Inr (es ! i)"
    if "\<exists>gs buf. r = comp_reader cfg gs buf \<and> comp_layout cfg gs buf \<and> (\<forall>g \<in> set gs. group_ok cfg g) \<and> concat gs = es"
      "Validate cfg = None" "i < length es" for cfg es r i
    using comp_EntryAt that by blast
  show "SearchLeaf r target tail = Inr (found_at es keys target)"
    if r: "\<exists>gs buf. r = comp_reader cfg gs buf \<and> comp_layout cfg gs buf \<and> (\<forall>g \<in> set gs. group_ok cfg g) \<and> concat gs = es"
      "Validate cfg = None" "sorted_wrt (<) keys" "list_all2 (\<lambda>e k. full_key e k \<and> tail_reads tail target e k) es keys" for cfg es r keys tail target
  proof -
    obtain gs buf where gs: "r = comp_reader cfg gs buf" "comp_layout cfg gs buf" "\<forall>g \<in> set gs. group_ok cfg g" "concat gs = es" using r(1) by blast
    have "\<forall>g \<in> set gs. g \<noteq> []" using gs(3) by (simp add: group_ok_def)
    from split_search [OF this r(4) [folded gs(4)]] show ?thesis using comp_search [OF gs(2) r(2) gs(3)] gs(1,4) r(3) by metis
  qed
qed (use comp_starts comp_adds in \<open>simp_all\<close>)

interpretation seg: leaf_format TypeLeafSegregated sstored seg_state seg_page
  "\<lambda>cfg es r. \<exists>gs buf. r = sleaf_reader cfg gs buf \<and> sleaf_layout cfg gs buf \<and> (\<forall>g \<in> set gs. sgroup_ok cfg g) \<and> concat gs = es"
proof
  show "\<exists>page. Finish b = Inr page \<and> seg_page cfg es page" if b: "seg_state cfg es b" "Validate cfg = None" for cfg es b
  proof -
    obtain gs where gs: "seg_built cfg gs b" "concat gs = es" using b(1) by blast
    then have "\<forall>g \<in> set gs. sgroup_ok cfg g" by (simp add: seg_built_def Let_def)
    then show ?thesis using seg_finish [OF gs(1) b(2)] gs(2) by blast
  qed
  show "\<exists>r. NewLeafReader page cfg = Inr r \<and> r_count r = length es \<and>
      (\<exists>gs buf. r = sleaf_reader cfg gs buf \<and> sleaf_layout cfg gs buf \<and> (\<forall>g \<in> set gs. sgroup_ok cfg g) \<and> concat gs = es)"
    if p: "seg_page cfg es page" "Validate cfg = None" for cfg es page
  proof -
    obtain gs where gs: "sleaf_layout cfg gs page" "\<forall>g \<in> set gs. sgroup_ok cfg g" "concat gs = es" using p(1) by blast
    moreover have "r_count (sleaf_reader cfg gs page) = length es" using gs(3) by (simp add: sleaf_reader_def)
    moreover have "\<forall>g \<in> set gs. g \<noteq> []" using gs(2) by (auto simp: sgroup_ok_def group_ok_def)
    ultimately show ?thesis using sleaf_NewLeafReader [OF gs(1) p(2)] by blast
  qed
  show "ValidateLeaf r = Inr ()" if "\<exists>gs buf. r = sleaf_reader cfg gs buf \<and> sleaf_layout cfg gs buf \<and> (\<forall>g \<in> set gs. sgroup_ok cfg g) \<and> concat gs = es" "Validate cfg = None" for cfg es r
    using sleaf_accepts that by blast
  show "EntryAt r i = Inr (es ! i)"
    if "\<exists>gs buf. r = sleaf_reader cfg gs buf \<and> sleaf_layout cfg gs buf \<and> (\<forall>g \<in> set gs. sgroup_ok cfg g) \<and> concat gs = es"
      "Validate cfg = None" "i < length es" for cfg es r i
    using sleaf_EntryAt that by blast
  show "SearchLeaf r target tail = Inr (found_at es keys target)"
    if r: "\<exists>gs buf. r = sleaf_reader cfg gs buf \<and> sleaf_layout cfg gs buf \<and> (\<forall>g \<in> set gs. sgroup_ok cfg g) \<and> concat gs = es"
      "Validate cfg = None" "sorted_wrt (<) keys" "list_all2 (\<lambda>e k. full_key e k \<and> tail_reads tail target e k) es keys" for cfg es r keys tail target
  proof -
    obtain gs buf where gs: "r = sleaf_reader cfg gs buf" "sleaf_layout cfg gs buf" "\<forall>g \<in> set gs. sgroup_ok cfg g" "concat gs = es" using r(1) by blast
    have "\<forall>g \<in> set gs. g \<noteq> []" using gs(3) by (auto simp: sgroup_ok_def group_ok_def)
    from split_search [OF this r(4) [folded gs(4)]] show ?thesis using sleaf_search [OF gs(2) r(2) gs(3)] gs(1,4) r(3) by metis
  qed
qed (use seg_starts seg_adds in \<open>simp_all\<close>)

section \<open>All layouts\<close>

text \<open>The form an entry has when it is read back: the layouts differ in the flag for empty values.\<close>

definition leaf_form :: "Config \<Rightarrow> LeafEntry \<Rightarrow> LeafEntry" where
  "leaf_form cfg e = (if EffectiveLeafType cfg = TypeLeafSegregated then sstored e else stored e)"

lemma leaf_form_keys:
  "list_all2 (\<lambda>e k. full_key e k \<and> tail_reads tail target e k) (map (leaf_form cfg) es) keys =
   list_all2 (\<lambda>e k. full_key e k \<and> tail_reads tail target e k) es keys"
proof -
  have "full_key (leaf_form cfg e) k = full_key e k" "tail_reads tail target (leaf_form cfg e) k = tail_reads tail target e k" for e k
    by (simp_all add: leaf_form_def)
  then show ?thesis by (simp add: list_all2_map1)
qed

lemma leaf_builds:
  assumes "Validate cfg = None" "length buf = unat (PageSize cfg)" "\<forall>e \<in> set es. entry_ok cfg e"
    and "list_all2 full_key es keys" "sorted_wrt (<) keys"
  shows "(\<exists>page r. build_leaf buf cfg es = Inr (Some page) \<and> NewLeafReader page cfg = Inr r \<and> serves (map (leaf_form cfg) es) r) \<or>
    (build_leaf buf cfg es = Inr None \<and> content_end cfg < 14 + sum_list (map entry_cost es))"
proof -
  have o: "chain_ok None es" by (rule keys_chain [OF assms(4,5,3)]) simp
  consider (u) "EffectiveLeafType cfg = TypeLeafUncompressed" | (c) "EffectiveLeafType cfg = TypeLeaf" | (s) "EffectiveLeafType cfg = TypeLeafSegregated"
    unfolding EffectiveLeafType_def by presburger
  then show ?thesis
  proof cases
    case u
    then have "leaf_form cfg = stored" by (simp add: leaf_form_def page_types fun_eq_iff)
    then show ?thesis using uc.builds [OF assms(1) u assms(2,3) o] by (simp only:)
  next
    case c
    then have "leaf_form cfg = stored" by (simp add: leaf_form_def page_types fun_eq_iff)
    then show ?thesis using comp.builds [OF assms(1) c assms(2,3) o] by (simp only:)
  next
    case s
    then have "leaf_form cfg = sstored" by (simp add: leaf_form_def fun_eq_iff)
    then show ?thesis using seg.builds [OF assms(1) s assms(2,3) o] by (simp only:)
  qed
qed

section \<open>Concrete pages\<close>

definition demo_leaf_cfg :: "u16 \<Rightarrow> byte \<Rightarrow> Config" where
  "demo_leaf_cfg g l = \<lparr>PageSize = 4096, PageChecksum = True, RestartGroupTarget = g, LeafLayout = l, BranchLayout = 0\<rparr>"

definition demo_entries :: "LeafEntry list" where
  "demo_entries = [no_entry\<lparr>Key := [1, 2], Value := [9]\<rparr>, no_entry\<lparr>Flags := 1, Key := [1, 2, 3], OverflowPage := 7, TotalLen := 5000\<rparr>,
     no_entry\<lparr>Key := [1, 7]\<rparr>]"

lemma demo_leaf_cfg_valid: "g \<le> 255 \<Longrightarrow> l \<le> 2 \<Longrightarrow> Validate (demo_leaf_cfg g l) = None"
  by (simp add: demo_leaf_cfg_def Validate_def ValidPageSize_def MinPageSize_def MaxPageSize_def
      MaxRestartGroupTarget_def LeafLayoutSegregated_def BranchLayoutSegregated_def not_less)

lemma demo_entries_ok:
  assumes "Validate cfg = None"
  shows "\<forall>e \<in> set demo_entries. entry_ok cfg e" "list_all2 full_key demo_entries [[1, 2], [1, 2, 3], [1, 7]]"
    "sorted_wrt (<) [[1, 2], [1, 2, 3], [1 :: byte, 7]]" "14 + sum_list (map entry_cost demo_entries) \<le> content_end cfg"
proof -
  show "\<forall>e \<in> set demo_entries. entry_ok cfg e"
    using page_bounds(5) [OF assms]
    by (auto simp: demo_entries_def entry_ok_def shape_ok_def key_ok_def IsOverflowKey_def no_entry_def known_flags bit_1_iff)
  show "list_all2 full_key demo_entries [[1, 2], [1, 2, 3], [1, 7]]"
    by (simp add: demo_entries_def full_key_def IsOverflowKey_def no_entry_def bit_1_iff)
  show "14 + sum_list (map entry_cost demo_entries) \<le> content_end cfg"
    using page_bounds(1) [OF assms] by (simp add: demo_entries_def entry_cost_def no_entry_def)
qed simp

section \<open>Properties\<close>

text \<open>
  C11. Round trip of leaf pages, in whichever of the three layouts the configuration selects: adding
  entries with ascending keys never panics, and either the finished page opens with their count, passes
  validation and gives each of them back at its index, or the builder answers that the page is full, which it does
  only when the entries may not fit.
\<close>

theorem leaf_round_trip:
  assumes "Validate cfg = None" "length buf = unat (PageSize cfg)" "\<forall>e \<in> set es. entry_ok cfg e"
    and "list_all2 full_key es keys" "sorted_wrt (<) keys"
  shows "(\<exists>page r. build_leaf buf cfg es = Inr (Some page) \<and> NewLeafReader page cfg = Inr r \<and> r_count r = length es \<and> ValidateLeaf r = Inr () \<and>
      (\<forall>i < length es. EntryAt r i = Inr (leaf_form cfg (es ! i)))) \<or>
    (build_leaf buf cfg es = Inr None \<and> content_end cfg < 14 + sum_list (map entry_cost es))"
  using leaf_builds [OF assms] by (auto simp: serves_def)

theorem leaf_round_trip_witness:
  "\<exists>page r. build_leaf (replicate 4096 0) (demo_leaf_cfg 6 2) demo_entries = Inr (Some page) \<and> NewLeafReader page (demo_leaf_cfg 6 2) = Inr r \<and>
    EntryAt r 1 = Inr (leaf_form (demo_leaf_cfg 6 2) (demo_entries ! 1))"
proof -
  have v: "Validate (demo_leaf_cfg 6 2) = None" by (rule demo_leaf_cfg_valid) simp_all
  have l: "length (replicate 4096 0) = unat (PageSize (demo_leaf_cfg 6 2))" by (simp add: demo_leaf_cfg_def)
  have n: "1 < length demo_entries" by (simp add: demo_entries_def)
  show ?thesis using leaf_round_trip [OF v l demo_entries_ok(1-3) [OF v]] demo_entries_ok(4) [OF v] n by fastforce
qed

text \<open>
  C10. Lookup in a built page, in each of the three layouts: the binary search over the restart
  points followed by the skip-scan of a group, which compares only the bytes the prefixes leave
  open, answers exactly as a linear search over the full keys: the rank of the target, and the entry
  with that key if there is one. Keys longer than the inline threshold take part through the
  comparison with their extent.
\<close>

theorem leaf_search_finds:
  assumes "Validate cfg = None" "length buf = unat (PageSize cfg)" "\<forall>e \<in> set es. entry_ok cfg e"
    and "list_all2 (\<lambda>e k. full_key e k \<and> tail_reads tail target e k) es keys" "sorted_wrt (<) keys"
    and "build_leaf buf cfg es = Inr (Some page)"
  shows "\<exists>r. NewLeafReader page cfg = Inr r \<and> SearchLeaf r target tail = Inr (found_at (map (leaf_form cfg) es) keys target)"
proof -
  have k: "list_all2 full_key es keys" using assms(4) by (rule list_all2_mono) simp
  obtain r where "NewLeafReader page cfg = Inr r" "serves (map (leaf_form cfg) es) r"
    using leaf_builds [OF assms(1-3) k assms(5)] assms(6) by auto
  then show ?thesis using assms(4,5) leaf_form_keys [of tail target cfg es keys] unfolding serves_def by blast
qed

theorem leaf_search_finds_witness:
  "\<exists>page r. build_leaf (replicate 4096 0) (demo_leaf_cfg 6 1) demo_entries = Inr (Some page) \<and> NewLeafReader page (demo_leaf_cfg 6 1) = Inr r \<and>
    SearchLeaf r [1, 2, 3] (\<lambda>_ _ _. Inl Corrupt) = Inr (1, (leaf_form (demo_leaf_cfg 6 1) (demo_entries ! 1))\<lparr>Key := []\<rparr>, True)"
proof -
  let ?c = "demo_leaf_cfg 6 1" and ?ks = "[[1, 2], [1, 2, 3], [1, 7]]"
  have v: "Validate ?c = None" by (rule demo_leaf_cfg_valid) simp_all
  have l: "length (replicate 4096 0) = unat (PageSize ?c)" by (simp add: demo_leaf_cfg_def)
  obtain page where p: "build_leaf (replicate 4096 0) ?c demo_entries = Inr (Some page)"
    using leaf_builds [OF v l demo_entries_ok(1-3) [OF v]] demo_entries_ok(4) [OF v] by auto
  have t: "list_all2 (\<lambda>e k. full_key e k \<and> tail_reads (\<lambda>_ _ _. Inl Corrupt) [1, 2, 3] e k) demo_entries ?ks"
    by (simp add: demo_entries_def full_key_def tail_reads_def IsOverflowKey_def no_entry_def bit_1_iff)
  have f: "found_at (map (leaf_form ?c) demo_entries) ?ks [1, 2, 3] = (1, (leaf_form ?c (demo_entries ! 1))\<lparr>Key := []\<rparr>, True)"
    by (simp add: found_at_def rank_def demo_entries_def)
  show ?thesis using leaf_search_finds [OF v l demo_entries_ok(1) [OF v] t demo_entries_ok(3) [OF v] p] p unfolding f by blast
qed

text \<open>
  C12. Robustness: every page of the right size that carries a leaf type opens, its validation ends in
  an answer and never in a panic, and once the page passes, whatever its bytes are, no lookup panics,
  provided the comparison of a target past the inline threshold with a key extent does not. This is what lets a reader open a page from a
  damaged or forged file.
\<close>

theorem validated_leaf_safe:
  assumes "Validate cfg = None" "length buf = unat (PageSize cfg)" "read_header buf = Inr (ty, fl, n, ad)" "IsLeafType ty"
  shows "\<exists>r. NewLeafReader buf cfg = Inr r \<and> \<not> panics (ValidateLeaf r) \<and>
    (ValidateLeaf r = Inr () \<and> (\<forall>target ext tot. inline_max cfg < length target \<longrightarrow> \<not> panics (tail target ext tot)) \<longrightarrow> (\<forall>target. \<not> panics (SearchLeaf r target tail)))"
proof -
  obtain r where r: "NewLeafReader buf cfg = Inr r" using NewLeafReader_no_panic [OF assms] by blast
  note o = NewLeafReader_opened(1) [OF r assms(1)]
  show ?thesis using r leaf_validation_total [OF o] validated_leaf_searches [OF o] by blast
qed

theorem validated_leaf_safe_witness:
  "\<exists>page r. build_leaf (replicate 4096 0) (demo_leaf_cfg 6 2) demo_entries = Inr (Some page) \<and> NewLeafReader page (demo_leaf_cfg 6 2) = Inr r \<and>
    \<not> panics (SearchLeaf r [1, 2, 9] (\<lambda>_ _ _. Inl Corrupt))"
proof -
  let ?c = "demo_leaf_cfg 6 2"
  have v: "Validate ?c = None" by (rule demo_leaf_cfg_valid) simp_all
  have l: "length (replicate 4096 0) = unat (PageSize ?c)" by (simp add: demo_leaf_cfg_def)
  obtain page r where p: "build_leaf (replicate 4096 0) ?c demo_entries = Inr (Some page)" "NewLeafReader page ?c = Inr r" "ValidateLeaf r = Inr ()"
    using leaf_builds [OF v l demo_entries_ok(1-3) [OF v]] demo_entries_ok(4) [OF v] by (auto simp: serves_def)
  have n: "length page = unat (PageSize ?c)" by (rule NewLeafReader_opened(3) [OF p(2) v])
  obtain ty fl k ad where h: "read_header page = Inr (ty, fl, k, ad)" "IsLeafType ty"
    using p(2) by (auto simp: NewLeafReader_def bind_res_Inr_iff Let_def split: if_splits)
  show ?thesis using validated_leaf_safe [OF v n h, of "\<lambda>_ _ _. Inl Corrupt"] p by auto
qed

end
