(* ===== verification/Overflow.thy ===== *)
theory Overflow
  imports Leaf
begin

text \<open>
  Overflow runs: \<^verbatim>\<open>src/internal/page/overflow.go\<close>. A long value, or the tail of a long key, is stored in a
  run of consecutive pages: a head page with a header and, when checksums are on, a digest of the
  whole run, followed by pages of plain content. Run lengths are machine words, since a length that
  a damaged file states can be anything. The XXH3-64 function is the parameter \<open>xxh3\<close>, and its
  streaming form the parameter \<open>stream\<close> over the chunks written to the hasher.
\<close>

section \<open>Geometry\<close>

definition OverflowDigestSize :: nat where "OverflowDigestSize = 8"
definition overflowDigestOff :: nat where "overflowDigestOff = HeaderSize"

definition OverflowHeadContentStart :: "Config \<Rightarrow> node_err + nat" where
  "OverflowHeadContentStart cfg =
     bind_res (must_validate cfg) (\<lambda>_. Inr (if PageChecksum cfg then HeaderSize + OverflowDigestSize else HeaderSize))"

definition OverflowFirstPageCapacity :: "Config \<Rightarrow> node_err + int" where
  "OverflowFirstPageCapacity cfg = bind_res (OverflowHeadContentStart cfg) (\<lambda>start. Inr (uint (PageSize cfg) - int start))"

definition OverflowFollowerCapacity :: "Config \<Rightarrow> node_err + int" where
  "OverflowFollowerCapacity cfg = bind_res (must_validate cfg) (\<lambda>_. Inr (uint (PageSize cfg)))"

text \<open>The number of pages of a run, and the form the readers use, without the truncation to 32 bits.\<close>

definition OverflowRunLength64 :: "Config \<Rightarrow> u64 \<Rightarrow> node_err + u64" where
  "OverflowRunLength64 cfg valLen =
     bind_res (must_validate cfg) (\<lambda>_.
     bind_res (OverflowFirstPageCapacity cfg) (\<lambda>f.
     let first = word_of_int f in
     if valLen \<le> first then Inr 1
     else
       bind_res (OverflowFollowerCapacity cfg) (\<lambda>c.
       let follower = word_of_int c; remaining = valLen - first in
       Inr (1 + (remaining + follower - 1) div follower))))"

definition OverflowRunLength :: "Config \<Rightarrow> u64 \<Rightarrow> node_err + u32" where
  "OverflowRunLength cfg valLen =
     bind_res (must_validate cfg) (\<lambda>_.
     bind_res (OverflowFirstPageCapacity cfg) (\<lambda>f.
     let first = word_of_int f in
     if valLen \<le> first then Inr 1
     else
       bind_res (OverflowFollowerCapacity cfg) (\<lambda>c.
       let follower = word_of_int c; remaining = valLen - first in
       Inr (1 + ucast ((remaining + follower - 1) div follower)))))"

section \<open>Reading a run\<close>

definition DecodeOverflowFirstPage :: "bytes \<Rightarrow> node_err + u32" where
  "DecodeOverflowFirstPage buf =
     bind_res (read_header buf) (\<lambda>(typ, _, _, additional). if typ \<noteq> TypeOverflow then Inl Corrupt else Inr additional)"

definition OverflowRunExtent :: "bytes \<Rightarrow> Config \<Rightarrow> node_err + bytes" where
  "OverflowRunExtent run cfg = bind_res (OverflowHeadContentStart cfg) (\<lambda>start. slice run start (length run))"

definition OverflowRunDigest :: "(bytes \<Rightarrow> u64) \<Rightarrow> bytes \<Rightarrow> Config \<Rightarrow> node_err + u64" where
  "OverflowRunDigest xxh3 run cfg =
     bind_res (OverflowHeadContentStart cfg) (\<lambda>start. bind_res (slice run start (length run)) (\<lambda>bs. Inr (xxh3 bs)))"

definition StoredOverflowRunDigest :: "bytes \<Rightarrow> node_err + u64" where
  "StoredOverflowRunDigest head = u64_at head overflowDigestOff"

definition SetOverflowRunDigest :: "bytes \<Rightarrow> u64 \<Rightarrow> node_err + bytes" where
  "SetOverflowRunDigest head digest = put_at head overflowDigestOff (w64 digest)"

definition VerifyOverflowRun :: "(bytes \<Rightarrow> u64) \<Rightarrow> bytes \<Rightarrow> Config \<Rightarrow> node_err + bool" where
  "VerifyOverflowRun xxh3 run cfg =
     (if \<not> PageChecksum cfg then Inr True
      else
        bind_res (OverflowRunDigest xxh3 run cfg) (\<lambda>want.
        bind_res (StoredOverflowRunDigest run) (\<lambda>got. Inr (want = got))))"

section \<open>Writing a run\<close>

text \<open>
  The pages go to the callback \<open>write\<close>, which acts on the caller's state and may fail. \<open>fill\<close> is a
  page buffer cleared and filled with the next bytes of the value.
\<close>

type_synonym 's page_sink = "u32 \<Rightarrow> bytes \<Rightarrow> 's \<Rightarrow> (node_err + unit) \<times> 's"

definition fill :: "nat \<Rightarrow> bytes \<Rightarrow> bytes" where
  "fill n bs = take n bs @ replicate (n - length bs) 0"

fun write_followers :: "nat \<Rightarrow> bytes \<Rightarrow> 's page_sink \<Rightarrow> nat list \<Rightarrow> nat \<Rightarrow> bytes list \<Rightarrow> 's \<Rightarrow> (node_err + bytes list) \<times> 's" where
  "write_followers cap value write [] off hashed s = (Inr hashed, s)"
| "write_followers cap value write (i # is) off hashed s =
     (let chunk = take cap (drop off value); buf = fill cap chunk in
      case write (word_of_nat i) buf s of
        (Inl e, s') \<Rightarrow> (Inl e, s')
      | (Inr _, s') \<Rightarrow> write_followers cap value write is (off + length chunk) (hashed @ [buf]) s')"

definition run_head :: "Config \<Rightarrow> bytes \<Rightarrow> node_err + u32 \<times> nat \<times> bytes" where
  "run_head cfg value =
     bind_res (must_validate cfg) (\<lambda>_.
     bind_res (OverflowRunLength cfg (word_of_nat (length value))) (\<lambda>runLen.
     bind_res (write_header (replicate (unat (PageSize cfg)) 0) TypeOverflow 0 (runLen - 1)) (\<lambda>head.
     bind_res (OverflowHeadContentStart cfg) (\<lambda>start.
     bind_res (copy_at head start value) (\<lambda>head. Inr (runLen, start, head))))))"

definition seal_head :: "Config \<Rightarrow> bytes \<Rightarrow> u64 \<Rightarrow> node_err + bytes" where
  "seal_head cfg head digest = (if PageChecksum cfg then SetOverflowRunDigest head digest else Inr head)"

definition WriteOverflowRun :: "(bytes list \<Rightarrow> u64) \<Rightarrow> Config \<Rightarrow> bytes \<Rightarrow> 's page_sink \<Rightarrow> 's \<Rightarrow> (node_err + unit) \<times> 's" where
  "WriteOverflowRun stream cfg value write s =
     (case run_head cfg value of
        Inl e \<Rightarrow> (Inl e, s)
      | Inr (runLen, start, head) \<Rightarrow>
          (let cap = unat (PageSize cfg); off = min (length value) (cap - start) in
           case write_followers cap value write [1..<unat runLen] off [drop start head] s of
             (Inl e, s') \<Rightarrow> (Inl e, s')
           | (Inr hashed, s') \<Rightarrow>
               (case seal_head cfg head (stream hashed) of
                  Inl e \<Rightarrow> (Inl e, s')
                | Inr head \<Rightarrow> write 0 head s')))"

end
