(* ===== verification/Tree_Read.thy ===== *)
theory Tree_Read
  imports Overflow Leaf_Valid
begin

text \<open>
  The read side of the tree: \<^verbatim>\<open>src/internal/btree/btree.go\<close>, \<^verbatim>\<open>pathlen.go\<close>, \<open>GetEntry\<close> of
  \<^verbatim>\<open>entry_ops.go\<close>, the readers and size rules
  of \<^verbatim>\<open>overflow.go\<close> and the descent of \<^verbatim>\<open>put.go\<close>. The tree reads pages through the interface
  \<open>PageReader\<close>, two functions from page ids to page images; within one call the pages do not change.
  A Go call that returns a value beside an error returns the error here; a \<^verbatim>\<open>nil\<close> slice is empty.
\<close>

section \<open>The page reader\<close>

record PageReader =
  rd_Page :: "u64 \<Rightarrow> node_err + bytes"
  rd_PageRun :: "u64 \<Rightarrow> node_err + bytes"

definition MaxTreeDepth :: nat where "MaxTreeDepth = 64"

section \<open>Size rules\<close>

definition inlineEntryHeaderOverhead :: int where "inlineEntryHeaderOverhead = 1 + 2 + 4"
definition overflowEntryHeaderOverhead :: int where "overflowEntryHeaderOverhead = 1 + 2 + 8 + 8"
definition singleEntryPageOverhead :: int where "singleEntryPageOverhead = 12 + 4"
definition maxKeyTotalLen :: u64 where "maxKeyTotalLen = push_bit 32 1 - 1"

lemmas tree_sizes = inlineEntryHeaderOverhead_def overflowEntryHeaderOverhead_def singleEntryPageOverhead_def

definition residentKeyCost :: "Config \<Rightarrow> bytes \<Rightarrow> int" where
  "residentKeyCost cfg key = (let t = InlineThreshold cfg in if int (length key) \<le> t then int (length key) else t + 12)"

definition needsOverflow :: "Config \<Rightarrow> bytes \<Rightarrow> bytes \<Rightarrow> bool" where
  "needsOverflow cfg key value \<longleftrightarrow>
     (let inlineSize = inlineEntryHeaderOverhead + residentKeyCost cfg key + int (length value) in
      inlineSize > ContentEnd cfg - singleEntryPageOverhead)"

definition overflowRefFitsLeaf :: "Config \<Rightarrow> bytes \<Rightarrow> bool" where
  "overflowRefFitsLeaf cfg key \<longleftrightarrow>
     (let refSize = overflowEntryHeaderOverhead + residentKeyCost cfg key in refSize \<le> ContentEnd cfg - singleEntryPageOverhead)"

definition keyWithinBound :: "bytes \<Rightarrow> bool" where
  "keyWithinBound key \<longleftrightarrow> (word_of_nat (length key) :: u64) \<le> maxKeyTotalLen"

definition KeyWithinBound :: "int \<Rightarrow> bool" where
  "KeyWithinBound keyLen \<longleftrightarrow> keyLen \<ge> 0 \<and> (word_of_int keyLen :: u64) \<le> maxKeyTotalLen"

definition MaxSetCellValueForKey :: "Config \<Rightarrow> bytes \<Rightarrow> int" where
  "MaxSetCellValueForKey cfg key =
     (let half = (ContentEnd cfg - singleEntryPageOverhead) sdiv 2 in
      half - inlineEntryHeaderOverhead - residentKeyCost cfg key)"

section \<open>Reading runs\<close>

definition readRunExtent :: "PageReader \<Rightarrow> Config \<Rightarrow> u64 \<Rightarrow> u64 \<Rightarrow> node_err + bytes" where
  "readRunExtent pr cfg headID extentLen =
     bind_res (rd_PageRun pr headID) (\<lambda>run.
     bind_res (DecodeOverflowFirstPage run) (\<lambda>additional.
     bind_res (OverflowRunLength64 cfg extentLen) (\<lambda>want.
     if ucast additional + 1 \<noteq> want then Inl Corrupt
     else
       bind_res (OverflowRunExtent run cfg) (\<lambda>extent.
       if extentLen > word_of_nat (length extent) then Inl Corrupt
       else slice extent 0 (unat extentLen)))))"

definition keyTail :: "PageReader \<Rightarrow> Config \<Rightarrow> TailCompare" where
  "keyTail pr cfg probe extPage totalLen =
     (let t = InlineThreshold cfg; storedLen = int (unat totalLen) - t in
      bind_res (slice probe (nat t) (length probe)) (\<lambda>probeTail.
      if storedLen \<le> 0 then Inl Corrupt
      else
        bind_res (readRunExtent pr cfg extPage (word_of_int storedLen)) (\<lambda>stored.
        let k = min (length probeTail) (nat storedLen) in
        bind_res (slice probeTail 0 k) (\<lambda>a.
        bind_res (slice stored 0 k) (\<lambda>b.
        let c = Compare a b in
        if c \<noteq> 0 then Inr c
        else if int (length probeTail) < storedLen then Inr (-1)
        else if int (length probeTail) > storedLen then Inr 1
        else Inr 0)))))"

definition keyExtentRunLen :: "Config \<Rightarrow> u32 \<Rightarrow> node_err + u32" where
  "keyExtentRunLen cfg keyTotalLen = OverflowRunLength cfg (word_of_int (int (unat keyTotalLen) - InlineThreshold cfg))"

definition clearKeyExtent :: "LeafEntry \<Rightarrow> LeafEntry" where
  "clearKeyExtent e = e\<lparr>Flags := Flags e AND NOT CellFlagOverflowKey, KeyExtPage := 0, KeyTotalLen := 0\<rparr>"

definition readKeyExtentTail :: "PageReader \<Rightarrow> Config \<Rightarrow> u64 \<Rightarrow> u32 \<Rightarrow> node_err + bytes" where
  "readKeyExtentTail pr cfg extPage keyTotalLen =
     (let tailLen = int (unat keyTotalLen) - InlineThreshold cfg in
      if tailLen \<le> 0 then Inl Corrupt else readRunExtent pr cfg extPage (word_of_int tailLen))"

definition materializeEntryKey :: "PageReader \<Rightarrow> Config \<Rightarrow> LeafEntry \<Rightarrow> node_err + bytes" where
  "materializeEntryKey pr cfg e =
     (if \<not> IsOverflowKey e then Inr (Key e)
      else bind_res (readKeyExtentTail pr cfg (KeyExtPage e) (KeyTotalLen e)) (\<lambda>tail. Inr (Key e @ tail)))"

definition materializeCellKey :: "PageReader \<Rightarrow> Config \<Rightarrow> BranchCell \<Rightarrow> node_err + bytes" where
  "materializeCellKey pr cfg c =
     (if \<not> cell_IsOverflowKey c then Inr (bc_Key c)
      else bind_res (readKeyExtentTail pr cfg (bc_KeyExtPage c) (bc_KeyTotalLen c)) (\<lambda>tail. Inr (bc_Key c @ tail)))"

definition readOverflowValue :: "PageReader \<Rightarrow> Config \<Rightarrow> LeafEntry \<Rightarrow> node_err + bytes" where
  "readOverflowValue pr cfg e =
     (if \<not> IsOverflow e then Inl (Failed 0) else readRunExtent pr cfg (OverflowPage e) (TotalLen e))"

section \<open>Lookup\<close>

definition validateBranchPage :: "bytes \<Rightarrow> Config \<Rightarrow> node_err + unit" where
  "validateBranchPage buf cfg = ValidateBranch buf cfg"

text \<open>
  One level of a descent: the child the key belongs to, on a validated branch page. The lookups and
  the descent of a write share it; they differ in what they do at a leaf.
\<close>

definition branch_step :: "PageReader \<Rightarrow> Config \<Rightarrow> bytes \<Rightarrow> bytes \<Rightarrow> node_err + nat \<times> u64" where
  "branch_step pr cfg buf key =
     bind_res (validateBranchPage buf cfg) (\<lambda>_.
     bind_res (BranchSearch buf cfg key (keyTail pr cfg)) (\<lambda>i.
     bind_res (BranchChildAt buf cfg i) (\<lambda>next.
     if next = 0 then Inl Corrupt else Inr (i, next))))"

definition search_leaf :: "PageReader \<Rightarrow> Config \<Rightarrow> bytes \<Rightarrow> bytes \<Rightarrow> node_err + nat \<times> LeafEntry \<times> bool" where
  "search_leaf pr cfg buf key =
     bind_res (NewLeafReader buf cfg) (\<lambda>r.
     bind_res (ValidateLeaf r) (\<lambda>_.
     SearchLeaf r key (keyTail pr cfg)))"

fun get_loop :: "PageReader \<Rightarrow> Config \<Rightarrow> bytes \<Rightarrow> nat \<Rightarrow> u64 \<Rightarrow> node_err + bytes \<times> bool" where
  "get_loop pr cfg key 0 cur = Inl TooDeep"
| "get_loop pr cfg key (Suc depth) cur =
     bind_res (rd_Page pr cur) (\<lambda>buf.
     bind_res (read_header buf) (\<lambda>(typ, _, _, _).
     if IsBranchType typ then
       bind_res (branch_step pr cfg buf key) (\<lambda>(_, next). get_loop pr cfg key depth next)
     else if IsLeafType typ then
       bind_res (search_leaf pr cfg buf key) (\<lambda>(_, entry, found).
       if \<not> found then Inr ([], False)
       else if IsOverflow entry then bind_res (readOverflowValue pr cfg entry) (\<lambda>val. Inr (val, True))
       else Inr (Value entry, True))
     else Inl Corrupt))"

definition Get :: "PageReader \<Rightarrow> Config \<Rightarrow> u64 \<Rightarrow> bytes \<Rightarrow> node_err + bytes \<times> bool" where
  "Get pr cfg rootID key = (if rootID = 0 then Inr ([], False) else get_loop pr cfg key (MaxTreeDepth + 1) rootID)"

fun has_loop :: "PageReader \<Rightarrow> Config \<Rightarrow> bytes \<Rightarrow> nat \<Rightarrow> u64 \<Rightarrow> node_err + bool" where
  "has_loop pr cfg key 0 cur = Inl TooDeep"
| "has_loop pr cfg key (Suc depth) cur =
     bind_res (rd_Page pr cur) (\<lambda>buf.
     bind_res (read_header buf) (\<lambda>(typ, _, _, _).
     if IsBranchType typ then
       bind_res (branch_step pr cfg buf key) (\<lambda>(_, next). has_loop pr cfg key depth next)
     else if IsLeafType typ then bind_res (search_leaf pr cfg buf key) (\<lambda>(_, _, found). Inr found)
     else Inl Corrupt))"

definition Has :: "PageReader \<Rightarrow> Config \<Rightarrow> u64 \<Rightarrow> bytes \<Rightarrow> node_err + bool" where
  "Has pr cfg rootID key = (if rootID = 0 then Inr False else has_loop pr cfg key (MaxTreeDepth + 1) rootID)"

text \<open>The entry as it is stored, for callers that need more of it than the value.\<close>

fun get_entry_loop :: "PageReader \<Rightarrow> Config \<Rightarrow> bytes \<Rightarrow> nat \<Rightarrow> u64 \<Rightarrow> node_err + LeafEntry \<times> bool" where
  "get_entry_loop pr cfg key 0 cur = Inl TooDeep"
| "get_entry_loop pr cfg key (Suc depth) cur =
     bind_res (rd_Page pr cur) (\<lambda>buf.
     bind_res (read_header buf) (\<lambda>(typ, _, _, _).
     if IsLeafType typ then
       bind_res (NewLeafReader buf cfg) (\<lambda>r.
       bind_res (ValidateLeaf r) (\<lambda>_.
       bind_res (SearchLeaf r key (keyTail pr cfg)) (\<lambda>(idx, _, found).
       if \<not> found then Inr (no_entry, False) else bind_res (EntryAt r idx) (\<lambda>full. Inr (full, True)))))
     else if \<not> IsBranchType typ then Inl Corrupt
     else bind_res (branch_step pr cfg buf key) (\<lambda>(_, next). get_entry_loop pr cfg key depth next)))"

definition GetEntry :: "PageReader \<Rightarrow> Config \<Rightarrow> u64 \<Rightarrow> bytes \<Rightarrow> node_err + LeafEntry \<times> bool" where
  "GetEntry pr cfg rootID key = (if rootID = 0 then Inr (no_entry, False) else get_entry_loop pr cfg key (MaxTreeDepth + 1) rootID)"

section \<open>Other descents\<close>

text \<open>The number of pages on the leftmost path; the loop counts up to the bound.\<close>

fun path_loop :: "PageReader \<Rightarrow> Config \<Rightarrow> nat \<Rightarrow> nat \<Rightarrow> u64 \<Rightarrow> node_err + nat" where
  "path_loop pr cfg 0 n cur = bind_res (rd_Page pr cur) (\<lambda>_. Inl TooDeep)"
| "path_loop pr cfg (Suc left) n cur =
     bind_res (rd_Page pr cur) (\<lambda>buf.
     bind_res (read_header buf) (\<lambda>(typ, _, _, _).
     if IsLeafType typ then Inr (n + 1)
     else if \<not> IsBranchType typ then Inl Corrupt
     else
       bind_res (validateBranchPage buf cfg) (\<lambda>_.
       bind_res (BranchChildAt buf cfg 0) (\<lambda>next.
       if next = 0 then Inl Corrupt else path_loop pr cfg left (n + 1) next))))"

definition PathLen :: "PageReader \<Rightarrow> Config \<Rightarrow> u64 \<Rightarrow> node_err + nat" where
  "PathLen pr cfg root = (if root = 0 then Inr 0 else path_loop pr cfg MaxTreeDepth 0 root)"

record pathFrame =
  pf_pageID :: u64
  pf_childIdx :: nat

fun descend_loop ::
  "PageReader \<Rightarrow> Config \<Rightarrow> bytes \<Rightarrow> nat \<Rightarrow> pathFrame list \<Rightarrow> u64 \<Rightarrow> bool \<Rightarrow> node_err + pathFrame list \<times> u64 \<times> bytes \<times> bool" where
  "descend_loop pr cfg key 0 path cur rightmost = Inl TooDeep"
| "descend_loop pr cfg key (Suc depth) path cur rightmost =
     bind_res (rd_Page pr cur) (\<lambda>buf.
     bind_res (read_header buf) (\<lambda>(typ, _, _, _).
     if IsLeafType typ then Inr (path, cur, buf, rightmost)
     else if \<not> IsBranchType typ then Inl Corrupt
     else
       bind_res (branch_step pr cfg buf key) (\<lambda>(i, next).
       bind_res (BranchCellCount buf) (\<lambda>n.
       descend_loop pr cfg key depth (path @ [\<lparr>pf_pageID = cur, pf_childIdx = i\<rparr>]) next (rightmost \<and> i = n)))))"

definition descendToLeafForKey :: "PageReader \<Rightarrow> Config \<Rightarrow> u64 \<Rightarrow> bytes \<Rightarrow> node_err + pathFrame list \<times> u64 \<times> bytes \<times> bool" where
  "descendToLeafForKey pr cfg rootID key = descend_loop pr cfg key (MaxTreeDepth + 1) [] rootID True"

end
