(* ===== verification/Overflow_Run.thy ===== *)
theory Overflow_Run
  imports Overflow Branch_Plain
begin

text \<open>
  What an overflow run is: the number of its pages, its image as one byte string, the sequence of
  page writes that produces it and the extent it reads back as.
\<close>

section \<open>Run lengths\<close>

definition head_start :: "Config \<Rightarrow> nat" where
  "head_start cfg = (if PageChecksum cfg then 16 else 8)"

abbreviation page_len :: "Config \<Rightarrow> nat" where
  "page_len cfg \<equiv> unat (PageSize cfg)"

definition run_pages :: "Config \<Rightarrow> nat \<Rightarrow> nat" where
  "run_pages cfg n = (head_start cfg + n + page_len cfg - 1) div page_len cfg"

lemma head_start_bounds: "8 \<le> head_start cfg" "head_start cfg \<le> 16" by (simp_all add: head_start_def)

lemma page_len_bounds:
  assumes "Validate cfg = None"
  shows "4096 \<le> page_len cfg" "page_len cfg \<le> 65536"
proof -
  have v: "ValidPageSize (PageSize cfg)" using Validate_None [OF assms] by simp
  show "4096 \<le> page_len cfg" "page_len cfg \<le> 65536" using ValidPageSize_bounds [OF v] by simp_all
qed

lemma overflow_geometry:
  assumes "Validate cfg = None"
  shows "OverflowHeadContentStart cfg = Inr (head_start cfg)"
    "OverflowFirstPageCapacity cfg = Inr (int (page_len cfg - head_start cfg))" "OverflowFollowerCapacity cfg = Inr (int (page_len cfg))"
proof -
  show s: "OverflowHeadContentStart cfg = Inr (head_start cfg)"
    using assms by (simp add: OverflowHeadContentStart_def head_start_def HeaderSize_def OverflowDigestSize_def)
  have "uint (PageSize cfg) - int (head_start cfg) = int (page_len cfg - head_start cfg)"
    using page_len_bounds(1) [OF assms] head_start_bounds(2) [of cfg] by (simp add: uint_nat of_nat_diff del: of_nat_unat)
  then show "OverflowFirstPageCapacity cfg = Inr (int (page_len cfg - head_start cfg))" by (simp add: OverflowFirstPageCapacity_def s)
  show "OverflowFollowerCapacity cfg = Inr (int (page_len cfg))" using assms by (simp add: OverflowFollowerCapacity_def uint_nat del: of_nat_unat)
qed

lemma run_pages_bounds:
  assumes "Validate cfg = None"
  shows "0 < run_pages cfg n" "head_start cfg + n \<le> run_pages cfg n * page_len cfg" "run_pages cfg n * page_len cfg < head_start cfg + n + page_len cfg"
proof -
  let ?P = "page_len cfg" and ?m = "head_start cfg + n"
  have P: "0 < ?P" "1 \<le> ?m" using page_len_bounds(1) [OF assms] head_start_bounds(1) [of cfg] by linarith+
  have d: "?m + ?P - 1 = run_pages cfg n * ?P + (?m + ?P - 1) mod ?P" unfolding run_pages_def by (rule div_mult_mod_eq [symmetric])
  have r: "(?m + ?P - 1) mod ?P < ?P" using P(1) by simp
  have "?P \<le> ?m + ?P - 1" using P(2) by linarith
  then show "0 < run_pages cfg n" unfolding run_pages_def using P(1) by (simp add: div_greater_zero_iff)
  show "?m \<le> run_pages cfg n * ?P" using d r by linarith
  show "run_pages cfg n * ?P < ?m + ?P" using d P by linarith
qed

lemma run_pages_single: "Validate cfg = None \<Longrightarrow> n \<le> page_len cfg - head_start cfg \<Longrightarrow> run_pages cfg n = 1"
proof -
  assume a: "Validate cfg = None" "n \<le> page_len cfg - head_start cfg"
  have "run_pages cfg n * page_len cfg < 2 * page_len cfg"
    using run_pages_bounds(3) [OF a(1), of n] a(2) page_len_bounds(1) [OF a(1)] head_start_bounds(2) [of cfg] by linarith
  then have "run_pages cfg n < 2" by (simp add: mult_less_cancel2)
  then show ?thesis using run_pages_bounds(1) [OF a(1), of n] by linarith
qed

lemma run_pages_more:
  assumes "Validate cfg = None" "page_len cfg - head_start cfg < n"
  shows "run_pages cfg n = 1 + (head_start cfg + n - 1) div page_len cfg"
proof -
  have "head_start cfg + n + page_len cfg - 1 = (head_start cfg + n - 1) + page_len cfg" using head_start_bounds(1) [of cfg] by linarith
  moreover have "page_len cfg \<noteq> 0" using page_len_bounds(1) [OF assms(1)] by linarith
  ultimately show ?thesis unfolding run_pages_def using div_add_self2 [of "page_len cfg" "head_start cfg + n - 1"] by (simp only: simp_thms add.commute [of 1])
qed

lemma word_div_nat:
  assumes "P < 2 ^ 64"
  shows "(word_of_nat x :: u64) div word_of_nat P = word_of_nat ((x mod 2 ^ 64) div P)"
proof -
  have "x mod 2 ^ 64 div P < 2 ^ 64" by (rule le_less_trans [OF div_le_dividend]) simp
  then show ?thesis using assms by (intro word_unat_eq_iff [THEN iffD2]) (simp add: unat_div unat_of_nat)
qed

lemma ucast_of_nat: "(ucast (word_of_nat x :: u64) :: u32) = word_of_nat x"
  by (rule bit_word_eqI) (simp add: bit_simps)

text \<open>
  The computed length is the number of pages as long as the addition of the last page does not wrap:
  lengths from \<open>2 ^ 64 - head_start + 1\<close> on come out too small.
\<close>

lemma run_length_words:
  assumes "Validate cfg = None"
  shows "(v - word_of_int (int (page_len cfg - head_start cfg)) + word_of_int (int (page_len cfg)) - 1) div word_of_int (int (page_len cfg)) =
    (word_of_nat (((unat v + head_start cfg - 1) mod 2 ^ 64) div page_len cfg) :: u64)"
proof -
  let ?P = "page_len cfg" and ?h = "head_start cfg"
  have b: "4096 \<le> ?P" "?P \<le> 65536" "?h \<le> 16" "8 \<le> ?h" using page_len_bounds [OF assms] head_start_bounds [of cfg] by simp_all
  have "v - word_of_int (int (?P - ?h)) + word_of_int (int ?P) - 1 = (word_of_int (uint v - int (?P - ?h) + int ?P - 1) :: u64)"
    by (simp add: word_of_int_uint)
  also have "uint v - int (?P - ?h) + int ?P - 1 = int (unat v + ?h - 1)" using b by (simp add: of_nat_diff uint_nat del: of_nat_unat)
  finally have x: "v - word_of_int (int (?P - ?h)) + word_of_int (int ?P) - 1 = (word_of_nat (unat v + ?h - 1) :: u64)" by simp
  show ?thesis unfolding x using word_div_nat [of ?P "unat v + ?h - 1"] b(2) by simp
qed

lemma run_length64:
  assumes "Validate cfg = None"
  shows "OverflowRunLength64 cfg v =
      Inr (if unat v \<le> page_len cfg - head_start cfg then 1 else 1 + word_of_nat (((unat v + head_start cfg - 1) mod 2 ^ 64) div page_len cfg))"
    "OverflowRunLength cfg v =
      Inr (if unat v \<le> page_len cfg - head_start cfg then 1 else 1 + ucast (word_of_nat (((unat v + head_start cfg - 1) mod 2 ^ 64) div page_len cfg) :: u64))"
proof -
  have "unat (word_of_int (int (page_len cfg - head_start cfg)) :: u64) = page_len cfg - head_start cfg"
    using page_len_bounds(2) [OF assms] by (simp add: unat_of_nat)
  then have c: "v \<le> word_of_int (int (page_len cfg - head_start cfg)) \<longleftrightarrow> unat v \<le> page_len cfg - head_start cfg" by (simp only: word_le_nat_alt)
  show "OverflowRunLength64 cfg v =
      Inr (if unat v \<le> page_len cfg - head_start cfg then 1 else 1 + word_of_nat (((unat v + head_start cfg - 1) mod 2 ^ 64) div page_len cfg))"
    unfolding OverflowRunLength64_def Let_def overflow_geometry [OF assms] must_validate_ok [OF assms] bind_res.simps c
    by (simp only: run_length_words [OF assms] if_distrib [of Inr])
  show "OverflowRunLength cfg v =
      Inr (if unat v \<le> page_len cfg - head_start cfg then 1 else 1 + ucast (word_of_nat (((unat v + head_start cfg - 1) mod 2 ^ 64) div page_len cfg) :: u64))"
    unfolding OverflowRunLength_def Let_def overflow_geometry [OF assms] must_validate_ok [OF assms] bind_res.simps c
    by (simp only: run_length_words [OF assms] if_distrib [of Inr])
qed

lemma run_length64_exact:
  assumes "Validate cfg = None" "n + head_start cfg \<le> 2 ^ 64"
  shows "OverflowRunLength64 cfg (word_of_nat n) = Inr (word_of_nat (run_pages cfg n))"
proof -
  have n: "n < 2 ^ 64" using assms(2) head_start_bounds(1) [of cfg] by linarith
  then have u: "unat (word_of_nat n :: u64) = n" by (simp add: unat_of_nat)
  have m: "(n + head_start cfg - 1) mod 2 ^ 64 = head_start cfg + n - 1" using assms(2) head_start_bounds(1) [of cfg] by (simp add: add.commute)
  show ?thesis unfolding run_length64(1) [OF assms(1)] u m
    using run_pages_single [OF assms(1), of n] run_pages_more [OF assms(1), of n] by auto
qed

lemma run_length_exact:
  assumes "Validate cfg = None" "run_pages cfg n < 2 ^ 32"
  shows "OverflowRunLength cfg (word_of_nat n) = Inr (word_of_nat (run_pages cfg n))" "n + head_start cfg \<le> 2 ^ 64"
proof -
  have "head_start cfg + n \<le> run_pages cfg n * page_len cfg" by (rule run_pages_bounds(2) [OF assms(1)])
  also have "\<dots> \<le> 2 ^ 32 * 65536" using assms(2) page_len_bounds(2) [OF assms(1)] by (intro mult_mono) auto
  finally show n: "n + head_start cfg \<le> 2 ^ 64" by simp
  then have u: "unat (word_of_nat n :: u64) = n" using head_start_bounds(1) [of cfg] by (simp add: unat_of_nat)
  have m: "(n + head_start cfg - 1) mod 2 ^ 64 = head_start cfg + n - 1" using n head_start_bounds(1) [of cfg] by (simp add: add.commute)
  show "OverflowRunLength cfg (word_of_nat n) = Inr (word_of_nat (run_pages cfg n))"
  proof (cases "n \<le> page_len cfg - head_start cfg")
    case True
    then show ?thesis unfolding run_length64(2) [OF assms(1)] u using run_pages_single [OF assms(1), of n] by simp
  next
    case False
    then have r: "run_pages cfg n = 1 + (head_start cfg + n - 1) div page_len cfg" using run_pages_more [OF assms(1), of n] by simp
    then show ?thesis unfolding run_length64(2) [OF assms(1)] u m ucast_of_nat using False by simp
  qed
qed

section \<open>The image\<close>

text \<open>The content range of a run: the value and zeros up to the end of its last page.\<close>

definition run_content :: "Config \<Rightarrow> bytes \<Rightarrow> bytes" where
  "run_content cfg value = value @ replicate (run_pages cfg (length value) * page_len cfg - head_start cfg - length value) 0"

definition run_prefix :: "Config \<Rightarrow> nat \<Rightarrow> u64 \<Rightarrow> bytes" where
  "run_prefix cfg k digest = header_bytes TypeOverflow 0 (word_of_nat (k - 1)) @ (if PageChecksum cfg then w64 digest else [])"

definition run_image :: "(bytes \<Rightarrow> u64) \<Rightarrow> Config \<Rightarrow> bytes \<Rightarrow> bytes" where
  "run_image xxh3 cfg value = run_prefix cfg (run_pages cfg (length value)) (xxh3 (run_content cfg value)) @ run_content cfg value"

definition run_page :: "Config \<Rightarrow> bytes \<Rightarrow> nat \<Rightarrow> bytes" where
  "run_page cfg img i = take (page_len cfg) (drop (i * page_len cfg) img)"

lemma length_run_prefix [simp]: "length (run_prefix cfg k digest) = head_start cfg"
  by (simp add: run_prefix_def head_start_def del: le_bytes.simps)

lemma length_run_content:
  "Validate cfg = None \<Longrightarrow> length (run_content cfg value) = run_pages cfg (length value) * page_len cfg - head_start cfg"
  using run_pages_bounds(2) [of cfg "length value"] by (simp add: run_content_def)

lemma length_run_image: "Validate cfg = None \<Longrightarrow> length (run_image xxh3 cfg value) = run_pages cfg (length value) * page_len cfg"
  using run_pages_bounds(2) [of cfg "length value"] by (simp add: run_image_def length_run_content)

lemma run_image_reads:
  assumes "Validate cfg = None"
  shows "DecodeOverflowFirstPage (run_image xxh3 cfg value) = Inr (word_of_nat (run_pages cfg (length value) - 1))"
    "OverflowRunExtent (run_image xxh3 cfg value) cfg = Inr (run_content cfg value)"
    "VerifyOverflowRun xxh3 (run_image xxh3 cfg value) cfg = Inr True"
proof -
  let ?i = "run_image xxh3 cfg value" and ?k = "run_pages cfg (length value)"
  have h: "holds ?i 0 (run_prefix cfg ?k (xxh3 (run_content cfg value)))" by (simp add: run_image_def holds_def field_def)
  then have "holds ?i 0 (header_bytes TypeOverflow 0 (word_of_nat (?k - 1)))" by (simp add: run_prefix_def holds_append)
  from read_header_holds [OF this] show "DecodeOverflowFirstPage ?i = Inr (word_of_nat (?k - 1))" by (simp add: DecodeOverflowFirstPage_def)
  have s: "slice ?i (head_start cfg) (length ?i) = Inr (run_content cfg value)" by (simp add: run_image_def slice_def field_def)
  then show "OverflowRunExtent ?i cfg = Inr (run_content cfg value)" by (simp add: OverflowRunExtent_def overflow_geometry [OF assms])
  show "VerifyOverflowRun xxh3 ?i cfg = Inr True"
  proof (cases "PageChecksum cfg")
    case True
    then have "holds ?i 8 (w64 (xxh3 (run_content cfg value)))" using h by (simp add: run_prefix_def holds_append del: le_bytes.simps)
    then have "u64_at ?i 8 = Inr (xxh3 (run_content cfg value))" by (rule holds_u64)
    then show ?thesis
      using s by (simp add: VerifyOverflowRun_def OverflowRunDigest_def StoredOverflowRunDigest_def overflow_geometry [OF assms] overflowDigestOff_def HeaderSize_def)
  qed (simp add: VerifyOverflowRun_def)
qed

lemma read_header_take: "8 \<le> n \<Longrightarrow> 8 \<le> length buf \<Longrightarrow> read_header (take n buf) = read_header buf"
  by (simp add: read_header_def lift_panic_def ReadHeader_def HeaderSize_def Uint16_def Uint32_def field_def drop_take min_def)

section \<open>The writes\<close>

text \<open>A sequence of page writes that stops at the first error.\<close>

fun send :: "'s page_sink \<Rightarrow> (nat \<times> bytes) list \<Rightarrow> 's \<Rightarrow> (node_err + unit) \<times> 's" where
  "send write [] s = (Inr (), s)"
| "send write ((i, b) # cs) s =
     (case write (word_of_nat i) b s of (Inl e, s') \<Rightarrow> (Inl e, s') | (Inr _, s') \<Rightarrow> send write cs s')"

lemma send_append: "send write (a @ b) s = (case send write a s of (Inl e, s') \<Rightarrow> (Inl e, s') | (Inr _, s') \<Rightarrow> send write b s')"
  by (induction a arbitrary: s) (auto split: prod.split sum.split)

lemma fill_pad:
  assumes "m + n \<le> length value + z"
  shows "fill n (take n (drop (min (length value) m) value)) = take n (drop m (value @ replicate z 0))"
proof (cases "m \<le> length value")
  case True
  let ?d = "drop m value"
  have "n - length ?d \<le> z" using assms True by simp
  then have "take (n - length ?d) (replicate z 0) = replicate (n - length ?d) (0 :: byte)" by (simp add: min_def)
  moreover have "min (length value) m = m" using True by simp
  ultimately show ?thesis using True by (simp add: fill_def min_def)
next
  case False
  then have "drop (min (length value) m) value = []" "drop m value = []" by simp_all
  then show ?thesis using assms False by (simp add: fill_def min_def)
qed

lemma write_followers_eq:
  assumes "length value + z = k * cap - h" "h \<le> cap" "i \<le> k" "1 \<le> i"
  shows "write_followers cap value write [i..<k] (min (length value) (i * cap - h)) hashed s =
    (let page = \<lambda>j. take cap (drop (j * cap - h) (value @ replicate z 0)) in
     case send write (map (\<lambda>j. (j, page j)) [i..<k]) s of
       (Inl e, s') \<Rightarrow> (Inl e, s') | (Inr _, s') \<Rightarrow> (Inr (hashed @ map page [i..<k]), s'))"
  using assms(3,4)
proof (induction i arbitrary: hashed s rule: inc_induct)
  case base
  then show ?case by (simp add: Let_def)
next
  case (step i)
  let ?p = "\<lambda>j. take cap (drop (j * cap - h) (value @ replicate z 0))" and ?o = "min (length value) (i * cap - h)"
  have c: "cap \<le> i * cap" "i * cap + cap \<le> k * cap" using step.hyps(2) step.prems
    by (simp, metis Suc_leI add.commute mult_Suc mult_le_mono1)
  have f: "fill cap (take cap (drop ?o value)) = ?p i" by (rule fill_pad) (use assms(1,2) c in linarith)
  have "Suc i * cap - h = (i * cap - h) + cap" unfolding mult_Suc using assms(2) c(1) by linarith
  then have o: "?o + length (take cap (drop ?o value)) = min (length value) (Suc i * cap - h)" unfolding length_take length_drop by linarith
  show ?case
    unfolding upt_conv_Cons [OF step.hyps(2)] write_followers.simps Let_def f o
    using step.IH [where hashed = "hashed @ [?p i]"] step.prems by (auto simp: Let_def split: prod.split sum.split)
qed

lemma run_head_eq:
  assumes "Validate cfg = None" "run_pages cfg (length value) < 2 ^ 32"
  shows "run_head cfg value = Inr (word_of_nat (run_pages cfg (length value)), head_start cfg,
    header_bytes TypeOverflow 0 (word_of_nat (run_pages cfg (length value) - 1)) @ replicate (head_start cfg - 8) 0 @
      take (page_len cfg - head_start cfg) (run_content cfg value))"
proof -
  let ?P = "page_len cfg" and ?h = "head_start cfg" and ?k = "run_pages cfg (length value)"
  have b: "?h \<le> ?P" "8 \<le> ?P" "8 \<le> ?h" using page_len_bounds(1) [OF assms(1)] head_start_bounds [of cfg] by linarith+
  obtain hd0 where w: "write_header (replicate ?P 0) TypeOverflow 0 (word_of_nat ?k - 1) = Inr hd0"
      "differs_in {0..<8} (replicate ?P 0) hd0" "holds hd0 0 (header_bytes TypeOverflow 0 (word_of_nat ?k - 1))"
    using write_header_holds [of "replicate ?P (0 :: byte)"] b(2) by (metis length_replicate)
  have k1: "(word_of_nat ?k :: u32) - 1 = word_of_nat (?k - 1)" using run_pages_bounds(1) [OF assms(1), of "length value"] by (simp add: of_nat_diff)
  have l: "length hd0 = ?P" using differs_len [OF w(2)] by simp
  have "hd0 = header_bytes TypeOverflow 0 (word_of_nat (?k - 1)) @ replicate (?P - 8) 0"
  proof (rule nth_equalityI)
    fix i assume i: "i < length hd0"
    show "hd0 ! i = (header_bytes TypeOverflow 0 (word_of_nat (?k - 1)) @ replicate (?P - 8) 0) ! i"
    proof (cases "i < 8")
      case True
      then show ?thesis using w(3) k1 by (auto simp: holds_nth nth_append)
    next
      case False
      then have "hd0 ! i = replicate ?P 0 ! i" using w(2) by (simp add: differs_in_def)
      then show ?thesis using False i l by (simp add: nth_append)
    qed
  qed (use l b in simp)
  moreover have "?P - 8 = (?h - 8) + (?P - ?h)" using b by linarith
  ultimately have hd0: "hd0 = (header_bytes TypeOverflow 0 (word_of_nat (?k - 1)) @ replicate (?h - 8) 0) @ replicate (?P - ?h) 0"
    by (simp add: replicate_add)
  have "copy_at hd0 ?h value = Inr (overwrite hd0 ?h (take (?P - ?h) value))" using l b by (simp add: copy_at_def)
  also have "overwrite hd0 ?h (take (?P - ?h) value) = (header_bytes TypeOverflow 0 (word_of_nat (?k - 1)) @ replicate (?h - 8) 0) @ fill (?P - ?h) value"
    unfolding overwrite_def hd0 fill_def using b by (simp add: min_def)
  also have "fill (?P - ?h) value = take (?P - ?h) (run_content cfg value)"
  proof -
    define q where "q = ?k * ?P"
    have "?P \<le> q" using run_pages_bounds(1) [OF assms(1), of "length value"] by (simp add: q_def)
    moreover have "?h + length value \<le> q" unfolding q_def by (rule run_pages_bounds(2) [OF assms(1)])
    ultimately have "?P - ?h - length value \<le> q - ?h - length value" by linarith
    then show ?thesis unfolding fill_def run_content_def q_def [symmetric] by (simp add: min_def)
  qed
  finally show ?thesis
    unfolding run_head_def using assms(1) w(1) run_length_exact(1) [OF assms] by (simp add: overflow_geometry [OF assms(1)])
qed

lemma chop_pages:
  "0 < k \<Longrightarrow> h \<le> P \<Longrightarrow> length bs = k * P - h \<Longrightarrow>
   take (P - h) bs @ concat (map (\<lambda>j. take P (drop (j * P - h) bs)) [1..<k]) = (bs :: 'a list)"
proof (induction k arbitrary: bs rule: nat_induct_non_zero)
  case (Suc k)
  let ?f = "\<lambda>j xs. take P (drop (j * P - h) xs)"
  have kP: "P \<le> k * P" using Suc.hyps by simp
  have u: "[1..<Suc k] = [1..<k] @ [k]" using Suc.hyps by simp
  have "take (P - h) (take (k * P - h) bs) @ concat (map (\<lambda>j. ?f j (take (k * P - h) bs)) [1..<k]) = take (k * P - h) bs"
    using Suc.prems kP by (intro Suc.IH) (simp_all del: mult_le_cancel1 mult_le_cancel2)
  moreover have "?f j (take (k * P - h) bs) = ?f j bs" if "j \<in> set [1..<k]" for j
  proof -
    have "P \<le> j * P" "j * P + P \<le> k * P" using that by (simp, metis Suc_leI add.commute atLeastLessThan_iff mult_Suc mult_le_mono1 set_upt)
    then have "P \<le> (k * P - h) - (j * P - h)" using Suc.prems(1) by linarith
    then show ?thesis by (simp add: drop_take min_def)
  qed
  then have "map (\<lambda>j. ?f j (take (k * P - h) bs)) [1..<k] = map (\<lambda>j. ?f j bs) [1..<k]" by (intro map_cong) simp_all
  moreover have "take (P - h) (take (k * P - h) bs) = take (P - h) bs" using diff_le_mono [OF kP, of h] by (simp only: take_take min_absorb1)
  ultimately have t: "take (P - h) bs @ concat (map (\<lambda>j. ?f j bs) [1..<k]) = take (k * P - h) bs" by (simp only:)
  have "?f k bs = drop (k * P - h) bs" using Suc.prems kP by simp
  then show ?case unfolding u using t by (simp add: append_assoc [symmetric] del: append_assoc)
qed simp

text \<open>
  Writing a run is sending its image page by page, the head last, and nothing else; the digest in the
  head is the one a reader recomputes.
\<close>

lemma write_run_sends:
  assumes "Validate cfg = None" "run_pages cfg (length value) < 2 ^ 32" "\<And>cs. stream cs = xxh3 (concat cs)"
  shows "WriteOverflowRun stream cfg value write s =
    send write (map (\<lambda>i. (i, run_page cfg (run_image xxh3 cfg value) i)) ([1..<run_pages cfg (length value)] @ [0])) s"
proof -
  let ?P = "page_len cfg" and ?h = "head_start cfg" and ?k = "run_pages cfg (length value)" and ?c = "run_content cfg value"
  let ?img = "run_image xxh3 cfg value" and ?hd = "header_bytes TypeOverflow 0 (word_of_nat (?k - 1)) @ replicate (?h - 8) 0 @ take (?P - ?h) ?c"
  define z where "z = ?k * ?P - ?h - length value"
  have b: "?h \<le> ?P" "8 \<le> ?h" "1 \<le> ?k" "?P \<le> ?k * ?P"
    using page_len_bounds(1) [OF assms(1)] head_start_bounds [of cfg] run_pages_bounds(1) [OF assms(1), of "length value"] by simp_all
  have z: "length value + z = ?k * ?P - ?h" using run_pages_bounds(2) [OF assms(1), of "length value"] by (simp add: z_def)
  have c: "?c = value @ replicate z 0" by (simp add: run_content_def z_def)
  have u: "unat (word_of_nat ?k :: u32) = ?k" using assms(2) by (simp add: unat_of_nat)
  have pg: "run_page cfg ?img i = take ?P (drop (i * ?P - ?h) ?c)" if "1 \<le> i" for i
  proof -
    have "?P \<le> i * ?P" using that by simp
    then have "?h \<le> i * ?P" using b(1) by linarith
    then have "drop (i * ?P) ?img = drop (i * ?P - ?h) ?c" by (simp add: run_image_def)
    then show ?thesis by (simp add: run_page_def)
  qed
  have pg0: "run_page cfg ?img 0 = run_prefix cfg ?k (xxh3 ?c) @ take (?P - ?h) ?c" using b(1) by (simp add: run_page_def run_image_def)
  have hash: "concat (take (?P - ?h) ?c # map (\<lambda>j. take ?P (drop (j * ?P - ?h) ?c)) [1..<?k]) = ?c"
    using chop_pages [of ?k ?h ?P ?c] b length_run_content [OF assms(1)] by simp
  have seal: "seal_head cfg ?hd (xxh3 ?c) = Inr (run_page cfg ?img 0)"
  proof (cases "PageChecksum cfg")
    case True
    then have "?h = 16" by (simp add: head_start_def)
    moreover have "put_at (header_bytes TypeOverflow 0 (word_of_nat (?k - 1)) @ replicate 8 0 @ t) 8 (w64 v) =
        Inr (header_bytes TypeOverflow 0 (word_of_nat (?k - 1)) @ w64 v @ t)" for v t
      by (simp add: put_at_def overwrite_def del: le_bytes.simps replicate.simps)
    ultimately show ?thesis
      using True by (simp add: seal_head_def SetOverflowRunDigest_def overflowDigestOff_def HeaderSize_def pg0 run_prefix_def del: le_bytes.simps)
  next
    case False
    then show ?thesis by (simp add: seal_head_def pg0 run_prefix_def head_start_def)
  qed
  have dh: "drop ?h ?hd = take (?P - ?h) ?c" using b(2) by simp
  have m: "min (length value) (?P - ?h) = min (length value) (1 * ?P - ?h)" by simp
  have fm: "map (\<lambda>j. (j, take ?P (drop (j * ?P - ?h) ?c))) [1..<?k] = map (\<lambda>i. (i, run_page cfg ?img i)) [1..<?k]"
    using pg by (intro map_cong) auto
  show ?thesis
    unfolding WriteOverflowRun_def run_head_eq [OF assms(1,2)] Let_def sum.case prod.case u dh m
      write_followers_eq [OF z b(1) b(3) order_refl] map_append send_append c [symmetric] fm
    using seal hash by (auto simp: assms(3) split: prod.split sum.split)
qed

end
