(* ===== verification/Tree_Safe.thy ===== *)
theory Tree_Safe
  imports Tree_Read Overflow_Run Leaf_Safe_Seg
begin

text \<open>
  Robustness of the lookups: what the tree relies on from the reader of its pages, as a locale, and
  what follows for any bytes the pages hold. Nothing is assumed of the pages but their size, so the
  lemmas cover damaged and forged files.
\<close>

section \<open>Search results\<close>

lemma panics_Inl: "panics (Inl e :: node_err + 'a) \<longleftrightarrow> e = PanicCall \<or> (\<exists>p. e = Panic p)"
  by (cases e) simp_all

lemma bsearch_range: "bsearch p lo hi = Inr x \<Longrightarrow> lo \<le> hi \<Longrightarrow> lo \<le> x \<and> x \<le> hi"
proof (induction "hi - lo" arbitrary: lo hi rule: less_induct)
  case less
  show ?case
  proof (cases "lo < hi")
    case True
    let ?m = "(lo + hi) div 2"
    have m: "lo \<le> ?m" "?m < hi" using True by auto
    obtain c where c: "p ?m = Inr c" using less.prems(1) True by (subst (asm) bsearch.simps) (auto simp: Let_def split: sum.splits)
    have "(if c then bsearch p lo ?m else bsearch p (?m + 1) hi) = Inr x"
      using less.prems(1) True c by (subst (asm) bsearch.simps) (cases c; simp add: Let_def)
    moreover have "hi - (?m + 1) < hi - lo" "?m - lo < hi - lo" "?m + 1 \<le> hi" using m by linarith+
    ultimately show ?thesis using less.hyps [of hi "?m + 1"] less.hyps [of ?m lo] m by (cases c) force+
  next
    case False
    then show ?thesis using less.prems by (subst (asm) bsearch.simps) auto
  qed
qed

lemma branch_search_range:
  assumes "BranchSearch buf cfg target tail = Inr i" "BranchCellCount buf = Inr n"
  shows "i \<le> n"
proof -
  obtain ty fl count ad where h: "read_header buf = Inr (ty, fl, count, ad)" "n = unat count"
    using assms(2) by (auto simp: BranchCellCount_def bind_res_Inr_iff split: if_splits)
  show ?thesis
    using assms h bsearch_range [of "plain_probe buf target tail" 0 n i] bsearch_range [of "seg_probe buf cfg _ n target tail" 0 n i]
    by (auto simp: BranchSearch_def segBranchSearch_def is_segregated_def bind_res_Inr_iff Let_def split: if_splits)
qed

section \<open>Validation\<close>

lemma all_ok_no_panic: "(\<And>x. x \<in> set xs \<Longrightarrow> \<not> panics (f x)) \<Longrightarrow> \<not> panics (all_ok f xs)"
  by (induction xs) (auto simp: panics_bind)

lemma slots_no_panic: "(\<And>i. i \<in> set is \<Longrightarrow> \<not> panics (segBranchDirSlot buf i)) \<Longrightarrow> \<not> panics (slots_monotone buf is prev)"
  by (induction "is" arbitrary: prev) (auto simp: panics_bind)

lemma plain_cell_ok_no_panic:
  assumes "content_end cfg \<le> length buf" "16 + i * 4 + 4 \<le> content_end cfg"
  shows "\<not> panics (plain_cell_ok buf cfg d i)"
proof -
  have "\<not> panics (dir_entry buf i)" using assms by (simp add: dir_entry_def panics_bind u16_at_def branch_sizes)
  then show ?thesis using assms
    by (auto simp: plain_cell_ok_def panics_bind Let_def u64_at_def u32_at_def branchCellChildSkip_def branch_sizes)
qed

lemma seg_cell_ok_no_panic:
  assumes "content_end cfg \<le> length buf" "\<And>j. j \<le> n \<Longrightarrow> \<exists>o'. segBranchDirSlot buf j = Inr o' \<and> 22 + 2 * n + o' + m + 8 * n \<le> content_end cfg"
    and "i < n" "m \<le> inline_max cfg"
  shows "\<not> panics (seg_cell_ok buf cfg m n i)"
proof -
  obtain o1 o2 where o: "segBranchDirSlot buf i = Inr o1" "segBranchDirSlot buf (i + 1) = Inr o2" "22 + 2 * n + o2 + m + 8 * n \<le> content_end cfg"
    using assms(2) [of i] assms(2) [of "i + 1"] assms(3) by auto
  have co: "segBranchChildOff (content_end cfg) m n i = int (content_end cfg - m - 8 * (n - i))"
    using o(3) assms(3) by (simp add: segBranchChildOff_def of_nat_diff)
  have "content_end cfg - m - 8 * (n - i) + 8 \<le> length buf" using o(3) assms(1,3) by linarith
  then obtain raw where raw: "segBranchChildRaw buf (content_end cfg) m n i = Inr raw" by (simp add: segBranchChildRaw_def co read_ok)
  have "22 + 2 * n + o1 + (nat (int o2 - int o1) - 12) + 12 \<le> length buf" if "int o2 - int o1 = int (inline_max cfg) - int m + 12"
    using that o(3) assms(1,4) by linarith
  then show ?thesis using o raw
    by (auto simp: seg_cell_ok_def Let_def panics_bind hb_eq branchKeyExtRefSize_def u64_at_def u32_at_def split: if_splits)
qed

lemma branch_validation_total:
  assumes "Validate cfg = None" "length buf = page_len cfg"
  shows "\<not> panics (ValidateBranch buf cfg)"
proof -
  have l: "content_end cfg \<le> length buf" "4088 \<le> content_end cfg" using page_bounds(1,2) [OF assms(1)] assms(2) by simp_all
  obtain ty fl count ad where h: "read_header buf = Inr (ty, fl, count, ad)"
    using l by (simp add: read_header_def lift_panic_def ReadHeader_def HeaderSize_def)
  have pl: "\<not> panics (all_ok (plain_cell_ok buf cfg d) [0..<unat count])" if "16 + unat count * 4 \<le> content_end cfg" for d
    using that by (intro all_ok_no_panic plain_cell_ok_no_panic l) auto
  have "\<not> panics (segValidateBranch buf cfg)"
  proof -
    obtain m where m: "segBranchPrefixLen buf = Inr m" using l by (auto simp: segBranchPrefixLen_def u32_at_def u16_at_def branch_sizes)
    have slot: "\<not> panics (segBranchDirSlot buf i)" if "int (22 + 2 * unat count) \<le> int (content_end cfg) - int m - 8 * int (unat count)" "i \<le> unat count" for i
    proof -
      have "22 + 2 * i \<le> length buf" using that l by linarith
      then show ?thesis by (simp add: segBranchDirSlot_def u16_at_def branch_sizes)
    qed
    have cells: "\<not> panics (all_ok (seg_cell_ok buf cfg m (unat count)) [0..<unat count])"
      if q: "m \<le> inline_max cfg" "slots_monotone buf [0..<unat count + 1] 0 = Inr ()" "segBranchDirSlot buf (unat count) = Inr last"
        "int (22 + 2 * unat count + last) \<le> int (content_end cfg) - int m - 8 * int (unat count)" for last
    proof (intro all_ok_no_panic seg_cell_ok_no_panic l q)
      fix x j assume "x \<in> set [0..<unat count]" "j \<le> unat count"
      obtain slot where s: "\<forall>i. 0 \<le> i \<and> i < unat count + 1 \<longrightarrow> segBranchDirSlot buf i = Inr (slot i) \<and> 0 \<le> slot i"
          "\<forall>i. 0 \<le> i \<and> i + 1 < unat count + 1 \<longrightarrow> slot i \<le> slot (i + 1)"
        using slots_monotone_reads [OF q(2)] by (elim exE conjE)
      have "slot j \<le> slot (unat count)" using \<open>j \<le> unat count\<close> s(2) by (induction rule: inc_induct) (auto intro: order_trans)
      moreover have "slot (unat count) = last" using s(1) q(3) by simp
      ultimately have "22 + 2 * unat count + slot j + m + 8 * unat count \<le> content_end cfg" using q(4) by linarith
      then show "\<exists>o'. segBranchDirSlot buf j = Inr o' \<and> 22 + 2 * unat count + o' + m + 8 * unat count \<le> content_end cfg"
        using s(1) \<open>j \<le> unat count\<close> by (intro exI [of _ "slot j"]) simp
    qed auto
    show ?thesis
      unfolding segValidateBranch_def Let_def hb_eq using l h m slot cells
      by (auto simp: panics_bind not_less intro!: slots_no_panic)
  qed
  then show ?thesis using l h pl by (auto simp: ValidateBranch_def Let_def branch_sizes)
qed

section \<open>The reader\<close>

text \<open>
  A page reader answers with pages of the configured size and with whole runs, headed by an overflow
  header that states their length; or it fails with an error of its own, but it does not panic.
\<close>

locale page_reader =
  fixes reader :: "'s \<Rightarrow> PageReader" and good :: "'s \<Rightarrow> bool" and conf :: "'s \<Rightarrow> Config"
  assumes conf_valid: "good s \<Longrightarrow> Validate (conf s) = None"
    and page_total: "good s \<Longrightarrow> \<not> panics (rd_Page (reader s) i)"
    and page_size: "good s \<Longrightarrow> rd_Page (reader s) i = Inr buf \<Longrightarrow> length buf = page_len (conf s)"
    and run_total: "good s \<Longrightarrow> \<not> panics (rd_PageRun (reader s) i)"
    and run_whole: "good s \<Longrightarrow> rd_PageRun (reader s) i = Inr run \<Longrightarrow>
      \<exists>additional. DecodeOverflowFirstPage run = Inr additional \<and> length run = (unat additional + 1) * page_len (conf s)"
begin

lemma run_extent_total:
  assumes "good s"
  shows "\<not> panics (readRunExtent (reader s) (conf s) headID extentLen)"
    "readRunExtent (reader s) (conf s) headID extentLen = Inr bs \<Longrightarrow> length bs = unat extentLen"
proof -
  note v = conf_valid [OF assms]
  have "\<not> panics (readRunExtent (reader s) (conf s) headID extentLen) \<and>
      (\<forall>bs. readRunExtent (reader s) (conf s) headID extentLen = Inr bs \<longrightarrow> length bs = unat extentLen)"
  proof (cases "rd_PageRun (reader s) headID")
    case (Inl e)
    then show ?thesis using run_total [OF assms, of headID] by (simp add: readRunExtent_def panics_Inl)
  next
    case (Inr run)
    obtain additional where d: "DecodeOverflowFirstPage run = Inr additional" "length run = (unat additional + 1) * page_len (conf s)"
      using run_whole [OF assms Inr] by blast
    have "page_len (conf s) \<le> length run" by (simp add: d(2))
    then have "head_start (conf s) \<le> length run" using page_len_bounds(1) [OF v] head_start_bounds(2) [of "conf s"] by linarith
    then obtain ext where e: "OverflowRunExtent run (conf s) = Inr ext" "length ext = length run - head_start (conf s)"
      by (auto simp: OverflowRunExtent_def overflow_geometry [OF v] slice_def field_def)
    have "(unat additional + 1) * page_len (conf s) \<le> 2 ^ 32 * 65536"
      using unsigned_less [of additional, where ?'a = nat] page_len_bounds(2) [OF v] by (intro mult_mono) simp_all
    then have "length ext < 2 ^ 64" using d(2) e(2) by simp
    then have "unat (word_of_nat (length ext) :: u64) = length ext" by (simp add: unat_of_nat)
    then show ?thesis using Inr d(1) e(1) run_length64(1) [OF v]
      by (auto simp: readRunExtent_def slice_def field_def word_less_nat_alt not_less)
  qed
  then show "\<not> panics (readRunExtent (reader s) (conf s) headID extentLen)"
    "readRunExtent (reader s) (conf s) headID extentLen = Inr bs \<Longrightarrow> length bs = unat extentLen" by blast+
qed

lemma key_tail_total:
  assumes "good s" "inline_max (conf s) < length target"
  shows "\<not> panics (keyTail (reader s) (conf s) target ext tot)"
proof -
  note v = conf_valid [OF assms(1)]
  have t: "0 \<le> InlineThreshold (conf s)" using page_bounds(5) [OF v] by linarith
  define m where "m = int (unat tot) - InlineThreshold (conf s)"
  have "unat (word_of_int m :: u64) = nat m" if "0 < m"
  proof -
    have "m < 2 ^ 64" using t unsigned_less [of tot, where ?'a = int] by (simp add: m_def)
    then show ?thesis using that by (simp add: unat_eq_nat_uint uint_word_of_int_eq take_bit_int_eq_self)
  qed
  then have l: "length bs = nat m" if "readRunExtent (reader s) (conf s) ext (word_of_int m) = Inr bs" "0 < m" for bs
    using run_extent_total(2) [OF assms(1) that(1)] that(2) by simp
  show ?thesis
    unfolding keyTail_def Let_def m_def [symmetric]
    using assms(2) run_extent_total(1) [OF assms(1), of ext "word_of_int m"] l by (auto simp: panics_bind slice_def field_def)
qed

lemma branch_step_total:
  assumes "good s" "rd_Page (reader s) i = Inr buf"
  shows "\<not> panics (branch_step (reader s) (conf s) buf key)"
proof (cases "ValidateBranch buf (conf s) = Inr ()")
  case True
  obtain n where n: "BranchCellCount buf = Inr n" "\<forall>i \<le> n. \<not> panics (BranchChildAt buf (conf s) i)"
      "\<not> panics (BranchSearch buf (conf s) key (keyTail (reader s) (conf s)))"
    using validated_reads [OF True conf_valid [OF assms(1)], of key "keyTail (reader s) (conf s)"] key_tail_total [OF assms(1)] by blast
  then show ?thesis using branch_search_range [OF _ n(1)] True by (auto simp: branch_step_def validateBranchPage_def panics_bind)
next
  case False
  have "\<not> panics (ValidateBranch buf (conf s))" using branch_validation_total [OF conf_valid [OF assms(1)]] page_size [OF assms] by simp
  then show ?thesis using False by (auto simp: branch_step_def validateBranchPage_def panics_bind)
qed

lemma search_leaf_total:
  assumes "good s" "rd_Page (reader s) i = Inr buf" "read_header buf = Inr (ty, fl, n, ad)" "IsLeafType ty"
  shows "\<not> panics (search_leaf (reader s) (conf s) buf key)"
proof -
  note v = conf_valid [OF assms(1)]
  obtain r where r: "NewLeafReader buf (conf s) = Inr r" using NewLeafReader_no_panic [OF v page_size [OF assms(1,2)] assms(3,4)] by blast
  note o = NewLeafReader_opened(1) [OF r v]
  have "ValidateLeaf r = Inr () \<Longrightarrow> \<not> panics (SearchLeaf r key (keyTail (reader s) (conf s)))"
    by (rule validated_leaf_searches [OF o]) (use key_tail_total [OF assms(1)] in auto)
  then show ?thesis using r leaf_validation_total [OF o] by (auto simp: search_leaf_def panics_bind)
qed

lemma page_header:
  assumes "good s" "rd_Page (reader s) i = Inr buf"
  shows "\<exists>ty fl n ad. read_header buf = Inr (ty, fl, n, ad)"
  using page_size [OF assms] page_len_bounds(1) [OF conf_valid [OF assms(1)]]
  by (simp add: read_header_def lift_panic_def ReadHeader_def HeaderSize_def)

lemma read_value_total: "good s \<Longrightarrow> \<not> panics (readOverflowValue (reader s) (conf s) e)"
  using run_extent_total(1) by (simp add: readOverflowValue_def)

lemma get_loop_total: "good s \<Longrightarrow> \<not> panics (get_loop (reader s) (conf s) key fuel cur)"
proof (induction fuel arbitrary: cur)
  case (Suc fuel)
  show ?case
  proof (cases "rd_Page (reader s) cur")
    case (Inr buf)
    obtain ty fl n ad where h: "read_header buf = Inr (ty, fl, n, ad)" using page_header [OF Suc.prems Inr] by blast
    show ?thesis
      using Inr h Suc branch_step_total [OF Suc.prems Inr, of key] search_leaf_total [OF Suc.prems Inr h, of key] read_value_total [OF Suc.prems]
      by (auto simp: panics_bind)
  qed (use page_total [OF Suc.prems, of cur] in \<open>simp add: panics_Inl\<close>)
qed simp

lemma has_loop_total: "good s \<Longrightarrow> \<not> panics (has_loop (reader s) (conf s) key fuel cur)"
proof (induction fuel arbitrary: cur)
  case (Suc fuel)
  show ?case
  proof (cases "rd_Page (reader s) cur")
    case (Inr buf)
    obtain ty fl n ad where h: "read_header buf = Inr (ty, fl, n, ad)" using page_header [OF Suc.prems Inr] by blast
    show ?thesis
      using Inr h Suc branch_step_total [OF Suc.prems Inr, of key] search_leaf_total [OF Suc.prems Inr h, of key] by (auto simp: panics_bind)
  qed (use page_total [OF Suc.prems, of cur] in \<open>simp add: panics_Inl\<close>)
qed simp

lemma descend_loop_total: "good s \<Longrightarrow> \<not> panics (descend_loop (reader s) (conf s) key fuel path cur rm)"
proof (induction fuel arbitrary: cur path rm)
  case (Suc fuel)
  show ?case
  proof (cases "rd_Page (reader s) cur")
    case (Inr buf)
    obtain ty fl n ad where h: "read_header buf = Inr (ty, fl, n, ad)" using page_header [OF Suc.prems Inr] by blast
    have "IsBranchType ty \<Longrightarrow> \<not> panics (BranchCellCount buf)" using h by (simp add: BranchCellCount_def)
    then show ?thesis using Inr h Suc branch_step_total [OF Suc.prems Inr, of key] by (auto simp: panics_bind)
  qed (use page_total [OF Suc.prems, of cur] in \<open>simp add: panics_Inl\<close>)
qed simp

text \<open>Every lookup and the descent of a write end in an answer or an error, on any pages.\<close>

lemma lookups_total:
  assumes "good s"
  shows "\<not> panics (Get (reader s) (conf s) root key)" "\<not> panics (Has (reader s) (conf s) root key)"
    "\<not> panics (descendToLeafForKey (reader s) (conf s) root key)"
  unfolding Get_def Has_def descendToLeafForKey_def
  using get_loop_total [OF assms] has_loop_total [OF assms] descend_loop_total [OF assms] by (simp_all del: get_loop.simps has_loop.simps descend_loop.simps)

end

end
