(* ===== verification/Leaf_Iter.thy ===== *)
theory Leaf_Iter
  imports Leaf
begin

text \<open>
  The leaf iterator: \<^verbatim>\<open>src/internal/page/leaf_iter.go\<close> and the positioned lookups of \<^verbatim>\<open>leaf.go\<close>,
  \<^verbatim>\<open>leaf_uncompressed.go\<close>, \<^verbatim>\<open>leaf_compressed.go\<close> and \<^verbatim>\<open>leaf_segregated.go\<close>. A returned key is the byte
  string at the time of the return; the scratch buffers that hold it between two calls are storage
  only and are left out. An iterator move returns the entry, if there is one, and the new iterator.
\<close>

section \<open>State\<close>

record LeafIter =
  it_r :: LeafReader
  it_idx :: nat
  it_startIdx :: nat
  it_endIdx :: nat
  it_off :: nat
  it_variant :: byte
  it_prevKey :: bytes
  it_nextRestart :: nat
  it_groupIdx :: int
  it_segEndVOff :: nat
  it_buffered :: bool
  it_bufStart :: nat
  it_bufEnd :: nat
  it_bufGroup :: int
  it_bufEnts :: "LeafEntry list"

definition new_iter :: "LeafReader \<Rightarrow> LeafIter" where
  "new_iter r =
     \<lparr>it_r = r, it_idx = 0, it_startIdx = 0, it_endIdx = r_count r, it_off = 0, it_variant = r_variant r, it_prevKey = [],
       it_nextRestart = 0, it_groupIdx = 0, it_segEndVOff = 0, it_buffered = False, it_bufStart = 0, it_bufEnd = 0, it_bufGroup = 0,
       it_bufEnts = []\<rparr>"

fun find_group :: "restartTable \<Rightarrow> nat \<Rightarrow> nat list \<Rightarrow> nat \<Rightarrow> node_err + int" where
  "find_group rt entryIdx [] accum = Inr (int (restartCount rt) - 1)"
| "find_group rt entryIdx (g # gs) accum =
     bind_res (rt_GroupEntryCount rt (int g)) (\<lambda>gc. if accum + gc > entryIdx then Inr (int g) else find_group rt entryIdx gs (accum + gc))"

definition FindGroupContaining :: "restartTable \<Rightarrow> nat \<Rightarrow> node_err + int" where
  "FindGroupContaining rt entryIdx = find_group rt entryIdx [0..<restartCount rt] 0"

section \<open>Streaming\<close>

text \<open>
  The move in the streaming mode of the two compressed layouts, below the end of the range: the next
  entry is a restart or a delta on the key before it. In the segregated layout its value ends where
  the next value begins.
\<close>

definition seg_stream_next :: "LeafIter \<Rightarrow> node_err + LeafEntry \<times> LeafIter" where
  "seg_stream_next it =
     (let buf = r_buf (it_r it) in
      bind_res
        (if it_idx it = it_nextRestart it then
           bind_res (decodeSegRestart buf (it_off it)) (\<lambda>(flags, key, voff, off).
           bind_res (rt_GroupEntryCount (r_rt (it_r it)) (it_groupIdx it)) (\<lambda>gc.
           Inr (flags, key, voff, it\<lparr>it_off := off, it_prevKey := key, it_nextRestart := it_nextRestart it + gc, it_groupIdx := it_groupIdx it + 1\<rparr>)))
         else
           bind_res (decodeSegDelta buf (it_off it) (it_prevKey it)) (\<lambda>(flags, key, voff, off).
           Inr (flags, key, voff, it\<lparr>it_off := off, it_prevKey := key\<rparr>)))
        (\<lambda>(flags, key, voff, it1).
         bind_res
           (if it_idx it + 1 < it_endIdx it then segReadVOff buf (it_off it1) (it_idx it + 1 = it_nextRestart it1) else Inr (it_segEndVOff it))
           (\<lambda>vend.
            bind_res (segValueHalf buf (no_entry\<lparr>Flags := flags, Key := key\<rparr>) voff vend) (\<lambda>e.
            Inr (e, it1\<lparr>it_idx := it_idx it + 1\<rparr>)))))"

definition comp_stream_next :: "LeafIter \<Rightarrow> node_err + LeafEntry \<times> LeafIter" where
  "comp_stream_next it =
     (let buf = r_buf (it_r it) in
      if it_idx it = it_nextRestart it then
        bind_res (decodeFullKeyEntry buf (it_off it)) (\<lambda>(e, off).
        bind_res (rt_GroupEntryCount (r_rt (it_r it)) (it_groupIdx it)) (\<lambda>gc.
        Inr (e, it\<lparr>it_off := off, it_prevKey := Key e, it_nextRestart := it_nextRestart it + gc, it_groupIdx := it_groupIdx it + 1,
          it_idx := it_idx it + 1\<rparr>)))
      else
        bind_res (decodeDeltaEntry buf (it_off it) (it_prevKey it)) (\<lambda>(e, off).
        Inr (e, it\<lparr>it_off := off, it_prevKey := Key e, it_idx := it_idx it + 1\<rparr>)))"

definition stream_next :: "LeafIter \<Rightarrow> node_err + LeafEntry \<times> LeafIter" where
  "stream_next it = (if it_variant it = TypeLeafSegregated then seg_stream_next it else comp_stream_next it)"

section \<open>Groups\<close>

definition groupIter :: "LeafReader \<Rightarrow> int \<Rightarrow> node_err + LeafIter" where
  "groupIter r groupIdx =
     (if is_uc r then Inl PanicCall
      else
        bind_res (rt_GroupStartIndex (r_rt r) (nat groupIdx)) (\<lambda>startIdx.
        bind_res (rt_GroupEntryCount (r_rt r) groupIdx) (\<lambda>gc.
        bind_res (rt_Offset (r_rt r) groupIdx) (\<lambda>off.
        let it = (new_iter r)\<lparr>it_idx := startIdx, it_startIdx := startIdx, it_endIdx := startIdx + gc, it_off := off, it_nextRestart := startIdx,
          it_groupIdx := groupIdx\<rparr> in
        if is_seg r then
          if groupIdx + 1 < int (restartCount (r_rt r)) then
            bind_res (rt_Offset (r_rt r) (groupIdx + 1)) (\<lambda>o'.
            bind_res (segReadVOff (r_buf r) o' True) (\<lambda>v. Inr (it\<lparr>it_segEndVOff := v\<rparr>)))
          else Inr (it\<lparr>it_segEndVOff := r_valueEnd r\<rparr>)
        else Inr it))))"

text \<open>The next \<open>n\<close> entries of a streaming iterator.\<close>

fun drain :: "nat \<Rightarrow> LeafIter \<Rightarrow> node_err + LeafEntry list" where
  "drain 0 it = Inr []"
| "drain (Suc n) it = bind_res (stream_next it) (\<lambda>(e, it'). bind_res (drain n it') (\<lambda>es. Inr (e # es)))"

definition loadBufferedGroup :: "LeafIter \<Rightarrow> int \<Rightarrow> node_err + LeafIter" where
  "loadBufferedGroup it groupIdx =
     bind_res (rt_GroupStartIndex (r_rt (it_r it)) (nat groupIdx)) (\<lambda>groupStart.
     bind_res (rt_GroupEntryCount (r_rt (it_r it)) groupIdx) (\<lambda>count.
     bind_res (groupIter (it_r it) groupIdx) (\<lambda>gi.
     bind_res (drain (it_endIdx gi - it_idx gi) gi) (\<lambda>ents.
     Inr (it\<lparr>it_buffered := True, it_bufGroup := groupIdx, it_bufStart := groupStart, it_bufEnd := groupStart + count, it_bufEnts := ents\<rparr>)))))"

definition buf_ent :: "LeafIter \<Rightarrow> nat \<Rightarrow> node_err + LeafEntry" where
  "buf_ent it i =
     (if it_bufStart it \<le> i \<and> i - it_bufStart it < length (it_bufEnts it) then Inr (it_bufEnts it ! (i - it_bufStart it))
      else Inl (Panic PanicBounds))"

section \<open>Moves\<close>

definition iter_Next :: "LeafIter \<Rightarrow> node_err + LeafEntry option \<times> LeafIter" where
  "iter_Next it =
     (if it_idx it \<ge> it_endIdx it then Inr (None, it)
      else if it_variant it = TypeLeafUncompressed then
        bind_res (uc_entry (it_r it) (it_idx it)) (\<lambda>e. Inr (Some e, it\<lparr>it_idx := it_idx it + 1\<rparr>))
      else if it_buffered it then
        bind_res (if it_idx it \<ge> it_bufEnd it then loadBufferedGroup it (it_bufGroup it + 1) else Inr it) (\<lambda>it1.
        bind_res (buf_ent it1 (it_idx it)) (\<lambda>e. Inr (Some e, it1\<lparr>it_idx := it_idx it + 1\<rparr>)))
      else bind_res (stream_next it) (\<lambda>(e, it'). Inr (Some e, it')))"

text \<open>The buffered group that has entry \<open>i\<close>; only \<open>At\<close> takes the short cut to the group after.\<close>

definition buffer_for :: "bool \<Rightarrow> LeafIter \<Rightarrow> nat \<Rightarrow> node_err + LeafIter" where
  "buffer_for forward it i =
     (if \<not> it_buffered it \<or> i < it_bufStart it \<or> i \<ge> it_bufEnd it then
        bind_res
          (if \<not> it_buffered it then FindGroupContaining (r_rt (it_r it)) i
           else if i + 1 = it_bufStart it then Inr (it_bufGroup it - 1)
           else if forward \<and> i = it_bufEnd it then Inr (it_bufGroup it + 1)
           else FindGroupContaining (r_rt (it_r it)) i)
          (loadBufferedGroup it)
      else Inr it)"

definition iter_At :: "LeafIter \<Rightarrow> nat \<Rightarrow> node_err + LeafEntry option \<times> LeafIter" where
  "iter_At it idx =
     (if idx < it_startIdx it \<or> idx \<ge> it_endIdx it then Inr (None, it)
      else if it_variant it = TypeLeafUncompressed then
        bind_res (uc_entry (it_r it) idx) (\<lambda>e. Inr (Some e, it\<lparr>it_idx := idx + 1\<rparr>))
      else
        bind_res (buffer_for True it idx) (\<lambda>it1.
        bind_res (buf_ent it1 idx) (\<lambda>e. Inr (Some e, it1\<lparr>it_idx := idx + 1\<rparr>))))"

definition iter_Prev :: "LeafIter \<Rightarrow> node_err + LeafEntry option \<times> LeafIter" where
  "iter_Prev it =
     (if it_idx it \<le> it_startIdx it then Inr (None, it)
      else if it_idx it - 1 \<le> it_startIdx it then Inr (None, it)
      else
        let target = it_idx it - 2 in
        if it_variant it = TypeLeafUncompressed then
          bind_res (uc_entry (it_r it) target) (\<lambda>e. Inr (Some e, it\<lparr>it_idx := target + 1\<rparr>))
        else
          bind_res (buffer_for False it target) (\<lambda>it1.
          bind_res (buf_ent it1 target) (\<lambda>e. Inr (Some e, it1\<lparr>it_idx := target + 1\<rparr>))))"

section \<open>Construction\<close>

definition IterForReuse :: "LeafReader \<Rightarrow> LeafIter" where
  "IterForReuse r =
     (if r_variant r = TypeLeaf then (new_iter r)\<lparr>it_off := leafEntryStart\<rparr>
      else if r_variant r = TypeLeafSegregated then (new_iter r)\<lparr>it_off := segLeafEntryStart, it_segEndVOff := r_valueEnd r\<rparr>
      else new_iter r)"

fun group_of :: "restartTable \<Rightarrow> nat \<Rightarrow> nat list \<Rightarrow> nat \<Rightarrow> node_err + nat \<times> nat" where
  "group_of rt startIdx [] accum = Inr (0, accum)"
| "group_of rt startIdx (g # gs) accum =
     bind_res (rt_GroupEntryCount rt (int g)) (\<lambda>gc. if accum + gc > startIdx then Inr (g, accum) else group_of rt startIdx gs (accum + gc))"

fun skip_entries :: "nat \<Rightarrow> LeafIter \<Rightarrow> node_err + LeafIter" where
  "skip_entries 0 it = Inr it"
| "skip_entries (Suc n) it = bind_res (iter_Next it) (\<lambda>(_, it'). skip_entries n it')"

definition past_end :: "LeafReader \<Rightarrow> LeafIter" where
  "past_end r = (new_iter r)\<lparr>it_idx := r_count r, it_segEndVOff := r_valueEnd r\<rparr>"

definition IterAtForReuse :: "LeafReader \<Rightarrow> nat \<Rightarrow> node_err + LeafIter" where
  "IterAtForReuse r startIdx =
     (if startIdx \<ge> r_count r then Inr (past_end r)
      else if is_uc r then Inr ((new_iter r)\<lparr>it_idx := startIdx\<rparr>)
      else
        bind_res (group_of (r_rt r) startIdx [0..<restartCount (r_rt r)] 0) (\<lambda>(groupIdx, accum).
        bind_res (rt_Offset (r_rt r) (int groupIdx)) (\<lambda>off.
        skip_entries (startIdx - accum)
          ((new_iter r)\<lparr>it_idx := accum, it_off := off, it_segEndVOff := r_valueEnd r, it_nextRestart := accum, it_groupIdx := int groupIdx\<rparr>))))"

section \<open>Positioned lookup\<close>

text \<open>An iterator past entry \<open>idx\<close>, whose key is \<open>key\<close>, in the streaming mode.\<close>

definition iter_past :: "LeafReader \<Rightarrow> nat \<Rightarrow> nat \<Rightarrow> bytes \<Rightarrow> nat \<Rightarrow> int \<Rightarrow> LeafIter" where
  "iter_past r idx off key nextRestart groupIdx =
     (new_iter r)\<lparr>it_idx := idx + 1, it_off := off, it_prevKey := key, it_nextRestart := nextRestart, it_groupIdx := groupIdx,
       it_segEndVOff := (if is_seg r then r_valueEnd r else 0)\<rparr>"

definition ucSearchLeafIter :: "LeafReader \<Rightarrow> bytes \<Rightarrow> TailCompare \<Rightarrow> node_err + nat \<times> LeafEntry \<times> bool \<times> LeafIter" where
  "ucSearchLeafIter r target tail =
     bind_res (bsearch3 (\<lambda>mid. bind_res (uc_entry r mid) (\<lambda>e. compareEntryKey e target tail)) 0 (r_count r)) (\<lambda>(i, found).
     if found then bind_res (uc_entry r i) (\<lambda>e. Inr (i, e\<lparr>Key := []\<rparr>, True, (new_iter r)\<lparr>it_idx := i + 1\<rparr>))
     else if i \<ge> r_count r then Inr (r_count r, no_entry, False, (new_iter r)\<lparr>it_idx := r_count r\<rparr>)
     else bind_res (uc_entry r i) (\<lambda>e. Inr (i, e, False, (new_iter r)\<lparr>it_idx := i + 1\<rparr>)))"

definition iterFromGroupRestart :: "LeafReader \<Rightarrow> nat \<Rightarrow> node_err + nat \<times> LeafEntry \<times> bool \<times> LeafIter" where
  "iterFromGroupRestart r groupIdx =
     bind_res (rt_GroupStartIndex (r_rt r) groupIdx) (\<lambda>groupStart.
     bind_res (rt_GroupEntryCount (r_rt r) (int groupIdx)) (\<lambda>gc.
     bind_res (restart_entry r (int groupIdx)) (\<lambda>(e, off).
     Inr (groupStart, e, False, iter_past r groupStart off (Key e) (groupStart + gc) (int groupIdx + 1)))))"

text \<open>The walk over the remaining \<open>n\<close> deltas of a group; no entry if all of them are below the target.\<close>

fun comp_iter_walk :: "LeafReader \<Rightarrow> bytes \<Rightarrow> nat \<Rightarrow> int \<Rightarrow> nat \<Rightarrow> nat \<Rightarrow> nat \<Rightarrow> bytes \<Rightarrow> node_err + (nat \<times> LeafEntry \<times> bool \<times> LeafIter) option" where
  "comp_iter_walk r target nextRestart grp 0 idx off prevKey = Inr None"
| "comp_iter_walk r target nextRestart grp (Suc n) idx off prevKey =
     bind_res (decodeDeltaEntry (r_buf r) off prevKey) (\<lambda>(e, off').
     let cmp = Compare (Key e) target; it = iter_past r idx off' (Key e) nextRestart (grp + 1) in
     if cmp = 0 then Inr (Some (idx, e\<lparr>Key := []\<rparr>, True, it))
     else if cmp > 0 then Inr (Some (idx, e, False, it))
     else comp_iter_walk r target nextRestart grp n (idx + 1) off' (Key e))"

definition compressedSearchLeafIter :: "LeafReader \<Rightarrow> bytes \<Rightarrow> TailCompare \<Rightarrow> node_err + nat \<times> LeafEntry \<times> bool \<times> LeafIter" where
  "compressedSearchLeafIter r target tail =
     bind_res (bsearch3 (\<lambda>mid. bind_res (restart_entry r (int mid)) (\<lambda>(e, _). compareEntryKey e target tail)) 0 (restartCount (r_rt r))) (\<lambda>(lo, found).
     if found then
       bind_res (restart_entry r (int lo)) (\<lambda>(e, off).
       bind_res (rt_GroupStartIndex (r_rt r) lo) (\<lambda>idx.
       bind_res (rt_GroupEntryCount (r_rt r) (int lo)) (\<lambda>gc.
       Inr (idx, e\<lparr>Key := []\<rparr>, True, iter_past r idx off (Key e) (idx + gc) (int lo + 1)))))
     else if lo = 0 then iterFromGroupRestart r 0
     else
       bind_res (rt_GroupStartIndex (r_rt r) (lo - 1)) (\<lambda>startIdx.
       bind_res (rt_GroupEntryCount (r_rt r) (int lo - 1)) (\<lambda>gc.
       bind_res (restart_entry r (int lo - 1)) (\<lambda>(re, off).
       bind_res (comp_iter_walk r target (startIdx + gc) (int lo - 1) (gc - 1) (startIdx + 1) off (Key re)) (\<lambda>res.
       case res of
         Some x \<Rightarrow> Inr x
       | None \<Rightarrow>
           if startIdx + gc \<ge> r_count r then Inr (startIdx + gc, no_entry, False, (new_iter r)\<lparr>it_idx := r_count r\<rparr>)
           else iterFromGroupRestart r lo)))))"

definition segIterFromGroupRestart :: "LeafReader \<Rightarrow> nat \<Rightarrow> node_err + nat \<times> LeafEntry \<times> bool \<times> LeafIter" where
  "segIterFromGroupRestart r groupIdx =
     bind_res (rt_GroupStartIndex (r_rt r) groupIdx) (\<lambda>groupStart.
     bind_res (rt_GroupEntryCount (r_rt r) (int groupIdx)) (\<lambda>gc.
     bind_res (seg_restart r (int groupIdx)) (\<lambda>(flags, key, voff, off).
     bind_res (segNextVOff r groupStart off (gc = 1)) (\<lambda>vend.
     bind_res (segValueHalf (r_buf r) (no_entry\<lparr>Flags := flags, Key := key\<rparr>) voff vend) (\<lambda>e.
     Inr (groupStart, e, False, iter_past r groupStart off key (groupStart + gc) (int groupIdx + 1)))))))"

fun seg_iter_walk :: "LeafReader \<Rightarrow> bytes \<Rightarrow> nat \<Rightarrow> int \<Rightarrow> nat \<Rightarrow> nat \<Rightarrow> nat \<Rightarrow> bytes \<Rightarrow> node_err + (nat \<times> LeafEntry \<times> bool \<times> LeafIter) option" where
  "seg_iter_walk r target nextRestart grp 0 idx off prevKey = Inr None"
| "seg_iter_walk r target nextRestart grp (Suc n) idx off prevKey =
     bind_res (decodeSegDelta (r_buf r) off prevKey) (\<lambda>(flags, key, voff, off').
     let cmp = Compare key target in
     if cmp \<ge> 0 then
       bind_res (segNextVOff r idx off' (n = 0)) (\<lambda>vend.
       bind_res (segValueHalf (r_buf r) (no_entry\<lparr>Flags := flags\<rparr>) voff vend) (\<lambda>e.
       let it = iter_past r idx off' key nextRestart (grp + 1) in
       if cmp = 0 then Inr (Some (idx, e, True, it)) else Inr (Some (idx, e\<lparr>Key := key\<rparr>, False, it))))
     else seg_iter_walk r target nextRestart grp n (idx + 1) off' key)"

definition segSearchLeafIter :: "LeafReader \<Rightarrow> bytes \<Rightarrow> TailCompare \<Rightarrow> node_err + nat \<times> LeafEntry \<times> bool \<times> LeafIter" where
  "segSearchLeafIter r target tail =
     bind_res (bsearch3 (\<lambda>mid. bind_res (seg_probe_entry r mid) (\<lambda>e. compareEntryKey e target tail)) 0 (restartCount (r_rt r))) (\<lambda>(lo, found).
     if found then
       bind_res (seg_restart r (int lo)) (\<lambda>(flags, key, voff, off).
       bind_res (rt_GroupStartIndex (r_rt r) lo) (\<lambda>idx.
       bind_res (rt_GroupEntryCount (r_rt r) (int lo)) (\<lambda>gc.
       bind_res (segNextVOff r idx off (gc = 1)) (\<lambda>vend.
       bind_res (segValueHalf (r_buf r) (no_entry\<lparr>Flags := flags\<rparr>) voff vend) (\<lambda>e.
       Inr (idx, e, True, iter_past r idx off key (idx + gc) (int lo + 1)))))))
     else if lo = 0 then segIterFromGroupRestart r 0
     else
       bind_res (rt_GroupStartIndex (r_rt r) (lo - 1)) (\<lambda>startIdx.
       bind_res (rt_GroupEntryCount (r_rt r) (int lo - 1)) (\<lambda>gc.
       bind_res (seg_restart r (int lo - 1)) (\<lambda>(_, rkey, _, off).
       bind_res (seg_iter_walk r target (startIdx + gc) (int lo - 1) (gc - 1) (startIdx + 1) off rkey) (\<lambda>res.
       case res of
         Some x \<Rightarrow> Inr x
       | None \<Rightarrow> if startIdx + gc \<ge> r_count r then Inr (startIdx + gc, no_entry, False, past_end r) else segIterFromGroupRestart r lo)))))"

definition SearchLeafIter :: "LeafReader \<Rightarrow> bytes \<Rightarrow> TailCompare \<Rightarrow> node_err + nat \<times> LeafEntry \<times> bool \<times> LeafIter" where
  "SearchLeafIter r target tail =
     (if r_count r = 0 then Inr (0, no_entry, False, new_iter r)
      else if r_variant r = TypeLeafUncompressed then ucSearchLeafIter r target tail
      else if r_variant r = TypeLeafSegregated then segSearchLeafIter r target tail
      else compressedSearchLeafIter r target tail)"

end
