(* ===== verification/Leaf_Scan.thy ===== *)
theory Leaf_Scan
  imports Leaf_Iter Leaf_Props
begin

text \<open>
  The iterator walks the entries of a page in order, in both directions and from any position. The
  streaming and the buffered mode are handled once, for any layout whose restart table and streaming
  move behave as described; the two compressed layouts provide that, the uncompressed one needs no
  modes.
\<close>

declare push_bit_of_1 [simp del]

section \<open>Positions\<close>

text \<open>
  The state of a streaming iterator before entry \<open>starts gs g + m\<close>: \<open>pos\<close> is the offset of an entry
  and \<open>endv\<close> the end of the values before an entry.
\<close>

definition positioned :: "LeafEntry list list \<Rightarrow> (nat \<Rightarrow> nat) \<Rightarrow> LeafIter \<Rightarrow> nat \<Rightarrow> nat \<Rightarrow> bool" where
  "positioned gs pos it g m \<longleftrightarrow> g < length gs \<and> m < length (gs ! g) \<and> it_idx it = starts gs g + m \<and> it_off it = pos (it_idx it) \<and>
     (if m = 0 then it_nextRestart it = it_idx it \<and> it_groupIdx it = int g
      else it_nextRestart it = starts gs (Suc g) \<and> it_groupIdx it = int g + 1 \<and> it_prevKey it = Key (gs ! g ! (m - 1)))"

definition on_stream :: "LeafReader \<Rightarrow> LeafEntry list list \<Rightarrow> (nat \<Rightarrow> nat) \<Rightarrow> (nat \<Rightarrow> nat) \<Rightarrow> LeafIter \<Rightarrow> bool" where
  "on_stream r gs pos endv it \<longleftrightarrow> it_r it = r \<and> it_variant it = r_variant r \<and> it_endIdx it \<le> length (concat gs) \<and> it_idx it \<le> it_endIdx it \<and>
     (it_idx it < it_endIdx it \<longrightarrow> it_segEndVOff it = endv (it_endIdx it) \<and> (\<exists>g m. positioned gs pos it g m))"

text \<open>A streaming move changes the stream state only.\<close>

definition moved :: "LeafIter \<Rightarrow> nat \<Rightarrow> bytes \<Rightarrow> nat \<Rightarrow> int \<Rightarrow> LeafIter" where
  "moved it off key nr g = it\<lparr>it_off := off, it_prevKey := key, it_nextRestart := nr, it_groupIdx := g, it_idx := Suc (it_idx it)\<rparr>"

lemma moved_fields [simp]:
  "it_r (moved it off key nr g) = it_r it" "it_idx (moved it off key nr g) = Suc (it_idx it)" "it_startIdx (moved it off key nr g) = it_startIdx it"
  "it_endIdx (moved it off key nr g) = it_endIdx it" "it_variant (moved it off key nr g) = it_variant it" "it_buffered (moved it off key nr g) = it_buffered it"
  "it_segEndVOff (moved it off key nr g) = it_segEndVOff it" "it_off (moved it off key nr g) = off" "it_prevKey (moved it off key nr g) = key"
  "it_nextRestart (moved it off key nr g) = nr" "it_groupIdx (moved it off key nr g) = g"
  by (simp_all add: moved_def)

lemma starts_mono: "i \<le> j \<Longrightarrow> j \<le> length gs \<Longrightarrow> starts gs i \<le> starts gs j"
  by (induction rule: inc_induct) (auto simp: starts_Suc)

lemma starts_end: "starts gs (length gs) = length (concat gs)"
  by (simp add: starts_concat)

lemma starts_in: "g < length gs \<Longrightarrow> m < length (gs ! g) \<Longrightarrow> starts gs g + m < length (concat gs)"
  using starts_mono [of "Suc g" "length gs" gs] starts_Suc [of g gs] starts_end [of gs] by simp

lemma nth_starts: "g < length gs \<Longrightarrow> m < length (gs ! g) \<Longrightarrow> concat gs ! (starts gs g + m) = gs ! g ! m"
  using concat_split [of g gs] by (simp add: starts_concat nth_append)

lemma group_index:
  assumes "i < length (concat gs)"
  obtains g m where "g < length gs" "m < length (gs ! g)" "i = starts gs g + m"
proof -
  have "\<exists>g < length gs. starts gs g \<le> i \<and> i < starts gs (Suc g)"
  proof (rule ccontr)
    assume n: "\<not> ?thesis"
    have "starts gs g \<le> i" if "g \<le> length gs" for g using that
    proof (induction g)
      case (Suc g)
      then show ?case using n by (meson Suc_le_lessD not_less nat_less_le Suc_leD)
    qed (simp add: starts_def)
    then show False using assms starts_end [of gs] by (metis le_refl not_less)
  qed
  then obtain g where g: "g < length gs" "starts gs g \<le> i" "i < starts gs (Suc g)" by blast
  then show ?thesis using that [of g "i - starts gs g"] starts_Suc [OF g(1)] by simp
qed

text \<open>After a move from entry \<open>m\<close> of group \<open>g\<close> the next entry follows in the group or opens the next one.\<close>

lemma moved_on_stream:
  assumes "on_stream r gs pos endv it" "positioned gs pos it g m" "it_idx it < it_endIdx it" "\<forall>h \<in> set gs. h \<noteq> []"
    and "off = pos (Suc (it_idx it))" "key = Key (gs ! g ! m)"
  shows "on_stream r gs pos endv (moved it off key (starts gs (Suc g)) (int g + 1))"
proof -
  let ?it = "moved it off key (starts gs (Suc g)) (int g + 1)"
  note p = assms(2) [unfolded positioned_def]
  note s = starts_Suc [of g gs]
  have "\<exists>g' m'. positioned gs pos ?it g' m'" if lt: "Suc (it_idx it) < it_endIdx it"
  proof (cases "Suc m < length (gs ! g)")
    case True
    then have "positioned gs pos ?it g (Suc m)" using p assms(5,6) by (simp add: positioned_def)
    then show ?thesis by blast
  next
    case False
    then have m: "Suc m = length (gs ! g)" using p by linarith
    then have i: "Suc (it_idx it) = starts gs (Suc g)" using p s by simp
    have g: "Suc g < length gs"
    proof (rule ccontr)
      assume "\<not> Suc g < length gs"
      then have "Suc g = length gs" using p by simp
      then have "starts gs (Suc g) = length (concat gs)" using starts_end [of gs] by simp
      then show False using lt i assms(1) by (simp add: on_stream_def)
    qed
    then have "gs ! Suc g \<noteq> []" using assms(4) by simp
    then have "positioned gs pos ?it (Suc g) 0" using g i assms(5) by (simp add: positioned_def)
    then show ?thesis by blast
  qed
  then show ?thesis using assms(1,3) by (simp add: on_stream_def)
qed

section \<open>Modes\<close>

locale leaf_stream =
  fixes r :: LeafReader and gs :: "LeafEntry list list" and pos :: "nat \<Rightarrow> nat" and endv :: "nat \<Rightarrow> nat"
  assumes groups: "\<forall>g \<in> set gs. g \<noteq> []"
    and counted: "r_count r = length (concat gs)" "restartCount (r_rt r) = length gs"
    and compressed: "r_variant r \<noteq> TypeLeafUncompressed"
    and table: "i < length gs \<Longrightarrow> rt_Offset (r_rt r) (int i) = Inr (pos (starts gs i))"
      "i < length gs \<Longrightarrow> rt_GroupEntryCount (r_rt r) (int i) = Inr (length (gs ! i))"
      "i < length gs \<Longrightarrow> rt_GroupStartIndex (r_rt r) i = Inr (starts gs i)"
    and values_end: "r_valueEnd r = endv (length (concat gs))"
    and first_entry: "concat gs \<noteq> [] \<Longrightarrow> IterForReuse r = (new_iter r)\<lparr>it_off := pos 0, it_segEndVOff := endv (length (concat gs))\<rparr>"
    and group_entry: "i < length gs \<Longrightarrow> groupIter r (int i) = Inr ((new_iter r)\<lparr>it_idx := starts gs i, it_startIdx := starts gs i,
      it_endIdx := starts gs (Suc i), it_off := pos (starts gs i), it_nextRestart := starts gs i, it_groupIdx := int i, it_segEndVOff := endv (starts gs (Suc i))\<rparr>)"
    and advances: "\<lbrakk>on_stream r gs pos endv it; positioned gs pos it g m; it_idx it < it_endIdx it\<rbrakk> \<Longrightarrow>
      stream_next it = Inr (gs ! g ! m, moved it (pos (Suc (it_idx it))) (Key (gs ! g ! m)) (starts gs (Suc g)) (int g + 1))"
begin

abbreviation streaming :: "LeafIter \<Rightarrow> bool" where
  "streaming \<equiv> on_stream r gs pos endv"

definition buffers :: "LeafIter \<Rightarrow> nat \<Rightarrow> bool" where
  "buffers it g \<longleftrightarrow> g < length gs \<and> it_bufGroup it = int g \<and> it_bufStart it = starts gs g \<and> it_bufEnd it = starts gs (Suc g) \<and> it_bufEnts it = gs ! g"

definition at_entry :: "LeafIter \<Rightarrow> nat \<Rightarrow> bool" where
  "at_entry it j \<longleftrightarrow> it_r it = r \<and> it_variant it = r_variant r \<and> it_startIdx it = 0 \<and> it_endIdx it = length (concat gs) \<and> it_idx it = j \<and>
     j \<le> length (concat gs) \<and> (if it_buffered it then \<exists>g. buffers it g \<and> starts gs g \<le> j \<and> j \<le> starts gs (Suc g) else streaming it)"

lemma stream_step:
  assumes "streaming it" "it_idx it < it_endIdx it"
  shows "\<exists>off key nr g. stream_next it = Inr (concat gs ! it_idx it, moved it off key nr g) \<and> streaming (moved it off key nr g)"
proof -
  obtain g m where p: "positioned gs pos it g m" using assms by (auto simp: on_stream_def)
  have "concat gs ! it_idx it = gs ! g ! m" using p nth_starts [of g gs m] by (simp add: positioned_def)
  then show ?thesis using advances [OF assms(1) p assms(2)] moved_on_stream [OF assms(1) p assms(2) groups refl refl] by metis
qed

lemma drains:
  assumes "streaming it" "it_idx it + n = it_endIdx it"
  shows "drain n it = Inr (take n (drop (it_idx it) (concat gs)))"
  using assms
proof (induction n arbitrary: it)
  case (Suc n)
  obtain off key nr g where s: "stream_next it = Inr (concat gs ! it_idx it, moved it off key nr g)" "streaming (moved it off key nr g)"
    using stream_step [OF Suc.prems(1)] Suc.prems(2) by auto
  have "it_idx it < length (concat gs)" using Suc.prems by (simp add: on_stream_def)
  then have "drop (it_idx it) (concat gs) = concat gs ! it_idx it # drop (Suc (it_idx it)) (concat gs)" by (simp add: Cons_nth_drop_Suc)
  then show ?case using s Suc.IH [OF s(2)] Suc.prems(2) by simp
qed simp

lemma group_entries: "i < length gs \<Longrightarrow> take (length (gs ! i)) (drop (starts gs i) (concat gs)) = gs ! i"
  using concat_split [of i gs] by (simp add: starts_concat)

lemma loads:
  assumes "it_r it = r" "g < length gs"
  shows "loadBufferedGroup it (int g) = Inr (it\<lparr>it_buffered := True, it_bufGroup := int g, it_bufStart := starts gs g, it_bufEnd := starts gs (Suc g), it_bufEnts := gs ! g\<rparr>)"
proof -
  define gi where "gi = (new_iter r)\<lparr>it_idx := starts gs g, it_startIdx := starts gs g, it_endIdx := starts gs (Suc g), it_off := pos (starts gs g),
    it_nextRestart := starts gs g, it_groupIdx := int g, it_segEndVOff := endv (starts gs (Suc g))\<rparr>"
  have ne: "0 < length (gs ! g)" using groups assms(2) by simp
  have f: "it_idx gi = starts gs g" "it_endIdx gi = starts gs (Suc g)" by (simp_all add: gi_def)
  have "positioned gs pos gi g 0" using assms(2) ne by (simp add: positioned_def gi_def)
  then have "streaming gi"
    using starts_mono [of "Suc g" "length gs" gs] starts_end [of gs] assms(2) starts_Suc [OF assms(2)] by (auto simp: on_stream_def gi_def new_iter_def)
  from drains [OF this, of "length (gs ! g)"] have "drain (it_endIdx gi - it_idx gi) gi = Inr (gs ! g)"
    using f starts_Suc [OF assms(2)] group_entries [OF assms(2)] by simp
  then show ?thesis
    using table(2,3) [OF assms(2)] group_entry [OF assms(2), folded gi_def] starts_Suc [OF assms(2)] by (simp add: loadBufferedGroup_def assms(1))
qed

lemma buffered_entry:
  assumes "buffers it g" "starts gs g \<le> i" "i < starts gs (Suc g)"
  shows "buf_ent it i = Inr (concat gs ! i)"
  using assms nth_starts [of g gs "i - starts gs g"] starts_Suc [of g gs] by (auto simp: buffers_def buf_ent_def)

lemma finds_group:
  assumes "g < length gs" "starts gs g \<le> i" "i < starts gs (Suc g)"
  shows "FindGroupContaining (r_rt r) i = Inr (int g)" "group_of (r_rt r) i [0..<length gs] 0 = Inr (g, starts gs g)"
proof -
  have u: "[0..<length gs] = [0..<g] @ g # [Suc g..<length gs]" using upt_add_eq_append [of 0 g "length gs - g"] assms(1) by (simp add: upt_conv_Cons)
  have s: "find_group (r_rt r) i ([k..<g] @ g # xs) (starts gs k) = Inr (int g) \<and> group_of (r_rt r) i ([k..<g] @ g # xs) (starts gs k) = Inr (g, starts gs g)"
    if "k \<le> g" for k xs using that
  proof (induction rule: inc_induct)
    case base
    show ?case using assms table(2) [OF assms(1)] starts_Suc [OF assms(1)] by simp
  next
    case (step k)
    have k: "k < length gs" "[k..<g] = k # [Suc k..<g]" using step(2) assms(1) by (simp_all add: upt_conv_Cons)
    have "starts gs (Suc k) \<le> starts gs g" using step(2) assms(1) by (intro starts_mono) simp_all
    then show ?case using step(3) k table(2) [OF k(1)] starts_Suc [OF k(1)] assms(2) by (simp add: not_less)
  qed
  have z: "starts gs 0 = 0" by (simp add: starts_def)
  show "FindGroupContaining (r_rt r) i = Inr (int g)" "group_of (r_rt r) i [0..<length gs] 0 = Inr (g, starts gs g)"
    using s [of 0 "[Suc g..<length gs]"] by (simp_all only: FindGroupContaining_def counted(2) u z)
qed

text \<open>The buffer for an entry is the one in hand, a neighbour of it, or found in the table.\<close>

lemma buffers_entry:
  assumes "it_r it = r" "it_buffered it \<longrightarrow> (\<exists>g. buffers it g)" "i < length (concat gs)"
  shows "\<exists>it1 g. buffer_for fw it i = Inr it1 \<and> buffers it1 g \<and> starts gs g \<le> i \<and> i < starts gs (Suc g) \<and> it_buffered it1 \<and>
    it_r it1 = it_r it \<and> it_variant it1 = it_variant it \<and> it_startIdx it1 = it_startIdx it \<and> it_endIdx it1 = it_endIdx it"
proof -
  obtain g m where g: "g < length gs" "m < length (gs ! g)" "i = starts gs g + m" using group_index [OF assms(3)] .
  have r: "starts gs g \<le> i" "i < starts gs (Suc g)" using g starts_Suc [OF g(1)] by simp_all
  let ?l = "it\<lparr>it_buffered := True, it_bufGroup := int g, it_bufStart := starts gs g, it_bufEnd := starts gs (Suc g), it_bufEnts := gs ! g\<rparr>"
  have l: "loadBufferedGroup it (int g) = Inr ?l" "buffers ?l g" using loads [OF assms(1) g(1)] g(1) by (simp_all add: buffers_def)
  have u: "h = g" if "h < length gs" "starts gs h \<le> i" "i < starts gs (Suc h)" for h
    using finds_group(1) [OF that] finds_group(1) [OF g(1) r] by simp
  show ?thesis
  proof (cases "it_buffered it \<and> it_bufStart it \<le> i \<and> i < it_bufEnd it")
    case True
    then obtain h where h: "buffers it h" using assms(2) by blast
    then show ?thesis using True r by (intro exI [of _ it] exI [of _ h]) (simp add: buffer_for_def buffers_def)
  next
    case False
    have "(if \<not> it_buffered it then FindGroupContaining (r_rt (it_r it)) i
       else if i + 1 = it_bufStart it then Inr (it_bufGroup it - 1)
       else if fw \<and> i = it_bufEnd it then Inr (it_bufGroup it + 1)
       else FindGroupContaining (r_rt (it_r it)) i) = Inr (int g)"
    proof (cases "it_buffered it")
      case True
      then obtain h where h: "buffers it h" using assms(2) by blast
      have "int g = int h - 1" if e: "i + 1 = starts gs h"
      proof -
        have "h \<noteq> 0" using e by (cases "h = 0") (simp_all add: starts_def)
        then obtain h' where h': "h = Suc h'" by (cases h) auto
        have n: "h' < length gs" "0 < length (gs ! h')" using h h' groups by (simp_all add: buffers_def)
        have "starts gs h' \<le> i" "i < starts gs (Suc h')" using e [unfolded h'] starts_Suc [OF n(1)] n(2) by linarith+
        then show ?thesis using u [OF n(1)] h' by simp
      qed
      moreover have "int g = int h + 1" if "i = starts gs (Suc h)"
      proof -
        have "Suc h < length gs" using that assms(3) h starts_end [of gs] by (cases "Suc h = length gs") (auto simp: buffers_def)
        then show ?thesis using u [of "Suc h"] that groups starts_Suc [of "Suc h" gs] by simp
      qed
      ultimately show ?thesis using True h finds_group(1) [OF g(1) r] assms(1) by (auto simp: buffers_def)
    qed (use finds_group(1) [OF g(1) r] assms(1) in simp)
    then have "buffer_for fw it i = Inr ?l" using False l(1) by (auto simp: buffer_for_def)
    then show ?thesis using l(2) r by (intro exI [of _ ?l] exI [of _ g]) simp
  qed
qed

lemma Next_entry:
  assumes "at_entry it j"
  shows "if j < length (concat gs) then \<exists>it'. iter_Next it = Inr (Some (concat gs ! j), it') \<and> at_entry it' (Suc j) else iter_Next it = Inr (None, it)"
proof (cases "j < length (concat gs)")
  case lt: True
  note a = assms [unfolded at_entry_def]
  show ?thesis
  proof (cases "it_buffered it")
    case True
    then obtain g where g: "buffers it g" "starts gs g \<le> j" "j \<le> starts gs (Suc g)" using a by auto
    show ?thesis
    proof (cases "j = starts gs (Suc g)")
      case False
      have "buf_ent it j = Inr (concat gs ! j)" by (rule buffered_entry [OF g(1,2)]) (use False g(3) in simp)
      moreover have "at_entry (it\<lparr>it_idx := Suc j\<rparr>) (Suc j)" using a True g False lt by (auto simp: at_entry_def buffers_def)
      ultimately show ?thesis using a True lt False g compressed by (simp add: iter_Next_def buffers_def)
    next
      case e: True
      have s: "Suc g < length gs" using e lt g(1) starts_end [of gs] by (cases "Suc g = length gs") (auto simp: buffers_def)
      let ?l = "it\<lparr>it_buffered := True, it_bufGroup := int (Suc g), it_bufStart := starts gs (Suc g), it_bufEnd := starts gs (Suc (Suc g)), it_bufEnts := gs ! Suc g\<rparr>"
      have l: "loadBufferedGroup it (it_bufGroup it + 1) = Inr ?l" using loads [of it "Suc g"] a s g(1) by (simp add: buffers_def add.commute)
      have b: "buffers ?l (Suc g)" using s by (simp add: buffers_def)
      have n: "j < starts gs (Suc (Suc g))" using e starts_Suc [OF s] groups s by simp
      have "buf_ent ?l j = Inr (concat gs ! j)" using buffered_entry [OF b _ n] e by simp
      moreover have "at_entry (?l\<lparr>it_idx := Suc j\<rparr>) (Suc j)" using a b n e lt by (auto simp: at_entry_def buffers_def)
      ultimately show ?thesis using a True lt e g(1) compressed l by (simp add: iter_Next_def buffers_def)
    qed
  next
    case False
    then have st: "streaming it" using a by simp
    then obtain off key nr g where s: "stream_next it = Inr (concat gs ! j, moved it off key nr g)" "streaming (moved it off key nr g)"
      using stream_step a lt by metis
    have "at_entry (moved it off key nr g) (Suc j)" using a s(2) False lt by (simp add: at_entry_def)
    then show ?thesis using s(1) a False lt compressed by (simp add: iter_Next_def)
  qed
next
  case False
  then show ?thesis using assms by (simp add: iter_Next_def at_entry_def)
qed

lemma buffered_move:
  assumes "at_entry it j" "i < length (concat gs)"
  shows "\<exists>it'. bind_res (buffer_for fw it i) (\<lambda>it1. bind_res (buf_ent it1 i) (\<lambda>e. Inr (Some e, it1\<lparr>it_idx := i + 1\<rparr>))) = Inr (Some (concat gs ! i), it') \<and> at_entry it' (Suc i)"
proof -
  note a = assms(1) [unfolded at_entry_def]
  obtain it1 g where b: "buffer_for fw it i = Inr it1" "buffers it1 g" "starts gs g \<le> i" "i < starts gs (Suc g)" "it_buffered it1"
    "it_r it1 = it_r it" "it_variant it1 = it_variant it" "it_startIdx it1 = it_startIdx it" "it_endIdx it1 = it_endIdx it"
    using buffers_entry [of it i fw] a assms(2) by (auto split: if_splits)
  have "at_entry (it1\<lparr>it_idx := Suc i\<rparr>) (Suc i)" using a b assms(2) by (auto simp: at_entry_def buffers_def)
  then show ?thesis using b(1) buffered_entry [OF b(2-4)] by simp
qed

lemma At_entry: "at_entry it j \<Longrightarrow> i < length (concat gs) \<Longrightarrow> \<exists>it'. iter_At it i = Inr (Some (concat gs ! i), it') \<and> at_entry it' (Suc i)"
  using buffered_move [of it j i True] compressed by (simp add: iter_At_def at_entry_def)

lemma Prev_entry:
  assumes "at_entry it j"
  shows "if 2 \<le> j then \<exists>it'. iter_Prev it = Inr (Some (concat gs ! (j - 2)), it') \<and> at_entry it' (j - 1) else iter_Prev it = Inr (None, it)"
proof (cases "2 \<le> j")
  case True
  have l: "j - 2 < length (concat gs)" "Suc (j - 2) = j - 1" using assms True by (auto simp: at_entry_def)
  show ?thesis using buffered_move [OF assms l(1), of False] True compressed assms l(2) by (simp add: iter_Prev_def at_entry_def Let_def)
qed (use assms in \<open>auto simp: iter_Prev_def at_entry_def\<close>)

lemma first_at: "at_entry (IterForReuse r) 0"
proof (cases "concat gs = []")
  case True
  have f: "it_r (IterForReuse r) = r" "it_idx (IterForReuse r) = 0" "it_endIdx (IterForReuse r) = r_count r" "it_startIdx (IterForReuse r) = 0"
      "it_variant (IterForReuse r) = r_variant r" "\<not> it_buffered (IterForReuse r)"
    by (simp_all add: IterForReuse_def new_iter_def)
  show ?thesis unfolding at_entry_def on_stream_def f counted(1) True using f(6) by simp
next
  case False
  obtain g m where g: "g < length gs" "m < length (gs ! g)" "0 = starts gs g + m" using group_index [of 0 gs] False by (metis length_greater_0_conv)
  have z: "g = 0"
  proof (rule ccontr)
    assume "g \<noteq> 0"
    then have "starts gs (Suc 0) \<le> starts gs g" using g(1) by (intro starts_mono) simp_all
    moreover have "0 < length gs" using g(1) by linarith
    ultimately show False using starts_Suc [of 0 gs] groups g(3) by simp
  qed
  have "positioned gs pos (IterForReuse r) 0 0"
    using g z first_entry [OF False] by (auto simp: positioned_def new_iter_def)
  then show ?thesis using first_entry [OF False] counted(1) by (auto simp: at_entry_def on_stream_def new_iter_def)
qed

lemma past_at:
  assumes "it_r it = r" "it_variant it = r_variant r" "it_startIdx it = 0" "it_endIdx it = length (concat gs)" "it_idx it = length (concat gs)" "\<not> it_buffered it"
  shows "at_entry it (length (concat gs))"
  using assms by (simp add: at_entry_def on_stream_def)

lemma skips: "at_entry it j \<Longrightarrow> j + n \<le> length (concat gs) \<Longrightarrow> \<exists>it'. skip_entries n it = Inr it' \<and> at_entry it' (j + n)"
proof (induction n arbitrary: it j)
  case (Suc n)
  obtain it' where "iter_Next it = Inr (Some (concat gs ! j), it')" "at_entry it' (Suc j)" using Next_entry [OF Suc.prems(1)] Suc.prems(2) by auto
  then show ?case using Suc.IH [of it' "Suc j"] Suc.prems(2) by simp
qed auto

lemma start_at: "\<exists>it. IterAtForReuse r k = Inr it \<and> at_entry it (min k (length (concat gs)))"
proof (cases "k < length (concat gs)")
  case False
  have "at_entry (past_end r) (length (concat gs))" by (rule past_at) (simp_all add: past_end_def new_iter_def counted(1))
  then show ?thesis using False by (simp add: IterAtForReuse_def counted(1) min_def)
next
  case True
  obtain g m where g: "g < length gs" "m < length (gs ! g)" "k = starts gs g + m" using group_index [OF True] .
  have r: "starts gs g \<le> k" "k < starts gs (Suc g)" using g starts_Suc [OF g(1)] by simp_all
  let ?it = "(new_iter r)\<lparr>it_idx := starts gs g, it_off := pos (starts gs g), it_segEndVOff := r_valueEnd r, it_nextRestart := starts gs g, it_groupIdx := int g\<rparr>"
  have "positioned gs pos ?it g 0" using g groups by (auto simp: positioned_def)
  then have "at_entry ?it (starts gs g)"
    using True r(1) values_end by (auto simp: at_entry_def on_stream_def new_iter_def counted(1))
  then obtain it where "skip_entries (k - starts gs g) ?it = Inr it" "at_entry it k" using skips [of ?it "starts gs g" "k - starts gs g"] True r(1) by auto
  then show ?thesis
    using True finds_group(2) [OF g(1) r] table(1) [OF g(1)] compressed by (simp add: IterAtForReuse_def counted is_uc_def min_def)
qed

end

end
