(* ===== verification/Leaf_Seek.thy ===== *)
theory Leaf_Seek
  imports Leaf_Scan
begin

text \<open>
  Positioned lookup: the search that also returns an iterator past the entry it found, or past the
  successor of the target. The binary search over the restart points and the walk of a group are
  handled once, for both compressed layouts.
\<close>

section \<open>Binary search\<close>

text \<open>What the last comparisons of a three-way binary search said, without any order on the keys.\<close>

lemma bsearch3_said:
  "bsearch3 cmp lo hi = Inr (x, f) \<Longrightarrow> lo \<le> hi \<Longrightarrow> lo \<le> x \<and> x \<le> hi \<and> (f \<longrightarrow> x < hi \<and> cmp x = Inr 0) \<and>
    (\<not> f \<and> lo < x \<longrightarrow> (\<exists>c < 0. cmp (x - 1) = Inr c))"
proof (induction "hi - lo" arbitrary: lo hi rule: less_induct)
  case less
  show ?case
  proof (cases "lo < hi")
    case True
    let ?m = "lo + (hi - lo) div 2"
    have m: "lo \<le> ?m" "?m < hi" using True by auto
    obtain c where c: "cmp ?m = Inr c" using less.prems(1) True by (subst (asm) bsearch3.simps) (auto simp: Let_def split: sum.splits)
    have s: "(if c < 0 then bsearch3 cmp (?m + 1) hi else if c = 0 then Inr (?m, True) else bsearch3 cmp lo ?m) = Inr (x, f)"
      using less.prems(1) True c by (subst (asm) bsearch3.simps) (simp add: Let_def)
    have d: "hi - (?m + 1) < hi - lo" "?m - lo < hi - lo" "?m + 1 \<le> hi" using m by linarith+
    consider "c < 0" | "c = 0" | "0 < c" by linarith
    then show ?thesis
    proof cases
      case 1
      then have r: "bsearch3 cmp (?m + 1) hi = Inr (x, f)" using s by simp
      show ?thesis using less.hyps [OF d(1) r d(3)] m 1 c by (cases "?m + 1 < x") (auto simp: less_Suc_eq_le)
    next
      case 2
      then show ?thesis using s m c by simp
    next
      case 3
      then have r: "bsearch3 cmp lo ?m = Inr (x, f)" using s by simp
      show ?thesis using less.hyps [OF d(2) r m(1)] m by auto
    qed
  next
    case False
    then show ?thesis using less.prems by (subst (asm) bsearch3.simps) auto
  qed
qed

section \<open>The result\<close>

definition sought :: "LeafEntry list \<Rightarrow> bytes list \<Rightarrow> bytes \<Rightarrow> LeafIter \<Rightarrow> nat \<times> LeafEntry \<times> bool \<times> LeafIter" where
  "sought es keys target it =
     (let i = rank keys target in
      if target \<in> set keys then (i, (es ! i)\<lparr>Key := []\<rparr>, True, it) else if i < length es then (i, es ! i, False, it) else (i, no_entry, False, it))"

text \<open>Where the binary search over the heads of the groups leaves the target.\<close>

lemma group_located:
  fixes gs :: "LeafEntry list list" and kss :: "bytes list list" and probe :: "nat \<Rightarrow> node_err + int"
  assumes "map length kss = map length gs" "\<forall>g \<in> set gs. g \<noteq> []" "sorted_wrt (<) (concat kss)"
    and probe: "\<And>i. i < length gs \<Longrightarrow> probe i = Inr (Compare (hd (kss ! i)) target)"
  obtains lo found where "bsearch3 probe 0 (length gs) = Inr (lo, found)" "lo \<le> length gs"
    "found \<Longrightarrow> lo < length gs \<and> rank (concat kss) target = starts gs lo \<and> target \<in> set (concat kss)"
    "\<not> found \<Longrightarrow> lo = 0 \<Longrightarrow> rank (concat kss) target = 0 \<and> target \<notin> set (concat kss)"
    "\<not> found \<Longrightarrow> 0 < lo \<Longrightarrow> hd (kss ! (lo - 1)) < target \<and> rank (concat kss) target = starts gs (lo - 1) + rank (kss ! (lo - 1)) target \<and>
      (target \<in> set (concat kss)) = (target \<in> set (kss ! (lo - 1)))"
proof -
  let ?hit = "\<lambda>i. Inr (starts gs i, (hd (gs ! i))\<lparr>Key := []\<rparr>, True) :: node_err + nat \<times> LeafEntry \<times> bool"
  let ?scan = "\<lambda>i. Inr (shift (starts gs i) (found_at (gs ! i) (kss ! i) target)) :: node_err + nat \<times> LeafEntry \<times> bool"
  have t: "bind_res (bsearch3 probe 0 (length gs)) (\<lambda>(lo, found). if found then ?hit lo else if lo = 0 then Inr (0, no_entry, False) else ?scan (lo - 1)) =
      Inr (found_at (concat gs) (concat kss) target)"
    by (rule two_phase [OF assms(1-3) refl probe refl refl])
  then obtain lo found where b: "bsearch3 probe 0 (length gs) = Inr (lo, found)" by (auto simp: bind_res_Inr_iff)
  note s = bsearch3_said [OF b le0]
  have f: "(if found then (starts gs lo, (hd (gs ! lo))\<lparr>Key := []\<rparr>, True) else if lo = 0 then (0, no_entry, False)
      else shift (starts gs (lo - 1)) (found_at (gs ! (lo - 1)) (kss ! (lo - 1)) target)) = found_at (concat gs) (concat kss) target"
    using t b by (auto split: if_splits)
  have p: "fst (found_at es ks target) = rank ks target" "snd (snd (found_at es ks target)) = (target \<in> set ks)" for es ks
    by (simp_all add: found_at_def Let_def)
  have q: "fst (shift n x) = n + fst x" "snd (snd (shift n x)) = snd (snd x)" for n x by (cases x; simp)+
  show ?thesis
  proof (rule that [OF b])
    show "lo \<le> length gs" using s by blast
    show "lo < length gs \<and> rank (concat kss) target = starts gs lo \<and> target \<in> set (concat kss)" if "found"
      using s f that p [of "concat gs" "concat kss"] by (simp add: prod_eq_iff)
    show "rank (concat kss) target = 0 \<and> target \<notin> set (concat kss)" if "\<not> found" "lo = 0"
      using f that p [of "concat gs" "concat kss"] by (simp add: prod_eq_iff)
    show "hd (kss ! (lo - 1)) < target \<and> rank (concat kss) target = starts gs (lo - 1) + rank (kss ! (lo - 1)) target \<and>
        (target \<in> set (concat kss)) = (target \<in> set (kss ! (lo - 1)))" if h: "\<not> found" "0 < lo"
    proof -
      have l: "lo - 1 < length gs" using s h by auto
      have "\<exists>c < 0. probe (lo - 1) = Inr c" using s h by blast
      then have "hd (kss ! (lo - 1)) < target" using probe [OF l] by auto
      moreover have "shift (starts gs (lo - 1)) (found_at (gs ! (lo - 1)) (kss ! (lo - 1)) target) = found_at (concat gs) (concat kss) target" using f h by simp
      ultimately show ?thesis
        using p [of "concat gs" "concat kss"] p [of "gs ! (lo - 1)" "kss ! (lo - 1)"]
          q [of "starts gs (lo - 1)" "found_at (gs ! (lo - 1)) (kss ! (lo - 1)) target"] by metis
    qed
  qed
qed

section \<open>The walk of a group\<close>

locale leaf_seek = leaf_stream r gs pos endv for r gs pos endv +
  fixes probe :: "bytes \<Rightarrow> TailCompare \<Rightarrow> nat \<Rightarrow> node_err + int"
    and hit :: "nat \<Rightarrow> node_err + nat \<times> LeafEntry \<times> bool \<times> LeafIter"
    and walk :: "bytes \<Rightarrow> nat \<Rightarrow> int \<Rightarrow> nat \<Rightarrow> nat \<Rightarrow> nat \<Rightarrow> bytes \<Rightarrow> node_err + (nat \<times> LeafEntry \<times> bool \<times> LeafIter) option"
    and from_restart :: "nat \<Rightarrow> node_err + nat \<times> LeafEntry \<times> bool \<times> LeafIter"
    and rest :: LeafIter
  assumes seeks: "concat gs \<noteq> [] \<Longrightarrow> SearchLeafIter r target tail =
      bind_res (bsearch3 (probe target tail) 0 (length gs)) (\<lambda>(lo, found).
      if found then hit lo else if lo = 0 then from_restart 0
      else
        bind_res (rt_GroupStartIndex (r_rt r) (lo - 1)) (\<lambda>startIdx.
        bind_res (rt_GroupEntryCount (r_rt r) (int lo - 1)) (\<lambda>gc.
        bind_res (walk target (startIdx + gc) (int lo - 1) (gc - 1) (startIdx + 1) (pos (startIdx + 1)) (Key (hd (gs ! (lo - 1))))) (\<lambda>res.
        case res of Some x \<Rightarrow> Inr x
        | None \<Rightarrow> if startIdx + gc \<ge> r_count r then Inr (startIdx + gc, no_entry, False, rest) else from_restart lo))))"
    and probes: "\<lbrakk>i < length gs; full_key (hd (gs ! i)) k; tail_reads tail target (hd (gs ! i)) k\<rbrakk> \<Longrightarrow> probe target tail i = Inr (Compare k target)"
    and hits: "i < length gs \<Longrightarrow> hit i = Inr (starts gs i, (hd (gs ! i))\<lparr>Key := []\<rparr>, True,
      iter_past r (starts gs i) (pos (Suc (starts gs i))) (Key (hd (gs ! i))) (starts gs (Suc i)) (int i + 1))"
    and restarts_at: "i < length gs \<Longrightarrow> from_restart i = Inr (starts gs i, hd (gs ! i), False,
      iter_past r (starts gs i) (pos (Suc (starts gs i))) (Key (hd (gs ! i))) (starts gs (Suc i)) (int i + 1))"
    and walk_end: "walk target nr g 0 idx off key = Inr None"
    and walk_step: "\<lbrakk>i < length gs; Suc m < length (gs ! i); idx = starts gs i + Suc m; Suc (Suc m) + n = length (gs ! i)\<rbrakk> \<Longrightarrow>
      walk target nr g (Suc n) idx (pos idx) (Key (gs ! i ! m)) =
        (let e = gs ! i ! Suc m; it = iter_past r idx (pos (Suc idx)) (Key e) nr (g + 1) in
         if Key e = target then Inr (Some (idx, e\<lparr>Key := []\<rparr>, True, it))
         else if target < Key e then Inr (Some (idx, e, False, it))
         else walk target nr g n (Suc idx) (pos (Suc idx)) (Key e))"
    and rest_past: "it_r rest = r" "it_variant rest = r_variant r" "it_startIdx rest = 0" "it_endIdx rest = length (concat gs)"
      "it_idx rest = length (concat gs)" "\<not> it_buffered rest"
    and plain_keys: "\<lbrakk>i < length gs; 0 < m; m < length (gs ! i)\<rbrakk> \<Longrightarrow> \<not> IsOverflowKey (gs ! i ! 0) \<and> \<not> IsOverflowKey (gs ! i ! m)"
    and past_values: "(if is_seg r then r_valueEnd r else 0) = endv (length (concat gs))"
begin

lemma past_entry:
  assumes "i < length gs" "m < length (gs ! i)" "idx = starts gs i + m"
  shows "at_entry (iter_past r idx (pos (Suc idx)) (Key (gs ! i ! m)) (starts gs (Suc i)) (int i + 1)) (Suc idx)"
proof -
  define it0 where "it0 = (new_iter r)\<lparr>it_idx := idx, it_off := pos idx, it_segEndVOff := endv (length (concat gs)), it_prevKey := Key (gs ! i ! (m - 1)),
    it_nextRestart := (if m = 0 then idx else starts gs (Suc i)), it_groupIdx := (if m = 0 then int i else int i + 1)\<rparr>"
  have f: "it_r it0 = r" "it_variant it0 = r_variant r" "it_endIdx it0 = length (concat gs)" "it_idx it0 = idx" "it_segEndVOff it0 = endv (length (concat gs))"
    by (simp_all add: it0_def new_iter_def counted(1))
  have l: "idx < length (concat gs)" using starts_in [OF assms(1,2)] assms(3) by simp
  have p: "positioned gs pos it0 i m" using assms by (simp add: positioned_def it0_def)
  then have "\<exists>g m. positioned gs pos it0 g m" by blast
  then have "streaming it0" using l f by (simp add: on_stream_def)
  from moved_on_stream [OF this p _ groups refl refl] l f
  have "streaming (moved it0 (pos (Suc idx)) (Key (gs ! i ! m)) (starts gs (Suc i)) (int i + 1))" by simp
  moreover have "moved it0 (pos (Suc idx)) (Key (gs ! i ! m)) (starts gs (Suc i)) (int i + 1) =
      iter_past r idx (pos (Suc idx)) (Key (gs ! i ! m)) (starts gs (Suc i)) (int i + 1)"
    by (simp add: moved_def iter_past_def past_values new_iter_def it0_def)
  ultimately show ?thesis using l by (simp add: at_entry_def iter_past_def new_iter_def counted(1))
qed

lemma walk_finds:
  assumes "i < length gs" "sorted_wrt (<) (map Key (gs ! i))" "m < length (gs ! i)" "Key (gs ! i ! m) < target" "Suc m + n = length (gs ! i)"
  shows "walk target (starts gs (Suc i)) (int i) n (starts gs i + Suc m) (pos (starts gs i + Suc m)) (Key (gs ! i ! m)) =
    (let k = rank (map Key (gs ! i)) target; e = gs ! i ! k; idx = starts gs i + k;
       it = iter_past r idx (pos (Suc idx)) (Key e) (starts gs (Suc i)) (int i + 1) in
     Inr (if k < length (gs ! i) then Some (idx, if Key e = target then e\<lparr>Key := []\<rparr> else e, Key e = target, it) else None))"
  using assms(3-5)
proof (induction n arbitrary: m)
  case 0
  have "Key x < target" if h: "x \<in> set (gs ! i)" for x
  proof -
    obtain q where q: "q < length (gs ! i)" "x = gs ! i ! q" using h by (auto simp: in_set_conv_nth)
    then have "q = m \<or> q < m" using 0 by linarith
    then show ?thesis using sorted_wrt_nth_less [OF assms(2), of q m] 0 q by auto
  qed
  then have "rank (map Key (gs ! i)) target = length (gs ! i)" by (simp add: rank_def filter_map comp_def)
  then show ?case by (simp add: walk_end Let_def)
next
  case (Suc n)
  let ?e = "gs ! i ! Suc m" and ?idx = "starts gs i + Suc m"
  have m: "Suc m < length (gs ! i)" "Suc (Suc m) + n = length (gs ! i)" using Suc.prems by linarith+
  note s = walk_step [OF assms(1) m(1) refl m(2), of target "starts gs (Suc i)" "int i"]
  show ?case
  proof (cases "Key ?e < target")
    case True
    then have "Key ?e \<noteq> target" "\<not> target < Key ?e" by auto
    then show ?thesis unfolding s Let_def using Suc.IH [OF m(1) True m(2)] by (simp add: Let_def)
  next
    case False
    have "rank (map Key (gs ! i)) target = Suc m" unfolding rank_def
    proof (rule count_prefix)
      show "Suc m \<le> length (map Key (gs ! i))" using m(1) by simp
      show "\<forall>j < Suc m. map Key (gs ! i) ! j < target"
      proof (intro allI impI)
        fix j assume "j < Suc m"
        then have "j = m \<or> j < m" by linarith
        then show "map Key (gs ! i) ! j < target" using sorted_wrt_nth_less [OF assms(2), of j m] Suc.prems(1,2) by auto
      qed
      show "\<forall>j. Suc m \<le> j \<and> j < length (map Key (gs ! i)) \<longrightarrow> \<not> map Key (gs ! i) ! j < target"
      proof (intro allI impI)
        fix j assume j: "Suc m \<le> j \<and> j < length (map Key (gs ! i))"
        then have "j = Suc m \<or> Suc m < j" by linarith
        then show "\<not> map Key (gs ! i) ! j < target" using sorted_wrt_nth_less [OF assms(2), of "Suc m" j] False j by auto
      qed
    qed
    then show ?thesis unfolding s Let_def using False m(1) by auto
  qed
qed

lemma seek_finds:
  assumes "list_all2 (list_all2 full_key) gs kss" "sorted_wrt (<) (concat kss)" "\<forall>i < length gs. tail_reads tail target (hd (gs ! i)) (hd (kss ! i))"
  shows "\<exists>it. SearchLeafIter r target tail = Inr (sought (concat gs) (concat kss) target it) \<and>
    at_entry it (min (Suc (rank (concat kss) target)) (length (concat gs)))"
proof (cases "concat gs = []")
  case True
  have "length (concat kss) = length (concat gs)"
    using assms(1) by (simp add: length_concat) (induction rule: list_all2_induct, auto dest: list_all2_lengthD)
  then have k: "concat kss = []" using True by (metis length_0_conv)
  have c: "r_count r = 0" using counted(1) True by (metis list.size(3))
  have "at_entry (new_iter r) (length (concat gs))" using c counted(1) by (intro past_at) (simp_all add: new_iter_def)
  then show ?thesis unfolding k sought_def SearchLeafIter_def using True c by (auto simp: rank_def simp del: concat_eq_Nil_conv)
next
  case False
  have ml: "map length kss = map length gs" using assms(1) by (induction rule: list_all2_induct) (auto dest: list_all2_lengthD)
  then have lk: "length kss = length gs" by (metis length_map)
  have gi: "gs ! i \<noteq> []" "length (kss ! i) = length (gs ! i)" "\<And>m. m < length (gs ! i) \<Longrightarrow> full_key (gs ! i ! m) (kss ! i ! m)" "sorted_wrt (<) (kss ! i)" if i: "i < length gs" for i
  proof -
    have l: "list_all2 full_key (gs ! i) (kss ! i)" using assms(1) i by (simp add: list_all2_conv_all_nth)
    then show "length (kss ! i) = length (gs ! i)" "\<And>m. m < length (gs ! i) \<Longrightarrow> full_key (gs ! i ! m) (kss ! i ! m)" by (simp_all add: list_all2_conv_all_nth)
    show "gs ! i \<noteq> []" using groups i by simp
    show "sorted_wrt (<) (kss ! i)" using assms(2) concat_split [of i kss] i lk by (simp add: sorted_wrt_append)
  qed
  have pr: "probe target tail i = Inr (Compare (hd (kss ! i)) target)" if i: "i < length gs" for i
  proof -
    have "hd (gs ! i) = gs ! i ! 0" "hd (kss ! i) = kss ! i ! 0" using gi(1,2) [OF i] by (simp_all add: hd_conv_nth) (metis hd_conv_nth length_0_conv)
    then have "full_key (hd (gs ! i)) (hd (kss ! i))" using gi(1,3) [OF i] by simp
    then show ?thesis using probes [OF i] assms(3) i by blast
  qed
  obtain lo found where b: "bsearch3 (probe target tail) 0 (length gs) = Inr (lo, found)" "lo \<le> length gs"
    "found \<Longrightarrow> lo < length gs \<and> rank (concat kss) target = starts gs lo \<and> target \<in> set (concat kss)"
    "\<not> found \<Longrightarrow> lo = 0 \<Longrightarrow> rank (concat kss) target = 0 \<and> target \<notin> set (concat kss)"
    "\<not> found \<Longrightarrow> 0 < lo \<Longrightarrow> hd (kss ! (lo - 1)) < target \<and> rank (concat kss) target = starts gs (lo - 1) + rank (kss ! (lo - 1)) target \<and>
      (target \<in> set (concat kss)) = (target \<in> set (kss ! (lo - 1)))"
    using group_located [OF ml groups assms(2) pr] by metis
  have head: "0 < length (gs ! g)" "gs ! g ! 0 = hd (gs ! g)" "concat gs ! starts gs g = hd (gs ! g)" "starts gs g < length (concat gs)"
      "min (Suc (starts gs g)) (length (concat gs)) = Suc (starts gs g)" if g: "g < length gs" for g
  proof -
    show z: "0 < length (gs ! g)" "gs ! g ! 0 = hd (gs ! g)" using gi(1) [OF g] by (simp_all add: hd_conv_nth)
    show "concat gs ! starts gs g = hd (gs ! g)" "starts gs g < length (concat gs)" using nth_starts [OF g z(1)] starts_in [OF g z(1)] z(2) by simp_all
    then show "min (Suc (starts gs g)) (length (concat gs)) = Suc (starts gs g)" by (simp add: min_def)
  qed
  have past: "at_entry (iter_past r (starts gs g) (pos (Suc (starts gs g))) (Key (hd (gs ! g))) (starts gs (Suc g)) (int g + 1)) (Suc (starts gs g))" if g: "g < length gs" for g
    using past_entry [OF g head(1) [OF g], of "starts gs g"] head(2) [OF g] by simp
  note sk = seeks [OF False, of target tail, unfolded b(1) bind_res.simps prod.case]
  consider (hit) found | (before) "\<not> found" "lo = 0" | (walk) "\<not> found" "0 < lo" by blast
  then show ?thesis
  proof cases
    case hit
    then have h: "lo < length gs" "rank (concat kss) target = starts gs lo" "target \<in> set (concat kss)" using b(3) by blast+
    show ?thesis unfolding sk using hit hits [OF h(1)] past [OF h(1)] head(3-5) [OF h(1)] h(2,3) by (auto simp: sought_def Let_def)
  next
    case before
    then have h: "rank (concat kss) target = 0" "target \<notin> set (concat kss)" using b(4) by blast+
    have g: "0 < length gs" using False by (cases gs) auto
    have z: "starts gs 0 = 0" by (simp add: starts_def)
    show ?thesis unfolding sk using before restarts_at [OF g] past [OF g] head(3-5) [OF g] h z by (simp add: sought_def Let_def del: concat_eq_Nil_conv)
  next
    case walk
    define i where "i = lo - 1"
    have i: "i < length gs" "lo = Suc i" "int lo - 1 = int i" using walk(2) b(2) by (auto simp: i_def)
    have h: "hd (kss ! i) < target" "rank (concat kss) target = starts gs i + rank (kss ! i) target" "(target \<in> set (concat kss)) = (target \<in> set (kss ! i))"
      using b(5) [OF walk] by (simp_all add: i_def)
    note st = starts_Suc [OF i(1)]
    let ?k = "rank (kss ! i) target"
    have le: "?k \<le> length (gs ! i)" using gi(2) [OF i(1)] by (simp add: rank_def) (metis length_filter_le)
    have mem: "(target \<in> set (kss ! i)) = (?k < length (gs ! i) \<and> kss ! i ! ?k = target)"
      using bs3.ranks(2) [OF gi(4) [OF i(1)], of "\<lambda>j. Inr (Compare (kss ! i ! j) target) :: node_err + int", OF refl] gi(2) [OF i(1)]
      by (metis nth_mem)
    have w: "walk target (starts gs (Suc i)) (int i) (length (gs ! i) - 1) (starts gs i + 1) (pos (starts gs i + 1)) (Key (hd (gs ! i))) =
      (let e = gs ! i ! ?k; idx = starts gs i + ?k; it = iter_past r idx (pos (Suc idx)) (Key e) (starts gs (Suc i)) (int i + 1) in
       Inr (if ?k < length (gs ! i) then Some (idx, if kss ! i ! ?k = target then e\<lparr>Key := []\<rparr> else e, kss ! i ! ?k = target, it) else None))"
    proof (cases "length (gs ! i) = 1")
      case True
      then obtain x where "kss ! i = [x]" using gi(2) [OF i(1)] by (metis One_nat_def length_0_conv length_Suc_conv)
      then have "?k = 1" using h(1) by (simp add: rank_def)
      then show ?thesis using True by (simp add: walk_end Let_def)
    next
      case False
      then have ge: "1 < length (gs ! i)" using head(1) [OF i(1)] by linarith
      have "kss ! i ! m = Key (gs ! i ! m)" if m: "m < length (gs ! i)" for m
        using gi(3) [OF i(1) m] plain_keys [OF i(1), of m] plain_keys [OF i(1), of 1] ge m by (cases m) (auto simp: full_key_def)
      then have ks: "kss ! i = map Key (gs ! i)" using gi(2) [OF i(1)] by (simp add: list_eq_iff_nth_eq)
      have z: "Key (gs ! i ! 0) < target" using h(1) ks head(1,2) [OF i(1)] by (simp add: hd_map)
      have "Suc 0 + (length (gs ! i) - 1) = length (gs ! i)" using head(1) [OF i(1)] by simp
      from walk_finds [OF i(1) _ head(1) [OF i(1)] z this] gi(4) [OF i(1)] show ?thesis
        unfolding ks using head(2) [OF i(1)] by (auto simp: Let_def)
    qed
    note t = table(2,3) [OF i(1)]
    have run: "SearchLeafIter r target tail = bind_res (walk target (starts gs (Suc i)) (int i) (length (gs ! i) - 1) (starts gs i + 1) (pos (starts gs i + 1)) (Key (hd (gs ! i))))
       (\<lambda>res. case res of Some x \<Rightarrow> Inr x
        | None \<Rightarrow> if starts gs (Suc i) \<ge> length (concat gs) then Inr (starts gs (Suc i), no_entry, False, rest) else from_restart (Suc i))"
      unfolding sk using walk by (simp add: i(2) t st counted(1))
    show ?thesis
    proof (cases "?k < length (gs ! i)")
      case True
      have e: "concat gs ! (starts gs i + ?k) = gs ! i ! ?k" "starts gs i + ?k < length (concat gs)" using nth_starts [OF i(1) True] starts_in [OF i(1) True] by simp_all
      show ?thesis unfolding run w using True past_entry [OF i(1) True refl] e h(2,3) mem by (auto simp: sought_def Let_def)
    next
      case f: False
      then have k: "?k = length (gs ! i)" using le by simp
      then have n: "target \<notin> set (concat kss)" "rank (concat kss) target = starts gs (Suc i)" using mem h(2,3) st by simp_all
      have run2: "SearchLeafIter r target tail =
          (if starts gs (Suc i) \<ge> length (concat gs) then Inr (starts gs (Suc i), no_entry, False, rest) else from_restart (Suc i))"
        unfolding run w using f by (simp add: Let_def)
      show ?thesis
      proof (cases "Suc i < length gs")
        case True
        show ?thesis unfolding run2 using restarts_at [OF True] past [OF True] head(3-5) [OF True] n by (auto simp: sought_def Let_def)
      next
        case False
        then have "Suc i = length gs" using i(1) by linarith
        then have "starts gs (Suc i) = length (concat gs)" using starts_end [of gs] by simp
        then show ?thesis unfolding run2 using past_at [OF rest_past] n by (auto simp: sought_def Let_def)
      qed
    qed
  qed
qed

end

end
