(* ===== verification/Leaf_Walks.thy ===== *)
theory Leaf_Walks
  imports Leaf_Seek
begin

text \<open>
  The two compressed layouts under the iterator: what the streaming moves and the positioned lookups
  decode on a page of each, as interpretations of the contracts of iteration and of lookup. A page
  of a layout is a type of its own, so that one interpretation covers all of them.
\<close>

section \<open>Interleaved leaves\<close>

definition comp_pos :: "LeafEntry list list \<Rightarrow> nat \<Rightarrow> nat" where
  "comp_pos gs j = stream_off 12 (concat (map group_chunks gs)) j"

lemma length_group_chunks: "g \<noteq> [] \<Longrightarrow> length (group_chunks g) = length g"
proof -
  have "length (deltas p es) = length es" for p es by (induction es arbitrary: p) auto
  then show "g \<noteq> [] \<Longrightarrow> ?thesis" by (cases g) (simp_all add: group_chunks_def)
qed

lemma deltas_nth: "m < length es \<Longrightarrow> deltas p es ! m = delta_bytes (sharedPrefixLen (if m = 0 then p else Key (es ! (m - 1))) (Key (es ! m))) (es ! m)"
  by (induction es arbitrary: p m) (auto simp: nth_Cons' split: if_splits)

lemma group_chunks_nth:
  "group_chunks g ! 0 = full_bytes (hd g)"
  "Suc m < length g \<Longrightarrow> group_chunks g ! Suc m = delta_bytes (sharedPrefixLen (Key (g ! m)) (Key (g ! Suc m))) (g ! Suc m)"
  by (simp_all add: group_chunks_def) (cases g; simp add: deltas_nth nth_Cons')

lemma starts_chunks: "\<forall>g \<in> set gs. g \<noteq> [] \<Longrightarrow> starts (map group_chunks gs) i = starts gs i"
  by (simp add: starts_def take_map comp_def length_group_chunks) (metis (mono_tags, lifting) in_set_takeD length_group_chunks map_eq_conv)

lemma concat_concat: "concat (concat (map f xs)) = concat (map (\<lambda>x. concat (f x)) xs)"
  by (induction xs) simp_all

lemma comp_chunk:
  assumes "comp_layout cfg gs buf" "\<forall>g \<in> set gs. g \<noteq> []" "i < length gs" "m < length (gs ! i)"
  shows "holds buf (comp_pos gs (starts gs i + m)) (group_chunks (gs ! i) ! m)"
    "comp_pos gs (Suc (starts gs i + m)) = comp_pos gs (starts gs i + m) + length (group_chunks (gs ! i) ! m)"
    "comp_pos gs (starts gs i) = stream_off 12 (comp_stream gs) i"
proof -
  let ?cs = "concat (map group_chunks gs)" and ?j = "starts gs i + m"
  have l: "length (group_chunks (gs ! i)) = length (gs ! i)" using assms(2,3) by (simp add: length_group_chunks)
  have n: "?cs ! ?j = group_chunks (gs ! i) ! m" "?j < length ?cs"
    using nth_starts [of i "map group_chunks gs" m] starts_in [of i "map group_chunks gs" m] starts_chunks [OF assms(2)] assms(3,4) l by simp_all
  have c: "concat ?cs = concat (comp_stream gs)" by (rule concat_concat)
  have "holds buf 12 (concat ?cs)" using assms(1) unfolding c by (simp add: comp_layout_def Let_def)
  from holds_stream [OF this n(2)] n(1) show "holds buf (comp_pos gs ?j) (group_chunks (gs ! i) ! m)" by (simp add: comp_pos_def)
  show "comp_pos gs (Suc ?j) = comp_pos gs ?j + length (group_chunks (gs ! i) ! m)" using stream_off_Suc [OF n(2)] n(1) by (simp add: comp_pos_def)
  have "sum_list (map length (take (length (concat xs)) (concat xs @ ys))) = length (concat (concat xs))" for xs and ys :: "bytes list"
    by (simp add: length_concat)
  from this [of "take i (map group_chunks gs)" "concat (drop i (map group_chunks gs))"]
  have "sum_list (map length (take (starts gs i) ?cs)) = length (concat (concat (take i (map group_chunks gs))))"
    using starts_chunks [OF assms(2), of i] by (metis append_take_drop_id concat_append starts_concat)
  also have "concat (concat (take i (map group_chunks gs))) = concat (take i (comp_stream gs))"
    by (simp add: take_map concat_concat)
  finally show "comp_pos gs (starts gs i) = stream_off 12 (comp_stream gs) i" by (simp add: comp_pos_def stream_off_def length_concat)
qed

lemma comp_decodes:
  assumes "comp_layout cfg gs buf" "Validate cfg = None" "\<forall>g \<in> set gs. group_ok cfg g" "i < length gs"
  shows "decodeFullKeyEntry buf (comp_pos gs (starts gs i)) = Inr (hd (gs ! i), comp_pos gs (Suc (starts gs i)))"
    "restart_entry (comp_reader cfg gs buf) (int i) = Inr (hd (gs ! i), comp_pos gs (Suc (starts gs i)))"
    "Suc m < length (gs ! i) \<Longrightarrow> decodeDeltaEntry buf (comp_pos gs (starts gs i + Suc m)) (Key (gs ! i ! m)) =
      Inr (gs ! i ! Suc m, comp_pos gs (Suc (starts gs i + Suc m)))"
proof -
  have ne: "\<forall>g \<in> set gs. g \<noteq> []" using assms(3) by (simp add: group_ok_def)
  then have g: "gs ! i \<noteq> []" using assms(4) by simp
  then have z: "0 < length (gs ! i)" by simp
  note c = comp_chunk [OF assms(1) ne assms(4)]
  have e: "comp_pos gs (Suc (starts gs i)) = stream_off 12 (comp_stream gs) i + length (full_bytes (hd (gs ! i)))"
    using c(2,3) [OF z] group_chunks_nth(1) [of "gs ! i"] by simp
  then show r: "restart_entry (comp_reader cfg gs buf) (int i) = Inr (hd (gs ! i), comp_pos gs (Suc (starts gs i)))" using comp_group(1) [OF assms] by simp
  then show "decodeFullKeyEntry buf (comp_pos gs (starts gs i)) = Inr (hd (gs ! i), comp_pos gs (Suc (starts gs i)))"
    using comp_table(1) [OF assms(1,4)] c(3) [OF z] by (simp add: restart_entry_def) (simp add: comp_reader_def)
  assume m: "Suc m < length (gs ! i)"
  let ?x = "gs ! i ! Suc m"
  have t: "?x \<in> set (tl (gs ! i))" using m by (metis length_tl Suc_less_eq diff_Suc_1 list.collapse g nth_Cons_Suc nth_mem length_Cons)
  have "delta_after (Key (gs ! i ! m)) (sharedPrefixLen (Key (gs ! i ! m)) (Key ?x)) ?x" using comp_group(4) [OF assms] t by (intro spl_after) blast
  moreover have "shape_ok ?x" "length (Key ?x) < 65536" "length (Value ?x) < 4294967296"
    using comp_group(3,4) [OF assms] t by (auto simp: small_values_def)
  ultimately show "decodeDeltaEntry buf (comp_pos gs (starts gs i + Suc m)) (Key (gs ! i ! m)) = Inr (?x, comp_pos gs (Suc (starts gs i + Suc m)))"
    using decode_delta [of ?x] c(1,2) [OF m] unfolding group_chunks_nth(2) [OF m] by simp
qed

text \<open>Only a restart entry alone in its group has an overflow key.\<close>

lemma group_plain:
  assumes "group_ok cfg g" "0 < m" "m < length g"
  shows "\<not> IsOverflowKey (g ! 0) \<and> \<not> IsOverflowKey (g ! m)"
proof -
  obtain x xs where "g = x # xs" "0 < length xs" "g ! m \<in> set xs" using assms(2,3) by (cases g; cases m) fastforce+
  then show ?thesis using assms(1) by (simp add: group_ok_def)
qed

text \<open>A page of this layout, as a type of its own.\<close>

lemma empty_page:
  assumes "leaf_format v nm built layout_of rds" "EffectiveLeafType (demo_leaf_cfg 6 l) = v" "l \<le> 2"
  shows "Validate (demo_leaf_cfg 6 l) = None" "\<exists>page. layout_of (demo_leaf_cfg 6 l) [] page"
proof -
  show c: "Validate (demo_leaf_cfg 6 l) = None" using assms(3) by (intro demo_leaf_cfg_valid) simp_all
  have n: "length (replicate 4096 0) = unat (PageSize (demo_leaf_cfg 6 l))" by (simp add: demo_leaf_cfg_def)
  obtain b where "built (demo_leaf_cfg 6 l) [] b" using leaf_format.starts_empty [OF assms(1) c assms(2) n] by blast
  then show "\<exists>page. layout_of (demo_leaf_cfg 6 l) [] page" using leaf_format.finishes [OF assms(1) _ c] by blast
qed

typedef comp_leaf = "{(cfg, gs, buf). Validate cfg = None \<and> comp_layout cfg gs buf \<and> (\<forall>g \<in> set gs. group_ok cfg g)}"
proof -
  have t: "EffectiveLeafType (demo_leaf_cfg 6 1) = TypeLeaf"
    by (simp add: demo_leaf_cfg_def EffectiveLeafType_def EffectiveRestartGroupTarget_def LeafLayoutInterleaved_def)
  show ?thesis using empty_page [OF comp.leaf_format_axioms t] by auto
qed

definition cl_cfg :: "comp_leaf \<Rightarrow> Config" where "cl_cfg p = fst (Rep_comp_leaf p)"
definition cl_groups :: "comp_leaf \<Rightarrow> LeafEntry list list" where "cl_groups p = fst (snd (Rep_comp_leaf p))"
definition cl_buf :: "comp_leaf \<Rightarrow> bytes" where "cl_buf p = snd (snd (Rep_comp_leaf p))"
definition cl_reader :: "comp_leaf \<Rightarrow> LeafReader" where "cl_reader p = comp_reader (cl_cfg p) (cl_groups p) (cl_buf p)"

lemma comp_leaf_page:
  "Validate (cl_cfg p) = None" "comp_layout (cl_cfg p) (cl_groups p) (cl_buf p)" "\<forall>g \<in> set (cl_groups p). group_ok (cl_cfg p) g"
  using Rep_comp_leaf [of p] by (auto simp: cl_cfg_def cl_groups_def cl_buf_def)

lemma comp_leaf_ex:
  assumes "Validate cfg = None" "comp_layout cfg gs buf" "\<forall>g \<in> set gs. group_ok cfg g"
  obtains p where "cl_groups p = gs" "cl_reader p = comp_reader cfg gs buf"
  using that [of "Abs_comp_leaf (cfg, gs, buf)"] Abs_comp_leaf_inverse [of "(cfg, gs, buf)"] assms
  by (simp add: cl_reader_def cl_cfg_def cl_groups_def cl_buf_def)

lemma comp_reader_fields [simp]:
  "r_buf (comp_reader cfg gs buf) = buf" "r_count (comp_reader cfg gs buf) = length (concat gs)" "r_variant (comp_reader cfg gs buf) = TypeLeaf"
  "restartCount (r_rt (comp_reader cfg gs buf)) = length gs" "r_valueEnd (comp_reader cfg gs buf) = 0"
  "is_uc (comp_reader cfg gs buf) = False" "is_seg (comp_reader cfg gs buf) = False"
  by (simp_all add: comp_reader_def newRestartTable_def is_uc_def is_seg_def page_types)

lemma comp_advances:
  assumes "comp_layout cfg gs buf" "Validate cfg = None" "\<forall>g \<in> set gs. group_ok cfg g"
    and "on_stream (comp_reader cfg gs buf) gs (comp_pos gs) endv it" "positioned gs (comp_pos gs) it g m"
  shows "stream_next it = Inr (gs ! g ! m, moved it (comp_pos gs (Suc (it_idx it))) (Key (gs ! g ! m)) (starts gs (Suc g)) (int g + 1))"
proof -
  note p = assms(5) [unfolded positioned_def]
  have f: "it_r it = comp_reader cfg gs buf" "it_variant it = TypeLeaf" using assms(4) by (simp_all add: on_stream_def)
  have g: "g < length gs" "gs ! g \<noteq> []" using p by auto
  have n: "TypeLeaf \<noteq> TypeLeafSegregated" by (simp add: page_types)
  note d = comp_decodes [OF assms(1-3) g(1)]
  show ?thesis
  proof (cases m)
    case 0
    then have z: "gs ! g ! 0 = hd (gs ! g)" using g(2) by (simp add: hd_conv_nth)
    show ?thesis using p 0 z f n d(1) comp_table(2) [OF assms(1) g(1)] starts_Suc [OF g(1)]
      by (simp add: stream_next_def comp_stream_next_def Let_def moved_def)
  next
    case (Suc k)
    have i: "it_idx it \<noteq> it_nextRestart it" using p Suc starts_Suc [OF g(1)] by auto
    have "it = it\<lparr>it_nextRestart := starts gs (Suc g), it_groupIdx := int g + 1\<rparr>" using p Suc by (cases it) simp
    then have r: "it\<lparr>it_off := off, it_prevKey := key, it_idx := Suc (it_idx it)\<rparr> = moved it off key (starts gs (Suc g)) (int g + 1)" for off key
      by (cases it) (simp add: moved_def)
    show ?thesis using p Suc f n i d(3) [of k] r by (simp add: stream_next_def comp_stream_next_def Let_def)
  qed
qed

lemma comp_seeks:
  assumes "comp_layout cfg gs buf" "Validate cfg = None" "\<forall>g \<in> set gs. group_ok cfg g" "concat gs \<noteq> []"
  defines "r \<equiv> comp_reader cfg gs buf"
  shows "SearchLeafIter r target tail =
    bind_res (bsearch3 (\<lambda>mid. bind_res (restart_entry r (int mid)) (\<lambda>(e, _). compareEntryKey e target tail)) 0 (length gs)) (\<lambda>(lo, found).
      if found then bind_res (restart_entry r (int lo)) (\<lambda>(e, off).
         bind_res (rt_GroupStartIndex (r_rt r) lo) (\<lambda>idx.
         bind_res (rt_GroupEntryCount (r_rt r) (int lo)) (\<lambda>gc.
         Inr (idx, e\<lparr>Key := []\<rparr>, True, iter_past r idx off (Key e) (idx + gc) (int lo + 1)))))
      else if lo = 0 then iterFromGroupRestart r 0
      else
        bind_res (rt_GroupStartIndex (r_rt r) (lo - 1)) (\<lambda>startIdx.
        bind_res (rt_GroupEntryCount (r_rt r) (int lo - 1)) (\<lambda>gc.
        bind_res (comp_iter_walk r target (startIdx + gc) (int lo - 1) (gc - 1) (startIdx + 1) (comp_pos gs (startIdx + 1)) (Key (hd (gs ! (lo - 1))))) (\<lambda>res.
        case res of Some x \<Rightarrow> Inr x
        | None \<Rightarrow> if startIdx + gc \<ge> r_count r then Inr (startIdx + gc, no_entry, False, (new_iter r)\<lparr>it_idx := r_count r\<rparr>) else iterFromGroupRestart r lo))))"
    (is "_ = bind_res ?b ?k")
proof -
  have v: "r_count r \<noteq> 0" "r_variant r \<noteq> TypeLeafUncompressed" "r_variant r \<noteq> TypeLeafSegregated" "restartCount (r_rt r) = length gs"
    using assms(4) by (simp_all add: r_def page_types del: concat_eq_Nil_conv)
  have "compressedSearchLeafIter r target tail = bind_res ?b ?k"
  proof (cases ?b)
    case (Inr x)
    obtain lo found where x: "x = (lo, found)" by (cases x) auto
    have l: "lo \<le> length gs" using bsearch3_said [OF Inr [unfolded x] le0] by blast
    have "restart_entry r (int lo - 1) = Inr (hd (gs ! (lo - 1)), comp_pos gs (starts gs (lo - 1) + 1))"
        "rt_GroupStartIndex (r_rt r) (lo - 1) = Inr (starts gs (lo - 1))" if "lo \<noteq> 0"
      using comp_decodes(2) [OF assms(1-3), of "lo - 1"] comp_table(3) [OF assms(1), of "lo - 1"] l that by (simp_all add: r_def of_nat_diff)
    then show ?thesis unfolding compressedSearchLeafIter_def v(4) Inr x bind_res.simps prod.case
      by (cases found; cases "lo = 0") (simp_all del: of_nat_diff)
  qed (simp add: compressedSearchLeafIter_def v(4))
  then show ?thesis using v(1-3) by (simp only: SearchLeafIter_def if_False)
qed

interpretation comp_iter: leaf_seek "cl_reader p" "cl_groups p" "comp_pos (cl_groups p)" "\<lambda>_. 0"
  "\<lambda>target tail mid. bind_res (restart_entry (cl_reader p) (int mid)) (\<lambda>(e, _). compareEntryKey e target tail)"
  "\<lambda>lo. bind_res (restart_entry (cl_reader p) (int lo)) (\<lambda>(e, off). bind_res (rt_GroupStartIndex (r_rt (cl_reader p)) lo) (\<lambda>idx.
     bind_res (rt_GroupEntryCount (r_rt (cl_reader p)) (int lo)) (\<lambda>gc. Inr (idx, e\<lparr>Key := []\<rparr>, True, iter_past (cl_reader p) idx off (Key e) (idx + gc) (int lo + 1)))))"
  "comp_iter_walk (cl_reader p)" "iterFromGroupRestart (cl_reader p)" "(new_iter (cl_reader p))\<lparr>it_idx := r_count (cl_reader p)\<rparr>" for p
proof (unfold_locales)
  note P = comp_leaf_page(2,1,3) [of p]
  let ?r = "cl_reader p" and ?gs = "cl_groups p" and ?pos = "comp_pos (cl_groups p)"
  note T = comp_table [OF P(1), folded cl_reader_def] and D = comp_decodes [OF P, folded cl_reader_def] and S = starts_Suc [of _ ?gs]
  have R: "r_buf ?r = cl_buf p" "r_count ?r = length (concat ?gs)" "r_variant ?r = TypeLeaf" "restartCount (r_rt ?r) = length ?gs" "r_valueEnd ?r = 0"
    "is_uc ?r = False" "is_seg ?r = False" by (simp_all add: cl_reader_def)
  show ne: "\<forall>g \<in> set ?gs. g \<noteq> []" using P(3) by (simp add: group_ok_def)
  show "r_count ?r = length (concat ?gs)" "restartCount (r_rt ?r) = length ?gs" "r_valueEnd ?r = 0" by (rule R)+
  show "r_variant ?r \<noteq> TypeLeafUncompressed" by (simp add: R page_types)
  show "(if is_seg ?r then r_valueEnd ?r else 0) = 0" by (simp add: R)
  show to: "rt_Offset (r_rt ?r) (int i) = Inr (?pos (starts ?gs i))" "rt_GroupEntryCount (r_rt ?r) (int i) = Inr (length (?gs ! i))"
      "rt_GroupStartIndex (r_rt ?r) i = Inr (starts ?gs i)" if i: "i < length ?gs" for i
    using comp_chunk(3) [OF P(1) ne i, of 0] ne i T [OF i] by simp_all
  show "IterForReuse ?r = (new_iter ?r)\<lparr>it_off := ?pos 0, it_segEndVOff := 0\<rparr>"
    by (simp add: IterForReuse_def R comp_pos_def leafEntryStart_def HeaderSize_def new_iter_def)
  show "groupIter ?r (int i) = Inr ((new_iter ?r)\<lparr>it_idx := starts ?gs i, it_startIdx := starts ?gs i, it_endIdx := starts ?gs (Suc i),
      it_off := ?pos (starts ?gs i), it_nextRestart := starts ?gs i, it_groupIdx := int i, it_segEndVOff := 0\<rparr>)" if i: "i < length ?gs" for i
    using to [OF i] S [OF i] by (simp add: groupIter_def R Let_def new_iter_def)
  show "stream_next it = Inr (?gs ! g ! m, moved it (?pos (Suc (it_idx it))) (Key (?gs ! g ! m)) (starts ?gs (Suc g)) (int g + 1))"
    if "on_stream ?r ?gs ?pos (\<lambda>_. 0) it" "positioned ?gs ?pos it g m" for it g m
    using comp_advances [OF P _ that(2), folded cl_reader_def] that(1) .
  show "bind_res (restart_entry ?r (int i)) (\<lambda>(e, _). compareEntryKey e target tail) = Inr (Compare k target)"
    if "i < length ?gs" "full_key (hd (?gs ! i)) k" "tail_reads tail target (hd (?gs ! i)) k" for i k target tail
    using D(2) [OF that(1)] compareEntryKey_full [OF that(2,3)] by simp
  show "bind_res (restart_entry ?r (int i)) (\<lambda>(e, off). bind_res (rt_GroupStartIndex (r_rt ?r) i) (\<lambda>idx.
      bind_res (rt_GroupEntryCount (r_rt ?r) (int i)) (\<lambda>gc. Inr (idx, e\<lparr>Key := []\<rparr>, True, iter_past ?r idx off (Key e) (idx + gc) (int i + 1))))) =
    Inr (starts ?gs i, (hd (?gs ! i))\<lparr>Key := []\<rparr>, True, iter_past ?r (starts ?gs i) (?pos (Suc (starts ?gs i))) (Key (hd (?gs ! i))) (starts ?gs (Suc i)) (int i + 1))"
    if i: "i < length ?gs" for i
    using D(2) [OF i] to [OF i] S [OF i] by simp
  show "iterFromGroupRestart ?r i =
    Inr (starts ?gs i, hd (?gs ! i), False, iter_past ?r (starts ?gs i) (?pos (Suc (starts ?gs i))) (Key (hd (?gs ! i))) (starts ?gs (Suc i)) (int i + 1))"
    if i: "i < length ?gs" for i
    using D(2) [OF i] to [OF i] S [OF i] by (simp add: iterFromGroupRestart_def)
  show "comp_iter_walk ?r target nr g 0 idx off key = Inr None" for target nr g idx off key by simp
  show "comp_iter_walk ?r target nr g (Suc n) idx (?pos idx) (Key (?gs ! i ! m)) =
      (let e = ?gs ! i ! Suc m; it = iter_past ?r idx (?pos (Suc idx)) (Key e) nr (g + 1)
       in if Key e = target then Inr (Some (idx, e\<lparr>Key := []\<rparr>, True, it)) else if target < Key e then Inr (Some (idx, e, False, it))
          else comp_iter_walk ?r target nr g n (Suc idx) (?pos (Suc idx)) (Key e))"
    if "i < length ?gs" "Suc m < length (?gs ! i)" "idx = starts ?gs i + Suc m" for i m idx n target nr g
  proof -
    have "decodeDeltaEntry (cl_buf p) (?pos idx) (Key (?gs ! i ! m)) = Inr (?gs ! i ! Suc m, ?pos (Suc idx))" using D(3) [OF that(1,2)] that(3) by simp
    then show ?thesis by (simp add: R(1) Let_def)
  qed
  show "it_r ((new_iter ?r)\<lparr>it_idx := r_count ?r\<rparr>) = ?r" "it_variant ((new_iter ?r)\<lparr>it_idx := r_count ?r\<rparr>) = r_variant ?r"
    "it_startIdx ((new_iter ?r)\<lparr>it_idx := r_count ?r\<rparr>) = 0" "it_endIdx ((new_iter ?r)\<lparr>it_idx := r_count ?r\<rparr>) = length (concat ?gs)"
    "it_idx ((new_iter ?r)\<lparr>it_idx := r_count ?r\<rparr>) = length (concat ?gs)" "\<not> it_buffered ((new_iter ?r)\<lparr>it_idx := r_count ?r\<rparr>)"
    by (simp_all add: new_iter_def R)
  show "\<not> IsOverflowKey (?gs ! i ! 0) \<and> \<not> IsOverflowKey (?gs ! i ! m)" if "i < length ?gs" "0 < m" "m < length (?gs ! i)" for i m
    using group_plain [of "cl_cfg p" "?gs ! i" m] P(3) that by simp
qed (use comp_seeks [OF comp_leaf_page(2,1,3)] in \<open>simp only: cl_reader_def\<close>)

section \<open>Segregated leaves\<close>

typedef seg_leaf = "{(cfg, gs, buf). Validate cfg = None \<and> sleaf_layout cfg gs buf \<and> (\<forall>g \<in> set gs. sgroup_ok cfg g)}"
proof -
  have t: "EffectiveLeafType (demo_leaf_cfg 6 2) = TypeLeafSegregated"
    by (simp add: demo_leaf_cfg_def EffectiveLeafType_def EffectiveRestartGroupTarget_def LeafLayoutInterleaved_def)
  show ?thesis using empty_page [OF seg.leaf_format_axioms t] by auto
qed

definition sl_cfg :: "seg_leaf \<Rightarrow> Config" where "sl_cfg p = fst (Rep_seg_leaf p)"
definition sl_groups :: "seg_leaf \<Rightarrow> LeafEntry list list" where "sl_groups p = fst (snd (Rep_seg_leaf p))"
definition sl_buf :: "seg_leaf \<Rightarrow> bytes" where "sl_buf p = snd (snd (Rep_seg_leaf p))"
definition sl_reader :: "seg_leaf \<Rightarrow> LeafReader" where "sl_reader p = sleaf_reader (sl_cfg p) (sl_groups p) (sl_buf p)"

lemma seg_leaf_page:
  "Validate (sl_cfg p) = None" "sleaf_layout (sl_cfg p) (sl_groups p) (sl_buf p)" "\<forall>g \<in> set (sl_groups p). sgroup_ok (sl_cfg p) g"
  using Rep_seg_leaf [of p] by (auto simp: sl_cfg_def sl_groups_def sl_buf_def)

lemma seg_leaf_ex:
  assumes "Validate cfg = None" "sleaf_layout cfg gs buf" "\<forall>g \<in> set gs. sgroup_ok cfg g"
  obtains p where "sl_groups p = gs" "sl_reader p = sleaf_reader cfg gs buf"
  using that [of "Abs_seg_leaf (cfg, gs, buf)"] Abs_seg_leaf_inverse [of "(cfg, gs, buf)"] assms
  by (simp add: sl_reader_def sl_cfg_def sl_groups_def sl_buf_def)

lemma sleaf_reader_fields [simp]:
  "r_buf (sleaf_reader cfg gs buf) = buf" "r_count (sleaf_reader cfg gs buf) = length (concat gs)" "r_variant (sleaf_reader cfg gs buf) = TypeLeafSegregated"
  "restartCount (r_rt (sleaf_reader cfg gs buf)) = length gs" "r_valueEnd (sleaf_reader cfg gs buf) = value_end cfg gs"
  "is_uc (sleaf_reader cfg gs buf) = False" "is_seg (sleaf_reader cfg gs buf) = True"
  by (simp_all add: sleaf_reader_def newRestartTable_def is_uc_def is_seg_def page_types)

lemma seg_advances:
  assumes "sleaf_layout cfg gs buf" "Validate cfg = None" "\<forall>g \<in> set gs. sgroup_ok cfg g"
    and "on_stream (sleaf_reader cfg gs buf) gs (piece_off (pieces gs)) (voff cfg gs) it" "positioned gs (piece_off (pieces gs)) it g m" "it_idx it < it_endIdx it"
  shows "stream_next it = Inr (gs ! g ! m, moved it (piece_off (pieces gs) (Suc (it_idx it))) (Key (gs ! g ! m)) (starts gs (Suc g)) (int g + 1))"
proof -
  let ?r = "sleaf_reader cfg gs buf"
  note p = assms(5) [unfolded positioned_def]
  have f: "it_r it = ?r" "it_variant it = TypeLeafSegregated" "it_segEndVOff it = voff cfg gs (it_endIdx it)" "it_endIdx it \<le> length (concat gs)"
    using assms(4,6) by (simp_all add: on_stream_def)
  have g: "g < length gs" "m < length (gs ! g)" "it_idx it = starts gs g + m" using p by auto
  have e: "segReadVOff buf (piece_off (pieces gs) (Suc (it_idx it))) (Suc (it_idx it) = starts gs (Suc g)) = Inr (voff cfg gs (Suc (it_idx it)))"
    if "Suc (it_idx it) < it_endIdx it"
  proof -
    have "(Suc m = length (gs ! g)) = (Suc (it_idx it) = starts gs (Suc g))" using g starts_Suc [OF g(1)] by auto
    then show ?thesis using sleaf_next_voff [OF assms(1-3) g(1,2)] that f(4) g(3) by (simp add: segNextVOff_def)
  qed
  have e2: "it_segEndVOff it = voff cfg gs (Suc (it_idx it))" if "\<not> Suc (it_idx it) < it_endIdx it"
  proof -
    have "it_endIdx it = Suc (it_idx it)" using that assms(6) by simp
    then show ?thesis using f(3) by simp
  qed
  have v: "segValueHalf buf (no_entry\<lparr>Flags := Flags (gs ! g ! m), Key := Key (gs ! g ! m)\<rparr>) (voff cfg gs (it_idx it)) (voff cfg gs (Suc (it_idx it))) = Inr (gs ! g ! m)"
    using sleaf_value [OF assms(1-3) g(1,2), of "Key (gs ! g ! m)"] g(3) by simp
  show ?thesis
  proof (cases m)
    case 0
    then have z: "gs ! g ! m = hd (gs ! g)" using g(2) by (simp add: hd_conv_nth)
    have d: "decodeSegRestart buf (it_off it) = Inr (Flags (gs ! g ! m), Key (gs ! g ! m), voff cfg gs (it_idx it), piece_off (pieces gs) (Suc (it_idx it)))"
      using sleaf_restart(1) [OF assms(1-3) g(1)] p 0 z by simp
    have t: "rt_GroupEntryCount (r_rt ?r) (it_groupIdx it) = Inr (length (gs ! g))" using sleaf_table(2) [OF assms(1) g(1)] p 0 by simp
    have n: "it_nextRestart it + length (gs ! g) = starts gs (Suc g)" "it_idx it = it_nextRestart it" "it_groupIdx it = int g" using p 0 starts_Suc [OF g(1)] by simp_all
    have i: "(it_idx it = it_nextRestart it) = True" using n(2) by simp
    show ?thesis unfolding stream_next_def f(2) seg_stream_next_def Let_def f(1) sleaf_reader_fields i
      using d t e e2 v n(1,3) by (cases "Suc (it_idx it) < it_endIdx it") (simp_all add: moved_def)
  next
    case (Suc k)
    have i: "(it_idx it = it_nextRestart it) = False" using p Suc starts_Suc [OF g(1)] by auto
    have d: "decodeSegDelta buf (it_off it) (it_prevKey it) = Inr (Flags (gs ! g ! m), Key (gs ! g ! m), voff cfg gs (it_idx it), piece_off (pieces gs) (Suc (it_idx it)))"
      using sleaf_delta(1) [OF assms(1-3) g(1) _ refl refl refl, of k] g(2,3) p Suc by simp
    have n: "it_nextRestart it = starts gs (Suc g)" "it_groupIdx it = int g + 1" using p Suc by simp_all
    have r: "it\<lparr>it_off := off, it_prevKey := key, it_idx := Suc (it_idx it)\<rparr> = moved it off key (starts gs (Suc g)) (int g + 1)" for off key
      using n by (cases it) (simp add: moved_def)
    show ?thesis unfolding stream_next_def f(2) seg_stream_next_def Let_def f(1) sleaf_reader_fields i
      using d e e2 v n(1) r by (cases "Suc (it_idx it) < it_endIdx it") simp_all
  qed
qed

lemma seg_seeks:
  assumes "sleaf_layout cfg gs buf" "Validate cfg = None" "\<forall>g \<in> set gs. sgroup_ok cfg g" "concat gs \<noteq> []"
  defines "r \<equiv> sleaf_reader cfg gs buf"
  shows "SearchLeafIter r target tail =
    bind_res (bsearch3 (\<lambda>mid. bind_res (seg_probe_entry r mid) (\<lambda>e. compareEntryKey e target tail)) 0 (length gs)) (\<lambda>(lo, found).
      if found then bind_res (seg_restart r (int lo)) (\<lambda>(flags, key, voff, off).
         bind_res (rt_GroupStartIndex (r_rt r) lo) (\<lambda>idx.
         bind_res (rt_GroupEntryCount (r_rt r) (int lo)) (\<lambda>gc.
         bind_res (segNextVOff r idx off (gc = 1)) (\<lambda>vend.
         bind_res (segValueHalf (r_buf r) (no_entry\<lparr>Flags := flags\<rparr>) voff vend) (\<lambda>e.
         Inr (idx, e, True, iter_past r idx off key (idx + gc) (int lo + 1)))))))
      else if lo = 0 then segIterFromGroupRestart r 0
      else
        bind_res (rt_GroupStartIndex (r_rt r) (lo - 1)) (\<lambda>startIdx.
        bind_res (rt_GroupEntryCount (r_rt r) (int lo - 1)) (\<lambda>gc.
        bind_res (seg_iter_walk r target (startIdx + gc) (int lo - 1) (gc - 1) (startIdx + 1) (piece_off (pieces gs) (startIdx + 1)) (Key (hd (gs ! (lo - 1))))) (\<lambda>res.
        case res of Some x \<Rightarrow> Inr x
        | None \<Rightarrow> if startIdx + gc \<ge> r_count r then Inr (startIdx + gc, no_entry, False, past_end r) else segIterFromGroupRestart r lo))))"
    (is "_ = bind_res ?b ?k")
proof -
  have v: "(r_count r = 0) = False" "(r_variant r = TypeLeafUncompressed) = False" "(r_variant r = TypeLeafSegregated) = True" "restartCount (r_rt r) = length gs"
    using assms(4) by (simp_all add: r_def page_types del: concat_eq_Nil_conv)
  have "segSearchLeafIter r target tail = bind_res ?b ?k"
  proof (cases ?b)
    case (Inr x)
    obtain lo found where x: "x = (lo, found)" by (cases x) auto
    have l: "lo \<le> length gs" using bsearch3_said [OF Inr [unfolded x] le0] by blast
    have "seg_restart r (int lo - 1) = Inr (Flags (hd (gs ! (lo - 1))), Key (hd (gs ! (lo - 1))), voff cfg gs (starts gs (lo - 1)), piece_off (pieces gs) (starts gs (lo - 1) + 1))"
        "rt_GroupStartIndex (r_rt r) (lo - 1) = Inr (starts gs (lo - 1))" if "lo \<noteq> 0"
      using sleaf_group_head [OF assms(1-3), of "lo - 1"] sleaf_table(3) [OF assms(1), of "lo - 1"] l that by (simp_all add: r_def of_nat_diff)
    then show ?thesis unfolding segSearchLeafIter_def v(4) Inr x bind_res.simps prod.case
      by (cases found; cases "lo = 0") (simp_all del: of_nat_diff)
  qed (simp add: segSearchLeafIter_def v(4))
  then show ?thesis unfolding SearchLeafIter_def v(1-3) if_False if_True .
qed

text \<open>What a lookup reads of a group: the entry its probes compare, the value of an entry in front of another one.\<close>

lemma seg_probe_reads:
  assumes "sleaf_layout cfg gs buf" "Validate cfg = None" "\<forall>g \<in> set gs. sgroup_ok cfg g" "i < length gs"
    and "full_key (hd (gs ! i)) k" "tail_reads tail target (hd (gs ! i)) k"
  shows "bind_res (seg_probe_entry (sleaf_reader cfg gs buf) i) (\<lambda>e. compareEntryKey e target tail) = Inr (Compare k target)"
proof -
  have ne: "gs ! i \<noteq> []" using assms(3,4) by (auto simp: sgroup_ok_def group_ok_def)
  have m0: "0 < length (gs ! i)" using ne by simp
  have hd0: "gs ! i ! 0 = hd (gs ! i)" using ne by (simp add: hd_conv_nth)
  note e0 = sleaf_entry [OF assms(1-4) m0, simplified, unfolded hd0]
  let ?e = "hd (gs ! i)"
  let ?z = "no_entry\<lparr>Flags := Flags ?e, Key := Key ?e, KeyExtPage := KeyExtPage ?e, KeyTotalLen := KeyTotalLen ?e\<rparr>"
  have "seg_probe_entry (sleaf_reader cfg gs buf) i = Inr ?z"
    unfolding seg_probe_entry_def using sleaf_group_head [OF assms(1-4)] seg_val_reads(2) [OF e0(6,2)] by simp
  moreover have "full_key ?z k" "tail_reads tail target ?z k" using assms(5,6) by (auto simp: full_key_def tail_reads_def IsOverflowKey_def)
  ultimately show ?thesis by (simp add: compareEntryKey_full)
qed

lemma seg_head_value:
  assumes "sleaf_layout cfg gs buf" "Validate cfg = None" "\<forall>g \<in> set gs. sgroup_ok cfg g" "i < length gs"
  shows "segNextVOff (sleaf_reader cfg gs buf) (starts gs i) (piece_off (pieces gs) (Suc (starts gs i))) (length (gs ! i) = 1) = Inr (voff cfg gs (Suc (starts gs i)))"
    "segValueHalf buf (no_entry\<lparr>Flags := Flags (hd (gs ! i)), Key := k\<rparr>) (voff cfg gs (starts gs i)) (voff cfg gs (Suc (starts gs i))) = Inr ((hd (gs ! i))\<lparr>Key := k\<rparr>)"
    "segValueHalf buf (no_entry\<lparr>Flags := Flags (hd (gs ! i))\<rparr>) (voff cfg gs (starts gs i)) (voff cfg gs (Suc (starts gs i))) = Inr ((hd (gs ! i))\<lparr>Key := []\<rparr>)"
proof -
  have ne: "gs ! i \<noteq> []" using assms(3,4) by (auto simp: sgroup_ok_def group_ok_def)
  have m0: "0 < length (gs ! i)" using ne by simp
  have hd0: "gs ! i ! 0 = hd (gs ! i)" using ne by (simp add: hd_conv_nth)
  show "segNextVOff (sleaf_reader cfg gs buf) (starts gs i) (piece_off (pieces gs) (Suc (starts gs i))) (length (gs ! i) = 1) = Inr (voff cfg gs (Suc (starts gs i)))"
    using sleaf_next_voff [OF assms m0] by (simp add: eq_commute)
  show "segValueHalf buf (no_entry\<lparr>Flags := Flags (hd (gs ! i)), Key := k\<rparr>) (voff cfg gs (starts gs i)) (voff cfg gs (Suc (starts gs i))) = Inr ((hd (gs ! i))\<lparr>Key := k\<rparr>)" for k
    using sleaf_value [OF assms m0, of k] by (simp add: hd0)
  from this [of "[]"] show "segValueHalf buf (no_entry\<lparr>Flags := Flags (hd (gs ! i))\<rparr>) (voff cfg gs (starts gs i)) (voff cfg gs (Suc (starts gs i))) = Inr ((hd (gs ! i))\<lparr>Key := []\<rparr>)"
    by (simp add: no_entry_def)
qed

lemma seg_walk_step:
  assumes "sleaf_layout cfg gs buf" "Validate cfg = None" "\<forall>g \<in> set gs. sgroup_ok cfg g"
    and "i < length gs" "Suc m < length (gs ! i)" "idx = starts gs i + Suc m" "Suc (Suc m) + n = length (gs ! i)"
  defines "r \<equiv> sleaf_reader cfg gs buf" and "pos \<equiv> piece_off (pieces gs)"
  shows "seg_iter_walk r target nr g (Suc n) idx (pos idx) (Key (gs ! i ! m)) =
    (let e = gs ! i ! Suc m; it = iter_past r idx (pos (Suc idx)) (Key e) nr (g + 1)
     in if Key e = target then Inr (Some (idx, e\<lparr>Key := []\<rparr>, True, it)) else if target < Key e then Inr (Some (idx, e, False, it))
        else seg_iter_walk r target nr g n (Suc idx) (pos (Suc idx)) (Key e))"
proof -
  let ?e = "gs ! i ! Suc m"
  have d: "decodeSegDelta buf (pos idx) (Key (gs ! i ! m)) = Inr (Flags ?e, Key ?e, voff cfg gs idx, pos (Suc idx))"
    using sleaf_delta(1) [OF assms(1-5) assms(6) refl refl] by (simp add: pos_def)
  have l: "(n = 0) = (Suc (Suc m) = length (gs ! i))" using assms(7) by auto
  have v: "segNextVOff r idx (pos (Suc idx)) (n = 0) = Inr (voff cfg gs (Suc idx))"
    using sleaf_next_voff [OF assms(1-5)] by (simp only: l assms(6) r_def pos_def)
  have h: "segValueHalf buf (no_entry\<lparr>Flags := Flags ?e\<rparr>) (voff cfg gs idx) (voff cfg gs (Suc idx)) = Inr (?e\<lparr>Key := []\<rparr>)"
    using sleaf_value [OF assms(1-5), of "[]"] assms(6) by (simp add: no_entry_def)
  have b: "r_buf r = buf" by (simp add: r_def)
  have k: "?e\<lparr>Key := [], Key := Key ?e\<rparr> = ?e" by simp
  consider "Key ?e = target" | "target < Key ?e" "Key ?e \<noteq> target" "\<not> Key ?e < target" | "Key ?e < target" "Key ?e \<noteq> target" "\<not> target < Key ?e"
    by (cases "Key ?e" target rule: linorder_cases) (use less_not_sym less_imp_neq in blast)+
  then show ?thesis by cases (use d v h b in \<open>simp_all add: Let_def Compare_def\<close>)
qed

interpretation seg_iter: leaf_seek "sl_reader p" "sl_groups p" "piece_off (pieces (sl_groups p))" "voff (sl_cfg p) (sl_groups p)"
  "\<lambda>target tail mid. bind_res (seg_probe_entry (sl_reader p) mid) (\<lambda>e. compareEntryKey e target tail)"
  "\<lambda>lo. bind_res (seg_restart (sl_reader p) (int lo)) (\<lambda>(flags, key, voff, off). bind_res (rt_GroupStartIndex (r_rt (sl_reader p)) lo) (\<lambda>idx.
     bind_res (rt_GroupEntryCount (r_rt (sl_reader p)) (int lo)) (\<lambda>gc. bind_res (segNextVOff (sl_reader p) idx off (gc = 1)) (\<lambda>vend.
     bind_res (segValueHalf (r_buf (sl_reader p)) (no_entry\<lparr>Flags := flags\<rparr>) voff vend) (\<lambda>e.
     Inr (idx, e, True, iter_past (sl_reader p) idx off key (idx + gc) (int lo + 1)))))))"
  "seg_iter_walk (sl_reader p)" "segIterFromGroupRestart (sl_reader p)" "past_end (sl_reader p)" for p
proof (unfold_locales)
  note P = seg_leaf_page(2,1,3) [of p]
  let ?r = "sl_reader p" and ?gs = "sl_groups p" and ?cfg = "sl_cfg p"
  let ?pos = "piece_off (pieces ?gs)" and ?v = "voff ?cfg ?gs"
  note T = sleaf_table [OF P(1), folded sl_reader_def] and H = sleaf_group_head [OF P, folded sl_reader_def] and S = starts_Suc [of _ ?gs]
  have V: "segNextVOff ?r (starts ?gs i) (?pos (Suc (starts ?gs i))) (length (?gs ! i) = 1) = Inr (?v (Suc (starts ?gs i)))"
    "segValueHalf (sl_buf p) (no_entry\<lparr>Flags := Flags (hd (?gs ! i)), Key := k\<rparr>) (?v (starts ?gs i)) (?v (Suc (starts ?gs i))) = Inr ((hd (?gs ! i))\<lparr>Key := k\<rparr>)"
    "segValueHalf (sl_buf p) (no_entry\<lparr>Flags := Flags (hd (?gs ! i))\<rparr>) (?v (starts ?gs i)) (?v (Suc (starts ?gs i))) = Inr ((hd (?gs ! i))\<lparr>Key := []\<rparr>)"
    if "i < length ?gs" for i k using seg_head_value [OF P that] by (simp_all only: sl_reader_def)
  have R: "r_buf ?r = sl_buf p" "r_count ?r = length (concat ?gs)" "r_variant ?r = TypeLeafSegregated" "restartCount (r_rt ?r) = length ?gs"
    "r_valueEnd ?r = value_end ?cfg ?gs" "is_uc ?r = False" "is_seg ?r = True" by (simp_all add: sl_reader_def)
  show ne: "\<forall>g \<in> set ?gs. g \<noteq> []" using P(3) by (auto simp: sgroup_ok_def group_ok_def)
  note B = sleaf_bounds(6) [OF P(1,2) ne]
  show "r_count ?r = length (concat ?gs)" "restartCount (r_rt ?r) = length ?gs" by (rule R)+
  show ve: "r_valueEnd ?r = ?v (length (concat ?gs))" using R(5) B by simp
  show "r_variant ?r \<noteq> TypeLeafUncompressed" by (simp add: R page_types)
  show "(if is_seg ?r then r_valueEnd ?r else 0) = ?v (length (concat ?gs))" by (simp only: R(7) if_True ve)
  show "rt_Offset (r_rt ?r) (int i) = Inr (?pos (starts ?gs i))" "rt_GroupEntryCount (r_rt ?r) (int i) = Inr (length (?gs ! i))"
      "rt_GroupStartIndex (r_rt ?r) i = Inr (starts ?gs i)" if i: "i < length ?gs" for i using T [OF i] by simp_all
  show "IterForReuse ?r = (new_iter ?r)\<lparr>it_off := ?pos 0, it_segEndVOff := ?v (length (concat ?gs))\<rparr>"
    by (simp add: IterForReuse_def R(3) page_types ve piece_off_def segLeafEntryStart_def HeaderSize_def new_iter_def)
  show "groupIter ?r (int i) = Inr ((new_iter ?r)\<lparr>it_idx := starts ?gs i, it_startIdx := starts ?gs i, it_endIdx := starts ?gs (Suc i),
      it_off := ?pos (starts ?gs i), it_nextRestart := starts ?gs i, it_groupIdx := int i, it_segEndVOff := ?v (starts ?gs (Suc i))\<rparr>)" if i: "i < length ?gs" for i
  proof (cases "Suc i < length ?gs")
    case True
    have "segReadVOff (sl_buf p) (?pos (starts ?gs (Suc i))) True = Inr (?v (starts ?gs (Suc i)))" using sleaf_restart(2) [OF P True] .
    moreover have "rt_Offset (r_rt ?r) (int i + 1) = Inr (?pos (starts ?gs (Suc i)))" using T(1) [OF True] by (simp add: add.commute)
    ultimately show ?thesis using T [OF i] S [OF i] True by (simp add: groupIter_def R Let_def new_iter_def)
  next
    case False
    then have e: "Suc i = length ?gs" using i by simp
    then have "starts ?gs (Suc i) = length (concat ?gs)" by (simp add: starts_def length_concat)
    then show ?thesis using T [OF i] S [OF i] False ve by (simp add: groupIter_def R(1-4,6,7) Let_def new_iter_def)
  qed
  show "stream_next it = Inr (?gs ! g ! m, moved it (?pos (Suc (it_idx it))) (Key (?gs ! g ! m)) (starts ?gs (Suc g)) (int g + 1))"
    if "on_stream ?r ?gs ?pos ?v it" "positioned ?gs ?pos it g m" "it_idx it < it_endIdx it" for it g m
    using seg_advances [OF P _ that(2,3), folded sl_reader_def] that(1) .
  show "bind_res (seg_probe_entry ?r i) (\<lambda>e. compareEntryKey e target tail) = Inr (Compare k target)"
    if "i < length ?gs" "full_key (hd (?gs ! i)) k" "tail_reads tail target (hd (?gs ! i)) k" for i k target tail
    using seg_probe_reads [OF P that] by (simp only: sl_reader_def)
  show "bind_res (seg_restart ?r (int i)) (\<lambda>(flags, key, voff, off). bind_res (rt_GroupStartIndex (r_rt ?r) i) (\<lambda>idx.
      bind_res (rt_GroupEntryCount (r_rt ?r) (int i)) (\<lambda>gc. bind_res (segNextVOff ?r idx off (gc = 1)) (\<lambda>vend.
      bind_res (segValueHalf (r_buf ?r) (no_entry\<lparr>Flags := flags\<rparr>) voff vend) (\<lambda>e. Inr (idx, e, True, iter_past ?r idx off key (idx + gc) (int i + 1))))))) =
    Inr (starts ?gs i, (hd (?gs ! i))\<lparr>Key := []\<rparr>, True, iter_past ?r (starts ?gs i) (?pos (Suc (starts ?gs i))) (Key (hd (?gs ! i))) (starts ?gs (Suc i)) (int i + 1))"
    if i: "i < length ?gs" for i
    by (simp only: H [OF i] T(2,3) [OF i] V [OF i] S [OF i] R(1) bind_res.simps prod.case)
  show "segIterFromGroupRestart ?r i =
    Inr (starts ?gs i, hd (?gs ! i), False, iter_past ?r (starts ?gs i) (?pos (Suc (starts ?gs i))) (Key (hd (?gs ! i))) (starts ?gs (Suc i)) (int i + 1))"
    if i: "i < length ?gs" for i
    using V(2) [OF i, of "Key (hd (?gs ! i))"] by (simp add: segIterFromGroupRestart_def H [OF i] T(2,3) [OF i] V(1) [OF i] S [OF i] R(1) del: One_nat_def)
  show "seg_iter_walk ?r target nr g 0 idx off key = Inr None" for target nr g idx off key by simp
  show "seg_iter_walk ?r target nr g (Suc n) idx (?pos idx) (Key (?gs ! i ! m)) =
      (let e = ?gs ! i ! Suc m; it = iter_past ?r idx (?pos (Suc idx)) (Key e) nr (g + 1)
       in if Key e = target then Inr (Some (idx, e\<lparr>Key := []\<rparr>, True, it)) else if target < Key e then Inr (Some (idx, e, False, it))
          else seg_iter_walk ?r target nr g n (Suc idx) (?pos (Suc idx)) (Key e))"
    if "i < length ?gs" "Suc m < length (?gs ! i)" "idx = starts ?gs i + Suc m" "Suc (Suc m) + n = length (?gs ! i)" for i m idx n target nr g
    using seg_walk_step [OF P that] by (simp only: sl_reader_def)
  show "it_r (past_end ?r) = ?r" "it_variant (past_end ?r) = r_variant ?r" "it_startIdx (past_end ?r) = 0" "it_endIdx (past_end ?r) = length (concat ?gs)"
    "it_idx (past_end ?r) = length (concat ?gs)" "\<not> it_buffered (past_end ?r)"
    by (simp_all add: past_end_def new_iter_def R)
  show "\<not> IsOverflowKey (?gs ! i ! 0) \<and> \<not> IsOverflowKey (?gs ! i ! m)" if "i < length ?gs" "0 < m" "m < length (?gs ! i)" for i m
    using group_plain [of ?cfg "?gs ! i" m] P(3) that by (simp add: sgroup_ok_def)
qed (use seg_seeks [OF seg_leaf_page(2,1,3)] in \<open>simp only: sl_reader_def\<close>)

end
