(* ===== verification/Leaf_Moves.thy ===== *)
theory Leaf_Moves
  imports Leaf_Walks
begin

text \<open>
  A leaf iterator is an index into the entries of its page. The contract of a page's iterators is the
  locale \<open>leaf_index\<close>; it gives that every sequence of moves answers as the index does. All three
  layouts meet it, the compressed and the segregated one through \<open>leaf_stream\<close>.
\<close>

section \<open>Sequences of moves\<close>

datatype move = MoveNext | MovePrev | MoveAt nat

definition iter_move :: "LeafIter \<Rightarrow> move \<Rightarrow> node_err + LeafEntry option \<times> LeafIter" where
  "iter_move it m = (case m of MoveNext \<Rightarrow> iter_Next it | MovePrev \<Rightarrow> iter_Prev it | MoveAt i \<Rightarrow> iter_At it i)"

fun run_moves :: "move list \<Rightarrow> LeafIter \<Rightarrow> node_err + LeafEntry option list" where
  "run_moves [] it = Inr []"
| "run_moves (m # ms) it = bind_res (iter_move it m) (\<lambda>(a, it'). bind_res (run_moves ms it') (\<lambda>as. Inr (a # as)))"

text \<open>
  The reference: a position \<open>j\<close> in a list, between the entries \<open>j - 1\<close> and \<open>j\<close>. The entry returned last
  is \<open>j - 1\<close>, so the entry before it is \<open>j - 2\<close>; a move that has no entry to return leaves the position.
\<close>

definition index_move :: "LeafEntry list \<Rightarrow> nat \<Rightarrow> move \<Rightarrow> LeafEntry option \<times> nat" where
  "index_move es j m =
     (case m of
        MoveNext \<Rightarrow> if j < length es then (Some (es ! j), Suc j) else (None, j)
      | MovePrev \<Rightarrow> if 2 \<le> j then (Some (es ! (j - 2)), j - 1) else (None, j)
      | MoveAt i \<Rightarrow> if i < length es then (Some (es ! i), Suc i) else (None, j))"

fun index_moves :: "LeafEntry list \<Rightarrow> move list \<Rightarrow> nat \<Rightarrow> LeafEntry option list" where
  "index_moves es [] j = []"
| "index_moves es (m # ms) j = fst (index_move es j m) # index_moves es ms (snd (index_move es j m))"

locale leaf_index =
  fixes es :: "LeafEntry list" and r :: LeafReader and at :: "LeafIter \<Rightarrow> nat \<Rightarrow> bool"
  assumes at_next: "at it j \<Longrightarrow> if j < length es then \<exists>it'. iter_Next it = Inr (Some (es ! j), it') \<and> at it' (Suc j) else iter_Next it = Inr (None, it)"
    and at_prev: "at it j \<Longrightarrow> if 2 \<le> j then \<exists>it'. iter_Prev it = Inr (Some (es ! (j - 2)), it') \<and> at it' (j - 1) else iter_Prev it = Inr (None, it)"
    and at_index: "at it j \<Longrightarrow> if i < length es then \<exists>it'. iter_At it i = Inr (Some (es ! i), it') \<and> at it' (Suc i) else iter_At it i = Inr (None, it)"
    and at_start: "at (IterForReuse r) 0"
    and at_entry_k: "\<exists>it. IterAtForReuse r k = Inr it \<and> at it (min k (length es))"
    and at_count: "at it j \<Longrightarrow> it_endIdx it = length es"
begin

lemma move_at:
  assumes "at it j"
  shows "\<exists>it'. iter_move it m = Inr (fst (index_move es j m), it') \<and> at it' (snd (index_move es j m))"
proof (cases m)
  case (MoveAt i)
  then show ?thesis using at_index [OF assms, of i] assms by (auto simp: iter_move_def index_move_def split: if_splits)
qed (use at_next [OF assms] at_prev [OF assms] assms in \<open>auto simp: iter_move_def index_move_def split: if_splits\<close>)

lemma moves_at: "at it j \<Longrightarrow> run_moves ms it = Inr (index_moves es ms j)"
proof (induction ms arbitrary: it j)
  case (Cons m ms)
  obtain it' where "iter_move it m = Inr (fst (index_move es j m), it')" "at it' (snd (index_move es j m))"
    using move_at [OF Cons.prems] by blast
  then show ?case using Cons.IH by simp
qed simp

end

section \<open>The layouts meet the contract\<close>

sublocale leaf_stream \<subseteq> index: leaf_index "concat gs" r at_entry
proof
  show "if i < length (concat gs) then \<exists>it'. iter_At it i = Inr (Some (concat gs ! i), it') \<and> at_entry it' (Suc i) else iter_At it i = Inr (None, it)"
    if "at_entry it j" for it i j
    using At_entry [OF that, of i] that by (auto simp: iter_At_def at_entry_def)
  show "it_endIdx it = length (concat gs)" if "at_entry it j" for it j using that by (simp add: at_entry_def)
qed (use Next_entry Prev_entry first_at start_at in \<open>blast\<close>)+

definition uc_at :: "LeafEntry list \<Rightarrow> LeafReader \<Rightarrow> LeafIter \<Rightarrow> nat \<Rightarrow> bool" where
  "uc_at es r it j \<longleftrightarrow> it_r it = r \<and> it_variant it = TypeLeafUncompressed \<and> it_startIdx it = 0 \<and> it_endIdx it = length es \<and> it_idx it = j \<and> j \<le> length es"

lemma uc_index:
  assumes "uc_page cfg es buf" "Validate cfg = None"
  shows "leaf_index es (uc_reader cfg es buf) (uc_at es (uc_reader cfg es buf))"
proof -
  let ?r = "uc_reader cfg es buf"
  have f: "r_count ?r = length es" "r_variant ?r = TypeLeafUncompressed" "is_uc ?r" by (simp_all add: uc_reader_def is_uc_def)
  have e: "uc_entry ?r i = Inr (es ! i)" if "i < length es" for i using uc_entry_reads(1) assms that by blast
  show ?thesis
  proof
    show "if j < length es then \<exists>it'. iter_Next it = Inr (Some (es ! j), it') \<and> uc_at es ?r it' (Suc j) else iter_Next it = Inr (None, it)"
      if "uc_at es ?r it j" for it j using that e by (simp add: iter_Next_def uc_at_def)
    show "if 2 \<le> j then \<exists>it'. iter_Prev it = Inr (Some (es ! (j - 2)), it') \<and> uc_at es ?r it' (j - 1) else iter_Prev it = Inr (None, it)"
      if "uc_at es ?r it j" for it j using that e [of "j - 2"] by (auto simp: iter_Prev_def uc_at_def Let_def)
    show "if i < length es then \<exists>it'. iter_At it i = Inr (Some (es ! i), it') \<and> uc_at es ?r it' (Suc i) else iter_At it i = Inr (None, it)"
      if "uc_at es ?r it j" for it i j using that e by (simp add: iter_At_def uc_at_def)
    show "uc_at es ?r (IterForReuse ?r) 0" using f by (simp add: uc_at_def IterForReuse_def new_iter_def page_types)
    show "\<exists>it. IterAtForReuse ?r k = Inr it \<and> uc_at es ?r it (min k (length es))" for k
      using f by (simp add: uc_at_def IterAtForReuse_def new_iter_def past_end_def page_types)
    show "it_endIdx it = length es" if "uc_at es ?r it j" for it j using that by (simp add: uc_at_def)
  qed
qed

section \<open>Positioned lookup\<close>

definition seeks_to :: "LeafEntry list \<Rightarrow> LeafReader \<Rightarrow> (LeafIter \<Rightarrow> nat \<Rightarrow> bool) \<Rightarrow> bool" where
  "seeks_to es r at \<longleftrightarrow>
     (\<forall>keys target tail. sorted_wrt (<) keys \<longrightarrow> list_all2 (\<lambda>e k. full_key e k \<and> tail_reads tail target e k) es keys \<longrightarrow>
        (\<exists>it. SearchLeafIter r target tail = Inr (sought es keys target it) \<and> at it (min (Suc (rank keys target)) (length es))))"

lemma uc_seeks_to:
  assumes "uc_page cfg es buf" "Validate cfg = None"
  shows "seeks_to es (uc_reader cfg es buf) (uc_at es (uc_reader cfg es buf))"
  unfolding seeks_to_def
proof (intro allI impI)
  fix keys target tail
  let ?r = "uc_reader cfg es buf"
  assume k: "sorted_wrt (<) keys" "list_all2 (\<lambda>e k. full_key e k \<and> tail_reads tail target e k) es keys"
  have f: "r_count ?r = length es" "r_variant ?r = TypeLeafUncompressed" by (simp_all add: uc_reader_def)
  have e: "uc_entry ?r i = Inr (es ! i)" if "i < length es" for i using uc_entry_reads(1) assms that by blast
  have l: "length keys = length es" using k(2) by (simp add: list_all2_lengthD)
  show "\<exists>it. SearchLeafIter ?r target tail = Inr (sought es keys target it) \<and> uc_at es ?r it (min (Suc (rank keys target)) (length es))"
  proof (cases "es = []")
    case True
    then show ?thesis using l f by (simp add: SearchLeafIter_def sought_def uc_at_def new_iter_def rank_def)
  next
    case False
    have "bind_res (uc_entry ?r i) (\<lambda>e. compareEntryKey e target tail) = Inr (Compare (keys ! i) target)" if "i < length keys" for i
      using that e l k(2) by (simp add: compareEntryKey_full list_all2_conv_all_nth)
    from bs3.ranks [OF k(1) this]
    have b: "bsearch3 (\<lambda>mid. bind_res (uc_entry ?r mid) (\<lambda>e. compareEntryKey e target tail)) 0 (length es) = Inr (rank keys target, target \<in> set keys)"
      and i: "target \<in> set keys \<Longrightarrow> rank keys target < length es" using l by auto
    have n: "rank keys target \<le> length es" using l by (simp add: rank_def length_filter_le flip: l)
    have "SearchLeafIter ?r target tail = ucSearchLeafIter ?r target tail" using False f by (simp add: SearchLeafIter_def)
    also have "\<dots> = Inr (sought es keys target ((new_iter ?r)\<lparr>it_idx := min (Suc (rank keys target)) (length es)\<rparr>))"
      using b i e n f(1) by (cases "target \<in> set keys"; cases "rank keys target < length es") (simp_all add: ucSearchLeafIter_def sought_def Let_def)
    finally show ?thesis using f by (auto simp: uc_at_def new_iter_def)
  qed
qed

context leaf_seek
begin

lemma group_seeks_to: "seeks_to (concat gs) r at_entry"
  unfolding seeks_to_def
proof (intro allI impI)
  fix keys target tail
  assume k: "sorted_wrt (<) keys" "list_all2 (\<lambda>e k. full_key e k \<and> tail_reads tail target e k) (concat gs) keys"
  obtain kss where s: "group_keys gs kss" "concat kss = keys" "\<forall>i < length gs. tail_reads tail target (hd (gs ! i)) (hd (kss ! i))"
    using split_search [OF groups k(2)] .
  show "\<exists>it. SearchLeafIter r target tail = Inr (sought (concat gs) keys target it) \<and> at_entry it (min (Suc (rank keys target)) (length (concat gs)))"
    using seek_finds [OF s(1) [unfolded group_keys_def] _ s(3)] k(1) s(2) by metis
qed

end

text \<open>Every page a builder finishes has an iterator contract.\<close>

definition iterable :: "LeafEntry list \<Rightarrow> LeafReader \<Rightarrow> bool" where
  "iterable es r \<longleftrightarrow> (\<exists>at. leaf_index es r at \<and> seeks_to es r at)"

lemma comp_iterable:
  assumes "comp_layout cfg gs buf" "Validate cfg = None" "\<forall>g \<in> set gs. group_ok cfg g"
  shows "iterable (concat gs) (comp_reader cfg gs buf)"
proof -
  obtain p where "cl_groups p = gs" "cl_reader p = comp_reader cfg gs buf" using comp_leaf_ex [OF assms(2,1,3)] .
  then show ?thesis using comp_iter.index.leaf_index_axioms [of p] comp_iter.group_seeks_to [of p] unfolding iterable_def by metis
qed

lemma seg_iterable:
  assumes "sleaf_layout cfg gs buf" "Validate cfg = None" "\<forall>g \<in> set gs. sgroup_ok cfg g"
  shows "iterable (concat gs) (sleaf_reader cfg gs buf)"
proof -
  obtain p where "sl_groups p = gs" "sl_reader p = sleaf_reader cfg gs buf" using seg_leaf_ex [OF assms(2,1,3)] .
  then show ?thesis using seg_iter.index.leaf_index_axioms [of p] seg_iter.group_seeks_to [of p] unfolding iterable_def by metis
qed

context leaf_format
begin

lemma built_reads:
  assumes "Validate cfg = None" "EffectiveLeafType cfg = variant" "length buf = unat (PageSize cfg)"
    and "\<forall>e \<in> set es. entry_ok cfg e" "chain_ok None es" "build_leaf buf cfg es = Inr (Some page)"
  shows "\<exists>r. NewLeafReader page cfg = Inr r \<and> reads cfg (map norm es) r"
proof -
  obtain b where b: "NewLeafBuilder buf cfg = Inr b" "built cfg [] b" "b_lastAddedKey b = None" using starts_empty [OF assms(1-3)] by blast
  obtain b' where "add_all b es = Inr (Some b')" "built cfg (map norm es) b'"
    using adds_all [OF b(2) assms(1,4)] assms(5,6) b(1,3) by (auto simp: build_leaf_def)
  moreover obtain pg where "Finish b' = Inr pg" "layout cfg (map norm es) pg" using finishes [OF calculation(2) assms(1)] by blast
  ultimately show ?thesis using opens [of cfg "map norm es" page] assms(1,6) b(1) by (auto simp: build_leaf_def)
qed

end

lemma built_iterable:
  assumes "Validate cfg = None" "length buf = unat (PageSize cfg)" "\<forall>e \<in> set es. entry_ok cfg e"
    and "list_all2 full_key es keys" "sorted_wrt (<) keys" "build_leaf buf cfg es = Inr (Some page)"
  shows "\<exists>r. NewLeafReader page cfg = Inr r \<and> iterable (map (leaf_form cfg) es) r"
proof -
  have o: "chain_ok None es" by (rule keys_chain [OF assms(4,5,3)]) simp
  consider (u) "EffectiveLeafType cfg = TypeLeafUncompressed" | (c) "EffectiveLeafType cfg = TypeLeaf" | (s) "EffectiveLeafType cfg = TypeLeafSegregated"
    unfolding EffectiveLeafType_def by presburger
  then show ?thesis
  proof cases
    case u
    then have "leaf_form cfg = stored" by (simp add: leaf_form_def page_types fun_eq_iff)
    then show ?thesis using uc.built_reads [OF assms(1) u assms(2,3) o assms(6)] uc_index uc_seeks_to assms(1) unfolding iterable_def by metis
  next
    case c
    then have "leaf_form cfg = stored" by (simp add: leaf_form_def page_types fun_eq_iff)
    then show ?thesis using comp.built_reads [OF assms(1) c assms(2,3) o assms(6)] comp_iterable assms(1) by metis
  next
    case s
    then have "leaf_form cfg = sstored" by (simp add: leaf_form_def fun_eq_iff)
    then show ?thesis using seg.built_reads [OF assms(1) s assms(2,3) o assms(6)] seg_iterable assms(1) by metis
  qed
qed

section \<open>Properties\<close>

text \<open>
  C13. An iterator over a built leaf, in each of the three layouts, is an index into its entries: started
  anywhere, every sequence of forward, backward and positioned moves, through the streaming decoder
  and the buffered groups, returns what the same moves over the list of entries return, and none of
  them panics.
\<close>

theorem leaf_iterator_is_index:
  assumes "Validate cfg = None" "length buf = unat (PageSize cfg)" "\<forall>e \<in> set es. entry_ok cfg e"
    and "list_all2 full_key es keys" "sorted_wrt (<) keys" "build_leaf buf cfg es = Inr (Some page)"
  shows "\<exists>r. NewLeafReader page cfg = Inr r \<and> run_moves ms (IterForReuse r) = Inr (index_moves (map (leaf_form cfg) es) ms 0) \<and>
    (\<forall>k. bind_res (IterAtForReuse r k) (run_moves ms) = Inr (index_moves (map (leaf_form cfg) es) ms (min k (length es))))"
proof -
  obtain r at where r: "NewLeafReader page cfg = Inr r" "leaf_index (map (leaf_form cfg) es) r at"
    using built_iterable [OF assms] by (auto simp: iterable_def)
  have "bind_res (IterAtForReuse r k) (run_moves ms) = Inr (index_moves (map (leaf_form cfg) es) ms (min k (length es)))" for k
    using leaf_index.at_entry_k [OF r(2), of k] leaf_index.moves_at [OF r(2)] by auto
  then show ?thesis using r(1) leaf_index.moves_at [OF r(2) leaf_index.at_start [OF r(2)]] by blast
qed

theorem leaf_iterator_is_index_witness:
  "\<exists>page r. build_leaf (replicate 4096 0) (demo_leaf_cfg 6 2) demo_entries = Inr (Some page) \<and> NewLeafReader page (demo_leaf_cfg 6 2) = Inr r \<and>
    run_moves [MoveNext, MoveNext, MovePrev, MoveAt 2, MoveNext] (IterForReuse r) =
      Inr (map (map_option (\<lambda>i. leaf_form (demo_leaf_cfg 6 2) (demo_entries ! i))) [Some 0, Some 1, Some 0, Some 2, None])"
proof -
  let ?c = "demo_leaf_cfg 6 2"
  have v: "Validate ?c = None" by (rule demo_leaf_cfg_valid) simp_all
  have l: "length (replicate 4096 0) = unat (PageSize ?c)" by (simp add: demo_leaf_cfg_def)
  obtain page where p: "build_leaf (replicate 4096 0) ?c demo_entries = Inr (Some page)"
    using leaf_builds [OF v l demo_entries_ok(1-3) [OF v]] demo_entries_ok(4) [OF v] by auto
  have "index_moves (map (leaf_form ?c) demo_entries) [MoveNext, MoveNext, MovePrev, MoveAt 2, MoveNext] 0 =
      map (map_option (\<lambda>i. leaf_form ?c (demo_entries ! i))) [Some 0, Some 1, Some 0, Some 2, None]"
    by (simp add: index_move_def demo_entries_def)
  then show ?thesis
    using leaf_iterator_is_index [OF v l demo_entries_ok(1-3) [OF v] p, of "[MoveNext, MoveNext, MovePrev, MoveAt 2, MoveNext]"] p by auto
qed

text \<open>
  C14. The lookup that leaves an iterator behind answers with the rank of the target, the entry with that
  key or the first entry behind it, and its iterator stands behind the returned entry: whatever
  moves follow return what they return over the list of entries.
\<close>

theorem leaf_seek_positions:
  assumes "Validate cfg = None" "length buf = unat (PageSize cfg)" "\<forall>e \<in> set es. entry_ok cfg e"
    and "list_all2 (\<lambda>e k. full_key e k \<and> tail_reads tail target e k) es keys" "sorted_wrt (<) keys" "build_leaf buf cfg es = Inr (Some page)"
  shows "\<exists>r it. NewLeafReader page cfg = Inr r \<and> SearchLeafIter r target tail = Inr (sought (map (leaf_form cfg) es) keys target it) \<and>
    (\<forall>ms. run_moves ms it = Inr (index_moves (map (leaf_form cfg) es) ms (min (Suc (rank keys target)) (length es))))"
proof -
  have k: "list_all2 full_key es keys" using assms(4) by (rule list_all2_mono) simp
  obtain r at where r: "NewLeafReader page cfg = Inr r" "leaf_index (map (leaf_form cfg) es) r at" "seeks_to (map (leaf_form cfg) es) r at"
    using built_iterable [OF assms(1-3) k assms(5,6)] by (auto simp: iterable_def)
  obtain it where "SearchLeafIter r target tail = Inr (sought (map (leaf_form cfg) es) keys target it)" "at it (min (Suc (rank keys target)) (length es))"
    using r(3) assms(4,5) unfolding seeks_to_def leaf_form_keys by force
  then show ?thesis using r(1) leaf_index.moves_at [OF r(2)] by blast
qed

theorem leaf_seek_positions_witness:
  "\<exists>page r it. build_leaf (replicate 4096 0) (demo_leaf_cfg 6 1) demo_entries = Inr (Some page) \<and> NewLeafReader page (demo_leaf_cfg 6 1) = Inr r \<and>
    SearchLeafIter r [1, 3] (\<lambda>_ _ _. Inl Corrupt) = Inr (2, leaf_form (demo_leaf_cfg 6 1) (demo_entries ! 2), False, it) \<and>
    run_moves [MovePrev] it = Inr [Some (leaf_form (demo_leaf_cfg 6 1) (demo_entries ! 1))]"
proof -
  let ?c = "demo_leaf_cfg 6 1" and ?ks = "[[1, 2], [1, 2, 3], [1, 7]]"
  have v: "Validate ?c = None" by (rule demo_leaf_cfg_valid) simp_all
  have l: "length (replicate 4096 0) = unat (PageSize ?c)" by (simp add: demo_leaf_cfg_def)
  obtain page where p: "build_leaf (replicate 4096 0) ?c demo_entries = Inr (Some page)"
    using leaf_builds [OF v l demo_entries_ok(1-3) [OF v]] demo_entries_ok(4) [OF v] by auto
  have t: "list_all2 (\<lambda>e k. full_key e k \<and> tail_reads (\<lambda>_ _ _. Inl Corrupt) [1, 3] e k) demo_entries ?ks"
    by (simp add: demo_entries_def full_key_def tail_reads_def IsOverflowKey_def no_entry_def bit_1_iff)
  have f: "sought (map (leaf_form ?c) demo_entries) ?ks [1, 3] it = (2, leaf_form ?c (demo_entries ! 2), False, it)" for it
    by (simp add: sought_def rank_def demo_entries_def)
  have m: "index_moves (map (leaf_form ?c) demo_entries) [MovePrev] (min (Suc (rank ?ks [1, 3])) (length demo_entries)) = [Some (leaf_form ?c (demo_entries ! 1))]"
    by (simp add: index_move_def rank_def demo_entries_def)
  show ?thesis using leaf_seek_positions [OF v l demo_entries_ok(1) [OF v] t demo_entries_ok(3) [OF v] p] p m unfolding f by metis
qed

end
