(* ===== verification/Tree_Map.thy ===== *)
theory Tree_Map
  imports Tree_Safe Leaf_Moves Branch_Props
begin

text \<open>
  What a tree stores, and that the lookups answer from it. A tree of pages is described by an
  inductive relation between a root and its pairs: a leaf stores entries, whose long keys and long
  values are in overflow runs, and a branch routes the keys of its children by its separators. The
  layouts enter through the contracts of the leaf and branch pages only.
\<close>

declare push_bit_of_1 [simp del]

section \<open>Runs\<close>

definition run_holds :: "PageReader \<Rightarrow> Config \<Rightarrow> u64 \<Rightarrow> bytes \<Rightarrow> bool" where
  "run_holds pr cfg i bs \<longleftrightarrow> run_pages cfg (length bs) < 2 ^ 32 \<and> (\<exists>xxh3. rd_PageRun pr i = Inr (run_image xxh3 cfg bs))"

lemma run_extent_reads:
  assumes "Validate cfg = None" "run_holds pr cfg i bs"
  shows "readRunExtent pr cfg i (word_of_nat (length bs)) = Inr bs"
proof -
  obtain xxh3 where r: "rd_PageRun pr i = Inr (run_image xxh3 cfg bs)" "run_pages cfg (length bs) < 2 ^ 32" using assms(2) by (auto simp: run_holds_def)
  let ?k = "run_pages cfg (length bs)"
  note n = run_length_exact(2) [OF assms(1) r(2)]
  have k: "ucast (word_of_nat (?k - 1) :: u32) + 1 = (word_of_nat ?k :: u64)"
  proof -
    have "ucast (word_of_nat (?k - 1) :: u32) = (word_of_nat (?k - 1) :: u64)"
      using r(2) by (simp add: unsigned_of_nat take_bit_nat_eq_self)
    then show ?thesis using run_pages_bounds(1) [OF assms(1), of "length bs"] by (simp add: of_nat_diff)
  qed
  have l: "length (run_content cfg bs) < 2 ^ 64"
  proof -
    have "length (run_content cfg bs) \<le> ?k * page_len cfg" by (simp add: length_run_content [OF assms(1)])
    also have "\<dots> \<le> 2 ^ 32 * 65536" using r(2) page_len_bounds(2) [OF assms(1)] by (intro mult_mono) auto
    finally show ?thesis by simp
  qed
  have u: "unat (word_of_nat (length bs) :: u64) = length bs" using n head_start_bounds(1) [of cfg] by (simp add: unat_of_nat)
  have c: "\<not> word_of_nat (length bs) > (word_of_nat (length (run_content cfg bs)) :: u64)"
    using l u by (simp add: word_less_nat_alt unat_of_nat not_less) (simp add: run_content_def)
  have s: "slice (run_content cfg bs) 0 (length bs) = Inr bs" by (simp add: slice_def field_def run_content_def)
  show ?thesis
    by (simp only: readRunExtent_def r(1) run_image_reads(1,2) [OF assms(1)] run_length64_exact [OF assms(1) n] bind_res.simps k c u s if_False simp_thms)
qed

section \<open>Long keys\<close>

text \<open>The comparison with a key extent decides as the comparison with the full key does.\<close>

lemma compare_chunks:
  "(let k = min (length a) (length b); c = Compare (take k a) (take k b) in
    if c \<noteq> 0 then c else if length a < length b then -1 else if length b < length a then 1 else 0) = Compare a b"
proof (induction a b rule: list_induct2')
  case (4 x xs y ys)
  then show ?case by (cases "x = y") (auto simp: Compare_def Let_def split: if_splits)
qed (auto simp: Compare_def Let_def)

lemma key_tail_compares:
  assumes "Validate cfg = None" "inline_max cfg < length target" "take (inline_max cfg) target = take (inline_max cfg) k"
    and "unat tot = length k" "inline_max cfg < length k" "run_holds pr cfg ext (drop (inline_max cfg) k)"
  shows "keyTail pr cfg target ext tot = Inr (Compare target k)"
proof -
  obtain t where t: "InlineThreshold cfg = int t" "inline_max cfg = t" using page_bounds(5) [OF assms(1)] by (cases "InlineThreshold cfg") auto
  let ?a = "drop t target" and ?b = "drop t k"
  let ?m = "min (length ?a) (length ?b)" and ?c = "Compare (take (min (length ?a) (length ?b)) ?a) (take (min (length ?a) (length ?b)) ?b)"
  note h = assms(2,3,5,6) [unfolded t(2)]
  have m: "int (unat tot) - int t = int (length ?b)" unfolding assms(4) length_drop using h(3) by linarith
  have n: "(int (length ?b) \<le> 0) = False" using h(3) by simp
  have w: "word_of_int (int (length ?b)) = (word_of_nat (length ?b) :: u64)" by simp
  have s: "slice target t (length target) = Inr ?a" "slice ?a 0 ?m = Inr (take ?m ?a)" "slice ?b 0 ?m = Inr (take ?m ?b)"
    using h(1) by (simp_all add: slice_def field_def)
  have e: "keyTail pr cfg target ext tot =
      (if ?c \<noteq> 0 then Inr ?c else if int (length ?a) < int (length ?b) then Inr (-1) else if int (length ?a) > int (length ?b) then Inr 1 else Inr 0)"
    by (simp only: keyTail_def Let_def t(1) m n w s nat_int bind_res.simps run_extent_reads [OF assms(1) h(4)] if_False)
  have "Compare target k = Compare ?a ?b"
    using h(2) append_take_drop_id [of t target] append_take_drop_id [of t k] by (metis Compare_def less_same_prefix same_append_eq)
  also have "\<dots> = (if ?c \<noteq> 0 then ?c else if length ?a < length ?b then -1 else if length ?b < length ?a then 1 else 0)"
    by (simp only: compare_chunks [of ?a ?b, symmetric] Let_def)
  finally show ?thesis unfolding e by (simp only: of_nat_less_iff if_distrib [of Inr])
qed

section \<open>Pages\<close>

text \<open>An entry stores a pair; a cell stores a separator.\<close>

definition entry_holds :: "PageReader \<Rightarrow> Config \<Rightarrow> LeafEntry \<Rightarrow> bytes \<times> bytes \<Rightarrow> bool" where
  "entry_holds pr cfg e kv \<longleftrightarrow> (case kv of (k, v) \<Rightarrow>
     full_key e k \<and>
     (IsOverflowKey e \<longrightarrow> length (Key e) = inline_max cfg \<and> run_holds pr cfg (KeyExtPage e) (drop (inline_max cfg) k)) \<and>
     (if IsOverflow e then TotalLen e = word_of_nat (length v) \<and> run_holds pr cfg (OverflowPage e) v else v = Value e))"

definition sep_holds :: "PageReader \<Rightarrow> Config \<Rightarrow> BranchCell \<Rightarrow> bytes \<Rightarrow> bool" where
  "sep_holds pr cfg c s \<longleftrightarrow> (cell_IsOverflowKey c \<longrightarrow> run_holds pr cfg (bc_KeyExtPage c) (drop (inline_max cfg) s))"

definition leaf_page :: "Config \<Rightarrow> LeafEntry list \<Rightarrow> bytes \<Rightarrow> bool" where
  "leaf_page cfg es buf \<longleftrightarrow> (\<exists>r. NewLeafReader buf cfg = Inr r \<and> serves es r \<and> iterable es r)"

definition branch_page :: "Config \<Rightarrow> u64 \<Rightarrow> BranchCell list \<Rightarrow> bytes \<Rightarrow> bool" where
  "branch_page cfg leftmost cells buf \<longleftrightarrow>
     plain_layout cfg leftmost cells buf \<and> (\<forall>c \<in> set cells. cell_wf (inline_max cfg) c) \<or>
     seg_layout cfg leftmost cells buf \<and> (\<forall>c \<in> set cells. seg_cell_wf (inline_max cfg) c)"

lemma entry_tail:
  assumes "Validate cfg = None" "entry_holds pr cfg e (k, v)"
  shows "full_key e k \<and> tail_reads (keyTail pr cfg) target e k"
proof -
  have f: "full_key e k" using assms(2) by (simp add: entry_holds_def)
  have "keyTail pr cfg target (KeyExtPage e) (KeyTotalLen e) = Inr (Compare target k)"
    if "IsOverflowKey e" "length (Key e) < length target" "take (length (Key e)) target = Key e"
    using that assms(2) unfolding entry_holds_def full_key_def by (intro key_tail_compares [OF assms(1)]) auto
  then show ?thesis using f by (simp add: tail_reads_def)
qed

lemma sep_tail:
  assumes "Validate cfg = None" "sep_holds pr cfg c s" "cell_wf (inline_max cfg) c" "sep_of (inline_max cfg) c s"
  shows "tail_ok (keyTail pr cfg) (inline_max cfg) target c s"
proof -
  have "keyTail pr cfg target (bc_KeyExtPage c) (bc_KeyTotalLen c) = Inr (Compare target s)"
    if "cell_IsOverflowKey c" "inline_max cfg < length target" "take (inline_max cfg) target = bc_Key c"
    using that assms(2-4) unfolding sep_holds_def cell_wf_def sep_of_def by (intro key_tail_compares [OF assms(1)]) auto
  then show ?thesis by (simp add: tail_ok_def)
qed

text \<open>What the builder and the encoder of a page produce are such pages.\<close>

lemma build_leaf_page:
  assumes "Validate cfg = None" "length buf = page_len cfg" "\<forall>e \<in> set es. entry_ok cfg e" "list_all2 full_key es keys" "sorted_wrt (<) keys"
    and "14 + sum_list (map entry_cost es) \<le> content_end cfg"
  shows "\<exists>page. build_leaf buf cfg es = Inr (Some page) \<and> leaf_page cfg (map (leaf_form cfg) es) page"
  using leaf_builds [OF assms(1-5)] built_iterable [OF assms(1-5)] assms(6) by (fastforce simp: leaf_page_def)

lemma encode_branch_page:
  assumes "Validate cfg = None" "length buf = page_len cfg" "cells_sorted cells" "\<forall>c \<in> set cells. storable cfg c"
    and "BranchEncodedSize cfg cells \<le> int (content_end cfg)"
  shows "\<exists>page. EncodeBranch buf cfg leftmost cells = Inr page \<and> branch_page cfg leftmost cells page"
  using plain.encodes [OF assms(1) _ assms(2,3) storable_cells(1) [OF assms(4)] assms(5)] storable_cells [OF assms(4)]
    segregated.encodes [OF assms(1) _ assms(2,3) storable_cells(2) [OF assms(4)] assms(5)] unfolding branch_page_def by blast

lemma leaf_page_search:
  assumes "Validate cfg = None" "leaf_page cfg es buf" "list_all2 (entry_holds pr cfg) es kvs" "sorted_wrt (<) (map fst kvs)"
  shows "search_leaf pr cfg buf key = Inr (found_at es (map fst kvs) key)" "\<exists>ty fl n ad. read_header buf = Inr (ty, fl, n, ad) \<and> IsLeafType ty"
proof -
  obtain r where r: "NewLeafReader buf cfg = Inr r" "serves es r" using assms(2) by (auto simp: leaf_page_def)
  have "list_all2 (\<lambda>e k. full_key e k \<and> tail_reads (keyTail pr cfg) key e k) es (map fst kvs)"
    unfolding list_all2_map2 using assms(3) by (rule list_all2_mono) (auto dest: entry_tail [OF assms(1), of pr _ _ _ key])
  then show "search_leaf pr cfg buf key = Inr (found_at es (map fst kvs) key)" using r assms(4) by (simp add: search_leaf_def serves_def)
  show "\<exists>ty fl n ad. read_header buf = Inr (ty, fl, n, ad) \<and> IsLeafType ty"
    using r(1) by (auto simp: NewLeafReader_def bind_res_Inr_iff Let_def split: if_splits)
qed

lemma branch_page_reads:
  assumes "Validate cfg = None" "branch_page cfg leftmost cells buf"
  shows "ValidateBranch buf cfg = Inr ()" "i \<le> length cells \<Longrightarrow> BranchChildAt buf cfg i = Inr (child_of leftmost cells i)"
    "DecodeBranch buf cfg = Inr (leftmost, cells)" "\<exists>ty fl n ad. read_header buf = Inr (ty, fl, n, ad) \<and> IsBranchType ty"
proof -
  show "ValidateBranch buf cfg = Inr ()" "i \<le> length cells \<Longrightarrow> BranchChildAt buf cfg i = Inr (child_of leftmost cells i)"
      "DecodeBranch buf cfg = Inr (leftmost, cells)"
    using assms(2) plain.validates [OF _ assms(1)] segregated.validates [OF _ assms(1)] plain.children [OF _ assms(1)]
      segregated.children [OF _ assms(1)] plain.decodes [OF _ assms(1)] segregated.decodes [OF _ assms(1)]
    unfolding branch_page_def by auto
  have "\<exists>n. holds buf 0 (header_bytes TypeBranch n 0) \<or> holds buf 0 (header_bytes TypeBranchSegregated n 0)"
    using assms(2) unfolding branch_page_def plain_layout_def seg_layout_def Let_def by blast
  then show "\<exists>ty fl n ad. read_header buf = Inr (ty, fl, n, ad) \<and> IsBranchType ty"
    unfolding IsBranchType_def using read_header_holds by blast
qed

lemma branch_page_step:
  assumes "Validate cfg = None" "branch_page cfg leftmost cells buf" "seps_wf cfg cells seps"
    and "\<forall>j < length cells. sep_holds pr cfg (cells ! j) (seps ! j)" "child_of leftmost cells (descent seps key) \<noteq> 0"
  shows "branch_step pr cfg buf key = Inr (descent seps key, child_of leftmost cells (descent seps key))"
proof -
  have t: "\<forall>j < length cells. tail_ok (keyTail pr cfg) (inline_max cfg) key (cells ! j) (seps ! j)"
    using assms(3,4) sep_tail [OF assms(1)] by (simp add: seps_wf_def)
  have "BranchSearch buf cfg key (keyTail pr cfg) = Inr (descent seps key)"
    using assms(2) plain.searches [OF _ assms(1) _ assms(3) t] segregated.searches [OF _ assms(1) _ assms(3) t] by (auto simp: branch_page_def)
  moreover have "descent seps key \<le> length cells" using descent_le [of seps key] assms(3) by (simp add: seps_wf_def)
  ultimately show ?thesis using branch_page_reads(1,2) [OF assms(1,2)] assms(5) by (simp add: branch_step_def validateBranchPage_def)
qed

section \<open>Trees\<close>

text \<open>
  The tree below a page: its height in branch levels, and its pairs in key order. A child of a branch
  holds the keys that the separators route to it, and no child is page 0, which is never a tree page.
\<close>

inductive tree :: "PageReader \<Rightarrow> Config \<Rightarrow> nat \<Rightarrow> u64 \<Rightarrow> (bytes \<times> bytes) list \<Rightarrow> bool" for pr cfg where
  leaf: "\<lbrakk>rd_Page pr i = Inr buf; leaf_page cfg es buf; list_all2 (entry_holds pr cfg) es kvs; sorted_wrt (<) (map fst kvs)\<rbrakk>
    \<Longrightarrow> tree pr cfg 0 i kvs"
| branch: "\<lbrakk>rd_Page pr i = Inr buf; branch_page cfg leftmost cells buf; seps_wf cfg cells seps;
     \<forall>j < length cells. sep_holds pr cfg (cells ! j) (seps ! j); length kvss = Suc (length cells);
     \<forall>j \<le> length cells. child_of leftmost cells j \<noteq> 0 \<and> tree pr cfg h (child_of leftmost cells j) (kvss ! j) \<and>
       (\<forall>kv \<in> set (kvss ! j). descent seps (fst kv) = j)\<rbrakk>
    \<Longrightarrow> tree pr cfg (Suc h) i (concat kvss)"

inductive_cases leafE: "tree pr cfg 0 i kvs"
inductive_cases branchE: "tree pr cfg (Suc h) i kvs"

lemma descent_mono: "k \<le> l \<Longrightarrow> descent seps k \<le> descent seps l"
  unfolding descent_def by (induction seps) (auto intro: order_trans)

lemma sorted_concat:
  assumes "\<And>xs. xs \<in> set xss \<Longrightarrow> sorted_wrt P xs"
    and "\<And>i j x y. i < j \<Longrightarrow> j < length xss \<Longrightarrow> x \<in> set (xss ! i) \<Longrightarrow> y \<in> set (xss ! j) \<Longrightarrow> P x y"
  shows "sorted_wrt P (concat xss)"
  using assms
proof (induction xss)
  case (Cons xs xss)
  have "P x y" if h: "x \<in> set xs" "ys \<in> set xss" "y \<in> set ys" for x y ys
  proof -
    obtain j where "j < length xss" "ys = xss ! j" using h(2) by (auto simp: in_set_conv_nth)
    then show ?thesis using Cons.prems(2) [of 0 "Suc j" x y] h by simp
  qed
  moreover have "sorted_wrt P (concat xss)"
  proof (rule Cons.IH)
    show "P x y" if "i < j" "j < length xss" "x \<in> set (xss ! i)" "y \<in> set (xss ! j)" for i j x y
      using Cons.prems(2) [of "Suc i" "Suc j" x y] that by simp
  qed (use Cons.prems(1) in simp)
  ultimately show ?case using Cons.prems(1) by (auto simp: sorted_wrt_append)
qed simp

text \<open>The pairs of a tree come in strictly ascending key order.\<close>

lemma tree_sorted: "tree pr cfg h i kvs \<Longrightarrow> sorted_wrt (<) (map fst kvs)"
proof (induction rule: tree.induct)
  case (branch i buf leftmost cells seps kvss h)
  have "fst x < fst y" if "a < b" "b < length kvss" "x \<in> set (kvss ! a)" "y \<in> set (kvss ! b)" for a b x y
  proof (rule ccontr)
    assume "\<not> fst x < fst y"
    then have "descent seps (fst y) \<le> descent seps (fst x)" by (simp add: descent_mono)
    moreover have "descent seps (fst x) = a" "descent seps (fst y) = b" using branch(5,6) that by simp_all
    ultimately show False using that(1) by simp
  qed
  moreover have "sorted_wrt (\<lambda>x y. fst x < fst y) kvs" if "kvs \<in> set kvss" for kvs
    using branch(5,6) that by (auto simp: in_set_conv_nth sorted_wrt_map less_Suc_eq_le)
  ultimately show ?case unfolding sorted_wrt_map by (intro sorted_concat) auto
qed

text \<open>A key can only be in the child its separators route it to.\<close>

lemma map_of_concat:
  assumes "\<And>j. j < length kvss \<Longrightarrow> j \<noteq> d \<Longrightarrow> key \<notin> fst ` set (kvss ! j)" "d < length kvss"
  shows "map_of (concat kvss) key = map_of (kvss ! d) key"
  using assms
proof (induction kvss arbitrary: d)
  case (Cons kvs kvss)
  show ?case
  proof (cases d)
    case 0
    have "map_of (concat kvss) key = None"
      unfolding map_of_eq_None_iff
    proof
      assume "key \<in> fst ` set (concat kvss)"
      then obtain kvs' where "kvs' \<in> set kvss" "key \<in> fst ` set kvs'" by auto
      then obtain j where "j < length kvss" "key \<in> fst ` set (kvss ! j)" by (auto simp: in_set_conv_nth)
      then show False using Cons.prems(1) [of "Suc j"] 0 by auto
    qed
    then show ?thesis by (cases "map_of kvs key") (simp_all add: 0)
  next
    case (Suc d')
    have "map_of kvs key = None" unfolding map_of_eq_None_iff using Cons.prems(1) [of 0] Suc by simp
    moreover have "map_of (concat kvss) key = map_of (kvss ! d') key"
    proof (rule Cons.IH)
      show "key \<notin> fst ` set (kvss ! j)" if "j < length kvss" "j \<noteq> d'" for j using Cons.prems(1) [of "Suc j"] that Suc by auto
    qed (use Cons.prems(2) Suc in simp)
    ultimately show ?thesis by (simp add: Suc map_add_def)
  qed
qed simp

lemma branch_routes:
  assumes "Validate cfg = None" "tree pr cfg (Suc h) i kvs"
  obtains buf d child kvs' ty fl n ad where "rd_Page pr i = Inr buf" "read_header buf = Inr (ty, fl, n, ad)" "IsBranchType ty"
    "branch_step pr cfg buf key = Inr (d, child)" "tree pr cfg h child kvs'" "map_of kvs key = map_of kvs' key"
proof -
  obtain buf leftmost cells seps kvss where b: "rd_Page pr i = Inr buf" "branch_page cfg leftmost cells buf" "seps_wf cfg cells seps"
     "\<forall>j < length cells. sep_holds pr cfg (cells ! j) (seps ! j)" "length kvss = Suc (length cells)" "kvs = concat kvss"
     "\<forall>j \<le> length cells. child_of leftmost cells j \<noteq> 0 \<and> tree pr cfg h (child_of leftmost cells j) (kvss ! j) \<and>
       (\<forall>kv \<in> set (kvss ! j). descent seps (fst kv) = j)"
    using assms(2) by (rule branchE)
  let ?d = "descent seps key"
  have d: "?d < length kvss" using descent_le [of seps key] b(3,5) by (simp add: seps_wf_def)
  obtain ty fl n ad where h: "read_header buf = Inr (ty, fl, n, ad)" "IsBranchType ty" using branch_page_reads(4) [OF assms(1) b(2)] by blast
  have s: "branch_step pr cfg buf key = Inr (?d, child_of leftmost cells ?d)"
    using branch_page_step [OF assms(1) b(2-4)] b(5,7) d by simp
  have "map_of kvs key = map_of (kvss ! ?d) key"
    unfolding b(6) by (rule map_of_concat [OF _ d]) (use b(5,7) in \<open>fastforce simp: less_Suc_eq_le\<close>)
  moreover have "tree pr cfg h (child_of leftmost cells ?d) (kvss ! ?d)" using b(5,7) d by simp
  ultimately show ?thesis using that [OF b(1) h s] by blast
qed

lemma leaf_answers:
  assumes "Validate cfg = None" "tree pr cfg 0 i kvs"
  obtains buf es ty fl n ad where "rd_Page pr i = Inr buf" "read_header buf = Inr (ty, fl, n, ad)" "IsLeafType ty" "\<not> IsBranchType ty"
    "search_leaf pr cfg buf key = Inr (found_at es (map fst kvs) key)" "list_all2 (entry_holds pr cfg) es kvs" "sorted_wrt (<) (map fst kvs)"
proof -
  obtain buf es where l: "rd_Page pr i = Inr buf" "leaf_page cfg es buf" "list_all2 (entry_holds pr cfg) es kvs" "sorted_wrt (<) (map fst kvs)"
    using assms(2) by (rule leafE)
  obtain ty fl n ad where h: "read_header buf = Inr (ty, fl, n, ad)" "IsLeafType ty" using leaf_page_search(2) [OF assms(1) l(2-4)] by blast
  then have "\<not> IsBranchType ty" by (auto simp: IsLeafType_def IsBranchType_def page_types)
  then show ?thesis using that [OF l(1) h] leaf_page_search(1) [OF assms(1) l(2-4), of key] l(3,4) by blast
qed

text \<open>The entry found under a key is the one that stores its value.\<close>

lemma found_entry:
  assumes "sorted_wrt (<) (map fst kvs)" "list_all2 (entry_holds pr cfg) es kvs" "map_of kvs key = Some v"
  shows "rank (map fst kvs) key < length es" "entry_holds pr cfg (es ! rank (map fst kvs) key) (key, v)"
proof -
  let ?keys = "map fst kvs" and ?i = "rank (map fst kvs) key"
  have k: "key \<in> set ?keys" using map_of_SomeD [OF assms(3)] by force
  have i: "?i < length ?keys" "?keys ! ?i = key"
    using bs3.ranks(2) [OF assms(1), of "\<lambda>i. Inr (Compare (?keys ! i) key) :: node_err + int", OF refl k] by simp_all
  have "distinct ?keys" using assms(1) by (simp add: strict_sorted_iff)
  then have "map_of kvs (fst (kvs ! ?i)) = Some (snd (kvs ! ?i))" using i(1) by (simp add: map_of_is_SomeI)
  then have "kvs ! ?i = (key, v)" using i assms(3) by (simp add: prod_eq_iff)
  then show "entry_holds pr cfg (es ! ?i) (key, v)" using assms(2) i(1) by (metis length_map list_all2_lengthD list_all2_nthD)
  show "?i < length es" using i(1) list_all2_lengthD [OF assms(2)] by simp
qed

lemma found_value:
  assumes "sorted_wrt (<) (map fst kvs)" "list_all2 (entry_holds pr cfg) es kvs" "map_of kvs key = Some v"
  shows "\<exists>e. found_at es (map fst kvs) key = (rank (map fst kvs) key, e\<lparr>Key := []\<rparr>, True) \<and> entry_holds pr cfg e (key, v)"
proof -
  have "key \<in> set (map fst kvs)" using map_of_SomeD [OF assms(3)] by force
  then show ?thesis using found_entry [OF assms] by (auto simp: found_at_def Let_def)
qed

lemma found_none:
  "map_of kvs key = None \<Longrightarrow> found_at es (map fst kvs) key = (rank (map fst kvs) key, no_entry, False)"
  by (simp add: found_at_def Let_def map_of_eq_None_iff)

lemma stored_value_reads:
  assumes "Validate cfg = None" "entry_holds pr cfg e (k, v)"
  shows "(if IsOverflow (e\<lparr>Key := []\<rparr>) then bind_res (readOverflowValue pr cfg (e\<lparr>Key := []\<rparr>)) (\<lambda>val. Inr (val, True)) else Inr (Value (e\<lparr>Key := []\<rparr>), True)) = Inr (v, True)"
  using assms run_extent_reads [OF assms(1), of pr "OverflowPage e" v] by (simp add: entry_holds_def IsOverflow_def readOverflowValue_def)

section \<open>Lookups answer from the map\<close>

lemma get_loop_tree:
  assumes "Validate cfg = None"
  shows "tree pr cfg h i kvs \<Longrightarrow> h < fuel \<Longrightarrow>
    get_loop pr cfg key fuel i = Inr (case map_of kvs key of None \<Rightarrow> ([], False) | Some v \<Rightarrow> (v, True))"
proof (induction h arbitrary: i kvs fuel)
  case 0
  obtain f where f: "fuel = Suc f" using 0 by (cases fuel) auto
  obtain buf es ty fl n ad where l: "rd_Page pr i = Inr buf" "read_header buf = Inr (ty, fl, n, ad)" "IsLeafType ty" "\<not> IsBranchType ty"
    "search_leaf pr cfg buf key = Inr (found_at es (map fst kvs) key)" "list_all2 (entry_holds pr cfg) es kvs" "sorted_wrt (<) (map fst kvs)"
    using leaf_answers [OF assms 0(1)] .
  show ?case
  proof (cases "map_of kvs key")
    case None
    then show ?thesis using l found_none [OF None, of es] by (simp add: f)
  next
    case (Some v)
    obtain e where e: "found_at es (map fst kvs) key = (rank (map fst kvs) key, e\<lparr>Key := []\<rparr>, True)" "entry_holds pr cfg e (key, v)"
      using found_value [OF l(7,6) Some] by blast
    show ?thesis
      by (simp only: f get_loop.simps l(1-5) e(1) Some bind_res.simps prod.case option.case if_True if_False simp_thms stored_value_reads [OF assms e(2)])
  qed
next
  case (Suc h)
  obtain f where f: "fuel = Suc f" using Suc.prems(2) by (cases fuel) auto
  obtain buf d child kvs' ty fl n ad where b: "rd_Page pr i = Inr buf" "read_header buf = Inr (ty, fl, n, ad)" "IsBranchType ty"
    "branch_step pr cfg buf key = Inr (d, child)" "tree pr cfg h child kvs'" "map_of kvs key = map_of kvs' key"
    using branch_routes [OF assms Suc.prems(1)] .
  show ?case using Suc.IH [OF b(5), of f] Suc.prems(2) b by (simp add: f)
qed

lemma has_loop_tree:
  assumes "Validate cfg = None"
  shows "tree pr cfg h i kvs \<Longrightarrow> h < fuel \<Longrightarrow> has_loop pr cfg key fuel i = Inr (map_of kvs key \<noteq> None)"
proof (induction h arbitrary: i kvs fuel)
  case 0
  obtain f where f: "fuel = Suc f" using 0 by (cases fuel) auto
  obtain buf es ty fl n ad where l: "rd_Page pr i = Inr buf" "read_header buf = Inr (ty, fl, n, ad)" "IsLeafType ty" "\<not> IsBranchType ty"
    "search_leaf pr cfg buf key = Inr (found_at es (map fst kvs) key)"
    using leaf_answers [OF assms 0(1)] .
  have "snd (snd (found_at es (map fst kvs) key)) \<longleftrightarrow> map_of kvs key \<noteq> None" by (simp add: found_at_def Let_def map_of_eq_None_iff)
  then show ?case using l by (cases "found_at es (map fst kvs) key") (simp add: f)
next
  case (Suc h)
  obtain f where f: "fuel = Suc f" using Suc.prems(2) by (cases fuel) auto
  obtain buf d child kvs' ty fl n ad where b: "rd_Page pr i = Inr buf" "read_header buf = Inr (ty, fl, n, ad)" "IsBranchType ty"
    "branch_step pr cfg buf key = Inr (d, child)" "tree pr cfg h child kvs'" "map_of kvs key = map_of kvs' key"
    using branch_routes [OF assms Suc.prems(1)] .
  show ?case using Suc.IH [OF b(5), of f] Suc.prems(2) b by (simp add: f)
qed

text \<open>The entry under a key stores the pair; a key that is not in the tree has none.\<close>

lemma leaf_entry_reads:
  assumes "Validate cfg = None" "tree pr cfg 0 i kvs"
  obtains buf r es ty fl n ad where "rd_Page pr i = Inr buf" "read_header buf = Inr (ty, fl, n, ad)" "IsLeafType ty"
    "NewLeafReader buf cfg = Inr r" "ValidateLeaf r = Inr ()" "SearchLeaf r key (keyTail pr cfg) = Inr (found_at es (map fst kvs) key)"
    "\<And>j. j < length es \<Longrightarrow> EntryAt r j = Inr (es ! j)" "list_all2 (entry_holds pr cfg) es kvs" "sorted_wrt (<) (map fst kvs)"
proof -
  obtain buf es where l: "rd_Page pr i = Inr buf" "leaf_page cfg es buf" "list_all2 (entry_holds pr cfg) es kvs" "sorted_wrt (<) (map fst kvs)"
    using assms(2) by (rule leafE)
  obtain r where r: "NewLeafReader buf cfg = Inr r" "serves es r" using l(2) by (auto simp: leaf_page_def)
  have s: "ValidateLeaf r = Inr ()" "\<And>j. j < length es \<Longrightarrow> EntryAt r j = Inr (es ! j)" using r(2) by (simp_all add: serves_def)
  then have "SearchLeaf r key (keyTail pr cfg) = Inr (found_at es (map fst kvs) key)"
    using leaf_page_search(1) [OF assms(1) l(2-4), of key] r(1) by (simp add: search_leaf_def)
  then show ?thesis using that leaf_page_search(2) [OF assms(1) l(2-4)] l r s by blast
qed

lemma get_entry_loop_tree:
  assumes "Validate cfg = None"
  shows "tree pr cfg h i kvs \<Longrightarrow> h < fuel \<Longrightarrow> case map_of kvs key of
      None \<Rightarrow> get_entry_loop pr cfg key fuel i = Inr (no_entry, False)
    | Some v \<Rightarrow> \<exists>e. get_entry_loop pr cfg key fuel i = Inr (e, True) \<and> entry_holds pr cfg e (key, v)"
proof (induction h arbitrary: i kvs fuel)
  case 0
  obtain f where f: "fuel = Suc f" using 0 by (cases fuel) auto
  obtain buf r es ty fl n ad where l: "rd_Page pr i = Inr buf" "read_header buf = Inr (ty, fl, n, ad)" "IsLeafType ty"
    "NewLeafReader buf cfg = Inr r" "ValidateLeaf r = Inr ()" "SearchLeaf r key (keyTail pr cfg) = Inr (found_at es (map fst kvs) key)"
    "\<And>j. j < length es \<Longrightarrow> EntryAt r j = Inr (es ! j)" "list_all2 (entry_holds pr cfg) es kvs" "sorted_wrt (<) (map fst kvs)"
    using leaf_entry_reads [OF assms 0(1), of key] by metis
  show ?case
  proof (cases "map_of kvs key")
    case None
    then show ?thesis using l(1-6) found_none [OF None, of es] by (simp add: f)
  next
    case (Some v)
    let ?i = "rank (map fst kvs) key"
    have k: "key \<in> fst ` set kvs" using map_of_SomeD [OF Some] by force
    have e: "?i < length es" "entry_holds pr cfg (es ! ?i) (key, v)" using found_entry [OF l(9,8) Some] by simp_all
    show ?thesis using l(1-6) l(7) [OF e(1)] e(2) Some k by (simp add: f found_at_def Let_def)
  qed
next
  case (Suc h)
  obtain f where f: "fuel = Suc f" using Suc.prems(2) by (cases fuel) auto
  obtain buf d child kvs' ty fl n ad where b: "rd_Page pr i = Inr buf" "read_header buf = Inr (ty, fl, n, ad)" "IsBranchType ty"
    "branch_step pr cfg buf key = Inr (d, child)" "tree pr cfg h child kvs'" "map_of kvs key = map_of kvs' key"
    using branch_routes [OF assms Suc.prems(1)] .
  have "\<not> IsLeafType ty" using b(3) by (auto simp: IsLeafType_def IsBranchType_def page_types)
  then have "get_entry_loop pr cfg key fuel i = get_entry_loop pr cfg key f child" using b(1-4) by (simp add: f)
  then show ?case using Suc.IH [OF b(5), of f] Suc.prems(2) f b(6) by (simp only: Suc_less_eq)
qed

text \<open>The descent of a write ends at a leaf that holds the key exactly if the tree does.\<close>

lemma descend_loop_tree:
  assumes "Validate cfg = None"
  shows "tree pr cfg h i kvs \<Longrightarrow> h < fuel \<Longrightarrow> \<exists>more leafID buf rm' kvs'.
    descend_loop pr cfg key fuel path i rm = Inr (path @ more, leafID, buf, rm') \<and> length more = h \<and> rd_Page pr leafID = Inr buf \<and>
    tree pr cfg 0 leafID kvs' \<and> map_of kvs' key = map_of kvs key"
proof (induction h arbitrary: i kvs fuel path rm)
  case 0
  obtain f where f: "fuel = Suc f" using 0 by (cases fuel) auto
  obtain buf es ty fl n ad where l: "rd_Page pr i = Inr buf" "read_header buf = Inr (ty, fl, n, ad)" "IsLeafType ty"
    using leaf_answers [OF assms 0(1)] .
  then show ?case using 0 by (auto simp: f)
next
  case (Suc h)
  obtain f where f: "fuel = Suc f" using Suc.prems(2) by (cases fuel) auto
  obtain buf d child kvs' ty fl n ad where b: "rd_Page pr i = Inr buf" "read_header buf = Inr (ty, fl, n, ad)" "IsBranchType ty"
    "branch_step pr cfg buf key = Inr (d, child)" "tree pr cfg h child kvs'" "map_of kvs key = map_of kvs' key"
    using branch_routes [OF assms Suc.prems(1)] .
  have nl: "\<not> IsLeafType ty" using b(3) by (auto simp: IsLeafType_def IsBranchType_def page_types)
  have c: "BranchCellCount buf = Inr (unat n)" using b(2,3) by (simp add: BranchCellCount_def)
  let ?p = "path @ [\<lparr>pf_pageID = i, pf_childIdx = d\<rparr>]"
  have s: "descend_loop pr cfg key fuel path i rm = descend_loop pr cfg key f ?p child (rm \<and> d = unat n)" using b(1-4) nl c by (simp add: f)
  obtain more leafID lbuf rm' kvs'' where "descend_loop pr cfg key f ?p child (rm \<and> d = unat n) = Inr (?p @ more, leafID, lbuf, rm')" "length more = h"
      "rd_Page pr leafID = Inr lbuf" "tree pr cfg 0 leafID kvs''" "map_of kvs'' key = map_of kvs' key"
    using Suc.IH [OF b(5), of f ?p "rm \<and> d = unat n"] Suc.prems(2) f by auto
  then show ?case unfolding s using b(6) by (intro exI [of _ "\<lparr>pf_pageID = i, pf_childIdx = d\<rparr> # more"]) auto
qed

text \<open>The leftmost path has the height of the tree, and the bound cuts it off at 64 pages.\<close>

lemma path_loop_tree:
  assumes "Validate cfg = None"
  shows "tree pr cfg h i kvs \<Longrightarrow> path_loop pr cfg left n i = (if h < left then Inr (n + h + 1) else Inl TooDeep)"
proof (induction h arbitrary: i kvs left n)
  case 0
  obtain buf es ty fl m ad where l: "rd_Page pr i = Inr buf" "read_header buf = Inr (ty, fl, m, ad)" "IsLeafType ty"
    using leaf_answers [OF assms 0(1)] .
  then show ?case by (cases left) simp_all
next
  case (Suc h)
  obtain buf leftmost cells kvss seps where b: "rd_Page pr i = Inr buf" "branch_page cfg leftmost cells buf"
     "\<forall>j \<le> length cells. child_of leftmost cells j \<noteq> 0 \<and> tree pr cfg h (child_of leftmost cells j) (kvss ! j) \<and>
       (\<forall>kv \<in> set (kvss ! j). descent seps (fst kv) = j)"
    using Suc.prems by (rule branchE)
  obtain ty fl m ad where h: "read_header buf = Inr (ty, fl, m, ad)" "IsBranchType ty" using branch_page_reads(4) [OF assms b(2)] by blast
  have nl: "\<not> IsLeafType ty" using h(2) by (auto simp: IsLeafType_def IsBranchType_def page_types)
  note r = branch_page_reads(1) [OF assms b(2)] branch_page_reads(2) [OF assms b(2), of 0]
  show ?case
  proof (cases left)
    case (Suc l)
    have "path_loop pr cfg left n i = path_loop pr cfg l (n + 1) (child_of leftmost cells 0)"
      using b(1,3) h nl r by (simp add: Suc validateBranchPage_def)
    then show ?thesis using Suc.IH [of "child_of leftmost cells 0" "kvss ! 0" l "n + 1"] b(3) Suc by simp
  qed (simp add: b(1))
qed

end
