(* ===== verification/Pager_Run.thy ===== *)
theory Pager_Run
  imports Pager_Slab Overflow_Run
begin

text \<open>
  Overflow-run reads of the pager, \<^verbatim>\<open>PageRun\<close> and \<^verbatim>\<open>PageRunRaw\<close> in \<^verbatim>\<open>src/internal/pager/pager.go\<close>. The
  recording of accessed pages for memory advice is left out; it does not change what is read.
\<close>

section \<open>Reading a run\<close>

text \<open>A range of the mapping; an access past the end of the file is a fault.\<close>

definition mmapRange :: "Pager \<Rightarrow> nat \<Rightarrow> nat \<Rightarrow> pg_err + bytes" where
  "mmapRange p pid n =
     (if (pid + n) * ps p > length (fo_bytes (fops p)) then Inl (FaultSigbus pid)
      else Inr (field (fo_bytes (fops p)) (pid * ps p) (n * ps p)))"

definition pageRunMmap :: "Pager \<Rightarrow> nat \<Rightarrow> pg_err + bytes" where
  "pageRunMmap p headID =
     (let backed = backedPages p in
      if headID \<ge> backed then Inl ErrCorrupted
      else
        bind_res (mmapRange p headID 1) (\<lambda>head.
        case DecodeOverflowFirstPage head of
          Inl (Panic e) \<Rightarrow> Inl (PanicPage e)
        | Inl _ \<Rightarrow> Inl ErrCorrupted
        | Inr additional \<Rightarrow>
            (let total = 1 + unat additional in
             if headID + total > backed then Inl ErrCorrupted else mmapRange p headID total)))"

definition PageRun :: "Env \<Rightarrow> nat \<Rightarrow> bytes pm" where
  "PageRun env headID p =
     (if \<not> readOnly p \<and> slab p headID \<noteq> None then (Inl ErrCorrupted, p)
      else
        case pageRunMmap p headID of
          Inl e \<Rightarrow> (Inl e, p)
        | Inr run \<Rightarrow>
            if PageChecksum (cfg p) \<and> \<not> isVerified p headID then
              (case VerifyOverflowRun (xxh3 env) run (cfg p) of
                 Inl (Panic e) \<Rightarrow> (Inl (PanicPage e), p)
               | Inl _ \<Rightarrow> (Inl PanicNil, p)
               | Inr ok \<Rightarrow> if \<not> ok then (Inl (ErrBadPageChecksum headID), p) else (Inr run, markVerified headID (backedPages p) p))
            else (Inr run, p))"

definition PageRunRaw :: "nat \<Rightarrow> bytes pm" where
  "PageRunRaw headID p =
     (if \<not> readOnly p \<and> slab p headID \<noteq> None then (Inl ErrCorrupted, p) else (pageRunMmap p headID, p))"

section \<open>What the reads rely on\<close>

text \<open>
  The file backs the size the pager has recorded, and the buffers of dirty pages are whole pages. Of
  the content of the file nothing is assumed.
\<close>

definition mapped :: "Pager \<Rightarrow> bool" where
  "mapped p \<longleftrightarrow> Validate (cfg p) = None \<and> fileSize p \<le> length (fo_bytes (fops p)) \<and>
     (\<forall>pid b. slab p pid = Some b \<longrightarrow> length (bufs p b) = ps p)"

fun faults :: "pg_err \<Rightarrow> bool" where
  "faults (PanicBitmap e) = True"
| "faults (PanicPage e) = True"
| "faults (PanicMmap n) = True"
| "faults (FaultSigbus n) = True"
| "faults PanicNil = True"
| "faults PanicUnattached = True"
| "faults PanicShallowActive = True"
| "faults PanicOutOfOrder = True"
| "faults _ = False"

lemma mapped_range:
  assumes "mapped p" "pid + n \<le> backedPages p"
  shows "mmapRange p pid n = Inr (field (fo_bytes (fops p)) (pid * ps p) (n * ps p))"
    "length (field (fo_bytes (fops p)) (pid * ps p) (n * ps p)) = n * ps p"
proof -
  have "backedPages p \<le> fileSize p div ps p" by (simp add: backedPages_def Let_def)
  then have "(pid + n) * ps p \<le> fileSize p div ps p * ps p" using assms(2) by (intro mult_right_mono) simp_all
  also have "\<dots> \<le> fileSize p" by (rule div_times_less_eq_dividend)
  finally have "(pid + n) * ps p \<le> length (fo_bytes (fops p))" using assms(1) by (simp add: mapped_def)
  then show "mmapRange p pid n = Inr (field (fo_bytes (fops p)) (pid * ps p) (n * ps p))"
    "length (field (fo_bytes (fops p)) (pid * ps p) (n * ps p)) = n * ps p"
    by (simp_all add: mmapRange_def field_def algebra_simps)
qed

lemma mapped_Page:
  assumes "mapped p"
  shows "fst (Page env pid p) = Inl e \<Longrightarrow> \<not> faults e" "fst (Page env pid p) = Inr buf \<Longrightarrow> length buf = page_len (cfg p)"
proof -
  have v: "Validate (cfg p) = None" and b: "\<forall>pid b. slab p pid = Some b \<longrightarrow> length (bufs p b) = ps p" using assms by (auto simp: mapped_def)
  have m: "\<exists>buf. mmapPage p pid = Inr buf \<and> length buf = ps p" if "\<not> backedPages p \<le> pid"
    using mapped_range [OF assms, of pid 1] that by (simp add: mmapPage_def mmapRange_def split: if_splits)
  have f: "\<exists>ok. VerifyPageFooter x buf (PageSize (cfg p)) = Inr ok" if "length buf = ps p" for x buf
    using that page_len_bounds(1) [OF v] by (simp add: VerifyPageFooter_def ComputePageChecksum_def ps_def FooterSize_def)
  have "(\<forall>e. fst (Page env pid p) = Inl e \<longrightarrow> \<not> faults e) \<and> (\<forall>buf. fst (Page env pid p) = Inr buf \<longrightarrow> length buf = ps p)"
  proof (cases "if readOnly p then None else slab p pid")
    case (Some x)
    then show ?thesis using b by (auto simp: Page_def split: if_splits)
  next
    case None
    then have "Page env pid p = (if backedPages p \<le> pid then (Inl ErrCorrupted, p)
        else case mmapPage p pid of Inl e \<Rightarrow> (Inl e, p) | Inr buf \<Rightarrow>
          if PageChecksum (cfg p) \<and> \<not> isVerified p pid then
            (case VerifyPageFooter (xxh3 env) buf (PageSize (cfg p)) of Inl e \<Rightarrow> (Inl (PanicPage e), p)
             | Inr ok \<Rightarrow> if \<not> ok then (Inl (ErrBadPageChecksum pid), p) else (Inr buf, markVerified pid (backedPages p) p))
          else (Inr buf, p))" unfolding Page_def Let_def by simp
    moreover have "mmapPage p pid = Inr buf \<Longrightarrow> \<not> backedPages p \<le> pid \<Longrightarrow> VerifyPageFooter (xxh3 env) buf (PageSize (cfg p)) \<noteq> Inl e" for buf e
      using m f [of buf "xxh3 env"] by auto
    ultimately show ?thesis using m by (cases "backedPages p \<le> pid") (auto split: sum.splits)
  qed
  then show "fst (Page env pid p) = Inl e \<Longrightarrow> \<not> faults e" "fst (Page env pid p) = Inr buf \<Longrightarrow> length buf = page_len (cfg p)"
    by (auto simp: ps_def)
qed

lemma mapped_run:
  assumes "mapped p"
  shows "pageRunMmap p pid = Inl e \<Longrightarrow> \<not> faults e"
    "pageRunMmap p pid = Inr run \<Longrightarrow> \<exists>additional. DecodeOverflowFirstPage run = Inr additional \<and> length run = (unat additional + 1) * page_len (cfg p)"
proof -
  have v: "Validate (cfg p) = None" using assms by (simp add: mapped_def)
  have P: "8 \<le> ps p" using page_len_bounds(1) [OF v] by (simp add: ps_def)
  have "(\<forall>e. pageRunMmap p pid = Inl e \<longrightarrow> \<not> faults e) \<and> (\<forall>run. pageRunMmap p pid = Inr run \<longrightarrow>
      (\<exists>additional. DecodeOverflowFirstPage run = Inr additional \<and> length run = (unat additional + 1) * ps p))"
  proof (cases "backedPages p \<le> pid")
    case True
    then show ?thesis by (simp add: pageRunMmap_def)
  next
    case False
    let ?f = "fo_bytes (fops p)" and ?h = "field (fo_bytes (fops p)) (pid * ps p) (1 * ps p)"
    note h = mapped_range [OF assms, of pid 1]
    have hd: "mmapRange p pid 1 = Inr ?h" "length ?h = ps p" using h False by simp_all
    obtain ty fl n ad where r: "read_header ?h = Inr (ty, fl, n, ad)" using hd(2) P by (simp add: read_header_def lift_panic_def ReadHeader_def HeaderSize_def)
    have dec: "DecodeOverflowFirstPage ?h = (if ty \<noteq> TypeOverflow then Inl Corrupt else Inr ad)" unfolding DecodeOverflowFirstPage_def r by simp
    have more: "DecodeOverflowFirstPage (field ?f (pid * ps p) (k * ps p)) = DecodeOverflowFirstPage ?h" if "1 \<le> k" "pid + k \<le> backedPages p" for k
    proof -
      have l: "length (field ?f (pid * ps p) (k * ps p)) = k * ps p" using mapped_range(2) [OF assms that(2)] .
      have k: "ps p \<le> k * ps p" using that(1) by simp
      have "take (ps p) (field ?f (pid * ps p) (k * ps p)) = ?h" using k by (simp only: field_def take_take min_absorb1 mult_1)
      moreover have "8 \<le> length (field ?f (pid * ps p) (k * ps p))" unfolding l using k P by linarith
      ultimately show ?thesis using read_header_take [of "ps p" "field ?f (pid * ps p) (k * ps p)"] P by (simp add: DecodeOverflowFirstPage_def)
    qed
    show ?thesis
    proof (cases "ty = TypeOverflow \<and> pid + (1 + unat ad) \<le> backedPages p")
      case True
      then have "pageRunMmap p pid = Inr (field ?f (pid * ps p) ((1 + unat ad) * ps p))"
        using False hd dec mapped_range(1) [OF assms, of pid "1 + unat ad"] by (simp add: pageRunMmap_def Let_def del: mult_Suc)
      then show ?thesis using more [of "1 + unat ad"] True dec mapped_range(2) [OF assms, of pid "1 + unat ad"] by simp
    next
      case bad: False
      then have "pageRunMmap p pid = Inl ErrCorrupted" using False hd dec by (auto simp: pageRunMmap_def Let_def)
      then show ?thesis by simp
    qed
  qed
  then show "pageRunMmap p pid = Inl e \<Longrightarrow> \<not> faults e"
    "pageRunMmap p pid = Inr run \<Longrightarrow> \<exists>additional. DecodeOverflowFirstPage run = Inr additional \<and> length run = (unat additional + 1) * page_len (cfg p)"
    by (auto simp: ps_def)
qed

lemma mapped_PageRun:
  assumes "mapped p"
  shows "fst (PageRun env pid p) = Inl e \<Longrightarrow> \<not> faults e"
    "fst (PageRun env pid p) = Inr run \<Longrightarrow> \<exists>additional. DecodeOverflowFirstPage run = Inr additional \<and> length run = (unat additional + 1) * page_len (cfg p)"
proof -
  have v: "Validate (cfg p) = None" using assms by (simp add: mapped_def)
  have ok: "\<exists>ok. VerifyOverflowRun x run (cfg p) = Inr ok" if "pageRunMmap p pid = Inr run" for x run
  proof -
    have "page_len (cfg p) \<le> length run" using mapped_run(2) [OF assms that] by auto
    then have "16 \<le> length run" using page_len_bounds(1) [OF v] by linarith
    then show ?thesis using head_start_bounds(2) [of "cfg p"]
      by (auto simp: VerifyOverflowRun_def OverflowRunDigest_def StoredOverflowRunDigest_def overflow_geometry [OF v] slice_def u64_at_def overflowDigestOff_def HeaderSize_def)
  qed
  show "fst (PageRun env pid p) = Inl e \<Longrightarrow> \<not> faults e"
    using mapped_run(1) [OF assms] ok [of _ "xxh3 env"] by (auto simp: PageRun_def split: if_splits sum.splits node_err.splits)
  show "fst (PageRun env pid p) = Inr run \<Longrightarrow> \<exists>additional. DecodeOverflowFirstPage run = Inr additional \<and> length run = (unat additional + 1) * page_len (cfg p)"
    using mapped_run(2) [OF assms] by (auto simp: PageRun_def split: if_splits sum.splits node_err.splits)
qed

end
