(* ===== verification/Tree_Props.thy ===== *)
theory Tree_Props
  imports Tree_Map Pager_Run Pager_Demo Space_Lemmas
begin

text \<open>
  The properties of the read side of the tree, over the pages and over the pager that provides them.
\<close>

declare push_bit_of_1 [simp del]

section \<open>The pager as the page reader\<close>






text \<open>
  Within a transaction the reader is a function of the file and the dirty pages: a page read changes
  nothing but the record of verified pages, and every page read after it answers as before. Runs
  share the record, so the same holds for the runs at other ids.
\<close>

lemma mark_keeps:
  "backedPages (markVerified i n p) = backedPages p" "mmapPage (markVerified i n p) = mmapPage p" "mmapRange (markVerified i n p) = mmapRange p"
  "slab (markVerified i n p) = slab p" "bufs (markVerified i n p) = bufs p" "cfg (markVerified i n p) = cfg p" "readOnly (markVerified i n p) = readOnly p"
  by (simp_all add: markVerified_def Let_def backedPages_def mmapPage_def mmapRange_def ps_def fun_eq_iff)

lemma page_read_effect:
  "Page env i p = (r, p') \<Longrightarrow> p' = p \<or> (\<exists>buf. mmapPage p i = Inr buf \<and> VerifyPageFooter (xxh3 env) buf (PageSize (cfg p)) = Inr True \<and>
     p' = markVerified i (backedPages p) p)"
  by (auto simp: Page_def Let_def split: option.splits if_splits sum.splits)

lemma page_reads_stable:
  assumes "Page env i p = (r, p')"
  shows "fst (Page env j p') = fst (Page env j p)" "j \<noteq> i \<Longrightarrow> fst (PageRun env j p') = fst (PageRun env j p)"
proof -
  consider "p' = p" | buf where "mmapPage p i = Inr buf" "VerifyPageFooter (xxh3 env) buf (PageSize (cfg p)) = Inr True" "p' = markVerified i (backedPages p) p"
    using page_read_effect [OF assms] by blast
  then have "fst (Page env j p') = fst (Page env j p) \<and> (j \<noteq> i \<longrightarrow> fst (PageRun env j p') = fst (PageRun env j p))"
  proof cases
    case 2
    have "pageRunMmap p' j = pageRunMmap p j" by (simp only: pageRunMmap_def Let_def 2(3) mark_keeps)
    moreover have "isVerified p' j \<longleftrightarrow> j = i \<or> isVerified p j" by (simp add: 2(3) isVerified_mark)
    ultimately show ?thesis using 2(1,2)
      by (cases "j = i") (auto simp: Page_def PageRun_def Let_def 2(3) mark_keeps split: option.splits sum.splits node_err.splits)
  qed simp
  then show "fst (Page env j p') = fst (Page env j p)" "j \<noteq> i \<Longrightarrow> fst (PageRun env j p') = fst (PageRun env j p)" by blast+
qed

section \<open>Runs in pages\<close>

text \<open>A sink that keeps the pages it is given.\<close>

definition keep_pages :: "(nat \<Rightarrow> bytes) page_sink" where
  "keep_pages i b pages = (Inr (), pages(unat i := b))"

lemma keep_sent:
  "\<forall>(i, b) \<in> set cs. i < 2 ^ 32 \<Longrightarrow> send keep_pages cs pages = (Inr (), foldl (\<lambda>m (i, b). m(i := b)) pages cs)"
  by (induction cs arbitrary: pages) (auto simp: keep_pages_def unat_of_nat)

lemma keep_all: "i \<in> set is \<Longrightarrow> foldl (\<lambda>m (i, b). m(i := b)) pages (map (\<lambda>i. (i, f i)) is) i = f i"
proof (induction "is" arbitrary: pages rule: rev_induct)
  case (snoc j js)
  then show ?case by (cases "i = j") auto
qed simp

lemma pages_image: "length img = k * page_len conf \<Longrightarrow> concat (map (run_page conf img) [0..<k]) = img"
proof (induction k arbitrary: img)
  case (Suc k)
  have "concat (map (run_page conf (take (k * page_len conf) img)) [0..<k]) = take (k * page_len conf) img" using Suc.prems by (intro Suc.IH) simp
  moreover have "run_page conf (take (k * page_len conf) img) j = run_page conf img j" if "j < k" for j
  proof -
    have "Suc j * page_len conf \<le> k * page_len conf" using that by (intro mult_le_mono1) simp
    then have "min (page_len conf) (k * page_len conf - j * page_len conf) = page_len conf" by simp
    then show ?thesis by (simp add: run_page_def drop_take)
  qed
  then have "map (run_page conf (take (k * page_len conf) img)) [0..<k] = map (run_page conf img) [0..<k]" by simp
  moreover have "run_page conf img k = drop (k * page_len conf) img" using Suc.prems by (simp add: run_page_def)
  ultimately show ?case by simp
qed simp

section \<open>A concrete tree\<close>

text \<open>Two leaves under one branch; the value of the second key is in a run at page 7.\<close>

definition demo_value :: bytes where "demo_value = replicate 5000 1"

definition demo_cell :: BranchCell where
  "demo_cell = \<lparr>bc_Key = [1, 5], bc_Child = 9, bc_KeyExtPage = 0, bc_KeyTotalLen = 0\<rparr>"

definition demo_reader :: "bytes \<Rightarrow> bytes \<Rightarrow> bytes \<Rightarrow> PageReader" where
  "demo_reader b l r = \<lparr>rd_Page = (\<lambda>i. if i = 3 then Inr b else if i = 5 then Inr l else if i = 9 then Inr r else Inl Corrupt),
     rd_PageRun = (\<lambda>i. if i = 7 then Inr (run_image (\<lambda>_. 0) (demo_leaf_cfg 6 2) demo_value) else Inl Corrupt)\<rparr>"

definition demo_pairs :: "(bytes \<times> bytes) list" where
  "demo_pairs = [([1, 2], [9]), ([1, 2, 3], demo_value), ([1, 7], [])]"

lemma demo_tree_cfg: "Validate (demo_leaf_cfg 6 2) = None" "page_len (demo_leaf_cfg 6 2) = 4096" "head_start (demo_leaf_cfg 6 2) = 16"
  by (rule demo_leaf_cfg_valid, simp_all add: demo_leaf_cfg_def head_start_def)

lemma demo_run: "run_holds (demo_reader b l r) (demo_leaf_cfg 6 2) 7 demo_value"
proof -
  have "run_pages (demo_leaf_cfg 6 2) (length demo_value) < 2 ^ 32" by (simp add: run_pages_def demo_tree_cfg demo_value_def)
  then show ?thesis by (auto simp: run_holds_def demo_reader_def)
qed

lemma leaf_form_fields:
  "full_key (leaf_form c e) k = full_key e k" "IsOverflowKey (leaf_form c e) = IsOverflowKey e" "IsOverflow (leaf_form c e) = IsOverflow e"
  "Value (leaf_form c e) = Value e" "TotalLen (leaf_form c e) = TotalLen e" "OverflowPage (leaf_form c e) = OverflowPage e"
  "KeyExtPage (leaf_form c e) = KeyExtPage e" "Key (leaf_form c e) = Key e" "bit (Flags (leaf_form c e)) 4 = bit (Flags e) 4"
  and leaf_form_overflow: "bit (Flags (leaf_form c e)) 0 = bit (Flags e) 0"
proof -
  show o: "bit (Flags (leaf_form c e)) 0 = bit (Flags e) 0" by (simp add: leaf_form_def bit_sstored)
  then show "IsOverflow (leaf_form c e) = IsOverflow e" by (simp add: IsOverflow_def)
qed (simp_all add: leaf_form_def bit_sstored)

lemma demo_nodes:
  obtains b l r where "build_leaf (replicate 4096 0) (demo_leaf_cfg 6 2) (take 2 demo_entries) = Inr (Some l)"
    "build_leaf (replicate 4096 0) (demo_leaf_cfg 6 2) (drop 2 demo_entries) = Inr (Some r)"
    "EncodeBranch (replicate 4096 0) (demo_leaf_cfg 6 2) 5 [demo_cell] = Inr b" "branch_page (demo_leaf_cfg 6 2) 5 [demo_cell] b"
    "tree (demo_reader b l r) (demo_leaf_cfg 6 2) 0 5 (take 2 demo_pairs)" "tree (demo_reader b l r) (demo_leaf_cfg 6 2) 0 9 (drop 2 demo_pairs)"
proof -
  let ?c = "demo_leaf_cfg 6 2" and ?buf = "replicate 4096 (0 :: byte)"
  note v = demo_tree_cfg(1)
  have n: "length ?buf = page_len ?c" by (simp add: demo_tree_cfg)
  have i: "2010 \<le> inline_max ?c" by (rule page_bounds(5) [OF v])
  have ce: "4088 \<le> content_end ?c" by (rule page_bounds(1) [OF v])
  have ok: "\<forall>e \<in> set (take 2 demo_entries). entry_ok ?c e" "\<forall>e \<in> set (drop 2 demo_entries). entry_ok ?c e"
    using demo_entries_ok(1) [OF v] by (auto dest: in_set_takeD in_set_dropD)
  have k: "list_all2 full_key (take 2 demo_entries) [[1, 2], [1, 2, 3]]" "list_all2 full_key (drop 2 demo_entries) [[1, 7]]"
    using demo_entries_ok(2) [OF v] by (simp_all add: demo_entries_def)
  have z: "14 + sum_list (map entry_cost (take 2 demo_entries)) \<le> content_end ?c" "14 + sum_list (map entry_cost (drop 2 demo_entries)) \<le> content_end ?c"
    using ce by (simp_all add: demo_entries_def entry_cost_def no_entry_def)
  obtain l where l: "build_leaf ?buf ?c (take 2 demo_entries) = Inr (Some l)" "leaf_page ?c (map (leaf_form ?c) (take 2 demo_entries)) l"
    using build_leaf_page [OF v n ok(1) k(1) _ z(1)] by auto
  obtain r where r: "build_leaf ?buf ?c (drop 2 demo_entries) = Inr (Some r)" "leaf_page ?c (map (leaf_form ?c) (drop 2 demo_entries)) r"
    using build_leaf_page [OF v n ok(2) k(2) _ z(2)] by auto
  have st: "\<forall>c \<in> set [demo_cell]. storable ?c c"
    using i by (simp add: demo_cell_def storable_def cell_wf_def cell_IsOverflowKey_def)
  have "BranchEncodedSize ?c [demo_cell] \<le> 4088"
    by (simp add: BranchEncodedSize_def segBranchEncodedSize_def segBranchEncodedSizeOf_def BranchEncodedSizeOf_def branch_sizes hb_eq
        demo_cell_def key_len_sum_def ext_refs_def cell_IsOverflowKey_def shared_prefix_def)
  then have sz: "BranchEncodedSize ?c [demo_cell] \<le> int (content_end ?c)" using ce by linarith
  obtain b where b: "EncodeBranch ?buf ?c 5 [demo_cell] = Inr b" "branch_page ?c 5 [demo_cell] b"
    using encode_branch_page [OF v n _ st sz, of 5] by auto
  let ?pr = "demo_reader b l r"
  have left: "tree ?pr ?c 0 5 (take 2 demo_pairs)"
  proof (rule tree.leaf [OF _ l(2)])
    show "list_all2 (entry_holds ?pr ?c) (map (leaf_form ?c) (take 2 demo_entries)) (take 2 demo_pairs)"
      using demo_run [of b l r]
      by (simp add: demo_entries_def demo_pairs_def entry_holds_def leaf_form_fields leaf_form_overflow full_key_def IsOverflowKey_def IsOverflow_def no_entry_def bit_1_iff)
        (simp add: demo_value_def)
  qed (simp_all add: demo_reader_def demo_pairs_def)
  have right: "tree ?pr ?c 0 9 (drop 2 demo_pairs)"
  proof (rule tree.leaf [OF _ r(2)])
    show "list_all2 (entry_holds ?pr ?c) (map (leaf_form ?c) (drop 2 demo_entries)) (drop 2 demo_pairs)"
      by (simp add: demo_entries_def demo_pairs_def entry_holds_def leaf_form_fields leaf_form_overflow full_key_def IsOverflowKey_def IsOverflow_def no_entry_def)
  qed (simp_all add: demo_reader_def demo_pairs_def)
  show ?thesis by (rule that [OF l(1) r(1) b left right])
qed

lemma demo_split:
  "seps_wf (demo_leaf_cfg 6 2) [demo_cell] [[1, 5]]" "\<forall>j < length [demo_cell]. sep_holds pr (demo_leaf_cfg 6 2) ([demo_cell] ! j) ([[1, 5]] ! j)"
  "\<forall>j \<le> length [demo_cell]. child_of 5 [demo_cell] j \<noteq> 0 \<and> (\<forall>kv \<in> set ([take 2 demo_pairs, drop 2 demo_pairs] ! j). descent [[1, 5]] (fst kv) = j)"
  "child_of 5 [demo_cell] 0 = 5" "child_of 5 [demo_cell] 1 = 9"
proof -
  show "seps_wf (demo_leaf_cfg 6 2) [demo_cell] [[1, 5]]"
    using page_bounds(5) [OF demo_tree_cfg(1)] by (simp add: seps_wf_def demo_cell_def cell_wf_def sep_of_def cell_IsOverflowKey_def)
qed (simp_all add: sep_holds_def demo_cell_def cell_IsOverflowKey_def le_Suc_eq all_conj_distrib child_of_def demo_pairs_def descent_def)

lemma demo_tree:
  obtains b l r where "build_leaf (replicate 4096 0) (demo_leaf_cfg 6 2) (take 2 demo_entries) = Inr (Some l)"
    "build_leaf (replicate 4096 0) (demo_leaf_cfg 6 2) (drop 2 demo_entries) = Inr (Some r)"
    "EncodeBranch (replicate 4096 0) (demo_leaf_cfg 6 2) 5 [demo_cell] = Inr b"
    "tree (demo_reader b l r) (demo_leaf_cfg 6 2) 1 3 demo_pairs"
proof -
  let ?c = "demo_leaf_cfg 6 2"
  obtain b l r where n: "build_leaf (replicate 4096 0) ?c (take 2 demo_entries) = Inr (Some l)" "build_leaf (replicate 4096 0) ?c (drop 2 demo_entries) = Inr (Some r)"
      "EncodeBranch (replicate 4096 0) ?c 5 [demo_cell] = Inr b" "branch_page ?c 5 [demo_cell] b"
      "tree (demo_reader b l r) ?c 0 5 (take 2 demo_pairs)" "tree (demo_reader b l r) ?c 0 9 (drop 2 demo_pairs)"
    by (rule demo_nodes)
  have "tree (demo_reader b l r) ?c (Suc 0) 3 (concat [take 2 demo_pairs, drop 2 demo_pairs])"
  proof (rule tree.branch [OF _ n(4) demo_split(1,2)])
    show "\<forall>j \<le> length [demo_cell]. child_of 5 [demo_cell] j \<noteq> 0 \<and> tree (demo_reader b l r) ?c 0 (child_of 5 [demo_cell] j) ([take 2 demo_pairs, drop 2 demo_pairs] ! j) \<and>
      (\<forall>kv \<in> set ([take 2 demo_pairs, drop 2 demo_pairs] ! j). descent [[1, 5]] (fst kv) = j)"
      using n(5,6) demo_split(3-5) by (simp add: le_Suc_eq all_conj_distrib)
  qed (simp_all add: demo_reader_def)
  then show ?thesis using that [OF n(1-3)] by simp
qed

section \<open>Properties\<close>

text \<open>
  C3. The lookups refine a map. Over any tree of pages of at most 64 branch levels, in any mix of layouts, with
  long keys and long values in overflow runs, Get returns the value stored under the key and reports
  an absent key as absent, and Has reports whether the key is there. Neither reports an error, and
  the bound on the descent is never hit.
\<close>

theorem get_refines_map:
  assumes "Validate conf = None" "tree pr conf h root kvs" "h \<le> MaxTreeDepth" "root \<noteq> 0"
  shows "Get pr conf root key = Inr (case map_of kvs key of None \<Rightarrow> ([], False) | Some v \<Rightarrow> (v, True)) \<and>
    Has pr conf root key = Inr (key \<in> fst ` set kvs)"
proof -
  have h: "h < MaxTreeDepth + 1" using assms(3) by simp
  have "(map_of kvs key \<noteq> None) = (key \<in> fst ` set kvs)" by (simp only: map_of_eq_None_iff simp_thms)
  then show ?thesis
    using get_loop_tree [OF assms(1,2) h, of key] has_loop_tree [OF assms(1,2) h, of key] assms(4)
    unfolding Get_def Has_def by (simp only: if_False simp_thms)
qed

theorem get_refines_map_witness:
  "\<exists>b l r. EncodeBranch (replicate 4096 0) (demo_leaf_cfg 6 2) 5 [demo_cell] = Inr b \<and>
    build_leaf (replicate 4096 0) (demo_leaf_cfg 6 2) (take 2 demo_entries) = Inr (Some l) \<and>
    Get (demo_reader b l r) (demo_leaf_cfg 6 2) 3 [1, 2, 3] = Inr (demo_value, True) \<and>
    Get (demo_reader b l r) (demo_leaf_cfg 6 2) 3 [1, 4] = Inr ([], False) \<and> Has (demo_reader b l r) (demo_leaf_cfg 6 2) 3 [1, 7] = Inr True"
proof -
  obtain b l r where t: "build_leaf (replicate 4096 0) (demo_leaf_cfg 6 2) (take 2 demo_entries) = Inr (Some l)"
      "EncodeBranch (replicate 4096 0) (demo_leaf_cfg 6 2) 5 [demo_cell] = Inr b" "tree (demo_reader b l r) (demo_leaf_cfg 6 2) 1 3 demo_pairs"
    using demo_tree by metis
  have "Get (demo_reader b l r) (demo_leaf_cfg 6 2) 3 key = Inr (case map_of demo_pairs key of None \<Rightarrow> ([], False) | Some v \<Rightarrow> (v, True))"
      "Has (demo_reader b l r) (demo_leaf_cfg 6 2) 3 key = Inr (key \<in> fst ` set demo_pairs)" for key
    using get_refines_map [OF demo_tree_cfg(1) t(3), of key] by (simp_all add: MaxTreeDepth_def)
  then have "Get (demo_reader b l r) (demo_leaf_cfg 6 2) 3 [1, 2, 3] = Inr (demo_value, True)"
      "Get (demo_reader b l r) (demo_leaf_cfg 6 2) 3 [1, 4] = Inr ([], False)" "Has (demo_reader b l r) (demo_leaf_cfg 6 2) 3 [1, 7] = Inr True"
    by (simp_all add: demo_pairs_def)
  then show ?thesis using t(1,2) by blast
qed



text \<open>
  C21. Overflow runs: a value written as a run, follower pages first and the head with the digest of the whole
  content last, reads back from the concatenated pages as the value, and the run verifies. The streaming digest is the
  digest of the concatenated chunks.
\<close>

theorem overflow_run_round_trip:
  assumes "Validate conf = None" "run_pages conf (length value) < 2 ^ 32" "\<And>cs. stream cs = xxh (concat cs)"
  shows "\<exists>pages. WriteOverflowRun stream conf value keep_pages (\<lambda>_. []) = (Inr (), pages) \<and>
    (let run = concat (map pages [0..<run_pages conf (length value)]) in
     VerifyOverflowRun xxh run conf = Inr True \<and>
     readRunExtent \<lparr>rd_Page = \<lambda>_. Inl Corrupt, rd_PageRun = \<lambda>_. Inr run\<rparr> conf i (word_of_nat (length value)) = Inr value)"
proof -
  let ?k = "run_pages conf (length value)" and ?img = "run_image xxh conf value"
  let ?is = "[1..<?k] @ [0]"
  define pages where "pages = foldl (\<lambda>m (i, b). m(i := b)) (\<lambda>_. []) (map (\<lambda>i. (i, run_page conf ?img i)) ?is)"
  have b: "\<forall>(i, b) \<in> set (map (\<lambda>i. (i, run_page conf ?img i)) ?is). i < 2 ^ 32" using assms(2) by auto
  have w: "WriteOverflowRun stream conf value keep_pages (\<lambda>_. []) = (Inr (), pages)"
    unfolding write_run_sends [of conf "value" stream xxh, OF assms] keep_sent [OF b] pages_def ..
  have "pages j = run_page conf ?img j" if "j < ?k" for j unfolding pages_def using that by (intro keep_all) auto
  then have "map pages [0..<?k] = map (run_page conf ?img) [0..<?k]" by simp
  then have run: "concat (map pages [0..<?k]) = ?img" using pages_image [OF length_run_image [OF assms(1)]] by (simp only:)
  have "run_holds \<lparr>rd_Page = \<lambda>_. Inl Corrupt, rd_PageRun = \<lambda>_. Inr ?img\<rparr> conf i value" using assms(2) by (auto simp: run_holds_def)
  from run_extent_reads [OF assms(1) this] show ?thesis unfolding Let_def
    using w run run_image_reads(3) [OF assms(1)] by (intro exI [of _ pages]) simp
qed

theorem overflow_run_round_trip_witness:
  "\<exists>pages. WriteOverflowRun (\<lambda>cs. word_of_nat (length (concat cs))) (demo_leaf_cfg 6 2) demo_value keep_pages (\<lambda>_. []) = (Inr (), pages) \<and>
    readRunExtent \<lparr>rd_Page = \<lambda>_. Inl Corrupt, rd_PageRun = \<lambda>_. Inr (pages 0 @ pages 1)\<rparr> (demo_leaf_cfg 6 2) 7 5000 = Inr demo_value"
proof -
  have k: "run_pages (demo_leaf_cfg 6 2) (length demo_value) = 2" by (simp add: run_pages_def demo_tree_cfg demo_value_def)
  have l: "length demo_value = 5000" by (simp add: demo_value_def)
  have u: "[0..<2] = [0, 1 :: nat]" by (simp add: upt_rec)
  show ?thesis
    using overflow_run_round_trip [OF demo_tree_cfg(1), of demo_value "\<lambda>cs. word_of_nat (length (concat cs))" "\<lambda>bs. word_of_nat (length bs)" 7]
    by (simp add: k u Let_def) (auto simp: l)
qed

text \<open>
  C22. The run length computed in 64 bits is exact up to a total length of 2 ^ 64 - head_start and
  wraps to one page above it: a forged reference with such a length agrees with any one-page run. A
  reader then rejects it only because the length exceeds the run.
\<close>

theorem run_length_exact_or_wraps:
  assumes "Validate conf = None"
  shows "OverflowRunLength64 conf v =
    Inr (if unat v + head_start conf \<le> 2 ^ 64 then word_of_nat (run_pages conf (unat v)) else 1)"
proof (cases "unat v + head_start conf \<le> 2 ^ 64")
  case True
  then show ?thesis using run_length64_exact [OF assms True] by simp
next
  case False
  have v: "unat v < 2 ^ 64" using unsigned_less [of v, where ?'a = nat] by simp
  have b: "4096 \<le> page_len conf" "head_start conf \<le> 16" "page_len conf \<le> 65536" using page_len_bounds [OF assms] head_start_bounds [of conf] by simp_all
  have m: "(unat v + head_start conf - 1) mod 2 ^ 64 = unat v + head_start conf - 1 - 2 ^ 64"
    using False v b(2) by (simp add: mod_if)
  have "(unat v + head_start conf - 1 - 2 ^ 64) div page_len conf = 0" using v b(1,2) by (intro div_less) linarith
  then show ?thesis unfolding run_length64(1) [OF assms] m using False by simp
qed

theorem run_length_exact_or_wraps_witness:
  "OverflowRunLength64 (demo_leaf_cfg 6 2) 18446744073709551615 = Inr 1 \<and> OverflowRunLength64 (demo_leaf_cfg 6 2) 5000 = Inr 2"
  using run_length_exact_or_wraps [OF demo_tree_cfg(1), of 18446744073709551615] run_length_exact_or_wraps [OF demo_tree_cfg(1), of 5000]
  by (simp add: demo_tree_cfg run_pages_def)

text \<open>
  C23. The descent of a write: over a tree of at most 64 branch levels it ends at a leaf page of the
  tree, with one frame per branch level above it, and the leaf holds the key with the tree's value
  exactly if the tree does.
\<close>

theorem descent_finds_leaf:
  assumes "Validate conf = None" "tree pr conf h root kvs" "h \<le> MaxTreeDepth"
  shows "\<exists>path leafID buf rightmost kvs'. descendToLeafForKey pr conf root key = Inr (path, leafID, buf, rightmost) \<and>
    length path = h \<and> rd_Page pr leafID = Inr buf \<and> tree pr conf 0 leafID kvs' \<and> map_of kvs' key = map_of kvs key"
proof -
  have h: "h < MaxTreeDepth + 1" using assms(3) by simp
  show ?thesis using descend_loop_tree [OF assms(1,2) h, of key "[]" True] unfolding descendToLeafForKey_def append_Nil by blast
qed

theorem descent_finds_leaf_witness:
  "\<exists>b l r path leafID buf rightmost. EncodeBranch (replicate 4096 0) (demo_leaf_cfg 6 2) 5 [demo_cell] = Inr b \<and>
    descendToLeafForKey (demo_reader b l r) (demo_leaf_cfg 6 2) 3 [1, 7] = Inr (path, leafID, buf, rightmost) \<and> length path = 1"
proof -
  obtain b l r where t: "EncodeBranch (replicate 4096 0) (demo_leaf_cfg 6 2) 5 [demo_cell] = Inr b" "tree (demo_reader b l r) (demo_leaf_cfg 6 2) 1 3 demo_pairs"
    using demo_tree by metis
  show ?thesis using descent_finds_leaf [OF demo_tree_cfg(1) t(2), of "[1, 7]"] t(1) unfolding MaxTreeDepth_def by fastforce
qed

text \<open>
  The measured path: PathLen is the number of pages on a path of the tree, up to 64 pages; a tree
  of 64 branch levels, which the lookups still serve, is reported as too deep.
\<close>

theorem path_len_counts:
  assumes "Validate conf = None" "tree pr conf h root kvs" "root \<noteq> 0"
  shows "PathLen pr conf root = (if h < MaxTreeDepth then Inr (h + 1) else Inl TooDeep)"
  using path_loop_tree [OF assms(1,2), of MaxTreeDepth 0] assms(3) by (simp add: PathLen_def)

theorem path_len_counts_witness:
  "\<exists>b l r. EncodeBranch (replicate 4096 0) (demo_leaf_cfg 6 2) 5 [demo_cell] = Inr b \<and> PathLen (demo_reader b l r) (demo_leaf_cfg 6 2) 3 = Inr 2"
proof -
  obtain b l r where t: "EncodeBranch (replicate 4096 0) (demo_leaf_cfg 6 2) 5 [demo_cell] = Inr b" "tree (demo_reader b l r) (demo_leaf_cfg 6 2) 1 3 demo_pairs"
    using demo_tree by metis
  have "PathLen (demo_reader b l r) (demo_leaf_cfg 6 2) 3 = Inr 2" using path_len_counts [OF demo_tree_cfg(1) t(2)] by (simp add: MaxTreeDepth_def)
  then show ?thesis using t(1) by blast
qed

end
