(* ===== verification/Cursor.thy ===== *)
theory Cursor
  imports Tree_Read Leaf_Iter
begin

text \<open>
  The cursor of the tree: \<^verbatim>\<open>src/internal/btree/cursor.go\<close>. The pages a call reads are an argument of the
  call, because a transaction may write between two of them. A method returns its result and the new
  cursor; the sum's left side is a panic only, every other error is kept in the cursor as the code
  does. The scratch buffers that pass from one leaf to the next are storage and are left out: a key
  is the byte string at the time of the return, and \<open>None\<close> is the \<^verbatim>\<open>nil\<close> key of a miss. \<open>Delete\<close>
  is left out with the deletion of the tree.
\<close>

section \<open>State\<close>

datatype cursorState = csUnpositioned | csPositioned | csEndOfIteration

datatype cursor_err = ErrCursorUnpositioned | ErrCursorStale | PageError node_err

record Cursor =
  c_rootID :: u64
  c_state :: cursorState
  c_err :: "cursor_err option"
  c_gen :: u64
  c_posGen :: u64
  c_path :: "pathFrame list"
  c_iter :: LeafIter
  c_curKey :: "bytes option"
  c_curValue :: bytes

type_synonym pair_ret = "bytes option \<times> bytes"

definition zero_reader :: LeafReader where
  "zero_reader = \<lparr>r_buf = [], r_cfg = \<lparr>PageSize = 0, PageChecksum = False, RestartGroupTarget = 0, LeafLayout = 0, BranchLayout = 0\<rparr>, r_count = 0,
     r_dataEnd = 0, r_variant = 0, r_rt = \<lparr>rt_buf = [], restartCount = 0, tableOff = 0\<rparr>, r_valueEnd = 0, r_ucTableOff = 0\<rparr>"

definition NewReadCursor :: "u64 \<Rightarrow> Cursor" where
  "NewReadCursor rootID =
     \<lparr>c_rootID = rootID, c_state = csUnpositioned, c_err = None, c_gen = 0, c_posGen = 0, c_path = [], c_iter = new_iter zero_reader,
       c_curKey = None, c_curValue = []\<rparr>"

definition cursor_Err :: "Cursor \<Rightarrow> cursor_err option" where
  "cursor_Err c = (case c_err c of Some e \<Rightarrow> Some e | None \<Rightarrow> if c_state c = csUnpositioned then Some ErrCursorUnpositioned else None)"

definition cursor_Current :: "Cursor \<Rightarrow> pair_ret \<times> Cursor" where
  "cursor_Current c =
     (if c_state c \<noteq> csPositioned then ((None, []), c)
      else if c_gen c \<noteq> c_posGen c then ((None, []), c\<lparr>c_err := Some ErrCursorStale\<rparr>)
      else ((c_curKey c, c_curValue c), c))"

definition MarkStale :: "Cursor \<Rightarrow> Cursor" where
  "MarkStale c = c\<lparr>c_gen := c_gen c + 1, c_curKey := None, c_curValue := [], c_iter := new_iter zero_reader\<rparr>"

definition SetRootID :: "u64 \<Rightarrow> Cursor \<Rightarrow> Cursor" where
  "SetRootID rootID c = c\<lparr>c_rootID := rootID\<rparr>"

definition resetPath :: "Cursor \<Rightarrow> Cursor" where
  "resetPath c = c\<lparr>c_path := [], c_curKey := None, c_curValue := []\<rparr>"

definition transitionToEnd :: "Cursor \<Rightarrow> Cursor" where
  "transitionToEnd c = c\<lparr>c_state := csEndOfIteration, c_posGen := c_gen c, c_curKey := None, c_curValue := []\<rparr>"

text \<open>A returned error, as opposed to a panic.\<close>

definition caught :: "node_err + 'a \<Rightarrow> node_err + (node_err + 'a)" where
  "caught r = (case r of Inl e \<Rightarrow> if panics r then Inl e else Inr (Inl e) | Inr x \<Rightarrow> Inr (Inr x))"

section \<open>The current pair\<close>

definition valueFor :: "PageReader \<Rightarrow> Config \<Rightarrow> LeafEntry \<Rightarrow> Cursor \<Rightarrow> node_err + bytes \<times> Cursor" where
  "valueFor pr cfg e c =
     (if \<not> IsOverflow e then Inr (Value e, c)
      else
        bind_res (caught (readOverflowValue pr cfg e)) (\<lambda>r.
        case r of Inl er \<Rightarrow> Inr ([], c\<lparr>c_err := Some (PageError er)\<rparr>) | Inr val \<Rightarrow> Inr (val, c)))"

definition adopt_value :: "PageReader \<Rightarrow> Config \<Rightarrow> LeafEntry \<Rightarrow> Cursor \<Rightarrow> node_err + Cursor" where
  "adopt_value pr cfg e c = bind_res (valueFor pr cfg e c) (\<lambda>(v, c'). Inr (c'\<lparr>c_curValue := v\<rparr>))"

text \<open>The resident part of an overflow key is never empty, so the test for the \<^verbatim>\<open>nil\<close> key is one for emptiness.\<close>

definition adoptEntry :: "PageReader \<Rightarrow> Config \<Rightarrow> LeafEntry \<Rightarrow> Cursor \<Rightarrow> node_err + Cursor" where
  "adoptEntry pr cfg e c =
     (if IsOverflowKey e \<and> Key e \<noteq> [] then
        bind_res (caught (materializeEntryKey pr cfg e)) (\<lambda>r.
        case r of
          Inl er \<Rightarrow> Inr (c\<lparr>c_err := Some (PageError er), c_state := csEndOfIteration, c_curKey := None, c_curValue := []\<rparr>)
        | Inr full \<Rightarrow> adopt_value pr cfg e (c\<lparr>c_curKey := Some full\<rparr>))
      else adopt_value pr cfg e (c\<lparr>c_curKey := Some (Key e)\<rparr>))"

definition adoptTargetKey :: "bytes \<Rightarrow> Cursor \<Rightarrow> Cursor" where
  "adoptTargetKey target c = c\<lparr>c_curKey := Some target\<rparr>"

definition current_pair :: "Cursor \<Rightarrow> pair_ret \<times> Cursor" where
  "current_pair c = ((c_curKey c, c_curValue c), c)"

definition positioned_now :: "Cursor \<Rightarrow> Cursor" where
  "positioned_now c = c\<lparr>c_posGen := c_gen c, c_state := csPositioned\<rparr>"

section \<open>Descents\<close>

text \<open>A policy picks the child of a branch. One visit of a page gives the reader of a leaf, or the picked child.\<close>

definition pickLeftmost :: "bytes \<Rightarrow> node_err + nat \<times> u64" where
  "pickLeftmost buf = bind_res (BranchLeftmostChild buf) (\<lambda>child. Inr (0, child))"

definition pickRightmost :: "Config \<Rightarrow> bytes \<Rightarrow> node_err + nat \<times> u64" where
  "pickRightmost cfg buf =
     bind_res (BranchCellCount buf) (\<lambda>n.
     if n = 0 then bind_res (BranchLeftmostChild buf) (\<lambda>child. Inr (n, child))
     else bind_res (BranchCellAt buf cfg (n - 1)) (\<lambda>cell. Inr (n, bc_Child cell)))"

definition pickSearched :: "PageReader \<Rightarrow> Config \<Rightarrow> bytes \<Rightarrow> bytes \<Rightarrow> node_err + nat \<times> u64" where
  "pickSearched pr cfg target buf =
     bind_res (BranchSearch buf cfg target (keyTail pr cfg)) (\<lambda>i.
     bind_res (BranchChildAt buf cfg i) (\<lambda>child. Inr (i, child)))"

definition visit :: "PageReader \<Rightarrow> Config \<Rightarrow> (bytes \<Rightarrow> node_err + nat \<times> u64) \<Rightarrow> u64 \<Rightarrow> node_err + (LeafReader + nat \<times> u64)" where
  "visit pr cfg pick cur =
     bind_res (rd_Page pr cur) (\<lambda>buf.
     bind_res (read_header buf) (\<lambda>(typ, _, _, _).
     if IsLeafType typ then
       bind_res (NewLeafReader buf cfg) (\<lambda>r.
       bind_res (ValidateLeaf r) (\<lambda>_. Inr (Inl r)))
     else if \<not> IsBranchType typ then Inl Corrupt
     else
       bind_res (validateBranchPage buf cfg) (\<lambda>_.
       bind_res (pick buf) (\<lambda>(idx, child).
       if child = 0 then Inl Corrupt else Inr (Inr (idx, child))))))"

text \<open>The frames a failed descent has pushed stay on the path.\<close>

fun descendFrom ::
  "PageReader \<Rightarrow> Config \<Rightarrow> (bytes \<Rightarrow> node_err + nat \<times> u64) \<Rightarrow> nat \<Rightarrow> pathFrame list \<Rightarrow> u64 \<Rightarrow> (node_err + LeafReader) \<times> pathFrame list" where
  "descendFrom pr cfg pick 0 path cur = (Inl TooDeep, path)"
| "descendFrom pr cfg pick (Suc depth) path cur =
     (case visit pr cfg pick cur of
        Inl e \<Rightarrow> (Inl e, path)
      | Inr (Inl r) \<Rightarrow> (Inr r, path @ [\<lparr>pf_pageID = cur, pf_childIdx = 0\<rparr>])
      | Inr (Inr (idx, child)) \<Rightarrow> descendFrom pr cfg pick depth (path @ [\<lparr>pf_pageID = cur, pf_childIdx = idx\<rparr>]) child)"

text \<open>The result of a step that may fail: the error, if any, and the cursor it leaves.\<close>

type_synonym 'a attempt = "node_err + (node_err + 'a) \<times> Cursor"

definition on_leaf :: "(node_err + LeafReader) \<times> pathFrame list \<Rightarrow> (LeafReader \<Rightarrow> Cursor \<Rightarrow> 'a attempt) \<Rightarrow> Cursor \<Rightarrow> 'a attempt" where
  "on_leaf d f c =
     (case d of (res, path) \<Rightarrow>
        let c' = c\<lparr>c_path := path\<rparr> in
        bind_res (caught res) (\<lambda>r. case r of Inl e \<Rightarrow> Inr (Inl e, c') | Inr reader \<Rightarrow> f reader c'))"

definition descendLeftmostFrom :: "PageReader \<Rightarrow> Config \<Rightarrow> u64 \<Rightarrow> Cursor \<Rightarrow> unit attempt" where
  "descendLeftmostFrom pr cfg cur c =
     on_leaf (descendFrom pr cfg pickLeftmost (MaxTreeDepth + 1) (c_path c) cur) (\<lambda>r c'. Inr (Inr (), c'\<lparr>c_iter := IterForReuse r\<rparr>)) c"

definition descendRightmostFrom :: "PageReader \<Rightarrow> Config \<Rightarrow> u64 \<Rightarrow> Cursor \<Rightarrow> unit attempt" where
  "descendRightmostFrom pr cfg cur c =
     on_leaf (descendFrom pr cfg (pickRightmost cfg) (MaxTreeDepth + 1) (c_path c) cur)
       (\<lambda>r c'. bind_res (IterAtForReuse r (r_count r)) (\<lambda>it. Inr (Inr (), c'\<lparr>c_iter := it\<rparr>))) c"

definition descendLeftmost :: "PageReader \<Rightarrow> Config \<Rightarrow> u64 \<Rightarrow> Cursor \<Rightarrow> unit attempt" where
  "descendLeftmost pr cfg rootID c = descendLeftmostFrom pr cfg rootID (resetPath c)"

definition descendRightmost :: "PageReader \<Rightarrow> Config \<Rightarrow> u64 \<Rightarrow> Cursor \<Rightarrow> unit attempt" where
  "descendRightmost pr cfg rootID c = descendRightmostFrom pr cfg rootID (resetPath c)"

definition descendToKey :: "PageReader \<Rightarrow> Config \<Rightarrow> u64 \<Rightarrow> bytes \<Rightarrow> Cursor \<Rightarrow> (nat \<times> LeafEntry \<times> bool) attempt" where
  "descendToKey pr cfg rootID target c =
     (let c0 = resetPath c in
      on_leaf (descendFrom pr cfg (pickSearched pr cfg target) (MaxTreeDepth + 1) (c_path c0) rootID)
        (\<lambda>r c'. bind_res (caught (SearchLeafIter r target (keyTail pr cfg))) (\<lambda>s.
           case s of
             Inl e \<Rightarrow> Inr (Inl e, c'\<lparr>c_iter := new_iter zero_reader\<rparr>)
           | Inr (idx, entry, found, it) \<Rightarrow> Inr (Inr (idx, entry, found), c'\<lparr>c_iter := it\<rparr>))) c0)"

definition firstInLeaf :: "PageReader \<Rightarrow> Config \<Rightarrow> Cursor \<Rightarrow> node_err + pair_ret \<times> Cursor" where
  "firstInLeaf pr cfg c =
     bind_res (iter_Next (c_iter c)) (\<lambda>(r, it).
     case r of
       None \<Rightarrow> Inr ((None, []), transitionToEnd (c\<lparr>c_iter := it\<rparr>))
     | Some e \<Rightarrow> bind_res (adoptEntry pr cfg e (positioned_now (c\<lparr>c_iter := it\<rparr>))) (\<lambda>c'. Inr (current_pair c')))"

definition lastInLeaf :: "PageReader \<Rightarrow> Config \<Rightarrow> Cursor \<Rightarrow> node_err + pair_ret \<times> Cursor" where
  "lastInLeaf pr cfg c =
     (let count = it_endIdx (c_iter c) in
      if count = 0 then Inr ((None, []), transitionToEnd c)
      else
        bind_res (iter_At (c_iter c) (count - 1)) (\<lambda>(r, it).
        case r of
          None \<Rightarrow> Inr ((None, []), transitionToEnd (c\<lparr>c_iter := it\<rparr>))
        | Some e \<Rightarrow> bind_res (adoptEntry pr cfg e (positioned_now (c\<lparr>c_iter := it\<rparr>))) (\<lambda>c'. Inr (current_pair c'))))"

section \<open>Neighbouring leaves\<close>

text \<open>
  The climb to the nearest frame with a sibling on the wanted side; the path is given from its top
  frame on. The result is the sibling, if there is one, and the path that is left.
\<close>

fun next_sibling :: "PageReader \<Rightarrow> Config \<Rightarrow> pathFrame list \<Rightarrow> (node_err + u64 option) \<times> pathFrame list" where
  "next_sibling pr cfg [] = (Inr None, [])"
| "next_sibling pr cfg (frame # up) =
     (case
        bind_res (rd_Page pr (pf_pageID frame)) (\<lambda>buf.
        bind_res (validateBranchPage buf cfg) (\<lambda>_.
        bind_res (BranchCellCount buf) (\<lambda>n.
        if pf_childIdx frame < n then bind_res (BranchChildAt buf cfg (pf_childIdx frame + 1)) (\<lambda>child. Inr (Some child)) else Inr None))) of
        Inl e \<Rightarrow> (Inl e, frame # up)
      | Inr None \<Rightarrow> next_sibling pr cfg up
      | Inr (Some child) \<Rightarrow>
          let path = frame\<lparr>pf_childIdx := pf_childIdx frame + 1\<rparr> # up in if child = 0 then (Inl Corrupt, path) else (Inr (Some child), path))"

fun prev_sibling :: "PageReader \<Rightarrow> Config \<Rightarrow> pathFrame list \<Rightarrow> (node_err + u64 option) \<times> pathFrame list" where
  "prev_sibling pr cfg [] = (Inr None, [])"
| "prev_sibling pr cfg (frame # up) =
     (if pf_childIdx frame = 0 then prev_sibling pr cfg up
      else
        let path = frame\<lparr>pf_childIdx := pf_childIdx frame - 1\<rparr> # up in
        (bind_res (rd_Page pr (pf_pageID frame)) (\<lambda>buf.
         bind_res (validateBranchPage buf cfg) (\<lambda>_.
         bind_res (BranchChildAt buf cfg (pf_childIdx frame - 1)) (\<lambda>child. if child = 0 then Inl Corrupt else Inr (Some child)))), path))"

definition to_sibling ::
  "(pathFrame list \<Rightarrow> (node_err + u64 option) \<times> pathFrame list) \<Rightarrow> (u64 \<Rightarrow> Cursor \<Rightarrow> unit attempt) \<Rightarrow> Cursor \<Rightarrow> node_err + bool \<times> Cursor" where
  "to_sibling sibling descend c =
     (if c_path c = [] then Inl (Panic PanicBounds)
      else
        case sibling (rev (butlast (c_path c))) of (res, rpath) \<Rightarrow>
          let c' = c\<lparr>c_path := rev rpath\<rparr> in
          bind_res (caught res) (\<lambda>r.
          case r of
            Inl e \<Rightarrow> Inr (False, c'\<lparr>c_err := Some (PageError e)\<rparr>)
          | Inr None \<Rightarrow> Inr (False, c')
          | Inr (Some child) \<Rightarrow>
              bind_res (descend child c') (\<lambda>(d, c''). case d of Inl e \<Rightarrow> Inr (False, c''\<lparr>c_err := Some (PageError e)\<rparr>) | Inr _ \<Rightarrow> Inr (True, c''))))"

definition advanceToNextLeaf :: "PageReader \<Rightarrow> Config \<Rightarrow> Cursor \<Rightarrow> node_err + bool \<times> Cursor" where
  "advanceToNextLeaf pr cfg = to_sibling (next_sibling pr cfg) (descendLeftmostFrom pr cfg)"

definition advanceToPrevLeaf :: "PageReader \<Rightarrow> Config \<Rightarrow> Cursor \<Rightarrow> node_err + bool \<times> Cursor" where
  "advanceToPrevLeaf pr cfg = to_sibling (prev_sibling pr cfg) (descendRightmostFrom pr cfg)"

section \<open>Positioning\<close>

definition at_end :: "Cursor \<Rightarrow> node_err + pair_ret \<times> Cursor" where
  "at_end c = Inr ((None, []), transitionToEnd c)"

definition reposition :: "(Cursor \<Rightarrow> 'a attempt) \<Rightarrow> ('a \<Rightarrow> Cursor \<Rightarrow> node_err + pair_ret \<times> Cursor) \<Rightarrow> Cursor \<Rightarrow> node_err + pair_ret \<times> Cursor" where
  "reposition descend f c =
     (let c0 = c\<lparr>c_err := None\<rparr> in
      if c_rootID c0 = 0 then at_end (resetPath c0)
      else bind_res (descend c0) (\<lambda>(d, c'). case d of Inl e \<Rightarrow> Inr ((None, []), c'\<lparr>c_err := Some (PageError e)\<rparr>) | Inr x \<Rightarrow> f x c'))"

definition cursor_First :: "PageReader \<Rightarrow> Config \<Rightarrow> Cursor \<Rightarrow> node_err + pair_ret \<times> Cursor" where
  "cursor_First pr cfg c = reposition (descendLeftmost pr cfg (c_rootID c)) (\<lambda>_. firstInLeaf pr cfg) c"

definition cursor_Last :: "PageReader \<Rightarrow> Config \<Rightarrow> Cursor \<Rightarrow> node_err + pair_ret \<times> Cursor" where
  "cursor_Last pr cfg c = reposition (descendRightmost pr cfg (c_rootID c)) (\<lambda>_. lastInLeaf pr cfg) c"

definition adopt_target :: "PageReader \<Rightarrow> Config \<Rightarrow> bytes \<Rightarrow> LeafEntry \<Rightarrow> Cursor \<Rightarrow> node_err + pair_ret \<times> Cursor" where
  "adopt_target pr cfg target entry c = bind_res (adopt_value pr cfg entry (adoptTargetKey target (positioned_now c))) (\<lambda>c'. Inr (current_pair c'))"

definition cursor_Seek :: "PageReader \<Rightarrow> Config \<Rightarrow> bytes \<Rightarrow> Cursor \<Rightarrow> node_err + pair_ret \<times> Cursor" where
  "cursor_Seek pr cfg target c =
     reposition (descendToKey pr cfg (c_rootID c) target) (\<lambda>(_, entry, found) c'. if \<not> found then at_end c' else adopt_target pr cfg target entry c') c"

definition next_leaf_first :: "PageReader \<Rightarrow> Config \<Rightarrow> Cursor \<Rightarrow> node_err + pair_ret \<times> Cursor" where
  "next_leaf_first pr cfg c = bind_res (advanceToNextLeaf pr cfg c) (\<lambda>(ok, c'). if \<not> ok then at_end c' else firstInLeaf pr cfg c')"

definition prev_leaf_last :: "PageReader \<Rightarrow> Config \<Rightarrow> Cursor \<Rightarrow> node_err + pair_ret \<times> Cursor" where
  "prev_leaf_last pr cfg c = bind_res (advanceToPrevLeaf pr cfg c) (\<lambda>(ok, c'). if \<not> ok then at_end c' else lastInLeaf pr cfg c')"

definition cursor_SeekGE :: "PageReader \<Rightarrow> Config \<Rightarrow> bytes \<Rightarrow> Cursor \<Rightarrow> node_err + pair_ret \<times> Cursor" where
  "cursor_SeekGE pr cfg target c =
     reposition (descendToKey pr cfg (c_rootID c) target)
       (\<lambda>(idx, entry, found) c'.
          if found then adopt_target pr cfg target entry c'
          else if idx < it_endIdx (c_iter c') then bind_res (adoptEntry pr cfg entry (positioned_now c')) (\<lambda>c''. Inr (current_pair c''))
          else next_leaf_first pr cfg c') c"

section \<open>Steps\<close>

definition cursor_Next :: "PageReader \<Rightarrow> Config \<Rightarrow> Cursor \<Rightarrow> node_err + pair_ret \<times> Cursor" where
  "cursor_Next pr cfg c =
     (if c_state c = csUnpositioned then cursor_First pr cfg c
      else if c_state c = csEndOfIteration then Inr ((None, []), c)
      else if c_gen c \<noteq> c_posGen c then Inr ((None, []), c\<lparr>c_err := Some ErrCursorStale\<rparr>)
      else
        bind_res (iter_Next (c_iter c)) (\<lambda>(r, it).
        case r of
          Some e \<Rightarrow> bind_res (adoptEntry pr cfg e (c\<lparr>c_iter := it\<rparr>)) (\<lambda>c'. Inr (current_pair c'))
        | None \<Rightarrow> next_leaf_first pr cfg (c\<lparr>c_iter := it\<rparr>)))"

definition cursor_Prev :: "PageReader \<Rightarrow> Config \<Rightarrow> Cursor \<Rightarrow> node_err + pair_ret \<times> Cursor" where
  "cursor_Prev pr cfg c =
     (if c_state c = csUnpositioned then cursor_Last pr cfg c
      else if c_state c = csEndOfIteration then Inr ((None, []), c)
      else if c_gen c \<noteq> c_posGen c then Inr ((None, []), c\<lparr>c_err := Some ErrCursorStale\<rparr>)
      else
        bind_res (iter_Prev (c_iter c)) (\<lambda>(r, it).
        case r of
          Some e \<Rightarrow> bind_res (adoptEntry pr cfg e (c\<lparr>c_iter := it\<rparr>)) (\<lambda>c'. Inr (current_pair c'))
        | None \<Rightarrow> prev_leaf_last pr cfg (c\<lparr>c_iter := it\<rparr>)))"

definition cursor_SeekLE :: "PageReader \<Rightarrow> Config \<Rightarrow> bytes \<Rightarrow> Cursor \<Rightarrow> node_err + pair_ret \<times> Cursor" where
  "cursor_SeekLE pr cfg target c =
     bind_res (cursor_SeekGE pr cfg target c) (\<lambda>((k, v), c').
     if c_err c' \<noteq> None then Inr ((None, []), c')
     else if k = None then cursor_Last pr cfg c'
     else if k = Some target then Inr ((k, v), c')
     else cursor_Prev pr cfg c')"

definition cursor_SeekLT :: "PageReader \<Rightarrow> Config \<Rightarrow> bytes \<Rightarrow> Cursor \<Rightarrow> node_err + pair_ret \<times> Cursor" where
  "cursor_SeekLT pr cfg target c =
     bind_res (cursor_SeekGE pr cfg target c) (\<lambda>((k, _), c').
     if c_err c' \<noteq> None then Inr ((None, []), c')
     else if k = None then cursor_Last pr cfg c'
     else cursor_Prev pr cfg c')"

end
