(* ===== verification/Cursor_Path.thy ===== *)
theory Cursor_Path
  imports Cursor Tree_Map
begin

text \<open>
  Where a cursor's path stands in a tree: the pairs in front of its leaf, the leaf, and the pairs
  behind. The descents end at a leaf on the wanted side, and the climbs of the leaf transitions
  find the neighbouring leaf. The trees here have no empty leaf, as the trees of the store have none.
\<close>

section \<open>Nodes\<close>

definition leaf_node :: "PageReader \<Rightarrow> Config \<Rightarrow> u64 \<Rightarrow> LeafReader \<Rightarrow> LeafEntry list \<Rightarrow> (bytes \<times> bytes) list \<Rightarrow> bool" where
  "leaf_node pr cfg i r es kvs \<longleftrightarrow>
     (\<exists>buf. rd_Page pr i = Inr buf \<and> NewLeafReader buf cfg = Inr r \<and> serves es r \<and> iterable es r) \<and>
     list_all2 (entry_holds pr cfg) es kvs \<and> sorted_wrt (<) (map fst kvs)"

definition branch_node :: "PageReader \<Rightarrow> Config \<Rightarrow> u64 \<Rightarrow> (nat \<Rightarrow> u64) \<Rightarrow> nat \<Rightarrow> bytes list \<Rightarrow> (bytes \<times> bytes) list list \<Rightarrow> bool" where
  "branch_node pr cfg i child n seps kvss \<longleftrightarrow>
     (\<exists>buf leftmost cells. rd_Page pr i = Inr buf \<and> branch_page cfg leftmost cells buf \<and> seps_wf cfg cells seps \<and>
        (\<forall>j < length cells. sep_holds pr cfg (cells ! j) (seps ! j)) \<and> n = length cells \<and> child = child_of leftmost cells) \<and>
     length kvss = Suc n \<and> (\<forall>j \<le> n. child j \<noteq> 0 \<and> (\<forall>kv \<in> set (kvss ! j). descent seps (fst kv) = j))"

inductive stocked :: "PageReader \<Rightarrow> Config \<Rightarrow> nat \<Rightarrow> u64 \<Rightarrow> (bytes \<times> bytes) list \<Rightarrow> bool" for pr cfg where
  stocked_leaf: "leaf_node pr cfg i r es kvs \<Longrightarrow> kvs \<noteq> [] \<Longrightarrow> stocked pr cfg 0 i kvs"
| stocked_branch: "branch_node pr cfg i child n seps kvss \<Longrightarrow> \<forall>j \<le> n. stocked pr cfg h (child j) (kvss ! j) \<Longrightarrow> stocked pr cfg (Suc h) i (concat kvss)"

inductive_cases stocked_leafE: "stocked pr cfg 0 i kvs"
inductive_cases stocked_branchE: "stocked pr cfg (Suc h) i kvs"

lemma stocked_tree: "stocked pr cfg h i kvs \<Longrightarrow> tree pr cfg h i kvs"
proof (induction rule: stocked.induct)
  case (stocked_leaf i r es kvs)
  then show ?case by (auto simp: leaf_node_def leaf_page_def intro: tree.leaf)
next
  case (stocked_branch i child n seps kvss h)
  then show ?case by (auto simp: branch_node_def intro!: tree.branch)
qed

lemma stocked_pairs: "stocked pr cfg h i kvs \<Longrightarrow> kvs \<noteq> []"
proof (induction rule: stocked.induct)
  case (stocked_branch i child n seps kvss h)
  then have "kvss ! 0 \<in> set kvss" "kvss ! 0 \<noteq> []" by (auto simp: branch_node_def)
  then show ?case by auto
qed simp

section \<open>Visits\<close>

lemma each_res_nth: "each_res f xs = Inr ys \<Longrightarrow> length ys = length xs \<and> (\<forall>i < length xs. f (xs ! i) = Inr (ys ! i))"
proof (induction xs arbitrary: ys)
  case (Cons x xs)
  then obtain y ys' where y: "f x = Inr y" "each_res f xs = Inr ys'" "ys = y # ys'" by (auto simp: bind_res_Inr_iff)
  then show ?case using Cons.IH [OF y(2)] by (auto simp: nth_Cons split: nat.splits)
qed simp

lemma branch_page_cells:
  assumes "Validate cfg = None" "branch_page cfg leftmost cells buf"
  shows "BranchCellCount buf = Inr (length cells)" "BranchLeftmostChild buf = Inr leftmost" "j < length cells \<Longrightarrow> BranchCellAt buf cfg j = Inr (cells ! j)"
proof -
  obtain n where n: "BranchCellCount buf = Inr n" "BranchLeftmostChild buf = Inr leftmost" "each_res (BranchCellAt buf cfg) [0..<n] = Inr cells"
    using branch_page_reads(3) [OF assms] by (auto simp: DecodeBranch_def bind_res_Inr_iff)
  have "length cells = n" "\<forall>j < n. BranchCellAt buf cfg j = Inr (cells ! j)" using each_res_nth [OF n(3)] by simp_all
  then show "BranchCellCount buf = Inr (length cells)" "BranchLeftmostChild buf = Inr leftmost" "j < length cells \<Longrightarrow> BranchCellAt buf cfg j = Inr (cells ! j)"
    using n by simp_all
qed

text \<open>The three ways down: to the first leaf, to the last leaf, to the leaf for a key.\<close>

datatype policy = Leftmost | Rightmost | Toward bytes

primrec pick_of :: "PageReader \<Rightarrow> Config \<Rightarrow> policy \<Rightarrow> bytes \<Rightarrow> node_err + nat \<times> u64" where
  "pick_of pr cfg Leftmost = pickLeftmost"
| "pick_of pr cfg Rightmost = pickRightmost cfg"
| "pick_of pr cfg (Toward target) = pickSearched pr cfg target"

primrec way :: "policy \<Rightarrow> nat \<Rightarrow> bytes list \<Rightarrow> nat" where
  "way Leftmost n seps = 0"
| "way Rightmost n seps = n"
| "way (Toward target) n seps = descent seps target"

primrec sided :: "policy \<Rightarrow> (bytes \<times> bytes) list \<Rightarrow> (bytes \<times> bytes) list \<Rightarrow> bool" where
  "sided Leftmost bef aft = (bef = [])"
| "sided Rightmost bef aft = (aft = [])"
| "sided (Toward target) bef aft = ((\<forall>kv \<in> set bef. fst kv < target) \<and> (\<forall>kv \<in> set aft. target < fst kv))"

lemma visit_leaf:
  assumes "leaf_node pr cfg i r es kvs"
  shows "visit pr cfg pick i = Inr (Inl r)"
proof -
  obtain buf where b: "rd_Page pr i = Inr buf" "NewLeafReader buf cfg = Inr r" "ValidateLeaf r = Inr ()" using assms by (auto simp: leaf_node_def serves_def)
  obtain ty fl n ad where "read_header buf = Inr (ty, fl, n, ad)" "IsLeafType ty"
    using b(2) by (auto simp: NewLeafReader_def bind_res_Inr_iff Let_def split: if_splits)
  then show ?thesis using b by (simp add: visit_def)
qed

lemma way_le: "branch_node pr cfg i child n seps kvss \<Longrightarrow> way pol n seps \<le> n"
  using descent_le [of seps] by (cases pol) (auto simp: branch_node_def seps_wf_def)

lemma visit_branch:
  assumes "Validate cfg = None" "branch_node pr cfg i child n seps kvss"
  shows "visit pr cfg (pick_of pr cfg pol) i = Inr (Inr (way pol n seps, child (way pol n seps)))"
proof -
  obtain buf leftmost cells where b: "rd_Page pr i = Inr buf" "branch_page cfg leftmost cells buf" "seps_wf cfg cells seps"
      "\<forall>j < length cells. sep_holds pr cfg (cells ! j) (seps ! j)" "n = length cells" "child = child_of leftmost cells" "\<forall>j \<le> n. child j \<noteq> 0"
    using assms(2) by (auto simp: branch_node_def)
  obtain ty fl m ad where h: "read_header buf = Inr (ty, fl, m, ad)" "IsBranchType ty" using branch_page_reads(4) [OF assms(1) b(2)] by blast
  have nl: "\<not> IsLeafType ty" using h(2) by (auto simp: IsLeafType_def IsBranchType_def page_types)
  have w: "way pol n seps \<le> n" by (rule way_le [OF assms(2)])
  have "pick_of pr cfg pol buf = Inr (way pol n seps, child (way pol n seps))"
  proof (cases pol)
    case Leftmost
    then show ?thesis using branch_page_cells(2) [OF assms(1) b(2)] b(6) by (simp add: pickLeftmost_def child_of_def)
  next
    case Rightmost
    then show ?thesis using branch_page_cells [OF assms(1) b(2)] b(5,6) by (simp add: pickRightmost_def child_of_def)
  next
    case (Toward target)
    have "child_of leftmost cells (descent seps target) \<noteq> 0" using w b(5-7) Toward by simp
    from branch_page_step [OF assms(1) b(2-4) this] show ?thesis
      using b(6) Toward by (auto simp: branch_step_def pickSearched_def bind_res_Inr_iff split: if_splits)
  qed
  then show ?thesis using b h nl w branch_page_reads(1) [OF assms(1) b(2)] by (simp add: visit_def validateBranchPage_def)
qed

section \<open>Paths\<close>

inductive at_leaf ::
  "PageReader \<Rightarrow> Config \<Rightarrow> nat \<Rightarrow> u64 \<Rightarrow> pathFrame list \<Rightarrow> (bytes \<times> bytes) list \<Rightarrow> LeafReader \<Rightarrow> LeafEntry list \<Rightarrow>
    (bytes \<times> bytes) list \<Rightarrow> (bytes \<times> bytes) list \<Rightarrow> bool" for pr cfg where
  in_leaf: "leaf_node pr cfg i r es lk \<Longrightarrow> lk \<noteq> [] \<Longrightarrow> at_leaf pr cfg 0 i [\<lparr>pf_pageID = i, pf_childIdx = 0\<rparr>] [] r es lk []"
| in_child: "\<lbrakk>branch_node pr cfg i child n seps kvss; \<forall>j \<le> n. stocked pr cfg h (child j) (kvss ! j); d \<le> n;
     at_leaf pr cfg h (child d) path bef r es lk aft; kvss ! d = bef @ lk @ aft\<rbrakk> \<Longrightarrow>
   at_leaf pr cfg (Suc h) i (\<lparr>pf_pageID = i, pf_childIdx = d\<rparr> # path) (concat (take d kvss) @ bef) r es lk (aft @ concat (drop (Suc d) kvss))"

lemma at_leaf_path: "at_leaf pr cfg h i path bef r es lk aft \<Longrightarrow> path \<noteq> []"
  by (induction rule: at_leaf.induct) simp_all

lemma at_leaf_node: "at_leaf pr cfg h i path bef r es lk aft \<Longrightarrow> \<exists>j. leaf_node pr cfg j r es lk \<and> lk \<noteq> []"
  by (induction rule: at_leaf.induct) auto

lemma split_at: "d < length xss \<Longrightarrow> concat xss = concat (take d xss) @ xss ! d @ concat (drop (Suc d) xss)"
  using id_take_nth_drop [of d xss] by (metis concat.simps(2) concat_append)

lemma in_take: "x \<in> set (concat (take d xss)) \<Longrightarrow> \<exists>j < d. j < length xss \<and> x \<in> set (xss ! j)"
  by (induction xss arbitrary: d) (force simp: take_Cons split: nat.splits)+

lemma in_drop: "x \<in> set (concat (drop d xss)) \<Longrightarrow> \<exists>j \<ge> d. j < length xss \<and> x \<in> set (xss ! j)"
proof -
  assume "x \<in> set (concat (drop d xss))"
  then obtain ys where "ys \<in> set (drop d xss)" "x \<in> set ys" by auto
  moreover from this obtain j where "j < length xss - d" "ys = drop d xss ! j" by (auto simp: in_set_conv_nth)
  ultimately show ?thesis by (intro exI [of _ "d + j"]) auto
qed

text \<open>The sides of a child widen to the sides of its branch.\<close>

lemma sided_widens:
  assumes "branch_node pr cfg i child n seps kvss" "sided pol bef aft"
  shows "sided pol (concat (take (way pol n seps) kvss) @ bef) (aft @ concat (drop (Suc (way pol n seps)) kvss))"
proof -
  have l: "length kvss = Suc n" and k: "\<And>j kv. j \<le> n \<Longrightarrow> kv \<in> set (kvss ! j) \<Longrightarrow> descent seps (fst kv) = j" using assms(1) by (auto simp: branch_node_def)
  show ?thesis
  proof (cases pol)
    case (Toward target)
    let ?d = "descent seps target"
    have "fst kv < target" if q: "kv \<in> set (concat (take ?d kvss))" for kv
    proof -
      obtain j where j: "j < ?d" "j < length kvss" "kv \<in> set (kvss ! j)" using in_take [OF q] by blast
      then have "descent seps (fst kv) < ?d" using k [of j kv] l by simp
      then show ?thesis using descent_mono [of target "fst kv" seps] by (meson leD not_less)
    qed
    moreover have "target < fst kv" if q: "kv \<in> set (concat (drop (Suc ?d) kvss))" for kv
    proof -
      obtain j where j: "?d < j" "j < length kvss" "kv \<in> set (kvss ! j)" using in_drop [OF q] by (auto simp: Suc_le_eq)
      then have "?d < descent seps (fst kv)" using k [of j kv] l by simp
      then show ?thesis using descent_mono [of "fst kv" target seps] by (meson leD not_less)
    qed
    ultimately show ?thesis using assms(2) unfolding Toward way.simps sided.simps set_append ball_Un by blast
  qed (use assms(2) l in simp_all)
qed

lemma descends:
  assumes "Validate cfg = None"
  shows "stocked pr cfg h i kvs \<Longrightarrow> h < fuel \<Longrightarrow> \<exists>more bef r es lk aft.
    descendFrom pr cfg (pick_of pr cfg pol) fuel path i = (Inr r, path @ more) \<and> at_leaf pr cfg h i more bef r es lk aft \<and>
    kvs = bef @ lk @ aft \<and> sided pol bef aft"
proof (induction h arbitrary: i kvs fuel path)
  case 0
  obtain f where f: "fuel = Suc f" using 0 by (cases fuel) auto
  obtain r es where l: "leaf_node pr cfg i r es kvs" "kvs \<noteq> []" using 0(1) by (rule stocked_leafE)
  have "descendFrom pr cfg (pick_of pr cfg pol) fuel path i = (Inr r, path @ [\<lparr>pf_pageID = i, pf_childIdx = 0\<rparr>])" using visit_leaf [OF l(1)] by (simp add: f)
  moreover have "sided pol [] []" by (cases pol) simp_all
  ultimately show ?case using in_leaf [OF l] by fastforce
next
  case (Suc h)
  obtain f where f: "fuel = Suc f" using Suc.prems(2) by (cases fuel) auto
  obtain child n seps kvss where b: "kvs = concat kvss" "branch_node pr cfg i child n seps kvss" "\<forall>j \<le> n. stocked pr cfg h (child j) (kvss ! j)"
    using Suc.prems(1) by (rule stocked_branchE)
  let ?d = "way pol n seps"
  have d: "?d \<le> n" by (rule way_le [OF b(2)])
  let ?p = "path @ [\<lparr>pf_pageID = i, pf_childIdx = ?d\<rparr>]"
  obtain more bef r es lk aft where m: "descendFrom pr cfg (pick_of pr cfg pol) f ?p (child ?d) = (Inr r, ?p @ more)"
      "at_leaf pr cfg h (child ?d) more bef r es lk aft" "kvss ! ?d = bef @ lk @ aft" "sided pol bef aft"
    using Suc.IH [of "child ?d" "kvss ! ?d" f ?p] b(3) d Suc.prems(2) f by auto
  have "descendFrom pr cfg (pick_of pr cfg pol) fuel path i = (Inr r, path @ \<lparr>pf_pageID = i, pf_childIdx = ?d\<rparr> # more)"
    using visit_branch [OF assms b(2), of pol] m(1) by (simp add: f)
  moreover have "length kvss = Suc n" using b(2) by (simp add: branch_node_def)
  then have "kvs = (concat (take ?d kvss) @ bef) @ lk @ (aft @ concat (drop (Suc ?d) kvss))" using b(1) split_at [of ?d kvss] d m(3) by simp
  ultimately show ?case using in_child [OF b(2,3) d m(2,3)] sided_widens [OF b(2) m(4)] by blast
qed

section \<open>Neighbours\<close>

lemma branch_node_reads:
  assumes "Validate cfg = None" "branch_node pr cfg i child n seps kvss"
  obtains buf where "rd_Page pr i = Inr buf" "validateBranchPage buf cfg = Inr ()" "BranchCellCount buf = Inr n"
    "\<And>j. j \<le> n \<Longrightarrow> BranchChildAt buf cfg j = Inr (child j)"
  using assms branch_page_reads(1,2) [OF assms(1)] branch_page_cells(1) [OF assms(1)] unfolding branch_node_def validateBranchPage_def by metis

lemma next_sibling_step:
  assumes "Validate cfg = None" "branch_node pr cfg i child n seps kvss" "d \<le> n"
  shows "next_sibling pr cfg (\<lparr>pf_pageID = i, pf_childIdx = d\<rparr> # up) =
    (if d < n then (Inr (Some (child (Suc d))), \<lparr>pf_pageID = i, pf_childIdx = Suc d\<rparr> # up) else next_sibling pr cfg up)"
proof -
  have "child (Suc d) \<noteq> 0" if "d < n" using assms(2) that by (auto simp: branch_node_def)
  moreover obtain buf where "rd_Page pr i = Inr buf" "validateBranchPage buf cfg = Inr ()" "BranchCellCount buf = Inr n"
      "\<And>j. j \<le> n \<Longrightarrow> BranchChildAt buf cfg j = Inr (child j)"
    using branch_node_reads [OF assms(1,2)] by metis
  ultimately show ?thesis by simp
qed

lemma prev_sibling_step:
  assumes "Validate cfg = None" "branch_node pr cfg i child n seps kvss" "d \<le> n"
  shows "prev_sibling pr cfg (\<lparr>pf_pageID = i, pf_childIdx = d\<rparr> # up) =
    (if 0 < d then (Inr (Some (child (d - 1))), \<lparr>pf_pageID = i, pf_childIdx = d - 1\<rparr> # up) else prev_sibling pr cfg up)"
proof -
  have "child (d - 1) \<noteq> 0" using assms(2,3) by (auto simp: branch_node_def)
  moreover obtain buf where "rd_Page pr i = Inr buf" "validateBranchPage buf cfg = Inr ()" "\<And>j. j \<le> n \<Longrightarrow> BranchChildAt buf cfg j = Inr (child j)"
    using branch_node_reads [OF assms(1,2)] by metis
  ultimately show ?thesis using assms(3) by (simp add: Let_def)
qed

text \<open>
  The climb from a leaf: with nothing behind the leaf it leaves the path; otherwise it ends at the
  sibling that starts the pairs behind, and every first leaf below the sibling is the next leaf.
\<close>

lemma climbs_next:
  assumes "Validate cfg = None"
  shows "at_leaf pr cfg h i path bef r es lk aft \<Longrightarrow>
    (aft = [] \<longrightarrow> (\<forall>up. next_sibling pr cfg (rev (butlast path) @ up) = next_sibling pr cfg up)) \<and>
    (aft \<noteq> [] \<longrightarrow> (\<exists>sib rp h' ck rest. (\<forall>up. next_sibling pr cfg (rev (butlast path) @ up) = (Inr (Some sib), rp @ up)) \<and>
       h' < h \<and> stocked pr cfg h' sib ck \<and> aft = ck @ rest \<and>
       (\<forall>more r' es' lk' aft'. at_leaf pr cfg h' sib more [] r' es' lk' aft' \<longrightarrow> ck = lk' @ aft' \<longrightarrow>
          at_leaf pr cfg h i (rev rp @ more) (bef @ lk) r' es' lk' (aft' @ rest))))"
proof (induction rule: at_leaf.induct)
  case (in_child i child n seps kvss h d path bef r es lk aft)
  let ?f = "\<lparr>pf_pageID = i, pf_childIdx = d\<rparr>"
  have l: "length kvss = Suc n" using in_child(1) by (simp add: branch_node_def)
  have p: "rev (butlast (?f # path)) @ up = rev (butlast path) @ ?f # up" for up using at_leaf_path [OF in_child(4)] by simp
  consider (inner) "aft \<noteq> []" | (here) "aft = []" "d < n" | (up) "aft = []" "d = n" using in_child(3) by fastforce
  then show ?case
  proof cases
    case inner
    then obtain sib rp h' ck rest where s: "\<And>up. next_sibling pr cfg (rev (butlast path) @ up) = (Inr (Some sib), rp @ up)" "h' < h"
        "stocked pr cfg h' sib ck" "aft = ck @ rest"
        "\<And>more r' es' lk' aft'. at_leaf pr cfg h' sib more [] r' es' lk' aft' \<Longrightarrow> ck = lk' @ aft' \<Longrightarrow>
          at_leaf pr cfg h (child d) (rev rp @ more) (bef @ lk) r' es' lk' (aft' @ rest)"
      using in_child.IH by metis
    have "at_leaf pr cfg (Suc h) i (rev (rp @ [?f]) @ more) ((concat (take d kvss) @ bef) @ lk) r' es' lk' (aft' @ rest @ concat (drop (Suc d) kvss))"
      if q: "at_leaf pr cfg h' sib more [] r' es' lk' aft'" "ck = lk' @ aft'" for more r' es' lk' aft'
      using at_leaf.in_child [OF in_child(1-3) s(5) [OF q]] in_child(5) s(4) q(2) by simp
    then show ?thesis unfolding p using s(1-4) inner
      by (intro conjI impI exI [of _ sib] exI [of _ "rp @ [?f]"] exI [of _ h'] exI [of _ ck] exI [of _ "rest @ concat (drop (Suc d) kvss)"] allI) auto
  next
    case here
    let ?g = "\<lparr>pf_pageID = i, pf_childIdx = Suc d\<rparr>"
    have n: "next_sibling pr cfg (rev (butlast path) @ ?f # up) = (Inr (Some (child (Suc d))), [?g] @ up)" for up
      using in_child.IH here next_sibling_step [OF assms in_child(1,3), of up] by simp
    have k: "stocked pr cfg h (child (Suc d)) (kvss ! Suc d)" "Suc d < length kvss" using in_child(2) here(2) l by simp_all
    have t: "concat (take (Suc d) kvss) = concat (take d kvss) @ bef @ lk" using l here in_child(3,5) by (simp add: take_Suc_conv_app_nth)
    have dr: "concat (drop (Suc d) kvss) = kvss ! Suc d @ concat (drop (Suc (Suc d)) kvss)" using Cons_nth_drop_Suc [OF k(2)] by (metis concat.simps(2))
    have "at_leaf pr cfg (Suc h) i (rev [?g] @ more) ((concat (take d kvss) @ bef) @ lk) r' es' lk' (aft' @ concat (drop (Suc (Suc d)) kvss))"
      if q: "at_leaf pr cfg h (child (Suc d)) more [] r' es' lk' aft'" "kvss ! Suc d = lk' @ aft'" for more r' es' lk' aft'
      using at_leaf.in_child [OF in_child(1,2) _ q(1)] q(2) here(2) t by simp
    moreover have "concat (drop (Suc d) kvss) \<noteq> []" unfolding dr using stocked_pairs [OF k(1)] by simp
    ultimately show ?thesis unfolding p here(1) append_Nil using n k(1) dr
      by (intro conjI impI exI [of _ "child (Suc d)"] exI [of _ "[?g]"] exI [of _ h] exI [of _ "kvss ! Suc d"]
          exI [of _ "concat (drop (Suc (Suc d)) kvss)"] allI) auto
  next
    case up
    then show ?thesis unfolding p using in_child.IH next_sibling_step [OF assms in_child(1,3)] l by simp
  qed
qed simp

lemma climbs_prev:
  assumes "Validate cfg = None"
  shows "at_leaf pr cfg h i path bef r es lk aft \<Longrightarrow>
    (bef = [] \<longrightarrow> (\<forall>up. prev_sibling pr cfg (rev (butlast path) @ up) = prev_sibling pr cfg up)) \<and>
    (bef \<noteq> [] \<longrightarrow> (\<exists>sib rp h' ck rest. (\<forall>up. prev_sibling pr cfg (rev (butlast path) @ up) = (Inr (Some sib), rp @ up)) \<and>
       h' < h \<and> stocked pr cfg h' sib ck \<and> bef = rest @ ck \<and>
       (\<forall>more bef' r' es' lk'. at_leaf pr cfg h' sib more bef' r' es' lk' [] \<longrightarrow> ck = bef' @ lk' \<longrightarrow>
          at_leaf pr cfg h i (rev rp @ more) (rest @ bef') r' es' lk' (lk @ aft))))"
proof (induction rule: at_leaf.induct)
  case (in_child i child n seps kvss h d path bef r es lk aft)
  let ?f = "\<lparr>pf_pageID = i, pf_childIdx = d\<rparr>"
  have l: "length kvss = Suc n" using in_child(1) by (simp add: branch_node_def)
  have p: "rev (butlast (?f # path)) @ up = rev (butlast path) @ ?f # up" for up using at_leaf_path [OF in_child(4)] by simp
  consider (inner) "bef \<noteq> []" | (here) "bef = []" "0 < d" | (up) "bef = []" "d = 0" by fastforce
  then show ?case
  proof cases
    case inner
    then obtain sib rp h' ck rest where s: "\<And>up. prev_sibling pr cfg (rev (butlast path) @ up) = (Inr (Some sib), rp @ up)" "h' < h"
        "stocked pr cfg h' sib ck" "bef = rest @ ck"
        "\<And>more bef' r' es' lk'. at_leaf pr cfg h' sib more bef' r' es' lk' [] \<Longrightarrow> ck = bef' @ lk' \<Longrightarrow>
          at_leaf pr cfg h (child d) (rev rp @ more) (rest @ bef') r' es' lk' (lk @ aft)"
      using in_child.IH by metis
    have "at_leaf pr cfg (Suc h) i (rev (rp @ [?f]) @ more) ((concat (take d kvss) @ rest) @ bef') r' es' lk' (lk @ aft @ concat (drop (Suc d) kvss))"
      if q: "at_leaf pr cfg h' sib more bef' r' es' lk' []" "ck = bef' @ lk'" for more bef' r' es' lk'
      using at_leaf.in_child [OF in_child(1-3) s(5) [OF q]] in_child(5) s(4) q(2) by simp
    then show ?thesis unfolding p using s(1-4) inner
      by (intro conjI impI exI [of _ sib] exI [of _ "rp @ [?f]"] exI [of _ h'] exI [of _ ck] exI [of _ "concat (take d kvss) @ rest"] allI) auto
  next
    case here
    let ?g = "\<lparr>pf_pageID = i, pf_childIdx = d - 1\<rparr>"
    have n: "prev_sibling pr cfg (rev (butlast path) @ ?f # up) = (Inr (Some (child (d - 1))), [?g] @ up)" for up
      using in_child.IH here prev_sibling_step [OF assms in_child(1,3), of up] by simp
    have d: "d - 1 \<le> n" "d - 1 < length kvss" "Suc (d - 1) = d" "d < length kvss" using in_child(3) here(2) l by simp_all
    have k: "stocked pr cfg h (child (d - 1)) (kvss ! (d - 1))" using in_child(2) d(1) by simp
    have t: "concat (take d kvss) = concat (take (d - 1) kvss) @ kvss ! (d - 1)" using take_Suc_conv_app_nth [OF d(2)] d(3) by simp
    have dr: "concat (drop d kvss) = lk @ aft @ concat (drop (Suc d) kvss)" using Cons_nth_drop_Suc [OF d(4)] in_child(5) here(1) by (metis append_Nil append_assoc concat.simps(2))
    have "at_leaf pr cfg (Suc h) i (rev [?g] @ more) (concat (take (d - 1) kvss) @ bef') r' es' lk' (lk @ aft @ concat (drop (Suc d) kvss))"
      if q: "at_leaf pr cfg h (child (d - 1)) more bef' r' es' lk' []" "kvss ! (d - 1) = bef' @ lk'" for more bef' r' es' lk'
      using at_leaf.in_child [OF in_child(1,2) d(1) q(1)] q(2) dr d(3) by simp
    moreover have "concat (take d kvss) \<noteq> []" unfolding t using stocked_pairs [OF k] by simp
    ultimately show ?thesis unfolding p here(1) append_Nil2 using n k t
      by (intro conjI impI exI [of _ "child (d - 1)"] exI [of _ "[?g]"] exI [of _ h] exI [of _ "kvss ! (d - 1)"]
          exI [of _ "concat (take (d - 1) kvss)"] allI) auto
  next
    case up
    then show ?thesis unfolding p using in_child.IH prev_sibling_step [OF assms in_child(1,3)] l by simp
  qed
qed simp

end
