(* ===== verification/Cursor_Run.thy ===== *)
theory Cursor_Run
  imports Cursor_Path
begin

text \<open>
  The cursor over a tree behaves as an index into the sorted list of its pairs. The abstract machine
  has four kinds of state; \<open>agrees\<close> relates the cursor to it, and every operation keeps the relation.
\<close>

section \<open>The abstract cursor\<close>

datatype cpos = Fresh | On nat | Ended | Stale bool

datatype cop = OpFirst | OpLast | OpSeek bytes | OpSeekGE bytes | OpSeekLE bytes | OpSeekLT bytes | OpNext | OpPrev | OpCurrent | OpMarkStale

definition list_first :: "(bytes \<times> bytes) list \<Rightarrow> cpos" where
  "list_first kvs = (if kvs = [] then Ended else On 0)"

definition list_last :: "(bytes \<times> bytes) list \<Rightarrow> cpos" where
  "list_last kvs = (if kvs = [] then Ended else On (length kvs - 1))"

definition list_ge :: "(bytes \<times> bytes) list \<Rightarrow> bytes \<Rightarrow> cpos" where
  "list_ge kvs t = (let i = length (filter (\<lambda>kv. fst kv < t) kvs) in if i < length kvs then On i else Ended)"

definition before :: "nat \<Rightarrow> cpos" where
  "before n = (if n = 0 then Ended else On (n - 1))"

definition list_op :: "(bytes \<times> bytes) list \<Rightarrow> cop \<Rightarrow> cpos \<Rightarrow> cpos" where
  "list_op kvs op p =
     (case op of
        OpFirst \<Rightarrow> list_first kvs
      | OpLast \<Rightarrow> list_last kvs
      | OpSeek t \<Rightarrow> if t \<in> set (map fst kvs) then list_ge kvs t else Ended
      | OpSeekGE t \<Rightarrow> list_ge kvs t
      | OpSeekLE t \<Rightarrow> before (length (filter (\<lambda>kv. fst kv \<le> t) kvs))
      | OpSeekLT t \<Rightarrow> before (length (filter (\<lambda>kv. fst kv < t) kvs))
      | OpNext \<Rightarrow> (case p of Fresh \<Rightarrow> list_first kvs | On j \<Rightarrow> if Suc j < length kvs then On (Suc j) else Ended | Ended \<Rightarrow> Ended | Stale _ \<Rightarrow> Stale True)
      | OpPrev \<Rightarrow> (case p of Fresh \<Rightarrow> list_last kvs | On j \<Rightarrow> before j | Ended \<Rightarrow> Ended | Stale _ \<Rightarrow> Stale True)
      | OpCurrent \<Rightarrow> (case p of Stale _ \<Rightarrow> Stale True | _ \<Rightarrow> p)
      | OpMarkStale \<Rightarrow> (case p of On _ \<Rightarrow> Stale False | _ \<Rightarrow> p))"

definition ret_of :: "(bytes \<times> bytes) list \<Rightarrow> cpos \<Rightarrow> pair_ret" where
  "ret_of kvs p = (case p of On j \<Rightarrow> (Some (fst (kvs ! j)), snd (kvs ! j)) | _ \<Rightarrow> (None, []))"

definition err_of :: "cpos \<Rightarrow> cursor_err option" where
  "err_of p = (case p of Fresh \<Rightarrow> Some ErrCursorUnpositioned | Stale True \<Rightarrow> Some ErrCursorStale | _ \<Rightarrow> None)"

section \<open>The relation\<close>

definition here ::
  "PageReader \<Rightarrow> Config \<Rightarrow> nat \<Rightarrow> (bytes \<times> bytes) list \<Rightarrow> Cursor \<Rightarrow> (bytes \<times> bytes) list \<Rightarrow> LeafEntry list \<Rightarrow> (bytes \<times> bytes) list \<Rightarrow> (bytes \<times> bytes) list \<Rightarrow>
    (LeafIter \<Rightarrow> nat \<Rightarrow> bool) \<Rightarrow> nat \<Rightarrow> bool" where
  "here pr cfg h kvs c bef es lk aft at p \<longleftrightarrow>
     (\<exists>r. at_leaf pr cfg h (c_rootID c) (c_path c) bef r es lk aft \<and> leaf_index es r at) \<and> kvs = bef @ lk @ aft \<and> lk \<noteq> [] \<and>
     list_all2 (entry_holds pr cfg) es lk \<and> at (c_iter c) p \<and> c_err c = None"

definition stands :: "PageReader \<Rightarrow> Config \<Rightarrow> nat \<Rightarrow> (bytes \<times> bytes) list \<Rightarrow> Cursor \<Rightarrow> nat \<Rightarrow> bool" where
  "stands pr cfg h kvs c j \<longleftrightarrow>
     c_state c = csPositioned \<and> c_posGen c = c_gen c \<and> c_curKey c = Some (fst (kvs ! j)) \<and> c_curValue c = snd (kvs ! j) \<and>
     (\<exists>bef es lk aft at m. here pr cfg h kvs c bef es lk aft at (Suc m) \<and> m < length lk \<and> j = length bef + m)"

definition agrees :: "PageReader \<Rightarrow> Config \<Rightarrow> nat \<Rightarrow> (bytes \<times> bytes) list \<Rightarrow> u64 \<Rightarrow> nat \<Rightarrow> Cursor \<Rightarrow> cpos \<Rightarrow> bool" where
  "agrees pr cfg h kvs root n c p \<longleftrightarrow> c_rootID c = root \<and>
     (case p of
        Fresh \<Rightarrow> c_state c = csUnpositioned \<and> c_err c = None
      | On j \<Rightarrow> stands pr cfg h kvs c j
      | Ended \<Rightarrow> c_state c = csEndOfIteration \<and> c_err c = None
      | Stale b \<Rightarrow> c_state c = csPositioned \<and> (\<exists>k. 0 < k \<and> k \<le> n \<and> c_gen c = c_posGen c + word_of_nat k) \<and>
          c_err c = (if b then Some ErrCursorStale else None))"

definition answers :: "PageReader \<Rightarrow> Config \<Rightarrow> nat \<Rightarrow> (bytes \<times> bytes) list \<Rightarrow> u64 \<Rightarrow> node_err + pair_ret \<times> Cursor \<Rightarrow> cpos \<Rightarrow> bool" where
  "answers pr cfg h kvs root res p \<longleftrightarrow> (\<exists>c. res = Inr (ret_of kvs p, c) \<and> agrees pr cfg h kvs root 0 c p)"

section \<open>The pair of an entry\<close>

lemma caught_Inr [simp]: "caught (Inr x) = Inr (Inr x)"
  by (simp add: caught_def)

lemma adopts_value:
  assumes "Validate cfg = None" "entry_holds pr cfg e (k, v)"
  shows "adopt_value pr cfg (e\<lparr>Key := x\<rparr>) c = Inr (c\<lparr>c_curValue := v\<rparr>)"
  using assms run_extent_reads [OF assms(1), of pr "OverflowPage e" v]
  by (simp add: adopt_value_def valueFor_def entry_holds_def IsOverflow_def readOverflowValue_def)

lemma adopts:
  assumes "Validate cfg = None" "entry_holds pr cfg e (k, v)"
  shows "adoptEntry pr cfg e c = Inr (c\<lparr>c_curKey := Some k, c_curValue := v\<rparr>)"
proof -
  have f: "full_key e k" using assms(2) by (simp add: entry_holds_def)
  have a: "adopt_value pr cfg e c' = Inr (c'\<lparr>c_curValue := v\<rparr>)" for c' using adopts_value [OF assms, of "Key e"] by simp
  show ?thesis
  proof (cases "IsOverflowKey e")
    case True
    obtain t where t: "InlineThreshold cfg = int t" "inline_max cfg = t" "2010 \<le> t" using page_bounds(5) [OF assms(1)] by (cases "InlineThreshold cfg") auto
    have e: "length (Key e) = t" "run_holds pr cfg (KeyExtPage e) (drop t k)" "length k = unat (KeyTotalLen e)" "take t k = Key e" "t < length k"
      using assms(2) f True t(2) by (auto simp: entry_holds_def full_key_def)
    have l: "int (unat (KeyTotalLen e)) - int t = int (length (drop t k))" using e(3,5) by simp
    have "readKeyExtentTail pr cfg (KeyExtPage e) (KeyTotalLen e) = Inr (drop t k)"
      using run_extent_reads [OF assms(1) e(2)] e(5) unfolding readKeyExtentTail_def Let_def t(1) l by (simp add: not_le)
    then have "materializeEntryKey pr cfg e = Inr k" using True e(4) append_take_drop_id [of t k] by (simp add: materializeEntryKey_def)
    moreover have "Key e \<noteq> []" using e(1) t(3) by auto
    ultimately show ?thesis using True a by (simp add: adoptEntry_def)
  next
    case False
    then show ?thesis using f a by (simp add: adoptEntry_def full_key_def)
  qed
qed

lemma pair_at: "kvs = bef @ lk @ aft \<Longrightarrow> m < length lk \<Longrightarrow> kvs ! (length bef + m) = lk ! m"
  by (simp add: nth_append)

lemma here_entry:
  assumes "here pr cfg h kvs c bef es lk aft at p" "m < length lk"
  shows "entry_holds pr cfg (es ! m) (fst (kvs ! (length bef + m)), snd (kvs ! (length bef + m)))" "length es = length lk"
proof -
  have l: "list_all2 (entry_holds pr cfg) es lk" "kvs = bef @ lk @ aft" using assms(1) by (simp_all add: here_def)
  show "length es = length lk" by (rule list_all2_lengthD [OF l(1)])
  then show "entry_holds pr cfg (es ! m) (fst (kvs ! (length bef + m)), snd (kvs ! (length bef + m)))"
    using list_all2_nthD [OF l(1), of m] assms(2) pair_at [OF l(2) assms(2)] by simp
qed

lemma lands:
  assumes "Validate cfg = None" "here pr cfg h kvs c bef es lk aft at (Suc m)" "m < length lk"
    and "c_state c = csPositioned" "c_posGen c = c_gen c" "c_rootID c = root"
  shows "answers pr cfg h kvs root (bind_res (adoptEntry pr cfg (es ! m) c) (\<lambda>c'. Inr (current_pair c'))) (On (length bef + m))"
proof -
  let ?j = "length bef + m"
  let ?c = "c\<lparr>c_curKey := Some (fst (kvs ! ?j)), c_curValue := snd (kvs ! ?j)\<rparr>"
  have "here pr cfg h kvs ?c bef es lk aft at (Suc m)" using assms(2) by (simp add: here_def)
  then have "stands pr cfg h kvs ?c ?j" using assms(3-5) unfolding stands_def by fastforce
  then show ?thesis using adopts [OF assms(1) here_entry(1) [OF assms(2,3)]] assms(6) by (simp add: answers_def agrees_def ret_of_def current_pair_def)
qed

lemma ended: "c_err c = None \<Longrightarrow> c_rootID c = root \<Longrightarrow> answers pr cfg h kvs root (at_end c) Ended"
  by (simp add: answers_def agrees_def at_end_def ret_of_def transitionToEnd_def)

section \<open>Within a leaf\<close>

lemma here_index: "here pr cfg h kvs c bef es lk aft at p \<Longrightarrow> \<exists>r. leaf_index es r at"
  by (auto simp: here_def)

lemma here_iter: "here pr cfg h kvs c bef es lk aft at p \<Longrightarrow> at it q \<Longrightarrow> here pr cfg h kvs (c\<lparr>c_iter := it\<rparr>) bef es lk aft at q"
  by (auto simp: here_def)

lemma here_positioned: "here pr cfg h kvs (positioned_now c) bef es lk aft at p = here pr cfg h kvs c bef es lk aft at p"
  by (simp add: here_def positioned_now_def)

lemma first_lands:
  assumes "Validate cfg = None" "here pr cfg h kvs c bef es lk aft at 0" "c_rootID c = root"
  shows "answers pr cfg h kvs root (firstInLeaf pr cfg c) (On (length bef))"
proof -
  obtain r where r: "leaf_index es r at" using here_index [OF assms(2)] by blast
  have n: "0 < length lk" "length es = length lk" using assms(2) by (auto simp: here_def dest: list_all2_lengthD)
  have i: "at (c_iter c) 0" using assms(2) by (simp add: here_def)
  obtain it where it: "iter_Next (c_iter c) = Inr (Some (es ! 0), it)" "at it (Suc 0)" using leaf_index.at_next [OF r i] n by auto
  note g = here_positioned [THEN iffD2, OF here_iter [OF assms(2) it(2)]]
  show ?thesis using lands [OF assms(1) g n(1) _ _ _, of root] it(1) assms(3) by (simp add: firstInLeaf_def positioned_now_def)
qed

lemma last_lands:
  assumes "Validate cfg = None" "here pr cfg h kvs c bef es lk aft at p" "c_rootID c = root"
  shows "answers pr cfg h kvs root (lastInLeaf pr cfg c) (On (length bef + length lk - 1))"
proof -
  obtain r where r: "leaf_index es r at" using here_index [OF assms(2)] by blast
  have n: "0 < length lk" "length es = length lk" using assms(2) by (auto simp: here_def dest: list_all2_lengthD)
  have i: "at (c_iter c) p" using assms(2) by (simp add: here_def)
  obtain it where it: "iter_At (c_iter c) (length lk - 1) = Inr (Some (es ! (length lk - 1)), it)" "at it (Suc (length lk - 1))"
    using leaf_index.at_index [OF r i, of "length lk - 1"] n by auto
  have e: "it_endIdx (c_iter c) = length lk" using leaf_index.at_count [OF r i] n(2) by simp
  note g = here_positioned [THEN iffD2, OF here_iter [OF assms(2) it(2)]]
  have "length bef + (length lk - 1) = length bef + length lk - 1" using n(1) by linarith
  then show ?thesis using lands [OF assms(1) g _ _ _ _, of root] it(1) assms(3) n(1) e by (simp add: lastInLeaf_def positioned_now_def Let_def)
qed

section \<open>Descents\<close>

lemma descend_left:
  assumes "Validate cfg = None" "stocked pr cfg h i ck" "h \<le> MaxTreeDepth"
  shows "\<exists>more r es lk aft. descendLeftmostFrom pr cfg i c = Inr (Inr (), c\<lparr>c_path := c_path c @ more, c_iter := IterForReuse r\<rparr>) \<and>
    at_leaf pr cfg h i more [] r es lk aft \<and> ck = lk @ aft"
proof -
  have h: "h < MaxTreeDepth + 1" using assms(3) by simp
  obtain more bef r es lk aft where d: "descendFrom pr cfg pickLeftmost (MaxTreeDepth + 1) (c_path c) i = (Inr r, c_path c @ more)"
      "at_leaf pr cfg h i more bef r es lk aft" "ck = bef @ lk @ aft" "bef = []"
    using descends [OF assms(1,2) h, of Leftmost "c_path c"] by auto
  have "descendLeftmostFrom pr cfg i c = Inr (Inr (), c\<lparr>c_path := c_path c @ more, c_iter := IterForReuse r\<rparr>)"
    unfolding descendLeftmostFrom_def on_leaf_def d(1) by (simp add: Let_def)
  then show ?thesis using d(2-4) by blast
qed

lemma descend_right:
  assumes "Validate cfg = None" "stocked pr cfg h i ck" "h \<le> MaxTreeDepth"
  shows "\<exists>more r es lk bef it. descendRightmostFrom pr cfg i c = Inr (Inr (), c\<lparr>c_path := c_path c @ more, c_iter := it\<rparr>) \<and>
    at_leaf pr cfg h i more bef r es lk [] \<and> ck = bef @ lk \<and> IterAtForReuse r (r_count r) = Inr it"
proof -
  have h: "h < MaxTreeDepth + 1" using assms(3) by simp
  obtain more bef r es lk aft where d: "descendFrom pr cfg (pickRightmost cfg) (MaxTreeDepth + 1) (c_path c) i = (Inr r, c_path c @ more)"
      "at_leaf pr cfg h i more bef r es lk aft" "ck = bef @ lk @ aft" "aft = []"
    using descends [OF assms(1,2) h, of Rightmost "c_path c"] by auto
  obtain at where "leaf_index es r at" using at_leaf_node [OF d(2)] by (auto simp: leaf_node_def iterable_def)
  then obtain it where it: "IterAtForReuse r (r_count r) = Inr it" using leaf_index.at_entry_k by blast
  have "descendRightmostFrom pr cfg i c = Inr (Inr (), c\<lparr>c_path := c_path c @ more, c_iter := it\<rparr>)"
    unfolding descendRightmostFrom_def on_leaf_def d(1) by (simp add: Let_def it)
  moreover have "at_leaf pr cfg h i more bef r es lk []" "ck = bef @ lk" using d(2-4) by simp_all
  ultimately show ?thesis using it by blast
qed

text \<open>A descent to a leaf makes the cursor stand in it.\<close>

lemma leaf_here:
  assumes "at_leaf pr cfg h (c_rootID c) (c_path c) bef r es lk aft" "kvs = bef @ lk @ aft" "c_err c = None"
  shows "\<exists>at. leaf_index es r at \<and> seeks_to es r at \<and> (\<forall>p. at (c_iter c) p \<longrightarrow> here pr cfg h kvs c bef es lk aft at p)"
  using at_leaf_node [OF assms(1)] assms unfolding here_def leaf_node_def iterable_def by blast

lemma next_leaf:
  assumes "Validate cfg = None" "here pr cfg h kvs c bef es lk aft at p" "c_rootID c = root" "h \<le> MaxTreeDepth"
  shows "answers pr cfg h kvs root (next_leaf_first pr cfg c) (if aft = [] then Ended else On (length bef + length lk))"
proof -
  obtain r where a: "at_leaf pr cfg h (c_rootID c) (c_path c) bef r es lk aft" "kvs = bef @ lk @ aft" "c_err c = None" using assms(2) by (auto simp: here_def)
  note s = climbs_next [OF assms(1) a(1)] and p = at_leaf_path [OF a(1)]
  show ?thesis
  proof (cases "aft = []")
    case True
    then have "next_sibling pr cfg (rev (butlast (c_path c))) = (Inr None, [])" using s by (metis append_Nil2 next_sibling.simps(1))
    then have "next_leaf_first pr cfg c = at_end (c\<lparr>c_path := []\<rparr>)" using p by (simp add: next_leaf_first_def advanceToNextLeaf_def to_sibling_def Let_def)
    then show ?thesis using True a(3) assms(3) by (simp add: ended)
  next
    case False
    then obtain sib rp h' ck rest where n: "\<And>up. next_sibling pr cfg (rev (butlast (c_path c)) @ up) = (Inr (Some sib), rp @ up)" "h' < h"
        "stocked pr cfg h' sib ck" "aft = ck @ rest"
        "\<And>more r' es' lk' aft'. at_leaf pr cfg h' sib more [] r' es' lk' aft' \<Longrightarrow> ck = lk' @ aft' \<Longrightarrow>
          at_leaf pr cfg h (c_rootID c) (rev rp @ more) (bef @ lk) r' es' lk' (aft' @ rest)"
      using s by blast
    let ?c = "c\<lparr>c_path := rev rp\<rparr>"
    have h: "h' \<le> MaxTreeDepth" using n(2) assms(4) by simp
    obtain more r' es' lk' aft' where d: "descendLeftmostFrom pr cfg sib ?c = Inr (Inr (), ?c\<lparr>c_path := rev rp @ more, c_iter := IterForReuse r'\<rparr>)"
        "at_leaf pr cfg h' sib more [] r' es' lk' aft'" "ck = lk' @ aft'"
      using descend_left [OF assms(1) n(3) h, of ?c] by auto
    let ?d = "c\<lparr>c_path := rev rp @ more, c_iter := IterForReuse r'\<rparr>"
    have f: "next_leaf_first pr cfg c = firstInLeaf pr cfg ?d"
      using n(1) [of "[]"] d(1) p by (simp add: next_leaf_first_def advanceToNextLeaf_def to_sibling_def Let_def)
    have k: "kvs = (bef @ lk) @ lk' @ (aft' @ rest)" using a(2) n(4) d(3) by simp
    have "at_leaf pr cfg h (c_rootID ?d) (c_path ?d) (bef @ lk) r' es' lk' (aft' @ rest)" using n(5) [OF d(2,3)] by simp
    from leaf_here [OF this k] obtain at' where t: "leaf_index es' r' at'" "\<forall>p. at' (c_iter ?d) p \<longrightarrow> here pr cfg h kvs ?d (bef @ lk) es' lk' (aft' @ rest) at' p"
      using a(3) by auto
    have "here pr cfg h kvs ?d (bef @ lk) es' lk' (aft' @ rest) at' 0" using t leaf_index.at_start [OF t(1)] by simp
    from first_lands [OF assms(1) this, of root] show ?thesis using False f assms(3) by simp
  qed
qed

lemma prev_leaf:
  assumes "Validate cfg = None" "here pr cfg h kvs c bef es lk aft at p" "c_rootID c = root" "h \<le> MaxTreeDepth"
  shows "answers pr cfg h kvs root (prev_leaf_last pr cfg c) (before (length bef))"
proof -
  obtain r where a: "at_leaf pr cfg h (c_rootID c) (c_path c) bef r es lk aft" "kvs = bef @ lk @ aft" "c_err c = None" using assms(2) by (auto simp: here_def)
  note s = climbs_prev [OF assms(1) a(1)] and p = at_leaf_path [OF a(1)]
  show ?thesis
  proof (cases "bef = []")
    case True
    then have "prev_sibling pr cfg (rev (butlast (c_path c))) = (Inr None, [])" using s by (metis append_Nil2 prev_sibling.simps(1))
    then have "prev_leaf_last pr cfg c = at_end (c\<lparr>c_path := []\<rparr>)" using p by (simp add: prev_leaf_last_def advanceToPrevLeaf_def to_sibling_def Let_def)
    then show ?thesis using True a(3) assms(3) by (simp add: ended before_def)
  next
    case False
    then obtain sib rp h' ck rest where n: "\<And>up. prev_sibling pr cfg (rev (butlast (c_path c)) @ up) = (Inr (Some sib), rp @ up)" "h' < h"
        "stocked pr cfg h' sib ck" "bef = rest @ ck"
        "\<And>more bef' r' es' lk'. at_leaf pr cfg h' sib more bef' r' es' lk' [] \<Longrightarrow> ck = bef' @ lk' \<Longrightarrow>
          at_leaf pr cfg h (c_rootID c) (rev rp @ more) (rest @ bef') r' es' lk' (lk @ aft)"
      using s by blast
    let ?c = "c\<lparr>c_path := rev rp\<rparr>"
    have h: "h' \<le> MaxTreeDepth" using n(2) assms(4) by simp
    obtain more r' es' lk' bef' it where d: "descendRightmostFrom pr cfg sib ?c = Inr (Inr (), ?c\<lparr>c_path := rev rp @ more, c_iter := it\<rparr>)"
        "at_leaf pr cfg h' sib more bef' r' es' lk' []" "ck = bef' @ lk'" "IterAtForReuse r' (r_count r') = Inr it"
      using descend_right [OF assms(1) n(3) h, of ?c] by auto
    let ?d = "c\<lparr>c_path := rev rp @ more, c_iter := it\<rparr>"
    have f: "prev_leaf_last pr cfg c = lastInLeaf pr cfg ?d"
      using n(1) [of "[]"] d(1) p by (simp add: prev_leaf_last_def advanceToPrevLeaf_def to_sibling_def Let_def)
    have k: "kvs = (rest @ bef') @ lk' @ (lk @ aft)" using a(2) n(4) d(3) by simp
    have "at_leaf pr cfg h (c_rootID ?d) (c_path ?d) (rest @ bef') r' es' lk' (lk @ aft)" using n(5) [OF d(2,3)] by simp
    from leaf_here [OF this k] obtain at' where t: "leaf_index es' r' at'" "\<forall>p. at' (c_iter ?d) p \<longrightarrow> here pr cfg h kvs ?d (rest @ bef') es' lk' (lk @ aft) at' p"
      using a(3) by auto
    have "at' it (min (r_count r') (length es'))" using leaf_index.at_entry_k [OF t(1), of "r_count r'"] d(4) by simp
    then have "here pr cfg h kvs ?d (rest @ bef') es' lk' (lk @ aft) at' (min (r_count r') (length es'))" using t(2) by simp
    from last_lands [OF assms(1) this, of root] show ?thesis using False f assms(3) n(4) d(3) by (auto simp: before_def add.assoc)
  qed
qed

section \<open>Positioning\<close>

text \<open>The tree a cursor is on: no page for the empty one.\<close>

definition cursor_tree :: "PageReader \<Rightarrow> Config \<Rightarrow> nat \<Rightarrow> u64 \<Rightarrow> (bytes \<times> bytes) list \<Rightarrow> bool" where
  "cursor_tree pr cfg h root kvs \<longleftrightarrow> Validate cfg = None \<and> h \<le> MaxTreeDepth \<and> (if root = 0 then kvs = [] else stocked pr cfg h root kvs)"

lemma cursor_tree_sorted: "cursor_tree pr cfg h root kvs \<Longrightarrow> sorted_wrt (<) (map fst kvs)"
  using tree_sorted stocked_tree by (fastforce simp: cursor_tree_def split: if_splits)

lemma first_answers:
  assumes "cursor_tree pr cfg h root kvs" "c_rootID c = root"
  shows "answers pr cfg h kvs root (cursor_First pr cfg c) (list_first kvs)"
proof (cases "root = 0")
  case True
  then have "cursor_First pr cfg c = at_end (resetPath (c\<lparr>c_err := None\<rparr>))" using assms(2) by (simp add: cursor_First_def reposition_def Let_def)
  moreover have "kvs = []" using assms(1) True by (simp add: cursor_tree_def)
  ultimately show ?thesis using assms(2) by (simp add: list_first_def ended resetPath_def)
next
  case False
  then have t: "Validate cfg = None" "h \<le> MaxTreeDepth" "stocked pr cfg h root kvs" using assms(1) by (simp_all add: cursor_tree_def)
  let ?c = "resetPath (c\<lparr>c_err := None\<rparr>)"
  obtain more r es lk aft where d: "descendLeftmostFrom pr cfg root ?c = Inr (Inr (), ?c\<lparr>c_path := c_path ?c @ more, c_iter := IterForReuse r\<rparr>)"
      "at_leaf pr cfg h root more [] r es lk aft" "kvs = lk @ aft"
    using descend_left [OF t(1,3,2), of ?c] by blast
  let ?d = "?c\<lparr>c_path := more, c_iter := IterForReuse r\<rparr>"
  have f: "cursor_First pr cfg c = firstInLeaf pr cfg ?d"
    using d(1) assms(2) False by (simp add: cursor_First_def reposition_def Let_def descendLeftmost_def resetPath_def)
  have a: "at_leaf pr cfg h (c_rootID ?d) (c_path ?d) [] r es lk aft" "kvs = [] @ lk @ aft" "c_err ?d = None" using d assms(2) by (simp_all add: resetPath_def)
  obtain at where i: "leaf_index es r at" "\<forall>p. at (c_iter ?d) p \<longrightarrow> here pr cfg h kvs ?d [] es lk aft at p" using leaf_here [OF a] by blast
  have "here pr cfg h kvs ?d [] es lk aft at 0" using i(2) leaf_index.at_start [OF i(1)] by simp
  from first_lands [OF t(1) this, of root] show ?thesis
    using f assms(2) stocked_pairs [OF t(3)] by (simp add: list_first_def resetPath_def)
qed

lemma last_answers:
  assumes "cursor_tree pr cfg h root kvs" "c_rootID c = root"
  shows "answers pr cfg h kvs root (cursor_Last pr cfg c) (list_last kvs)"
proof (cases "root = 0")
  case True
  then have "cursor_Last pr cfg c = at_end (resetPath (c\<lparr>c_err := None\<rparr>))" using assms(2) by (simp add: cursor_Last_def reposition_def Let_def)
  moreover have "kvs = []" using assms(1) True by (simp add: cursor_tree_def)
  ultimately show ?thesis using assms(2) by (simp add: list_last_def ended resetPath_def)
next
  case False
  then have t: "Validate cfg = None" "h \<le> MaxTreeDepth" "stocked pr cfg h root kvs" using assms(1) by (simp_all add: cursor_tree_def)
  let ?c = "resetPath (c\<lparr>c_err := None\<rparr>)"
  obtain more r es lk bef it where d: "descendRightmostFrom pr cfg root ?c = Inr (Inr (), ?c\<lparr>c_path := c_path ?c @ more, c_iter := it\<rparr>)"
      "at_leaf pr cfg h root more bef r es lk []" "kvs = bef @ lk" "IterAtForReuse r (r_count r) = Inr it"
    using descend_right [OF t(1,3,2), of ?c] by blast
  let ?d = "?c\<lparr>c_path := more, c_iter := it\<rparr>"
  have f: "cursor_Last pr cfg c = lastInLeaf pr cfg ?d"
    using d(1) assms(2) False by (simp add: cursor_Last_def reposition_def Let_def descendRightmost_def resetPath_def)
  have a: "at_leaf pr cfg h (c_rootID ?d) (c_path ?d) bef r es lk []" "kvs = bef @ lk @ []" "c_err ?d = None" using d assms(2) by (simp_all add: resetPath_def)
  obtain at where i: "leaf_index es r at" "\<forall>p. at (c_iter ?d) p \<longrightarrow> here pr cfg h kvs ?d bef es lk [] at p" using leaf_here [OF a] by blast
  have "at it (min (r_count r) (length es))" using leaf_index.at_entry_k [OF i(1), of "r_count r"] d(4) by simp
  then have "here pr cfg h kvs ?d bef es lk [] at (min (r_count r) (length es))" using i(2) by simp
  from last_lands [OF t(1) this, of root] show ?thesis
    using f assms(2) stocked_pairs [OF t(3)] d(3) by (auto simp: list_last_def resetPath_def)
qed

section \<open>Searching\<close>

lemma rank_filter: "rank (map fst kvs) t = length (filter (\<lambda>kv. fst kv < t) kvs)"
  by (simp add: rank_def filter_map comp_def)

lemma rank_sided:
  assumes "kvs = bef @ lk @ aft" "sided (Toward t) bef aft"
  shows "length (filter (\<lambda>kv. fst kv < t) kvs) = length bef + rank (map fst lk) t" "t \<in> set (map fst kvs) \<longleftrightarrow> t \<in> set (map fst lk)"
    "rank (map fst lk) t \<le> length lk"
proof -
  have "filter (\<lambda>kv. fst kv < t) bef = bef" "filter (\<lambda>kv. fst kv < t) aft = []" using assms(2) by (auto simp: filter_id_conv filter_empty_conv)
  then show "length (filter (\<lambda>kv. fst kv < t) kvs) = length bef + rank (map fst lk) t" using assms(1) by (simp add: rank_filter)
  show "t \<in> set (map fst kvs) \<longleftrightarrow> t \<in> set (map fst lk)" using assms by auto
  show "rank (map fst lk) t \<le> length lk" unfolding rank_filter by (rule length_filter_le)
qed

text \<open>The descent to a key: the leaf that has it if the tree does, and the iterator behind the entry.\<close>

lemma descend_key:
  assumes "cursor_tree pr cfg h root kvs" "root \<noteq> 0" "c_rootID c = root" "c_err c = None"
  shows "\<exists>c' bef es lk aft at e. descendToKey pr cfg root t c = Inr (Inr (rank (map fst lk) t, e, t \<in> set (map fst lk)), c') \<and> c_rootID c' = root \<and>
    here pr cfg h kvs c' bef es lk aft at (min (Suc (rank (map fst lk) t)) (length es)) \<and> sided (Toward t) bef aft \<and>
    (if t \<in> set (map fst lk) then e = (es ! rank (map fst lk) t)\<lparr>Key := []\<rparr> else rank (map fst lk) t < length lk \<longrightarrow> e = es ! rank (map fst lk) t)"
proof -
  have t: "Validate cfg = None" "h < MaxTreeDepth + 1" "stocked pr cfg h root kvs" using assms(1,2) by (simp_all add: cursor_tree_def)
  let ?c = "resetPath c"
  obtain more bef r es lk aft where d: "descendFrom pr cfg (pickSearched pr cfg t) (MaxTreeDepth + 1) [] root = (Inr r, more)"
      "at_leaf pr cfg h root more bef r es lk aft" "kvs = bef @ lk @ aft" "sided (Toward t) bef aft"
    using descends [OF t(1,3,2), of "Toward t" "[]"] unfolding pick_of.simps append_Nil by blast
  obtain j where j: "leaf_node pr cfg j r es lk" using at_leaf_node [OF d(2)] by blast
  have l: "length es = length lk" using j by (auto simp: leaf_node_def dest: list_all2_lengthD)
  have "list_all2 (\<lambda>e k. full_key e k \<and> tail_reads (keyTail pr cfg) t e k) es (map fst lk)"
    unfolding list_all2_map2 using j unfolding leaf_node_def by (auto elim!: list_all2_mono dest: entry_tail [OF t(1), of pr _ _ _ t])
  moreover have "sorted_wrt (<) (map fst lk)" using j by (simp add: leaf_node_def)
  moreover obtain at where i: "leaf_index es r at" "seeks_to es r at" using j by (auto simp: leaf_node_def iterable_def)
  ultimately obtain it where s: "SearchLeafIter r t (keyTail pr cfg) = Inr (sought es (map fst lk) t it)"
      "at it (min (Suc (rank (map fst lk) t)) (length es))" unfolding seeks_to_def by blast
  let ?d = "?c\<lparr>c_path := more, c_iter := it\<rparr>"
  obtain e where e: "sought es (map fst lk) t it = (rank (map fst lk) t, e, t \<in> set (map fst lk), it)"
      "if t \<in> set (map fst lk) then e = (es ! rank (map fst lk) t)\<lparr>Key := []\<rparr> else rank (map fst lk) t < length lk \<longrightarrow> e = es ! rank (map fst lk) t"
    using that l by (cases "t \<in> set (map fst lk)"; cases "rank (map fst lk) t < length lk") (simp_all add: sought_def Let_def)
  have "descendToKey pr cfg root t c = Inr (Inr (rank (map fst lk) t, e, t \<in> set (map fst lk)), ?d)"
    using d(1) s(1) e(1) by (simp add: descendToKey_def on_leaf_def Let_def resetPath_def del: descendFrom.simps)
  moreover have "here pr cfg h kvs ?d bef es lk aft at (min (Suc (rank (map fst lk) t)) (length es))"
    using d(2,3) s(2) i(1) j at_leaf_node [OF d(2)] assms(3,4) unfolding here_def leaf_node_def by (auto simp: resetPath_def)
  moreover have "c_rootID ?d = root" using assms(3) by (simp add: resetPath_def)
  ultimately show ?thesis using d(4) e(2) by blast
qed

lemma target_lands:
  assumes "Validate cfg = None" "here pr cfg h kvs c bef es lk aft at (Suc m)" "m < length lk" "fst (lk ! m) = t" "c_rootID c = root"
  shows "answers pr cfg h kvs root (adopt_target pr cfg t ((es ! m)\<lparr>Key := []\<rparr>) c) (On (length bef + m))"
proof -
  let ?j = "length bef + m"
  let ?c = "(positioned_now c)\<lparr>c_curKey := Some t, c_curValue := snd (kvs ! ?j)\<rparr>"
  have j: "kvs ! ?j = lk ! m" using assms(2,3) by (intro pair_at) (auto simp: here_def)
  have "here pr cfg h kvs ?c bef es lk aft at (Suc m)" using assms(2) by (simp add: here_def positioned_now_def)
  then have "stands pr cfg h kvs ?c ?j" using assms(3,4) j unfolding stands_def by (fastforce simp: positioned_now_def)
  then show ?thesis using adopts_value [OF assms(1) here_entry(1) [OF assms(2,3)]] assms(4,5) j
    by (simp add: answers_def agrees_def ret_of_def current_pair_def adopt_target_def adoptTargetKey_def positioned_now_def)
qed

lemma found_index: "sorted_wrt (<) ks \<Longrightarrow> t \<in> set ks \<Longrightarrow> rank ks t < length ks \<and> ks ! rank ks t = t"
  using bs3.ranks(2) [of ks "\<lambda>i. Inr (Compare (ks ! i) t) :: node_err + int" t] by simp

lemma here_sorted: "here pr cfg h kvs c bef es lk aft at p \<Longrightarrow> sorted_wrt (<) (map fst lk)"
  using at_leaf_node unfolding here_def leaf_node_def by fastforce

lemma seek_ge_answers:
  assumes "cursor_tree pr cfg h root kvs" "c_rootID c = root"
  shows "answers pr cfg h kvs root (cursor_SeekGE pr cfg t c) (list_ge kvs t)"
    "answers pr cfg h kvs root (cursor_Seek pr cfg t c) (if t \<in> set (map fst kvs) then list_ge kvs t else Ended)"
proof -
  have "answers pr cfg h kvs root (cursor_SeekGE pr cfg t c) (list_ge kvs t) \<and>
      answers pr cfg h kvs root (cursor_Seek pr cfg t c) (if t \<in> set (map fst kvs) then list_ge kvs t else Ended)"
  proof (cases "root = 0")
    case True
    then have "cursor_SeekGE pr cfg t c = at_end (resetPath (c\<lparr>c_err := None\<rparr>))" "cursor_Seek pr cfg t c = at_end (resetPath (c\<lparr>c_err := None\<rparr>))"
      using assms(2) by (simp_all add: cursor_SeekGE_def cursor_Seek_def reposition_def Let_def)
    moreover have "kvs = []" using assms(1) True by (simp add: cursor_tree_def)
    ultimately show ?thesis using assms(2) by (simp add: list_ge_def ended resetPath_def)
  next
    case False
    have v: "Validate cfg = None" "h \<le> MaxTreeDepth" using assms(1) by (simp_all add: cursor_tree_def)
    let ?c = "c\<lparr>c_err := None\<rparr>"
    obtain c' bef es lk aft at e where d: "descendToKey pr cfg root t ?c = Inr (Inr (rank (map fst lk) t, e, t \<in> set (map fst lk)), c')" "c_rootID c' = root"
        "here pr cfg h kvs c' bef es lk aft at (min (Suc (rank (map fst lk) t)) (length es))" "sided (Toward t) bef aft"
        "if t \<in> set (map fst lk) then e = (es ! rank (map fst lk) t)\<lparr>Key := []\<rparr> else rank (map fst lk) t < length lk \<longrightarrow> e = es ! rank (map fst lk) t"
      using descend_key [OF assms(1) False, of ?c t] assms(2) by auto
    let ?m = "rank (map fst lk) t"
    have k: "kvs = bef @ lk @ aft" using d(3) by (simp add: here_def)
    note rs = rank_sided [OF k d(4)]
    have lg: "list_ge kvs t = (if length bef + ?m < length kvs then On (length bef + ?m) else Ended)" by (simp only: list_ge_def Let_def rs(1))
    have es: "length es = length lk" using d(3) by (auto simp: here_def dest: list_all2_lengthD)
    obtain r where i: "leaf_index es r at" "at (c_iter c') (min (Suc ?m) (length es))" using d(3) by (auto simp: here_def)
    have ec: "it_endIdx (c_iter c') = length lk" using leaf_index.at_count [OF i] es by simp
    have g: "cursor_SeekGE pr cfg t c = (if t \<in> set (map fst lk) then adopt_target pr cfg t e c'
        else if ?m < length lk then bind_res (adoptEntry pr cfg e (positioned_now c')) (\<lambda>c''. Inr (current_pair c'')) else next_leaf_first pr cfg c')"
      using d(1) False assms(2) ec by (simp add: cursor_SeekGE_def reposition_def Let_def)
    have s: "cursor_Seek pr cfg t c = (if t \<in> set (map fst lk) then adopt_target pr cfg t e c' else at_end c')"
      using d(1) False assms(2) by (simp add: cursor_Seek_def reposition_def Let_def)
    show ?thesis
    proof (cases "t \<in> set (map fst lk)")
      case True
      have m: "?m < length lk" "fst (lk ! ?m) = t" using found_index [OF here_sorted [OF d(3)] True] by (simp, metis length_map nth_map)
      have "here pr cfg h kvs c' bef es lk aft at (Suc ?m)" using d(3) m(1) es by (simp add: min_def)
      from target_lands [OF v(1) this m d(2)] have "answers pr cfg h kvs root (adopt_target pr cfg t e c') (On (length bef + ?m))" using d(5) True by simp
      moreover have "list_ge kvs t = On (length bef + ?m)" unfolding lg using m(1) k by simp
      ultimately show ?thesis using g s True rs(2) by simp
    next
      case no: False
      have "answers pr cfg h kvs root (cursor_SeekGE pr cfg t c) (list_ge kvs t)"
      proof (cases "?m < length lk")
        case True
        have "here pr cfg h kvs (positioned_now c') bef es lk aft at (Suc ?m)" using d(3) True es here_positioned by (simp add: min_def)
        from lands [OF v(1) this True] have "answers pr cfg h kvs root (bind_res (adoptEntry pr cfg e (positioned_now c')) (\<lambda>c''. Inr (current_pair c''))) (On (length bef + ?m))"
          using d(2,5) no True by (simp add: positioned_now_def)
        moreover have "list_ge kvs t = On (length bef + ?m)" unfolding lg using True k by simp
        ultimately show ?thesis using g no True by simp
      next
        case m: False
        then have "list_ge kvs t = (if aft = [] then Ended else On (length bef + length lk))" unfolding lg using rs(3) k by auto
        then show ?thesis using next_leaf [OF v(1) d(3,2) v(2)] g no m by simp
      qed
      moreover have "answers pr cfg h kvs root (cursor_Seek pr cfg t c) Ended" using s no d(2,3) by (simp add: ended here_def)
      ultimately show ?thesis using no rs(2) by simp
    qed
  qed
  then show "answers pr cfg h kvs root (cursor_SeekGE pr cfg t c) (list_ge kvs t)"
    "answers pr cfg h kvs root (cursor_Seek pr cfg t c) (if t \<in> set (map fst kvs) then list_ge kvs t else Ended)" by blast+
qed

section \<open>Steps\<close>

lemma next_answers:
  assumes "cursor_tree pr cfg h root kvs" "agrees pr cfg h kvs root n c (On j)"
  shows "answers pr cfg h kvs root (cursor_Next pr cfg c) (if Suc j < length kvs then On (Suc j) else Ended)"
proof -
  have v: "Validate cfg = None" "h \<le> MaxTreeDepth" using assms(1) by (simp_all add: cursor_tree_def)
  have c: "c_rootID c = root" "c_state c = csPositioned" "c_posGen c = c_gen c" using assms(2) by (simp_all add: agrees_def stands_def)
  obtain bef es lk aft at m where w: "here pr cfg h kvs c bef es lk aft at (Suc m)" "m < length lk" "j = length bef + m"
    using assms(2) by (auto simp: agrees_def stands_def)
  obtain r where r: "leaf_index es r at" "at (c_iter c) (Suc m)" "length es = length lk" "kvs = bef @ lk @ aft" using w(1) by (auto simp: here_def dest: list_all2_lengthD)
  show ?thesis
  proof (cases "Suc m < length lk")
    case True
    obtain it where it: "iter_Next (c_iter c) = Inr (Some (es ! Suc m), it)" "at it (Suc (Suc m))" using leaf_index.at_next [OF r(1,2)] r(3) True by auto
    have "answers pr cfg h kvs root (cursor_Next pr cfg c) (On (length bef + Suc m))"
      using lands [OF v(1) here_iter [OF w(1) it(2)] True, of root] it(1) c by (simp add: cursor_Next_def)
    then show ?thesis using w(3) r(4) True by simp
  next
    case False
    then have m: "Suc m = length lk" using w(2) by simp
    have "iter_Next (c_iter c) = Inr (None, c_iter c)" using leaf_index.at_next [OF r(1,2)] r(3) False by simp
    then have "cursor_Next pr cfg c = next_leaf_first pr cfg c" using c by (simp add: cursor_Next_def)
    moreover have "(if Suc j < length kvs then On (Suc j) else Ended) = (if aft = [] then Ended else On (length bef + length lk))"
      using w(3) r(4) m by (cases aft) auto
    ultimately show ?thesis using next_leaf [OF v(1) w(1) c(1) v(2)] by simp
  qed
qed

lemma prev_answers:
  assumes "cursor_tree pr cfg h root kvs" "agrees pr cfg h kvs root n c (On j)"
  shows "answers pr cfg h kvs root (cursor_Prev pr cfg c) (before j)"
proof -
  have v: "Validate cfg = None" "h \<le> MaxTreeDepth" using assms(1) by (simp_all add: cursor_tree_def)
  have c: "c_rootID c = root" "c_state c = csPositioned" "c_posGen c = c_gen c" using assms(2) by (simp_all add: agrees_def stands_def)
  obtain bef es lk aft at m where w: "here pr cfg h kvs c bef es lk aft at (Suc m)" "m < length lk" "j = length bef + m"
    using assms(2) by (auto simp: agrees_def stands_def)
  obtain r where r: "leaf_index es r at" "at (c_iter c) (Suc m)" using w(1) by (auto simp: here_def)
  show ?thesis
  proof (cases m)
    case (Suc l)
    obtain it where it: "iter_Prev (c_iter c) = Inr (Some (es ! l), it)" "at it (Suc l)" using leaf_index.at_prev [OF r] Suc by auto
    have "l < length lk" using w(2) Suc by simp
    from lands [OF v(1) here_iter [OF w(1) it(2)] this, of root] have "answers pr cfg h kvs root (cursor_Prev pr cfg c) (On (length bef + l))"
      using it(1) c by (simp add: cursor_Prev_def)
    then show ?thesis using w(3) Suc by (simp add: before_def)
  next
    case 0
    have "iter_Prev (c_iter c) = Inr (None, c_iter c)" using leaf_index.at_prev [OF r] 0 by simp
    then have "cursor_Prev pr cfg c = prev_leaf_last pr cfg c" using c by (simp add: cursor_Prev_def)
    then show ?thesis using prev_leaf [OF v(1) w(1) c(1) v(2)] w(3) 0 by simp
  qed
qed

text \<open>The floor searches step back from the first key that is not below the target.\<close>

lemma answers_cases:
  assumes "answers pr cfg h kvs root res p" "p = Ended \<or> (\<exists>j. p = On j)"
  obtains c where "res = Inr (ret_of kvs p, c)" "agrees pr cfg h kvs root 0 c p" "c_err c = None" "c_rootID c = root"
proof -
  obtain c where c: "res = Inr (ret_of kvs p, c)" "agrees pr cfg h kvs root 0 c p" using assms(1) by (auto simp: answers_def)
  have "c_err c = None" using c(2) assms(2) by (auto simp: agrees_def stands_def here_def)
  moreover have "c_rootID c = root" using c(2) by (simp add: agrees_def)
  ultimately show ?thesis using that c by blast
qed

lemma count_le:
  fixes kvs :: "(bytes \<times> bytes) list"
  assumes "sorted_wrt (<) (map fst kvs)"
  shows "length (filter (\<lambda>kv. fst kv \<le> t) kvs) = length (filter (\<lambda>kv. fst kv < t) kvs) + (if t \<in> set (map fst kvs) then 1 else (0 :: nat))"
  using assms
proof (induction kvs)
  case (Cons kv kvs)
  have s: "sorted_wrt (<) (map fst kvs)" "\<forall>x \<in> set kvs. fst kv < fst x" using Cons.prems by auto
  show ?case
  proof (cases "fst kv = t")
    case True
    then have "t \<notin> set (map fst kvs)" using s(2) by auto
    then show ?thesis using Cons.IH [OF s(1)] True by simp
  next
    case False
    then have "(fst kv \<le> t) = (fst kv < t)" by auto
    then show ?thesis using Cons.IH [OF s(1)] False by auto
  qed
qed simp

lemma ge_found: "sorted_wrt (<) (map fst kvs) \<Longrightarrow> list_ge kvs t = On i \<Longrightarrow> fst (kvs ! i) = t \<longleftrightarrow> t \<in> set (map fst kvs)"
  using found_index [of "map fst kvs" t] by (auto simp: list_ge_def Let_def rank_filter split: if_splits) (metis nth_map length_map image_eqI nth_mem)

lemma floor_answers:
  assumes "cursor_tree pr cfg h root kvs" "c_rootID c = root"
  shows "answers pr cfg h kvs root (cursor_SeekLE pr cfg t c) (before (length (filter (\<lambda>kv. fst kv \<le> t) kvs)))" (is ?le)
    "answers pr cfg h kvs root (cursor_SeekLT pr cfg t c) (before (length (filter (\<lambda>kv. fst kv < t) kvs)))" (is ?lt)
proof -
  let ?i = "length (filter (\<lambda>kv. fst kv < t) kvs)"
  note o = cursor_tree_sorted [OF assms(1)]
  have p: "list_ge kvs t = Ended \<or> (\<exists>j. list_ge kvs t = On j)" by (simp add: list_ge_def Let_def)
  obtain c' where g: "cursor_SeekGE pr cfg t c = Inr (ret_of kvs (list_ge kvs t), c')" "agrees pr cfg h kvs root 0 c' (list_ge kvs t)" "c_err c' = None" "c_rootID c' = root"
    using answers_cases [OF seek_ge_answers(1) [OF assms, of t] p] .
  have i: "?i \<le> length kvs" by (rule length_filter_le)
  have "?le \<and> ?lt"
  proof (cases "?i < length kvs")
    case True
    then have l: "list_ge kvs t = On ?i" by (simp add: list_ge_def)
    have r: "ret_of kvs (On ?i) = (Some (fst (kvs ! ?i)), snd (kvs ! ?i))" by (simp add: ret_of_def)
    note q = prev_answers [OF assms(1) g(2) [unfolded l]]
    have lt: ?lt using q g(1,3) by (simp add: cursor_SeekLT_def l r)
    have ?le
    proof (cases "t \<in> set (map fst kvs)")
      case yes: True
      then have "cursor_SeekLE pr cfg t c = Inr (ret_of kvs (On ?i), c')" using ge_found [OF o l] g(1,3) by (simp add: cursor_SeekLE_def l r)
      then show ?thesis using g(2) l count_le [OF o, of t] yes by (simp add: answers_def before_def)
    next
      case False
      then show ?thesis using q g(1,3) count_le [OF o, of t] ge_found [OF o l] by (simp add: cursor_SeekLE_def l r)
    qed
    then show ?thesis using lt by blast
  next
    case False
    then have e: "?i = length kvs" "list_ge kvs t = Ended" using i by (simp_all add: list_ge_def)
    have "filter (\<lambda>kv. fst kv < t) kvs = kvs" using e(1) length_filter_less [of _ kvs "\<lambda>kv. fst kv < t"] by (auto simp: filter_id_conv)
    then have "t \<notin> set (map fst kvs)" by (auto simp: filter_id_conv)
    then have n: "length (filter (\<lambda>kv. fst kv \<le> t) kvs) = length kvs" using count_le [OF o, of t] e(1) by simp
    have "before (length kvs) = list_last kvs" by (simp add: before_def list_last_def)
    then show ?thesis unfolding n e(1) using last_answers [OF assms(1) g(4)] g(1,3) by (simp add: cursor_SeekLE_def cursor_SeekLT_def e(2) ret_of_def)
  qed
  then show ?le ?lt by blast+
qed

section \<open>Runs\<close>

definition cursor_op :: "PageReader \<Rightarrow> Config \<Rightarrow> cop \<Rightarrow> Cursor \<Rightarrow> node_err + pair_ret \<times> Cursor" where
  "cursor_op pr cfg op c =
     (case op of
        OpFirst \<Rightarrow> cursor_First pr cfg c
      | OpLast \<Rightarrow> cursor_Last pr cfg c
      | OpSeek t \<Rightarrow> cursor_Seek pr cfg t c
      | OpSeekGE t \<Rightarrow> cursor_SeekGE pr cfg t c
      | OpSeekLE t \<Rightarrow> cursor_SeekLE pr cfg t c
      | OpSeekLT t \<Rightarrow> cursor_SeekLT pr cfg t c
      | OpNext \<Rightarrow> cursor_Next pr cfg c
      | OpPrev \<Rightarrow> cursor_Prev pr cfg c
      | OpCurrent \<Rightarrow> Inr (cursor_Current c)
      | OpMarkStale \<Rightarrow> Inr ((None, []), MarkStale c))"

fun cursor_run :: "PageReader \<Rightarrow> Config \<Rightarrow> cop list \<Rightarrow> Cursor \<Rightarrow> node_err + (pair_ret \<times> cursor_err option) list" where
  "cursor_run pr cfg [] c = Inr []"
| "cursor_run pr cfg (op # ops) c =
     bind_res (cursor_op pr cfg op c) (\<lambda>(ret, c'). bind_res (cursor_run pr cfg ops c') (\<lambda>rs. Inr ((ret, cursor_Err c') # rs)))"

fun list_run :: "(bytes \<times> bytes) list \<Rightarrow> cop list \<Rightarrow> cpos \<Rightarrow> (pair_ret \<times> cursor_err option) list" where
  "list_run kvs [] p = []"
| "list_run kvs (op # ops) p =
     (let q = list_op kvs op p in (if op = OpMarkStale then (None, []) else ret_of kvs q, err_of q) # list_run kvs ops q)"

lemma agrees_mono: "agrees pr cfg h kvs root n c p \<Longrightarrow> n \<le> m \<Longrightarrow> agrees pr cfg h kvs root m c p"
  unfolding agrees_def by (cases p) (auto intro: order_trans)

lemma agrees_err: "agrees pr cfg h kvs root n c p \<Longrightarrow> cursor_Err c = err_of p"
  by (cases p) (auto simp: agrees_def stands_def here_def cursor_Err_def err_of_def split: bool.splits)

lemma stale_gen:
  assumes "agrees pr cfg h kvs root n c (Stale b)" "n < 2 ^ 64"
  shows "c_gen c \<noteq> c_posGen c" "c_state c = csPositioned"
proof -
  obtain k where k: "0 < k" "k \<le> n" "c_gen c = c_posGen c + word_of_nat k" using assms(1) by (auto simp: agrees_def)
  have "(word_of_nat k :: u64) \<noteq> 0" using k(1,2) assms(2) by (simp add: word_of_nat_eq_0_iff nat_dvd_not_less)
  then show "c_gen c \<noteq> c_posGen c" using k(3) by simp
  show "c_state c = csPositioned" using assms(1) by (simp add: agrees_def)
qed

lemma answered: "answers pr cfg h kvs root res p \<Longrightarrow> \<exists>c'. res = Inr (ret_of kvs p, c') \<and> agrees pr cfg h kvs root (Suc n) c' p"
  by (auto simp: answers_def intro: agrees_mono)

lemma marked:
  assumes "agrees pr cfg h kvs root n c p"
  shows "agrees pr cfg h kvs root (Suc n) (MarkStale c) (list_op kvs OpMarkStale p)"
proof (cases p)
  case (Stale b)
  obtain k where "k \<le> n" "c_gen c = c_posGen c + word_of_nat k" using assms Stale by (auto simp: agrees_def)
  then have "Suc k \<le> Suc n" "c_gen c + 1 = c_posGen c + word_of_nat (Suc k)" by simp_all
  then show ?thesis using assms Stale unfolding agrees_def by (auto simp: list_op_def MarkStale_def intro!: exI [of _ "Suc k"])
next
  case (On j)
  then show ?thesis using assms by (auto simp: agrees_def stands_def here_def list_op_def MarkStale_def intro!: exI [of _ "Suc 0"])
qed (use assms in \<open>simp_all add: agrees_def list_op_def MarkStale_def\<close>)

lemma op_agrees:
  assumes "cursor_tree pr cfg h root kvs" "agrees pr cfg h kvs root n c p" "n < 2 ^ 64"
  shows "\<exists>c'. cursor_op pr cfg op c = Inr (if op = OpMarkStale then (None, []) else ret_of kvs (list_op kvs op p), c') \<and>
    agrees pr cfg h kvs root (Suc n) c' (list_op kvs op p)"
proof -
  have r: "c_rootID c = root" using assms(2) by (simp add: agrees_def)
  note pos = first_answers [OF assms(1) r] last_answers [OF assms(1) r] seek_ge_answers [OF assms(1) r] floor_answers [OF assms(1) r]
  have stale: "cursor_Next pr cfg c = Inr (ret_of kvs (Stale True), c\<lparr>c_err := Some ErrCursorStale\<rparr>) \<and>
      cursor_Prev pr cfg c = Inr (ret_of kvs (Stale True), c\<lparr>c_err := Some ErrCursorStale\<rparr>) \<and>
      cursor_Current c = (ret_of kvs (Stale True), c\<lparr>c_err := Some ErrCursorStale\<rparr>) \<and>
      agrees pr cfg h kvs root (Suc n) (c\<lparr>c_err := Some ErrCursorStale\<rparr>) (Stale True)" if "p = Stale b" for b
    using stale_gen [OF assms(2) [unfolded that] assms(3)] agrees_mono [OF assms(2), of "Suc n"] that
    by (auto simp: cursor_Next_def cursor_Prev_def cursor_Current_def ret_of_def agrees_def)
  note same = agrees_mono [OF assms(2), of "Suc n"]
  have st: "p = Ended \<Longrightarrow> c_state c = csEndOfIteration" "p = Fresh \<Longrightarrow> c_state c = csUnpositioned" using assms(2) by (simp_all add: agrees_def)
  show ?thesis
  proof (cases op)
    case OpNext
    show ?thesis
    proof (cases p)
      case Fresh
      then show ?thesis using answered [OF pos(1), where n = n] st OpNext by (simp add: cursor_op_def list_op_def cursor_Next_def)
    next
      case (On j)
      then show ?thesis using answered [OF next_answers [OF assms(1) assms(2) [unfolded On]], where n = n] OpNext by (simp add: cursor_op_def list_op_def)
    next
      case Ended
      then show ?thesis using same st OpNext by (simp add: cursor_op_def list_op_def cursor_Next_def ret_of_def)
    next
      case (Stale b)
      then show ?thesis using stale OpNext by (simp add: cursor_op_def list_op_def)
    qed
  next
    case OpPrev
    show ?thesis
    proof (cases p)
      case Fresh
      then show ?thesis using answered [OF pos(2), where n = n] st OpPrev by (simp add: cursor_op_def list_op_def cursor_Prev_def)
    next
      case (On j)
      then show ?thesis using answered [OF prev_answers [OF assms(1) assms(2) [unfolded On]], where n = n] OpPrev by (simp add: cursor_op_def list_op_def)
    next
      case Ended
      then show ?thesis using same st OpPrev by (simp add: cursor_op_def list_op_def cursor_Prev_def ret_of_def)
    next
      case (Stale b)
      then show ?thesis using stale OpPrev by (simp add: cursor_op_def list_op_def)
    qed
  next
    case OpCurrent
    show ?thesis
    proof (cases p)
      case (On j)
      then show ?thesis using same assms(2) OpCurrent by (simp add: cursor_op_def list_op_def cursor_Current_def ret_of_def agrees_def stands_def)
    next
      case (Stale b)
      then show ?thesis using stale OpCurrent by (simp add: cursor_op_def list_op_def)
    qed (use same st OpCurrent in \<open>simp_all add: cursor_op_def list_op_def cursor_Current_def ret_of_def\<close>)
  next
    case OpMarkStale
    then show ?thesis using marked [OF assms(2)] by (simp add: cursor_op_def)
  qed (use answered [OF pos(1), where n = n] answered [OF pos(2), where n = n] answered [OF pos(3), where n = n] answered [OF pos(4), where n = n]
      answered [OF pos(5), where n = n] answered [OF pos(6), where n = n] in \<open>simp_all add: cursor_op_def list_op_def\<close>)
qed

lemma run_agrees:
  assumes "cursor_tree pr cfg h root kvs"
  shows "agrees pr cfg h kvs root n c p \<Longrightarrow> n + length ops \<le> 2 ^ 64 \<Longrightarrow> cursor_run pr cfg ops c = Inr (list_run kvs ops p)"
proof (induction ops arbitrary: n c p)
  case (Cons op ops)
  have "n < 2 ^ 64" using Cons.prems(2) by simp
  then obtain c' where c: "cursor_op pr cfg op c = Inr (if op = OpMarkStale then (None, []) else ret_of kvs (list_op kvs op p), c')"
      "agrees pr cfg h kvs root (Suc n) c' (list_op kvs op p)"
    using op_agrees [OF assms Cons.prems(1)] by blast
  have "cursor_run pr cfg ops c' = Inr (list_run kvs ops (list_op kvs op p))" by (rule Cons.IH [OF c(2)]) (use Cons.prems(2) in simp)
  then show ?case using c(1) agrees_err [OF c(2)] by (simp add: Let_def)
qed simp

end
