(* ===== verification/Cursor_Props.thy ===== *)
theory Cursor_Props
  imports Cursor_Run Tree_Props
begin

text \<open>The properties of the cursor.\<close>

section \<open>A concrete tree\<close>

lemma stocked_leafI: "tree pr conf 0 i kvs \<Longrightarrow> kvs \<noteq> [] \<Longrightarrow> stocked pr conf 0 i kvs"
  by (erule leafE) (auto simp: leaf_page_def leaf_node_def intro!: stocked_leaf)

lemma demo_stocked:
  obtains b l r where "EncodeBranch (replicate 4096 0) (demo_leaf_cfg 6 2) 5 [demo_cell] = Inr b"
    "build_leaf (replicate 4096 0) (demo_leaf_cfg 6 2) (take 2 demo_entries) = Inr (Some l)"
    "build_leaf (replicate 4096 0) (demo_leaf_cfg 6 2) (drop 2 demo_entries) = Inr (Some r)"
    "cursor_tree (demo_reader b l r) (demo_leaf_cfg 6 2) 1 3 demo_pairs"
proof -
  let ?c = "demo_leaf_cfg 6 2"
  obtain b l r where n: "build_leaf (replicate 4096 0) ?c (take 2 demo_entries) = Inr (Some l)" "build_leaf (replicate 4096 0) ?c (drop 2 demo_entries) = Inr (Some r)"
      "EncodeBranch (replicate 4096 0) ?c 5 [demo_cell] = Inr b" "branch_page ?c 5 [demo_cell] b"
      "tree (demo_reader b l r) ?c 0 5 (take 2 demo_pairs)" "tree (demo_reader b l r) ?c 0 9 (drop 2 demo_pairs)"
    by (rule demo_nodes)
  let ?pr = "demo_reader b l r"
  have "rd_Page ?pr 3 = Inr b" by (simp add: demo_reader_def)
  then have "branch_node ?pr ?c 3 (child_of 5 [demo_cell]) 1 [[1, 5]] [take 2 demo_pairs, drop 2 demo_pairs]"
    using n(4) demo_split(1,3) demo_split(2) [of ?pr] unfolding branch_node_def by (intro conjI exI [of _ b] exI [of _ 5] exI [of _ "[demo_cell]"]) simp_all
  moreover have "stocked ?pr ?c 0 5 (take 2 demo_pairs)" "stocked ?pr ?c 0 9 (drop 2 demo_pairs)"
    using n(5,6) by (auto simp: demo_pairs_def intro!: stocked_leafI)
  ultimately have "stocked ?pr ?c (Suc 0) 3 (concat [take 2 demo_pairs, drop 2 demo_pairs])"
    using demo_split(4,5) by (intro stocked_branch) (auto simp: le_Suc_eq)
  then have "cursor_tree ?pr ?c 1 3 demo_pairs" by (simp add: cursor_tree_def demo_tree_cfg MaxTreeDepth_def)
  then show ?thesis by (rule that [OF n(3,1,2)])
qed

section \<open>Properties\<close>

text \<open>
  C4. The cursor refines an index into the sorted pairs. Over a tree of at most 64 branch levels and no
  empty leaf, in any mix of layouts, with long keys and values in overflow runs, every sequence of
  First, Last, Seek, SeekGE, SeekLE, SeekLT, Next, Prev, Current and MarkStale calls on a new cursor
  returns what the same calls on the sorted list of pairs return, through all leaf transitions,
  and Err reports after each call exactly the unpositioned and the stale state. No call panics.
\<close>

theorem cursor_refines_list:
  assumes "cursor_tree pr conf h root kvs" "length ops \<le> 2 ^ 64"
  shows "cursor_run pr conf ops (NewReadCursor root) = Inr (list_run kvs ops Fresh)"
  by (rule run_agrees [OF assms(1), of 0]) (use assms(2) in \<open>simp_all add: agrees_def NewReadCursor_def\<close>)

theorem cursor_refines_list_witness:
  "\<exists>b l r. EncodeBranch (replicate 4096 0) (demo_leaf_cfg 6 2) 5 [demo_cell] = Inr b \<and>
    build_leaf (replicate 4096 0) (demo_leaf_cfg 6 2) (take 2 demo_entries) = Inr (Some l) \<and>
    build_leaf (replicate 4096 0) (demo_leaf_cfg 6 2) (drop 2 demo_entries) = Inr (Some r) \<and>
    cursor_run (demo_reader b l r) (demo_leaf_cfg 6 2) [OpNext, OpNext, OpNext, OpNext, OpSeekLT [1, 7], OpMarkStale, OpNext] (NewReadCursor 3) =
      Inr [((Some [1, 2], [9]), None), ((Some [1, 2, 3], demo_value), None), ((Some [1, 7], []), None), ((None, []), None),
        ((Some [1, 2, 3], demo_value), None), ((None, []), None), ((None, []), Some ErrCursorStale)]"
proof -
  obtain b l r where d: "EncodeBranch (replicate 4096 0) (demo_leaf_cfg 6 2) 5 [demo_cell] = Inr b"
      "build_leaf (replicate 4096 0) (demo_leaf_cfg 6 2) (take 2 demo_entries) = Inr (Some l)"
      "build_leaf (replicate 4096 0) (demo_leaf_cfg 6 2) (drop 2 demo_entries) = Inr (Some r)"
      "cursor_tree (demo_reader b l r) (demo_leaf_cfg 6 2) 1 3 demo_pairs"
    by (rule demo_stocked)
  let ?ops = "[OpNext, OpNext, OpNext, OpNext, OpSeekLT [1, 7], OpMarkStale, OpNext]"
  have "list_run demo_pairs ?ops Fresh = [((Some [1, 2], [9]), None), ((Some [1, 2, 3], demo_value), None), ((Some [1, 7], []), None), ((None, []), None),
      ((Some [1, 2, 3], demo_value), None), ((None, []), None), ((None, []), Some ErrCursorStale)]"
    by (simp add: demo_pairs_def list_op_def list_first_def before_def ret_of_def err_of_def)
  then show ?thesis using cursor_refines_list [OF d(4), of ?ops] d(1-3) by auto
qed

text \<open>
  C15. A cursor whose re-positioning failed panics on a later step. The cursor stands on the last pair of
  the tree; the page of the root then fails to read in First, which reports the error but leaves the
  cursor positioned, with its old iterator and an empty path. The next call to Next, even with the
  pages readable again, finds the iterator at its end and slices the empty path.
\<close>

theorem failed_reposition_panics:
  assumes "cursor_tree pr conf h root kvs" "root \<noteq> 0" "rd_Page pr' root = Inl e" "\<not> panics (rd_Page pr' root)"
  shows "\<exists>c c'. cursor_Last pr conf (NewReadCursor root) = Inr ((Some (fst (last kvs)), snd (last kvs)), c) \<and>
    cursor_First pr' conf c = Inr ((None, []), c') \<and> cursor_Err c' = Some (PageError e) \<and> cursor_Next pr conf c' = Inl (Panic PanicBounds)"
proof -
  have "stocked pr conf h root kvs" using assms(1,2) by (simp add: cursor_tree_def)
  note ne = stocked_pairs [OF this]
  have "answers pr conf h kvs root (cursor_Last pr conf (NewReadCursor root)) (On (length kvs - 1))"
    using last_answers [OF assms(1), of "NewReadCursor root"] ne by (simp add: NewReadCursor_def list_last_def)
  then obtain c where c: "cursor_Last pr conf (NewReadCursor root) = Inr ((Some (fst (last kvs)), snd (last kvs)), c)" "stands pr conf h kvs c (length kvs - 1)" "c_rootID c = root"
    using ne by (auto simp: answers_def agrees_def ret_of_def last_conv_nth)
  obtain bef es lk aft at m r where w: "leaf_index es r at" "at (c_iter c) (Suc m)" "m < length lk" "length kvs - 1 = length bef + m" "kvs = bef @ lk @ aft" "length es = length lk"
    using c(2) unfolding stands_def here_def by (auto dest: list_all2_lengthD)
  have "Suc m = length es" using w(3-6) by simp
  then have n: "iter_Next (c_iter c) = Inr (None, c_iter c)" using leaf_index.at_next [OF w(1,2)] by simp
  let ?c = "(resetPath (c\<lparr>c_err := None\<rparr>))\<lparr>c_path := [], c_err := Some (PageError e)\<rparr>"
  have "caught (Inl e :: node_err + LeafReader) = Inr (Inl e)" using assms(3,4) by (simp add: caught_def panics_Inl)
  then have f: "cursor_First pr' conf c = Inr ((None, []), ?c)"
    using assms(2,3) c(3) by (simp add: cursor_First_def reposition_def descendLeftmost_def descendLeftmostFrom_def on_leaf_def visit_def resetPath_def Let_def)
  have "cursor_Next pr conf ?c = Inl (Panic PanicBounds)"
    using c(2) n by (simp add: cursor_Next_def stands_def resetPath_def next_leaf_first_def advanceToNextLeaf_def to_sibling_def)
  moreover have "cursor_Err ?c = Some (PageError e)" by (simp add: cursor_Err_def)
  ultimately show ?thesis using c(1) f by blast
qed

theorem failed_reposition_panics_witness:
  "\<exists>b l r c c'. cursor_Last (demo_reader b l r) (demo_leaf_cfg 6 2) (NewReadCursor 3) = Inr ((Some [1, 7], []), c) \<and>
    cursor_First \<lparr>rd_Page = \<lambda>_. Inl (node_err.Failed 5), rd_PageRun = \<lambda>_. Inl (node_err.Failed 5)\<rparr> (demo_leaf_cfg 6 2) c = Inr ((None, []), c') \<and>
    cursor_Next (demo_reader b l r) (demo_leaf_cfg 6 2) c' = Inl (Panic PanicBounds)"
proof -
  obtain b l r where d: "cursor_tree (demo_reader b l r) (demo_leaf_cfg 6 2) 1 3 demo_pairs" by (rule demo_stocked)
  have p: "last demo_pairs = ([1, 7], [])" by (simp add: demo_pairs_def)
  show ?thesis
    using failed_reposition_panics [OF d, of "\<lparr>rd_Page = \<lambda>_. Inl (node_err.Failed 5), rd_PageRun = \<lambda>_. Inl (node_err.Failed 5)\<rparr>" "node_err.Failed 5"]
    unfolding p by fastforce
qed

end
