(* ===== verification/Spec2Isabelle.thy ===== *)
theory Spec2Isabelle
  imports Bitmap_Free Index_Props Format_Props Close_Gate Savepoint_Props Tx_Props Space_Props Alloc_Safe Branch_Props Leaf_Props Tree_Props Cursor_Props
begin

text \<open>
  Verification of gmdb, an embedded key-value store in Go: a single file of fixed-size pages, a
  copy-on-write tree of leaf and branch pages for each keyspace, a pager that owns the free pages and
  commits by swapping between two meta pages, and secondary indexes whose keys are ordered byte
  strings. All paths are under \<^verbatim>\<open>src/\<close>.

  \<^bold>\<open>The parts and how they interact.\<close> The public interface opens transactions on a pager and trees
  on a transaction. A tree reads and writes pages by number through the pager. The pager serves a
  page from the slab of dirty buffers of the write transaction, or else from the mapped file; it
  allocates page numbers from loose pages, from the allocation bitmap, by reclaiming retired pages of
  old commits, or by growing the file. A commit assembles the retired-page log and the bitmap pages,
  writes every dirty page, syncs, writes the older of the two meta pages, and syncs again; opening a
  file picks the valid meta page with the higher transaction number. Savepoints inside a transaction
  roll the pager back in memory. A page holds a header, its content and, when the configuration says
  so, a checksum; node pages are branches in two layouts and leaves in three; long values and long
  keys continue in overflow runs.

  \<^bold>\<open>Conventions.\<close> Go's fixed-width integers are words where they can wrap or are stored; offsets and
  counts inside one page are natural numbers, and integers where the source's arithmetic can go below
  zero. Slices are byte lists. A returned error and a panic are values of an error type: an access
  out of range is the panic it is in Go, and that none happens is proved, not assumed. Loops are
  recursion with a termination proof. A descent in a tree takes the code's own bound as its fuel:
  \<open>MaxTreeDepth\<close> + 1 = 65 rounds, and running out of it is the error the code returns, so nothing has
  to be shown about fuel beyond the code's own limit. The hash functions (XXH3), the file system
  calls, the reader of pages below a tree and the comparison with a key extent below a page are
  parameters; what is relied on is in the statements.

  \<^bold>\<open>Foundations.\<close> \<open>Gmdb_Prelude\<close>: words, little-endian accessors, bit counting, list lemmas. \<open>Buffer\<close>:
  checked reads and writes of page buffers, \<^verbatim>\<open>bytes.Compare\<close>, the binary searches. \<open>Codec\<close>, \<open>Free_Set\<close>:
  contracts of codecs and of free-page structures, as locales.

  \<^bold>\<open>Allocation bitmap\<close> (\<^verbatim>\<open>internal/bitmap\<close>). \<open>Bitmap\<close> has the operations; \<open>Bitmap_Inv\<close>, \<open>Bitmap_Scan\<close>,
  \<open>Bitmap_Count\<close> the refinement to a set of free pages, with the word-level scans; \<open>Bitmap_Snapshot\<close> and
  \<open>Bitmap_Dirty\<close> the snapshots and the dirty set over arbitrary histories; \<open>Bitmap_Free\<close> the properties.

  \<^bold>\<open>Index formats\<close> (\<^verbatim>\<open>internal/indexing\<close>). \<open>Uvarint\<close>, \<open>Index_Key\<close>, \<open>Index_Entry\<close>, \<open>Index_Registry\<close> have the
  codecs, \<open>Index_Props\<close> their round trips and the preservation of order.

  \<^bold>\<open>Page formats of the pager\<close> (\<^verbatim>\<open>internal/page/page.go\<close>, \<^verbatim>\<open>internal/pager/meta.go\<close>, \<^verbatim>\<open>rplformat.go\<close>,
  \<^verbatim>\<open>rplwalk.go\<close>, \<^verbatim>\<open>internal/descriptor\<close>). \<open>Page_Base\<close>, \<open>Meta\<close>, \<open>RPL_Format\<close>, \<open>RPL_Walk\<close>, \<open>Descriptor\<close>;
  \<open>Format_Props\<close> shows the meta swap atomic, the round trips, and the walk of the retired-page chain
  sound and complete.

  \<^bold>\<open>Pager\<close> (\<^verbatim>\<open>internal/pager\<close>). The state is one record (\<open>Pager_State\<close>), every operation a function of it:
  \<open>Pager_Slab\<close> page access, \<open>Pager_Run\<close> overflow-run reads, \<open>Freespace\<close> the allocator, \<open>Savepoint\<close> savepoints
  and the transaction boundary, \<open>Commit\<close> the commit. \<open>Pager_Rel\<close> and \<open>Pager_Guard\<close> are the relational logics
  the proofs use; \<open>Window\<close>, \<open>Window_Ops\<close>, \<open>Savepoint_Exact\<close>, \<open>Savepoint_Trace\<close>, \<open>Savepoint_Props\<close> show that a
  restore is exact whatever ran before it; \<open>Tx_Abort\<close>, \<open>Tx_Props\<close> the same for aborted and failed
  transactions; \<open>Commit_Quiet\<close>, \<open>Commit_Crash\<close>, \<open>Commit_Props\<close> that a crash at any point of a commit leaves
  the old or the new meta page, and that a finished commit is durable; \<open>Space_Lemmas\<close>, \<open>Space_Props\<close>,
  \<open>Alloc_Safe\<close> the space management. \<open>Pager_Demo\<close> is the concrete pager of the instances.

  \<^bold>\<open>Close gate\<close> (\<^verbatim>\<open>internal/closegate\<close>). \<open>Close_Gate\<close>: every interleaving of the atomic operations as a
  step relation; safety and draining by rule induction.

  \<^bold>\<open>Branch pages\<close> (\<^verbatim>\<open>internal/page/branch.go\<close>, \<^verbatim>\<open>branch_segregated.go\<close>). \<open>Branch\<close> has both layouts;
  \<open>Branch_Plain\<close>, \<open>Branch_Seg\<close> what the encoders write; \<open>Branch_Safe\<close> robustness; \<open>Branch_Props\<close> the contract
  \<open>branch_format\<close> that both layouts provide.

  \<^bold>\<open>Leaf pages\<close> (\<^verbatim>\<open>internal/page/leaf*.go\<close>, \<^verbatim>\<open>restart.go\<close>). \<open>Leaf\<close>, \<open>Leaf_Valid\<close>, \<open>Leaf_Build\<close>, \<open>Leaf_Iter\<close> have
  readers, validation, builder and iterators of the three layouts. \<open>Leaf_Codec\<close>, \<open>Leaf_Uc\<close>, \<open>Leaf_Groups\<close>,
  \<open>Leaf_Comp\<close>, \<open>Leaf_Seg\<close>, \<open>Leaf_Seg_Build\<close> describe the pages; \<open>Leaf_Accept\<close>, \<open>Leaf_Accept_Seg\<close> show that
  validation accepts them; \<open>Leaf_Safe\<close>, \<open>Leaf_Safe_Seg\<close> that an accepted page is read without a panic;
  \<open>Leaf_Props\<close> the contract \<open>leaf_format\<close>; \<open>Leaf_Scan\<close>, \<open>Leaf_Seek\<close>, \<open>Leaf_Walks\<close>, \<open>Leaf_Moves\<close> that an iterator is
  an index into the entries, through the contracts \<open>leaf_stream\<close>, \<open>leaf_seek\<close> and \<open>leaf_index\<close>.

  \<^bold>\<open>Overflow runs and the tree\<close> (\<^verbatim>\<open>internal/page/overflow.go\<close>, \<^verbatim>\<open>internal/btree\<close>). \<open>Overflow\<close>, \<open>Overflow_Run\<close>:
  runs. \<open>Tree_Read\<close>: the lookups and the descent of a write. \<open>Tree_Safe\<close>: what the tree relies on from a
  page reader, as the locale \<open>page_reader\<close>, and the absence of panics on arbitrary pages.
  \<open>Tree_Map\<close>: the relation between a tree of pages and its pairs, over the contracts of
  the node pages; \<open>Tree_Props\<close>: the pager provides \<open>page_reader\<close>, and Get and Has
  refine the map.

  \<^bold>\<open>Cursor\<close> (\<^verbatim>\<open>internal/btree/cursor.go\<close>). \<open>Cursor\<close> has its state machine; \<open>Cursor_Path\<close> says where a path
  stands in a tree; \<open>Cursor_Run\<close> relates the cursor to an index into the sorted pairs; \<open>Cursor_Props\<close> has the
  refinement, and the panic after a failed re-positioning. The generation counters wrap at 64 bits,
  so the refinement is stated for at most 2 ^ 64 calls.

  \<^bold>\<open>Not modelled.\<close> The writes of the tree (insertion, deletion, splits, merges, splices, relocation,
  and \<^verbatim>\<open>Cursor.Delete\<close> with them), the sub-pages and member trees of set keyspaces, and the walks behind
  Check: they rewrite pages through the pager and are the next part to model. The lock file and
  the reader table: shared memory between processes, which needs a memory model of its own. Opening
  and mapping the file: operating system calls, which enter as operations of the file record. The
  database, transaction, keyspace, query and typed layers: wiring over the parts above. The scratch
  buffers and the aliasing of returned slices: a returned key or value is the byte string at the time
  of the return.
\<close>

end
